(* ===== verification/Prelude.thy ===== *)
theory Prelude
  imports Main "HOL-Library.AList"
begin

text \<open>
  The vocabulary shared by every component of the model: Go maps as association lists with
  distinct keys, Go times and durations as integers (nanoseconds), Go strings as byte lists,
  the functions of the Go standard library the sources call on them, and the last-n view of a
  bounded history.

  A Go map has no iteration order. A map is modelled by an association list with distinct
  keys (\<open>gm_wf\<close>); an iteration visits the entries in list order, and since every theorem is
  about all such lists it holds for every order an iteration can take.
\<close>

named_theorems gomap_simps \<open>lookup, domain and well-formedness equations of Go maps\<close>
named_theorems wf_intros \<open>introduction rules: an operation keeps a well-formedness invariant\<close>

section \<open>Go maps\<close>

type_synonym ('k, 'v) gomap = "('k \<times> 'v) list"

abbreviation gm_get :: "('k, 'v) gomap \<Rightarrow> 'k \<Rightarrow> 'v option" where
  "gm_get m k \<equiv> map_of m k"

abbreviation gm_put :: "'k \<Rightarrow> 'v \<Rightarrow> ('k, 'v) gomap \<Rightarrow> ('k, 'v) gomap" where
  "gm_put k v m \<equiv> AList.update k v m"

abbreviation gm_del :: "'k \<Rightarrow> ('k, 'v) gomap \<Rightarrow> ('k, 'v) gomap" where
  "gm_del k m \<equiv> AList.delete k m"

text \<open>Mutation of the value a map holds for a key, through the pointer stored there.\<close>

definition gm_mod :: "'k \<Rightarrow> ('v \<Rightarrow> 'v) \<Rightarrow> ('k, 'v) gomap \<Rightarrow> ('k, 'v) gomap" where
  "gm_mod k f m = map (\<lambda>(k', v). (k', if k' = k then f v else v)) m"

definition gm_wf :: "('k, 'v) gomap \<Rightarrow> bool" where
  "gm_wf m \<longleftrightarrow> distinct (map fst m)"

definition gm_keys :: "('k, 'v) gomap \<Rightarrow> 'k list" where
  "gm_keys m = map fst m"

lemma map_fst_gm_mod [simp]: "map fst (gm_mod k f m) = map fst m"
  by (simp add: gm_mod_def comp_def case_prod_beta)

lemma gm_get_mod [simp, gomap_simps]:
  "gm_get (gm_mod k f m) k' = (if k' = k then map_option f (gm_get m k) else gm_get m k')"
  by (induction m) (auto simp: gm_mod_def)

lemma gm_get_put [simp, gomap_simps]:
  "gm_get (gm_put k v m) k' = (if k' = k then Some v else gm_get m k')"
  by (simp add: update_conv')

lemma gm_get_del [simp, gomap_simps]:
  "gm_get (gm_del k m) k' = (if k' = k then None else gm_get m k')"
  by (simp add: delete_conv')

lemma gm_wf_Nil [simp, wf_intros]: "gm_wf []"
  by (simp add: gm_wf_def)

lemma gm_wf_put [simp, wf_intros]: "gm_wf m \<Longrightarrow> gm_wf (gm_put k v m)"
  by (simp add: gm_wf_def distinct_update)

lemma gm_wf_del [simp, wf_intros]: "gm_wf m \<Longrightarrow> gm_wf (gm_del k m)"
  by (simp add: gm_wf_def distinct_delete)

lemma gm_wf_mod [simp, wf_intros]: "gm_wf (gm_mod k f m) = gm_wf m"
  by (simp add: gm_wf_def)

lemma gm_wf_filter [simp, wf_intros]: "gm_wf m \<Longrightarrow> gm_wf (filter P m)"
  by (simp add: gm_wf_def distinct_map_filter)

lemma gm_get_filter [gomap_simps]:
  "gm_wf m \<Longrightarrow> gm_get (filter P m) k
     = (case gm_get m k of None \<Rightarrow> None | Some v \<Rightarrow> if P (k, v) then Some v else None)"
proof (induction m)
  case Nil
  then show ?case by simp
next
  case (Cons p m)
  obtain k' v' where p: "p = (k', v')" by (cases p)
  from Cons.prems have wf: "gm_wf m" and notin: "k' \<notin> fst ` set m"
    by (auto simp: gm_wf_def p)
  from notin have none: "gm_get m k' = None"
    by (simp add: map_of_eq_None_iff)
  from Cons.IH[OF wf] none show ?case
    by (auto simp: p split: option.splits)
qed

lemma gm_wf_map_snd [simp, wf_intros]:
  "(\<And>p. fst (f p) = fst p) \<Longrightarrow> gm_wf (map f m) = gm_wf m"
  by (simp add: gm_wf_def comp_def)

lemma gm_get_map_snd [gomap_simps]:
  "gm_get (map (\<lambda>(k, v). (k, f k v)) m) k = map_option (f k) (gm_get m k)"
  by (induction m) auto

lemma gm_get_SomeD: "gm_get m k = Some v \<Longrightarrow> (k, v) \<in> set m"
  by (rule map_of_SomeD)

lemma gm_get_Some_iff: "gm_wf m \<Longrightarrow> gm_get m k = Some v \<longleftrightarrow> (k, v) \<in> set m"
  by (simp add: gm_wf_def)

lemma gm_get_None_iff: "gm_get m k = None \<longleftrightarrow> k \<notin> set (gm_keys m)"
  by (simp add: gm_keys_def map_of_eq_None_iff)

lemma gm_put_fresh: "gm_get m k = None \<Longrightarrow> gm_put k v m = m @ [(k, v)]"
  by (induction m) (auto split: if_splits)

lemma gm_del_fresh: "gm_get m k = None \<Longrightarrow> gm_del k m = m"
  by (rule delete_id) (simp add: map_of_eq_None_iff)

lemma gm_del_put_fresh: "gm_get m k = None \<Longrightarrow> gm_del k (gm_put k v m) = m"
  by (simp add: delete_update_same gm_del_fresh)

section \<open>Counting the entries of a map\<close>

definition gm_count :: "('k \<times> 'v \<Rightarrow> bool) \<Rightarrow> ('k, 'v) gomap \<Rightarrow> nat" where
  "gm_count P m = length (filter P m)"

lemma gm_count_put_fresh:
  "gm_get m k = None \<Longrightarrow> gm_count P (gm_put k v m) = gm_count P m + (if P (k, v) then 1 else 0)"
  by (simp add: gm_put_fresh gm_count_def)

lemma gm_count_mod_le:
  "(\<And>v. P (k, f v) \<Longrightarrow> P (k, v)) \<Longrightarrow> gm_count P (gm_mod k f m) \<le> gm_count P m"
  by (induction m) (auto simp: gm_count_def gm_mod_def comp_def split: if_splits)

lemma gm_count_filter_le: "gm_count P (filter Q m) \<le> gm_count P m"
  by (simp add: gm_count_def filter_filter conj_commute)
     (metis filter_filter length_filter_le)

section \<open>The last n elements of a history\<close>

definition last_n :: "nat \<Rightarrow> 'a list \<Rightarrow> 'a list" where
  "last_n n xs = drop (length xs - n) xs"

lemma length_last_n [simp]: "length (last_n n xs) = min n (length xs)"
  by (simp add: last_n_def)

lemma last_n_id: "length xs \<le> n \<Longrightarrow> last_n n xs = xs"
  by (simp add: last_n_def)

lemma last_n_last_n: "last_n n (last_n n xs) = last_n n xs"
  by (simp add: last_n_def)

lemma last_n_append_last_n: "last_n n (last_n n xs @ ys) = last_n n (xs @ ys)"
proof (cases "length xs \<le> n")
  case True
  then show ?thesis by (simp add: last_n_id)
next
  case False
  then show ?thesis by (simp add: last_n_def add.commute)
qed

lemma last_last_n: "0 < n \<Longrightarrow> last_n n (xs @ [x]) = last_n (n - 1) xs @ [x]"
  by (cases n) (simp_all add: last_n_def Suc_diff_le)

lemma last_n_suffix: "\<exists>us. xs = us @ last_n n xs"
  by (metis append_take_drop_id last_n_def)

lemma set_last_n: "set (last_n n xs) \<subseteq> set xs"
  by (simp add: last_n_def set_drop_subset)

section \<open>Counting over a list of processes\<close>

lemma sum_map_list_update:
  fixes f :: "'a \<Rightarrow> nat"
  shows "i < length xs \<Longrightarrow> sum_list (map f (xs[i := x])) + f (xs ! i) = sum_list (map f xs) + f x"
proof (induction xs arbitrary: i)
  case (Cons y ys)
  then show ?case by (cases i) auto
qed simp

lemma length_filter_list_update:
  "i < length xs \<Longrightarrow>
     length (filter P (xs[i := x])) + (if P (xs ! i) then 1 else 0) = length (filter P xs) + (if P x then 1 else 0)"
proof (induction xs arbitrary: i)
  case (Cons y ys)
  then show ?case by (cases i) (auto split: if_splits)
qed simp

section \<open>Go strings\<close>

text \<open>
  A Go string is a list of bytes. \<open>strings.ToLower\<close>, \<open>strings.EqualFold\<close> and
  \<open>strings.TrimSpace\<close> are modelled on ASCII, bytes above 127 are left as they are.
\<close>

definition is_space :: "char \<Rightarrow> bool" where
  "is_space c \<longleftrightarrow> (of_char c :: nat) \<in> {9, 10, 11, 12, 13, 32}"

definition trim_left :: "string \<Rightarrow> string" where
  "trim_left s = dropWhile is_space s"

definition trim_right :: "string \<Rightarrow> string" where
  "trim_right s = rev (dropWhile is_space (rev s))"

definition trim_space :: "string \<Rightarrow> string" where
  "trim_space s = trim_right (trim_left s)"

definition char_lower :: "char \<Rightarrow> char" where
  "char_lower c = (let n = (of_char c :: nat) in
     if 65 \<le> n \<and> n \<le> 90 then char_of (n + 32) else c)"

definition to_lower :: "string \<Rightarrow> string" where
  "to_lower s = map char_lower s"

definition equal_fold :: "string \<Rightarrow> string \<Rightarrow> bool" where
  "equal_fold s t \<longleftrightarrow> to_lower s = to_lower t"

fun has_prefix :: "string \<Rightarrow> string \<Rightarrow> bool" where
  "has_prefix s [] = True"
| "has_prefix [] (p # ps) = False"
| "has_prefix (c # s) (p # ps) = (c = p \<and> has_prefix s ps)"

fun contains_str :: "string \<Rightarrow> string \<Rightarrow> bool" where
  "contains_str [] p = (p = [])"
| "contains_str (c # s) p = (has_prefix (c # s) p \<or> contains_str s p)"

definition contains_any :: "string \<Rightarrow> string \<Rightarrow> bool" where
  "contains_any s cs = list_ex (\<lambda>c. c \<in> set cs) s"

text \<open>\<open>strings.Join\<close>.\<close>

fun join_with :: "string \<Rightarrow> string list \<Rightarrow> string" where
  "join_with sep [] = []"
| "join_with sep [x] = x"
| "join_with sep (x # y # ys) = x @ sep @ join_with sep (y # ys)"

text \<open>The decimal rendering \<open>%d\<close> of \<open>fmt.Sprintf\<close>.\<close>

fun show_nat :: "nat \<Rightarrow> string" where
  "show_nat n = (if n < 10 then [char_of (48 + n)] else show_nat (n div 10) @ [char_of (48 + n mod 10)])"

declare show_nat.simps [simp del]

definition show_int :: "int \<Rightarrow> string" where
  "show_int i = (if i < 0 then ''-'' @ show_nat (nat (- i)) else show_nat (nat i))"

lemma has_prefix_iff: "has_prefix s p \<longleftrightarrow> (\<exists>r. s = p @ r)"
  by (induction s p rule: has_prefix.induct) auto

lemma length_to_lower [simp]: "length (to_lower s) = length s"
  by (simp add: to_lower_def)

lemma to_lower_Nil [simp]: "to_lower [] = []"
  by (simp add: to_lower_def)

lemma char_lower_idem [simp]: "char_lower (char_lower c) = char_lower c"
proof (cases "65 \<le> (of_char c :: nat) \<and> (of_char c :: nat) \<le> 90")
  case True
  then have "(of_char (char_of ((of_char c :: nat) + 32) :: char) :: nat) = of_char c + 32"
    by simp
  with True show ?thesis by (simp add: char_lower_def Let_def)
next
  case False
  then show ?thesis by (auto simp add: char_lower_def Let_def)
qed

lemma to_lower_idem [simp]: "to_lower (to_lower s) = to_lower s"
  by (simp add: to_lower_def)

lemma equal_fold_refl [simp]: "equal_fold s s"
  by (simp add: equal_fold_def)

lemma equal_fold_sym: "equal_fold s t = equal_fold t s"
  by (auto simp: equal_fold_def)

lemma trim_space_Nil [simp]: "trim_space [] = []"
  by (simp add: trim_space_def trim_left_def trim_right_def)

text \<open>\<open>strings.SplitN(s, sep, 2)\<close> at a one-byte separator: \<open>None\<close> when it does not occur.\<close>

fun split_first :: "char \<Rightarrow> string \<Rightarrow> (string \<times> string) option" where
  "split_first sep [] = None"
| "split_first sep (c # s) =
     (if c = sep then Some ([], s)
      else map_option (\<lambda>(a, b). (c # a, b)) (split_first sep s))"

lemma split_first_Some: "split_first sep s = Some (a, b) \<Longrightarrow> s = a @ sep # b \<and> sep \<notin> set a"
  by (induction s arbitrary: a) (auto split: if_splits)

text \<open>\<open>strings.Split(s, sep)\<close> at a one-byte separator.\<close>

fun split_on :: "char \<Rightarrow> string \<Rightarrow> string list" where
  "split_on sep [] = [[]]"
| "split_on sep (c # s) =
     (if c = sep then [] # split_on sep s
      else case split_on sep s of [] \<Rightarrow> [[c]] | x # xs \<Rightarrow> (c # x) # xs)"

lemma split_on_ne [simp]: "split_on sep s \<noteq> []"
  by (induction s) (auto split: list.splits)

lemma split_on_app: "split_on sep (s @ sep # t) = split_on sep s @ split_on sep t"
  by (induction s) (auto split: list.splits)

lemma split_on_free: "sep \<notin> set s \<Longrightarrow> split_on sep s = [s]"
  by (induction s) auto

lemma split_on_parts: "x \<in> set (split_on sep s) \<Longrightarrow> sep \<notin> set x"
  by (induction s arbitrary: x) (auto split: list.splits if_splits)

section \<open>Decoded JSON values\<close>

text \<open>
  A Go value of type \<open>any\<close> decoded from JSON. Numbers are the integers the sources read;
  a type assertion \<open>v.(string)\<close> that fails gives the empty string.
\<close>

datatype json = JNull | JBool bool | JNum int | JStr string | JArr "json list"
  | JObj "(string \<times> json) list"

type_synonym json_args = "(string, json) gomap"

definition as_string :: "json option \<Rightarrow> string option" where
  "as_string v = (case v of Some (JStr s) \<Rightarrow> Some s | _ \<Rightarrow> None)"

definition arg_string :: "json_args \<Rightarrow> string \<Rightarrow> string" where
  "arg_string args k = (case as_string (gm_get args k) of Some s \<Rightarrow> s | None \<Rightarrow> [])"

text \<open>The string elements of an array argument; anything else contributes nothing.\<close>

definition arg_strings :: "json_args \<Rightarrow> string \<Rightarrow> string list" where
  "arg_strings args k =
     (case gm_get args k of
        Some (JArr vs) \<Rightarrow> concat (map (\<lambda>v. case v of JStr s \<Rightarrow> [s] | _ \<Rightarrow> []) vs)
      | _ \<Rightarrow> [])"

section \<open>Go times\<close>

text \<open>
  A \<open>time.Time\<close> is an integer number of nanoseconds since the zero time, so
  \<open>IsZero\<close> is equality with 0; a \<open>time.Duration\<close> is an integer number of nanoseconds.
  The clock (\<open>time.Now()\<close>) is an argument of the operations that read it.
\<close>

type_synonym gotime = int
type_synonym duration = int

abbreviation t_zero :: gotime where
  "t_zero \<equiv> 0"

definition second :: duration where
  "second = 1000000000"

definition minute :: duration where
  "minute = 60 * second"

definition hour :: duration where
  "hour = 60 * minute"

lemmas duration_defs = second_def minute_def hour_def

section \<open>Results\<close>

text \<open>A Go result \<open>(value, error)\<close> is a sum: \<open>Inl\<close> the error, \<open>Inr\<close> the value.\<close>

definition is_ok :: "'e + 'a \<Rightarrow> bool" where
  "is_ok r = (case r of Inl _ \<Rightarrow> False | Inr _ \<Rightarrow> True)"

lemma is_ok_simps [simp]: "is_ok (Inr x)" "\<not> is_ok (Inl e)"
  by (simp_all add: is_ok_def)

section \<open>Replacement and occurrence of strings\<close>

text \<open>\<^verbatim>\<open>strings.ReplaceAll(s, old, new)\<close> for a nonempty \<open>old\<close>, the only case that occurs.\<close>

function replace_all :: "string \<Rightarrow> string \<Rightarrow> string \<Rightarrow> string" where
  "replace_all old new [] = []"
| "replace_all old new (c # s) =
     (if old \<noteq> [] \<and> has_prefix (c # s) old
      then new @ replace_all old new (drop (length old) (c # s))
      else c # replace_all old new s)"
  by pat_completeness auto
termination
proof (relation "measure (\<lambda>(old, new, s). length s)", goal_cases)
  case 1
  then show ?case by simp
next
  case (2 old new c s)
  then show ?case by (cases old) simp_all
next
  case (3 old new c s)
  then show ?case by simp
qed

text \<open>\<^verbatim>\<open>strings.Replace(s, old, new, 1)\<close>.\<close>

fun replace_first :: "string \<Rightarrow> string \<Rightarrow> string \<Rightarrow> string" where
  "replace_first old new [] = (if old = [] then new else [])"
| "replace_first old new (c # s) =
     (if has_prefix (c # s) old then new @ drop (length old) (c # s) else c # replace_first old new s)"

text \<open>\<^verbatim>\<open>strings.TrimRight(s, "\n")\<close>.\<close>

definition trim_newlines :: "string \<Rightarrow> string" where
  "trim_newlines s = rev (dropWhile (\<lambda>c. c = CHR 0x0A) (rev s))"

lemma contains_str_iff: "contains_str s p \<longleftrightarrow> (\<exists>a b. s = a @ p @ b)"
proof (induction s)
  case Nil
  then show ?case by simp
next
  case (Cons c s)
  show ?case
  proof
    assume "contains_str (c # s) p"
    then consider b where "c # s = p @ b" | a b where "s = a @ p @ b"
      using Cons.IH by (auto simp: has_prefix_iff)
    then show "\<exists>a b. c # s = a @ p @ b"
    proof cases
      case (1 b)
      then show ?thesis by (metis append_Nil)
    next
      case (2 a b)
      then show ?thesis by (metis append_Cons)
    qed
  next
    assume "\<exists>a b. c # s = a @ p @ b"
    then obtain a b where "c # s = a @ p @ b" by blast
    then have "(\<exists>b. c # s = p @ b) \<or> (\<exists>a b. s = a @ p @ b)" by (cases a) auto
    then show "contains_str (c # s) p"
      using Cons.IH unfolding contains_str.simps has_prefix_iff by blast
  qed
qed

lemma replace_all_absent: "\<not> contains_str s old \<Longrightarrow> replace_all old new s = s"
  by (induction old new s rule: replace_all.induct) simp_all

lemma contains_str_mono: "contains_str s (p @ q) \<Longrightarrow> contains_str s p"
  by (metis append.assoc contains_str_iff)

end
