(* ===== verification/Interfaces.thy ===== *)
theory Interfaces
  imports Prelude
begin

text \<open>
  The contracts the components of the model provide to each other, as locales. Each states
  the laws once, proves what follows from them, and is interpreted on the model's own
  definitions in the theory of the component that provides it:
  \<^item> \<open>bounded_log\<close>: a history that keeps the newest entries (audit log and thread bus of the
    thread manager, output ring of the swarm, audit log of the user hooks, replay ring of the web socket hub,
    history of an agent);
  \<^item> \<open>lifecycle\<close>: a state machine whose terminal statuses are final (thread manager);
  \<^item> \<open>breaker\<close>: a failure counter that trips at a threshold (relay circuit breaker, endpoint
    health of the delivery queue, tool servers, slow clients of the hub);
  \<^item> \<open>digraph\<close>: a dependency graph given by a successor function over finitely many nodes
    (thread dependencies and their persisted form, sub-workflow references, imports of packages);
  \<^item> \<open>capability\<close>: a check that succeeds only for what was granted (approval tokens, the
    allow-list of the permission gate).
\<close>

section \<open>Bounded histories\<close>

locale bounded_log =
  fixes cap :: "'s \<Rightarrow> nat"
    and push :: "'e \<Rightarrow> 's \<Rightarrow> 's"
    and view :: "'s \<Rightarrow> 'e list"
    and ok :: "'s \<Rightarrow> bool"
  assumes cap_pos: "ok s \<Longrightarrow> 0 < cap s"
    and cap_push: "ok s \<Longrightarrow> cap (push e s) = cap s"
    and ok_push: "ok s \<Longrightarrow> ok (push e s)"
    and view_push: "ok s \<Longrightarrow> view (push e s) = last_n (cap s) (view s @ [e])"
begin

lemma ok_fold: "ok s \<Longrightarrow> ok (fold push es s)"
  by (induction es arbitrary: s) (simp_all add: ok_push)

lemma cap_fold: "ok s \<Longrightarrow> cap (fold push es s) = cap s"
  by (induction es arbitrary: s) (simp_all add: ok_push cap_push)

lemma view_bounded: "ok s \<Longrightarrow> length (view (push e s)) \<le> cap s"
  by (simp add: view_push)

lemma view_newest: "ok s \<Longrightarrow> view (push e s) \<noteq> [] \<and> last (view (push e s)) = e"
  by (simp add: view_push last_last_n cap_pos)

lemma view_fold:
  "ok s \<Longrightarrow> length (view s) \<le> cap s \<Longrightarrow> view (fold push es s) = last_n (cap s) (view s @ es)"
proof (induction es arbitrary: s)
  case Nil
  then show ?case by (simp add: last_n_id)
next
  case (Cons e es)
  have "view (fold push es (push e s)) = last_n (cap s) (last_n (cap s) (view s @ [e]) @ es)"
    using Cons.IH[of "push e s"] Cons.prems by (simp add: ok_push cap_push view_push)
  then show ?case by (simp add: last_n_append_last_n)
qed

end

section \<open>Lifecycles with final statuses\<close>

locale lifecycle =
  fixes stat :: "'s \<Rightarrow> 'i \<Rightarrow> 'st option"
    and terminal :: "'st \<Rightarrow> bool"
    and step :: "'a \<Rightarrow> 's \<Rightarrow> 's"
    and inv :: "'s \<Rightarrow> bool"
  assumes inv_step: "inv s \<Longrightarrow> inv (step a s)"
    and final_step: "inv s \<Longrightarrow> stat s i = Some st \<Longrightarrow> terminal st \<Longrightarrow>
        stat (step a s) i = Some st \<or> stat (step a s) i = None"
begin

lemma inv_run: "inv s \<Longrightarrow> inv (fold step as s)"
  by (induction as arbitrary: s) (simp_all add: inv_step)

text \<open>A terminal status is kept by every run that does not remove the record.\<close>

lemma final_run:
  assumes "inv s" and "stat s i = Some st" and "terminal st"
    and "\<forall>k \<le> length as. stat (fold step (take k as) s) i \<noteq> None"
  shows "stat (fold step as s) i = Some st"
  using assms
proof (induction as arbitrary: s)
  case Nil
  then show ?case by simp
next
  case (Cons a as)
  have present: "stat (fold step (take k as) (step a s)) i \<noteq> None" if "k \<le> length as" for k
    using Cons.prems(4)[rule_format, of "Suc k"] that by simp
  from present[of 0] have "stat (step a s) i \<noteq> None" by simp
  with final_step[OF Cons.prems(1-3), of a] have "stat (step a s) i = Some st" by simp
  from Cons.IH[OF inv_step[OF Cons.prems(1)] this Cons.prems(3)] present show ?case by simp
qed

end

section \<open>Circuit breakers\<close>

locale breaker =
  fixes is_open :: "'b \<Rightarrow> bool"
    and fails :: "'b \<Rightarrow> nat"
    and fail :: "'t \<Rightarrow> 'b \<Rightarrow> 'b"
    and succeed :: "'b \<Rightarrow> 'b"
    and threshold :: nat
  assumes succeed_closes: "\<not> is_open (succeed b)"
    and succeed_clears: "fails (succeed b) = 0"
    and fail_below: "\<not> is_open b \<Longrightarrow> Suc (fails b) < threshold \<Longrightarrow>
        \<not> is_open (fail t b) \<and> fails (fail t b) = Suc (fails b)"
    and fail_reaches: "\<not> is_open b \<Longrightarrow> threshold \<le> Suc (fails b) \<Longrightarrow> is_open (fail t b)"
begin

lemma closed_below_threshold:
  "\<not> is_open b \<Longrightarrow> fails b + length ts < threshold \<Longrightarrow>
     \<not> is_open (fold fail ts b) \<and> fails (fold fail ts b) = fails b + length ts"
proof (induction ts arbitrary: b)
  case Nil
  then show ?case by simp
next
  case (Cons t ts)
  then have "\<not> is_open (fail t b) \<and> fails (fail t b) = Suc (fails b)"
    by (intro fail_below) simp_all
  with Cons.IH[of "fail t b"] Cons.prems show ?case by simp
qed

text \<open>After a success the breaker trips at the failure number \<open>threshold\<close>, not before.\<close>

lemma trips_exactly_at_threshold:
  assumes "length ts < threshold"
  shows "\<not> is_open (fold fail ts (succeed b))"
    and "length ts = threshold - 1 \<Longrightarrow> is_open (fail t (fold fail ts (succeed b)))"
proof -
  have c: "\<not> is_open (fold fail ts (succeed b)) \<and> fails (fold fail ts (succeed b)) = length ts"
    using closed_below_threshold[of "succeed b" ts] assms
    by (simp add: succeed_closes succeed_clears)
  then show "\<not> is_open (fold fail ts (succeed b))" by simp
  show "is_open (fail t (fold fail ts (succeed b)))" if "length ts = threshold - 1"
    using c that by (intro fail_reaches) auto
qed

end

section \<open>Dependency graphs\<close>

definition edge_rel :: "('n \<Rightarrow> 'n list) \<Rightarrow> ('n \<times> 'n) set" where
  "edge_rel succs = {(x, y). y \<in> set (succs x)}"

text \<open>Some cycle can be reached from \<open>x\<close>.\<close>

definition reaches_cycle :: "('n \<times> 'n) set \<Rightarrow> 'n \<Rightarrow> bool" where
  "reaches_cycle r x \<longleftrightarrow> (\<exists>y. (x, y) \<in> r\<^sup>* \<and> (y, y) \<in> r\<^sup>+)"

lemma reaches_cycle_self: "(x, x) \<in> r\<^sup>+ \<Longrightarrow> reaches_cycle r x"
  by (auto simp: reaches_cycle_def)

lemma reaches_cycle_step: "(x, y) \<in> r \<Longrightarrow> reaches_cycle r y \<Longrightarrow> reaches_cycle r x"
  unfolding reaches_cycle_def by (meson converse_rtrancl_into_rtrancl)

lemma reaches_cycle_unfold:
  "reaches_cycle r x \<longleftrightarrow> (x, x) \<in> r\<^sup>+ \<or> (\<exists>y. (x, y) \<in> r \<and> reaches_cycle r y)"
proof
  assume "reaches_cycle r x"
  then obtain y where y: "(x, y) \<in> r\<^sup>*" "(y, y) \<in> r\<^sup>+" by (auto simp: reaches_cycle_def)
  from y(1) show "(x, x) \<in> r\<^sup>+ \<or> (\<exists>y. (x, y) \<in> r \<and> reaches_cycle r y)"
  proof (cases rule: converse_rtranclE)
    case base
    with y(2) show ?thesis by simp
  next
    case (step z)
    with y(2) show ?thesis by (auto simp: reaches_cycle_def)
  qed
next
  assume "(x, x) \<in> r\<^sup>+ \<or> (\<exists>y. (x, y) \<in> r \<and> reaches_cycle r y)"
  then show "reaches_cycle r x"
    by (auto intro: reaches_cycle_self reaches_cycle_step)
qed

lemma acyclic_iff_no_reaches_cycle: "acyclic r \<longleftrightarrow> (\<forall>x. \<not> reaches_cycle r x)"
  by (auto simp: acyclic_def reaches_cycle_def)

locale digraph =
  fixes nodes :: "'n list"
    and succs :: "'n \<Rightarrow> 'n list"
  assumes succs_nodes: "y \<in> set (succs x) \<Longrightarrow> x \<in> set nodes"
begin

lemma succs_leaf: "x \<notin> set nodes \<Longrightarrow> succs x = []"
  using succs_nodes by (metis list.set_intros(1) neq_Nil_conv)

lemma edge_iff: "(x, y) \<in> edge_rel succs \<longleftrightarrow> y \<in> set (succs x)"
  by (simp add: edge_rel_def)

text \<open>What is left to visit shrinks when a node of the graph is visited.\<close>

lemma unvisited_less:
  "x \<in> set nodes \<Longrightarrow> x \<notin> V \<Longrightarrow> insert x V \<subseteq> W \<Longrightarrow>
     card (set nodes - W) < card (set nodes - V)"
  by (rule psubset_card_mono) auto

lemma unvisited_le: "V \<subseteq> W \<Longrightarrow> card (set nodes - W) \<le> card (set nodes - V)"
  by (rule card_mono) auto

text \<open>A set closed under successors holds all that is reachable from it.\<close>

lemma closed_reach:
  assumes "\<And>u v. u \<in> D \<Longrightarrow> v \<in> set (succs u) \<Longrightarrow> v \<in> D"
    and "x \<in> D" and "(x, y) \<in> (edge_rel succs)\<^sup>*"
  shows "y \<in> D"
  using assms(3,2) by (induction rule: rtrancl_induct) (auto simp: edge_iff intro: assms(1))

text \<open>A node whose successors lie in a closed set without it is on no cycle.\<close>

lemma closed_no_cycle:
  assumes closed: "\<And>u v. u \<in> D \<Longrightarrow> v \<in> set (succs u) \<Longrightarrow> v \<in> D"
    and "set (succs x) \<subseteq> D" and "x \<notin> D"
  shows "(x, x) \<notin> (edge_rel succs)\<^sup>+"
proof
  assume "(x, x) \<in> (edge_rel succs)\<^sup>+"
  then obtain y where y: "(x, y) \<in> edge_rel succs" "(y, x) \<in> (edge_rel succs)\<^sup>*"
    by (meson tranclD)
  with assms(2) have "y \<in> D" by (auto simp: edge_iff)
  with y(2) have "x \<in> D" using closed by (blast intro: closed_reach)
  with assms(3) show False by simp
qed

text \<open>Nodes added one at a time, each after all its successors, lie on no reachable cycle.\<close>

lemma closed_insert_no_reaches_cycle:
  assumes closed: "\<And>u v. u \<in> D \<Longrightarrow> v \<in> set (succs u) \<Longrightarrow> v \<in> D"
    and D: "\<And>u. u \<in> D \<Longrightarrow> \<not> reaches_cycle (edge_rel succs) u"
    and "set (succs x) \<subseteq> D"
  shows "\<not> reaches_cycle (edge_rel succs) x"
proof (cases "x \<in> D")
  case True
  then show ?thesis by (rule D)
next
  case False
  then have "(x, x) \<notin> (edge_rel succs)\<^sup>+" using assms by (intro closed_no_cycle)
  with assms(3) D show ?thesis
    by (subst reaches_cycle_unfold) (auto simp: edge_iff)
qed

end

section \<open>Granted capabilities\<close>

text \<open>
  A check of a token against a scope, and the grants that were made. The law: in a registry
  the operations can build, a check that passes was preceded by a grant for that scope.
\<close>

locale capability =
  fixes inv :: "'reg \<Rightarrow> bool"
    and check :: "'reg \<Rightarrow> 'tok \<Rightarrow> 'scope \<Rightarrow> 'err option"
    and granted :: "'reg \<Rightarrow> 'tok \<Rightarrow> 'scope \<Rightarrow> bool"
  assumes check_granted: "inv r \<Longrightarrow> check r t sc = None \<Longrightarrow> granted r t sc"
begin

lemma ungranted_refused: "inv r \<Longrightarrow> \<not> granted r t sc \<Longrightarrow> \<exists>e. check r t sc = Some e"
  using check_granted by fastforce

text \<open>Among calls each guarded by its own check, those that run were granted.\<close>

lemma guarded_calls_granted:
  "inv r \<Longrightarrow> (t, sc) \<in> set (filter (\<lambda>(t, sc). check r t sc = None) calls) \<Longrightarrow> granted r t sc"
  by (auto intro: check_granted)

end

end
