(* ===== verification/ThreadApproval.thy ===== *)
theory ThreadApproval
  imports Interfaces
begin

text \<open>
  Approval of risky delegated actions: the proposal registry
  (\<^verbatim>\<open>internal/threadmgr/proposals.go\<close>), the control tools of a thread's loop
  (\<^verbatim>\<open>thread_tools.go\<close>) and the risk classification of a tool name
  (\<^verbatim>\<open>delegatedToolRisk\<close> of \<^verbatim>\<open>spawn.go\<close>). The registry's clock and its identifiers
  (\<^verbatim>\<open>newID\<close>) are arguments; a nil registry is an absent one.
\<close>

section \<open>Proposals and tokens\<close>

datatype proposal_status = ProposalPending | ProposalApproved | ProposalDenied

datatype approval_error =
    ErrRegistryNotConfigured
  | ErrSessionIDRequired
  | ErrThreadIDRequired
  | ErrActionRequired
  | ErrApprovalTokenRequired
  | ErrApprovalTokenExpired
  | ErrApprovalTokenScopeMismatch
  | ErrProposalNotFound

record proposal_request =
  pq_SessionID :: string
  pq_ThreadID :: string
  pq_AgentID :: string
  pq_Provider :: string
  pq_Action :: string
  pq_Risk :: string
  pq_Justification :: string

record action_proposal =
  ap_ID :: string
  ap_SessionID :: string
  ap_ThreadID :: string
  ap_AgentID :: string
  ap_Provider :: string
  ap_Action :: string
  ap_Risk :: string
  ap_Justification :: string
  ap_Status :: proposal_status
  ap_CreatedAt :: gotime
  ap_DecidedAt :: "gotime option"
  ap_DecidedBy :: string

record approval_token =
  tok_Token :: string
  tok_ProposalID :: string
  tok_SessionID :: string
  tok_ThreadID :: string
  tok_Provider :: string
  tok_Action :: string
  tok_IssuedAt :: gotime
  tok_ExpiresAt :: gotime

record token_requirement =
  rq_HighRisk :: bool
  rq_SessionID :: string
  rq_ThreadID :: string
  rq_Provider :: string
  rq_Action :: string

record proposal_registry =
  pr_proposals :: "(string, action_proposal) gomap"
  pr_tokens :: "(string, approval_token) gomap"

definition NewProposalRegistry :: proposal_registry where
  "NewProposalRegistry = \<lparr>pr_proposals = [], pr_tokens = []\<rparr>"

definition Submit :: "gotime \<Rightarrow> string \<Rightarrow> proposal_request \<Rightarrow> proposal_registry \<Rightarrow>
    (approval_error + action_proposal) \<times> proposal_registry" where
  "Submit now nid req r =
     (if trim_space (pq_SessionID req) = [] then (Inl ErrSessionIDRequired, r)
      else if trim_space (pq_ThreadID req) = [] then (Inl ErrThreadIDRequired, r)
      else if trim_space (pq_Action req) = [] then (Inl ErrActionRequired, r)
      else let p = \<lparr>ap_ID = nid, ap_SessionID = pq_SessionID req, ap_ThreadID = pq_ThreadID req,
                    ap_AgentID = pq_AgentID req,
                    ap_Provider = to_lower (trim_space (pq_Provider req)),
                    ap_Action = to_lower (trim_space (pq_Action req)),
                    ap_Risk = (if pq_Risk req = [] then ''elevated'' else pq_Risk req),
                    ap_Justification = trim_space (pq_Justification req),
                    ap_Status = ProposalPending, ap_CreatedAt = now,
                    ap_DecidedAt = None, ap_DecidedBy = []\<rparr>
        in (Inr p, r\<lparr>pr_proposals := gm_put nid p (pr_proposals r)\<rparr>))"

definition Approve :: "gotime \<Rightarrow> string \<Rightarrow> string \<Rightarrow> string \<Rightarrow> duration \<Rightarrow> proposal_registry \<Rightarrow>
    (approval_error + approval_token) \<times> proposal_registry" where
  "Approve now nid proposalID approver ttl r =
     (let ttl' = (if ttl \<le> 0 then 10 * minute else ttl) in
      case gm_get (pr_proposals r) proposalID of
        None \<Rightarrow> (Inl ErrProposalNotFound, r)
      | Some p \<Rightarrow>
          let p' = p\<lparr>ap_Status := ProposalApproved, ap_DecidedAt := Some now,
                     ap_DecidedBy := trim_space approver\<rparr>;
              tok = \<lparr>tok_Token = ''approval_'' @ nid, tok_ProposalID = ap_ID p',
                     tok_SessionID = ap_SessionID p', tok_ThreadID = ap_ThreadID p',
                     tok_Provider = ap_Provider p', tok_Action = ap_Action p',
                     tok_IssuedAt = now, tok_ExpiresAt = now + ttl'\<rparr>
          in (Inr tok, r\<lparr>pr_proposals := gm_put proposalID p' (pr_proposals r),
                          pr_tokens := gm_put (tok_Token tok) tok (pr_tokens r)\<rparr>))"

definition RequireToken :: "gotime \<Rightarrow> proposal_registry option \<Rightarrow> string \<Rightarrow> token_requirement \<Rightarrow>
    approval_error option" where
  "RequireToken now ro token req =
     (if \<not> rq_HighRisk req then None
      else if trim_space token = [] then Some ErrApprovalTokenRequired
      else case ro of
        None \<Rightarrow> Some ErrApprovalTokenRequired
      | Some r \<Rightarrow>
        (case gm_get (pr_tokens r) (trim_space token) of
           None \<Rightarrow> Some ErrApprovalTokenRequired
         | Some tok \<Rightarrow>
             if now > tok_ExpiresAt tok then Some ErrApprovalTokenExpired
             else if rq_SessionID req \<noteq> [] \<and> tok_SessionID tok \<noteq> rq_SessionID req
               then Some ErrApprovalTokenScopeMismatch
             else if rq_ThreadID req \<noteq> [] \<and> tok_ThreadID tok \<noteq> rq_ThreadID req
               then Some ErrApprovalTokenScopeMismatch
             else if rq_Provider req \<noteq> [] \<and> \<not> equal_fold (tok_Provider tok) (rq_Provider req)
               then Some ErrApprovalTokenScopeMismatch
             else if rq_Action req \<noteq> [] \<and> \<not> equal_fold (tok_Action tok) (rq_Action req)
               then Some ErrApprovalTokenScopeMismatch
             else None))"

section \<open>The control tools of a thread\<close>

text \<open>\<open>Finish\<close> and \<open>RequestHelp\<close> leave the loop by a panic the loop recovers; here they are values.\<close>

record finish_summary =
  fs_Summary :: string
  fs_FilesModified :: "string list"
  fs_KeyDecisions :: "string list"
  fs_Artifacts :: "string list"
  fs_Status :: string
  fs_ParentMessageID :: string
  fs_ThreadID :: string
  fs_VetLabel :: string
  fs_VetFindings :: string

definition mk_summary :: "string \<Rightarrow> string \<Rightarrow> finish_summary" where
  "mk_summary text status =
     \<lparr>fs_Summary = text, fs_FilesModified = [], fs_KeyDecisions = [], fs_Artifacts = [],
      fs_Status = status, fs_ParentMessageID = [], fs_ThreadID = [], fs_VetLabel = [],
      fs_VetFindings = []\<rparr>"

definition tt_Finish :: "json_args \<Rightarrow> finish_summary" where
  "tt_Finish args =
     (let status = arg_string args ''status'' in
      (mk_summary (arg_string args ''summary'') (if status = [] then ''completed'' else status))
        \<lparr>fs_FilesModified := arg_strings args ''files_modified'',
         fs_KeyDecisions := arg_strings args ''key_decisions'',
         fs_Artifacts := arg_strings args ''artifacts''\<rparr>)"

definition tt_RequestHelp :: "json_args \<Rightarrow> string" where
  "tt_RequestHelp args = arg_string args ''message''"

fun show_approval_error :: "approval_error \<Rightarrow> string" where
  "show_approval_error ErrRegistryNotConfigured = ''proposal registry not configured''"
| "show_approval_error ErrSessionIDRequired = ''session_id is required''"
| "show_approval_error ErrThreadIDRequired = ''thread_id is required''"
| "show_approval_error ErrActionRequired = ''action is required''"
| "show_approval_error ErrApprovalTokenRequired =
     ''threadmgr: approval token required for high-risk action''"
| "show_approval_error ErrApprovalTokenExpired = ''threadmgr: approval token expired''"
| "show_approval_error ErrApprovalTokenScopeMismatch = ''threadmgr: approval token scope mismatch''"
| "show_approval_error ErrProposalNotFound = ''threadmgr: proposal not found''"

definition tt_ProposeAction :: "gotime \<Rightarrow> string \<Rightarrow> string \<Rightarrow> string \<Rightarrow> string \<Rightarrow> json_args \<Rightarrow>
    proposal_registry option \<Rightarrow> string \<times> proposal_registry option" where
  "tt_ProposeAction now nid sessionID threadID agentID args ro =
     (case ro of
        None \<Rightarrow> (''propose_action: proposal registry not configured'', None)
      | Some r \<Rightarrow>
          (case Submit now nid
              \<lparr>pq_SessionID = sessionID, pq_ThreadID = threadID, pq_AgentID = agentID,
               pq_Provider = arg_string args ''provider'', pq_Action = arg_string args ''action'',
               pq_Risk = to_lower (trim_space (arg_string args ''risk'')),
               pq_Justification = arg_string args ''justification''\<rparr> r of
             (Inl e, r') \<Rightarrow> (''propose_action: '' @ show_approval_error e, Some r')
           | (Inr p, r') \<Rightarrow>
               (''proposal '' @ ap_ID p @ '' recorded for '' @ ap_Provider p @ ''/'' @ ap_Action p
                  @ '' ('' @ ap_Risk p @ ''). Awaiting lead approval token before execution.'',
                Some r')))"

section \<open>Which tools need an approval token\<close>

definition delegatedApprovalProviders :: "string list" where
  "delegatedApprovalProviders =
     [''aws'', ''azure'', ''gcp'', ''github'', ''gitlab'', ''homeassistant'', ''kubernetes'',
      ''mysql'', ''postgres'', ''sendgrid'', ''slack'']"

definition lowRiskActionPrefixes :: "string list" where
  "lowRiskActionPrefixes =
     [''describe_'', ''fetch_'', ''find_'', ''get_'', ''head_'', ''list_'', ''preview_'',
      ''read_'', ''search_'', ''show_'', ''status_'']"

definition delegatedToolRisk :: "string \<Rightarrow> string \<times> string \<times> bool" where
  "delegatedToolRisk toolName =
     (let name = to_lower (trim_space toolName) in
      if name = [] then ([], [], False)
      else case split_first (CHR ''_'') name of
        None \<Rightarrow> ([], [], False)
      | Some (a, b) \<Rightarrow>
          let provider = trim_space a; action = trim_space b in
          if provider = [] \<or> action = [] \<or> provider \<notin> set delegatedApprovalProviders
          then ([], [], False)
          else (provider, action, \<not> list_ex (has_prefix action) lowRiskActionPrefixes))"

section \<open>Reachable registries\<close>

text \<open>
  The registries the operations build when every identifier \<open>newID\<close> hands out is new.
\<close>

inductive registry_reach :: "proposal_registry \<Rightarrow> bool" where
  new: "registry_reach NewProposalRegistry"
| submit: "registry_reach r \<Longrightarrow> gm_get (pr_proposals r) nid = None \<Longrightarrow>
     registry_reach (snd (Submit now nid req r))"
| approve: "registry_reach r \<Longrightarrow> gm_get (pr_tokens r) (''approval_'' @ nid) = None \<Longrightarrow>
     registry_reach (snd (Approve now nid proposalID approver ttl r))"

text \<open>Every proposal is stored under its own ID; every token repeats the scope of an approved one.\<close>

definition registry_inv :: "proposal_registry \<Rightarrow> bool" where
  "registry_inv r \<longleftrightarrow>
     (\<forall>i p. gm_get (pr_proposals r) i = Some p \<longrightarrow> ap_ID p = i) \<and>
     (\<forall>k tok. gm_get (pr_tokens r) k = Some tok \<longrightarrow>
        (\<exists>p. gm_get (pr_proposals r) (tok_ProposalID tok) = Some p \<and>
             ap_Status p = ProposalApproved \<and> ap_SessionID p = tok_SessionID tok \<and>
             ap_ThreadID p = tok_ThreadID tok \<and> ap_Provider p = tok_Provider tok \<and>
             ap_Action p = tok_Action tok))"

lemma registry_inv_new: "registry_inv NewProposalRegistry"
  by (simp add: registry_inv_def NewProposalRegistry_def)

lemma registry_inv_submit:
  "registry_inv r \<Longrightarrow> gm_get (pr_proposals r) nid = None \<Longrightarrow> registry_inv (snd (Submit now nid req r))"
  unfolding registry_inv_def Submit_def Let_def by (auto split: if_splits) (metis option.distinct(1))

lemma registry_inv_approve:
  "registry_inv r \<Longrightarrow> registry_inv (snd (Approve now nid proposalID approver ttl r))"
  unfolding registry_inv_def Approve_def Let_def
  by (auto split: option.splits if_splits) (metis option.inject)+

lemma registry_reach_inv: "registry_reach r \<Longrightarrow> registry_inv r"
  by (induction rule: registry_reach.induct)
     (simp_all add: registry_inv_new registry_inv_submit registry_inv_approve)

text \<open>What an approval grants: an approved proposal whose scope covers the requirement.\<close>

definition approved_for :: "proposal_registry \<Rightarrow> token_requirement \<Rightarrow> bool" where
  "approved_for r req \<longleftrightarrow>
     (\<exists>p. gm_get (pr_proposals r) (ap_ID p) = Some p \<and> ap_Status p = ProposalApproved \<and>
        (rq_SessionID req = [] \<or> ap_SessionID p = rq_SessionID req) \<and>
        (rq_ThreadID req = [] \<or> ap_ThreadID p = rq_ThreadID req) \<and>
        (rq_Provider req = [] \<or> equal_fold (ap_Provider p) (rq_Provider req)) \<and>
        (rq_Action req = [] \<or> equal_fold (ap_Action p) (rq_Action req)))"

lemma RequireToken_None_cases:
  assumes "RequireToken now (Some r) token req = None" and "rq_HighRisk req"
  obtains tok where "gm_get (pr_tokens r) (trim_space token) = Some tok"
    "now \<le> tok_ExpiresAt tok"
    "rq_SessionID req = [] \<or> tok_SessionID tok = rq_SessionID req"
    "rq_ThreadID req = [] \<or> tok_ThreadID tok = rq_ThreadID req"
    "rq_Provider req = [] \<or> equal_fold (tok_Provider tok) (rq_Provider req)"
    "rq_Action req = [] \<or> equal_fold (tok_Action tok) (rq_Action req)"
  using assms
  by (auto simp: RequireToken_def not_less split: if_splits option.splits)

lemma token_granted:
  assumes "registry_inv r" and "RequireToken now (Some r) token req = None" and "rq_HighRisk req"
  shows "approved_for r req"
proof -
  from assms(2,3) obtain tok where tok: "gm_get (pr_tokens r) (trim_space token) = Some tok"
    and scope: "rq_SessionID req = [] \<or> tok_SessionID tok = rq_SessionID req"
      "rq_ThreadID req = [] \<or> tok_ThreadID tok = rq_ThreadID req"
      "rq_Provider req = [] \<or> equal_fold (tok_Provider tok) (rq_Provider req)"
      "rq_Action req = [] \<or> equal_fold (tok_Action tok) (rq_Action req)"
    by (rule RequireToken_None_cases)
  from assms(1) tok obtain p where
    p: "gm_get (pr_proposals r) (tok_ProposalID tok) = Some p" "ap_Status p = ProposalApproved"
      "ap_SessionID p = tok_SessionID tok" "ap_ThreadID p = tok_ThreadID tok"
      "ap_Provider p = tok_Provider tok" "ap_Action p = tok_Action tok"
    unfolding registry_inv_def by blast
  moreover from assms(1) p(1) have "ap_ID p = tok_ProposalID tok"
    unfolding registry_inv_def by blast
  ultimately show ?thesis
    using scope unfolding approved_for_def by (intro exI[of _ p]) simp
qed

interpretation approval: capability registry_reach
  "\<lambda>r (now, token) req. RequireToken now (Some r) token (req\<lparr>rq_HighRisk := True\<rparr>)"
  "\<lambda>r _ req. approved_for r req"
proof
  fix r :: proposal_registry and t :: "int \<times> string" and sc :: token_requirement
  assume r: "registry_reach r"
    and c: "(case t of (now, token) \<Rightarrow> \<lambda>req. RequireToken now (Some r) token (req\<lparr>rq_HighRisk := True\<rparr>)) sc = None"
  obtain now token where t: "t = (now, token)" by (cases t)
  from token_granted[OF registry_reach_inv[OF r], of now token "sc\<lparr>rq_HighRisk := True\<rparr>"] c
  have "approved_for r (sc\<lparr>rq_HighRisk := True\<rparr>)" by (simp add: t)
  then show "approved_for r sc" by (simp add: approved_for_def)
qed

section \<open>Properties\<close>

definition demo_request :: proposal_request where
  "demo_request = \<lparr>pq_SessionID = ''s1'', pq_ThreadID = ''t1'', pq_AgentID = ''Sam'',
     pq_Provider = ''GitHub'', pq_Action = '' delete_issue'', pq_Risk = [], pq_Justification = []\<rparr>"

definition demo_registry :: proposal_registry where
  "demo_registry = snd (Approve 20 ''k'' ''p1'' ''lead'' 100
     (snd (Submit 10 ''p1'' demo_request NewProposalRegistry)))"

definition demo_requirement :: token_requirement where
  "demo_requirement = \<lparr>rq_HighRisk = True, rq_SessionID = ''s1'', rq_ThreadID = ''t1'',
     rq_Provider = ''github'', rq_Action = ''delete_issue''\<rparr>"

lemma demo_registry_reach: "registry_reach demo_registry"
proof -
  have "registry_reach (snd (Submit 10 ''p1'' demo_request NewProposalRegistry))"
    by (intro registry_reach.intros) (simp add: NewProposalRegistry_def)
  moreover have "gm_get (pr_tokens (snd (Submit 10 ''p1'' demo_request NewProposalRegistry)))
      (''approval_'' @ ''k'') = None"
    by code_simp
  ultimately show ?thesis
    unfolding demo_registry_def by (rule registry_reach.approve)
qed

text \<open>
  In every registry that Submit and Approve can build, RequireToken lets a high-risk action
  pass only if a proposal was approved whose session, thread, provider and action are those of
  the requirement (where the requirement names them).
\<close>

lemma RequireToken_only_approved:
  assumes "registry_reach r" and "rq_HighRisk req"
    and "RequireToken now (Some r) token req = None"
  shows "approved_for r req"
proof -
  have "req\<lparr>rq_HighRisk := True\<rparr> = req" using assms(2) by simp
  with approval.check_granted[OF assms(1), of "(now, token)" req] assms(3) show ?thesis
    by simp
qed

text \<open>
  A proposal that is submitted and then approved yields a token that RequireToken accepts
  exactly until its time to live (ten minutes when none is given) is over, for the session and
  thread of the proposal and, up to case, its provider and action.
\<close>

lemma approve_then_require:
  assumes "Submit t1 nid req r = (Inr p, r1)"
    and "Approve t2 nid2 nid approver ttl r1 = (Inr tok, r2)"
    and "trim_space (tok_Token tok) = tok_Token tok"
    and "rq_HighRisk q" and "rq_SessionID q = pq_SessionID req"
    and "rq_ThreadID q = pq_ThreadID req"
    and "equal_fold (rq_Provider q) (trim_space (pq_Provider req))"
    and "equal_fold (rq_Action q) (trim_space (pq_Action req))"
  shows "RequireToken now (Some r2) (tok_Token tok) q =
    (if now > t2 + (if ttl \<le> 0 then 10 * minute else ttl) then Some ErrApprovalTokenExpired else None)"
proof -
  from assms(1) have p: "gm_get (pr_proposals r1) nid = Some p"
    and ps: "ap_SessionID p = pq_SessionID req" "ap_ThreadID p = pq_ThreadID req"
      "ap_Provider p = to_lower (trim_space (pq_Provider req))"
      "ap_Action p = to_lower (trim_space (pq_Action req))"
    by (auto simp: Submit_def Let_def split: if_splits)
  from assms(2) p ps have tok: "gm_get (pr_tokens r2) (tok_Token tok) = Some tok"
    "tok_Token tok = ''approval_'' @ nid2"
    "tok_SessionID tok = pq_SessionID req" "tok_ThreadID tok = pq_ThreadID req"
    "tok_Provider tok = to_lower (trim_space (pq_Provider req))"
    "tok_Action tok = to_lower (trim_space (pq_Action req))"
    "tok_ExpiresAt tok = t2 + (if ttl \<le> 0 then 10 * minute else ttl)"
    by (auto simp: Approve_def Let_def)
  have ne: "tok_Token tok \<noteq> []" by (simp add: tok(2))
  show ?thesis
    using assms(4-8) tok(1,3-7) ne
    by (simp add: RequireToken_def assms(3) equal_fold_def)
qed

end
