(* ===== verification/ThreadBus.thy ===== *)
theory ThreadBus
  imports Interfaces
begin

text \<open>
  The sibling-context bus and the summary cache of \<^verbatim>\<open>internal/threadmgr\<close>
  (\<^verbatim>\<open>thread_bus.go\<close>, \<^verbatim>\<open>summary_cache.go\<close>, and \<^verbatim>\<open>clipResult\<close> and
  \<^verbatim>\<open>formatSiblingContextBlock\<close> of \<^verbatim>\<open>spawn.go\<close>). The bus keeps, per session, a
  bounded history of short messages; a thread reads the newest ones of its siblings that are
  addressed to everybody or to its own agent. A nil bus is an absent bus at the caller.
\<close>

section \<open>Bounded messages\<close>

text \<open>\<open>clipResult\<close>: trim, then cut to \<open>maxLen\<close> bytes, the last three of them dots.\<close>

definition clipResult :: "string \<Rightarrow> nat \<Rightarrow> string" where
  "clipResult s maxLen =
     (let t = trim_space s in
      if length t \<le> maxLen then t else take (maxLen - 3) t @ ''...'')"

lemma clipResult_length: "3 \<le> maxLen \<Longrightarrow> length (clipResult s maxLen) \<le> maxLen"
  by (auto simp: clipResult_def Let_def)

section \<open>The bus\<close>

record thread_context_message =
  tcm_ThreadID :: string
  tcm_AgentID :: string
  tcm_TargetAgentID :: string
  tcm_Content :: string
  tcm_At :: gotime

record thread_bus =
  bus_capacity :: nat
  bus_bySession :: "(string, thread_context_message list) gomap"

definition DefaultThreadBusCapacity :: int where
  "DefaultThreadBusCapacity = 128"

definition NewThreadBus :: "int \<Rightarrow> thread_bus" where
  "NewThreadBus capacity =
     \<lparr>bus_capacity = nat (if capacity \<le> 0 then DefaultThreadBusCapacity else capacity),
      bus_bySession = []\<rparr>"

text \<open>A Go map read of an absent key gives the zero value, here the nil slice.\<close>

definition bus_items :: "string \<Rightarrow> thread_bus \<Rightarrow> thread_context_message list" where
  "bus_items sid b = (case gm_get (bus_bySession b) sid of None \<Rightarrow> [] | Some ms \<Rightarrow> ms)"

text \<open>The locked part of \<open>Publish\<close>: append, then keep the newest \<open>capacity\<close> messages.\<close>

definition bus_append :: "string \<Rightarrow> thread_context_message \<Rightarrow> thread_bus \<Rightarrow> thread_bus" where
  "bus_append sid m b =
     (let items = bus_items sid b @ [m];
          kept = (if length items > bus_capacity b then drop (length items - bus_capacity b) items
                  else items)
      in b\<lparr>bus_bySession := gm_put sid kept (bus_bySession b)\<rparr>)"

definition bus_Publish :: "gotime \<Rightarrow> string \<Rightarrow> thread_context_message \<Rightarrow> thread_bus \<Rightarrow> thread_bus" where
  "bus_Publish now sid msg b =
     (if sid = [] then b
      else let m = msg\<lparr>tcm_Content := trim_space (tcm_Content msg)\<rparr> in
        if tcm_Content m = [] then b
        else bus_append sid (if tcm_At m = t_zero then m\<lparr>tcm_At := now\<rparr> else m) b)"

text \<open>The backward loop of \<open>SiblingContext\<close> over the reversed history.\<close>

fun sibling_loop :: "(thread_context_message \<Rightarrow> bool) \<Rightarrow> nat \<Rightarrow> thread_context_message list \<Rightarrow>
    thread_context_message list \<Rightarrow> thread_context_message list" where
  "sibling_loop skip limit out [] = out"
| "sibling_loop skip limit out (m # ms) =
     (if length out < limit then
        (if skip m then sibling_loop skip limit out ms
         else sibling_loop skip limit (out @ [m]) ms)
      else out)"

definition sibling_skip :: "string \<Rightarrow> string \<Rightarrow> thread_context_message \<Rightarrow> bool" where
  "sibling_skip excludeThreadID forAgentID m \<longleftrightarrow>
     (excludeThreadID \<noteq> [] \<and> tcm_ThreadID m = excludeThreadID) \<or>
     (tcm_TargetAgentID m \<noteq> [] \<and>
      \<not> equal_fold (trim_space (tcm_TargetAgentID m)) (trim_space forAgentID))"

definition bus_SiblingContext :: "string \<Rightarrow> string \<Rightarrow> string \<Rightarrow> int \<Rightarrow> thread_bus \<Rightarrow>
    thread_context_message list" where
  "bus_SiblingContext sid excludeThreadID forAgentID limit b =
     (if sid = [] then []
      else let lim = nat (if limit \<le> 0 then 8 else limit); src = bus_items sid b in
        if src = [] then []
        else rev (sibling_loop (sibling_skip excludeThreadID forAgentID) lim [] (rev src)))"

definition bus_ClearSession :: "string \<Rightarrow> thread_bus \<Rightarrow> thread_bus" where
  "bus_ClearSession sid b =
     (if sid = [] then b else b\<lparr>bus_bySession := gm_del sid (bus_bySession b)\<rparr>)"

text \<open>The dash of the block's text is the UTF-8 encoding of U+2014.\<close>

definition em_dash :: string where
  "em_dash = [CHR 0xE2, CHR 0x80, CHR 0x94]"

definition sibling_line :: "thread_context_message \<Rightarrow> string" where
  "sibling_line m =
     (let content = clipResult (tcm_Content m) 140 in
      if content = [] then []
      else ''- '' @ (if tcm_AgentID m = [] then ''unknown-agent'' else tcm_AgentID m)
           @ '': '' @ content @ [CHR 10])"

definition formatSiblingContextBlock :: "thread_context_message list \<Rightarrow> bool \<Rightarrow> string" where
  "formatSiblingContextBlock msgs truncated =
     trim_space (''## Team Context Updates'' @ [CHR 10]
       @ (if truncated then ''(showing the '' @ show_int (int (length msgs))
            @ '' most recent team updates '' @ em_dash
            @ '' older updates were omitted; use list_team_status for current state)'' @ [CHR 10]
          else [])
       @ concat (map sibling_line msgs))"

subsection \<open>Lemmas\<close>

lemma bus_items_append:
  "bus_items sid' (bus_append sid m b) =
     (if sid' = sid then last_n (bus_capacity b) (bus_items sid b @ [m]) else bus_items sid' b)"
  by (auto simp: bus_items_def bus_append_def Let_def last_n_def)

lemma bus_capacity_append [simp]: "bus_capacity (bus_append sid m b) = bus_capacity b"
  by (simp add: bus_append_def Let_def)

definition bus_ok :: "thread_bus \<Rightarrow> bool" where
  "bus_ok b \<longleftrightarrow> 0 < bus_capacity b \<and> gm_wf (bus_bySession b) \<and>
     (\<forall>(sid, ms) \<in> set (bus_bySession b). length ms \<le> bus_capacity b)"

lemma bus_ok_capacity: "bus_ok b \<Longrightarrow> 0 < bus_capacity b"
  by (simp add: bus_ok_def)

lemma bus_ok_items: "bus_ok b \<Longrightarrow> length (bus_items sid b) \<le> bus_capacity b"
  by (auto simp: bus_ok_def bus_items_def split: option.splits dest!: gm_get_SomeD)

lemma bus_ok_lookup:
  "bus_ok b \<longleftrightarrow> 0 < bus_capacity b \<and> gm_wf (bus_bySession b) \<and>
     (\<forall>sid ms. gm_get (bus_bySession b) sid = Some ms \<longrightarrow> length ms \<le> bus_capacity b)"
  by (auto simp: bus_ok_def gm_get_Some_iff)

lemma bus_ok_append [wf_intros]: "bus_ok b \<Longrightarrow> bus_ok (bus_append sid m b)"
  by (simp add: bus_ok_lookup bus_append_def Let_def)

interpretation bus: bounded_log bus_capacity "bus_append sid" "bus_items sid" bus_ok for sid
  by unfold_locales (simp_all add: bus_items_append bus_ok_append bus_ok_capacity)

lemma bus_ok_new: "bus_ok (NewThreadBus capacity)"
  by (simp add: bus_ok_def NewThreadBus_def DefaultThreadBusCapacity_def)

lemma bus_ok_publish [wf_intros]: "bus_ok b \<Longrightarrow> bus_ok (bus_Publish now sid m b)"
  by (simp add: bus_Publish_def Let_def bus_ok_append)

lemma bus_ok_clear [wf_intros]: "bus_ok b \<Longrightarrow> bus_ok (bus_ClearSession sid b)"
  by (simp add: bus_ok_lookup bus_ClearSession_def)

text \<open>The loop keeps the first \<open>limit\<close> messages it does not skip.\<close>

lemma sibling_loop_take:
  "length out \<le> limit \<Longrightarrow>
     sibling_loop skip limit out ms = out @ take (limit - length out) (filter (\<lambda>m. \<not> skip m) ms)"
proof (induction skip limit out ms rule: sibling_loop.induct)
  case (1 skip limit out)
  then show ?case by simp
next
  case (2 skip limit out m ms)
  show ?case
  proof (cases "length out < limit")
    case False
    with "2.prems" show ?thesis by simp
  next
    case True
    then have "limit - length out = Suc (limit - Suc (length out))" by simp
    with True 2 show ?thesis by auto
  qed
qed

text \<open>
  SiblingContext returns exactly the newest limit (8 when not positive) messages of the
  session, in the order they were published, that the reader may see: not its own, and either
  broadcast or addressed (up to case and surrounding blanks) to its own agent.
\<close>

lemma SiblingContext_newest_visible:
  "bus_SiblingContext sid excl agent limit b =
    (if sid = [] then []
     else last_n (nat (if limit \<le> 0 then 8 else limit))
      (filter (\<lambda>m. (excl = [] \<or> tcm_ThreadID m \<noteq> excl) \<and>
           (tcm_TargetAgentID m = [] \<or>
            equal_fold (trim_space (tcm_TargetAgentID m)) (trim_space agent)))
         (bus_items sid b)))"
proof -
  have f: "(\<lambda>m. \<not> sibling_skip excl agent m) =
     (\<lambda>m. (excl = [] \<or> tcm_ThreadID m \<noteq> excl) \<and> (tcm_TargetAgentID m = [] \<or>
            equal_fold (trim_space (tcm_TargetAgentID m)) (trim_space agent)))"
    by (auto simp: sibling_skip_def fun_eq_iff)
  show ?thesis
    by (auto simp: bus_SiblingContext_def Let_def sibling_loop_take f last_n_def rev_take
        simp flip: rev_filter)
qed

text \<open>
  Publishing to a bus keeps every session's history within the bus capacity, drops only the
  oldest messages of that session, and leaves the other sessions alone.
\<close>

lemma Publish_bounded:
  assumes "bus_ok b" and "sid \<noteq> []" and "trim_space (tcm_Content msg) \<noteq> []"
  shows "bus_ok (bus_Publish now sid msg b) \<and>
    (\<exists>m. tcm_Content m = trim_space (tcm_Content msg) \<and> tcm_ThreadID m = tcm_ThreadID msg \<and>
           bus_items sid (bus_Publish now sid msg b) =
             last_n (bus_capacity b - 1) (bus_items sid b) @ [m]) \<and>
    (\<forall>sid'. sid' \<noteq> sid \<longrightarrow> bus_items sid' (bus_Publish now sid msg b) = bus_items sid' b)"
proof -
  let ?m = "(let m = msg\<lparr>tcm_Content := trim_space (tcm_Content msg)\<rparr>
             in if tcm_At m = t_zero then m\<lparr>tcm_At := now\<rparr> else m)"
  have pub: "bus_Publish now sid msg b = bus_append sid ?m b"
    using assms by (simp add: bus_Publish_def Let_def)
  have "tcm_Content ?m = trim_space (tcm_Content msg) \<and> tcm_ThreadID ?m = tcm_ThreadID msg"
    by (simp add: Let_def)
  moreover have "bus_items sid (bus_append sid ?m b) =
      last_n (bus_capacity b - 1) (bus_items sid b) @ [?m]"
    using assms(1) by (simp add: bus_items_append last_last_n bus_ok_capacity)
  ultimately show ?thesis
    using assms(1) by (auto simp: pub bus_items_append intro!: bus_ok_append)
qed

section \<open>The summary cache\<close>

record summary_entry =
  se_text :: string
  se_msgCount :: int

type_synonym summary_cache = "(string, summary_entry) gomap"

definition sc_Store :: "string \<Rightarrow> int \<Rightarrow> string \<Rightarrow> summary_cache \<Rightarrow> summary_cache" where
  "sc_Store sid msgCount summary c =
     (case gm_get c sid of
        Some existing \<Rightarrow>
          if se_msgCount existing \<ge> msgCount then c
          else gm_put sid \<lparr>se_text = summary, se_msgCount = msgCount\<rparr> c
      | None \<Rightarrow> gm_put sid \<lparr>se_text = summary, se_msgCount = msgCount\<rparr> c)"

definition sc_Get :: "string \<Rightarrow> summary_cache \<Rightarrow> string option" where
  "sc_Get sid c = map_option se_text (gm_get c sid)"

definition sc_Invalidate :: "string \<Rightarrow> summary_cache \<Rightarrow> summary_cache" where
  "sc_Invalidate sid c = gm_del sid c"

definition sc_Stores :: "string \<Rightarrow> (int \<times> string) list \<Rightarrow> summary_cache \<Rightarrow> summary_cache" where
  "sc_Stores sid ws c = fold (\<lambda>(n, t). sc_Store sid n t) ws c"

end
