(* ===== verification/ThreadState.thy ===== *)
theory ThreadState
  imports ThreadApproval ThreadBus
begin

text \<open>
  The state of the thread manager (\<^verbatim>\<open>internal/threadmgr/manager.go\<close>,
  \<^verbatim>\<open>thread.go\<close>): the thread record, the manager record, its audit log, the status hooks,
  the specialist bookkeeping, and the file leases of \<^verbatim>\<open>leases.go\<close>.

  What the manager does outside itself (context cancellation, callbacks, asynchronous writes
  to the store, broadcasts) is a trace of effects, in the order the code causes them. The
  manager's locks make every operation modelled here one atomic step.
\<close>

section \<open>Threads\<close>

datatype thread_status =
    StatusQueued | StatusThinking | StatusTooling | StatusDone | StatusBlocked
  | StatusCancelled | StatusError

text \<open>\<open>InputCh\<close>: a channel of capacity one, or nil.\<close>

datatype input_chan = NilChan | EmptyChan | FullChan string

record thread =
  th_ID :: string
  th_SessionID :: string
  th_AgentID :: string
  th_Task :: string
  th_Rationale :: string
  th_ParentMessageID :: string
  th_Status :: thread_status
  th_DependsOn :: "string list"
  th_DependsOnHints :: "string list"
  th_StartedAt :: gotime
  th_CompletedAt :: gotime
  th_CreatedAt :: gotime
  th_CreatedByUser :: string
  th_CreatedReason :: string
  th_ArchivedAt :: "gotime option"
  th_Summary :: "finish_summary option"
  th_TokensUsed :: int
  th_TokenBudget :: int
  th_Timeout :: duration
  th_cancel :: bool
  th_InputCh :: input_chan
  th_LastActivityAt :: gotime
  th_CurrentActivity :: string
  th_Turn :: int
  th_Specialist :: bool
  th_SpecialistModel :: string
  th_CollectedAt :: gotime

text \<open>A \<open>Thread\<close> literal: the fields it does not name have their zero values.\<close>

definition thread_literal :: "string \<Rightarrow> string \<Rightarrow> string \<Rightarrow> string \<Rightarrow> thread_status \<Rightarrow> thread" where
  "thread_literal tid sessionID agentID task status =
     \<lparr>th_ID = tid, th_SessionID = sessionID, th_AgentID = agentID, th_Task = task,
      th_Rationale = [], th_ParentMessageID = [], th_Status = status, th_DependsOn = [],
      th_DependsOnHints = [], th_StartedAt = t_zero, th_CompletedAt = t_zero,
      th_CreatedAt = t_zero, th_CreatedByUser = [], th_CreatedReason = [], th_ArchivedAt = None,
      th_Summary = None, th_TokensUsed = 0, th_TokenBudget = 0, th_Timeout = 0,
      th_cancel = False, th_InputCh = NilChan, th_LastActivityAt = t_zero,
      th_CurrentActivity = [], th_Turn = 0, th_Specialist = False, th_SpecialistModel = [],
      th_CollectedAt = t_zero\<rparr>"

lemma thread_literal_sel [simp]:
  "th_ID (thread_literal i sid a tk st) = i" "th_SessionID (thread_literal i sid a tk st) = sid"
  "th_AgentID (thread_literal i sid a tk st) = a" "th_Status (thread_literal i sid a tk st) = st"
  "th_DependsOn (thread_literal i sid a tk st) = []" "th_Summary (thread_literal i sid a tk st) = None"
  "th_CompletedAt (thread_literal i sid a tk st) = t_zero"
  by (simp_all add: thread_literal_def)

definition isTerminalStatus :: "thread_status \<Rightarrow> bool" where
  "isTerminalStatus status \<longleftrightarrow> status \<in> {StatusDone, StatusCancelled, StatusError}"

lemma isTerminalStatus_simps [simp]:
  "isTerminalStatus StatusDone" "isTerminalStatus StatusCancelled" "isTerminalStatus StatusError"
  "\<not> isTerminalStatus StatusQueued" "\<not> isTerminalStatus StatusThinking"
  "\<not> isTerminalStatus StatusTooling" "\<not> isTerminalStatus StatusBlocked"
  by (simp_all add: isTerminalStatus_def)

section \<open>The manager\<close>

record audit_entry =
  ae_At :: gotime
  ae_ThreadID :: string
  ae_Action :: string
  ae_Actor :: string
  ae_Reason :: string

datatype tm_effect =
    StatusHook string thread_status       \<comment> \<open>the registered OnStatusChange hooks run\<close>
  | CtxCancel string                      \<comment> \<open>the thread's context is cancelled\<close>
  | OnCancel string string                \<comment> \<open>the onCancel callback: session, thread\<close>
  | EvictSpecialist string string         \<comment> \<open>specialistEvictFn: agent, thread\<close>
  | StoreSave thread                      \<comment> \<open>ThreadStore.SaveThread\<close>
  | StoreStatus string thread_status      \<comment> \<open>ThreadStore.UpdateThreadStatus\<close>
  | Snapshot string                       \<comment> \<open>snapshotGraph for a session\<close>
  | Broadcast string string string string string
      \<comment> \<open>a broadcast: session, message type, thread, status, text\<close>
  | DagTrigger                            \<comment> \<open>dagFn\<close>
  | NotifyCompletion string finish_summary \<comment> \<open>CompletionNotifier.Notify\<close>
  | ToolRun string                        \<comment> \<open>a tool is executed\<close>
  | AppendMsg string string string        \<comment> \<open>session store AppendToThread: thread, role, content\<close>
  | LifecycleEvent string string string   \<comment> \<open>EventEmitter.Emit: event, thread, text\<close>
  | HelpResolve string string             \<comment> \<open>the help resolver is asked: thread, message\<close>

record thread_manager =
  tm_threads :: "(string, thread) gomap"
  tm_fileLocks :: "(string, string) gomap"
  tm_MaxThreadsPerSession :: int
  tm_auditLog :: "audit_entry list"
  tm_threadBus :: "thread_bus option"
  tm_proposalRegistry :: "proposal_registry option"
  tm_specialistCompany :: "(string, string) gomap"
  tm_specialistThreads :: "(string, string \<times> gotime) gomap"
  tm_graphDir :: string
  tm_hasStore :: bool
  tm_hasOnCancel :: bool
  tm_hasEvictFn :: bool
  tm_effects :: "tm_effect list"

definition DefaultMaxThreadsPerSession :: int where
  "DefaultMaxThreadsPerSession = 20"

definition maxAuditEntries :: nat where
  "maxAuditEntries = 1000"

definition New :: thread_manager where
  "New = \<lparr>tm_threads = [], tm_fileLocks = [],
     tm_MaxThreadsPerSession = DefaultMaxThreadsPerSession, tm_auditLog = [],
     tm_threadBus = Some (NewThreadBus DefaultThreadBusCapacity),
     tm_proposalRegistry = Some NewProposalRegistry, tm_specialistCompany = [],
     tm_specialistThreads = [], tm_graphDir = [], tm_hasStore = False, tm_hasOnCancel = False,
     tm_hasEvictFn = False, tm_effects = []\<rparr>"

definition emit :: "tm_effect \<Rightarrow> thread_manager \<Rightarrow> thread_manager" where
  "emit e s = s\<lparr>tm_effects := tm_effects s @ [e]\<rparr>"

definition tm_mod :: "string \<Rightarrow> (thread \<Rightarrow> thread) \<Rightarrow> thread_manager \<Rightarrow> thread_manager" where
  "tm_mod tid f s = s\<lparr>tm_threads := gm_mod tid f (tm_threads s)\<rparr>"

abbreviation tm_get :: "thread_manager \<Rightarrow> string \<Rightarrow> thread option" where
  "tm_get s tid \<equiv> gm_get (tm_threads s) tid"

definition tm_status :: "thread_manager \<Rightarrow> string \<Rightarrow> thread_status option" where
  "tm_status s tid = map_option th_Status (tm_get s tid)"

section \<open>Audit log\<close>

definition push_audit :: "audit_entry \<Rightarrow> thread_manager \<Rightarrow> thread_manager" where
  "push_audit e s = s\<lparr>tm_auditLog :=
     (if length (tm_auditLog s) \<ge> maxAuditEntries then tl (tm_auditLog s) @ [e]
      else tm_auditLog s @ [e])\<rparr>"

definition appendAudit :: "gotime \<Rightarrow> string \<Rightarrow> string \<Rightarrow> string \<Rightarrow> string \<Rightarrow> thread_manager \<Rightarrow>
    thread_manager" where
  "appendAudit now threadID action actor reason =
     push_audit \<lparr>ae_At = now, ae_ThreadID = threadID, ae_Action = action, ae_Actor = actor,
                 ae_Reason = reason\<rparr>"

definition AuditLog :: "thread_manager \<Rightarrow> audit_entry list" where
  "AuditLog s = tm_auditLog s"

definition audit_ok :: "thread_manager \<Rightarrow> bool" where
  "audit_ok s \<longleftrightarrow> length (tm_auditLog s) \<le> maxAuditEntries"

interpretation audit: bounded_log "\<lambda>_. maxAuditEntries" push_audit AuditLog audit_ok
proof
  fix s :: thread_manager and e :: audit_entry
  show "0 < maxAuditEntries" "maxAuditEntries = maxAuditEntries"
    by (simp_all add: maxAuditEntries_def)
  assume ok: "audit_ok s"
  show "audit_ok (push_audit e s)"
    using ok by (auto simp: audit_ok_def push_audit_def maxAuditEntries_def)
  show "AuditLog (push_audit e s) = last_n maxAuditEntries (AuditLog s @ [e])"
  proof (cases "length (tm_auditLog s) \<ge> maxAuditEntries")
    case True
    with ok have l: "length (tm_auditLog s) = maxAuditEntries" by (simp add: audit_ok_def)
    then have "tm_auditLog s \<noteq> []" by (auto simp: maxAuditEntries_def)
    with l show ?thesis
      by (cases "tm_auditLog s") (auto simp: push_audit_def AuditLog_def last_n_def)
  next
    case False
    then show ?thesis by (simp add: push_audit_def AuditLog_def last_n_def)
  qed
qed

section \<open>Specialists and status hooks\<close>

definition SetSpecialistCompany :: "string \<Rightarrow> string \<Rightarrow> thread_manager \<Rightarrow> thread_manager" where
  "SetSpecialistCompany agentName companyID s =
     (if trim_space agentName = [] then s
      else s\<lparr>tm_specialistCompany := gm_put (to_lower agentName) companyID (tm_specialistCompany s)\<rparr>)"

definition ClearSpecialistCompany :: "string \<Rightarrow> thread_manager \<Rightarrow> thread_manager" where
  "ClearSpecialistCompany agentName s =
     s\<lparr>tm_specialistCompany := gm_del (to_lower agentName) (tm_specialistCompany s)\<rparr>"

definition specialistCompanyLocked :: "string \<Rightarrow> thread_manager \<Rightarrow> string option" where
  "specialistCompanyLocked agentName s = gm_get (tm_specialistCompany s) (to_lower agentName)"

definition RegisterSpecialistThread :: "gotime \<Rightarrow> string \<Rightarrow> string \<Rightarrow> thread_manager \<Rightarrow>
    thread_manager" where
  "RegisterSpecialistThread now threadID agentName s =
     (if trim_space threadID = [] \<or> trim_space agentName = [] then s
      else s\<lparr>tm_specialistThreads :=
               gm_put threadID (to_lower agentName, now) (tm_specialistThreads s)\<rparr>)"

definition handleSpecialistThreadStatusChange :: "string \<Rightarrow> thread_status \<Rightarrow> thread_manager \<Rightarrow>
    thread_manager" where
  "handleSpecialistThreadStatusChange tid status s =
     (if \<not> isTerminalStatus status then s
      else case gm_get (tm_specialistThreads s) tid of
        None \<Rightarrow> s
      | Some (agentName, _) \<Rightarrow>
          let s' = s\<lparr>tm_specialistThreads := gm_del tid (tm_specialistThreads s),
                     tm_specialistCompany := gm_del agentName (tm_specialistCompany s)\<rparr>
          in if tm_hasEvictFn s then emit (EvictSpecialist agentName tid) s' else s')"

text \<open>\<open>fireStatusChange\<close>: the hook \<open>New\<close> registers runs first, then the registered ones.\<close>

definition fireStatusChange :: "string \<Rightarrow> thread_status \<Rightarrow> thread_manager \<Rightarrow> thread_manager" where
  "fireStatusChange tid status s =
     emit (StatusHook tid status) (handleSpecialistThreadStatusChange tid status s)"

definition EvictStaleSpecialists :: "gotime \<Rightarrow> duration \<Rightarrow> thread_manager \<Rightarrow>
    string list \<times> thread_manager" where
  "EvictStaleSpecialists now maxAge s =
     (let stale = filter (\<lambda>(tid, agentName, registeredAt). now - registeredAt > maxAge)
                    (tm_specialistThreads s);
          s1 = s\<lparr>tm_specialistThreads :=
                   filter (\<lambda>(tid, agentName, registeredAt). \<not> now - registeredAt > maxAge)
                     (tm_specialistThreads s),
                 tm_specialistCompany :=
                   fold (\<lambda>(tid, agentName, _). gm_del agentName) stale (tm_specialistCompany s)\<rparr>;
          s2 = (if tm_hasEvictFn s
                then fold (\<lambda>(tid, agentName, _). emit (EvictSpecialist agentName tid)) stale s1
                else s1)
      in (map (\<lambda>(tid, agentName, _). agentName) stale, s2))"

section \<open>File leases\<close>

datatype lease_error = ErrEmptyThreadID

definition AcquireLeases :: "string \<Rightarrow> string list \<Rightarrow> (string, string) gomap \<Rightarrow>
    (lease_error + string list) \<times> (string, string) gomap" where
  "AcquireLeases threadID paths locks =
     (if threadID = [] then (Inl ErrEmptyThreadID, locks)
      else if paths = [] then (Inr [], locks)
      else let conflicts = filter (\<lambda>p. case gm_get locks p of
                                     None \<Rightarrow> False | Some owner \<Rightarrow> owner \<noteq> threadID) paths
        in if conflicts \<noteq> [] then (Inr conflicts, locks)
           else (Inr [], fold (\<lambda>p. gm_put p threadID) paths locks))"

definition release_locks :: "string \<Rightarrow> (string, string) gomap \<Rightarrow> (string, string) gomap" where
  "release_locks threadID locks = filter (\<lambda>(path, owner). \<not> owner = threadID) locks"

definition ReleaseLeases :: "string \<Rightarrow> thread_manager \<Rightarrow> thread_manager" where
  "ReleaseLeases threadID s = s\<lparr>tm_fileLocks := release_locks threadID (tm_fileLocks s)\<rparr>"

lemma gm_get_fold_put:
  "gm_get (fold (\<lambda>p. gm_put p v) ps m) q = (if q \<in> set ps then Some v else gm_get m q)"
  by (induction ps arbitrary: m) auto

lemma gm_wf_fold_put: "gm_wf m \<Longrightarrow> gm_wf (fold (\<lambda>p. gm_put p v) ps m)"
  by (induction ps arbitrary: m) auto

text \<open>
  AcquireLeases is all or nothing: either every requested path that another thread holds is
  reported and no lease changes, or none is held by another thread and afterwards the thread
  owns exactly its old leases and all requested paths, every other lease being as before.
\<close>

lemma AcquireLeases_all_or_nothing:
  "AcquireLeases threadID paths locks = (r, locks') \<Longrightarrow>
   (let foreign = {p \<in> set paths. \<exists>owner. gm_get locks p = Some owner \<and> owner \<noteq> threadID} in
    case r of
      Inl e \<Rightarrow> threadID = [] \<and> locks' = locks
    | Inr conflicts \<Rightarrow> threadID \<noteq> [] \<and> set conflicts = foreign \<and>
        (if foreign = {} then
           gm_get locks' = (\<lambda>p. if p \<in> set paths then Some threadID else gm_get locks p)
         else locks' = locks))"
  by (auto simp: AcquireLeases_def Let_def gm_get_fold_put fun_eq_iff filter_empty_conv
      split: if_splits option.splits)

text \<open>
  ReleaseLeases frees every path the thread holds and touches no lease of another thread.
\<close>

lemma ReleaseLeases_frees_own:
  assumes "gm_wf (tm_fileLocks s)"
  shows "gm_get (tm_fileLocks (ReleaseLeases threadID s)) p =
     (if gm_get (tm_fileLocks s) p = Some threadID then None else gm_get (tm_fileLocks s) p)"
  using assms
  by (simp add: ReleaseLeases_def release_locks_def gm_get_filter split: option.splits)

section \<open>What the bookkeeping leaves alone\<close>

lemmas tm_op_defs = emit_def tm_mod_def push_audit_def appendAudit_def ReleaseLeases_def
  fireStatusChange_def handleSpecialistThreadStatusChange_def

lemma tm_threads_bookkeeping [simp]:
  "tm_threads (emit e s) = tm_threads s"
  "tm_threads (push_audit a s) = tm_threads s"
  "tm_threads (appendAudit now i act actor reason s) = tm_threads s"
  "tm_threads (ReleaseLeases i s) = tm_threads s"
  "tm_threads (handleSpecialistThreadStatusChange i st s) = tm_threads s"
  "tm_threads (fireStatusChange i st s) = tm_threads s"
  by (simp_all add: tm_op_defs Let_def split: option.splits)

lemma tm_threads_mod [simp]: "tm_threads (tm_mod i f s) = gm_mod i f (tm_threads s)"
  by (simp add: tm_mod_def)

lemma tm_mod_other [simp]:
  "tm_fileLocks (tm_mod i f s) = tm_fileLocks s" "tm_auditLog (tm_mod i f s) = tm_auditLog s"
  "tm_hasStore (tm_mod i f s) = tm_hasStore s" "tm_hasOnCancel (tm_mod i f s) = tm_hasOnCancel s"
  "tm_effects (tm_mod i f s) = tm_effects s" "tm_threadBus (tm_mod i f s) = tm_threadBus s"
  "tm_proposalRegistry (tm_mod i f s) = tm_proposalRegistry s"
  "tm_MaxThreadsPerSession (tm_mod i f s) = tm_MaxThreadsPerSession s"
  "tm_specialistThreads (tm_mod i f s) = tm_specialistThreads s"
  "tm_graphDir (tm_mod i f s) = tm_graphDir s"
  by (simp_all add: tm_mod_def)

lemma tm_fileLocks_bookkeeping [simp]:
  "tm_fileLocks (emit e s) = tm_fileLocks s"
  "tm_fileLocks (push_audit a s) = tm_fileLocks s"
  "tm_fileLocks (appendAudit now i act actor reason s) = tm_fileLocks s"
  "tm_fileLocks (handleSpecialistThreadStatusChange i st s) = tm_fileLocks s"
  "tm_fileLocks (fireStatusChange i st s) = tm_fileLocks s"
  "tm_fileLocks (ReleaseLeases i s) = release_locks i (tm_fileLocks s)"
  by (simp_all add: tm_op_defs Let_def split: option.splits)

lemma specialist_gone:
  "isTerminalStatus st \<Longrightarrow> gm_get (tm_specialistThreads (fireStatusChange i st s)) i = None"
  by (auto simp: fireStatusChange_def handleSpecialistThreadStatusChange_def emit_def Let_def
      split: option.splits)

end
