(* ===== verification/ThreadGraph.thy ===== *)
theory ThreadGraph
  imports ThreadState
begin

text \<open>
  The dependency graph of the threads: cycle detection, readiness and hint resolution of
  \<^verbatim>\<open>internal/threadmgr/manager.go\<close> and the reachability search of
  \<^verbatim>\<open>graph_persistence.go\<close>. An edge goes from a thread to each ID in its
  \<open>DependsOn\<close>; an ID that names no thread is a leaf.

  The searches pass their map \<open>visited\<close> from call to call; it is modelled by the list of
  the keys that are true. One function on a list of nodes stands for the recursive function
  and its loop over the successors: on a one-element list it is the call, on a longer one
  the loop.
\<close>

section \<open>Edges\<close>

definition dep_succs :: "(string, thread) gomap \<Rightarrow> string \<Rightarrow> string list" where
  "dep_succs threads x = (case gm_get threads x of None \<Rightarrow> [] | Some t \<Rightarrow> th_DependsOn t)"

definition adj_succs :: "(string, string list) gomap \<Rightarrow> string \<Rightarrow> string list" where
  "adj_succs adj x = (case gm_get adj x of None \<Rightarrow> [] | Some ds \<Rightarrow> ds)"

interpretation deps: digraph "gm_keys threads" "dep_succs threads" for threads
proof
  fix x y assume "y \<in> set (dep_succs threads x)"
  then have "gm_get threads x \<noteq> None" by (cases "gm_get threads x") (simp_all add: dep_succs_def)
  then show "x \<in> set (gm_keys threads)" by (simp add: gm_get_None_iff)
qed

interpretation adj: digraph "gm_keys adj" "adj_succs adj" for adj
proof
  fix x y assume "y \<in> set (adj_succs adj x)"
  then have "gm_get adj x \<noteq> None" by (cases "gm_get adj x") (simp_all add: adj_succs_def)
  then show "x \<in> set (gm_keys adj)" by (simp add: gm_get_None_iff)
qed

lemma dep_succs_Some: "gm_get threads x = Some t \<Longrightarrow> dep_succs threads x = th_DependsOn t"
  by (simp add: dep_succs_def)

section \<open>Cycle detection\<close>

function (domintros) detectCycles ::
    "(string, thread) gomap \<Rightarrow> string list \<Rightarrow> string list \<Rightarrow> bool \<times> string list" where
  "detectCycles threads [] visited = (False, visited)"
| "detectCycles threads (i # ids) visited =
     (if i \<in> set visited then (True, visited)
      else case gm_get threads i of
        None \<Rightarrow> detectCycles threads ids visited
      | Some t \<Rightarrow>
          (case detectCycles threads (th_DependsOn t) (i # visited) of
             (True, v) \<Rightarrow> (True, v)
           | (False, v) \<Rightarrow> detectCycles threads ids (removeAll i v)))"
  by pat_completeness auto

text \<open>A search that finds nothing gives the map back as it was.\<close>

lemma detectCycles_visited:
  "detectCycles_dom (threads, ids, visited) \<Longrightarrow> detectCycles threads ids visited = (False, v) \<Longrightarrow>
     v = visited"
proof (induction arbitrary: v rule: detectCycles.pinduct)
  case (1 threads visited)
  then show ?case by (simp add: detectCycles.psimps)
next
  case (2 threads i ids visited)
  note psimp = detectCycles.psimps(2)[OF "2.hyps"]
  show ?case
  proof (cases "i \<in> set visited")
    case True
    with "2.prems" psimp show ?thesis by simp
  next
    case new: False
    show ?thesis
    proof (cases "gm_get threads i")
      case None
      with "2.prems" psimp new "2.IH"(1)[OF new None] show ?thesis by simp
    next
      case (Some t)
      obtain r w where rec: "detectCycles threads (th_DependsOn t) (i # visited) = (r, w)"
        by fastforce
      with "2.prems" psimp new Some have r: "r = False" by (cases r) simp_all
      with "2.IH"(2)[OF new Some] rec have "w = i # visited" by simp
      with new have w: "removeAll i w = visited" by simp
      with "2.prems" psimp new Some rec r have "detectCycles threads ids (removeAll i w) = (False, v)"
        by simp
      with "2.IH"(3)[OF new Some rec[symmetric] r] w show ?thesis by simp
    qed
  qed
qed

lemma detectCycles_total: "All detectCycles_dom"
proof (relation "(\<lambda>(threads, ids, visited). card (set (gm_keys threads) - set visited))
    <*mlex*> measure (\<lambda>(threads, ids, visited). length ids)", goal_cases)
  case 1
  then show ?case by (simp add: wf_mlex)
next
  case (2 threads i ids visited)
  then show ?case by (simp add: mlex_leq)
next
  case (3 threads i ids visited t)
  then have "i \<in> set (gm_keys threads)" by (metis gm_get_None_iff option.distinct(1))
  with 3(1) show ?case by (intro mlex_less) (simp only: prod.case, rule deps.unvisited_less, auto)
next
  case (4 threads i ids visited t x v)
  then have "v = i # visited" by (auto dest!: detectCycles_visited)
  with 4 have "removeAll i v = visited" by (simp add: removeAll_id)
  then show ?case by (simp add: mlex_leq)
qed

termination detectCycles
  by (rule detectCycles_total)

definition detectCycleLocked :: "(string, thread) gomap \<Rightarrow> string \<Rightarrow> string list \<Rightarrow> bool" where
  "detectCycleLocked threads i visited = fst (detectCycles threads [i] visited)"

definition DetectCycle :: "string \<Rightarrow> thread_manager \<Rightarrow> bool" where
  "DetectCycle i s = detectCycleLocked (tm_threads s) i []"

lemma detectCycles_false_visited:
  "detectCycles threads ids visited = (False, v) \<Longrightarrow> v = visited"
  using detectCycles_total by (blast intro: detectCycles_visited)

text \<open>Sound when every node of the path leads to the nodes searched.\<close>

lemma detectCycles_sound:
  "detectCycles threads ids visited = (True, v) \<Longrightarrow>
   (\<And>u i. u \<in> set visited \<Longrightarrow> i \<in> set ids \<Longrightarrow> (u, i) \<in> (edge_rel (dep_succs threads))\<^sup>+) \<Longrightarrow>
   \<exists>i \<in> set ids. reaches_cycle (edge_rel (dep_succs threads)) i"
proof (induction threads ids visited arbitrary: v rule: detectCycles.induct)
  case (1 threads visited)
  then show ?case by simp
next
  case (2 threads i ids visited)
  let ?r = "edge_rel (dep_succs threads)"
  show ?case
  proof (cases "i \<in> set visited")
    case True
    with "2.prems"(2)[of i i] show ?thesis by (auto intro: reaches_cycle_self)
  next
    case new: False
    show ?thesis
    proof (cases "gm_get threads i")
      case None
      with new "2.prems" "2.IH"(1)[OF new None] show ?thesis by auto
    next
      case (Some t)
      have edge: "(i, d) \<in> ?r" if "d \<in> set (th_DependsOn t)" for d
        using that Some by (simp add: deps.edge_iff dep_succs_def)
      obtain r w where rec: "detectCycles threads (th_DependsOn t) (i # visited) = (r, w)"
        by fastforce
      show ?thesis
      proof (cases r)
        case True
        have "(u, d) \<in> ?r\<^sup>+" if "u \<in> set (i # visited)" "d \<in> set (th_DependsOn t)" for u d
          using that "2.prems"(2)[of u i] edge[of d] by (auto intro: trancl_into_trancl)
        with "2.IH"(2)[OF new Some, of w] rec True
        have "\<exists>d \<in> set (th_DependsOn t). reaches_cycle ?r d" by simp
        with edge show ?thesis by (auto intro: reaches_cycle_step)
      next
        case False
        with rec have w: "removeAll i w = visited"
          using new by (auto dest!: detectCycles_false_visited simp: removeAll_id)
        have "detectCycles threads ids visited = (True, v)"
          using "2.prems"(1) new Some rec False w by simp
        with "2.IH"(3)[OF new Some rec[symmetric]] False w "2.prems"(2) show ?thesis by auto
      qed
    qed
  qed
qed

lemma detectCycles_complete:
  "detectCycles threads ids visited = (False, v) \<Longrightarrow> i \<in> set ids \<Longrightarrow>
     \<not> reaches_cycle (edge_rel (dep_succs threads)) i"
proof (induction threads ids visited arbitrary: v i rule: detectCycles.induct)
  case (1 threads visited)
  then show ?case by simp
next
  case (2 threads j ids visited)
  let ?r = "edge_rel (dep_succs threads)"
  from "2.prems"(1) have new: "j \<notin> set visited" by (auto split: if_splits)
  show ?case
  proof (cases "gm_get threads j")
    case None
    then have "dep_succs threads j = []" by (simp add: dep_succs_def)
    have "\<not> reaches_cycle ?r j"
      by (rule deps.closed_insert_no_reaches_cycle[where D = "{}"])
         (simp_all add: \<open>dep_succs threads j = []\<close>)
    with None "2.prems" "2.IH"(1)[OF new None] new show ?thesis by auto
  next
    case (Some t)
    obtain r w where rec: "detectCycles threads (th_DependsOn t) (j # visited) = (r, w)"
      by fastforce
    from "2.prems"(1) new Some rec have nr: "\<not> r" by (auto split: bool.splits)
    have deps: "\<not> reaches_cycle ?r d" if "(j, d) \<in> ?r" for d
      using that "2.IH"(2)[OF new Some, of w d] rec nr dep_succs_Some[OF Some]
      by (simp add: deps.edge_iff)
    have "\<not> reaches_cycle ?r j"
    proof
      assume "reaches_cycle ?r j"
      with deps have "(j, j) \<in> ?r\<^sup>+" by (subst (asm) reaches_cycle_unfold) auto
      then obtain d where d: "(j, d) \<in> ?r" "(d, j) \<in> ?r\<^sup>*" by (meson tranclD)
      then have "(d, d) \<in> ?r\<^sup>+" by (meson rtrancl_into_trancl1)
      with d(1) deps show False by (blast intro: reaches_cycle_self)
    qed
    moreover have "detectCycles threads ids (removeAll j w) = (False, v)"
      using "2.prems"(1) new Some rec nr by simp
    ultimately show ?thesis
      using "2.prems"(2) "2.IH"(3)[OF new Some rec[symmetric]] nr by auto
  qed
qed

lemma detectCycleLocked_iff:
  "detectCycleLocked threads i [] \<longleftrightarrow> reaches_cycle (edge_rel (dep_succs threads)) i"
proof (cases "detectCycles threads [i] []")
  case (Pair r v)
  then have eq: "detectCycleLocked threads i [] = r" by (simp only: detectCycleLocked_def fst_conv)
  show ?thesis
  proof (cases r)
    case True
    with Pair have "detectCycles threads [i] [] = (True, v)" by (simp only:)
    from detectCycles_sound[OF this] have "reaches_cycle (edge_rel (dep_succs threads)) i" by simp
    with eq True show ?thesis by simp
  next
    case False
    with Pair have "detectCycles threads [i] [] = (False, v)" by (simp only:)
    from detectCycles_complete[OF this, of i] eq False show ?thesis by simp
  qed
qed

text \<open>
  DetectCycle answers exactly whether a dependency cycle can be reached from the thread; the
  search ends on every graph, cyclic or not.
\<close>

lemma DetectCycle_iff_reachable_cycle:
  "DetectCycle i s \<longleftrightarrow>
     (\<exists>j. (i, j) \<in> (edge_rel (dep_succs (tm_threads s)))\<^sup>* \<and>
          (j, j) \<in> (edge_rel (dep_succs (tm_threads s)))\<^sup>+)"
  by (simp add: DetectCycle_def detectCycleLocked_iff reaches_cycle_def)

section \<open>Reachability and HasCycle\<close>

function (domintros) canReachAny ::
    "(string, string list) gomap \<Rightarrow> string list \<Rightarrow> string \<Rightarrow> string list \<Rightarrow> bool \<times> string list" where
  "canReachAny adj [] target visited = (False, visited)"
| "canReachAny adj (i # ids) target visited =
     (if i = target then (True, visited)
      else if i \<in> set visited then canReachAny adj ids target visited
      else
        (case canReachAny adj (adj_succs adj i) target (i # visited) of
           (True, v) \<Rightarrow> (True, v)
         | (False, v) \<Rightarrow> canReachAny adj ids target v))"
  by pat_completeness auto

lemma canReachAny_grows:
  "canReachAny_dom (adj, ids, target, visited) \<Longrightarrow> canReachAny adj ids target visited = (r, v) \<Longrightarrow>
     set visited \<subseteq> set v"
proof (induction arbitrary: r v rule: canReachAny.pinduct)
  case (1 adj target visited)
  then show ?case by (simp add: canReachAny.psimps)
next
  case (2 adj i ids target visited)
  note psimp = canReachAny.psimps(2)[OF "2.hyps"]
  obtain q w where rec: "canReachAny adj (adj_succs adj i) target (i # visited) = (q, w)"
    by fastforce
  show ?case
  proof (cases "i = target \<or> i \<in> set visited")
    case True
    with "2.prems" psimp "2.IH"(1)[of r v] show ?thesis by (auto split: if_splits)
  next
    case False
    then have ne: "i \<noteq> target" "i \<notin> set visited" by auto
    have "set (i # visited) \<subseteq> set w" using "2.IH"(2)[OF ne rec] .
    moreover have "v = w \<or> set w \<subseteq> set v"
      using "2.prems" psimp ne rec "2.IH"(3)[OF ne rec[symmetric], of r v] by (cases q) simp_all
    ultimately show ?thesis by auto
  qed
qed

lemma canReachAny_total: "All canReachAny_dom"
proof (relation "(\<lambda>(adj, ids, target, visited). card (set (gm_keys adj) - set visited))
    <*mlex*> measure (\<lambda>(adj, ids, target, visited). length ids)", goal_cases)
  case 1
  then show ?case by (simp add: wf_mlex)
next
  case (2 adj i ids target visited)
  then show ?case by (simp add: mlex_leq)
next
  case (3 adj i ids target visited)
  show ?case
  proof (cases "i \<in> set (gm_keys adj)")
    case True
    with 3(2) show ?thesis
      by (intro mlex_less) (simp only: prod.case, rule adj.unvisited_less, auto)
  next
    case False
    then have "adj_succs adj i = []" by (rule adj.succs_leaf)
    moreover have "card (set (gm_keys adj) - set (i # visited)) \<le> card (set (gm_keys adj) - set visited)"
      by (rule adj.unvisited_le) auto
    ultimately show ?thesis by (simp add: mlex_leq)
  qed
next
  case (4 adj i ids target visited x v)
  from 4(5) have "set (i # visited) \<subseteq> set v"
    by (rule canReachAny_grows) (rule 4(3)[symmetric])
  then have "card (set (gm_keys adj) - set v) \<le> card (set (gm_keys adj) - set visited)"
    by (intro adj.unvisited_le) auto
  then show ?case by (simp add: mlex_leq)
qed

termination canReachAny
  by (rule canReachAny_total)

definition canReach :: "(string, string list) gomap \<Rightarrow> string \<Rightarrow> string \<Rightarrow> string list \<Rightarrow> bool" where
  "canReach adj source target visited = fst (canReachAny adj [source] target visited)"

definition dependency_adj :: "(string, thread) gomap \<Rightarrow> (string, string list) gomap" where
  "dependency_adj threads =
     map (\<lambda>(i, t). (i, th_DependsOn t)) (filter (\<lambda>(i, t). length (th_DependsOn t) > 0) threads)"

definition HasCycle :: "string \<Rightarrow> string \<Rightarrow> thread_manager \<Rightarrow> bool" where
  "HasCycle parentID childID s = canReach (dependency_adj (tm_threads s)) childID parentID []"

lemma canReachAny_sound:
  "canReachAny adj ids target visited = (True, v) \<Longrightarrow>
   \<exists>i \<in> set ids. (i, target) \<in> (edge_rel (adj_succs adj))\<^sup>*"
proof (induction adj ids target visited arbitrary: v rule: canReachAny.induct)
  case (1 adj target visited)
  then show ?case by simp
next
  case (2 adj i ids target visited)
  obtain q w where rec: "canReachAny adj (adj_succs adj i) target (i # visited) = (q, w)"
    by fastforce
  show ?case
  proof (cases "i = target")
    case False
    show ?thesis
    proof (cases "i \<in> set visited")
      case True
      with "2.prems" "2.IH"(1)[OF False True, of v] \<open>i \<noteq> target\<close> show ?thesis by auto
    next
      case new: False
      show ?thesis
      proof (cases q)
        case True
        with "2.IH"(2)[OF False new, of w] rec
        have "\<exists>d \<in> set (adj_succs adj i). (d, target) \<in> (edge_rel (adj_succs adj))\<^sup>*" by simp
        then obtain d where
          d: "d \<in> set (adj_succs adj i)" "(d, target) \<in> (edge_rel (adj_succs adj))\<^sup>*" by blast
        from d(1) have "(i, d) \<in> edge_rel (adj_succs adj)" by (simp add: adj.edge_iff)
        with d(2) show ?thesis by (auto intro: converse_rtrancl_into_rtrancl)
      next
        case no: False
        with "2.prems" False new rec have "canReachAny adj ids target w = (True, v)" by simp
        with "2.IH"(3)[OF False new rec[symmetric]] no show ?thesis by auto
      qed
    qed
  qed auto
qed

text \<open>A search that fails has visited its nodes and all their successors, but not the target.\<close>

lemma canReachAny_complete:
  "canReachAny adj ids target visited = (False, v) \<Longrightarrow> target \<notin> set visited \<Longrightarrow>
     set visited \<subseteq> set v \<and> set ids \<subseteq> set v \<and> target \<notin> set v \<and>
     (\<forall>x \<in> set v - set visited. set (adj_succs adj x) \<subseteq> set v)"
proof (induction adj ids target visited arbitrary: v rule: canReachAny.induct)
  case (1 adj target visited)
  then show ?case by simp
next
  case (2 adj i ids target visited)
  obtain q w where rec: "canReachAny adj (adj_succs adj i) target (i # visited) = (q, w)"
    by fastforce
  from "2.prems"(1) have ne: "i \<noteq> target" by (auto split: if_splits)
  show ?case
  proof (cases "i \<in> set visited")
    case True
    with "2.prems" "2.IH"(1)[OF ne True, of v] ne show ?thesis by auto
  next
    case new: False
    have no: "q = False"
      using "2.prems"(1) ne new rec by (cases q) simp_all
    have last: "canReachAny adj ids target w = (False, v)"
      using "2.prems"(1) ne new rec no by simp
    have A: "set (i # visited) \<subseteq> set w \<and> set (adj_succs adj i) \<subseteq> set w \<and> target \<notin> set w \<and>
        (\<forall>x \<in> set w - set (i # visited). set (adj_succs adj x) \<subseteq> set w)"
      using "2.IH"(2)[OF ne new, of w] rec no "2.prems"(2) ne by simp
    then have B: "set w \<subseteq> set v \<and> set ids \<subseteq> set v \<and> target \<notin> set v \<and>
        (\<forall>x \<in> set v - set w. set (adj_succs adj x) \<subseteq> set v)"
      using "2.IH"(3)[OF ne new rec[symmetric] no last] by simp
    show ?thesis
    proof (intro conjI ballI)
      fix x assume x: "x \<in> set v - set visited"
      consider "x = i" | "x \<in> set w - set (i # visited)" | "x \<in> set v - set w"
        using x by auto
      then show "set (adj_succs adj x) \<subseteq> set v"
        using A B by cases blast+
    qed (use A B in auto)
  qed
qed

lemma canReach_iff:
  "canReach adj source target [] \<longleftrightarrow> (source, target) \<in> (edge_rel (adj_succs adj))\<^sup>*"
proof (cases "canReachAny adj [source] target []")
  case (Pair r v)
  then have eq: "canReach adj source target [] = r" by (simp only: canReach_def fst_conv)
  show ?thesis
  proof (cases r)
    case True
    with Pair canReachAny_sound[of adj "[source]" target "[]" v] eq show ?thesis
      by (simp del: canReachAny.simps)
  next
    case False
    with Pair canReachAny_complete[of adj "[source]" target "[]" v]
    have "source \<in> set v" "target \<notin> set v" "\<And>x y. x \<in> set v \<Longrightarrow> y \<in> set (adj_succs adj x) \<Longrightarrow> y \<in> set v"
      by (auto simp del: canReachAny.simps)
    then have "(source, target) \<notin> (edge_rel (adj_succs adj))\<^sup>*"
      using adj.closed_reach by metis
    with eq False show ?thesis by simp
  qed
qed

lemma adj_succs_dependency: "gm_wf threads \<Longrightarrow> adj_succs (dependency_adj threads) = dep_succs threads"
  by (simp add: fun_eq_iff adj_succs_def dep_succs_def dependency_adj_def gm_get_map_snd
      gm_get_filter split: option.splits)

text \<open>
  HasCycle tells, on an acyclic dependency graph, exactly whether making the child a
  dependency of the parent would close a cycle; on any graph it answers whether the child
  already depends, directly or not, on the parent.
\<close>

lemma HasCycle_predicts_cycle:
  assumes "gm_wf (tm_threads s)"
  shows "(HasCycle p c s \<longleftrightarrow> (c, p) \<in> (edge_rel (dep_succs (tm_threads s)))\<^sup>*) \<and>
    (acyclic (edge_rel (dep_succs (tm_threads s))) \<longrightarrow>
      (HasCycle p c s \<longleftrightarrow> \<not> acyclic (insert (p, c) (edge_rel (dep_succs (tm_threads s))))))"
  using assms by (simp add: HasCycle_def canReach_iff adj_succs_dependency acyclic_insert)

definition demo_graph :: thread_manager where
  "demo_graph = New\<lparr>tm_threads :=
     [(''a'', (thread_literal ''a'' ''s'' ''Ann'' ''x'' StatusQueued)\<lparr>th_DependsOn := [''b'']\<rparr>),
      (''b'', (thread_literal ''b'' ''s'' ''Bob'' ''y'' StatusDone)),
      (''c'', (thread_literal ''c'' ''s'' ''Cy'' ''z'' StatusQueued)\<lparr>th_DependsOnHints := [''Ann'', ''Eve'']\<rparr>)]\<rparr>"

section \<open>Readiness\<close>

definition IsReady :: "string \<Rightarrow> thread_manager \<Rightarrow> bool" where
  "IsReady i s =
     (case tm_get s i of
        None \<Rightarrow> False
      | Some t \<Rightarrow> list_all (\<lambda>d. case tm_get s d of
            None \<Rightarrow> False | Some dep \<Rightarrow> th_Status dep = StatusDone) (th_DependsOn t))"

definition IsBlockedByFailure :: "string \<Rightarrow> thread_manager \<Rightarrow> bool" where
  "IsBlockedByFailure i s =
     (case tm_get s i of
        None \<Rightarrow> False
      | Some t \<Rightarrow> list_ex (\<lambda>d. case tm_get s d of
            None \<Rightarrow> False
          | Some dep \<Rightarrow> th_Status dep = StatusCancelled \<or> th_Status dep = StatusError) (th_DependsOn t))"

lemma ready_not_failed: "IsReady i s \<Longrightarrow> \<not> IsBlockedByFailure i s"
  by (auto simp: IsReady_def IsBlockedByFailure_def list_all_iff list_ex_iff split: option.splits)

section \<open>Dependency hints\<close>

definition agent_index :: "string \<Rightarrow> thread \<Rightarrow> (string, thread) gomap \<Rightarrow> (string, string) gomap" where
  "agent_index i t threads =
     fold (\<lambda>(_, other) m.
        if th_SessionID other = th_SessionID t \<and> th_ID other \<noteq> th_ID t
        then gm_put (th_AgentID other) (th_ID other) m else m) threads []"

definition resolve_hints :: "(string, string) gomap \<Rightarrow> string list \<Rightarrow> string list \<Rightarrow> string list" where
  "resolve_hints idx hints deps =
     fold (\<lambda>hint ds. case gm_get idx hint of
        None \<Rightarrow> ds | Some j \<Rightarrow> if j \<in> set ds then ds else ds @ [j]) hints deps"

definition ResolveDependencies :: "string \<Rightarrow> thread_manager \<Rightarrow> string list \<times> thread_manager" where
  "ResolveDependencies i s =
     (case tm_get s i of
        None \<Rightarrow> ([], s)
      | Some t \<Rightarrow>
          if th_DependsOnHints t = [] then (th_DependsOn t, s)
          else let ds = resolve_hints (agent_index i t (tm_threads s)) (th_DependsOnHints t) (th_DependsOn t)
            in (ds, tm_mod i (\<lambda>t. t\<lparr>th_DependsOn := ds, th_DependsOnHints := []\<rparr>) s))"

lemma agent_index_spec:
  "gm_get (fold (\<lambda>(_, other) m.
        if th_SessionID other = sid \<and> th_ID other \<noteq> me
        then gm_put (th_AgentID other) (th_ID other) m else m) threads m0) a = Some j \<Longrightarrow>
   gm_get m0 a = Some j \<or> (\<exists>k other. (k, other) \<in> set threads \<and> th_SessionID other = sid \<and>
       th_ID other = j \<and> j \<noteq> me \<and> th_AgentID other = a)"
proof (induction threads arbitrary: m0)
  case Nil
  then show ?case by simp
next
  case (Cons p threads)
  obtain k other where p: "p = (k, other)" by (cases p)
  let ?m1 = "if th_SessionID other = sid \<and> th_ID other \<noteq> me
     then gm_put (th_AgentID other) (th_ID other) m0 else m0"
  have "gm_get ?m1 a = Some j \<or> (\<exists>k other. (k, other) \<in> set threads \<and> th_SessionID other = sid \<and>
       th_ID other = j \<and> j \<noteq> me \<and> th_AgentID other = a)"
    using Cons by (simp add: p)
  then show ?case by (auto simp: p split: if_splits)
qed

lemma agent_index_found:
  "(\<exists>j. gm_get m0 a = Some j) \<or> (\<exists>k other. (k, other) \<in> set threads \<and> th_SessionID other = sid \<and>
       th_ID other \<noteq> me \<and> th_AgentID other = a) \<Longrightarrow>
   \<exists>j. gm_get (fold (\<lambda>(_, other) m.
        if th_SessionID other = sid \<and> th_ID other \<noteq> me
        then gm_put (th_AgentID other) (th_ID other) m else m) threads m0) a = Some j"
proof (induction threads arbitrary: m0)
  case Nil
  then show ?case by simp
next
  case (Cons p threads)
  obtain k other where p: "p = (k, other)" by (cases p)
  let ?m1 = "if th_SessionID other = sid \<and> th_ID other \<noteq> me
     then gm_put (th_AgentID other) (th_ID other) m0 else m0"
  have "(\<exists>j. gm_get ?m1 a = Some j) \<or> (\<exists>k other. (k, other) \<in> set threads \<and>
       th_SessionID other = sid \<and> th_ID other \<noteq> me \<and> th_AgentID other = a)"
    using Cons.prems by (auto simp: p)
  from Cons.IH[OF this] show ?case by (simp add: p)
qed

lemma set_resolve_hints:
  "set (resolve_hints idx hints deps) = set deps \<union> {j. \<exists>h \<in> set hints. gm_get idx h = Some j}"
  unfolding resolve_hints_def
proof (induction hints arbitrary: deps)
  case Nil
  then show ?case by simp
next
  case (Cons h hints)
  then show ?case by (cases "gm_get idx h") auto
qed

lemma prefix_resolve_hints: "\<exists>new. resolve_hints idx hints deps = deps @ new"
  unfolding resolve_hints_def
proof (induction hints arbitrary: deps)
  case Nil
  then show ?case by simp
next
  case (Cons h hints)
  show ?case
  proof (cases "gm_get idx h")
    case None
    with Cons[of deps] show ?thesis by simp
  next
    case (Some j)
    with Cons[of deps] Cons[of "deps @ [j]"] show ?thesis by (cases "j \<in> set deps") auto
  qed
qed

text \<open>
  ResolveDependencies keeps the thread's dependencies, in order and first, adds only threads
  of the same session, other than itself, that run an agent named by a hint, adds one for every
  hint that names such an agent, and consumes the hints, so that a second call changes nothing.
\<close>

lemma ResolveDependencies_resolves:
  assumes "tm_get s i = Some t" and "ResolveDependencies i s = (ds, s')"
  shows "(\<exists>new. ds = th_DependsOn t @ new) \<and>
    (\<forall>j \<in> set ds - set (th_DependsOn t). j \<noteq> th_ID t \<and> (\<exists>k other. (k, other) \<in> set (tm_threads s) \<and>
        th_ID other = j \<and> th_SessionID other = th_SessionID t \<and>
        th_AgentID other \<in> set (th_DependsOnHints t))) \<and>
    (\<forall>(k, other) \<in> set (tm_threads s). th_SessionID other = th_SessionID t \<and> th_ID other \<noteq> th_ID t \<and>
        th_AgentID other \<in> set (th_DependsOnHints t) \<longrightarrow>
        (\<exists>(k', other') \<in> set (tm_threads s). th_AgentID other' = th_AgentID other \<and> th_ID other' \<in> set ds)) \<and>
    tm_get s' i = Some (t\<lparr>th_DependsOn := ds, th_DependsOnHints := []\<rparr>) \<and>
    ResolveDependencies i s' = (ds, s')"
proof (cases "th_DependsOnHints t = []")
  case True
  with assms have "ds = th_DependsOn t" "s' = s" by (auto simp: ResolveDependencies_def)
  moreover from True have "t\<lparr>th_DependsOn := th_DependsOn t, th_DependsOnHints := []\<rparr> = t"
    by (cases t) simp
  ultimately show ?thesis using assms True by simp
next
  case False
  let ?idx = "agent_index i t (tm_threads s)"
  from assms False have ds: "ds = resolve_hints ?idx (th_DependsOnHints t) (th_DependsOn t)"
    and s': "s' = tm_mod i (\<lambda>t. t\<lparr>th_DependsOn := ds, th_DependsOnHints := []\<rparr>) s"
    by (auto simp: ResolveDependencies_def Let_def)
  have get: "tm_get s' i = Some (t\<lparr>th_DependsOn := ds, th_DependsOnHints := []\<rparr>)"
    using assms(1) by (simp add: s')
  then have again: "ResolveDependencies i s' = (ds, s')" by (simp add: ResolveDependencies_def)
  have from_idx: "\<exists>k other. (k, other) \<in> set (tm_threads s) \<and> th_SessionID other = th_SessionID t \<and>
       th_ID other = j \<and> j \<noteq> th_ID t \<and> th_AgentID other = h" if "gm_get ?idx h = Some j" for h j
    using agent_index_spec[of "th_SessionID t" "th_ID t" "tm_threads s" "[]" h j] that
    by (simp add: agent_index_def)
  have new: "j \<noteq> th_ID t \<and> (\<exists>k other. (k, other) \<in> set (tm_threads s) \<and>
        th_ID other = j \<and> th_SessionID other = th_SessionID t \<and>
        th_AgentID other \<in> set (th_DependsOnHints t))" if "j \<in> set ds - set (th_DependsOn t)" for j
    using that from_idx by (auto simp: ds set_resolve_hints) blast
  have hit: "\<exists>(k', other') \<in> set (tm_threads s). th_AgentID other' = th_AgentID other \<and> th_ID other' \<in> set ds"
    if o: "(k, other) \<in> set (tm_threads s)" "th_SessionID other = th_SessionID t" "th_ID other \<noteq> th_ID t"
      "th_AgentID other \<in> set (th_DependsOnHints t)" for k other
  proof -
    from o have "\<exists>j. gm_get ?idx (th_AgentID other) = Some j"
      unfolding agent_index_def by (intro agent_index_found disjI2) blast
    then obtain j where j: "gm_get ?idx (th_AgentID other) = Some j" ..
    with o(4) have "j \<in> set ds" by (auto simp: ds set_resolve_hints)
    with from_idx[OF j] show ?thesis by fastforce
  qed
  show ?thesis
    using prefix_resolve_hints new hit get again by (auto simp: ds)
qed

end
