(* ===== verification/ThreadManager.thy ===== *)
theory ThreadManager
  imports ThreadGraph
begin

text \<open>
  The operations on a single thread of \<^verbatim>\<open>internal/threadmgr/manager.go\<close>:
  creation with its membership and company gates, the transitions of its status, archiving,
  the vet verdict and the heartbeat. Every operation reads the clock once (\<open>now\<close>).
\<close>

section \<open>Counting and listing\<close>

definition active_in :: "string \<Rightarrow> string \<times> thread \<Rightarrow> bool" where
  "active_in sessionID kt \<longleftrightarrow>
     th_SessionID (snd kt) = sessionID \<and> \<not> isTerminalStatus (th_Status (snd kt))"

definition activeThreadCountLocked :: "string \<Rightarrow> thread_manager \<Rightarrow> nat" where
  "activeThreadCountLocked sessionID s = gm_count (active_in sessionID) (tm_threads s)"

definition ActiveCount :: "string \<Rightarrow> thread_manager \<Rightarrow> nat" where
  "ActiveCount sessionID s = (if sessionID = [] then 0 else activeThreadCountLocked sessionID s)"

definition Get :: "string \<Rightarrow> thread_manager \<Rightarrow> thread option" where
  "Get i s = tm_get s i"

text \<open>The sort of \<open>sort.Slice\<close> need not be stable; the map's order is arbitrary anyway.\<close>

definition ListBySession :: "string \<Rightarrow> thread_manager \<Rightarrow> thread list" where
  "ListBySession sessionID s =
     sort_key th_StartedAt (filter (\<lambda>t. th_SessionID t = sessionID) (map snd (tm_threads s)))"

definition ActiveThreadIDs :: "string \<Rightarrow> thread_manager \<Rightarrow> string list" where
  "ActiveThreadIDs sessionID s =
     map th_ID (filter (\<lambda>t. \<not> isTerminalStatus (th_Status t)) (ListBySession sessionID s))"

definition trySnapshot :: "string \<Rightarrow> thread_manager \<Rightarrow> thread_manager" where
  "trySnapshot sessionID s =
     (if sessionID = [] then s else if tm_graphDir s = [] then s else emit (Snapshot sessionID) s)"

section \<open>Creation\<close>

record create_params =
  cp_SessionID :: string
  cp_AgentID :: string
  cp_Task :: string
  cp_Rationale :: string
  cp_ParentMessageID :: string
  cp_DependsOnHints :: "string list"
  cp_DependsOn :: "string list"
  cp_TokenBudget :: int
  cp_Timeout :: duration
  cp_SpaceID :: string
  cp_CreatedByUser :: string
  cp_CreatedReason :: string
  cp_Specialist :: bool
  cp_SpecialistModel :: string

datatype create_error =
    ErrInvalidParentMessageID
  | ErrSpaceCompanyLookup string
  | ErrCompanyRoster string
  | ErrAgentNotInCompany string
  | ErrSpaceLookup string
  | ErrDeskFloor string
  | ErrAgentNotSpaceMember string string
  | ErrThreadLimitReached
  | ErrCyclicDependency string

text \<open>
  The interfaces of the membership check: \<open>SpaceMembershipChecker\<close> with its optional
  \<open>DeskFloorChecker\<close>, and \<open>CompanyGate\<close>. A lookup gives an error message or a value.
\<close>

record membership =
  mb_SpaceMembers :: "(string \<Rightarrow> string + string list) option"
  mb_SpaceIsDeskDM :: "(string \<Rightarrow> string + bool) option"
  mb_DeskPeerNames :: "string + string list"
  mb_SpaceCompanyID :: "(string \<Rightarrow> string + string) option"
  mb_AgentInCompany :: "string \<Rightarrow> string \<Rightarrow> string + bool"

text \<open>The two loops of \<open>widenDeskDMMembers\<close>: keep the first member of every key.\<close>

fun dedup_members :: "string list \<Rightarrow> string list \<Rightarrow> string list" where
  "dedup_members seen [] = []"
| "dedup_members seen (m # ms) =
     (let key = to_lower (trim_space m) in
      if key = [] then dedup_members seen ms
      else if key \<in> set seen then dedup_members seen ms
      else m # dedup_members (key # seen) ms)"

definition widenDeskDMMembers :: "membership \<Rightarrow> string \<Rightarrow> string list \<Rightarrow> string + string list" where
  "widenDeskDMMembers env spaceID members =
     (case mb_SpaceIsDeskDM env of
        None \<Rightarrow> Inr members
      | Some isDeskDM \<Rightarrow>
          (case isDeskDM spaceID of
             Inl err \<Rightarrow> Inl err
           | Inr False \<Rightarrow> Inr members
           | Inr True \<Rightarrow>
               (case mb_DeskPeerNames env of
                  Inl err \<Rightarrow> Inl err
                | Inr peers \<Rightarrow>
                    if peers = [] then Inr members
                    else Inr (dedup_members [] (members @ peers)))))"

text \<open>The company gate: an error, or whether the space is scoped to a company.\<close>

definition company_gate :: "membership \<Rightarrow> string option \<Rightarrow> create_params \<Rightarrow> create_error + bool" where
  "company_gate env specialist p =
     (case mb_SpaceCompanyID env of
        None \<Rightarrow> Inr False
      | Some companyOf \<Rightarrow>
          (case companyOf (cp_SpaceID p) of
             Inl err \<Rightarrow> Inl (ErrSpaceCompanyLookup err)
           | Inr companyID \<Rightarrow>
               if trim_space companyID = [] then Inr False
               else (case specialist of
                  Some specialistCompanyID \<Rightarrow>
                    if specialistCompanyID = companyID then Inr True
                    else Inl (ErrAgentNotInCompany (cp_AgentID p))
                | None \<Rightarrow>
                    (case mb_AgentInCompany env (cp_AgentID p) companyID of
                       Inl err \<Rightarrow> Inl (ErrCompanyRoster err)
                     | Inr True \<Rightarrow> Inr True
                     | Inr False \<Rightarrow> Inl (ErrAgentNotInCompany (cp_AgentID p))))))"

definition space_gate :: "membership \<Rightarrow> create_params \<Rightarrow> create_error option" where
  "space_gate env p =
     (case mb_SpaceMembers env of
        None \<Rightarrow> None
      | Some membersOf \<Rightarrow>
          (case membersOf (cp_SpaceID p) of
             Inl err \<Rightarrow> Some (ErrSpaceLookup err)
           | Inr members \<Rightarrow>
               (case widenDeskDMMembers env (cp_SpaceID p) members of
                  Inl err \<Rightarrow> Some (ErrDeskFloor err)
                | Inr members' \<Rightarrow>
                    if to_lower (cp_AgentID p) \<in> set (map to_lower members') then None
                    else let roster = join_with '', '' members' in
                      Some (ErrAgentNotSpaceMember (cp_AgentID p)
                              (if roster = [] then ''(empty)'' else roster)))))"

definition membership_check :: "membership \<Rightarrow> create_params \<Rightarrow> thread_manager \<Rightarrow> create_error option" where
  "membership_check env p s =
     (if cp_SpaceID p = [] then None
      else let specialist = specialistCompanyLocked (cp_AgentID p) s in
        case company_gate env specialist p of
          Inl err \<Rightarrow> Some err
        | Inr True \<Rightarrow> None
        | Inr False \<Rightarrow> (case specialist of Some _ \<Rightarrow> None | None \<Rightarrow> space_gate env p))"

definition invalid_parent :: "string \<Rightarrow> bool" where
  "invalid_parent pm \<longleftrightarrow>
     pm \<noteq> [] \<and> (length pm > 128 \<or> contains_any pm [CHR ''/'', CHR 0x5C, CHR ''.'', CHR ''.''])"

definition thread_of_params :: "gotime \<Rightarrow> string \<Rightarrow> create_params \<Rightarrow> thread" where
  "thread_of_params now nid p =
     (thread_literal nid (cp_SessionID p) (cp_AgentID p) (cp_Task p) StatusQueued)
       \<lparr>th_Rationale := cp_Rationale p, th_ParentMessageID := cp_ParentMessageID p,
        th_DependsOn := cp_DependsOn p, th_DependsOnHints := cp_DependsOnHints p,
        th_StartedAt := now, th_CreatedAt := now, th_CreatedByUser := cp_CreatedByUser p,
        th_CreatedReason := cp_CreatedReason p, th_Specialist := cp_Specialist p,
        th_SpecialistModel := cp_SpecialistModel p, th_TokenBudget := cp_TokenBudget p,
        th_Timeout := cp_Timeout p, th_InputCh := EmptyChan\<rparr>"

definition thread_limit :: "thread_manager \<Rightarrow> int" where
  "thread_limit s =
     (if tm_MaxThreadsPerSession s \<le> 0 then DefaultMaxThreadsPerSession else tm_MaxThreadsPerSession s)"

definition Create :: "gotime \<Rightarrow> string \<Rightarrow> membership \<Rightarrow> create_params \<Rightarrow> thread_manager \<Rightarrow>
    (create_error + thread) \<times> thread_manager" where
  "Create now nid env p s =
     (if invalid_parent (cp_ParentMessageID p) then (Inl ErrInvalidParentMessageID, s)
      else case membership_check env p s of
        Some err \<Rightarrow> (Inl err, s)
      | None \<Rightarrow>
          let t = thread_of_params now nid p in
          if cp_SessionID p \<noteq> [] \<and> int (activeThreadCountLocked (cp_SessionID p) s) \<ge> thread_limit s
          then (Inl ErrThreadLimitReached, s)
          else let s1 = s\<lparr>tm_threads := gm_put nid t (tm_threads s)\<rparr> in
            if cp_DependsOn p \<noteq> [] \<and> detectCycleLocked (tm_threads s1) nid []
            then (Inl (ErrCyclicDependency nid), s1\<lparr>tm_threads := gm_del nid (tm_threads s1)\<rparr>)
            else let s2 = appendAudit now nid ''created'' (cp_CreatedByUser p) (cp_CreatedReason p) s1;
                     s3 = trySnapshot (cp_SessionID p) s2;
                     s4 = (if tm_hasStore s3 then emit (StoreSave t) s3 else s3)
              in (Inr t, s4))"

section \<open>Transitions\<close>

definition Start :: "string \<Rightarrow> thread_manager \<Rightarrow> bool \<times> thread_manager" where
  "Start i s =
     (case tm_get s i of
        None \<Rightarrow> (False, s)
      | Some t \<Rightarrow>
          if th_Status t \<noteq> StatusQueued then (False, s)
          else (True, fireStatusChange i StatusThinking
                  (tm_mod i (\<lambda>t. t\<lparr>th_cancel := True, th_Status := StatusThinking\<rparr>) s)))"

definition Cancel :: "gotime \<Rightarrow> string \<Rightarrow> thread_manager \<Rightarrow> thread_manager" where
  "Cancel now i s =
     (case tm_get s i of
        None \<Rightarrow> s
      | Some t \<Rightarrow>
          ReleaseLeases i
            (if isTerminalStatus (th_Status t) then s
             else
               let s1 = tm_mod i (\<lambda>t. t\<lparr>th_Status := StatusCancelled\<rparr>) s;
                   s2 = (if th_cancel t then emit (CtxCancel i) s1 else s1);
                   s3 = appendAudit now i ''cancelled'' [] [] s2;
                   s4 = fireStatusChange i StatusCancelled s3;
                   s5 = (if tm_hasStore s4 then emit (StoreStatus i StatusCancelled) s4 else s4)
               in if tm_hasOnCancel s5 then emit (OnCancel (th_SessionID t) i) s5 else s5))"

definition audit_action :: "finish_summary \<Rightarrow> string" where
  "audit_action summary =
     (if fs_Status summary = ''error'' then ''error''
      else if fs_Status summary = ''completed-with-timeout'' then ''timeout'' else ''completed'')"

definition save_live :: "string \<Rightarrow> thread_manager \<Rightarrow> thread_manager" where
  "save_live i s =
     (if tm_hasStore s then (case tm_get s i of None \<Rightarrow> s | Some t \<Rightarrow> emit (StoreSave t) s) else s)"

definition Complete :: "gotime \<Rightarrow> string \<Rightarrow> finish_summary \<Rightarrow> thread_manager \<Rightarrow> thread_manager" where
  "Complete now i summary s =
     (case tm_get s i of
        None \<Rightarrow> s
      | Some t \<Rightarrow>
          if isTerminalStatus (th_Status t) then s
          else
            let status = (if fs_Status summary = ''error'' then StatusError else StatusDone);
                s1 = tm_mod i (\<lambda>t. t\<lparr>th_Status := status, th_CompletedAt := now,
                                   th_Summary := Some summary\<rparr>) s;
                s2 = appendAudit now i (audit_action summary) [] (fs_Summary summary) s1;
                s3 = trySnapshot (th_SessionID t) s2;
                s4 = save_live i s3
            in ReleaseLeases i (fireStatusChange i status s4))"

definition FinalizeThread :: "gotime \<Rightarrow> string \<Rightarrow> string \<Rightarrow> string \<Rightarrow> thread_manager \<Rightarrow> thread_manager" where
  "FinalizeThread now i statusStr reason s =
     (let (newStatus, auditAction) =
        (if statusStr = ''done'' then (StatusDone, ''completed'')
         else if statusStr = ''cancelled'' then (StatusCancelled, ''cancelled'')
         else (StatusError, ''error''))
      in case tm_get s i of
        None \<Rightarrow> s
      | Some t \<Rightarrow>
          if isTerminalStatus (th_Status t) then s
          else
            let s1 = tm_mod i (\<lambda>t. t\<lparr>th_Status := newStatus,
                       th_CompletedAt := (if th_CompletedAt t = t_zero then now else th_CompletedAt t)\<rparr>) s;
                s2 = appendAudit now i auditAction [] reason s1;
                s3 = (if tm_hasStore s2 then emit (StoreStatus i newStatus) s2 else s2)
            in fireStatusChange i newStatus s3)"

definition setBlocked :: "gotime \<Rightarrow> string \<Rightarrow> string \<Rightarrow> thread_manager \<Rightarrow> thread_manager" where
  "setBlocked now i helpMessage s =
     (case tm_get s i of
        None \<Rightarrow> s
      | Some _ \<Rightarrow>
          fireStatusChange i StatusBlocked
            (tm_mod i (\<lambda>t. t\<lparr>th_Status := StatusBlocked, th_LastActivityAt := now,
                th_CurrentActivity := ''waiting for help: '' @ clipResult helpMessage 120\<rparr>) s))"

section \<open>Archiving, verdicts, heartbeat\<close>

datatype archive_error = ErrThreadNotFound | ErrThreadActive

definition ArchiveThread :: "gotime \<Rightarrow> string \<Rightarrow> thread_manager \<Rightarrow> archive_error option \<times> thread_manager" where
  "ArchiveThread now i s =
     (case tm_get s i of
        None \<Rightarrow> (Some ErrThreadNotFound, s)
      | Some t \<Rightarrow>
          if th_Status t = StatusThinking \<or> th_Status t = StatusTooling
          then (Some ErrThreadActive, s)
          else (None, tm_mod i (\<lambda>t. t\<lparr>th_ArchivedAt := Some now\<rparr>) s))"

definition Archive :: "gotime \<Rightarrow> string \<Rightarrow> string \<Rightarrow> thread_manager \<Rightarrow> thread_manager" where
  "Archive now i reason s =
     (case tm_get s i of
        None \<Rightarrow> s
      | Some t \<Rightarrow> appendAudit now i ''archived'' [] reason
          (if th_ArchivedAt t = None then tm_mod i (\<lambda>t. t\<lparr>th_ArchivedAt := Some now\<rparr>) s else s))"

definition vetted_summary :: "string \<Rightarrow> string \<Rightarrow> finish_summary \<Rightarrow> finish_summary" where
  "vetted_summary label findings sm =
     sm\<lparr>fs_VetLabel := label, fs_VetFindings := findings,
        fs_Summary := trim_newlines (fs_Summary sm) @ [CHR 10, CHR 10] @ ''---'' @ [CHR 10]
          @ ''**Vetted: '' @ label @ ''**''
          @ (if findings \<noteq> [] then [CHR 10] @ findings else [])\<rparr>"

definition AttachVetResult :: "string \<Rightarrow> string \<Rightarrow> string \<Rightarrow> thread_manager \<Rightarrow> bool \<times> thread_manager" where
  "AttachVetResult i label findings s =
     (case tm_get s i of
        None \<Rightarrow> (False, s)
      | Some t \<Rightarrow>
          (case th_Summary t of
             None \<Rightarrow> (False, s)
           | Some sm \<Rightarrow>
               if fs_VetLabel sm \<noteq> [] then (False, s)
               else (True, save_live i
                       (tm_mod i (\<lambda>t. t\<lparr>th_Summary := Some (vetted_summary label findings sm)\<rparr>) s))))"

definition RecordActivity :: "gotime \<Rightarrow> string \<Rightarrow> string \<Rightarrow> thread_manager \<Rightarrow> thread_manager" where
  "RecordActivity now i activity s =
     tm_mod i (\<lambda>t. t\<lparr>th_LastActivityAt := now,
        th_CurrentActivity := (if activity \<noteq> [] then activity else th_CurrentActivity t)\<rparr>) s"

definition recordTurn :: "gotime \<Rightarrow> string \<Rightarrow> int \<Rightarrow> string \<Rightarrow> thread_manager \<Rightarrow> thread_manager" where
  "recordTurn now i turn activity s =
     tm_mod i (\<lambda>t. t\<lparr>th_Turn := turn, th_LastActivityAt := now,
        th_CurrentActivity := (if activity \<noteq> [] then activity else th_CurrentActivity t)\<rparr>) s"

definition checkTokenBudget :: "thread_manager \<Rightarrow> string \<Rightarrow> string option" where
  "checkTokenBudget s i =
     (case tm_get s i of
        None \<Rightarrow> None
      | Some t \<Rightarrow>
          if th_TokenBudget t = 0 then None
          else if th_TokensUsed t \<ge> th_TokenBudget t
            then Some (''token budget exhausted: used '' @ show_int (th_TokensUsed t) @ '' of ''
                        @ show_int (th_TokenBudget t) @ '' tokens'')
            else None)"

section \<open>How the thread map evolves\<close>

text \<open>
  \<open>evolves m m'\<close>: no thread of \<open>m'\<close> is new, each keeps its identity and session, and a terminal
  status is kept.
\<close>

definition evolves :: "(string, thread) gomap \<Rightarrow> (string, thread) gomap \<Rightarrow> bool" where
  "evolves m m' \<longleftrightarrow> (gm_wf m \<longrightarrow> gm_wf m') \<and>
     (\<forall>k t'. gm_get m' k = Some t' \<longrightarrow>
        (\<exists>t. gm_get m k = Some t \<and> th_ID t' = th_ID t \<and> th_SessionID t' = th_SessionID t \<and>
             (isTerminalStatus (th_Status t) \<longrightarrow> th_Status t' = th_Status t)))"

lemma evolves_refl [simp, intro]: "evolves m m"
  by (simp add: evolves_def)

lemma evolves_mod:
  "(\<And>t. gm_get m i = Some t \<Longrightarrow> th_ID (f t) = th_ID t \<and> th_SessionID (f t) = th_SessionID t \<and>
      (isTerminalStatus (th_Status t) \<longrightarrow> th_Status (f t) = th_Status t)) \<Longrightarrow>
   evolves m (gm_mod i f m)"
  by (auto simp: evolves_def)

lemma evolves_filter: "gm_wf m \<Longrightarrow> evolves m (filter P m)"
  by (auto simp: evolves_def gm_get_filter split: option.splits if_splits)

lemma evolves_wf: "evolves m m' \<Longrightarrow> gm_wf m \<Longrightarrow> gm_wf m'"
  by (simp add: evolves_def)

lemma evolves_back:
  assumes "evolves m m'" and "gm_get m' k = Some t'"
  obtains t where "gm_get m k = Some t" "th_ID t' = th_ID t" "th_SessionID t' = th_SessionID t"
    "isTerminalStatus (th_Status t) \<longrightarrow> th_Status t' = th_Status t"
  using assms unfolding evolves_def by blast

lemma evolves_trans [trans]:
  assumes ab: "evolves a b" and bc: "evolves b c"
  shows "evolves a c"
  unfolding evolves_def
proof (intro conjI allI impI)
  show "gm_wf a \<Longrightarrow> gm_wf c" using ab bc by (blast intro: evolves_wf)
  fix k t'' assume "gm_get c k = Some t''"
  with bc obtain t' where t': "gm_get b k = Some t'" "th_ID t'' = th_ID t'"
    "th_SessionID t'' = th_SessionID t'" "isTerminalStatus (th_Status t') \<longrightarrow> th_Status t'' = th_Status t'"
    by (rule evolves_back)
  from ab t'(1) obtain t where t: "gm_get a k = Some t" "th_ID t' = th_ID t"
    "th_SessionID t' = th_SessionID t" "isTerminalStatus (th_Status t) \<longrightarrow> th_Status t' = th_Status t"
    by (rule evolves_back)
  from t t' show "\<exists>t. gm_get a k = Some t \<and> th_ID t'' = th_ID t \<and> th_SessionID t'' = th_SessionID t \<and>
      (isTerminalStatus (th_Status t) \<longrightarrow> th_Status t'' = th_Status t)"
    by (intro exI[of _ t]) auto
qed

lemma gm_count_card: "gm_wf m \<Longrightarrow> gm_count P m = card {k. \<exists>v. gm_get m k = Some v \<and> P (k, v)}"
proof -
  assume wf: "gm_wf m"
  have "{k. \<exists>v. gm_get m k = Some v \<and> P (k, v)} = fst ` set (filter P m)"
    using wf by (force simp: gm_get_Some_iff)
  moreover have "distinct (map fst (filter P m))"
    using gm_wf_filter[OF wf] by (simp add: gm_wf_def)
  ultimately show ?thesis
    by (metis distinct_card gm_count_def length_map list.set_map)
qed

lemma evolves_count_le:
  assumes "evolves m m'" and "gm_wf m"
  shows "gm_count (active_in sid) m' \<le> gm_count (active_in sid) m"
proof -
  have "{k. \<exists>v. gm_get m' k = Some v \<and> active_in sid (k, v)}
      \<subseteq> {k. \<exists>v. gm_get m k = Some v \<and> active_in sid (k, v)}"
    using assms(1) by (auto simp: active_in_def elim!: evolves_back)
  moreover have "finite {k. \<exists>v. gm_get m k = Some v \<and> active_in sid (k, v)}"
    by (rule finite_subset[OF _ finite_dom_map_of[of m]]) (auto simp: dom_def)
  ultimately show ?thesis
    using assms by (simp add: gm_count_card evolves_wf card_mono)
qed

lemma tm_threads_snapshot [simp]:
  "tm_threads (trySnapshot sid s) = tm_threads s"
  "tm_threads (save_live i s) = tm_threads s"
  by (simp_all add: trySnapshot_def save_live_def split: option.splits)

lemma evolves_Start: "evolves (tm_threads s) (tm_threads (snd (Start i s)))"
  by (cases "tm_get s i") (auto simp: Start_def intro!: evolves_mod)

lemma evolves_Cancel: "evolves (tm_threads s) (tm_threads (Cancel now i s))"
  by (cases "tm_get s i") (auto simp: Cancel_def Let_def intro!: evolves_mod)

lemma evolves_Complete: "evolves (tm_threads s) (tm_threads (Complete now i summary s))"
  by (cases "tm_get s i") (auto simp: Complete_def Let_def intro!: evolves_mod)

lemma evolves_FinalizeThread: "evolves (tm_threads s) (tm_threads (FinalizeThread now i st reason s))"
  by (cases "tm_get s i") (auto simp: FinalizeThread_def Let_def intro!: evolves_mod)

lemma evolves_ArchiveThread: "evolves (tm_threads s) (tm_threads (snd (ArchiveThread now i s)))"
  by (cases "tm_get s i") (simp_all add: ArchiveThread_def evolves_mod)

lemma evolves_Archive: "evolves (tm_threads s) (tm_threads (Archive now i reason s))"
  by (cases "tm_get s i") (simp_all add: Archive_def evolves_mod)

lemma evolves_AttachVetResult:
  "evolves (tm_threads s) (tm_threads (snd (AttachVetResult i label findings s)))"
  by (auto simp: AttachVetResult_def evolves_mod split: option.splits)

lemma evolves_RecordActivity: "evolves (tm_threads s) (tm_threads (RecordActivity now i act s))"
  by (simp add: RecordActivity_def evolves_mod)

lemma evolves_recordTurn: "evolves (tm_threads s) (tm_threads (recordTurn now i turn act s))"
  by (simp add: recordTurn_def evolves_mod)

lemmas evolves_transitions = evolves_Start evolves_Cancel evolves_Complete evolves_FinalizeThread
  evolves_ArchiveThread evolves_Archive evolves_AttachVetResult evolves_RecordActivity
  evolves_recordTurn

section \<open>Creation: what it changes\<close>

lemma Create_threads:
  assumes "gm_get (tm_threads s) nid = None"
  shows "tm_threads (snd (Create now nid env p s)) =
    (if is_ok (fst (Create now nid env p s))
     then gm_put nid (thread_of_params now nid p) (tm_threads s) else tm_threads s)"
  using assms by (simp add: Create_def Let_def gm_del_put_fresh split: option.splits)

lemma Create_error_unchanged:
  assumes "gm_get (tm_threads s) nid = None" and "fst (Create now nid env p s) = Inl e"
  shows "snd (Create now nid env p s) = s"
  using assms by (auto simp: Create_def Let_def gm_del_put_fresh split: option.splits if_splits)

lemma Create_ok_checks:
  assumes "fst (Create now nid env p s) = Inr t"
  shows "\<not> invalid_parent (cp_ParentMessageID p)" "membership_check env p s = None"
    "cp_SessionID p = [] \<or> int (activeThreadCountLocked (cp_SessionID p) s) < thread_limit s"
    "t = thread_of_params now nid p"
    "cp_DependsOn p \<noteq> [] \<Longrightarrow> \<not> detectCycleLocked (gm_put nid t (tm_threads s)) nid []"
  using assms by (auto simp: Create_def Let_def split: option.splits if_splits)

lemma thread_of_params_sel [simp]:
  "th_ID (thread_of_params now nid p) = nid" "th_SessionID (thread_of_params now nid p) = cp_SessionID p"
  "th_Status (thread_of_params now nid p) = StatusQueued"
  "th_AgentID (thread_of_params now nid p) = cp_AgentID p"
  "th_DependsOn (thread_of_params now nid p) = cp_DependsOn p"
  "th_CompletedAt (thread_of_params now nid p) = t_zero"
  by (simp_all add: thread_of_params_def)

section \<open>Properties\<close>

text \<open>
  A Create that fails, for whatever reason, leaves the manager exactly as it was; one that
  succeeds adds one queued thread under a new ID, changes no other thread, and the new thread
  reaches no dependency cycle.
\<close>

lemma Create_all_or_nothing:
  assumes "tm_get s nid = None"
  shows "case Create now nid env p s of
      (Inl e, s') \<Rightarrow> s' = s
    | (Inr t, s') \<Rightarrow> th_ID t = nid \<and> th_Status t = StatusQueued \<and>
        (\<forall>k. tm_get s' k = (if k = nid then Some t else tm_get s k)) \<and>
        (cp_DependsOn p \<noteq> [] \<longrightarrow> \<not> reaches_cycle (edge_rel (dep_succs (tm_threads s'))) nid)"
proof (cases "Create now nid env p s")
  case (Pair r s')
  show ?thesis
  proof (cases r)
    case (Inl e)
    with Pair Create_error_unchanged[OF assms, of now env p e] show ?thesis by simp
  next
    case (Inr t)
    with Pair Create_threads[OF assms, of now env p] Create_ok_checks[of now nid env p s t]
    show ?thesis by (simp add: detectCycleLocked_iff)
  qed
qed

text \<open>
  A thread is created in a space that belongs to a company only for an agent that the
  company's roster seats or a specialist that was spawned for that same company; in any other
  space with a roster, only for a specialist or an agent of the (widened) roster.
\<close>

lemma Create_respects_membership:
  assumes "Create now nid env p s = (Inr t, s')" and "cp_SpaceID p \<noteq> []"
  shows "(\<forall>companyOf companyID. mb_SpaceCompanyID env = Some companyOf \<and>
            companyOf (cp_SpaceID p) = Inr companyID \<and> trim_space companyID \<noteq> [] \<longrightarrow>
          (case specialistCompanyLocked (cp_AgentID p) s of
             Some c \<Rightarrow> c = companyID
           | None \<Rightarrow> mb_AgentInCompany env (cp_AgentID p) companyID = Inr True)) \<and>
    (\<forall>membersOf. mb_SpaceCompanyID env = None \<and> mb_SpaceMembers env = Some membersOf \<and>
          specialistCompanyLocked (cp_AgentID p) s = None \<longrightarrow>
          (\<exists>members members'. membersOf (cp_SpaceID p) = Inr members \<and>
             widenDeskDMMembers env (cp_SpaceID p) members = Inr members' \<and>
             (\<exists>m \<in> set members'. equal_fold m (cp_AgentID p))))"
proof -
  have ok: "membership_check env p s = None"
    using Create_ok_checks(2)[of now nid env p s t] assms(1) by simp
  show ?thesis
    using ok assms(2)
    by (auto simp: membership_check_def company_gate_def space_gate_def equal_fold_def Let_def
        split: option.splits sum.splits bool.splits if_splits)
qed

definition demo_params :: create_params where
  "demo_params = \<lparr>cp_SessionID = ''s'', cp_AgentID = ''Sam'', cp_Task = ''review'',
     cp_Rationale = [], cp_ParentMessageID = [], cp_DependsOnHints = [], cp_DependsOn = [],
     cp_TokenBudget = 0, cp_Timeout = 0, cp_SpaceID = ''hq'', cp_CreatedByUser = [],
     cp_CreatedReason = [], cp_Specialist = False, cp_SpecialistModel = []\<rparr>"

definition demo_membership :: membership where
  "demo_membership = \<lparr>mb_SpaceMembers = Some (\<lambda>_. Inr [''Ann'']),
     mb_SpaceIsDeskDM = Some (\<lambda>_. Inr True), mb_DeskPeerNames = Inr [''SAM''],
     mb_SpaceCompanyID = None, mb_AgentInCompany = (\<lambda>_ _. Inr False)\<rparr>"

text \<open>
  A vet verdict is recorded at most once: after an AttachVetResult that succeeded with a
  verdict, every further one is refused and changes nothing.
\<close>

lemma AttachVetResult_once:
  assumes "AttachVetResult i label findings s = (True, s1)" and "label \<noteq> []"
  shows "(\<exists>t sm. tm_get s1 i = Some t \<and> th_Summary t = Some sm \<and> fs_VetLabel sm = label \<and>
       fs_VetFindings sm = findings) \<and>
    AttachVetResult i label' findings' s1 = (False, s1)"
  using assms by (auto simp: AttachVetResult_def vetted_summary_def split: option.splits if_splits)

end
