(* ===== verification/ThreadSession.thy ===== *)
theory ThreadSession
  imports ThreadManager
begin

text \<open>
  The operations of \<^verbatim>\<open>internal/threadmgr/manager.go\<close> that look at many threads at
  once or at a session: input and guidance, collection of results, cleanup, pruning, the
  watchdog, the dependency scheduler of \<^verbatim>\<open>dag.go\<close> and the persistence of the
  graph (\<^verbatim>\<open>graph_persistence.go\<close>); and the lifecycle of threads under all of
  the manager's own operations.
\<close>

section \<open>Sibling context and approval\<close>

definition publish_on_bus :: "gotime \<Rightarrow> string \<Rightarrow> thread_context_message \<Rightarrow> thread_manager \<Rightarrow>
    thread_manager" where
  "publish_on_bus now sid m s =
     s\<lparr>tm_threadBus := map_option (bus_Publish now sid m) (tm_threadBus s)\<rparr>"

definition PublishSiblingContext :: "gotime \<Rightarrow> string \<Rightarrow> string \<Rightarrow> thread_manager \<Rightarrow> thread_manager" where
  "PublishSiblingContext now i content s =
     (if trim_space content = [] then s
      else case tm_get s i of
        None \<Rightarrow> s
      | Some t \<Rightarrow> publish_on_bus now (th_SessionID t)
          \<lparr>tcm_ThreadID = i, tcm_AgentID = th_AgentID t, tcm_TargetAgentID = [],
           tcm_Content = clipResult content 240, tcm_At = t_zero\<rparr> s)"

definition SiblingContext :: "string \<Rightarrow> int \<Rightarrow> thread_manager \<Rightarrow> thread_context_message list" where
  "SiblingContext i limit s =
     (case (tm_get s i, tm_threadBus s) of
        (Some t, Some bus) \<Rightarrow> bus_SiblingContext (th_SessionID t) i (th_AgentID t) limit bus
      | _ \<Rightarrow> [])"

definition RequireApprovalToken :: "gotime \<Rightarrow> string \<Rightarrow> string \<Rightarrow> string \<Rightarrow> string \<Rightarrow> thread_manager \<Rightarrow>
    approval_error option" where
  "RequireApprovalToken now i token provider action s =
     (case tm_get s i of
        None \<Rightarrow> Some ErrApprovalTokenScopeMismatch
      | Some t \<Rightarrow>
          (case tm_proposalRegistry s of
             None \<Rightarrow> Some ErrApprovalTokenRequired
           | Some reg \<Rightarrow> RequireToken now (Some reg) token
               \<lparr>rq_HighRisk = True, rq_SessionID = th_SessionID t, rq_ThreadID = i,
                rq_Provider = provider, rq_Action = action\<rparr>))"

section \<open>Input and guidance\<close>

datatype send_reason = ReasonNone | ReasonNotFound | ReasonNotWaiting | ReasonBufferFull

text \<open>The ellipsis appended to long guidance is the UTF-8 encoding of U+2026.\<close>

definition ellipsis :: string where
  "ellipsis = [CHR 0xE2, CHR 0x80, CHR 0xA6]"

definition TrySendInput :: "gotime \<Rightarrow> string \<Rightarrow> string \<Rightarrow> string \<Rightarrow> thread_manager \<Rightarrow>
    (bool \<times> bool \<times> send_reason) \<times> thread_manager" where
  "TrySendInput now i sessionID input s =
     (case tm_get s i of
        None \<Rightarrow> ((False, False, ReasonNotFound), s)
      | Some t \<Rightarrow>
          if sessionID \<noteq> [] \<and> th_SessionID t \<noteq> sessionID then ((False, False, ReasonNotFound), s)
          else if th_Status t \<noteq> StatusBlocked then ((False, True, ReasonNotWaiting), s)
          else (case th_InputCh t of
             EmptyChan \<Rightarrow>
               let s1 = tm_mod i (\<lambda>t. t\<lparr>th_InputCh := FullChan input\<rparr>) s;
                   trimmed = trim_space input
               in ((True, True, ReasonNone),
                   if trimmed = [] then s1
                   else PublishSiblingContext now i
                     (''user guidance: '' @
                       (if length trimmed > 200 then take 200 trimmed @ ellipsis else trimmed)) s1)
           | _ \<Rightarrow> ((False, True, ReasonBufferFull), s)))"

text \<open>
  \<open>waitForInputOnce\<close> when its channel delivers before the context ends; \<open>None\<close> when the
  thread is gone or no input has arrived (the call keeps waiting).
\<close>

definition waitForInputOnce :: "string \<Rightarrow> thread_manager \<Rightarrow> string option \<times> thread_manager" where
  "waitForInputOnce i s =
     (case tm_get s i of
        None \<Rightarrow> (None, s)
      | Some t \<Rightarrow>
          (case th_InputCh t of
             FullChan input \<Rightarrow>
               (Some input, tm_mod i (\<lambda>t. t\<lparr>th_InputCh := EmptyChan,
                  th_Status := (if th_Status t = StatusBlocked then StatusThinking else th_Status t)\<rparr>) s)
           | _ \<Rightarrow> (None, s)))"

definition InjectReceipt :: "string \<Rightarrow> thread_manager \<Rightarrow> (string \<times> nat) option" where
  "InjectReceipt i s =
     (case tm_get s i of
        None \<Rightarrow> None
      | Some target \<Rightarrow> Some (th_AgentID target,
          gm_count (\<lambda>(k, c). k \<noteq> i \<and> th_SessionID c = th_SessionID target \<and>
             \<not> isTerminalStatus (th_Status c)) (tm_threads s)))"

definition PublishSessionGuidanceTarget :: "gotime \<Rightarrow> string \<Rightarrow> string \<Rightarrow> string \<Rightarrow> string \<Rightarrow>
    thread_manager \<Rightarrow> nat \<times> thread_manager" where
  "PublishSessionGuidanceTarget now sessionID actor targetAgentID content s =
     (let content' = trim_space content in
      if sessionID = [] \<or> content' = [] then (0, s)
      else
        let target = trim_space targetAgentID;
            active = gm_count (\<lambda>(k, t). th_SessionID t = sessionID \<and>
              (target = [] \<or> equal_fold (th_AgentID t) target) \<and>
              \<not> isTerminalStatus (th_Status t)) (tm_threads s);
            actor' = (if trim_space actor = [] then ''operator'' else actor)
        in (active, publish_on_bus now sessionID
              \<lparr>tcm_ThreadID = ''session-guidance'', tcm_AgentID = actor',
               tcm_TargetAgentID = target, tcm_Content = clipResult content' 240,
               tcm_At = t_zero\<rparr> s))"

definition PublishSessionGuidance :: "gotime \<Rightarrow> string \<Rightarrow> string \<Rightarrow> string \<Rightarrow> thread_manager \<Rightarrow>
    nat \<times> thread_manager" where
  "PublishSessionGuidance now sessionID actor content s =
     PublishSessionGuidanceTarget now sessionID actor [] content s"

definition CancelIfOwned :: "gotime \<Rightarrow> string \<Rightarrow> string \<Rightarrow> thread_manager \<Rightarrow>
    (bool \<times> bool) \<times> thread_manager" where
  "CancelIfOwned now i sessionID s =
     (case tm_get s i of
        None \<Rightarrow> ((False, False), s)
      | Some t \<Rightarrow>
          if sessionID \<noteq> [] \<and> th_SessionID t \<noteq> sessionID then ((False, False), s)
          else ((True, True), Cancel now i s))"

section \<open>Cleanup, pruning, watchdog\<close>

definition cleanup_victim :: "string \<Rightarrow> string \<times> thread \<Rightarrow> bool" where
  "cleanup_victim sessionID kt \<longleftrightarrow> th_SessionID (snd kt) = sessionID \<and>
     th_Status (snd kt) \<in> {StatusQueued, StatusThinking, StatusBlocked}"

definition CleanupSession :: "string \<Rightarrow> thread_manager \<Rightarrow> thread_manager" where
  "CleanupSession sessionID s =
     (let victims = filter (cleanup_victim sessionID) (tm_threads s);
          s1 = s\<lparr>tm_threads := filter (\<lambda>kt. \<not> cleanup_victim sessionID kt) (tm_threads s)\<rparr>;
          s2 = fold (\<lambda>(i, t). emit (CtxCancel i)) (filter (\<lambda>(i, t). th_cancel t) victims) s1;
          s3 = fold (\<lambda>(i, t). ReleaseLeases i) victims s2
      in s3\<lparr>tm_threadBus := map_option (bus_ClearSession sessionID) (tm_threadBus s3)\<rparr>)"

definition prunable :: "gotime \<Rightarrow> string \<times> thread \<Rightarrow> bool" where
  "prunable cutoff kt \<longleftrightarrow> isTerminalStatus (th_Status (snd kt)) \<and>
     th_CompletedAt (snd kt) \<noteq> t_zero \<and> th_CompletedAt (snd kt) < cutoff"

definition Prune :: "gotime \<Rightarrow> duration \<Rightarrow> thread_manager \<Rightarrow> nat \<times> thread_manager" where
  "Prune now maxAge s =
     (gm_count (prunable (now - maxAge)) (tm_threads s),
      s\<lparr>tm_threads := filter (\<lambda>kt. \<not> prunable (now - maxAge) kt) (tm_threads s)\<rparr>)"

definition watchdog_verdict :: "gotime \<Rightarrow> duration \<Rightarrow> duration \<Rightarrow> thread \<Rightarrow> string option" where
  "watchdog_verdict now queuedTimeout runningTimeout t =
     (if th_Status t = StatusQueued then
        (if now - th_CreatedAt t > queuedTimeout
         then Some (''delegation timed out '' @ em_dash @ '' thread never started'') else None)
      else if th_Status t = StatusThinking \<or> th_Status t = StatusTooling then
        (if now - th_CreatedAt t > runningTimeout
         then Some (''delegation timed out '' @ em_dash @ '' sub-agent did not complete'') else None)
      else None)"

text \<open>What happens to one victim outside the lock.\<close>

definition watchdog_report :: "gotime \<Rightarrow> bool \<Rightarrow> string \<times> thread \<times> string \<Rightarrow> thread_manager \<Rightarrow>
    thread_manager" where
  "watchdog_report now broadcasts v s =
     (case v of (i, t, summary) \<Rightarrow>
        let s1 = appendAudit now i ''error'' [] summary s;
            s2 = fireStatusChange i StatusError s1;
            s3 = (if tm_hasStore s2 then emit (StoreStatus i StatusError) s2 else s2)
        in if broadcasts then emit (Broadcast (th_SessionID t) ''thread_done'' i ''error'' summary) s3
           else s3)"

definition watchdogScan :: "gotime \<Rightarrow> bool \<Rightarrow> duration \<Rightarrow> duration \<Rightarrow> thread_manager \<Rightarrow> thread_manager" where
  "watchdogScan now broadcasts queuedTimeout runningTimeout s =
     (let verdict = watchdog_verdict now queuedTimeout runningTimeout;
          victims = concat (map (\<lambda>(i, t). case verdict t of
                      None \<Rightarrow> [] | Some summary \<Rightarrow> [(i, t, summary)]) (tm_threads s));
          s1 = s\<lparr>tm_threads := map (\<lambda>(i, t). (i,
                   if verdict t \<noteq> None then t\<lparr>th_Status := StatusError, th_CompletedAt := now\<rparr> else t))
                 (tm_threads s)\<rparr>
      in fold (watchdog_report now broadcasts) victims s1)"

section \<open>Collecting results\<close>

definition staleUncollected :: "gotime \<Rightarrow> thread \<Rightarrow> bool" where
  "staleUncollected now t =
     (if th_CompletedAt t \<noteq> t_zero then now - th_CompletedAt t > 10 * minute
      else if th_StartedAt t \<noteq> t_zero then now - th_StartedAt t > 10 * minute
      else False)"

definition markCollected :: "gotime \<Rightarrow> thread list \<Rightarrow> thread_manager \<Rightarrow> thread_manager" where
  "markCollected now ts s =
     fold (\<lambda>t. tm_mod (th_ID t) (\<lambda>live.
        if th_CollectedAt live = t_zero then live\<lparr>th_CollectedAt := now\<rparr> else live)) ts s"

definition WasCollected :: "string \<Rightarrow> thread_manager \<Rightarrow> bool" where
  "WasCollected i s = (case tm_get s i of None \<Rightarrow> False | Some t \<Rightarrow> th_CollectedAt t \<noteq> t_zero)"

definition real_thread_ids :: "string list \<Rightarrow> thread_manager \<Rightarrow> string list" where
  "real_thread_ids ids s =
     filter (\<lambda>i. \<not> (i = [] \<or> contains_any i ''<>'' \<or> contains_str i ''thread_id'') \<and> tm_get s i \<noteq> None)
       (map trim_space ids)"

text \<open>What \<open>WaitForThreads\<close> fixes before it polls: the finished results and the IDs to wait for.\<close>

definition wait_plan :: "gotime \<Rightarrow> string \<Rightarrow> string list \<Rightarrow> thread_manager \<Rightarrow> thread list \<times> string list" where
  "wait_plan now sessionID threadIDs s =
     (let ids = real_thread_ids threadIDs s in
      if ids \<noteq> [] then ([], ids)
      else let all = ListBySession sessionID s in
        (filter (\<lambda>t. isTerminalStatus (th_Status t) \<and> th_CollectedAt t = t_zero \<and>
                   \<not> staleUncollected now t) all,
         map th_ID (filter (\<lambda>t. \<not> isTerminalStatus (th_Status t)) all)))"

definition wait_collect :: "string \<Rightarrow> string list \<Rightarrow> thread_manager \<Rightarrow> thread list \<times> thread list" where
  "wait_collect sessionID ids s =
     (let found = concat (map (\<lambda>i. case tm_get s i of
                    None \<Rightarrow> []
                  | Some t \<Rightarrow> if sessionID \<noteq> [] \<and> th_SessionID t \<noteq> sessionID then [] else [t]) ids)
      in (filter (\<lambda>t. isTerminalStatus (th_Status t)) found,
          filter (\<lambda>t. \<not> isTerminalStatus (th_Status t)) found))"

record wait_report =
  wr_Completed :: "thread list"
  wr_Pending :: "thread list"
  wr_TimedOut :: bool

text \<open>
  One round of the polling loop: \<open>Some\<close> report when the call returns. \<open>ctxDone\<close> tells that the
  context ends before the next tick, \<open>deadline\<close> is the start time plus the timeout.
\<close>

definition wait_round :: "gotime \<Rightarrow> gotime \<Rightarrow> bool \<Rightarrow> string \<Rightarrow> thread list \<times> string list \<Rightarrow>
    thread_manager \<Rightarrow> wait_report option \<times> thread_manager" where
  "wait_round now deadline ctxDone sessionID plan s =
     (case plan of (immediately, ids) \<Rightarrow>
        (case wait_collect sessionID ids s of (completed0, pending) \<Rightarrow>
           let completed = immediately @ completed0 in
           if pending = [] then
             (Some \<lparr>wr_Completed = completed, wr_Pending = [], wr_TimedOut = False\<rparr>,
              markCollected now completed s)
           else if now > deadline \<or> ctxDone then
             (Some \<lparr>wr_Completed = completed, wr_Pending = pending, wr_TimedOut = True\<rparr>,
              markCollected now completed s)
           else (None, s)))"

text \<open>
  The loop, over the states its rounds find: each is the manager as other goroutines left it,
  with the clock and whether the context ends before the next tick. \<open>None\<close>: the call has not
  returned yet.
\<close>

fun wait_loop :: "gotime \<Rightarrow> string \<Rightarrow> thread list \<times> string list \<Rightarrow>
    (gotime \<times> bool \<times> thread_manager) list \<Rightarrow> (wait_report \<times> thread_manager) option" where
  "wait_loop deadline sessionID plan [] = None"
| "wait_loop deadline sessionID plan ((now, ctxDone, s) # ticks) =
     (case wait_round now deadline ctxDone sessionID plan s of
        (Some r, s') \<Rightarrow> Some (r, s')
      | (None, _) \<Rightarrow> wait_loop deadline sessionID plan ticks)"

definition WaitForThreads :: "gotime \<Rightarrow> string \<Rightarrow> string list \<Rightarrow> duration \<Rightarrow> thread_manager \<Rightarrow> bool \<Rightarrow>
    (gotime \<times> bool \<times> thread_manager) list \<Rightarrow> (wait_report \<times> thread_manager) option" where
  "WaitForThreads now sessionID threadIDs timeout s ctxDone ticks =
     wait_loop (now + timeout) sessionID (wait_plan now sessionID threadIDs s)
       ((now, ctxDone, s) # ticks)"

section \<open>Durable state\<close>

record thread_snapshot =
  ts_ID :: string
  ts_SessionID :: string
  ts_AgentID :: string
  ts_Task :: string
  ts_Status :: thread_status
  ts_DependsOn :: "string list"
  ts_CreatedAt :: gotime
  ts_CompletedAt :: gotime
  ts_CreatedByUser :: string
  ts_CreatedReason :: string
  ts_TokenBudget :: int
  ts_TokensUsed :: int

record session_graph =
  sg_SessionID :: string
  sg_SnapshotAt :: gotime
  sg_Threads :: "thread_snapshot list"

definition snapshot_of :: "thread \<Rightarrow> thread_snapshot" where
  "snapshot_of t =
     \<lparr>ts_ID = th_ID t, ts_SessionID = th_SessionID t, ts_AgentID = th_AgentID t,
      ts_Task = th_Task t, ts_Status = th_Status t, ts_DependsOn = th_DependsOn t,
      ts_CreatedAt = th_CreatedAt t, ts_CompletedAt = th_CompletedAt t,
      ts_CreatedByUser = th_CreatedByUser t, ts_CreatedReason = th_CreatedReason t,
      ts_TokenBudget = th_TokenBudget t, ts_TokensUsed = th_TokensUsed t\<rparr>"

text \<open>The value \<open>snapshotGraph\<close> writes (as JSON) to the file of the session.\<close>

definition snapshotGraph :: "gotime \<Rightarrow> string \<Rightarrow> thread_manager \<Rightarrow> session_graph" where
  "snapshotGraph now sessionID s =
     \<lparr>sg_SessionID = sessionID, sg_SnapshotAt = now,
      sg_Threads = map (\<lambda>(_, t). snapshot_of t)
        (filter (\<lambda>(_, t). th_SessionID t = sessionID) (tm_threads s))\<rparr>"

definition restored_thread :: "thread_snapshot \<Rightarrow> thread" where
  "restored_thread sn =
     (thread_literal (ts_ID sn) (ts_SessionID sn) (ts_AgentID sn) (ts_Task sn)
        (if isTerminalStatus (ts_Status sn) then ts_Status sn else StatusError))
       \<lparr>th_DependsOn := ts_DependsOn sn, th_CreatedAt := ts_CreatedAt sn,
        th_CompletedAt := ts_CompletedAt sn, th_CreatedByUser := ts_CreatedByUser sn,
        th_CreatedReason := ts_CreatedReason sn, th_StartedAt := ts_CreatedAt sn,
        th_TokenBudget := ts_TokenBudget sn, th_TokensUsed := ts_TokensUsed sn,
        th_InputCh := EmptyChan\<rparr>"

datatype load_error = ErrGraphRead | ErrGraphParse

fun restore_loop :: "thread_snapshot list \<Rightarrow> nat \<times> thread_manager \<Rightarrow> nat \<times> thread_manager" where
  "restore_loop [] acc = acc"
| "restore_loop (sn # sns) (n, s) =
     (if tm_get s (ts_ID sn) \<noteq> None then restore_loop sns (n, s)
      else restore_loop sns (Suc n,
        s\<lparr>tm_threads := gm_put (ts_ID sn) (restored_thread sn) (tm_threads s)\<rparr>))"

text \<open>\<open>stored\<close> is what reading and parsing the file gives; \<open>Inr None\<close>: there is no file.\<close>

definition loadGraph :: "load_error + session_graph option \<Rightarrow> thread_manager \<Rightarrow>
    (load_error + nat) \<times> thread_manager" where
  "loadGraph stored s =
     (case stored of
        Inl err \<Rightarrow> (Inl err, s)
      | Inr None \<Rightarrow> (Inr 0, s)
      | Inr (Some g) \<Rightarrow> (case restore_loop (sg_Threads g) (0, s) of (n, s') \<Rightarrow> (Inr n, s')))"

definition RestoreSession :: "(string \<Rightarrow> string \<Rightarrow> load_error + session_graph option) \<Rightarrow> string \<Rightarrow>
    thread_manager \<Rightarrow> (load_error + nat) \<times> thread_manager" where
  "RestoreSession files sessionID s =
     (if tm_graphDir s = [] then (Inr 0, s)
      else loadGraph (files (tm_graphDir s) sessionID) s)"

definition LoadFromStore :: "(string + thread list) \<Rightarrow> thread_manager \<Rightarrow> string option \<times> thread_manager" where
  "LoadFromStore stored s =
     (if \<not> tm_hasStore s then (None, s)
      else case stored of
        Inl err \<Rightarrow> (Some err, s)
      | Inr ts \<Rightarrow> (None, s\<lparr>tm_threads :=
          fold (\<lambda>t m. if gm_get m (th_ID t) = None then gm_put (th_ID t) t m else m) ts (tm_threads s)\<rparr>))"

section \<open>The dependency scheduler\<close>

text \<open>What \<open>SpawnThread\<close> does to the manager before its goroutine runs.\<close>

definition spawn_start :: "string \<Rightarrow> string \<Rightarrow> thread_manager \<Rightarrow> thread_manager" where
  "spawn_start sessID i s =
     (case Start i s of
        (False, s') \<Rightarrow> s'
      | (True, s') \<Rightarrow>
          (case tm_get s' i of
             None \<Rightarrow> emit (Broadcast sessID ''thread_started'' i [] []) s'
           | Some t \<Rightarrow> emit (Broadcast sessID ''thread_started'' i (th_AgentID t) (th_Task t)) s'))"

definition dag_step :: "gotime \<Rightarrow> string \<Rightarrow> thread \<Rightarrow> thread_manager \<Rightarrow> thread_manager" where
  "dag_step now sessID t s =
     (if th_Status t \<noteq> StatusQueued then s
      else if IsBlockedByFailure (th_ID t) s then Cancel now (th_ID t) s
      else if \<not> IsReady (th_ID t) s then s
      else spawn_start sessID (th_ID t) s)"

definition EvaluateDAG :: "gotime \<Rightarrow> string \<Rightarrow> string \<Rightarrow> thread_manager \<Rightarrow> thread_manager" where
  "EvaluateDAG now sessID sessionID s = fold (dag_step now sessID) (ListBySession sessionID s) s"

section \<open>The lifecycle of threads under the manager's own operations\<close>

datatype thread_op =
    OpCreate gotime string membership create_params
  | OpStart string
  | OpCancel gotime string
  | OpComplete gotime string finish_summary
  | OpFinalize gotime string string string
  | OpAttachVet string string string
  | OpArchiveThread gotime string
  | OpArchive gotime string string
  | OpActivity gotime string string
  | OpTurn gotime string int string
  | OpInput gotime string string string
  | OpReceiveInput string
  | OpCleanup string
  | OpPrune gotime duration
  | OpWatchdog gotime bool duration duration
  | OpCollect gotime "thread list"
  | OpResolve string
  | OpEvaluateDAG gotime string string

text \<open>\<open>newID\<close> never returns an ID in use; an \<open>OpCreate\<close> with a used one stands for no call.\<close>

fun run_op :: "thread_op \<Rightarrow> thread_manager \<Rightarrow> thread_manager" where
  "run_op (OpCreate now nid env p) s = (if tm_get s nid = None then snd (Create now nid env p s) else s)"
| "run_op (OpStart i) s = snd (Start i s)"
| "run_op (OpCancel now i) s = Cancel now i s"
| "run_op (OpComplete now i sm) s = Complete now i sm s"
| "run_op (OpFinalize now i st r) s = FinalizeThread now i st r s"
| "run_op (OpAttachVet i l f) s = snd (AttachVetResult i l f s)"
| "run_op (OpArchiveThread now i) s = snd (ArchiveThread now i s)"
| "run_op (OpArchive now i r) s = Archive now i r s"
| "run_op (OpActivity now i a) s = RecordActivity now i a s"
| "run_op (OpTurn now i n a) s = recordTurn now i n a s"
| "run_op (OpInput now i sid x) s = snd (TrySendInput now i sid x s)"
| "run_op (OpReceiveInput i) s = snd (waitForInputOnce i s)"
| "run_op (OpCleanup sid) s = CleanupSession sid s"
| "run_op (OpPrune now a) s = snd (Prune now a s)"
| "run_op (OpWatchdog now b q r) s = watchdogScan now b q r s"
| "run_op (OpCollect now ts) s = markCollected now ts s"
| "run_op (OpResolve i) s = snd (ResolveDependencies i s)"
| "run_op (OpEvaluateDAG now sess sid) s = EvaluateDAG now sess sid s"

lemma tm_threads_publish [simp]:
  "tm_threads (publish_on_bus now sid m s) = tm_threads s"
  "tm_threads (PublishSiblingContext now i c s) = tm_threads s"
  by (auto simp: publish_on_bus_def PublishSiblingContext_def split: option.splits)

lemma tm_threads_fold:
  "(\<And>x s. tm_threads (f x s) = tm_threads s) \<Longrightarrow> tm_threads (fold f xs s) = tm_threads s"
  by (induction xs arbitrary: s) auto

lemma Cleanup_threads:
  "tm_threads (CleanupSession sid s) = filter (\<lambda>kt. \<not> cleanup_victim sid kt) (tm_threads s)"
  by (simp add: CleanupSession_def Let_def tm_threads_fold split_def)

lemma tm_threads_watchdog_report [simp]:
  "tm_threads (watchdog_report now b v s) = tm_threads s"
  by (auto simp: watchdog_report_def Let_def split: prod.splits)

lemma watchdog_threads:
  "tm_threads (watchdogScan now b q r s) =
     map (\<lambda>(i, t). (i, if watchdog_verdict now q r t \<noteq> None
        then t\<lparr>th_Status := StatusError, th_CompletedAt := now\<rparr> else t)) (tm_threads s)"
  by (simp add: watchdogScan_def Let_def tm_threads_fold)

lemma watchdog_verdict_active: "isTerminalStatus (th_Status t) \<Longrightarrow> watchdog_verdict now q r t = None"
  by (auto simp: watchdog_verdict_def)

lemma spawn_start_threads: "tm_threads (spawn_start sess i s) = tm_threads (snd (Start i s))"
  by (auto simp: spawn_start_def split: prod.splits bool.splits option.splits)

lemma evolves_fold:
  assumes "\<And>x s. x \<in> set xs \<Longrightarrow> evolves (tm_threads s) (tm_threads (f x s))"
  shows "evolves (tm_threads s) (tm_threads (fold f xs s))"
  using assms
proof (induction xs arbitrary: s)
  case Nil
  then show ?case by simp
next
  case (Cons x xs)
  have "evolves (tm_threads s) (tm_threads (f x s))" by (simp add: Cons.prems)
  also have "evolves (tm_threads (f x s)) (tm_threads (fold f xs (f x s)))"
    by (rule Cons.IH) (simp add: Cons.prems)
  finally show ?case by simp
qed

lemma evolves_dag_step: "evolves (tm_threads s) (tm_threads (dag_step now sess t s))"
  by (simp add: dag_step_def evolves_Cancel evolves_Start spawn_start_threads)

lemma evolves_session_ops:
  "evolves (tm_threads s) (tm_threads (snd (TrySendInput now i sid x s)))"
  "evolves (tm_threads s) (tm_threads (snd (waitForInputOnce i s)))"
  "evolves (tm_threads s) (tm_threads (snd (ResolveDependencies i s)))"
  by (auto simp: TrySendInput_def waitForInputOnce_def ResolveDependencies_def Let_def
      intro!: evolves_mod split: option.splits input_chan.splits)

lemma watchdog_get:
  "tm_get (watchdogScan now b q r s) k = map_option (\<lambda>t. if watchdog_verdict now q r t \<noteq> None
        then t\<lparr>th_Status := StatusError, th_CompletedAt := now\<rparr> else t) (tm_get s k)"
  unfolding watchdog_threads by (rule gm_get_map_snd)

lemma evolves_watchdog: "evolves (tm_threads s) (tm_threads (watchdogScan now b q r s))"
  unfolding evolves_def
proof (intro conjI allI impI)
  show "gm_wf (tm_threads s) \<Longrightarrow> gm_wf (tm_threads (watchdogScan now b q r s))"
    unfolding watchdog_threads by (subst gm_wf_map_snd) auto
  fix k t' assume "tm_get (watchdogScan now b q r s) k = Some t'"
  then show "\<exists>t. tm_get s k = Some t \<and> th_ID t' = th_ID t \<and> th_SessionID t' = th_SessionID t \<and>
      (isTerminalStatus (th_Status t) \<longrightarrow> th_Status t' = th_Status t)"
    by (auto simp: watchdog_get watchdog_verdict_active)
qed

lemma evolves_collect: "evolves (tm_threads s) (tm_threads (markCollected now ts s))"
  unfolding markCollected_def by (rule evolves_fold) (simp add: evolves_mod)

text \<open>Only \<open>OpCreate\<close> adds a thread; everything else evolves the map.\<close>

fun creates :: "thread_op \<Rightarrow> bool" where
  "creates (OpCreate now nid env p) = True"
| "creates _ = False"

lemma evolves_run_op:
  "gm_wf (tm_threads s) \<Longrightarrow> \<not> creates a \<Longrightarrow> evolves (tm_threads s) (tm_threads (run_op a s))"
  by (cases a) (simp_all add: evolves_transitions evolves_session_ops evolves_watchdog
      evolves_collect Cleanup_threads Prune_def evolves_filter EvaluateDAG_def
      evolves_fold evolves_dag_step)

lemma creates_cases:
  assumes "creates a"
  obtains now nid env p where "a = OpCreate now nid env p"
  using assms by (cases a) auto

text \<open>Distinct keys, and every thread is registered under its own ID.\<close>

definition threads_inv :: "thread_manager \<Rightarrow> bool" where
  "threads_inv s \<longleftrightarrow> gm_wf (tm_threads s) \<and>
     (\<forall>k t. tm_get s k = Some t \<longrightarrow> th_ID t = k)"

lemma threads_inv_New: "threads_inv New"
  by (simp add: threads_inv_def New_def)

lemma threads_inv_wf: "threads_inv s \<Longrightarrow> gm_wf (tm_threads s)"
  by (simp add: threads_inv_def)

lemma threads_inv_id: "threads_inv s \<Longrightarrow> tm_get s k = Some t \<Longrightarrow> th_ID t = k"
  by (simp add: threads_inv_def)

lemma threads_inv_evolves:
  assumes "threads_inv s" and "evolves (tm_threads s) (tm_threads s')"
  shows "threads_inv s'"
  unfolding threads_inv_def
proof (intro conjI allI impI)
  show "gm_wf (tm_threads s')" using assms by (blast intro: evolves_wf threads_inv_wf)
  fix k t assume "tm_get s' k = Some t"
  with assms(2) show "th_ID t = k"
    by (rule evolves_back) (use assms(1) in \<open>auto dest: threads_inv_id\<close>)
qed

lemma threads_inv_run_op:
  assumes inv: "threads_inv s" shows "threads_inv (run_op a s)"
proof (cases "creates a")
  case True
  then obtain now nid env p where "a = OpCreate now nid env p" by (rule creates_cases)
  with inv show ?thesis by (auto simp: threads_inv_def Create_threads split: if_splits)
next
  case False
  with inv show ?thesis by (blast intro: threads_inv_evolves evolves_run_op threads_inv_wf)
qed

interpretation threads: lifecycle tm_status isTerminalStatus run_op threads_inv
proof
  fix s a assume inv: "threads_inv s"
  then show "threads_inv (run_op a s)" by (rule threads_inv_run_op)
  fix i st assume st: "tm_status s i = Some st" and tst: "isTerminalStatus st"
  show "tm_status (run_op a s) i = Some st \<or> tm_status (run_op a s) i = None"
  proof (cases "creates a")
    case True
    then obtain now nid env p where "a = OpCreate now nid env p" by (rule creates_cases)
    with st show ?thesis by (auto simp: tm_status_def Create_threads)
  next
    case False
    with inv have ev: "evolves (tm_threads s) (tm_threads (run_op a s))"
      by (blast intro: evolves_run_op threads_inv_wf)
    show ?thesis
    proof (cases "tm_get (run_op a s) i")
      case (Some t')
      with ev obtain t where "tm_get s i = Some t"
        "isTerminalStatus (th_Status t) \<longrightarrow> th_Status t' = th_Status t"
        by (rule evolves_back)
      with Some st tst show ?thesis by (simp add: tm_status_def)
    qed (simp add: tm_status_def)
  qed
qed

end
