(* ===== verification/ThreadProps.thy ===== *)
theory ThreadProps
  imports ThreadSession
begin

text \<open>
  The properties of the thread manager: its lifecycle, the cap on active threads, the
  watchdog, pruning, the dependency scheduler, the restart from a persisted graph, and the
  hand-over of input and results.
\<close>

section \<open>Lifecycle and cap\<close>

definition demo_state :: thread_manager where
  "demo_state = New\<lparr>tm_threads :=
     [(''a'', (thread_literal ''a'' ''s'' ''Ann'' ''x'' StatusDone)\<lparr>th_CompletedAt := 50\<rparr>),
      (''b'', (thread_literal ''b'' ''s'' ''Bob'' ''y'' StatusQueued)\<lparr>th_DependsOn := [''a'']\<rparr>),
      (''c'', (thread_literal ''c'' ''s'' ''Cy'' ''z'' StatusBlocked)\<lparr>th_InputCh := EmptyChan\<rparr>)],
     tm_fileLocks := [(''f.go'', ''b'')]\<rparr>"

lemma demo_state_inv: "threads_inv demo_state"
  by (simp add: threads_inv_def demo_state_def gm_wf_def New_def thread_literal_def)



lemma limit_bookkeeping [simp]:
  "tm_MaxThreadsPerSession (emit e s) = tm_MaxThreadsPerSession s"
  "tm_MaxThreadsPerSession (appendAudit now i act actor reason s) = tm_MaxThreadsPerSession s"
  "tm_MaxThreadsPerSession (ReleaseLeases i s) = tm_MaxThreadsPerSession s"
  "tm_MaxThreadsPerSession (fireStatusChange i st s) = tm_MaxThreadsPerSession s"
  "tm_MaxThreadsPerSession (trySnapshot sid s) = tm_MaxThreadsPerSession s"
  "tm_MaxThreadsPerSession (save_live i s) = tm_MaxThreadsPerSession s"
  "tm_MaxThreadsPerSession (PublishSiblingContext now i c s) = tm_MaxThreadsPerSession s"
  by (auto simp: tm_op_defs trySnapshot_def save_live_def PublishSiblingContext_def
      publish_on_bus_def Let_def split: option.splits)

lemma limit_fold:
  "(\<And>x s. tm_MaxThreadsPerSession (f x s) = tm_MaxThreadsPerSession s) \<Longrightarrow>
     tm_MaxThreadsPerSession (fold f xs s) = tm_MaxThreadsPerSession s"
  by (induction xs arbitrary: s) auto

lemma limit_transitions [simp]:
  "tm_MaxThreadsPerSession (snd (Start i s)) = tm_MaxThreadsPerSession s"
  "tm_MaxThreadsPerSession (Cancel now i s) = tm_MaxThreadsPerSession s"
  "tm_MaxThreadsPerSession (Complete now i sm s) = tm_MaxThreadsPerSession s"
  "tm_MaxThreadsPerSession (FinalizeThread now i st r s) = tm_MaxThreadsPerSession s"
  "tm_MaxThreadsPerSession (snd (AttachVetResult i l f s)) = tm_MaxThreadsPerSession s"
  "tm_MaxThreadsPerSession (snd (ArchiveThread now i s)) = tm_MaxThreadsPerSession s"
  "tm_MaxThreadsPerSession (Archive now i r s) = tm_MaxThreadsPerSession s"
  "tm_MaxThreadsPerSession (RecordActivity now i act s) = tm_MaxThreadsPerSession s"
  "tm_MaxThreadsPerSession (recordTurn now i n act s) = tm_MaxThreadsPerSession s"
  "tm_MaxThreadsPerSession (snd (Create now nid env p s)) = tm_MaxThreadsPerSession s"
  by (simp_all add: Start_def Cancel_def Complete_def FinalizeThread_def AttachVetResult_def
      ArchiveThread_def Archive_def RecordActivity_def recordTurn_def Create_def Let_def
      split: option.splits)

lemma limit_session_ops [simp]:
  "tm_MaxThreadsPerSession (snd (TrySendInput now i sid x s)) = tm_MaxThreadsPerSession s"
  "tm_MaxThreadsPerSession (snd (waitForInputOnce i s)) = tm_MaxThreadsPerSession s"
  "tm_MaxThreadsPerSession (snd (ResolveDependencies i s)) = tm_MaxThreadsPerSession s"
  "tm_MaxThreadsPerSession (CleanupSession sid s) = tm_MaxThreadsPerSession s"
  "tm_MaxThreadsPerSession (watchdogScan now b q r s) = tm_MaxThreadsPerSession s"
  "tm_MaxThreadsPerSession (markCollected now ts s) = tm_MaxThreadsPerSession s"
  "tm_MaxThreadsPerSession (dag_step now sess t s) = tm_MaxThreadsPerSession s"
proof -
  show "tm_MaxThreadsPerSession (snd (TrySendInput now i sid x s)) = tm_MaxThreadsPerSession s"
    by (simp add: TrySendInput_def Let_def split: option.splits input_chan.splits)
  show "tm_MaxThreadsPerSession (snd (waitForInputOnce i s)) = tm_MaxThreadsPerSession s"
    by (simp add: waitForInputOnce_def split: option.splits input_chan.splits)
  show "tm_MaxThreadsPerSession (snd (ResolveDependencies i s)) = tm_MaxThreadsPerSession s"
    by (simp add: ResolveDependencies_def Let_def split: option.splits)
  show "tm_MaxThreadsPerSession (CleanupSession sid s) = tm_MaxThreadsPerSession s"
    by (simp add: CleanupSession_def Let_def limit_fold split_def)
  have "tm_MaxThreadsPerSession (watchdog_report now b v s') = tm_MaxThreadsPerSession s'" for v s'
    by (simp add: watchdog_report_def Let_def split: prod.splits)
  then show "tm_MaxThreadsPerSession (watchdogScan now b q r s) = tm_MaxThreadsPerSession s"
    by (simp add: watchdogScan_def Let_def limit_fold)
  show "tm_MaxThreadsPerSession (markCollected now ts s) = tm_MaxThreadsPerSession s"
    by (simp add: markCollected_def limit_fold)
  have "tm_MaxThreadsPerSession (spawn_start sess (th_ID t) s) =
      tm_MaxThreadsPerSession (snd (Start (th_ID t) s))"
    by (cases "Start (th_ID t) s") (auto simp: spawn_start_def split: bool.splits option.splits)
  then show "tm_MaxThreadsPerSession (dag_step now sess t s) = tm_MaxThreadsPerSession s"
    by (simp add: dag_step_def)
qed

lemma limit_run_op: "tm_MaxThreadsPerSession (run_op a s) = tm_MaxThreadsPerSession s"
  by (cases a) (simp_all add: Prune_def EvaluateDAG_def limit_fold)

definition capped :: "thread_manager \<Rightarrow> bool" where
  "capped s \<longleftrightarrow> threads_inv s \<and> (\<forall>sid. int (ActiveCount sid s) \<le> thread_limit s)"

lemma thread_limit_pos: "0 < thread_limit s"
  by (simp add: thread_limit_def DefaultMaxThreadsPerSession_def)

lemma capped_Create:
  assumes "capped s" and "tm_get s nid = None"
  shows "capped (snd (Create now nid env p s))"
proof (cases "Create now nid env p s")
  case (Pair r s')
  show ?thesis
  proof (cases r)
    case (Inl e)
    with Pair Create_error_unchanged[OF assms(2), of now env p e] assms(1) show ?thesis by simp
  next
    case (Inr t)
    with Pair have ok: "fst (Create now nid env p s) = Inr t" by simp
    have th: "tm_threads s' = gm_put nid (thread_of_params now nid p) (tm_threads s)"
      using Create_threads[OF assms(2), of now env p] Pair Inr by simp
    have lim: "thread_limit s' = thread_limit s"
      using limit_transitions(10)[of now nid env p s] Pair by (simp add: thread_limit_def)
    have cnt: "activeThreadCountLocked sid s' =
        activeThreadCountLocked sid s + (if sid = cp_SessionID p then 1 else 0)" for sid
      using assms(2) by (simp add: activeThreadCountLocked_def th gm_count_put_fresh active_in_def)
    have "int (ActiveCount sid s') \<le> thread_limit s" for sid
    proof -
      have "int (ActiveCount sid s) \<le> thread_limit s" using assms(1) by (simp add: capped_def)
      then show ?thesis
        using Create_ok_checks(3)[OF ok] cnt[of sid] thread_limit_pos[of s]
        by (cases "sid = []"; cases "sid = cp_SessionID p") (auto simp: ActiveCount_def)
    qed
    moreover have "threads_inv s'"
      using threads_inv_run_op[of s "OpCreate now nid env p"] assms Pair by (simp add: capped_def)
    ultimately show ?thesis using Pair by (simp add: capped_def lim)
  qed
qed

lemma capped_run_op: "capped s \<Longrightarrow> capped (run_op a s)"
proof (cases "creates a")
  case True
  moreover assume "capped s"
  ultimately show ?thesis by (elim creates_cases) (simp add: capped_Create)
next
  case False
  assume c: "capped s"
  then have ev: "evolves (tm_threads s) (tm_threads (run_op a s))" and wf: "gm_wf (tm_threads s)"
    using False by (auto simp: capped_def intro: evolves_run_op threads_inv_wf)
  have le: "ActiveCount sid (run_op a s) \<le> ActiveCount sid s" for sid
    using evolves_count_le[OF ev wf] by (simp add: ActiveCount_def activeThreadCountLocked_def)
  have "thread_limit (run_op a s) = thread_limit s"
    by (simp add: thread_limit_def limit_run_op)
  with c le show ?thesis
    unfolding capped_def by (metis of_nat_le_iff order_trans threads_inv_run_op)
qed

lemma capped_fold: "capped s \<Longrightarrow> capped (fold run_op ops s)"
  by (induction ops arbitrary: s) (simp_all add: capped_run_op)

lemma limit_run: "tm_MaxThreadsPerSession (fold run_op ops s) = tm_MaxThreadsPerSession s"
  by (rule limit_fold) (rule limit_run_op)


section \<open>Cancelling, pruning, watchdog\<close>

lemma Cancel_get:
  "tm_get (Cancel now i s) k = (if k = i
     then map_option (\<lambda>t. if isTerminalStatus (th_Status t) then t else t\<lparr>th_Status := StatusCancelled\<rparr>)
            (tm_get s i) else tm_get s k)"
  by (cases "tm_get s i") (auto simp: Cancel_def Let_def)

lemma release_locks_gone: "gm_get (release_locks i m) p \<noteq> Some i"
  by (auto simp: release_locks_def dest!: gm_get_SomeD)

text \<open>
  Cancelling a registered thread leaves it terminal, cancelled unless it had ended before,
  changes no other thread, and frees all of its file leases.
\<close>

lemma Cancel_ends_and_frees:
  assumes "tm_get s i = Some t"
  shows "tm_status (Cancel now i s) i =
      Some (if isTerminalStatus (th_Status t) then th_Status t else StatusCancelled) \<and>
    (\<forall>k. k \<noteq> i \<longrightarrow> tm_get (Cancel now i s) k = tm_get s k) \<and>
    (\<forall>p. gm_get (tm_fileLocks (Cancel now i s)) p \<noteq> Some i)"
proof -
  have "\<exists>s'. Cancel now i s = ReleaseLeases i s'"
    using assms by (auto simp: Cancel_def)
  then have "\<forall>p. gm_get (tm_fileLocks (Cancel now i s)) p \<noteq> Some i"
    by (auto simp: release_locks_gone)
  with assms show ?thesis by (simp add: tm_status_def Cancel_get)
qed

text \<open>
  Prune removes exactly the terminal threads whose completion time is set and older than the
  age, and returns their number.
\<close>

lemma Prune_exact:
  assumes "gm_wf (tm_threads s)" and "Prune now maxAge s = (n, s')"
  shows "(\<forall>k. tm_get s' k = (case tm_get s k of
       None \<Rightarrow> None
     | Some t \<Rightarrow> if isTerminalStatus (th_Status t) \<and> th_CompletedAt t \<noteq> t_zero \<and>
          th_CompletedAt t < now - maxAge then None else Some t)) \<and>
    length (tm_threads s) = length (tm_threads s') + n"
proof -
  from assms(2) have n: "n = length (filter (prunable (now - maxAge)) (tm_threads s))"
    and s': "tm_threads s' = filter (\<lambda>kt. \<not> prunable (now - maxAge) kt) (tm_threads s)"
    by (auto simp: Prune_def gm_count_def)
  have "\<forall>k. tm_get s' k = (case tm_get s k of
       None \<Rightarrow> None
     | Some t \<Rightarrow> if isTerminalStatus (th_Status t) \<and> th_CompletedAt t \<noteq> t_zero \<and>
          th_CompletedAt t < now - maxAge then None else Some t)"
    using assms(1) by (auto simp: s' gm_get_filter prunable_def split: option.splits)
  moreover have "length (tm_threads s) = length (tm_threads s') + n"
    using sum_length_filter_compl[of "prunable (now - maxAge)" "tm_threads s"] by (simp add: n s')
  ultimately show ?thesis ..
qed

text \<open>
  A thread that Cancel ends is out of Prune's reach for ever: Cancel sets no completion
  time, and Prune only removes threads that have one.
\<close>

lemma cancelled_never_pruned:
  assumes "gm_wf (tm_threads s)" and "tm_get s i = Some t"
    and "\<not> isTerminalStatus (th_Status t)" and "th_CompletedAt t = t_zero"
  shows "tm_status (snd (Prune now maxAge (Cancel c i s))) i = Some StatusCancelled"
proof -
  have "gm_wf (tm_threads (Cancel c i s))"
    using evolves_Cancel assms(1) by (rule evolves_wf)
  then show ?thesis
    using assms by (simp add: tm_status_def Prune_def gm_get_filter Cancel_get prunable_def)
qed

lemma effects_bookkeeping:
  "\<exists>es. tm_effects (appendAudit now i act actor reason s) = tm_effects s @ es"
  "\<exists>es. tm_effects (fireStatusChange i st s) = tm_effects s @ es"
  by (auto simp: tm_op_defs Let_def split: option.splits)

lemma effects_hasStore [simp]:
  "tm_hasStore (appendAudit now i act actor reason s) = tm_hasStore s"
  "tm_hasStore (fireStatusChange i st s) = tm_hasStore s"
  "tm_hasStore (emit e s) = tm_hasStore s"
  by (auto simp: tm_op_defs Let_def split: option.splits)

lemma watchdog_report_effects:
  "set (tm_effects s) \<subseteq> set (tm_effects (watchdog_report now b (i, t, sm) s)) \<and>
   (tm_hasStore s \<longrightarrow> StoreStatus i StatusError \<in> set (tm_effects (watchdog_report now b (i, t, sm) s))) \<and>
   (b \<longrightarrow> Broadcast (th_SessionID t) ''thread_done'' i ''error'' sm
            \<in> set (tm_effects (watchdog_report now b (i, t, sm) s))) \<and>
   tm_hasStore (watchdog_report now b (i, t, sm) s) = tm_hasStore s"
proof -
  have "set (tm_effects s) \<subseteq>
      set (tm_effects (fireStatusChange i StatusError (appendAudit now i ''error'' [] sm s)))"
    using effects_bookkeeping(1)[of now i "''error''" "[]" sm s]
      effects_bookkeeping(2)[of i StatusError "appendAudit now i ''error'' [] sm s"]
    by auto
  then show ?thesis by (auto simp: watchdog_report_def Let_def emit_def)
qed

lemma watchdog_reports_effects:
  "set (tm_effects s) \<subseteq> set (tm_effects (fold (watchdog_report now b) vs s)) \<and>
   (\<forall>(i, t, sm) \<in> set vs.
      (tm_hasStore s \<longrightarrow> StoreStatus i StatusError \<in> set (tm_effects (fold (watchdog_report now b) vs s))) \<and>
      (b \<longrightarrow> Broadcast (th_SessionID t) ''thread_done'' i ''error'' sm
            \<in> set (tm_effects (fold (watchdog_report now b) vs s))))"
proof (induction vs arbitrary: s)
  case Nil
  then show ?case by simp
next
  case (Cons v vs)
  obtain i t sm where v: "v = (i, t, sm)" by (cases v)
  show ?case
    using Cons.IH[of "watchdog_report now b (i, t, sm) s"] watchdog_report_effects[of s now b i t sm]
    by (auto simp: v)
qed

text \<open>
  A watchdog scan turns exactly the overdue threads (queued, or thinking and tooling, for
  longer than their limits) into failed ones with the scan's time as completion time, leaves
  every other thread as it is, writes each failure to the store when there is one, announces it
  when there is a broadcast, and leaves no overdue thread behind.
\<close>

lemma watchdog_exact:
  assumes "gm_wf (tm_threads s)"
  shows "let s' = watchdogScan now b q r s; overdue = (\<lambda>t. watchdog_verdict now q r t \<noteq> None) in
    (\<forall>k. tm_get s' k = map_option (\<lambda>t. if overdue t
        then t\<lparr>th_Status := StatusError, th_CompletedAt := now\<rparr> else t) (tm_get s k)) \<and>
    (\<forall>k t. tm_get s k = Some t \<and> overdue t \<longrightarrow>
       (tm_hasStore s \<longrightarrow> StoreStatus k StatusError \<in> set (tm_effects s')) \<and>
       (b \<longrightarrow> Broadcast (th_SessionID t) ''thread_done'' k ''error'' (the (watchdog_verdict now q r t))
              \<in> set (tm_effects s'))) \<and>
    (\<forall>k t. tm_get s' k = Some t \<longrightarrow> \<not> overdue t)"
proof -
  let ?vs = "concat (map (\<lambda>(i, t). case watchdog_verdict now q r t of
                None \<Rightarrow> [] | Some summary \<Rightarrow> [(i, t, summary)]) (tm_threads s))"
  let ?s1 = "s\<lparr>tm_threads := map (\<lambda>(i, t). (i, if watchdog_verdict now q r t \<noteq> None
      then t\<lparr>th_Status := StatusError, th_CompletedAt := now\<rparr> else t)) (tm_threads s)\<rparr>"
  have scan: "watchdogScan now b q r s = fold (watchdog_report now b) ?vs ?s1"
    by (simp add: watchdogScan_def Let_def)
  have victim: "(k, t, sm) \<in> set ?vs"
    if "tm_get s k = Some t" "watchdog_verdict now q r t = Some sm" for k t sm
    using that assms by (auto simp: gm_get_Some_iff intro!: bexI[of _ "(k, t)"])
  have eff: "(tm_hasStore s \<longrightarrow> StoreStatus k StatusError \<in> set (tm_effects (watchdogScan now b q r s))) \<and>
       (b \<longrightarrow> Broadcast (th_SessionID t) ''thread_done'' k ''error'' sm
              \<in> set (tm_effects (watchdogScan now b q r s)))"
    if "tm_get s k = Some t" "watchdog_verdict now q r t = Some sm" for k t sm
    using watchdog_reports_effects[of ?s1 now b ?vs] victim[OF that] unfolding scan by fastforce
  have gone: "watchdog_verdict now q r (t\<lparr>th_Status := StatusError, th_CompletedAt := now\<rparr>) = None" for t
    by (simp add: watchdog_verdict_active)
  have left: "watchdog_verdict now q r t' = None"
    if "tm_get (watchdogScan now b q r s) k = Some t'" for k t'
    using that gone by (cases "tm_get s k") (auto simp: watchdog_get split: if_splits)
  show ?thesis
    unfolding Let_def
  proof (intro conjI allI impI)
    show "tm_get (watchdogScan now b q r s) k = map_option (\<lambda>t. if watchdog_verdict now q r t \<noteq> None
        then t\<lparr>th_Status := StatusError, th_CompletedAt := now\<rparr> else t) (tm_get s k)" for k
      by (rule watchdog_get)
  qed (use eff left in auto)
qed

end
