(* ===== verification/ThreadSchedule.thy ===== *)
theory ThreadSchedule
  imports ThreadProps
begin

text \<open>
  What the dependency scheduler starts, what a restart brings back, and how input and results
  are handed over: the properties of \<^verbatim>\<open>dag.go\<close>,
  \<^verbatim>\<open>graph_persistence.go\<close> and of the input and collection operations of
  \<^verbatim>\<open>manager.go\<close>.
\<close>

section \<open>The dependency scheduler\<close>

text \<open>
  One thread between two states of a scheduling pass: unchanged up to its status, and the status
  moves only from queued, to thinking when the thread was ready, else to cancelled.
\<close>

definition dag_moved :: "thread_manager \<Rightarrow> string \<Rightarrow> thread \<Rightarrow> thread \<Rightarrow> bool" where
  "dag_moved s k t t' \<longleftrightarrow> th_DependsOn t' = th_DependsOn t \<and>
     (th_Status t' = th_Status t \<or>
      th_Status t = StatusQueued \<and> IsReady k s \<and> th_Status t' = StatusThinking \<or>
      th_Status t = StatusQueued \<and> \<not> IsReady k s \<and> th_Status t' = StatusCancelled)"

definition dag_rel :: "thread_manager \<Rightarrow> thread_manager \<Rightarrow> bool" where
  "dag_rel s s' \<longleftrightarrow> (\<forall>k. rel_option (dag_moved s k) (tm_get s k) (tm_get s' k))"

lemma dag_rel_refl [simp]: "dag_rel s s"
  by (simp add: dag_rel_def dag_moved_def option.rel_refl)

lemma dag_rel_Some:
  assumes "dag_rel s s'" and "tm_get s k = Some t"
  obtains t' where "tm_get s' k = Some t'" "dag_moved s k t t'"
  using assms unfolding dag_rel_def by (metis option_rel_Some1)

lemma dag_rel_None: "dag_rel s s' \<Longrightarrow> tm_get s k = None \<Longrightarrow> tm_get s' k = None"
  unfolding dag_rel_def by (metis rel_option_None1)

lemma dag_rel_done:
  assumes "dag_rel s s'"
  shows "(\<exists>dep. tm_get s' d = Some dep \<and> th_Status dep = StatusDone) \<longleftrightarrow>
     (\<exists>dep. tm_get s d = Some dep \<and> th_Status dep = StatusDone)"
proof (cases "tm_get s d")
  case None
  with dag_rel_None[OF assms] show ?thesis by simp
next
  case (Some t)
  with assms obtain t' where "tm_get s' d = Some t'" "dag_moved s d t t'" by (rule dag_rel_Some)
  with Some show ?thesis by (auto simp: dag_moved_def)
qed

lemma IsReady_iff:
  "tm_get s k = Some t \<Longrightarrow> IsReady k s \<longleftrightarrow>
     (\<forall>d \<in> set (th_DependsOn t). \<exists>dep. tm_get s d = Some dep \<and> th_Status dep = StatusDone)"
  by (auto simp: IsReady_def list_all_iff split: option.splits)

lemma dag_rel_ready:
  assumes "dag_rel s s'"
  shows "IsReady k s' = IsReady k s"
proof (cases "tm_get s k")
  case None
  with dag_rel_None[OF assms] show ?thesis by (simp add: IsReady_def)
next
  case (Some t)
  with assms obtain t' where "tm_get s' k = Some t'" "dag_moved s k t t'" by (rule dag_rel_Some)
  with Some dag_rel_done[OF assms] show ?thesis by (simp add: IsReady_iff dag_moved_def)
qed

lemma dag_rel_blocked:
  assumes rel: "dag_rel s s'" and "IsBlockedByFailure k s"
  shows "IsBlockedByFailure k s'"
proof -
  from assms(2) obtain t d dep where t: "tm_get s k = Some t" "d \<in> set (th_DependsOn t)"
    "tm_get s d = Some dep" "th_Status dep = StatusCancelled \<or> th_Status dep = StatusError"
    by (auto simp: IsBlockedByFailure_def list_ex_iff split: option.splits)
  from rel t(1) obtain t' where t': "tm_get s' k = Some t'" "dag_moved s k t t'" by (rule dag_rel_Some)
  from rel t(3) obtain dep' where dep': "tm_get s' d = Some dep'" "dag_moved s d dep dep'"
    by (rule dag_rel_Some)
  from dep'(2) t(4) have "th_Status dep' = th_Status dep" by (auto simp: dag_moved_def)
  then show ?thesis
    using t(2,4) t' dep'(1)
    by (auto simp: IsBlockedByFailure_def list_ex_iff dag_moved_def intro!: bexI[of _ d])
qed

lemma dag_rel_trans:
  assumes "dag_rel a b" and "dag_rel b c"
  shows "dag_rel a c"
  unfolding dag_rel_def
proof
  fix k
  show "rel_option (dag_moved a k) (tm_get a k) (tm_get c k)"
  proof (cases "tm_get a k")
    case None
    with assms dag_rel_None have "tm_get c k = None" by metis
    with None show ?thesis by simp
  next
    case (Some t)
    from assms(1) Some obtain t' where t': "tm_get b k = Some t'" "dag_moved a k t t'" by (rule dag_rel_Some)
    from assms(2) t'(1) obtain t'' where "tm_get c k = Some t''" "dag_moved b k t' t''"
      by (rule dag_rel_Some)
    with Some t' dag_rel_ready[OF assms(1), of k] show ?thesis by (auto simp: dag_moved_def)
  qed
qed

lemma dag_rel_settled:
  assumes "dag_rel s s'" and "tm_status s k = Some st" and "st \<noteq> StatusQueued"
  shows "tm_status s' k = Some st"
proof -
  from assms(2) obtain t where t: "tm_get s k = Some t" "th_Status t = st" by (auto simp: tm_status_def)
  from assms(1) t(1) obtain t' where "tm_get s' k = Some t'" "dag_moved s k t t'" by (rule dag_rel_Some)
  with t assms(3) show ?thesis by (auto simp: dag_moved_def tm_status_def)
qed

lemma Start_get:
  "tm_get (snd (Start i s)) k = (if k = i
     then map_option (\<lambda>t. if th_Status t = StatusQueued
                          then t\<lparr>th_cancel := True, th_Status := StatusThinking\<rparr> else t) (tm_get s i)
     else tm_get s k)"
  by (cases "tm_get s i") (auto simp: Start_def)

text \<open>A step for a thread that the pass has not yet moved against its readiness.\<close>

lemma dag_step_rel:
  assumes "tm_status s (th_ID t) \<in> {Some StatusQueued, Some StatusCancelled, Some StatusThinking}"
    and "tm_status s (th_ID t) = Some StatusThinking \<Longrightarrow> IsReady (th_ID t) s"
  shows "dag_rel s (dag_step now sess t s)"
proof -
  let ?i = "th_ID t"
  have moved: "rel_option (dag_moved s k) (tm_get s k) (tm_get s k)" for k
    by (cases "tm_get s k") (simp_all add: dag_moved_def)
  show ?thesis
    unfolding dag_rel_def
  proof
    fix k
    show "rel_option (dag_moved s k) (tm_get s k) (tm_get (dag_step now sess t s) k)"
    proof (cases "th_Status t = StatusQueued \<and> k = ?i")
      case False
      then have "tm_get (dag_step now sess t s) k = tm_get s k"
        by (auto simp: dag_step_def Cancel_get spawn_start_threads Start_get)
      with moved show ?thesis by simp
    next
      case True
      from assms(1) obtain u where u: "tm_get s ?i = Some u"
        "th_Status u \<in> {StatusQueued, StatusCancelled, StatusThinking}"
        by (auto simp: tm_status_def)
      show ?thesis
      proof (cases "IsBlockedByFailure ?i s")
        case blocked: True
        then have nr: "\<not> IsReady ?i s" using ready_not_failed by blast
        with assms(2) u have "th_Status u \<noteq> StatusThinking" by (auto simp: tm_status_def)
        with blocked True u nr show ?thesis by (auto simp: dag_step_def Cancel_get dag_moved_def)
      next
        case False
        with True u show ?thesis
          by (auto simp: dag_step_def spawn_start_threads Start_get dag_moved_def)
      qed
    qed
  qed
qed

lemma dag_step_outcome:
  assumes "th_Status t = StatusQueued" and "tm_get s (th_ID t) = Some u"
  shows "IsBlockedByFailure (th_ID t) s \<Longrightarrow> th_Status u \<in> {StatusQueued, StatusCancelled} \<Longrightarrow>
      tm_status (dag_step now sess t s) (th_ID t) = Some StatusCancelled"
    and "IsReady (th_ID t) s \<Longrightarrow> th_Status u \<in> {StatusQueued, StatusThinking} \<Longrightarrow>
      tm_status (dag_step now sess t s) (th_ID t) = Some StatusThinking"
  using assms ready_not_failed
  by (auto simp: dag_step_def tm_status_def Cancel_get spawn_start_threads Start_get)

lemma dag_fold:
  assumes "\<forall>t \<in> set ts. th_Status t = StatusQueued \<longrightarrow> tm_get s0 (th_ID t) = Some t"
    and "dag_rel s0 s"
  shows "dag_rel s0 (fold (dag_step now sess) ts s) \<and> dag_rel s (fold (dag_step now sess) ts s) \<and>
    (\<forall>t \<in> set ts. th_Status t = StatusQueued \<longrightarrow>
       (IsReady (th_ID t) s0 \<longrightarrow>
          tm_status (fold (dag_step now sess) ts s) (th_ID t) = Some StatusThinking) \<and>
       (IsBlockedByFailure (th_ID t) s0 \<longrightarrow>
          tm_status (fold (dag_step now sess) ts s) (th_ID t) = Some StatusCancelled))"
  using assms
proof (induction ts arbitrary: s)
  case Nil
  then show ?case by simp
next
  case (Cons t ts)
  let ?s1 = "dag_step now sess t s"
  let ?s2 = "fold (dag_step now sess) ts ?s1"
  have step: "dag_rel s ?s1 \<and> (th_Status t = StatusQueued \<longrightarrow>
      (IsReady (th_ID t) s0 \<longrightarrow> tm_status ?s1 (th_ID t) = Some StatusThinking) \<and>
      (IsBlockedByFailure (th_ID t) s0 \<longrightarrow> tm_status ?s1 (th_ID t) = Some StatusCancelled))"
  proof (cases "th_Status t = StatusQueued")
    case False
    then show ?thesis by (simp add: dag_step_def)
  next
    case True
    with Cons.prems(1) have "tm_get s0 (th_ID t) = Some t" by simp
    with Cons.prems(2) obtain u where u: "tm_get s (th_ID t) = Some u" "dag_moved s0 (th_ID t) t u"
      by (rule dag_rel_Some)
    note ready = dag_rel_ready[OF Cons.prems(2), of "th_ID t"]
    from u True have st: "th_Status u = StatusQueued \<or>
        IsReady (th_ID t) s \<and> th_Status u = StatusThinking \<or>
        \<not> IsReady (th_ID t) s \<and> th_Status u = StatusCancelled"
      by (auto simp: dag_moved_def ready)
    have rel: "dag_rel s ?s1"
      by (rule dag_step_rel) (use st u(1) in \<open>auto simp: tm_status_def\<close>)
    have "tm_status ?s1 (th_ID t) = Some StatusThinking" if "IsReady (th_ID t) s0"
      using dag_step_outcome(2)[OF True u(1)] st that ready by auto
    moreover have "tm_status ?s1 (th_ID t) = Some StatusCancelled" if b: "IsBlockedByFailure (th_ID t) s0"
      using dag_step_outcome(1)[OF True u(1) dag_rel_blocked[OF Cons.prems(2) b]] st
        ready_not_failed[of "th_ID t" s0] b ready by auto
    ultimately show ?thesis using rel by blast
  qed
  from step Cons.prems(2) have rel1: "dag_rel s0 ?s1" by (blast intro: dag_rel_trans)
  from Cons.IH[OF _ rel1] Cons.prems(1) have IH: "dag_rel s0 ?s2 \<and> dag_rel ?s1 ?s2 \<and>
     (\<forall>t \<in> set ts. th_Status t = StatusQueued \<longrightarrow>
       (IsReady (th_ID t) s0 \<longrightarrow> tm_status ?s2 (th_ID t) = Some StatusThinking) \<and>
       (IsBlockedByFailure (th_ID t) s0 \<longrightarrow> tm_status ?s2 (th_ID t) = Some StatusCancelled))"
    by simp
  then have keep: "tm_status ?s1 k = Some st \<Longrightarrow> st \<noteq> StatusQueued \<Longrightarrow> tm_status ?s2 k = Some st" for k st
    by (blast intro: dag_rel_settled)
  from IH step have "dag_rel s ?s2" by (blast intro: dag_rel_trans)
  with IH step keep show ?case by (auto intro: keep)
qed

lemma ListBySession_registered:
  assumes "threads_inv s" and "t \<in> set (ListBySession sid s)"
  shows "tm_get s (th_ID t) = Some t"
proof -
  from assms(2) obtain k where "(k, t) \<in> set (tm_threads s)" by (auto simp: ListBySession_def)
  with assms(1) have "tm_get s k = Some t" by (simp add: gm_get_Some_iff threads_inv_wf)
  with threads_inv_id[OF assms(1) this] show ?thesis by simp
qed

lemma registered_listed:
  "tm_get s k = Some t \<Longrightarrow> th_SessionID t = sid \<Longrightarrow> t \<in> set (ListBySession sid s)"
  by (force simp: ListBySession_def dest: gm_get_SomeD)



section \<open>Restart\<close>

lemma restore_loop_spec:
  assumes "distinct (map ts_ID sns)"
  shows "restore_loop sns (n, s) = (n', s') \<Longrightarrow>
    (\<forall>k. tm_get s' k = (case tm_get s k of Some t \<Rightarrow> Some t
       | None \<Rightarrow> map_option restored_thread (gm_get (map (\<lambda>sn. (ts_ID sn, sn)) sns) k))) \<and>
    n' = n + length (filter (\<lambda>sn. tm_get s (ts_ID sn) = None) sns)"
  using assms
proof (induction sns arbitrary: n s)
  case Nil
  then show ?case by (auto split: option.splits)
next
  case (Cons sn sns)
  let ?s1 = "s\<lparr>tm_threads := gm_put (ts_ID sn) (restored_thread sn) (tm_threads s)\<rparr>"
  show ?case
  proof (cases "tm_get s (ts_ID sn)")
    case (Some t)
    with Cons.prems Cons.IH[of n s] show ?thesis by (auto split: option.splits)
  next
    case None
    have notin: "\<And>sn'. sn' \<in> set sns \<Longrightarrow> ts_ID sn' \<noteq> ts_ID sn"
      using Cons.prems(2) by (metis distinct.simps(2) imageI list.set_map list.simps(9))
    have none: "gm_get (map (\<lambda>sn. (ts_ID sn, sn)) sns) (ts_ID sn) = None"
      using Cons.prems(2) by (simp add: map_of_eq_None_iff image_image)
    have filt: "filter (\<lambda>sn'. tm_get ?s1 (ts_ID sn') = None) sns
        = filter (\<lambda>sn'. tm_get s (ts_ID sn') = None) sns"
      using notin by (auto intro!: filter_cong)
    from None Cons.prems have "restore_loop sns (Suc n, ?s1) = (n', s')" by simp
    from Cons.IH[OF this] Cons.prems(2) have
      get: "\<forall>k. tm_get s' k = (case tm_get ?s1 k of Some t \<Rightarrow> Some t
         | None \<Rightarrow> map_option restored_thread (gm_get (map (\<lambda>sn. (ts_ID sn, sn)) sns) k))"
      and cnt: "n' = Suc n + length (filter (\<lambda>sn. tm_get ?s1 (ts_ID sn) = None) sns)"
      by auto
    from cnt have "n' = n + length (filter (\<lambda>sn. tm_get s (ts_ID sn) = None) (sn # sns))"
      unfolding filt using None by simp
    then show ?thesis using get None none by (auto split: option.splits)
  qed
qed

lemma snapshot_get:
  assumes "threads_inv s"
  shows "gm_get (map (\<lambda>sn. (ts_ID sn, sn)) (sg_Threads (snapshotGraph now sid s))) k =
    (case tm_get s k of None \<Rightarrow> None
     | Some t \<Rightarrow> if th_SessionID t = sid then Some (snapshot_of t) else None)"
    and "distinct (map ts_ID (sg_Threads (snapshotGraph now sid s)))"
proof -
  let ?f = "filter (\<lambda>(_, t). th_SessionID t = sid) (tm_threads s)"
  have wf: "gm_wf (tm_threads s)" using assms by (rule threads_inv_wf)
  have keyed: "fst p = th_ID (snd p)" if "p \<in> set ?f" for p
  proof -
    from that have "(fst p, snd p) \<in> set (tm_threads s)" by simp
    with wf have "tm_get s (fst p) = Some (snd p)" by (simp only: gm_get_Some_iff)
    from threads_inv_id[OF assms this] show ?thesis by simp
  qed
  have eq: "map (\<lambda>sn. (ts_ID sn, sn)) (sg_Threads (snapshotGraph now sid s)) =
      map (\<lambda>(k, t). (k, snapshot_of t)) ?f"
    using keyed by (auto simp: snapshotGraph_def snapshot_of_def split_def)
  show "gm_get (map (\<lambda>sn. (ts_ID sn, sn)) (sg_Threads (snapshotGraph now sid s))) k =
    (case tm_get s k of None \<Rightarrow> None
     | Some t \<Rightarrow> if th_SessionID t = sid then Some (snapshot_of t) else None)"
    unfolding eq gm_get_map_snd by (simp add: gm_get_filter wf split: option.splits)
  have "map ts_ID (sg_Threads (snapshotGraph now sid s)) = map fst ?f"
    using keyed by (auto simp: snapshotGraph_def snapshot_of_def split_def)
  then show "distinct (map ts_ID (sg_Threads (snapshotGraph now sid s)))"
    using gm_wf_filter[OF wf] by (simp add: gm_wf_def)
qed

text \<open>
  Loading into a new manager the graph that was written for a session brings back exactly
  that session's threads, with their agent, task, dependencies, budget, creation and completion
  times; a thread that had ended keeps its status, one that was in flight comes back as failed.
\<close>

lemma restart_restores_session:
  assumes "threads_inv s" and "tm_threads fresh = []"
    and "loadGraph (Inr (Some (snapshotGraph now sid s))) fresh = (Inr n, s')"
  shows "(\<forall>k. case tm_get s k of
       None \<Rightarrow> tm_get s' k = None
     | Some t \<Rightarrow>
         if th_SessionID t \<noteq> sid then tm_get s' k = None
         else \<exists>t'. tm_get s' k = Some t' \<and> th_ID t' = k \<and> th_SessionID t' = sid \<and>
           th_AgentID t' = th_AgentID t \<and> th_Task t' = th_Task t \<and>
           th_DependsOn t' = th_DependsOn t \<and> th_TokenBudget t' = th_TokenBudget t \<and>
           th_TokensUsed t' = th_TokensUsed t \<and> th_CreatedAt t' = th_CreatedAt t \<and>
           th_CompletedAt t' = th_CompletedAt t \<and>
           th_Status t' = (if isTerminalStatus (th_Status t) then th_Status t else StatusError)) \<and>
    n = length (filter (\<lambda>(_, t). th_SessionID t = sid) (tm_threads s))"
proof -
  let ?sns = "sg_Threads (snapshotGraph now sid s)"
  obtain m where loop: "restore_loop ?sns (0, fresh) = (m, s')" and m: "m = n"
    using assms(3) by (auto simp: loadGraph_def split: prod.splits)
  from restore_loop_spec[OF snapshot_get(2)[OF assms(1)] loop] assms(2)
  have get: "tm_get s' k = map_option restored_thread (gm_get (map (\<lambda>sn. (ts_ID sn, sn)) ?sns) k)"
    and cnt: "n = length ?sns" for k
    by (auto simp: m)
  have "case tm_get s k of
       None \<Rightarrow> tm_get s' k = None
     | Some t \<Rightarrow>
         if th_SessionID t \<noteq> sid then tm_get s' k = None
         else \<exists>t'. tm_get s' k = Some t' \<and> th_ID t' = k \<and> th_SessionID t' = sid \<and>
           th_AgentID t' = th_AgentID t \<and> th_Task t' = th_Task t \<and>
           th_DependsOn t' = th_DependsOn t \<and> th_TokenBudget t' = th_TokenBudget t \<and>
           th_TokensUsed t' = th_TokensUsed t \<and> th_CreatedAt t' = th_CreatedAt t \<and>
           th_CompletedAt t' = th_CompletedAt t \<and>
           th_Status t' = (if isTerminalStatus (th_Status t) then th_Status t else StatusError)" for k
  proof (cases "tm_get s k")
    case (Some t)
    with threads_inv_id[OF assms(1) Some] show ?thesis
      by (auto simp: get snapshot_get(1)[OF assms(1)] restored_thread_def snapshot_of_def
          thread_literal_def)
  qed (simp add: get snapshot_get(1)[OF assms(1)])
  moreover have "length ?sns = length (filter (\<lambda>(_, t). th_SessionID t = sid) (tm_threads s))"
    by (simp add: snapshotGraph_def)
  ultimately show ?thesis by (simp add: cnt)
qed

section \<open>Handing over input and results\<close>

text \<open>
  Input reaches a thread exactly when it is blocked, belongs to the session (when one is
  named) and has an empty queue; it is then handed over unchanged to the waiting loop, which
  resumes thinking, and a second input sent before that is refused as buffer full.
\<close>

lemma input_handed_over:
  assumes "tm_get s i = Some t"
  shows "(fst (TrySendInput now i sid x s) = (True, True, ReasonNone)) =
      ((sid = [] \<or> th_SessionID t = sid) \<and> th_Status t = StatusBlocked \<and> th_InputCh t = EmptyChan) \<and>
    (fst (TrySendInput now i sid x s) = (True, True, ReasonNone) \<longrightarrow>
       (let s1 = snd (TrySendInput now i sid x s) in
         fst (TrySendInput later i sid y s1) = (False, True, ReasonBufferFull) \<and>
         fst (waitForInputOnce i s1) = Some x \<and>
         tm_status (snd (waitForInputOnce i s1)) i = Some StatusThinking))"
  using assms
  by (auto simp: TrySendInput_def waitForInputOnce_def tm_status_def Let_def
      split: input_chan.splits if_splits)

lemma markCollected_get:
  "tm_get (markCollected now ts s) k = map_option (\<lambda>t.
     if k \<in> th_ID ` set ts \<and> th_CollectedAt t = t_zero then t\<lparr>th_CollectedAt := now\<rparr> else t) (tm_get s k)"
  unfolding markCollected_def
proof (induction ts arbitrary: s)
  case Nil
  then show ?case by (cases "tm_get s k") simp_all
next
  case (Cons t ts)
  show ?case
    by (simp add: Cons.IH) (cases "tm_get s k"; auto)
qed

lemma wait_collect_sound:
  assumes "wait_collect sid ids s = (completed, pending)"
  shows "(\<forall>t \<in> set completed. isTerminalStatus (th_Status t)) \<and>
    (\<forall>t \<in> set pending. \<not> isTerminalStatus (th_Status t))"
proof -
  from assms obtain found where "completed = filter (\<lambda>t. isTerminalStatus (th_Status t)) found"
    "pending = filter (\<lambda>t. \<not> isTerminalStatus (th_Status t)) found"
    unfolding wait_collect_def Let_def by blast
  then show ?thesis by simp
qed

lemma wait_loop_report:
  assumes "wait_loop deadline sid plan ticks = Some (r, s')"
    and "\<forall>t \<in> set (fst plan). isTerminalStatus (th_Status t)"
  shows "(\<forall>t \<in> set (wr_Completed r). isTerminalStatus (th_Status t)) \<and>
    (\<forall>t \<in> set (wr_Pending r). \<not> isTerminalStatus (th_Status t)) \<and>
    (wr_TimedOut r \<longleftrightarrow> wr_Pending r \<noteq> []) \<and>
    (\<exists>now c s. (now, c, s) \<in> set ticks \<and> s' = markCollected now (wr_Completed r) s \<and>
       (wr_TimedOut r \<longrightarrow> now > deadline \<or> c))"
  using assms
proof (induction deadline sid plan ticks rule: wait_loop.induct)
  case (1 deadline sid plan)
  then show ?case by simp
next
  case (2 deadline sid plan now c s ticks)
  obtain immediately ids where plan: "plan = (immediately, ids)" by (cases plan)
  obtain completed pending where col: "wait_collect sid ids s = (completed, pending)" by fastforce
  show ?case
  proof (cases "pending = [] \<or> now > deadline \<or> c")
    case True
    with "2.prems" wait_collect_sound[OF col] show ?thesis
      by (auto simp: wait_round_def plan col Let_def intro!: exI[of _ now] exI[of _ c] exI[of _ s]
          split: if_splits)
  next
    case False
    then have wait: "wait_round now deadline c sid plan s = (None, s)"
      by (simp add: wait_round_def plan col Let_def)
    with "2.prems"(1) have rest: "wait_loop deadline sid plan ticks = Some (r, s')" by simp
    note ih = "2.IH"[OF wait[symmetric] refl rest "2.prems"(2)]
    then obtain now' c' u where "(now', c', u) \<in> set ticks"
      "s' = markCollected now' (wr_Completed r) u" "wr_TimedOut r \<longrightarrow> now' > deadline \<or> c'"
      by blast
    then have "\<exists>now' c' u. (now', c', u) \<in> set ((now, c, s) # ticks) \<and>
        s' = markCollected now' (wr_Completed r) u \<and> (wr_TimedOut r \<longrightarrow> now' > deadline \<or> c')"
      by (intro exI[of _ now'] exI[of _ c'] exI[of _ u]) simp
    with ih show ?thesis by blast
  qed
qed

text \<open>
  Whatever WaitForThreads reports as completed has ended, whatever it reports as pending has
  not; it gives up with pending threads only after the deadline or the end of its context; and
  every completed thread that is still registered is then marked as collected.
\<close>

lemma WaitForThreads_report:
  assumes "WaitForThreads now sid ids timeout s c ticks = Some (r, s')"
    and "\<forall>(t, _, _) \<in> set ((now, c, s) # ticks). t \<noteq> t_zero"
  shows "(\<forall>t \<in> set (wr_Completed r). isTerminalStatus (th_Status t) \<and>
        (tm_get s' (th_ID t) \<noteq> None \<longrightarrow> WasCollected (th_ID t) s')) \<and>
    (\<forall>t \<in> set (wr_Pending r). \<not> isTerminalStatus (th_Status t)) \<and>
    (wr_TimedOut r \<longleftrightarrow> wr_Pending r \<noteq> []) \<and>
    (wr_TimedOut r \<longrightarrow> (\<exists>(t, ended, _) \<in> set ((now, c, s) # ticks). t > now + timeout \<or> ended))"
proof -
  have imm: "\<forall>t \<in> set (fst (wait_plan now sid ids s)). isTerminalStatus (th_Status t)"
    by (auto simp: wait_plan_def Let_def)
  from wait_loop_report[OF assms(1)[unfolded WaitForThreads_def] imm] obtain t e u where
    rep: "\<forall>t \<in> set (wr_Completed r). isTerminalStatus (th_Status t)"
      "\<forall>t \<in> set (wr_Pending r). \<not> isTerminalStatus (th_Status t)"
      "wr_TimedOut r \<longleftrightarrow> wr_Pending r \<noteq> []"
    and tick: "(t, e, u) \<in> set ((now, c, s) # ticks)" "s' = markCollected t (wr_Completed r) u"
      "wr_TimedOut r \<longrightarrow> t > now + timeout \<or> e"
    by blast
  from assms(2) tick(1) have "t \<noteq> t_zero" by blast
  then have "WasCollected (th_ID x) s'" if "x \<in> set (wr_Completed r)" "tm_get s' (th_ID x) \<noteq> None" for x
    using that by (auto simp: tick(2) WasCollected_def markCollected_get split: option.splits)
  with rep tick(1,3) show ?thesis by blast
qed

end
