(* ===== verification/LlmTypes.thy ===== *)
theory LlmTypes
  imports Prelude
begin

text \<open>
  What the agent loop and the thread loop exchange with a model
  (\<^verbatim>\<open>internal/backend/backend.go\<close>): messages, tool calls and answers.
\<close>

record tool_call =
  tc_ID :: string
  tc_Name :: string
  tc_Args :: json_args

record message =
  msg_Role :: string
  msg_Content :: string
  msg_ToolCalls :: "tool_call list"
  msg_ToolName :: string
  msg_ToolCallID :: string

definition plain_msg :: "string \<Rightarrow> string \<Rightarrow> message" where
  "plain_msg role content =
     \<lparr>msg_Role = role, msg_Content = content, msg_ToolCalls = [], msg_ToolName = [],
      msg_ToolCallID = []\<rparr>"

record chat_response =
  cr_Content :: string
  cr_ToolCalls :: "tool_call list"
  cr_PromptTokens :: int
  cr_CompletionTokens :: int
  cr_DoneReason :: string
  cr_ParseErrors :: "string list"

datatype llm_outcome = LlmOk chat_response | LlmErr string | LlmPanic string

end
