(* ===== verification/ThreadRun.thy ===== *)
theory ThreadRun
  imports ThreadSchedule LlmTypes
begin

text \<open>
  The loop that runs a delegated thread (\<open>runOnce\<close> and the goroutine of
  \<open>SpawnThread\<close>, \<^verbatim>\<open>internal/threadmgr/spawn.go\<close>): up to fifty turns, each a
  budget check, a model call with one retry, and the tool calls of the answer.

  The model's answers, the tools, the cost budget and the context are arguments, turn by turn.
  Other goroutines act between the locked sections: \<open>te_before\<close> at the start of a turn,
  \<open>te_during\<close> while the model answers. The panics by which \<open>finish\<close> and \<open>request_help\<close> leave
  the loop, and any other panic, are values that the recover handler turns into a result.
  The streaming of tokens (a broadcast and a heartbeat) and cost accounting are not modelled.
\<close>

section \<open>Messages, answers, turns\<close>

datatype tool_outcome = ToolOk string | ToolErr string | ToolPanic string

datatype loop_panic = PanicFinish finish_summary | PanicHelp string | PanicOther string

datatype loop_result = LoopDone | LoopBlocked string

text \<open>What is fixed for a run of the loop: the collaborators of \<open>SpawnThread\<close>.\<close>

record run_env =
  re_SessID :: string
  re_AgentID :: string
  re_dagFn :: "(thread_manager \<Rightarrow> thread_manager) option"
  re_hasNotifier :: bool
  re_hasHelpResolver :: bool
  re_context :: "message list"
  re_ExtraSystem :: string
  re_promote :: "chat_response \<Rightarrow> chat_response"
  re_visible :: "string \<Rightarrow> string"
  re_IsKeyMiss :: "string \<Rightarrow> bool"
  re_KeyMissSpeech :: "string \<Rightarrow> string"
  re_exec :: "(string \<Rightarrow> json_args \<Rightarrow> tool_outcome) option"

text \<open>What happens to one turn from outside.\<close>

record turn_env =
  te_now :: gotime
  te_before :: "thread_manager \<Rightarrow> thread_manager"
  te_ctxDone :: bool
  te_CheckBudget :: "string option"
  te_first :: llm_outcome
  te_ctxDoneRetry :: bool
  te_second :: llm_outcome
  te_ctxErr :: bool
  te_during :: "thread_manager \<Rightarrow> thread_manager"
  te_newID :: "tool_call \<Rightarrow> string"

definition maxTurns :: nat where
  "maxTurns = 50"

section \<open>Summaries\<close>

text \<open>The backward loop: at most three answers of the assistant, the newest last.\<close>

fun summary_parts :: "nat \<Rightarrow> string list \<Rightarrow> message list \<Rightarrow> string list" where
  "summary_parts count parts [] = parts"
| "summary_parts count parts (msg # rest) =
     (if count < 3 then
        (if msg_Role msg = ''assistant'' \<and> msg_Content msg \<noteq> []
         then summary_parts (Suc count) (clipResult (msg_Content msg) 200 # parts) rest
         else summary_parts count parts rest)
      else parts)"

definition summariseFromHistory :: "message list \<Rightarrow> string \<Rightarrow> string \<Rightarrow> finish_summary" where
  "summariseFromHistory history reason status =
     (let parts = summary_parts 0 [] (rev history);
          summary = (if parts = [] then reason else reason @ '': '' @ join_with '' | '' parts)
      in mk_summary (clipResult summary 500) status)"

definition finishSummaryForLLMError :: "run_env \<Rightarrow> string \<Rightarrow> finish_summary" where
  "finishSummaryForLLMError env err =
     (if re_IsKeyMiss env err then mk_summary (re_KeyMissSpeech env (re_AgentID env)) ''error''
      else mk_summary (''LLM API error: '' @ err) ''error'')"

section \<open>Leaving the loop\<close>

definition run_dag :: "run_env \<Rightarrow> thread_manager \<Rightarrow> thread_manager" where
  "run_dag env s = (case re_dagFn env of None \<Rightarrow> s | Some dag \<Rightarrow> dag s)"

definition notify_completion :: "run_env \<Rightarrow> string \<Rightarrow> finish_summary \<Rightarrow> thread_manager \<Rightarrow> thread_manager" where
  "notify_completion env i summary s =
     (if re_hasNotifier env then emit (NotifyCompletion i summary) s else s)"

definition broadcast_done :: "run_env \<Rightarrow> string \<Rightarrow> string \<Rightarrow> string \<Rightarrow> thread_manager \<Rightarrow> thread_manager" where
  "broadcast_done env i status text = emit (Broadcast (re_SessID env) ''thread_done'' i status text)"

text \<open>The three branches of the recover handler.\<close>

definition on_finish :: "gotime \<Rightarrow> run_env \<Rightarrow> string \<Rightarrow> finish_summary \<Rightarrow> thread_manager \<Rightarrow>
    loop_result \<times> thread_manager" where
  "on_finish now env i summary s =
     (let s1 = PublishSiblingContext now i (''completed: '' @ fs_Summary summary) s;
          s2 = Complete now i summary s1;
          s3 = broadcast_done env i (fs_Status summary) (fs_Summary summary) s2;
          s4 = emit (LifecycleEvent ''completed'' i (fs_Summary summary)) s3;
          s5 = run_dag env s4
      in (LoopDone, notify_completion env i summary s5))"

definition on_help :: "gotime \<Rightarrow> run_env \<Rightarrow> string \<Rightarrow> string \<Rightarrow> thread_manager \<Rightarrow>
    loop_result \<times> thread_manager" where
  "on_help now env i msg s =
     (let s1 = PublishSiblingContext now i (''blocked: '' @ msg) s;
          s2 = setBlocked now i msg s1;
          s3 = (if re_hasHelpResolver env then emit (HelpResolve i msg) s2
                else emit (Broadcast (re_SessID env) ''thread_help'' i [] msg) s2)
      in (LoopBlocked msg, s3))"

definition on_panic :: "gotime \<Rightarrow> run_env \<Rightarrow> string \<Rightarrow> message list \<Rightarrow> string \<Rightarrow> thread_manager \<Rightarrow>
    loop_result \<times> thread_manager" where
  "on_panic now env i history r s =
     (let msg = ''unexpected panic: '' @ r;
          s1 = Complete now i (summariseFromHistory history msg ''error'') s;
          s2 = broadcast_done env i ''error'' msg s1;
          s3 = emit (LifecycleEvent ''error'' i msg) s2
      in (LoopDone, run_dag env s3))"

fun recover_panic :: "gotime \<Rightarrow> run_env \<Rightarrow> string \<Rightarrow> message list \<Rightarrow> loop_panic \<Rightarrow> thread_manager \<Rightarrow>
    loop_result \<times> thread_manager" where
  "recover_panic now env i history (PanicFinish summary) s = on_finish now env i summary s"
| "recover_panic now env i history (PanicHelp msg) s = on_help now env i msg s"
| "recover_panic now env i history (PanicOther r) s = on_panic now env i history r s"

text \<open>The context is over: cancelled, unless the thread is done or blocked.\<close>

definition ctx_cancelled :: "gotime \<Rightarrow> string \<Rightarrow> thread_manager \<Rightarrow> thread_manager" where
  "ctx_cancelled now i s =
     tm_mod i (\<lambda>t. if th_Status t \<noteq> StatusDone \<and> th_Status t \<noteq> StatusBlocked
       then t\<lparr>th_Status := StatusCancelled, th_CompletedAt := now\<rparr> else t) s"

text \<open>Complete, announce, run the scheduler: the common end of the returns inside the loop.\<close>

definition end_run :: "gotime \<Rightarrow> run_env \<Rightarrow> string \<Rightarrow> finish_summary \<Rightarrow> string \<Rightarrow> string \<Rightarrow> thread_manager \<Rightarrow>
    thread_manager" where
  "end_run now env i summary status text s =
     run_dag env (broadcast_done env i status text (Complete now i summary s))"

section \<open>Tool calls\<close>

type_synonym turn_state = "message list \<times> string list \<times> thread_manager"

definition append_tool_result :: "run_env \<Rightarrow> string \<Rightarrow> tool_call \<Rightarrow> string \<Rightarrow> turn_state \<Rightarrow> turn_state" where
  "append_tool_result env i tc result st =
     (case st of (history, denied, s) \<Rightarrow>
        (history @ [\<lparr>msg_Role = ''tool'', msg_Content = result, msg_ToolCalls = [],
                     msg_ToolName = tc_Name tc, msg_ToolCallID = tc_ID tc\<rparr>],
         denied,
         emit (Broadcast (re_SessID env) ''thread_tool_done'' i (tc_Name tc) (clipResult result 120))
           (emit (AppendMsg i ''tool'' (clipResult result 200)) s)))"

text \<open>The tool is refused: the error is its result, announced once per turn and tool.\<close>

definition deny_tool :: "run_env \<Rightarrow> string \<Rightarrow> tool_call \<Rightarrow> approval_error \<Rightarrow> turn_state \<Rightarrow> turn_state" where
  "deny_tool env i tc err st =
     (case append_tool_result env i tc
             (''tool error: permission denied: '' @ show_approval_error err) st of
        (history, denied, s) \<Rightarrow>
          if tc_Name tc \<in> set denied then (history, denied, s)
          else (history, tc_Name tc # denied,
            emit (Broadcast (re_SessID env) ''thread_permission_denied'' i (re_AgentID env) (tc_Name tc)) s))"

definition execute_tool :: "run_env \<Rightarrow> string \<Rightarrow> tool_call \<Rightarrow> turn_state \<Rightarrow> loop_panic option \<times> turn_state" where
  "execute_tool env i tc st =
     (case re_exec env of
        None \<Rightarrow> (None, append_tool_result env i tc (''unknown tool: '' @ tc_Name tc) st)
      | Some exec \<Rightarrow>
          let st1 = (case st of (history, denied, s) \<Rightarrow> (history, denied, emit (ToolRun (tc_Name tc)) s)) in
          (case exec (tc_Name tc) (tc_Args tc) of
             ToolOk result \<Rightarrow> (None, append_tool_result env i tc result st1)
           | ToolErr err \<Rightarrow> (None, append_tool_result env i tc (''tool error: '' @ err) st1)
           | ToolPanic r \<Rightarrow> (Some (PanicOther r), st1)))"

definition approval_of :: "gotime \<Rightarrow> string \<Rightarrow> tool_call \<Rightarrow> thread_manager \<Rightarrow> approval_error option" where
  "approval_of now i tc s =
     (case delegatedToolRisk (tc_Name tc) of (provider, action, needsApproval) \<Rightarrow>
        if needsApproval
        then RequireApprovalToken now i (arg_string (tc_Args tc) ''_approval_token'') provider action s
        else None)"

definition tool_step :: "turn_env \<Rightarrow> run_env \<Rightarrow> string \<Rightarrow> tool_call \<Rightarrow> turn_state \<Rightarrow>
    loop_panic option \<times> turn_state" where
  "tool_step te env i tc st =
     (case st of (history, denied, s) \<Rightarrow>
        let s1 = RecordActivity (te_now te) i (''running tool '' @ [CHR 34] @ tc_Name tc @ [CHR 34]) s;
            s2 = emit (Broadcast (re_SessID env) ''thread_tool_call'' i (tc_Name tc) []) s1;
            st2 = (history, denied, s2)
        in if tc_Name tc = ''finish'' then (Some (PanicFinish (tt_Finish (tc_Args tc))), st2)
           else if tc_Name tc = ''request_help'' then (Some (PanicHelp (tt_RequestHelp (tc_Args tc))), st2)
           else if tc_Name tc = ''propose_action'' then
             (case tt_ProposeAction (te_now te) (te_newID te tc) (re_SessID env) i (re_AgentID env)
                     (tc_Args tc) (tm_proposalRegistry s2) of
                (result, reg) \<Rightarrow>
                  (None, append_tool_result env i tc result
                           (history, denied, s2\<lparr>tm_proposalRegistry := reg\<rparr>)))
           else (case approval_of (te_now te) i tc s2 of
                   Some err \<Rightarrow> (None, deny_tool env i tc err st2)
                 | None \<Rightarrow> execute_tool env i tc st2))"

fun tool_loop :: "turn_env \<Rightarrow> run_env \<Rightarrow> string \<Rightarrow> tool_call list \<Rightarrow> turn_state \<Rightarrow>
    loop_panic option \<times> turn_state" where
  "tool_loop te env i [] st = (None, st)"
| "tool_loop te env i (tc # tcs) st =
     (case tool_step te env i tc st of
        (Some p, st') \<Rightarrow> (Some p, st')
      | (None, st') \<Rightarrow> tool_loop te env i tcs st')"

section \<open>One turn\<close>

datatype turn_result = TurnReturn loop_result thread_manager | TurnNext "message list" thread_manager

definition activity_text :: "nat \<Rightarrow> string" where
  "activity_text turn =
     ''thinking (turn '' @ show_nat (turn + 1) @ ''/'' @ show_nat maxTurns @ '')''"

text \<open>The model call with its single retry: \<open>None\<close> when the context ended in the pause.\<close>

definition call_model :: "turn_env \<Rightarrow> llm_outcome option" where
  "call_model te =
     (case te_first te of
        LlmErr _ \<Rightarrow> if te_ctxDoneRetry te then None else Some (te_second te)
      | r \<Rightarrow> Some r)"

text \<open>An answer without tool calls ends the thread.\<close>

definition implicit_finish :: "gotime \<Rightarrow> run_env \<Rightarrow> string \<Rightarrow> message list \<Rightarrow> chat_response \<Rightarrow>
    thread_manager \<Rightarrow> thread_manager" where
  "implicit_finish now env i history resp s =
     (let summary =
        (if cr_DoneReason resp = ''length''
         then summariseFromHistory history ''context length exceeded'' ''completed-with-timeout''
         else mk_summary (clipResult (cr_Content resp) 500) ''completed-with-timeout'')
      in notify_completion env i summary
           (end_run now env i summary ''completed-with-timeout'' (clipResult (cr_Content resp) 200) s))"

text \<open>The tool calls of an answer, with the status at tooling meanwhile.\<close>

definition run_tools :: "turn_env \<Rightarrow> run_env \<Rightarrow> string \<Rightarrow> nat \<Rightarrow> tool_call list \<Rightarrow> message list \<Rightarrow>
    thread_manager \<Rightarrow> turn_result" where
  "run_tools te env i turn calls history s =
     (let s1 = tm_mod i (\<lambda>t. if th_Status t \<noteq> StatusCancelled then t\<lparr>th_Status := StatusTooling\<rparr> else t) s;
          s2 = emit (Broadcast (re_SessID env) ''thread_status'' i ''tooling'' []) s1
      in case tool_loop te env i calls (history, [], s2) of
           (Some p, (history', _, s3)) \<Rightarrow>
             (case recover_panic (te_now te) env i history' p s3 of (r, s4) \<Rightarrow> TurnReturn r s4)
         | (None, (history', _, s3)) \<Rightarrow>
             TurnNext history' (tm_mod i (\<lambda>t. if th_Status t = StatusTooling
               then t\<lparr>th_Status := StatusThinking, th_LastActivityAt := te_now te,
                      th_CurrentActivity := activity_text turn\<rparr> else t) s3))"

text \<open>The handling of a successful answer.\<close>

definition handle_response :: "turn_env \<Rightarrow> run_env \<Rightarrow> string \<Rightarrow> nat \<Rightarrow> chat_response \<Rightarrow> message list \<Rightarrow>
    thread_manager \<Rightarrow> turn_result" where
  "handle_response te env i turn resp0 history s =
     (let resp = re_promote env resp0; now = te_now te;
          s1 = tm_mod i (\<lambda>t. t\<lparr>th_TokensUsed := th_TokensUsed t + (cr_PromptTokens resp
                 + cr_CompletionTokens resp)\<rparr>) s
      in if checkTokenBudget s1 i \<noteq> None then
           TurnReturn LoopDone (end_run now env i
             (summariseFromHistory history ''token budget exhausted'' ''completed-with-timeout'')
             ''completed-with-timeout'' ''token budget exhausted'' s1)
         else
           let s2 = emit (AppendMsg i ''cost'' []) s1;
               history' = history @ [(plain_msg ''assistant'' (cr_Content resp))
                                       \<lparr>msg_ToolCalls := cr_ToolCalls resp\<rparr>];
               s3 = PublishSiblingContext now i (cr_Content resp) s2;
               visible = re_visible env (cr_Content resp);
               s4 = emit (AppendMsg i ''assistant'' (if visible = [] then cr_Content resp else visible)) s3
           in if cr_ToolCalls resp = [] then TurnReturn LoopDone (implicit_finish now env i history' resp s4)
              else run_tools te env i turn (cr_ToolCalls resp) history' s4)"

definition run_turn :: "turn_env \<Rightarrow> run_env \<Rightarrow> string \<Rightarrow> nat \<Rightarrow> message list \<Rightarrow> thread_manager \<Rightarrow>
    turn_result" where
  "run_turn te env i turn history s0 =
     (let now = te_now te; s = te_before te s0 in
      if te_ctxDone te then TurnReturn LoopDone (ctx_cancelled now i s)
      else case te_CheckBudget te of
        Some err \<Rightarrow> TurnReturn LoopDone (end_run now env i
            (summariseFromHistory history (''budget exceeded: '' @ err) ''error'')
            ''error'' ''budget exceeded'' s)
      | None \<Rightarrow>
          let s1 = recordTurn now i (int turn + 1) (activity_text turn) s;
              s2 = emit (Broadcast (re_SessID env) ''thread_status'' i ''thinking'' (activity_text turn)) s1;
              s3 = te_during te s2
          in case call_model te of
               None \<Rightarrow> TurnReturn LoopDone (ctx_cancelled now i s3)
             | Some (LlmPanic r) \<Rightarrow>
                 (case on_panic now env i history r s3 of (res, s4) \<Rightarrow> TurnReturn res s4)
             | Some (LlmErr err) \<Rightarrow>
                 if te_ctxErr te then TurnReturn LoopDone (ctx_cancelled now i s3)
                 else let summary = finishSummaryForLLMError env err in
                   TurnReturn LoopDone (end_run now env i summary ''error'' (fs_Summary summary) s3)
             | Some (LlmOk resp) \<Rightarrow> handle_response te env i turn resp history s3)"

section \<open>The loop\<close>

text \<open>\<open>k\<close> turns are left; the turn number is \<open>maxTurns - k\<close>.\<close>

fun run_turns :: "run_env \<Rightarrow> string \<Rightarrow> (nat \<Rightarrow> turn_env) \<Rightarrow> gotime \<Rightarrow> nat \<Rightarrow> message list \<Rightarrow>
    thread_manager \<Rightarrow> loop_result \<times> thread_manager" where
  "run_turns env i turns end_now 0 history s =
     (let summary = summariseFromHistory history ''max turns reached'' ''completed-with-timeout'' in
      (LoopDone, notify_completion env i summary
         (end_run end_now env i summary ''completed-with-timeout'' ''max turns reached'' s)))"
| "run_turns env i turns end_now (Suc k) history s =
     (let turn = maxTurns - Suc k in
      case run_turn (turns turn) env i turn history s of
        TurnReturn r s' \<Rightarrow> (r, s')
      | TurnNext history' s' \<Rightarrow> run_turns env i turns end_now k history' s')"

definition siblingContextLimit :: nat where
  "siblingContextLimit = 8"

definition initial_history :: "run_env \<Rightarrow> string \<Rightarrow> string \<Rightarrow> thread_manager \<Rightarrow> message list" where
  "initial_history env i injectedInput s =
     (let h0 = re_context env;
          h1 = (if re_ExtraSystem env = [] then h0
                else case h0 of
                  m # ms \<Rightarrow> if msg_Role m = ''system''
                    then m\<lparr>msg_Content := msg_Content m @ re_ExtraSystem env\<rparr> # ms
                    else plain_msg ''system'' (re_ExtraSystem env) # h0
                | [] \<Rightarrow> [plain_msg ''system'' (re_ExtraSystem env)]);
          sibling = SiblingContext i (int siblingContextLimit + 1) s;
          truncated = length sibling > siblingContextLimit;
          shown = (if truncated then drop (length sibling - siblingContextLimit) sibling else sibling);
          h2 = (if sibling = [] then h1
                else h1 @ [plain_msg ''user'' (formatSiblingContextBlock shown truncated)])
      in if injectedInput = [] then h2 else h2 @ [plain_msg ''user'' injectedInput])"

definition runOnce :: "run_env \<Rightarrow> string \<Rightarrow> string \<Rightarrow> (nat \<Rightarrow> turn_env) \<Rightarrow> gotime \<Rightarrow> thread_manager \<Rightarrow>
    loop_result \<times> thread_manager" where
  "runOnce env i injectedInput turns end_now s =
     (if tm_get s i = None then (LoopDone, s)
      else run_turns env i turns end_now maxTurns (initial_history env i injectedInput s) s)"

text \<open>
  The goroutine of \<open>SpawnThread\<close>: run, and on a block wait for input and run again. Each entry
  of \<open>runs\<close> is one run with what the others do while the thread then waits; \<open>None\<close>: still running.
\<close>

record wait_env =
  we_turns :: "nat \<Rightarrow> turn_env"
  we_end :: gotime
  we_others :: "thread_manager \<Rightarrow> thread_manager"

fun drive :: "run_env \<Rightarrow> string \<Rightarrow> string \<Rightarrow> wait_env list \<Rightarrow> thread_manager \<Rightarrow> thread_manager option" where
  "drive env i injectedInput [] s = None"
| "drive env i injectedInput (w # ws) s =
     (case runOnce env i injectedInput (we_turns w) (we_end w) s of
        (LoopDone, s') \<Rightarrow> Some s'
      | (LoopBlocked _, s') \<Rightarrow>
          (case waitForInputOnce i (we_others w s') of
             (None, s'') \<Rightarrow> Some (Cancel (we_end w) i s'')
           | (Some input, s'') \<Rightarrow> drive env i input ws (emit (AppendMsg i ''user'' input) s'')))"

text \<open>The help resolver's goroutine, by how the resolver ended.\<close>

datatype help_outcome = HelpAnswer string | HelpTimeout | HelpError

definition help_resolved :: "gotime \<Rightarrow> string \<Rightarrow> string \<Rightarrow> string \<Rightarrow> help_outcome \<Rightarrow> thread_manager \<Rightarrow>
    thread_manager" where
  "help_resolved now sessID i msg outcome s =
     (case outcome of
        HelpTimeout \<Rightarrow> Cancel now i s
      | HelpError \<Rightarrow> emit (Broadcast sessID ''thread_help'' i [] msg) s
      | HelpAnswer answer \<Rightarrow>
          tm_mod i (\<lambda>t. case th_InputCh t of
             EmptyChan \<Rightarrow> t\<lparr>th_InputCh := FullChan answer\<rparr> | _ \<Rightarrow> t) s)"

section \<open>What a run leaves behind\<close>

text \<open>
  What the loop relies on from everybody else: a registered thread stays registered, an ended one
  keeps its status, and only the thread's own loop blocks it.
\<close>

definition benign :: "string \<Rightarrow> (thread_manager \<Rightarrow> thread_manager) \<Rightarrow> bool" where
  "benign i f \<longleftrightarrow> (\<forall>s st. tm_status s i = Some st \<longrightarrow>
     (\<exists>st'. tm_status (f s) i = Some st' \<and> (isTerminalStatus st \<longrightarrow> st' = st) \<and>
        (st' = StatusBlocked \<longrightarrow> st = StatusBlocked)))"

lemma benign_id [simp]: "benign i (\<lambda>s. s)"
  by (simp add: benign_def)

definition unblocked :: "thread_manager \<Rightarrow> string \<Rightarrow> bool" where
  "unblocked s i \<longleftrightarrow> (\<exists>st. tm_status s i = Some st \<and> st \<noteq> StatusBlocked)"

definition ended :: "thread_manager \<Rightarrow> string \<Rightarrow> bool" where
  "ended s i \<longleftrightarrow> (\<exists>st. tm_status s i = Some st \<and> isTerminalStatus st)"

lemma benign_unblocked: "benign i f \<Longrightarrow> unblocked s i \<Longrightarrow> unblocked (f s) i"
  unfolding benign_def unblocked_def by metis

lemma benign_ended: "benign i f \<Longrightarrow> ended s i \<Longrightarrow> ended (f s) i"
  unfolding benign_def ended_def by metis

lemma tm_status_threads: "tm_threads s = tm_threads s' \<Longrightarrow> tm_status s i = tm_status s' i"
  by (simp add: tm_status_def)

lemma tm_status_bookkeeping [simp]:
  "tm_status (emit e s) i = tm_status s i"
  "tm_status (PublishSiblingContext now k c s) i = tm_status s i"
  "tm_status (RecordActivity now k act s) i = tm_status s i"
  "tm_status (recordTurn now k n act s) i = tm_status s i"
  "tm_status (s\<lparr>tm_proposalRegistry := reg\<rparr>) i = tm_status s i"
  by (simp_all add: tm_status_def RecordActivity_def recordTurn_def option.map_comp comp_def)

lemma tm_status_setBlocked: "tm_status s i = Some st \<Longrightarrow> tm_status (setBlocked now i msg s) i = Some StatusBlocked"
  by (auto simp: tm_status_def setBlocked_def)

lemma Complete_get:
  "tm_get (Complete now i sm s) k = (if k = i
     then map_option (\<lambda>t. if isTerminalStatus (th_Status t) then t
            else t\<lparr>th_Status := (if fs_Status sm = ''error'' then StatusError else StatusDone),
                   th_CompletedAt := now, th_Summary := Some sm\<rparr>) (tm_get s i)
     else tm_get s k)"
  by (cases "tm_get s i") (auto simp: Complete_def Let_def)

lemma Complete_ended: "tm_status s i = Some st \<Longrightarrow> ended (Complete now i sm s) i"
proof -
  assume "tm_status s i = Some st"
  then obtain t where "tm_get s i = Some t" by (auto simp: tm_status_def)
  then show ?thesis by (simp add: ended_def tm_status_def Complete_get)
qed

lemma ctx_cancelled_ended: "unblocked s i \<Longrightarrow> ended (ctx_cancelled now i s) i"
proof -
  assume "unblocked s i"
  then obtain t where "tm_get s i = Some t" "th_Status t \<noteq> StatusBlocked"
    by (auto simp: unblocked_def tm_status_def)
  then show ?thesis by (cases "th_Status t") (simp_all add: ended_def tm_status_def ctx_cancelled_def)
qed

lemma ended_emit [simp]: "ended (emit e s) i = ended s i"
  by (simp add: ended_def)

lemma ended_notify [simp]: "ended (notify_completion env k sm s) i = ended s i"
  by (simp add: notify_completion_def)

definition benign_env :: "string \<Rightarrow> run_env \<Rightarrow> bool" where
  "benign_env i env \<longleftrightarrow> (\<forall>dag. re_dagFn env = Some dag \<longrightarrow> benign i dag)"

lemma run_dag_ended: "benign_env i env \<Longrightarrow> ended s i \<Longrightarrow> ended (run_dag env s) i"
  by (auto simp: run_dag_def benign_env_def intro: benign_ended split: option.splits)

lemma end_run_ended:
  "benign_env i env \<Longrightarrow> tm_status s i = Some st \<Longrightarrow> ended (end_run now env i sm status text s) i"
  unfolding end_run_def broadcast_done_def by (simp add: run_dag_ended Complete_ended)

text \<open>A result of the loop fits the status of the thread.\<close>

definition settled :: "string \<Rightarrow> loop_result \<times> thread_manager \<Rightarrow> bool" where
  "settled i rs = (case rs of
      (LoopDone, s) \<Rightarrow> ended s i
    | (LoopBlocked _, s) \<Rightarrow> tm_status s i = Some StatusBlocked)"

lemma recover_settled:
  assumes "benign_env i env" and "tm_status s i = Some st"
  shows "settled i (recover_panic now env i history p s)"
proof (cases p)
  case (PanicFinish sm)
  with assms show ?thesis
    by (simp add: settled_def on_finish_def Let_def broadcast_done_def run_dag_ended Complete_ended)
next
  case (PanicHelp msg)
  with assms show ?thesis
    by (simp add: settled_def on_help_def Let_def tm_status_setBlocked)
next
  case (PanicOther r)
  with assms show ?thesis
    by (simp add: settled_def on_panic_def Let_def broadcast_done_def run_dag_ended Complete_ended)
qed

lemma append_tool_result_status:
  "append_tool_result env k tc r (h, d, s) = (h', d', s') \<Longrightarrow> tm_status s' i = tm_status s i"
  by (auto simp: append_tool_result_def)

lemma deny_tool_status:
  "deny_tool env k tc err (h, d, s) = (h', d', s') \<Longrightarrow> tm_status s' i = tm_status s i"
  by (auto simp: deny_tool_def append_tool_result_def split: if_splits)

lemma execute_tool_status:
  "execute_tool env k tc (h, d, s) = (p, h', d', s') \<Longrightarrow> tm_status s' i = tm_status s i"
  by (auto simp: execute_tool_def append_tool_result_def Let_def split: option.splits tool_outcome.splits)

lemma tool_step_status:
  "tool_step te env k tc (h, d, s) = (p, h', d', s') \<Longrightarrow> tm_status s' i = tm_status s i"
  by (auto simp: tool_step_def Let_def split: if_splits option.splits prod.splits
      dest!: append_tool_result_status[where i = i] deny_tool_status[where i = i]
        execute_tool_status[where i = i])

lemma tool_loop_status:
  "tool_loop te env k tcs st = (p, h', d', s') \<Longrightarrow> tm_status s' i = tm_status (snd (snd st)) i"
proof (induction te env k tcs st arbitrary: p h' d' s' rule: tool_loop.induct)
  case (1 te env k st)
  then show ?case by (cases st) simp
next
  case (2 te env k tc tcs st)
  obtain h d s where st: "st = (h, d, s)" by (cases st)
  obtain q h1 d1 s1 where step: "tool_step te env k tc st = (q, h1, d1, s1)" by (rule prod_cases4)
  from step have same: "tm_status s1 i = tm_status s i" unfolding st by (rule tool_step_status)
  show ?case
  proof (cases q)
    case None
    from "2.prems" None step have "tool_loop te env k tcs (h1, d1, s1) = (p, h', d', s')" by simp
    from "2.IH"[OF step[symmetric] None this] same show ?thesis by (simp add: st)
  next
    case (Some r)
    with "2.prems" step same show ?thesis by (simp add: st)
  qed
qed

definition turn_settled :: "string \<Rightarrow> turn_result \<Rightarrow> bool" where
  "turn_settled i r = (case r of
      TurnReturn res s \<Rightarrow> settled i (res, s)
    | TurnNext _ s \<Rightarrow> unblocked s i)"

lemma turn_settled_simps [simp]:
  "turn_settled i (TurnReturn LoopDone s) = ended s i"
  "turn_settled i (TurnNext h s) = unblocked s i"
  by (simp_all add: turn_settled_def settled_def)

lemma run_tools_settled:
  assumes "benign_env i env" and "unblocked s i"
  shows "turn_settled i (run_tools te env i turn calls history s)"
proof -
  let ?s1 = "tm_mod i (\<lambda>t. if th_Status t \<noteq> StatusCancelled then t\<lparr>th_Status := StatusTooling\<rparr> else t) s"
  let ?s2 = "emit (Broadcast (re_SessID env) ''thread_status'' i ''tooling'' []) ?s1"
  obtain p h d s3 where loop: "tool_loop te env i calls (history, [], ?s2) = (p, h, d, s3)"
    by (rule prod_cases4)
  from assms(2) obtain t where "tm_get s i = Some t" by (auto simp: unblocked_def tm_status_def)
  then have "tm_status ?s1 i \<in> {Some StatusTooling, Some StatusCancelled}"
    by (simp add: tm_status_def)
  then have st: "tm_status s3 i \<in> {Some StatusTooling, Some StatusCancelled}"
    using tool_loop_status[OF loop, of i] by simp
  show ?thesis
  proof (cases p)
    case (Some q)
    have "settled i (recover_panic (te_now te) env i h q s3)"
      using assms(1) st by (auto intro: recover_settled)
    moreover obtain res s4 where "recover_panic (te_now te) env i h q s3 = (res, s4)" by fastforce
    ultimately show ?thesis by (simp add: run_tools_def Let_def loop Some turn_settled_def)
  next
    case None
    from st obtain t where "tm_get s3 i = Some t" "th_Status t \<in> {StatusTooling, StatusCancelled}"
      by (auto simp: tm_status_def)
    then show ?thesis
      by (auto simp: run_tools_def Let_def loop None unblocked_def tm_status_def)
  qed
qed

lemma unblocked_bookkeeping [simp]:
  "unblocked (emit e s) i = unblocked s i"
  "unblocked (PublishSiblingContext now k c s) i = unblocked s i"
  "unblocked (recordTurn now k n act s) i = unblocked s i"
  by (simp_all add: unblocked_def)

lemma unblocked_tokens:
  "unblocked (tm_mod i (\<lambda>t. t\<lparr>th_TokensUsed := f t\<rparr>) s) i = unblocked s i"
  by (cases "tm_get s i") (simp_all add: unblocked_def tm_status_def)

lemma unblocked_end:
  "benign_env i env \<Longrightarrow> unblocked s i \<Longrightarrow> ended (end_run now env i sm status text s) i"
  by (auto simp: unblocked_def intro: end_run_ended)

lemma handle_response_settled:
  assumes "benign_env i env" and "unblocked s i"
  shows "turn_settled i (handle_response te env i turn resp history s)"
  using assms
  by (simp add: handle_response_def Let_def unblocked_end unblocked_tokens
      implicit_finish_def run_tools_settled)

lemma run_turn_settled:
  assumes "benign_env i env" and "unblocked s i" and "benign i (te_before te)" and "benign i (te_during te)"
  shows "turn_settled i (run_turn te env i turn history s)"
proof -
  let ?s = "te_before te s"
  let ?s3 = "te_during te (emit (Broadcast (re_SessID env) ''thread_status'' i ''thinking''
      (activity_text turn)) (recordTurn (te_now te) i (int turn + 1) (activity_text turn) ?s))"
  have s: "unblocked ?s i" using assms(2,3) by (rule benign_unblocked[rotated])
  have s3: "unblocked ?s3 i" using s by (intro benign_unblocked[OF assms(4)]) simp
  have panic: "settled i (on_panic (te_now te) env i history r ?s3)" for r
    using s3 recover_settled[OF assms(1), of ?s3 _ "te_now te" history "PanicOther r"]
    by (auto simp: unblocked_def)
  show ?thesis
  proof (cases "te_ctxDone te \<or> te_CheckBudget te \<noteq> None")
    case True
    with s assms(1) show ?thesis
      by (auto simp: run_turn_def Let_def turn_settled_def settled_def ctx_cancelled_ended
          unblocked_end split: option.splits)
  next
    case False
    show ?thesis
    proof (cases "call_model te")
      case None
      with False s3 show ?thesis
        by (simp add: run_turn_def Let_def turn_settled_def settled_def ctx_cancelled_ended)
    next
      case (Some out)
      show ?thesis
      proof (cases out)
        case (LlmOk resp)
        with False Some handle_response_settled[OF assms(1) s3] show ?thesis
          by (simp add: run_turn_def Let_def)
      next
        case (LlmErr err)
        with False Some s3 assms(1) show ?thesis
          by (simp add: run_turn_def Let_def turn_settled_def settled_def ctx_cancelled_ended
              unblocked_end)
      next
        case (LlmPanic r)
        obtain res s4 where res: "on_panic (te_now te) env i history r ?s3 = (res, s4)" by fastforce
        with False Some LlmPanic panic[of r] show ?thesis
          by (simp add: run_turn_def Let_def turn_settled_def)
      qed
    qed
  qed
qed

lemma run_turns_settled:
  assumes "benign_env i env" and "\<And>n. benign i (te_before (turns n)) \<and> benign i (te_during (turns n))"
  shows "unblocked s i \<Longrightarrow> settled i (run_turns env i turns end_now k history s)"
proof (induction k arbitrary: history s)
  case 0
  with assms(1) show ?case by (simp add: Let_def settled_def unblocked_end)
next
  case (Suc k)
  let ?r = "run_turn (turns (maxTurns - Suc k)) env i (maxTurns - Suc k) history s"
  have r: "turn_settled i ?r" using assms Suc.prems by (intro run_turn_settled) auto
  show ?case
  proof (cases ?r)
    case (TurnReturn res s')
    with r show ?thesis by (simp add: Let_def turn_settled_def)
  next
    case (TurnNext h s')
    with r Suc.IH[of s' h] show ?thesis by (simp add: Let_def turn_settled_def)
  qed
qed

text \<open>
  C6. Every run of a thread's loop, whatever the model, the tools, the budget and the context do
  and whether they panic, ends within its fifty turns, and leaves the thread either ended (done,
  cancelled or failed) when it returns done, or blocked when it returns blocked; the other
  goroutines and the scheduler may act meanwhile as long as they keep the thread registered, keep
  its status once it has ended, and do not block it.
\<close>

theorem runOnce_settles:
  assumes "tm_status s i = Some st" and "st \<noteq> StatusBlocked"
    and "\<forall>n. benign i (te_before (turns n)) \<and> benign i (te_during (turns n))"
    and "\<forall>dag. re_dagFn env = Some dag \<longrightarrow> benign i dag"
    and "runOnce env i injectedInput turns end_now s = (r, s')"
  shows "if r = LoopDone then \<exists>st'. tm_status s' i = Some st' \<and> isTerminalStatus st'
    else tm_status s' i = Some StatusBlocked"
proof -
  from assms(1) have "tm_get s i \<noteq> None" by (auto simp: tm_status_def)
  with assms(5) have run: "run_turns env i turns end_now maxTurns (initial_history env i injectedInput s) s = (r, s')"
    by (simp add: runOnce_def)
  have "unblocked s i" using assms(1,2) by (simp add: unblocked_def)
  then have "settled i (r, s')"
    unfolding run[symmetric] by (rule run_turns_settled[rotated -1]) (use assms in \<open>auto simp: benign_env_def\<close>)
  then show ?thesis by (cases r) (simp_all add: settled_def ended_def)
qed

definition demo_env :: run_env where
  "demo_env = \<lparr>re_SessID = ''s'', re_AgentID = ''Bob'', re_dagFn = None, re_hasNotifier = True,
     re_hasHelpResolver = False, re_context = [plain_msg ''user'' ''do y''], re_ExtraSystem = [],
     re_promote = (\<lambda>r. r), re_visible = (\<lambda>c. c), re_IsKeyMiss = (\<lambda>_. False),
     re_KeyMissSpeech = (\<lambda>a. a), re_exec = Some (\<lambda>name args. ToolOk ''ok'')\<rparr>"

definition demo_call :: "string \<Rightarrow> json_args \<Rightarrow> turn_env" where
  "demo_call name args = \<lparr>te_now = 9, te_before = (\<lambda>s. s), te_ctxDone = False,
     te_CheckBudget = None, te_first = LlmErr ''busy'', te_ctxDoneRetry = False,
     te_second = LlmOk \<lparr>cr_Content = ''calling'',
       cr_ToolCalls = [\<lparr>tc_ID = ''c1'', tc_Name = name, tc_Args = args\<rparr>],
       cr_PromptTokens = 10, cr_CompletionTokens = 5, cr_DoneReason = ''stop'', cr_ParseErrors = []\<rparr>,
     te_ctxErr = False, te_during = (\<lambda>s. s), te_newID = (\<lambda>tc. ''n1'')\<rparr>"

definition demo_turns :: "nat \<Rightarrow> turn_env" where
  "demo_turns n = (if n = 0 then demo_call ''read_file'' []
     else demo_call ''finish'' [(''summary'', JStr ''all good'')])"

definition demo_running :: thread_manager where
  "demo_running = New\<lparr>tm_threads := [(''b'', thread_literal ''b'' ''s'' ''Bob'' ''y'' StatusThinking)]\<rparr>"

theorem runOnce_settles_witness:
  "\<exists>st'. tm_status (snd (runOnce demo_env ''b'' [] demo_turns 99 demo_running)) ''b'' = Some st' \<and>
     isTerminalStatus st'"
proof -
  obtain r s' where run: "runOnce demo_env ''b'' [] demo_turns 99 demo_running = (r, s')" by fastforce
  have "fst (runOnce demo_env ''b'' [] demo_turns 99 demo_running) = LoopDone" by code_simp
  with run have r: "r = LoopDone" by simp
  have "tm_status demo_running ''b'' = Some StatusThinking" by code_simp
  moreover have "benign ''b'' (te_before (demo_turns n)) \<and> benign ''b'' (te_during (demo_turns n))" for n
    by (simp add: demo_turns_def demo_call_def)
  moreover have "re_dagFn demo_env = None" by (simp add: demo_env_def)
  ultimately show ?thesis
    using runOnce_settles[of demo_running "''b''" StatusThinking demo_turns demo_env "[]" 99 r s'] run r
    by simp
qed

section \<open>Approval inside the loop\<close>

lemma execute_needs_approval:
  assumes "tool_step te env i tc (h, d, s) = (r, h', d', s')"
    and "ToolRun (tc_Name tc) \<in> set (drop (length (tm_effects s)) (tm_effects s'))"
  shows "approval_of (te_now te) i tc
     (emit (Broadcast (re_SessID env) ''thread_tool_call'' i (tc_Name tc) [])
        (RecordActivity (te_now te) i (''running tool '' @ [CHR 34] @ tc_Name tc @ [CHR 34]) s)) = None"
  using assms
  by (auto simp: tool_step_def Let_def append_tool_result_def deny_tool_def emit_def RecordActivity_def
      split: if_splits option.splits prod.splits)

text \<open>
  C11. Inside the loop a tool that the risk classification counts as high-risk is executed only
  if a proposal was approved for that very session, thread, provider and action; otherwise the
  model gets a refusal as the tool's result.
\<close>

theorem high_risk_tool_needs_approval:
  assumes "tm_get s i = Some t" and "tm_proposalRegistry s = Some reg" and "registry_reach reg"
    and "delegatedToolRisk (tc_Name tc) = (provider, action, True)"
    and "tool_step te env i tc (h, d, s) = (r, h', d', s')"
    and "ToolRun (tc_Name tc) \<in> set (drop (length (tm_effects s)) (tm_effects s'))"
  shows "approved_for reg \<lparr>rq_HighRisk = True, rq_SessionID = th_SessionID t, rq_ThreadID = i,
     rq_Provider = provider, rq_Action = action\<rparr>"
proof -
  let ?req = "\<lparr>rq_HighRisk = True, rq_SessionID = th_SessionID t, rq_ThreadID = i,
     rq_Provider = provider, rq_Action = action\<rparr>"
  let ?token = "arg_string (tc_Args tc) ''_approval_token''"
  have "RequireToken (te_now te) (Some reg) ?token ?req = None"
    using execute_needs_approval[OF assms(5,6)] assms(1,2,4)
    by (simp add: approval_of_def RequireApprovalToken_def RecordActivity_def emit_def)
  then show ?thesis
    using approval.check_granted[OF assms(3), of "(te_now te, ?token)" ?req] by simp
qed

theorem high_risk_tool_needs_approval_witness:
  "approved_for demo_registry \<lparr>rq_HighRisk = True, rq_SessionID = ''s1'', rq_ThreadID = ''t1'',
     rq_Provider = ''github'', rq_Action = ''delete_issue''\<rparr>"
proof -
  let ?t = "thread_literal ''t1'' ''s1'' ''Sam'' ''y'' StatusTooling"
  let ?s = "New\<lparr>tm_threads := [(''t1'', ?t)], tm_proposalRegistry := Some demo_registry\<rparr>"
  let ?tc = "\<lparr>tc_ID = ''c1'', tc_Name = ''github_delete_issue'',
     tc_Args = [(''_approval_token'', JStr ''approval_k'')]\<rparr>"
  obtain r h' d' s' where step: "tool_step (demo_call [] []) demo_env ''t1'' ?tc ([], [], ?s) = (r, h', d', s')"
    by (rule prod_cases4)
  have "ToolRun (tc_Name ?tc) \<in> set (drop (length (tm_effects ?s))
      (tm_effects (snd (snd (snd (tool_step (demo_call [] []) demo_env ''t1'' ?tc ([], [], ?s)))))))"
    by code_simp
  then have run: "ToolRun (tc_Name ?tc) \<in> set (drop (length (tm_effects ?s)) (tm_effects s'))"
    unfolding step by simp
  have risk: "delegatedToolRisk (tc_Name ?tc) = (''github'', ''delete_issue'', True)" by code_simp
  from high_risk_tool_needs_approval[OF _ _ demo_registry_reach risk step run, of ?t] show ?thesis
    by simp
qed

text \<open>
  A thread that somebody else has already ended as done or failed while its model was
  answering is revived by the tool calls of that answer: if they do not end the loop, its status
  afterwards is thinking again, so a terminal status is not final against the thread's own loop.
\<close>

lemma tooling_revives_ended_thread:
  assumes "tm_status s i = Some st" and "st = StatusDone \<or> st = StatusError"
    and "run_tools te env i turn calls history s = TurnNext history' s'"
  shows "tm_status s' i = Some StatusThinking"
proof -
  let ?s1 = "tm_mod i (\<lambda>t. if th_Status t \<noteq> StatusCancelled then t\<lparr>th_Status := StatusTooling\<rparr> else t) s"
  let ?s2 = "emit (Broadcast (re_SessID env) ''thread_status'' i ''tooling'' []) ?s1"
  obtain p h d s3 where loop: "tool_loop te env i calls (history, [], ?s2) = (p, h, d, s3)"
    by (rule prod_cases4)
  from assms(1) obtain t where t: "tm_get s i = Some t" "th_Status t = st" by (auto simp: tm_status_def)
  have "tm_status ?s1 i = Some StatusTooling" using t assms(2) by (auto simp: tm_status_def)
  then have "tm_status s3 i = Some StatusTooling" using tool_loop_status[OF loop, of i] by simp
  then obtain u where u: "tm_get s3 i = Some u" "th_Status u = StatusTooling" by (auto simp: tm_status_def)
  show ?thesis
  proof (cases p)
    case None
    with assms(3) u show ?thesis by (auto simp: run_tools_def Let_def loop tm_status_def)
  next
    case (Some q)
    obtain res s4 where "recover_panic (te_now te) env i h q s3 = (res, s4)" by fastforce
    with assms(3) Some show ?thesis by (simp add: run_tools_def Let_def loop)
  qed
qed

end
