(* ===== verification/CircuitBreaker.thy ===== *)
theory CircuitBreaker
  imports Interfaces
begin

text \<open>
  The circuit breaker of the relay's reconnect loop
  (\<^verbatim>\<open>internal/relay/circuit_breaker.go\<close>), as a state machine over the calls the
  loop makes.
\<close>

datatype cb_state = CbClosed | CbOpen | CbHalfOpen

record circuit_breaker =
  cb_state :: cb_state
  cb_failures :: nat
  cb_openUntil :: gotime

definition cbThreshold :: nat where
  "cbThreshold = 8"

definition cbOpenDuration :: duration where
  "cbOpenDuration = 120 * second"

definition cb_zero :: circuit_breaker where
  "cb_zero = \<lparr>cb_state = CbClosed, cb_failures = 0, cb_openUntil = t_zero\<rparr>"

definition cb_Allow :: "gotime \<Rightarrow> circuit_breaker \<Rightarrow> bool \<times> circuit_breaker" where
  "cb_Allow now cb =
     (case cb_state cb of
        CbClosed \<Rightarrow> (True, cb)
      | CbOpen \<Rightarrow> if now > cb_openUntil cb then (True, cb\<lparr>cb_state := CbHalfOpen\<rparr>) else (False, cb)
      | CbHalfOpen \<Rightarrow> (False, cb))"

definition cb_RecordSuccess :: "circuit_breaker \<Rightarrow> circuit_breaker" where
  "cb_RecordSuccess cb = cb\<lparr>cb_failures := 0, cb_state := CbClosed\<rparr>"

definition cb_RecordFailure :: "gotime \<Rightarrow> circuit_breaker \<Rightarrow> circuit_breaker" where
  "cb_RecordFailure now cb =
     (let cb1 = cb\<lparr>cb_failures := cb_failures cb + 1\<rparr> in
      if cb_state cb1 = CbHalfOpen \<or> cb_failures cb1 \<ge> cbThreshold
      then cb1\<lparr>cb_state := CbOpen, cb_openUntil := now + cbOpenDuration, cb_failures := 0\<rparr>
      else cb1)"

fun cb_State :: "cb_state \<Rightarrow> string" where
  "cb_State CbOpen = ''open''"
| "cb_State CbHalfOpen = ''half_open''"
| "cb_State CbClosed = ''closed''"

definition cb_Reset :: "circuit_breaker \<Rightarrow> circuit_breaker" where
  "cb_Reset cb = cb\<lparr>cb_state := CbClosed, cb_failures := 0, cb_openUntil := t_zero\<rparr>"

lemmas cb_defs = cb_Allow_def cb_RecordSuccess_def cb_RecordFailure_def cb_Reset_def Let_def

text \<open>A breaker that is not closed counts as open: dialling is blocked or one probe is out.\<close>

interpretation cb: breaker "\<lambda>cb. cb_state cb \<noteq> CbClosed" cb_failures cb_RecordFailure
  cb_RecordSuccess cbThreshold
proof
  fix b :: circuit_breaker and t :: gotime
  show "\<not> cb_state (cb_RecordSuccess b) \<noteq> CbClosed" "cb_failures (cb_RecordSuccess b) = 0"
    by (simp_all add: cb_defs)
  assume closed: "\<not> cb_state b \<noteq> CbClosed"
  show "Suc (cb_failures b) < cbThreshold \<Longrightarrow> \<not> cb_state (cb_RecordFailure t b) \<noteq> CbClosed \<and>
      cb_failures (cb_RecordFailure t b) = Suc (cb_failures b)"
    using closed by (simp add: cb_defs)
  show "cbThreshold \<le> Suc (cb_failures b) \<Longrightarrow> cb_state (cb_RecordFailure t b) \<noteq> CbClosed"
    using closed by (simp add: cb_defs)
qed

section \<open>The calls of the reconnect loop as a step relation\<close>

datatype cb_event = EvAllow gotime bool | EvSuccess | EvFailure gotime | EvReset

inductive cb_step :: "circuit_breaker \<Rightarrow> cb_event \<Rightarrow> circuit_breaker \<Rightarrow> bool" where
  allow: "cb_Allow now cb = (ok, cb') \<Longrightarrow> cb_step cb (EvAllow now ok) cb'"
| success: "cb_step cb EvSuccess (cb_RecordSuccess cb)"
| failure: "cb_step cb (EvFailure now) (cb_RecordFailure now cb)"
| reset: "cb_step cb EvReset (cb_Reset cb)"

inductive_simps cb_step_simps: "cb_step cb (EvAllow now ok) cb'" "cb_step cb EvSuccess cb'"
  "cb_step cb (EvFailure now) cb'" "cb_step cb EvReset cb'"

inductive_cases cb_stepE: "cb_step cb ev cb'"

inductive cb_reach :: "circuit_breaker \<Rightarrow> bool" where
  zero: "cb_reach cb_zero"
| step: "cb_reach cb \<Longrightarrow> cb_step cb ev cb' \<Longrightarrow> cb_reach cb'"

lemma cb_reach_failures: "cb_reach cb \<Longrightarrow> cb_failures cb < cbThreshold"
proof (induction rule: cb_reach.induct)
  case zero
  then show ?case by (simp add: cb_zero_def cbThreshold_def)
next
  case (step cb ev cb')
  from step.hyps(2) step.IH show ?case
    by (elim cb_stepE) (auto simp: cb_defs cbThreshold_def split: cb_state.splits if_splits)
qed

lemma cb_open_denies:
  assumes "cb_state cb = CbOpen" and "\<forall>t \<in> set ts. t \<le> cb_openUntil cb"
  shows "fold (\<lambda>t cb. snd (cb_Allow t cb)) ts cb = cb"
  using assms(2) by (induction ts) (auto simp: cb_Allow_def assms(1))

section \<open>Properties\<close>

text \<open>
  After a success the breaker lets dials through for seven consecutive failures; the eighth
  opens it, and from then on a dial is refused exactly until the open duration is over.
\<close>

lemma breaker_trips_at_eighth:
  assumes "length ts = 7"
  shows "fst (cb_Allow now (fold cb_RecordFailure ts (cb_RecordSuccess b))) \<and>
    (fst (cb_Allow later (cb_RecordFailure t (fold cb_RecordFailure ts (cb_RecordSuccess b)))) \<longleftrightarrow>
       later > t + cbOpenDuration)"
proof -
  let ?cb = "fold cb_RecordFailure ts (cb_RecordSuccess b)"
  have len: "length ts < cbThreshold" "length ts = cbThreshold - 1"
    using assms by (simp_all add: cbThreshold_def)
  have closed: "cb_state ?cb = CbClosed"
    using cb.trips_exactly_at_threshold(1)[OF len(1)] by simp
  have "cb_failures ?cb = 7"
    using cb.closed_below_threshold[of "cb_RecordSuccess b" ts] len assms
    by (simp add: cb.succeed_clears) (simp add: cb_RecordSuccess_def)
  then have "cb_state (cb_RecordFailure t ?cb) = CbOpen"
    "cb_openUntil (cb_RecordFailure t ?cb) = t + cbOpenDuration"
    by (simp_all add: cb_RecordFailure_def cbThreshold_def)
  with closed show ?thesis by (simp add: cb_Allow_def)
qed

text \<open>
  An open breaker refuses every dial up to the end of its window, however often it is asked;
  after the window it lets exactly one probe through, whose success closes it and whose failure
  opens it for another full window. In no state the calls can reach does the failure count get to
  the threshold.
\<close>

lemma breaker_single_probe:
  assumes "cb_reach cb" and "cb_state cb = CbOpen" and "\<forall>t \<in> set ts. t \<le> cb_openUntil cb"
    and "now > cb_openUntil cb"
  shows "cb_failures cb < cbThreshold \<and>
    fold (\<lambda>t cb. snd (cb_Allow t cb)) ts cb = cb \<and> (\<forall>t \<in> set ts. \<not> fst (cb_Allow t cb)) \<and>
    (let (ok, probing) = cb_Allow now cb in ok \<and>
       (\<forall>t. \<not> fst (cb_Allow t probing)) \<and>
       (\<forall>t. fst (cb_Allow t (cb_RecordSuccess probing))) \<and>
       (\<forall>t u. fst (cb_Allow t (cb_RecordFailure u probing)) \<longleftrightarrow> t > u + cbOpenDuration))"
proof -
  have "\<forall>t \<in> set ts. \<not> fst (cb_Allow t cb)" using assms(2,3) by (simp add: cb_Allow_def not_less)
  moreover have "fold (\<lambda>t cb. snd (cb_Allow t cb)) ts cb = cb" using assms(2,3) by (rule cb_open_denies)
  moreover have "cb_failures cb < cbThreshold" using assms(1) by (rule cb_reach_failures)
  ultimately show ?thesis using assms(2,4) by (simp add: cb_defs)
qed

end
