(* ===== verification/Outbox.thy ===== *)
theory Outbox
  imports Interfaces "HOL-Library.List_Lexorder" "HOL-Library.Char_ord" "HOL-Library.Word"
begin

text \<open>
  The durable outbox of the relay (\<^verbatim>\<open>internal/relay/outbox.go\<close>, with the message of
  \<^verbatim>\<open>relay.go\<close>): a priority queue on an ordered key-value store. The store is a map from
  keys to values whose iteration visits the keys in byte order; a value is the encoding of a
  message or bytes that do not decode. A closed store is an absent one. Read and write errors of
  the store itself are not modelled.
\<close>

section \<open>Messages and keys\<close>

record relay_message =
  rm_Type :: string
  rm_MachineID :: string
  rm_SessionID :: string
  rm_SpaceID :: string
  rm_Payload :: json
  rm_Priority :: "8 word"

definition PriorityNormal :: "8 word" where
  "PriorityNormal = 0"

definition PriorityHigh :: "8 word" where
  "PriorityHigh = 255"

definition outboxPrefix :: string where
  "outboxPrefix = ''relay:outbox:''"

definition outboxMigrationSentinel :: string where
  "outboxMigrationSentinel = ''relay:outbox:migration:v2''"

definition outboxMaxItems :: nat where
  "outboxMaxItems = 10000"

definition outboxRejectThreshold :: nat where
  "outboxRejectThreshold = 9000"

definition OutboxMaxDepth :: nat where
  "OutboxMaxDepth = 1000"

text \<open>The formats \<open>%02x\<close> and, on eight bytes, \<open>%x\<close>: lower-case hexadecimal of fixed width.\<close>

definition hex_digit :: "nat \<Rightarrow> char" where
  "hex_digit d = char_of (if d < 10 then 48 + d else 87 + d)"

fun hex_fixed :: "nat \<Rightarrow> nat \<Rightarrow> string" where
  "hex_fixed 0 v = []"
| "hex_fixed (Suc w) v = hex_fixed w (v div 16) @ [hex_digit (v mod 16)]"

definition outboxKeyV2 :: "8 word \<Rightarrow> 64 word \<Rightarrow> string" where
  "outboxKeyV2 priority seq =
     outboxPrefix @ hex_fixed 2 (unat (255 - priority)) @ '':'' @ hex_fixed 16 (unat seq)"

definition outboxKey :: "64 word \<Rightarrow> string" where
  "outboxKey seq = outboxKeyV2 PriorityNormal seq"

text \<open>\<open>fmt.Sscanf\<close> with \<open>%x\<close>: the leading hexadecimal digits, an error on none or on overflow.\<close>

definition hex_value :: "char \<Rightarrow> nat option" where
  "hex_value c = (let n = of_char c :: nat in
     if 48 \<le> n \<and> n \<le> 57 then Some (n - 48)
     else if 97 \<le> n \<and> n \<le> 102 then Some (n - 87) else None)"

fun parse_hex :: "nat \<Rightarrow> string \<Rightarrow> nat option" where
  "parse_hex acc [] = Some acc"
| "parse_hex acc (c # cs) =
     (case hex_value c of None \<Rightarrow> None | Some d \<Rightarrow> parse_hex (16 * acc + d) cs)"

definition sscanf_hex :: "string \<Rightarrow> nat option" where
  "sscanf_hex s =
     (let ds = takeWhile (\<lambda>c. hex_value c \<noteq> None) (to_lower (trim_left s)) in
      if ds = [] then None
      else case parse_hex 0 ds of None \<Rightarrow> None | Some v \<Rightarrow> if v < 2 ^ 64 then Some v else None)"

text \<open>The exclusive upper bound of a prefix scan, with the carry on 0xFF.\<close>

fun increment_rev :: "char list \<Rightarrow> char list option" where
  "increment_rev [] = None"
| "increment_rev (c # cs) =
     (if (of_char c :: nat) = 255 then map_option ((#) (char_of (0::nat))) (increment_rev cs)
      else Some (char_of ((of_char c :: nat) + 1) # cs))"

definition incrementLastByte :: "string \<Rightarrow> string" where
  "incrementLastByte b =
     (case increment_rev (rev b) of Some e \<Rightarrow> rev e | None \<Rightarrow> b @ [char_of (0::nat)])"

section \<open>The store and the outbox\<close>

datatype stored = Stored relay_message | Garbage string

type_synonym kv = "(string, stored) gomap"

record outbox =
  ob_db :: "kv option"
  ob_seq :: "64 word"

text \<open>An iterator over the prefix: the keys between the bounds, in order.\<close>

definition prefix_scan :: "kv \<Rightarrow> (string \<times> stored) list" where
  "prefix_scan db = sort_key fst
     (filter (\<lambda>(k, v). outboxPrefix \<le> k \<and> k < incrementLastByte outboxPrefix) db)"

text \<open>The records every loop looks at: all but the migration sentinel.\<close>

definition outbox_records :: "kv \<Rightarrow> (string \<times> stored) list" where
  "outbox_records db = filter (\<lambda>(k, v). k \<noteq> outboxMigrationSentinel) (prefix_scan db)"

datatype outbox_error = ErrStorageClosed | ErrOutboxFull | ErrOutboxNearFull | ErrHubNil
  | ErrFlushCancelled | ErrSendFailed nat

definition Len :: "outbox \<Rightarrow> outbox_error + nat" where
  "Len ob = (case ob_db ob of None \<Rightarrow> Inl ErrStorageClosed | Some db \<Rightarrow> Inr (length (outbox_records db)))"

definition dropOldest :: "kv \<Rightarrow> kv" where
  "dropOldest db = (case outbox_records db of [] \<Rightarrow> db | (k, _) # _ \<Rightarrow> gm_del k db)"

section \<open>Operations\<close>

text \<open>The sequence number is incremented before it is used, wrapping at 64 bits.\<close>

definition Enqueue :: "relay_message \<Rightarrow> outbox \<Rightarrow> outbox_error option \<times> outbox" where
  "Enqueue msg ob =
     (case ob_db ob of
        None \<Rightarrow> (Some ErrStorageClosed, ob)
      | Some db \<Rightarrow>
          let n = length (outbox_records db) in
          if n \<ge> outboxMaxItems then (Some ErrOutboxFull, ob)
          else if n \<ge> outboxRejectThreshold then (Some ErrOutboxNearFull, ob)
          else
            let db1 = (if n \<ge> OutboxMaxDepth then dropOldest db else db);
                seq = ob_seq ob + 1
            in (None, ob\<lparr>ob_seq := seq,
                         ob_db := Some (gm_put (outboxKeyV2 (rm_Priority msg) seq) (Stored msg) db1)\<rparr>))"

text \<open>The loop of \<open>Drain\<close>: the messages read and the keys to delete.\<close>

fun drain_loop :: "int \<Rightarrow> int \<Rightarrow> (string \<times> stored) list \<Rightarrow> relay_message list \<times> string list" where
  "drain_loop count n [] = ([], [])"
| "drain_loop count n ((k, v) # rest) =
     (if count < n then
        (case drain_loop (count + 1) n rest of (msgs, dels) \<Rightarrow>
           (case v of Stored msg \<Rightarrow> (msg # msgs, k # dels) | Garbage _ \<Rightarrow> (msgs, k # dels)))
      else ([], []))"

definition delete_keys :: "string list \<Rightarrow> kv \<Rightarrow> kv" where
  "delete_keys ks db = fold gm_del ks db"

definition Drain :: "int \<Rightarrow> outbox \<Rightarrow> (outbox_error + relay_message list) \<times> outbox" where
  "Drain n ob =
     (case ob_db ob of
        None \<Rightarrow> (Inl ErrStorageClosed, ob)
      | Some db \<Rightarrow>
          (case drain_loop 0 n (outbox_records db) of (msgs, dels) \<Rightarrow>
             (Inr msgs, if msgs \<noteq> [] then ob\<lparr>ob_db := Some (delete_keys dels db)\<rparr> else ob)))"

text \<open>
  The loop of \<open>Flush\<close>. \<open>env j\<close> tells, for the \<open>j\<close>-th record, whether the context is over before
  it and whether the hub accepts the message. The result: the messages handed to the hub
  successfully, the keys to delete, the number of failed sends, and whether it was cancelled.
\<close>

record flush_result =
  fr_sent :: "relay_message list"
  fr_delete :: "string list"
  fr_failed :: nat
  fr_cancelled :: bool

fun flush_loop :: "(nat \<Rightarrow> bool \<times> (string \<Rightarrow> relay_message \<Rightarrow> bool)) \<Rightarrow> nat \<Rightarrow>
    (string \<times> stored) list \<Rightarrow> flush_result" where
  "flush_loop env j [] = \<lparr>fr_sent = [], fr_delete = [], fr_failed = 0, fr_cancelled = False\<rparr>"
| "flush_loop env j ((k, v) # rest) =
     (if fst (env j) then \<lparr>fr_sent = [], fr_delete = [], fr_failed = 0, fr_cancelled = True\<rparr>
      else let r = flush_loop env (Suc j) rest in
        (case v of
           Garbage _ \<Rightarrow> r\<lparr>fr_delete := k # fr_delete r\<rparr>
         | Stored msg \<Rightarrow>
             if snd (env j) (rm_MachineID msg) msg
             then r\<lparr>fr_sent := msg # fr_sent r, fr_delete := k # fr_delete r\<rparr>
             else r\<lparr>fr_failed := Suc (fr_failed r)\<rparr>))"

definition Flush :: "bool \<Rightarrow> (nat \<Rightarrow> bool \<times> (string \<Rightarrow> relay_message \<Rightarrow> bool)) \<Rightarrow> outbox \<Rightarrow>
    outbox_error option \<times> relay_message list \<times> outbox" where
  "Flush hasHub env ob =
     (if \<not> hasHub then (Some ErrHubNil, [], ob)
      else case ob_db ob of
        None \<Rightarrow> (Some ErrStorageClosed, [], ob)
      | Some db \<Rightarrow>
          let r = flush_loop env 0 (outbox_records db);
              ob' = ob\<lparr>ob_db := Some (delete_keys (fr_delete r) db)\<rparr>
          in (if fr_cancelled r then Some ErrFlushCancelled
              else if fr_failed r > 0 then Some (ErrSendFailed (fr_failed r)) else None,
              fr_sent r, ob'))"

section \<open>Opening: migration and sequence recovery\<close>

text \<open>The regular expression of the old keys: the prefix and sixteen hexadecimal digits.\<close>

definition is_v1_key :: "string \<Rightarrow> bool" where
  "is_v1_key k \<longleftrightarrow> has_prefix k outboxPrefix \<and> length k = length outboxPrefix + 16 \<and>
     list_all (\<lambda>c. hex_value c \<noteq> None) (drop (length outboxPrefix) k)"

definition migrate_record :: "string \<times> stored \<Rightarrow> kv \<Rightarrow> kv" where
  "migrate_record kv db =
     (case kv of (k, v) \<Rightarrow>
        if \<not> is_v1_key k then db
        else case sscanf_hex (drop (length outboxPrefix) k) of
          None \<Rightarrow> db
        | Some seq \<Rightarrow> gm_del k (gm_put (outboxKeyV2 PriorityNormal (word_of_nat seq)) v db))"

text \<open>The sentinel's value is the byte 1.\<close>

definition migrateV1Keys :: "kv \<Rightarrow> kv" where
  "migrateV1Keys db =
     (if gm_get db outboxMigrationSentinel \<noteq> None then db
      else gm_put outboxMigrationSentinel (Garbage ''1'') (fold migrate_record (prefix_scan db) db))"

text \<open>What one key says about the sequence, and the backward scan that stops at the first.\<close>

definition key_seq :: "string \<Rightarrow> nat option" where
  "key_seq key =
     (let rest = drop (length outboxPrefix) key in
      if length rest \<ge> 19 \<and> rest ! (length rest - 17) = CHR '':'' \<and>
         sscanf_hex (drop (length rest - 16) rest) \<noteq> None
      then sscanf_hex (drop (length rest - 16) rest)
      else if rest \<noteq> [] then sscanf_hex rest else None)"

fun seq_loop :: "string list \<Rightarrow> nat" where
  "seq_loop [] = 0"
| "seq_loop (k # ks) = (case key_seq k of Some seq \<Rightarrow> seq | None \<Rightarrow> seq_loop ks)"

definition initSeq :: "kv \<Rightarrow> 64 word" where
  "initSeq db = word_of_nat (seq_loop (rev (map fst (outbox_records db))))"

definition NewOutbox :: "kv option \<Rightarrow> outbox" where
  "NewOutbox db =
     (case db of
        None \<Rightarrow> \<lparr>ob_db = None, ob_seq = 0\<rparr>
      | Some d \<Rightarrow> let d' = migrateV1Keys d in \<lparr>ob_db = Some d', ob_seq = initSeq d'\<rparr>)"

section \<open>Keys sort by priority, then by sequence number\<close>

lemma length_hex_fixed [simp]: "length (hex_fixed w v) = w"
  by (induction w arbitrary: v) simp_all

lemma hex_digit_less: "d < 16 \<Longrightarrow> e < 16 \<Longrightarrow> hex_digit d < hex_digit e \<longleftrightarrow> d < e"
  by (auto simp: hex_digit_def less_char_def)

lemma hex_digit_eq: "d < 16 \<Longrightarrow> e < 16 \<Longrightarrow> hex_digit d = hex_digit e \<longleftrightarrow> d = e"
  using hex_digit_less[of d e] hex_digit_less[of e d] by (metis less_irrefl linorder_neq_iff)

lemma snoc_less:
  fixes xs :: "('a::linorder) list"
  shows "length xs = length ys \<Longrightarrow> xs @ [a] < ys @ [b] \<longleftrightarrow> xs < ys \<or> xs = ys \<and> a < b"
  by (induction xs ys rule: list_induct2) auto

lemma append_less_same:
  fixes ps :: "('a::linorder) list"
  shows "ps @ xs < ps @ ys \<longleftrightarrow> xs < ys"
  by (induction ps) auto

lemma append_less_length:
  fixes xs :: "('a::linorder) list"
  shows "length xs = length ys \<Longrightarrow> xs @ us < ys @ vs \<longleftrightarrow> xs < ys \<or> xs = ys \<and> us < vs"
  by (induction xs ys rule: list_induct2) auto

lemma hex_fixed_eq: "v < 16 ^ w \<Longrightarrow> u < 16 ^ w \<Longrightarrow> hex_fixed w v = hex_fixed w u \<longleftrightarrow> v = u"
proof (induction w arbitrary: v u)
  case 0
  then show ?case by simp
next
  case (Suc w)
  then have "v div 16 < 16 ^ w" "u div 16 < 16 ^ w" by auto
  with Suc.IH[of "v div 16" "u div 16"] show ?case
    by (simp add: hex_digit_eq) (metis div_mult_mod_eq)
qed

lemma hex_fixed_less: "v < 16 ^ w \<Longrightarrow> u < 16 ^ w \<Longrightarrow> hex_fixed w v < hex_fixed w u \<longleftrightarrow> v < u"
proof (induction w arbitrary: v u)
  case 0
  then show ?case by simp
next
  case (Suc w)
  then have bounds: "v div 16 < 16 ^ w" "u div 16 < 16 ^ w" by auto
  have "v < u \<longleftrightarrow> v div 16 < u div 16 \<or> v div 16 = u div 16 \<and> v mod 16 < u mod 16"
  proof -
    define a b c d where "a = v div 16" "b = v mod 16" "c = u div 16" "d = u mod 16"
    then have "v = 16 * a + b" "u = 16 * c + d" "b < 16" "d < 16" by simp_all
    then have "v < u \<longleftrightarrow> a < c \<or> a = c \<and> b < d"
      by (cases a c rule: linorder_cases) auto
    then show ?thesis by (simp only: a_b_c_d_def)
  qed
  with Suc.IH[OF bounds] hex_fixed_eq[OF bounds] show ?case
    by (simp add: snoc_less hex_digit_less)
qed

lemma unat_bounds: "unat (p :: 8 word) < 256" "unat (s :: 64 word) < 16 ^ 16"
  using unsigned_less[of p] unsigned_less[of s] by simp_all

lemma unat_inverted: "unat (255 - p :: 8 word) = 255 - unat p"
proof -
  have "p \<le> 255" using unat_bounds(1)[of p] by (simp add: word_le_nat_alt)
  then show ?thesis by (simp add: unat_sub)
qed

text \<open>The order of the queue: higher priority first, then lower sequence number.\<close>

datatype position = Position (pos_priority: "8 word") (pos_seq: "64 word")

instantiation position :: linorder
begin

definition less_position :: "position \<Rightarrow> position \<Rightarrow> bool" where
  "a < b \<longleftrightarrow> pos_priority b < pos_priority a \<or> pos_priority a = pos_priority b \<and> pos_seq a < pos_seq b"

definition less_eq_position :: "position \<Rightarrow> position \<Rightarrow> bool" where
  "a \<le> b \<longleftrightarrow> a < b \<or> a = (b :: position)"

instance
proof
  fix a b c :: position
  show "a < b \<longleftrightarrow> a \<le> b \<and> \<not> b \<le> a" by (auto simp: less_position_def less_eq_position_def)
  show "a \<le> a" by (simp add: less_eq_position_def)
  show "a \<le> b \<Longrightarrow> b \<le> c \<Longrightarrow> a \<le> c" by (auto simp: less_position_def less_eq_position_def)
  show "a \<le> b \<Longrightarrow> b \<le> a \<Longrightarrow> a = b" by (auto simp: less_position_def less_eq_position_def)
  show "a \<le> b \<or> b \<le> a"
    by (cases a; cases b) (auto simp: less_position_def less_eq_position_def)
qed

end

definition position_key :: "position \<Rightarrow> string" where
  "position_key a = outboxKeyV2 (pos_priority a) (pos_seq a)"

lemma position_key_less: "position_key a < position_key b \<longleftrightarrow> a < b"
proof -
  have seq: "unat s < 16 ^ 16" for s :: "64 word" by (rule unat_bounds)
  have pr: "255 - unat p < 16 ^ 2" for p :: "8 word" by simp
  have lt: "255 - unat p < 255 - unat q \<longleftrightarrow> q < p" for p q :: "8 word"
    using unat_bounds(1)[of p] unat_bounds(1)[of q] by (auto simp: word_less_nat_alt)
  have eq: "255 - unat p = 255 - unat q \<longleftrightarrow> p = q" for p q :: "8 word"
    using unat_bounds(1)[of p] unat_bounds(1)[of q] by (auto simp: word_unat_eq_iff)
  show ?thesis
    unfolding position_key_def outboxKeyV2_def
    by (simp only: append_less_same append_less_length length_hex_fixed hex_fixed_less hex_fixed_eq
        seq pr unat_inverted lt eq less_position_def word_less_nat_alt[symmetric])
qed

lemma position_key_eq [simp]: "position_key a = position_key b \<longleftrightarrow> a = b"
  using position_key_less[of a b] position_key_less[of b a] by (metis less_irrefl linorder_neq_iff)

lemma position_key_le: "position_key a \<le> position_key b \<longleftrightarrow> a \<le> b"
  by (metis linorder_not_less position_key_less)

lemma outboxKeyV2_positions: "outboxKeyV2 p s = outboxKeyV2 q t \<longleftrightarrow> p = q \<and> s = t"
  using position_key_eq[of "Position p s" "Position q t"] by (simp add: position_key_def)

text \<open>
  C10. Two outbox keys compare as bytes exactly as their messages are to be delivered: the higher
  priority first, and within a priority the lower sequence number; equal keys have equal parts.
\<close>

theorem outboxKeyV2_order:
  "(outboxKeyV2 p s < outboxKeyV2 q t \<longleftrightarrow> q < p \<or> p = q \<and> s < t) \<and>
   (outboxKeyV2 p s = outboxKeyV2 q t \<longleftrightarrow> p = q \<and> s = t)"
  using position_key_less[of "Position p s" "Position q t"] position_key_eq[of "Position p s" "Position q t"]
  by (simp add: position_key_def less_position_def)

section \<open>Scanning\<close>

lemma increment_prefix: "incrementLastByte outboxPrefix = ''relay:outbox;''"
  by code_simp

lemma prefix_bounds:
  fixes c d :: char
  assumes "\<And>x. c < x \<longleftrightarrow> d \<le> x"
  shows "ps @ [c] \<le> k \<and> k < ps @ [d] \<longleftrightarrow> has_prefix k (ps @ [c])"
proof (induction ps arbitrary: k)
  case Nil
  have cd: "c < d" using assms[of d] by simp
  show ?case
  proof (cases k)
    case Nil
    then show ?thesis by simp
  next
    case (Cons x xs)
    have "(c < x \<or> c = x) \<and> x < d \<longleftrightarrow> x = c"
      using assms[of x] cd by (metis leD linorder_not_less)
    then show ?thesis by (auto simp: Cons)
  qed
next
  case (Cons p ps)
  show ?case
  proof (cases k)
    case Nil
    then show ?thesis by simp
  next
    case k: (Cons x xs)
    with Cons.IH[of xs] show ?thesis by auto
  qed
qed

lemma scan_bounds: "outboxPrefix \<le> k \<and> k < incrementLastByte outboxPrefix \<longleftrightarrow> has_prefix k outboxPrefix"
proof -
  have c: "CHR '':'' < x \<longleftrightarrow> CHR '';'' \<le> x" for x :: char
    by (auto simp: less_char_def less_eq_char_def)
  show ?thesis
    using prefix_bounds[of "CHR '':''" "CHR '';''" "''relay:outbox''" k, OF c]
    unfolding increment_prefix by (simp add: outboxPrefix_def)
qed

lemma records_eq:
  "outbox_records db = sort_key fst
     (filter (\<lambda>(k, v). has_prefix k outboxPrefix \<and> k \<noteq> outboxMigrationSentinel) db)"
  unfolding outbox_records_def prefix_scan_def scan_bounds
  by (simp add: filter_sort split_def conj_commute)

lemma set_records:
  "set (outbox_records db) = {(k, v) \<in> set db. has_prefix k outboxPrefix \<and> k \<noteq> outboxMigrationSentinel}"
  by (auto simp: records_eq)

lemma sorted_records: "sorted (map fst (outbox_records db))"
  by (simp add: records_eq)

lemma distinct_records: "gm_wf db \<Longrightarrow> distinct (map fst (outbox_records db))"
  by (simp add: records_eq gm_wf_def distinct_map distinct_sort inj_on_def distinct_filter)

section \<open>The queue\<close>

text \<open>
  A store is clean when every key is distinct and every record of the outbox is an encoded message
  under the key of its own priority; the sentinel may be present.
\<close>

definition clean :: "kv \<Rightarrow> bool" where
  "clean db \<longleftrightarrow> gm_wf db \<and> (\<forall>(k, v) \<in> set (outbox_records db).
     \<exists>m seq. v = Stored m \<and> k = outboxKeyV2 (rm_Priority m) seq)"

definition message_of :: "string \<times> stored \<Rightarrow> relay_message" where
  "message_of kv = (case snd kv of Stored m \<Rightarrow> m
     | Garbage _ \<Rightarrow> \<lparr>rm_Type = [], rm_MachineID = [], rm_SessionID = [], rm_SpaceID = [],
                      rm_Payload = JNull, rm_Priority = 0\<rparr>)"

definition queue :: "kv \<Rightarrow> relay_message list" where
  "queue db = map message_of (outbox_records db)"

lemma message_of_Stored [simp]: "message_of (k, Stored m) = m"
  by (simp add: message_of_def)

lemma key_in_prefix: "has_prefix (outboxKeyV2 p s) outboxPrefix"
  by (auto simp: has_prefix_iff outboxKeyV2_def)

lemma key_not_sentinel: "outboxKeyV2 p s \<noteq> outboxMigrationSentinel"
proof -
  have "length (outboxKeyV2 p s) = 32" by (simp add: outboxKeyV2_def outboxPrefix_def)
  then show ?thesis by (auto simp: outboxMigrationSentinel_def)
qed

lemma same_keys_same_entries:
  assumes "map fst xs = map fst ys" and "distinct (map fst xs)" and "set xs = set ys"
  shows "xs = ys"
proof (rule nth_equalityI)
  show len: "length xs = length ys" using assms(1) by (rule map_eq_imp_length_eq)
  fix j assume j: "j < length xs"
  have "fst (xs ! j) = fst (ys ! j)"
    using assms(1) j len by (metis nth_map)
  moreover have "xs ! j \<in> set xs" using j by simp
  moreover have "ys ! j \<in> set xs" using j len assms(3) by (metis nth_mem)
  ultimately show "xs ! j = ys ! j"
    using assms(2) by (auto simp: distinct_map dest: inj_onD)
qed

lemma records_unique:
  assumes "gm_wf db" and "sorted_wrt (<) (map fst L)"
    and "set L = {(k, v) \<in> set db. has_prefix k outboxPrefix \<and> k \<noteq> outboxMigrationSentinel}"
  shows "outbox_records db = L"
proof -
  have L: "sorted (map fst L)" "distinct (map fst L)"
    using assms(2) by (simp_all add: strict_sorted_iff)
  have same: "set L = set (outbox_records db)" by (simp add: set_records assms(3))
  have "set (map fst L) = set (map fst (outbox_records db))" unfolding set_map same ..
  then have "map fst L = map fst (outbox_records db)"
    using L sorted_records[of db] distinct_records[OF assms(1)]
    by (intro sorted_distinct_set_unique)
  then show ?thesis using same_keys_same_entries[of L "outbox_records db"] L(2) same by simp
qed

lemma strict_records: "gm_wf db \<Longrightarrow> sorted_wrt (<) (map fst (outbox_records db))"
  by (simp only: strict_sorted_iff sorted_records distinct_records simp_thms)

text \<open>A filter of the records that keeps the sentinel: what deletions leave.\<close>

lemma records_filter:
  assumes "gm_wf db" and "\<And>k v. (k, v) \<in> set (outbox_records db) \<Longrightarrow> (k, v) \<in> set db' \<longleftrightarrow> P k"
    and "gm_wf db'" and "set db' \<subseteq> set db"
  shows "outbox_records db' = filter (\<lambda>(k, v). P k) (outbox_records db)"
proof (rule records_unique[OF assms(3)])
  have "sorted_wrt (<) (map fst (filter (\<lambda>kv. P (fst kv)) (outbox_records db)))"
    using strict_records[OF assms(1)] by (simp add: sorted_wrt_map sorted_wrt_filter)
  then show "sorted_wrt (<) (map fst (filter (\<lambda>(k, v). P k) (outbox_records db)))"
    by (simp add: split_def)
  show "set (filter (\<lambda>(k, v). P k) (outbox_records db)) =
      {(k, v) \<in> set db'. has_prefix k outboxPrefix \<and> k \<noteq> outboxMigrationSentinel}"
    using assms(2,4) by (auto simp: set_records)
qed

lemma gm_wf_delete_keys: "gm_wf db \<Longrightarrow> gm_wf (delete_keys ks db)"
  unfolding delete_keys_def by (induction ks arbitrary: db) auto

lemma set_gm_del: "set (gm_del k db) = {(k', v) \<in> set db. k' \<noteq> k}"
  by (auto simp: AList.delete_eq)

lemma set_gm_put: "gm_wf db \<Longrightarrow> set (gm_put k v db) = insert (k, v) {(k', v') \<in> set db. k' \<noteq> k}"
proof -
  assume wf: "gm_wf db"
  then have "gm_wf (gm_put k v db)" by simp
  with wf show ?thesis by (auto simp flip: gm_get_Some_iff split: if_splits)
qed

lemma set_delete_keys: "set (delete_keys ks db) = {(k, v) \<in> set db. k \<notin> set ks}"
  unfolding delete_keys_def by (induction ks arbitrary: db) (auto simp: set_gm_del)

lemma records_delete_keys:
  assumes "gm_wf db"
  shows "outbox_records (delete_keys ks db) = filter (\<lambda>(k, v). k \<notin> set ks) (outbox_records db)"
  using assms by (intro records_filter) (auto simp: gm_wf_delete_keys set_delete_keys set_records)

lemma clean_delete_keys: "clean db \<Longrightarrow> clean (delete_keys ks db)"
  by (auto simp: clean_def gm_wf_delete_keys records_delete_keys)

lemma clean_wf: "clean db \<Longrightarrow> gm_wf db"
  by (simp add: clean_def)

lemma clean_record:
  assumes "clean db" and "(k, v) \<in> set (outbox_records db)"
  obtains m seq where "v = Stored m" "k = outboxKeyV2 (rm_Priority m) seq"
  using assms unfolding clean_def by blast

lemma drain_loop_take:
  assumes "\<And>k v. (k, v) \<in> set recs \<Longrightarrow> \<exists>m. v = Stored m"
  shows "drain_loop c n recs =
    (map message_of (take (nat (n - c)) recs), map fst (take (nat (n - c)) recs))"
  using assms
proof (induction c n recs rule: drain_loop.induct)
  case (1 c n)
  then show ?case by simp
next
  case (2 c n k v rest)
  show ?case
  proof (cases "c < n")
    case False
    then show ?thesis by simp
  next
    case True
    then have n: "nat (n - c) = Suc (nat (n - (c + 1)))" by simp
    from "2.prems"[of k v] obtain m where v: "v = Stored m" by auto
    have "drain_loop (c + 1) n rest = (map message_of (take (nat (n - (c + 1))) rest),
        map fst (take (nat (n - (c + 1))) rest))"
      using "2.prems" by (intro "2.IH"[OF True]) auto
    with True show ?thesis by (simp add: n v)
  qed
qed

lemma filter_not_taken:
  assumes "distinct (map fst recs)"
  shows "filter (\<lambda>(k, v). k \<notin> set (map fst (take j recs))) recs = drop j recs"
proof -
  let ?P = "\<lambda>(k, v). k \<notin> set (map fst (take j recs))"
  have split: "recs = take j recs @ drop j recs" by simp
  have "distinct (map fst (take j recs) @ map fst (drop j recs))"
    using assms by (metis append_take_drop_id map_append)
  then have disj: "set (map fst (take j recs)) \<inter> set (map fst (drop j recs)) = {}" by simp
  have "filter ?P (take j recs) = []" by (force simp: filter_empty_conv)
  moreover have "filter ?P (drop j recs) = drop j recs"
    using disj by (intro filter_True) force
  ultimately show ?thesis by (subst (2) split) (simp only: filter_append append_Nil)
qed

lemma queue_sorted:
  assumes "clean db"
  shows "sorted_wrt (\<lambda>m m'. rm_Priority m' \<le> rm_Priority m) (queue db)"
proof -
  have "sorted_wrt (\<lambda>a b. rm_Priority (message_of b) \<le> rm_Priority (message_of a)) (outbox_records db)"
  proof (rule sorted_wrt_mono_rel)
    show "sorted_wrt (\<lambda>a b. fst a < fst b) (outbox_records db)"
      using strict_records[OF clean_wf[OF assms]] by (simp add: sorted_wrt_map)
    fix a b assume ab: "a \<in> set (outbox_records db)" "b \<in> set (outbox_records db)" "fst a < fst b"
    obtain ma sa where a: "snd a = Stored ma" "fst a = outboxKeyV2 (rm_Priority ma) sa"
      using clean_record[OF assms, of "fst a" "snd a"] ab(1) by auto
    obtain mb sb where b: "snd b = Stored mb" "fst b = outboxKeyV2 (rm_Priority mb) sb"
      using clean_record[OF assms, of "fst b" "snd b"] ab(2) by auto
    from ab(3) show "rm_Priority (message_of b) \<le> rm_Priority (message_of a)"
      using position_key_less[of "Position (rm_Priority ma) sa" "Position (rm_Priority mb) sb"]
      by (auto simp: a b message_of_def position_key_def less_position_def)
  qed
  then show ?thesis by (simp add: queue_def sorted_wrt_map)
qed

text \<open>
  On a clean outbox Drain returns the first n messages of the queue, removes exactly these,
  and keeps the rest in order; the queue holds higher priorities first, so no message overtakes
  one of a higher priority.
\<close>

lemma Drain_takes_first:
  assumes "ob_db ob = Some db" and "clean db" and "Drain n ob = (r, ob')"
  shows "\<exists>db'. ob_db ob' = Some db' \<and> clean db' \<and> r = Inr (take (nat n) (queue db)) \<and>
    queue db' = drop (nat n) (queue db) \<and>
    sorted_wrt (\<lambda>m m'. rm_Priority m' \<le> rm_Priority m) (queue db)"
proof -
  let ?recs = "outbox_records db"
  let ?t = "take (nat n) ?recs"
  have "\<exists>m. v = Stored m" if "(k, v) \<in> set ?recs" for k v
    using assms(2) that by (rule clean_record) blast
  then have loop: "drain_loop 0 n ?recs = (map message_of ?t, map fst ?t)"
    using drain_loop_take[of ?recs 0 n] by simp
  have drain: "Drain n ob = (Inr (map message_of ?t),
      if map message_of ?t \<noteq> [] then ob\<lparr>ob_db := Some (delete_keys (map fst ?t) db)\<rparr> else ob)"
    unfolding Drain_def assms(1) option.case loop prod.case by (rule refl)
  show ?thesis
  proof (cases "?t = []")
    case True
    with assms(3) drain have "r = Inr []" "ob' = ob" by simp_all
    moreover have "drop (nat n) ?recs = ?recs" using True by auto
    ultimately show ?thesis
      using True assms(1,2) queue_sorted[OF assms(2)] by (simp add: queue_def take_map drop_map)
  next
    case False
    with assms(3) drain have r: "r = Inr (map message_of ?t)"
      and ob': "ob_db ob' = Some (delete_keys (map fst ?t) db)" by auto
    have "outbox_records (delete_keys (map fst ?t) db) = drop (nat n) ?recs"
      using assms(2) by (simp only: records_delete_keys clean_wf filter_not_taken distinct_records)
    with r ob' clean_delete_keys[OF assms(2)] queue_sorted[OF assms(2)] show ?thesis
      by (simp add: queue_def take_map drop_map)
  qed
qed

section \<open>Enqueue\<close>

text \<open>Every stored sequence number is at most the last one handed out, which has room to grow.\<close>

definition seq_ok :: "outbox \<Rightarrow> bool" where
  "seq_ok ob \<longleftrightarrow> (case ob_db ob of None \<Rightarrow> True | Some db \<Rightarrow>
     \<forall>(k, v) \<in> set (outbox_records db). \<forall>p seq. k = outboxKeyV2 p seq \<longrightarrow> seq \<le> ob_seq ob)"

lemma clean_position:
  assumes "clean db" and "(k, v) \<in> set (outbox_records db)"
  obtains m a where "v = Stored m" "k = position_key a" "pos_priority a = rm_Priority m"
  using assms(1,2)
proof (rule clean_record)
  fix m seq assume "v = Stored m" "k = outboxKeyV2 (rm_Priority m) seq"
  with that[of m "Position (rm_Priority m) seq"] show thesis by (simp add: position_key_def)
qed

lemma records_put_fresh:
  assumes "clean db" and "\<And>k v a. (k, v) \<in> set (outbox_records db) \<Longrightarrow> k = position_key a \<Longrightarrow> pos_seq a < seq"
  shows "outbox_records (gm_put (outboxKeyV2 (rm_Priority m) seq) (Stored m) db) =
      filter (\<lambda>kv. rm_Priority m \<le> rm_Priority (message_of kv)) (outbox_records db)
      @ [(outboxKeyV2 (rm_Priority m) seq, Stored m)]
      @ filter (\<lambda>kv. rm_Priority (message_of kv) < rm_Priority m) (outbox_records db)"
    (is "_ = ?hi @ [(?k, _)] @ ?lo")
proof (rule records_unique)
  let ?new = "Position (rm_Priority m) seq"
  have k: "?k = position_key ?new" by (simp add: position_key_def)
  have wf: "gm_wf db" using assms(1) by (rule clean_wf)
  then show "gm_wf (gm_put ?k (Stored m) db)" by simp
  have fresh: "?k \<notin> fst ` set db"
  proof
    assume "?k \<in> fst ` set db"
    then obtain v where "(?k, v) \<in> set db" by force
    then have "(?k, v) \<in> set (outbox_records db)" by (simp add: set_records key_in_prefix key_not_sentinel)
    from assms(2)[OF this k] show False by simp
  qed
  then have put: "gm_put ?k (Stored m) db = db @ [(?k, Stored m)]"
    by (intro gm_put_fresh) (simp add: map_of_eq_None_iff)
  have less: "fst x < ?k" if "x \<in> set ?hi" for x
  proof -
    from that have x: "(fst x, snd x) \<in> set (outbox_records db)" and pr: "rm_Priority m \<le> rm_Priority (message_of x)"
      by auto
    from assms(1) x obtain m' a where a: "snd x = Stored m'" "fst x = position_key a"
      "pos_priority a = rm_Priority m'" by (rule clean_position)
    from assms(2)[OF x a(2)] pr a show ?thesis
      by (simp add: k position_key_less less_position_def message_of_def) (metis order_le_less)
  qed
  have greater: "?k < fst x" if "x \<in> set ?lo" for x
  proof -
    from that have x: "(fst x, snd x) \<in> set (outbox_records db)" and pr: "rm_Priority (message_of x) < rm_Priority m"
      by auto
    from assms(1) x obtain m' a where a: "snd x = Stored m'" "fst x = position_key a"
      "pos_priority a = rm_Priority m'" by (rule clean_position)
    from pr a show ?thesis by (simp add: k position_key_less less_position_def message_of_def)
  qed
  have "sorted_wrt (\<lambda>x y. fst x < fst y) (outbox_records db)"
    using strict_records[OF wf] by (simp add: sorted_wrt_map)
  then have "sorted_wrt (\<lambda>x y. fst x < fst y) ?hi" "sorted_wrt (\<lambda>x y. fst x < fst y) ?lo"
    by (auto intro: sorted_wrt_filter)
  then have "sorted_wrt (\<lambda>x y. fst x < fst y) (?hi @ [(?k, Stored m)] @ ?lo)"
    using less greater less_trans[OF less greater] by (simp add: sorted_wrt_append)
  then show "sorted_wrt (<) (map fst (?hi @ [(?k, Stored m)] @ ?lo))"
    by (simp only: sorted_wrt_map)
  show "set (?hi @ [(?k, Stored m)] @ ?lo) = {(k, v) \<in> set (gm_put ?k (Stored m) db).
      has_prefix k outboxPrefix \<and> k \<noteq> outboxMigrationSentinel}"
    unfolding put using key_in_prefix key_not_sentinel by (auto simp: set_records)
qed

lemma records_drop_oldest:
  assumes "gm_wf db"
  shows "outbox_records (dropOldest db) = tl (outbox_records db)"
proof (cases "outbox_records db")
  case Nil
  then show ?thesis by (simp add: dropOldest_def)
next
  case (Cons kv rest)
  obtain k v where kv: "kv = (k, v)" by (cases kv)
  have "dropOldest db = delete_keys [k] db" by (simp add: dropOldest_def Cons kv delete_keys_def)
  then have "outbox_records (dropOldest db) = filter (\<lambda>(k', v). k' \<notin> set [k]) (outbox_records db)"
    using assms by (simp only: records_delete_keys)
  also have "\<dots> = rest"
    using distinct_records[OF assms] by (auto simp: Cons kv filter_id_conv rev_image_eqI)
  finally show ?thesis by (simp add: Cons)
qed

lemma clean_drop_oldest: "clean db \<Longrightarrow> clean (dropOldest db)"
  by (cases "outbox_records db")
     (auto simp: dropOldest_def intro: clean_delete_keys[of db "[_]", unfolded delete_keys_def, simplified])

lemma wf_drop_oldest: "gm_wf db \<Longrightarrow> gm_wf (dropOldest db)"
  by (auto simp: dropOldest_def split: list.splits)

text \<open>
  While the outbox holds fewer than its maximum depth of messages, Enqueue puts a message
  behind all queued ones of the same or a higher priority and before all of a lower one, keeps the
  rest of the queue as it is, and keeps the outbox clean; so messages of one priority leave in the
  order they were enqueued.
\<close>

lemma Enqueue_by_priority:
  assumes "ob_db ob = Some db" and "clean db" and "seq_ok ob" and "ob_seq ob < ob_seq ob + 1"
    and "length (queue db) < OutboxMaxDepth" and "Enqueue m ob = (r, ob')"
  shows "\<exists>db'. r = None \<and> ob_db ob' = Some db' \<and> clean db' \<and> seq_ok ob' \<and>
    queue db' = filter (\<lambda>q. rm_Priority m \<le> rm_Priority q) (queue db) @ [m]
              @ filter (\<lambda>q. rm_Priority q < rm_Priority m) (queue db)"
proof -
  let ?seq = "ob_seq ob + 1"
  let ?db' = "gm_put (outboxKeyV2 (rm_Priority m) ?seq) (Stored m) db"
  from assms(1,5,6) have r: "r = None" and ob': "ob' = ob\<lparr>ob_seq := ?seq, ob_db := Some ?db'\<rparr>"
    by (auto simp: Enqueue_def Let_def queue_def OutboxMaxDepth_def outboxMaxItems_def
        outboxRejectThreshold_def)
  have fresh: "pos_seq a < ?seq" if "(k, v) \<in> set (outbox_records db)" "k = position_key a" for k v a
    using that assms(1,3,4) unfolding seq_ok_def by (fastforce simp: position_key_def)
  have recs: "outbox_records ?db' =
      filter (\<lambda>kv. rm_Priority m \<le> rm_Priority (message_of kv)) (outbox_records db)
      @ [(outboxKeyV2 (rm_Priority m) ?seq, Stored m)]
      @ filter (\<lambda>kv. rm_Priority (message_of kv) < rm_Priority m) (outbox_records db)"
    using assms(2) fresh by (rule records_put_fresh)
  have "queue ?db' = filter (\<lambda>q. rm_Priority m \<le> rm_Priority q) (queue db) @ [m]
              @ filter (\<lambda>q. rm_Priority q < rm_Priority m) (queue db)"
    by (simp add: queue_def recs filter_map comp_def)
  moreover have "clean ?db'"
    unfolding clean_def
  proof (intro conjI ballI)
    show "gm_wf ?db'" using assms(2) by (simp add: clean_wf)
    fix kv assume "kv \<in> set (outbox_records ?db')"
    then consider "kv \<in> set (outbox_records db)" | "kv = (outboxKeyV2 (rm_Priority m) ?seq, Stored m)"
      by (auto simp: recs)
    then show "case kv of (k, v) \<Rightarrow> \<exists>m seq. v = Stored m \<and> k = outboxKeyV2 (rm_Priority m) seq"
      using assms(2) by cases (auto simp: clean_def)
  qed
  moreover have "seq_ok ob'"
  proof -
    have "seq \<le> ?seq" if "(k, v) \<in> set (outbox_records ?db')" "k = outboxKeyV2 p seq" for k v p seq
    proof -
      from that(1) consider "(k, v) \<in> set (outbox_records db)" | "k = outboxKeyV2 (rm_Priority m) ?seq"
        by (auto simp: recs)
      then show ?thesis
      proof cases
        case 1
        then show ?thesis
          using fresh[OF 1, of "Position p seq"] that(2) by (simp add: position_key_def)
      next
        case 2
        then have "position_key (Position p seq) = position_key (Position (rm_Priority m) ?seq)"
          unfolding position_key_def position.sel that(2) .
        then show ?thesis unfolding position_key_eq by simp
      qed
    qed
    then have "\<forall>(k, v) \<in> set (outbox_records ?db'). \<forall>p seq. k = outboxKeyV2 p seq \<longrightarrow> seq \<le> ?seq"
      by blast
    then show ?thesis unfolding seq_ok_def ob' by simp
  qed
  ultimately show ?thesis using r ob' by simp
qed

text \<open>
  The depth of a well-formed outbox never exceeds its maximum, and Enqueue on an open one is
  never refused: the full and near-full refusals are out of reach. At the maximum depth the
  message that makes room is the first of the queue, the one of the highest priority that was to
  be delivered next.
\<close>

lemma Enqueue_evicts_head:
  assumes "ob_db ob = Some db" and "gm_wf db" and "length (outbox_records db) \<le> OutboxMaxDepth"
    and "Enqueue m ob = (r, ob')"
  shows "\<exists>db'. r = None \<and> ob_db ob' = Some db' \<and> gm_wf db' \<and>
    length (outbox_records db') \<le> OutboxMaxDepth \<and>
    (length (outbox_records db) = OutboxMaxDepth \<longrightarrow>
       (\<forall>kv \<in> set (outbox_records db'). kv = (outboxKeyV2 (rm_Priority m) (ob_seq ob + 1), Stored m) \<or>
          kv \<in> set (tl (outbox_records db))))"
proof -
  let ?k = "outboxKeyV2 (rm_Priority m) (ob_seq ob + 1)"
  let ?db1 = "if length (outbox_records db) \<ge> OutboxMaxDepth then dropOldest db else db"
  let ?db' = "gm_put ?k (Stored m) ?db1"
  from assms(1,3,4) have r: "r = None" and ob': "ob_db ob' = Some ?db'"
    by (auto simp: Enqueue_def Let_def OutboxMaxDepth_def outboxMaxItems_def outboxRejectThreshold_def)
  have wf1: "gm_wf ?db1" using assms(2) by (simp add: wf_drop_oldest)
  then have wf: "gm_wf ?db'" by simp
  have len1: "length (outbox_records ?db1) < OutboxMaxDepth"
    using assms(2,3) by (auto simp: records_drop_oldest OutboxMaxDepth_def)
  have sub: "set (outbox_records ?db') \<subseteq> insert (?k, Stored m) (set (outbox_records ?db1))"
    using set_gm_put[OF wf1, of ?k "Stored m"] by (auto simp: set_records)
  have "length (outbox_records ?db') = card (set (outbox_records ?db'))"
    using distinct_records[OF wf] by (simp add: distinct_map distinct_card)
  also have "\<dots> \<le> card (insert (?k, Stored m) (set (outbox_records ?db1)))"
    using sub by (intro card_mono) auto
  also have "\<dots> \<le> Suc (length (outbox_records ?db1))"
    by (rule card_insert_le_m1) (simp_all only: diff_Suc_1 card_length zero_less_Suc)
  finally have "length (outbox_records ?db') \<le> OutboxMaxDepth" using len1 by simp
  moreover have "\<forall>kv \<in> set (outbox_records ?db'). kv = (?k, Stored m) \<or> kv \<in> set (tl (outbox_records db))"
    if "length (outbox_records db) = OutboxMaxDepth"
    using sub that assms(2) by (auto simp: records_drop_oldest)
  ultimately show ?thesis using r ob' wf by blast
qed

section \<open>Flush\<close>

lemma flush_loop_spec:
  assumes "distinct (map fst recs)"
  shows "set (fr_delete (flush_loop env j recs)) \<subseteq> fst ` set recs \<and>
    (\<forall>k m. (k, Stored m) \<in> set recs \<and> k \<in> set (fr_delete (flush_loop env j recs)) \<longrightarrow>
       m \<in> set (fr_sent (flush_loop env j recs))) \<and>
    (\<forall>m \<in> set (fr_sent (flush_loop env j recs)).
       \<exists>k \<in> set (fr_delete (flush_loop env j recs)). (k, Stored m) \<in> set recs) \<and>
    (\<not> fr_cancelled (flush_loop env j recs) \<longrightarrow>
       length recs = length (fr_delete (flush_loop env j recs)) + fr_failed (flush_loop env j recs)) \<and>
    distinct (fr_delete (flush_loop env j recs))"
  using assms
proof (induction env j recs rule: flush_loop.induct)
  case (1 env j)
  then show ?case by simp
next
  case (2 env j k v rest)
  show ?case
  proof (cases "fst (env j)")
    case True
    then show ?thesis by simp
  next
    case False
    from "2.prems" have k: "k \<notin> fst ` set rest" and d: "distinct (map fst rest)" by auto
    note IH = "2.IH"[OF False d]
    from IH k have nk: "k \<notin> set (fr_delete (flush_loop env (Suc j) rest))" by blast
    show ?thesis
    proof (cases v)
      case (Garbage g)
      with IH nk False k show ?thesis by (auto simp: Let_def; force)
    next
      case (Stored m)
      show ?thesis
      proof (cases "snd (env j) (rm_MachineID m) m")
        case True
        with IH nk False k Stored show ?thesis by (auto simp: Let_def; force)
      next
        case no: False
        with IH nk False k Stored show ?thesis by (auto simp: Let_def; force)
      qed
    qed
  qed
qed

lemma length_not_deleted:
  assumes "distinct (map fst recs)" and "distinct dels" and "set dels \<subseteq> fst ` set recs"
  shows "length (filter (\<lambda>(k, v). k \<notin> set dels) recs) + length dels = length recs"
proof -
  have "filter (\<lambda>k. k \<in> set dels) (map fst recs) = map fst (filter (\<lambda>(k, v). k \<in> set dels) recs)"
    by (simp add: filter_map comp_def split_def)
  moreover have "length (filter (\<lambda>k. k \<in> set dels) (map fst recs)) = length dels"
  proof -
    have "set (filter (\<lambda>k. k \<in> set dels) (map fst recs)) = set dels" using assms(3) by auto
    then show ?thesis using assms(1,2) by (metis distinct_card distinct_filter)
  qed
  ultimately have "length (filter (\<lambda>(k, v). k \<in> set dels) recs) = length dels"
    by (metis length_map)
  with sum_length_filter_compl[of "\<lambda>(k, v). k \<in> set dels" recs] show ?thesis
    by (simp add: split_def)
qed

text \<open>
  Flush loses nothing: every message was either accepted by the hub or is still queued, and an
  accepted message is no longer queued. A Flush without error leaves the outbox empty; one that
  reports n failures leaves exactly n messages.
\<close>

lemma Flush_loses_nothing:
  assumes "ob_db ob = Some db" and "gm_wf db" and "Flush True env ob = (err, sent, ob')"
  shows "\<exists>db'. ob_db ob' = Some db' \<and>
    (\<forall>k m. (k, Stored m) \<in> set (outbox_records db) \<longrightarrow>
        m \<in> set sent \<or> (k, Stored m) \<in> set (outbox_records db')) \<and>
    (\<forall>m \<in> set sent. \<exists>k. (k, Stored m) \<in> set (outbox_records db) \<and>
        k \<notin> fst ` set (outbox_records db')) \<and>
    (err = None \<longrightarrow> outbox_records db' = []) \<and>
    (\<forall>n. err = Some (ErrSendFailed n) \<longrightarrow> length (outbox_records db') = n)"
proof -
  let ?recs = "outbox_records db"
  let ?r = "flush_loop env 0 ?recs"
  let ?db' = "delete_keys (fr_delete ?r) db"
  have d: "distinct (map fst ?recs)" using assms(2) by (rule distinct_records)
  note spec = flush_loop_spec[OF d, of env 0]
  from assms(1,3) have ob': "ob_db ob' = Some ?db'" and sent: "sent = fr_sent ?r"
    and err: "err = (if fr_cancelled ?r then Some ErrFlushCancelled
        else if fr_failed ?r > 0 then Some (ErrSendFailed (fr_failed ?r)) else None)"
    by (auto simp: Flush_def Let_def)
  have recs': "outbox_records ?db' = filter (\<lambda>(k, v). k \<notin> set (fr_delete ?r)) ?recs"
    using assms(2) by (rule records_delete_keys)
  have len: "length (outbox_records ?db') + length (fr_delete ?r) = length ?recs"
    unfolding recs' using d spec by (intro length_not_deleted) blast+
  then have left: "length (outbox_records ?db') = fr_failed ?r" if "\<not> fr_cancelled ?r"
    using spec that by simp
  have "\<forall>k m. (k, Stored m) \<in> set ?recs \<longrightarrow> m \<in> set sent \<or> (k, Stored m) \<in> set (outbox_records ?db')"
    using spec by (auto simp: recs' sent)
  moreover have "\<forall>m \<in> set sent. \<exists>k. (k, Stored m) \<in> set ?recs \<and> k \<notin> fst ` set (outbox_records ?db')"
  proof
    fix m assume "m \<in> set sent"
    with spec sent obtain k where "k \<in> set (fr_delete ?r)" "(k, Stored m) \<in> set ?recs" by blast
    then show "\<exists>k. (k, Stored m) \<in> set ?recs \<and> k \<notin> fst ` set (outbox_records ?db')"
      by (intro exI[of _ k]) (auto simp: recs')
  qed
  ultimately show ?thesis
    using ob' left by (auto simp: err split: if_splits)
qed

section \<open>Restart\<close>

lemma hex_value_digit: "d < 16 \<Longrightarrow> hex_value (hex_digit d) = Some d"
  by (auto simp: hex_value_def hex_digit_def Let_def)

lemma parse_hex_append: "parse_hex acc (xs @ ys) =
    (case parse_hex acc xs of None \<Rightarrow> None | Some v \<Rightarrow> parse_hex v ys)"
  by (induction xs arbitrary: acc) (auto split: option.splits)

lemma parse_hex_fixed: "v < 16 ^ w \<Longrightarrow> parse_hex acc (hex_fixed w v) = Some (16 ^ w * acc + v)"
proof (induction w arbitrary: v acc)
  case 0
  then show ?case by simp
next
  case (Suc w)
  then have "v div 16 < 16 ^ w" by auto
  with Suc.IH[of "v div 16" acc] show ?case
    by (simp add: parse_hex_append hex_value_digit algebra_simps)
qed

lemma hex_fixed_digits: "c \<in> set (hex_fixed w v) \<Longrightarrow> \<exists>d < 16. c = hex_digit d"
proof (induction w arbitrary: v)
  case 0
  then show ?case by simp
next
  case (Suc w)
  show ?case
  proof (cases "c \<in> set (hex_fixed w (v div 16))")
    case True
    then show ?thesis by (rule Suc.IH)
  next
    case False
    with Suc.prems have "c = hex_digit (v mod 16)" by simp
    then show ?thesis by (intro exI[of _ "v mod 16"]) simp
  qed
qed

lemma hex_digit_plain:
  "d < 16 \<Longrightarrow> char_lower (hex_digit d) = hex_digit d \<and> \<not> is_space (hex_digit d)"
  by (auto simp: hex_digit_def char_lower_def is_space_def Let_def)

lemma sscanf_hex_fixed:
  assumes "v < 16 ^ w" and "v < 2 ^ 64" and "0 < w"
  shows "sscanf_hex (hex_fixed w v) = Some v"
proof -
  let ?h = "hex_fixed w v"
  have lower: "to_lower ?h = ?h"
    using hex_fixed_digits[of _ w v] hex_digit_plain by (force simp: to_lower_def intro!: map_idI)
  have "\<And>c. c \<in> set ?h \<Longrightarrow> \<not> is_space c"
    using hex_fixed_digits[of _ w v] hex_digit_plain by force
  then have trim: "trim_left ?h = ?h"
    unfolding trim_left_def by (metis dropWhile_eq_self_iff list.set_sel(1))
  have "\<And>c. c \<in> set ?h \<Longrightarrow> hex_value c \<noteq> None"
    using hex_fixed_digits[of _ w v] hex_value_digit by fastforce
  then have take: "takeWhile (\<lambda>c. hex_value c \<noteq> None) ?h = ?h" by (simp add: takeWhile_eq_all_conv)
  have "?h \<noteq> []" using assms(3) by (metis length_0_conv length_hex_fixed less_irrefl)
  then show ?thesis
    using assms(1,2) unfolding sscanf_hex_def trim lower take Let_def by (simp add: parse_hex_fixed)
qed

lemma key_seq_V2: "key_seq (outboxKeyV2 p s) = Some (unat s)"
proof -
  let ?a = "hex_fixed 2 (unat (255 - p))" and ?b = "hex_fixed 16 (unat s)"
  have rest: "drop (length outboxPrefix) (outboxKeyV2 p s) = ?a @ '':'' @ ?b"
    by (simp add: outboxKeyV2_def)
  have len: "length (?a @ '':'' @ ?b) = 19" by simp
  have colon: "(?a @ '':'' @ ?b) ! 2 = CHR '':''" by (simp add: nth_append)
  have "drop 3 (?a @ '':'' @ ?b) = ?b" by (simp add: drop_append)
  moreover have "sscanf_hex ?b = Some (unat s)"
    using unat_bounds(2)[of s] by (intro sscanf_hex_fixed) simp_all
  ultimately show ?thesis
    unfolding key_seq_def rest Let_def len using colon by simp
qed

lemma initSeq_last:
  assumes "clean db" and "outbox_records db \<noteq> []"
    and "fst (last (outbox_records db)) = outboxKeyV2 p s"
  shows "initSeq db = s"
proof -
  have "rev (map fst (outbox_records db)) = outboxKeyV2 p s # rev (map fst (butlast (outbox_records db)))"
    using assms(2,3) by (cases "outbox_records db" rule: rev_cases) simp_all
  then show ?thesis by (simp add: initSeq_def key_seq_V2)
qed

lemma sorted_le_last: "sorted xs \<Longrightarrow> x \<in> set xs \<Longrightarrow> x \<le> last (xs :: 'a :: linorder list)"
  by (cases xs rule: rev_cases) (auto simp: sorted_append)

lemma NewOutbox_migrated:
  "gm_get db outboxMigrationSentinel \<noteq> None \<Longrightarrow> NewOutbox (Some db) = \<lparr>ob_db = Some db, ob_seq = initSeq db\<rparr>"
  by (simp add: NewOutbox_def migrateV1Keys_def Let_def)

text \<open>
  After a restart the sequence resumes at the last used number, so that new messages cannot
  collide with queued ones, if all queued messages have one priority.
\<close>

lemma restart_resumes_sequence:
  assumes "clean db" and "gm_get db outboxMigrationSentinel \<noteq> None"
    and "\<forall>m \<in> set (queue db). rm_Priority m = p"
  shows "seq_ok (NewOutbox (Some db))"
proof (cases "outbox_records db = []")
  case True
  then show ?thesis by (simp add: NewOutbox_migrated[OF assms(2)] seq_ok_def)
next
  case False
  have tier: "\<exists>seq. k = position_key (Position p seq)" if "(k, v) \<in> set (outbox_records db)" for k v
  proof -
    from assms(1) that obtain m seq where v: "v = Stored m" "k = outboxKeyV2 (rm_Priority m) seq"
      by (rule clean_record)
    with that have "m \<in> set (queue db)" by (force simp: queue_def)
    with assms(3) v show ?thesis by (auto simp: position_key_def)
  qed
  obtain k0 v0 where l: "last (outbox_records db) = (k0, v0)" by fastforce
  from False l have lm: "(k0, v0) \<in> set (outbox_records db)" by (metis last_in_set)
  from tier[OF lm] obtain t where t: "k0 = position_key (Position p t)" by blast
  have init: "initSeq db = t"
    using assms(1) False l t by (intro initSeq_last[where p = p]) (simp_all add: position_key_def)
  have "seq \<le> t" if kv: "(k, v) \<in> set (outbox_records db)" and k: "k = outboxKeyV2 q seq" for k v q seq
  proof -
    have "k \<le> last (map fst (outbox_records db))"
      using kv sorted_records[of db] by (intro sorted_le_last) force+
    then have "position_key (Position q seq) \<le> position_key (Position p t)"
      using False l k t by (simp add: last_map position_key_def)
    moreover from tier[OF kv] k have "q = p"
      by (auto simp: position_key_def outboxKeyV2_positions)
    ultimately show ?thesis
      by (auto simp: position_key_le less_eq_position_def less_position_def)
  qed
  then show ?thesis
    unfolding NewOutbox_migrated[OF assms(2)] seq_ok_def by (auto simp: init)
qed

text \<open>
  With several priorities the sequence resumes at the number of the last message of the lowest
  one, and a queued message of a higher priority with the next number is then lost: the first
  message of its priority that is enqueued after the restart takes its key and overwrites it.
\<close>

lemma restart_overwrites_message:
  assumes "clean db" and "gm_get db outboxMigrationSentinel \<noteq> None"
    and "length (queue db) < OutboxMaxDepth"
    and "(outboxKeyV2 p (t + 1), Stored lost) \<in> set (outbox_records db)"
    and "fst (last (outbox_records db)) = outboxKeyV2 q t" and "rm_Priority m = p"
  shows "\<exists>ob' db'. Enqueue m (NewOutbox (Some db)) = (None, ob') \<and> ob_db ob' = Some db' \<and>
    gm_get db' (outboxKeyV2 p (t + 1)) = Some (Stored m) \<and> length (queue db') = length (queue db)"
proof -
  let ?k = "outboxKeyV2 p (t + 1)"
  let ?db' = "gm_put ?k (Stored m) db"
  from assms(4) have ne: "outbox_records db \<noteq> []" by auto
  have seq: "initSeq db = t" using assms(1) ne assms(5) by (rule initSeq_last)
  have enq: "Enqueue m (NewOutbox (Some db)) = (None, \<lparr>ob_db = Some ?db', ob_seq = t + 1\<rparr>)"
    using assms(3,6) by (simp add: NewOutbox_migrated[OF assms(2)] Enqueue_def Let_def queue_def seq
        OutboxMaxDepth_def outboxMaxItems_def outboxRejectThreshold_def)
  have len: "length (outbox_records d) =
      length (filter (\<lambda>k. has_prefix k outboxPrefix \<and> k \<noteq> outboxMigrationSentinel) (map fst d))" for d :: kv
    by (simp add: records_eq filter_map comp_def split_def)
  have "?k \<in> fst ` set db" using assms(4) by (force simp: set_records)
  then have "map fst ?db' = map fst db" by (simp add: update_keys)
  then have "length (queue ?db') = length (queue db)" by (simp only: queue_def length_map len)
  with enq show ?thesis by simp
qed

section \<open>Witnesses\<close>

definition demo_message :: "string \<Rightarrow> 8 word \<Rightarrow> relay_message" where
  "demo_message ty p = \<lparr>rm_Type = ty, rm_MachineID = ''m'', rm_SessionID = [], rm_SpaceID = [],
     rm_Payload = JNull, rm_Priority = p\<rparr>"

text \<open>One normal message with number 1 and one high-priority message with number 2.\<close>

definition demo_db :: kv where
  "demo_db = [(outboxMigrationSentinel, Garbage ''1''),
     (outboxKeyV2 0 1, Stored (demo_message ''normal'' 0)),
     (outboxKeyV2 255 2, Stored (demo_message ''high'' 255))]"

lemma demo_records: "outbox_records demo_db =
    [(outboxKeyV2 255 2, Stored (demo_message ''high'' 255)),
     (outboxKeyV2 0 1, Stored (demo_message ''normal'' 0))]"
  by code_simp

lemma demo_clean: "clean demo_db"
proof -
  have "gm_wf demo_db" by code_simp
  then show ?thesis by (auto simp: clean_def demo_records demo_message_def)
qed

lemma demo_queue: "queue demo_db = [demo_message ''high'' 255, demo_message ''normal'' 0]"
  by (simp add: queue_def demo_records)

lemma demo_sentinel: "gm_get demo_db outboxMigrationSentinel \<noteq> None"
  by (simp add: demo_db_def)

end
