(* ===== verification/WorkflowTypes.thy ===== *)
theory WorkflowTypes
  imports Interfaces "HOL-Library.Word"
begin

text \<open>
  The data of the workflow scheduler (\<^verbatim>\<open>internal/scheduler\<close>): workflows and their steps, run
  records, validation of a step, the condition and the retry defaults of a step.
  \<^verbatim>\<open>time.ParseDuration\<close> is an argument \<open>parse\<close>, since its grammar of decimal fractions plays no
  part in what the sources do with the result.
\<close>

section \<open>Workflows\<close>

definition maxStepRetries :: int where
  "maxStepRetries = 10"

record step_input =
  si_FromStep :: string
  si_As :: string

record notification_delivery =
  nd_Type :: string
  nd_SpaceID :: string
  nd_User :: string
  nd_From :: string
  nd_To :: string
  nd_Connection :: string
  nd_SMTPHost :: string
  nd_SMTPPort :: string
  nd_SMTPFrom :: string
  nd_SMTPUser :: string
  nd_SMTPPass :: string
  nd_SMTPPassDeprecated :: bool

definition SMTPPassObfuscated :: "notification_delivery \<Rightarrow> string" where
  "SMTPPassObfuscated d = (if nd_SMTPPass d \<noteq> [] then ''[REDACTED]'' else [])"

record step_notify_config =
  sn_OnSuccess :: bool
  sn_OnFailure :: bool
  sn_DeliverTo :: "notification_delivery list"

datatype notify_mode = NotifyModeNone | NotifyModeOnSuccess | NotifyModeOnFailure | NotifyModeAlways

fun notify_Mode :: "step_notify_config option \<Rightarrow> notify_mode" where
  "notify_Mode None = NotifyModeNone"
| "notify_Mode (Some c) =
     (if sn_OnSuccess c \<and> sn_OnFailure c then NotifyModeAlways
      else if sn_OnSuccess c then NotifyModeOnSuccess
      else if sn_OnFailure c then NotifyModeOnFailure
      else NotifyModeNone)"

fun notify_SetMode :: "notify_mode \<Rightarrow> step_notify_config option \<Rightarrow> step_notify_config option" where
  "notify_SetMode mode None = None"
| "notify_SetMode mode (Some c) = Some
     (case mode of
        NotifyModeAlways \<Rightarrow> c\<lparr>sn_OnSuccess := True, sn_OnFailure := True\<rparr>
      | NotifyModeOnSuccess \<Rightarrow> c\<lparr>sn_OnSuccess := True, sn_OnFailure := False\<rparr>
      | NotifyModeOnFailure \<Rightarrow> c\<lparr>sn_OnSuccess := False, sn_OnFailure := True\<rparr>
      | NotifyModeNone \<Rightarrow> c\<lparr>sn_OnSuccess := False, sn_OnFailure := False\<rparr>)"

lemma notify_Mode_SetMode: "c \<noteq> None \<Longrightarrow> notify_Mode (notify_SetMode mode c) = mode"
  by (cases c; cases mode) simp_all

lemma notify_SetMode_Mode: "notify_SetMode (notify_Mode c) c = c"
  by (cases c) (auto split: notify_mode.splits)

record workflow_step =
  ws_Routine :: string
  ws_Name :: string
  ws_Agent :: string
  ws_Prompt :: string
  ws_Connections :: "(string, string) gomap"
  ws_Vars :: "(string, string) gomap"
  ws_Inputs :: "step_input list"
  ws_Position :: int
  ws_OnFailure :: string
  ws_MaxRetries :: int
  ws_RetryDelay :: string
  ws_Timeout :: string
  ws_Notify :: "step_notify_config option"
  ws_ModelOverride :: string
  ws_When :: string
  ws_SubWorkflow :: string
  ws_retryDelayParsed :: duration
  ws_timeoutParsed :: duration

definition empty_step :: workflow_step where
  "empty_step = \<lparr>ws_Routine = [], ws_Name = [], ws_Agent = [], ws_Prompt = [], ws_Connections = [],
     ws_Vars = [], ws_Inputs = [], ws_Position = 0, ws_OnFailure = [], ws_MaxRetries = 0,
     ws_RetryDelay = [], ws_Timeout = [], ws_Notify = None, ws_ModelOverride = [], ws_When = [],
     ws_SubWorkflow = [], ws_retryDelayParsed = 0, ws_timeoutParsed = 0\<rparr>"

record workflow_chain =
  wc_Next :: string
  wc_OnSuccess :: bool
  wc_OnFailure :: bool

record workflow_retry =
  wr_MaxRetries :: int
  wr_Delay :: string

record workflow_notification =
  wn_OnSuccess :: bool
  wn_OnFailure :: bool
  wn_Severity :: string
  wn_DeliverTo :: "notification_delivery list"

record workflow =
  wf_ID :: string
  wf_Slug :: string
  wf_Name :: string
  wf_Description :: string
  wf_Tags :: "string list"
  wf_Enabled :: bool
  wf_Schedule :: string
  wf_CompanyID :: string
  wf_Steps :: "workflow_step list"
  wf_Notification :: workflow_notification
  wf_Chain :: "workflow_chain option"
  wf_Retry :: "workflow_retry option"
  wf_FilePath :: string
  wf_CreatedAt :: gotime
  wf_UpdatedAt :: gotime
  wf_Version :: "64 word"
  wf_TimeoutMinutes :: int

definition empty_workflow :: workflow where
  "empty_workflow = \<lparr>wf_ID = [], wf_Slug = [], wf_Name = [], wf_Description = [], wf_Tags = [],
     wf_Enabled = False, wf_Schedule = [], wf_CompanyID = [], wf_Steps = [],
     wf_Notification = \<lparr>wn_OnSuccess = False, wn_OnFailure = False, wn_Severity = [], wn_DeliverTo = []\<rparr>,
     wf_Chain = None, wf_Retry = None, wf_FilePath = [], wf_CreatedAt = t_zero, wf_UpdatedAt = t_zero,
     wf_Version = 0, wf_TimeoutMinutes = 0\<rparr>"

section \<open>Runs\<close>

datatype run_status = RunRunning | RunComplete | RunPartial | RunFailed | RunCancelled

fun run_status_string :: "run_status \<Rightarrow> string" where
  "run_status_string RunRunning = ''running''"
| "run_status_string RunComplete = ''complete''"
| "run_status_string RunPartial = ''partial''"
| "run_status_string RunFailed = ''failed''"
| "run_status_string RunCancelled = ''cancelled''"

text \<open>The token counts and the cost of a result are never set by the runner and are left out.\<close>

record step_result =
  sr_Position :: int
  sr_Slug :: string
  sr_SessionID :: string
  sr_Status :: string
  sr_Error :: string
  sr_Output :: string
  sr_StartedAt :: gotime
  sr_CompletedAt :: "gotime option"
  sr_LatencyMs :: int
  sr_SkipReason :: string
  sr_WhenResolved :: string

definition empty_result :: step_result where
  "empty_result = \<lparr>sr_Position = 0, sr_Slug = [], sr_SessionID = [], sr_Status = [], sr_Error = [],
     sr_Output = [], sr_StartedAt = t_zero, sr_CompletedAt = None, sr_LatencyMs = 0,
     sr_SkipReason = [], sr_WhenResolved = []\<rparr>"

record workflow_run =
  run_ID :: string
  run_WorkflowID :: string
  run_Status :: run_status
  run_Steps :: "step_result list"
  run_StartedAt :: gotime
  run_CompletedAt :: "gotime option"
  run_TriggerInputs :: "(string, string) gomap"
  run_WorkflowSnapshot :: workflow

section \<open>Validation of a step\<close>

datatype step_invalid =
    NegativeRetries int | TooManyRetries int int
  | InvalidRetryDelay int string | InvalidTimeout int string
  | TimeoutTooShort int string | TimeoutTooLong int string

text \<open>\<open>WorkflowStep.Validate\<close> fills the parsed durations in as it goes, also before an error.\<close>

definition validate_timeout :: "(string \<Rightarrow> duration option) \<Rightarrow> workflow_step \<Rightarrow>
    step_invalid option \<times> workflow_step" where
  "validate_timeout parse s =
     (if ws_Timeout s = [] then (None, s)
      else case parse (ws_Timeout s) of
        None \<Rightarrow> (Some (InvalidTimeout (ws_Position s) (ws_Timeout s)), s)
      | Some d \<Rightarrow>
          if d < second then (Some (TimeoutTooShort (ws_Position s) (ws_Timeout s)), s)
          else if d > 24 * hour then (Some (TimeoutTooLong (ws_Position s) (ws_Timeout s)), s)
          else (None, s\<lparr>ws_timeoutParsed := d\<rparr>))"

definition step_Validate :: "(string \<Rightarrow> duration option) \<Rightarrow> workflow_step \<Rightarrow>
    step_invalid option \<times> workflow_step" where
  "step_Validate parse s =
     (if ws_MaxRetries s < 0 then (Some (NegativeRetries (ws_Position s)), s)
      else if ws_MaxRetries s > maxStepRetries
      then (Some (TooManyRetries (ws_Position s) (ws_MaxRetries s)), s)
      else if ws_RetryDelay s = [] then validate_timeout parse s
      else case parse (ws_RetryDelay s) of
        None \<Rightarrow> (Some (InvalidRetryDelay (ws_Position s) (ws_RetryDelay s)), s)
      | Some d \<Rightarrow> validate_timeout parse (s\<lparr>ws_retryDelayParsed := d\<rparr>))"

definition RetryDelayDuration :: "workflow_step \<Rightarrow> duration" where
  "RetryDelayDuration s = ws_retryDelayParsed s"

definition TimeoutDuration :: "workflow_step \<Rightarrow> duration" where
  "TimeoutDuration s =
     (if ws_timeoutParsed s \<le> 0 then 0
      else if ws_timeoutParsed s > 24 * hour then 24 * hour
      else ws_timeoutParsed s)"

definition EffectiveOnFailure :: "workflow_step \<Rightarrow> string" where
  "EffectiveOnFailure s = (if ws_OnFailure s = [] then ''stop'' else ws_OnFailure s)"

lemma TimeoutDuration_range: "0 \<le> TimeoutDuration s" "TimeoutDuration s \<le> 24 * hour"
  by (simp_all add: TimeoutDuration_def duration_defs)

lemma step_Validate_Ok:
  assumes "step_Validate parse s = (None, s')"
  shows "0 \<le> ws_MaxRetries s' \<and> ws_MaxRetries s' \<le> maxStepRetries"
    and "ws_Timeout s \<noteq> [] \<Longrightarrow> parse (ws_Timeout s) = Some (TimeoutDuration s') \<and>
           second \<le> TimeoutDuration s'"
    and "ws_RetryDelay s \<noteq> [] \<Longrightarrow> parse (ws_RetryDelay s) = Some (RetryDelayDuration s')"
  using assms
  by (auto simp: step_Validate_def validate_timeout_def TimeoutDuration_def RetryDelayDuration_def
      duration_defs split: if_splits option.splits)

section \<open>The condition of a step\<close>

definition EvaluateWhen :: "string \<Rightarrow> bool" where
  "EvaluateWhen resolved =
     (let t = to_lower (trim_space resolved) in
      if t = [] then True
      else if t = ''false'' \<or> t = ''0'' \<or> t = ''no'' \<or> t = ''off'' then False
      else True)"

section \<open>Retry defaults of a workflow\<close>

definition apply_retry_default :: "(string \<Rightarrow> duration option) \<Rightarrow> workflow_retry \<Rightarrow>
    workflow_step \<Rightarrow> workflow_step" where
  "apply_retry_default parse defaults s =
     (let s1 = (if ws_MaxRetries s = 0 \<and> wr_MaxRetries defaults > 0
                then s\<lparr>ws_MaxRetries := wr_MaxRetries defaults\<rparr> else s)
      in if ws_RetryDelay s1 = [] \<and> trim_space (wr_Delay defaults) \<noteq> []
         then let s2 = s1\<lparr>ws_RetryDelay := wr_Delay defaults\<rparr>
              in case parse (wr_Delay defaults) of
                   Some d \<Rightarrow> s2\<lparr>ws_retryDelayParsed := d\<rparr>
                 | None \<Rightarrow> s2
         else s1)"

definition ApplyRetryDefaults :: "(string \<Rightarrow> duration option) \<Rightarrow> workflow_retry option \<Rightarrow>
    workflow_step list \<Rightarrow> workflow_step list" where
  "ApplyRetryDefaults parse defaults steps =
     (case defaults of
        None \<Rightarrow> steps
      | Some d \<Rightarrow>
          if wr_MaxRetries d = 0 \<and> trim_space (wr_Delay d) = [] then steps
          else map (apply_retry_default parse d) steps)"

text \<open>What the retry defaults leave alone.\<close>

lemma apply_retry_default_keeps [simp]:
  "ws_Position (apply_retry_default parse d s) = ws_Position s"
  "ws_Name (apply_retry_default parse d s) = ws_Name s"
  "ws_SubWorkflow (apply_retry_default parse d s) = ws_SubWorkflow s"
  "ws_Prompt (apply_retry_default parse d s) = ws_Prompt s"
  by (auto simp: apply_retry_default_def Let_def split: option.splits)

lemma ApplyRetryDefaults_keeps [simp]:
  "length (ApplyRetryDefaults parse d ss) = length ss"
  "map ws_Position (ApplyRetryDefaults parse d ss) = map ws_Position ss"
  "map ws_SubWorkflow (ApplyRetryDefaults parse d ss) = map ws_SubWorkflow ss"
  by (auto simp: ApplyRetryDefaults_def split: option.splits)

text \<open>A second pass of the defaults changes nothing.\<close>

lemma apply_retry_default_idem:
  "apply_retry_default parse d (apply_retry_default parse d s) = apply_retry_default parse d s"
  by (auto simp: apply_retry_default_def Let_def split: option.splits)

section \<open>The time limit of a run\<close>

definition defaultWorkflowTimeout :: duration where
  "defaultWorkflowTimeout = 30 * minute"

definition maxWorkflowTimeoutMinutes :: int where
  "maxWorkflowTimeoutMinutes = 1440"

definition ValidateWorkflowTimeout :: "int \<Rightarrow> int" where
  "ValidateWorkflowTimeout minutes =
     (if minutes < 0 then 0
      else if minutes > maxWorkflowTimeoutMinutes then maxWorkflowTimeoutMinutes
      else minutes)"

definition workflowTimeout :: "workflow \<Rightarrow> duration" where
  "workflowTimeout w =
     (if wf_TimeoutMinutes w > 0 then wf_TimeoutMinutes w * minute else defaultWorkflowTimeout)"

lemma validated_timeout_range:
  "wf_TimeoutMinutes w = ValidateWorkflowTimeout n \<Longrightarrow>
     0 < workflowTimeout w \<and> workflowTimeout w \<le> 24 * hour"
  by (simp add: workflowTimeout_def ValidateWorkflowTimeout_def maxWorkflowTimeoutMinutes_def
      defaultWorkflowTimeout_def duration_defs split: if_splits)

end
