(* ===== verification/WorkflowTemplate.thy ===== *)
theory WorkflowTemplate
  imports WorkflowTypes
begin

text \<open>
  The prompt templates of workflow steps (\<^verbatim>\<open>internal/scheduler/workflow_runner.go\<close>): static
  variables, outputs of earlier steps, fields of JSON outputs, the scratchpad of a run, and the
  search for placeholders that were left over; and the reading of an agent's output
  (\<open>parseOutput\<close>). The JSON codec of the standard library is an argument (\<open>json_codec\<close>), the two
  regular expressions are written out as matchers at the head of a string.
\<close>

section \<open>Static variables\<close>

definition braces :: "string \<Rightarrow> string" where
  "braces k = ''{{'' @ k @ ''}}''"

definition resolveInlineVars :: "string \<Rightarrow> (string, string) gomap \<Rightarrow> string" where
  "resolveInlineVars prompt vars = fold (\<lambda>(k, v). replace_all (braces k) v) vars prompt"

section \<open>JSON fields\<close>

text \<open>
  A decoded JSON value. A number is an integer when the code's test \<open>v == float64(int64(v))\<close>
  holds, and otherwise its \<^verbatim>\<open>%g\<close> rendering.
\<close>

datatype jvalue = VNull | VBool bool | VInt int | VFloat string | VStr string
  | VArr "jvalue list" | VObj "(string \<times> jvalue) list"

text \<open>
  \<open>jc_decode\<close> is \<^verbatim>\<open>json.Unmarshal\<close> into an \<open>any\<close>, \<open>jc_encode\<close> is \<^verbatim>\<open>json.Marshal\<close>, and
  \<open>jc_summary\<close> is \<^verbatim>\<open>json.Unmarshal\<close> into a struct with the one field \<open>summary\<close>.
\<close>

record json_codec =
  jc_decode :: "string \<Rightarrow> jvalue option"
  jc_encode :: "jvalue \<Rightarrow> string option"
  jc_summary :: "string \<Rightarrow> string option"

fun walk_json :: "jvalue \<Rightarrow> string list \<Rightarrow> jvalue option" where
  "walk_json cur [] = Some cur"
| "walk_json cur (seg # segs) =
     (case cur of
        VObj members \<Rightarrow> (case gm_get members seg of None \<Rightarrow> None | Some v \<Rightarrow> walk_json v segs)
      | _ \<Rightarrow> None)"

fun render_json :: "json_codec \<Rightarrow> jvalue \<Rightarrow> string option" where
  "render_json codec (VStr s) = Some s"
| "render_json codec (VInt n) = Some (show_int n)"
| "render_json codec (VFloat s) = Some s"
| "render_json codec (VBool b) = Some (if b then ''true'' else ''false'')"
| "render_json codec VNull = Some ''null''"
| "render_json codec v = jc_encode codec v"

definition lookupJSONPath :: "json_codec \<Rightarrow> string \<Rightarrow> string \<Rightarrow> string option" where
  "lookupJSONPath codec src path =
     (let src = trim_space src in
      if src = [] then None
      else case jc_decode codec src of
        None \<Rightarrow> None
      | Some root \<Rightarrow>
          (case walk_json root (split_on (CHR ''.'') path) of
             None \<Rightarrow> None
           | Some v \<Rightarrow> render_json codec v))"

definition is_word :: "char \<Rightarrow> bool" where
  "is_word c = (let n = (of_char c :: nat) in
     (48 \<le> n \<and> n \<le> 57) \<or> (65 \<le> n \<and> n \<le> 90) \<or> (97 \<le> n \<and> n \<le> 122) \<or> n = 95)"

definition is_word_start :: "char \<Rightarrow> bool" where
  "is_word_start c = (is_word c \<and> \<not> (48 \<le> (of_char c :: nat) \<and> (of_char c :: nat) \<le> 57))"

text \<open>The path of a match, with the closing braces after it.\<close>

definition json_path_at :: "string \<Rightarrow> string option" where
  "json_path_at s =
     (let path = takeWhile (\<lambda>c. is_word c \<or> c = CHR ''.'') s in
      if path \<noteq> [] \<and> is_word_start (hd path) \<and> has_prefix (drop (length path) s) ''}}''
      then Some path else None)"

text \<open>\<open>jsonPlaceholderRe\<close> at the head of a string: the alias (empty for \<open>prev\<close>), the path, and the
  length of the match.\<close>

definition json_placeholder_at :: "string \<Rightarrow> (string \<times> string \<times> nat) option" where
  "json_placeholder_at s =
     (if has_prefix s ''{{prev.output.'' then
        (case json_path_at (drop 14 s) of
           None \<Rightarrow> None | Some path \<Rightarrow> Some ([], path, 14 + length path + 2))
      else if has_prefix s ''{{inputs.'' then
        (let alias = takeWhile is_word (drop 9 s); rest = drop (9 + length alias) s in
         if alias \<noteq> [] \<and> is_word_start (hd alias) \<and> has_prefix rest ''.'' then
           (case json_path_at (drop 1 rest) of
              None \<Rightarrow> None
            | Some path \<Rightarrow> Some (alias, path, 9 + length alias + 1 + length path + 2))
         else None)
      else None)"

definition aliasToFromStep :: "step_input list \<Rightarrow> (string, string) gomap" where
  "aliasToFromStep inputs =
     fold (\<lambda>inp m. if si_As inp \<noteq> [] \<and> si_FromStep inp \<noteq> [] then gm_put (si_As inp) (si_FromStep inp) m
                   else m) inputs []"

text \<open>The replacement of one match; \<open>None\<close> leaves the match as it is.\<close>

definition json_field :: "json_codec \<Rightarrow> step_input list \<Rightarrow> (string, string) gomap \<Rightarrow> string \<Rightarrow>
    string \<Rightarrow> string \<Rightarrow> string option" where
  "json_field codec inputs stepOutputs prevOutput alias path =
     (if alias = [] then lookupJSONPath codec prevOutput path
      else case gm_get (aliasToFromStep inputs) alias of
        None \<Rightarrow> None
      | Some fromStep \<Rightarrow>
          (case gm_get stepOutputs fromStep of
             None \<Rightarrow> None
           | Some out \<Rightarrow> lookupJSONPath codec out path))"

lemma json_placeholder_pos: "json_placeholder_at s = Some (a, p, n) \<Longrightarrow> 0 < n"
  by (auto simp: json_placeholder_at_def Let_def split: if_splits option.splits)

function resolveJSONFieldAccess :: "(string \<Rightarrow> string \<Rightarrow> string option) \<Rightarrow> string \<Rightarrow> string" where
  "resolveJSONFieldAccess field [] = []"
| "resolveJSONFieldAccess field (c # s) =
     (case json_placeholder_at (c # s) of
        None \<Rightarrow> c # resolveJSONFieldAccess field s
      | Some (alias, path, n) \<Rightarrow>
          (case field alias path of Some v \<Rightarrow> v | None \<Rightarrow> take n (c # s)) @
          resolveJSONFieldAccess field (drop n (c # s)))"
  by pat_completeness auto
termination
proof (relation "measure (\<lambda>(field, s). length s)", goal_cases)
  case 1
  then show ?case by simp
next
  case (2 field c s)
  then show ?case by simp
next
  case (3 field c s x al y path n)
  then have "0 < n" using json_placeholder_pos by metis
  then show ?case by simp
qed

section \<open>Runtime variables\<close>

definition resolve_input :: "(string, string) gomap \<Rightarrow> step_input \<Rightarrow> string \<Rightarrow> string" where
  "resolve_input stepOutputs inp result =
     (if si_As inp = [] \<or> si_FromStep inp = [] then result
      else case gm_get stepOutputs (si_FromStep inp) of
        None \<Rightarrow> result
      | Some out \<Rightarrow> replace_all (braces (''inputs.'' @ si_As inp)) out result)"

definition resolveRuntimeVars :: "json_codec \<Rightarrow> string \<Rightarrow> step_input list \<Rightarrow>
    (string, string) gomap \<Rightarrow> string \<Rightarrow> (string, string) gomap \<Rightarrow> string" where
  "resolveRuntimeVars codec prompt inputs stepOutputs prevOutput scratch =
     (let r0 = resolveJSONFieldAccess (json_field codec inputs stepOutputs prevOutput) prompt;
          r1 = fold (resolve_input stepOutputs) inputs r0;
          r2 = replace_all ''{{prev.output}}'' prevOutput r1
      in fold (\<lambda>(k, v). replace_all (braces (''run.scratch.'' @ k)) v) scratch r2)"

text \<open>\<open>unresolvedPlaceholderRe\<close>: two braces, one or more bytes that close nothing, two braces.\<close>

definition placeholder_at :: "string \<Rightarrow> string option" where
  "placeholder_at s =
     (if has_prefix s ''{{'' then
        (let body = takeWhile (\<lambda>c. c \<noteq> CHR ''}'') (drop 2 s) in
         if body \<noteq> [] \<and> has_prefix (drop (2 + length body) s) ''}}'' then Some (braces body) else None)
      else None)"

lemma placeholder_at_pos: "placeholder_at s = Some m \<Longrightarrow> 0 < length m"
  by (auto simp: placeholder_at_def braces_def Let_def split: if_splits)

function unresolved_placeholders :: "string \<Rightarrow> string list" where
  "unresolved_placeholders [] = []"
| "unresolved_placeholders (c # s) =
     (case placeholder_at (c # s) of
        None \<Rightarrow> unresolved_placeholders s
      | Some m \<Rightarrow> m # unresolved_placeholders (drop (length m) (c # s)))"
  by pat_completeness auto
termination
proof (relation "measure length", goal_cases)
  case (3 c s m)
  then show ?case using placeholder_at_pos[of "c # s" m] by simp
qed simp_all

text \<open>What the guard rules out: a nonempty name between double braces, anywhere.\<close>

definition has_placeholder :: "string \<Rightarrow> bool" where
  "has_placeholder s \<longleftrightarrow> (\<exists>a body b. s = a @ braces body @ b \<and> body \<noteq> [] \<and> CHR ''}'' \<notin> set body)"

lemma placeholder_at_braces:
  "body \<noteq> [] \<Longrightarrow> CHR ''}'' \<notin> set body \<Longrightarrow> placeholder_at (braces body @ b) = Some (braces body)"
proof -
  assume b: "body \<noteq> []" "CHR ''}'' \<notin> set body"
  then have "takeWhile (\<lambda>c. c \<noteq> CHR ''}'') (body @ ''}}'' @ b) = body"
    by (subst takeWhile_append2) auto
  then show ?thesis using b by (simp add: placeholder_at_def braces_def has_prefix_iff)
qed

lemma no_unresolved_no_placeholder: "unresolved_placeholders s = [] \<Longrightarrow> \<not> has_placeholder s"
proof (induction s rule: unresolved_placeholders.induct)
  case 1
  then show ?case by (simp add: has_placeholder_def braces_def)
next
  case (2 c s)
  then have none: "placeholder_at (c # s) = None" and "unresolved_placeholders s = []"
    by (auto split: option.splits)
  with 2 have IH: "\<not> has_placeholder s" by simp
  show ?case
  proof
    assume "has_placeholder (c # s)"
    then obtain a body b where
      d: "c # s = a @ braces body @ b" "body \<noteq> []" "CHR ''}'' \<notin> set body"
      by (auto simp: has_placeholder_def)
    show False
    proof (cases a)
      case Nil
      with d placeholder_at_braces[of body b] none show False by simp
    next
      case (Cons x a')
      with d have "s = a' @ braces body @ b" by simp
      with d IH show False by (auto simp: has_placeholder_def)
    qed
  qed
qed

section \<open>Texts without placeholders\<close>

lemma braces_prefix: "braces k = ''{{'' @ k @ ''}}''"
  by (simp add: braces_def)

lemma replace_braces_absent: "\<not> contains_str s ''{{'' \<Longrightarrow> replace_all (braces k) v s = s"
  using contains_str_mono[of s "''{{''" "k @ ''}}''"] by (auto simp: braces_def intro!: replace_all_absent)

lemma fold_id: "(\<And>x. x \<in> set xs \<Longrightarrow> f x s = s) \<Longrightarrow> fold f xs s = s"
  by (induction xs) simp_all

lemma json_placeholder_braces: "json_placeholder_at s = Some r \<Longrightarrow> has_prefix s ''{{''"
  by (auto simp: json_placeholder_at_def has_prefix_iff split: if_splits)

lemma resolveJSON_absent: "\<not> contains_str s ''{{'' \<Longrightarrow> resolveJSONFieldAccess field s = s"
proof (induction s)
  case Nil
  then show ?case by simp
next
  case (Cons c s)
  then have "json_placeholder_at (c # s) = None"
    using json_placeholder_braces[of "c # s"] by (cases "json_placeholder_at (c # s)") auto
  with Cons show ?case by simp
qed

text \<open>A text without double braces passes both stages as it is.\<close>

lemma resolve_plain:
  assumes "\<not> contains_str s ''{{''"
  shows "resolveInlineVars s vars = s"
    and "resolveRuntimeVars codec s inputs outs prev scratch = s"
proof -
  have r: "replace_all (braces k) v s = s" for k v by (rule replace_braces_absent[OF assms])
  have p: "replace_all ''{{prev.output}}'' prev s = s"
    using r[of "''prev.output''" prev] by (simp add: braces_def)
  show "resolveInlineVars s vars = s"
    unfolding resolveInlineVars_def by (rule fold_id) (auto simp: r)
  have "fold (resolve_input outs) inputs s = s"
    by (rule fold_id) (auto simp: resolve_input_def r split: option.splits)
  then show "resolveRuntimeVars codec s inputs outs prev scratch = s"
    unfolding resolveRuntimeVars_def Let_def resolveJSON_absent[OF assms]
    using p by (simp add: fold_id r split_beta)
qed

section \<open>The output of an agent\<close>

text \<open>The bytes of the runes of a string; an invalid byte becomes the replacement character.\<close>

definition utf8_cont :: "nat \<Rightarrow> nat \<Rightarrow> string \<Rightarrow> nat \<Rightarrow> bool" where
  "utf8_cont lo hi s i = (i < length s \<and> lo \<le> (of_char (s ! i) :: nat) \<and> (of_char (s ! i) :: nat) \<le> hi)"

definition rune_width :: "string \<Rightarrow> nat option" where
  "rune_width s =
     (case s of [] \<Rightarrow> None
      | c # _ \<Rightarrow>
        (let n = (of_char c :: nat) in
         if n < 128 then Some 1
         else if 194 \<le> n \<and> n \<le> 223 then (if utf8_cont 128 191 s 1 then Some 2 else None)
         else if 224 \<le> n \<and> n \<le> 239 then
           (if utf8_cont (if n = 224 then 160 else 128) (if n = 237 then 159 else 191) s 1 \<and>
               utf8_cont 128 191 s 2 then Some 3 else None)
         else if 240 \<le> n \<and> n \<le> 244 then
           (if utf8_cont (if n = 240 then 144 else 128) (if n = 244 then 143 else 191) s 1 \<and>
               utf8_cont 128 191 s 2 \<and> utf8_cont 128 191 s 3 then Some 4 else None)
         else None))"

definition replacement_rune :: string where
  "replacement_rune = [char_of (239::nat), char_of (191::nat), char_of (189::nat)]"

lemma rune_width_pos: "rune_width s = Some n \<Longrightarrow> 0 < n"
  by (auto simp: rune_width_def Let_def split: list.splits if_splits)

function runes :: "string \<Rightarrow> string list" where
  "runes [] = []"
| "runes (c # s) =
     (case rune_width (c # s) of
        None \<Rightarrow> replacement_rune # runes s
      | Some n \<Rightarrow> take n (c # s) # runes (drop n (c # s)))"
  by pat_completeness auto
termination
proof (relation "measure length", goal_cases)
  case (3 c s n)
  then show ?case using rune_width_pos[of "c # s" n] by simp
qed simp_all

definition ellipsis :: string where
  "ellipsis = [char_of (226::nat), char_of (128::nat), char_of (166::nat)]"

definition truncate_runes :: "nat \<Rightarrow> string \<Rightarrow> string" where
  "truncate_runes mx s =
     (if length (runes s) \<le> mx then s else concat (take (mx - 1) (runes s)) @ ellipsis)"

fun parse_lines :: "json_codec \<Rightarrow> string \<Rightarrow> string list \<Rightarrow> string \<times> string" where
  "parse_lines codec output [] = (''(no output)'', output)"
| "parse_lines codec output (l # ls) =
     (let line = trim_space l; detail = trim_space (join_with [CHR 10] ls) in
      if line = [] then parse_lines codec output ls
      else if has_prefix line ''{'' then
        (case jc_summary codec line of
           Some summary \<Rightarrow>
             if summary \<noteq> [] then (truncate_runes 120 summary, detail)
             else (truncate_runes 120 line, detail)
         | None \<Rightarrow> (truncate_runes 120 line, detail))
      else (truncate_runes 120 line, detail))"

definition parseOutput :: "json_codec \<Rightarrow> string \<Rightarrow> string \<times> string" where
  "parseOutput codec output = parse_lines codec output (split_on (CHR 10) output)"

datatype severity = SeverityInfo | SeverityWarning | SeverityUrgent

definition parseSeverity :: "string \<Rightarrow> severity" where
  "parseSeverity s =
     (if to_lower s = ''warning'' then SeverityWarning
      else if to_lower s = ''urgent'' then SeverityUrgent
      else SeverityInfo)"

end
