(* ===== verification/WorkflowDelivery.thy ===== *)
theory WorkflowDelivery
  imports WorkflowTemplate "HOL-Library.List_Lexorder" "HOL-Library.Char_ord"
begin

text \<open>
  Delivery of notifications (\<^verbatim>\<open>internal/scheduler/delivery.go\<close> and \<open>dispatchNotification\<close> in
  \<^verbatim>\<open>workflow_runner.go\<close>): the retry loop with its backoff, the guard of webhook targets against
  private addresses, the webhook and mail deliverers, and the dispatch of a notification to its
  targets. DNS, HTTP, SMTP and URL parsing are arguments.
\<close>

section \<open>Notifications\<close>

datatype notification_status = NotifPending | NotifSeen | NotifDismissed | NotifApproved
  | NotifExecuted | NotifFailed

record delivery_record =
  dr_Type :: string
  dr_Target :: string
  dr_Status :: string
  dr_Error :: string
  dr_SentAt :: gotime

record notification =
  nt_ID :: string
  nt_RunID :: string
  nt_WorkflowID :: string
  nt_WorkflowRunID :: string
  nt_StepPosition :: "int option"
  nt_StepName :: string
  nt_Summary :: string
  nt_Detail :: string
  nt_Severity :: severity
  nt_Status :: notification_status
  nt_Deliveries :: "delivery_record list"
  nt_CreatedAt :: gotime
  nt_UpdatedAt :: gotime

section \<open>The retry loop\<close>

datatype attempt_result = AttemptOk | AttemptTransient string | AttemptPermanent string

text \<open>
  \<open>jitter\<close> moves a delay by at most a quarter; \<open>r\<close> is the random number, below twice the
  quarter plus one.
\<close>

definition jitter :: "int \<Rightarrow> duration \<Rightarrow> duration" where
  "jitter r d = d + (r - d div 4)"

lemma jitter_range:
  "0 \<le> r \<Longrightarrow> r \<le> 2 * (d div 4) \<Longrightarrow> d - d div 4 \<le> jitter r d \<and> jitter r d \<le> d + d div 4"
  by (simp add: jitter_def)

text \<open>
  What the loop meets: the result of each attempt, the random number of each pause, and whether
  the context ends during the pause (with its error).
\<close>

record retry_env =
  rv_attempt :: "nat \<Rightarrow> attempt_result"
  rv_random :: "nat \<Rightarrow> int"
  rv_ctxDone :: "nat \<Rightarrow> string option"

text \<open>The error of the delivery, the number of attempts made, and the pauses.\<close>

fun deliver_loop :: "retry_env \<Rightarrow> nat \<Rightarrow> duration list \<Rightarrow> string option \<times> nat \<times> duration list" where
  "deliver_loop env attempt [] =
     (case rv_attempt env attempt of
        AttemptOk \<Rightarrow> (None, 1, [])
      | AttemptTransient err \<Rightarrow> (Some err, 1, [])
      | AttemptPermanent err \<Rightarrow> (Some err, 1, []))"
| "deliver_loop env attempt (b # backoff) =
     (case rv_attempt env attempt of
        AttemptOk \<Rightarrow> (None, 1, [])
      | AttemptPermanent err \<Rightarrow> (Some err, 1, [])
      | AttemptTransient err \<Rightarrow>
          (let delay = jitter (rv_random env attempt) b in
           case rv_ctxDone env attempt of
             Some cerr \<Rightarrow> (Some cerr, 1, [delay])
           | None \<Rightarrow>
               (case deliver_loop env (Suc attempt) backoff of
                  (r, n, ds) \<Rightarrow> (r, Suc n, delay # ds))))"

definition deliverWithRetry :: "retry_env \<Rightarrow> duration list \<Rightarrow> string option \<times> nat \<times> duration list" where
  "deliverWithRetry env backoff = deliver_loop env 0 backoff"

definition webhookBackoff :: "duration list" where
  "webhookBackoff = [2 * second, 5 * second, 15 * second]"

definition emailBackoff :: "duration list" where
  "emailBackoff = [2 * second, 8 * second, 30 * second]"

lemma deliver_loop_attempts:
  "deliver_loop env attempt backoff = (r, n, ds) \<Longrightarrow> 1 \<le> n \<and> n \<le> length backoff + 1 \<and> length ds \<le> n"
  by (induction env attempt backoff arbitrary: r n ds rule: deliver_loop.induct)
     (auto simp: Let_def split: attempt_result.splits option.splits prod.splits)

text \<open>It reports success exactly when the last attempt it made succeeded.\<close>

lemma deliver_loop_ok:
  "deliver_loop env attempt backoff = (None, n, ds) \<Longrightarrow> rv_attempt env (attempt + n - 1) = AttemptOk"
proof (induction env attempt backoff arbitrary: n ds rule: deliver_loop.induct)
  case (1 env attempt)
  then show ?case by (auto split: attempt_result.splits)
next
  case (2 env attempt b backoff)
  show ?case
  proof (cases "n = 1")
    case True
    with 2 show ?thesis
      by (auto simp: Let_def dest!: deliver_loop_attempts
          split: attempt_result.splits option.splits prod.splits)
  next
    case False
    with 2 obtain m ds' err where m: "n = Suc m" "deliver_loop env (Suc attempt) backoff = (None, m, ds')"
      "rv_attempt env attempt = AttemptTransient err" "rv_ctxDone env attempt = None"
      by (auto simp: Let_def split: attempt_result.splits option.splits prod.splits)
    with "2.IH"[OF m(3) refl m(4) m(2)] show ?thesis by simp
  qed
qed

section \<open>Webhook targets\<close>

text \<open>An address as \<^verbatim>\<open>net.ParseIP\<close> gives it; an IPv4-mapped IPv6 address counts as IPv4.\<close>

datatype ip = IP4 "32 word" | IP6 "128 word"

definition in_net4 :: "32 word \<Rightarrow> nat \<Rightarrow> 32 word \<Rightarrow> bool" where
  "in_net4 base len a = (drop_bit (32 - len) a = drop_bit (32 - len) base)"

definition in_net6 :: "128 word \<Rightarrow> nat \<Rightarrow> 128 word \<Rightarrow> bool" where
  "in_net6 base len a = (drop_bit (128 - len) a = drop_bit (128 - len) base)"

text \<open>\<open>privateRanges\<close>, each block with the length of its prefix.\<close>

definition privateRanges4 :: "(32 word \<times> nat) list" where
  "privateRanges4 = [(0x0A000000, 8), (0xAC100000, 12), (0xC0A80000, 16), (0x64400000, 10), (0xA9FE0000, 16)]"

definition privateRanges6 :: "(128 word \<times> nat) list" where
  "privateRanges6 = [(1, 128), (0xFC000000000000000000000000000000, 7), (0xFE800000000000000000000000000000, 10)]"

fun isPrivateIP :: "ip \<Rightarrow> bool" where
  "isPrivateIP (IP4 a) = list_ex (\<lambda>(base, len). in_net4 base len a) privateRanges4"
| "isPrivateIP (IP6 a) = list_ex (\<lambda>(base, len). in_net6 base len a) privateRanges6"

text \<open>The predicates of \<^verbatim>\<open>net.IP\<close> the guard calls.\<close>

fun IsLoopback :: "ip \<Rightarrow> bool" where
  "IsLoopback (IP4 a) = in_net4 0x7F000000 8 a"
| "IsLoopback (IP6 a) = (a = 1)"

fun IsLinkLocalUnicast :: "ip \<Rightarrow> bool" where
  "IsLinkLocalUnicast (IP4 a) = in_net4 0xA9FE0000 16 a"
| "IsLinkLocalUnicast (IP6 a) = in_net6 0xFE800000000000000000000000000000 10 a"

fun IsLinkLocalMulticast :: "ip \<Rightarrow> bool" where
  "IsLinkLocalMulticast (IP4 a) = in_net4 0xE0000000 24 a"
| "IsLinkLocalMulticast (IP6 a) =
     (drop_bit 120 a = 0xFF \<and> take_bit 4 (drop_bit 112 a) = (2 :: 128 word))"

fun IsUnspecified :: "ip \<Rightarrow> bool" where
  "IsUnspecified (IP4 a) = (a = 0)"
| "IsUnspecified (IP6 a) = (a = 0)"

definition ip_refused :: "ip \<Rightarrow> bool" where
  "ip_refused a \<longleftrightarrow> IsLoopback a \<or> IsLinkLocalUnicast a \<or> IsLinkLocalMulticast a \<or>
     IsUnspecified a \<or> isPrivateIP a"

record parsed_url =
  url_Scheme :: string
  url_Host :: string
  url_Hostname :: string

record net_env =
  ne_parseURL :: "string \<Rightarrow> parsed_url option"
  ne_lookup :: "string \<Rightarrow> string list option"
  ne_parseIP :: "string \<Rightarrow> ip option"

datatype url_error = UrlInvalid | UrlScheme string | UrlDNS string | UrlPrivate string

definition url_error_permanent :: "url_error \<Rightarrow> bool" where
  "url_error_permanent e = (case e of UrlScheme _ \<Rightarrow> True | UrlPrivate _ \<Rightarrow> True | _ \<Rightarrow> False)"

definition refused_addr :: "net_env \<Rightarrow> string \<Rightarrow> bool" where
  "refused_addr env addr = (case ne_parseIP env addr of None \<Rightarrow> False | Some a \<Rightarrow> ip_refused a)"

definition safeWebhookURL :: "net_env \<Rightarrow> string \<Rightarrow> url_error option" where
  "safeWebhookURL env rawURL =
     (case ne_parseURL env rawURL of
        None \<Rightarrow> Some UrlInvalid
      | Some u \<Rightarrow>
          if url_Scheme u \<noteq> ''http'' \<and> url_Scheme u \<noteq> ''https'' then Some (UrlScheme (url_Scheme u))
          else case ne_lookup env (url_Hostname u) of
            None \<Rightarrow> Some (UrlDNS (url_Hostname u))
          | Some addrs \<Rightarrow>
              (case find (refused_addr env) addrs of
                 Some addr \<Rightarrow> Some (UrlPrivate addr)
               | None \<Rightarrow> None))"

definition ValidateWebhookURLSyntax :: "net_env \<Rightarrow> string \<Rightarrow> url_error option" where
  "ValidateWebhookURLSyntax env rawURL =
     (case ne_parseURL env rawURL of
        None \<Rightarrow> Some UrlInvalid
      | Some u \<Rightarrow>
          if url_Scheme u \<noteq> ''http'' \<and> url_Scheme u \<noteq> ''https'' then Some (UrlScheme (url_Scheme u))
          else case ne_parseIP env (url_Hostname u) of
            None \<Rightarrow> None
          | Some a \<Rightarrow> if ip_refused a then Some (UrlPrivate (url_Hostname u)) else None)"

text \<open>
  One POST: the transport fails, or the server answers with a status. The texts of the errors
  are arguments, since they hold renderings of numbers and of errors of the library.
\<close>

datatype http_reply = HttpBadRequest string | HttpTransport string | HttpStatus int

definition webhook_attempt :: "http_reply \<Rightarrow> attempt_result" where
  "webhook_attempt r =
     (case r of
        HttpBadRequest err \<Rightarrow> AttemptPermanent err
      | HttpTransport err \<Rightarrow> AttemptTransient err
      | HttpStatus code \<Rightarrow>
          if code \<ge> 500 then AttemptTransient (''webhook: server error '' @ show_int code)
          else if code \<ge> 400 then AttemptPermanent (''webhook: client error '' @ show_int code)
          else AttemptOk)"

text \<open>The record of the delivery and the number of requests sent.\<close>

definition webhook_Deliver :: "net_env \<Rightarrow> (url_error \<Rightarrow> string) \<Rightarrow> (nat \<Rightarrow> http_reply) \<Rightarrow> (nat \<Rightarrow> int) \<Rightarrow>
    (nat \<Rightarrow> string option) \<Rightarrow> gotime \<Rightarrow> notification_delivery \<Rightarrow> delivery_record \<times> nat" where
  "webhook_Deliver env msg http rand ctxDone now target =
     (let rec = \<lparr>dr_Type = ''webhook'', dr_Target = nd_To target, dr_Status = [], dr_Error = [],
                 dr_SentAt = now\<rparr> in
      if nd_To target = [] then
        (rec\<lparr>dr_Status := ''failed'', dr_Error := ''webhook: missing '' @ [CHR 39] @ ''to'' @ [CHR 39] @ '' URL''\<rparr>, 0)
      else case safeWebhookURL env (nd_To target) of
        Some e \<Rightarrow> (rec\<lparr>dr_Status := ''failed'', dr_Error := msg e\<rparr>, 0)
      | None \<Rightarrow>
          (case deliverWithRetry \<lparr>rv_attempt = (\<lambda>k. webhook_attempt (http k)), rv_random = rand,
                                  rv_ctxDone = ctxDone\<rparr> webhookBackoff of
             (Some err, n, _) \<Rightarrow> (rec\<lparr>dr_Status := ''failed'', dr_Error := err\<rparr>, n)
           | (None, n, _) \<Rightarrow> (rec\<lparr>dr_Status := ''sent''\<rparr>, n)))"

section \<open>Mail\<close>

record smtp_creds =
  sc_Host :: string
  sc_Port :: string
  sc_Username :: string
  sc_Password :: string
  sc_From :: string

datatype creds_error = ErrResolveConnection string string | ErrNoConnection

definition kv :: "(string, string) gomap \<Rightarrow> string \<Rightarrow> string" where
  "kv m k = (case gm_get m k of None \<Rightarrow> [] | Some v \<Rightarrow> v)"

definition or_default :: "string \<Rightarrow> string \<Rightarrow> string" where
  "or_default s d = (if s = [] then d else s)"

definition inline_creds :: "notification_delivery \<Rightarrow> creds_error + smtp_creds" where
  "inline_creds target =
     (if nd_SMTPHost target = [] then Inl ErrNoConnection
      else Inr \<lparr>sc_Host = nd_SMTPHost target, sc_Port = or_default (nd_SMTPPort target) ''587'',
                sc_Username = nd_SMTPUser target, sc_Password = nd_SMTPPass target,
                sc_From = or_default (nd_SMTPFrom target) (nd_SMTPUser target)\<rparr>)"

definition resolveCreds :: "(string \<Rightarrow> string + (string, string) gomap) option \<Rightarrow>
    notification_delivery \<Rightarrow> creds_error + smtp_creds" where
  "resolveCreds resolver target =
     (case resolver of
        Some f \<Rightarrow>
          if nd_Connection target \<noteq> [] then
            (case f (nd_Connection target) of
               Inl err \<Rightarrow> Inl (ErrResolveConnection (nd_Connection target) err)
             | Inr kvs \<Rightarrow> Inr \<lparr>sc_Host = kv kvs ''host'', sc_Port = or_default (kv kvs ''port'') ''587'',
                  sc_Username = kv kvs ''username'', sc_Password = kv kvs ''password'',
                  sc_From = or_default (kv kvs ''from'') (kv kvs ''username'')\<rparr>)
          else inline_creds target
      | None \<Rightarrow> inline_creds target)"

definition email_Deliver :: "(string \<Rightarrow> string + (string, string) gomap) option \<Rightarrow>
    (creds_error \<Rightarrow> string) \<Rightarrow> (smtp_creds \<Rightarrow> nat \<Rightarrow> attempt_result) \<Rightarrow> (nat \<Rightarrow> int) \<Rightarrow>
    (nat \<Rightarrow> string option) \<Rightarrow> gotime \<Rightarrow> notification_delivery \<Rightarrow> delivery_record \<times> nat" where
  "email_Deliver resolver msg smtp rand ctxDone now target =
     (let rec = \<lparr>dr_Type = ''email'', dr_Target = nd_To target, dr_Status = [], dr_Error = [],
                 dr_SentAt = now\<rparr> in
      if nd_To target = [] then
        (rec\<lparr>dr_Status := ''failed'', dr_Error := ''email: missing '' @ [CHR 39] @ ''to'' @ [CHR 39] @ '' address''\<rparr>, 0)
      else case resolveCreds resolver target of
        Inl e \<Rightarrow> (rec\<lparr>dr_Status := ''failed'', dr_Error := ''email: credentials: '' @ msg e\<rparr>, 0)
      | Inr creds \<Rightarrow>
          (case deliverWithRetry \<lparr>rv_attempt = smtp creds, rv_random = rand, rv_ctxDone = ctxDone\<rparr>
                  emailBackoff of
             (Some err, n, _) \<Rightarrow> (rec\<lparr>dr_Status := ''failed'', dr_Error := err\<rparr>, n)
           | (None, n, _) \<Rightarrow> (rec\<lparr>dr_Status := ''sent''\<rparr>, n)))"

section \<open>Dispatch\<close>

text \<open>\<open>redactTarget\<close> keeps scheme and host of a URL and the domain of an address.\<close>

fun after_last_at :: "string \<Rightarrow> string option" where
  "after_last_at [] = None"
| "after_last_at (c # s) =
     (case after_last_at s of Some r \<Rightarrow> Some r | None \<Rightarrow> if c = CHR ''@'' then Some s else None)"

definition redactTarget :: "net_env \<Rightarrow> string \<Rightarrow> string \<Rightarrow> string" where
  "redactTarget env raw deliveryType =
     (if deliveryType = ''webhook'' then
        (case ne_parseURL env raw of
           None \<Rightarrow> ''(redacted)''
         | Some u \<Rightarrow> url_Scheme u @ ''://'' @ url_Host u)
      else if deliveryType = ''email'' then
        (case after_last_at raw of None \<Rightarrow> ''(redacted)'' | Some domain \<Rightarrow> ''*@'' @ domain)
      else ''(redacted)'')"

record gate_request =
  gr_WorkflowID :: string
  gr_Schedule :: string
  gr_AgentName :: string
  gr_User :: string
  gr_Summary :: string
  gr_Detail :: string
  gr_CreatedAt :: gotime

text \<open>What a dispatch does besides building its records, in order.\<close>

datatype delivery_effect =
    SpacePost string string string
  | AgentDM string string string string
  | DeliverCall string notification_delivery
  | FailureCallback string string string string string
  | QueueEnqueue string string string notification notification_delivery
  | DeadLetter string string string nat string

text \<open>
  The bindings of the dispatch. A binding that is not configured is \<open>None\<close> or \<open>False\<close>; the
  number is the index of the target, so that a binding may answer differently each time.
\<close>

record dispatch_env =
  de_now :: "nat \<Rightarrow> gotime"
  de_space :: "(nat \<Rightarrow> string option) option"
  de_agentDM :: "(nat \<Rightarrow> string option) option"
  de_gate :: "(nat \<Rightarrow> gate_request \<Rightarrow> bool \<times> string) option"
  de_deliverers :: "(string \<Rightarrow> (nat \<Rightarrow> notification_delivery \<Rightarrow> delivery_record) option) option"
  de_onFailure :: bool
  de_queue :: bool
  de_huginnDir :: string
  de_net :: net_env

definition arrow :: string where
  "arrow = [char_of (226::nat), char_of (134::nat), char_of (146::nat)]"

definition outcome_record :: "string \<Rightarrow> string \<Rightarrow> gotime \<Rightarrow> string option \<Rightarrow> delivery_record" where
  "outcome_record ty tgt now err =
     \<lparr>dr_Type = ty, dr_Target = tgt, dr_Status = (if err = None then ''sent'' else ''failed''),
      dr_Error = (case err of None \<Rightarrow> [] | Some e \<Rightarrow> e), dr_SentAt = now\<rparr>"

definition dispatch_space :: "dispatch_env \<Rightarrow> notification \<Rightarrow> nat \<Rightarrow> notification_delivery \<Rightarrow>
    delivery_record list \<times> delivery_effect list" where
  "dispatch_space env n i t =
     (case de_space env of
        None \<Rightarrow> ([], [])
      | Some f \<Rightarrow>
          if nd_SpaceID t = [] then ([], [])
          else ([outcome_record ''space'' (nd_SpaceID t) (de_now env i) (f i)],
                [SpacePost (nd_SpaceID t) (nt_Summary n) (nt_Detail n)]))"

definition dispatch_dm :: "dispatch_env \<Rightarrow> notification \<Rightarrow> string \<Rightarrow> string \<Rightarrow> nat \<Rightarrow>
    notification_delivery \<Rightarrow> delivery_record list \<times> delivery_effect list" where
  "dispatch_dm env n author schedule i t =
     (case de_agentDM env of
        None \<Rightarrow> ([], [])
      | Some f \<Rightarrow>
          if author = [] then ([], [])
          else
            let target = author @ arrow @ nd_User t;
                send = ([outcome_record ''agent_dm'' target (de_now env i) (f i)],
                        [AgentDM author (nd_User t) (nt_Summary n) (nt_Detail n)])
            in (case de_gate env of
                  None \<Rightarrow> send
                | Some g \<Rightarrow>
                    (case g i \<lparr>gr_WorkflowID = nt_WorkflowID n, gr_Schedule = schedule,
                               gr_AgentName = author, gr_User = nd_User t,
                               gr_Summary = nt_Summary n, gr_Detail = nt_Detail n,
                               gr_CreatedAt = nt_CreatedAt n\<rparr> of
                       (allow, reason) \<Rightarrow>
                         if allow then send
                         else ([\<lparr>dr_Type = ''agent_dm'', dr_Target = target, dr_Status = ''skipped'',
                                 dr_Error = reason, dr_SentAt = de_now env i\<rparr>], []))))"

definition dispatch_external :: "dispatch_env \<Rightarrow> notification \<Rightarrow> string \<Rightarrow> nat \<Rightarrow>
    notification_delivery \<Rightarrow> delivery_record list \<times> delivery_effect list" where
  "dispatch_external env n schedule i t =
     (case de_deliverers env of
        None \<Rightarrow> ([], [])
      | Some get \<Rightarrow>
          (case get (nd_Type t) of
             None \<Rightarrow> ([], [])
           | Some deliver \<Rightarrow>
               let rec = deliver i t in
               ([rec],
                [DeliverCall (nd_Type t) t] @
                (if dr_Status rec = ''failed'' \<and> de_onFailure env
                 then [FailureCallback (nt_WorkflowID n) (nt_RunID n) (nd_Type t)
                         (redactTarget (de_net env) (nd_To t) (nd_Type t)) (dr_Error rec)]
                 else []) @
                (if dr_Status rec = ''sent'' then []
                 else if de_queue env
                 then [QueueEnqueue (nt_WorkflowID n) (nt_RunID n) schedule n t]
                 else if de_huginnDir env \<noteq> []
                 then [DeadLetter (nt_WorkflowID n) (nt_RunID n) (nd_To t) 3 (dr_Error rec)]
                 else []))))"

definition dispatch_target :: "dispatch_env \<Rightarrow> notification \<Rightarrow> string \<Rightarrow> string \<Rightarrow> nat \<Rightarrow>
    notification_delivery \<Rightarrow> delivery_record list \<times> delivery_effect list" where
  "dispatch_target env n stepAgent schedule i t =
     (let author = or_default (nd_From t) stepAgent in
      if nd_Type t = ''space'' then dispatch_space env n i t
      else if nd_Type t = ''agent_dm'' then dispatch_dm env n author schedule i t
      else if nd_Type t = ''inbox'' then ([], [])
      else if nd_Type t = ''webhook'' \<or> nd_Type t = ''email'' then dispatch_external env n schedule i t
      else ([], []))"

fun dispatch_targets :: "dispatch_env \<Rightarrow> notification \<Rightarrow> string \<Rightarrow> string \<Rightarrow> nat \<Rightarrow>
    notification_delivery list \<Rightarrow> delivery_record list \<times> delivery_effect list" where
  "dispatch_targets env n stepAgent schedule i [] = ([], [])"
| "dispatch_targets env n stepAgent schedule i (t # ts) =
     (case dispatch_target env n stepAgent schedule i t of
        (rs, es) \<Rightarrow> (case dispatch_targets env n stepAgent schedule (Suc i) ts of
          (rs', es') \<Rightarrow> (rs @ rs', es @ es')))"

definition dispatchNotification :: "dispatch_env \<Rightarrow> gotime \<Rightarrow> notification \<Rightarrow>
    notification_delivery list \<Rightarrow> string \<Rightarrow> string \<Rightarrow> delivery_record list \<times> delivery_effect list" where
  "dispatchNotification env now n targets stepAgent schedule =
     (case dispatch_targets env n stepAgent schedule 0 targets of
        (rs, es) \<Rightarrow> (\<lparr>dr_Type = ''inbox'', dr_Target = ''inbox'', dr_Status = ''sent'', dr_Error = [],
                        dr_SentAt = now\<rparr> # rs, es))"

end
