(* ===== verification/WorkflowGraph.thy ===== *)
theory WorkflowGraph
  imports WorkflowTypes
begin

text \<open>
  \<^verbatim>\<open>internal/scheduler/workflow_graph_validation.go\<close>: the depth-first search that rejects a
  workflow whose \<^verbatim>\<open>sub_workflow\<close> references form a cycle. The search marks each identifier as
  on the stack or done; identifiers without a mark are unvisited. Its contract is stated over
  the reference graph through the \<open>digraph\<close> interface.
\<close>

section \<open>The search\<close>

datatype visit = InStack | Done

definition sub_refs :: "workflow \<Rightarrow> string list" where
  "sub_refs w = map ws_SubWorkflow (wf_Steps w)"

text \<open>
  The loop of \<open>dfs\<close> over the steps of the workflow \<open>i\<close>, with the recursive call on an unvisited
  reference written in place: mark it on the stack, search its own steps, mark it done. The
  result is the edge that closes a cycle, and the marks.
\<close>

function (domintros) dfs_refs :: "(string, workflow) gomap \<Rightarrow> string \<Rightarrow> string list \<Rightarrow>
    (string, visit) gomap \<Rightarrow> (string \<times> string) option \<times> (string, visit) gomap" where
  "dfs_refs registry i [] st = (None, st)"
| "dfs_refs registry i (ref # refs) st =
     (if ref = [] then dfs_refs registry i refs st
      else case gm_get st ref of
        Some InStack \<Rightarrow> (Some (i, ref), st)
      | Some Done \<Rightarrow> dfs_refs registry i refs st
      | None \<Rightarrow>
          (case gm_get registry ref of
             None \<Rightarrow> dfs_refs registry i refs (gm_put ref Done (gm_put ref InStack st))
           | Some w \<Rightarrow>
               (case dfs_refs registry ref (sub_refs w) (gm_put ref InStack st) of
                  (Some e, st') \<Rightarrow> (Some e, st')
                | (None, st') \<Rightarrow> dfs_refs registry i refs (gm_put ref Done st'))))"
  by pat_completeness auto

definition unvisited :: "(string, workflow) gomap \<Rightarrow> (string, visit) gomap \<Rightarrow> nat" where
  "unvisited registry st = card (dom (gm_get registry) - dom (gm_get st))"

lemma unvisited_put_le: "unvisited registry (gm_put k v st) \<le> unvisited registry st"
  unfolding unvisited_def by (rule card_mono) (auto simp: finite_dom_map_of split: if_splits)

lemma unvisited_put_less:
  "gm_get registry k = Some w \<Longrightarrow> gm_get st k = None \<Longrightarrow>
     unvisited registry (gm_put k v st) < unvisited registry st"
proof -
  assume a: "gm_get registry k = Some w" "gm_get st k = None"
  then have "k \<in> dom (gm_get registry) - dom (gm_get st)"
    and "dom (gm_get registry) - dom (gm_get (gm_put k v st)) =
      (dom (gm_get registry) - dom (gm_get st)) - {k}" by (auto split: if_splits)
  then show ?thesis
    unfolding unvisited_def by (simp only: card_Diff1_less finite_Diff finite_dom_map_of)
qed

lemma dfs_refs_unvisited:
  "dfs_refs_dom (registry, i, refs, st) \<Longrightarrow>
     unvisited registry (snd (dfs_refs registry i refs st)) \<le> unvisited registry st"
proof (induction registry i refs st rule: dfs_refs.pinduct)
  case (1 registry i st)
  then show ?case by (simp add: dfs_refs.psimps)
next
  case (2 registry i ref refs st)
  note le = unvisited_put_le[of registry ref]
  show ?case
  proof (cases "ref = [] \<or> gm_get st ref \<noteq> None")
    case True
    then show ?thesis using "2.IH"(1,5) "2.hyps"
      by (auto simp: dfs_refs.psimps split: option.splits visit.splits)
  next
    case unseen: False
    show ?thesis
    proof (cases "gm_get registry ref")
      case None
      with unseen have "unvisited registry (snd (dfs_refs registry i refs
          (gm_put ref Done (gm_put ref InStack st)))) \<le> unvisited registry st"
        using "2.IH"(2) order_trans[OF unvisited_put_le unvisited_put_le] by (meson order_trans)
      with unseen None "2.hyps" show ?thesis by (simp add: dfs_refs.psimps)
    next
      case (Some w)
      with unseen have r1: "unvisited registry (snd (dfs_refs registry ref (sub_refs w)
          (gm_put ref InStack st))) \<le> unvisited registry st"
        using "2.IH"(3) le[of InStack st] by fastforce
      show ?thesis
      proof (cases "dfs_refs registry ref (sub_refs w) (gm_put ref InStack st)")
        case (Pair r st')
        with r1 le[of Done st'] unseen Some "2.hyps" "2.IH"(4)[OF _ _ _ Pair[symmetric]]
        show ?thesis by (cases r) (simp_all add: dfs_refs.psimps)
      qed
    qed
  qed
qed

termination dfs_refs
proof (relation "inv_image (less_than <*lex*> less_than)
    (\<lambda>(registry, i, refs, st). (unvisited registry st, length refs))", goal_cases)
  case 1
  then show ?case by auto
next
  case (2 registry i ref refs st)
  then show ?case by auto
next
  case (3 registry i ref refs st)
  have "unvisited registry (gm_put ref Done (gm_put ref InStack st)) \<le> unvisited registry st"
    by (rule order_trans[OF unvisited_put_le unvisited_put_le])
  then show ?case by auto
next
  case (4 registry i ref refs st w)
  then show ?case using unvisited_put_less[of registry ref w st InStack] by auto
next
  case (5 registry i ref refs st w r st')
  then have "unvisited registry st' \<le> unvisited registry (gm_put ref InStack st)"
    using dfs_refs_unvisited[of registry ref "sub_refs w" "gm_put ref InStack st"] by (metis snd_conv)
  with 5 have "unvisited registry (gm_put ref Done st') < unvisited registry st"
    using unvisited_put_less[of registry ref w st InStack] unvisited_put_le[of registry ref Done st']
    by linarith
  then show ?case by simp
next
  case (6 registry i ref refs st)
  then show ?case by auto
qed

definition workflow_registry :: "workflow \<Rightarrow> workflow list \<Rightarrow> (string, workflow) gomap" where
  "workflow_registry cand allw = gm_put (wf_ID cand) cand (fold (\<lambda>w. gm_put (wf_ID w) w) allw [])"

text \<open>The result is \<open>None\<close>, or the closing edge the error message names.\<close>

definition ValidateSubWorkflowCycles :: "workflow \<Rightarrow> workflow list \<Rightarrow> (string \<times> string) option" where
  "ValidateSubWorkflowCycles cand allw =
     fst (dfs_refs (workflow_registry cand allw) (wf_ID cand) (sub_refs cand) [(wf_ID cand, InStack)])"

section \<open>The reference graph\<close>

definition ref_succs :: "(string, workflow) gomap \<Rightarrow> string \<Rightarrow> string list" where
  "ref_succs registry i =
     (case gm_get registry i of None \<Rightarrow> [] | Some w \<Rightarrow> filter (\<lambda>r. r \<noteq> []) (sub_refs w))"

lemma ref_succs_Some:
  "gm_get registry i = Some w \<Longrightarrow> set (ref_succs registry i) = {r \<in> set (sub_refs w). r \<noteq> []}"
  by (auto simp: ref_succs_def)

lemma ref_succs_keys: "y \<in> set (ref_succs registry x) \<Longrightarrow> x \<in> set (gm_keys registry)"
  by (cases "gm_get registry x")
     (simp_all add: ref_succs_def, metis gm_get_None_iff option.distinct(1))

interpretation refs: digraph "gm_keys registry" "ref_succs registry"
  by unfold_locales (rule ref_succs_keys)

text \<open>Done identifiers: closed under references and on no reachable cycle.\<close>

definition done_ok :: "(string, workflow) gomap \<Rightarrow> (string, visit) gomap \<Rightarrow> bool" where
  "done_ok registry st \<longleftrightarrow> (\<forall>u. gm_get st u = Some Done \<longrightarrow>
     (\<forall>v \<in> set (ref_succs registry u). gm_get st v = Some Done) \<and>
     \<not> reaches_cycle (edge_rel (ref_succs registry)) u)"

lemma done_ok_put:
  assumes "done_ok registry st" and "\<forall>v \<in> set (ref_succs registry k). gm_get st v = Some Done"
  shows "done_ok registry (gm_put k Done st)"
proof -
  have "\<not> reaches_cycle (edge_rel (ref_succs registry)) k"
    by (rule refs.closed_insert_no_reaches_cycle[of "{u. gm_get st u = Some Done}"])
       (use assms in \<open>auto simp: done_ok_def\<close>)
  with assms show ?thesis by (auto simp: done_ok_def)
qed

lemma done_ok_put_InStack:
  "done_ok registry st \<Longrightarrow> gm_get st k = None \<Longrightarrow> done_ok registry (gm_put k InStack st)"
  by (auto simp: done_ok_def)

text \<open>A search without a closing edge leaves the stack as it was and every reference done.\<close>

definition same_stack :: "(string, visit) gomap \<Rightarrow> (string, visit) gomap \<Rightarrow> bool" where
  "same_stack st st' \<longleftrightarrow> (\<forall>u. gm_get st' u = Some InStack \<longleftrightarrow> gm_get st u = Some InStack) \<and>
     (\<forall>u. gm_get st u = Some Done \<longrightarrow> gm_get st' u = Some Done)"

lemma same_stack_refl [simp]: "same_stack st st"
  by (simp add: same_stack_def)

lemma same_stack_trans: "same_stack a b \<Longrightarrow> same_stack b c \<Longrightarrow> same_stack a c"
  by (simp add: same_stack_def)

lemma same_stack_Done: "same_stack a b \<Longrightarrow> gm_get a u = Some Done \<Longrightarrow> gm_get b u = Some Done"
  by (simp add: same_stack_def)

lemma same_stack_visit:
  "gm_get st k = None \<Longrightarrow> same_stack (gm_put k InStack st) st' \<Longrightarrow> same_stack st (gm_put k Done st')"
  by (auto simp: same_stack_def split: if_splits)

lemma dfs_refs_None:
  "dfs_refs registry i refs st = (None, st') \<Longrightarrow> done_ok registry st \<Longrightarrow>
     done_ok registry st' \<and> same_stack st st' \<and>
     (\<forall>r \<in> set refs. r \<noteq> [] \<longrightarrow> gm_get st' r = Some Done)"
proof (induction registry i refs st arbitrary: st' rule: dfs_refs.induct)
  case (1 registry i st)
  then show ?case by simp
next
  case (2 registry i ref refs st)
  show ?case
  proof (cases "ref = [] \<or> gm_get st ref = Some Done")
    case True
    with "2.prems"(1) have rest: "dfs_refs registry i refs st = (None, st')"
      by (auto split: if_splits)
    from True have "done_ok registry st' \<and> same_stack st st' \<and>
        (\<forall>r \<in> set refs. r \<noteq> [] \<longrightarrow> gm_get st' r = Some Done)"
      using "2.IH"(1)[OF _ rest "2.prems"(2)] "2.IH"(5)[OF _ _ refl rest "2.prems"(2)] by blast
    with True show ?thesis by (auto simp: same_stack_Done)
  next
    case nd: False
    with "2.prems"(1) have unseen: "ref \<noteq> []" "gm_get st ref = None"
      by (auto split: option.splits visit.splits)
    show ?thesis
    proof (cases "gm_get registry ref")
      case None
      let ?st = "gm_put ref Done (gm_put ref InStack st)"
      have ok: "done_ok registry ?st"
        using "2.prems"(2) unseen None
        by (intro done_ok_put done_ok_put_InStack) (simp_all add: ref_succs_def)
      have ss: "same_stack st ?st" using unseen by (intro same_stack_visit) simp_all
      from "2.prems"(1) unseen None have "dfs_refs registry i refs ?st = (None, st')" by simp
      from "2.IH"(2)[OF unseen None this ok] ss show ?thesis
        by (auto intro: same_stack_trans same_stack_Done)
    next
      case (Some w)
      obtain r st1 where r: "dfs_refs registry ref (sub_refs w) (gm_put ref InStack st) = (r, st1)"
        by fastforce
      with "2.prems"(1) unseen Some have rN: "r = None"
        and rest: "dfs_refs registry i refs (gm_put ref Done st1) = (None, st')"
        by (auto split: option.splits)
      from "2.IH"(3)[OF unseen Some r[unfolded rN] done_ok_put_InStack[OF "2.prems"(2) unseen(2)]]
      have ok1: "done_ok registry st1" and ss1: "same_stack (gm_put ref InStack st) st1"
        and done1: "\<forall>r \<in> set (sub_refs w). r \<noteq> [] \<longrightarrow> gm_get st1 r = Some Done" by auto
      have ok2: "done_ok registry (gm_put ref Done st1)"
        using ok1 done1 Some by (intro done_ok_put) (auto simp: ref_succs_def)
      from "2.IH"(4)[OF unseen Some r[symmetric] rN rest ok2] same_stack_visit[OF unseen(2) ss1]
      show ?thesis by (auto intro: same_stack_trans same_stack_Done)
    qed
  qed
qed

text \<open>A closing edge is an edge of a cycle, reached from the workflow the search is at.\<close>

lemma dfs_refs_Some:
  "dfs_refs registry i refs st = (Some (a, b), st') \<Longrightarrow>
   \<forall>r \<in> set refs. r \<noteq> [] \<longrightarrow> r \<in> set (ref_succs registry i) \<Longrightarrow>
   \<forall>u. gm_get st u = Some InStack \<longrightarrow> (u, i) \<in> (edge_rel (ref_succs registry))\<^sup>* \<Longrightarrow>
   gm_get st i = Some InStack \<Longrightarrow> done_ok registry st \<Longrightarrow>
     (i, a) \<in> (edge_rel (ref_succs registry))\<^sup>* \<and> b \<in> set (ref_succs registry a) \<and>
     (b, a) \<in> (edge_rel (ref_succs registry))\<^sup>*"
proof (induction registry i refs st rule: dfs_refs.induct)
  case (1 registry i st)
  then show ?case by simp
next
  case (2 registry i ref refs st)
  let ?E = "edge_rel (ref_succs registry)"
  show ?case
  proof (cases "ref = [] \<or> gm_get st ref = Some Done")
    case True
    with 2 show ?thesis by (cases "ref = []") simp_all
  next
    case nd: False
    show ?thesis
    proof (cases "gm_get st ref")
      case (Some v)
      with nd have "v = InStack" by (cases v) auto
      with Some nd "2.prems" show ?thesis by auto
    next
      case unseen: None
      have edge: "(i, ref) \<in> ?E" using nd "2.prems"(2) by (simp add: refs.edge_iff)
      show ?thesis
      proof (cases "gm_get registry ref")
        case None
        let ?st = "gm_put ref Done (gm_put ref InStack st)"
        have "done_ok registry ?st"
          using "2.prems"(5) unseen None
          by (intro done_ok_put done_ok_put_InStack) (simp_all add: ref_succs_def)
        moreover have "dfs_refs registry i refs ?st = (Some (a, b), st')"
          using nd unseen None "2.prems"(1) by simp
        moreover have "i \<noteq> ref" using unseen "2.prems"(4) by auto
        ultimately show ?thesis
          using "2.IH"(2)[OF _ unseen None] nd "2.prems"(2-4) by simp
      next
        case (Some w)
        obtain r st1 where r: "dfs_refs registry ref (sub_refs w) (gm_put ref InStack st) = (r, st1)"
          by fastforce
        have ok0: "done_ok registry (gm_put ref InStack st)"
          by (rule done_ok_put_InStack[OF "2.prems"(5) unseen])
        have reach: "\<forall>u. gm_get (gm_put ref InStack st) u = Some InStack \<longrightarrow> (u, ref) \<in> ?E\<^sup>*"
          using "2.prems"(3) edge by (auto intro: rtrancl_into_rtrancl)
        show ?thesis
        proof (cases r)
          case (Some e)
          with r nd unseen \<open>gm_get registry ref = Some w\<close> "2.prems"(1)
          have e: "dfs_refs registry ref (sub_refs w) (gm_put ref InStack st) = (Some (a, b), st')"
            by simp
          have "(ref, a) \<in> ?E\<^sup>* \<and> b \<in> set (ref_succs registry a) \<and> (b, a) \<in> ?E\<^sup>*"
            using "2.IH"(3)[OF _ unseen \<open>gm_get registry ref = Some w\<close> e _ reach _ ok0] nd
            by (simp add: ref_succs_Some[OF \<open>gm_get registry ref = Some w\<close>])
          with edge show ?thesis by (meson converse_rtrancl_into_rtrancl)
        next
          case None
          from dfs_refs_None[OF r[unfolded None] ok0]
          have ok1: "done_ok registry st1" and ss1: "same_stack (gm_put ref InStack st) st1"
            and done1: "\<forall>r \<in> set (sub_refs w). r \<noteq> [] \<longrightarrow> gm_get st1 r = Some Done" by auto
          have ok2: "done_ok registry (gm_put ref Done st1)"
            using ok1 done1 Some by (intro done_ok_put) (auto simp: ref_succs_def)
          have ss2: "same_stack st (gm_put ref Done st1)" by (rule same_stack_visit[OF unseen ss1])
          have rest: "dfs_refs registry i refs (gm_put ref Done st1) = (Some (a, b), st')"
            using r None nd unseen Some "2.prems"(1) by simp
          show ?thesis
            using "2.IH"(4)[OF _ unseen Some r[symmetric] None rest] nd "2.prems" ok2 ss2
            unfolding same_stack_def by (metis list.set_intros(2))
        qed
      qed
    qed
  qed
qed

section \<open>The verdict\<close>

lemma workflow_registry_self [simp]: "gm_get (workflow_registry cand allw) (wf_ID cand) = Some cand"
  by (simp add: workflow_registry_def)

lemma validate_start:
  "done_ok registry [(i, InStack)]"
  "gm_get registry i = Some w \<Longrightarrow>
     \<forall>r \<in> set (sub_refs w). r \<noteq> [] \<longrightarrow> r \<in> set (ref_succs registry i)"
  by (simp_all add: done_ok_def ref_succs_def)

text \<open>
  C12. Validation of sub-workflow references is exact: a workflow is accepted if and only if no
  cycle of references can be reached from it in the registry with the candidate in place, so
  neither a cycle through the candidate nor one among the workflows it calls is missed, and
  repeated or dangling references raise no false alarm. The edge named by a rejection is an edge
  of such a cycle. The search is a total function, so it ends on every registry.
\<close>

theorem ValidateSubWorkflowCycles_exact:
  "case ValidateSubWorkflowCycles cand allw of
     None \<Rightarrow> \<not> reaches_cycle (edge_rel (ref_succs (workflow_registry cand allw))) (wf_ID cand)
   | Some (a, b) \<Rightarrow>
       reaches_cycle (edge_rel (ref_succs (workflow_registry cand allw))) (wf_ID cand) \<and>
       (wf_ID cand, a) \<in> (edge_rel (ref_succs (workflow_registry cand allw)))\<^sup>* \<and>
       (a, b) \<in> edge_rel (ref_succs (workflow_registry cand allw)) \<and>
       (b, a) \<in> (edge_rel (ref_succs (workflow_registry cand allw)))\<^sup>*"
proof -
  let ?reg = "workflow_registry cand allw" and ?i = "wf_ID cand"
  let ?E = "edge_rel (ref_succs ?reg)"
  obtain r st' where r: "dfs_refs ?reg ?i (sub_refs cand) [(?i, InStack)] = (r, st')" by fastforce
  then have v: "ValidateSubWorkflowCycles cand allw = r" by (simp add: ValidateSubWorkflowCycles_def)
  have some: "(?i, a) \<in> ?E\<^sup>* \<and> b \<in> set (ref_succs ?reg a) \<and> (b, a) \<in> ?E\<^sup>*" if "r = Some (a, b)" for a b
    using dfs_refs_Some[OF r[unfolded that]] validate_start[of ?reg ?i] by simp
  have none: "\<not> reaches_cycle ?E ?i" if "r = None"
  proof -
    from dfs_refs_None[OF r[unfolded that] validate_start(1)]
    have ok: "done_ok ?reg st'" and dn: "\<forall>r \<in> set (sub_refs cand). r \<noteq> [] \<longrightarrow> gm_get st' r = Some Done"
      by auto
    have "done_ok ?reg (gm_put ?i Done st')"
      using ok dn by (intro done_ok_put) (auto simp: ref_succs_def)
    then show ?thesis by (simp add: done_ok_def)
  qed
  have cyc: "reaches_cycle ?E ?i" if s: "r = Some (a, b)" for a b
  proof -
    from some[OF s] have "(?i, a) \<in> ?E\<^sup>*" "(a, a) \<in> ?E\<^sup>+"
      by (auto simp: refs.edge_iff intro: rtrancl_into_trancl2)
    then show ?thesis by (auto simp: reaches_cycle_def)
  qed
  from none cyc some v show ?thesis by (cases r) (auto simp: refs.edge_iff)
qed

end
