(* ===== verification/WorkflowRunner.thy ===== *)
theory WorkflowRunner
  imports WorkflowDelivery WorkflowGraph
begin

text \<open>
  The workflow runner (\<^verbatim>\<open>internal/scheduler/workflow_runner.go\<close>): a step with its retries, the
  five kinds of step outcome, the loop over the steps and the closing of a run. The agents, the
  clock, contexts and the bindings of notifications are arguments; what a run does to the world
  is a trace of effects in program order. Streaming of tokens, logging and metrics are left out.
\<close>

section \<open>What a run depends on\<close>

text \<open>A Go error: its text, and whether \<^verbatim>\<open>errors.Is\<close> finds a passed deadline in it.\<close>

datatype go_error = GoError (err_text: string) (err_deadline: bool)

record run_options =
  ro_RunID :: string
  ro_AgentName :: string
  ro_Prompt :: string
  ro_Connections :: "(string, string) gomap"
  ro_WorkflowID :: string
  ro_StepName :: string
  ro_StepPosition :: int
  ro_ModelOverride :: string
  ro_ContinuityMode :: string

text \<open>
  One attempt of an agent: the context error before it, the scratchpad writes of the agent's
  tools during it, its reply, and the context error during the pause after a failure.
\<close>

record agent_attempt =
  aa_ctxDone :: "go_error option"
  aa_writes :: "run_options \<Rightarrow> (string \<times> string) list"
  aa_reply :: "run_options \<Rightarrow> go_error + string"
  aa_sleepDone :: "go_error option"

datatype ctx_state = CtxLive | CtxUserCancelled | CtxEnded

record step_env =
  se_ctx :: ctx_state
  se_nowMs :: int
  se_startedAt :: gotime
  se_completedAt :: gotime
  se_attempts :: "nat \<Rightarrow> agent_attempt"
  se_notifID :: string
  se_notifNow :: gotime
  se_dispatch :: dispatch_env

record run_env =
  re_step :: "nat \<Rightarrow> step_env"
  re_order :: "workflow_step list \<Rightarrow> workflow_step list"
  re_userCancelled :: bool
  re_runID :: string
  re_startedAt :: gotime
  re_endedAt :: gotime
  re_notifID :: string
  re_notifNow :: gotime
  re_dispatch :: dispatch_env

text \<open>The configuration a runner is made with; \<open>rc_parse\<close>, \<open>rc_showDuration\<close> and \<open>rc_quote\<close> are
  functions of the standard library.\<close>

record runner_cfg =
  rc_broadcast :: bool
  rc_notifStore :: bool
  rc_notifyFn :: bool
  rc_chainTrigger :: bool
  rc_subWorkflow :: bool
  rc_companyGate :: "(string \<Rightarrow> string \<Rightarrow> go_error option) option"
  rc_codec :: json_codec
  rc_parse :: "string \<Rightarrow> duration option"
  rc_showDuration :: "duration \<Rightarrow> string"
  rc_quote :: "string \<Rightarrow> string"

datatype run_effect =
    WfStarted string
  | WfSkipped string string
  | WfSubStarted string string
  | SubCall string "(string, string) gomap"
  | AgentCall run_options
  | StepComplete int string string string
  | Delivery delivery_effect
  | NotifPut notification
  | RunAppend workflow_run
  | WfTerminal string run_status
  | TrayNotify string string
  | ChainTrigger workflow_run

record run_state =
  rs_outputs :: "(string, string) gomap"
  rs_scratch :: "(string, string) gomap"
  rs_prev :: string
  rs_anyFailed :: bool
  rs_results :: "step_result list"
  rs_trace :: "run_effect list"
  rs_aborted :: bool
  rs_cancelled :: bool

section \<open>A step with its retries\<close>

text \<open>
  The loop of \<open>executeStepWithRetry\<close> with \<open>k\<close> attempts left: output and error, the number of
  agent calls, and the scratchpad writes made on the way.
\<close>

fun retry_loop :: "(nat \<Rightarrow> agent_attempt) \<Rightarrow> run_options \<Rightarrow> duration \<Rightarrow> nat \<Rightarrow> nat \<Rightarrow> go_error option \<Rightarrow>
    (string \<times> go_error option) \<times> nat \<times> (string \<times> string) list" where
  "retry_loop env opts delay 0 attempt lastErr = (([], lastErr), 0, [])"
| "retry_loop env opts delay (Suc k) attempt lastErr =
     (case aa_ctxDone (env attempt) of
        Some e \<Rightarrow> (([], Some e), 0, [])
      | None \<Rightarrow>
          (let ws = aa_writes (env attempt) opts in
           case aa_reply (env attempt) opts of
             Inr output \<Rightarrow> ((output, None), 1, ws)
           | Inl err \<Rightarrow>
               (case (if k > 0 \<and> delay > 0 then aa_sleepDone (env attempt) else None) of
                  Some e \<Rightarrow> (([], Some e), 1, ws)
                | None \<Rightarrow>
                    (case retry_loop env opts delay k (Suc attempt) (Some err) of
                       (r, n, ws') \<Rightarrow> (r, Suc n, ws @ ws')))))"

definition executeStepWithRetry :: "(nat \<Rightarrow> agent_attempt) \<Rightarrow> run_options \<Rightarrow> workflow_step \<Rightarrow>
    (string \<times> go_error option) \<times> nat \<times> (string \<times> string) list" where
  "executeStepWithRetry env opts step =
     retry_loop env opts (RetryDelayDuration step) (nat (1 + ws_MaxRetries step)) 0 None"

section \<open>The outcomes of a step\<close>

definition emit_if :: "bool \<Rightarrow> run_effect \<Rightarrow> run_state \<Rightarrow> run_state" where
  "emit_if b e st = (if b then st\<lparr>rs_trace := rs_trace st @ [e]\<rparr> else st)"

definition emit_all :: "run_effect list \<Rightarrow> run_state \<Rightarrow> run_state" where
  "emit_all es st = st\<lparr>rs_trace := rs_trace st @ es\<rparr>"

definition add_result :: "step_result \<Rightarrow> run_state \<Rightarrow> run_state" where
  "add_result r st = st\<lparr>rs_results := rs_results st @ [r]\<rparr>"

definition step_name :: "workflow_step \<Rightarrow> string" where
  "step_name s = (if ws_Name s = [] then ''step-'' @ show_int (ws_Position s) else ws_Name s)"

text \<open>A step that fails before its agent runs: its record, the event, and the abort of a \<open>stop\<close> step.\<close>

definition fail_step :: "runner_cfg \<Rightarrow> workflow_step \<Rightarrow> string \<Rightarrow> step_result \<Rightarrow> run_state \<Rightarrow> run_state" where
  "fail_step cfg s slug r st =
     (let st1 = add_result r (st\<lparr>rs_anyFailed := True\<rparr>);
          st2 = emit_if (rc_broadcast cfg) (StepComplete (ws_Position s) slug ''failed'' (sr_Error r)) st1
      in if EffectiveOnFailure s = ''stop'' then st2\<lparr>rs_aborted := True\<rparr> else st2)"

definition succeed_step :: "string \<Rightarrow> string \<Rightarrow> run_state \<Rightarrow> run_state" where
  "succeed_step name output st =
     st\<lparr>rs_outputs := gm_put name output (rs_outputs st), rs_prev := output\<rparr>"

definition resolve_text :: "runner_cfg \<Rightarrow> workflow_step \<Rightarrow> run_state \<Rightarrow> string \<Rightarrow> string" where
  "resolve_text cfg s st txt =
     resolveRuntimeVars (rc_codec cfg) (resolveInlineVars txt (ws_Vars s)) (ws_Inputs s)
       (rs_outputs st) (rs_prev st) (rs_scratch st)"

definition skip_step :: "runner_cfg \<Rightarrow> step_env \<Rightarrow> workflow_step \<Rightarrow> string \<Rightarrow> run_state \<Rightarrow> run_state" where
  "skip_step cfg env s resolved st =
     (let name = step_name s;
          r = empty_result\<lparr>sr_Position := ws_Position s, sr_Slug := name, sr_Status := ''skipped'',
                sr_StartedAt := se_startedAt env, sr_CompletedAt := Some (se_startedAt env),
                sr_SkipReason := ''when_false'', sr_WhenResolved := resolved\<rparr>;
          st1 = add_result r st;
          st2 = st1\<lparr>rs_outputs := gm_put name [] (rs_outputs st1)\<rparr>
      in emit_if (rc_broadcast cfg) (WfSkipped name resolved) st2)"

definition legacy_error :: string where
  "legacy_error = ''legacy routine slug references not supported; please update to inline steps''"

definition legacy_step :: "runner_cfg \<Rightarrow> workflow_step \<Rightarrow> run_state \<Rightarrow> run_state" where
  "legacy_step cfg s st =
     fail_step cfg s (ws_Routine s)
       (empty_result\<lparr>sr_Position := ws_Position s, sr_Slug := ws_Routine s, sr_Status := ''failed'',
          sr_Error := legacy_error\<rparr>) st"

text \<open>A sub-workflow step; \<open>sub\<close> is the resolver the runner is configured with.\<close>

definition sub_step :: "runner_cfg \<Rightarrow> step_env \<Rightarrow> (string \<Rightarrow> (string, string) gomap \<Rightarrow> go_error + string) \<Rightarrow>
    workflow_step \<Rightarrow> run_state \<Rightarrow> run_state" where
  "sub_step cfg env sub s st =
     (let subID = trim_space (ws_SubWorkflow s);
          name = step_name s;
          r0 = empty_result\<lparr>sr_Position := ws_Position s, sr_Slug := name,
                 sr_StartedAt := se_startedAt env, sr_CompletedAt := Some (se_completedAt env)\<rparr>
      in if \<not> rc_subWorkflow cfg then
           fail_step cfg s name (r0\<lparr>sr_Status := ''failed'', sr_Error := ''sub_workflow support not configured''\<rparr>) st
         else
           let st1 = emit_if (rc_broadcast cfg) (WfSubStarted name subID) st;
               st2 = emit_all [SubCall subID (rs_scratch st1)] st1
           in case sub subID (rs_scratch st) of
                Inl e \<Rightarrow> fail_step cfg s name
                  (r0\<lparr>sr_Status := ''failed'', sr_Error := ''sub_workflow '' @ subID @ '': '' @ err_text e\<rparr>) st2
              | Inr output \<Rightarrow>
                  emit_if (rc_broadcast cfg) (StepComplete (ws_Position s) name ''success'' [])
                    (add_result (r0\<lparr>sr_Status := ''success'', sr_Output := output\<rparr>)
                       (succeed_step name output st2)))"

section \<open>An agent step\<close>

definition unresolved_error :: "string list \<Rightarrow> string" where
  "unresolved_error remaining =
     ''step failed: unresolved template placeholders: '' @ join_with '', '' remaining"

definition json_instruction :: string where
  "json_instruction = ''Respond with a JSON block first on its own line: {'' @ [CHR 34] @ ''summary'' @
     [CHR 34] @ '': '' @ [CHR 34] @ ''<one line, max 120 chars>'' @ [CHR 34] @ ''}'' @ [CHR 10] @
     ''Then your full analysis.''"

definition maxStepOutputBytes :: nat where
  "maxStepOutputBytes = 64 * 1024"

definition cap_output :: "string \<Rightarrow> string" where
  "cap_output output =
     (if length output > maxStepOutputBytes
      then take maxStepOutputBytes output @ [CHR 10] @ ''[output truncated]'' else output)"

definition milliseconds :: "duration \<Rightarrow> int" where
  "milliseconds d = (if d < 0 then - (- d div 1000000) else d div 1000000)"

definition step_options :: "workflow \<Rightarrow> step_env \<Rightarrow> workflow_step \<Rightarrow> string \<Rightarrow> run_options" where
  "step_options w env s resolved =
     \<lparr>ro_RunID = ''wf-'' @ wf_ID w @ ''-step-'' @ show_int (ws_Position s) @ ''-'' @ show_int (se_nowMs env),
      ro_AgentName = ws_Agent s,
      ro_Prompt = resolved @ [CHR 10, CHR 10] @ json_instruction,
      ro_Connections = ws_Connections s,
      ro_WorkflowID = wf_ID w,
      ro_StepName = step_name s,
      ro_StepPosition = ws_Position s,
      ro_ModelOverride = ws_ModelOverride s,
      ro_ContinuityMode = ''deterministic''\<rparr>"

definition gate_error :: "runner_cfg \<Rightarrow> workflow \<Rightarrow> workflow_step \<Rightarrow> go_error option" where
  "gate_error cfg w s =
     (if wf_CompanyID w \<noteq> [] \<and> ws_Agent s \<noteq> [] then
        (case rc_companyGate cfg of None \<Rightarrow> None | Some gate \<Rightarrow> gate (wf_CompanyID w) (ws_Agent s))
      else None)"

definition annotate_timeout :: "runner_cfg \<Rightarrow> workflow_step \<Rightarrow> go_error \<Rightarrow> go_error" where
  "annotate_timeout cfg s e =
     (if TimeoutDuration s > 0 \<and> err_deadline e
      then GoError (''step '' @ rc_quote cfg (ws_Name s) @ '' timed out after '' @
             rc_showDuration cfg (TimeoutDuration s) @ '': '' @ err_text e) True
      else e)"

text \<open>Company gate and agent: output and error, the calls made, the scratchpad writes.\<close>

definition run_agent :: "runner_cfg \<Rightarrow> workflow \<Rightarrow> step_env \<Rightarrow> workflow_step \<Rightarrow> run_options \<Rightarrow>
    (string \<times> go_error option) \<times> nat \<times> (string \<times> string) list" where
  "run_agent cfg w env s opts =
     (case gate_error cfg w s of
        Some e \<Rightarrow> (([], Some (annotate_timeout cfg s e)), 0, [])
      | None \<Rightarrow>
          (case executeStepWithRetry (se_attempts env) opts s of
             ((output, None), n, ws) \<Rightarrow> ((cap_output output, None), n, ws)
           | ((output, Some e), n, ws) \<Rightarrow> ((output, Some (annotate_timeout cfg s e)), n, ws)))"

text \<open>The notification of a step.\<close>

definition step_headline :: "runner_cfg \<Rightarrow> workflow \<Rightarrow> workflow_step \<Rightarrow> string \<Rightarrow> go_error option \<Rightarrow>
    string \<times> string" where
  "step_headline cfg w s output err =
     (let generic = ''['' @ wf_Name w @ ''] Step '' @ show_int (ws_Position s) @ '': '' @ step_name s in
      if err = None then
        (case parseOutput (rc_codec cfg) output of
           (sm, det) \<Rightarrow>
             if sm \<noteq> [] \<and> sm \<noteq> ''(no output)''
             then (''['' @ wf_Name w @ ''] '' @ sm, if det \<noteq> [] then det else output)
             else (generic, output))
      else (generic, output))"

definition step_notification :: "runner_cfg \<Rightarrow> workflow \<Rightarrow> step_env \<Rightarrow> workflow_step \<Rightarrow> string \<Rightarrow> string \<Rightarrow>
    go_error option \<Rightarrow> notification" where
  "step_notification cfg w env s runID output err =
     (case step_headline cfg w s output err of
        (headline, body) \<Rightarrow>
          \<lparr>nt_ID = se_notifID env, nt_RunID = runID, nt_WorkflowID = wf_ID w, nt_WorkflowRunID = [],
           nt_StepPosition = Some (ws_Position s), nt_StepName = step_name s, nt_Summary = headline,
           nt_Detail = (case err of Some e \<Rightarrow> err_text e | None \<Rightarrow> body),
           nt_Severity = parseSeverity (wn_Severity (wf_Notification w)), nt_Status = NotifPending,
           nt_Deliveries = [], nt_CreatedAt = se_notifNow env, nt_UpdatedAt = se_notifNow env\<rparr>)"

definition wants_notify :: "workflow_step \<Rightarrow> bool \<Rightarrow> bool" where
  "wants_notify s succeeded =
     (case ws_Notify s of
        None \<Rightarrow> False
      | Some c \<Rightarrow> (succeeded \<and> sn_OnSuccess c) \<or> (\<not> succeeded \<and> sn_OnFailure c))"

definition notify_step :: "runner_cfg \<Rightarrow> workflow \<Rightarrow> step_env \<Rightarrow> workflow_step \<Rightarrow> string \<Rightarrow> string \<Rightarrow>
    go_error option \<Rightarrow> run_state \<Rightarrow> run_state" where
  "notify_step cfg w env s runID output err st =
     (if \<not> wants_notify s (err = None) then st
      else let n = step_notification cfg w env s runID output err;
               targets = (case ws_Notify s of None \<Rightarrow> [] | Some c \<Rightarrow> sn_DeliverTo c)
           in case dispatchNotification (se_dispatch env) (se_notifNow env) n targets (ws_Agent s)
                     (wf_Schedule w) of
                (records, effects) \<Rightarrow>
                  emit_if (rc_notifStore cfg) (NotifPut (n\<lparr>nt_Deliveries := records\<rparr>))
                    (emit_all (map Delivery effects) st))"

definition apply_writes :: "(string \<times> string) list \<Rightarrow> run_state \<Rightarrow> run_state" where
  "apply_writes ws st = st\<lparr>rs_scratch := fold (\<lambda>(k, v). gm_put k v) ws (rs_scratch st)\<rparr>"

definition agent_result :: "step_env \<Rightarrow> workflow_step \<Rightarrow> run_options \<Rightarrow> string \<Rightarrow> go_error option \<Rightarrow> step_result" where
  "agent_result env s opts output err =
     empty_result\<lparr>sr_Position := ws_Position s, sr_Slug := step_name s, sr_SessionID := ro_RunID opts,
       sr_StartedAt := se_startedAt env, sr_CompletedAt := Some (se_completedAt env),
       sr_LatencyMs := milliseconds (se_completedAt env - se_startedAt env),
       sr_Status := (if err = None then ''success'' else ''failed''),
       sr_Error := (case err of Some e \<Rightarrow> err_text e | None \<Rightarrow> []),
       sr_Output := (if err = None then output else [])\<rparr>"

text \<open>The inline path after the placeholders are resolved.\<close>

definition inline_step :: "runner_cfg \<Rightarrow> workflow \<Rightarrow> step_env \<Rightarrow> workflow_step \<Rightarrow> string \<Rightarrow> run_state \<Rightarrow> run_state" where
  "inline_step cfg w env s resolved st =
     (let opts = step_options w env s resolved in
      case run_agent cfg w env s opts of
        ((output, err), calls, writes) \<Rightarrow>
          let st1 = apply_writes writes (emit_all (replicate calls (AgentCall opts)) st);
              r = agent_result env s opts output err;
              st2 = (if err = None then succeed_step (step_name s) output st1
                     else st1\<lparr>rs_anyFailed := True\<rparr>);
              st3 = notify_step cfg w env s (ro_RunID opts) output err st2;
              st4 = emit_if (rc_broadcast cfg) (StepComplete (ws_Position s) (step_name s) (sr_Status r) [])
                      (add_result r st3)
          in if err \<noteq> None \<and> EffectiveOnFailure s = ''stop'' then st4\<lparr>rs_aborted := True\<rparr> else st4)"

definition prompt_step :: "runner_cfg \<Rightarrow> workflow \<Rightarrow> step_env \<Rightarrow> workflow_step \<Rightarrow> run_state \<Rightarrow> run_state" where
  "prompt_step cfg w env s st =
     (let resolved = resolve_text cfg s st (ws_Prompt s);
          remaining = unresolved_placeholders resolved
      in if remaining \<noteq> [] then
           fail_step cfg s (step_name s)
             (empty_result\<lparr>sr_Position := ws_Position s, sr_Slug := step_name s, sr_Status := ''failed'',
                sr_Error := unresolved_error remaining\<rparr>) st
         else inline_step cfg w env s resolved st)"

definition neither_error :: "workflow_step \<Rightarrow> string" where
  "neither_error s = ''error: step at position '' @ show_int (ws_Position s) @
     '' has neither routine slug nor inline prompt''"

definition neither_step :: "runner_cfg \<Rightarrow> workflow_step \<Rightarrow> run_state \<Rightarrow> run_state" where
  "neither_step cfg s st =
     fail_step cfg s []
       (empty_result\<lparr>sr_Position := ws_Position s, sr_Slug := ''step-'' @ show_int (ws_Position s),
          sr_Status := ''failed'', sr_Error := neither_error s\<rparr>) st"

section \<open>The loop over the steps\<close>

definition when_false :: "runner_cfg \<Rightarrow> workflow_step \<Rightarrow> run_state \<Rightarrow> bool" where
  "when_false cfg s st \<longleftrightarrow>
     trim_space (ws_When s) \<noteq> [] \<and> \<not> EvaluateWhen (resolve_text cfg s st (ws_When s))"

definition run_step :: "runner_cfg \<Rightarrow> workflow \<Rightarrow> step_env \<Rightarrow> (string \<Rightarrow> (string, string) gomap \<Rightarrow> go_error + string) \<Rightarrow>
    workflow_step \<Rightarrow> run_state \<Rightarrow> run_state" where
  "run_step cfg w env sub s st =
     (if when_false cfg s st then skip_step cfg env s (resolve_text cfg s st (ws_When s)) st
      else if ws_Routine s \<noteq> [] then legacy_step cfg s st
      else if trim_space (ws_SubWorkflow s) \<noteq> [] then sub_step cfg env sub s st
      else if ws_Prompt s \<noteq> [] then prompt_step cfg w env s st
      else neither_step cfg s st)"

fun run_steps :: "runner_cfg \<Rightarrow> workflow \<Rightarrow> (nat \<Rightarrow> step_env) \<Rightarrow>
    (nat \<Rightarrow> string \<Rightarrow> (string, string) gomap \<Rightarrow> go_error + string) \<Rightarrow>
    nat \<Rightarrow> workflow_step list \<Rightarrow> run_state \<Rightarrow> run_state" where
  "run_steps cfg w env sub i [] st = st"
| "run_steps cfg w env sub i (s # ss) st =
     (case se_ctx (env i) of
        CtxUserCancelled \<Rightarrow> st\<lparr>rs_cancelled := True, rs_aborted := True\<rparr>
      | CtxEnded \<Rightarrow> st\<lparr>rs_aborted := True\<rparr>
      | CtxLive \<Rightarrow>
          (let st' = run_step cfg w (env i) (sub i) s st in
           if rs_aborted st' then st' else run_steps cfg w env sub (Suc i) ss st'))"

section \<open>Opening and closing a run\<close>

text \<open>\<open>cloneWorkflow\<close>: the JSON round trip drops the fields without a JSON name, and the passwords
  are scrubbed.\<close>

definition scrub_delivery :: "notification_delivery \<Rightarrow> notification_delivery" where
  "scrub_delivery d = d\<lparr>nd_SMTPPass := []\<rparr>"

definition scrubWorkflowSecrets :: "workflow \<Rightarrow> workflow" where
  "scrubWorkflowSecrets w =
     w\<lparr>wf_Steps := map (\<lambda>s. s\<lparr>ws_Notify := map_option
          (\<lambda>c. c\<lparr>sn_DeliverTo := map scrub_delivery (sn_DeliverTo c)\<rparr>) (ws_Notify s)\<rparr>) (wf_Steps w),
       wf_Notification := (wf_Notification w)\<lparr>wn_DeliverTo :=
          map scrub_delivery (wn_DeliverTo (wf_Notification w))\<rparr>\<rparr>"

definition json_delivery :: "notification_delivery \<Rightarrow> notification_delivery" where
  "json_delivery d = d\<lparr>nd_SMTPPassDeprecated := False\<rparr>"

definition json_workflow :: "workflow \<Rightarrow> workflow" where
  "json_workflow w =
     w\<lparr>wf_Steps := map (\<lambda>s. s\<lparr>ws_Notify := map_option
          (\<lambda>c. c\<lparr>sn_DeliverTo := map json_delivery (sn_DeliverTo c)\<rparr>) (ws_Notify s),
          ws_retryDelayParsed := 0, ws_timeoutParsed := 0\<rparr>) (wf_Steps w),
       wf_Notification := (wf_Notification w)\<lparr>wn_DeliverTo :=
          map json_delivery (wn_DeliverTo (wf_Notification w))\<rparr>\<rparr>"

definition cloneWorkflow :: "workflow \<Rightarrow> workflow" where
  "cloneWorkflow w = scrubWorkflowSecrets (json_workflow w)"

definition final_status :: "bool \<Rightarrow> run_state \<Rightarrow> run_status" where
  "final_status cancelled st =
     (if cancelled then RunCancelled
      else if rs_aborted st then RunFailed
      else if rs_anyFailed st then RunPartial
      else RunComplete)"

definition step_icon :: "string \<Rightarrow> string" where
  "step_icon status =
     (if status = ''success'' then [char_of (226::nat), char_of (156::nat), char_of (147::nat)]
      else if status = ''failed'' then [char_of (226::nat), char_of (156::nat), char_of (151::nat)]
      else if status = ''skipped'' then ''~'' else ''?'')"

definition step_line :: "step_result \<Rightarrow> string" where
  "step_line r =
     ''- '' @ step_icon (sr_Status r) @ '' Step '' @ show_int (sr_Position r) @ '' ('' @ sr_Slug r @ ''): '' @
     sr_Status r @ [CHR 10] @
     (if sr_Error r \<noteq> [] then ''  Error: '' @ sr_Error r @ [CHR 10] else [])"

definition buildWorkflowRunDetail :: "workflow_run \<Rightarrow> string" where
  "buildWorkflowRunDetail run =
     ''**Run ID:** '' @ run_ID run @ [CHR 10] @
     ''**Status:** '' @ run_status_string (run_Status run) @ [CHR 10, CHR 10] @
     ''**Steps:**'' @ [CHR 10] @
     (if run_Steps run = [] then ''_(no steps recorded)_'' @ [CHR 10]
      else concat (map step_line (run_Steps run)))"

definition wf_notification_of :: "workflow \<Rightarrow> run_env \<Rightarrow> workflow_run \<Rightarrow> notification" where
  "wf_notification_of w env run =
     \<lparr>nt_ID = re_notifID env, nt_RunID = run_ID run, nt_WorkflowID = wf_ID w, nt_WorkflowRunID = run_ID run,
      nt_StepPosition = None, nt_StepName = [],
      nt_Summary = ''['' @ wf_Name w @ ''] '' @ run_status_string (run_Status run),
      nt_Detail = buildWorkflowRunDetail run,
      nt_Severity = parseSeverity (wn_Severity (wf_Notification w)), nt_Status = NotifPending,
      nt_Deliveries = [], nt_CreatedAt = re_notifNow env, nt_UpdatedAt = re_notifNow env\<rparr>"

definition wants_wf_notify :: "runner_cfg \<Rightarrow> workflow \<Rightarrow> run_status \<Rightarrow> bool" where
  "wants_wf_notify cfg w status =
     (rc_notifStore cfg \<and>
      ((status = RunComplete \<and> wn_OnSuccess (wf_Notification w)) \<or>
       (status \<noteq> RunComplete \<and> wn_OnFailure (wf_Notification w))))"

text \<open>The run is persisted before its notification is stored.\<close>

definition persist_effects :: "runner_cfg \<Rightarrow> workflow \<Rightarrow> run_env \<Rightarrow> workflow_run \<Rightarrow> run_effect list" where
  "persist_effects cfg w env run =
     (if wants_wf_notify cfg w (run_Status run) then
        (let n = wf_notification_of w env run in
         case dispatchNotification (re_dispatch env) (re_notifNow env) n
                (wn_DeliverTo (wf_Notification w)) [] (wf_Schedule w) of
           (records, effects) \<Rightarrow>
             map Delivery effects @ [RunAppend run, NotifPut (n\<lparr>nt_Deliveries := records\<rparr>)])
      else [RunAppend run])"

definition terminal_event :: "bool \<Rightarrow> run_state \<Rightarrow> run_status \<Rightarrow> string" where
  "terminal_event cancelled st status =
     (if cancelled then ''workflow_cancelled''
      else if rs_aborted st then ''workflow_failed''
      else if status = RunPartial then ''workflow_partial''
      else ''workflow_complete'')"

definition em_dash :: string where
  "em_dash = [char_of (226::nat), char_of (128::nat), char_of (148::nat)]"

definition closing_effects :: "runner_cfg \<Rightarrow> workflow \<Rightarrow> run_env \<Rightarrow> bool \<Rightarrow> run_state \<Rightarrow> workflow_run \<Rightarrow>
    run_effect list" where
  "closing_effects cfg w env cancelled st run =
     persist_effects cfg w env run @
     (if rc_broadcast cfg then [WfTerminal (terminal_event cancelled st (run_Status run)) (run_Status run)] else []) @
     (if rc_notifyFn cfg \<and> \<not> cancelled \<and> (rs_aborted st \<or> run_Status run = RunPartial)
      then [TrayNotify (wf_Name w)
              (if run_Status run = RunPartial then ''Workflow completed with failures '' @ em_dash @ '' check Inbox''
               else ''Workflow failed '' @ em_dash @ '' check Inbox'')]
      else []) @
     (if rc_chainTrigger cfg \<and> \<not> cancelled then [ChainTrigger run] else [])"

definition initial_run_state :: "runner_cfg \<Rightarrow> run_env \<Rightarrow> (string, string) gomap \<Rightarrow> run_state" where
  "initial_run_state cfg env inputs =
     emit_if (rc_broadcast cfg) (WfStarted (re_runID env))
       \<lparr>rs_outputs = [], rs_scratch = inputs, rs_prev = [], rs_anyFailed = False, rs_results = [],
        rs_trace = [], rs_aborted = False, rs_cancelled = False\<rparr>"

definition run_order :: "runner_cfg \<Rightarrow> run_env \<Rightarrow> workflow \<Rightarrow> workflow_step list" where
  "run_order cfg env w = ApplyRetryDefaults (rc_parse cfg) (wf_Retry w) (re_order env (wf_Steps w))"

text \<open>
  The function \<open>MakeWorkflowRunner\<close> returns. A workflow that already runs in this call chain is an
  error; any other run ends with a record and \<open>nil\<close>.
\<close>

definition run_workflow :: "runner_cfg \<Rightarrow> run_env \<Rightarrow>
    (nat \<Rightarrow> string \<Rightarrow> (string, string) gomap \<Rightarrow> go_error + string) \<Rightarrow> string list \<Rightarrow>
    (string, string) gomap \<Rightarrow> workflow \<Rightarrow> (string + workflow_run) \<times> run_effect list" where
  "run_workflow cfg env sub ancestors inputs w =
     (if wf_ID w \<in> set ancestors then
        (Inl (''sub_workflow cycle detected: workflow '' @ wf_ID w @
              '' is already executing in this call chain''), [])
      else
        let st = run_steps cfg w (re_step env) sub 0 (run_order cfg env w) (initial_run_state cfg env inputs);
            cancelled = (rs_cancelled st \<or> re_userCancelled env);
            run = \<lparr>run_ID = re_runID env, run_WorkflowID = wf_ID w, run_Status = final_status cancelled st,
                   run_Steps = rs_results st, run_StartedAt = re_startedAt env,
                   run_CompletedAt = Some (re_endedAt env), run_TriggerInputs = inputs,
                   run_WorkflowSnapshot = cloneWorkflow w\<rparr>
        in (Inr run, rs_trace st @ closing_effects cfg w env cancelled st run))"

end
