(* ===== verification/WorkflowProps.thy ===== *)
theory WorkflowProps
  imports WorkflowRunner
begin

text \<open>
  What holds of a workflow run: each operation of the runner adds exactly one result, the state a
  step reads is determined by the results before it, the status of a run is determined by its
  results, agents are called only with resolved prompts and past the company wall, and a run
  makes a bounded number of calls.
\<close>

section \<open>The effect of one step\<close>

lemma emit_if_simps [simp]:
  "rs_outputs (emit_if b e st) = rs_outputs st" "rs_scratch (emit_if b e st) = rs_scratch st"
  "rs_prev (emit_if b e st) = rs_prev st" "rs_anyFailed (emit_if b e st) = rs_anyFailed st"
  "rs_results (emit_if b e st) = rs_results st" "rs_aborted (emit_if b e st) = rs_aborted st"
  "rs_cancelled (emit_if b e st) = rs_cancelled st"
  "rs_trace (emit_if b e st) = rs_trace st @ (if b then [e] else [])"
  by (simp_all add: emit_if_def)

lemma emit_all_simps [simp]:
  "rs_outputs (emit_all es st) = rs_outputs st" "rs_scratch (emit_all es st) = rs_scratch st"
  "rs_prev (emit_all es st) = rs_prev st" "rs_anyFailed (emit_all es st) = rs_anyFailed st"
  "rs_results (emit_all es st) = rs_results st" "rs_aborted (emit_all es st) = rs_aborted st"
  "rs_cancelled (emit_all es st) = rs_cancelled st" "rs_trace (emit_all es st) = rs_trace st @ es"
  by (simp_all add: emit_all_def)

lemma add_result_simps [simp]:
  "rs_outputs (add_result r st) = rs_outputs st" "rs_scratch (add_result r st) = rs_scratch st"
  "rs_prev (add_result r st) = rs_prev st" "rs_anyFailed (add_result r st) = rs_anyFailed st"
  "rs_results (add_result r st) = rs_results st @ [r]" "rs_aborted (add_result r st) = rs_aborted st"
  "rs_cancelled (add_result r st) = rs_cancelled st" "rs_trace (add_result r st) = rs_trace st"
  by (simp_all add: add_result_def)

lemma succeed_step_simps [simp]:
  "rs_outputs (succeed_step k v st) = gm_put k v (rs_outputs st)" "rs_scratch (succeed_step k v st) = rs_scratch st"
  "rs_prev (succeed_step k v st) = v" "rs_anyFailed (succeed_step k v st) = rs_anyFailed st"
  "rs_results (succeed_step k v st) = rs_results st" "rs_aborted (succeed_step k v st) = rs_aborted st"
  "rs_cancelled (succeed_step k v st) = rs_cancelled st" "rs_trace (succeed_step k v st) = rs_trace st"
  by (simp_all add: succeed_step_def)

lemma apply_writes_simps [simp]:
  "rs_outputs (apply_writes ws st) = rs_outputs st" "rs_prev (apply_writes ws st) = rs_prev st"
  "rs_anyFailed (apply_writes ws st) = rs_anyFailed st" "rs_results (apply_writes ws st) = rs_results st"
  "rs_aborted (apply_writes ws st) = rs_aborted st" "rs_cancelled (apply_writes ws st) = rs_cancelled st"
  "rs_trace (apply_writes ws st) = rs_trace st"
  by (simp_all add: apply_writes_def)

text \<open>Effects of a step never close a run.\<close>

fun closes_run :: "run_effect \<Rightarrow> bool" where
  "closes_run (RunAppend _) = True"
| "closes_run (WfTerminal _ _) = True"
| "closes_run (TrayNotify _ _) = True"
| "closes_run (ChainTrigger _) = True"
| "closes_run _ = False"

definition is_agent_call :: "run_effect \<Rightarrow> bool" where
  "is_agent_call e = (case e of AgentCall _ \<Rightarrow> True | _ \<Rightarrow> False)"

lemma is_agent_call_simps [simp]:
  "is_agent_call (AgentCall x)" "\<not> is_agent_call (WfStarted a)" "\<not> is_agent_call (WfSkipped a b)"
  "\<not> is_agent_call (WfSubStarted a b)" "\<not> is_agent_call (SubCall a ins)"
  "\<not> is_agent_call (StepComplete p a b c)" "\<not> is_agent_call (Delivery d)" "\<not> is_agent_call (NotifPut n)"
  "\<not> is_agent_call (RunAppend r)" "\<not> is_agent_call (WfTerminal a rst)" "\<not> is_agent_call (TrayNotify a b)"
  "\<not> is_agent_call (ChainTrigger r)"
  by (simp_all add: is_agent_call_def)

text \<open>The company wall and the resolved prompt of a call.\<close>

definition call_ok :: "runner_cfg \<Rightarrow> workflow \<Rightarrow> run_effect \<Rightarrow> bool" where
  "call_ok cfg w e = (case e of
     AgentCall opts \<Rightarrow>
       (\<exists>resolved. ro_Prompt opts = resolved @ [CHR 10, CHR 10] @ json_instruction \<and>
          \<not> has_placeholder resolved) \<and>
       (case rc_companyGate cfg of
          Some gate \<Rightarrow> wf_CompanyID w = [] \<or> ro_AgentName opts = [] \<or>
            gate (wf_CompanyID w) (ro_AgentName opts) = None
        | None \<Rightarrow> True)
   | _ \<Rightarrow> True)"

lemma call_ok_other: "\<not> is_agent_call e \<Longrightarrow> call_ok cfg w e"
  by (auto simp: call_ok_def is_agent_call_def split: run_effect.splits)

text \<open>A state that differs from another by one step with the result \<open>r\<close>.\<close>

definition adds_result :: "runner_cfg \<Rightarrow> workflow \<Rightarrow> workflow_step \<Rightarrow> run_state \<Rightarrow> step_result \<Rightarrow> run_state \<Rightarrow> bool" where
  "adds_result cfg w s st r st' \<longleftrightarrow>
     rs_results st' = rs_results st @ [r] \<and> sr_Position r = ws_Position s \<and>
     sr_Status r \<in> {''success'', ''failed'', ''skipped''} \<and>
     rs_anyFailed st' = (rs_anyFailed st \<or> sr_Status r = ''failed'') \<and>
     rs_aborted st' = (rs_aborted st \<or> (sr_Status r = ''failed'' \<and> EffectiveOnFailure s = ''stop'')) \<and>
     rs_cancelled st' = rs_cancelled st \<and>
     rs_prev st' = (if sr_Status r = ''success'' then sr_Output r else rs_prev st) \<and>
     rs_outputs st' = (if sr_Status r = ''failed'' then rs_outputs st
                       else gm_put (sr_Slug r) (sr_Output r) (rs_outputs st)) \<and>
     (\<exists>es. rs_trace st' = rs_trace st @ es \<and> list_all (\<lambda>e. \<not> closes_run e \<and> call_ok cfg w e) es \<and>
        length (filter is_agent_call es) \<le> nat (1 + ws_MaxRetries s))"

lemma empty_result_Output [simp]: "sr_Output empty_result = []"
  by (simp add: empty_result_def)

text \<open>The result a state ends with.\<close>

definition adds_one :: "runner_cfg \<Rightarrow> workflow \<Rightarrow> workflow_step \<Rightarrow> run_state \<Rightarrow> run_state \<Rightarrow> bool" where
  "adds_one cfg w s st st' \<longleftrightarrow> adds_result cfg w s st (last (rs_results st')) st'"

lemma adds_skip_step: "adds_one cfg w s st (skip_step cfg env s resolved st)"
  by (simp add: adds_one_def adds_result_def skip_step_def Let_def call_ok_other)

lemma adds_fail: "sr_Position r = ws_Position s \<Longrightarrow> sr_Status r = ''failed'' \<Longrightarrow>
    adds_one cfg w s st (fail_step cfg s slug r st)"
  by (simp add: adds_one_def adds_result_def fail_step_def Let_def call_ok_other)

lemma adds_sub_step: "adds_one cfg w s st (sub_step cfg env sub s st)"
  by (simp add: adds_one_def adds_result_def sub_step_def fail_step_def Let_def call_ok_other
      split: sum.split)

lemma retry_loop_calls:
  "retry_loop env opts delay k attempt lastErr = (r, n, ws) \<Longrightarrow> n \<le> k"
proof (induction env opts delay k attempt lastErr arbitrary: r n ws rule: retry_loop.induct)
  case (1 env opts delay attempt lastErr)
  then show ?case by simp
next
  case (2 env opts delay k attempt lastErr)
  then show ?case
    by (fastforce simp: Let_def split: option.splits sum.splits prod.splits if_splits)
qed

lemma run_agent_calls:
  "run_agent cfg w env s opts = ((out, err), n, ws) \<Longrightarrow>
     n \<le> nat (1 + ws_MaxRetries s) \<and> (n = 0 \<or> gate_error cfg w s = None)"
  by (auto simp: run_agent_def executeStepWithRetry_def dest: retry_loop_calls
      split: option.splits prod.splits)

lemma notify_step_keeps [simp]:
  "rs_outputs (notify_step cfg w env s i out err st) = rs_outputs st"
  "rs_prev (notify_step cfg w env s i out err st) = rs_prev st"
  "rs_anyFailed (notify_step cfg w env s i out err st) = rs_anyFailed st"
  "rs_results (notify_step cfg w env s i out err st) = rs_results st"
  "rs_aborted (notify_step cfg w env s i out err st) = rs_aborted st"
  "rs_cancelled (notify_step cfg w env s i out err st) = rs_cancelled st"
  by (auto simp: notify_step_def Let_def split: prod.splits)

lemma notify_step_trace:
  "\<exists>es. rs_trace (notify_step cfg w env s i out err st) = rs_trace st @ es \<and>
     list_all (\<lambda>e. \<not> closes_run e \<and> \<not> is_agent_call e) es"
  by (auto simp: notify_step_def Let_def list_all_iff split: prod.splits)

lemma step_options_call_ok:
  "\<not> has_placeholder resolved \<Longrightarrow> gate_error cfg w s = None \<Longrightarrow>
     call_ok cfg w (AgentCall (step_options w env s resolved))"
  by (auto simp: call_ok_def step_options_def gate_error_def split: option.splits if_splits)

lemma filter_none: "list_all (\<lambda>e. \<not> P e) es \<Longrightarrow> filter P es = []"
  by (simp add: list_all_iff filter_empty_conv)

lemma adds_inline_step:
  assumes "\<not> has_placeholder resolved"
  shows "adds_one cfg w s st (inline_step cfg w env s resolved st)"
proof -
  let ?opts = "step_options w env s resolved"
  obtain out err n ws where run: "run_agent cfg w env s ?opts = ((out, err), n, ws)"
    by (metis surj_pair)
  note calls = run_agent_calls[OF run]
  let ?st1 = "apply_writes ws (emit_all (replicate n (AgentCall ?opts)) st)"
  let ?st2 = "if err = None then succeed_step (step_name s) out ?st1 else ?st1\<lparr>rs_anyFailed := True\<rparr>"
  obtain es where es: "rs_trace (notify_step cfg w env s (ro_RunID ?opts) out err ?st2) =
      rs_trace ?st2 @ es" "list_all (\<lambda>e. \<not> closes_run e \<and> \<not> is_agent_call e) es"
    using notify_step_trace by blast
  have tr2: "rs_trace ?st2 = rs_trace st @ replicate n (AgentCall ?opts)" by simp
  have ok: "n = 0 \<or> call_ok cfg w (AgentCall ?opts)"
    using calls step_options_call_ok[OF assms] by auto
  have esok: "list_all (\<lambda>e. \<not> closes_run e \<and> call_ok cfg w e) es" "filter is_agent_call es = []"
    using es(2) by (auto simp: list_all_iff filter_empty_conv call_ok_other)
  show ?thesis
    using calls ok esok es(1)[unfolded tr2]
    by (cases "err = None")
       (auto simp: adds_one_def adds_result_def inline_step_def Let_def run agent_result_def
          call_ok_other list_all_iff)
qed

lemma adds_run_step: "adds_one cfg w s st (run_step cfg w env sub s st)"
proof -
  have p: "adds_one cfg w s st (prompt_step cfg w env s st)"
    unfolding prompt_step_def Let_def
    by (auto intro: adds_fail adds_inline_step dest: no_unresolved_no_placeholder)
  show ?thesis
    by (simp add: run_step_def adds_skip_step adds_sub_step p legacy_step_def neither_step_def adds_fail)
qed

section \<open>Abstract specification of a run log\<close>

text \<open>
  The log of a run is read against the ordered steps: one result per step, in order, while the
  context lives; it ends after a failure of a \<open>stop\<close> step, where the context ended, or with the
  last step. \<open>None\<close>: no run can leave this log.
\<close>

datatype log_end = LogFinished | LogStepStop | LogContextEnded | LogUserCancelled

definition stop_failure :: "workflow_step \<Rightarrow> step_result \<Rightarrow> bool" where
  "stop_failure s r \<longleftrightarrow> sr_Status r = ''failed'' \<and> EffectiveOnFailure s = ''stop''"

fun run_log :: "(nat \<Rightarrow> step_env) \<Rightarrow> nat \<Rightarrow> workflow_step list \<Rightarrow> step_result list \<Rightarrow> log_end option" where
  "run_log env i [] [] = Some LogFinished"
| "run_log env i [] (r # rs) = None"
| "run_log env i (s # ss) [] =
     (case se_ctx (env i) of
        CtxLive \<Rightarrow> None
      | CtxUserCancelled \<Rightarrow> Some LogUserCancelled
      | CtxEnded \<Rightarrow> Some LogContextEnded)"
| "run_log env i (s # ss) (r # rs) =
     (if se_ctx (env i) \<noteq> CtxLive \<or> sr_Position r \<noteq> ws_Position s \<or>
         sr_Status r \<notin> {''success'', ''failed'', ''skipped''} then None
      else if stop_failure s r then (if rs = [] then Some LogStepStop else None)
      else run_log env (Suc i) ss rs)"

definition log_status :: "bool \<Rightarrow> log_end \<Rightarrow> step_result list \<Rightarrow> run_status" where
  "log_status userCancelled e rs =
     (if userCancelled \<or> e = LogUserCancelled then RunCancelled
      else if e \<noteq> LogFinished then RunFailed
      else if list_ex (\<lambda>r. sr_Status r = ''failed'') rs then RunPartial
      else RunComplete)"

text \<open>What the following steps can read of the results so far.\<close>

definition replay_prev :: "step_result list \<Rightarrow> string \<Rightarrow> string" where
  "replay_prev rs p = fold (\<lambda>r p. if sr_Status r = ''success'' then sr_Output r else p) rs p"

definition replay_outputs :: "step_result list \<Rightarrow> (string, string) gomap \<Rightarrow> (string, string) gomap" where
  "replay_outputs rs m =
     fold (\<lambda>r m. if sr_Status r = ''failed'' then m else gm_put (sr_Slug r) (sr_Output r) m) rs m"

definition max_calls :: "workflow_step list \<Rightarrow> nat" where
  "max_calls ss = sum_list (map (\<lambda>s. nat (1 + ws_MaxRetries s)) ss)"

definition log_refines :: "runner_cfg \<Rightarrow> workflow \<Rightarrow> (nat \<Rightarrow> step_env) \<Rightarrow> nat \<Rightarrow> workflow_step list \<Rightarrow>
    run_state \<Rightarrow> run_state \<Rightarrow> step_result list \<Rightarrow> log_end \<Rightarrow> bool" where
  "log_refines cfg w env i ss st st' rs e \<longleftrightarrow>
     rs_results st' = rs_results st @ rs \<and> run_log env i ss rs = Some e \<and>
     rs_anyFailed st' = (rs_anyFailed st \<or> list_ex (\<lambda>r. sr_Status r = ''failed'') rs) \<and>
     rs_aborted st' = (e \<noteq> LogFinished) \<and>
     rs_cancelled st' = (rs_cancelled st \<or> e = LogUserCancelled) \<and>
     rs_prev st' = replay_prev rs (rs_prev st) \<and>
     rs_outputs st' = replay_outputs rs (rs_outputs st) \<and>
     (\<exists>es. rs_trace st' = rs_trace st @ es \<and> list_all (\<lambda>e. \<not> closes_run e \<and> call_ok cfg w e) es \<and>
        length (filter is_agent_call es) \<le> max_calls ss)"

lemma run_steps_refines:
  "\<not> rs_aborted st \<Longrightarrow> \<exists>rs e. log_refines cfg w env i ss st (run_steps cfg w env sub i ss st) rs e"
proof (induction ss arbitrary: i st)
  case Nil
  then show ?case
    by (intro exI[of _ "[]"] exI[of _ LogFinished])
       (simp add: log_refines_def replay_prev_def replay_outputs_def max_calls_def)
next
  case (Cons s ss)
  show ?case
  proof (cases "se_ctx (env i)")
    case CtxUserCancelled
    then show ?thesis
      by (intro exI[of _ "[]"] exI[of _ LogUserCancelled])
         (simp add: log_refines_def replay_prev_def replay_outputs_def)
  next
    case CtxEnded
    then show ?thesis
      by (intro exI[of _ "[]"] exI[of _ LogContextEnded])
         (simp add: log_refines_def replay_prev_def replay_outputs_def)
  next
    case CtxLive
    define st1 where "st1 = run_step cfg w (env i) (sub i) s st"
    define r where "r = last (rs_results st1)"
    have one: "adds_result cfg w s st r st1"
      using adds_run_step[of cfg w s st "env i" "sub i"] by (simp add: adds_one_def st1_def r_def)
    obtain es1 where es1: "rs_trace st1 = rs_trace st @ es1"
      "list_all (\<lambda>e. \<not> closes_run e \<and> call_ok cfg w e) es1"
      "length (filter is_agent_call es1) \<le> nat (1 + ws_MaxRetries s)"
      using one by (auto simp: adds_result_def)
    show ?thesis
    proof (cases "rs_aborted st1")
      case True
      then have "run_steps cfg w env sub i (s # ss) st = st1"
        using CtxLive by (simp add: st1_def Let_def)
      moreover have "log_refines cfg w env i (s # ss) st st1 [r] LogStepStop"
        using True one Cons.prems CtxLive es1
        by (auto simp: log_refines_def adds_result_def replay_prev_def replay_outputs_def max_calls_def
            stop_failure_def)
      ultimately show ?thesis by auto
    next
      case False
      then have step: "run_steps cfg w env sub i (s # ss) st = run_steps cfg w env sub (Suc i) ss st1"
        using CtxLive by (simp add: st1_def Let_def)
      from Cons.IH[OF False] obtain rs e where
        ih: "log_refines cfg w env (Suc i) ss st1 (run_steps cfg w env sub (Suc i) ss st1) rs e" by blast
      then obtain es2 where es2: "rs_trace (run_steps cfg w env sub (Suc i) ss st1) = rs_trace st1 @ es2"
        "list_all (\<lambda>e. \<not> closes_run e \<and> call_ok cfg w e) es2"
        "length (filter is_agent_call es2) \<le> max_calls ss"
        by (auto simp: log_refines_def)
      have nostop: "\<not> stop_failure s r"
        using False one Cons.prems by (auto simp: adds_result_def stop_failure_def)
      have "log_refines cfg w env i (s # ss) st (run_steps cfg w env sub (Suc i) ss st1) (r # rs) e"
        using ih one nostop CtxLive es1 es2
        unfolding log_refines_def adds_result_def
        by (auto simp: replay_prev_def replay_outputs_def max_calls_def)
      with step show ?thesis by auto
    qed
  qed
qed

end
