(* ===== verification/WorkflowNesting.thy ===== *)
theory WorkflowNesting
  imports WorkflowProps
begin

text \<open>
  The properties of whole runs, and runs inside runs: a sub-workflow step calls the runner again
  through the resolver that \<^verbatim>\<open>main.go\<close> configures and \<open>RunWorkflowSyncWithInputs\<close>
  (\<^verbatim>\<open>internal/scheduler/scheduler.go\<close>). The nesting is cut off by fuel; the theorems show that
  the check for a workflow that already runs makes the fuel irrelevant, and that on validated
  workflows the check never fires.
\<close>

section \<open>Closing a run\<close>

fun status_event :: "run_status \<Rightarrow> string" where
  "status_event RunCancelled = ''workflow_cancelled''"
| "status_event RunFailed = ''workflow_failed''"
| "status_event RunPartial = ''workflow_partial''"
| "status_event st = ''workflow_complete''"

definition tray_text :: "run_status \<Rightarrow> string" where
  "tray_text status =
     (if status = RunPartial then ''Workflow completed with failures '' else ''Workflow failed '') @
     em_dash @ '' check Inbox''"

definition closing_log :: "runner_cfg \<Rightarrow> workflow \<Rightarrow> workflow_run \<Rightarrow> run_effect list" where
  "closing_log cfg w run =
     RunAppend run #
     (if rc_broadcast cfg then [WfTerminal (status_event (run_Status run)) (run_Status run)] else []) @
     (if rc_notifyFn cfg \<and> run_Status run \<in> {RunFailed, RunPartial}
      then [TrayNotify (wf_Name w) (tray_text (run_Status run))] else []) @
     (if rc_chainTrigger cfg \<and> run_Status run \<noteq> RunCancelled then [ChainTrigger run] else [])"

lemma filter_map_Delivery [simp]: "filter closes_run (map Delivery es) = []"
  by (induction es) simp_all

lemma filter_Delivery_calls [simp]: "filter is_agent_call (map Delivery es) = []"
  by (induction es) simp_all

lemma persist_effects_closes: "filter closes_run (persist_effects cfg w env run) = [RunAppend run]"
  by (simp add: persist_effects_def Let_def split: prod.split)

lemma persist_effects_calls:
  "filter is_agent_call (persist_effects cfg w env run) = []"
  "list_all (call_ok cfg w) (persist_effects cfg w env run)"
  by (auto simp: persist_effects_def Let_def list_all_iff call_ok_other split: prod.split)

lemma closing_effects_closes:
  assumes "run_Status run = final_status cancelled st"
  shows "filter closes_run (closing_effects cfg w env cancelled st run) = closing_log cfg w run"
  using assms
  by (auto simp: closing_effects_def persist_effects_closes closing_log_def final_status_def
      terminal_event_def tray_text_def)

lemma closing_effects_calls:
  "filter is_agent_call (closing_effects cfg w env cancelled st run) = []"
  "list_all (call_ok cfg w) (closing_effects cfg w env cancelled st run)"
  using persist_effects_calls[of cfg w env run]
  by (auto simp: closing_effects_def call_ok_other)

section \<open>A run as a whole\<close>

lemma initial_simps [simp]:
  "rs_outputs (initial_run_state cfg env inputs) = []" "rs_prev (initial_run_state cfg env inputs) = []"
  "rs_results (initial_run_state cfg env inputs) = []" "\<not> rs_anyFailed (initial_run_state cfg env inputs)"
  "\<not> rs_aborted (initial_run_state cfg env inputs)" "\<not> rs_cancelled (initial_run_state cfg env inputs)"
  "rs_trace (initial_run_state cfg env inputs) = (if rc_broadcast cfg then [WfStarted (re_runID env)] else [])"
  by (simp_all add: initial_run_state_def)

text \<open>The facts about a run that the properties below read off.\<close>

lemma run_workflow_refines:
  assumes "wf_ID w \<notin> set ancestors"
  obtains st rs e where
    "log_refines cfg w (re_step env) 0 (run_order cfg env w) (initial_run_state cfg env inputs) st rs e"
    and "st = run_steps cfg w (re_step env) sub 0 (run_order cfg env w) (initial_run_state cfg env inputs)"
  using run_steps_refines[where st = "initial_run_state cfg env inputs" and cfg = cfg and w = w and
      env = "re_step env" and i = 0 and ss = "run_order cfg env w" and sub = sub]
  by (simp only: initial_simps not_False_eq_True) blast

lemma log_refines_trace:
  assumes "log_refines cfg w senv i ss (initial_run_state cfg env inputs) st rs e"
  shows "filter closes_run (rs_trace st) = []"
    and "list_all (call_ok cfg w) (rs_trace st)"
    and "length (filter is_agent_call (rs_trace st)) \<le> max_calls ss"
  using assms by (auto simp: log_refines_def list_all_iff call_ok_other filter_empty_conv)

text \<open>
  C3. The status of a run is what its log says: the results of a run are one per step, in the
  order of the steps, each successful, failed or skipped; the log ends after the failure of a
  step that stops on failure, where the context ended, or with the last step; and the status
  is cancelled, failed, partial or complete accordingly (run_log, log_status). Whatever
  happens, a run that starts is persisted exactly once, before the one terminal event of its
  status, the tray alert of a failed or partial run, and the chain trigger of a run that was not
  cancelled. Only a workflow that already runs in the call chain is refused, without any effect.
\<close>

theorem run_workflow_refines_log:
  "case run_workflow cfg env sub ancestors inputs w of
     (Inl _, tr) \<Rightarrow> wf_ID w \<in> set ancestors \<and> tr = []
   | (Inr run, tr) \<Rightarrow> wf_ID w \<notin> set ancestors \<and>
       (\<exists>e. run_log (re_step env) 0 (run_order cfg env w) (run_Steps run) = Some e \<and>
            run_Status run = log_status (re_userCancelled env) e (run_Steps run)) \<and>
       filter closes_run tr = closing_log cfg w run"
proof (cases "wf_ID w \<in> set ancestors")
  case True
  then show ?thesis by (simp add: run_workflow_def)
next
  case False
  obtain st rs e where ref:
    "log_refines cfg w (re_step env) 0 (run_order cfg env w) (initial_run_state cfg env inputs) st rs e"
    and st: "st = run_steps cfg w (re_step env) sub 0 (run_order cfg env w) (initial_run_state cfg env inputs)"
    by (rule run_workflow_refines[OF False])
  have "final_status (rs_cancelled st \<or> re_userCancelled env) st = log_status (re_userCancelled env) e rs"
    using ref by (auto simp: log_refines_def final_status_def log_status_def)
  moreover have "rs_results st = rs" "run_log (re_step env) 0 (run_order cfg env w) rs = Some e"
    using ref by (auto simp: log_refines_def)
  ultimately show ?thesis
    using False log_refines_trace(1)[OF ref]
    by (simp add: run_workflow_def Let_def closing_effects_closes flip: st)
qed

text \<open>
  C9. No agent is called behind the guards of a run: every prompt an agent gets is a text in which
  no placeholder is left, with the summary instruction appended; in a workflow of a company
  every named agent that is called has passed the company wall; and the number of calls is at
  most one plus the retries for each step, whatever the agents answer.
\<close>

theorem agent_calls_guarded:
  "list_all (call_ok cfg w) (snd (run_workflow cfg env sub ancestors inputs w)) \<and>
   length (filter is_agent_call (snd (run_workflow cfg env sub ancestors inputs w)))
     \<le> max_calls (run_order cfg env w)"
proof (cases "wf_ID w \<in> set ancestors")
  case True
  then show ?thesis by (simp add: run_workflow_def)
next
  case False
  obtain st rs e where ref:
    "log_refines cfg w (re_step env) 0 (run_order cfg env w) (initial_run_state cfg env inputs) st rs e"
    and st: "st = run_steps cfg w (re_step env) sub 0 (run_order cfg env w) (initial_run_state cfg env inputs)"
    by (rule run_workflow_refines[OF False])
  show ?thesis
    using False log_refines_trace(2,3)[OF ref]
    by (simp add: run_workflow_def Let_def closing_effects_calls flip: st)
qed

text \<open>
  A step reads exactly what the log records: at every point of a run, the previous output is the
  output of the last successful step, failed steps leave no trace in it, and the named outputs
  are those of the steps that did not fail, the later of two with the same name.
\<close>

lemma steps_read_the_log:
  "rs_prev (run_steps cfg w senv sub 0 ss (initial_run_state cfg env inputs)) =
     replay_prev (rs_results (run_steps cfg w senv sub 0 ss (initial_run_state cfg env inputs))) [] \<and>
   rs_outputs (run_steps cfg w senv sub 0 ss (initial_run_state cfg env inputs)) =
     replay_outputs (rs_results (run_steps cfg w senv sub 0 ss (initial_run_state cfg env inputs))) []"
  using run_steps_refines[of "initial_run_state cfg env inputs" cfg w senv 0 ss sub]
  by (auto simp: log_refines_def)

section \<open>Runs inside runs\<close>

definition child_output :: "workflow_run \<Rightarrow> string" where
  "child_output run = (if run_Steps run = [] then [] else sr_Output (last (run_Steps run)))"

text \<open>
  The resolver of sub-workflows: look the workflow up, run it with the caller's scratchpad as its
  inputs, and take the output of its last result; \<open>child\<close> runs the workflow found.
\<close>

definition resolve_sub :: "workflow list \<Rightarrow> ((string, string) gomap \<Rightarrow> workflow \<Rightarrow> string + workflow_run) \<Rightarrow>
    string \<Rightarrow> (string, string) gomap \<Rightarrow> go_error + string" where
  "resolve_sub wfs child subID inputs =
     (case find (\<lambda>w. wf_ID w = subID) wfs of
        None \<Rightarrow> Inl (GoError (''sub-workflow '' @ [CHR 34] @ subID @ [CHR 34] @ '' not found'') False)
      | Some w \<Rightarrow>
          (case child inputs w of
             Inl e \<Rightarrow> Inl (GoError e False)
           | Inr run \<Rightarrow> Inr (child_output run)))"

text \<open>
  A run with its sub-runs. \<open>envs\<close> gives each run its surroundings by its path, the indices of
  the calling steps; \<open>stuck\<close> is the answer when the fuel is used up.
\<close>

primrec run_nested :: "nat \<Rightarrow> (go_error + string) \<Rightarrow> runner_cfg \<Rightarrow> (nat list \<Rightarrow> run_env) \<Rightarrow> workflow list \<Rightarrow>
    nat list \<Rightarrow> string list \<Rightarrow> (string, string) gomap \<Rightarrow> workflow \<Rightarrow> (string + workflow_run) \<times> run_effect list" where
  "run_nested 0 stuck cfg envs wfs path ancestors inputs w =
     run_workflow cfg (envs path) (\<lambda>i subID ins. stuck) ancestors inputs w"
| "run_nested (Suc fuel) stuck cfg envs wfs path ancestors inputs w =
     run_workflow cfg (envs path)
       (\<lambda>i. resolve_sub wfs (\<lambda>ins c. fst (run_nested fuel stuck cfg envs wfs (path @ [i])
          (wf_ID w # ancestors) ins c)))
       ancestors inputs w"

lemma find_workflow: "find (\<lambda>w. wf_ID w = i) wfs = Some c \<Longrightarrow> c \<in> set wfs \<and> wf_ID c = i"
  by (induction wfs) (auto split: if_splits)

definition open_ids :: "workflow list \<Rightarrow> string list \<Rightarrow> nat" where
  "open_ids wfs ancestors = card (wf_ID ` set wfs - set ancestors)"

lemma open_ids_less:
  "c \<in> set wfs \<Longrightarrow> wf_ID c \<notin> set anc \<Longrightarrow> open_ids wfs (wf_ID c # anc) < open_ids wfs anc"
  unfolding open_ids_def by (rule psubset_card_mono) auto

lemma open_ids_step:
  "c \<in> set wfs \<Longrightarrow> open_ids wfs anc < Suc f \<Longrightarrow> wf_ID c \<in> set anc \<or> open_ids wfs (wf_ID c # anc) < f"
  using open_ids_less[of c wfs anc] by (cases "wf_ID c \<in> set anc") simp_all

lemma open_ids_le: "open_ids wfs anc \<le> length wfs"
  unfolding open_ids_def
  by (meson Diff_subset List.finite_set card_image_le card_length card_mono finite_imageI order_trans)

lemma resolve_sub_cong:
  assumes "\<And>c. find (\<lambda>w. wf_ID w = subID) wfs = Some c \<Longrightarrow> f inputs c = g inputs c"
  shows "resolve_sub wfs f subID inputs = resolve_sub wfs g subID inputs"
  using assms by (auto simp: resolve_sub_def split: option.split)

lemma run_workflow_ancestor:
  "wf_ID w \<in> set ancestors \<Longrightarrow> run_workflow cfg env sub ancestors inputs w =
     run_workflow cfg env sub' ancestors inputs w"
  by (simp add: run_workflow_def)

lemma run_nested_fuel:
  "wf_ID w \<in> set anc \<or> open_ids wfs (wf_ID w # anc) < fuel \<Longrightarrow>
   wf_ID w \<in> set anc \<or> open_ids wfs (wf_ID w # anc) < fuel' \<Longrightarrow>
     run_nested fuel stuck cfg envs wfs path anc inputs w =
     run_nested fuel' stuck' cfg envs wfs path anc inputs w"
proof (induction fuel arbitrary: fuel' path anc inputs w)
  case 0
  then show ?case by (cases fuel') (auto simp: run_workflow_def)
next
  case (Suc f)
  show ?case
  proof (cases "wf_ID w \<in> set anc")
    case True
    then show ?thesis by (cases fuel') (auto simp: run_workflow_def)
  next
    case False
    with Suc.prems(2) obtain f' where f': "fuel' = Suc f'" by (cases fuel') auto
    have lt: "open_ids wfs (wf_ID w # anc) < Suc f" "open_ids wfs (wf_ID w # anc) < Suc f'"
      using False Suc.prems f' by blast+
    have sub: "resolve_sub wfs (\<lambda>ins c. fst (run_nested f stuck cfg envs wfs (path @ [i]) (wf_ID w # anc) ins c)) j ins =
        resolve_sub wfs (\<lambda>ins c. fst (run_nested f' stuck' cfg envs wfs (path @ [i]) (wf_ID w # anc) ins c)) j ins"
      for i j ins
    proof (rule resolve_sub_cong)
      fix c assume "find (\<lambda>w. wf_ID w = j) wfs = Some c"
      then have c: "c \<in> set wfs" by (rule find_workflow[THEN conjunct1])
      from Suc.IH[OF open_ids_step[OF c lt(1)] open_ids_step[OF c lt(2)]]
      show "fst (run_nested f stuck cfg envs wfs (path @ [i]) (wf_ID w # anc) ins c) =
          fst (run_nested f' stuck' cfg envs wfs (path @ [i]) (wf_ID w # anc) ins c)" by simp
    qed
    then have "(\<lambda>i. resolve_sub wfs (\<lambda>ins c. fst (run_nested f stuck cfg envs wfs (path @ [i]) (wf_ID w # anc) ins c))) =
        (\<lambda>i. resolve_sub wfs (\<lambda>ins c. fst (run_nested f' stuck' cfg envs wfs (path @ [i]) (wf_ID w # anc) ins c)))"
      by (intro ext)
    then show ?thesis unfolding f' run_nested.simps by (simp only:)
  qed
qed

text \<open>
  Nested runs always end: with one unit of fuel more than there are workflows, more fuel, and
  any answer in place of an exhausted one, change nothing, on every registry, also one whose
  references are cyclic. So the depth of nested runs is at most the number of workflows, cut off
  by the check for a workflow that already runs in the call chain.
\<close>

lemma nested_runs_end:
  assumes "length wfs < fuel"
  shows "run_nested fuel stuck cfg envs wfs path ancestors inputs w =
     run_nested (Suc (length wfs)) stuck' cfg envs wfs path ancestors inputs w"
  using assms le_less_trans[OF open_ids_le[of wfs "wf_ID w # ancestors"] assms]
    open_ids_le[of wfs "wf_ID w # ancestors"]
  by (intro run_nested_fuel) auto

text \<open>The witness: a workflow that refers to itself.\<close>

definition plain_net :: net_env where
  "plain_net = \<lparr>ne_parseURL = (\<lambda>_. None), ne_lookup = (\<lambda>_. None), ne_parseIP = (\<lambda>_. None)\<rparr>"

definition plain_dispatch :: dispatch_env where
  "plain_dispatch = \<lparr>de_now = (\<lambda>_. 0), de_space = None, de_agentDM = None, de_gate = None,
     de_deliverers = None, de_onFailure = False, de_queue = False, de_huginnDir = [], de_net = plain_net\<rparr>"

definition plain_attempt :: "go_error + string \<Rightarrow> agent_attempt" where
  "plain_attempt reply = \<lparr>aa_ctxDone = None, aa_writes = (\<lambda>_. []), aa_reply = (\<lambda>_. reply),
     aa_sleepDone = None\<rparr>"

definition plain_env :: "go_error + string \<Rightarrow> run_env" where
  "plain_env reply = \<lparr>re_step = (\<lambda>_. \<lparr>se_ctx = CtxLive, se_nowMs = 0, se_startedAt = 0, se_completedAt = 0,
       se_attempts = (\<lambda>_. plain_attempt reply), se_notifID = [], se_notifNow = 0, se_dispatch = plain_dispatch\<rparr>),
     re_order = (\<lambda>xs. xs), re_userCancelled = False, re_runID = ''r'', re_startedAt = 0, re_endedAt = 0,
     re_notifID = [], re_notifNow = 0, re_dispatch = plain_dispatch\<rparr>"

definition plain_cfg :: runner_cfg where
  "plain_cfg = \<lparr>rc_broadcast = False, rc_notifStore = False, rc_notifyFn = False, rc_chainTrigger = False,
     rc_subWorkflow = True, rc_companyGate = None,
     rc_codec = \<lparr>jc_decode = (\<lambda>_. None), jc_encode = (\<lambda>_. None), jc_summary = (\<lambda>_. None)\<rparr>,
     rc_parse = (\<lambda>_. None), rc_showDuration = (\<lambda>_. []), rc_quote = (\<lambda>s. s)\<rparr>"

definition sub_flow :: "string \<Rightarrow> string \<Rightarrow> workflow" where
  "sub_flow i ref = empty_workflow\<lparr>wf_ID := i, wf_Steps := [empty_step\<lparr>ws_SubWorkflow := ref\<rparr>]\<rparr>"

section \<open>Validated workflows never meet the check\<close>

text \<open>Reference: nested runs with no check of the call chain at all.\<close>

primrec run_unguarded :: "nat \<Rightarrow> (go_error + string) \<Rightarrow> runner_cfg \<Rightarrow> (nat list \<Rightarrow> run_env) \<Rightarrow>
    workflow list \<Rightarrow> nat list \<Rightarrow> (string, string) gomap \<Rightarrow> workflow \<Rightarrow>
    (string + workflow_run) \<times> run_effect list" where
  "run_unguarded 0 stuck cfg envs wfs path inputs w =
     run_workflow cfg (envs path) (\<lambda>i subID ins. stuck) [] inputs w"
| "run_unguarded (Suc fuel) stuck cfg envs wfs path inputs w =
     run_workflow cfg (envs path)
       (\<lambda>i. resolve_sub wfs (\<lambda>ins c. fst (run_unguarded fuel stuck cfg envs wfs (path @ [i]) ins c)))
       [] inputs w"

lemma run_steps_cong:
  "(\<And>i s ins. s \<in> set ss \<Longrightarrow> trim_space (ws_SubWorkflow s) \<noteq> [] \<Longrightarrow>
      sub i (trim_space (ws_SubWorkflow s)) ins = sub' i (trim_space (ws_SubWorkflow s)) ins) \<Longrightarrow>
   run_steps cfg w env sub i ss st = run_steps cfg w env sub' i ss st"
proof (induction ss arbitrary: i st)
  case Nil
  then show ?case by simp
next
  case (Cons s ss)
  have "run_step cfg w (env i) (sub i) s st = run_step cfg w (env i) (sub' i) s st"
    using Cons.prems[of s i] by (simp add: run_step_def sub_step_def Let_def)
  moreover have "run_steps cfg w env sub (Suc i) ss st' = run_steps cfg w env sub' (Suc i) ss st'" for st'
    using Cons.prems by (intro Cons.IH) simp
  ultimately show ?case by (simp add: Let_def split: ctx_state.split)
qed

lemma run_workflow_cong:
  assumes "wf_ID w \<notin> set anc" and "wf_ID w \<notin> set anc'"
    and "\<And>i s ins. s \<in> set (run_order cfg env w) \<Longrightarrow> trim_space (ws_SubWorkflow s) \<noteq> [] \<Longrightarrow>
      sub i (trim_space (ws_SubWorkflow s)) ins = sub' i (trim_space (ws_SubWorkflow s)) ins"
  shows "run_workflow cfg env sub anc inputs w = run_workflow cfg env sub' anc' inputs w"
proof -
  have "run_steps cfg w (re_step env) sub 0 (run_order cfg env w) st =
      run_steps cfg w (re_step env) sub' 0 (run_order cfg env w) st" for st
    by (rule run_steps_cong) (rule assms(3))
  with assms(1,2) show ?thesis by (simp add: run_workflow_def)
qed

text \<open>\<open>sort.Slice\<close> permutes the steps, and a registry whose identifiers are distinct holds them.\<close>

definition permutes_steps :: "run_env \<Rightarrow> bool" where
  "permutes_steps env \<longleftrightarrow> (\<forall>ss. set (re_order env ss) = set ss)"

definition registry_ok :: "workflow \<Rightarrow> workflow list \<Rightarrow> bool" where
  "registry_ok w wfs \<longleftrightarrow> distinct (map wf_ID wfs) \<and> (\<forall>v \<in> set wfs. wf_ID v = wf_ID w \<longrightarrow> v = w) \<and>
     (\<forall>v \<in> set (w # wfs). \<forall>r \<in> set (sub_refs v). trim_space r = r)"

lemma fold_put_other:
  "i \<notin> wf_ID ` set vs \<Longrightarrow> gm_get (fold (\<lambda>w. gm_put (wf_ID w) w) vs m) i = gm_get m i"
  by (induction vs arbitrary: m) auto

lemma fold_put_distinct:
  "distinct (map wf_ID vs) \<Longrightarrow> v \<in> set vs \<Longrightarrow>
     gm_get (fold (\<lambda>w. gm_put (wf_ID w) w) vs m) (wf_ID v) = Some v"
  by (induction vs arbitrary: m) (auto simp: fold_put_other)

lemma workflow_registry_get:
  "registry_ok w wfs \<Longrightarrow> v \<in> set (w # wfs) \<Longrightarrow> gm_get (workflow_registry w wfs) (wf_ID v) = Some v"
  by (cases "wf_ID v = wf_ID w")
     (auto simp: registry_ok_def workflow_registry_def fold_put_distinct)

lemma run_order_refs:
  "permutes_steps env \<Longrightarrow> s \<in> set (run_order cfg env w) \<Longrightarrow> ws_SubWorkflow s \<in> set (sub_refs w)"
proof -
  assume a: "permutes_steps env" "s \<in> set (run_order cfg env w)"
  then have "ws_SubWorkflow s \<in> set (map ws_SubWorkflow (run_order cfg env w))" by simp
  then have "ws_SubWorkflow s \<in> set (map ws_SubWorkflow (re_order env (wf_Steps w)))"
    by (simp only: run_order_def ApplyRetryDefaults_keeps)
  with a(1) show ?thesis by (simp add: sub_refs_def permutes_steps_def)
qed

text \<open>One call: the child is reached by an edge, so the call chain stays clear of it.\<close>

lemma run_nested_unguarded:
  assumes ok: "registry_ok w0 wfs" and order: "\<And>p. permutes_steps (envs p)"
  defines "E \<equiv> edge_rel (ref_succs (workflow_registry w0 wfs))"
  shows "v \<in> set (w0 # wfs) \<Longrightarrow> \<not> reaches_cycle E (wf_ID v) \<Longrightarrow> \<forall>a \<in> set anc. (a, wf_ID v) \<in> E\<^sup>+ \<Longrightarrow>
     run_nested fuel stuck cfg envs wfs path anc inputs v = run_unguarded fuel stuck cfg envs wfs path inputs v"
proof (induction fuel arbitrary: path anc inputs v)
  case 0
  then have "wf_ID v \<notin> set anc" by (auto dest: reaches_cycle_self)
  then show ?case by (simp add: run_workflow_def)
next
  case (Suc f)
  from Suc.prems have notin: "wf_ID v \<notin> set anc" by (auto dest: reaches_cycle_self)
  have child: "resolve_sub wfs (\<lambda>ins c. fst (run_nested f stuck cfg envs wfs (path @ [i]) (wf_ID v # anc) ins c)) ref ins =
      resolve_sub wfs (\<lambda>ins c. fst (run_unguarded f stuck cfg envs wfs (path @ [i]) ins c)) ref ins"
    if ref: "ref \<in> set (ref_succs (workflow_registry w0 wfs) (wf_ID v))" for i ref ins
  proof (rule resolve_sub_cong)
    fix c assume "find (\<lambda>w. wf_ID w = ref) wfs = Some c"
    then have c: "c \<in> set wfs" "wf_ID c = ref" by (rule find_workflow[THEN conjunct1], rule find_workflow[THEN conjunct2])
    with ref have edge: "(wf_ID v, wf_ID c) \<in> E" by (simp add: E_def refs.edge_iff)
    have "run_nested f stuck cfg envs wfs (path @ [i]) (wf_ID v # anc) ins c =
        run_unguarded f stuck cfg envs wfs (path @ [i]) ins c"
    proof (rule Suc.IH)
      show "c \<in> set (w0 # wfs)" using c by simp
      show "\<not> reaches_cycle E (wf_ID c)" using Suc.prems(2) edge reaches_cycle_step by metis
      show "\<forall>a \<in> set (wf_ID v # anc). (a, wf_ID c) \<in> E\<^sup>+"
        using Suc.prems(3) edge by (auto intro: trancl_into_trancl)
    qed
    then show "fst (run_nested f stuck cfg envs wfs (path @ [i]) (wf_ID v # anc) ins c) =
        fst (run_unguarded f stuck cfg envs wfs (path @ [i]) ins c)" by simp
  qed
  show ?case unfolding run_nested.simps run_unguarded.simps
  proof (rule run_workflow_cong[OF notin])
    show "wf_ID v \<notin> set []" by simp
    fix i s ins
    assume s: "s \<in> set (run_order cfg (envs path) v)" and ne: "trim_space (ws_SubWorkflow s) \<noteq> []"
    from run_order_refs[OF order s] have in_refs: "ws_SubWorkflow s \<in> set (sub_refs v)" .
    with ok Suc.prems(1) have "trim_space (ws_SubWorkflow s) = ws_SubWorkflow s"
      by (auto simp: registry_ok_def)
    with in_refs ne ref_succs_Some[OF workflow_registry_get[OF ok Suc.prems(1)]]
    have "trim_space (ws_SubWorkflow s) \<in> set (ref_succs (workflow_registry w0 wfs) (wf_ID v))" by simp
    from child[OF this] show "resolve_sub wfs (\<lambda>ins c. fst (run_nested f stuck cfg envs wfs (path @ [i])
          (wf_ID v # anc) ins c)) (trim_space (ws_SubWorkflow s)) ins =
        resolve_sub wfs (\<lambda>ins c. fst (run_unguarded f stuck cfg envs wfs (path @ [i]) ins c))
          (trim_space (ws_SubWorkflow s)) ins" .
  qed
qed

text \<open>
  Validation makes the run-time check redundant: on a registry of distinct, trimmed
  identifiers, a workflow that ValidateSubWorkflowCycles accepts runs, with all its nested runs,
  exactly as it would if no run ever looked at its call chain. So no step of such a run fails
  because a workflow is already executing.
\<close>

lemma validated_runs_need_no_check:
  assumes "ValidateSubWorkflowCycles w wfs = None" and "registry_ok w wfs"
    and "\<And>p. permutes_steps (envs p)"
  shows "run_nested fuel stuck cfg envs wfs [] [] inputs w = run_unguarded fuel stuck cfg envs wfs [] inputs w"
  using assms ValidateSubWorkflowCycles_exact[of w wfs]
  by (intro run_nested_unguarded[where ?w0.0 = w]) simp_all

section \<open>What the code does not promise\<close>

text \<open>
  A sub-workflow that failed counts as a success: the step that called it succeeds with the
  output of its last result, whatever the status of its run, so nothing of a failed or partial
  run reaches the status of its caller.
\<close>

lemma failed_child_counts_as_success:
  assumes "rc_subWorkflow cfg" and "find (\<lambda>w. wf_ID w = trim_space (ws_SubWorkflow s)) wfs = Some c"
    and "child (rs_scratch st) c = Inr run"
  shows "sr_Status (last (rs_results (sub_step cfg env (resolve_sub wfs child) s st))) = ''success'' \<and>
    sr_Output (last (rs_results (sub_step cfg env (resolve_sub wfs child) s st))) = child_output run \<and>
    rs_anyFailed (sub_step cfg env (resolve_sub wfs child) s st) = rs_anyFailed st \<and>
    rs_aborted (sub_step cfg env (resolve_sub wfs child) s st) = rs_aborted st"
  using assms by (simp add: sub_step_def Let_def resolve_sub_def)

definition broken_flow :: workflow where
  "broken_flow = empty_workflow\<lparr>wf_ID := ''b'', wf_Steps := [empty_step]\<rparr>"

definition run_of :: "(string + workflow_run) \<times> run_effect list \<Rightarrow> workflow_run" where
  "run_of r = (case fst r of Inr run \<Rightarrow> run)"

text \<open>A child whose only step fails, and the status its caller ends with.\<close>

lemma retry_loop_exhausts:
  assumes "\<And>k. aa_ctxDone (env k) = None \<and> aa_reply (env k) opts = Inl e" and "delay \<le> 0"
  shows "fst (snd (retry_loop env opts delay n a err)) = n"
  using assms by (induction n arbitrary: a err) (simp_all add: Let_def split: prod.split, metis snd_conv fst_conv)

text \<open>
  The retry default of a workflow escapes the limit on retries: a valid step without retries of
  its own makes as many calls as the default says, plus one, although ten is the most that
  validation admits.
\<close>

lemma workflow_retries_escape_cap:
  assumes "0 < n" and "ws_MaxRetries s = 0" and "ws_RetryDelay s = []" and "ws_retryDelayParsed s = 0"
    and "\<And>k. aa_ctxDone (env k) = None \<and> aa_reply (env k) opts = Inl e"
  shows "fst (snd (executeStepWithRetry env opts
     (apply_retry_default parse \<lparr>wr_MaxRetries = n, wr_Delay = []\<rparr> s))) = nat n + 1"
proof -
  have "fst (snd (retry_loop env opts 0 (nat (1 + n)) 0 None)) = nat (1 + n)"
    by (rule retry_loop_exhausts[OF assms(5)]) simp
  with assms show ?thesis
    by (simp add: executeStepWithRetry_def apply_retry_default_def RetryDelayDuration_def nat_add_distrib)
qed

end
