(* ===== verification/DeliveryQueue.thy ===== *)
theory DeliveryQueue
  imports WorkflowDelivery
begin

text \<open>
  The durable queue of failed deliveries (\<^verbatim>\<open>internal/scheduler/delivery_queue.go\<close>, its types and
  its SQLite store): enqueueing with supersession, the retry sweep with its circuit breaker per
  workflow and endpoint, exhaustion with escalation, dismissal and forced retry. A table is the
  list of its rows in insertion order; times are stored in whole seconds, as the store formats
  them. SQL errors are not modelled; a payload that does not decode is \<open>None\<close>.
\<close>

section \<open>Rows\<close>

datatype dq_status = DqPending | DqRetrying | DqDelivered | DqFailed | DqSuperseded

record dq_entry =
  dq_ID :: string
  dq_WorkflowID :: string
  dq_RunID :: string
  dq_Endpoint :: string
  dq_Channel :: string
  dq_Payload :: "(notification \<times> notification_delivery) option"
  dq_Status :: dq_status
  dq_AttemptCount :: int
  dq_MaxAttempts :: int
  dq_RetryWindowS :: int
  dq_NextRetryAt :: gotime
  dq_CreatedAt :: gotime
  dq_LastAttemptAt :: "gotime option"
  dq_LastError :: string

record endpoint_health =
  eh_ConsecutiveFailures :: nat
  eh_Open :: bool
  eh_OpenedAt :: "gotime option"
  eh_LastProbeAt :: "gotime option"

record dq_store =
  dq_rows :: "dq_entry list"
  dq_health :: "((string \<times> string), endpoint_health) gomap"

definition empty_store :: dq_store where
  "empty_store = \<lparr>dq_rows = [], dq_health = []\<rparr>"

definition circuitBreakThreshold :: nat where
  "circuitBreakThreshold = 5"

definition endpointKey :: "notification_delivery \<Rightarrow> string" where
  "endpointKey t =
     (if nd_Type t = ''webhook'' then nd_To t
      else if nd_Type t = ''email'' then
        (if nd_Connection t \<noteq> [] then ''smtp-connection://'' @ nd_Connection t
         else ''smtp://'' @ nd_SMTPUser t @ ''@'' @ nd_SMTPHost t)
      else nd_Type t @ '':'' @ nd_To t)"

text \<open>\<^verbatim>\<open>time.RFC3339\<close> keeps whole seconds.\<close>

definition rfc3339 :: "gotime \<Rightarrow> gotime" where
  "rfc3339 t = (t div second) * second"

fun dq_active :: "dq_status \<Rightarrow> bool" where
  "dq_active DqPending = True"
| "dq_active DqRetrying = True"
| "dq_active _ = False"

section \<open>The store\<close>

definition dq_update :: "string \<Rightarrow> (dq_entry \<Rightarrow> dq_entry) \<Rightarrow> dq_store \<Rightarrow> dq_store" where
  "dq_update i f s = s\<lparr>dq_rows := map (\<lambda>e. if dq_ID e = i then f e else e) (dq_rows s)\<rparr>"

definition supersede :: "string \<Rightarrow> string \<Rightarrow> dq_entry \<Rightarrow> dq_entry" where
  "supersede w ep e =
     (if dq_WorkflowID e = w \<and> dq_Endpoint e = ep \<and> dq_active (dq_Status e)
      then e\<lparr>dq_Status := DqSuperseded\<rparr> else e)"

text \<open>\<open>None\<close> when the new row breaks a constraint of the table and the transaction is rolled back.\<close>

definition SupersedeAndInsert :: "gotime \<Rightarrow> dq_entry \<Rightarrow> dq_store \<Rightarrow> dq_store option" where
  "SupersedeAndInsert now e s =
     (if dq_ID e \<in> set (map dq_ID (dq_rows s)) \<or> dq_Channel e \<notin> {''webhook'', ''email''} then None
      else Some (s\<lparr>dq_rows := map (supersede (dq_WorkflowID e) (dq_Endpoint e)) (dq_rows s) @
        [e\<lparr>dq_NextRetryAt := rfc3339 (dq_NextRetryAt e), dq_CreatedAt := rfc3339 now\<rparr>]\<rparr>))"

definition dq_Get :: "string \<Rightarrow> dq_store \<Rightarrow> dq_entry option" where
  "dq_Get i s = find (\<lambda>e. dq_ID e = i) (dq_rows s)"

definition ListDue :: "gotime \<Rightarrow> nat \<Rightarrow> dq_store \<Rightarrow> dq_entry list" where
  "ListDue now limit s =
     take limit (sort_key dq_NextRetryAt
       (filter (\<lambda>e. dq_active (dq_Status e) \<and> dq_NextRetryAt e \<le> rfc3339 now) (dq_rows s)))"

definition ListActionable :: "nat \<Rightarrow> dq_store \<Rightarrow> dq_entry list" where
  "ListActionable limit s =
     take limit (sort_key (\<lambda>e. - dq_CreatedAt e) (filter (\<lambda>e. dq_Status e = DqFailed) (dq_rows s)))"

definition UpdateAttempt :: "gotime \<Rightarrow> string \<Rightarrow> dq_status \<Rightarrow> int \<Rightarrow> string \<Rightarrow> gotime option \<Rightarrow>
    dq_store \<Rightarrow> dq_store" where
  "UpdateAttempt now i status attempts lastError next s =
     dq_update i (\<lambda>e. e\<lparr>dq_Status := status, dq_AttemptCount := attempts, dq_LastError := lastError,
       dq_NextRetryAt := (case next of Some t \<Rightarrow> rfc3339 t | None \<Rightarrow> dq_NextRetryAt e),
       dq_LastAttemptAt := Some (rfc3339 now)\<rparr>) s"

definition BadgeCount :: "dq_store \<Rightarrow> nat" where
  "BadgeCount s = length (remdups (map (\<lambda>e. dq_WorkflowID e @ ''|'' @ dq_Endpoint e)
     (filter (\<lambda>e. dq_Status e = DqFailed) (dq_rows s))))"

definition MarkDelivered :: "gotime \<Rightarrow> string \<Rightarrow> dq_store \<Rightarrow> dq_store" where
  "MarkDelivered now i s =
     dq_update i (\<lambda>e. e\<lparr>dq_Status := DqDelivered, dq_LastError := [], dq_LastAttemptAt := Some (rfc3339 now)\<rparr>) s"

definition store_Dismiss :: "string \<Rightarrow> dq_store \<Rightarrow> dq_store" where
  "store_Dismiss i s = s\<lparr>dq_rows := filter (\<lambda>e. dq_ID e \<noteq> i) (dq_rows s)\<rparr>"

definition closed_health :: endpoint_health where
  "closed_health = \<lparr>eh_ConsecutiveFailures = 0, eh_Open = False, eh_OpenedAt = None, eh_LastProbeAt = None\<rparr>"

definition GetHealth :: "string \<Rightarrow> string \<Rightarrow> dq_store \<Rightarrow> endpoint_health" where
  "GetHealth w ep s = (case gm_get (dq_health s) (w, ep) of Some h \<Rightarrow> h | None \<Rightarrow> closed_health)"

definition UpsertHealth :: "string \<Rightarrow> string \<Rightarrow> endpoint_health \<Rightarrow> dq_store \<Rightarrow> dq_store" where
  "UpsertHealth w ep h s =
     s\<lparr>dq_health := gm_put (w, ep) (h\<lparr>eh_OpenedAt := map_option rfc3339 (eh_OpenedAt h),
                                     eh_LastProbeAt := map_option rfc3339 (eh_LastProbeAt h)\<rparr>) (dq_health s)\<rparr>"

section \<open>Retry times\<close>

text \<open>
  \<open>ComputeRetryWindow\<close>: \<open>fires\<close> are the next fire times of the schedule, \<open>None\<close> when it does not
  parse. The products with 0.8 and with the ratios below are taken exactly, where the code
  rounds them in floating point by less than a nanosecond.
\<close>

fun gaps :: "gotime list \<Rightarrow> duration list" where
  "gaps (a # b # ts) = (b - a) # gaps (b # ts)"
| "gaps _ = []"

definition ComputeRetryWindow :: "string \<Rightarrow> gotime list option \<Rightarrow> int" where
  "ComputeRetryWindow schedule fires =
     (if schedule = [] then 3600
      else case fires of
        None \<Rightarrow> 3600
      | Some ts \<Rightarrow>
          if length ts < 2 then 3600
          else let window = (Min (set (gaps ts)) * 8) div 10; secs = window div second
               in if secs > 86400 then 86400 else secs)"

definition retry_percent :: "int \<Rightarrow> int" where
  "retry_percent attemptCount =
     (if attemptCount \<le> 0 then 0 else if attemptCount = 1 then 5 else if attemptCount = 2 then 15
      else if attemptCount = 3 then 40 else 80)"

definition nextRetryDelay :: "int \<Rightarrow> int \<Rightarrow> int \<Rightarrow> duration" where
  "nextRetryDelay r retryWindowS attemptCount =
     (let base = retryWindowS * retry_percent attemptCount * (second div 100)
      in if base = 0 then 0 else base + (r - base div 10))"

section \<open>The queue\<close>

datatype dq_effect = BadgeUpdate nat | Escalate notification | DeliverAttempt string

definition broadcastBadge :: "bool \<Rightarrow> dq_store \<Rightarrow> dq_effect list" where
  "broadcastBadge hasFn s = (if hasFn then [BadgeUpdate (BadgeCount s)] else [])"

text \<open>\<open>nid\<close> is the fresh identifier of the entry; the JSON of the payload leaves out the flag \<open>SMTPPassDeprecated\<close>.\<close>

definition new_entry :: "gotime \<Rightarrow> string \<Rightarrow> string \<Rightarrow> string \<Rightarrow> int \<Rightarrow> notification \<Rightarrow>
    notification_delivery \<Rightarrow> dq_entry" where
  "new_entry now nid workflowID runID window n target =
     \<lparr>dq_ID = nid, dq_WorkflowID = workflowID, dq_RunID = runID, dq_Endpoint = endpointKey target,
      dq_Channel = nd_Type target, dq_Payload = Some (n, target\<lparr>nd_SMTPPassDeprecated := False\<rparr>), dq_Status = DqPending,
      dq_AttemptCount = 0, dq_MaxAttempts = 5, dq_RetryWindowS = window, dq_NextRetryAt = now,
      dq_CreatedAt = now, dq_LastAttemptAt = None, dq_LastError = []\<rparr>"

definition dq_Enqueue :: "gotime \<Rightarrow> string \<Rightarrow> string \<Rightarrow> string \<Rightarrow> string \<Rightarrow> gotime list option \<Rightarrow> notification \<Rightarrow>
    notification_delivery \<Rightarrow> dq_store \<Rightarrow> dq_store option" where
  "dq_Enqueue now nid workflowID runID schedule fires n target s =
     SupersedeAndInsert now
       (new_entry now nid workflowID runID (ComputeRetryWindow schedule fires) n target) s"

definition dq_Dismiss :: "bool \<Rightarrow> string \<Rightarrow> dq_store \<Rightarrow> dq_store \<times> dq_effect list" where
  "dq_Dismiss hasFn i s = (let s' = store_Dismiss i s in (s', broadcastBadge hasFn s'))"

text \<open>\<open>ForceRetry\<close> up to the sweep it starts; \<open>None\<close> when the entry does not exist.\<close>

definition ForceRetry :: "gotime \<Rightarrow> string \<Rightarrow> dq_store \<Rightarrow> dq_store option" where
  "ForceRetry now i s =
     (case dq_Get i s of
        None \<Rightarrow> None
      | Some e \<Rightarrow>
          let s1 = UpdateAttempt now (dq_ID e) DqPending (dq_AttemptCount e) [] (Some now) s;
              h = GetHealth (dq_WorkflowID e) (dq_Endpoint e) s1
          in Some (if eh_Open h
                   then UpsertHealth (dq_WorkflowID e) (dq_Endpoint e)
                          (h\<lparr>eh_Open := False, eh_ConsecutiveFailures := 0\<rparr>) s1
                   else s1))"

text \<open>What one attempt meets: clock readings, the deliverer and its answer, the random number.\<close>

record attempt_env =
  ae_ctxDone :: bool
  ae_probeAt :: gotime
  ae_now :: gotime
  ae_deliver :: "(notification \<Rightarrow> notification_delivery \<Rightarrow> delivery_record) option"
  ae_random :: int
  ae_notifStore :: bool
  ae_broadcast :: bool
  ae_escalation :: "dq_entry \<Rightarrow> string \<Rightarrow> string"

text \<open>The health of an endpoint after a failed and after a successful attempt.\<close>

definition health_fail :: "gotime \<Rightarrow> endpoint_health \<Rightarrow> endpoint_health" where
  "health_fail now h =
     (let h1 = h\<lparr>eh_ConsecutiveFailures := eh_ConsecutiveFailures h + 1, eh_LastProbeAt := Some now\<rparr>
      in if \<not> eh_Open h1 \<and> eh_ConsecutiveFailures h1 \<ge> circuitBreakThreshold
         then h1\<lparr>eh_Open := True, eh_OpenedAt := Some now\<rparr> else h1)"

definition health_succeed :: "endpoint_health \<Rightarrow> endpoint_health" where
  "health_succeed h = h\<lparr>eh_ConsecutiveFailures := 0, eh_Open := False, eh_OpenedAt := None\<rparr>"

definition too_soon :: "gotime \<Rightarrow> dq_entry \<Rightarrow> endpoint_health \<Rightarrow> bool" where
  "too_soon now e h =
     (eh_Open h \<and> (case eh_LastProbeAt h of
        None \<Rightarrow> False | Some t \<Rightarrow> now - t < dq_RetryWindowS e * second))"

definition endpoint_display :: "string \<Rightarrow> string" where
  "endpoint_display ep = (if length ep > 50 then take 47 ep @ ''...'' else ep)"

text \<open>\<open>escalate\<close>; the sentence of its detail is an argument.\<close>

definition escalate :: "attempt_env \<Rightarrow> dq_entry \<Rightarrow> string \<Rightarrow> dq_effect list" where
  "escalate env e lastError =
     (if \<not> ae_notifStore env then []
      else [Escalate \<lparr>nt_ID = ''dlq-escalation-'' @ dq_ID e, nt_RunID = [], nt_WorkflowID = dq_WorkflowID e,
        nt_WorkflowRunID = dq_RunID e, nt_StepPosition = None, nt_StepName = [],
        nt_Summary = ''Delivery to '' @ endpoint_display (dq_Endpoint e) @ '' permanently failed'',
        nt_Detail = ae_escalation env e lastError, nt_Severity = SeverityUrgent,
        nt_Status = NotifPending, nt_Deliveries = [], nt_CreatedAt = ae_now env,
        nt_UpdatedAt = ae_now env\<rparr>])"

definition attempt_failed :: "attempt_env \<Rightarrow> dq_entry \<Rightarrow> string \<Rightarrow> dq_store \<Rightarrow> dq_store \<times> dq_effect list" where
  "attempt_failed env e err s =
     (let now = ae_now env;
          s1 = UpsertHealth (dq_WorkflowID e) (dq_Endpoint e)
                 (health_fail now (GetHealth (dq_WorkflowID e) (dq_Endpoint e) s)) s
      in if dq_AttemptCount e \<ge> dq_MaxAttempts e then
           let s2 = UpdateAttempt now (dq_ID e) DqFailed (dq_AttemptCount e) err None s1
           in (s2, escalate env e err @ broadcastBadge (ae_broadcast env) s2)
         else
           (UpdateAttempt now (dq_ID e) DqRetrying (dq_AttemptCount e) err
              (Some (now + nextRetryDelay (ae_random env) (dq_RetryWindowS e) (dq_AttemptCount e))) s1, []))"

definition attempt_sent :: "attempt_env \<Rightarrow> dq_entry \<Rightarrow> dq_store \<Rightarrow> dq_store \<times> dq_effect list" where
  "attempt_sent env e s =
     (let s1 = MarkDelivered (ae_now env) (dq_ID e) s;
          s2 = UpsertHealth (dq_WorkflowID e) (dq_Endpoint e)
                 (health_succeed (GetHealth (dq_WorkflowID e) (dq_Endpoint e) s1)) s1
      in (s2, broadcastBadge (ae_broadcast env) s2))"

text \<open>One attempt on an entry as the sweep read it.\<close>

definition attemptDelivery :: "attempt_env \<Rightarrow> dq_entry \<Rightarrow> dq_store \<Rightarrow> dq_store \<times> dq_effect list" where
  "attemptDelivery env e s =
     (if too_soon (ae_probeAt env) e (GetHealth (dq_WorkflowID e) (dq_Endpoint e) s) then (s, [])
      else case dq_Payload e of
        None \<Rightarrow> (s, [])
      | Some (n, target) \<Rightarrow>
          (case ae_deliver env of
             None \<Rightarrow> (s, [])
           | Some deliver \<Rightarrow>
               let rec = deliver n target; e1 = e\<lparr>dq_AttemptCount := dq_AttemptCount e + 1\<rparr>;
                   (s', es) = (if dr_Status rec = ''sent'' then attempt_sent env e1 s
                               else attempt_failed env e1 (dr_Error rec) s)
               in (s', DeliverAttempt (dq_ID e) # es)))"

fun sweep :: "(nat \<Rightarrow> attempt_env) \<Rightarrow> nat \<Rightarrow> dq_entry list \<Rightarrow> dq_store \<Rightarrow> dq_store \<times> dq_effect list" where
  "sweep env j [] s = (s, [])"
| "sweep env j (e # es) s =
     (if ae_ctxDone (env j) then (s, [])
      else case attemptDelivery (env j) e s of
        (s1, fx) \<Rightarrow> (case sweep env (Suc j) es s1 of (s2, fx') \<Rightarrow> (s2, fx @ fx')))"

definition dq_RunOnce :: "gotime \<Rightarrow> (nat \<Rightarrow> attempt_env) \<Rightarrow> dq_store \<Rightarrow> dq_store \<times> dq_effect list" where
  "dq_RunOnce now env s = sweep env 0 (ListDue now 50 s) s"

section \<open>The circuit breaker of an endpoint\<close>

interpretation health: breaker eh_Open eh_ConsecutiveFailures health_fail health_succeed circuitBreakThreshold
  by unfold_locales (auto simp: health_fail_def health_succeed_def circuitBreakThreshold_def Let_def)

section \<open>What an operation does to the rows\<close>

lemma dq_update_IDs [simp]: "(\<And>e. dq_ID (f e) = dq_ID e) \<Longrightarrow> map dq_ID (dq_rows (dq_update i f s)) = map dq_ID (dq_rows s)"
  by (simp add: dq_update_def comp_def if_distrib cong: if_cong)

lemma UpsertHealth_rows [simp]: "dq_rows (UpsertHealth w ep h s) = dq_rows s"
  by (simp add: UpsertHealth_def)

lemma dq_update_rows: "dq_rows (dq_update i f s) = map (\<lambda>e. if dq_ID e = i then f e else e) (dq_rows s)"
  by (simp add: dq_update_def)

text \<open>An operation that touches only the row \<open>i\<close>, by the function \<open>f\<close>.\<close>

definition touches :: "string \<Rightarrow> (dq_entry \<Rightarrow> dq_entry) \<Rightarrow> dq_store \<Rightarrow> dq_store \<Rightarrow> bool" where
  "touches i f s s' \<longleftrightarrow> dq_rows s' = map (\<lambda>e. if dq_ID e = i then f e else e) (dq_rows s)"

text \<open>What an attempt may make of the row it is for: the same workflow and endpoint, and a status
  that says how the attempt ended.\<close>

definition attempt_row :: "dq_entry \<Rightarrow> dq_entry \<Rightarrow> dq_entry \<Rightarrow> bool" where
  "attempt_row e r r' \<longleftrightarrow>
     dq_ID r' = dq_ID r \<and> dq_WorkflowID r' = dq_WorkflowID r \<and> dq_Endpoint r' = dq_Endpoint r \<and>
     dq_MaxAttempts r' = dq_MaxAttempts r \<and> dq_Payload r' = dq_Payload r \<and>
     (dq_Status r' = DqDelivered \<and> dq_AttemptCount r' = dq_AttemptCount r \<or>
      dq_Status r' = DqFailed \<and> dq_AttemptCount r' = dq_AttemptCount e + 1 \<and>
        dq_AttemptCount e + 1 \<ge> dq_MaxAttempts e \<or>
      dq_Status r' = DqRetrying \<and> dq_AttemptCount r' = dq_AttemptCount e + 1 \<and>
        dq_AttemptCount e + 1 < dq_MaxAttempts e)"

text \<open>An attempt takes place: the circuit admits it, the payload decodes, there is a deliverer.\<close>

definition effective :: "attempt_env \<Rightarrow> dq_entry \<Rightarrow> dq_store \<Rightarrow> bool" where
  "effective env e s \<longleftrightarrow> \<not> too_soon (ae_probeAt env) e (GetHealth (dq_WorkflowID e) (dq_Endpoint e) s) \<and>
     \<not> Option.is_none (dq_Payload e) \<and> \<not> Option.is_none (ae_deliver env)"

lemma attempt_ineffective: "\<not> effective env e s \<Longrightarrow> attemptDelivery env e s = (s, [])"
  by (auto simp: effective_def attemptDelivery_def Option.is_none_def split: option.splits prod.splits)

lemma attempt_effective:
  assumes "effective env e s"
  shows "\<exists>f. touches (dq_ID e) f s (fst (attemptDelivery env e s)) \<and> (\<forall>r. attempt_row e r (f r))"
proof -
  from assms obtain n t d where p: "dq_Payload e = Some (n, t)" "ae_deliver env = Some d"
    "\<not> too_soon (ae_probeAt env) e (GetHealth (dq_WorkflowID e) (dq_Endpoint e) s)"
    by (auto simp: effective_def Option.is_none_def)
  show ?thesis
  proof (cases "dr_Status (d n t) = ''sent''")
    case True
    then show ?thesis using p
      by (intro exI[of _ "\<lambda>r. r\<lparr>dq_Status := DqDelivered, dq_LastError := [],
            dq_LastAttemptAt := Some (rfc3339 (ae_now env))\<rparr>"])
         (simp add: attemptDelivery_def attempt_sent_def MarkDelivered_def touches_def dq_update_rows
            attempt_row_def Let_def)
  next
    case False
    let ?st = "if dq_AttemptCount e + 1 \<ge> dq_MaxAttempts e then DqFailed else DqRetrying"
    let ?next = "if dq_AttemptCount e + 1 \<ge> dq_MaxAttempts e then None
      else Some (ae_now env + nextRetryDelay (ae_random env) (dq_RetryWindowS e) (dq_AttemptCount e + 1))"
    from False show ?thesis using p
      by (intro exI[of _ "\<lambda>r. r\<lparr>dq_Status := ?st, dq_AttemptCount := dq_AttemptCount e + 1,
            dq_LastError := dr_Error (d n t),
            dq_NextRetryAt := (case ?next of Some t \<Rightarrow> rfc3339 t | None \<Rightarrow> dq_NextRetryAt r),
            dq_LastAttemptAt := Some (rfc3339 (ae_now env))\<rparr>"])
         (auto simp: attemptDelivery_def attempt_failed_def UpdateAttempt_def touches_def dq_update_rows
            attempt_row_def Let_def)
  qed
qed

section \<open>The invariant of the queue\<close>

definition row_ok :: "dq_entry \<Rightarrow> bool" where
  "row_ok e \<longleftrightarrow> 0 \<le> dq_AttemptCount e \<and> dq_AttemptCount e \<le> dq_MaxAttempts e \<and>
     (dq_active (dq_Status e) \<longrightarrow> dq_AttemptCount e < dq_MaxAttempts e)"

definition dq_key :: "dq_entry \<Rightarrow> string \<times> string" where
  "dq_key e = (dq_WorkflowID e, dq_Endpoint e)"

definition dq_inv :: "dq_store \<Rightarrow> bool" where
  "dq_inv s \<longleftrightarrow> distinct (map dq_ID (dq_rows s)) \<and> list_all row_ok (dq_rows s) \<and>
     distinct (map dq_key (filter (\<lambda>e. dq_active (dq_Status e)) (dq_rows s)))"

lemma dq_inv_empty: "dq_inv empty_store"
  by (simp add: dq_inv_def empty_store_def)

lemma touch_keys:
  assumes "\<And>r. r \<in> set rows \<Longrightarrow> P (f r) \<Longrightarrow> P r" and "\<And>r. k (f r) = k r"
  shows "set (map k (filter P (map f rows))) \<subseteq> set (map k (filter P rows))"
  using assms by (fastforce simp: image_def)

lemma touch_distinct:
  assumes "\<And>r. r \<in> set rows \<Longrightarrow> P (f r) \<Longrightarrow> P r" and "\<And>r. k (f r) = k r"
  shows "distinct (map k (filter P rows)) \<Longrightarrow> distinct (map k (filter P (map f rows)))"
  using assms
proof (induction rows)
  case Nil
  then show ?case by simp
next
  case (Cons r rows)
  have sub: "set (map k (filter P (map f rows))) \<subseteq> set (map k (filter P rows))"
    by (rule touch_keys) (use Cons.prems in auto)
  have "k r \<notin> set (map k (filter P (map f rows)))" if "P r"
    using that Cons.prems sub by auto
  moreover have "distinct (map k (filter P (map f rows)))"
    by (rule Cons.IH) (use Cons.prems in \<open>auto split: if_splits\<close>)
  ultimately show ?case using Cons.prems(2)[of r] Cons.prems(3) by auto
qed

lemma supersede_simps [simp]:
  "dq_ID (supersede w ep e) = dq_ID e" "dq_key (supersede w ep e) = dq_key e"
  "dq_AttemptCount (supersede w ep e) = dq_AttemptCount e" "dq_MaxAttempts (supersede w ep e) = dq_MaxAttempts e"
  "dq_active (dq_Status (supersede w ep e)) \<longleftrightarrow> dq_active (dq_Status e) \<and> (dq_WorkflowID e, dq_Endpoint e) \<noteq> (w, ep)"
  by (auto simp: supersede_def dq_key_def)

lemma superseded_key:
  "(w, ep) \<notin> set (map dq_key (filter (\<lambda>e. dq_active (dq_Status e)) (map (supersede w ep) rows)))"
proof (induction rows)
  case (Cons e rows)
  have "dq_key (supersede w ep e) = (dq_WorkflowID e, dq_Endpoint e)"
    by (simp add: dq_key_def supersede_def)
  with Cons show ?case by (auto simp del: supersede_simps(2))
qed simp

lemma dq_inv_Enqueue: "dq_inv s \<Longrightarrow> dq_Enqueue now nid w rid sched fires n t s = Some s' \<Longrightarrow> dq_inv s'"
proof -
  assume inv: "dq_inv s" and enq: "dq_Enqueue now nid w rid sched fires n t s = Some s'"
  let ?e = "new_entry now nid w rid (ComputeRetryWindow sched fires) n t"
  let ?e' = "?e\<lparr>dq_NextRetryAt := rfc3339 (dq_NextRetryAt ?e), dq_CreatedAt := rfc3339 now\<rparr>"
  let ?old = "map (supersede w (endpointKey t)) (dq_rows s)"
  have fresh: "nid \<notin> set (map dq_ID (dq_rows s))" and rows: "dq_rows s' = ?old @ [?e']"
    using enq by (auto simp: dq_Enqueue_def SupersedeAndInsert_def new_entry_def split: if_splits)
  have key: "dq_key ?e' = (w, endpointKey t)" by (simp add: dq_key_def new_entry_def)
  have d: "distinct (map dq_key (filter (\<lambda>e. dq_active (dq_Status e)) ?old))"
    by (rule touch_distinct) (use inv in \<open>simp_all add: dq_inv_def\<close>)
  have n: "(w, endpointKey t) \<notin> set (map dq_key (filter (\<lambda>e. dq_active (dq_Status e)) ?old))"
    by (rule superseded_key)
  have e: "dq_active (dq_Status ?e')" "row_ok ?e'" "dq_ID ?e' = nid"
    by (simp_all add: new_entry_def row_ok_def)
  have r: "list_all row_ok ?old" using inv by (auto simp: dq_inv_def list_all_iff row_ok_def)
  have i: "map dq_ID ?old = map dq_ID (dq_rows s)" by (simp add: comp_def)
  have "distinct (map dq_ID (dq_rows s'))" unfolding rows map_append i
    using inv fresh e(3) by (simp add: dq_inv_def)
  moreover have "list_all row_ok (dq_rows s')" unfolding rows using r e(2) by simp
  moreover have "distinct (map dq_key (filter (\<lambda>e. dq_active (dq_Status e)) (dq_rows s')))"
    unfolding rows filter_append map_append using d n e(1) key by simp
  ultimately show ?thesis by (simp add: dq_inv_def)
qed

lemma dq_inv_Dismiss: "dq_inv s \<Longrightarrow> dq_inv (store_Dismiss i s)"
proof -
  assume inv: "dq_inv s"
  let ?act = "\<lambda>e. dq_active (dq_Status e)"
  have "filter ?act (filter (\<lambda>e. dq_ID e \<noteq> i) (dq_rows s)) = filter (\<lambda>e. dq_ID e \<noteq> i) (filter ?act (dq_rows s))"
    by (simp add: conj_commute)
  then show ?thesis using inv
    by (auto simp: dq_inv_def store_Dismiss_def list_all_iff intro: distinct_map_filter simp del: filter_filter)
qed

text \<open>An attempt on an active row of the table keeps the invariant.\<close>

lemma dq_inv_touch:
  assumes inv: "dq_inv s" and e: "e \<in> set (dq_rows s)" "dq_active (dq_Status e)"
    and t: "touches (dq_ID e) f s s'" and f: "\<And>r. attempt_row e r (f r)"
  shows "dq_inv s'"
proof -
  let ?g = "\<lambda>r. if dq_ID r = dq_ID e then f r else r"
  have rows: "dq_rows s' = map ?g (dq_rows s)" using t by (simp add: touches_def)
  have same: "r = e" if "r \<in> set (dq_rows s)" "dq_ID r = dq_ID e" for r
    using inv that e(1) by (auto simp: dq_inv_def distinct_map inj_on_def)
  have ok: "row_ok (f e)" using f[of e] inv e by (auto simp: attempt_row_def row_ok_def dq_inv_def list_all_iff)
  have ids: "map dq_ID (dq_rows s') = map dq_ID (dq_rows s)"
    unfolding rows using f by (auto simp: attempt_row_def)
  have "list_all row_ok (dq_rows s')" using inv ok same unfolding rows by (auto simp: dq_inv_def list_all_iff)
  moreover have "distinct (map dq_key (filter (\<lambda>r. dq_active (dq_Status r)) (dq_rows s')))"
    unfolding rows
  proof (rule touch_distinct)
    show "r \<in> set (dq_rows s) \<Longrightarrow> dq_active (dq_Status (?g r)) \<Longrightarrow> dq_active (dq_Status r)" for r
      using same[of r] e(2) by (auto split: if_splits)
    show "dq_key (?g r) = dq_key r" for r using f[of r] by (auto simp: dq_key_def attempt_row_def)
    show "distinct (map dq_key (filter (\<lambda>r. dq_active (dq_Status r)) (dq_rows s)))"
      using inv by (simp add: dq_inv_def)
  qed
  ultimately show ?thesis using inv ids by (simp add: dq_inv_def)
qed

lemma attempt_keeps:
  assumes "dq_inv s" "e \<in> set (dq_rows s)" "dq_active (dq_Status e)"
  shows "dq_inv (fst (attemptDelivery env e s))"
    and "\<And>r. r \<in> set (dq_rows s) \<Longrightarrow> dq_ID r \<noteq> dq_ID e \<Longrightarrow> r \<in> set (dq_rows (fst (attemptDelivery env e s)))"
proof -
  show "dq_inv (fst (attemptDelivery env e s))"
    using assms attempt_ineffective[of env e s] attempt_effective[of env e s] dq_inv_touch[OF assms]
    by (cases "effective env e s") auto
  show "r \<in> set (dq_rows (fst (attemptDelivery env e s)))"
    if "r \<in> set (dq_rows s)" "dq_ID r \<noteq> dq_ID e" for r
    using that attempt_ineffective[of env e s] attempt_effective[of env e s]
    by (cases "effective env e s") (auto simp: touches_def intro!: image_eqI[of _ _ r])
qed

text \<open>The entries a sweep still has to attempt are active rows of the table.\<close>

definition pending_rows :: "dq_entry list \<Rightarrow> dq_store \<Rightarrow> bool" where
  "pending_rows es s \<longleftrightarrow> dq_inv s \<and> distinct (map dq_ID es) \<and> distinct (map dq_key es) \<and>
     (\<forall>e\<in>set es. e \<in> set (dq_rows s) \<and> dq_active (dq_Status e))"

lemma pending_rows_step:
  assumes "pending_rows (e # es) s"
  shows "pending_rows es (fst (attemptDelivery env e s))"
proof -
  have e: "dq_inv s" "e \<in> set (dq_rows s)" "dq_active (dq_Status e)"
    using assms by (auto simp: pending_rows_def)
  have "r \<in> set (dq_rows (fst (attemptDelivery env e s)))" if "r \<in> set es" for r
    by (rule attempt_keeps(2)[OF e]) (use that assms in \<open>auto simp: pending_rows_def image_def\<close>)
  with attempt_keeps(1)[OF e, of env] show ?thesis using assms by (auto simp: pending_rows_def)
qed

lemma sweep_Cons:
  "fst (sweep env j (e # es) s) =
     (if ae_ctxDone (env j) then s else fst (sweep env (Suc j) es (fst (attemptDelivery (env j) e s))))"
  "snd (sweep env j (e # es) s) =
     (if ae_ctxDone (env j) then []
      else snd (attemptDelivery (env j) e s) @ snd (sweep env (Suc j) es (fst (attemptDelivery (env j) e s))))"
  by (simp_all split: prod.splits)

lemma dq_inv_sweep: "pending_rows es s \<Longrightarrow> dq_inv (fst (sweep env j es s))"
proof (induction es arbitrary: j s)
  case (Cons e es)
  show ?case using Cons.IH[OF pending_rows_step[OF Cons.prems]] Cons.prems
    by (auto simp: pending_rows_def sweep_Cons simp del: sweep.simps)
qed (simp add: pending_rows_def)

lemma ListDue_pending: "dq_inv s \<Longrightarrow> pending_rows (ListDue now n s) s"
proof -
  assume inv: "dq_inv s"
  let ?act = "filter (\<lambda>e. dq_active (dq_Status e)) (dq_rows s)"
  let ?due = "filter (\<lambda>e. dq_NextRetryAt e \<le> rfc3339 now) ?act"
  have due: "ListDue now n s = take n (sort_key dq_NextRetryAt ?due)"
    by (simp add: ListDue_def conj_commute)
  have mono: "distinct (map k (ListDue now n s))" if "distinct (map k ?act)" for k :: "dq_entry \<Rightarrow> 'a"
  proof -
    have "distinct (map k ?due)" using that by (rule distinct_map_filter)
    then have "distinct (map k (sort_key dq_NextRetryAt ?due))" by (simp add: distinct_map)
    then show ?thesis unfolding due by (simp add: take_map[symmetric] distinct_take)
  qed
  have "distinct (map dq_ID ?act)" using inv by (intro distinct_map_filter) (simp add: dq_inv_def)
  moreover have "distinct (map dq_key ?act)" using inv by (simp add: dq_inv_def)
  moreover have "set (ListDue now n s) \<subseteq> set ?act" unfolding due
    using set_take_subset[of n "sort_key dq_NextRetryAt ?due"] by auto
  ultimately show ?thesis using inv mono[of dq_ID] mono[of dq_key] by (auto simp: pending_rows_def)
qed

lemma dq_inv_RunOnce: "dq_inv s \<Longrightarrow> dq_inv (fst (dq_RunOnce now env s))"
  by (simp add: dq_RunOnce_def dq_inv_sweep ListDue_pending)

section \<open>How often an entry is attempted\<close>

text \<open>The attempts an entry has left.\<close>

definition left_of :: "dq_entry \<Rightarrow> nat" where
  "left_of e = (if dq_active (dq_Status e) then nat (dq_MaxAttempts e - dq_AttemptCount e) else 0)"

definition attempts_left :: "string \<Rightarrow> dq_store \<Rightarrow> nat" where
  "attempts_left i s = (case dq_Get i s of None \<Rightarrow> 0 | Some e \<Rightarrow> left_of e)"

lemma Get_row: "dq_inv s \<Longrightarrow> e \<in> set (dq_rows s) \<Longrightarrow> dq_Get (dq_ID e) s = Some e"
proof -
  have "distinct (map dq_ID rows) \<Longrightarrow> e \<in> set rows \<Longrightarrow> find (\<lambda>r. dq_ID r = dq_ID e) rows = Some e" for rows
    by (induction rows) auto
  then show "dq_inv s \<Longrightarrow> e \<in> set (dq_rows s) \<Longrightarrow> dq_Get (dq_ID e) s = Some e"
    by (simp add: dq_inv_def dq_Get_def)
qed

lemma find_map_same: "(\<And>r. P (f r) = P r) \<Longrightarrow> find P (map f rows) = map_option f (find P rows)"
  by (induction rows) auto

lemma find_Some_sat: "find P rows = Some e \<Longrightarrow> e \<in> set rows \<and> P e"
  by (induction rows) (auto split: if_splits)

lemma Get_touches:
  assumes "touches i f s s'" and "\<And>r. dq_ID (f r) = dq_ID r"
  shows "dq_Get k s' = map_option (\<lambda>r. if dq_ID r = i then f r else r) (dq_Get k s)"
  unfolding dq_Get_def assms(1)[unfolded touches_def] by (rule find_map_same) (simp add: assms(2))

lemma attempt_row_ID: "attempt_row e r r' \<Longrightarrow> dq_ID r' = dq_ID r"
  by (simp add: attempt_row_def)

text \<open>An attempt on a row costs the row one of the attempts it has left.\<close>

lemma attempt_left:
  assumes "dq_inv s" "e \<in> set (dq_rows s)" "dq_active (dq_Status e)"
  shows "count_list (snd (attemptDelivery env e s)) (DeliverAttempt i) +
           attempts_left i (fst (attemptDelivery env e s)) \<le> attempts_left i s"
    and "effective env e s \<Longrightarrow> DeliverAttempt (dq_ID e) \<in> set (snd (attemptDelivery env e s))"
proof -
  have lt: "0 \<le> dq_AttemptCount e" "dq_AttemptCount e < dq_MaxAttempts e"
    using assms by (auto simp: dq_inv_def list_all_iff row_ok_def)
  have cnt: "count_list (snd (attemptDelivery env e s)) (DeliverAttempt i) \<le> (if i = dq_ID e then 1 else 0)"
    by (auto simp: attemptDelivery_def attempt_sent_def attempt_failed_def Let_def broadcastBadge_def
          escalate_def split: option.splits prod.splits)
  show "count_list (snd (attemptDelivery env e s)) (DeliverAttempt i) +
           attempts_left i (fst (attemptDelivery env e s)) \<le> attempts_left i s"
  proof (cases "effective env e s")
    case False
    then show ?thesis by (simp add: attempt_ineffective)
  next
    case True
    then obtain f where t: "touches (dq_ID e) f s (fst (attemptDelivery env e s))"
      and f: "\<And>r. attempt_row e r (f r)" using attempt_effective by blast
    have get: "dq_Get i (fst (attemptDelivery env e s)) =
        map_option (\<lambda>r. if dq_ID r = dq_ID e then f r else r) (dq_Get i s)"
      by (rule Get_touches[OF t]) (rule attempt_row_ID[OF f])
    show ?thesis
    proof (cases "i = dq_ID e")
      case True
      have "dq_Get i s = Some e" using True assms Get_row by blast
      moreover have "Suc (left_of (f e)) \<le> left_of e" using f[of e] assms(3) lt
        by (auto simp: attempt_row_def left_of_def)
      ultimately show ?thesis using get cnt True by (simp add: attempts_left_def)
    next
      case False
      have "r \<in> set (dq_rows s) \<and> dq_ID r = i" if "dq_Get i s = Some r" for r
        using find_Some_sat[OF that[unfolded dq_Get_def]] by simp
      then have "attempts_left i (fst (attemptDelivery env e s)) = attempts_left i s"
        using get False by (auto simp: attempts_left_def split: option.splits)
      then show ?thesis using cnt False by simp
    qed
  qed
  show "effective env e s \<Longrightarrow> DeliverAttempt (dq_ID e) \<in> set (snd (attemptDelivery env e s))"
    by (auto simp: effective_def attemptDelivery_def Let_def Option.is_none_def split: prod.splits)
qed

lemma sweep_left:
  "pending_rows es s \<Longrightarrow> count_list (snd (sweep env j es s)) (DeliverAttempt i) +
     attempts_left i (fst (sweep env j es s)) \<le> attempts_left i s"
proof (induction es arbitrary: j s)
  case (Cons e es)
  have e: "dq_inv s" "e \<in> set (dq_rows s)" "dq_active (dq_Status e)"
    using Cons.prems by (auto simp: pending_rows_def)
  show ?case
    using Cons.IH[OF pending_rows_step[OF Cons.prems, of "env j"], of "Suc j"] attempt_left(1)[OF e, of "env j" i]
    by (simp add: sweep_Cons del: sweep.simps)
qed simp

section \<open>Sequences of operations\<close>

text \<open>What the scheduler and the operator do to the queue, without forced retries.\<close>

datatype dq_op =
  OpEnqueue gotime string string string string "gotime list option" notification notification_delivery
| OpDismiss bool string
| OpSweep gotime "nat \<Rightarrow> attempt_env"

primrec dq_op_step :: "dq_op \<Rightarrow> dq_store \<Rightarrow> dq_store \<times> dq_effect list" where
  "dq_op_step (OpEnqueue now nid w rid sched fires n t) s =
     (case dq_Enqueue now nid w rid sched fires n t s of None \<Rightarrow> (s, []) | Some s' \<Rightarrow> (s', []))"
| "dq_op_step (OpDismiss hasFn i) s = dq_Dismiss hasFn i s"
| "dq_op_step (OpSweep now env) s = dq_RunOnce now env s"

fun dq_run :: "dq_op list \<Rightarrow> dq_store \<Rightarrow> dq_store \<times> dq_effect list" where
  "dq_run [] s = (s, [])"
| "dq_run (x # xs) s =
     (case dq_op_step x s of (s1, fx) \<Rightarrow> (case dq_run xs s1 of (s2, fx') \<Rightarrow> (s2, fx @ fx')))"

lemma dq_run_Cons:
  "fst (dq_run (x # xs) s) = fst (dq_run xs (fst (dq_op_step x s)))"
  "snd (dq_run (x # xs) s) = snd (dq_op_step x s) @ snd (dq_run xs (fst (dq_op_step x s)))"
  by (simp_all split: prod.splits)

lemma dq_inv_op: "dq_inv s \<Longrightarrow> dq_inv (fst (dq_op_step x s))"
  by (cases x) (auto simp: dq_Dismiss_def Let_def dq_inv_Dismiss dq_inv_RunOnce dq_inv_Enqueue split: option.splits)

lemma dq_inv_run: "dq_inv s \<Longrightarrow> dq_inv (fst (dq_run xs s))"
  by (induction xs arbitrary: s) (auto simp: dq_run_Cons dq_inv_op simp del: dq_run.simps(2))

text \<open>The operation enqueues an entry under the identifier \<open>i\<close>.\<close>

primrec enqueues :: "string \<Rightarrow> dq_op \<Rightarrow> bool" where
  "enqueues i (OpEnqueue now nid w rid sched fires n t) = (nid = i)"
| "enqueues i (OpDismiss hasFn k) = False"
| "enqueues i (OpSweep now env) = False"

lemma find_append: "find P (xs @ ys) = (case find P xs of None \<Rightarrow> find P ys | Some x \<Rightarrow> Some x)"
  by (induction xs) auto

lemma left_supersede: "left_of (supersede w ep e) \<le> left_of e"
  by (auto simp: left_of_def supersede_def)

lemma left_new: "dq_AttemptCount e = 0 \<Longrightarrow> dq_MaxAttempts e = 5 \<Longrightarrow> left_of e \<le> 5"
  by (simp add: left_of_def)

lemma left_Enqueue:
  assumes "dq_Enqueue now nid w rid sched fires n t s = Some s'"
  shows "attempts_left i s' \<le> attempts_left i s + (if nid = i then 5 else 0)"
proof -
  let ?e = "(new_entry now nid w rid (ComputeRetryWindow sched fires) n t)
     \<lparr>dq_NextRetryAt := rfc3339 now, dq_CreatedAt := rfc3339 now\<rparr>"
  have "dq_rows s' = map (supersede w (endpointKey t)) (dq_rows s) @ [?e]"
    using assms by (auto simp: dq_Enqueue_def SupersedeAndInsert_def new_entry_def split: if_splits)
  moreover have id: "dq_ID ?e = nid" by (simp add: new_entry_def)
  ultimately have "dq_Get i s' = (case map_option (supersede w (endpointKey t)) (dq_Get i s) of
      None \<Rightarrow> (if nid = i then Some ?e else None) | Some e \<Rightarrow> Some e)"
    using id by (auto simp: dq_Get_def find_append find_map_same simp del: find.simps(2) split: option.splits)
       (simp_all add: find.simps)
  moreover have "left_of ?e \<le> 5" by (rule left_new) (simp_all add: new_entry_def)
  ultimately show ?thesis using left_supersede
    by (auto simp: attempts_left_def trans_le_add1 split: option.splits)
qed

lemma left_Dismiss: "attempts_left i (store_Dismiss k s) \<le> attempts_left i s"
proof -
  have eq: "find (\<lambda>e. dq_ID e = i) (filter (\<lambda>e. dq_ID e \<noteq> k) rows) =
      (if i = k then None else find (\<lambda>e. dq_ID e = i) rows)" for rows
    by (induction rows) auto
  have "dq_Get i (store_Dismiss k s) = (if i = k then None else dq_Get i s)"
    using eq[of "dq_rows s"] by (simp add: dq_Get_def store_Dismiss_def)
  then show ?thesis by (simp add: attempts_left_def)
qed

lemma op_left:
  assumes inv: "dq_inv s"
  shows "count_list (snd (dq_op_step x s)) (DeliverAttempt i) + attempts_left i (fst (dq_op_step x s))
     \<le> attempts_left i s + (if enqueues i x then 5 else 0)"
proof (cases x)
  case (OpEnqueue now nid w rid sched fires n t)
  then show ?thesis
  proof (cases "dq_Enqueue now nid w rid sched fires n t s")
    case (Some s')
    with OpEnqueue left_Enqueue[OF Some, of i] show ?thesis by simp
  qed simp
next
  case (OpDismiss hasFn k)
  then show ?thesis using left_Dismiss[of i k s] by (simp add: dq_Dismiss_def Let_def broadcastBadge_def)
next
  case (OpSweep now env)
  then show ?thesis using sweep_left[OF ListDue_pending[OF inv]] by (simp add: dq_RunOnce_def)
qed

lemma run_left:
  "dq_inv s \<Longrightarrow> count_list (snd (dq_run xs s)) (DeliverAttempt i) + attempts_left i (fst (dq_run xs s))
     \<le> attempts_left i s + 5 * length (filter (enqueues i) xs)"
proof (induction xs arbitrary: s)
  case (Cons x xs)
  show ?case using Cons.IH[OF dq_inv_op[OF Cons.prems, of x]] op_left[OF Cons.prems, of x i]
    by (cases "enqueues i x") (simp_all add: dq_run_Cons del: dq_run.simps(2))
qed simp

section \<open>Entries get settled\<close>

text \<open>A sweep at \<open>now\<close> reaches the entry \<open>i\<close>: it is due and among the 50 rows read, its endpoint's
  circuit admits it, its payload decodes, and the sweep is not cancelled.\<close>

definition reaches :: "string \<Rightarrow> gotime \<Rightarrow> (nat \<Rightarrow> attempt_env) \<Rightarrow> dq_store \<Rightarrow> bool" where
  "reaches i now env s \<longleftrightarrow>
     list_all (\<lambda>j. \<not> ae_ctxDone (env j)) [0..<50] \<and>
     (case find (\<lambda>e. dq_ID e = i) (ListDue now 50 s) of
        None \<Rightarrow> False
      | Some e \<Rightarrow> list_all (\<lambda>j. effective (env j) e s) [0..<50])"

lemma gm_get_put_other: "k' \<noteq> k \<Longrightarrow> gm_get (gm_put k v m) k' = gm_get m k'"
  by simp

lemma GetHealth_Upsert_other: "(w', ep') \<noteq> (w, ep) \<Longrightarrow> GetHealth w' ep' (UpsertHealth w ep h s) = GetHealth w' ep' s"
  by (auto simp: GetHealth_def UpsertHealth_def)

lemma GetHealth_update [simp]: "GetHealth w ep (dq_update i f s) = GetHealth w ep s"
  by (simp add: GetHealth_def dq_update_def)

lemma attempt_health_other:
  "(w, ep) \<noteq> dq_key e \<Longrightarrow> GetHealth w ep (fst (attemptDelivery env e s)) = GetHealth w ep s"
  by (auto simp: attemptDelivery_def attempt_sent_def attempt_failed_def Let_def UpdateAttempt_def
        MarkDelivered_def GetHealth_Upsert_other dq_key_def split: option.splits prod.splits)

lemma sweep_reaches:
  assumes "pending_rows es s" "e \<in> set es"
    and "\<And>k. k < j + length es \<Longrightarrow> \<not> ae_ctxDone (env k) \<and> effective (env k) e s"
  shows "DeliverAttempt (dq_ID e) \<in> set (snd (sweep env j es s))"
  using assms
proof (induction es arbitrary: j s)
  case (Cons x es)
  have x: "dq_inv s" "x \<in> set (dq_rows s)" "dq_active (dq_Status x)"
    using Cons.prems by (auto simp: pending_rows_def)
  have j: "\<not> ae_ctxDone (env j)" "effective (env j) e s" using Cons.prems(3)[of j] by auto
  show ?case
  proof (cases "x = e")
    case True
    then show ?thesis using j attempt_left(2)[OF x, of "env j"] by (simp add: sweep_Cons del: sweep.simps)
  next
    case False
    let ?s1 = "fst (attemptDelivery (env j) x s)"
    have "dq_key e \<in> dq_key ` set es" using Cons.prems(2) False by simp
    then have "dq_key e \<noteq> dq_key x" using Cons.prems(1) by (auto simp: pending_rows_def)
    then have h: "GetHealth (dq_WorkflowID e) (dq_Endpoint e) ?s1 = GetHealth (dq_WorkflowID e) (dq_Endpoint e) s"
      by (intro attempt_health_other) (simp add: dq_key_def)
    have "DeliverAttempt (dq_ID e) \<in> set (snd (sweep env (Suc j) es ?s1))"
    proof (rule Cons.IH[OF pending_rows_step[OF Cons.prems(1)]])
      show "e \<in> set es" using Cons.prems(2) False by simp
      show "k < Suc j + length es \<Longrightarrow> \<not> ae_ctxDone (env k) \<and> effective (env k) e ?s1" for k
        using Cons.prems(3)[of k] h by (simp add: effective_def)
    qed
    then show ?thesis using j by (simp add: sweep_Cons del: sweep.simps)
  qed
qed simp

lemma reached_left:
  assumes "dq_inv s" "reaches i now env s"
  shows "attempts_left i (fst (dq_RunOnce now env s)) < attempts_left i s"
proof -
  from assms(2) obtain e where e: "find (\<lambda>e. dq_ID e = i) (ListDue now 50 s) = Some e"
    "list_all (\<lambda>j. effective (env j) e s) [0..<50]" "list_all (\<lambda>j. \<not> ae_ctxDone (env j)) [0..<50]"
    by (auto simp: reaches_def split: option.splits)
  have m: "e \<in> set (ListDue now 50 s)" "dq_ID e = i" using find_Some_sat[OF e(1)] by auto
  have len: "length (ListDue now 50 s) \<le> 50" by (simp add: ListDue_def)
  have "DeliverAttempt (dq_ID e) \<in> set (snd (sweep env 0 (ListDue now 50 s) s))"
    by (rule sweep_reaches[OF ListDue_pending[OF assms(1)] m(1)]) (use e len in \<open>auto simp: list_all_iff\<close>)
  then have "count_list (snd (dq_RunOnce now env s)) (DeliverAttempt i) \<noteq> 0"
    using m(2) by (simp add: dq_RunOnce_def count_list_0_iff)
  then show ?thesis
    using sweep_left[OF ListDue_pending[OF assms(1), of now 50], of env 0 i] by (simp add: dq_RunOnce_def)
qed

text \<open>Every sweep reaches the entry until it is settled.\<close>

primrec all_reach :: "string \<Rightarrow> (gotime \<times> (nat \<Rightarrow> attempt_env)) list \<Rightarrow> dq_store \<Rightarrow> bool" where
  "all_reach i [] s \<longleftrightarrow> True"
| "all_reach i (x # xs) s \<longleftrightarrow> (attempts_left i s = 0 \<or> reaches i (fst x) (snd x) s) \<and>
     all_reach i xs (fst (dq_RunOnce (fst x) (snd x) s))"

abbreviation sweeps :: "(gotime \<times> (nat \<Rightarrow> attempt_env)) list \<Rightarrow> dq_op list" where
  "sweeps \<equiv> map (\<lambda>x. OpSweep (fst x) (snd x))"

lemma all_reach_left:
  "dq_inv s \<Longrightarrow> all_reach i xs s \<Longrightarrow> attempts_left i (fst (dq_run (sweeps xs) s)) \<le> attempts_left i s - length xs"
proof (induction xs arbitrary: s)
  case (Cons x xs)
  let ?s1 = "fst (dq_RunOnce (fst x) (snd x) s)"
  have "attempts_left i ?s1 \<le> attempts_left i s - 1"
    using Cons.prems reached_left[OF Cons.prems(1), of i "fst x" "snd x"]
      op_left[OF Cons.prems(1), of "OpSweep (fst x) (snd x)" i] by (auto simp del: sweep.simps)
  moreover have "attempts_left i (fst (dq_run (sweeps xs) ?s1)) \<le> attempts_left i ?s1 - length xs"
    using Cons.IH[OF dq_inv_RunOnce[OF Cons.prems(1)]] Cons.prems(2) by simp
  ultimately show ?case by (simp add: dq_run_Cons del: dq_run.simps(2))
qed simp

lemma attempt_IDs: "map dq_ID (dq_rows (fst (attemptDelivery env e s))) = map dq_ID (dq_rows s)"
  using attempt_ineffective[of env e s] attempt_effective[of env e s]
  by (cases "effective env e s") (auto simp: touches_def attempt_row_def)

lemma sweep_IDs: "map dq_ID (dq_rows (fst (sweep env j es s))) = map dq_ID (dq_rows s)"
  by (induction es arbitrary: j s) (simp_all add: sweep_Cons attempt_IDs del: sweep.simps(2))

lemma sweeps_IDs: "map dq_ID (dq_rows (fst (dq_run (sweeps xs) s))) = map dq_ID (dq_rows s)"
  by (induction xs arbitrary: s) (simp_all add: dq_run_Cons dq_RunOnce_def sweep_IDs del: dq_run.simps(2))

lemma Get_exists: "(\<exists>e. dq_Get i s = Some e) \<longleftrightarrow> i \<in> set (map dq_ID (dq_rows s))"
proof -
  have "(\<exists>e. find (\<lambda>e. dq_ID e = i) rows = Some e) \<longleftrightarrow> i \<in> set (map dq_ID rows)" for rows
    by (induction rows) auto
  then show ?thesis by (simp add: dq_Get_def)
qed

lemma none_left_inactive:
  assumes "dq_inv s" "dq_Get i s = Some e" "attempts_left i s = 0"
  shows "\<not> dq_active (dq_Status e)"
proof
  assume "dq_active (dq_Status e)"
  moreover have "e \<in> set (dq_rows s)" using find_Some_sat[OF assms(2)[unfolded dq_Get_def]] by simp
  ultimately have "left_of e > 0" using assms(1) by (auto simp: dq_inv_def list_all_iff row_ok_def left_of_def)
  with assms(2,3) show False by (simp add: attempts_left_def)
qed

section \<open>Properties\<close>


text \<open>
  An entry is handed to a deliverer at most five times: over any sequence of enqueues,
  dismissals and sweeps, the attempts made under an identifier are at most five for each time an
  entry was enqueued under it. Delivered, failed, superseded and dismissed entries are never
  attempted again.
\<close>

lemma attempts_bounded:
  "count_list (snd (dq_run xs empty_store)) (DeliverAttempt i) \<le> 5 * length (filter (enqueues i) xs)"
  using run_left[OF dq_inv_empty, of xs i] by (simp add: attempts_left_def dq_Get_def empty_store_def)

text \<open>
  An entry gets settled: when every sweep reaches it, it is no longer pending or
  retrying after as many sweeps as it has attempts left, and it is still in the queue.
\<close>

lemma entry_settled:
  assumes "dq_inv s" and "dq_Get i s = Some e" and "all_reach i xs s"
    and "nat (dq_MaxAttempts e - dq_AttemptCount e) \<le> length xs"
  shows "\<exists>e'. dq_Get i (fst (dq_run (sweeps xs) s)) = Some e' \<and> \<not> dq_active (dq_Status e')"
proof -
  have "attempts_left i s \<le> length xs" using assms(2,4) by (simp add: attempts_left_def left_of_def)
  with all_reach_left[OF assms(1,3)] have "attempts_left i (fst (dq_run (sweeps xs) s)) = 0" by simp
  moreover obtain e' where "dq_Get i (fst (dq_run (sweeps xs) s)) = Some e'"
    using assms(2) Get_exists[of i s] Get_exists[of i "fst (dq_run (sweeps xs) s)"] sweeps_IDs[of xs s] by auto
  ultimately show ?thesis using none_left_inactive[OF dq_inv_run[OF assms(1)]] by blast
qed

text \<open>The witness: an endpoint that never answers, swept five times.\<close>

definition sample_note :: notification where
  "sample_note = \<lparr>nt_ID = ''n'', nt_RunID = [], nt_WorkflowID = ''w'', nt_WorkflowRunID = ''r'',
     nt_StepPosition = None, nt_StepName = [], nt_Summary = [], nt_Detail = [], nt_Severity = SeverityUrgent,
     nt_Status = NotifPending, nt_Deliveries = [], nt_CreatedAt = 0, nt_UpdatedAt = 0\<rparr>"

definition sample_target :: notification_delivery where
  "sample_target = \<lparr>nd_Type = ''webhook'', nd_SpaceID = [], nd_User = [], nd_From = [], nd_To = ''http://x'',
     nd_Connection = [], nd_SMTPHost = [], nd_SMTPPort = [], nd_SMTPFrom = [], nd_SMTPUser = [],
     nd_SMTPPass = [], nd_SMTPPassDeprecated = False\<rparr>"

definition sample_env :: "gotime \<Rightarrow> attempt_env" where
  "sample_env now = \<lparr>ae_ctxDone = False, ae_probeAt = now, ae_now = now,
     ae_deliver = Some (\<lambda>n t. \<lparr>dr_Type = ''webhook'', dr_Target = nd_To t, dr_Status = ''failed'',
       dr_Error = ''refused'', dr_SentAt = now\<rparr>),
     ae_random = 0, ae_notifStore = False, ae_broadcast = False, ae_escalation = (\<lambda>_ _. [])\<rparr>"

definition sample_enqueue :: "string \<Rightarrow> dq_op" where
  "sample_enqueue nid = OpEnqueue 0 nid ''w'' ''r'' [] None sample_note sample_target"

definition sample_sweeps :: "(gotime \<times> (nat \<Rightarrow> attempt_env)) list" where
  "sample_sweeps = map (\<lambda>k. (k * 10 ^ 13, \<lambda>_. sample_env (k * 10 ^ 13))) [1, 2, 3, 4, 5]"

text \<open>
  A forced retry makes any entry of the queue pending again, with the attempts it has
  counted, whatever status it had: a delivered notification is sent again, and a superseded entry
  comes back beside the one that superseded it.
\<close>

lemma forced_retry_revives:
  assumes "dq_Get i s = Some e"
  shows "\<exists>s' e'. ForceRetry now i s = Some s' \<and> dq_Get i s' = Some e' \<and> dq_Status e' = DqPending \<and>
     dq_AttemptCount e' = dq_AttemptCount e \<and> dq_NextRetryAt e' = rfc3339 now"
proof -
  have id: "dq_ID e = i" using find_Some_sat[OF assms[unfolded dq_Get_def]] by simp
  have up: "dq_Get i (UpdateAttempt now i DqPending n [] (Some now) s) =
      Some (e\<lparr>dq_Status := DqPending, dq_AttemptCount := n, dq_LastError := [], dq_NextRetryAt := rfc3339 now,
              dq_LastAttemptAt := Some (rfc3339 now)\<rparr>)" for n
    using assms id by (simp add: UpdateAttempt_def dq_Get_def dq_update_rows find_map_same)
  have same: "dq_Get i (UpsertHealth w ep h s2) = dq_Get i s2" for w ep h s2 by (simp add: dq_Get_def)
  show ?thesis using assms id up by (simp add: ForceRetry_def Let_def same)
qed

text \<open>The witness: two entries for one endpoint, the first superseded by the second and retried.\<close>

text \<open>After that forced retry the endpoint has two pending entries, so the invariant is broken.\<close>

lemma forced_retry_duplicates:
  "map_option (map dq_Status \<circ> dq_rows)
     (ForceRetry 0 ''a'' (fst (dq_run [sample_enqueue ''a'', sample_enqueue ''b''] empty_store))) =
   Some [DqPending, DqPending]"
  by code_simp

section \<open>The spacing of attempts\<close>

text \<open>The jitter keeps a delay within a tenth of its base, and the delays never shrink.\<close>

lemma nextRetryDelay_bounds:
  assumes "0 \<le> w" "0 \<le> r" "r \<le> 2 * ((w * retry_percent k * (second div 100)) div 10)"
  shows "\<bar>nextRetryDelay r w k - w * retry_percent k * (second div 100)\<bar> \<le> (w * retry_percent k * (second div 100)) div 10"
  using assms by (auto simp: nextRetryDelay_def Let_def)

lemma retry_percent_mono: "a \<le> b \<Longrightarrow> retry_percent a \<le> retry_percent b"
  by (auto simp: retry_percent_def)

lemma ComputeRetryWindow_le: "ComputeRetryWindow sched fires \<le> 86400"
  by (auto simp: ComputeRetryWindow_def Let_def split: option.splits)

end
