(* ===== verification/ToolRegistry.thy ===== *)
theory ToolRegistry
  imports Prelude "HOL-Library.List_Lexorder" "HOL-Library.Char_ord"
begin

text \<open>
  The registry of the tools an agent can call (\<^verbatim>\<open>internal/tools/registry.go\<close>,
  \<^verbatim>\<open>types.go\<close>): registration, the allow and block lists, provider tags, the schemas sent to the
  model and the forks of a session. A tool is its name, its permission level and its schema;
  what it does when it runs is an argument. A Go map is an association list, iterated in list
  order.
\<close>

section \<open>Types\<close>

datatype perm_level = PermRead | PermWrite | PermExec

record tool_result =
  tr_Output :: string
  tr_Error :: string
  tr_IsError :: bool

record tool =
  t_Name :: string
  t_Permission :: perm_level
  t_SchemaName :: string

datatype tool_error =
  SchemaNameMissing
| SchemaNameInvalid string
| AlreadyRegistered string
| UnknownTool string
| ToolFailed string

record registry =
  rg_tools :: "(string, tool) gomap"
  rg_allowed :: "string list option"
  rg_blocked :: "string list option"
  rg_provider :: "(string, string) gomap"

definition NewRegistry :: registry where
  "NewRegistry = \<lparr>rg_tools = [], rg_allowed = None, rg_blocked = None, rg_provider = []\<rparr>"

section \<open>Registration\<close>

definition tool_name_char :: "char \<Rightarrow> bool" where
  "tool_name_char c \<longleftrightarrow>
     (CHR ''a'' \<le> c \<and> c \<le> CHR ''z'') \<or> (CHR ''A'' \<le> c \<and> c \<le> CHR ''Z'') \<or>
     (CHR ''0'' \<le> c \<and> c \<le> CHR ''9'') \<or> c = CHR ''_'' \<or> c = CHR ''-''"

definition validToolName :: "string \<Rightarrow> bool" where
  "validToolName s \<longleftrightarrow> 1 \<le> length s \<and> length s \<le> 64 \<and> list_all tool_name_char s"

definition validateToolSchema :: "tool \<Rightarrow> tool_error option" where
  "validateToolSchema t =
     (if t_SchemaName t = [] then Some SchemaNameMissing
      else if \<not> validToolName (t_SchemaName t) then Some (SchemaNameInvalid (t_SchemaName t))
      else None)"

definition Register :: "tool \<Rightarrow> registry \<Rightarrow> registry" where
  "Register t r =
     (if validateToolSchema t \<noteq> None then r
      else r\<lparr>rg_tools := gm_put (t_Name t) t (rg_tools r)\<rparr>)"

definition RegisterStrict :: "tool \<Rightarrow> registry \<Rightarrow> tool_error + registry" where
  "RegisterStrict t r =
     (case validateToolSchema t of
        Some e \<Rightarrow> Inl e
      | None \<Rightarrow>
          if gm_get (rg_tools r) (t_Name t) \<noteq> None then Inl (AlreadyRegistered (t_Name t))
          else Inr (r\<lparr>rg_tools := gm_put (t_Name t) t (rg_tools r)\<rparr>))"

definition Unregister :: "string \<Rightarrow> registry \<Rightarrow> registry" where
  "Unregister name r = r\<lparr>rg_tools := gm_del name (rg_tools r)\<rparr>"

section \<open>Allow and block lists\<close>

definition SetAllowed :: "string list \<Rightarrow> registry \<Rightarrow> registry" where
  "SetAllowed names r = r\<lparr>rg_allowed := (if names = [] then None else Some names)\<rparr>"

definition SetBlocked :: "string list \<Rightarrow> registry \<Rightarrow> registry" where
  "SetBlocked names r = r\<lparr>rg_blocked := (if names = [] then None else Some names)\<rparr>"

definition IsEnabled :: "registry \<Rightarrow> string \<Rightarrow> bool" where
  "IsEnabled r name =
     (if (case rg_blocked r of None \<Rightarrow> False | Some b \<Rightarrow> name \<in> set b) then False
      else case rg_allowed r of None \<Rightarrow> True | Some a \<Rightarrow> name \<in> set a)"

definition Get :: "registry \<Rightarrow> string \<Rightarrow> tool option" where
  "Get r name =
     (case gm_get (rg_tools r) name of
        None \<Rightarrow> None
      | Some t \<Rightarrow> if IsEnabled r name then Some t else None)"

definition All :: "registry \<Rightarrow> tool list" where
  "All r = map (\<lambda>name. the (gm_get (rg_tools r) name))
     (filter (IsEnabled r) (sort (gm_keys (rg_tools r))))"

section \<open>Providers and schemas\<close>

definition TagTools :: "string list \<Rightarrow> string \<Rightarrow> registry \<Rightarrow> registry" where
  "TagTools names provider r = r\<lparr>rg_provider := fold (\<lambda>n. gm_put n provider) names (rg_provider r)\<rparr>"

definition ProviderFor :: "registry \<Rightarrow> string \<Rightarrow> string" where
  "ProviderFor r name = (case gm_get (rg_provider r) name of None \<Rightarrow> [] | Some p \<Rightarrow> p)"

definition enabled_tools :: "registry \<Rightarrow> tool list" where
  "enabled_tools r = filter (\<lambda>t. IsEnabled r (t_Name t)) (map snd (rg_tools r))"

definition AllSchemas :: "registry \<Rightarrow> string list" where
  "AllSchemas r = map t_SchemaName (enabled_tools r)"

definition AllSchemasForProviders :: "string list \<Rightarrow> registry \<Rightarrow> string list" where
  "AllSchemasForProviders providers r =
     (if providers = [] then []
      else map t_SchemaName (filter (\<lambda>t.
        let p = ProviderFor r (t_Name t)
        in p \<noteq> ''builtin'' \<and> p \<noteq> [] \<and> (''*'' \<in> set providers \<or> p \<in> set providers)) (enabled_tools r)))"

definition SchemasByNames :: "string list \<Rightarrow> registry \<Rightarrow> string list" where
  "SchemasByNames names r =
     (if names = [] then []
      else map t_SchemaName (filter (\<lambda>t. t_Name t \<in> set names) (enabled_tools r)))"

definition AllBuiltinSchemas :: "registry \<Rightarrow> string list" where
  "AllBuiltinSchemas r =
     map t_SchemaName (filter (\<lambda>t. ProviderFor r (t_Name t) = ''builtin'') (enabled_tools r))"

definition reg_Execute :: "(tool \<Rightarrow> tool_result) \<Rightarrow> registry \<Rightarrow> string \<Rightarrow> string \<times> tool_error option" where
  "reg_Execute run r name =
     (case Get r name of
        None \<Rightarrow> ([], Some (UnknownTool name))
      | Some t \<Rightarrow>
          let res = run t
          in (tr_Output res, if tr_IsError res then Some (ToolFailed (tr_Error res)) else None))"

text \<open>\<open>Fork\<close> copies the tools and the tags.\<close>

definition reg_Fork :: "registry \<Rightarrow> registry" where
  "reg_Fork r = \<lparr>rg_tools = rg_tools r, rg_allowed = None, rg_blocked = None, rg_provider = rg_provider r\<rparr>"

section \<open>Invariant\<close>

text \<open>A tool is filed under its own name and its schema name is valid.\<close>

definition registry_inv :: "registry \<Rightarrow> bool" where
  "registry_inv r \<longleftrightarrow> gm_wf (rg_tools r) \<and>
     list_all (\<lambda>(n, t). t_Name t = n \<and> validToolName (t_SchemaName t)) (rg_tools r)"

datatype registry_op =
  RegRegister tool
| RegRegisterStrict tool
| RegUnregister string
| RegSetAllowed "string list"
| RegSetBlocked "string list"
| RegTagTools "string list" string
| RegFork

fun registry_step :: "registry_op \<Rightarrow> registry \<Rightarrow> registry" where
  "registry_step (RegRegister t) r = Register t r"
| "registry_step (RegRegisterStrict t) r = (case RegisterStrict t r of Inl _ \<Rightarrow> r | Inr r' \<Rightarrow> r')"
| "registry_step (RegUnregister n) r = Unregister n r"
| "registry_step (RegSetAllowed ns) r = SetAllowed ns r"
| "registry_step (RegSetBlocked ns) r = SetBlocked ns r"
| "registry_step (RegTagTools ns p) r = TagTools ns p r"
| "registry_step RegFork r = reg_Fork r"

lemma set_gm_put_subset: "set (gm_put k v m) \<subseteq> insert (k, v) (set m)"
  by (induction m) auto

lemma set_gm_del_subset: "set (gm_del k m) \<subseteq> set m"
  by (induction m) auto

lemma registry_inv_put:
  "registry_inv r \<Longrightarrow> validateToolSchema t = None \<Longrightarrow> registry_inv (r\<lparr>rg_tools := gm_put (t_Name t) t (rg_tools r)\<rparr>)"
  using set_gm_put_subset[of "t_Name t" t "rg_tools r"]
  by (auto simp: registry_inv_def validateToolSchema_def list_all_iff split: if_splits)

lemma registry_inv_Unregister: "registry_inv r \<Longrightarrow> registry_inv (Unregister n r)"
  using set_gm_del_subset[of n "rg_tools r"]
  unfolding registry_inv_def Unregister_def list_all_iff by (simp add: subset_iff) blast

lemma registry_inv_step:
  assumes "registry_inv r"
  shows "registry_inv (registry_step x r)"
proof (cases x)
  case (RegUnregister n)
  then show ?thesis using assms by (simp add: registry_inv_Unregister)
qed (use assms registry_inv_put[of r] in \<open>auto simp: Register_def RegisterStrict_def SetAllowed_def
  SetBlocked_def TagTools_def reg_Fork_def registry_inv_def list_all_iff split: option.splits sum.splits\<close>)

lemma registry_inv_fold: "registry_inv r \<Longrightarrow> registry_inv (fold registry_step xs r)"
  by (induction xs arbitrary: r) (simp_all add: registry_inv_step)

lemma registry_inv_New: "registry_inv NewRegistry"
  by (simp add: registry_inv_def NewRegistry_def)

lemma Get_SomeD:
  assumes "registry_inv r" "Get r n = Some t"
  shows "t_Name t = n" "validToolName (t_SchemaName t)" "IsEnabled r n"
  using assms map_of_SomeD[of "rg_tools r" n t]
  by (auto simp: Get_def registry_inv_def list_all_iff split: option.splits if_splits)

text \<open>The enabled tools are those \<open>Get\<close> returns.\<close>

lemma enabled_Get:
  assumes "registry_inv r"
  shows "t \<in> set (enabled_tools r) \<longleftrightarrow> Get r (t_Name t) = Some t"
proof -
  have "t \<in> snd ` set (rg_tools r) \<longleftrightarrow> gm_get (rg_tools r) (t_Name t) = Some t"
    using assms by (force simp: registry_inv_def list_all_iff gm_get_Some_iff image_iff)
  then show ?thesis by (auto simp: enabled_tools_def Get_def split: option.splits)
qed

lemma All_Get:
  assumes "registry_inv r"
  shows "t \<in> set (All r) \<longleftrightarrow> Get r (t_Name t) = Some t"
proof
  assume "t \<in> set (All r)"
  then obtain n where n: "n \<in> set (gm_keys (rg_tools r))" "IsEnabled r n" "t = the (gm_get (rg_tools r) n)"
    by (auto simp: All_def)
  then obtain t' where t': "gm_get (rg_tools r) n = Some t'" using gm_get_None_iff[of "rg_tools r" n] by auto
  then have "Get r n = Some t" using n by (simp add: Get_def)
  with Get_SomeD(1)[OF assms this] show "Get r (t_Name t) = Some t" by simp
next
  assume "Get r (t_Name t) = Some t"
  then have g: "gm_get (rg_tools r) (t_Name t) = Some t" "IsEnabled r (t_Name t)"
    by (auto simp: Get_def split: option.splits if_splits)
  then have "t_Name t \<in> set (gm_keys (rg_tools r))" using gm_get_None_iff[of "rg_tools r" "t_Name t"] by auto
  with g show "t \<in> set (All r)" unfolding All_def by (force intro!: image_eqI[of _ _ "t_Name t"])
qed

section \<open>Properties\<close>

text \<open>
  In a registry built by any operations, the tools offered to a model, those listed and those
  a call can reach are the same: a schema by name belongs to a tool that \<open>Get\<close> returns under
  a name asked for, listed by \<open>All\<close>, filed under its own name and with a schema name the model can call.
\<close>

lemma offered_tools_callable:
  assumes "registry_inv r" and "s \<in> set (SchemasByNames names r)"
  shows "\<exists>t. t_SchemaName t = s \<and> t_Name t \<in> set names \<and> Get r (t_Name t) = Some t \<and> t \<in> set (All r) \<and>
     IsEnabled r (t_Name t) \<and> validToolName s"
proof -
  from assms(2) obtain t where t: "t \<in> set (enabled_tools r)" "t_SchemaName t = s" "t_Name t \<in> set names"
    by (auto simp: SchemasByNames_def split: if_splits)
  then have "Get r (t_Name t) = Some t" using enabled_Get[OF assms(1)] by simp
  with t All_Get[OF assms(1), of t] Get_SomeD[OF assms(1)] show ?thesis by blast
qed

definition bash_tool :: tool where
  "bash_tool = \<lparr>t_Name = ''bash'', t_Permission = PermExec, t_SchemaName = ''bash''\<rparr>"

text \<open>
  A fork forgets the allow and block lists: a tool the operator disabled cannot be reached
  in the registry, but it can be in every fork of it, and its schema is offered there again.
\<close>

lemma fork_enables_blocked:
  "Get (SetBlocked (n # ns) r) n = None \<and>
   Get (reg_Fork (SetBlocked (n # ns) r)) n = gm_get (rg_tools r) n \<and>
   AllSchemas (reg_Fork (SetBlocked (n # ns) r)) = map (t_SchemaName \<circ> snd) (rg_tools r)"
  by (auto simp: Get_def SetBlocked_def reg_Fork_def IsEnabled_def AllSchemas_def enabled_tools_def split: option.splits)

end
