(* ===== verification/PermissionGate.thy ===== *)
theory PermissionGate
  imports ToolRegistry Interfaces "HOL-Library.Multiset"
begin

text \<open>
  The permission gate of tool calls (\<^verbatim>\<open>internal/permissions/permissions.go\<close>): the check of a
  request against the providers, the auto-approval and the session's allow-list, the prompt to
  the user, the eviction from the allow-list, the forks of an agent run, and the relay channels
  that carry decisions from a remote user. The locks of the gate make each section between two
  of them one step; a prompt runs outside the lock, so a check is two steps
  (\<open>check_begin\<close>, \<open>check_end\<close>) between which other operations of the gate may happen.
\<close>

section \<open>Types\<close>

datatype decision = Allow | AllowOnce | AllowAll | Deny

record permission_request =
  pr_ToolName :: string
  pr_Level :: perm_level
  pr_Args :: json_args
  pr_Summary :: string
  pr_Provider :: string
  pr_AgentName :: string
  pr_SessionID :: string

datatype reason_code =
  ReasonNone | ReasonProviderNotAllowed | ReasonPromptUnavailable | ReasonPromptTimeout
| ReasonUserDenied | ReasonCancelled

record check_result =
  cr_Allowed :: bool
  cr_ReasonCode :: reason_code

text \<open>How the wait for a prompt ends.\<close>

datatype prompt_outcome = Answered decision | PromptTimedOut | PromptCancelled

text \<open>A set kept as a Go map of booleans: its keys mapped to true.\<close>

type_synonym boolset = "(string, bool) gomap"

definition flag :: "boolset \<Rightarrow> string \<Rightarrow> bool" where
  "flag m k = (gm_get m k = Some True)"

definition flag_opt :: "boolset option \<Rightarrow> string \<Rightarrow> bool" where
  "flag_opt m k = (case m of None \<Rightarrow> False | Some b \<Rightarrow> flag b k)"

record relay_entry =
  re_ch :: nat
  re_createdAt :: gotime

text \<open>\<open>lruList\<close> from front to back; \<open>lruItems\<close> is its index. The prompt callbacks themselves are
  arguments of the model, the state says which are bound.\<close>

record gate =
  g_skipAll :: bool
  g_watched :: boolset
  g_baseWatched :: "boolset option"
  g_allowed :: "boolset option"
  g_session :: boolset
  g_lru :: "string list"
  g_prompt :: bool
  g_promptCtx :: bool
  g_execRequiresPrompt :: bool
  g_execPromptExempt :: boolset
  g_relay :: "(string, relay_entry) gomap"
  g_closed :: bool

definition sessionAllowedMaxEntries :: nat where
  "sessionAllowedMaxEntries = 1000"

definition promptFuncTimeout :: duration where
  "promptFuncTimeout = 30 * second"

definition NewGate :: "bool \<Rightarrow> bool \<Rightarrow> gate" where
  "NewGate skipAll prompt =
     \<lparr>g_skipAll = skipAll, g_watched = [], g_baseWatched = None, g_allowed = None, g_session = [],
      g_lru = [], g_prompt = prompt, g_promptCtx = False, g_execRequiresPrompt = False,
      g_execPromptExempt = [], g_relay = [], g_closed = False\<rparr>"

section \<open>Settings\<close>

definition SetWatchedProviders :: "boolset option \<Rightarrow> gate \<Rightarrow> gate" where
  "SetWatchedProviders providers g =
     g\<lparr>g_watched := (case providers of None \<Rightarrow> [] | Some p \<Rightarrow> p)\<rparr>"

definition SetBaseWatchedProviders :: "boolset option \<Rightarrow> gate \<Rightarrow> gate" where
  "SetBaseWatchedProviders providers g = g\<lparr>g_baseWatched := providers\<rparr>"

definition SetPromptFunc :: "bool \<Rightarrow> gate \<Rightarrow> gate" where
  "SetPromptFunc b g = g\<lparr>g_prompt := b\<rparr>"

definition SetPromptFuncCtx :: "bool \<Rightarrow> gate \<Rightarrow> gate" where
  "SetPromptFuncCtx b g = g\<lparr>g_promptCtx := b\<rparr>"

definition SetExecRequiresPrompt :: "bool \<Rightarrow> gate \<Rightarrow> gate" where
  "SetExecRequiresPrompt b g = g\<lparr>g_execRequiresPrompt := b\<rparr>"

definition SetExecPromptExempt :: "string list \<Rightarrow> gate \<Rightarrow> gate" where
  "SetExecPromptExempt names g =
     g\<lparr>g_execPromptExempt := fold (\<lambda>n m. if n \<noteq> [] then gm_put n True m else m) names []\<rparr>"

definition SetAllowedProviders :: "boolset option \<Rightarrow> gate \<Rightarrow> gate" where
  "SetAllowedProviders providers g = g\<lparr>g_allowed := providers\<rparr>"

section \<open>The session's allow-list\<close>

text \<open>\<open>lruTouch\<close> moves a name to the front, adding it when it is not there.\<close>

definition lruTouch :: "string \<Rightarrow> gate \<Rightarrow> gate" where
  "lruTouch n g = g\<lparr>g_lru := n # filter (\<lambda>k. k \<noteq> n) (g_lru g)\<rparr>"

definition sessionAllowedFor :: "gate \<Rightarrow> string \<Rightarrow> bool" where
  "sessionAllowedFor g n \<longleftrightarrow> flag (g_session g) n \<or> flag (g_session g) ''*''"

definition SeedSessionAllowed :: "string list \<Rightarrow> gate \<Rightarrow> gate" where
  "SeedSessionAllowed names g =
     fold (\<lambda>n g. if n = [] \<or> flag (g_session g) n then g
                  else lruTouch n (g\<lparr>g_session := gm_put n True (g_session g)\<rparr>)) names g"

definition evict_back :: "gate \<Rightarrow> gate" where
  "evict_back g =
     (if g_lru g = [] then g
      else g\<lparr>g_lru := butlast (g_lru g), g_session := gm_del (last (g_lru g)) (g_session g)\<rparr>)"

definition allow_all :: "string \<Rightarrow> gate \<Rightarrow> gate" where
  "allow_all n g =
     (if sessionAllowedFor g n then lruTouch n g
      else let g1 = lruTouch n (g\<lparr>g_session := gm_put n True (g_session g)\<rparr>)
           in if length (g_session g1) > sessionAllowedMaxEntries then evict_back g1 else g1)"

section \<open>Forks\<close>

definition gate_Fork :: "boolset option \<Rightarrow> boolset option \<Rightarrow> gate \<Rightarrow> gate" where
  "gate_Fork watched allowed g =
     \<lparr>g_skipAll = g_skipAll g, g_watched = (case watched of None \<Rightarrow> [] | Some w \<Rightarrow> w),
      g_baseWatched = g_baseWatched g, g_allowed = allowed, g_session = g_session g, g_lru = g_lru g,
      g_prompt = g_prompt g, g_promptCtx = g_promptCtx g, g_execRequiresPrompt = g_execRequiresPrompt g,
      g_execPromptExempt = g_execPromptExempt g, g_relay = [], g_closed = False\<rparr>"

section \<open>The check\<close>

definition allowed_result :: check_result where
  "allowed_result = \<lparr>cr_Allowed = True, cr_ReasonCode = ReasonNone\<rparr>"

definition denied_result :: "reason_code \<Rightarrow> check_result" where
  "denied_result c = \<lparr>cr_Allowed = False, cr_ReasonCode = c\<rparr>"

definition provider_refused :: "gate \<Rightarrow> permission_request \<Rightarrow> bool" where
  "provider_refused g req \<longleftrightarrow>
     pr_Provider req \<noteq> [] \<and>
     (case g_allowed g of None \<Rightarrow> False | Some a \<Rightarrow> \<not> flag a (pr_Provider req) \<and> \<not> flag a ''*'')"

definition auto_approved :: "gate \<Rightarrow> permission_request \<Rightarrow> bool" where
  "auto_approved g req \<longleftrightarrow>
     g_skipAll g \<and>
     \<not> (flag (g_watched g) (pr_Provider req) \<or> flag_opt (g_baseWatched g) (pr_Provider req)) \<and>
     \<not> (g_execRequiresPrompt g \<and> pr_Level req = PermExec \<and> \<not> flag (g_execPromptExempt g) (pr_ToolName req))"

text \<open>Up to the prompt: \<open>Some\<close> a result without asking, or \<open>None\<close> when the user is asked.\<close>

definition check_begin :: "gate \<Rightarrow> permission_request \<Rightarrow> check_result option" where
  "check_begin g req =
     (if provider_refused g req then Some (denied_result ReasonProviderNotAllowed)
      else if pr_Level req = PermRead then Some allowed_result
      else if auto_approved g req then Some allowed_result
      else if sessionAllowedFor g (pr_ToolName req) then Some allowed_result
      else if \<not> g_prompt g \<and> \<not> g_promptCtx g then Some (denied_result ReasonPromptUnavailable)
      else None)"

text \<open>After the prompt.\<close>

fun check_end :: "permission_request \<Rightarrow> prompt_outcome \<Rightarrow> gate \<Rightarrow> gate \<times> check_result" where
  "check_end req PromptTimedOut g = (g, denied_result ReasonPromptTimeout)"
| "check_end req PromptCancelled g = (g, denied_result ReasonCancelled)"
| "check_end req (Answered AllowAll) g = (allow_all (pr_ToolName req) g, allowed_result)"
| "check_end req (Answered Allow) g = (g, allowed_result)"
| "check_end req (Answered AllowOnce) g = (g, allowed_result)"
| "check_end req (Answered Deny) g = (g, denied_result ReasonUserDenied)"

text \<open>The whole check: \<open>ask\<close> is the prompt, told whether the callback with a context is used, and
  \<open>during\<close> what other goroutines do to the gate while it waits.\<close>

definition CheckDetailedCtx :: "(bool \<Rightarrow> permission_request \<Rightarrow> prompt_outcome) \<Rightarrow> (gate \<Rightarrow> gate) \<Rightarrow>
    permission_request \<Rightarrow> gate \<Rightarrow> gate \<times> check_result" where
  "CheckDetailedCtx ask during req g =
     (case check_begin g req of
        Some r \<Rightarrow> (g, r)
      | None \<Rightarrow> check_end req (ask (g_promptCtx g) req) (during g))"

definition gate_Check :: "(bool \<Rightarrow> permission_request \<Rightarrow> prompt_outcome) \<Rightarrow> (gate \<Rightarrow> gate) \<Rightarrow>
    permission_request \<Rightarrow> gate \<Rightarrow> gate \<times> bool" where
  "gate_Check ask during req g = (case CheckDetailedCtx ask during req g of (g', r) \<Rightarrow> (g', cr_Allowed r))"

section \<open>Relay channels\<close>

text \<open>A decision sent on a channel; the channels are numbered.\<close>

type_synonym relay_send = "nat \<times> bool"

definition RegisterRelayResponse :: "gotime \<Rightarrow> string \<Rightarrow> nat \<Rightarrow> gate \<Rightarrow> gate" where
  "RegisterRelayResponse now i ch g =
     g\<lparr>g_relay := gm_put i \<lparr>re_ch = ch, re_createdAt = now\<rparr> (g_relay g)\<rparr>"

text \<open>The goroutine of a registration, when its context ends.\<close>

definition relay_ctx_done :: "string \<Rightarrow> nat \<Rightarrow> gate \<Rightarrow> gate \<times> relay_send list" where
  "relay_ctx_done i ch g =
     (if gm_get (g_relay g) i \<noteq> None then (g\<lparr>g_relay := gm_del i (g_relay g)\<rparr>, [(ch, False)])
      else (g, []))"

definition DeliverRelayResponse :: "string \<Rightarrow> bool \<Rightarrow> gate \<Rightarrow> gate \<times> relay_send list \<times> bool" where
  "DeliverRelayResponse i approved g =
     (case gm_get (g_relay g) i of
        None \<Rightarrow> (g, [], False)
      | Some e \<Rightarrow> (g\<lparr>g_relay := gm_del i (g_relay g)\<rparr>, [(re_ch e, approved)], True))"

definition sweepRelayChans :: "duration \<Rightarrow> gotime \<Rightarrow> gate \<Rightarrow> gate \<times> relay_send list" where
  "sweepRelayChans timeout now g =
     (let stale = (\<lambda>e. now - re_createdAt e > timeout * 3)
      in (g\<lparr>g_relay := filter (\<lambda>(_, e). \<not> stale e) (g_relay g)\<rparr>,
          map (\<lambda>(_, e). (re_ch e, False)) (filter (\<lambda>(_, e). stale e) (g_relay g))))"

definition gate_Close :: "gate \<Rightarrow> gate \<times> relay_send list" where
  "gate_Close g = (g\<lparr>g_closed := True, g_relay := []\<rparr>, map (\<lambda>(_, e). (re_ch e, False)) (g_relay g))"

section \<open>The line that describes a request\<close>

definition truncateLine :: "string \<Rightarrow> nat \<Rightarrow> string" where
  "truncateLine s n =
     (let s' = map (\<lambda>c. if c = CHR 0x0A then CHR '' '' else c) s
      in if length s' > n then take n s' @ [CHR 0xE2, CHR 0x80, CHR 0xA6] else s')"

text \<open>The verb \<open>%v\<close> on a decoded value; numbers are integers below \<open>10^21\<close>.\<close>

function go_v :: "json \<Rightarrow> string" where
  "go_v JNull = ''<nil>''"
| "go_v (JBool b) = (if b then ''true'' else ''false'')"
| "go_v (JNum n) = show_int n"
| "go_v (JStr s) = s"
| "go_v (JArr vs) = ''['' @ join_with '' '' (map go_v vs) @ '']''"
| "go_v (JObj kvs) =
     ''map['' @ join_with '' '' (map (\<lambda>(k, v). k @ '':'' @ v)
       (sort_key fst (map (\<lambda>(k, v). (k, go_v v)) kvs))) @ '']''"
  by pat_completeness auto
termination
proof (relation "measure size")
  show "(v, JArr vs) \<in> measure size" if "v \<in> set vs" for v vs
    using that by (induction vs) auto
  show "(v, JObj kvs) \<in> measure size" if "kv \<in> set kvs" "(k, v) = kv" for kv kvs k v
    using that by (induction kvs) auto
qed simp

definition arg_nonempty :: "json_args \<Rightarrow> string list \<Rightarrow> string option" where
  "arg_nonempty args keys =
     (case filter (\<lambda>k. arg_string args k \<noteq> []) keys of [] \<Rightarrow> None | k # _ \<Rightarrow> Some (arg_string args k))"

definition formatArgsReadable :: "json_args \<Rightarrow> string" where
  "formatArgsReadable args =
     join_with '', '' (map (\<lambda>k. k @ ''='' @ go_v (the (gm_get args k))) (sort (gm_keys args)))"

definition format_generic :: "permission_request \<Rightarrow> string" where
  "format_generic req =
     (let name = pr_ToolName req; args = pr_Args req
      in if has_prefix name ''browser_'' \<or> pr_Provider req \<noteq> [] then
           (if arg_string args ''url'' \<noteq> [] then name @ '': '' @ truncateLine (arg_string args ''url'') 80
            else case arg_nonempty args [''selector'', ''text'', ''query''] of
              Some s \<Rightarrow> name @ '': '' @ truncateLine s 80
            | None \<Rightarrow> if args = [] then name else name @ '': '' @ formatArgsReadable args)
         else name @ '': '' @ go_v (JObj args))"

definition FormatRequest :: "permission_request \<Rightarrow> string" where
  "FormatRequest req =
     (let name = pr_ToolName req; args = pr_Args req
      in if pr_Summary req \<noteq> [] then pr_Summary req
         else if name = ''bash'' then
           (case as_string (gm_get args ''command'') of
              Some cmd \<Rightarrow> ''bash: '' @ truncateLine cmd 80
            | None \<Rightarrow> format_generic req)
         else if name = ''write_file'' then
           (case as_string (gm_get args ''file_path'') of
              Some path \<Rightarrow> ''write_file: '' @ path @ '' ('' @ show_int (int (length (arg_string args ''content''))) @ '' bytes)''
            | None \<Rightarrow> format_generic req)
         else if name = ''edit_file'' then
           (case as_string (gm_get args ''file_path'') of
              Some path \<Rightarrow> ''edit_file: '' @ path
            | None \<Rightarrow> format_generic req)
         else format_generic req)"

section \<open>The operations as a system\<close>

datatype gate_op =
  GWatched "boolset option" | GBaseWatched "boolset option" | GAllowed "boolset option"
| GPrompt bool | GPromptCtx bool | GExecRequires bool | GExecExempt "string list"
| GSeed "string list" | GFork "boolset option" "boolset option"
| GAnswer permission_request prompt_outcome
| GRegister gotime string nat | GCtxDone string nat | GDeliver string bool
| GSweep duration gotime | GClose

fun gate_step :: "gate_op \<Rightarrow> gate \<Rightarrow> gate" where
  "gate_step (GWatched p) g = SetWatchedProviders p g"
| "gate_step (GBaseWatched p) g = SetBaseWatchedProviders p g"
| "gate_step (GAllowed p) g = SetAllowedProviders p g"
| "gate_step (GPrompt b) g = SetPromptFunc b g"
| "gate_step (GPromptCtx b) g = SetPromptFuncCtx b g"
| "gate_step (GExecRequires b) g = SetExecRequiresPrompt b g"
| "gate_step (GExecExempt ns) g = SetExecPromptExempt ns g"
| "gate_step (GSeed ns) g = SeedSessionAllowed ns g"
| "gate_step (GFork w a) g = gate_Fork w a g"
| "gate_step (GAnswer req r) g = fst (check_end req r g)"
| "gate_step (GRegister now i ch) g = RegisterRelayResponse now i ch g"
| "gate_step (GCtxDone i ch) g = fst (relay_ctx_done i ch g)"
| "gate_step (GDeliver i b) g = fst (DeliverRelayResponse i b g)"
| "gate_step (GSweep d now) g = fst (sweepRelayChans d now g)"
| "gate_step GClose g = fst (gate_Close g)"

text \<open>What an operation grants: the names of a seed, and the tool of an answer \<open>AllowAll\<close>.\<close>

fun grants :: "gate_op \<Rightarrow> string list" where
  "grants (GSeed ns) = ns"
| "grants (GAnswer req (Answered AllowAll)) = [pr_ToolName req]"
| "grants _ = []"

text \<open>What an operation sends on the relay channels.\<close>

fun relay_sends :: "gate_op \<Rightarrow> gate \<Rightarrow> relay_send list" where
  "relay_sends (GCtxDone i ch) g = snd (relay_ctx_done i ch g)"
| "relay_sends (GDeliver i b) g = fst (snd (DeliverRelayResponse i b g))"
| "relay_sends (GSweep d now) g = snd (sweepRelayChans d now g)"
| "relay_sends GClose g = snd (gate_Close g)"
| "relay_sends _ g = []"

section \<open>The allow-list and its order\<close>

text \<open>Every allowed name is in the eviction order, once.\<close>

definition gate_inv :: "gate \<Rightarrow> bool" where
  "gate_inv g \<longleftrightarrow> gm_wf (g_session g) \<and> distinct (g_lru g) \<and> set (gm_keys (g_session g)) \<subseteq> set (g_lru g)"

lemma flag_put [simp]: "flag (gm_put k v m) n \<longleftrightarrow> (if n = k then v else flag m n)"
  by (simp add: flag_def)

lemma flag_del [simp]: "flag (gm_del k m) n \<longleftrightarrow> n \<noteq> k \<and> flag m n"
  by (simp add: flag_def)

lemma flag_Nil [simp]: "\<not> flag [] n"
  by (simp add: flag_def)

lemma flag_Cons [simp]: "flag ((k, v) # m) n \<longleftrightarrow> (if n = k then v else flag m n)"
  by (simp add: flag_def)

lemma keys_put [simp]: "set (gm_keys (gm_put k v m)) = insert k (set (gm_keys m))"
  unfolding gm_keys_def by (induction m) auto

lemma keys_del [simp]: "set (gm_keys (gm_del k m)) = set (gm_keys m) - {k}"
  unfolding gm_keys_def by (induction m) auto

lemma gate_inv_touch: "gate_inv g \<Longrightarrow> gate_inv (lruTouch n g)"
  by (auto simp: gate_inv_def lruTouch_def)

lemma gate_inv_grant: "gate_inv g \<Longrightarrow> gate_inv (lruTouch n (g\<lparr>g_session := gm_put n True (g_session g)\<rparr>))"
  by (auto simp: gate_inv_def lruTouch_def)

lemma gate_inv_evict: "gate_inv g \<Longrightarrow> gate_inv (evict_back g)"
proof -
  assume inv: "gate_inv g"
  show ?thesis
  proof (cases "g_lru g = []")
    case False
    then have "g_lru g = butlast (g_lru g) @ [last (g_lru g)]" by simp
    then have "set (g_lru g) - {last (g_lru g)} \<subseteq> set (butlast (g_lru g))"
      by (metis Diff_subset_conv Un_commute list.set(1) list.simps(15) order_refl set_append)
    with inv False show ?thesis by (auto simp: gate_inv_def evict_back_def distinct_butlast)
  qed (use inv in \<open>simp add: evict_back_def\<close>)
qed

lemma gate_inv_allow_all: "gate_inv g \<Longrightarrow> gate_inv (allow_all n g)"
  by (simp add: allow_all_def Let_def gate_inv_touch gate_inv_grant gate_inv_evict)

lemma gate_inv_Seed: "gate_inv g \<Longrightarrow> gate_inv (SeedSessionAllowed ns g)"
  unfolding SeedSessionAllowed_def
  by (induction ns arbitrary: g) (simp_all add: gate_inv_grant)

lemma gate_inv_cong: "g_session g' = g_session g \<Longrightarrow> g_lru g' = g_lru g \<Longrightarrow> gate_inv g' = gate_inv g"
  by (simp add: gate_inv_def)

lemmas gate_ops = SetWatchedProviders_def SetBaseWatchedProviders_def SetAllowedProviders_def
  SetPromptFunc_def SetPromptFuncCtx_def SetExecRequiresPrompt_def SetExecPromptExempt_def gate_Fork_def
  RegisterRelayResponse_def relay_ctx_done_def DeliverRelayResponse_def sweepRelayChans_def gate_Close_def

lemma gate_inv_step: "gate_inv g \<Longrightarrow> gate_inv (gate_step x g)"
proof (cases "(x, g)" rule: gate_step.cases)
  case (10 req r g')
  then show "gate_inv g \<Longrightarrow> gate_inv (gate_step x g)"
    by (cases "(req, r, g')" rule: check_end.cases) (simp_all add: gate_inv_allow_all)
qed (auto simp: gate_inv_Seed gate_ops Let_def split: option.splits intro: gate_inv_cong[THEN iffD2, rotated 2])

lemma gate_inv_run: "gate_inv g \<Longrightarrow> gate_inv (fold gate_step xs g)"
  by (induction xs arbitrary: g) (simp_all add: gate_inv_step)

lemma gate_inv_New: "gate_inv (NewGate s p)"
  by (simp add: gate_inv_def NewGate_def gm_keys_def)

section \<open>Nothing is granted that was not asked for\<close>

lemma flag_allow_all: "flag (g_session (allow_all n g)) k \<Longrightarrow> k = n \<or> flag (g_session g) k"
  by (auto simp: allow_all_def Let_def lruTouch_def evict_back_def split: if_splits)

lemma flag_Seed: "flag (g_session (SeedSessionAllowed ns g)) k \<Longrightarrow> k \<in> set ns \<or> flag (g_session g) k"
  unfolding SeedSessionAllowed_def
  by (induction ns arbitrary: g) (fastforce simp: lruTouch_def split: if_splits)+

lemma flag_step: "flag (g_session (gate_step x g)) k \<Longrightarrow> k \<in> set (grants x) \<or> flag (g_session g) k"
proof (cases "(x, g)" rule: gate_step.cases)
  case (10 req r g')
  then show "flag (g_session (gate_step x g)) k \<Longrightarrow> k \<in> set (grants x) \<or> flag (g_session g) k"
    by (cases "(req, r, g')" rule: check_end.cases) (auto dest: flag_allow_all)
qed (auto simp: gate_ops Let_def dest: flag_Seed split: option.splits if_splits)

lemma flag_run: "flag (g_session (fold gate_step xs g)) k \<Longrightarrow> k \<in> set (concat (map grants xs)) \<or> flag (g_session g) k"
  by (induction xs arbitrary: g) (auto dest: flag_step)

text \<open>A gate together with the grants made so far is a registry of capabilities.\<close>

definition gate_hist :: "gate \<times> string list \<Rightarrow> bool" where
  "gate_hist gh \<longleftrightarrow> (\<forall>k. flag (g_session (fst gh)) k \<longrightarrow> k \<in> set (snd gh))"

definition grant_check :: "gate \<times> string list \<Rightarrow> unit \<Rightarrow> string \<Rightarrow> unit option" where
  "grant_check gh _ n = (if sessionAllowedFor (fst gh) n then None else Some ())"

interpretation grant: capability gate_hist grant_check "\<lambda>gh _ n. n \<in> set (snd gh) \<or> ''*'' \<in> set (snd gh)"
  by unfold_locales (auto simp: gate_hist_def grant_check_def sessionAllowedFor_def split: if_splits)

lemma gate_hist_run: "gate_hist (fold gate_step xs (NewGate s p), concat (map grants xs))"
  using flag_run[of xs "NewGate s p"] by (auto simp: gate_hist_def NewGate_def)

section \<open>What keeps a gate asking\<close>

text \<open>The setters of the policy of executing tools are not called.\<close>

fun keeps_exec_policy :: "gate_op \<Rightarrow> bool" where
  "keeps_exec_policy (GExecRequires b) = False"
| "keeps_exec_policy (GExecExempt ns) = False"
| "keeps_exec_policy _ = True"

lemma Seed_policy [simp]:
  "g_execRequiresPrompt (SeedSessionAllowed ns g) = g_execRequiresPrompt g"
  "g_execPromptExempt (SeedSessionAllowed ns g) = g_execPromptExempt g"
  "g_baseWatched (SeedSessionAllowed ns g) = g_baseWatched g"
  unfolding SeedSessionAllowed_def
  by (induction ns arbitrary: g) (simp_all add: lruTouch_def)

lemma allow_all_policy [simp]:
  "g_execRequiresPrompt (allow_all n g) = g_execRequiresPrompt g"
  "g_execPromptExempt (allow_all n g) = g_execPromptExempt g"
  "g_baseWatched (allow_all n g) = g_baseWatched g"
  by (simp_all add: allow_all_def Let_def lruTouch_def evict_back_def)

lemma exec_policy_step:
  assumes "keeps_exec_policy x"
  shows "g_execRequiresPrompt (gate_step x g) = g_execRequiresPrompt g \<and>
     g_execPromptExempt (gate_step x g) = g_execPromptExempt g"
proof (cases "(x, g)" rule: gate_step.cases)
  case (10 req r g')
  then show ?thesis by (cases "(req, r, g')" rule: check_end.cases) simp_all
qed (use assms in \<open>auto simp: gate_ops Let_def split: option.splits\<close>)

lemma exec_policy_run:
  "list_all keeps_exec_policy xs \<Longrightarrow> g_execRequiresPrompt (fold gate_step xs g) = g_execRequiresPrompt g \<and>
     g_execPromptExempt (fold gate_step xs g) = g_execPromptExempt g"
  by (induction xs arbitrary: g) (simp_all add: exec_policy_step)

text \<open>The gate of the server: auto-approval, but executing tools prompt, delegation excepted.\<close>

definition server_gate :: gate where
  "server_gate = SetExecPromptExempt [''delegate_to_agent''] (SetExecRequiresPrompt True (NewGate True False))"

text \<open>
  C4. On the server no tool that executes code runs on its own: after any operations on the
  gate - seeds, forks with any provider sets, answers of users, relays - other than the two setters
  of this policy, a check of an executing tool that was not granted, other than delegation,
  passes only by an answer of a user that allows it, on a gate with a prompt bound and
  for a provider the gate accepts.
\<close>

theorem server_exec_asks:
  assumes "list_all keeps_exec_policy xs"
    and "pr_Level req = PermExec" and "pr_ToolName req \<noteq> ''delegate_to_agent''"
    and "pr_ToolName req \<notin> set (concat (map grants xs))" and "''*'' \<notin> set (concat (map grants xs))"
    and "cr_Allowed (snd (CheckDetailedCtx ask during req (fold gate_step xs server_gate)))"
  shows "ask (g_promptCtx (fold gate_step xs server_gate)) req \<in> {Answered Allow, Answered AllowOnce, Answered AllowAll} \<and>
     (g_prompt (fold gate_step xs server_gate) \<or> g_promptCtx (fold gate_step xs server_gate)) \<and>
     \<not> provider_refused (fold gate_step xs server_gate) req"
proof -
  let ?g = "fold gate_step xs server_gate"
  have pol: "g_execRequiresPrompt ?g" "\<not> flag (g_execPromptExempt ?g) (pr_ToolName req)"
    using exec_policy_run[OF assms(1), of server_gate] assms(3)
    by (simp_all add: server_gate_def SetExecPromptExempt_def SetExecRequiresPrompt_def)
  have hist: "gate_hist (?g, concat (map grants xs))"
    using flag_run[of xs server_gate]
    by (auto simp: gate_hist_def server_gate_def NewGate_def SetExecPromptExempt_def SetExecRequiresPrompt_def)
  have "grant_check (?g, concat (map grants xs)) () (pr_ToolName req) \<noteq> None"
    using grant.ungranted_refused[OF hist, of "pr_ToolName req" "()"] assms(4,5) by auto
  then have "\<not> sessionAllowedFor ?g (pr_ToolName req)" by (auto simp: grant_check_def split: if_splits)
  moreover have "\<not> auto_approved ?g req" using pol assms(2) by (simp add: auto_approved_def)
  ultimately show ?thesis using assms(2,6)
    by (cases "(req, ask (g_promptCtx ?g) req, during ?g)" rule: check_end.cases)
       (auto simp: CheckDetailedCtx_def check_begin_def denied_result_def split: if_splits)
qed

definition bash_request :: permission_request where
  "bash_request = \<lparr>pr_ToolName = ''bash'', pr_Level = PermExec, pr_Args = [], pr_Summary = [],
     pr_Provider = [], pr_AgentName = [], pr_SessionID = []\<rparr>"

theorem server_exec_asks_witness:
  "(\<lambda>_ _. Answered AllowOnce) (g_promptCtx (fold gate_step [GPrompt True, GFork None None] server_gate)) bash_request
      \<in> {Answered Allow, Answered AllowOnce, Answered AllowAll} \<and>
   (g_prompt (fold gate_step [GPrompt True, GFork None None] server_gate) \<or>
    g_promptCtx (fold gate_step [GPrompt True, GFork None None] server_gate)) \<and>
   \<not> provider_refused (fold gate_step [GPrompt True, GFork None None] server_gate) bash_request"
proof (rule server_exec_asks[where during = id])
  show "list_all keeps_exec_policy [GPrompt True, GFork None None]" by simp
  show "pr_Level bash_request = PermExec" "pr_ToolName bash_request \<noteq> ''delegate_to_agent''"
    by (simp_all add: bash_request_def)
  show "pr_ToolName bash_request \<notin> set (concat (map grants [GPrompt True, GFork None None]))"
    "''*'' \<notin> set (concat (map grants [GPrompt True, GFork None None]))" by simp_all
  show "cr_Allowed (snd (CheckDetailedCtx (\<lambda>_ _. Answered AllowOnce) id bash_request
      (fold gate_step [GPrompt True, GFork None None] server_gate)))" by code_simp
qed

section \<open>The allow-list is a queue\<close>

text \<open>Reference: a queue of the names granted, newest first, of at most 1000, where a name that is
  in it keeps its place.\<close>

definition queue_grant :: "string \<Rightarrow> string list \<Rightarrow> string list" where
  "queue_grant n q = (if n \<in> set q then q else take sessionAllowedMaxEntries (n # q))"

definition queue_gate :: "string list \<Rightarrow> gate \<Rightarrow> bool" where
  "queue_gate q g \<longleftrightarrow> g_lru g = q \<and> distinct q \<and> length q \<le> sessionAllowedMaxEntries \<and>
     gm_wf (g_session g) \<and> (\<forall>k. flag (g_session g) k \<longleftrightarrow> k \<in> set q) \<and> set (gm_keys (g_session g)) = set q"

lemma queue_gate_length: "queue_gate q g \<Longrightarrow> length (g_session g) = length q"
proof -
  assume q: "queue_gate q g"
  then have "distinct (map fst (g_session g))" "set (map fst (g_session g)) = set q" "distinct q"
    by (simp_all add: queue_gate_def gm_wf_def gm_keys_def)
  then show ?thesis
    using distinct_card[of "map fst (g_session g)"] distinct_card[of q] by simp
qed

lemma queue_gate_allow:
  assumes q: "queue_gate q g" and n: "n \<notin> set q" "''*'' \<notin> set q"
  shows "queue_gate (queue_grant n q) (allow_all n g)"
proof -
  let ?g = "lruTouch n (g\<lparr>g_session := gm_put n True (g_session g)\<rparr>)"
  have fresh: "gm_get (g_session g) n = None"
    using q n(1) gm_get_None_iff[of "g_session g" n] by (simp add: queue_gate_def)
  have lru: "g_lru ?g = n # q"
    using q n(1) by (auto simp: lruTouch_def queue_gate_def intro: filter_True)
  have len: "length (g_session ?g) = Suc (length q)"
    using queue_gate_length[OF q] fresh by (simp add: lruTouch_def gm_put_fresh)
  have new: "\<not> sessionAllowedFor g n" using q n by (simp add: queue_gate_def sessionAllowedFor_def)
  have ses: "g_session ?g = gm_put n True (g_session g)" by (simp add: lruTouch_def)
  show ?thesis
  proof (cases "Suc (length q) \<le> sessionAllowedMaxEntries")
    case True
    then have "allow_all n g = ?g" using new len by (simp add: allow_all_def Let_def)
    then show ?thesis using True q n lru ses
      by (auto simp: queue_gate_def queue_grant_def)
  next
    case False
    then have full: "length q = sessionAllowedMaxEntries" using q by (simp add: queue_gate_def)
    have all: "allow_all n g = evict_back ?g" using False new len by (simp add: allow_all_def Let_def)
    have ne: "q \<noteq> []" using full by (auto simp: sessionAllowedMaxEntries_def)
    have take: "take sessionAllowedMaxEntries (n # q) = n # butlast q"
      using full ne by (simp add: sessionAllowedMaxEntries_def butlast_conv_take take_Cons')
    obtain q' x where snoc: "q = q' @ [x]" using ne by (cases q rule: rev_cases) auto
    have "g_lru (evict_back ?g) = n # q'" "g_session (evict_back ?g) = gm_del x (gm_put n True (g_session g))"
      using lru ses snoc by (simp_all add: evict_back_def)
    moreover have "queue_grant n q = n # q'" using n(1) take snoc by (simp add: queue_grant_def)
    ultimately show ?thesis unfolding all queue_gate_def using q n snoc full
      by (auto simp: queue_gate_def)
  qed
qed

text \<open>A user who always allows every tool of a session, on a gate without auto-approval.\<close>

definition always_run :: "permission_request list \<Rightarrow> gate \<Rightarrow> gate" where
  "always_run reqs g = fold (\<lambda>req g. fst (CheckDetailedCtx (\<lambda>_ _. Answered AllowAll) (\<lambda>g. g) req g)) reqs g"

definition asking :: "gate \<Rightarrow> bool" where
  "asking g \<longleftrightarrow> \<not> g_skipAll g \<and> g_prompt g \<and> g_allowed g = None"

lemma asking_allow_all [simp]: "asking (allow_all n g) = asking g"
  by (simp add: asking_def allow_all_def Let_def lruTouch_def evict_back_def)

lemma always_check:
  assumes "asking g" "queue_gate q g" "''*'' \<notin> set q" "pr_Level req \<noteq> PermRead" "pr_ToolName req \<noteq> ''*''"
  shows "queue_gate (queue_grant (pr_ToolName req) q) (fst (CheckDetailedCtx (\<lambda>_ _. Answered AllowAll) (\<lambda>g. g) req g))"
    and "asking (fst (CheckDetailedCtx (\<lambda>_ _. Answered AllowAll) (\<lambda>g. g) req g))"
proof -
  have start: "check_begin g req = (if sessionAllowedFor g (pr_ToolName req) then Some allowed_result else None)"
    using assms by (auto simp: check_begin_def asking_def provider_refused_def auto_approved_def)
  have allowed: "sessionAllowedFor g (pr_ToolName req) \<longleftrightarrow> pr_ToolName req \<in> set q"
    using assms by (simp add: sessionAllowedFor_def queue_gate_def)
  show "queue_gate (queue_grant (pr_ToolName req) q) (fst (CheckDetailedCtx (\<lambda>_ _. Answered AllowAll) (\<lambda>g. g) req g))"
    using assms start allowed queue_gate_allow[of q g "pr_ToolName req"]
    by (auto simp: CheckDetailedCtx_def queue_grant_def)
  show "asking (fst (CheckDetailedCtx (\<lambda>_ _. Answered AllowAll) (\<lambda>g. g) req g))"
    using assms(1) start by (auto simp: CheckDetailedCtx_def)
qed

lemma always_run_queue:
  assumes "asking g" "queue_gate q g" "''*'' \<notin> set q"
    and "list_all (\<lambda>r. pr_Level r \<noteq> PermRead \<and> pr_ToolName r \<noteq> ''*'') reqs"
  shows "queue_gate (fold (\<lambda>r. queue_grant (pr_ToolName r)) reqs q) (always_run reqs g)"
  using assms
proof (induction reqs arbitrary: q g)
  case (Cons req reqs)
  have star: "''*'' \<notin> set (queue_grant (pr_ToolName req) q)"
    using Cons.prems by (auto simp: queue_grant_def dest: in_set_takeD)
  show ?case
    using Cons.IH[of "fst (CheckDetailedCtx (\<lambda>_ _. Answered AllowAll) (\<lambda>g. g) req g)"]
      always_check[of g q req] star Cons.prems by (simp add: always_run_def)
qed (simp add: always_run_def)

text \<open>
  The allow-list of a session is a queue, not ordered by use: when a user allows always
  whatever is asked, the names allowed at any time are the newest 1000 grants in the order they were
  granted; using an allowed tool does not keep it from being evicted.
\<close>

lemma allow_list_is_queue:
  assumes "list_all (\<lambda>r. pr_Level r \<noteq> PermRead \<and> pr_ToolName r \<noteq> ''*'') reqs"
  shows "queue_gate (fold (\<lambda>r. queue_grant (pr_ToolName r)) reqs []) (always_run reqs (NewGate False True))"
  by (rule always_run_queue[OF _ _ _ assms]) (simp_all add: asking_def queue_gate_def NewGate_def gm_keys_def)

section \<open>Relay channels are answered once\<close>

text \<open>Identifiers are registered once, and the goroutine of a registration only exists after it.\<close>

fun relay_ok :: "(string \<times> nat) list \<Rightarrow> gate_op list \<Rightarrow> bool" where
  "relay_ok R [] = True"
| "relay_ok R (GRegister now i ch # xs) = (i \<notin> fst ` set R \<and> relay_ok ((i, ch) # R) xs)"
| "relay_ok R (GCtxDone i ch # xs) = ((i, ch) \<in> set R \<and> relay_ok R xs)"
| "relay_ok R (GFork w a # xs) = False"
| "relay_ok R (x # xs) = relay_ok R xs"

fun registered :: "gate_op list \<Rightarrow> nat list" where
  "registered [] = []"
| "registered (GRegister now i ch # xs) = ch # registered xs"
| "registered (x # xs) = registered xs"

fun sends_of :: "gate_op list \<Rightarrow> gate \<Rightarrow> relay_send list" where
  "sends_of [] g = []"
| "sends_of (x # xs) g = relay_sends x g @ sends_of xs (gate_step x g)"

definition waiting :: "gate \<Rightarrow> nat multiset" where
  "waiting g = mset (map (re_ch \<circ> snd) (g_relay g))"

definition relay_inv :: "(string \<times> nat) list \<Rightarrow> gate \<Rightarrow> bool" where
  "relay_inv R g \<longleftrightarrow> gm_wf (g_relay g) \<and> distinct (map fst R) \<and>
     (\<forall>(i, e) \<in> set (g_relay g). (i, re_ch e) \<in> set R)"

lemma waiting_del:
  "gm_wf m \<Longrightarrow> gm_get m i = Some e \<Longrightarrow>
     mset (map (re_ch \<circ> snd) m) = add_mset (re_ch e) (mset (map (re_ch \<circ> snd) (gm_del i m)))"
proof (induction m)
  case (Cons p m)
  obtain k v where p: "p = (k, v)" by (cases p)
  show ?case
  proof (cases "k = i")
    case True
    then have "gm_get m i = None" using Cons.prems(1) by (simp add: gm_wf_def p map_of_eq_None_iff)
    with True Cons.prems show ?thesis by (simp add: p gm_del_fresh)
  next
    case False
    with Cons show ?thesis by (simp add: p gm_wf_def)
  qed
qed simp

lemma relay_cong: "g_relay g' = g_relay g \<Longrightarrow> waiting g' = waiting g \<and> relay_inv R g' = relay_inv R g"
  by (simp add: waiting_def relay_inv_def)

lemma Seed_relay [simp]: "g_relay (SeedSessionAllowed ns g) = g_relay g"
  unfolding SeedSessionAllowed_def by (induction ns arbitrary: g) (simp_all add: lruTouch_def)

lemma allow_all_relay [simp]: "g_relay (allow_all n g) = g_relay g"
  by (simp add: allow_all_def Let_def lruTouch_def evict_back_def)

lemma check_end_relay [simp]: "g_relay (fst (check_end req r g)) = g_relay g"
  by (cases "(req, r, g)" rule: check_end.cases) simp_all

lemma relay_inv_sub: "relay_inv R g \<Longrightarrow> gm_wf (g_relay g') \<Longrightarrow> set (g_relay g') \<subseteq> set (g_relay g) \<Longrightarrow> relay_inv R g'"
  by (auto simp: relay_inv_def)

lemma relay_delete:
  assumes "relay_inv R g" "gm_get (g_relay g) i = Some e"
  shows "relay_inv R (g\<lparr>g_relay := gm_del i (g_relay g)\<rparr>)"
    and "add_mset (re_ch e) (waiting (g\<lparr>g_relay := gm_del i (g_relay g)\<rparr>)) = waiting g"
    and "(i, ch) \<in> set R \<Longrightarrow> re_ch e = ch"
proof -
  show "relay_inv R (g\<lparr>g_relay := gm_del i (g_relay g)\<rparr>)"
    by (rule relay_inv_sub[OF assms(1)])
       (use assms set_gm_del_subset[of i "g_relay g"] in \<open>simp_all add: relay_inv_def\<close>)
  show "add_mset (re_ch e) (waiting (g\<lparr>g_relay := gm_del i (g_relay g)\<rparr>)) = waiting g"
    using assms waiting_del[of "g_relay g" i e] by (simp add: waiting_def relay_inv_def)
  have "(i, re_ch e) \<in> set R" using assms map_of_SomeD[OF assms(2)] by (auto simp: relay_inv_def)
  then show "(i, ch) \<in> set R \<Longrightarrow> re_ch e = ch"
    using assms(1) eq_key_imp_eq_value[of R i "re_ch e" ch] by (simp add: relay_inv_def)
qed

lemma relay_register:
  assumes "relay_inv R g" "i \<notin> fst ` set R"
  shows "relay_inv ((i, ch) # R) (RegisterRelayResponse now i ch g)"
    and "waiting (RegisterRelayResponse now i ch g) = add_mset ch (waiting g)"
proof -
  have "gm_get (g_relay g) i = None"
    using assms by (force simp: relay_inv_def map_of_eq_None_iff)
  then have m: "g_relay (RegisterRelayResponse now i ch g) = g_relay g @ [(i, \<lparr>re_ch = ch, re_createdAt = now\<rparr>)]"
    by (simp add: RegisterRelayResponse_def gm_put_fresh)
  show "relay_inv ((i, ch) # R) (RegisterRelayResponse now i ch g)"
    using assms m gm_wf_put[of "g_relay g" i "\<lparr>re_ch = ch, re_createdAt = now\<rparr>"]
    by (auto simp: relay_inv_def RegisterRelayResponse_def)
  show "waiting (RegisterRelayResponse now i ch g) = add_mset ch (waiting g)"
    by (simp add: waiting_def m)
qed

lemma mset_filter_split: "mset (map f (filter P m)) + mset (map f (filter (\<lambda>x. \<not> P x) m)) = mset (map f m)"
  by (induction m) auto

lemma relay_sweep:
  assumes "relay_inv R g"
  shows "relay_inv R (fst (sweepRelayChans d now g))"
    and "mset (map fst (snd (sweepRelayChans d now g))) + waiting (fst (sweepRelayChans d now g)) = waiting g"
proof -
  show "relay_inv R (fst (sweepRelayChans d now g))"
    by (rule relay_inv_sub[OF assms]) (use assms in \<open>auto simp: sweepRelayChans_def Let_def relay_inv_def\<close>)
  show "mset (map fst (snd (sweepRelayChans d now g))) + waiting (fst (sweepRelayChans d now g)) = waiting g"
    using mset_filter_split[of "re_ch \<circ> snd" "\<lambda>(_, e). now - re_createdAt e > d * 3" "g_relay g"]
    by (simp add: sweepRelayChans_def Let_def waiting_def comp_def case_prod_beta)
qed

lemma relay_close: "mset (map fst (snd (gate_Close g))) + waiting (fst (gate_Close g)) = waiting g"
  by (simp add: gate_Close_def waiting_def comp_def case_prod_beta)

lemma relay_step:
  assumes "relay_ok R (x # xs)" "relay_inv R g"
  shows "\<exists>R'. relay_ok R' xs \<and> relay_inv R' (gate_step x g) \<and>
     mset (map fst (relay_sends x g)) + waiting (gate_step x g) = waiting g + mset (registered [x])"
proof (cases x)
  case (GRegister now i ch)
  with assms(1) have "i \<notin> fst ` set R" "relay_ok ((i, ch) # R) xs" by simp_all
  with GRegister relay_register[OF assms(2) this(1)] show ?thesis
    by (intro exI[of _ "(i, ch) # R"]) simp
next
  case (GCtxDone i ch)
  show ?thesis
  proof (cases "gm_get (g_relay g) i")
    case (Some e)
    then show ?thesis using assms GCtxDone relay_delete[OF assms(2) Some]
      by (auto simp: relay_ctx_done_def intro!: exI[of _ R])
  qed (use assms GCtxDone in \<open>auto simp: relay_ctx_done_def intro!: exI[of _ R]\<close>)
next
  case (GDeliver i b)
  show ?thesis
  proof (cases "gm_get (g_relay g) i")
    case (Some e)
    then show ?thesis using assms GDeliver relay_delete[OF assms(2) Some]
      by (auto simp: DeliverRelayResponse_def intro!: exI[of _ R])
  qed (use assms GDeliver in \<open>auto simp: DeliverRelayResponse_def intro!: exI[of _ R]\<close>)
next
  case (GSweep d now)
  with assms relay_sweep[OF assms(2), of d now] show ?thesis by (auto intro!: exI[of _ R])
next
  case GClose
  with assms relay_close[of g] show ?thesis
    by (auto simp: gate_Close_def relay_inv_def intro!: exI[of _ R])
next
  case (GFork w a)
  with assms show ?thesis by simp
qed (use assms in \<open>auto simp: gate_ops Let_def waiting_def relay_inv_def intro!: exI[of _ R]\<close>)

lemma relay_run:
  "relay_ok R xs \<Longrightarrow> relay_inv R g \<Longrightarrow>
     mset (map fst (sends_of xs g)) + waiting (fold gate_step xs g) = waiting g + mset (registered xs)"
proof (induction xs arbitrary: R g)
  case (Cons x xs)
  from relay_step[OF Cons.prems] obtain R' where R': "relay_ok R' xs" "relay_inv R' (gate_step x g)"
    and eq: "mset (map fst (relay_sends x g)) + waiting (gate_step x g) = waiting g + mset (registered [x])"
    by blast
  have "registered (x # xs) = registered [x] @ registered xs" by (cases x) simp_all
  then show ?case using Cons.IH[OF R'] eq by (simp add: ac_simps)
qed simp

lemma relay_ok_Close: "relay_ok R xs \<Longrightarrow> relay_ok R (xs @ [GClose])"
  by (induction R xs rule: relay_ok.induct) simp_all

lemma sends_append: "sends_of (xs @ ys) g = sends_of xs g @ sends_of ys (fold gate_step xs g)"
  by (induction xs arbitrary: g) simp_all

lemma registered_append: "registered (xs @ ys) = registered xs @ registered ys"
  by (induction xs rule: registered.induct) simp_all

text \<open>
  Every goroutine that waits for a remote decision gets exactly one answer: whatever is
  registered (identifiers being used once), delivered, cancelled and swept on a gate, after the
  gate is closed each channel was sent a decision as often as it was registered.
\<close>

lemma relay_answered_once:
  assumes "relay_ok [] xs"
  shows "mset (map fst (sends_of (xs @ [GClose]) (NewGate s p))) = mset (registered xs)"
proof -
  have "relay_inv [] (NewGate s p)" "waiting (NewGate s p) = {#}"
    by (simp_all add: relay_inv_def waiting_def NewGate_def)
  moreover have "waiting (fold gate_step (xs @ [GClose]) (NewGate s p)) = {#}"
    by (simp add: gate_Close_def waiting_def)
  ultimately show ?thesis using relay_run[OF relay_ok_Close[OF assms], of "NewGate s p"]
    by (simp add: registered_append)
qed

end
