(* ===== verification/AgentTools.thy ===== *)
theory AgentTools
  imports PermissionGate LlmTypes
begin

text \<open>
  The execution of the tool calls of an agent's turn (\<^verbatim>\<open>internal/agent/loop.go\<close>,
  \<^verbatim>\<open>hooks.go\<close>, \<^verbatim>\<open>memory_gates.go\<close>, \<^verbatim>\<open>mcp_vault.go\<close>,
  \<^verbatim>\<open>missing_tool_speech.go\<close>): one call from the lookup of its tool to the content that goes
  back to the model, and a batch of calls with the independent ones concurrent. What tools,
  users, callbacks and the memory vault answer is an argument, call by call; the calls of a batch
  are atomic, in any order among the concurrent ones. A panic of a tool is a value.
\<close>

section \<open>Callbacks and answers\<close>

datatype agent_effect =
  EvToolCall string string json_args
| EvToolDone string string tool_result
| EvPermissionDenied string
| EvGate permission_request bool
| EvExecute string json_args
| EvVaultWarning

datatype reconnect =
  PeerReconnects "registry \<Rightarrow> registry"
| ConnectFails
| Connects "tool list"

record call_env =
  ce_nano :: int
  ce_ask :: "bool \<Rightarrow> permission_request \<Rightarrow> prompt_outcome"
  ce_during :: "gate \<Rightarrow> gate"
  ce_before :: "string \<Rightarrow> string option \<Rightarrow> string option \<Rightarrow> string + bool"
  ce_read :: "string \<Rightarrow> string option"
  ce_exec :: "nat \<Rightarrow> tool \<Rightarrow> json_args \<Rightarrow> string + tool_result"
  ce_reconnect :: reconnect

record loop_config =
  lc_MaxTurns :: int
  lc_Schemas :: "string list"
  lc_hasGate :: bool
  lc_hasBeforeWrite :: bool
  lc_hasEvents :: bool
  lc_hasWarnOnce :: bool
  lc_hasReconnector :: bool
  lc_MemoryUserMsg :: string
  lc_AgentName :: string
  lc_SessionID :: string
  lc_pre :: "(string \<Rightarrow> json_args \<Rightarrow> string option) list"
  lc_post :: "(string \<Rightarrow> json_args \<Rightarrow> tool_result \<Rightarrow> tool_result) list"

text \<open>The state the calls share: registry, gate, the vault connection's tools, its warning gates,
  and the trace of what happened.\<close>

record tool_world =
  tw_reg :: registry
  tw_gate :: gate
  tw_vaultTools :: "string list"
  tw_warned :: bool
  tw_warnedOnce :: bool
  tw_trace :: "agent_effect list"

definition emit :: "agent_effect list \<Rightarrow> tool_world \<Rightarrow> tool_world" where
  "emit es w = w\<lparr>tw_trace := tw_trace w @ es\<rparr>"

section \<open>Small predicates\<close>

definition toolSchemaAllows :: "loop_config \<Rightarrow> string \<Rightarrow> bool" where
  "toolSchemaAllows cfg name \<longleftrightarrow> lc_Schemas cfg = [] \<or> name \<in> set (lc_Schemas cfg)"

definition isMuninnWriteTool :: "string \<Rightarrow> bool" where
  "isMuninnWriteTool name \<longleftrightarrow>
     trim_space name \<in> {''muninn_remember'', ''muninn_evolve'', ''muninn_decide'', ''muninn_trust'',
       ''muninn_remember_batch''}"

text \<open>The classes \<open>\w\<close> and \<open>\s\<close> of Go's regular expressions.\<close>

definition word_char :: "char \<Rightarrow> bool" where
  "word_char c \<longleftrightarrow>
     (CHR ''a'' \<le> c \<and> c \<le> CHR ''z'') \<or> (CHR ''A'' \<le> c \<and> c \<le> CHR ''Z'') \<or>
     (CHR ''0'' \<le> c \<and> c \<le> CHR ''9'') \<or> c = CHR ''_''"

definition re_space :: "char \<Rightarrow> bool" where
  "re_space c \<longleftrightarrow> c \<in> {CHR 0x09, CHR 0x0A, CHR 0x0C, CHR 0x0D, CHR '' ''}"

text \<open>One mention \<open>@[\w.-]+[\s,:]*\<close> at the head, and the text after it.\<close>

definition drop_mention :: "string \<Rightarrow> string option" where
  "drop_mention s =
     (let name = \<lambda>c. word_char c \<or> c = CHR ''.'' \<or> c = CHR ''-'';
          sep = \<lambda>c. re_space c \<or> c = CHR '','' \<or> c = CHR '':''
      in case s of
           c # r \<Rightarrow> if c = CHR ''@'' \<and> takeWhile name r \<noteq> [] then Some (dropWhile sep (dropWhile name r)) else None
         | [] \<Rightarrow> None)"

lemma drop_mention_length: "drop_mention s = Some r \<Longrightarrow> length r < length s"
  by (auto simp: drop_mention_def Let_def split: list.splits if_splits)
     (meson dual_order.strict_trans2 length_dropWhile_le le_imp_less_Suc order_trans)

function drop_mentions :: "string \<Rightarrow> string" where
  "drop_mentions s = (case drop_mention s of None \<Rightarrow> s | Some r \<Rightarrow> drop_mentions r)"
  by pat_completeness auto
termination by (relation "measure length") (auto simp: drop_mention_length)

declare drop_mentions.simps [simp del]

definition stripLeadingMentions :: "string \<Rightarrow> string" where
  "stripLeadingMentions s = trim_space (drop_mentions (trim_space s))"

definition interrogatives :: "string list" where
  "interrogatives = [''what'', ''who'', ''when'', ''where'', ''why'', ''how'', ''which'', ''is'', ''are'', ''was'',
     ''were'', ''do'', ''does'', ''did'', ''can'', ''could'', ''would'', ''should'', ''will'', ''has'', ''have'', ''had'']"

definition isQuestionShaped :: "string \<Rightarrow> bool" where
  "isQuestionShaped msg =
     (let body = stripLeadingMentions (trim_space msg)
      in body \<noteq> [] \<and>
         (last body = CHR ''?'' \<or> to_lower (takeWhile word_char body) \<in> set interrogatives))"

definition isVaultConnectionError :: "string \<Rightarrow> bool" where
  "isVaultConnectionError msg \<longleftrightarrow>
     contains_str msg ''use of closed network connection'' \<or> contains_str msg ''broken pipe'' \<or>
     contains_str msg ''connection reset by peer'' \<or> contains_str msg ''EOF''"

section \<open>Credential dumps in tool results\<close>

fun any_suffix :: "(string \<Rightarrow> bool) \<Rightarrow> string \<Rightarrow> bool" where
  "any_suffix P [] = P []"
| "any_suffix P (c # s) = (P (c # s) \<or> any_suffix P s)"

definition secrets_miss_at :: "string \<Rightarrow> bool" where
  "secrets_miss_at s =
     (let r = drop 8 s
      in has_prefix s ''secrets:'' \<and> takeWhile re_space r \<noteq> [] \<and>
         has_prefix (dropWhile re_space r) ''key not found'')"

text \<open>The alternatives of \<open>credentialMissRE\<close>; the longer ones that contain a shorter one are left out.\<close>

definition credential_words :: "string list" where
  "credential_words =
     map (\<lambda>sep. ''api'' @ sep @ ''key'')
       [[], ''_'', ''-'', '' '', [CHR 0x09], [CHR 0x0A], [CHR 0x0C], [CHR 0x0D]] @
     [''keyring'', ''keychain'', ''missing credentials'', ''key not found in secrets'']"

definition credentialMiss :: "string \<Rightarrow> bool" where
  "credentialMiss s =
     (let l = to_lower s in list_ex (contains_str l) credential_words \<or> any_suffix secrets_miss_at l)"

definition teammateCredentialDeny :: string where
  "teammateCredentialDeny = ''I don'' @ [CHR 0x27] @ ''t have that.''"

fun split_lines :: "string \<Rightarrow> string list" where
  "split_lines [] = [[]]"
| "split_lines (c # s) =
     (if c = CHR 0x0A then [] # split_lines s
      else case split_lines s of l # ls \<Rightarrow> (c # l) # ls | [] \<Rightarrow> [[c]])"

definition redact_line :: "string \<Rightarrow> string" where
  "redact_line line =
     (if \<not> credentialMiss line then line
      else if has_prefix (trim_space line) ''**Summary:**''
      then takeWhile (\<lambda>c. c = CHR '' '' \<or> c = CHR 0x09) line @ ''**Summary:** '' @ teammateCredentialDeny
      else teammateCredentialDeny)"

definition redactCredentialLines :: "string \<Rightarrow> string" where
  "redactCredentialLines content = join_with [CHR 0x0A] (map redact_line (split_lines content))"

definition RewriteCredentialToolResult :: "string \<Rightarrow> string" where
  "RewriteCredentialToolResult content =
     (if content = [] \<or> \<not> credentialMiss content then content
      else if contains_str content ''## '' then redactCredentialLines content
      else teammateCredentialDeny)"

section \<open>The preview of a write\<close>

text \<open>\<^verbatim>\<open>strings.ReplaceAll\<close>; an empty \<open>old\<close> matches before every rune of a valid UTF-8
  string and at its end.\<close>

definition replace_every :: "string \<Rightarrow> string \<Rightarrow> string \<Rightarrow> string" where
  "replace_every old new s =
     (if old \<noteq> [] then replace_all old new s
      else concat (map (\<lambda>c. if 128 \<le> (of_char c :: nat) \<and> (of_char c :: nat) < 192 then [c] else new @ [c]) s) @ new)"

definition previewWrite :: "(string \<Rightarrow> string option) \<Rightarrow> string \<Rightarrow> json_args \<Rightarrow>
    string \<times> string option \<times> string option" where
  "previewWrite read name args =
     (let path = arg_string args ''file_path''; old = (if path \<noteq> [] then read path else None)
      in if name = ''write_file'' then (path, old, as_string (gm_get args ''content''))
         else if name = ''edit_file'' then
           (path, old,
            (case old of
               None \<Rightarrow> None
             | Some content \<Rightarrow>
                 if content = [] then None
                 else let oldStr = arg_string args ''old_string''; newStr = arg_string args ''new_string''
                      in Some (if gm_get args ''replace_all'' = Some (JBool True)
                               then replace_every oldStr newStr content
                               else replace_first oldStr newStr content)))
         else ([], None, None))"

section \<open>One tool call\<close>

definition call_id :: "call_env \<Rightarrow> nat \<Rightarrow> tool_call \<Rightarrow> string" where
  "call_id env idx tc =
     (if tc_ID tc \<noteq> [] then tc_ID tc
      else ''tc-'' @ show_int (ce_nano env) @ ''-'' @ show_nat idx @ ''-'' @ tc_Name tc)"

text \<open>The first pre-hook that denies.\<close>

fun runPre :: "(string \<Rightarrow> json_args \<Rightarrow> string option) list \<Rightarrow> string \<Rightarrow> json_args \<Rightarrow> string option" where
  "runPre [] name args = None"
| "runPre (h # hs) name args = (case h name args of Some reason \<Rightarrow> Some reason | None \<Rightarrow> runPre hs name args)"

definition runPost :: "(string \<Rightarrow> json_args \<Rightarrow> tool_result \<Rightarrow> tool_result) list \<Rightarrow> string \<Rightarrow> json_args \<Rightarrow>
    tool_result \<Rightarrow> tool_result" where
  "runPost hs name args r = fold (\<lambda>h. h name args) hs r"

definition TryReconnect :: "reconnect \<Rightarrow> tool_world \<Rightarrow> tool_world \<times> bool" where
  "TryReconnect rc w =
     (let stale = w\<lparr>tw_reg := fold Unregister (tw_vaultTools w) (tw_reg w), tw_vaultTools := []\<rparr>
      in case rc of
           PeerReconnects f \<Rightarrow> (w\<lparr>tw_reg := f (tw_reg w)\<rparr>, False)
         | ConnectFails \<Rightarrow> (stale, False)
         | Connects ts \<Rightarrow>
             (stale\<lparr>tw_reg := fold (\<lambda>t r. TagTools [t_Name t] ''muninndb'' (Register t r)) ts (tw_reg stale),
                    tw_vaultTools := map t_Name ts, tw_warned := False\<rparr>, True))"

definition execute_tool :: "call_env \<Rightarrow> nat \<Rightarrow> tool \<Rightarrow> string \<Rightarrow> json_args \<Rightarrow> tool_world \<Rightarrow>
    tool_world \<times> (string + tool_result)" where
  "execute_tool env k t name args w = (emit [EvExecute name args] w, ce_exec env k t args)"

definition is_vault_failure :: "tool_world \<Rightarrow> string \<Rightarrow> tool_result \<Rightarrow> bool" where
  "is_vault_failure w name r \<longleftrightarrow>
     tr_IsError r \<and> ProviderFor (tw_reg w) name = ''muninndb'' \<and> isVaultConnectionError (tr_Error r)"

definition tryExecuteTool :: "loop_config \<Rightarrow> call_env \<Rightarrow> string \<Rightarrow> tool \<Rightarrow> json_args \<Rightarrow> tool_world \<Rightarrow>
    tool_world \<times> (string + tool_result)" where
  "tryExecuteTool cfg env name t args w =
     (case execute_tool env 0 t name args w of
        (w1, Inl p) \<Rightarrow> (w1, Inl p)
      | (w1, Inr r) \<Rightarrow>
          if \<not> lc_hasReconnector cfg \<or> \<not> is_vault_failure w1 name r then (w1, Inr r)
          else case TryReconnect (ce_reconnect env) w1 of
            (w2, ok) \<Rightarrow>
              (case Get (tw_reg w2) name of
                 None \<Rightarrow> (w2, Inr r)
               | Some t2 \<Rightarrow>
                   (case execute_tool env 1 t2 name args w2 of
                      (w3, Inl p) \<Rightarrow> (w3, Inl p)
                    | (w3, Inr r2) \<Rightarrow>
                        (w3, Inr (if ok \<or> \<not> tr_IsError r2 \<or> \<not> isVaultConnectionError (tr_Error r2)
                                  then r2 else r)))))"

text \<open>The directive that replaces a transport error, with its one-time warning.\<close>

definition vault_lost :: string where
  "vault_lost = ''Memory vault connection lost. This tool is temporarily unavailable. Continue the task without memory access.''"

definition degrade :: "loop_config \<Rightarrow> string \<Rightarrow> tool_world \<times> tool_result \<Rightarrow> tool_world \<times> tool_result" where
  "degrade cfg name wr =
     (case wr of (w, r) \<Rightarrow>
        if \<not> is_vault_failure w name r then (w, r)
        else
          (if \<not> lc_hasEvents cfg then w
           else if lc_hasReconnector cfg then
             (if tw_warned w then w else (emit [EvVaultWarning] w)\<lparr>tw_warned := True\<rparr>)
           else if lc_hasWarnOnce cfg then
             (if tw_warnedOnce w then w else (emit [EvVaultWarning] w)\<lparr>tw_warnedOnce := True\<rparr>)
           else w,
           r\<lparr>tr_Error := vault_lost\<rparr>))"

definition result_content :: "tool_result \<Rightarrow> string" where
  "result_content r =
     (if tr_IsError r \<and> tr_Error r \<noteq> [] then ''error: '' @ tr_Error r
      else if tr_Output r = [] \<and> tr_Error r \<noteq> [] then tr_Error r
      else tr_Output r)"

definition maxToolOutputBytes :: nat where
  "maxToolOutputBytes = 100 * 1024"

definition truncation_note :: string where
  "truncation_note = [CHR 0x0A] @ ''... [truncated: output exceeded 100 KB]''"

definition cap_content :: "string \<Rightarrow> string" where
  "cap_content c = (if length c > maxToolOutputBytes then take maxToolOutputBytes c @ truncation_note else c)"

definition blocked_write_output :: string where
  "blocked_write_output =
     ''This is a question, not a new fact '' @ [CHR 0xE2, CHR 0x80, CHR 0x94] @ '' I did not store anything. '' @
     ''Call muninn_recall with the user'' @ [CHR 0x27] @ ''s question as context and answer from what you find. '' @
     ''Never store your own guess or inference as if it were a fact the user told you.''"

fun reason_text :: "reason_code \<Rightarrow> string" where
  "reason_text ReasonNone = []"
| "reason_text ReasonProviderNotAllowed = ''This agent is not allowed to use this provider.''"
| "reason_text ReasonPromptUnavailable = ''Permission prompt is unavailable.''"
| "reason_text ReasonPromptTimeout = ''Permission request timed out.''"
| "reason_text ReasonUserDenied = ''Permission request was denied.''"
| "reason_text ReasonCancelled = ''Permission request was cancelled.''"

definition deny_output :: "check_result \<Rightarrow> string" where
  "deny_output r = ''error: permission denied'' @
     (if reason_text (cr_ReasonCode r) \<noteq> [] then '': '' @ reason_text (cr_ReasonCode r) else [])"

definition call_request :: "loop_config \<Rightarrow> tool_world \<Rightarrow> tool \<Rightarrow> string \<Rightarrow> json_args \<Rightarrow> permission_request" where
  "call_request cfg w t name args =
     \<lparr>pr_ToolName = name, pr_Level = t_Permission t, pr_Args = args, pr_Summary = [],
      pr_Provider = ProviderFor (tw_reg w) name, pr_AgentName = lc_AgentName cfg, pr_SessionID = lc_SessionID cfg\<rparr>"

text \<open>The gate of a call: the world after the check and, when it is denied, its result.\<close>

definition gate_call :: "loop_config \<Rightarrow> call_env \<Rightarrow> tool \<Rightarrow> string \<Rightarrow> json_args \<Rightarrow> tool_world \<Rightarrow>
    tool_world \<times> check_result option" where
  "gate_call cfg env t name args w =
     (if \<not> lc_hasGate cfg then (w, None)
      else let req = call_request cfg w t name args
           in case CheckDetailedCtx (ce_ask env) (ce_during env) req (tw_gate w) of
                (g, r) \<Rightarrow> (emit [EvGate req (cr_Allowed r)] (w\<lparr>tw_gate := g\<rparr>),
                            if cr_Allowed r then None else Some r))"

text \<open>The end of a call that was admitted: execution, degradation, callbacks, content.\<close>

definition run_admitted :: "loop_config \<Rightarrow> call_env \<Rightarrow> string \<Rightarrow> tool \<Rightarrow> string \<Rightarrow> json_args \<Rightarrow> tool_world \<Rightarrow>
    tool_world \<times> string" where
  "run_admitted cfg env cid t name args w =
     (case tryExecuteTool cfg env name t args (emit [EvToolCall cid name args] w) of
        (w1, Inl p) \<Rightarrow>
          (let msg = ''tool '' @ name @ '' panicked: '' @ p
           in (emit [EvToolDone cid name \<lparr>tr_Output = ''error: '' @ msg, tr_Error = msg, tr_IsError = True\<rparr>] w1,
               ''error: '' @ msg))
      | (w1, Inr r) \<Rightarrow>
          (case degrade cfg name (w1, r) of
             (w2, r2) \<Rightarrow>
               (emit [EvToolDone cid name r2] w2,
                cap_content (RewriteCredentialToolResult (result_content (runPost (lc_post cfg) name args r2))))))"

definition executeSingle :: "loop_config \<Rightarrow> call_env \<Rightarrow> nat \<Rightarrow> tool_call \<Rightarrow> tool_world \<Rightarrow> tool_world \<times> string" where
  "executeSingle cfg env idx tc w =
     (let name = tc_Name tc; args = tc_Args tc; cid = call_id env idx tc;
          report = (\<lambda>out err w. emit [EvToolCall cid name args,
                       EvToolDone cid name \<lparr>tr_Output = out, tr_Error = err, tr_IsError = err \<noteq> []\<rparr>] w)
      in if name = [] then (w, ''error: tool call has empty function name'')
         else case Get (tw_reg w) name of
           None \<Rightarrow> (w, ''I don'' @ [CHR 0x27] @ ''t have '' @ name @ ''.'')
         | Some t \<Rightarrow>
             if \<not> toolSchemaAllows cfg name then (w, ''I don'' @ [CHR 0x27] @ ''t have '' @ name @ ''.'')
             else if isMuninnWriteTool name \<and> isQuestionShaped (lc_MemoryUserMsg cfg)
             then (report blocked_write_output [] w, blocked_write_output)
             else (case gate_call cfg env t name args w of
                 (w1, Some r) \<Rightarrow>
                   (emit [EvPermissionDenied name] (report (deny_output r) ''permission denied'' w1), deny_output r)
               | (w1, None) \<Rightarrow>
                   (case runPre (lc_pre cfg) name args of
                      Some reason \<Rightarrow>
                        (emit [EvToolCall cid name args, EvToolDone cid name
                           \<lparr>tr_Output = name @ '' blocked: '' @ reason, tr_Error = reason, tr_IsError = True\<rparr>] w1,
                         name @ '' blocked: '' @ reason)
                    | None \<Rightarrow>
                        if (name = ''write_file'' \<or> name = ''edit_file'') \<and> lc_hasBeforeWrite cfg then
                          (case previewWrite (ce_read env) name args of
                             (path, old, new) \<Rightarrow>
                               (case ce_before env path old new of
                                  Inl p \<Rightarrow> (w1, ''error: write callback panicked: '' @ p)
                                | Inr allowed \<Rightarrow>
                                    if \<not> allowed
                                    then (w1, ''error: user rejected this change. Try a different approach.'')
                                    else run_admitted cfg env cid t name args w1))
                        else run_admitted cfg env cid t name args w1)))"

section \<open>A batch of calls\<close>

definition isIndependentTool :: "tool_call \<Rightarrow> tool_call list \<Rightarrow> bool" where
  "isIndependentTool tc calls =
     (let name = tc_Name tc; path = arg_string (tc_Args tc) ''file_path''
      in if name \<in> {''bash'', ''git_commit'', ''git_stash''} then False
         else if name \<in> {''read_file'', ''grep'', ''list_dir'', ''search_files'', ''web_search'', ''fetch_url'',
                         ''git_status'', ''git_log'', ''git_blame'', ''git_diff'', ''git_branch''} then True
         else if name = ''write_file'' \<or> name = ''edit_file'' then
           (path \<noteq> [] \<and>
            length (filter (\<lambda>c. (tc_Name c = ''write_file'' \<or> tc_Name c = ''edit_file'') \<and>
                                arg_string (tc_Args c) ''file_path'' = path) calls) \<le> 1)
         else False)"

definition independent_idxs :: "tool_call list \<Rightarrow> nat list" where
  "independent_idxs calls = filter (\<lambda>i. isIndependentTool (calls ! i) calls) [0..<length calls]"

definition serial_idxs :: "tool_call list \<Rightarrow> nat list" where
  "serial_idxs calls = filter (\<lambda>i. \<not> isIndependentTool (calls ! i) calls) [0..<length calls]"

fun run_calls :: "loop_config \<Rightarrow> (nat \<Rightarrow> call_env) \<Rightarrow> tool_call list \<Rightarrow> nat list \<Rightarrow>
    tool_world \<times> (nat, string) gomap \<Rightarrow> tool_world \<times> (nat, string) gomap" where
  "run_calls cfg envs calls [] wm = wm"
| "run_calls cfg envs calls (i # is) (w, m) =
     (case executeSingle cfg (envs i) i (calls ! i) w of
        (w', c) \<Rightarrow> run_calls cfg envs calls is (w', gm_put i c m))"

text \<open>\<open>order\<close> is the order in which the concurrent calls take effect.\<close>

definition dispatchTools :: "loop_config \<Rightarrow> (nat list \<Rightarrow> nat list) \<Rightarrow> (nat \<Rightarrow> call_env) \<Rightarrow> tool_call list \<Rightarrow>
    tool_world \<Rightarrow> tool_world \<times> (tool_call \<times> string) list" where
  "dispatchTools cfg order envs calls w =
     (case run_calls cfg envs calls (order (independent_idxs calls) @ serial_idxs calls) (w, []) of
        (w', m) \<Rightarrow> (w', map (\<lambda>i. (calls ! i, case gm_get m i of Some c \<Rightarrow> c | None \<Rightarrow> [])) [0..<length calls]))"

section \<open>Executions are admitted\<close>

text \<open>What holds of a tool call that is executed, and of a trace in which every execution follows
  an approval of the gate for the same tool and arguments, given in the same call.\<close>

definition admissible :: "loop_config \<Rightarrow> agent_effect \<Rightarrow> bool" where
  "admissible cfg e = (case e of
     EvExecute name args \<Rightarrow>
       name \<noteq> [] \<and> toolSchemaAllows cfg name \<and> runPre (lc_pre cfg) name args = None \<and>
       \<not> (isMuninnWriteTool name \<and> isQuestionShaped (lc_MemoryUserMsg cfg))
   | _ \<Rightarrow> True)"

fun approved :: "(string \<times> json_args) option \<Rightarrow> agent_effect \<Rightarrow> (string \<times> json_args) option" where
  "approved a (EvGate req ok) = (if ok then Some (pr_ToolName req, pr_Args req) else None)"
| "approved a (EvToolDone cid name r) = None"
| "approved a e = a"

fun gated :: "(string \<times> json_args) option \<Rightarrow> agent_effect list \<Rightarrow> bool" where
  "gated a [] = True"
| "gated a (e # es) = ((case e of EvExecute name args \<Rightarrow> a = Some (name, args) | _ \<Rightarrow> True) \<and> gated (approved a e) es)"

lemma gated_append: "gated a (xs @ ys) \<longleftrightarrow> gated a xs \<and> gated (fold (\<lambda>e a. approved a e) xs a) ys"
  by (induction xs arbitrary: a) simp_all

text \<open>The effects a call adds to the trace.\<close>

definition adds :: "(agent_effect list \<Rightarrow> bool) \<Rightarrow> tool_world \<Rightarrow> tool_world \<Rightarrow> bool" where
  "adds P w w' \<longleftrightarrow> (\<exists>es. tw_trace w' = tw_trace w @ es \<and> P es)"

lemma addsI: "tw_trace w' = tw_trace w @ es \<Longrightarrow> P es \<Longrightarrow> adds P w w'"
  by (auto simp: adds_def)

lemma trace_emit [simp]: "tw_trace (emit es w) = tw_trace w @ es"
  by (simp add: emit_def)

lemma trace_reconnect [simp]: "tw_trace (fst (TryReconnect rc w)) = tw_trace w"
  by (simp add: TryReconnect_def Let_def split: reconnect.splits)

lemma trace_degrade: "\<exists>es. tw_trace (fst (degrade cfg name (w, r))) = tw_trace w @ es \<and> set es \<subseteq> {EvVaultWarning}"
  by (auto simp: degrade_def emit_def)

lemma trace_tryExecute:
  "\<exists>k. tw_trace (fst (tryExecuteTool cfg env name t args w)) = tw_trace w @ replicate k (EvExecute name args)"
proof -
  have tr: "tw_trace w2 = tw_trace w1" if "TryReconnect (ce_reconnect env) w1 = (w2, ok)" for w1 w2 ok
    using trace_reconnect[of "ce_reconnect env" w1] that by simp
  have "replicate 1 (EvExecute name args) = [EvExecute name args]"
    "replicate 2 (EvExecute name args) = [EvExecute name args, EvExecute name args]"
    by (simp_all add: numeral_2_eq_2)
  then show ?thesis
    by (auto simp: tryExecuteTool_def execute_tool_def tr split: sum.splits prod.splits option.splits
        intro: exI[of _ 1] exI[of _ 2])
qed

lemma run_admitted_trace:
  "\<exists>k ws cid' r. tw_trace (fst (run_admitted cfg env cid t name args w)) =
     tw_trace w @ EvToolCall cid name args # replicate k (EvExecute name args) @ ws @ [EvToolDone cid' name r] \<and>
     set ws \<subseteq> {EvVaultWarning}"
proof -
  let ?w = "emit [EvToolCall cid name args] w"
  obtain k where k: "tw_trace (fst (tryExecuteTool cfg env name t args ?w)) =
      tw_trace ?w @ replicate k (EvExecute name args)" using trace_tryExecute by blast
  obtain w1 out where te: "tryExecuteTool cfg env name t args ?w = (w1, out)" by fastforce
  show ?thesis
  proof (cases out)
    case (Inl p)
    then show ?thesis using k te by (fastforce simp: run_admitted_def Let_def)
  next
    case (Inr r)
    obtain w2 r2 where d: "degrade cfg name (w1, r) = (w2, r2)" by fastforce
    obtain es where "tw_trace w2 = tw_trace w1 @ es" "set es \<subseteq> {EvVaultWarning}"
      using trace_degrade[of cfg name w1 r] d by auto
    then show ?thesis using k te Inr d by (auto simp: run_admitted_def)
  qed
qed

text \<open>The effects of one call are admissible and, on a loop with a gate, gated.\<close>

definition good_effects :: "loop_config \<Rightarrow> agent_effect list \<Rightarrow> bool" where
  "good_effects cfg es \<longleftrightarrow> list_all (admissible cfg) es \<and> (lc_hasGate cfg \<longrightarrow> (\<forall>a. gated a es))"

lemma good_append: "good_effects cfg xs \<Longrightarrow> good_effects cfg ys \<Longrightarrow> good_effects cfg (xs @ ys)"
  by (auto simp: good_effects_def gated_append)

lemma gated_warnings: "set ws \<subseteq> {EvVaultWarning} \<Longrightarrow> gated a ws \<and> fold (\<lambda>e a. approved a e) ws a = a"
  by (induction ws) auto

lemma gated_replicate:
  "gated (Some (n, x)) (replicate k (EvExecute n x)) \<and>
   fold (\<lambda>e a. approved a e) (replicate k (EvExecute n x)) a = a"
  by (induction k) simp_all

lemma good_admitted:
  assumes "admissible cfg (EvExecute name args)" and "set ws \<subseteq> {EvVaultWarning}"
    and "pre = (if lc_hasGate cfg then [EvGate req True] else [])" "pr_ToolName req = name" "pr_Args req = args"
  shows "good_effects cfg (pre @ EvToolCall cid name args # replicate k (EvExecute name args) @ ws @ [EvToolDone cid' name r])"
proof -
  have "list_all (admissible cfg) ws" using assms(2) by (auto simp: list_all_iff admissible_def)
  moreover have "list_all (admissible cfg) (replicate k (EvExecute name args))"
    using assms(1) by (simp add: list_all_iff)
  moreover have "list_all (admissible cfg) (pre @ [EvToolCall cid name args, EvToolDone cid' name r])"
    using assms(3) by (simp add: admissible_def)
  ultimately show ?thesis
    using assms gated_warnings[OF assms(2)] gated_replicate[of name args]
    by (auto simp: good_effects_def gated_append)
qed

lemma gate_call_trace:
  assumes "gate_call cfg env t name args w = (w1, out)"
  shows "tw_trace w1 = tw_trace w @ (if lc_hasGate cfg then [EvGate (call_request cfg w t name args) (out = None)] else [])"
  using assms by (auto simp: gate_call_def Let_def emit_def split: prod.splits if_splits)

lemma good_quiet: "list_all (\<lambda>e. case e of EvExecute n a \<Rightarrow> False | _ \<Rightarrow> True) es \<Longrightarrow> good_effects cfg es"
proof -
  assume q: "list_all (\<lambda>e. case e of EvExecute n a \<Rightarrow> False | _ \<Rightarrow> True) es"
  then have "gated a es" for a by (induction es arbitrary: a) (auto split: agent_effect.splits)
  moreover have "list_all (admissible cfg) es" using q
    by (auto simp: list_all_iff admissible_def split: agent_effect.splits)
  ultimately show ?thesis by (simp add: good_effects_def)
qed

lemma good_run_admitted:
  assumes "admissible cfg (EvExecute name args)"
    and tr: "tw_trace w1 = tw_trace w @ (if lc_hasGate cfg then [EvGate (call_request cfg w t0 name args) True] else [])"
  shows "adds (good_effects cfg) w (fst (run_admitted cfg env cid t name args w1))"
proof -
  obtain k ws cid' r where "tw_trace (fst (run_admitted cfg env cid t name args w1)) =
     tw_trace w1 @ EvToolCall cid name args # replicate k (EvExecute name args) @ ws @ [EvToolDone cid' name r]"
    and ws: "set ws \<subseteq> {EvVaultWarning}" using run_admitted_trace by blast
  with good_admitted[OF assms(1) ws refl, of "call_request cfg w t0 name args" cid k cid' r] tr show ?thesis
    by (intro addsI) (simp_all add: call_request_def)
qed

text \<open>The four ways out of a call: no tool or no grant, refused by the memory rule or the gate,
  refused by a hook or the user, executed.\<close>

lemma executeSingle_good: "adds (good_effects cfg) w (fst (executeSingle cfg env idx tc w))"
proof (cases "tc_Name tc = [] \<or> Get (tw_reg w) (tc_Name tc) = None \<or> \<not> toolSchemaAllows cfg (tc_Name tc)
    \<or> (isMuninnWriteTool (tc_Name tc) \<and> isQuestionShaped (lc_MemoryUserMsg cfg))")
  case True
  then show ?thesis
    by (auto simp: executeSingle_def Let_def adds_def split: option.splits intro!: good_quiet)
next
  case False
  let ?n = "tc_Name tc" and ?a = "tc_Args tc"
  obtain t where t: "Get (tw_reg w) ?n = Some t" using False by auto
  obtain w1 out where g: "gate_call cfg env t ?n ?a w = (w1, out)" by fastforce
  note tr = gate_call_trace[OF g]
  show ?thesis
  proof (cases "out = None \<and> runPre (lc_pre cfg) ?n ?a = None")
    case True
    then have adm: "admissible cfg (EvExecute ?n ?a)" using False by (simp add: admissible_def)
    have tr': "tw_trace w1 = tw_trace w @ (if lc_hasGate cfg then [EvGate (call_request cfg w t ?n ?a) True] else [])"
      using tr True by simp
    then have q: "adds (good_effects cfg) w w1" by (auto intro!: addsI good_quiet)
    from True g t False show ?thesis
      by (auto simp: executeSingle_def Let_def q good_run_admitted[OF adm tr'] split: prod.splits sum.splits)
  next
    case no: False
    then show ?thesis using g t False tr
      by (cases out) (auto simp: executeSingle_def Let_def adds_def split: option.splits intro!: good_quiet)
  qed
qed

lemma adds_trans: "adds (good_effects cfg) w w1 \<Longrightarrow> adds (good_effects cfg) w1 w2 \<Longrightarrow> adds (good_effects cfg) w w2"
  by (auto simp: adds_def intro: good_append)

lemma adds_refl: "adds (good_effects cfg) w w"
  by (auto simp: adds_def good_effects_def)

lemma run_calls_good: "adds (good_effects cfg) w (fst (run_calls cfg envs calls is (w, m)))"
proof (induction "is" arbitrary: w m)
  case (Cons i "is")
  obtain w' c where e: "executeSingle cfg (envs i) i (calls ! i) w = (w', c)" by fastforce
  then have "adds (good_effects cfg) w w'" using executeSingle_good[of cfg w "envs i" i "calls ! i"] by simp
  then show ?case using adds_trans Cons.IH[of w'] e by simp
qed (simp add: adds_refl)

lemma dispatch_good: "adds (good_effects cfg) w (fst (dispatchTools cfg order envs calls w))"
  using run_calls_good[of cfg w envs calls "order (independent_idxs calls) @ serial_idxs calls" "[]"]
  by (simp add: dispatchTools_def case_prod_beta)

lemma dispatch_calls: "map fst (snd (dispatchTools cfg order envs calls w)) = calls"
  by (simp add: dispatchTools_def comp_def case_prod_beta map_nth)

section \<open>Concurrent calls do not write the same file\<close>

definition is_write :: "tool_call \<Rightarrow> bool" where
  "is_write tc \<longleftrightarrow> tc_Name tc = ''write_file'' \<or> tc_Name tc = ''edit_file''"

lemma filter_two: "i < j \<Longrightarrow> j < length xs \<Longrightarrow> P (xs ! i) \<Longrightarrow> P (xs ! j) \<Longrightarrow> 2 \<le> length (filter P xs)"
proof -
  assume a: "i < j" "j < length xs" "P (xs ! i)" "P (xs ! j)"
  have "xs = take j xs @ drop j xs" by simp
  then have l: "length (filter P xs) = length (filter P (take j xs)) + length (filter P (drop j xs))"
    by (metis filter_append length_append)
  have "xs ! i \<in> set (take j xs)" using a by (simp add: in_set_conv_nth) (metis a(1) less_imp_le min.absorb2 nth_take)
  moreover have "xs ! j \<in> set (drop j xs)" using a by (metis Cons_nth_drop_Suc list.set_intros(1))
  ultimately have "filter P (take j xs) \<noteq> []" "filter P (drop j xs) \<noteq> []"
    using a by (auto simp: filter_empty_conv)
  then show ?thesis using l by (cases "filter P (take j xs)"; cases "filter P (drop j xs)") auto
qed

lemma independent_writes:
  assumes "i \<in> set (independent_idxs calls)" "j \<in> set (independent_idxs calls)" "i < j"
    and "is_write (calls ! i)" "is_write (calls ! j)"
  shows "arg_string (tc_Args (calls ! i)) ''file_path'' \<noteq> arg_string (tc_Args (calls ! j)) ''file_path''"
proof
  let ?path = "\<lambda>c. arg_string (tc_Args c) ''file_path''"
  assume eq: "?path (calls ! i) = ?path (calls ! j)"
  have "length (filter (\<lambda>c. is_write c \<and> ?path c = ?path (calls ! j)) calls) \<le> 1"
    using assms(2,5) by (auto simp: independent_idxs_def isIndependentTool_def is_write_def Let_def)
  moreover have "2 \<le> length (filter (\<lambda>c. is_write c \<and> ?path c = ?path (calls ! j)) calls)"
    using assms eq by (intro filter_two[of i j]) (auto simp: independent_idxs_def)
  ultimately show False by simp
qed

lemma batch_partition: "set (independent_idxs calls) \<inter> set (serial_idxs calls) = {}"
  "set (independent_idxs calls) \<union> set (serial_idxs calls) = {0..<length calls}"
  by (auto simp: independent_idxs_def serial_idxs_def)

end
