(* ===== verification/AgentLoop.thy ===== *)
theory AgentLoop
  imports AgentTools
begin

text \<open>
  The agentic loop (\<open>RunLoop\<close>, \<^verbatim>\<open>internal/agent/loop.go\<close>): turns of a model
  call and its tool calls, the synthetic wait for delegated threads, the speech-only turn after a
  specialist answered, the nudges, the refusals of the company wall, and the ways it ends.

  The answers of the model are arguments, turn by turn; so are the filters of visible speech
  (\<^verbatim>\<open>internal/backend/residual_speech.go\<close> and \<^verbatim>\<open>content_tool_calls.go\<close>) and
  the memory gate of the finished turn, about which nothing is assumed. Telemetry and live token
  streaming are not modelled; \<open>ls_said\<close> lists the texts the loop itself emits.
\<close>

section \<open>Types\<close>

datatype llm_reply = ReplyErr string | ReplyNil | Reply chat_response

datatype loop_error =
  TurnFailed nat string | NilResponse nat | ParseErrorLimit nat | LoopCancelled

record agent_result =
  lr_FinalContent :: string
  lr_TurnCount :: nat
  lr_StopReason :: string
  lr_Messages :: "message list"
  lr_PromptTokens :: int
  lr_CompletionTokens :: int

record speech_fns =
  sf_promote :: "string list \<Rightarrow> chat_response \<Rightarrow> chat_response"
  sf_visible :: "string \<Rightarrow> string \<Rightarrow> string"
  sf_imageStop :: "message list \<Rightarrow> string list \<Rightarrow> string"
  sf_teammate :: "message list \<Rightarrow> string list \<Rightarrow> string \<Rightarrow> string"
  sf_waitHasAnswer :: "string \<Rightarrow> bool"
  sf_deniedAgent :: "string \<Rightarrow> string"
  sf_persistStop :: "string \<Rightarrow> string \<Rightarrow> string \<Rightarrow> string"
  sf_unfinishedPlan :: "string \<Rightarrow> bool"
  sf_memoryGate :: "agent_result \<Rightarrow> agent_result"

record turn_env =
  tn_chat :: "message list \<Rightarrow> string list \<Rightarrow> llm_reply"
  tn_tokens :: "string list"
  tn_order :: "nat list \<Rightarrow> nat list"
  tn_calls :: "nat \<Rightarrow> call_env"
  tn_cancelled :: bool
  tn_direct :: "message list \<Rightarrow> string list \<Rightarrow> llm_reply"

record agent_state =
  ls_messages :: "message list"
  ls_Final :: string
  ls_Turns :: nat
  ls_Prompt :: int
  ls_Completion :: int
  ls_parseFailures :: nat
  ls_delegated :: bool
  ls_waited :: bool
  ls_autoWaited :: bool
  ls_toolsRan :: bool
  ls_specialistResult :: bool
  ls_workDone :: bool
  ls_nudges :: nat
  ls_lastWorkSpeech :: string
  ls_speechHinted :: bool
  ls_beforeAutoWait :: string
  ls_denied :: bool
  ls_said :: "string list"
  ls_chats :: nat
  ls_world :: tool_world

section \<open>Texts\<close>

definition lastHumanUserText :: "message list \<Rightarrow> string" where
  "lastHumanUserText msgs =
     (case filter (\<lambda>m. msg_Role m = ''user'' \<and> trim_space (msg_Content m) \<noteq> [] \<and>
                     \<not> has_prefix (trim_space (msg_Content m)) ''[system]'') (rev msgs) of
        [] \<Rightarrow> [] | m # _ \<Rightarrow> trim_space (msg_Content m))"

definition isTerminalWorkTool :: "string \<Rightarrow> bool" where
  "isTerminalWorkTool name \<longleftrightarrow> name \<in> {''bash'', ''shell'', ''exec''}"

definition maxUnfinishedPlanContinuations :: nat where
  "maxUnfinishedPlanContinuations = 3"

definition waitReturnedSpecialistResult :: "string \<Rightarrow> bool" where
  "waitReturnedSpecialistResult content \<longleftrightarrow>
     \<not> has_prefix content ''error:'' \<and> contains_str content ''## Finished threads''"

definition userAskedSam :: "string \<Rightarrow> bool" where
  "userAskedSam ask \<longleftrightarrow> contains_str (to_lower ask) ''ask sam''"

definition askMentionsDeniedAgent :: "speech_fns \<Rightarrow> string \<Rightarrow> string \<Rightarrow> bool" where
  "askMentionsDeniedAgent sf ask wallDeny =
     (let name = sf_deniedAgent sf wallDeny
      in name \<noteq> [] \<and> contains_str (to_lower ask) (to_lower name))"

definition trim_prefix :: "string \<Rightarrow> string \<Rightarrow> string" where
  "trim_prefix p s = (if has_prefix s p then drop (length p) s else s)"

definition IsCompanyWallDeny :: "string \<Rightarrow> bool" where
  "IsCompanyWallDeny content =
     (let s = trim_space (trim_prefix ''error: '' (trim_space content))
      in contains_str s (''isn'' @ [CHR 0x27] @ ''t in this company'') \<or>
         contains_str s (''Steve isn'' @ [CHR 0x27] @ ''t in Lab''))"

definition specialist_hint :: string where
  "specialist_hint = ''[system] Specialists already finished. Speak to the human: say what they reported, then finish any leftover question. No tools. No playbook. No templates.''"

definition work_hint :: string where
  "work_hint = ''[system] The tool already ran. Tell the human the result in one short sentence. No more tools.''"

definition continue_hint :: string where
  "continue_hint = ''[system] Continue: execute the next step now by calling the tool '' @
     [CHR 0xE2, CHR 0x80, CHR 0x94] @ '' do not describe it.''"

definition direct_hint :: string where
  "direct_hint = ''[system] That teammate isn'' @ [CHR 0x27] @ ''t available for this. Answer directly yourself '' @
     [CHR 0xE2, CHR 0x80, CHR 0x94] @ '' no delegating, no tools.''"

definition parse_hint :: "nat \<Rightarrow> string" where
  "parse_hint n = ''[system] '' @ show_nat n @
     '' tool call(s) were malformed and could not be executed. Please retry with valid JSON arguments.''"

text \<open>The token buffer of a speech-only turn: it stops the stream when the first visible character
  is an opening brace.\<close>

record cutter =
  cu_raw :: string
  cu_decided :: bool
  cu_cut :: bool

definition cutter_token :: "string \<Rightarrow> cutter \<Rightarrow> cutter" where
  "cutter_token tok c =
     (if cu_cut c then c
      else let raw = cu_raw c @ tok; lead = dropWhile (\<lambda>x. x \<in> {CHR '' '', CHR 0x09, CHR 0x0D, CHR 0x0A}) raw
           in if cu_decided c \<or> lead = [] then c\<lparr>cu_raw := raw\<rparr>
              else c\<lparr>cu_raw := raw, cu_decided := True, cu_cut := (hd lead = CHR 0x7B)\<rparr>)"

definition cutter_run :: "string list \<Rightarrow> cutter" where
  "cutter_run toks = fold cutter_token toks \<lparr>cu_raw = [], cu_decided = False, cu_cut = False\<rparr>"

section \<open>Ends of the loop\<close>

definition say :: "string \<Rightarrow> agent_state \<Rightarrow> agent_state" where
  "say txt st = (if txt = [] then st else st\<lparr>ls_said := ls_said st @ [txt]\<rparr>)"

definition result_of :: "string \<Rightarrow> agent_state \<Rightarrow> agent_result" where
  "result_of reason st =
     \<lparr>lr_FinalContent = ls_Final st, lr_TurnCount = ls_Turns st, lr_StopReason = reason,
      lr_Messages = ls_messages st, lr_PromptTokens = ls_Prompt st, lr_CompletionTokens = ls_Completion st\<rparr>"

definition add_msgs :: "message list \<Rightarrow> agent_state \<Rightarrow> agent_state" where
  "add_msgs ms st = st\<lparr>ls_messages := ls_messages st @ ms\<rparr>"

type_synonym turn_outcome = "(agent_state \<times> agent_result \<times> loop_error option) + agent_state"

definition stop_with :: "string \<Rightarrow> loop_error option \<Rightarrow> agent_state \<Rightarrow> turn_outcome" where
  "stop_with reason err st = Inl (st, result_of reason st, err)"

definition stopTurnPersist :: "speech_fns \<Rightarrow> string \<Rightarrow> string \<Rightarrow> agent_state \<Rightarrow> turn_outcome" where
  "stopTurnPersist sf blob ask st =
     (let p = sf_persistStop sf (ls_Final st) blob ask;
          final = (if p = [] then trim_space (ls_Final st) else p);
          st1 = (if final = [] then st else say final (add_msgs [plain_msg ''assistant'' final] st))
      in stop_with ''stop'' None (st1\<lparr>ls_Final := final\<rparr>))"

definition direct_answer :: "loop_config \<Rightarrow> turn_env \<Rightarrow> string \<Rightarrow> message list \<Rightarrow> string" where
  "direct_answer cfg tn ask msgs =
     (let schemas = filter (\<lambda>n. n \<noteq> ''delegate_to_agent'' \<and> n \<noteq> ''consult_agent'') (lc_Schemas cfg);
          answer = (case tn_direct tn (msgs @ [plain_msg ''user'' direct_hint]) schemas of
             Reply r \<Rightarrow> (let c = trim_space (cr_Content r)
                         in if c \<noteq> [] \<and> cr_ToolCalls r = [] \<and> \<not> IsCompanyWallDeny c then c else [])
           | _ \<Rightarrow> [])
      in if answer \<noteq> [] then answer
         else ''Couldn'' @ [CHR 0x27] @ ''t hand that off '' @ [CHR 0xE2, CHR 0x80, CHR 0x94] @ '' '' @
              trim_space ask @ '' needs a teammate I don'' @ [CHR 0x27] @ ''t have here.'')"

definition wallDenyAnswerDirectly :: "loop_config \<Rightarrow> turn_env \<Rightarrow> string \<Rightarrow> agent_state \<Rightarrow> turn_outcome" where
  "wallDenyAnswerDirectly cfg tn ask st =
     (let final = direct_answer cfg tn ask (ls_messages st)
      in stop_with ''stop'' None
           ((say final (add_msgs [plain_msg ''assistant'' final] (st\<lparr>ls_chats := ls_chats st + 1\<rparr>)))\<lparr>ls_Final := final\<rparr>))"

section \<open>Tool results\<close>

definition tool_msg :: "tool_call \<times> string \<Rightarrow> message" where
  "tool_msg r =
     \<lparr>msg_Role = ''tool'', msg_Content = snd r, msg_ToolCalls = [], msg_ToolName = tc_Name (fst r),
      msg_ToolCallID = tc_ID (fst r)\<rparr>"

definition assistant_msg :: "string \<Rightarrow> tool_call list \<Rightarrow> message" where
  "assistant_msg content calls =
     \<lparr>msg_Role = ''assistant'', msg_Content = content, msg_ToolCalls = calls, msg_ToolName = [],
      msg_ToolCallID = []\<rparr>"

text \<open>A batch run by the loop: its results, and whether the gate denied a call.\<close>

definition loop_dispatch :: "loop_config \<Rightarrow> turn_env \<Rightarrow> tool_call list \<Rightarrow> agent_state \<Rightarrow>
    agent_state \<times> (tool_call \<times> string) list" where
  "loop_dispatch cfg tn calls st =
     (case dispatchTools cfg (tn_order tn) (tn_calls tn) calls (ls_world st) of
        (w, rs) \<Rightarrow>
          (st\<lparr>ls_world := w, ls_toolsRan := True,
              ls_denied := ls_denied st \<or>
                list_ex (\<lambda>e. case e of EvPermissionDenied n \<Rightarrow> True | _ \<Rightarrow> False)
                  (drop (length (tw_trace (ls_world st))) (tw_trace w))\<rparr>, rs))"

text \<open>What the loop notes of a result: state, last wall refusal, last wait answer.\<close>

definition note_wait :: "speech_fns \<Rightarrow> string \<Rightarrow> agent_state \<times> string \<times> string \<Rightarrow> agent_state \<times> string \<times> string" where
  "note_wait sf content acc =
     (case acc of (st, wall, ans) \<Rightarrow>
        if waitReturnedSpecialistResult content
        then (st\<lparr>ls_specialistResult := True\<rparr>, wall, if sf_waitHasAnswer sf content then content else ans)
        else (st, wall, ans))"

definition note_call :: "speech_fns \<Rightarrow> string \<Rightarrow> string \<Rightarrow> agent_state \<times> string \<times> string \<Rightarrow>
    agent_state \<times> string \<times> string" where
  "note_call sf name content acc =
     (case acc of (st, wall, ans) \<Rightarrow>
        if name = ''delegate_to_agent'' then
          (if \<not> has_prefix content ''error:'' then (st\<lparr>ls_delegated := True\<rparr>, wall, ans)
           else if IsCompanyWallDeny content then (st, content, ans) else (st, wall, ans))
        else if name = ''consult_agent'' then
          (if IsCompanyWallDeny content then (st, content, ans) else (st, wall, ans))
        else if name = ''wait_for_threads'' then note_wait sf content (st\<lparr>ls_waited := True\<rparr>, wall, ans)
        else if name \<in> {''recall_thread_result'', ''list_team_status''} then (st, wall, ans)
        else if isTerminalWorkTool name \<and> \<not> has_prefix content ''error:'' \<and> trim_space content \<noteq> []
        then (st\<lparr>ls_workDone := True, ls_lastWorkSpeech := content\<rparr>, wall, ans)
        else (st, wall, ans))"

definition note_result :: "speech_fns \<Rightarrow> tool_call \<times> string \<Rightarrow> agent_state \<times> string \<times> string \<Rightarrow>
    agent_state \<times> string \<times> string" where
  "note_result sf r acc =
     (case note_call sf (tc_Name (fst r)) (snd r) acc of (st, wall, ans) \<Rightarrow> (add_msgs [tool_msg r] st, wall, ans))"

definition note_auto :: "speech_fns \<Rightarrow> tool_call \<times> string \<Rightarrow> agent_state \<times> string \<times> string \<Rightarrow>
    agent_state \<times> string \<times> string" where
  "note_auto sf r acc = (case note_wait sf (snd r) acc of (st, wall, ans) \<Rightarrow> (add_msgs [tool_msg r] st, wall, ans))"

section \<open>A turn\<close>

definition canAutoWait :: "loop_config \<Rightarrow> agent_state \<Rightarrow> bool" where
  "canAutoWait cfg st \<longleftrightarrow>
     toolSchemaAllows cfg ''wait_for_threads'' \<and> Get (tw_reg (ls_world st)) ''wait_for_threads'' \<noteq> None"

definition auto_wait_call :: tool_call where
  "auto_wait_call = \<lparr>tc_ID = ''auto_wait_1'', tc_Name = ''wait_for_threads'', tc_Args = []\<rparr>"

definition auto_wait :: "loop_config \<Rightarrow> speech_fns \<Rightarrow> turn_env \<Rightarrow> agent_state \<Rightarrow> turn_outcome" where
  "auto_wait cfg sf tn st =
     (case loop_dispatch cfg tn [auto_wait_call]
             (add_msgs [assistant_msg [] [auto_wait_call]]
               (st\<lparr>ls_autoWaited := True, ls_beforeAutoWait := ls_Final st\<rparr>)) of
        (st1, rs) \<Rightarrow>
          (case fold (note_auto sf) rs (st1, [], []) of
             (st2, _, ans) \<Rightarrow>
               if tn_cancelled tn then stop_with ''cancelled'' (Some LoopCancelled) st2
               else if ans \<noteq> [] then stopTurnPersist sf ans (lastHumanUserText (ls_messages st2)) st2
               else Inr st2))"

definition replace_last_speech :: "string \<Rightarrow> agent_state \<Rightarrow> agent_state" where
  "replace_last_speech txt st =
     (if ls_messages st \<noteq> [] \<and> msg_Role (last (ls_messages st)) = ''assistant''
      then st\<lparr>ls_messages := butlast (ls_messages st) @ [(last (ls_messages st))\<lparr>msg_Content := txt\<rparr>]\<rparr> else st)"

definition no_tools_turn :: "loop_config \<Rightarrow> speech_fns \<Rightarrow> turn_env \<Rightarrow> agent_state \<Rightarrow> turn_outcome" where
  "no_tools_turn cfg sf tn st =
     (if ls_delegated st \<and> \<not> ls_waited st \<and> \<not> ls_autoWaited st \<and> canAutoWait cfg st
      then auto_wait cfg sf tn st
      else
        let st1 = (if ls_autoWaited st \<and> ls_Final st = [] then st\<lparr>ls_Final := ls_beforeAutoWait st\<rparr> else st)
        in if ls_toolsRan st1 \<and> lc_Schemas cfg \<noteq> [] \<and> ls_nudges st1 < maxUnfinishedPlanContinuations \<and>
              sf_unfinishedPlan sf (ls_Final st1)
           then Inr (add_msgs [plain_msg ''user'' continue_hint] (st1\<lparr>ls_nudges := ls_nudges st1 + 1\<rparr>))
           else
             let speech = sf_teammate sf (ls_messages st1) (lc_Schemas cfg) (ls_Final st1);
                 st2 = (if speech \<noteq> ls_Final st1
                        then replace_last_speech speech (st1\<lparr>ls_Final := speech\<rparr>) else st1)
             in stop_with ''stop'' None (say (ls_Final st2) st2))"

definition tools_turn :: "loop_config \<Rightarrow> speech_fns \<Rightarrow> turn_env \<Rightarrow> tool_call list \<Rightarrow> agent_state \<Rightarrow> turn_outcome" where
  "tools_turn cfg sf tn calls st =
     (case loop_dispatch cfg tn calls st of
        (st1, rs) \<Rightarrow>
          (case fold (note_result sf) rs (st1, [], []) of
             (st2, wall, ans) \<Rightarrow>
               if tn_cancelled tn then stop_with ''cancelled'' (Some LoopCancelled) st2
               else
                 let ask = lastHumanUserText (ls_messages st2)
                 in if wall \<noteq> [] \<and> \<not> userAskedSam ask then
                      (if askMentionsDeniedAgent sf ask wall then stopTurnPersist sf wall ask st2
                       else wallDenyAnswerDirectly cfg tn ask st2)
                    else if ans \<noteq> [] then stopTurnPersist sf ans ask st2
                    else Inr st2))"

definition first_nonempty :: "string list \<Rightarrow> string" where
  "first_nonempty xs = (case filter (\<lambda>x. x \<noteq> []) xs of [] \<Rightarrow> [] | x # _ \<Rightarrow> x)"

definition speech_turn :: "loop_config \<Rightarrow> speech_fns \<Rightarrow> chat_response \<Rightarrow> agent_state \<Rightarrow> turn_outcome" where
  "speech_turn cfg sf r st =
     (let c = first_nonempty [sf_visible sf (cr_Content r) (lastHumanUserText (ls_messages st)),
                              ls_Final st, ls_beforeAutoWait st, ls_lastWorkSpeech st];
          speech = sf_teammate sf (ls_messages st) (lc_Schemas cfg) c
      in stop_with ''stop'' None ((say speech (add_msgs [assistant_msg speech []] st))\<lparr>ls_Final := speech\<rparr>))"

definition answer_turn :: "loop_config \<Rightarrow> speech_fns \<Rightarrow> turn_env \<Rightarrow> chat_response \<Rightarrow> agent_state \<Rightarrow> turn_outcome" where
  "answer_turn cfg sf tn r0 st =
     (let r1 = sf_promote sf (lc_Schemas cfg) r0;
          content = (if ls_denied st \<or> ls_toolsRan st
                     then sf_visible sf (cr_Content r1) (lastHumanUserText (ls_messages st)) else cr_Content r1);
          st1 = (add_msgs [assistant_msg content (cr_ToolCalls r1)] st)\<lparr>ls_Final := content\<rparr>
      in if cr_ParseErrors r1 \<noteq> [] then
           (let st2 = st1\<lparr>ls_parseFailures := ls_parseFailures st1 + 1\<rparr>
            in if ls_parseFailures st2 \<ge> 3
               then stop_with ''parse_error_limit'' (Some (ParseErrorLimit (ls_parseFailures st2))) st2
               else Inr (add_msgs [plain_msg ''user'' (parse_hint (length (cr_ParseErrors r1)))] st2))
         else
           let st2 = st1\<lparr>ls_parseFailures := 0\<rparr>
           in if cr_ToolCalls r1 = [] then no_tools_turn cfg sf tn st2
              else tools_turn cfg sf tn (cr_ToolCalls r1) st2)"

definition speech_only :: "agent_state \<Rightarrow> bool" where
  "speech_only st \<longleftrightarrow> ls_specialistResult st \<or> ls_workDone st"

definition hint_speech :: "agent_state \<Rightarrow> agent_state" where
  "hint_speech st =
     (if speech_only st \<and> \<not> ls_speechHinted st
      then add_msgs [plain_msg ''user'' (if ls_workDone st \<and> \<not> ls_specialistResult st then work_hint else specialist_hint)]
             (st\<lparr>ls_speechHinted := True\<rparr>)
      else st)"

text \<open>The reply of the model; on a speech-only turn the buffer may have cut it.\<close>

definition turn_reply :: "loop_config \<Rightarrow> turn_env \<Rightarrow> agent_state \<Rightarrow> llm_reply" where
  "turn_reply cfg tn st =
     (let reply = tn_chat tn (ls_messages st) (lc_Schemas cfg); c = cutter_run (tn_tokens tn)
      in if speech_only st \<and> cu_cut c
         then Reply ((case reply of Reply r \<Rightarrow> r
                      | _ \<Rightarrow> \<lparr>cr_Content = [], cr_ToolCalls = [], cr_PromptTokens = 0, cr_CompletionTokens = 0,
                              cr_DoneReason = ''stop'', cr_ParseErrors = []\<rparr>)
                     \<lparr>cr_Content := cu_raw c, cr_ToolCalls := []\<rparr>)
         else reply)"

text \<open>The state in which a turn's reply is handled.\<close>

definition turn_start :: "nat \<Rightarrow> agent_state \<Rightarrow> agent_state" where
  "turn_start turn st = hint_speech (st\<lparr>ls_Turns := Suc turn\<rparr>)"

definition turn_counted :: "chat_response option \<Rightarrow> agent_state \<Rightarrow> agent_state" where
  "turn_counted r st =
     (let st2 = st\<lparr>ls_chats := ls_chats st + 1\<rparr>
      in case r of None \<Rightarrow> st2
         | Some r \<Rightarrow> st2\<lparr>ls_Prompt := ls_Prompt st2 + cr_PromptTokens r,
                         ls_Completion := ls_Completion st2 + cr_CompletionTokens r\<rparr>)"

definition loop_turn :: "loop_config \<Rightarrow> speech_fns \<Rightarrow> turn_env \<Rightarrow> nat \<Rightarrow> agent_state \<Rightarrow> turn_outcome" where
  "loop_turn cfg sf tn turn st =
     (let st1 = turn_start turn st
      in case turn_reply cfg tn st1 of
           ReplyErr e \<Rightarrow> Inl (turn_counted None st1, (result_of ''error'' (turn_counted None st1))\<lparr>lr_Messages := []\<rparr>,
                              Some (TurnFailed (Suc turn) e))
         | ReplyNil \<Rightarrow> stop_with ''error'' (Some (NilResponse (Suc turn))) (turn_counted None st1)
         | Reply r \<Rightarrow> if speech_only st1 then speech_turn cfg sf r (turn_counted (Some r) st1)
                      else answer_turn cfg sf tn r (turn_counted (Some r) st1))"

section \<open>The loop\<close>

primrec run_turns :: "loop_config \<Rightarrow> speech_fns \<Rightarrow> (nat \<Rightarrow> turn_env) \<Rightarrow> nat \<Rightarrow> nat \<Rightarrow> agent_state \<Rightarrow>
    agent_state \<times> agent_result \<times> loop_error option" where
  "run_turns cfg sf tns 0 turn st = (say (ls_Final st) st, result_of ''max_turns'' st, None)"
| "run_turns cfg sf tns (Suc n) turn st =
     (case loop_turn cfg sf (tns turn) turn st of
        Inl out \<Rightarrow> out
      | Inr st' \<Rightarrow> run_turns cfg sf tns n (Suc turn) st')"

definition initial_state :: "message list \<Rightarrow> tool_world \<Rightarrow> agent_state" where
  "initial_state msgs w =
     \<lparr>ls_messages = msgs, ls_Final = [], ls_Turns = 0, ls_Prompt = 0, ls_Completion = 0, ls_parseFailures = 0,
      ls_delegated = False, ls_waited = False, ls_autoWaited = False, ls_toolsRan = False,
      ls_specialistResult = False, ls_workDone = False, ls_nudges = 0, ls_lastWorkSpeech = [],
      ls_speechHinted = False, ls_beforeAutoWait = [], ls_denied = False, ls_said = [], ls_chats = 0, ls_world = w\<rparr>"

definition max_turns :: "loop_config \<Rightarrow> nat" where
  "max_turns cfg = (if lc_MaxTurns cfg \<le> 0 then 50 else nat (lc_MaxTurns cfg))"

definition RunLoop :: "loop_config \<Rightarrow> speech_fns \<Rightarrow> (nat \<Rightarrow> turn_env) \<Rightarrow> message list \<Rightarrow> tool_world \<Rightarrow>
    agent_state \<times> agent_result \<times> loop_error option" where
  "RunLoop cfg sf tns msgs w =
     (let early = sf_imageStop sf msgs (lc_Schemas cfg); st = initial_state msgs w
      in if early \<noteq> [] then
           (let st1 = (say early (add_msgs [plain_msg ''assistant'' early] st))\<lparr>ls_Final := early\<rparr>
            in (st1, result_of ''stop'' st1, None))
         else case run_turns cfg sf tns (max_turns cfg) 0 st of
           (st', res, err) \<Rightarrow> (st', if err = None then sf_memoryGate sf res else res, err))"

section \<open>What the parts of a turn leave alone\<close>

definition outcome_state :: "turn_outcome \<Rightarrow> agent_state" where
  "outcome_state out = (case out of Inl x \<Rightarrow> fst x | Inr st \<Rightarrow> st)"

lemma outcome_simps [simp]: "outcome_state (Inl x) = fst x" "outcome_state (Inr st) = st"
  "outcome_state (stop_with reason err st) = st"
  by (simp_all add: outcome_state_def stop_with_def)

text \<open>The same tools, model calls and turn count.\<close>

definition same_world :: "agent_state \<Rightarrow> agent_state \<Rightarrow> bool" where
  "same_world st st' \<longleftrightarrow> ls_world st' = ls_world st \<and> ls_chats st' = ls_chats st \<and> ls_Turns st' = ls_Turns st"

lemma same_world_refl [simp]: "same_world st st"
  by (simp add: same_world_def)

lemma same_world_trans: "same_world a b \<Longrightarrow> same_world b c \<Longrightarrow> same_world a c"
  by (simp add: same_world_def)

lemma same_world_simps [simp]: "same_world st (say txt st)" "same_world st (add_msgs ms st)"
  "same_world st (replace_last_speech txt st)" "same_world st (hint_speech st)"
  by (simp_all add: same_world_def say_def add_msgs_def replace_last_speech_def hint_speech_def)

lemma note_wait_same: "same_world (fst acc) (fst (note_wait sf c acc))"
  by (cases acc) (simp add: note_wait_def same_world_def)

lemma note_call_same: "same_world (fst acc) (fst (note_call sf n c acc))"
proof -
  obtain st wall ans where acc: "acc = (st, wall, ans)" by (cases acc) auto
  have "same_world st (fst (note_wait sf c (st\<lparr>ls_waited := True\<rparr>, wall, ans)))"
    using note_wait_same[of "(st\<lparr>ls_waited := True\<rparr>, wall, ans)" sf c] by (simp add: same_world_def)
  then show ?thesis unfolding acc note_call_def by (simp add: same_world_def)
qed

lemma note_same: "same_world (fst acc) (fst (note_result sf r acc))" "same_world (fst acc) (fst (note_auto sf r acc))"
  using note_call_same[of acc sf "tc_Name (fst r)" "snd r"] note_wait_same[of acc sf "snd r"]
  by (auto simp: note_result_def note_auto_def case_prod_beta intro: same_world_trans)

lemma fold_same:
  assumes "\<And>r acc. same_world (fst acc) (fst (f r acc))"
  shows "same_world (fst acc) (fst (fold f rs acc))"
proof (induction rs arbitrary: acc)
  case (Cons r rs)
  show ?case using same_world_trans[OF assms Cons.IH] by simp
qed simp

lemma dispatch_world:
  "adds (good_effects cfg) (ls_world st) (ls_world (fst (loop_dispatch cfg tn calls st)))"
  "ls_chats (fst (loop_dispatch cfg tn calls st)) = ls_chats st"
  "ls_Turns (fst (loop_dispatch cfg tn calls st)) = ls_Turns st"
  using dispatch_good[of cfg "ls_world st" "tn_order tn" "tn_calls tn" calls]
  by (simp_all add: loop_dispatch_def case_prod_beta)

text \<open>A turn's end: the tools ran by the rules, with at most one more model call.\<close>

definition turn_ok :: "loop_config \<Rightarrow> agent_state \<Rightarrow> turn_outcome \<Rightarrow> bool" where
  "turn_ok cfg st out \<longleftrightarrow>
     adds (good_effects cfg) (ls_world st) (ls_world (outcome_state out)) \<and>
     ls_Turns (outcome_state out) = ls_Turns st \<and>
     ls_chats (outcome_state out) \<le> ls_chats st + (case out of Inl x \<Rightarrow> 1 | Inr x \<Rightarrow> 0)"

lemma turn_ok_same: "same_world st (outcome_state out) \<Longrightarrow> turn_ok cfg st out"
  by (auto simp: turn_ok_def same_world_def adds_refl split: sum.splits)

lemma turn_ok_from:
  "turn_ok cfg st1 out \<Longrightarrow> adds (good_effects cfg) (ls_world st) (ls_world st1) \<Longrightarrow>
     ls_chats st1 = ls_chats st \<Longrightarrow> ls_Turns st1 = ls_Turns st \<Longrightarrow> turn_ok cfg st out"
  by (auto simp: turn_ok_def intro: adds_trans)

lemma turn_ok_persist: "turn_ok cfg st (stopTurnPersist sf blob ask st)"
  by (rule turn_ok_same) (auto simp: stopTurnPersist_def Let_def same_world_def say_def add_msgs_def)

lemma turn_ok_direct: "turn_ok cfg st (wallDenyAnswerDirectly cfg tn ask st)"
  by (auto simp: wallDenyAnswerDirectly_def Let_def turn_ok_def say_def add_msgs_def stop_with_def adds_refl)

lemma turn_ok_auto_wait: "turn_ok cfg st (auto_wait cfg sf tn st)"
proof -
  let ?st0 = "add_msgs [assistant_msg [] [auto_wait_call]] (st\<lparr>ls_autoWaited := True, ls_beforeAutoWait := ls_Final st\<rparr>)"
  obtain st1 rs where d: "loop_dispatch cfg tn [auto_wait_call] ?st0 = (st1, rs)" by fastforce
  obtain st2 wall ans where f: "fold (note_auto sf) rs (st1, [], []) = (st2, wall, ans)" by (metis prod_cases3)
  have st2: "same_world st1 st2" using fold_same[of "note_auto sf" "(st1, [], [])" rs] note_same f by simp
  have st1: "adds (good_effects cfg) (ls_world st) (ls_world st1)" "ls_chats st1 = ls_chats st" "ls_Turns st1 = ls_Turns st"
    using dispatch_world(1)[of cfg ?st0 tn "[auto_wait_call]"] dispatch_world(2,3)[of cfg tn "[auto_wait_call]" ?st0] d by (simp_all add: add_msgs_def)
  show ?thesis
    by (rule turn_ok_from[of _ st2])
       (use d f st1 st2 in \<open>auto simp: auto_wait_def same_world_def intro: turn_ok_same turn_ok_persist\<close>)
qed

lemma turn_ok_tools: "turn_ok cfg st (tools_turn cfg sf tn calls st)"
proof -
  obtain st1 rs where d: "loop_dispatch cfg tn calls st = (st1, rs)" by fastforce
  obtain st2 wall ans where f: "fold (note_result sf) rs (st1, [], []) = (st2, wall, ans)" by (metis prod_cases3)
  have st2: "same_world st1 st2"
    using fold_same[of "note_result sf" "(st1, [], [])" rs] note_same f by simp
  have st1: "adds (good_effects cfg) (ls_world st) (ls_world st1)" "ls_chats st1 = ls_chats st" "ls_Turns st1 = ls_Turns st"
    using dispatch_world(1)[of cfg st tn calls] dispatch_world(2,3)[of cfg tn calls st] d by simp_all
  show ?thesis
    by (rule turn_ok_from[of _ st2])
       (use d f st1 st2 in \<open>auto simp: tools_turn_def Let_def same_world_def intro: turn_ok_same turn_ok_persist turn_ok_direct\<close>)
qed

lemma turn_ok_no_tools: "turn_ok cfg st (no_tools_turn cfg sf tn st)"
proof (cases "ls_delegated st \<and> \<not> ls_waited st \<and> \<not> ls_autoWaited st \<and> canAutoWait cfg st")
  case True
  then show ?thesis using turn_ok_auto_wait[of cfg st sf tn] by (simp add: no_tools_turn_def)
next
  case False
  then have "same_world st (outcome_state (no_tools_turn cfg sf tn st))"
    by (auto simp: no_tools_turn_def Let_def same_world_def say_def add_msgs_def replace_last_speech_def)
  then show ?thesis by (rule turn_ok_same)
qed

lemma turn_ok_answer: "turn_ok cfg st (answer_turn cfg sf tn r st)"
proof -
  let ?st1 = "\<lambda>c cs n. (add_msgs [assistant_msg c cs] st)\<lparr>ls_Final := c, ls_parseFailures := n\<rparr>"
  have "turn_ok cfg st (no_tools_turn cfg sf tn (?st1 c cs n))" "turn_ok cfg st (tools_turn cfg sf tn xs (?st1 c cs n))"
    for c cs n xs
    using turn_ok_no_tools[of cfg "?st1 c cs n" sf tn] turn_ok_tools[of cfg "?st1 c cs n" sf tn xs]
    by (auto simp: turn_ok_def add_msgs_def)
  then show ?thesis
    by (auto simp: answer_turn_def Let_def intro!: turn_ok_same)
       (auto simp: same_world_def add_msgs_def)
qed

lemma turn_ok_speech: "turn_ok cfg st (speech_turn cfg sf r st)"
  by (rule turn_ok_same) (auto simp: speech_turn_def Let_def same_world_def say_def add_msgs_def)

lemma turn_counted_simps [simp]:
  "ls_world (turn_counted r st) = ls_world st" "ls_Turns (turn_counted r st) = ls_Turns st"
  "ls_chats (turn_counted r st) = ls_chats st + 1" "ls_messages (turn_counted r st) = ls_messages st"
  by (simp_all add: turn_counted_def Let_def split: option.splits)

lemma turn_start_simps [simp]:
  "ls_world (turn_start turn st) = ls_world st" "ls_Turns (turn_start turn st) = Suc turn"
  "ls_chats (turn_start turn st) = ls_chats st"
  by (simp_all add: turn_start_def hint_speech_def add_msgs_def)

lemma loop_turn_ok:
  "adds (good_effects cfg) (ls_world st) (ls_world (outcome_state (loop_turn cfg sf tn turn st)))"
  "ls_Turns (outcome_state (loop_turn cfg sf tn turn st)) = Suc turn"
  "ls_chats (outcome_state (loop_turn cfg sf tn turn st)) \<le>
     ls_chats st + 1 + (case loop_turn cfg sf tn turn st of Inl x \<Rightarrow> 1 | Inr x \<Rightarrow> 0)"
proof -
  have "turn_ok cfg (turn_counted None (turn_start turn st)) (loop_turn cfg sf tn turn st)"
  proof (cases "turn_reply cfg tn (turn_start turn st)")
    case (Reply r)
    let ?s = "turn_counted (Some r) (turn_start turn st)"
    have "turn_ok cfg ?s (loop_turn cfg sf tn turn st)"
      using Reply turn_ok_speech[of cfg ?s sf r] turn_ok_answer[of cfg ?s sf tn r]
      by (simp add: loop_turn_def Let_def)
    then show ?thesis by (simp add: turn_ok_def)
  qed (auto simp: loop_turn_def Let_def intro: turn_ok_same)
  then show "adds (good_effects cfg) (ls_world st) (ls_world (outcome_state (loop_turn cfg sf tn turn st)))"
    "ls_Turns (outcome_state (loop_turn cfg sf tn turn st)) = Suc turn"
    "ls_chats (outcome_state (loop_turn cfg sf tn turn st)) \<le>
     ls_chats st + 1 + (case loop_turn cfg sf tn turn st of Inl x \<Rightarrow> 1 | Inr x \<Rightarrow> 0)"
    by (simp_all add: turn_ok_def)
qed

lemma run_turns_ok:
  "ls_Turns st = turn \<Longrightarrow>
     adds (good_effects cfg) (ls_world st) (ls_world (fst (run_turns cfg sf tns n turn st))) \<and>
     ls_Turns (fst (run_turns cfg sf tns n turn st)) \<le> turn + n \<and>
     ls_chats (fst (run_turns cfg sf tns n turn st)) \<le> ls_chats st + n + 1"
proof (induction n arbitrary: turn st)
  case 0
  have "same_world st (say (ls_Final st) st)" by simp
  with 0 show ?case by (simp add: same_world_def adds_refl)
next
  case (Suc n)
  note ok = loop_turn_ok(1)[of cfg st sf "tns turn" turn] loop_turn_ok(2)[of cfg sf "tns turn" turn st]
  have c: "ls_chats (outcome_state (loop_turn cfg sf (tns turn) turn st)) \<le>
      ls_chats st + 1 + (case loop_turn cfg sf (tns turn) turn st of Inl x \<Rightarrow> 1 | Inr x \<Rightarrow> 0)"
    by (rule loop_turn_ok(3))
  show ?case
  proof (cases "loop_turn cfg sf (tns turn) turn st")
    case (Inl out)
    then show ?thesis using ok c by simp
  next
    case (Inr st')
    then have st': "adds (good_effects cfg) (ls_world st) (ls_world st')" "ls_Turns st' = Suc turn"
      "ls_chats st' \<le> ls_chats st + 1" using ok c by simp_all
    from Suc.IH[OF st'(2)] st' Inr show ?thesis using adds_trans[OF st'(1)] by auto
  qed
qed

lemma RunLoop_ok:
  "adds (good_effects cfg) w (ls_world (fst (RunLoop cfg sf tns msgs w)))"
  "ls_Turns (fst (RunLoop cfg sf tns msgs w)) \<le> max_turns cfg"
  "ls_chats (fst (RunLoop cfg sf tns msgs w)) \<le> max_turns cfg + 1"
proof -
  have init: "ls_Turns (initial_state msgs w) = 0" "ls_world (initial_state msgs w) = w" "ls_chats (initial_state msgs w) = 0"
    by (simp_all add: initial_state_def)
  note r = run_turns_ok[OF init(1), of cfg sf tns "max_turns cfg"]
  show "adds (good_effects cfg) w (ls_world (fst (RunLoop cfg sf tns msgs w)))"
    "ls_Turns (fst (RunLoop cfg sf tns msgs w)) \<le> max_turns cfg"
    "ls_chats (fst (RunLoop cfg sf tns msgs w)) \<le> max_turns cfg + 1"
    using r init by (auto simp: RunLoop_def Let_def say_def add_msgs_def adds_refl split: prod.splits)
qed

section \<open>The history stays well formed\<close>

text \<open>The identifiers of tool calls still to be answered: a model accepts a history only if the
  calls of an assistant message are answered, in order, before anything else is said.\<close>

fun answered :: "string list \<Rightarrow> message list \<Rightarrow> bool" where
  "answered pend [] = (pend = [])"
| "answered (i # pend) (m # ms) = (msg_Role m = ''tool'' \<and> msg_ToolCallID m = i \<and> answered pend ms)"
| "answered [] (m # ms) = (msg_Role m \<noteq> ''tool'' \<and> answered (map tc_ID (msg_ToolCalls m)) ms)"

lemma answered_append: "answered p xs \<Longrightarrow> answered p (xs @ ys) = answered [] ys"
  by (induction p xs rule: answered.induct) simp_all

lemma answered_results: "answered (map (tc_ID \<circ> fst) rs) (map tool_msg rs)"
  by (induction rs) (simp_all add: tool_msg_def)

lemma answered_step:
  "answered [] ms \<Longrightarrow> map tc_ID calls = map (tc_ID \<circ> fst) rs \<Longrightarrow>
     answered [] (ms @ assistant_msg c calls # map tool_msg rs)"
  using answered_results[of rs] by (simp add: answered_append assistant_msg_def)

lemma answered_plain: "answered [] ms \<Longrightarrow> role \<noteq> ''tool'' \<Longrightarrow> answered [] (ms @ [plain_msg role c])"
  by (simp add: answered_append plain_msg_def)

lemma answered_assistant: "answered [] ms \<Longrightarrow> answered [] (ms @ [assistant_msg c []])"
  by (simp add: answered_append assistant_msg_def)

lemma answered_rewrite: "answered p (ms @ [m]) \<Longrightarrow> answered p (ms @ [m\<lparr>msg_Content := c\<rparr>])"
  by (induction p ms rule: answered.induct) (auto elim: answered.elims)

definition history_ok :: "agent_state \<Rightarrow> bool" where
  "history_ok st \<longleftrightarrow> answered [] (ls_messages st)"

lemma history_same: "ls_messages st' = ls_messages st \<Longrightarrow> history_ok st' = history_ok st"
  by (simp add: history_ok_def)

lemma history_plain [simp]: "history_ok st \<Longrightarrow> role \<noteq> ''tool'' \<Longrightarrow> history_ok (add_msgs [plain_msg role c] st)"
  by (simp add: history_ok_def add_msgs_def answered_plain)

lemma history_assistant [simp]: "history_ok st \<Longrightarrow> history_ok (add_msgs [assistant_msg c []] st)"
  by (simp add: history_ok_def add_msgs_def answered_assistant)

lemma history_say [simp]: "history_ok (say txt st) = history_ok st"
  by (simp add: history_ok_def say_def)

lemma history_update [simp]:
  "history_ok (st\<lparr>ls_Final := c\<rparr>) = history_ok st" "history_ok (st\<lparr>ls_parseFailures := n\<rparr>) = history_ok st"
  "history_ok (st\<lparr>ls_nudges := n\<rparr>) = history_ok st" "history_ok (st\<lparr>ls_chats := n\<rparr>) = history_ok st"
  by (simp_all add: history_ok_def)

lemma history_replace: "history_ok st \<Longrightarrow> history_ok (replace_last_speech txt st)"
  using answered_rewrite[of "[]" "butlast (ls_messages st)" "last (ls_messages st)" "txt"]
  by (simp add: history_ok_def replace_last_speech_def)

lemma note_wait_msgs: "ls_messages (fst (note_wait sf c acc)) = ls_messages (fst acc)"
  by (cases acc) (simp add: note_wait_def)

lemma note_call_msgs: "ls_messages (fst (note_call sf n c acc)) = ls_messages (fst acc)"
proof -
  obtain st wall ans where acc: "acc = (st, wall, ans)" by (cases acc) auto
  show ?thesis using note_wait_msgs[of sf c "(st\<lparr>ls_waited := True\<rparr>, wall, ans)"]
    unfolding acc note_call_def by simp
qed

lemma note_msgs:
  "ls_messages (fst (note_result sf r acc)) = ls_messages (fst acc) @ [tool_msg r]"
  "ls_messages (fst (note_auto sf r acc)) = ls_messages (fst acc) @ [tool_msg r]"
  by (simp_all add: note_result_def note_auto_def case_prod_beta add_msgs_def note_call_msgs note_wait_msgs)

lemma fold_note_msgs:
  "ls_messages (fst (fold (note_result sf) rs acc)) = ls_messages (fst acc) @ map tool_msg rs"
  "ls_messages (fst (fold (note_auto sf) rs acc)) = ls_messages (fst acc) @ map tool_msg rs"
  by (induction rs arbitrary: acc) (simp_all add: note_msgs)

lemma dispatch_msgs:
  "ls_messages (fst (loop_dispatch cfg tn calls st)) = ls_messages st"
  "map fst (snd (loop_dispatch cfg tn calls st)) = calls"
  using dispatch_calls[of cfg "tn_order tn" "tn_calls tn" calls "ls_world st"]
  by (simp_all add: loop_dispatch_def case_prod_beta)

lemma history_persist: "history_ok st \<Longrightarrow> history_ok (outcome_state (stopTurnPersist sf blob ask st))"
  by (simp add: stopTurnPersist_def Let_def)

lemma history_direct: "history_ok st \<Longrightarrow> history_ok (outcome_state (wallDenyAnswerDirectly cfg tn ask st))"
  by (simp add: wallDenyAnswerDirectly_def Let_def)

text \<open>The state after the results of a batch, asked for by the last message, are noted.\<close>

lemma history_batch:
  assumes "history_ok st0" "ls_messages st = ls_messages st0 @ [assistant_msg c calls]"
    and "loop_dispatch cfg tn calls st = (st1, rs)" "ls_messages st2 = ls_messages st1 @ map tool_msg rs"
  shows "history_ok st2"
proof -
  have rs: "map fst rs = calls" and st1: "ls_messages st1 = ls_messages st"
    using dispatch_msgs[of cfg tn calls st] assms(3) by simp_all
  have "map tc_ID calls = map (tc_ID \<circ> fst) rs" using rs by auto
  with assms st1 answered_step[of "ls_messages st0" calls rs c]
  show ?thesis by (simp add: history_ok_def)
qed

lemma history_auto_wait: "history_ok st \<Longrightarrow> history_ok (outcome_state (auto_wait cfg sf tn st))"
proof -
  assume h: "history_ok st"
  let ?st0 = "add_msgs [assistant_msg [] [auto_wait_call]] (st\<lparr>ls_autoWaited := True, ls_beforeAutoWait := ls_Final st\<rparr>)"
  obtain st1 rs where d: "loop_dispatch cfg tn [auto_wait_call] ?st0 = (st1, rs)" by fastforce
  obtain st2 wall ans where f: "fold (note_auto sf) rs (st1, [], []) = (st2, wall, ans)" by (metis prod_cases3)
  have "ls_messages st2 = ls_messages st1 @ map tool_msg rs"
    using fold_note_msgs(2)[of sf rs "(st1, [], [])"] f by simp
  then have "history_ok st2" by (intro history_batch[OF h _ d]) (simp_all add: add_msgs_def)
  then show ?thesis using d f by (simp add: auto_wait_def history_persist)
qed

lemma history_tools:
  assumes "history_ok st0" "ls_messages st = ls_messages st0 @ [assistant_msg c calls]"
  shows "history_ok (outcome_state (tools_turn cfg sf tn calls st))"
proof -
  obtain st1 rs where d: "loop_dispatch cfg tn calls st = (st1, rs)" by fastforce
  obtain st2 wall ans where f: "fold (note_result sf) rs (st1, [], []) = (st2, wall, ans)" by (metis prod_cases3)
  have "ls_messages st2 = ls_messages st1 @ map tool_msg rs"
    using fold_note_msgs(1)[of sf rs "(st1, [], [])"] f by simp
  then have "history_ok st2" by (rule history_batch[OF assms d])
  then show ?thesis using d f by (simp add: tools_turn_def Let_def history_persist history_direct)
qed

lemma history_no_tools: "history_ok st \<Longrightarrow> history_ok (outcome_state (no_tools_turn cfg sf tn st))"
  by (simp add: no_tools_turn_def Let_def history_auto_wait history_replace)

lemma history_answer:
  assumes "history_ok st" "cr_ParseErrors (sf_promote sf (lc_Schemas cfg) r) = [] \<or> cr_ToolCalls (sf_promote sf (lc_Schemas cfg) r) = []"
  shows "history_ok (outcome_state (answer_turn cfg sf tn r st))"
proof (cases "cr_ParseErrors (sf_promote sf (lc_Schemas cfg) r) = []")
  case True
  then show ?thesis using assms(1)
    by (auto simp: answer_turn_def Let_def add_msgs_def intro!: history_tools[OF assms(1)] history_no_tools)
       (simp_all add: history_ok_def answered_assistant)
next
  case False
  then show ?thesis using assms by (simp add: answer_turn_def Let_def)
qed

lemma history_turn:
  assumes "history_ok st"
    and "\<And>r. cr_ParseErrors (sf_promote sf (lc_Schemas cfg) r) = [] \<or> cr_ToolCalls (sf_promote sf (lc_Schemas cfg) r) = []"
  shows "history_ok (outcome_state (loop_turn cfg sf tn turn st))"
proof -
  have h1: "history_ok (turn_start turn st)"
    using assms(1) by (simp add: turn_start_def hint_speech_def history_ok_def add_msgs_def answered_plain)
  have h: "history_ok (turn_counted r (turn_start turn st))" for r
    using h1 by (simp add: history_ok_def)
  show ?thesis
    using h history_answer[OF h assms(2)]
    by (auto simp: loop_turn_def Let_def speech_turn_def split: llm_reply.splits)
qed

lemma history_run:
  assumes "\<And>r. cr_ParseErrors (sf_promote sf (lc_Schemas cfg) r) = [] \<or> cr_ToolCalls (sf_promote sf (lc_Schemas cfg) r) = []"
  shows "history_ok st \<Longrightarrow> history_ok (fst (run_turns cfg sf tns n turn st))"
proof (induction n arbitrary: turn st)
  case (Suc n)
  show ?case using history_turn[OF Suc.prems assms, of "tns turn" turn] Suc.IH
    by (auto split: sum.splits)
qed simp

section \<open>Properties\<close>


text \<open>
  The loop ends within its turns: at most the configured number of turns (fifty when it is not positive)
  are run, and the model is called at most once more than that.
\<close>

lemma loop_bounded:
  "ls_Turns (fst (RunLoop cfg sf tns msgs w)) \<le> max_turns cfg \<and>
   ls_chats (fst (RunLoop cfg sf tns msgs w)) \<le> max_turns cfg + 1"
  using RunLoop_ok(2,3)[of cfg sf tns msgs w] by simp


text \<open>The witnesses: a run whose model calls \<open>bash\<close> once and then speaks.\<close>

definition plain_speech :: speech_fns where
  "plain_speech = \<lparr>sf_promote = (\<lambda>_ r. r\<lparr>cr_ParseErrors := []\<rparr>), sf_visible = (\<lambda>c _. c), sf_imageStop = (\<lambda>_ _. []),
     sf_teammate = (\<lambda>_ _ s. s), sf_waitHasAnswer = (\<lambda>_. False), sf_deniedAgent = (\<lambda>_. []),
     sf_persistStop = (\<lambda>_ _ _. []), sf_unfinishedPlan = (\<lambda>_. False), sf_memoryGate = (\<lambda>r. r)\<rparr>"

definition plain_config :: loop_config where
  "plain_config = \<lparr>lc_MaxTurns = 0, lc_Schemas = [], lc_hasGate = True, lc_hasBeforeWrite = False, lc_hasEvents = False,
     lc_hasWarnOnce = False, lc_hasReconnector = False, lc_MemoryUserMsg = [], lc_AgentName = ''a'', lc_SessionID = ''s'',
     lc_pre = [], lc_post = []\<rparr>"

definition bash_world :: tool_world where
  "bash_world = \<lparr>tw_reg = Register bash_tool NewRegistry, tw_gate = NewGate True False, tw_vaultTools = [],
     tw_warned = False, tw_warnedOnce = False, tw_trace = []\<rparr>"

definition bash_call :: tool_call where
  "bash_call = \<lparr>tc_ID = ''c1'', tc_Name = ''bash'', tc_Args = []\<rparr>"

definition bash_turns :: "nat \<Rightarrow> turn_env" where
  "bash_turns turn = \<lparr>tn_chat = (\<lambda>_ _. Reply \<lparr>cr_Content = ''hi'', cr_ToolCalls = (if turn = 0 then [bash_call] else []),
       cr_PromptTokens = 1, cr_CompletionTokens = 1, cr_DoneReason = ''stop'', cr_ParseErrors = []\<rparr>),
     tn_tokens = [], tn_order = (\<lambda>is. is),
     tn_calls = (\<lambda>_. \<lparr>ce_nano = 0, ce_ask = (\<lambda>_ _. Answered Deny), ce_during = (\<lambda>g. g), ce_before = (\<lambda>_ _ _. Inr True),
       ce_read = (\<lambda>_. None), ce_exec = (\<lambda>_ _ _. Inr \<lparr>tr_Output = ''host'', tr_Error = [], tr_IsError = False\<rparr>),
       ce_reconnect = ConnectFails\<rparr>),
     tn_cancelled = False, tn_direct = (\<lambda>_ _. ReplyNil)\<rparr>"

definition bash_ask :: "message list" where
  "bash_ask = [plain_msg ''user'' ''run hostname'']"


text \<open>
  After a specialist's answer or a finished command the run only speaks: it ends with the next
  turn, which calls the model at most once and executes no tool.
\<close>

lemma answered_run_only_speaks:
  assumes "speech_only st"
  shows "ls_world (fst (run_turns cfg sf tns n turn st)) = ls_world st \<and>
     ls_chats (fst (run_turns cfg sf tns n turn st)) \<le> ls_chats st + 1"
proof (cases n)
  case 0
  then show ?thesis by (simp add: say_def)
next
  case (Suc k)
  have so: "speech_only (turn_start turn st)"
    using assms by (simp add: speech_only_def turn_start_def hint_speech_def add_msgs_def)
  have "\<exists>out. loop_turn cfg sf (tns turn) turn st = Inl out \<and> ls_world (fst out) = ls_world st \<and> ls_chats (fst out) = ls_chats st + 1"
    using so by (auto simp: loop_turn_def Let_def speech_turn_def stop_with_def say_def add_msgs_def split: llm_reply.splits)
  then show ?thesis using Suc by auto
qed

end
