(* ===== verification/FileSystem.thy ===== *)
theory FileSystem
  imports Prelude "HOL-Library.Sublist" "HOL-Library.List_Lexorder" "HOL-Library.Char_ord"
begin

text \<open>
  The file system the file tools work on: directories, regular files and symbolic links under
  absolute paths, and the operations of \<^verbatim>\<open>os\<close> and \<^verbatim>\<open>path/filepath\<close> the tools call. An absolute
  clean path is the list of its components. Permissions are not modelled: every file can be read
  and written, and a new file has the mode it is created with.
\<close>

section \<open>Paths\<close>

type_synonym path = "string list"

definition name_ok :: "string \<Rightarrow> bool" where
  "name_ok c \<longleftrightarrow> c \<noteq> [] \<and> c \<noteq> ''.'' \<and> c \<noteq> ''..'' \<and> CHR ''/'' \<notin> set c"

text \<open>\<^verbatim>\<open>filepath.Clean\<close> of a rooted path: the components are put on a clean one from left to right.\<close>

fun clean_onto :: "path \<Rightarrow> string list \<Rightarrow> path" where
  "clean_onto p [] = p"
| "clean_onto p (c # cs) =
     (if c = [] \<or> c = ''.'' then clean_onto p cs
      else if c = ''..'' then clean_onto (butlast p) cs
      else clean_onto (p @ [c]) cs)"

definition path_join :: "path \<Rightarrow> string \<Rightarrow> path" where
  "path_join p s = clean_onto p (split_on (CHR ''/'') s)"

definition path_string :: "path \<Rightarrow> string" where
  "path_string p = (if p = [] then ''/'' else concat (map (\<lambda>c. CHR ''/'' # c) p))"

lemma names_butlast: "list_all name_ok p \<Longrightarrow> list_all name_ok (butlast p)"
  by (auto simp: list_all_iff dest: in_set_butlastD)

lemma clean_onto_ok: "list_all name_ok p \<Longrightarrow> list_all (\<lambda>c. CHR ''/'' \<notin> set c) cs \<Longrightarrow> list_all name_ok (clean_onto p cs)"
proof (induction p cs rule: clean_onto.induct)
  case (2 p c cs)
  then show ?case by (simp add: names_butlast name_ok_def[of c])
qed simp

lemma path_join_ok: "list_all name_ok p \<Longrightarrow> list_all name_ok (path_join p s)"
  unfolding path_join_def by (rule clean_onto_ok) (auto simp: list_all_iff dest: split_on_parts)

lemma clean_onto_names: "list_all name_ok cs \<Longrightarrow> clean_onto p cs = p @ cs"
  by (induction cs arbitrary: p) (auto simp: name_ok_def)

text \<open>The path of a string and the string of a path.\<close>

lemma split_path_string:
  "list_all name_ok p \<Longrightarrow> p \<noteq> [] \<Longrightarrow> split_on (CHR ''/'') (path_string p) = [] # p"
proof (induction p rule: rev_induct)
  case (snoc c p)
  have c: "split_on (CHR ''/'') c = [c]" using snoc.prems by (simp add: split_on_free name_ok_def)
  show ?case
  proof (cases "p = []")
    case True
    then show ?thesis using c by (simp add: path_string_def)
  next
    case False
    then have "path_string (p @ [c]) = path_string p @ CHR ''/'' # c" by (simp add: path_string_def)
    then show ?thesis using snoc False c by (simp add: split_on_app)
  qed
qed simp

lemma path_string_prefix:
  assumes "list_all name_ok p" "list_all name_ok r"
  shows "path_string p = path_string r \<or> has_prefix (path_string p) (path_string r @ ''/'') \<or> r = []
    \<longleftrightarrow> prefix r p"
proof (cases "r = []")
  case False
  note r = split_path_string[OF assms(2) False]
  show ?thesis
  proof
    assume "path_string p = path_string r \<or> has_prefix (path_string p) (path_string r @ ''/'') \<or> r = []"
    then consider "path_string p = path_string r" | rest where "path_string p = path_string r @ CHR ''/'' # rest"
      using False by (auto simp: has_prefix_iff)
    then show "prefix r p"
    proof cases
      case 1
      have "p \<noteq> []"
      proof
        assume "p = []"
        then have "split_on (CHR ''/'') (path_string p) = [[], []]" by (simp add: path_string_def)
        then show False using r 1 assms(2) by (auto simp: name_ok_def)
      qed
      then have "[] # p = [] # r" using split_path_string[OF assms(1)] r 1 by metis
      then show ?thesis by simp
    next
      case (2 rest)
      have "p \<noteq> []"
      proof
        assume "p = []"
        then have "path_string r @ CHR ''/'' # rest = [CHR ''/'']" using 2 by (simp add: path_string_def)
        moreover obtain a as where "path_string r = a # as" using False by (cases r) (simp_all add: path_string_def)
        ultimately show False by simp
      qed
      then have "[] # p = ([] # r) @ split_on (CHR ''/'') rest"
        using split_path_string[OF assms(1)] r 2 by (simp add: split_on_app)
      then show ?thesis by simp
    qed
  next
    assume "prefix r p"
    then obtain q where q: "p = r @ q" by (auto elim: prefixE)
    show "path_string p = path_string r \<or> has_prefix (path_string p) (path_string r @ ''/'') \<or> r = []"
    proof (cases q)
      case Nil
      then show ?thesis by (simp add: q)
    next
      case (Cons c cs)
      have "path_string p = (path_string r @ ''/'') @ c @ concat (map (\<lambda>c. CHR ''/'' # c) cs)"
        using False by (simp add: path_string_def q Cons)
      then show ?thesis by (auto simp only: has_prefix_iff)
    qed
  qed
qed simp

section \<open>Nodes and lookup\<close>

datatype node = Dir | File nat string | Link string

datatype os_error = ENOENT | ENOTDIR | ELOOP | EISDIR | EEXIST | ENOTEMPTY

type_synonym fs = "(path, node) gomap"

definition Lstat :: "fs \<Rightarrow> path \<Rightarrow> node option" where
  "Lstat fs p = (if p = [] then Some Dir else gm_get fs p)"

definition fs_wf :: "fs \<Rightarrow> bool" where
  "fs_wf fs \<longleftrightarrow> gm_wf fs \<and>
     list_all (\<lambda>(p, n). p \<noteq> [] \<and> list_all name_ok p \<and> Lstat fs (butlast p) = Some Dir) fs"

text \<open>
  The walk of a path: the components that remain are put on a resolved path one by one, and a
  symbolic link is replaced by its target. \<open>links\<close> bounds the links followed; \<open>create\<close> lets the
  last component be missing, as when a file is opened for creation.
\<close>

function walk :: "fs \<Rightarrow> bool \<Rightarrow> nat \<Rightarrow> path \<Rightarrow> string list \<Rightarrow> os_error + path" where
  "walk fs create links p [] = Inr p"
| "walk fs create links p (c # cs) =
     (if c = [] \<or> c = ''.'' then walk fs create links p cs
      else if c = ''..'' then walk fs create links (butlast p) cs
      else case Lstat fs (p @ [c]) of
             None \<Rightarrow> if create \<and> cs = [] then Inr (p @ [c]) else Inl ENOENT
           | Some Dir \<Rightarrow> walk fs create links (p @ [c]) cs
           | Some (File m s) \<Rightarrow> if cs = [] then Inr (p @ [c]) else Inl ENOTDIR
           | Some (Link t) \<Rightarrow>
               if links = 0 then Inl ELOOP
               else walk fs create (links - 1) (if has_prefix t ''/'' then [] else p)
                      (split_on (CHR ''/'') t @ cs))"
  by pat_completeness auto
termination
  by (relation "measures [\<lambda>(fs, create, links, p, cs). links, \<lambda>(fs, create, links, p, cs). length cs]") auto

text \<open>\<^verbatim>\<open>filepath.EvalSymlinks\<close> follows 255 links, the kernel 40.\<close>

definition EvalSymlinks :: "fs \<Rightarrow> path \<Rightarrow> os_error + path" where
  "EvalSymlinks fs p = walk fs False 255 [] p"

definition kernel_links :: nat where
  "kernel_links = 40"

definition Stat :: "fs \<Rightarrow> path \<Rightarrow> os_error + node" where
  "Stat fs p =
     (case walk fs False kernel_links [] p of
        Inl e \<Rightarrow> Inl e
      | Inr d \<Rightarrow> (case Lstat fs d of None \<Rightarrow> Inl ENOENT | Some n \<Rightarrow> Inr n))"

definition ReadFile :: "fs \<Rightarrow> path \<Rightarrow> os_error + string" where
  "ReadFile fs p =
     (case Stat fs p of Inl e \<Rightarrow> Inl e | Inr (File m s) \<Rightarrow> Inr s | Inr Dir \<Rightarrow> Inl EISDIR | Inr (Link t) \<Rightarrow> Inl ELOOP)"

text \<open>\<^verbatim>\<open>os.WriteFile\<close>: a file that exists keeps its mode.\<close>

definition WriteFile :: "fs \<Rightarrow> path \<Rightarrow> string \<Rightarrow> nat \<Rightarrow> os_error + fs" where
  "WriteFile fs p content mode =
     (case walk fs True kernel_links [] p of
        Inl e \<Rightarrow> Inl e
      | Inr d \<Rightarrow>
          (case Lstat fs d of
             None \<Rightarrow> Inr (gm_put d (File mode content) fs)
           | Some (File m s) \<Rightarrow> Inr (gm_put d (File m content) fs)
           | Some Dir \<Rightarrow> Inl EISDIR
           | Some (Link t) \<Rightarrow> Inl ELOOP))"

definition Mkdir :: "fs \<Rightarrow> path \<Rightarrow> os_error + fs" where
  "Mkdir fs p =
     (if p = [] then Inl EEXIST
      else case walk fs False kernel_links [] (butlast p) of
             Inl e \<Rightarrow> Inl e
           | Inr d \<Rightarrow>
               if Lstat fs d \<noteq> Some Dir then Inl ENOTDIR
               else if Lstat fs (d @ [last p]) \<noteq> None then Inl EEXIST
               else Inr (gm_put (d @ [last p]) Dir fs))"

definition os_Lstat :: "fs \<Rightarrow> path \<Rightarrow> node option" where
  "os_Lstat fs p =
     (if p = [] then Some Dir
      else case walk fs False kernel_links [] (butlast p) of
             Inl e \<Rightarrow> None
           | Inr d \<Rightarrow> Lstat fs (d @ [last p]))"

text \<open>\<^verbatim>\<open>os.MkdirAll\<close>: an existing directory is enough, and a \<open>Mkdir\<close> that fails because another
  process was faster is not an error.\<close>

function MkdirAll :: "fs \<Rightarrow> path \<Rightarrow> os_error + fs" where
  "MkdirAll fs p =
     (case Stat fs p of
        Inr n \<Rightarrow> if n = Dir then Inr fs else Inl ENOTDIR
      | Inl _ \<Rightarrow>
          (case (if p = [] then Inr fs else MkdirAll fs (butlast p)) of
             Inl e \<Rightarrow> Inl e
           | Inr fs' \<Rightarrow>
               (case Mkdir fs' p of
                  Inr fs'' \<Rightarrow> Inr fs''
                | Inl e \<Rightarrow> if os_Lstat fs' p = Some Dir then Inr fs' else Inl e)))"
  by pat_completeness auto
termination
  by (relation "measure (\<lambda>(fs, p). length p)") auto

declare MkdirAll.simps [simp del]

text \<open>\<^verbatim>\<open>os.Remove\<close> and \<^verbatim>\<open>os.Symlink\<close> do not follow a link at the end of the path.\<close>

definition Remove :: "fs \<Rightarrow> path \<Rightarrow> os_error + fs" where
  "Remove fs p =
     (if p = [] then Inl ENOTEMPTY
      else case walk fs False kernel_links [] (butlast p) of
             Inl e \<Rightarrow> Inl e
           | Inr d \<Rightarrow>
               if Lstat fs d \<noteq> Some Dir then Inl ENOTDIR
               else case Lstat fs (d @ [last p]) of
                      None \<Rightarrow> Inl ENOENT
                    | Some n \<Rightarrow>
                        if n = Dir \<and> list_ex (\<lambda>(q, m). q \<noteq> [] \<and> butlast q = d @ [last p]) fs then Inl ENOTEMPTY
                        else Inr (gm_del (d @ [last p]) fs))"

definition Symlink :: "fs \<Rightarrow> string \<Rightarrow> path \<Rightarrow> os_error + fs" where
  "Symlink fs target p =
     (if p = [] then Inl EEXIST
      else case walk fs False kernel_links [] (butlast p) of
             Inl e \<Rightarrow> Inl e
           | Inr d \<Rightarrow>
               if Lstat fs d \<noteq> Some Dir then Inl ENOTDIR
               else if Lstat fs (d @ [last p]) \<noteq> None then Inl EEXIST
               else Inr (gm_put (d @ [last p]) (Link target) fs))"

text \<open>\<^verbatim>\<open>os.ReadDir\<close>: the entries of a directory by name.\<close>

definition dir_entries :: "fs \<Rightarrow> path \<Rightarrow> (string \<times> node) list" where
  "dir_entries fs p =
     map (\<lambda>c. (c, the (Lstat fs (p @ [c]))))
       (sort (map (\<lambda>(q, n). last q) (filter (\<lambda>(q, n). q \<noteq> [] \<and> butlast q = p) fs)))"

definition ReadDir :: "fs \<Rightarrow> path \<Rightarrow> os_error + (string \<times> node) list" where
  "ReadDir fs p =
     (case walk fs False kernel_links [] p of
        Inl e \<Rightarrow> Inl e
      | Inr d \<Rightarrow> if Lstat fs d = Some Dir then Inr (dir_entries fs d) else Inl ENOTDIR)"

section \<open>Where a walk ends\<close>

text \<open>Every directory on the way exists and is not a link.\<close>

definition dirs_path :: "fs \<Rightarrow> path \<Rightarrow> bool" where
  "dirs_path fs p = list_all (\<lambda>q. Lstat fs q = Some Dir) (prefixes p)"

definition is_link :: "node option \<Rightarrow> bool" where
  "is_link n = (case n of Some (Link t) \<Rightarrow> True | _ \<Rightarrow> False)"

text \<open>The path names a directory or a regular file and no part of it is a link.\<close>

definition real_path :: "fs \<Rightarrow> path \<Rightarrow> bool" where
  "real_path fs p \<longleftrightarrow> dirs_path fs (butlast p) \<and> Lstat fs p \<noteq> None \<and> \<not> is_link (Lstat fs p)"

text \<open>No part of the path that exists is a link.\<close>

definition link_free :: "fs \<Rightarrow> path \<Rightarrow> bool" where
  "link_free fs p = list_all (\<lambda>q. \<not> is_link (Lstat fs q)) (prefixes p)"

lemma Lstat_root [simp]: "Lstat fs [] = Some Dir"
  by (simp add: Lstat_def)

lemma is_link_simps [simp]: "\<not> is_link None" "\<not> is_link (Some Dir)" "\<not> is_link (Some (File m s))" "is_link (Some (Link t))"
  by (simp_all add: is_link_def)

lemma dirs_path_Nil [simp]: "dirs_path fs []"
  by (simp add: dirs_path_def)

lemma dirs_path_snoc [simp]: "dirs_path fs (p @ [c]) \<longleftrightarrow> dirs_path fs p \<and> Lstat fs (p @ [c]) = Some Dir"
  by (auto simp: dirs_path_def)

lemma dirs_path_prefix: "dirs_path fs p \<Longrightarrow> prefix q p \<Longrightarrow> dirs_path fs q"
  by (auto simp: dirs_path_def list_all_iff)

lemma dirs_path_butlast [simp, intro]: "dirs_path fs p \<Longrightarrow> dirs_path fs (butlast p)"
  by (erule dirs_path_prefix) (simp add: prefixeq_butlast)

lemma dirs_path_at: "dirs_path fs p \<Longrightarrow> Lstat fs p = Some Dir"
  by (simp add: dirs_path_def list_all_iff)

lemma dirs_path_link_free: "dirs_path fs p \<Longrightarrow> link_free fs p"
  by (auto simp: dirs_path_def link_free_def list_all_iff)

lemma link_free_prefix: "link_free fs p \<Longrightarrow> prefix q p \<Longrightarrow> link_free fs q"
  by (auto simp: link_free_def list_all_iff)

lemma link_free_at: "link_free fs p \<Longrightarrow> \<not> is_link (Lstat fs p)"
  by (simp add: link_free_def list_all_iff)

lemma real_path_link_free: "real_path fs p \<Longrightarrow> link_free fs p"
proof (cases p rule: rev_cases)
  case (snoc q c)
  assume "real_path fs p"
  then have "dirs_path fs q" "\<not> is_link (Lstat fs p)" by (simp_all add: real_path_def snoc)
  then show ?thesis using dirs_path_link_free[of fs q] by (simp add: link_free_def snoc)
qed (simp add: link_free_def)

lemma walk_ends:
  "walk fs create links p cs = Inr d \<Longrightarrow> dirs_path fs p \<Longrightarrow>
     dirs_path fs (butlast d) \<and> (create \<or> Lstat fs d \<noteq> None) \<and> \<not> is_link (Lstat fs d)"
proof (induction fs create links p cs rule: walk.induct)
  case (1 fs create links p)
  then show ?case using dirs_path_at[of fs p] by auto
next
  case (2 fs create links p c cs)
  show ?case
  proof (cases "c = [] \<or> c = ''.'' \<or> c = ''..''")
    case True
    then show ?thesis using 2(1,2,5,6) by (auto split: if_splits)
  next
    case False
    then show ?thesis using 2(3-6)
      by (auto split: if_splits option.splits node.splits)
  qed
qed

lemma walk_names:
  "walk fs create links p cs = Inr d \<Longrightarrow> list_all name_ok p \<Longrightarrow> list_all (\<lambda>c. CHR ''/'' \<notin> set c) cs \<Longrightarrow>
     list_all name_ok d"
proof (induction fs create links p cs rule: walk.induct)
  case (2 fs create links p c cs)
  have sep: "list_all (\<lambda>c. CHR ''/'' \<notin> set c) (split_on (CHR ''/'') t)" for t
    by (auto simp: list_all_iff dest: split_on_parts)
  show ?case
  proof (cases "c = [] \<or> c = ''.'' \<or> c = ''..''")
    case True
    then show ?thesis using 2(1,2,5-7) names_butlast[of p] by (auto split: if_splits)
  next
    case False
    then have "list_all name_ok (p @ [c])" using 2(6,7) by (simp add: name_ok_def[of c])
    then show ?thesis using False 2(3-7) sep
      by (auto split: if_splits option.splits node.splits)
  qed
qed simp

text \<open>A walk along a path without links ends where it says, or fails.\<close>

lemma name_ok_plain: "name_ok c \<Longrightarrow> c \<noteq> [] \<and> c \<noteq> ''.'' \<and> c \<noteq> ''..''"
  by (simp add: name_ok_def)

lemma walk_link_free:
  "walk fs create links p cs = Inr d \<Longrightarrow> list_all name_ok cs \<Longrightarrow> link_free fs (p @ cs) \<Longrightarrow> d = p @ cs"
proof (induction cs arbitrary: p)
  case (Cons c cs)
  have nl: "\<not> is_link (Lstat fs (p @ [c]))"
    using Cons.prems(3) by (simp add: link_free_def list_all_iff)
  have "d = (p @ [c]) @ cs" if "walk fs create links (p @ [c]) cs = Inr d"
    using Cons.IH[of "p @ [c]"] that Cons.prems(2,3) by simp
  then show ?case using Cons.prems nl name_ok_plain[of c]
    by (auto split: if_splits option.splits node.splits)
qed simp

lemma walk_real:
  "dirs_path fs (butlast (p @ cs)) \<Longrightarrow> list_all name_ok cs \<Longrightarrow> \<not> is_link (Lstat fs (p @ cs)) \<Longrightarrow>
     create \<or> Lstat fs (p @ cs) \<noteq> None \<Longrightarrow> walk fs create links p cs = Inr (p @ cs)"
proof (induction cs arbitrary: p)
  case (Cons c cs)
  show ?case
  proof (cases "cs = []")
    case True
    then show ?thesis using Cons.prems name_ok_plain[of c]
      by (auto split: option.splits node.splits)
  next
    case False
    then have "prefix (p @ [c]) (butlast (p @ c # cs))" by (simp add: butlast_append)
    then have "Lstat fs (p @ [c]) = Some Dir"
      using Cons.prems(1) dirs_path_prefix dirs_path_at by blast
    then show ?thesis using Cons.IH[of "p @ [c]"] Cons.prems name_ok_plain[of c] by simp
  qed
qed simp

lemma EvalSymlinks_real: "EvalSymlinks fs p = Inr d \<Longrightarrow> real_path fs d"
  using walk_ends[of fs False 255 "[]" p d] by (simp add: EvalSymlinks_def real_path_def)

lemma names_no_sep: "list_all name_ok p \<Longrightarrow> list_all (\<lambda>c. CHR ''/'' \<notin> set c) p"
  by (auto simp: name_ok_def list_all_iff)

lemma EvalSymlinks_names: "EvalSymlinks fs p = Inr d \<Longrightarrow> list_all name_ok p \<Longrightarrow> list_all name_ok d"
  using walk_names[of fs False 255 "[]" p d] by (simp add: EvalSymlinks_def names_no_sep)

lemma EvalSymlinks_fixed: "real_path fs p \<Longrightarrow> list_all name_ok p \<Longrightarrow> EvalSymlinks fs p = Inr p"
  using walk_real[of fs "[]" p False 255] by (simp add: EvalSymlinks_def real_path_def)

section \<open>Well-formed file systems\<close>

lemma Lstat_put: "p \<noteq> [] \<Longrightarrow> Lstat (gm_put p n fs) q = (if q = p then Some n else Lstat fs q)"
  by (simp add: Lstat_def)

lemma fs_wf_at:
  assumes "fs_wf fs" "Lstat fs p \<noteq> None"
  shows "dirs_path fs (butlast p)" "list_all name_ok p"
proof -
  have entry: "list_all name_ok q \<and> Lstat fs (butlast q) = Some Dir" if "Lstat fs q \<noteq> None" "q \<noteq> []" for q
    using that assms(1) gm_get_SomeD[of fs q] by (fastforce simp: fs_wf_def Lstat_def list_all_iff)
  show "list_all name_ok p" using entry[of p] assms(2) by (cases "p = []") simp_all
  show "dirs_path fs (butlast p)" using assms(2)
  proof (induction p rule: rev_induct)
    case (snoc c p)
    then have dir: "Lstat fs p = Some Dir" using entry[of "p @ [c]"] by simp
    then have "dirs_path fs p" using snoc.IH by (cases p rule: rev_cases) simp_all
    then show ?case by simp
  qed simp
qed

lemma fs_wf_put:
  assumes "fs_wf fs" "p \<noteq> []" "list_all name_ok p" "Lstat fs (butlast p) = Some Dir" "n = Dir \<or> Lstat fs p \<noteq> Some Dir"
  shows "fs_wf (gm_put p n fs)"
proof -
  have entries: "(q, m) = (p, n) \<or> (q, m) \<in> set fs" if "(q, m) \<in> set (gm_put p n fs)" for q m
  proof -
    have "gm_get (gm_put p n fs) q = Some m"
      using that assms(1) by (simp only: gm_get_Some_iff gm_wf_put fs_wf_def)
    then show ?thesis using gm_get_SomeD[of fs q m] by (simp split: if_splits)
  qed
  have dirs: "Lstat (gm_put p n fs) q = Some Dir" if "Lstat fs q = Some Dir" for q
    using that assms(2,5) by (auto simp: Lstat_put)
  have old: "q \<noteq> [] \<and> list_all name_ok q \<and> Lstat fs (butlast q) = Some Dir" if "(q, m) \<in> set fs" for q m
    using that assms(1) by (auto simp: fs_wf_def list_all_iff)
  have "q \<noteq> [] \<and> list_all name_ok q \<and> Lstat (gm_put p n fs) (butlast q) = Some Dir"
    if "(q, m) \<in> set (gm_put p n fs)" for q m
    using entries[OF that] old[of q m] dirs assms(2-4) by blast
  then show ?thesis using assms(1) by (auto simp: fs_wf_def list_all_iff)
qed

lemma fs_wf_Mkdir: "Mkdir fs p = Inr fs' \<Longrightarrow> fs_wf fs \<Longrightarrow> list_all name_ok p \<Longrightarrow> fs_wf fs'"
proof -
  assume mk: "Mkdir fs p = Inr fs'" and wf: "fs_wf fs" "list_all name_ok p"
  from mk obtain d where d: "walk fs False kernel_links [] (butlast p) = Inr d" "Lstat fs d = Some Dir"
    "fs' = gm_put (d @ [last p]) Dir fs" "p \<noteq> []"
    by (auto simp: Mkdir_def split: if_splits sum.splits)
  have "list_all name_ok d" using walk_names[OF d(1)] wf(2) by (simp add: names_no_sep names_butlast)
  moreover have "name_ok (last p)" using wf(2) d(4) by (simp add: list_all_iff)
  ultimately show ?thesis unfolding d(3) by (intro fs_wf_put wf) (simp_all add: d)
qed

lemma fs_wf_WriteFile: "WriteFile fs p content mode = Inr fs' \<Longrightarrow> fs_wf fs \<Longrightarrow> list_all name_ok p \<Longrightarrow> fs_wf fs'"
proof -
  assume wr: "WriteFile fs p content mode = Inr fs'" and wf: "fs_wf fs" "list_all name_ok p"
  from wr obtain d m where d: "walk fs True kernel_links [] p = Inr d" "Lstat fs d \<noteq> Some Dir"
    "fs' = gm_put d (File m content) fs"
    by (auto simp: WriteFile_def split: sum.splits option.splits node.splits)
  have "list_all name_ok d" using walk_names[OF d(1)] wf(2) by (simp add: names_no_sep)
  moreover have "Lstat fs (butlast d) = Some Dir" using walk_ends[OF d(1)] by (simp add: dirs_path_at)
  moreover have "d \<noteq> []" using d(2) by auto
  ultimately show ?thesis unfolding d(3) by (intro fs_wf_put wf) (simp_all add: d)
qed

lemma fs_wf_MkdirAll: "MkdirAll fs p = Inr fs' \<Longrightarrow> fs_wf fs \<Longrightarrow> list_all name_ok p \<Longrightarrow> fs_wf fs'"
proof (induction fs p arbitrary: fs' rule: MkdirAll.induct)
  case (1 fs p)
  show ?case using "1.prems" "1.IH"[OF _ _ _ "1.prems"(2)] names_butlast[of p]
    by (auto simp: MkdirAll.simps[of fs p] intro: fs_wf_Mkdir split: sum.splits if_splits)
qed

section \<open>What the operations change\<close>

text \<open>\<open>MkdirAll\<close> on a path without links makes the missing directories of the path.\<close>

lemma MkdirAll_changes:
  "MkdirAll fs p = Inr fs' \<Longrightarrow> link_free fs p \<Longrightarrow> list_all name_ok p \<Longrightarrow> Lstat fs' q \<noteq> Lstat fs q \<Longrightarrow>
     prefix q p \<and> Lstat fs q = None \<and> Lstat fs' q = Some Dir"
proof (induction "length p" arbitrary: p fs' q)
  case 0
  then show ?case by (auto simp: MkdirAll.simps[of fs] Stat_def)
next
  case (Suc n)
  then obtain r c where p: "p = r @ [c]" by (cases p rule: rev_cases) auto
  from Suc.prems obtain fs1 where r: "MkdirAll fs r = Inr fs1"
    "Mkdir fs1 p = Inr fs' \<or> fs' = fs1"
    by (auto simp: MkdirAll.simps[of fs "r @ [c]"] p split: sum.splits if_splits)
  have step: "prefix u r \<and> Lstat fs u = None \<and> Lstat fs1 u = Some Dir" if "Lstat fs1 u \<noteq> Lstat fs u" for u
    using Suc.hyps(1)[of r fs1 u] r(1) Suc.hyps(2) Suc.prems(2,3) that link_free_prefix[of fs p r] p by simp
  show ?case
  proof (cases "fs' = fs1")
    case True
    then show ?thesis using step[of q] Suc.prems(4) p by (simp add: prefix_order.trans)
  next
    case False
    then have mk: "Mkdir fs1 p = Inr fs'" using r(2) by simp
    then obtain d where d: "walk fs1 False kernel_links [] r = Inr d" "fs' = gm_put (d @ [c]) Dir fs1" "Lstat fs1 (d @ [c]) = None"
      by (auto simp: Mkdir_def p split: if_splits sum.splits)
    have "\<not> is_link (Lstat fs1 u)" if "prefix u r" for u
      using step[of u] that link_free_at[OF link_free_prefix[OF Suc.prems(2)], of u] p by (cases "Lstat fs1 u = Lstat fs u") auto
    then have dr: "d = r" using walk_link_free[OF d(1)] Suc.prems(3) p by (simp add: link_free_def list_all_iff)
    have "Lstat fs (r @ [c]) = None" using step[of "r @ [c]"] d(3) dr by (cases "Lstat fs (r @ [c])") auto
    then show ?thesis using step[of q] Suc.prems(4) d(2) dr p by (auto simp: Lstat_put split: if_splits)
  qed
qed

lemma MkdirAll_link_free:
  assumes "MkdirAll fs p = Inr fs'" "link_free fs p" "list_all name_ok p" "link_free fs q"
  shows "link_free fs' q"
proof -
  have "\<not> is_link (Lstat fs' u)" if "prefix u q" for u
    using MkdirAll_changes[OF assms(1-3), of u] link_free_at[OF link_free_prefix[OF assms(4) that]]
    by (cases "Lstat fs' u = Lstat fs u") auto
  then show ?thesis by (simp add: link_free_def list_all_iff)
qed

lemma WriteFile_changes:
  assumes "WriteFile fs p content mode = Inr fs'" "link_free fs p" "list_all name_ok p"
  shows "\<exists>m. p \<noteq> [] \<and> fs' = gm_put p (File m content) fs \<and> dirs_path fs (butlast p)"
proof -
  from assms(1) obtain d m where d: "walk fs True kernel_links [] p = Inr d" "Lstat fs d \<noteq> Some Dir"
    "fs' = gm_put d (File m content) fs"
    by (auto simp: WriteFile_def split: sum.splits option.splits node.splits)
  then have "d = p" using walk_link_free[OF d(1)] assms(2,3) by simp
  then show ?thesis using d walk_ends[OF d(1)] by auto
qed

lemma ReadFile_link_free:
  assumes "ReadFile fs p = Inr s" "link_free fs p" "list_all name_ok p"
  shows "\<exists>m. Lstat fs p = Some (File m s)"
proof -
  from assms(1) obtain d m where "walk fs False kernel_links [] p = Inr d" "Lstat fs d = Some (File m s)"
    by (auto simp: ReadFile_def Stat_def split: sum.splits option.splits node.splits)
  then show ?thesis using walk_link_free[of fs False kernel_links "[]" p d] assms(2,3) by auto
qed

lemma ReadFile_real:
  "dirs_path fs (butlast p) \<Longrightarrow> list_all name_ok p \<Longrightarrow> Lstat fs p = Some (File m s) \<Longrightarrow> ReadFile fs p = Inr s"
  using walk_real[of fs "[]" p False kernel_links] by (simp add: ReadFile_def Stat_def)

lemma WriteFile_ReadFile:
  assumes "WriteFile fs p content mode = Inr fs'" "link_free fs p" "list_all name_ok p"
  shows "ReadFile fs' p = Inr content"
proof -
  from WriteFile_changes[OF assms] obtain m where m: "p \<noteq> []" "fs' = gm_put p (File m content) fs" "dirs_path fs (butlast p)"
    by blast
  have "u \<noteq> p" if "prefix u (butlast p)" for u
    using that m(1) by (metis append_butlast_last_id not_Cons_self2 prefix_order.antisym prefixI same_append_eq append_Nil2)
  then have "dirs_path fs' (butlast p)" using m by (auto simp: dirs_path_def list_all_iff Lstat_put)
  then show ?thesis using ReadFile_real[of fs' p] assms(3) m by (simp add: Lstat_put)
qed

end
