(* ===== verification/FileDiff.thy ===== *)
theory FileDiff
  imports ToolRegistry "HOL-Library.Sublist"
begin

text \<open>
  The unified diff attached to a file edit (\<^verbatim>\<open>internal/tools/difftext.go\<close>): splitting into
  lines, the table of longest common subsequences, the walk through it that yields the edit
  script, the grouping into hunks, and the text with its cap. The table is a list of rows, built
  from the last line of the first file upwards as the code does.
\<close>

section \<open>Lines\<close>

definition splitLines :: "string \<Rightarrow> string list" where
  "splitLines s =
     (if s = [] then []
      else let ls = split_on (CHR 0x0A) s in if ls \<noteq> [] \<and> last ls = [] then butlast ls else ls)"

section \<open>The edit script\<close>

datatype op_kind = OpEqual | OpAdd | OpRemove

type_synonym line_op = "op_kind \<times> string"

text \<open>A row of the table: entry \<open>j\<close> of the row of \<open>a\<close> is the length for the lines from \<open>a\<close> on and
  the lines of \<open>b\<close> from \<open>j\<close> on. \<open>lcs_row\<close> computes it from the row below, right to left.\<close>

fun lcs_row :: "string \<Rightarrow> string list \<Rightarrow> nat list \<Rightarrow> nat list" where
  "lcs_row x [] below = [0]"
| "lcs_row x (y # ys) below =
     (let row = lcs_row x ys (tl below)
      in (if x = y then hd (tl below) + 1
          else if hd below \<ge> hd row then hd below else hd row) # row)"

fun lcs_table :: "string list \<Rightarrow> string list \<Rightarrow> nat list list" where
  "lcs_table [] b = [replicate (length b + 1) 0]"
| "lcs_table (x # xs) b = (let t = lcs_table xs b in lcs_row x b (hd t) # t)"

text \<open>The walk from the top left; the table and its rows are consumed with the lines.\<close>

fun diff_walk :: "string list \<Rightarrow> string list \<Rightarrow> nat list list \<Rightarrow> line_op list" where
  "diff_walk [] ys t = map (Pair OpAdd) ys"
| "diff_walk (x # xs) [] t = map (Pair OpRemove) (x # xs)"
| "diff_walk (x # xs) (y # ys) t =
     (if x = y then (OpEqual, x) # diff_walk xs ys (map tl (tl t))
      else if hd (hd (tl t)) \<ge> hd (tl (hd t)) then (OpRemove, x) # diff_walk xs (y # ys) (tl t)
      else (OpAdd, y) # diff_walk (x # xs) ys (map tl t))"

definition maxDim :: nat where
  "maxDim = 4000"

definition diffLines :: "string list \<Rightarrow> string list \<Rightarrow> line_op list" where
  "diffLines a b =
     (if length a > maxDim \<or> length b > maxDim
      then map (Pair OpRemove) a @ map (Pair OpAdd) b
      else diff_walk a b (lcs_table a b))"

section \<open>Hunks\<close>

record hunk =
  hk_oldStart :: nat
  hk_oldLines :: nat
  hk_newStart :: nat
  hk_newLines :: nat
  hk_lines :: "string list"

definition hunkContext :: nat where
  "hunkContext = 3"

definition equal_run :: "line_op list \<Rightarrow> nat" where
  "equal_run ops = length (takeWhile (\<lambda>p. fst p = OpEqual) ops)"

text \<open>The length of a hunk that starts at the head of \<open>ops\<close>.\<close>

function hunk_length :: "line_op list \<Rightarrow> nat" where
  "hunk_length ops =
     (case ops of
        [] \<Rightarrow> 0
      | (k, l) # rest \<Rightarrow>
          if k = OpEqual then
            (let run = equal_run ops
             in if run > 2 * hunkContext \<or> run = length ops then min hunkContext (length ops)
                else run + hunk_length (drop run ops))
          else Suc (hunk_length rest))"
  by pat_completeness auto
termination
  by (relation "measure length") (auto simp: equal_run_def split: if_splits)

declare hunk_length.simps [simp del]

definition op_line :: "line_op \<Rightarrow> string" where
  "op_line p = (case fst p of OpEqual \<Rightarrow> CHR '' '' | OpRemove \<Rightarrow> CHR ''-'' | OpAdd \<Rightarrow> CHR ''+'') # snd p"

definition old_side :: "line_op list \<Rightarrow> string list" where
  "old_side ops = map snd (filter (\<lambda>p. fst p \<noteq> OpAdd) ops)"

definition new_side :: "line_op list \<Rightarrow> string list" where
  "new_side ops = map snd (filter (\<lambda>p. fst p \<noteq> OpRemove) ops)"

text \<open>\<open>before\<close> is the part of the script already passed, \<open>oldLine\<close> and \<open>newLine\<close> the line numbers
  at the head of the rest.\<close>

definition make_hunk :: "line_op list \<Rightarrow> line_op list \<Rightarrow> nat \<Rightarrow> nat \<Rightarrow> hunk" where
  "make_hunk before body oldLine newLine =
     (let ctx = min hunkContext (length before); ops = drop (length before - ctx) before @ body
      in \<lparr>hk_oldStart = oldLine - ctx, hk_oldLines = length (old_side ops),
          hk_newStart = newLine - ctx, hk_newLines = length (new_side ops), hk_lines = map op_line ops\<rparr>)"

function build_hunks :: "line_op list \<Rightarrow> line_op list \<Rightarrow> nat \<Rightarrow> nat \<Rightarrow> hunk list" where
  "build_hunks before ops oldLine newLine =
     (case ops of
        [] \<Rightarrow> []
      | (k, l) # rest \<Rightarrow>
          if k = OpEqual then build_hunks (before @ [(k, l)]) rest (oldLine + 1) (newLine + 1)
          else
            (let body = take (hunk_length ops) ops
             in make_hunk before body oldLine newLine #
                build_hunks (before @ body) (drop (hunk_length ops) ops)
                  (oldLine + length (old_side body)) (newLine + length (new_side body))))"
  by pat_completeness auto
termination
proof (relation "measure (\<lambda>(_, ops, _). length ops)", goal_cases)
  case 1
  then show ?case by simp
next
  case (2 before ops oldLine newLine)
  then show ?case by simp
next
  case (3 before ops oldLine newLine)
  then show ?case by (auto simp: hunk_length.simps[of "_ # _"] split: prod.splits)
qed

declare build_hunks.simps [simp del]

definition buildHunks :: "line_op list \<Rightarrow> hunk list" where
  "buildHunks ops = build_hunks [] ops 1 1"

section \<open>The text of a diff\<close>

record file_diff =
  fd_Path :: string
  fd_Unified :: string
  fd_Added :: nat
  fd_Removed :: nat
  fd_Truncated :: bool
  fd_IsNew :: bool
  fd_IsDelete :: bool

definition maxDiffLines :: nat where
  "maxDiffLines = 200"

definition hunk_header :: "hunk \<Rightarrow> string" where
  "hunk_header h = ''@@ -'' @ show_nat (hk_oldStart h) @ '','' @ show_nat (hk_oldLines h) @ '' +'' @
     show_nat (hk_newStart h) @ '','' @ show_nat (hk_newLines h) @ '' @@''"

text \<open>The lines of the hunks from line \<open>count\<close> on, and whether they were cut.\<close>

fun emit_hunks :: "nat \<Rightarrow> hunk list \<Rightarrow> string list \<times> bool" where
  "emit_hunks count [] = ([], False)"
| "emit_hunks count (h # hs) =
     (if count + 1 > maxDiffLines then ([], True)
      else let room = maxDiffLines - (count + 1); body = take room (hk_lines h)
           in if length (hk_lines h) > room then (hunk_header h # body, True)
              else (case emit_hunks (count + 1 + length (hk_lines h)) hs of
                      (ls, trunc) \<Rightarrow> (hunk_header h # body @ ls, trunc)))"

definition BuildFileDiff :: "string \<Rightarrow> string \<Rightarrow> string \<Rightarrow> file_diff" where
  "BuildFileDiff path before after =
     (let isNew = (before = [] \<and> after \<noteq> []); isDelete = (before \<noteq> [] \<and> after = [])
      in if before = after then
           \<lparr>fd_Path = path, fd_Unified = [], fd_Added = 0, fd_Removed = 0, fd_Truncated = False,
            fd_IsNew = isNew, fd_IsDelete = isDelete\<rparr>
         else
           let ops = diffLines (splitLines before) (splitLines after);
               (ls, trunc) = emit_hunks 2 (buildHunks ops);
               text = trim_newlines (join_with [CHR 0x0A] ((''--- '' @ path) # (''+++ '' @ path) # ls))
           in \<lparr>fd_Path = path,
               fd_Unified = (if trunc then text @ [CHR 0x0A, CHR 0xE2, CHR 0x80, CHR 0xA6] @ '' diff truncated ('' @
                                         show_nat maxDiffLines @ ''+ lines)'' else text),
               fd_Added = length (filter (\<lambda>p. fst p = OpAdd) ops),
               fd_Removed = length (filter (\<lambda>p. fst p = OpRemove) ops),
               fd_Truncated = trunc, fd_IsNew = isNew, fd_IsDelete = isDelete\<rparr>)"

text \<open>\<open>attachDiffMetadata\<close>: the diff that goes into the metadata, if any.\<close>

definition attachDiffMetadata :: "string \<Rightarrow> string \<Rightarrow> string \<Rightarrow> file_diff option" where
  "attachDiffMetadata path before after =
     (let fd = BuildFileDiff path before after in if fd_Unified fd = [] then None else Some fd)"

section \<open>The two sides of the script\<close>

lemma sides_Nil [simp]: "old_side [] = []" "new_side [] = []"
  by (simp_all add: old_side_def new_side_def)

lemma sides_Cons [simp]:
  "old_side ((k, l) # ops) = (if k = OpAdd then old_side ops else l # old_side ops)"
  "new_side ((k, l) # ops) = (if k = OpRemove then new_side ops else l # new_side ops)"
  by (simp_all add: old_side_def new_side_def)

lemma sides_append [simp]: "old_side (xs @ ys) = old_side xs @ old_side ys" "new_side (xs @ ys) = new_side xs @ new_side ys"
  by (simp_all add: old_side_def new_side_def)

lemma sides_map [simp]: "old_side (map (Pair OpAdd) ys) = []" "new_side (map (Pair OpAdd) ys) = ys"
  "old_side (map (Pair OpRemove) ys) = ys" "new_side (map (Pair OpRemove) ys) = []"
  by (induction ys) simp_all

lemma diff_walk_sides: "old_side (diff_walk a b t) = a \<and> new_side (diff_walk a b t) = b"
  by (induction a b t rule: diff_walk.induct) simp_all

lemma diffLines_sides: "old_side (diffLines a b) = a" "new_side (diffLines a b) = b"
  using diff_walk_sides[of a b "lcs_table a b"] by (simp_all add: diffLines_def)

section \<open>The script is minimal\<close>

text \<open>Reference: the length of a longest common subsequence.\<close>

fun lcs :: "string list \<Rightarrow> string list \<Rightarrow> nat" where
  "lcs [] b = 0"
| "lcs (x # xs) [] = 0"
| "lcs (x # xs) (y # ys) = (if x = y then lcs xs ys + 1 else max (lcs xs (y # ys)) (lcs (x # xs) ys))"

fun tails :: "'a list \<Rightarrow> 'a list list" where
  "tails [] = [[]]"
| "tails (x # xs) = (x # xs) # tails xs"

lemma hd_tails [simp]: "hd (tails xs) = xs" "tails xs \<noteq> []"
  by (cases xs; simp)+

lemma hd_map_tails [simp]: "hd (map f (tails xs)) = f xs"
  by (cases xs) simp_all

lemma tl_map_tails [simp]: "tl (map f (tails (x # xs))) = map f (tails xs)"
  by simp

lemma lcs_row_correct: "lcs_row x b (map (lcs xs) (tails b)) = map (lcs (x # xs)) (tails b)"
  by (induction b) (auto simp: max_def Let_def)

lemma lcs_Nil [simp]: "lcs a [] = 0"
  by (cases a) simp_all

lemma lcs_table_correct: "lcs_table a b = map (\<lambda>s. map (lcs s) (tails b)) (tails a)"
proof (induction a)
  case Nil
  have "map (lcs []) (tails b) = replicate (length b + 1) 0" by (induction b) simp_all
  then show ?case by simp
next
  case (Cons x xs)
  then show ?case by (simp add: Let_def lcs_row_correct)
qed

definition equals :: "line_op list \<Rightarrow> string list" where
  "equals ops = map snd (filter (\<lambda>p. fst p = OpEqual) ops)"

lemma diff_walk_lcs:
  "t = map (\<lambda>s. map (lcs s) (tails b)) (tails a) \<Longrightarrow> length (equals (diff_walk a b t)) = lcs a b"
proof (induction a b t rule: diff_walk.induct)
  case (1 ys t)
  show ?case by (induction ys) (simp_all add: equals_def)
next
  case (2 x xs t)
  have "equals (map (Pair OpRemove) zs) = []" for zs by (induction zs) (simp_all add: equals_def)
  then show ?case using 2 by (simp add: equals_def)
next
  case (3 x xs y ys t)
  have t: "t = map (lcs (x # xs)) (tails (y # ys)) # map (\<lambda>s. map (lcs s) (tails (y # ys))) (tails xs)"
    using "3.prems" by simp
  have tls: "map tl (map (\<lambda>s. map (lcs s) (tails (y # ys))) zs) = map (\<lambda>s. map (lcs s) (tails ys)) zs" for zs
    by simp
  have entries: "hd (hd (tl t)) = lcs xs (y # ys)" "hd (tl (hd t)) = lcs (x # xs) ys"
    unfolding t by simp_all
  have sub: "tl t = map (\<lambda>s. map (lcs s) (tails (y # ys))) (tails xs)"
    "map tl (tl t) = map (\<lambda>s. map (lcs s) (tails ys)) (tails xs)"
    "map tl t = map (\<lambda>s. map (lcs s) (tails ys)) (tails (x # xs))"
    unfolding t by simp_all
  show ?case
    using "3.IH"(1)[OF _ sub(2)] "3.IH"(2)[OF _ _ sub(1)] "3.IH"(3)[OF _ _ sub(3)] entries
    by (auto simp: equals_def max_def)
qed

lemma lcs_upper: "subseq c a \<Longrightarrow> subseq c b \<Longrightarrow> length c \<le> lcs a b"
proof (induction a b arbitrary: c rule: lcs.induct)
  case (3 x xs y ys)
  show ?case
  proof (cases c)
    case (Cons z cs)
    show ?thesis
    proof (cases "x = y")
      case True
      show ?thesis
      proof (cases "z = x")
        case zx: True
        then have "subseq cs xs" "subseq cs ys" using "3.prems" Cons True by (simp_all add: subseq_Cons2_iff)
        with "3.IH"(1)[OF True] Cons True show ?thesis by fastforce
      next
        case False
        then have "subseq c xs" "subseq c ys" using "3.prems" Cons True by (simp_all add: subseq_Cons2_iff)
        with "3.IH"(1)[OF True] True show ?thesis by fastforce
      qed
    next
      case False
      then have "subseq c xs \<or> subseq c ys"
        using "3.prems" Cons by (cases "z = x") (simp_all add: subseq_Cons2_iff)
      with "3.IH"(2)[OF False, of c] "3.IH"(3)[OF False, of c] "3.prems" False show ?thesis by auto
    qed
  qed simp
qed (auto simp: list_emb_Nil2)

section \<open>Applying a diff\<close>

text \<open>Reference: what the \<open>patch\<close> tool does with hunks on the lines of the old file from line
  \<open>pos\<close> on.\<close>

definition hunk_new :: "hunk \<Rightarrow> string list" where
  "hunk_new h = map tl (filter (\<lambda>l. hd l \<noteq> CHR ''-'') (hk_lines h))"

definition hunk_old :: "hunk \<Rightarrow> string list" where
  "hunk_old h = map tl (filter (\<lambda>l. hd l \<noteq> CHR ''+'') (hk_lines h))"

fun apply_hunks :: "nat \<Rightarrow> hunk list \<Rightarrow> string list \<Rightarrow> string list option" where
  "apply_hunks pos [] rest = Some rest"
| "apply_hunks pos (h # hs) rest =
     (let skip = hk_oldStart h - pos
      in if hk_oldStart h < pos \<or> take (hk_oldLines h) (drop skip rest) \<noteq> hunk_old h then None
         else map_option (\<lambda>r. take skip rest @ hunk_new h @ r)
                (apply_hunks (hk_oldStart h + hk_oldLines h) hs (drop (skip + hk_oldLines h) rest)))"

lemma hunk_line_sides:
  "map tl (filter (\<lambda>l. hd l \<noteq> CHR ''-'') (map op_line ops)) = new_side ops"
  "map tl (filter (\<lambda>l. hd l \<noteq> CHR ''+'') (map op_line ops)) = old_side ops"
  by (induction ops) (auto simp: op_line_def split: op_kind.splits)

lemma equals_subseq: "subseq (equals ops) (old_side ops)" "subseq (equals ops) (new_side ops)"
  by (induction ops) (auto simp: equals_def subseq_Cons2_iff intro: list_emb_Cons split: op_kind.splits)

definition all_equal :: "line_op list \<Rightarrow> bool" where
  "all_equal ops \<longleftrightarrow> list_all (\<lambda>p. fst p = OpEqual) ops"

lemma all_equal_sides: "all_equal ops \<Longrightarrow> old_side ops = map snd ops \<and> new_side ops = map snd ops"
  by (induction ops) (auto simp: all_equal_def)

lemma all_equal_append [simp]: "all_equal (xs @ ys) \<longleftrightarrow> all_equal xs \<and> all_equal ys"
  by (simp add: all_equal_def)

text \<open>Enough unchanged lines follow that the next hunk's context does not reach back.\<close>

definition roomy :: "nat \<Rightarrow> line_op list \<Rightarrow> bool" where
  "roomy n ops \<longleftrightarrow> all_equal ops \<or> hunkContext \<le> n + equal_run ops"

lemma equal_run_drop: "equal_run ops \<ge> k \<Longrightarrow> equal_run (drop k ops) = equal_run ops - k"
proof (induction k arbitrary: ops)
  case (Suc k)
  then show ?case by (cases ops) (auto simp: equal_run_def split: if_splits)
qed simp

lemma equal_run_all: "equal_run ops = length ops \<Longrightarrow> all_equal ops"
  by (induction ops) (auto simp: equal_run_def all_equal_def split: if_splits)

lemma all_equal_drop: "all_equal ops \<Longrightarrow> all_equal (drop k ops)"
  by (auto simp: all_equal_def list_all_iff dest: in_set_dropD)

lemma hunk_rest_roomy: "roomy 0 (drop (hunk_length ops) ops)"
proof (induction ops rule: hunk_length.induct)
  case (1 ops)
  show ?case
  proof (cases ops)
    case Nil
    then show ?thesis by (simp add: roomy_def all_equal_def)
  next
    case (Cons p rest)
    obtain k l where p: "p = (k, l)" by (cases p)
    show ?thesis
    proof (cases "k = OpEqual")
      case False
      then show ?thesis using 1(2)[OF Cons p[symmetric]] by (simp add: Cons p hunk_length.simps[of "_ # _"])
    next
      case True
      let ?run = "equal_run ops"
      show ?thesis
      proof (cases "?run > 2 * hunkContext \<or> ?run = length ops")
        case end_here: True
        then have "hunk_length ops = min hunkContext (length ops)"
          using True by (simp add: Cons p hunk_length.simps[of "_ # _"])
        moreover have "roomy 0 (drop (min hunkContext (length ops)) ops)"
        proof (cases "?run = length ops")
          case True
          then show ?thesis using equal_run_all all_equal_drop by (auto simp: roomy_def)
        next
          case False
          then have run: "?run > 2 * hunkContext" using end_here by simp
          have "equal_run ops \<le> length ops" by (simp add: equal_run_def length_takeWhile_le)
          then have "min hunkContext (length ops) = hunkContext" using run by simp
          then show ?thesis using run equal_run_drop[of hunkContext ops] by (simp add: roomy_def hunkContext_def) linarith
        qed
        ultimately show ?thesis by simp
      next
        case False
        then have "hunk_length ops = ?run + hunk_length (drop ?run ops)"
          using True by (simp add: Cons p hunk_length.simps[of "_ # _"] Let_def)
        moreover have "roomy 0 (drop (hunk_length (drop ?run ops)) (drop ?run ops))"
          using 1(1)[OF Cons p[symmetric] True refl False] .
        ultimately show ?thesis by (simp add: add.commute)
      qed
    qed
  qed
qed

lemma hunk_length_le: "hunk_length ops \<le> length ops"
proof (induction ops rule: hunk_length.induct)
  case (1 ops)
  show ?case
  proof (cases ops)
    case (Cons p rest)
    obtain k l where p: "p = (k, l)" by (cases p)
    have "equal_run ops \<le> length ops" by (simp add: equal_run_def length_takeWhile_le)
    then show ?thesis using 1(1)[OF Cons p[symmetric] _ refl] 1(2)[OF Cons p[symmetric]]
      by (auto simp: Cons p hunk_length.simps[of "_ # _"] Let_def split: if_splits)
  qed (simp add: hunk_length.simps)
qed

lemma build_hunks_apply:
  "before = done @ pend \<Longrightarrow> all_equal pend \<Longrightarrow> done = [] \<or> roomy (length pend) ops \<Longrightarrow>
   oldLine = length (old_side before) + 1 \<Longrightarrow>
   apply_hunks (length (old_side done) + 1) (build_hunks before ops oldLine newLine) (old_side (pend @ ops)) =
     Some (new_side (pend @ ops))"
proof (induction before ops oldLine newLine arbitrary: "done" pend rule: build_hunks.induct)
  case (1 before ops oldLine newLine)
  show ?case
  proof (cases ops)
    case Nil
    then show ?thesis using "1.prems" all_equal_sides[of pend] by (simp add: build_hunks.simps)
  next
    case (Cons p rest)
    obtain k l where p: "p = (k, l)" by (cases p)
    note ops = Cons[unfolded p]
    show ?thesis
    proof (cases "k = OpEqual")
      case True
      have "done = [] \<or> roomy (length (pend @ [(k, l)])) rest"
        using "1.prems"(3) True by (auto simp: ops roomy_def all_equal_def equal_run_def)
      moreover have "all_equal (pend @ [(k, l)])" using "1.prems"(2) True by (simp add: all_equal_def)
      ultimately show ?thesis
        using "1.IH"(1)[OF Cons p[symmetric] True, of "done" "pend @ [(k, l)]"] "1.prems"(1,4) True
        by (simp add: ops build_hunks.simps[of _ "_ # _"])
    next
      case False
      define body where "body = take (hunk_length ops) ops"
      define R where "R = drop (hunk_length ops) ops"
      define ctx where "ctx = min hunkContext (length before)"
      define P where "P = take (length pend - ctx) pend"
      define C where "C = drop (length pend - ctx) pend"
      have split: "ops = body @ R" "pend = P @ C" by (simp_all add: body_def R_def P_def C_def)
      have "done = [] \<or> hunkContext \<le> length pend"
        using "1.prems"(3) False by (auto simp: ops roomy_def all_equal_def equal_run_def)
      then have ctx: "ctx \<le> length pend" using "1.prems"(1) by (auto simp: ctx_def)
      then have C: "drop (length before - ctx) before = C" "length C = ctx"
        using "1.prems"(1) by (simp_all add: C_def)
      have eqs: "all_equal P" "all_equal C" using "1.prems"(2) by (simp_all add: split(2))
      note sides = all_equal_sides[OF eqs(1)] all_equal_sides[OF eqs(2)]
      define h where "h = make_hunk before body oldLine newLine"
      have h_eq: "h = \<lparr>hk_oldStart = oldLine - ctx, hk_oldLines = length (old_side (C @ body)),
          hk_newStart = newLine - ctx, hk_newLines = length (new_side (C @ body)), hk_lines = map op_line (C @ body)\<rparr>"
        by (simp only: h_def make_hunk_def ctx_def[symmetric] Let_def C(1))
      have h: "hk_oldStart h = length (old_side done) + length P + 1" "hk_oldLines h = length (old_side (C @ body))"
        "hunk_old h = old_side (C @ body)" "hunk_new h = new_side (C @ body)"
        using "1.prems"(1,4) C(2) sides
        by (simp_all add: h_eq split(2) hunk_old_def hunk_new_def hunk_line_sides del: map_append sides_append)
          (simp add: sides_append)
      have rest: "apply_hunks (length (old_side (before @ body)) + 1)
          (build_hunks (before @ body) R (oldLine + length (old_side body)) (newLine + length (new_side body))) (old_side R) =
          Some (new_side R)"
        using "1.IH"(2)[OF Cons p[symmetric] False body_def, of "before @ body" "[]"] "1.prems"(4) hunk_rest_roomy[of ops]
        by (simp add: R_def all_equal_def)
      have "build_hunks before ops oldLine newLine =
          h # build_hunks (before @ body) R (oldLine + length (old_side body)) (newLine + length (new_side body))"
        using False by (simp add: build_hunks.simps[of before "_ # _"] h_def body_def R_def ops Let_def)
      then show ?thesis
        using rest "1.prems"(1) sides by (simp add: h split algebra_simps)
    qed
  qed
qed

text \<open>
  C14. The diff is right: the hunks computed for two files, applied to the lines of the old one the
  way patch applies them, at their line numbers and only where their context and removed lines
  match, give the lines of the new one.\<close>

theorem hunks_rebuild_file: "apply_hunks 1 (buildHunks (diffLines a b)) a = Some b"
  using build_hunks_apply[of "[]" "[]" "[]" "diffLines a b" 1 1]
  by (simp add: buildHunks_def all_equal_def diffLines_sides)

text \<open>
  The diff is minimal: no common subsequence of two files of at most 4000 lines each is longer
  than the list of lines the edit script keeps, which is itself one.\<close>

lemma diffLines_minimal:
  "length a \<le> maxDim \<Longrightarrow> length b \<le> maxDim \<Longrightarrow> subseq c a \<Longrightarrow> subseq c b \<Longrightarrow>
     length c \<le> length (equals (diffLines a b)) \<and>
     subseq (equals (diffLines a b)) a \<and> subseq (equals (diffLines a b)) b"
  using equals_subseq[of "diffLines a b"] diff_walk_lcs[OF lcs_table_correct, of a b] lcs_upper[of c a b]
  by (simp add: diffLines_sides) (simp add: diffLines_def)

end
