(* ===== verification/FileTools.thy ===== *)
theory FileTools
  imports FileSystem FileDiff
begin

text \<open>
  The sandbox and the file tools (\<^verbatim>\<open>internal/tools/sandbox.go\<close>, \<^verbatim>\<open>read_file.go\<close>,
  \<^verbatim>\<open>write_file.go\<close>, \<^verbatim>\<open>edit_file.go\<close>, \<^verbatim>\<open>list_dir.go\<close>). The root of the sandbox is an absolute
  clean path; what a tool reports is an error value or its output and metadata. The lock around
  a write is in the theory of the lock manager.
\<close>

section \<open>The sandbox\<close>

datatype sandbox_error = EmptyPath | Escapes string

function resolveDeepNewPath :: "fs \<Rightarrow> path \<Rightarrow> path \<Rightarrow> string list \<Rightarrow> path" where
  "resolveDeepNewPath fs joined p parts =
     (case EvalSymlinks fs p of
        Inr resolved \<Rightarrow> foldl path_join resolved (rev parts)
      | Inl _ \<Rightarrow>
          if p = [] then joined
          else resolveDeepNewPath fs joined (butlast p) (parts @ [last p]))"
  by pat_completeness auto
termination
  by (relation "measure (\<lambda>(fs, joined, p, parts). length p)") auto

declare resolveDeepNewPath.simps [simp del]

definition resolve_root :: "fs \<Rightarrow> path \<Rightarrow> path" where
  "resolve_root fs root = (case EvalSymlinks fs root of Inr r \<Rightarrow> r | Inl _ \<Rightarrow> root)"

definition resolve_joined :: "fs \<Rightarrow> path \<Rightarrow> path" where
  "resolve_joined fs joined =
     (case EvalSymlinks fs joined of
        Inr r \<Rightarrow> r
      | Inl _ \<Rightarrow>
          (case EvalSymlinks fs (butlast joined) of
             Inl _ \<Rightarrow> resolveDeepNewPath fs joined joined []
           | Inr parent \<Rightarrow> path_join parent (last joined)))"

text \<open>The check compares strings: the root without, and with, a separator at its end.\<close>

definition within_root :: "path \<Rightarrow> path \<Rightarrow> bool" where
  "within_root root p =
     (let r = path_string root; r' = (if last r = CHR ''/'' then r else r @ ''/'')
      in path_string p = butlast r' \<or> has_prefix (path_string p) r')"

definition ResolveSandboxed :: "fs \<Rightarrow> path \<Rightarrow> string \<Rightarrow> sandbox_error + path" where
  "ResolveSandboxed fs root path =
     (if path = [] then Inl EmptyPath
      else let resolved = resolve_joined fs (path_join root path)
           in if within_root (resolve_root fs root) resolved then Inr resolved else Inl (Escapes path))"

section \<open>The tools\<close>

datatype file_error =
  NeedsArg string
| BadPath sandbox_error
| OsFailed os_error
| BinaryFile string
| OldNotFound string
| OldNotUnique nat string

text \<open>\<^verbatim>\<open>read_file\<close>: a number argument, the lines from an offset on, numbered, up to a size.\<close>

definition maxReadBytes :: nat where
  "maxReadBytes = 200 * 1024"

definition isBinaryBytes :: "string \<Rightarrow> bool" where
  "isBinaryBytes s = list_ex (\<lambda>c. c = CHR 0x00) (take 512 s)"

definition pad6 :: "string \<Rightarrow> string" where
  "pad6 s = replicate (6 - length s) (CHR '' '') @ s"

fun number_lines :: "string \<Rightarrow> nat \<Rightarrow> string list \<Rightarrow> string" where
  "number_lines sb n [] = sb"
| "number_lines sb n (l # ls) =
     (let sb = sb @ pad6 (show_nat n) @ [CHR 0x09] @ l @ [CHR 0x0A]
      in if length sb > maxReadBytes then sb @ ''... (output truncated at 200KB)'' @ [CHR 0x0A]
         else number_lines sb (n + 1) ls)"

definition window :: "json_args \<Rightarrow> string list \<Rightarrow> nat \<times> string list" where
  "window args ls =
     (let offset = (case gm_get args ''offset'' of Some (JNum n) \<Rightarrow> nat (n - 1) | _ \<Rightarrow> 0);
          rest = drop offset ls
      in (offset,
          case gm_get args ''limit'' of
            Some (JNum n) \<Rightarrow> if n > 0 then take (nat n) rest else rest
          | _ \<Rightarrow> rest))"

definition read_file :: "fs \<Rightarrow> path \<Rightarrow> json_args \<Rightarrow> file_error + string" where
  "read_file fs root args =
     (let filePath = arg_string args ''file_path''
      in if filePath = [] then Inl (NeedsArg ''file_path'')
         else case ResolveSandboxed fs root filePath of
           Inl e \<Rightarrow> Inl (BadPath e)
         | Inr resolved \<Rightarrow>
             (case ReadFile fs resolved of
                Inl e \<Rightarrow> Inl (OsFailed e)
              | Inr content \<Rightarrow>
                  if isBinaryBytes content then Inl (BinaryFile filePath)
                  else let (offset, ls) = window args (split_on (CHR 0x0A) content)
                       in Inr (if offset \<ge> length (split_on (CHR 0x0A) content) then []
                               else number_lines [] (offset + 1) ls)))"

text \<open>\<^verbatim>\<open>write_file\<close>.\<close>

definition write_file :: "fs \<Rightarrow> path \<Rightarrow> json_args \<Rightarrow> fs \<times> (file_error + nat \<times> file_diff option)" where
  "write_file fs root args =
     (let filePath = arg_string args ''file_path''
      in if filePath = [] then (fs, Inl (NeedsArg ''file_path''))
         else case as_string (gm_get args ''content'') of
           None \<Rightarrow> (fs, Inl (NeedsArg ''content''))
         | Some content \<Rightarrow>
             (case ResolveSandboxed fs root filePath of
                Inl e \<Rightarrow> (fs, Inl (BadPath e))
              | Inr resolved \<Rightarrow>
                  (case MkdirAll fs (butlast resolved) of
                     Inl e \<Rightarrow> (fs, Inl (OsFailed e))
                   | Inr fs1 \<Rightarrow>
                       let mode = (case Stat fs1 resolved of Inr (File m s) \<Rightarrow> m | _ \<Rightarrow> 420);
                           before = (case ReadFile fs1 resolved of Inr s \<Rightarrow> s | Inl _ \<Rightarrow> [])
                       in case WriteFile fs1 resolved content mode of
                            Inl e \<Rightarrow> (fs1, Inl (OsFailed e))
                          | Inr fs2 \<Rightarrow> (fs2, Inr (length content, attachDiffMetadata filePath before content)))))"

text \<open>\<^verbatim>\<open>strings.Count\<close> for a nonempty pattern.\<close>

function count_str :: "string \<Rightarrow> string \<Rightarrow> nat" where
  "count_str old [] = 0"
| "count_str old (c # s) =
     (if old \<noteq> [] \<and> has_prefix (c # s) old then Suc (count_str old (drop (length old) (c # s)))
      else count_str old s)"
  by pat_completeness auto
termination
proof (relation "measure (\<lambda>(old, s). length s)", goal_cases)
  case (2 old c s)
  then show ?case by (cases old) simp_all
qed simp_all

definition edit_file :: "fs \<Rightarrow> path \<Rightarrow> json_args \<Rightarrow> fs \<times> (file_error + nat \<times> file_diff option)" where
  "edit_file fs root args =
     (let filePath = arg_string args ''file_path''; oldStr = arg_string args ''old_string''
      in if filePath = [] then (fs, Inl (NeedsArg ''file_path''))
         else if oldStr = [] then (fs, Inl (NeedsArg ''old_string''))
         else case as_string (gm_get args ''new_string'') of
           None \<Rightarrow> (fs, Inl (NeedsArg ''new_string''))
         | Some newStr \<Rightarrow>
             let replaceAll = (case gm_get args ''replace_all'' of Some (JBool b) \<Rightarrow> b | _ \<Rightarrow> False)
             in case ResolveSandboxed fs root filePath of
                  Inl e \<Rightarrow> (fs, Inl (BadPath e))
                | Inr resolved \<Rightarrow>
                    let mode = (case Stat fs resolved of Inr (File m s) \<Rightarrow> m | _ \<Rightarrow> 420)
                    in case ReadFile fs resolved of
                         Inl e \<Rightarrow> (fs, Inl (OsFailed e))
                       | Inr content \<Rightarrow>
                           let count = count_str oldStr content
                           in if count = 0 then (fs, Inl (OldNotFound filePath))
                              else if count > 1 \<and> \<not> replaceAll then (fs, Inl (OldNotUnique count filePath))
                              else
                                let result = (if replaceAll then replace_all oldStr newStr content
                                              else replace_first oldStr newStr content)
                                in case WriteFile fs resolved result mode of
                                     Inl e \<Rightarrow> (fs, Inl (OsFailed e))
                                   | Inr fs' \<Rightarrow>
                                       (fs', Inr (if replaceAll then count else 1,
                                                  attachDiffMetadata filePath content result)))"

text \<open>\<^verbatim>\<open>list_dir\<close>: the entries of a directory, or of the three levels below it.\<close>

definition maxEntries :: nat where
  "maxEntries = 500"

definition noise_dir :: "string \<Rightarrow> bool" where
  "noise_dir c \<longleftrightarrow> c = ''.git'' \<or> c = ''node_modules'' \<or> c = ''vendor''"

definition entry_line :: "node \<Rightarrow> string \<Rightarrow> string" where
  "entry_line n name = (case n of Dir \<Rightarrow> ''d'' | Link t \<Rightarrow> ''l'' | File m s \<Rightarrow> ''f'') @ '' '' @ name"

fun tree_lines :: "fs \<Rightarrow> nat \<Rightarrow> path \<Rightarrow> string list \<Rightarrow> string list" where
  "tree_lines fs levels dir rel =
     concat (map (\<lambda>(c, n).
       if n = Dir \<and> (noise_dir c \<or> levels = 0) then []
       else entry_line n (join_with ''/'' (rel @ [c])) #
            (if n = Dir then (case levels of 0 \<Rightarrow> [] | Suc k \<Rightarrow> tree_lines fs k (dir @ [c]) (rel @ [c])) else []))
       (dir_entries fs dir))"

declare tree_lines.simps [simp del]

definition list_dir :: "fs \<Rightarrow> path \<Rightarrow> json_args \<Rightarrow> file_error + string list" where
  "list_dir fs root args =
     (let dirPath = (if arg_string args ''path'' = [] then ''.'' else arg_string args ''path'');
          recursive = (case gm_get args ''recursive'' of Some (JBool b) \<Rightarrow> b | _ \<Rightarrow> False)
      in case ResolveSandboxed fs root dirPath of
           Inl e \<Rightarrow> Inl (BadPath e)
         | Inr resolved \<Rightarrow>
             if recursive then
               Inr (if os_Lstat fs resolved = Some Dir \<and> \<not> (resolved \<noteq> [] \<and> noise_dir (last resolved)) then
                      (case walk fs False kernel_links [] resolved of
                         Inl _ \<Rightarrow> []
                       | Inr d \<Rightarrow> take maxEntries (tree_lines fs 3 d []))
                    else [])
             else case ReadDir fs resolved of
                    Inl e \<Rightarrow> Inl (OsFailed e)
                  | Inr entries \<Rightarrow> Inr (map (\<lambda>(c, n). entry_line n c) entries))"

section \<open>Resolved paths stay under the root\<close>

lemma within_root_prefix:
  assumes "list_all name_ok p" "list_all name_ok root"
  shows "within_root root p \<longleftrightarrow> prefix root p"
proof (cases "root = []")
  case True
  have "has_prefix (path_string p) ''/''" by (cases p) (simp_all add: path_string_def)
  then show ?thesis using True by (simp add: within_root_def path_string_def)
next
  case False
  obtain r c where r: "root = r @ [c]" using False by (cases root rule: rev_cases) auto
  then have c: "c \<noteq> []" "CHR ''/'' \<notin> set c" using assms(2) by (simp_all add: name_ok_def)
  have "last (path_string root) = last c" using c(1) by (simp add: path_string_def r)
  also have "last c \<noteq> CHR ''/''" using c by (metis last_in_set)
  finally have "last (path_string root) \<noteq> CHR ''/''" .
  then show ?thesis
    using path_string_prefix[OF assms] False by (simp add: within_root_def)
qed

lemma foldl_join_ok: "list_all name_ok p \<Longrightarrow> list_all name_ok (foldl path_join p cs)"
  by (induction cs arbitrary: p) (simp_all add: path_join_ok)

lemma resolveDeep_ok:
  "list_all name_ok p \<Longrightarrow> list_all name_ok joined \<Longrightarrow> list_all name_ok (resolveDeepNewPath fs joined p parts)"
proof (induction fs joined p parts rule: resolveDeepNewPath.induct)
  case (1 fs joined p parts)
  then show ?case
    by (auto simp: resolveDeepNewPath.simps[of fs joined p] names_butlast intro: foldl_join_ok EvalSymlinks_names
        split: sum.splits)
qed

lemma resolve_joined_ok: "list_all name_ok joined \<Longrightarrow> list_all name_ok (resolve_joined fs joined)"
  using EvalSymlinks_names[of fs joined] EvalSymlinks_names[of fs "butlast joined"] names_butlast[of joined]
  by (auto simp: resolve_joined_def resolveDeep_ok path_join_ok split: sum.splits)

lemma resolve_root_ok: "list_all name_ok root \<Longrightarrow> list_all name_ok (resolve_root fs root)"
  by (auto simp: resolve_root_def intro: EvalSymlinks_names split: sum.splits)

lemma ResolveSandboxed_D:
  assumes "ResolveSandboxed fs root path = Inr r" "list_all name_ok root"
  shows "r = resolve_joined fs (path_join root path)" "list_all name_ok r" "prefix (resolve_root fs root) r"
proof -
  show r: "r = resolve_joined fs (path_join root path)"
    using assms(1) by (auto simp: ResolveSandboxed_def Let_def split: if_splits)
  show ok: "list_all name_ok r" unfolding r by (intro resolve_joined_ok path_join_ok assms(2))
  show "prefix (resolve_root fs root) r"
    using assms(1) within_root_prefix[OF ok resolve_root_ok[OF assms(2)]] r
    by (auto simp: ResolveSandboxed_def Let_def split: if_splits)
qed

text \<open>
  C15. A path the sandbox accepts is under its root, component by component, although the code
  compares strings; and when the file exists the path names it without any symbolic link, so no
  link leads out.\<close>

theorem ResolveSandboxed_inside:
  "ResolveSandboxed fs root path = Inr r \<Longrightarrow> list_all name_ok root \<Longrightarrow>
     prefix (resolve_root fs root) r \<and> list_all name_ok r \<and>
     (is_ok (EvalSymlinks fs (path_join root path)) \<longrightarrow> real_path fs r \<and> EvalSymlinks fs (path_join root path) = Inr r)"
  using ResolveSandboxed_D[of fs root path r] EvalSymlinks_real[of fs "path_join root path" r]
  by (auto simp: resolve_joined_def is_ok_def split: sum.splits)

theorem ResolveSandboxed_inside_witness:
  "real_path [([''r''], Dir), ([''r'', ''l''], Link ''d''), ([''r'', ''d''], Dir)] [''r'', ''d'']"
proof -
  let ?fs = "[([''r''], Dir), ([''r'', ''l''], Link ''d''), ([''r'', ''d''], Dir)]"
  have "ResolveSandboxed ?fs [''r''] ''x/../l'' = Inr [''r'', ''d'']" "list_all name_ok [''r'']"
    "is_ok (EvalSymlinks ?fs (path_join [''r''] ''x/../l''))"
    by code_simp+
  then show ?thesis using ResolveSandboxed_inside by blast
qed

section \<open>Writing\<close>

lemma write_file_states:
  assumes "ResolveSandboxed fs root (arg_string args ''file_path'') = Inr r" "list_all name_ok root" "link_free fs r"
  obtains "fst (write_file fs root args) = fs" "\<not> is_ok (snd (write_file fs root args))"
  | fs1 where "MkdirAll fs (butlast r) = Inr fs1" "fst (write_file fs root args) = fs1"
      "\<not> is_ok (snd (write_file fs root args))"
  | fs1 fs2 content mode where "MkdirAll fs (butlast r) = Inr fs1" "as_string (gm_get args ''content'') = Some content"
      "WriteFile fs1 r content mode = Inr fs2" "fst (write_file fs root args) = fs2" "link_free fs1 r"
proof -
  have "link_free fs (butlast r)" using assms(3) link_free_prefix prefixeq_butlast by blast
  moreover have "list_all name_ok (butlast r)" using ResolveSandboxed_D(2)[OF assms(1,2)] by (rule names_butlast)
  ultimately have "link_free fs1 r" if "MkdirAll fs (butlast r) = Inr fs1" for fs1
    using MkdirAll_link_free that assms(3) by blast
  note made = this
  show thesis
  proof (cases "arg_string args ''file_path'' = [] \<or> as_string (gm_get args ''content'') = None")
    case True
    then have "fst (write_file fs root args) = fs \<and> \<not> is_ok (snd (write_file fs root args))"
      by (auto simp: write_file_def Let_def)
    then show thesis by (intro that(1)) simp_all
  next
    case False
    then obtain content where c: "as_string (gm_get args ''content'') = Some content" by auto
    show thesis
    proof (cases "MkdirAll fs (butlast r)")
      case (Inl e)
      then have "fst (write_file fs root args) = fs \<and> \<not> is_ok (snd (write_file fs root args))"
        using False c assms(1) by (simp add: write_file_def Let_def)
      then show thesis by (intro that(1)) simp_all
    next
      case (Inr fs1)
      let ?mode = "case Stat fs1 r of Inr (File m s) \<Rightarrow> m | _ \<Rightarrow> 420"
      show thesis
        using that(2)[OF Inr] that(3)[OF Inr c _ _ made[OF Inr]] False c assms(1) Inr
        by (cases "WriteFile fs1 r content ?mode") (simp_all add: write_file_def Let_def)
    qed
  qed
qed

lemma write_file_changes:
  assumes "ResolveSandboxed fs root (arg_string args ''file_path'') = Inr r" "list_all name_ok root" "link_free fs r"
    "Lstat (fst (write_file fs root args)) q \<noteq> Lstat fs q"
  shows "q = r \<or> prefix q r \<and> Lstat fs q = None"
proof -
  note ok = ResolveSandboxed_D(2)[OF assms(1,2)]
  have parent: "link_free fs (butlast r)" "list_all name_ok (butlast r)"
    using assms(3) link_free_prefix prefixeq_butlast names_butlast[OF ok] by blast+
  have dirs: "prefix q r \<and> Lstat fs q = None" if "MkdirAll fs (butlast r) = Inr fs1" "Lstat fs1 q \<noteq> Lstat fs q" for fs1
    using MkdirAll_changes[OF that(1) parent that(2)] prefixeq_butlast prefix_order.trans by blast
  show ?thesis
  proof (rule write_file_states[OF assms(1-3)], goal_cases)
    case 1
    then show ?case using assms(4) by simp
  next
    case (2 fs1)
    then show ?case using dirs[of fs1] assms(4) by simp
  next
    case (3 fs1 fs2 content mode)
    then obtain m where "r \<noteq> []" "fs2 = gm_put r (File m content) fs1" using WriteFile_changes[OF 3(3,5) ok] by blast
    then show ?case using dirs[of fs1] 3 assms(4) by (cases "q = r") (simp_all add: Lstat_put)
  qed
qed

text \<open>
  A write stays in the sandbox: when no existing part of the resolved path is a symbolic link,
  write_file, whatever it reports, changes nothing but the file itself and the missing
  directories on the way to it, all of them under the resolved root.\<close>

lemma write_file_inside:
  "ResolveSandboxed fs root (arg_string args ''file_path'') = Inr r \<Longrightarrow> list_all name_ok root \<Longrightarrow> link_free fs r \<Longrightarrow>
     EvalSymlinks fs root = Inr R \<Longrightarrow> fs_wf fs \<Longrightarrow> Lstat (fst (write_file fs root args)) q \<noteq> Lstat fs q \<Longrightarrow>
     prefix R q \<and> prefix q r \<and> (q = r \<or> Lstat fs q = None)"
proof -
  assume a: "ResolveSandboxed fs root (arg_string args ''file_path'') = Inr r" "list_all name_ok root" "link_free fs r"
    "EvalSymlinks fs root = Inr R" "fs_wf fs" "Lstat (fst (write_file fs root args)) q \<noteq> Lstat fs q"
  have R: "prefix R r" using ResolveSandboxed_D(3)[OF a(1,2)] a(4) by (simp add: resolve_root_def)
  have dirs: "dirs_path fs (butlast R)" "Lstat fs R \<noteq> None" using EvalSymlinks_real[OF a(4)] by (simp_all add: real_path_def)
  have q: "q = r \<or> prefix q r \<and> Lstat fs q = None" using write_file_changes[OF a(1-3,6)] .
  moreover have "prefix R q" if "prefix q r" "Lstat fs q = None"
  proof (rule ccontr)
    assume "\<not> prefix R q"
    then have "strict_prefix q R" using prefix_same_cases[OF R that(1)] by (auto simp: strict_prefix_def)
    then have "prefix q (butlast R)" by (cases R rule: rev_cases) (auto simp: strict_prefix_def)
    then show False using dirs_path_at[OF dirs_path_prefix[OF dirs(1)]] that(2) by fastforce
  qed
  ultimately show ?thesis using R by auto
qed

text \<open>
  A write that reports success is read back: the resolved file then holds exactly the content
  that was asked for.\<close>

lemma write_file_reads_back:
  "write_file fs root args = (fs', Inr out) \<Longrightarrow> list_all name_ok root \<Longrightarrow>
     ResolveSandboxed fs root (arg_string args ''file_path'') = Inr r \<Longrightarrow> link_free fs r \<Longrightarrow>
     as_string (gm_get args ''content'') = Some content \<Longrightarrow> ReadFile fs' r = Inr content \<and> fst out = length content"
proof -
  assume a: "write_file fs root args = (fs', Inr out)" "list_all name_ok root"
    "ResolveSandboxed fs root (arg_string args ''file_path'') = Inr r" "link_free fs r"
    "as_string (gm_get args ''content'') = Some content"
  have "fst out = length content" using a(1,5) by (auto simp: write_file_def Let_def split: if_splits option.splits sum.splits)
  moreover have "ReadFile fs' r = Inr content"
    by (rule write_file_states[OF a(3,2,4)])
      (use a WriteFile_ReadFile ResolveSandboxed_D(2)[OF a(3,2)] in auto)
  ultimately show ?thesis by simp
qed

text \<open>
  The sandbox leaks through a dangling link: when a link in the root points to a missing file
  outside it, its target does not resolve, the parent does, the check accepts the link's own path,
  and the write follows the link and creates the file outside the root.\<close>

lemma dangling_link_escapes:
  "let fs = [([''root''], Dir), ([''out''], Dir), ([''root'', ''l''], Link ''/out/x'')];
       args = [(''file_path'', JStr ''l''), (''content'', JStr ''data'')];
       (fs', res) = write_file fs [''root''] args
   in fs_wf fs \<and> ResolveSandboxed fs [''root''] ''l'' = Inr [''root'', ''l''] \<and> is_ok res \<and>
      Lstat fs [''out'', ''x''] = None \<and> Lstat fs' [''out'', ''x''] = Some (File 420 ''data'')"
  by code_simp

section \<open>Editing\<close>

lemma count_str_0: "old \<noteq> [] \<Longrightarrow> count_str old s = 0 \<longleftrightarrow> \<not> contains_str s old"
  by (induction old s rule: count_str.induct) auto

lemma replace_first_at:
  "old \<noteq> [] \<Longrightarrow> contains_str s old \<Longrightarrow>
     \<exists>a b. s = a @ old @ b \<and> replace_first old new s = a @ new @ b \<and> count_str old s = Suc (count_str old b)"
proof (induction s)
  case (Cons c s)
  show ?case
  proof (cases "has_prefix (c # s) old")
    case True
    then obtain b where b: "c # s = old @ b" by (auto simp: has_prefix_iff)
    then have "drop (length old) (c # s) = b" by simp
    then have "replace_first old new (c # s) = [] @ new @ b" "count_str old (c # s) = Suc (count_str old b)"
      using True Cons.prems(1) by (simp_all only: replace_first.simps count_str.simps) simp_all
    then have "c # s = [] @ old @ b \<and> replace_first old new (c # s) = [] @ new @ b \<and> count_str old (c # s) = Suc (count_str old b)"
      using b by (simp only: append_Nil)
    then show ?thesis by blast
  next
    case False
    then obtain a b where "s = a @ old @ b" "replace_first old new s = a @ new @ b" "count_str old s = Suc (count_str old b)"
      using Cons by auto
    then have "c # s = (c # a) @ old @ b \<and> replace_first old new (c # s) = (c # a) @ new @ b \<and>
        count_str old (c # s) = Suc (count_str old b)"
      using False by simp
    then show ?thesis by blast
  qed
qed simp

text \<open>
  An edit is exact: a successful edit_file without replace_all replaces the first
  occurrence of the old string, after which the old file has no other that does not overlap it,
  and changes no other path; a failed edit changes nothing.\<close>

lemma edit_file_exact:
  "edit_file fs root args = (fs', res) \<Longrightarrow> list_all name_ok root \<Longrightarrow>
     ResolveSandboxed fs root (arg_string args ''file_path'') = Inr r \<Longrightarrow> link_free fs r \<Longrightarrow>
     gm_get args ''replace_all'' = None \<Longrightarrow>
     (if is_ok res
      then \<exists>a b. ReadFile fs r = Inr (a @ arg_string args ''old_string'' @ b) \<and>
             \<not> contains_str b (arg_string args ''old_string'') \<and>
             ReadFile fs' r = Inr (a @ arg_string args ''new_string'' @ b) \<and> (\<forall>q. q \<noteq> r \<longrightarrow> Lstat fs' q = Lstat fs q)
      else fs' = fs)"
proof -
  assume a: "edit_file fs root args = (fs', res)" "list_all name_ok root"
    "ResolveSandboxed fs root (arg_string args ''file_path'') = Inr r" "link_free fs r"
    "gm_get args ''replace_all'' = None"
  note ok = ResolveSandboxed_D(2)[OF a(3,2)]
  let ?old = "arg_string args ''old_string''" and ?new = "arg_string args ''new_string''"
  show ?thesis
  proof (cases "is_ok res")
    case False
    then show ?thesis using a(1)
      by (auto simp: edit_file_def Let_def split: if_splits option.splits sum.splits)
  next
    case True
    then obtain content mode where e: "?old \<noteq> []" "ReadFile fs r = Inr content" "count_str ?old content = 1"
      "WriteFile fs r (replace_first ?old ?new content) mode = Inr fs'"
      using a(1,3,5)
      by (auto simp: edit_file_def Let_def arg_string_def[of args "''new_string''"] split: if_splits option.splits sum.splits)
    then have "contains_str content ?old" using count_str_0[of ?old content] by simp
    then obtain x y where xy: "content = x @ ?old @ y" "replace_first ?old ?new content = x @ ?new @ y"
      "count_str ?old content = Suc (count_str ?old y)"
      using replace_first_at[OF e(1), of content ?new] by blast
    then have "\<not> contains_str y ?old" using e(3) count_str_0[OF e(1), of y] by simp
    moreover have "ReadFile fs' r = Inr (x @ ?new @ y)" using WriteFile_ReadFile[OF e(4) a(4) ok] xy(2) by simp
    moreover have "\<forall>q. q \<noteq> r \<longrightarrow> Lstat fs' q = Lstat fs q"
      using WriteFile_changes[OF e(4) a(4) ok] by (auto simp: Lstat_put)
    ultimately show ?thesis using True e(2) xy(1) by auto
  qed
qed

end
