(* ===== verification/FileLock.thy ===== *)
theory FileLock
  imports Prelude
begin

text \<open>
  The lock manager of the file tools (\<^verbatim>\<open>internal/tools/filelock.go\<close>): one mutex per path,
  created on demand, counted and dropped when nobody needs it. Goroutines interleave between
  critical sections, so \<open>Lock\<close> is two steps (the section under the manager's mutex, then the
  acquisition of the path's mutex) and \<open>Unlock\<close> is one. A path's mutex is an object of a store,
  because a goroutine may wait on one the map no longer holds.
\<close>

section \<open>The manager\<close>

record path_lock =
  pl_refcount :: int
  pl_locked :: bool

record lock_manager =
  fl_locks :: "(string, nat) gomap"
  fl_store :: "path_lock list"

definition NewFileLockManager :: lock_manager where
  "NewFileLockManager = \<lparr>fl_locks = [], fl_store = []\<rparr>"

text \<open>The critical section of \<open>Lock\<close>: the object to wait on.\<close>

definition Lock_enter :: "string \<Rightarrow> lock_manager \<Rightarrow> lock_manager \<times> nat" where
  "Lock_enter path m =
     (let (m, i) = (case gm_get (fl_locks m) path of
                      Some i \<Rightarrow> (m, i)
                    | None \<Rightarrow> (m\<lparr>fl_store := fl_store m @ [\<lparr>pl_refcount = 0, pl_locked = False\<rparr>],
                                 fl_locks := gm_put path (length (fl_store m)) (fl_locks m)\<rparr>,
                               length (fl_store m)))
      in (m\<lparr>fl_store := (fl_store m)[i := (fl_store m ! i)\<lparr>pl_refcount := pl_refcount (fl_store m ! i) + 1\<rparr>]\<rparr>, i))"

text \<open>\<open>pl.mu.Lock()\<close> returns only when the mutex is free.\<close>

definition Lock_acquire :: "nat \<Rightarrow> lock_manager \<Rightarrow> lock_manager option" where
  "Lock_acquire i m =
     (if pl_locked (fl_store m ! i) then None
      else Some (m\<lparr>fl_store := (fl_store m)[i := (fl_store m ! i)\<lparr>pl_locked := True\<rparr>]\<rparr>))"

datatype unlock_result = Unlocked | Ignored | FatalUnlock

definition Unlock :: "string \<Rightarrow> lock_manager \<Rightarrow> lock_manager \<times> unlock_result" where
  "Unlock path m =
     (case gm_get (fl_locks m) path of
        None \<Rightarrow> (m, Ignored)
      | Some i \<Rightarrow>
          let pl = fl_store m ! i
          in if pl_refcount pl \<le> 0 then (m, Ignored)
             else
               let m1 = m\<lparr>fl_store := (fl_store m)[i := pl\<lparr>pl_refcount := pl_refcount pl - 1, pl_locked := False\<rparr>],
                          fl_locks := (if pl_refcount pl - 1 = 0 then gm_del path (fl_locks m) else fl_locks m)\<rparr>
               in (m1, if pl_locked pl then Unlocked else FatalUnlock))"

section \<open>Goroutines\<close>

text \<open>A goroutine is idle, has entered \<open>Lock\<close> and waits on an object, or holds its path.\<close>

datatype goroutine = Idle | Waiting string nat | Holding string nat

record lock_system =
  ls_manager :: lock_manager
  ls_threads :: "goroutine list"

inductive lock_step :: "lock_system \<Rightarrow> lock_system \<Rightarrow> bool" where
  enter: "g < length (ls_threads s) \<Longrightarrow> ls_threads s ! g = Idle \<Longrightarrow> Lock_enter path (ls_manager s) = (m, i) \<Longrightarrow>
    lock_step s \<lparr>ls_manager = m, ls_threads = (ls_threads s)[g := Waiting path i]\<rparr>"
| acquire: "g < length (ls_threads s) \<Longrightarrow> ls_threads s ! g = Waiting path i \<Longrightarrow>
    Lock_acquire i (ls_manager s) = Some m \<Longrightarrow>
    lock_step s \<lparr>ls_manager = m, ls_threads = (ls_threads s)[g := Holding path i]\<rparr>"
| release: "g < length (ls_threads s) \<Longrightarrow> ls_threads s ! g = Holding path i \<Longrightarrow>
    Unlock path (ls_manager s) = (m, r) \<Longrightarrow>
    lock_step s \<lparr>ls_manager = m, ls_threads = (ls_threads s)[g := Idle]\<rparr>"

definition lock_init :: "nat \<Rightarrow> lock_system" where
  "lock_init n = \<lparr>ls_manager = NewFileLockManager, ls_threads = replicate n Idle\<rparr>"

inductive lock_reachable :: "nat \<Rightarrow> lock_system \<Rightarrow> bool" for n where
  start: "lock_reachable n (lock_init n)"
| step: "lock_reachable n s \<Longrightarrow> lock_step s s' \<Longrightarrow> lock_reachable n s'"

inductive_cases lock_stepE: "lock_step s s'"

fun on_path :: "goroutine \<Rightarrow> string option" where
  "on_path Idle = None"
| "on_path (Waiting p i) = Some p"
| "on_path (Holding p i) = Some p"

fun at_object :: "goroutine \<Rightarrow> nat option" where
  "at_object Idle = None"
| "at_object (Waiting p i) = Some i"
| "at_object (Holding p i) = Some i"

fun holds :: "string \<Rightarrow> goroutine \<Rightarrow> bool" where
  "holds p (Holding q i) \<longleftrightarrow> p = q"
| "holds p g \<longleftrightarrow> False"

definition users :: "goroutine list \<Rightarrow> string \<Rightarrow> nat" where
  "users gs p = length (filter (\<lambda>g. on_path g = Some p) gs)"

definition holders :: "goroutine list \<Rightarrow> string \<Rightarrow> nat" where
  "holders gs p = length (filter (holds p) gs)"

section \<open>The invariant\<close>

text \<open>
  Every goroutine on a path is at the object the map has for it; the object counts the goroutines
  on the path, is locked exactly when one of them holds it, and no two paths share an object.
\<close>

definition lock_inv :: "lock_system \<Rightarrow> bool" where
  "lock_inv s \<longleftrightarrow>
     (\<forall>g\<in>set (ls_threads s). \<forall>p. on_path g = Some p \<longrightarrow> gm_get (fl_locks (ls_manager s)) p = at_object g) \<and>
     (\<forall>p i. gm_get (fl_locks (ls_manager s)) p = Some i \<longrightarrow>
        i < length (fl_store (ls_manager s)) \<and>
        pl_refcount (fl_store (ls_manager s) ! i) = int (users (ls_threads s) p) \<and> 0 < users (ls_threads s) p \<and>
        holders (ls_threads s) p = (if pl_locked (fl_store (ls_manager s) ! i) then 1 else 0)) \<and>
     (\<forall>p q i. gm_get (fl_locks (ls_manager s)) p = Some i \<longrightarrow> gm_get (fl_locks (ls_manager s)) q = Some i \<longrightarrow> p = q)"

lemma users_update:
  "i < length gs \<Longrightarrow> users (gs[i := g]) p + (if on_path (gs ! i) = Some p then 1 else 0) =
     users gs p + (if on_path g = Some p then 1 else 0)"
  unfolding users_def by (rule length_filter_list_update)

lemma holders_update:
  "i < length gs \<Longrightarrow> holders (gs[i := g]) p + (if holds p (gs ! i) then 1 else 0) =
     holders gs p + (if holds p g then 1 else 0)"
  unfolding holders_def by (rule length_filter_list_update)

lemma users_pos: "0 < users gs p \<longleftrightarrow> (\<exists>g\<in>set gs. on_path g = Some p)"
  by (auto simp: users_def filter_empty_conv)

lemma holds_on_path: "holds p g \<Longrightarrow> on_path g = Some p"
  by (cases g) simp_all

lemma holders_le_users: "holders gs p \<le> users gs p"
  by (induction gs) (auto simp: holders_def users_def dest: holds_on_path)

lemma lock_invD:
  assumes "lock_inv s"
  shows "g \<in> set (ls_threads s) \<Longrightarrow> on_path g = Some p \<Longrightarrow> gm_get (fl_locks (ls_manager s)) p = at_object g"
    and "gm_get (fl_locks (ls_manager s)) p = Some i \<Longrightarrow> i < length (fl_store (ls_manager s))"
    and "gm_get (fl_locks (ls_manager s)) p = Some i \<Longrightarrow>
      pl_refcount (fl_store (ls_manager s) ! i) = int (users (ls_threads s) p) \<and> 0 < users (ls_threads s) p"
    and "gm_get (fl_locks (ls_manager s)) p = Some i \<Longrightarrow>
      holders (ls_threads s) p = (if pl_locked (fl_store (ls_manager s) ! i) then 1 else 0)"
    and "gm_get (fl_locks (ls_manager s)) p = Some i \<Longrightarrow> gm_get (fl_locks (ls_manager s)) q = Some i \<Longrightarrow> p = q"
  using assms unfolding lock_inv_def by blast+

lemma lock_invI:
  assumes "\<And>g p. g \<in> set gs \<Longrightarrow> on_path g = Some p \<Longrightarrow> gm_get locks p = at_object g"
    and "\<And>p i. gm_get locks p = Some i \<Longrightarrow>
      i < length store \<and> pl_refcount (store ! i) = int (users gs p) \<and> 0 < users gs p \<and>
      holders gs p = (if pl_locked (store ! i) then 1 else 0)"
    and "\<And>p q i. gm_get locks p = Some i \<Longrightarrow> gm_get locks q = Some i \<Longrightarrow> p = q"
  shows "lock_inv \<lparr>ls_manager = \<lparr>fl_locks = locks, fl_store = store\<rparr>, ls_threads = gs\<rparr>"
  unfolding lock_inv_def lock_manager.simps lock_system.simps using assms by blast

lemma no_users: "lock_inv s \<Longrightarrow> gm_get (fl_locks (ls_manager s)) p = None \<Longrightarrow> users (ls_threads s) p = 0"
proof (rule ccontr)
  assume inv: "lock_inv s" "gm_get (fl_locks (ls_manager s)) p = None" and "users (ls_threads s) p \<noteq> 0"
  then obtain g where g: "g \<in> set (ls_threads s)" "on_path g = Some p" using users_pos[of "ls_threads s" p] by auto
  then show False using lock_invD(1)[OF inv(1) g] inv(2) by (cases g rule: goroutine.exhaust) simp_all
qed

lemma set_update_cases: "x \<in> set (xs[i := y]) \<Longrightarrow> x = y \<or> x \<in> set xs"
  using set_update_subset_insert[of xs i y] by auto

lemma users_idle: "i < length gs \<Longrightarrow> gs ! i = Idle \<Longrightarrow> users (gs[i := Waiting q k]) p = users gs p + (if p = q then 1 else 0)"
  "i < length gs \<Longrightarrow> gs ! i = Waiting q k \<Longrightarrow> users (gs[i := Holding q k]) p = users gs p"
  "i < length gs \<Longrightarrow> gs ! i = Holding q k \<Longrightarrow> users (gs[i := Idle]) p = users gs p - (if p = q then 1 else 0)"
  using users_update[of i gs "Waiting q k" p] users_update[of i gs "Holding q k" p] users_update[of i gs Idle p]
  by (auto split: if_splits)

lemma holders_idle: "i < length gs \<Longrightarrow> gs ! i = Idle \<Longrightarrow> holders (gs[i := Waiting q k]) p = holders gs p"
  "i < length gs \<Longrightarrow> gs ! i = Waiting q k \<Longrightarrow> holders (gs[i := Holding q k]) p = holders gs p + (if p = q then 1 else 0)"
  "i < length gs \<Longrightarrow> gs ! i = Holding q k \<Longrightarrow> holders (gs[i := Idle]) p = holders gs p - (if p = q then 1 else 0)"
  using holders_update[of i gs "Waiting q k" p] holders_update[of i gs "Holding q k" p] holders_update[of i gs Idle p]
  by (auto split: if_splits)

lemma enter_inv:
  assumes inv: "lock_inv s" and g: "g < length (ls_threads s)" "ls_threads s ! g = Idle"
    and e: "Lock_enter path (ls_manager s) = (m, i)"
  shows "lock_inv \<lparr>ls_manager = m, ls_threads = (ls_threads s)[g := Waiting path i]\<rparr>"
proof -
  note D = lock_invD[OF inv]
  let ?L = "fl_locks (ls_manager s)" and ?S = "fl_store (ls_manager s)" and ?G = "ls_threads s"
  show ?thesis
  proof (cases "gm_get ?L path")
    case (Some j)
    then have m: "m = \<lparr>fl_locks = ?L, fl_store = ?S[i := (?S ! i)\<lparr>pl_refcount := pl_refcount (?S ! i) + 1\<rparr>]\<rparr>" and ij: "i = j"
      using e by (auto simp: Lock_enter_def Let_def)
    show ?thesis unfolding m
    proof (rule lock_invI, goal_cases)
      case (1 h p)
      then show ?case using D(1)[of h p] Some ij by (auto dest!: set_update_cases)
    next
      case (2 p k)
      then show ?case using D(2,3,4)[of p k] D(5)[of p i path] Some ij users_idle(1)[OF g] holders_idle(1)[OF g]
        by (cases "k = i") (auto simp: nth_list_update)
    qed (use D(5) in blast)
  next
    case None
    then have m: "m = \<lparr>fl_locks = gm_put path i ?L, fl_store = ?S @ [\<lparr>pl_refcount = 1, pl_locked = False\<rparr>]\<rparr>" and i: "i = length ?S"
      using e by (auto simp: Lock_enter_def Let_def)
    have none: "users ?G path = 0" "holders ?G path = 0"
      using no_users[OF inv None] holders_le_users[of ?G path] by simp_all
    show ?thesis unfolding m
    proof (rule lock_invI, goal_cases)
      case (1 h p)
      then show ?case using D(1)[of h p] None i by (cases h rule: goroutine.exhaust) (auto dest!: set_update_cases)
    next
      case (2 p k)
      then show ?case using D(2,3,4)[of p k] none i users_idle(1)[OF g] holders_idle(1)[OF g]
        by (auto simp: nth_append split: if_splits)
    next
      case (3 p q k)
      then show ?case using D(2)[of p k] D(2)[of q k] D(5)[of p k q] i by (auto split: if_splits)
    qed
  qed
qed

lemma acquire_inv:
  assumes inv: "lock_inv s" and g: "g < length (ls_threads s)" "ls_threads s ! g = Waiting path i"
    and a: "Lock_acquire i (ls_manager s) = Some m"
  shows "lock_inv \<lparr>ls_manager = m, ls_threads = (ls_threads s)[g := Holding path i]\<rparr>"
proof -
  note D = lock_invD[OF inv]
  let ?L = "fl_locks (ls_manager s)" and ?S = "fl_store (ls_manager s)"
  have at: "gm_get ?L path = Some i" using D(1)[OF nth_mem[OF g(1)]] g(2) by simp
  have m: "m = \<lparr>fl_locks = ?L, fl_store = ?S[i := (?S ! i)\<lparr>pl_locked := True\<rparr>]\<rparr>" and free: "\<not> pl_locked (?S ! i)"
    using a by (auto simp: Lock_acquire_def split: if_splits)
  show ?thesis unfolding m
  proof (rule lock_invI, goal_cases)
    case (1 h p)
    then show ?case using D(1)[of h p] at by (auto dest!: set_update_cases)
  next
    case (2 p k)
    then show ?case using D(2,3,4)[of p k] D(5)[of p i path] at free users_idle(2)[OF g] holders_idle(2)[OF g]
      by (cases "k = i") (auto simp: nth_list_update)
  qed (use D(5) in blast)
qed

text \<open>The holder's \<open>Unlock\<close> finds the mutex it holds.\<close>

lemma unlock_holder:
  assumes inv: "lock_inv s" and g: "g < length (ls_threads s)" "ls_threads s ! g = Holding path i"
  shows "gm_get (fl_locks (ls_manager s)) path = Some i" "0 < pl_refcount (fl_store (ls_manager s) ! i)"
    "pl_locked (fl_store (ls_manager s) ! i)" "snd (Unlock path (ls_manager s)) = Unlocked"
proof -
  note D = lock_invD[OF inv]
  show at: "gm_get (fl_locks (ls_manager s)) path = Some i" using D(1)[OF nth_mem[OF g(1)]] g(2) by simp
  show r: "0 < pl_refcount (fl_store (ls_manager s) ! i)" using D(3)[OF at] by simp
  have "holds path (ls_threads s ! g)" "ls_threads s ! g \<in> set (ls_threads s)" using g(2) nth_mem[OF g(1)] by simp_all
  then have "0 < holders (ls_threads s) path" by (force simp: holders_def filter_empty_conv)
  then show l: "pl_locked (fl_store (ls_manager s) ! i)" using D(4)[OF at] by (simp split: if_splits)
  show "snd (Unlock path (ls_manager s)) = Unlocked" using at r l by (simp add: Unlock_def Let_def)
qed

lemma release_inv:
  assumes inv: "lock_inv s" and g: "g < length (ls_threads s)" "ls_threads s ! g = Holding path i"
    and u: "Unlock path (ls_manager s) = (m, r)"
  shows "lock_inv \<lparr>ls_manager = m, ls_threads = (ls_threads s)[g := Idle]\<rparr>"
proof -
  note D = lock_invD[OF inv]
  let ?L = "fl_locks (ls_manager s)" and ?S = "fl_store (ls_manager s)" and ?G = "ls_threads s"
  note at = unlock_holder[OF inv g]
  have m: "m = \<lparr>fl_locks = (if pl_refcount (?S ! i) = 1 then gm_del path ?L else ?L),
      fl_store = ?S[i := (?S ! i)\<lparr>pl_refcount := pl_refcount (?S ! i) - 1, pl_locked := False\<rparr>]\<rparr>"
    using u at by (auto simp: Unlock_def Let_def split: if_splits)
  have one: "holders ?G path = 1" "pl_refcount (?S ! i) = int (users ?G path)" using D(3,4)[OF at(1)] at(3) by simp_all
  show ?thesis unfolding m
  proof (rule lock_invI, goal_cases)
    case (1 h p)
    then have h: "h \<in> set ?G" by (auto dest: set_update_cases)
    have "p \<noteq> path" if "pl_refcount (?S ! i) = 1"
    proof
      assume p: "p = path"
      have "users (?G[g := Idle]) path = 0" using users_idle(3)[OF g, of path] one(2) that by simp
      then show False using users_pos[of "?G[g := Idle]" path] 1 p by auto
    qed
    then show ?case using D(1)[OF h, of p] 1 by auto
  next
    case (2 p k)
    then have k: "gm_get ?L p = Some k" by (auto split: if_splits)
    show ?case
    proof (cases "p = path")
      case True
      then have "k = i" "pl_refcount (?S ! i) \<noteq> 1" using 2 k at(1) by (auto split: if_splits)
      then show ?thesis using D(2,3)[OF k] one at(2) True users_idle(3)[OF g, of path] holders_idle(3)[OF g, of path]
        by auto
    next
      case False
      then have "k \<noteq> i" using D(5)[OF k, of path] at(1) by auto
      then show ?thesis using D(2,3,4)[OF k] False users_idle(3)[OF g, of p] holders_idle(3)[OF g, of p] by simp
    qed
  next
    case (3 p q k)
    then show ?case using D(5)[of p k q] by (auto split: if_splits)
  qed
qed

lemma lock_reachable_inv: "lock_reachable n s \<Longrightarrow> lock_inv s"
proof (induction rule: lock_reachable.induct)
  case start
  then show ?case unfolding lock_init_def NewFileLockManager_def by (intro lock_invI) auto
next
  case (step s s')
  from step.hyps(2) show ?case
    by (cases rule: lock_stepE) (use enter_inv acquire_inv release_inv step.IH in blast)+
qed

text \<open>
  C16. The path lock excludes: whatever the interleaving of the goroutines, no two of them hold
  the same path, every unlock by a holder finds the mutex locked, so it never is the fatal unlock of
  an unlocked mutex, and the manager keeps an entry exactly for the paths somebody holds or waits
  for, at the object they wait on.\<close>

theorem file_lock_excludes:
  "lock_reachable n s \<Longrightarrow>
     (\<forall>g h p i j. g < length (ls_threads s) \<longrightarrow> h < length (ls_threads s) \<longrightarrow>
        ls_threads s ! g = Holding p i \<longrightarrow> ls_threads s ! h = Holding p j \<longrightarrow> g = h) \<and>
     (\<forall>g p i. g < length (ls_threads s) \<longrightarrow> ls_threads s ! g = Holding p i \<longrightarrow>
        snd (Unlock p (ls_manager s)) = Unlocked) \<and>
     (\<forall>p. gm_get (fl_locks (ls_manager s)) p \<noteq> None \<longleftrightarrow> (\<exists>g\<in>set (ls_threads s). on_path g = Some p))"
proof -
  assume "lock_reachable n s"
  then have inv: "lock_inv s" by (rule lock_reachable_inv)
  note D = lock_invD[OF inv]
  have "g = h" if "g < length (ls_threads s)" "h < length (ls_threads s)"
    "ls_threads s ! g = Holding p i" "ls_threads s ! h = Holding p j" for g h p i j
  proof (rule ccontr)
    assume "g \<noteq> h"
    have at: "gm_get (fl_locks (ls_manager s)) p = Some i" by (rule unlock_holder(1)[OF inv that(1,3)])
    have "holders ((ls_threads s)[g := Idle]) p = 0"
      using holders_idle(3)[OF that(1,3), of p] D(4)[OF at] by (simp split: if_splits)
    moreover have "(ls_threads s)[g := Idle] ! h \<in> set ((ls_threads s)[g := Idle])" using that(2) by (intro nth_mem) simp
    ultimately show False using \<open>g \<noteq> h\<close> that(4) by (force simp: holders_def filter_empty_conv)
  qed
  moreover have "gm_get (fl_locks (ls_manager s)) p \<noteq> None \<longleftrightarrow> (\<exists>g\<in>set (ls_threads s). on_path g = Some p)" for p
    using D(3)[of p] no_users[OF inv, of p] users_pos[of "ls_threads s" p] by (cases "gm_get (fl_locks (ls_manager s)) p") auto
  ultimately show ?thesis using unlock_holder(4)[OF inv] by blast
qed

theorem file_lock_excludes_witness:
  "let s1 = \<lparr>ls_manager = fst (Lock_enter ''a'' NewFileLockManager), ls_threads = [Waiting ''a'' 0, Idle]\<rparr>;
       s2 = \<lparr>ls_manager = the (Lock_acquire 0 (ls_manager s1)), ls_threads = [Holding ''a'' 0, Idle]\<rparr>
   in snd (Unlock ''a'' (ls_manager s2)) = Unlocked"
proof -
  define s1 where "s1 = \<lparr>ls_manager = fst (Lock_enter ''a'' NewFileLockManager), ls_threads = [Waiting ''a'' 0, Idle]\<rparr>"
  define s2 where "s2 = \<lparr>ls_manager = the (Lock_acquire 0 (ls_manager s1)), ls_threads = [Holding ''a'' 0, Idle]\<rparr>"
  have "lock_step (lock_init 2) s1"
    using enter[of 0 "lock_init 2" "''a''"]
    by (simp add: lock_init_def s1_def Lock_enter_def NewFileLockManager_def numeral_2_eq_2)
  moreover have "lock_step s1 s2"
    using acquire[of 0 s1 "''a''" 0]
    by (simp add: s1_def s2_def Lock_enter_def Lock_acquire_def NewFileLockManager_def)
  ultimately have "lock_reachable 2 s2"
    using lock_reachable.start lock_reachable.step by blast
  from file_lock_excludes[OF this] have "snd (Unlock ''a'' (ls_manager s2)) = Unlocked"
    by (auto simp: s2_def)
  then show ?thesis by (simp add: s1_def s2_def)
qed

section \<open>Every goroutine gets its turn\<close>

fun pending :: "goroutine \<Rightarrow> nat" where
  "pending Idle = 0"
| "pending (Waiting p i) = 2"
| "pending (Holding p i) = 1"

definition pending_all :: "goroutine list \<Rightarrow> nat" where
  "pending_all gs = sum_list (map pending gs)"

lemma pending_update:
  "g < length gs \<Longrightarrow> pending x < pending (gs ! g) \<Longrightarrow> pending_all (gs[g := x]) < pending_all gs"
  using sum_map_list_update[of g gs pending x] by (simp add: pending_all_def)

text \<open>While somebody is not idle, the holder of some path can release it or a waiting goroutine can
  take its mutex: nobody waits on a mutex that no holder will free.\<close>

lemma lock_progress:
  assumes "lock_reachable n s" and busy: "x \<in> set (ls_threads s)" "x \<noteq> Idle"
  shows "\<exists>s'. lock_step s s' \<and> pending_all (ls_threads s') < pending_all (ls_threads s)"
proof -
  have inv: "lock_inv s" using assms(1) by (rule lock_reachable_inv)
  note D = lock_invD[OF inv]
  have release: ?thesis if g: "g < length (ls_threads s)" "ls_threads s ! g = Holding p i" for g p i
  proof -
    obtain m r where "Unlock p (ls_manager s) = (m, r)" by fastforce
    from lock_step.release[OF g this] show ?thesis using g pending_update[of g "ls_threads s" Idle] by force
  qed
  from busy(1) obtain g where g: "g < length (ls_threads s)" "ls_threads s ! g = x" by (auto simp: in_set_conv_nth)
  show ?thesis
  proof (cases x)
    case Idle
    then show ?thesis using busy(2) by simp
  next
    case (Holding p i)
    then show ?thesis using release g by simp
  next
    case (Waiting p i)
    have at: "gm_get (fl_locks (ls_manager s)) p = Some i" using D(1)[OF busy(1)] Waiting by simp
    show ?thesis
    proof (cases "pl_locked (fl_store (ls_manager s) ! i)")
      case True
      then have "holders (ls_threads s) p = 1" using D(4)[OF at] by simp
      then have "filter (holds p) (ls_threads s) \<noteq> []" by (auto simp: holders_def)
      then obtain y where y: "y \<in> set (ls_threads s)" "holds p y" by (auto simp: filter_empty_conv)
      then obtain j where "y = Holding p j" by (cases y rule: goroutine.exhaust) auto
      then show ?thesis using y(1) release by (auto simp: in_set_conv_nth)
    next
      case False
      then obtain m where "Lock_acquire i (ls_manager s) = Some m" by (auto simp: Lock_acquire_def)
      from lock_step.acquire[OF g(1) _ this] show ?thesis
        using g Waiting pending_update[of g "ls_threads s" "Holding p i"] by force
    qed
  qed
qed

text \<open>
  Nobody waits for ever and nothing leaks: from every reachable state the goroutines inside the
  lock can all finish, by steps of their own only, and when they have the manager keeps no entry.\<close>

lemma file_lock_drains:
  "lock_reachable n s \<Longrightarrow>
     \<exists>s'. lock_step\<^sup>*\<^sup>* s s' \<and> list_all (\<lambda>g. g = Idle) (ls_threads s') \<and> fl_locks (ls_manager s') = []"
proof (induction "pending_all (ls_threads s)" arbitrary: s rule: less_induct)
  case less
  show ?case
  proof (cases "list_all (\<lambda>g. g = Idle) (ls_threads s)")
    case True
    then have "users (ls_threads s) p = 0" for p by (auto simp: users_def filter_empty_conv list_all_iff)
    then have "gm_get (fl_locks (ls_manager s)) p = None" for p
      using lock_invD(3)[OF lock_reachable_inv[OF less.prems], of p] by (cases "gm_get (fl_locks (ls_manager s)) p") auto
    then have "fl_locks (ls_manager s) = []"
      by (metis gm_get_None_iff gm_keys_def last_in_set list.map_disc_iff)
    with True show ?thesis by blast
  next
    case False
    then obtain s' where s': "lock_step s s'" "pending_all (ls_threads s') < pending_all (ls_threads s)"
      using lock_progress[OF less.prems] by (auto simp: list_all_iff)
    then show ?thesis using less.hyps[OF s'(2) lock_reachable.step[OF less.prems s'(1)]]
      by (meson converse_rtranclp_into_rtranclp)
  qed
qed

end
