(* ===== verification/SwarmOutput.thy ===== *)
theory SwarmOutput
  imports Interfaces
begin

text \<open>
  The output buffer of a swarm agent (\<^verbatim>\<open>internal/swarm/output_ring.go\<close>), a ring of bytes that
  refines the bounded history of the interfaces, and the merging of results
  (\<^verbatim>\<open>internal/swarm/merge.go\<close>).
\<close>

section \<open>The ring\<close>

definition outputRingCap :: nat where
  "outputRingCap = 512 * 1024"

record output_ring =
  or_data :: string
  or_head :: nat
  or_size :: nat

definition newOutputRingWithSize :: "int \<Rightarrow> output_ring" where
  "newOutputRingWithSize n =
     (let n' = (if n \<le> 0 then outputRingCap else nat n)
      in \<lparr>or_data = replicate n' (CHR 0x00), or_head = 0, or_size = 0\<rparr>)"

definition ring_put :: "char \<Rightarrow> output_ring \<Rightarrow> output_ring" where
  "ring_put c r =
     (let cap = length (or_data r)
      in \<lparr>or_data = (or_data r)[or_head r := c], or_head = (or_head r + 1) mod cap,
          or_size = (if or_size r < cap then or_size r + 1 else or_size r)\<rparr>)"

definition ring_write :: "string \<Rightarrow> output_ring \<Rightarrow> output_ring" where
  "ring_write s r = fold ring_put s r"

definition ring_string :: "output_ring \<Rightarrow> string" where
  "ring_string r =
     (if or_size r = 0 then []
      else if or_size r < length (or_data r) then take (or_size r) (or_data r)
      else drop (or_head r) (or_data r) @ take (or_head r) (or_data r))"

definition ring_reset :: "output_ring \<Rightarrow> output_ring" where
  "ring_reset r = r\<lparr>or_head := 0, or_size := 0\<rparr>"

definition ring_ok :: "output_ring \<Rightarrow> bool" where
  "ring_ok r \<longleftrightarrow> or_head r < length (or_data r) \<and> or_size r \<le> length (or_data r) \<and>
     (or_size r < length (or_data r) \<longrightarrow> or_head r = or_size r)"

lemma ring_ok_new [simp]: "ring_ok (newOutputRingWithSize n)"
  by (simp add: ring_ok_def newOutputRingWithSize_def Let_def outputRingCap_def)

lemma ring_cap_new [simp]: "length (or_data (newOutputRingWithSize n)) = (if n \<le> 0 then outputRingCap else nat n)"
  by (simp add: newOutputRingWithSize_def Let_def)

lemma ring_ok_reset [simp]: "ring_ok r \<Longrightarrow> ring_ok (ring_reset r)"
  by (auto simp: ring_ok_def ring_reset_def)

lemma ring_string_new [simp]: "ring_string (newOutputRingWithSize n) = []"
  by (simp add: ring_string_def newOutputRingWithSize_def Let_def)

lemma ring_string_reset [simp]: "ring_string (ring_reset r) = []"
  by (simp add: ring_string_def ring_reset_def)

lemma ring_cap_put [simp]: "length (or_data (ring_put c r)) = length (or_data r)"
  by (simp add: ring_put_def Let_def)

lemma ring_cap_reset [simp]: "length (or_data (ring_reset r)) = length (or_data r)"
  by (simp add: ring_reset_def)

lemma ring_ok_put: "ring_ok r \<Longrightarrow> ring_ok (ring_put c r)"
  by (auto simp: ring_ok_def ring_put_def Let_def mod_Suc)

lemma ring_string_put:
  assumes "ring_ok r"
  shows "ring_string (ring_put c r) = last_n (length (or_data r)) (ring_string r @ [c])"
proof -
  obtain d h z where r: "r = \<lparr>or_data = d, or_head = h, or_size = z\<rparr>" by (cases r)
  from assms have hz: "h < length d" "z \<le> length d" "z < length d \<Longrightarrow> h = z" by (auto simp: ring_ok_def r)
  show ?thesis
  proof (cases "z < length d")
    case True
    then have h: "h = z" using hz(3) by simp
    have old: "ring_string r = take z d" using True by (simp add: ring_string_def r)
    have "ring_string (ring_put c r) = take (Suc z) (d[z := c])"
      using True by (cases "Suc z = length d") (simp_all add: ring_string_def ring_put_def Let_def r h)
    also have "\<dots> = take z d @ [c]" using True by (simp add: take_Suc_conv_app_nth)
    also have "\<dots> = last_n (length d) (ring_string r @ [c])" using True by (simp add: old last_n_id)
    finally show ?thesis by (simp add: r)
  next
    case False
    then have z: "z = length d" using hz(2) by simp
    have old: "ring_string r = drop h d @ take h d" using hz(1) by (simp add: ring_string_def r z)
    have d: "d = take h d @ d ! h # drop (Suc h) d" using hz(1) by (simp add: id_take_nth_drop)
    have new: "ring_string (ring_put c r) = drop (Suc h) d @ take h d @ [c]"
    proof (cases "Suc h = length d")
      case True
      then have "d[h := c] = take h d @ [c]" using hz(1) by (simp add: upd_conv_take_nth_drop)
      moreover have "d \<noteq> []" using hz(1) by auto
      ultimately show ?thesis using True by (simp add: ring_string_def ring_put_def Let_def r z)
    next
      case False
      then have "Suc h < length d" using hz(1) by simp
      then have "take (Suc h) (d[h := c]) = take h d @ [c]" by (simp add: take_Suc_conv_app_nth)
      moreover have "d \<noteq> []" using hz(1) by auto
      ultimately show ?thesis using False hz(1)
        by (simp add: ring_string_def ring_put_def Let_def r z mod_less)
    qed
    have len: "length (ring_string r @ [c]) - length d = 1" using hz(1) by (simp add: old)
    have "ring_string r @ [c] = d ! h # drop (Suc h) d @ take h d @ [c]"
      using hz(1) by (simp add: old Cons_nth_drop_Suc[symmetric])
    then have "last_n (length d) (ring_string r @ [c]) = drop (Suc h) d @ take h d @ [c]"
      unfolding last_n_def len by simp
    then show ?thesis using new by (simp add: r)
  qed
qed

interpretation ring: bounded_log "\<lambda>r. length (or_data r)" ring_put ring_string ring_ok
proof unfold_locales
  fix r :: output_ring
  assume ok: "ring_ok r"
  then show "0 < length (or_data r)" by (auto simp: ring_ok_def)
  show "length (or_data (ring_put c r)) = length (or_data r)" for c by simp
  show "ring_ok (ring_put c r)" for c using ok by (rule ring_ok_put)
  show "ring_string (ring_put c r) = last_n (length (or_data r)) (ring_string r @ [c])" for c
    using ok by (rule ring_string_put)
qed

lemma ring_string_length: "ring_ok r \<Longrightarrow> length (ring_string r) \<le> length (or_data r)"
  by (simp add: ring_string_def ring_ok_def)

lemma ring_ok_write: "ring_ok r \<Longrightarrow> ring_ok (ring_write s r)"
  unfolding ring_write_def by (rule ring.ok_fold)

lemma ring_cap_write [simp]: "ring_ok r \<Longrightarrow> length (or_data (ring_write s r)) = length (or_data r)"
  unfolding ring_write_def by (rule ring.cap_fold)

lemma ring_string_write:
  "ring_ok r \<Longrightarrow> ring_string (ring_write s r) = last_n (length (or_data r)) (ring_string r @ s)"
  unfolding ring_write_def by (rule ring.view_fold) (simp_all add: ring_string_length)

text \<open>
  The output buffer is what it promises: after any writes, in pieces of any size, a ring of
  capacity n reads back the last n bytes written, in the order they were written.\<close>

lemma ring_write_string:
  "ring_string (fold ring_write ss (ring_reset (newOutputRingWithSize n))) =
     last_n (if n \<le> 0 then outputRingCap else nat n) (concat ss)"
proof -
  define r where "r = ring_reset (newOutputRingWithSize n)"
  have r: "ring_ok r" "ring_string r = []" "length (or_data r) = (if n \<le> 0 then outputRingCap else nat n)"
    by (simp_all add: r_def)
  have "fold ring_write ss r = ring_write (concat ss) r"
    by (induction ss arbitrary: r) (simp_all add: ring_write_def)
  then show ?thesis using ring_string_write[OF r(1)] r by (simp add: r_def[symmetric])
qed

section \<open>Merging results\<close>

text \<open>An error of a task: an ordinary one, or a recovered panic (\<^verbatim>\<open>panicError\<close>).\<close>

datatype task_err = TaskErr string | PanicErr string

record swarm_result =
  sr_TaskID :: string
  sr_AgentID :: string
  sr_AgentName :: string
  sr_Output :: string
  sr_Err :: "task_err option"
  sr_Duration :: duration
  sr_CostUSD :: string
  sr_Model :: string

datatype merge_strategy = MergeConcatenate | MergeStructured | MergeLLMSummarize | MergeOther int

datatype merge_error = MergeFnRequired | UnknownStrategy int | MergeFnFailed string

text \<open>\<open>secs\<close> and \<open>usd\<close> stand for the floating-point renderings \<^verbatim>\<open>%.3f\<close> and \<^verbatim>\<open>%.4f\<close>.\<close>

definition MergeResults ::
  "(int \<Rightarrow> string) \<Rightarrow> (string \<Rightarrow> string) \<Rightarrow> swarm_result list \<Rightarrow> merge_strategy \<Rightarrow> string \<Rightarrow>
     (swarm_result list \<Rightarrow> merge_error + string) option \<Rightarrow> merge_error + string" where
  "MergeResults secs usd results strategy separator mergeFn =
     (case strategy of
        MergeConcatenate \<Rightarrow> Inr (join_with separator (filter (\<lambda>s. s \<noteq> []) (map sr_Output results)))
      | MergeStructured \<Rightarrow>
          Inr (concat (map (\<lambda>r. ''=== '' @ sr_AgentName r @ '' ('' @ secs (sr_Duration r) @ ''s, $'' @
                 usd (sr_CostUSD r) @ '') ==='' @ [CHR 0x0A] @ sr_Output r @ [CHR 0x0A]) results))
      | MergeLLMSummarize \<Rightarrow> (case mergeFn of None \<Rightarrow> Inl MergeFnRequired | Some f \<Rightarrow> f results)
      | MergeOther n \<Rightarrow> Inl (UnknownStrategy n))"

end
