(* ===== verification/SwarmRun.thy ===== *)
theory SwarmRun
  imports SwarmOutput
begin

text \<open>
  The swarm (\<^verbatim>\<open>internal/swarm/swarm.go\<close>): tasks run in parallel up to a limit, each with retries,
  statuses and an output buffer, and an event channel that drops what does not fit. A run is a
  step relation in which the goroutines of the tasks interleave; what a task's function emits and
  returns, whether a context is done when it is asked, and the clock are choices of the
  environment.
\<close>

section \<open>Types\<close>

datatype agent_status = StatusQueued | StatusThinking | StatusTooling | StatusDone | StatusError | StatusCancelled

datatype event_type =
  EventToken | EventToolStart | EventToolDone | EventStatusChange | EventComplete | EventError
| EventSwarmReady | EventAgentPanic

datatype payload = PNone | PText string | PStatus agent_status | PErr task_err

record swarm_event =
  ev_AgentID :: string
  ev_AgentName :: string
  ev_Type :: event_type
  ev_Payload :: payload
  ev_At :: gotime

record swarm_task =
  sk_ID :: string
  sk_Name :: string
  sk_MaxRetries :: int
  sk_RetryDelay :: duration
  sk_IsRetryable :: "(task_err \<Rightarrow> bool) option"

record swarm_agent =
  ag_ID :: string
  ag_Name :: string
  ag_Status :: agent_status
  ag_Err :: "task_err option"
  ag_output :: output_ring

record swarm_config =
  sc_MaxParallel :: int
  sc_EventBufferSize :: int
  sc_OutputBufferSize :: int

text \<open>\<open>sw_sem\<close> is the number of tokens in the semaphore channel.\<close>

record swarm =
  sw_maxParallel :: nat
  sw_outputBufSize :: int
  sw_sem :: nat
  sw_agents :: "(string, swarm_agent) gomap"
  sw_events :: "swarm_event list"
  sw_eventCap :: nat
  sw_closed :: bool
  sw_dropped :: nat
  sw_retries :: nat

definition defaultMaxConcurrency :: nat where
  "defaultMaxConcurrency = 16"

definition defaultEventBufferSize :: nat where
  "defaultEventBufferSize = 512"

definition NewSwarmWithConfig :: "swarm_config \<Rightarrow> swarm" where
  "NewSwarmWithConfig cfg =
     \<lparr>sw_maxParallel = (if sc_MaxParallel cfg \<le> 0 then defaultMaxConcurrency else nat (sc_MaxParallel cfg)),
      sw_outputBufSize = sc_OutputBufferSize cfg, sw_sem = 0, sw_agents = [], sw_events = [],
      sw_eventCap = (if sc_EventBufferSize cfg \<le> 0 then defaultEventBufferSize else nat (sc_EventBufferSize cfg)),
      sw_closed = False, sw_dropped = 0, sw_retries = 0\<rparr>"

section \<open>Events and statuses\<close>

definition swarm_emit :: "swarm_event \<Rightarrow> swarm \<Rightarrow> swarm" where
  "swarm_emit ev s =
     (if sw_closed s then s
      else if length (sw_events s) < sw_eventCap s then s\<lparr>sw_events := sw_events s @ [ev]\<rparr>
      else s\<lparr>sw_dropped := sw_dropped s + 1\<rparr>)"

definition mod_agent :: "string \<Rightarrow> (swarm_agent \<Rightarrow> swarm_agent) \<Rightarrow> swarm \<Rightarrow> swarm" where
  "mod_agent i f s = s\<lparr>sw_agents := gm_mod i f (sw_agents s)\<rparr>"

definition swarm_setStatus :: "string \<Rightarrow> agent_status \<Rightarrow> swarm \<Rightarrow> swarm" where
  "swarm_setStatus i st s = mod_agent i (\<lambda>a. a\<lparr>ag_Status := st\<rparr>) s"

definition task_event :: "swarm_task \<Rightarrow> event_type \<Rightarrow> payload \<Rightarrow> gotime \<Rightarrow> swarm_event" where
  "task_event t ty p now = \<lparr>ev_AgentID = sk_ID t, ev_AgentName = sk_Name t, ev_Type = ty, ev_Payload = p, ev_At = now\<rparr>"

text \<open>The setup of \<open>Run\<close>, before the goroutines start.\<close>

definition swarm_setup :: "swarm_task list \<Rightarrow> swarm \<Rightarrow> swarm" where
  "swarm_setup tasks s =
     s\<lparr>sw_agents := fold (\<lambda>t. gm_put (sk_ID t)
         \<lparr>ag_ID = sk_ID t, ag_Name = sk_Name t, ag_Status = StatusQueued, ag_Err = None,
          ag_output = newOutputRingWithSize (sw_outputBufSize s)\<rparr>) tasks (sw_agents s)\<rparr>"

section \<open>The steps of \<open>runTask\<close>\<close>

text \<open>
  Where the goroutine of a task is: waiting for the semaphore, at the head of the retry loop, in
  the task's function, past the loop, or finished. The attempt and the last error are its
  variables; the text is what the current attempt has written, and the count the retries it has
  added to the total, both for the specification only.
\<close>

datatype phase =
  TQueued
| TReady nat "task_err option" string
| TInRun nat string
| TFinal nat "task_err option" string
| TFinished nat "task_err option" agent_status string
| TCrashed nat

fun crashed :: "phase \<Rightarrow> bool" where
  "crashed (TCrashed n) = True"
| "crashed p = False"

definition task_start :: "swarm_task \<Rightarrow> gotime \<Rightarrow> swarm \<Rightarrow> swarm" where
  "task_start t now s =
     swarm_emit (task_event t EventStatusChange (PStatus StatusThinking) now)
       (swarm_setStatus (sk_ID t) StatusThinking (s\<lparr>sw_sem := sw_sem s + 1\<rparr>))"

text \<open>The context is done before the semaphore has room.\<close>

definition task_cancelled :: "swarm_task \<Rightarrow> gotime \<Rightarrow> swarm \<Rightarrow> swarm" where
  "task_cancelled t now s =
     swarm_emit (task_event t EventStatusChange (PStatus StatusCancelled) now)
       (swarm_setStatus (sk_ID t) StatusCancelled s)"

definition maxAttempts :: "swarm_task \<Rightarrow> int" where
  "maxAttempts t = 1 + sk_MaxRetries t"

text \<open>\<open>rand.Int63n(RetryDelay / 2)\<close> panics for an argument that is not positive, and nothing
  recovers there.\<close>

definition begin_attempt :: "swarm_task \<Rightarrow> bool \<Rightarrow> nat \<Rightarrow> task_err option \<Rightarrow> string \<Rightarrow> swarm \<Rightarrow> swarm \<times> phase" where
  "begin_attempt t ctx_done k err out s =
     (if int k \<ge> maxAttempts t then (s, TFinal (k - 1) err out)
      else if k = 0 then (s, TInRun 0 out)
      else
        let s = s\<lparr>sw_retries := sw_retries s + 1\<rparr>
        in if sk_RetryDelay t > 0 \<and> sk_RetryDelay t div 2 \<le> 0 then (s, TCrashed k)
           else if ctx_done then (s, TFinal k err out)
           else (mod_agent (sk_ID t) (\<lambda>a. a\<lparr>ag_output := ring_reset (ag_output a)\<rparr>) s, TInRun k []))"

text \<open>The \<open>emit\<close> handed to the task's function.\<close>

definition token_of :: "swarm_event \<Rightarrow> string" where
  "token_of ev = (if ev_Type ev = EventToken then (case ev_Payload ev of PText p \<Rightarrow> p | _ \<Rightarrow> []) else [])"

definition task_emit :: "swarm_task \<Rightarrow> gotime \<Rightarrow> swarm_event \<Rightarrow> swarm \<Rightarrow> swarm" where
  "task_emit t now ev s =
     (let ev = ev\<lparr>ev_AgentID := (if ev_AgentID ev = [] then sk_ID t else ev_AgentID ev),
                  ev_AgentName := (if ev_AgentName ev = [] then sk_Name t else ev_AgentName ev),
                  ev_At := (if ev_At ev = t_zero then now else ev_At ev)\<rparr>
      in swarm_emit ev (mod_agent (sk_ID t) (\<lambda>a. a\<lparr>ag_output := ring_write (token_of ev) (ag_output a)\<rparr>) s))"

text \<open>The task's function returns, with an error or not, or panics.\<close>

definition end_attempt ::
  "swarm_task \<Rightarrow> gotime \<Rightarrow> bool \<Rightarrow> nat \<Rightarrow> task_err option \<Rightarrow> string \<Rightarrow> swarm \<Rightarrow> swarm \<times> phase" where
  "end_attempt t now ctx_done k err out s =
     (let s = (case err of
                 Some (PanicErr v) \<Rightarrow> swarm_emit (task_event t EventAgentPanic (PText (''panic recovered: '' @ v)) now) s
               | _ \<Rightarrow> s)
      in (s, case err of
               None \<Rightarrow> TFinal k None out
             | Some e \<Rightarrow>
                 if ctx_done then TFinal k (Some e) out
                 else if int k < maxAttempts t - 1 \<and> (case sk_IsRetryable t of None \<Rightarrow> False | Some f \<Rightarrow> \<not> f e)
                      then TFinal k (Some e) out
                      else TReady (k + 1) (Some e) out))"

definition task_status :: "task_err option \<Rightarrow> bool \<Rightarrow> agent_status" where
  "task_status err ctx_done = (if err = None then StatusDone else if ctx_done then StatusCancelled else StatusError)"

definition task_finish :: "swarm_task \<Rightarrow> gotime \<Rightarrow> bool \<Rightarrow> task_err option \<Rightarrow> swarm \<Rightarrow> swarm" where
  "task_finish t now ctx_done err s =
     (let st = task_status err ctx_done;
          s = swarm_setStatus (sk_ID t) st s;
          s = (if err = None then s else mod_agent (sk_ID t) (\<lambda>a. a\<lparr>ag_Err := err\<rparr>) s);
          s = swarm_emit (task_event t EventStatusChange (PStatus st) now) s;
          s = swarm_emit (case err of None \<Rightarrow> task_event t EventComplete PNone now
                          | Some e \<Rightarrow> task_event t EventError (PErr e) now) s
      in s\<lparr>sw_sem := sw_sem s - 1\<rparr>)"

section \<open>A run\<close>

record swarm_run =
  rn_swarm :: swarm
  rn_phases :: "phase list"

text \<open>\<open>recv\<close> is the consumer of the event channel. A panic outside the task's function ends the
  process, so nothing steps after it.\<close>

inductive swarm_step :: "swarm_task list \<Rightarrow> swarm_run \<Rightarrow> swarm_run \<Rightarrow> bool" for tasks where
  start: "\<not> list_ex crashed (rn_phases r) \<Longrightarrow> i < length tasks \<Longrightarrow> rn_phases r ! i = TQueued \<Longrightarrow>
    sw_sem (rn_swarm r) < sw_maxParallel (rn_swarm r) \<Longrightarrow>
    swarm_step tasks r \<lparr>rn_swarm = task_start (tasks ! i) now (rn_swarm r), rn_phases = (rn_phases r)[i := TReady 0 None []]\<rparr>"
| cancelled: "\<not> list_ex crashed (rn_phases r) \<Longrightarrow> i < length tasks \<Longrightarrow> rn_phases r ! i = TQueued \<Longrightarrow>
    swarm_step tasks r \<lparr>rn_swarm = task_cancelled (tasks ! i) now (rn_swarm r),
      rn_phases = (rn_phases r)[i := TFinished 0 None StatusCancelled []]\<rparr>"
| attempt: "\<not> list_ex crashed (rn_phases r) \<Longrightarrow> i < length tasks \<Longrightarrow> rn_phases r ! i = TReady k err out \<Longrightarrow>
    begin_attempt (tasks ! i) ctx_done k err out (rn_swarm r) = (s, p) \<Longrightarrow>
    swarm_step tasks r \<lparr>rn_swarm = s, rn_phases = (rn_phases r)[i := p]\<rparr>"
| emit: "\<not> list_ex crashed (rn_phases r) \<Longrightarrow> i < length tasks \<Longrightarrow> rn_phases r ! i = TInRun k out \<Longrightarrow>
    swarm_step tasks r \<lparr>rn_swarm = task_emit (tasks ! i) now ev (rn_swarm r),
      rn_phases = (rn_phases r)[i := TInRun k (out @ token_of ev)]\<rparr>"
| returns: "\<not> list_ex crashed (rn_phases r) \<Longrightarrow> i < length tasks \<Longrightarrow> rn_phases r ! i = TInRun k out \<Longrightarrow>
    end_attempt (tasks ! i) now ctx_done k err out (rn_swarm r) = (s, p) \<Longrightarrow>
    swarm_step tasks r \<lparr>rn_swarm = s, rn_phases = (rn_phases r)[i := p]\<rparr>"
| finish: "\<not> list_ex crashed (rn_phases r) \<Longrightarrow> i < length tasks \<Longrightarrow> rn_phases r ! i = TFinal n err out \<Longrightarrow>
    swarm_step tasks r \<lparr>rn_swarm = task_finish (tasks ! i) now ctx_done err (rn_swarm r),
      rn_phases = (rn_phases r)[i := TFinished n err (task_status err ctx_done) out]\<rparr>"
| recv: "sw_events (rn_swarm r) = ev # evs \<Longrightarrow>
    swarm_step tasks r (r\<lparr>rn_swarm := (rn_swarm r)\<lparr>sw_events := evs\<rparr>\<rparr>)"

inductive swarm_reachable :: "swarm_config \<Rightarrow> swarm_task list \<Rightarrow> swarm_run \<Rightarrow> bool" for cfg tasks where
  init: "swarm_reachable cfg tasks
    \<lparr>rn_swarm = swarm_setup tasks (NewSwarmWithConfig cfg), rn_phases = replicate (length tasks) TQueued\<rparr>"
| step: "swarm_reachable cfg tasks r \<Longrightarrow> swarm_step tasks r r' \<Longrightarrow> swarm_reachable cfg tasks r'"

text \<open>What \<open>Run\<close> returns when all goroutines are done: the results in the order of the tasks, the
  errors, and the fatal one.\<close>

definition task_result :: "swarm \<Rightarrow> (string \<Rightarrow> duration) \<Rightarrow> swarm_task \<Rightarrow> swarm_result" where
  "task_result s dur t =
     (case gm_get (sw_agents s) (sk_ID t) of
        None \<Rightarrow> \<lparr>sr_TaskID = [], sr_AgentID = [], sr_AgentName = [], sr_Output = [], sr_Err = None,
                 sr_Duration = 0, sr_CostUSD = [], sr_Model = []\<rparr>
      | Some ag \<Rightarrow> \<lparr>sr_TaskID = sk_ID t, sr_AgentID = sk_ID t, sr_AgentName = ag_Name ag,
                 sr_Output = ring_string (ag_output ag), sr_Err = ag_Err ag,
                 sr_Duration = dur (sk_ID t), sr_CostUSD = [], sr_Model = []\<rparr>)"

definition task_errors :: "swarm \<Rightarrow> swarm_task list \<Rightarrow> (string \<times> string \<times> task_err) list" where
  "task_errors s tasks =
     concat (map (\<lambda>t. case gm_get (sw_agents s) (sk_ID t) of
                        None \<Rightarrow> []
                      | Some ag \<Rightarrow>
                          (case ag_Err ag of
                             Some e \<Rightarrow> if ag_Status ag = StatusError then [(sk_ID t, ag_Name ag, e)] else []
                           | None \<Rightarrow> [])) tasks)"

definition is_panic :: "task_err \<Rightarrow> bool" where
  "is_panic e = (case e of PanicErr v \<Rightarrow> True | TaskErr m \<Rightarrow> False)"

definition fatal_error :: "(string \<times> string \<times> task_err) list \<Rightarrow> (string \<times> string \<times> task_err) option" where
  "fatal_error es = find (\<lambda>(i, n, e). \<not> is_panic e) es"

definition Run_result ::
  "swarm \<Rightarrow> (string \<Rightarrow> duration) \<Rightarrow> swarm_task list \<Rightarrow>
     swarm_result list \<times> (string \<times> string \<times> task_err) list \<times> nat \<times> nat \<times> (string \<times> string \<times> task_err) option" where
  "Run_result s dur tasks =
     (map (task_result s dur) tasks, task_errors s tasks, sw_retries s, sw_dropped s, fatal_error (task_errors s tasks))"

section \<open>The invariant of a run\<close>

fun active :: "phase \<Rightarrow> nat" where
  "active TQueued = 0"
| "active (TFinished n err st out) = 0"
| "active p = 1"

fun retries_of :: "phase \<Rightarrow> nat" where
  "retries_of (TReady k err out) = k - 1"
| "retries_of (TInRun k out) = k"
| "retries_of (TFinal n err out) = n"
| "retries_of (TFinished n err st out) = n"
| "retries_of (TCrashed n) = n"
| "retries_of TQueued = 0"

text \<open>The attempts of a task stay below their limit.\<close>

fun attempts_ok :: "swarm_task \<Rightarrow> phase \<Rightarrow> bool" where
  "attempts_ok t (TReady k err out) \<longleftrightarrow> k = 0 \<or> int k \<le> maxAttempts t"
| "attempts_ok t (TInRun k out) \<longleftrightarrow> int k < maxAttempts t"
| "attempts_ok t (TFinal n err out) \<longleftrightarrow> n = 0 \<or> int n \<le> sk_MaxRetries t"
| "attempts_ok t (TFinished n err st out) \<longleftrightarrow> n = 0 \<or> int n \<le> sk_MaxRetries t"
| "attempts_ok t TQueued \<longleftrightarrow> True"
| "attempts_ok t (TCrashed n) \<longleftrightarrow> int n \<le> sk_MaxRetries t \<and> sk_RetryDelay t = 1 \<and> 0 < sk_MaxRetries t"

definition final_ok :: "task_err option \<Rightarrow> agent_status \<Rightarrow> bool" where
  "final_ok err st \<longleftrightarrow> st = StatusDone \<and> err = None \<or> st = StatusCancelled \<or> st = StatusError \<and> err \<noteq> None"

text \<open>What the agent of a task shows of its phase. \<open>cap\<close> is the capacity of its output.\<close>

fun agent_shows :: "nat \<Rightarrow> phase \<Rightarrow> swarm_agent \<Rightarrow> bool" where
  "agent_shows cap TQueued a \<longleftrightarrow> ag_Status a = StatusQueued \<and> ag_Err a = None \<and> ring_string (ag_output a) = []"
| "agent_shows cap (TReady k err out) a \<longleftrightarrow>
     ag_Status a = StatusThinking \<and> ag_Err a = None \<and> ring_string (ag_output a) = last_n cap out"
| "agent_shows cap (TInRun k out) a \<longleftrightarrow>
     ag_Status a = StatusThinking \<and> ag_Err a = None \<and> ring_string (ag_output a) = last_n cap out"
| "agent_shows cap (TFinal n err out) a \<longleftrightarrow>
     ag_Status a = StatusThinking \<and> ag_Err a = None \<and> ring_string (ag_output a) = last_n cap out"
| "agent_shows cap (TFinished n err st out) a \<longleftrightarrow>
     ag_Status a = st \<and> ag_Err a = err \<and> ring_string (ag_output a) = last_n cap out \<and> final_ok err st"
| "agent_shows cap (TCrashed n) a \<longleftrightarrow> True"

definition outputCap :: "swarm \<Rightarrow> nat" where
  "outputCap s = (if sw_outputBufSize s \<le> 0 then outputRingCap else nat (sw_outputBufSize s))"

definition agent_ok :: "nat \<Rightarrow> swarm_task \<Rightarrow> phase \<Rightarrow> swarm_agent option \<Rightarrow> bool" where
  "agent_ok cap t p ag = (case ag of None \<Rightarrow> False
     | Some a \<Rightarrow> ag_Name a = sk_Name t \<and> ring_ok (ag_output a) \<and> length (or_data (ag_output a)) = cap \<and> agent_shows cap p a)"

definition run_inv :: "swarm_task list \<Rightarrow> swarm \<Rightarrow> phase list \<Rightarrow> bool" where
  "run_inv tasks s ps \<longleftrightarrow>
     length ps = length tasks \<and>
     sw_sem s = sum_list (map active ps) \<and> sw_sem s \<le> sw_maxParallel s \<and>
     sw_retries s = sum_list (map retries_of ps) \<and>
     length (sw_events s) \<le> sw_eventCap s \<and>
     (\<forall>i<length tasks. attempts_ok (tasks ! i) (ps ! i) \<and>
        agent_ok (outputCap s) (tasks ! i) (ps ! i) (gm_get (sw_agents s) (sk_ID (tasks ! i))))"

subsection \<open>What the operations keep\<close>

text \<open>The constants of a swarm, and the agents of other tasks.\<close>

definition same_config :: "swarm \<Rightarrow> swarm \<Rightarrow> bool" where
  "same_config s s' \<longleftrightarrow> sw_maxParallel s' = sw_maxParallel s \<and> sw_outputBufSize s' = sw_outputBufSize s \<and>
     sw_eventCap s' = sw_eventCap s \<and> sw_closed s' = sw_closed s"

lemma swarm_emit_simps [simp]:
  "sw_agents (swarm_emit ev s) = sw_agents s" "sw_sem (swarm_emit ev s) = sw_sem s"
  "sw_retries (swarm_emit ev s) = sw_retries s" "same_config s' (swarm_emit ev s) = same_config s' s"
  "n = sw_eventCap s \<Longrightarrow> length (sw_events s) \<le> n \<Longrightarrow> length (sw_events (swarm_emit ev s)) \<le> n"
  by (auto simp: swarm_emit_def same_config_def)

lemma mod_agent_simps [simp]:
  "gm_get (sw_agents (mod_agent i f s)) j = (if j = i then map_option f (gm_get (sw_agents s) i) else gm_get (sw_agents s) j)"
  "sw_sem (mod_agent i f s) = sw_sem s" "sw_retries (mod_agent i f s) = sw_retries s"
  "sw_events (mod_agent i f s) = sw_events s" "same_config s' (mod_agent i f s) = same_config s' s"
  "sw_eventCap (mod_agent i f s) = sw_eventCap s"
  by (simp_all add: mod_agent_def same_config_def)

lemma swarm_emit_eventCap [simp]: "sw_eventCap (swarm_emit ev s) = sw_eventCap s"
  by (simp add: swarm_emit_def)

lemma same_config_upd [simp]:
  "same_config s (s\<lparr>sw_sem := n\<rparr>)" "same_config s (s\<lparr>sw_retries := n\<rparr>)" "same_config s s"
  "same_config s' (s\<lparr>sw_sem := n\<rparr>) = same_config s' s" "same_config s' (s\<lparr>sw_retries := n\<rparr>) = same_config s' s"
  by (simp_all add: same_config_def)

text \<open>A step of one task keeps the invariant when it changes only that task's agent, keeps the
  books of the semaphore and of the retries, and leaves its own agent as its new phase says.\<close>

lemma run_inv_step:
  assumes inv: "run_inv tasks s ps" and ids: "distinct (map sk_ID tasks)" and i: "i < length tasks"
    and cfg: "same_config s s'"
    and others: "\<And>j. j \<noteq> sk_ID (tasks ! i) \<Longrightarrow> gm_get (sw_agents s') j = gm_get (sw_agents s) j"
    and own: "attempts_ok (tasks ! i) p" "agent_ok (outputCap s) (tasks ! i) p (gm_get (sw_agents s') (sk_ID (tasks ! i)))"
    and sem: "sw_sem s' + active (ps ! i) = sw_sem s + active p" "sw_sem s' \<le> sw_maxParallel s"
    and retries: "sw_retries s' + retries_of (ps ! i) = sw_retries s + retries_of p"
    and events: "length (sw_events s') \<le> sw_eventCap s'"
  shows "run_inv tasks s' (ps[i := p])"
proof -
  have len: "length ps = length tasks" using inv by (simp add: run_inv_def)
  have cap: "outputCap s' = outputCap s" "sw_maxParallel s' = sw_maxParallel s" "sw_eventCap s' = sw_eventCap s"
    using cfg by (simp_all add: same_config_def outputCap_def)
  have "attempts_ok (tasks ! j) (ps[i := p] ! j) \<and>
      agent_ok (outputCap s') (tasks ! j) (ps[i := p] ! j) (gm_get (sw_agents s') (sk_ID (tasks ! j)))" if j: "j < length tasks" for j
  proof (cases "j = i")
    case True
    then show ?thesis using own i len cap by simp
  next
    case False
    then have "sk_ID (tasks ! j) \<noteq> sk_ID (tasks ! i)" using ids i j by (simp add: distinct_conv_nth)
    then show ?thesis using False inv j others cap by (simp add: run_inv_def)
  qed
  moreover have "sw_sem s' = sum_list (map active (ps[i := p]))" "sw_retries s' = sum_list (map retries_of (ps[i := p]))"
    using sum_map_list_update[of i ps active p] sum_map_list_update[of i ps retries_of p] sem(1) retries inv i len
    by (simp_all add: run_inv_def)
  ultimately show ?thesis using len sem(2) events cap by (simp add: run_inv_def)
qed

lemma run_invD:
  assumes "run_inv tasks s ps" "i < length tasks"
  shows "attempts_ok (tasks ! i) (ps ! i)" "length ps = length tasks" "length (sw_events s) \<le> sw_eventCap s"
    "sw_sem s \<le> sw_maxParallel s" "active (ps ! i) \<le> sw_sem s"
    "\<exists>a. gm_get (sw_agents s) (sk_ID (tasks ! i)) = Some a \<and> ag_Name a = sk_Name (tasks ! i) \<and> ring_ok (ag_output a) \<and>
      length (or_data (ag_output a)) = outputCap s \<and> agent_shows (outputCap s) (ps ! i) a"
proof -
  show "attempts_ok (tasks ! i) (ps ! i)" "length ps = length tasks" "length (sw_events s) \<le> sw_eventCap s"
    "sw_sem s \<le> sw_maxParallel s"
    using assms by (auto simp: run_inv_def)
  have "active (ps ! i) \<in> set (map active ps)" using assms by (auto simp: run_inv_def)
  then show "active (ps ! i) \<le> sw_sem s" using assms(1) member_le_sum_list[of "active (ps ! i)" "map active ps"]
    by (simp add: run_inv_def)
  have "agent_ok (outputCap s) (tasks ! i) (ps ! i) (gm_get (sw_agents s) (sk_ID (tasks ! i)))"
    using assms by (simp add: run_inv_def)
  then show "\<exists>a. gm_get (sw_agents s) (sk_ID (tasks ! i)) = Some a \<and> ag_Name a = sk_Name (tasks ! i) \<and> ring_ok (ag_output a) \<and>
      length (or_data (ag_output a)) = outputCap s \<and> agent_shows (outputCap s) (ps ! i) a"
    by (auto simp: agent_ok_def split: option.splits)
qed

lemma last_n_Nil [simp]: "last_n n [] = []"
  by (simp add: last_n_def)

lemma begin_inv:
  assumes inv: "run_inv tasks s ps" and ids: "distinct (map sk_ID tasks)" and i: "i < length tasks"
    and ph: "ps ! i = TReady k err out" and b: "begin_attempt (tasks ! i) ctx_done k err out s = (s', p)"
  shows "run_inv tasks s' (ps[i := p])"
proof -
  note D = run_invD[OF inv i]
  obtain a where a: "gm_get (sw_agents s) (sk_ID (tasks ! i)) = Some a" "ag_Name a = sk_Name (tasks ! i)" "ring_ok (ag_output a)"
    "length (or_data (ag_output a)) = outputCap s" "agent_shows (outputCap s) (TReady k err out) a"
    using D(6) ph by auto
  have k: "k = 0 \<or> int k \<le> maxAttempts (tasks ! i)" using D(1) ph by simp
  consider (over) "int k \<ge> maxAttempts (tasks ! i)" | (first) "int k < maxAttempts (tasks ! i)" "k = 0"
    | (crash) "int k < maxAttempts (tasks ! i)" "k > 0" "sk_RetryDelay (tasks ! i) > 0" "sk_RetryDelay (tasks ! i) div 2 \<le> 0"
    | (ctx) "int k < maxAttempts (tasks ! i)" "k > 0" "\<not> (sk_RetryDelay (tasks ! i) > 0 \<and> sk_RetryDelay (tasks ! i) div 2 \<le> 0)" "ctx_done"
    | (retry) "int k < maxAttempts (tasks ! i)" "k > 0" "\<not> (sk_RetryDelay (tasks ! i) > 0 \<and> sk_RetryDelay (tasks ! i) div 2 \<le> 0)" "\<not> ctx_done"
    by linarith
  then show ?thesis
  proof cases
    case over
    then have "s' = s" "p = TFinal (k - 1) err out" using b by (simp_all add: begin_attempt_def)
    then show ?thesis using a D k over ph
      by (intro run_inv_step[OF inv ids i]) (auto simp: agent_ok_def maxAttempts_def)
  next
    case first
    then have "s' = s" "p = TInRun 0 out" using b by (simp_all add: begin_attempt_def)
    then show ?thesis using a D first ph
      by (intro run_inv_step[OF inv ids i]) (auto simp: agent_ok_def)
  next
    case crash
    then have "s' = s\<lparr>sw_retries := sw_retries s + 1\<rparr>" "p = TCrashed k" using b by (simp_all add: begin_attempt_def Let_def)
    moreover have "sk_RetryDelay (tasks ! i) = 1" using crash(3,4) by linarith
    ultimately show ?thesis using a D crash ph
      by (intro run_inv_step[OF inv ids i]) (auto simp: agent_ok_def maxAttempts_def)
  next
    case ctx
    then have "s' = s\<lparr>sw_retries := sw_retries s + 1\<rparr>" "p = TFinal k err out" using b by (auto simp: begin_attempt_def Let_def)
    then show ?thesis using a D ctx ph
      by (intro run_inv_step[OF inv ids i]) (auto simp: agent_ok_def maxAttempts_def)
  next
    case retry
    then have "s' = mod_agent (sk_ID (tasks ! i)) (\<lambda>a. a\<lparr>ag_output := ring_reset (ag_output a)\<rparr>) (s\<lparr>sw_retries := sw_retries s + 1\<rparr>)"
      "p = TInRun k []" using b by (auto simp: begin_attempt_def Let_def)
    then show ?thesis using a D retry ph
      by (intro run_inv_step[OF inv ids i]) (auto simp: agent_ok_def)
  qed
qed

lemma start_inv:
  assumes inv: "run_inv tasks s ps" and ids: "distinct (map sk_ID tasks)" and i: "i < length tasks"
    and ph: "ps ! i = TQueued" and room: "sw_sem s < sw_maxParallel s"
  shows "run_inv tasks (task_start (tasks ! i) now s) (ps[i := TReady 0 None []])"
  using run_invD[OF inv i] ph room
  by (intro run_inv_step[OF inv ids i]) (auto simp: agent_ok_def task_start_def swarm_setStatus_def)

lemma cancelled_inv:
  assumes inv: "run_inv tasks s ps" and ids: "distinct (map sk_ID tasks)" and i: "i < length tasks" and ph: "ps ! i = TQueued"
  shows "run_inv tasks (task_cancelled (tasks ! i) now s) (ps[i := TFinished 0 None StatusCancelled []])"
  using run_invD[OF inv i] ph
  by (intro run_inv_step[OF inv ids i]) (auto simp: agent_ok_def task_cancelled_def swarm_setStatus_def final_ok_def)

lemma emit_inv:
  assumes inv: "run_inv tasks s ps" and ids: "distinct (map sk_ID tasks)" and i: "i < length tasks" and ph: "ps ! i = TInRun k out"
  shows "run_inv tasks (task_emit (tasks ! i) now ev s) (ps[i := TInRun k (out @ token_of ev)])"
proof -
  note D = run_invD[OF inv i]
  obtain a where a: "gm_get (sw_agents s) (sk_ID (tasks ! i)) = Some a" "ag_Name a = sk_Name (tasks ! i)" "ring_ok (ag_output a)"
    "length (or_data (ag_output a)) = outputCap s" "agent_shows (outputCap s) (TInRun k out) a"
    using D(6) ph by auto
  have tok: "token_of (ev\<lparr>ev_AgentID := x, ev_AgentName := y, ev_At := z\<rparr>) = token_of ev" for x y z
    by (simp add: token_of_def)
  have ring: "ring_string (ring_write (token_of ev) (ag_output a)) = last_n (outputCap s) (out @ token_of ev)"
    using a by (simp add: ring_string_write last_n_append_last_n)
  show ?thesis using a D ph ring
    by (intro run_inv_step[OF inv ids i]) (auto simp: agent_ok_def task_emit_def Let_def tok ring_ok_write)
qed

lemma returns_inv:
  assumes inv: "run_inv tasks s ps" and ids: "distinct (map sk_ID tasks)" and i: "i < length tasks"
    and ph: "ps ! i = TInRun k out" and e: "end_attempt (tasks ! i) now ctx_done k err out s = (s', p)"
  shows "run_inv tasks s' (ps[i := p])"
proof -
  note D = run_invD[OF inv i]
  have p: "attempts_ok (tasks ! i) p" "retries_of p = k" "active p = 1"
    "\<And>a. agent_shows (outputCap s) p a = agent_shows (outputCap s) (TInRun k out) a"
    using e D(1) ph by (auto simp: end_attempt_def Let_def maxAttempts_def split: option.splits if_splits)
  have s': "s' = s \<or> (\<exists>ev. s' = swarm_emit ev s)"
    using e by (auto simp: end_attempt_def Let_def split: option.splits task_err.splits)
  then show ?thesis using D ph p
    by (intro run_inv_step[OF inv ids i]) (auto simp: agent_ok_def)
qed

lemma finish_inv:
  assumes inv: "run_inv tasks s ps" and ids: "distinct (map sk_ID tasks)" and i: "i < length tasks" and ph: "ps ! i = TFinal n err out"
  shows "run_inv tasks (task_finish (tasks ! i) now ctx_done err s)
    (ps[i := TFinished n err (task_status err ctx_done) out])"
  using run_invD[OF inv i] ph
  by (intro run_inv_step[OF inv ids i])
    (auto simp: agent_ok_def task_finish_def swarm_setStatus_def task_status_def final_ok_def Let_def)

lemma gm_get_setup:
  "distinct (map sk_ID tasks) \<Longrightarrow> t \<in> set tasks \<Longrightarrow>
     gm_get (fold (\<lambda>t. gm_put (sk_ID t) (f t)) tasks m) (sk_ID t) = Some (f t)"
proof (induction tasks arbitrary: m)
  case (Cons u us)
  have absent: "gm_get (fold (\<lambda>t. gm_put (sk_ID t) (f t)) us m) x = gm_get m x" if "x \<notin> sk_ID ` set us" for x m
    using that by (induction us arbitrary: m) auto
  show ?case using Cons absent[of "sk_ID u"] by (cases "t = u") auto
qed simp

lemma swarm_reachable_inv:
  "swarm_reachable cfg tasks r \<Longrightarrow> distinct (map sk_ID tasks) \<Longrightarrow> run_inv tasks (rn_swarm r) (rn_phases r)"
proof (induction rule: swarm_reachable.induct)
  case init
  let ?s = "swarm_setup tasks (NewSwarmWithConfig cfg)"
  have "agent_ok (outputCap ?s) (tasks ! i) TQueued (gm_get (sw_agents ?s) (sk_ID (tasks ! i)))" if "i < length tasks" for i
  proof -
    have "gm_get (sw_agents ?s) (sk_ID (tasks ! i)) = Some \<lparr>ag_ID = sk_ID (tasks ! i), ag_Name = sk_Name (tasks ! i),
        ag_Status = StatusQueued, ag_Err = None, ag_output = newOutputRingWithSize (sc_OutputBufferSize cfg)\<rparr>"
      using gm_get_setup[OF init nth_mem[OF that]] by (simp add: swarm_setup_def NewSwarmWithConfig_def)
    then show ?thesis by (simp add: agent_ok_def outputCap_def swarm_setup_def NewSwarmWithConfig_def)
  qed
  then show ?case by (simp add: run_inv_def swarm_setup_def NewSwarmWithConfig_def sum_list_replicate)
next
  case (step r r')
  from step.hyps(2) show ?case
  proof (cases rule: swarm_step.cases)
    case (recv ev evs)
    then show ?thesis using step.IH step.prems by (auto simp: run_inv_def outputCap_def)
  qed (use step.IH step.prems start_inv cancelled_inv begin_inv emit_inv returns_inv finish_inv in auto)
qed

lemma task_ops_config [simp]:
  "same_config s' (task_start t now s) = same_config s' s" "same_config s' (task_cancelled t now s) = same_config s' s"
  "same_config s' (task_emit t now ev s) = same_config s' s" "same_config s' (task_finish t now c err s) = same_config s' s"
  "begin_attempt t c k err out s = (s1, p) \<Longrightarrow> same_config s' s1 = same_config s' s"
  "end_attempt t now c k err out s = (s1, p) \<Longrightarrow> same_config s' s1 = same_config s' s"
  by (auto simp: task_start_def task_cancelled_def task_emit_def task_finish_def begin_attempt_def end_attempt_def
      swarm_setStatus_def Let_def split: option.splits task_err.splits if_splits)

lemma swarm_reachable_config:
  "swarm_reachable cfg tasks r \<Longrightarrow> same_config (NewSwarmWithConfig cfg) (rn_swarm r)"
proof (induction rule: swarm_reachable.induct)
  case init
  then show ?case by (simp add: same_config_def swarm_setup_def)
next
  case (step r r')
  from step.hyps(2) show ?case
    by (cases rule: swarm_step.cases)
      (use step.IH in \<open>simp_all, simp_all add: same_config_def\<close>)
qed

section \<open>What a run guarantees\<close>

text \<open>
  C17. A swarm keeps its limits: in every reachable state at most the configured number of tasks
  runs, the semaphore counts exactly them, the event queue is within its capacity, and each task has
  been retried at most as often as it may, the total being the sum over the tasks.\<close>

theorem swarm_limits:
  "swarm_reachable cfg tasks r \<Longrightarrow> distinct (map sk_ID tasks) \<Longrightarrow>
     sum_list (map active (rn_phases r)) = sw_sem (rn_swarm r) \<and>
     sw_sem (rn_swarm r) \<le> sw_maxParallel (NewSwarmWithConfig cfg) \<and>
     length (sw_events (rn_swarm r)) \<le> sw_eventCap (NewSwarmWithConfig cfg) \<and>
     sw_retries (rn_swarm r) = sum_list (map retries_of (rn_phases r)) \<and>
     list_all2 (\<lambda>t p. int (retries_of p) \<le> max 0 (sk_MaxRetries t)) tasks (rn_phases r)"
proof -
  assume r: "swarm_reachable cfg tasks r" "distinct (map sk_ID tasks)"
  note inv = swarm_reachable_inv[OF r] and cfg = swarm_reachable_config[OF r(1)]
  have "int (retries_of p) \<le> max 0 (sk_MaxRetries t)" if "attempts_ok t p" for t p
    using that by (cases p) (auto simp: maxAttempts_def)
  then have "list_all2 (\<lambda>t p. int (retries_of p) \<le> max 0 (sk_MaxRetries t)) tasks (rn_phases r)"
    using inv by (simp add: run_inv_def list_all2_conv_all_nth)
  then show ?thesis using inv cfg by (simp add: run_inv_def same_config_def)
qed

theorem swarm_limits_witness:
  "sw_sem (task_start \<lparr>sk_ID = ''a'', sk_Name = [], sk_MaxRetries = 0, sk_RetryDelay = 0, sk_IsRetryable = None\<rparr> 1
     (swarm_setup [\<lparr>sk_ID = ''a'', sk_Name = [], sk_MaxRetries = 0, sk_RetryDelay = 0, sk_IsRetryable = None\<rparr>]
       (NewSwarmWithConfig \<lparr>sc_MaxParallel = 1, sc_EventBufferSize = 0, sc_OutputBufferSize = 4\<rparr>))) \<le> 1"
proof -
  let ?t = "\<lparr>sk_ID = ''a'', sk_Name = [], sk_MaxRetries = 0, sk_RetryDelay = 0, sk_IsRetryable = None\<rparr>"
  let ?cfg = "\<lparr>sc_MaxParallel = 1, sc_EventBufferSize = 0, sc_OutputBufferSize = 4\<rparr>"
  let ?s = "swarm_setup [?t] (NewSwarmWithConfig ?cfg)"
  let ?r = "\<lparr>rn_swarm = task_start ?t 1 ?s, rn_phases = [TReady 0 None []]\<rparr>"
  have "swarm_step [?t] \<lparr>rn_swarm = ?s, rn_phases = [TQueued]\<rparr> ?r"
    using swarm_step.start[of "\<lparr>rn_swarm = ?s, rn_phases = [TQueued]\<rparr>" 0 "[?t]" 1]
    by (simp add: swarm_setup_def NewSwarmWithConfig_def)
  then have "swarm_reachable ?cfg [?t] ?r"
    using swarm_reachable.step[OF swarm_reachable.init[of ?cfg "[?t]"], of ?r] by simp
  from swarm_limits[OF this] show ?thesis by (simp add: NewSwarmWithConfig_def)
qed

text \<open>The agents of a list of tasks with distinct IDs decide which errors \<open>Run\<close> reports.\<close>

lemma task_errors_iff:
  assumes "distinct (map sk_ID tasks)" "t \<in> set tasks" "gm_get (sw_agents s) (sk_ID t) = Some a"
  shows "(sk_ID t, n, e) \<in> set (task_errors s tasks) \<longleftrightarrow> n = ag_Name a \<and> ag_Status a = StatusError \<and> ag_Err a = Some e"
proof -
  have "u = t" if "u \<in> set tasks" "sk_ID u = sk_ID t" for u
    using that assms(1,2) by (auto simp: distinct_map inj_on_def)
  then show ?thesis using assms(2,3)
    by (auto simp: task_errors_def split: option.splits intro!: bexI[of _ t])
qed

text \<open>
  A swarm reports each task faithfully: the result of a finished task has the last error of
  its loop and the last bytes its final attempt wrote, up to the capacity of the buffer, its status
  fits the error, and it is among the reported errors exactly when it failed and was not cancelled.\<close>

lemma swarm_reports_task:
  "swarm_reachable cfg tasks r \<Longrightarrow> distinct (map sk_ID tasks) \<Longrightarrow> i < length tasks \<Longrightarrow>
     rn_phases r ! i = TFinished n err st out \<Longrightarrow>
     sr_Output (task_result (rn_swarm r) dur (tasks ! i)) = last_n (outputCap (NewSwarmWithConfig cfg)) out \<and>
     sr_Err (task_result (rn_swarm r) dur (tasks ! i)) = err \<and> final_ok err st \<and>
     (\<forall>e. (sk_ID (tasks ! i), sk_Name (tasks ! i), e) \<in> set (task_errors (rn_swarm r) tasks) \<longleftrightarrow>
        st = StatusError \<and> err = Some e)"
proof -
  assume r: "swarm_reachable cfg tasks r" "distinct (map sk_ID tasks)" and i: "i < length tasks"
    and ph: "rn_phases r ! i = TFinished n err st out"
  obtain a where a: "gm_get (sw_agents (rn_swarm r)) (sk_ID (tasks ! i)) = Some a" "ag_Name a = sk_Name (tasks ! i)"
    "agent_shows (outputCap (rn_swarm r)) (TFinished n err st out) a"
    using run_invD(6)[OF swarm_reachable_inv[OF r] i] ph by auto
  have cap: "outputCap (rn_swarm r) = outputCap (NewSwarmWithConfig cfg)"
    using swarm_reachable_config[OF r(1)] by (simp add: same_config_def outputCap_def)
  show ?thesis using a cap task_errors_iff[OF r(2) nth_mem[OF i] a(1)]
    by (auto simp: task_result_def)
qed

text \<open>A swarm with one task that writes a text and returns.\<close>

lemma solo_run:
  assumes "0 \<le> sk_MaxRetries t"
  shows "\<exists>s. swarm_reachable cfg [t] \<lparr>rn_swarm = s, rn_phases = [TFinished 0 None StatusDone out]\<rparr>"
proof -
  have room: "sw_sem (swarm_setup [t] (NewSwarmWithConfig cfg)) < sw_maxParallel (swarm_setup [t] (NewSwarmWithConfig cfg))"
    by (simp add: swarm_setup_def NewSwarmWithConfig_def defaultMaxConcurrency_def)
  have step: "\<exists>s'. swarm_reachable cfg [t] \<lparr>rn_swarm = s', rn_phases = [q]\<rparr>"
    if "swarm_reachable cfg [t] \<lparr>rn_swarm = s, rn_phases = [p]\<rparr>"
      "\<exists>s'. swarm_step [t] \<lparr>rn_swarm = s, rn_phases = [p]\<rparr> \<lparr>rn_swarm = s', rn_phases = [q]\<rparr>" for s p q
    using that swarm_reachable.step by blast
  have init: "swarm_reachable cfg [t] \<lparr>rn_swarm = swarm_setup [t] (NewSwarmWithConfig cfg), rn_phases = [TQueued]\<rparr>"
    using swarm_reachable.init[of cfg "[t]"] by simp
  obtain s1 where "swarm_reachable cfg [t] \<lparr>rn_swarm = s1, rn_phases = [TReady 0 None []]\<rparr>"
    using step[OF init, of "TReady 0 None []"] swarm_step.start[of "\<lparr>rn_swarm = _, rn_phases = [TQueued]\<rparr>" 0 "[t]"] room by auto
  then obtain s2 where "swarm_reachable cfg [t] \<lparr>rn_swarm = s2, rn_phases = [TInRun 0 []]\<rparr>"
    using step[of s1 "TReady 0 None []" "TInRun 0 []"] assms
      swarm_step.attempt[of "\<lparr>rn_swarm = s1, rn_phases = [TReady 0 None []]\<rparr>" 0 "[t]" 0 None "[]" False]
    by (auto simp: begin_attempt_def maxAttempts_def)
  moreover have "token_of \<lparr>ev_AgentID = [], ev_AgentName = [], ev_Type = EventToken, ev_Payload = PText out, ev_At = 0\<rparr> = out"
    by (simp add: token_of_def)
  ultimately obtain s3 where "swarm_reachable cfg [t] \<lparr>rn_swarm = s3, rn_phases = [TInRun 0 out]\<rparr>"
    using step[of s2 "TInRun 0 []" "TInRun 0 out"]
      swarm_step.emit[of "\<lparr>rn_swarm = s2, rn_phases = [TInRun 0 []]\<rparr>" 0 "[t]" 0 "[]" 0
        "\<lparr>ev_AgentID = [], ev_AgentName = [], ev_Type = EventToken, ev_Payload = PText out, ev_At = 0\<rparr>"]
    by auto
  then obtain s4 where "swarm_reachable cfg [t] \<lparr>rn_swarm = s4, rn_phases = [TFinal 0 None out]\<rparr>"
    using step[of s3 "TInRun 0 out" "TFinal 0 None out"]
      swarm_step.returns[of "\<lparr>rn_swarm = s3, rn_phases = [TInRun 0 out]\<rparr>" 0 "[t]" 0 out 0 False None]
    by (auto simp: end_attempt_def)
  then show ?thesis
    using step[of s4 "TFinal 0 None out" "TFinished 0 None StatusDone out"]
      swarm_step.finish[of "\<lparr>rn_swarm = s4, rn_phases = [TFinal 0 None out]\<rparr>" 0 "[t]" 0 None out 0 False]
    by (auto simp: task_status_def)
qed

text \<open>
  A recovered panic never becomes the error of the whole run, and the fatal error is the first
  reported one that is not a panic.\<close>

lemma swarm_fatal_error:
  "case fatal_error (task_errors s tasks) of
     None \<Rightarrow> list_all (\<lambda>(i, n, e). is_panic e) (task_errors s tasks)
   | Some (i, n, e) \<Rightarrow> \<not> is_panic e \<and>
       (\<exists>us vs. task_errors s tasks = us @ (i, n, e) # vs \<and> list_all (\<lambda>(i, n, e). is_panic e) us)"
proof (cases "fatal_error (task_errors s tasks)")
  case None
  then have "\<forall>x\<in>set (task_errors s tasks). \<not> (case x of (i, n, e) \<Rightarrow> \<not> is_panic e)"
    by (simp add: fatal_error_def find_None_iff) blast
  then show ?thesis using None by (auto simp: list_all_iff)
next
  case (Some x)
  obtain i n e where x: "x = (i, n, e)" by (cases x)
  have "\<not> is_panic e \<and> (\<exists>us vs. ls = us @ (i, n, e) # vs \<and> list_all (\<lambda>(i, n, e). is_panic e) us)"
    if "find (\<lambda>(i, n, e). \<not> is_panic e) ls = Some (i, n, e)" for ls :: "(string \<times> string \<times> task_err) list"
    using that
  proof (induction ls)
    case (Cons l ls)
    show ?case
    proof (cases "case l of (i, n, e) \<Rightarrow> is_panic e")
      case True
      then obtain us vs where "ls = us @ (i, n, e) # vs" "list_all (\<lambda>(i, n, e). is_panic e) us" "\<not> is_panic e"
        using Cons by (cases l) (force split: if_splits)
      then have "l # ls = (l # us) @ (i, n, e) # vs \<and> list_all (\<lambda>(i, n, e). is_panic e) (l # us)" using True by simp
      then show ?thesis using \<open>\<not> is_panic e\<close> by blast
    next
      case False
      then have "l = (i, n, e)" "\<not> is_panic e" using Cons.prems by (auto split: prod.splits)
      then have "l # ls = [] @ (i, n, e) # ls \<and> list_all (\<lambda>(i, n, e). is_panic e) []" by simp
      then show ?thesis using \<open>\<not> is_panic e\<close> by blast
    qed
  qed simp
  then show ?thesis using Some by (simp add: fatal_error_def x)
qed

text \<open>
  A retry delay of one nanosecond takes the whole process down: half of it is zero, the
  random jitter is drawn from an empty range outside the recovery of the task's function, and the
  first retry panics. No other delay and no task without retries crashes.\<close>

lemma begin_attempt_crash:
  "crashed (snd (begin_attempt t ctx_done (Suc k) err out s)) \<longleftrightarrow>
     int (Suc k) \<le> sk_MaxRetries t \<and> sk_RetryDelay t = 1"
  by (auto simp: begin_attempt_def maxAttempts_def Let_def)

end
