(* ===== verification/SchedulerRuns.thy ===== *)
theory SchedulerRuns
  imports WorkflowGraph
begin

text \<open>
  The scheduler (\<^verbatim>\<open>internal/scheduler/scheduler.go\<close>): the table of cron entries, the runs started by
  cron and by hand under the per-workflow guard and the global limit, cancellation, and the
  synchronisation with a directory of workflow files (\<^verbatim>\<open>workflows_watcher.go\<close>). The cron
  library keeps the table of jobs by entry; whether it accepts a schedule is an argument. The
  goroutines of the runs interleave between critical sections.
\<close>

section \<open>The scheduler\<close>

definition maxConcurrentWorkflows :: nat where
  "maxConcurrentWorkflows = 10"

datatype sched_error =
  RunnerNotConfigured
| BadSchedule string
| ErrWorkflowAlreadyRunning string
| ErrConcurrencyLimitReached

text \<open>\<open>sd_cron\<close> is the cron library's table of jobs, each closed over its workflow, and
  \<open>sd_nextEntry\<close> the identifier it gives out next; a cancel function is the number of its run.\<close>

record scheduler =
  sd_hasRunner :: bool
  sd_running :: "(string, bool) gomap"
  sd_entries :: "(string, nat) gomap"
  sd_cancels :: "(string, nat) gomap"
  sd_sem :: nat
  sd_cron :: "(nat, workflow) gomap"
  sd_nextEntry :: nat

definition sched_New :: scheduler where
  "sched_New = \<lparr>sd_hasRunner = False, sd_running = [], sd_entries = [], sd_cancels = [], sd_sem = 0,
     sd_cron = [], sd_nextEntry = 1\<rparr>"

definition SetWorkflowRunner :: "scheduler \<Rightarrow> scheduler" where
  "SetWorkflowRunner s = s\<lparr>sd_hasRunner := True\<rparr>"

definition RemoveWorkflow :: "string \<Rightarrow> scheduler \<Rightarrow> scheduler" where
  "RemoveWorkflow wid s =
     (case gm_get (sd_entries s) wid of
        None \<Rightarrow> s
      | Some e \<Rightarrow> s\<lparr>sd_cron := gm_del e (sd_cron s), sd_entries := gm_del wid (sd_entries s)\<rparr>)"

definition RegisterWorkflow :: "(string \<Rightarrow> bool) \<Rightarrow> workflow \<Rightarrow> scheduler \<Rightarrow> sched_error option \<times> scheduler" where
  "RegisterWorkflow accepts w s =
     (if \<not> wf_Enabled w then (None, s)
      else if wf_Schedule w = [] then (None, RemoveWorkflow (wf_ID w) s)
      else if \<not> sd_hasRunner s then (Some RunnerNotConfigured, s)
      else
        let s = RemoveWorkflow (wf_ID w) s
        in if \<not> accepts (wf_Schedule w) then (Some (BadSchedule (wf_Schedule w)), s)
           else (None, s\<lparr>sd_cron := gm_put (sd_nextEntry s) w (sd_cron s), sd_nextEntry := sd_nextEntry s + 1,
                         sd_entries := gm_put (wf_ID w) (sd_nextEntry s) (sd_entries s)\<rparr>))"

text \<open>\<open>LoadWorkflows\<close> on the workflows read from the directory, and \<open>sync\<close> of the watcher, which
  keeps the IDs it saw last.\<close>

definition sched_LoadWorkflows :: "(string \<Rightarrow> bool) \<Rightarrow> workflow list \<Rightarrow> scheduler \<Rightarrow> scheduler" where
  "sched_LoadWorkflows accepts ws s =
     fold (\<lambda>w s. if ValidateSubWorkflowCycles w ws \<noteq> None then s else snd (RegisterWorkflow accepts w s)) ws s"

definition watcher_sync :: "(string \<Rightarrow> bool) \<Rightarrow> workflow list \<Rightarrow> string list \<Rightarrow> scheduler \<Rightarrow> string list \<times> scheduler" where
  "watcher_sync accepts ws known s =
     (let s = fold (\<lambda>w s. snd (RegisterWorkflow accepts w s)) ws s; onDisk = map wf_ID ws
      in (onDisk, fold (\<lambda>i s. if i \<in> set onDisk then s else RemoveWorkflow i s) known s))"

section \<open>Runs\<close>

text \<open>
  Where the goroutine of a run is. A run started by cron is marked first and takes a slot after;
  a run started by hand does both at once. At the end the first gives its slot back and then
  removes its mark, the second the other way round.
\<close>

datatype run_phase = RpClaimed | RpSlot | RpRunning | RpUnslotted | RpUnmarked | RpEnded

record sched_run =
  rr_workflow :: workflow
  rr_manual :: bool
  rr_phase :: run_phase
  rr_cancelled :: bool

definition is_running :: "string \<Rightarrow> scheduler \<Rightarrow> bool" where
  "is_running wid s \<longleftrightarrow> gm_get (sd_running s) wid = Some True"

definition mark_running :: "string \<Rightarrow> scheduler \<Rightarrow> scheduler" where
  "mark_running wid s = s\<lparr>sd_running := gm_put wid True (sd_running s)\<rparr>"

definition unmark_running :: "string \<Rightarrow> scheduler \<Rightarrow> scheduler" where
  "unmark_running wid s = s\<lparr>sd_running := gm_del wid (sd_running s), sd_cancels := gm_del wid (sd_cancels s)\<rparr>"

definition new_run :: "workflow \<Rightarrow> bool \<Rightarrow> run_phase \<Rightarrow> sched_run" where
  "new_run w manual p = \<lparr>rr_workflow = w, rr_manual = manual, rr_phase = p, rr_cancelled = False\<rparr>"

text \<open>\<open>TriggerWorkflow\<close> up to the start of its goroutine.\<close>

definition TriggerWorkflow :: "workflow \<Rightarrow> scheduler \<Rightarrow> sched_error option \<times> scheduler" where
  "TriggerWorkflow w s =
     (if \<not> sd_hasRunner s then (Some RunnerNotConfigured, s)
      else if is_running (wf_ID w) s then (Some (ErrWorkflowAlreadyRunning (wf_ID w)), s)
      else if sd_sem s < maxConcurrentWorkflows
        then (None, mark_running (wf_ID w) (s\<lparr>sd_sem := sd_sem s + 1\<rparr>))
      else (Some ErrConcurrencyLimitReached, s))"

text \<open>A cron job fires: the guard, with the mark.\<close>

definition cron_fire :: "workflow \<Rightarrow> scheduler \<Rightarrow> scheduler option" where
  "cron_fire w s = (if is_running (wf_ID w) s then None else Some (mark_running (wf_ID w) s))"

text \<open>It takes a slot or skips the run.\<close>

definition cron_slot :: "scheduler \<Rightarrow> scheduler \<times> run_phase" where
  "cron_slot s =
     (if sd_sem s < maxConcurrentWorkflows then (s\<lparr>sd_sem := sd_sem s + 1\<rparr>, RpSlot) else (s, RpUnslotted))"

text \<open>It stores its cancel function and calls the runner.\<close>

definition run_start :: "nat \<Rightarrow> workflow \<Rightarrow> scheduler \<Rightarrow> scheduler" where
  "run_start i w s = s\<lparr>sd_cancels := gm_put (wf_ID w) i (sd_cancels s)\<rparr>"

text \<open>The deferred functions, when the runner has returned or panicked.\<close>

definition release_slot :: "scheduler \<Rightarrow> scheduler" where
  "release_slot s = s\<lparr>sd_sem := sd_sem s - 1\<rparr>"

definition run_return :: "sched_run \<Rightarrow> scheduler \<Rightarrow> scheduler \<times> run_phase" where
  "run_return r s =
     (if rr_manual r then (unmark_running (wf_ID (rr_workflow r)) s, RpUnmarked) else (release_slot s, RpUnslotted))"

definition CancelWorkflow :: "string \<Rightarrow> scheduler \<Rightarrow> nat option" where
  "CancelWorkflow wid s = gm_get (sd_cancels s) wid"

record sched_system =
  ss_sched :: scheduler
  ss_runs :: "sched_run list"

definition set_phase :: "nat \<Rightarrow> run_phase \<Rightarrow> sched_run list \<Rightarrow> sched_run list" where
  "set_phase i p rs = rs[i := (rs ! i)\<lparr>rr_phase := p\<rparr>]"

inductive sched_step :: "(string \<Rightarrow> bool) \<Rightarrow> sched_system \<Rightarrow> sched_system \<Rightarrow> bool" for accepts where
  runner: "sched_step accepts y (y\<lparr>ss_sched := SetWorkflowRunner (ss_sched y)\<rparr>)"
| register: "sched_step accepts y (y\<lparr>ss_sched := snd (RegisterWorkflow accepts w (ss_sched y))\<rparr>)"
| remove: "sched_step accepts y (y\<lparr>ss_sched := RemoveWorkflow wid (ss_sched y)\<rparr>)"
| trigger: "TriggerWorkflow w (ss_sched y) = (None, s) \<Longrightarrow>
    sched_step accepts y \<lparr>ss_sched = s, ss_runs = ss_runs y @ [new_run w True RpSlot]\<rparr>"
| fire: "gm_get (sd_cron (ss_sched y)) e = Some w \<Longrightarrow> cron_fire w (ss_sched y) = Some s \<Longrightarrow>
    sched_step accepts y \<lparr>ss_sched = s, ss_runs = ss_runs y @ [new_run w False RpClaimed]\<rparr>"
| slot: "i < length (ss_runs y) \<Longrightarrow> rr_phase (ss_runs y ! i) = RpClaimed \<Longrightarrow> cron_slot (ss_sched y) = (s, p) \<Longrightarrow>
    sched_step accepts y \<lparr>ss_sched = s, ss_runs = set_phase i p (ss_runs y)\<rparr>"
| start: "i < length (ss_runs y) \<Longrightarrow> rr_phase (ss_runs y ! i) = RpSlot \<Longrightarrow>
    sched_step accepts y \<lparr>ss_sched = run_start i (rr_workflow (ss_runs y ! i)) (ss_sched y),
      ss_runs = set_phase i RpRunning (ss_runs y)\<rparr>"
| return: "i < length (ss_runs y) \<Longrightarrow> rr_phase (ss_runs y ! i) = RpRunning \<Longrightarrow>
    run_return (ss_runs y ! i) (ss_sched y) = (s, p) \<Longrightarrow>
    sched_step accepts y \<lparr>ss_sched = s, ss_runs = set_phase i p (ss_runs y)\<rparr>"
| unmark: "i < length (ss_runs y) \<Longrightarrow> rr_phase (ss_runs y ! i) = RpUnslotted \<Longrightarrow>
    sched_step accepts y \<lparr>ss_sched = unmark_running (wf_ID (rr_workflow (ss_runs y ! i))) (ss_sched y),
      ss_runs = set_phase i RpEnded (ss_runs y)\<rparr>"
| unslot: "i < length (ss_runs y) \<Longrightarrow> rr_phase (ss_runs y ! i) = RpUnmarked \<Longrightarrow>
    sched_step accepts y \<lparr>ss_sched = release_slot (ss_sched y), ss_runs = set_phase i RpEnded (ss_runs y)\<rparr>"
| cancel: "CancelWorkflow wid (ss_sched y) = Some i \<Longrightarrow>
    sched_step accepts y (y\<lparr>ss_runs := (ss_runs y)[i := (ss_runs y ! i)\<lparr>rr_cancelled := True\<rparr>]\<rparr>)"

inductive sched_reachable :: "(string \<Rightarrow> bool) \<Rightarrow> sched_system \<Rightarrow> bool" for accepts where
  init: "sched_reachable accepts \<lparr>ss_sched = sched_New, ss_runs = []\<rparr>"
| step: "sched_reachable accepts y \<Longrightarrow> sched_step accepts y y' \<Longrightarrow> sched_reachable accepts y'"

section \<open>The table of cron jobs\<close>

text \<open>Every registered workflow has a job for it in the cron table, and every job belongs to the
  workflow registered under its ID.\<close>

definition cron_inv :: "scheduler \<Rightarrow> bool" where
  "cron_inv s \<longleftrightarrow>
     (\<forall>wid e. gm_get (sd_entries s) wid = Some e \<longrightarrow> (\<exists>w. gm_get (sd_cron s) e = Some w \<and> wf_ID w = wid)) \<and>
     (\<forall>e w. gm_get (sd_cron s) e = Some w \<longrightarrow> gm_get (sd_entries s) (wf_ID w) = Some e \<and> e < sd_nextEntry s)"

lemma cron_inv_D:
  assumes "cron_inv s"
  shows "gm_get (sd_entries s) wid = Some e \<Longrightarrow> \<exists>w. gm_get (sd_cron s) e = Some w \<and> wf_ID w = wid"
    and "gm_get (sd_cron s) e = Some w \<Longrightarrow> gm_get (sd_entries s) (wf_ID w) = Some e"
    and "gm_get (sd_cron s) e = Some w \<Longrightarrow> e < sd_nextEntry s"
  using assms unfolding cron_inv_def by blast+

lemma cron_inv_Remove: "cron_inv s \<Longrightarrow> cron_inv (RemoveWorkflow wid s)"
proof (cases "gm_get (sd_entries s) wid")
  case (Some e)
  assume inv: "cron_inv s"
  note D = cron_inv_D[OF inv]
  have other: "e' \<noteq> e" if "gm_get (sd_entries s) v = Some e'" "v \<noteq> wid" for v e'
    using D(1)[OF that(1)] D(1)[OF Some] that(2) by auto
  show ?thesis using D Some other by (fastforce simp: cron_inv_def RemoveWorkflow_def)
qed (simp add: RemoveWorkflow_def)

lemma RemoveWorkflow_gone: "gm_get (sd_entries (RemoveWorkflow wid s)) v = (if v = wid then None else gm_get (sd_entries s) v)"
  by (simp add: RemoveWorkflow_def split: option.splits)

lemma cron_inv_Register: "cron_inv s \<Longrightarrow> cron_inv (snd (RegisterWorkflow accepts w s))"
proof -
  assume inv: "cron_inv s"
  let ?s = "RemoveWorkflow (wf_ID w) s"
  note D = cron_inv_D[OF cron_inv_Remove[OF inv, of "wf_ID w"]]
  have gone: "gm_get (sd_entries ?s) (wf_ID w) = None" by (simp add: RemoveWorkflow_gone)
  have "wf_ID w' \<noteq> wf_ID w" if "gm_get (sd_cron ?s) e = Some w'" for e w'
    using D(2)[OF that] gone by auto
  moreover have "gm_get (sd_cron ?s) (sd_nextEntry ?s) = None"
    using D(3)[of "sd_nextEntry ?s"] by (cases "gm_get (sd_cron ?s) (sd_nextEntry ?s)") auto
  ultimately have "cron_inv (?s\<lparr>sd_cron := gm_put (sd_nextEntry ?s) w (sd_cron ?s), sd_nextEntry := sd_nextEntry ?s + 1,
      sd_entries := gm_put (wf_ID w) (sd_nextEntry ?s) (sd_entries ?s)\<rparr>)"
    unfolding cron_inv_def using D(1,2) by (auto dest: D(3)) (metis D(3) less_irrefl option.inject)+
  then show ?thesis using inv cron_inv_Remove[OF inv] by (auto simp: RegisterWorkflow_def Let_def)
qed

section \<open>The books of the runs\<close>

definition holds_slot :: "run_phase \<Rightarrow> nat" where
  "holds_slot p = (if p = RpSlot \<or> p = RpRunning \<or> p = RpUnmarked then 1 else 0)"

definition holds_mark :: "run_phase \<Rightarrow> bool" where
  "holds_mark p \<longleftrightarrow> p = RpClaimed \<or> p = RpSlot \<or> p = RpRunning \<or> p = RpUnslotted"

definition marks :: "sched_run list \<Rightarrow> string \<Rightarrow> nat" where
  "marks rs wid = length (filter (\<lambda>r. holds_mark (rr_phase r) \<and> wf_ID (rr_workflow r) = wid) rs)"

definition slots :: "sched_run list \<Rightarrow> nat" where
  "slots rs = sum_list (map (\<lambda>r. holds_slot (rr_phase r)) rs)"

text \<open>The semaphore counts the runs with a slot, a workflow is marked exactly when one run has its
  mark, and a cancel function belongs to the run of its workflow.\<close>

definition runs_inv :: "sched_system \<Rightarrow> bool" where
  "runs_inv y \<longleftrightarrow>
     sd_sem (ss_sched y) = slots (ss_runs y) \<and> sd_sem (ss_sched y) \<le> maxConcurrentWorkflows \<and>
     (\<forall>wid. marks (ss_runs y) wid = (if is_running wid (ss_sched y) then 1 else 0)) \<and>
     (\<forall>wid i. gm_get (sd_cancels (ss_sched y)) wid = Some i \<longrightarrow>
        i < length (ss_runs y) \<and> wf_ID (rr_workflow (ss_runs y ! i)) = wid \<and>
        (rr_phase (ss_runs y ! i) = RpRunning \<or> rr_phase (ss_runs y ! i) = RpUnslotted)) \<and>
     (\<forall>i<length (ss_runs y). rr_phase (ss_runs y ! i) = RpRunning \<longrightarrow>
        gm_get (sd_cancels (ss_sched y)) (wf_ID (rr_workflow (ss_runs y ! i))) = Some i)"

lemma set_phase_simps [simp]:
  "length (set_phase i p rs) = length rs"
  "j < length rs \<Longrightarrow> rr_workflow (set_phase i p rs ! j) = rr_workflow (rs ! j)"
  "j < length rs \<Longrightarrow> rr_phase (set_phase i p rs ! j) = (if j = i then p else rr_phase (rs ! j))"
  by (cases "i = j"; simp add: set_phase_def)+

lemma slots_set_phase: "i < length rs \<Longrightarrow> slots (set_phase i p rs) + holds_slot (rr_phase (rs ! i)) = slots rs + holds_slot p"
  using sum_map_list_update[of i rs "\<lambda>r. holds_slot (rr_phase r)" "(rs ! i)\<lparr>rr_phase := p\<rparr>"]
  by (simp add: slots_def set_phase_def)

lemma marks_set_phase:
  "i < length rs \<Longrightarrow> marks (set_phase i p rs) wid + (if holds_mark (rr_phase (rs ! i)) \<and> wf_ID (rr_workflow (rs ! i)) = wid then 1 else 0) =
     marks rs wid + (if holds_mark p \<and> wf_ID (rr_workflow (rs ! i)) = wid then 1 else 0)"
  using length_filter_list_update[of i rs "\<lambda>r. holds_mark (rr_phase r) \<and> wf_ID (rr_workflow r) = wid" "(rs ! i)\<lparr>rr_phase := p\<rparr>"]
  by (simp add: marks_def set_phase_def)

lemma marks_pos: "r \<in> set rs \<Longrightarrow> holds_mark (rr_phase r) \<Longrightarrow> 0 < marks rs (wf_ID (rr_workflow r))"
  by (auto simp: marks_def filter_empty_conv)

text \<open>Two runs that have a mark are of different workflows.\<close>

lemma marks_unique:
  assumes "marks rs wid \<le> 1" "i < length rs" "j < length rs" "i \<noteq> j"
    "holds_mark (rr_phase (rs ! i))" "wf_ID (rr_workflow (rs ! i)) = wid"
    "holds_mark (rr_phase (rs ! j))" "wf_ID (rr_workflow (rs ! j)) = wid"
  shows False
proof -
  have "marks (set_phase i RpEnded rs) wid = 0"
    using marks_set_phase[OF assms(2), of RpEnded wid] assms(1,5,6) by (simp add: holds_mark_def)
  moreover have "0 < marks (set_phase i RpEnded rs) wid"
    using marks_pos[of "set_phase i RpEnded rs ! j" "set_phase i RpEnded rs"] assms by simp
  ultimately show False by simp
qed

lemma is_running_simps [simp]:
  "is_running v (mark_running wid s) \<longleftrightarrow> v = wid \<or> is_running v s"
  "is_running v (unmark_running wid s) \<longleftrightarrow> v \<noteq> wid \<and> is_running v s"
  by (auto simp: is_running_def mark_running_def unmark_running_def)

lemma slots_append [simp]: "slots (rs @ [r]) = slots rs + holds_slot (rr_phase r)"
  by (simp add: slots_def)

lemma marks_append [simp]:
  "marks (rs @ [r]) wid = marks rs wid + (if holds_mark (rr_phase r) \<and> wf_ID (rr_workflow r) = wid then 1 else 0)"
  by (simp add: marks_def)

lemma runs_invD:
  assumes "runs_inv y"
  shows "sd_sem (ss_sched y) = slots (ss_runs y)" "sd_sem (ss_sched y) \<le> maxConcurrentWorkflows"
    "marks (ss_runs y) wid = (if is_running wid (ss_sched y) then 1 else 0)"
    "gm_get (sd_cancels (ss_sched y)) wid = Some i \<Longrightarrow>
        i < length (ss_runs y) \<and> wf_ID (rr_workflow (ss_runs y ! i)) = wid \<and>
        (rr_phase (ss_runs y ! i) = RpRunning \<or> rr_phase (ss_runs y ! i) = RpUnslotted)"
    "i < length (ss_runs y) \<Longrightarrow> rr_phase (ss_runs y ! i) = RpRunning \<Longrightarrow>
        gm_get (sd_cancels (ss_sched y)) (wf_ID (rr_workflow (ss_runs y ! i))) = Some i"
  using assms by (auto simp: runs_inv_def)

lemma unchanged_books [simp]:
  "sd_sem (RemoveWorkflow w s) = sd_sem s" "sd_running (RemoveWorkflow w s) = sd_running s"
  "sd_cancels (RemoveWorkflow w s) = sd_cancels s"
  "sd_sem (snd (RegisterWorkflow a v s)) = sd_sem s" "sd_running (snd (RegisterWorkflow a v s)) = sd_running s"
  "sd_cancels (snd (RegisterWorkflow a v s)) = sd_cancels s"
  "sd_sem (SetWorkflowRunner s) = sd_sem s" "sd_running (SetWorkflowRunner s) = sd_running s"
  "sd_cancels (SetWorkflowRunner s) = sd_cancels s"
  by (simp_all add: RemoveWorkflow_def RegisterWorkflow_def SetWorkflowRunner_def Let_def split: option.splits)

lemma mark_simps [simp]:
  "sd_sem (mark_running w s) = sd_sem s" "sd_cancels (mark_running w s) = sd_cancels s"
  "sd_sem (unmark_running w s) = sd_sem s" "sd_cancels (unmark_running w s) = gm_del w (sd_cancels s)"
  by (simp_all add: mark_running_def unmark_running_def)

lemma is_running_cong [simp]:
  "is_running v (s\<lparr>sd_sem := n\<rparr>) = is_running v s" "is_running v (run_start i w s) = is_running v s"
  "is_running v (release_slot s) = is_running v s"
  by (simp_all add: is_running_def run_start_def release_slot_def)

lemma runs_inv_cong:
  "runs_inv \<lparr>ss_sched = s, ss_runs = rs\<rparr> \<Longrightarrow> sd_sem s' = sd_sem s \<Longrightarrow> sd_running s' = sd_running s \<Longrightarrow>
     sd_cancels s' = sd_cancels s \<Longrightarrow> runs_inv \<lparr>ss_sched = s', ss_runs = rs\<rparr>"
  by (simp add: runs_inv_def is_running_def)

text \<open>A new run enters with its mark, and with a slot when it is started by hand.\<close>

lemma runs_inv_new:
  assumes inv: "runs_inv \<lparr>ss_sched = s, ss_runs = rs\<rparr>" and free: "\<not> is_running (wf_ID w) s" and p: "p = RpClaimed \<or> p = RpSlot"
    and sem: "sd_sem s + holds_slot p \<le> maxConcurrentWorkflows"
  shows "runs_inv \<lparr>ss_sched = mark_running (wf_ID w) (s\<lparr>sd_sem := sd_sem s + holds_slot p\<rparr>), ss_runs = rs @ [new_run w m p]\<rparr>"
proof -
  note D = runs_invD[OF inv, simplified]
  have mark: "holds_mark p" "p \<noteq> RpRunning" using p by (auto simp: holds_mark_def)
  show ?thesis unfolding runs_inv_def
  proof (intro conjI allI impI, goal_cases)
    case (3 wid)
    then show ?case using D(3)[of wid] free mark by (auto simp: new_run_def)
  next
    case (4 wid i)
    then show ?case using D(4)[of wid i] by (auto simp: nth_append)
  next
    case (5 wid i)
    then show ?case using D(4)[of wid i] by (auto simp: nth_append)
  next
    case (6 wid i)
    then show ?case using D(4)[of wid i] by (auto simp: nth_append)
  next
    case (7 i)
    then show ?case using D(5)[of i] mark by (auto simp: nth_append new_run_def split: if_splits)
  qed (use D(1) sem in \<open>simp_all add: new_run_def\<close>)
qed

text \<open>A step of a run that keeps its mark and its cancel function.\<close>

lemma runs_inv_phase:
  assumes inv: "runs_inv \<lparr>ss_sched = s, ss_runs = rs\<rparr>" and i: "i < length rs"
    and books: "sd_sem s' + holds_slot (rr_phase (rs ! i)) = sd_sem s + holds_slot p" "sd_sem s' \<le> maxConcurrentWorkflows"
    and mark: "holds_mark (rr_phase (rs ! i))" "holds_mark p" "sd_running s' = sd_running s"
    and cancels: "sd_cancels s' = (if p = RpRunning then gm_put (wf_ID (rr_workflow (rs ! i))) i (sd_cancels s) else sd_cancels s)"
    and p: "rr_phase (rs ! i) = RpRunning \<Longrightarrow> p = RpUnslotted" "rr_phase (rs ! i) \<noteq> RpUnslotted"
  shows "runs_inv \<lparr>ss_sched = s', ss_runs = set_phase i p rs\<rparr>"
proof -
  note D = runs_invD[OF inv, simplified]
  let ?w = "wf_ID (rr_workflow (rs ! i))"
  have run: "is_running v s' = is_running v s" for v using mark(3) by (simp add: is_running_def)
  have m: "marks (set_phase i p rs) v = marks rs v" for v using marks_set_phase[OF i, of p v] mark by auto
  have other: "v \<noteq> ?w" if "gm_get (sd_cancels s) v = Some j" "j \<noteq> i" for v j
  proof
    assume "v = ?w"
    then have "j < length rs" "wf_ID (rr_workflow (rs ! j)) = ?w" "holds_mark (rr_phase (rs ! j))"
      using D(4)[OF that(1)] by (auto simp: holds_mark_def)
    then show False using marks_unique[of rs ?w i j] i mark(1) that(2) D(3)[of ?w] by (simp split: if_splits)
  qed
  have at: "gm_get (sd_cancels s) v = Some i \<Longrightarrow> rr_phase (rs ! i) = RpRunning \<and> v = ?w" for v
    using D(4)[of v i] p(2) by auto
  show ?thesis unfolding runs_inv_def
  proof (intro conjI allI impI, goal_cases)
    case (3 v)
    then show ?case using D(3)[of v] m run by simp
  next
    case (4 v j)
    then show ?case using D(4)[of v j] cancels i by (auto split: if_splits)
  next
    case (5 v j)
    then show ?case using D(4)[of v j] cancels i by (auto split: if_splits)
  next
    case (6 v j)
    show ?case
    proof (cases "p = RpRunning \<and> v = ?w")
      case True
      then have "j = i" using 6 cancels by simp
      then show ?thesis using True i by simp
    next
      case False
      then have old: "gm_get (sd_cancels s) v = Some j" using 6 cancels by (simp split: if_splits)
      note D4 = D(4)[OF old]
      show ?thesis
      proof (cases "j = i")
        case True
        then have "rr_phase (rs ! i) = RpRunning" using at old by simp
        then show ?thesis using True i p(1) by simp
      next
        case False
        then show ?thesis using D4 by simp
      qed
    qed
  next
    case (7 j)
    show ?case
    proof (cases "j = i")
      case True
      then show ?thesis using 7 cancels i by (simp split: if_splits)
    next
      case False
      then have j: "gm_get (sd_cancels s) (wf_ID (rr_workflow (rs ! j))) = Some j" using 7 D(5)[of j] by simp
      then show ?thesis using other[OF j False] cancels 7 by simp
    qed
  qed (use D(1) books slots_set_phase[OF i, of p] in simp_all)
qed

text \<open>A run gives up its mark, and its cancel function with it.\<close>

lemma runs_inv_unmark:
  assumes inv: "runs_inv \<lparr>ss_sched = s, ss_runs = rs\<rparr>" and i: "i < length rs"
    and mark: "holds_mark (rr_phase (rs ! i))" "\<not> holds_mark p" and slot: "holds_slot p = holds_slot (rr_phase (rs ! i))"
  shows "runs_inv \<lparr>ss_sched = unmark_running (wf_ID (rr_workflow (rs ! i))) s, ss_runs = set_phase i p rs\<rparr>"
proof -
  note D = runs_invD[OF inv, simplified]
  let ?w = "wf_ID (rr_workflow (rs ! i))"
  have only: "wf_ID (rr_workflow (rs ! j)) \<noteq> ?w" if "j < length rs" "j \<noteq> i" "holds_mark (rr_phase (rs ! j))" for j
    using marks_unique[of rs ?w i j] that i mark(1) D(3)[of ?w] by (auto split: if_splits)
  have p: "p \<noteq> RpRunning" using mark(2) by (auto simp: holds_mark_def)
  show ?thesis unfolding runs_inv_def
  proof (intro conjI allI impI, goal_cases)
    case (3 v)
    then show ?case using D(3)[of v] marks_set_phase[OF i, of p v] mark by (auto split: if_splits)
  next
    case (4 v j)
    then show ?case using D(4)[of v j] by (auto split: if_splits)
  next
    case (5 v j)
    then show ?case using D(4)[of v j] by (simp split: if_splits)
  next
    case (6 v j)
    then show ?case using D(4)[of v j] by (simp split: if_splits) (metis)
  next
    case (7 j)
    then show ?case using D(5)[of j] only[of j] p by (auto simp: holds_mark_def split: if_splits)
  qed (use D(1,2) slot slots_set_phase[OF i, of p] in simp_all)
qed

text \<open>A run without a mark gives its slot back.\<close>

lemma runs_inv_unslot:
  assumes inv: "runs_inv \<lparr>ss_sched = s, ss_runs = rs\<rparr>" and i: "i < length rs" and ph: "rr_phase (rs ! i) = RpUnmarked"
  shows "runs_inv \<lparr>ss_sched = release_slot s, ss_runs = set_phase i RpEnded rs\<rparr>"
proof -
  note D = runs_invD[OF inv, simplified]
  have sl: "slots (set_phase i RpEnded rs) + 1 = slots rs"
    using slots_set_phase[OF i, of RpEnded] ph by (simp add: holds_slot_def)
  show ?thesis unfolding runs_inv_def
  proof (intro conjI allI impI, goal_cases)
    case (3 v)
    then show ?case using D(3)[of v] marks_set_phase[OF i, of RpEnded v] ph by (simp add: holds_mark_def)
  next
    case (6 v j)
    then show ?case using D(4)[of v j] ph i by (cases "j = i") (auto simp: release_slot_def)
  next
    case (7 j)
    then show ?case using D(5)[of j] by (auto simp: release_slot_def split: if_splits)
  qed (use D(1,2,4) sl in \<open>auto simp: release_slot_def\<close>)
qed

lemma runs_inv_cancel:
  assumes inv: "runs_inv y"
  shows "runs_inv (y\<lparr>ss_runs := (ss_runs y)[i := (ss_runs y ! i)\<lparr>rr_cancelled := True\<rparr>]\<rparr>)"
proof -
  let ?rs = "(ss_runs y)[i := (ss_runs y ! i)\<lparr>rr_cancelled := True\<rparr>]"
  have same: "rr_phase (?rs ! j) = rr_phase (ss_runs y ! j)" "rr_workflow (?rs ! j) = rr_workflow (ss_runs y ! j)"
    if "j < length (ss_runs y)" for j
    using that by (cases "i = j"; simp)+
  have map_same: "map (\<lambda>r. (rr_phase r, rr_workflow r)) ?rs = map (\<lambda>r. (rr_phase r, rr_workflow r)) (ss_runs y)"
    by (rule nth_equalityI) (simp_all add: same)
  have "slots rs = sum_list (map (\<lambda>(p, w). holds_slot p) (map (\<lambda>r. (rr_phase r, rr_workflow r)) rs))" for rs
    by (simp add: slots_def comp_def)
  moreover have "marks rs v = length (filter (\<lambda>(p, w). holds_mark p \<and> wf_ID w = v) (map (\<lambda>r. (rr_phase r, rr_workflow r)) rs))" for rs v
    by (simp add: marks_def filter_map comp_def)
  ultimately have "slots ?rs = slots (ss_runs y)" "marks ?rs v = marks (ss_runs y) v" for v
    using map_same by presburger+
  then show ?thesis using inv same by (simp add: runs_inv_def)
qed

lemma sched_step_inv: "sched_step accepts y y' \<Longrightarrow> runs_inv y \<Longrightarrow> runs_inv y'"
proof (induction rule: sched_step.induct)
  case (runner y)
  then show ?case using runs_inv_cong[of "ss_sched y" "ss_runs y"] by (cases y) simp
next
  case (register y w)
  then show ?case using runs_inv_cong[of "ss_sched y" "ss_runs y"] by (cases y) simp
next
  case (remove y wid)
  then show ?case using runs_inv_cong[of "ss_sched y" "ss_runs y"] by (cases y) simp
next
  case (trigger w y s)
  then show ?case using runs_inv_new[of "ss_sched y" "ss_runs y" w RpSlot True]
    by (cases y) (auto simp: TriggerWorkflow_def holds_slot_def split: if_splits)
next
  case (fire y e w s)
  then show ?case using runs_inv_new[of "ss_sched y" "ss_runs y" w RpClaimed False] runs_invD(2)[of y]
    by (cases y) (auto simp: cron_fire_def holds_slot_def split: if_splits)
next
  case (slot i y s p)
  then show ?case using runs_inv_phase[of "ss_sched y" "ss_runs y" i s p] runs_invD(2)[of y]
    by (cases y) (auto simp: cron_slot_def holds_slot_def holds_mark_def split: if_splits)
next
  case (start i y)
  then show ?case using runs_inv_phase[of "ss_sched y" "ss_runs y" i _ RpRunning] runs_invD(2)[of y]
    by (cases y) (auto simp: run_start_def holds_slot_def holds_mark_def)
next
  case (return i y s p)
  obtain sc rs where y: "y = \<lparr>ss_sched = sc, ss_runs = rs\<rparr>" by (cases y)
  have i: "i < length rs" "rr_phase (rs ! i) = RpRunning" using return y by simp_all
  note D = runs_invD[OF return.prems, unfolded y, simplified]
  show ?case
  proof (cases "rr_manual (rs ! i)")
    case True
    then have "s = unmark_running (wf_ID (rr_workflow (rs ! i))) sc" "p = RpUnmarked"
      using return.hyps(3) y by (simp_all add: run_return_def)
    then show ?thesis using runs_inv_unmark[of sc rs i p] return.prems i y by (simp add: holds_mark_def holds_slot_def)
  next
    case False
    then have s: "s = release_slot sc" "p = RpUnslotted" using return.hyps(3) y by (simp_all add: run_return_def)
    have "0 < slots rs" using slots_set_phase[OF i(1), of RpEnded] i(2) by (simp add: holds_slot_def)
    then have "sd_sem s + 1 = sd_sem sc" using D(1) s by (simp add: release_slot_def)
    then show ?thesis using runs_inv_phase[of sc rs i s p] return.prems i y s D(2)
      by (simp add: holds_mark_def holds_slot_def release_slot_def)
  qed
next
  case (unmark i y)
  then show ?case using runs_inv_unmark[of "ss_sched y" "ss_runs y" i RpEnded]
    by (cases y) (simp add: holds_mark_def holds_slot_def)
next
  case (unslot i y)
  then show ?case using runs_inv_unslot[of "ss_sched y" "ss_runs y" i] by (cases y) simp
next
  case (cancel wid y i)
  then show ?case by (simp add: runs_inv_cancel)
qed

lemma sched_reachable_inv: "sched_reachable accepts y \<Longrightarrow> runs_inv y"
proof (induction rule: sched_reachable.induct)
  case init
  then show ?case by (simp add: runs_inv_def sched_New_def slots_def marks_def is_running_def)
qed (use sched_step_inv in blast)

lemma cron_inv_cong:
  "cron_inv s \<Longrightarrow> sd_cron s' = sd_cron s \<Longrightarrow> sd_entries s' = sd_entries s \<Longrightarrow> sd_nextEntry s' = sd_nextEntry s \<Longrightarrow> cron_inv s'"
  by (simp add: cron_inv_def)

lemma sched_reachable_cron: "sched_reachable accepts y \<Longrightarrow> cron_inv (ss_sched y)"
proof (induction rule: sched_reachable.induct)
  case init
  then show ?case by (simp add: cron_inv_def sched_New_def)
next
  case (step y y')
  from step.hyps(2) show ?case
  proof (cases rule: sched_step.cases)
    case (register w)
    then show ?thesis using step.IH by (simp add: cron_inv_Register)
  next
    case (remove wid)
    then show ?thesis using step.IH by (simp add: cron_inv_Remove)
  qed (use step.IH in \<open>auto intro!: cron_inv_cong[of "ss_sched y"] simp: SetWorkflowRunner_def TriggerWorkflow_def cron_fire_def
      cron_slot_def run_start_def run_return_def release_slot_def mark_running_def unmark_running_def split: if_splits\<close>)
qed

section \<open>What the scheduler guarantees\<close>


text \<open>
  A cancellation hits the right run: the function that a cancellation calls belongs to a run of
  that very workflow that has not given up its place yet, and every run in its runner can be
  cancelled.\<close>

lemma cancel_hits_own_run:
  "sched_reachable accepts y \<Longrightarrow>
     (\<forall>wid i. CancelWorkflow wid (ss_sched y) = Some i \<longrightarrow>
        i < length (ss_runs y) \<and> wf_ID (rr_workflow (ss_runs y ! i)) = wid \<and>
        (rr_phase (ss_runs y ! i) = RpRunning \<or> rr_phase (ss_runs y ! i) = RpUnslotted)) \<and>
     (\<forall>i. i < length (ss_runs y) \<longrightarrow> rr_phase (ss_runs y ! i) = RpRunning \<longrightarrow>
        CancelWorkflow (wf_ID (rr_workflow (ss_runs y ! i))) (ss_sched y) = Some i)"
  using runs_invD(4,5)[OF sched_reachable_inv[of accepts y]] by (simp add: CancelWorkflow_def)

text \<open>
  No schedule is orphaned: in every reachable state the cron table holds exactly one job per
  registered workflow and no other, and a successful registration of an enabled workflow with a
  schedule leaves exactly the job of the new version under its ID.\<close>

lemma cron_jobs_registered:
  "sched_reachable accepts y \<Longrightarrow>
     (\<forall>e w. gm_get (sd_cron (ss_sched y)) e = Some w \<longrightarrow> gm_get (sd_entries (ss_sched y)) (wf_ID w) = Some e) \<and>
     (\<forall>wid e. gm_get (sd_entries (ss_sched y)) wid = Some e \<longrightarrow>
        (\<exists>w. gm_get (sd_cron (ss_sched y)) e = Some w \<and> wf_ID w = wid)) \<and>
     (\<forall>w s. wf_Enabled w \<longrightarrow> wf_Schedule w \<noteq> [] \<longrightarrow> RegisterWorkflow accepts w (ss_sched y) = (None, s) \<longrightarrow>
        (\<forall>e v. gm_get (sd_cron s) e = Some v \<longrightarrow> wf_ID v = wf_ID w \<longrightarrow> v = w) \<and>
        (\<exists>e. gm_get (sd_cron s) e = Some w))"
proof -
  assume "sched_reachable accepts y"
  then have inv: "cron_inv (ss_sched y)" by (rule sched_reachable_cron)
  note D = cron_inv_D[OF inv]
  have "(\<forall>e v. gm_get (sd_cron s) e = Some v \<longrightarrow> wf_ID v = wf_ID w \<longrightarrow> v = w) \<and> (\<exists>e. gm_get (sd_cron s) e = Some w)"
    if w: "wf_Enabled w" "wf_Schedule w \<noteq> []" and r: "RegisterWorkflow accepts w (ss_sched y) = (None, s)" for w s
  proof -
    have "cron_inv s" using cron_inv_Register[OF inv, of accepts w] r by simp
    moreover obtain e where e: "gm_get (sd_cron s) e = Some w" "gm_get (sd_entries s) (wf_ID w) = Some e"
      using w r by (auto simp: RegisterWorkflow_def Let_def split: if_splits)
    ultimately show ?thesis using cron_inv_D(2)[of s] by (metis option.inject)
  qed
  then show ?thesis using D by blast
qed

text \<open>
  A workflow that is disabled on disk keeps firing: the watcher registers every file it
  finds, registration returns at once for a disabled workflow without removing its job, and the
  removal of stale workflows does not apply to a file that is still there.\<close>

lemma disabled_workflow_keeps_firing:
  "let w = empty_workflow\<lparr>wf_ID := ''w'', wf_Enabled := True, wf_Schedule := ''@hourly''\<rparr>;
       w' = w\<lparr>wf_Enabled := False\<rparr>;
       (known, s) = watcher_sync (\<lambda>_. True) [w] [] (SetWorkflowRunner sched_New);
       (known', s') = watcher_sync (\<lambda>_. True) [w'] known s
   in gm_get (sd_cron s') 1 = Some w \<and> cron_fire w s' \<noteq> None"
  by code_simp

text \<open>Witnesses: a run started by hand.\<close>

lemma demo_sched:
  "sched_reachable (\<lambda>_. True)
     \<lparr>ss_sched = run_start 0 (empty_workflow\<lparr>wf_ID := ''w''\<rparr>)
        (mark_running ''w'' ((SetWorkflowRunner sched_New)\<lparr>sd_sem := 1\<rparr>)),
      ss_runs = [new_run (empty_workflow\<lparr>wf_ID := ''w''\<rparr>) True RpRunning]\<rparr>"
proof -
  let ?w = "empty_workflow\<lparr>wf_ID := ''w''\<rparr>"
  let ?s0 = "SetWorkflowRunner sched_New"
  let ?s1 = "mark_running ''w'' (?s0\<lparr>sd_sem := 1\<rparr>)"
  have "sched_reachable (\<lambda>_. True) \<lparr>ss_sched = ?s0, ss_runs = []\<rparr>"
    using sched_reachable.step[OF sched_reachable.init sched_step.runner] by simp
  moreover have "sched_step (\<lambda>_. True) \<lparr>ss_sched = ?s0, ss_runs = []\<rparr> \<lparr>ss_sched = ?s1, ss_runs = [new_run ?w True RpSlot]\<rparr>"
    using sched_step.trigger[of ?w "\<lparr>ss_sched = ?s0, ss_runs = []\<rparr>" ?s1 "\<lambda>_. True"]
    by (simp add: TriggerWorkflow_def SetWorkflowRunner_def sched_New_def is_running_def maxConcurrentWorkflows_def)
  moreover have "sched_step (\<lambda>_. True) \<lparr>ss_sched = ?s1, ss_runs = [new_run ?w True RpSlot]\<rparr>
      \<lparr>ss_sched = run_start 0 ?w ?s1, ss_runs = [new_run ?w True RpRunning]\<rparr>"
    using sched_step.start[of 0 "\<lparr>ss_sched = ?s1, ss_runs = [new_run ?w True RpSlot]\<rparr>" "\<lambda>_. True"]
    by (simp add: new_run_def set_phase_def)
  ultimately show ?thesis using sched_reachable.step by blast
qed


end
