(* ===== verification/SpaceWakes.thy ===== *)
theory SpaceWakes
  imports Prelude
begin

text \<open>
  Who is woken by a reply in a thread of a space (\<^verbatim>\<open>internal/spaces/wake.go\<close>,
  \<^verbatim>\<open>space.go\<close>): extraction of the names after an at sign, the roster of a space with the extra
  names of the desk, the company wall, and the plan. The environment variables and the membership
  test of the company store are arguments.
\<close>

section \<open>Names in a text\<close>

definition isAtNameStart :: "char \<Rightarrow> bool" where
  "isAtNameStart c = (let n = (of_char c :: nat) in (97 \<le> n \<and> n \<le> 122) \<or> (65 \<le> n \<and> n \<le> 90))"

definition isAtNameChar :: "char \<Rightarrow> bool" where
  "isAtNameChar c = (isAtNameStart c \<or> (let n = (of_char c :: nat) in (48 \<le> n \<and> n \<le> 57) \<or> n = 45 \<or> n = 95))"

text \<open>The loop at a position: \<open>prev\<close> is the byte before it, \<open>seen\<close> the lower-cased names so far.\<close>

function at_names :: "char option \<Rightarrow> string list \<Rightarrow> string \<Rightarrow> string list" where
  "at_names prev seen [] = []"
| "at_names prev seen (c # rest) =
     (if c \<noteq> CHR ''@'' then at_names (Some c) seen rest
      else if (case prev of Some p \<Rightarrow> isAtNameChar p | None \<Rightarrow> False) then at_names (Some c) seen rest
      else if rest = [] \<or> \<not> isAtNameStart (hd rest) then at_names (Some c) seen rest
      else
        let name = takeWhile isAtNameChar rest
        in if length name > 64 then at_names (Some c) seen rest
           else if to_lower name \<in> set seen then at_names (Some c) seen rest
           else name # at_names (Some (last name)) (to_lower name # seen) (drop (length name) rest))"
  by pat_completeness auto
termination
  by (relation "measure (\<lambda>(prev, seen, s). length s)") auto

definition extractAtNames :: "string \<Rightarrow> string list" where
  "extractAtNames content = at_names None [] (trim_space content)"

text \<open>\<^verbatim>\<open>strings.Index\<close>.\<close>

fun index_str :: "string \<Rightarrow> string \<Rightarrow> nat option" where
  "index_str [] p = (if p = [] then Some 0 else None)"
| "index_str (c # s) p = (if has_prefix (c # s) p then Some 0 else map_option Suc (index_str s p))"

definition nameTokenBoundary :: "string \<Rightarrow> nat \<Rightarrow> nat \<Rightarrow> bool" where
  "nameTokenBoundary s start nlen =
     (\<not> (start > 0 \<and>
         (isAtNameChar (s ! (start - 1)) \<or>
          (s ! (start - 1) = CHR ''@'' \<and> start \<ge> 2 \<and> isAtNameChar (s ! (start - 2))))) \<and>
      \<not> (start + nlen < length s \<and> isAtNameChar (s ! (start + nlen))))"

lemma index_str_bound: "index_str s p = Some i \<Longrightarrow> i + length p \<le> length s"
proof (induction s arbitrary: i)
  case (Cons c s)
  then show ?case using has_prefix_iff[of "c # s" p]
    by (auto split: if_splits) (metis add.commute le_add2 length_Cons length_append)+
qed (auto split: if_splits)

function name_from :: "string \<Rightarrow> string \<Rightarrow> nat \<Rightarrow> bool" where
  "name_from content name idx =
     (if name = [] \<or> idx > length content then False
      else case index_str (drop idx content) name of
             None \<Rightarrow> False
           | Some pos \<Rightarrow>
               if nameTokenBoundary content (idx + pos) (length name) then True
               else name_from content name (idx + pos + length name))"
  by pat_completeness auto
termination
proof (relation "measure (\<lambda>(content, name, idx). Suc (length content) - idx)", goal_cases)
  case (2 content name idx pos)
  then show ?case using index_str_bound[of "drop idx content" name pos] by (cases name) auto
qed simp

declare name_from.simps [simp del]

definition NameAppears :: "string \<Rightarrow> string \<Rightarrow> bool" where
  "NameAppears content name =
     (let content = to_lower content; name = to_lower (trim_space name)
      in if name = [] \<or> content = [] then False else name_from content name 0)"

section \<open>Spaces and plans\<close>

record space =
  sp_Kind :: string
  sp_LeadAgent :: string
  sp_Members :: "string list"
  sp_CompanyID :: string

definition KindDM :: string where
  "KindDM = ''dm''"

definition RosterNames :: "space \<Rightarrow> string list" where
  "RosterNames sp =
     (if sp_Kind sp = KindDM then (if sp_LeadAgent sp = [] then [] else [sp_LeadAgent sp])
      else (if sp_LeadAgent sp \<noteq> [] then [sp_LeadAgent sp] else []) @
           filter (\<lambda>m. \<not> equal_fold m (sp_LeadAgent sp)) (sp_Members sp))"

definition HumanMentionNames :: "string list" where
  "HumanMentionNames = [''user'', ''you'', ''human'', ''me'', ''mj'']"

definition IsHumanMention :: "(string \<Rightarrow> string) \<Rightarrow> string \<Rightarrow> bool" where
  "IsHumanMention getenv name =
     (let key = to_lower (trim_space name)
      in if key = [] then False
         else if key \<in> set HumanMentionNames then True
         else list_ex (\<lambda>v. let e = to_lower (trim_space (getenv v)) in e \<noteq> [] \<and> e = key)
                [''USER'', ''LOGNAME'', ''USERNAME''])"

datatype wake_reason = NotInRoster | NotInCompany

record wake_error =
  we_Agent :: string
  we_Reason :: wake_reason
  we_Message :: string

record wake_plan =
  wp_Agents :: "string list"
  wp_Errors :: "wake_error list"
  wp_MentionedHuman :: bool

record wake_opts =
  wo_Speaker :: string
  wo_ExtraLeads :: "string list"
  wo_ExtraPeers :: "string list"

definition empty_plan :: wake_plan where
  "empty_plan = \<lparr>wp_Agents = [], wp_Errors = [], wp_MentionedHuman = False\<rparr>"

text \<open>The membership test: \<open>None\<close> is the nil function, an answer of \<open>None\<close> an error.\<close>

type_synonym in_company = "(string \<Rightarrow> bool option) option"

definition companySeated :: "string \<Rightarrow> string \<Rightarrow> in_company \<Rightarrow> bool" where
  "companySeated canon companyID inCompany =
     (if companyID = [] then True
      else case inCompany of None \<Rightarrow> False | Some f \<Rightarrow> f canon = Some True)"

definition deskCoSSpeaker :: "string \<Rightarrow> bool" where
  "deskCoSSpeaker speaker = (let s = to_lower (trim_space speaker) in s = [] \<or> s = ''winston'')"

definition deskWakeExtras :: "string \<Rightarrow> wake_opts \<Rightarrow> string list" where
  "deskWakeExtras companyID opts =
     (if trim_space companyID \<noteq> [] then []
      else (if deskCoSSpeaker (wo_Speaker opts) then wo_ExtraLeads opts else []) @ wo_ExtraPeers opts)"

section \<open>The plan\<close>

text \<open>The names that may be woken, by lower-cased name.\<close>

definition wake_roster :: "space \<Rightarrow> wake_opts \<Rightarrow> (string, string) gomap" where
  "wake_roster sp opts =
     fold (\<lambda>n r. let n = trim_space n
                 in if n = [] \<or> gm_get r (to_lower n) \<noteq> None then r else gm_put (to_lower n) n r)
       (deskWakeExtras (trim_space (sp_CompanyID sp)) opts)
       (fold (\<lambda>n. gm_put (to_lower n) n) (RosterNames sp) [])"

text \<open>One name after an at sign; the state is the plan and the keys seen.\<close>

definition wake_mention ::
  "(string \<Rightarrow> string) \<Rightarrow> space \<Rightarrow> in_company \<Rightarrow> wake_opts \<Rightarrow> string \<Rightarrow> wake_plan \<times> string list \<Rightarrow> wake_plan \<times> string list" where
  "wake_mention getenv sp inCompany opts raw st =
     (let (plan, seen) = st; key = to_lower raw; speaker = to_lower (trim_space (wo_Speaker opts))
      in if IsHumanMention getenv key then (plan\<lparr>wp_MentionedHuman := True\<rparr>, seen)
         else if key \<in> set seen then (plan, seen)
         else if speaker \<noteq> [] \<and> key = speaker then (plan, key # seen)
         else case gm_get (wake_roster sp opts) key of
           None \<Rightarrow> (plan\<lparr>wp_Errors := wp_Errors plan @ [\<lparr>we_Agent = raw, we_Reason = NotInRoster,
               we_Message = raw @ '' isn'' @ [CHR 0x27] @ ''t in this space.''\<rparr>]\<rparr>, key # seen)
         | Some canon \<Rightarrow>
             if \<not> companySeated canon (trim_space (sp_CompanyID sp)) inCompany
             then (plan\<lparr>wp_Errors := wp_Errors plan @ [\<lparr>we_Agent = canon, we_Reason = NotInCompany,
               we_Message = canon @ '' isn'' @ [CHR 0x27] @ ''t in this company.''\<rparr>]\<rparr>, key # seen)
             else (plan\<lparr>wp_Agents := wp_Agents plan @ [canon]\<rparr>, key # seen))"

text \<open>A name of the roster that occurs in the text without an at sign.\<close>

definition wake_named ::
  "(string \<Rightarrow> string) \<Rightarrow> space \<Rightarrow> string \<Rightarrow> in_company \<Rightarrow> wake_opts \<Rightarrow> string \<Rightarrow> wake_plan \<times> string list \<Rightarrow> wake_plan \<times> string list" where
  "wake_named getenv sp content inCompany opts n0 st =
     (let (plan, seen) = st; n = trim_space n0; key = to_lower n; speaker = to_lower (trim_space (wo_Speaker opts))
      in if n = [] \<or> key \<in> set seen \<or> IsHumanMention getenv key then (plan, seen)
         else if speaker \<noteq> [] \<and> key = speaker then (plan, seen)
         else if \<not> NameAppears content n then (plan, seen)
         else
           let canon = (case gm_get (wake_roster sp opts) key of Some r \<Rightarrow> r | None \<Rightarrow> n)
           in if \<not> companySeated canon (trim_space (sp_CompanyID sp)) inCompany then (plan, key # seen)
              else (plan\<lparr>wp_Agents := wp_Agents plan @ [canon]\<rparr>, key # seen))"

definition ResolveThreadWakesOpts ::
  "(string \<Rightarrow> string) \<Rightarrow> space option \<Rightarrow> string \<Rightarrow> in_company \<Rightarrow> wake_opts \<Rightarrow> wake_plan" where
  "ResolveThreadWakesOpts getenv osp content inCompany opts =
     (case osp of
        None \<Rightarrow> empty_plan
      | Some sp \<Rightarrow>
          let names = extractAtNames content
          in if names = [] then empty_plan
             else
               let st = fold (wake_mention getenv sp inCompany opts) names (empty_plan, [])
               in if wp_Agents (fst st) = [] then fst st
                  else fst (fold (wake_named getenv sp content inCompany opts)
                              (RosterNames sp @ deskWakeExtras (trim_space (sp_CompanyID sp)) opts) st))"

definition ResolveThreadWakes :: "(string \<Rightarrow> string) \<Rightarrow> space option \<Rightarrow> string \<Rightarrow> in_company \<Rightarrow> wake_plan" where
  "ResolveThreadWakes getenv osp content inCompany =
     ResolveThreadWakesOpts getenv osp content inCompany \<lparr>wo_Speaker = [], wo_ExtraLeads = [], wo_ExtraPeers = []\<rparr>"

section \<open>Who can be woken\<close>

text \<open>The names a plan may hold: those of the roster, and of the desk extras.\<close>

definition may_wake :: "space \<Rightarrow> wake_opts \<Rightarrow> string \<Rightarrow> bool" where
  "may_wake sp opts a \<longleftrightarrow> a \<in> set (RosterNames sp) \<or>
     a \<in> trim_space ` set (RosterNames sp @ deskWakeExtras (trim_space (sp_CompanyID sp)) opts)"

text \<open>A map from lower-cased names to names of a set.\<close>

definition names_of :: "string set \<Rightarrow> (string, string) gomap \<Rightarrow> bool" where
  "names_of A m \<longleftrightarrow> (\<forall>k c. gm_get m k = Some c \<longrightarrow> to_lower c = k \<and> c \<in> A)"

lemma names_of_empty: "names_of A []"
  by (simp add: names_of_def)

lemma names_of_put: "names_of A m \<Longrightarrow> n \<in> A \<Longrightarrow> names_of A (gm_put (to_lower n) n m)"
  unfolding names_of_def gm_get_put by (metis option.inject)

lemma names_of_fold:
  "names_of A m \<Longrightarrow> (\<And>x m. x \<in> set xs \<Longrightarrow> names_of A m \<Longrightarrow> names_of A (f x m)) \<Longrightarrow> names_of A (fold f xs m)"
  by (induction xs arbitrary: m) simp_all

lemma wake_roster_names: "names_of {c. may_wake sp opts c} (wake_roster sp opts)"
  unfolding wake_roster_def
proof (intro names_of_fold names_of_empty)
  fix x m assume "x \<in> set (RosterNames sp)" "names_of {c. may_wake sp opts c} m"
  then show "names_of {c. may_wake sp opts c} (gm_put (to_lower x) x m)"
    by (intro names_of_put) (simp_all add: may_wake_def)
next
  fix x m assume "x \<in> set (deskWakeExtras (trim_space (sp_CompanyID sp)) opts)" "names_of {c. may_wake sp opts c} m"
  then show "names_of {c. may_wake sp opts c}
      (let n = trim_space x in if n = [] \<or> gm_get m (to_lower n) \<noteq> None then m else gm_put (to_lower n) n m)"
    by (simp add: Let_def names_of_put may_wake_def)
qed

lemma wake_roster_entry: "gm_get (wake_roster sp opts) k = Some c \<Longrightarrow> to_lower c = k \<and> may_wake sp opts c"
  using wake_roster_names[of sp opts] unfolding names_of_def by blast

text \<open>The plan so far, with the keys seen.\<close>

definition wakes_inv ::
  "(string \<Rightarrow> string) \<Rightarrow> space \<Rightarrow> in_company \<Rightarrow> wake_opts \<Rightarrow> wake_plan \<times> string list \<Rightarrow> bool" where
  "wakes_inv getenv sp inCompany opts st \<longleftrightarrow>
     (\<forall>a\<in>set (wp_Agents (fst st)). may_wake sp opts a \<and> companySeated a (trim_space (sp_CompanyID sp)) inCompany \<and>
        to_lower a \<in> set (snd st) \<and> \<not> IsHumanMention getenv (to_lower a) \<and>
        (to_lower (trim_space (wo_Speaker opts)) \<noteq> [] \<longrightarrow> to_lower a \<noteq> to_lower (trim_space (wo_Speaker opts)))) \<and>
     distinct (map to_lower (wp_Agents (fst st)))"

lemma wakes_inv_keep:
  "wakes_inv g sp ic opts (plan, seen) \<Longrightarrow> wp_Agents plan' = wp_Agents plan \<Longrightarrow> set seen \<subseteq> set seen' \<Longrightarrow>
     wakes_inv g sp ic opts (plan', seen')"
  by (auto simp: wakes_inv_def)

lemma wakes_inv_add:
  assumes "wakes_inv g sp ic opts (plan, seen)" "may_wake sp opts a" "companySeated a (trim_space (sp_CompanyID sp)) ic"
    "to_lower a = key" "key \<notin> set seen" "\<not> IsHumanMention g key"
    "to_lower (trim_space (wo_Speaker opts)) \<noteq> [] \<Longrightarrow> key \<noteq> to_lower (trim_space (wo_Speaker opts))"
  shows "wakes_inv g sp ic opts (plan\<lparr>wp_Agents := wp_Agents plan @ [a]\<rparr>, key # seen)"
  using assms by (auto simp: wakes_inv_def)

lemma wake_mention_inv: "wakes_inv g sp ic opts st \<Longrightarrow> wakes_inv g sp ic opts (wake_mention g sp ic opts raw st)"
proof -
  assume inv: "wakes_inv g sp ic opts st"
  obtain plan seen where st: "st = (plan, seen)" by (cases st)
  have keep: "wakes_inv g sp ic opts (plan', seen')"
    if "wp_Agents plan' = wp_Agents plan" "set seen \<subseteq> set seen'" for plan' seen'
    by (rule wakes_inv_keep[OF inv[unfolded st] that])
  have add: "wakes_inv g sp ic opts (plan\<lparr>wp_Agents := wp_Agents plan @ [c]\<rparr>, to_lower raw # seen)"
    if "gm_get (wake_roster sp opts) (to_lower raw) = Some c" "companySeated c (trim_space (sp_CompanyID sp)) ic"
      "to_lower raw \<notin> set seen" "\<not> IsHumanMention g (to_lower raw)"
      "to_lower (trim_space (wo_Speaker opts)) \<noteq> [] \<longrightarrow> to_lower raw \<noteq> to_lower (trim_space (wo_Speaker opts))" for c
    using wakes_inv_add[OF inv[unfolded st], of c "to_lower raw"] wake_roster_entry[OF that(1)] that by blast
  let ?key = "to_lower raw" and ?speaker = "to_lower (trim_space (wo_Speaker opts))"
  consider (human) "IsHumanMention g ?key" | (seen) "\<not> IsHumanMention g ?key" "?key \<in> set seen"
    | (self) "\<not> IsHumanMention g ?key" "?key \<notin> set seen" "?speaker \<noteq> [] \<and> ?key = ?speaker"
    | (off) "\<not> IsHumanMention g ?key" "?key \<notin> set seen" "\<not> (?speaker \<noteq> [] \<and> ?key = ?speaker)"
        "gm_get (wake_roster sp opts) ?key = None"
    | (on) c where "\<not> IsHumanMention g ?key" "?key \<notin> set seen" "\<not> (?speaker \<noteq> [] \<and> ?key = ?speaker)"
        "gm_get (wake_roster sp opts) ?key = Some c"
    by (cases "gm_get (wake_roster sp opts) ?key") blast+
  then show ?thesis
  proof cases
    case (on c)
    show ?thesis
    proof (cases "companySeated c (trim_space (sp_CompanyID sp)) ic")
      case True
      from add[OF on(4) True on(2,1)] on True show ?thesis by (simp only: wake_mention_def st Let_def split_conv if_False if_True option.case not_True_eq_False) blast
    next
      case False
      show ?thesis unfolding wake_mention_def st Let_def split_conv
        using on False by (simp only: if_False if_True option.case simp_thms) (rule keep; auto)
    qed
  qed (simp only: wake_mention_def st Let_def split_conv if_False if_True option.case simp_thms; rule keep; auto)+
qed

lemma wake_named_inv:
  "n0 \<in> set (RosterNames sp @ deskWakeExtras (trim_space (sp_CompanyID sp)) opts) \<Longrightarrow> wakes_inv g sp ic opts st \<Longrightarrow>
     wakes_inv g sp ic opts (wake_named g sp content ic opts n0 st)"
proof -
  assume n0: "n0 \<in> set (RosterNames sp @ deskWakeExtras (trim_space (sp_CompanyID sp)) opts)"
    and inv: "wakes_inv g sp ic opts st"
  obtain plan seen where st: "st = (plan, seen)" by (cases st)
  let ?n = "trim_space n0"
  define c where "c = (case gm_get (wake_roster sp opts) (to_lower ?n) of Some r \<Rightarrow> r | None \<Rightarrow> ?n)"
  have c: "to_lower c = to_lower ?n" "may_wake sp opts c"
    using wake_roster_entry[of sp opts "to_lower ?n"] n0
    by (auto simp: c_def may_wake_def split: option.splits)
  have keep: "wakes_inv g sp ic opts (plan, seen')" if "set seen \<subseteq> set seen'" for seen'
    by (rule wakes_inv_keep[OF inv[unfolded st] refl that])
  have add: "wakes_inv g sp ic opts (plan\<lparr>wp_Agents := wp_Agents plan @ [c]\<rparr>, to_lower ?n # seen)"
    if "companySeated c (trim_space (sp_CompanyID sp)) ic"
      "\<not> (?n = [] \<or> to_lower ?n \<in> set seen \<or> IsHumanMention g (to_lower ?n))"
      "\<not> (to_lower (trim_space (wo_Speaker opts)) \<noteq> [] \<and> to_lower ?n = to_lower (trim_space (wo_Speaker opts)))"
    using wakes_inv_add[OF inv[unfolded st] c(2) _ c(1)] that by blast
  let ?skip = "?n = [] \<or> to_lower ?n \<in> set seen \<or> IsHumanMention g (to_lower ?n)"
    and ?self = "to_lower (trim_space (wo_Speaker opts)) \<noteq> [] \<and> to_lower ?n = to_lower (trim_space (wo_Speaker opts))"
    and ?seated = "companySeated c (trim_space (sp_CompanyID sp)) ic"
  have "wake_named g sp content ic opts n0 st =
      (if ?skip then (plan, seen) else if ?self then (plan, seen) else if \<not> NameAppears content ?n then (plan, seen)
       else if \<not> ?seated then (plan, to_lower ?n # seen)
       else (plan\<lparr>wp_Agents := wp_Agents plan @ [c]\<rparr>, to_lower ?n # seen))"
    unfolding wake_named_def st Let_def split_conv c_def ..
  moreover have "wakes_inv g sp ic opts (plan, seen)" "wakes_inv g sp ic opts (plan, to_lower ?n # seen)"
    by (rule keep; auto)+
  ultimately show ?thesis using add by (simp only: split: if_split) blast
qed

lemma fold_wakes_inv:
  "(\<And>x st. x \<in> set xs \<Longrightarrow> wakes_inv g sp ic opts st \<Longrightarrow> wakes_inv g sp ic opts (f x st)) \<Longrightarrow>
     wakes_inv g sp ic opts st \<Longrightarrow> wakes_inv g sp ic opts (fold f xs st)"
  by (induction xs arbitrary: st) simp_all

text \<open>
  The company wall holds for wakes: every agent a reply wakes is on the roster of the space, or
  in a desk space among the desk extras, is seated in the company of the space by its store, is
  neither the speaker nor a human, and is woken once.\<close>

lemma wakes_respect_wall:
  assumes "a \<in> set (wp_Agents (ResolveThreadWakesOpts getenv (Some sp) content inCompany opts))"
  shows "(a \<in> set (RosterNames sp) \<or>
          a \<in> trim_space ` set (RosterNames sp @ deskWakeExtras (trim_space (sp_CompanyID sp)) opts)) \<and>
         (trim_space (sp_CompanyID sp) = [] \<or> (\<exists>f. inCompany = Some f \<and> f a = Some True)) \<and>
         \<not> IsHumanMention getenv (to_lower a) \<and>
         (to_lower (trim_space (wo_Speaker opts)) = [] \<or> to_lower a \<noteq> to_lower (trim_space (wo_Speaker opts))) \<and>
         distinct (map to_lower (wp_Agents (ResolveThreadWakesOpts getenv (Some sp) content inCompany opts)))"
proof -
  let ?inv = "wakes_inv getenv sp inCompany opts"
  have start: "?inv (empty_plan, [])" by (simp add: wakes_inv_def empty_plan_def)
  have mentions: "?inv (fold (wake_mention getenv sp inCompany opts) names (empty_plan, []))" for names
    by (rule fold_wakes_inv[OF _ start]) (rule wake_mention_inv)
  have named: "?inv (fold (wake_named getenv sp content inCompany opts)
      (RosterNames sp @ deskWakeExtras (trim_space (sp_CompanyID sp)) opts) st)" if "?inv st" for st
    by (rule fold_wakes_inv[OF _ that]) (rule wake_named_inv)
  have "\<exists>seen. ?inv (ResolveThreadWakesOpts getenv (Some sp) content inCompany opts, seen)"
  proof -
    have pair: "\<exists>seen. ?inv (fst st, seen)" if "?inv st" for st using that by (cases st) auto
    show ?thesis unfolding ResolveThreadWakesOpts_def Let_def option.case
      using pair[OF start] pair[OF mentions] pair[OF named[OF mentions]] by (auto split: if_split)
  qed
  then obtain seen where inv: "?inv (ResolveThreadWakesOpts getenv (Some sp) content inCompany opts, seen)" ..
  then have "companySeated a (trim_space (sp_CompanyID sp)) inCompany" "may_wake sp opts a"
    using assms by (simp_all add: wakes_inv_def)
  moreover from this(1) have "trim_space (sp_CompanyID sp) = [] \<or> (\<exists>f. inCompany = Some f \<and> f a = Some True)"
    by (simp add: companySeated_def split: if_splits option.splits)
  ultimately show ?thesis using inv assms unfolding wakes_inv_def may_wake_def fst_conv by blast
qed

definition wakes_example :: space where
  "wakes_example = \<lparr>sp_Kind = ''channel'', sp_LeadAgent = ''Winston'', sp_Members = [''Steve'', ''Ava'', ''Bob''],
     sp_CompanyID = ''acme''\<rparr>"

lemma wakes_example_plan:
  "ResolveThreadWakesOpts (\<lambda>_. ''bob'') (Some wakes_example) ''@steve ask Ava and @Bob, not @Eve''
       (Some (\<lambda>a. Some (a \<noteq> ''Winston'')))
       \<lparr>wo_Speaker = ''Winston'', wo_ExtraLeads = [''Zed''], wo_ExtraPeers = []\<rparr> =
     \<lparr>wp_Agents = [''Steve'', ''Ava''], wp_Errors = [\<lparr>we_Agent = ''Eve'', we_Reason = NotInRoster,
        we_Message = ''Eve isn'' @ [CHR 0x27] @ ''t in this space.''\<rparr>], wp_MentionedHuman = True\<rparr>"
  by code_simp

end
