(* ===== verification/JsonText.thy ===== *)
theory JsonText
  imports Prelude
begin

text \<open>
  The validity test for JSON texts (\<^verbatim>\<open>json.Valid\<close> of the standard library): a machine that reads one
  byte at a time and keeps a stack of the open objects and arrays. The lemmas at the end say when
  the machine accepts a text that begins with an object.
\<close>

section \<open>The machine\<close>

datatype json_open = ObjectKey | ObjectValue | ArrayValue

datatype json_state =
  BeginValue
| BeginValueOrEmpty
| BeginString
| BeginStringOrEmpty
| InString
| InStringEsc
| InStringEscU nat
| NumNeg
| Num0
| Num1
| NumDot
| NumDot0
| NumE
| NumESign
| NumE0
| InLiteral string
| EndValue
| EndTop
| JsonError

definition json_space :: "char \<Rightarrow> bool" where
  "json_space c \<longleftrightarrow> c = CHR '' '' \<or> c = CHR 0x09 \<or> c = CHR 0x0D \<or> c = CHR 0x0A"

definition json_digit :: "char \<Rightarrow> bool" where
  "json_digit c = (let n = (of_char c :: nat) in 48 \<le> n \<and> n \<le> 57)"

definition json_hex :: "char \<Rightarrow> bool" where
  "json_hex c = (let n = (of_char c :: nat) in json_digit c \<or> (97 \<le> n \<and> n \<le> 102) \<or> (65 \<le> n \<and> n \<le> 70))"

definition maxNestingDepth :: nat where
  "maxNestingDepth = 10000"

text \<open>After a value; \<open>EndTop\<close> is reached when the stack is empty.\<close>

definition pop_open :: "json_open list \<Rightarrow> json_state \<times> json_open list" where
  "pop_open st = (if tl st = [] then EndTop else EndValue, tl st)"

definition end_value :: "json_open list \<Rightarrow> char \<Rightarrow> json_state \<times> json_open list" where
  "end_value st c =
     (case st of
        [] \<Rightarrow> (if json_space c then EndTop else JsonError, [])
      | k # rest \<Rightarrow>
          if json_space c then (EndValue, st)
          else (case k of
                  ObjectKey \<Rightarrow> if c = CHR '':'' then (BeginValue, ObjectValue # rest) else (JsonError, st)
                | ObjectValue \<Rightarrow>
                    if c = CHR '','' then (BeginString, ObjectKey # rest)
                    else if c = CHR ''}'' then pop_open st else (JsonError, st)
                | ArrayValue \<Rightarrow>
                    if c = CHR '','' then (BeginValue, st)
                    else if c = CHR '']'' then pop_open st else (JsonError, st)))"

definition push_open :: "json_open \<Rightarrow> json_state \<Rightarrow> json_open list \<Rightarrow> json_state \<times> json_open list" where
  "push_open k s st = (if length st < maxNestingDepth then s else JsonError, k # st)"

definition begin_value :: "json_open list \<Rightarrow> char \<Rightarrow> json_state \<times> json_open list" where
  "begin_value st c =
     (if json_space c then (BeginValue, st)
      else if c = CHR ''{'' then push_open ObjectKey BeginStringOrEmpty st
      else if c = CHR ''['' then push_open ArrayValue BeginValueOrEmpty st
      else if c = CHR 0x22 then (InString, st)
      else if c = CHR ''-'' then (NumNeg, st)
      else if c = CHR ''0'' then (Num0, st)
      else if c = CHR ''t'' then (InLiteral ''rue'', st)
      else if c = CHR ''f'' then (InLiteral ''alse'', st)
      else if c = CHR ''n'' then (InLiteral ''ull'', st)
      else if json_digit c then (Num1, st)
      else (JsonError, st))"

definition begin_string :: "json_open list \<Rightarrow> char \<Rightarrow> json_state \<times> json_open list" where
  "begin_string st c =
     (if json_space c then (BeginString, st) else if c = CHR 0x22 then (InString, st) else (JsonError, st))"

definition is_e :: "char \<Rightarrow> bool" where
  "is_e c \<longleftrightarrow> c = CHR ''e'' \<or> c = CHR ''E''"

definition num_end :: "bool \<Rightarrow> json_open list \<Rightarrow> char \<Rightarrow> json_state \<times> json_open list" where
  "num_end dot st c =
     (if dot \<and> c = CHR ''.'' then (NumDot, st) else if is_e c then (NumE, st) else end_value st c)"

fun json_step :: "json_state \<times> json_open list \<Rightarrow> char \<Rightarrow> json_state \<times> json_open list" where
  "json_step (BeginValue, st) c = begin_value st c"
| "json_step (BeginValueOrEmpty, st) c =
     (if json_space c then (BeginValueOrEmpty, st)
      else if c = CHR '']'' then end_value st c else begin_value st c)"
| "json_step (BeginString, st) c = begin_string st c"
| "json_step (BeginStringOrEmpty, st) c =
     (if json_space c then (BeginStringOrEmpty, st)
      else if c = CHR ''}'' then end_value (ObjectValue # tl st) c else begin_string st c)"
| "json_step (InString, st) c =
     (if c = CHR 0x22 then (EndValue, st) else if c = CHR 0x5C then (InStringEsc, st)
      else if (of_char c :: nat) < 32 then (JsonError, st) else (InString, st))"
| "json_step (InStringEsc, st) c =
     (if c \<in> set [CHR ''b'', CHR ''f'', CHR ''n'', CHR ''r'', CHR ''t'', CHR 0x5C, CHR ''/'', CHR 0x22]
      then (InString, st) else if c = CHR ''u'' then (InStringEscU 3, st) else (JsonError, st))"
| "json_step (InStringEscU k, st) c =
     (if json_hex c then (if k = 0 then InString else InStringEscU (k - 1), st) else (JsonError, st))"
| "json_step (NumNeg, st) c =
     (if c = CHR ''0'' then (Num0, st) else if json_digit c then (Num1, st) else (JsonError, st))"
| "json_step (Num1, st) c = (if json_digit c then (Num1, st) else num_end True st c)"
| "json_step (Num0, st) c = num_end True st c"
| "json_step (NumDot, st) c = (if json_digit c then (NumDot0, st) else (JsonError, st))"
| "json_step (NumDot0, st) c = (if json_digit c then (NumDot0, st) else num_end False st c)"
| "json_step (NumE, st) c =
     (if c = CHR ''+'' \<or> c = CHR ''-'' then (NumESign, st)
      else if json_digit c then (NumE0, st) else (JsonError, st))"
| "json_step (NumESign, st) c = (if json_digit c then (NumE0, st) else (JsonError, st))"
| "json_step (NumE0, st) c = (if json_digit c then (NumE0, st) else end_value st c)"
| "json_step (InLiteral w, st) c =
     (case w of
        [] \<Rightarrow> (JsonError, st)
      | x # xs \<Rightarrow> if c = x then (if xs = [] then EndValue else InLiteral xs, st) else (JsonError, st))"
| "json_step (EndValue, st) c = end_value st c"
| "json_step (EndTop, st) c = (if json_space c then EndTop else JsonError, st)"
| "json_step (JsonError, st) c = (JsonError, st)"

definition json_run :: "json_state \<times> json_open list \<Rightarrow> string \<Rightarrow> json_state \<times> json_open list" where
  "json_run q s = fold (\<lambda>c q. json_step q c) s q"

text \<open>At the end of the input the machine is fed one space.\<close>

definition json_eof :: "json_state \<times> json_open list \<Rightarrow> bool" where
  "json_eof q \<longleftrightarrow> fst q = EndTop \<or> fst (json_step q (CHR '' '')) = EndTop"

definition json_Valid :: "string \<Rightarrow> bool" where
  "json_Valid s = json_eof (json_run (BeginValue, []) s)"

section \<open>Texts of one object\<close>

lemma json_run_simps [simp]:
  "json_run q [] = q" "json_run q (c # s) = json_run (json_step q c) s" "json_run q (s @ t) = json_run (json_run q s) t"
  by (simp_all add: json_run_def)

lemma json_run_error [simp]: "json_run (JsonError, st) s = (JsonError, st)"
  by (induction s) simp_all

lemma json_eof_error [simp]: "\<not> json_eof (JsonError, st)"
  by (simp add: json_eof_def)

lemma json_Valid_Nil [simp]: "\<not> json_Valid []"
  by (simp add: json_Valid_def json_eof_def begin_value_def json_space_def)

text \<open>Inside an object the stack is empty exactly at the top.\<close>

definition json_inv :: "json_state \<times> json_open list \<Rightarrow> bool" where
  "json_inv q \<longleftrightarrow> fst q = JsonError \<or> (fst q = EndTop \<longleftrightarrow> snd q = [])"

lemma json_inv_pair [simp]: "json_inv (s, st) \<longleftrightarrow> s = JsonError \<or> (s = EndTop \<longleftrightarrow> st = [])"
  by (simp add: json_inv_def)

lemma end_value_inv: "st \<noteq> [] \<Longrightarrow> json_inv (end_value st c)"
  by (cases st) (auto simp: end_value_def pop_open_def split: json_open.splits)

lemma begin_value_inv: "st \<noteq> [] \<Longrightarrow> json_inv (begin_value st c)"
  by (auto simp: begin_value_def push_open_def)

lemma begin_string_inv: "st \<noteq> [] \<Longrightarrow> json_inv (begin_string st c)"
  by (auto simp: begin_string_def)

lemma json_step_inv: "json_inv q \<Longrightarrow> json_inv (json_step q c)"
proof (induction q c rule: json_step.induct)
  case (16 w st c)
  then show ?case by (cases w) auto
qed (auto simp: num_end_def end_value_inv begin_value_inv begin_string_inv)

lemma json_run_inv: "json_inv q \<Longrightarrow> json_inv (json_run q s)"
  by (induction s arbitrary: q) (simp_all add: json_step_inv)

lemma json_eof_inv: "json_inv q \<Longrightarrow> json_eof q \<Longrightarrow> fst q = EndTop \<and> snd q = []"
proof -
  assume inv: "json_inv q" and eof: "json_eof q"
  obtain s st where q: "q = (s, st)" by (cases q)
  have "st = []"
  proof (rule ccontr)
    assume st: "st \<noteq> []"
    then obtain k rest where "st = k # rest" by (cases st) auto
    then show False using inv eof st
      by (cases s) (auto simp: q json_eof_def end_value_def begin_value_def begin_string_def num_end_def is_e_def
        json_space_def json_digit_def json_hex_def split: list.splits if_splits)
  qed
  then show ?thesis using inv eof by (auto simp: q)
qed

lemma json_run_top: "json_run (EndTop, []) s = (if list_all json_space s then EndTop else JsonError, [])"
  by (induction s) simp_all

text \<open>A text from a brace to a brace.\<close>

definition json_object :: "string \<Rightarrow> bool" where
  "json_object s \<longleftrightarrow> json_Valid s \<and> hd s = CHR ''{'' \<and> last s = CHR ''}''"

lemma json_space_chars [simp]: "\<not> json_space (CHR ''}'')" "\<not> json_space (CHR ''{'')" "\<not> json_space (CHR ''0'')"
  by (simp_all add: json_space_def)

lemma json_object_ne [simp]: "\<not> json_object []"
  by (simp add: json_object_def)

lemma object_run:
  assumes "s \<noteq> []" "hd s = CHR ''{''"
  shows "json_inv (json_run (BeginValue, []) s)"
proof -
  obtain t where "s = CHR ''{'' # t" using assms by (cases s) auto
  then show ?thesis
    by (simp add: begin_value_def json_space_def push_open_def maxNestingDepth_def, intro json_run_inv)
      simp
qed

lemma object_top: "s \<noteq> [] \<Longrightarrow> hd s = CHR ''{'' \<Longrightarrow> json_Valid s \<Longrightarrow> json_run (BeginValue, []) s = (EndTop, [])"
  using json_eof_inv[OF object_run[of s]] by (simp add: json_Valid_def prod_eq_iff)

lemma object_append:
  assumes "s \<noteq> []" "hd s = CHR ''{''" "json_Valid s"
  shows "json_Valid (s @ t) \<longleftrightarrow> list_all json_space t"
  using object_top[OF assms] by (simp add: json_Valid_def json_run_top) (simp add: json_eof_def)

lemma object_prefix_invalid:
  assumes "json_object (p @ u)" "u \<noteq> []"
  shows "\<not> json_Valid p"
proof
  assume p: "json_Valid p"
  then have ne: "p \<noteq> []" by auto
  then have "hd p = CHR ''{''" using assms(1) by (simp add: json_object_def)
  from object_append[OF ne this p, of u] have "list_all json_space u"
    using assms(1) by (simp add: json_object_def)
  then have "json_space (last u)" using assms(2) by (simp add: list_all_iff)
  then show False using assms by (simp add: json_object_def)
qed

lemma object_glue_invalid: "json_object s \<Longrightarrow> json_object t \<Longrightarrow> \<not> json_Valid (s @ t)"
  using object_append[of s t] by (cases s; cases t) (auto simp: json_object_def)

text \<open>Space around a text does not matter.\<close>

lemma json_space_not:
  "json_space c \<Longrightarrow> \<not> json_digit c \<and> \<not> json_hex c \<and> \<not> is_e c \<and> c \<notin> set ''.+-0]}{u/bfnrt'' \<and> c \<noteq> CHR 0x22 \<and> c \<noteq> CHR 0x5C"
  by (auto simp: json_space_def json_digit_def json_hex_def is_e_def)

lemma json_space_step:
  assumes "json_space c"
  shows "end_value st c = (if st = [] then (EndTop, []) else (EndValue, st))" "begin_value st c = (BeginValue, st)"
    "begin_string st c = (BeginString, st)" "num_end dot st c = end_value st c"
  using json_space_not[OF assms] assms
  by (auto simp: end_value_def begin_value_def begin_string_def num_end_def split: list.splits)

lemma json_eof_step:
  "json_eof (s, st) \<longleftrightarrow> (case s of EndTop \<Rightarrow> True | EndValue \<Rightarrow> st = [] | Num0 \<Rightarrow> st = [] | Num1 \<Rightarrow> st = []
     | NumDot0 \<Rightarrow> st = [] | NumE0 \<Rightarrow> st = [] | _ \<Rightarrow> False)"
proof -
  have sp: "json_space (CHR '' '')" by (simp add: json_space_def)
  note json_space_step[OF sp, simp] json_space_not[OF sp, simp] sp [simp]
  show ?thesis by (cases s) (auto simp: json_eof_def split: list.splits)
qed

text \<open>The letters of a literal that are still to come are not spaces.\<close>

definition literal_ok :: "json_state \<times> json_open list \<Rightarrow> bool" where
  "literal_ok q = (case fst q of InLiteral w \<Rightarrow> list_all (\<lambda>c. \<not> json_space c) w | _ \<Rightarrow> True)"

lemma literal_ok_pair [simp]:
  "literal_ok (s, st) \<longleftrightarrow> (case s of InLiteral w \<Rightarrow> list_all (\<lambda>c. \<not> json_space c) w | _ \<Rightarrow> True)"
  by (simp add: literal_ok_def)

lemma literal_ok_end [simp]: "literal_ok (end_value st c)" "literal_ok (begin_string st c)" "literal_ok (begin_value st c)"
  by (auto simp: end_value_def pop_open_def begin_string_def begin_value_def push_open_def json_space_def
      split: list.splits json_open.splits)

lemma literal_ok_step: "literal_ok q \<Longrightarrow> literal_ok (json_step q c)"
proof (induction q c rule: json_step.induct)
  case (16 w st c)
  then show ?case by (cases w) auto
qed (auto simp: num_end_def)

lemma literal_ok_run: "literal_ok q \<Longrightarrow> literal_ok (json_run q s)"
  by (induction s arbitrary: q) (simp_all add: literal_ok_step)

lemma json_eof_space:
  assumes "json_space c" "literal_ok q"
  shows "json_eof (json_step q c) \<longleftrightarrow> json_eof q"
proof -
  note json_space_step[OF assms(1), simp] json_space_not[OF assms(1), simp]
  obtain s st where "q = (s, st)" by (cases q)
  then show ?thesis using assms by (cases s) (auto simp: json_eof_step literal_ok_def split: list.splits)
qed

lemma json_Valid_snoc_space: "json_space c \<Longrightarrow> json_Valid (s @ [c]) \<longleftrightarrow> json_Valid s"
  using json_eof_space[OF _ literal_ok_run[of "(BeginValue, [])"]] by (simp add: json_Valid_def)

lemma json_Valid_cons_space: "json_space c \<Longrightarrow> json_Valid (c # s) \<longleftrightarrow> json_Valid s"
  by (simp add: json_Valid_def begin_value_def)

lemma json_Valid_spaces_right: "list_all json_space t \<Longrightarrow> json_Valid (s @ t) \<longleftrightarrow> json_Valid s"
proof (induction t rule: rev_induct)
  case (snoc c t)
  then show ?case using json_Valid_snoc_space[of c "s @ t"] by simp
qed simp

lemma json_Valid_spaces_left: "list_all json_space t \<Longrightarrow> json_Valid (t @ s) \<longleftrightarrow> json_Valid s"
  by (induction t) (simp_all add: json_Valid_cons_space)

end
