(* ===== verification/SessionLog.thy ===== *)
theory SessionLog
  imports JsonText "HOL-Library.Sublist"
begin

text \<open>
  The message log of a session (\<^verbatim>\<open>internal/session/repair.go\<close>, \<^verbatim>\<open>persist.go\<close> and the readers of
  \<^verbatim>\<open>store.go\<close>): one JSON text per line, repaired before it is read. The file is its bytes; decoding
  a line into a message is an argument, while validity is the one of \<open>JsonText\<close>.
\<close>

section \<open>Lines\<close>

abbreviation LF :: char where "LF \<equiv> CHR 0x0A"
abbreviation CR :: char where "CR \<equiv> CHR 0x0D"

text \<open>\<^verbatim>\<open>bufio.Scanner\<close> with the buffer the callers give it: a line that does not fit, with its
  newline, ends the scan. The flag says that it did.\<close>

definition scanBuffer :: nat where
  "scanBuffer = 1024 * 1024"

definition drop_cr :: "string \<Rightarrow> string" where
  "drop_cr l = (if l \<noteq> [] \<and> last l = CR then butlast l else l)"

definition file_lines :: "string \<Rightarrow> string list" where
  "file_lines d = (let ls = split_on LF d in if last ls = [] then butlast ls else ls)"

definition scan_lines :: "string \<Rightarrow> string list \<times> bool" where
  "scan_lines d =
     (let ls = file_lines d
      in (map drop_cr (takeWhile (\<lambda>l. length l < scanBuffer) ls), \<not> list_all (\<lambda>l. length l < scanBuffer) ls))"

section \<open>Repair\<close>

fun repair_scan :: "nat \<Rightarrow> nat \<Rightarrow> string list \<Rightarrow> nat" where
  "repair_scan offset validEnd [] = validEnd"
| "repair_scan offset validEnd (t # ts) =
     (let line = trim_space t; lineLen = length t + 1
      in if line = [] then repair_scan (offset + lineLen) validEnd ts
         else if json_Valid line then repair_scan (offset + lineLen) (offset + lineLen) ts
         else repair_scan (offset + lineLen) validEnd ts)"

definition repairJSONL :: "string option \<Rightarrow> string option" where
  "repairJSONL f =
     (case f of
        None \<Rightarrow> None
      | Some d \<Rightarrow>
          let validEnd = repair_scan 0 0 (fst (scan_lines d))
          in if validEnd < length d then Some (take validEnd d) else Some d)"

text \<open>The other repair, which walks the bytes and counts the lines it keeps.\<close>

definition trim_cr_space :: "string \<Rightarrow> string" where
  "trim_cr_space l = rev (dropWhile (\<lambda>c. c = CR \<or> c = CHR '' '') (rev l))"

fun walk_lines :: "nat \<Rightarrow> nat \<Rightarrow> nat \<Rightarrow> string list \<Rightarrow> nat \<times> nat" where
  "walk_lines offset count validEnd [] = (count, validEnd)"
| "walk_lines offset count validEnd (l # ls) =
     (let lineEnd = offset + length l + (if ls = [] then 0 else 1); line = trim_cr_space l
      in if line \<noteq> [] \<and> json_Valid line then walk_lines lineEnd (count + 1) lineEnd ls
         else walk_lines lineEnd count validEnd ls)"

definition RepairJSONL :: "string option \<Rightarrow> nat \<times> string option" where
  "RepairJSONL f =
     (case f of
        None \<Rightarrow> (0, None)
      | Some d \<Rightarrow>
          let (count, validEnd) = walk_lines 0 0 0 (split_on LF d)
          in (count, if validEnd < length d then Some (take validEnd d) else Some d))"

section \<open>Reading\<close>

definition decode_line :: "(string \<Rightarrow> 'm option) \<Rightarrow> string \<Rightarrow> 'm option" where
  "decode_line dec t = (let line = trim_space t in if line = [] then None else dec line)"

text \<open>The messages of a file that pass a test, and the last \<open>n\<close> of them; a failed scan is an error.\<close>

definition read_log :: "(string \<Rightarrow> 'm option) \<Rightarrow> ('m \<Rightarrow> bool) \<Rightarrow> int \<Rightarrow> string \<Rightarrow> 'm list option" where
  "read_log dec want n d =
     (let (ts, tooLong) = scan_lines d; all = filter want (List.map_filter (decode_line dec) ts)
      in if tooLong then None else if n \<le> 0 then Some [] else Some (last_n (nat n) all))"

definition tail_log :: "(string \<Rightarrow> 'm option) \<Rightarrow> ('m \<Rightarrow> bool) \<Rightarrow> int \<Rightarrow> string option \<Rightarrow> 'm list option \<times> string option" where
  "tail_log dec want n f =
     (let f = repairJSONL f in (case f of None \<Rightarrow> Some [] | Some d \<Rightarrow> read_log dec want n d, f))"

text \<open>The reader of the other format, which has no limit on lines.\<close>

definition trim_cr_space_tab :: "string \<Rightarrow> string" where
  "trim_cr_space_tab l = rev (dropWhile (\<lambda>c. c = CR \<or> c = CHR '' '' \<or> c = CHR 0x09) (rev l))"

definition readPersistedJSONL :: "(string \<Rightarrow> 'm option) \<Rightarrow> string option \<Rightarrow> 'm list" where
  "readPersistedJSONL dec f =
     (case f of
        None \<Rightarrow> []
      | Some d \<Rightarrow>
          List.map_filter (\<lambda>l. let line = trim_cr_space_tab l in if line = [] then None else dec line) (split_on LF d))"

definition ReadLastN :: "(string \<Rightarrow> 'm option) \<Rightarrow> int \<Rightarrow> string option \<Rightarrow> 'm list" where
  "ReadLastN dec n f = (if n \<le> 0 then [] else last_n (nat n) (readPersistedJSONL dec f))"

section \<open>The log of a list of lines\<close>

definition log_of :: "string list \<Rightarrow> string" where
  "log_of ls = concat (map (\<lambda>l. l @ [LF]) ls)"

text \<open>What \<^verbatim>\<open>json.Marshal\<close> writes for a message.\<close>

definition line_ok :: "string \<Rightarrow> bool" where
  "line_ok l \<longleftrightarrow> json_object l \<and> LF \<notin> set l \<and> CR \<notin> set l \<and> length l < scanBuffer"

lemma split_log_of: "list_all (\<lambda>l. LF \<notin> set l) ls \<Longrightarrow> split_on LF (log_of ls @ t) = ls @ split_on LF t"
  by (induction ls) (simp_all add: log_of_def split_on_app split_on_free)

lemma length_log_of: "length (log_of ls) = sum_list (map (\<lambda>l. length l + 1) ls)"
  by (induction ls) (simp_all add: log_of_def)

lemma log_of_simps [simp]: "log_of [] = []" "log_of (l # ls) = l @ LF # log_of ls" "log_of (ls @ ls') = log_of ls @ log_of ls'"
  by (simp_all add: log_of_def)

lemma file_lines_log: "list_all (\<lambda>l. LF \<notin> set l) ls \<Longrightarrow> LF \<notin> set p \<Longrightarrow> file_lines (log_of ls @ p) = ls @ (if p = [] then [] else [p])"
  by (simp add: file_lines_def split_log_of split_on_free)

lemma is_space_braces [simp]: "\<not> is_space (CHR ''{'')" "\<not> is_space (CHR ''}'')"
  by (simp_all add: is_space_def)

lemma trim_left_hd: "s \<noteq> [] \<Longrightarrow> \<not> is_space (hd s) \<Longrightarrow> trim_left s = s"
  by (cases s) (simp_all add: trim_left_def)

lemma trim_right_last: "s \<noteq> [] \<Longrightarrow> \<not> is_space (last s) \<Longrightarrow> trim_right s = s"
  by (cases s rule: rev_cases) (simp_all add: trim_right_def)

lemma trim_space_object: "json_object l \<Longrightarrow> trim_space l = l"
  by (cases "l = []") (simp_all add: trim_space_def trim_left_hd trim_right_last json_object_def)

lemma trim_right_prefix: "\<exists>t. s = trim_right s @ t"
proof -
  have "rev s = takeWhile is_space (rev s) @ dropWhile is_space (rev s)" by simp
  then have "s = rev (dropWhile is_space (rev s)) @ rev (takeWhile is_space (rev s))" by (metis rev_append rev_rev_ident)
  then show ?thesis by (auto simp: trim_right_def)
qed

lemma drop_cr_id: "CR \<notin> set l \<Longrightarrow> drop_cr l = l"
  by (auto simp: drop_cr_def dest: last_in_set)

text \<open>A torn object is not valid.\<close>

lemma torn_line_invalid:
  assumes "json_object (p @ u)" "u \<noteq> []" "p \<noteq> []"
  shows "trim_space p \<noteq> [] \<and> \<not> json_Valid (trim_space p)"
proof -
  have hd: "hd p = CHR ''{''" using assms by (simp add: json_object_def)
  then have tl: "trim_space p = trim_right p" using assms(3) by (simp add: trim_space_def trim_left_hd)
  obtain t where t: "p = trim_right p @ t" using trim_right_prefix by blast
  have "trim_right p \<noteq> []"
  proof
    assume "trim_right p = []"
    then have "list_all is_space p" by (simp add: trim_right_def list_all_iff)
    then show False using hd assms(3) by (cases p) simp_all
  qed
  moreover have "\<not> json_Valid (trim_right p)"
    by (rule object_prefix_invalid[of _ "t @ u"]) (use t assms in \<open>metis append_assoc\<close>, use assms in simp)
  ultimately show ?thesis using tl by simp
qed

lemma line_ok_split: "line_ok l \<Longrightarrow> json_object l \<and> LF \<notin> set l \<and> CR \<notin> set l \<and> length l < scanBuffer"
  by (simp add: line_ok_def)

lemma repair_scan_lines:
  "list_all line_ok ls \<Longrightarrow> ts \<noteq> [] \<or> ls \<noteq> [] \<or> validEnd = offset \<Longrightarrow>
     repair_scan offset validEnd (ls @ ts) =
       repair_scan (offset + length (log_of ls)) (if ls = [] then validEnd else offset + length (log_of ls)) ts"
proof (induction ls arbitrary: offset validEnd)
  case (Cons l ls)
  have l: "trim_space l = l" "json_Valid l" "l \<noteq> []" "json_object l"
    using Cons.prems by (auto simp: line_ok_def trim_space_object json_object_def)
  then show ?case using Cons.IH[of "offset + length l + 1" "offset + length l + 1"] Cons.prems
    by (simp add: Let_def add_ac)
qed simp

lemma line_ok_lists: "list_all line_ok ls \<Longrightarrow> list_all (\<lambda>l. LF \<notin> set l) ls \<and> map drop_cr ls = ls \<and> list_all (\<lambda>l. length l < scanBuffer) ls"
  by (induction ls) (auto simp: line_ok_def drop_cr_id)

lemma scan_log:
  assumes "list_all line_ok ls" "LF \<notin> set p" "CR \<notin> set p" "length p < scanBuffer"
  shows "scan_lines (log_of ls @ p) = (ls @ (if p = [] then [] else [p]), False)"
proof -
  note ok = line_ok_lists[OF assms(1)]
  have "takeWhile (\<lambda>l. length l < scanBuffer) (ls @ (if p = [] then [] else [p])) = ls @ (if p = [] then [] else [p])"
    using ok assms(4) by (auto simp: takeWhile_eq_all_conv list_all_iff)
  then show ?thesis using ok assms
    by (simp add: scan_lines_def file_lines_log drop_cr_id)
qed

lemma scan_log_long:
  assumes "list_all line_ok ls" "LF \<notin> set l" "\<not> length l < scanBuffer"
  shows "fst (scan_lines (log_of ls @ l @ d)) = ls"
proof -
  note ok = line_ok_lists[OF assms(1)]
  have "\<exists>m ms. split_on LF (l @ d) = m # ms \<and> length l \<le> length m"
    using assms(2)
  proof (induction l)
    case Nil
    then show ?case by (cases "split_on LF d") auto
  next
    case (Cons c l)
    then obtain m ms where "split_on LF (l @ d) = m # ms" "length l \<le> length m" by auto
    then show ?case using Cons.prems by auto
  qed
  then obtain m ms where m: "split_on LF (l @ d) = m # ms" "length l \<le> length m" by auto
  then have "m \<noteq> []" using assms(3) by (auto simp: scanBuffer_def)
  then have "\<exists>ms'. file_lines (log_of ls @ l @ d) = ls @ m # ms'"
    using ok m by (auto simp: file_lines_def split_log_of Let_def butlast_append)
  then show ?thesis using ok m assms(3)
    by (auto simp: scan_lines_def list_all_iff takeWhile_append2 map_idI drop_cr_def)
qed

lemma repair_clean: "list_all line_ok ls \<Longrightarrow> repairJSONL (Some (log_of ls)) = Some (log_of ls)"
  using scan_log[of ls "[]"] repair_scan_lines[of ls "[]" 0 0]
  by (simp add: repairJSONL_def scanBuffer_def Let_def)

lemma repair_torn:
  assumes "list_all line_ok ls" "line_ok (p @ u)"
  shows "repairJSONL (Some (log_of ls @ p)) = Some (if u = [] then log_of ls @ p else log_of ls)"
proof (cases "p = []")
  case True
  then show ?thesis using repair_clean[OF assms(1)] assms(2) by (auto simp: line_ok_def)
next
  case False
  have p: "LF \<notin> set p" "CR \<notin> set p" "length p < scanBuffer" using assms(2) by (auto simp: line_ok_def)
  have scan: "repair_scan 0 0 (ls @ [p]) = (if u = [] then length (log_of ls @ p) + 1 else length (log_of ls))"
  proof (cases "u = []")
    case True
    then have "list_all line_ok (ls @ [p])" using assms by simp
    from repair_scan_lines[OF this, of "[]" 0 0] True show ?thesis by simp
  next
    case u: False
    have "json_object (p @ u)" using assms(2) by (simp add: line_ok_def)
    from torn_line_invalid[OF this u False]
    have "trim_space p \<noteq> []" "\<not> json_Valid (trim_space p)" by simp_all
    then show ?thesis using repair_scan_lines[OF assms(1), of "[p]" 0 0] u by simp
  qed
  then show ?thesis using scan_log[OF assms(1) p] False
    by (auto simp: repairJSONL_def Let_def)
qed

lemma decode_object: "json_object l \<Longrightarrow> decode_line dec l = dec l"
  by (auto simp: decode_line_def trim_space_object Let_def)

lemma read_log_of:
  assumes "list_all line_ok ls" "list_all2 (\<lambda>l m. dec l = Some m) ls ms" "n > 0"
  shows "read_log dec (\<lambda>_. True) n (log_of ls) = Some (last_n (nat n) ms)"
proof -
  have "List.map_filter (decode_line dec) ls = ms"
    using assms(2,1) by (induction rule: list_all2_induct) (auto simp: decode_object line_ok_def)
  then show ?thesis using scan_log[OF assms(1), of "[]"] assms(3)
    by (simp add: read_log_def scanBuffer_def)
qed

text \<open>The newline at the end of the file may be missing.\<close>

lemma read_log_unended:
  assumes "line_ok l"
  shows "list_all line_ok ls \<Longrightarrow> read_log dec want n (log_of ls @ l) = read_log dec want n (log_of (ls @ [l]))"
  using scan_log[of ls l] scan_log[of "ls @ [l]" "[]"] assms
  by (auto simp: read_log_def scanBuffer_def line_ok_def)

text \<open>The encoder writes one line per message and the decoder reads it back.\<close>

definition codec_on :: "('m \<Rightarrow> string) \<Rightarrow> (string \<Rightarrow> 'm option) \<Rightarrow> 'm list \<Rightarrow> bool" where
  "codec_on enc dec ms \<longleftrightarrow> list_all (\<lambda>m. line_ok (enc m) \<and> dec (enc m) = Some m) ms"

lemma codec_on_append [simp]: "codec_on enc dec (ms @ ms') \<longleftrightarrow> codec_on enc dec ms \<and> codec_on enc dec ms'"
  by (simp add: codec_on_def)

lemma codec_on_Cons [simp]: "codec_on enc dec (m # ms) \<longleftrightarrow> line_ok (enc m) \<and> dec (enc m) = Some m \<and> codec_on enc dec ms"
  by (simp add: codec_on_def)

lemma codec_on_Nil [simp]: "codec_on enc dec []"
  by (simp add: codec_on_def)

lemma codec_lines: "codec_on enc dec ms \<Longrightarrow> list_all line_ok (map enc ms)"
  by (induction ms) simp_all

lemma codec_decodes: "codec_on enc dec ms \<Longrightarrow> list_all2 (\<lambda>l m. dec l = Some m) (map enc ms) ms"
  by (induction ms) simp_all

lemma read_codec: "codec_on enc dec ms \<Longrightarrow> n > 0 \<Longrightarrow> read_log dec (\<lambda>_. True) n (log_of (map enc ms)) = Some (last_n (nat n) ms)"
  by (rule read_log_of[OF codec_lines codec_decodes])

lemma tail_log_of:
  assumes "codec_on enc dec ms" "n > 0"
  shows "tail_log dec (\<lambda>_. True) n (Some (log_of (map enc ms))) = (Some (last_n (nat n) ms), Some (log_of (map enc ms)))"
  using repair_clean[OF codec_lines[OF assms(1)]] read_codec[OF assms] by (simp add: tail_log_def)

section \<open>Crashes\<close>


lemma repair_dead_line:
  assumes "list_all line_ok ls" "line_ok l" "line_ok l'"
  shows "repairJSONL (Some (log_of ls @ (l @ l') @ [LF])) = Some (log_of ls)"
proof (cases "length (l @ l') < scanBuffer")
  case True
  have "trim_space (l @ l') = l @ l'" "\<not> json_Valid (l @ l')" "l @ l' \<noteq> []"
  proof -
    have "json_object l" "json_object l'" using assms by (simp_all add: line_ok_def)
    then show "\<not> json_Valid (l @ l')" "l @ l' \<noteq> []" using object_glue_invalid by auto
    then show "trim_space (l @ l') = l @ l'" using \<open>json_object l\<close> \<open>json_object l'\<close>
      by (cases l; cases l') (simp_all add: trim_space_def trim_left_hd trim_right_last json_object_def)
  qed
  moreover have "fst (scan_lines (log_of ls @ (l @ l') @ [LF])) = ls @ [l @ l']"
  proof -
    have "file_lines (log_of ls @ (l @ l') @ [LF]) = ls @ [l @ l']"
      using file_lines_log[of "ls @ [l @ l']" "[]"] line_ok_lists[OF assms(1)] assms(2,3) by (simp add: line_ok_def)
    then show ?thesis using line_ok_lists[OF assms(1)] True assms(2,3) \<open>l @ l' \<noteq> []\<close>
      by (simp add: scan_lines_def Let_def takeWhile_eq_all_conv list_all_iff drop_cr_id line_ok_def
        takeWhile_append2)
  qed
  ultimately show ?thesis using repair_scan_lines[OF assms(1), of "[l @ l']" 0 0]
    by (simp add: repairJSONL_def Let_def)
next
  case False
  then have "fst (scan_lines (log_of ls @ (l @ l') @ [LF])) = ls"
    using scan_log_long[OF assms(1), of "l @ l'" "[LF]"] assms(2,3) by (simp add: line_ok_def)
  then show ?thesis using repair_scan_lines[OF assms(1), of "[]" 0 0]
    by (simp add: repairJSONL_def Let_def)
qed

text \<open>
  A crash between a message and its newline costs two messages: the repair keeps the unended
  line, the next append continues it, and then the joined line is invalid, so reading removes both.\<close>

lemma lost_newline_loses_two:
  assumes "codec_on enc dec (ms @ [m, m'])" "n > 0"
  shows "repairJSONL (Some (log_of (map enc ms) @ enc m)) = Some (log_of (map enc ms) @ enc m) \<and>
    tail_log dec (\<lambda>_. True) n (Some ((log_of (map enc ms) @ enc m) @ enc m' @ [LF])) =
      (Some (last_n (nat n) ms), Some (log_of (map enc ms)))"
proof
  show "repairJSONL (Some (log_of (map enc ms) @ enc m)) = Some (log_of (map enc ms) @ enc m)"
    using repair_torn[of "map enc ms" "enc m" "[]"] codec_lines[of enc dec ms] assms(1) by simp
  have "repairJSONL (Some (log_of (map enc ms) @ (enc m @ enc m') @ [LF])) = Some (log_of (map enc ms))"
    using repair_dead_line[of "map enc ms" "enc m" "enc m'"] codec_lines[of enc dec ms] assms(1) by simp
  then show "tail_log dec (\<lambda>_. True) n (Some ((log_of (map enc ms) @ enc m) @ enc m' @ [LF])) =
      (Some (last_n (nat n) ms), Some (log_of (map enc ms)))"
    using read_codec[of enc dec ms n] assms by (simp add: tail_log_def)
qed

text \<open>
  A line of a mebibyte or more is the end of the log: the scanner of the repair stops there, so
  reading cuts that line off and everything after it, valid or not.\<close>

lemma long_line_cuts_log:
  assumes "list_all line_ok ls" "LF \<notin> set l" "length l \<ge> scanBuffer"
  shows "repairJSONL (Some (log_of ls @ l @ LF # d)) = Some (log_of ls)"
proof -
  have "fst (scan_lines (log_of ls @ l @ LF # d)) = ls" using scan_log_long[OF assms(1,2), of "LF # d"] assms(3) by simp
  then show ?thesis using repair_scan_lines[OF assms(1), of "[]" 0 0] by (simp add: repairJSONL_def Let_def)
qed

section \<open>The two repairs\<close>

lemma trim_cr_space_suffix: "\<exists>t. l = trim_cr_space l @ t \<and> list_all json_space t"
proof -
  let ?P = "\<lambda>c. c = CR \<or> c = CHR '' ''"
  have "rev l = takeWhile ?P (rev l) @ dropWhile ?P (rev l)" by simp
  then have "l = trim_cr_space l @ rev (takeWhile ?P (rev l))" unfolding trim_cr_space_def by (metis rev_append rev_rev_ident)
  moreover have "list_all json_space (rev (takeWhile ?P (rev l)))"
    by (auto simp: list_all_iff json_space_def dest: set_takeWhileD)
  ultimately show ?thesis by blast
qed

lemma trim_space_parts:
  assumes "list_all (\<lambda>c. is_space c \<longrightarrow> json_space c) l"
  shows "\<exists>s t. l = s @ trim_space l @ t \<and> list_all json_space s \<and> list_all json_space t"
proof -
  have 1: "l = takeWhile is_space l @ trim_left l" by (simp add: trim_left_def)
  have 2: "trim_left l = trim_right (trim_left l) @ rev (takeWhile is_space (rev (trim_left l)))"
    unfolding trim_right_def by (metis rev_append rev_rev_ident takeWhile_dropWhile_id)
  have "list_all json_space (takeWhile is_space l)" using assms by (auto simp: list_all_iff dest: set_takeWhileD)
  moreover have "list_all json_space (rev (takeWhile is_space (rev (trim_left l))))"
    using assms by (auto simp: list_all_iff trim_left_def dest!: set_takeWhileD set_dropWhileD)
  ultimately show ?thesis using 1 2 unfolding trim_space_def by metis
qed

lemma trims_valid:
  assumes "list_all (\<lambda>c. is_space c \<longrightarrow> json_space c) l"
  shows "json_Valid (trim_space l) \<longleftrightarrow> json_Valid (trim_cr_space l)"
proof -
  obtain s t where st: "l = s @ trim_space l @ t" "list_all json_space s" "list_all json_space t"
    using trim_space_parts[OF assms] by blast
  obtain u where u: "l = trim_cr_space l @ u" "list_all json_space u" using trim_cr_space_suffix by blast
  have "json_Valid (trim_space l) \<longleftrightarrow> json_Valid l"
    using json_Valid_spaces_left[OF st(2), of "trim_space l @ t"] json_Valid_spaces_right[OF st(3), of "trim_space l"] st(1)
    by metis
  moreover have "json_Valid (trim_cr_space l) \<longleftrightarrow> json_Valid l"
    using json_Valid_spaces_right[OF u(2), of "trim_cr_space l"] u(1) by metis
  ultimately show ?thesis by simp
qed

text \<open>Lines both repairs read alike.\<close>

definition plain_line :: "string \<Rightarrow> bool" where
  "plain_line l \<longleftrightarrow> CR \<notin> set l \<and> list_all (\<lambda>c. is_space c \<longrightarrow> json_space c) l \<and> length l < scanBuffer"

definition lines_length :: "string list \<Rightarrow> nat" where
  "lines_length ls = sum_list (map (\<lambda>l. length l + 1) ls) - 1"

lemma walk_repair:
  "ls \<noteq> [] \<Longrightarrow> list_all plain_line ls \<Longrightarrow> validEnd \<le> offset \<Longrightarrow>
     snd (walk_lines offset count validEnd ls) =
       min (offset + lines_length ls) (repair_scan offset validEnd (if last ls = [] then butlast ls else ls))"
proof (induction ls arbitrary: offset count validEnd)
  case (Cons l ls)
  have valid: "json_Valid (trim_space l) \<longleftrightarrow> json_Valid (trim_cr_space l)"
    using Cons.prems(2) by (intro trims_valid) (simp add: plain_line_def)
  have ne: "json_Valid t \<Longrightarrow> t \<noteq> []" for t by auto
  show ?case
  proof (cases ls)
    case Nil
    then show ?thesis using valid ne[of "trim_space l"] ne[of "trim_cr_space l"] Cons.prems(3)
      by (auto simp: Let_def lines_length_def trim_cr_space_def)
  next
    case ls: (Cons a list)
    define v where "v = (if json_Valid (trim_space l) then offset + length l + 1 else validEnd)"
    have len: "offset + lines_length (l # ls) = (offset + length l + 1) + lines_length ls"
      using ls by (simp add: lines_length_def)
    have walk: "snd (walk_lines offset count validEnd (l # ls)) =
        snd (walk_lines (offset + length l + 1) (if json_Valid (trim_space l) then count + 1 else count) v ls)"
      using valid ne[of "trim_cr_space l"] ls by (auto simp: Let_def v_def)
    have scan: "repair_scan offset validEnd (l # xs) = repair_scan (offset + length l + 1) v xs" for xs
      using ne[of "trim_space l"] by (auto simp: Let_def v_def add_ac)
    have "v \<le> offset + length l + 1" using Cons.prems(3) by (simp add: v_def)
    note IH = Cons.IH[OF _ _ this, of "if json_Valid (trim_space l) then count + 1 else count"]
    show ?thesis unfolding walk len using IH Cons.prems(2) ls scan by simp
  qed
qed simp

text \<open>
  The two repairs of the log agree: on a file whose lines fit the scanner and hold no carriage
  return, vertical tab or form feed, the one that scans and the one that walks the bytes leave the
  same file.\<close>

lemma repairs_agree:
  assumes "list_all plain_line (split_on LF d)"
  shows "snd (RepairJSONL (Some d)) = repairJSONL (Some d)"
proof -
  let ?ls = "split_on LF d"
  have len: "lines_length (split_on LF d) = length d" for d
  proof (induction d)
    case (Cons c d)
    obtain m ms where "split_on LF d = m # ms" by (cases "split_on LF d") auto
    then show ?case using Cons by (auto simp: lines_length_def)
  qed (simp add: lines_length_def)
  have scan: "fst (scan_lines d) = (if last ?ls = [] then butlast ?ls else ?ls)"
  proof -
    have "map drop_cr (takeWhile (\<lambda>l. length l < scanBuffer) xs) = xs" if "list_all plain_line xs" for xs
      using that by (induction xs) (simp_all add: plain_line_def drop_cr_id)
    moreover have "list_all plain_line (file_lines d)" using assms
      by (auto simp: file_lines_def Let_def list_all_iff dest: in_set_butlastD)
    ultimately show ?thesis by (simp add: scan_lines_def Let_def) (simp add: file_lines_def Let_def)
  qed
  let ?v = "repair_scan 0 0 (if last ?ls = [] then butlast ?ls else ?ls)"
  have walk: "snd (walk_lines 0 0 0 ?ls) = min (length d) ?v"
    using walk_repair[OF _ assms, of 0 0 0] len[of d] by simp
  have "snd (RepairJSONL (Some d)) = Some (take (min (length d) ?v) d)"
    using walk by (auto simp: RepairJSONL_def Let_def case_prod_beta)
  moreover have "repairJSONL (Some d) = Some (take ?v d)"
    using scan by (auto simp: repairJSONL_def Let_def)
  ultimately show ?thesis by (simp add: min_def)
qed

section \<open>Instances\<close>

lemma demo_lines: "line_ok ''{}''" "line_ok ''{ }''" "line_ok ''{  }''"
proof -
  have "json_Valid ''{}''" "json_Valid ''{ }''" "json_Valid ''{  }''" by code_simp+
  then show "line_ok ''{}''" "line_ok ''{ }''" "line_ok ''{  }''"
    by (simp_all add: line_ok_def json_object_def scanBuffer_def)
qed

lemma demo_codec: "codec_on (\<lambda>l. l) Some [''{}'', ''{ }'']" "codec_on (\<lambda>l. l) Some ([''{}''] @ [''{ }'', ''{  }''])"
  using demo_lines by simp_all


end
