(* ===== verification/SessionStore.thy ===== *)
theory SessionStore
  imports SessionLog FileSystem
begin

text \<open>
  The file store of sessions (\<^verbatim>\<open>internal/session/store.go\<close>, \<^verbatim>\<open>types.go\<close>, \<^verbatim>\<open>delegate_session.go\<close>): a
  directory per session with its manifest, its message log and the logs of its threads. The state
  is the files below the base directory by their paths, and a directory exists when it holds a file;
  reads and writes succeed. Encoding and decoding of messages and manifests, identifiers and the
  clock are arguments.
\<close>

section \<open>Sessions\<close>

text \<open>\<open>sm_Rest\<close> are the fields the store only passes on.\<close>

record 'e session_message =
  sm_ID :: string
  sm_Ts :: gotime
  sm_Seq :: int
  sm_Role :: string
  sm_Content :: string
  sm_ToolName :: string
  sm_ToolCallID :: string
  sm_Type :: string
  sm_Rest :: 'e

record manifest =
  mf_SessionID :: string
  mf_ID :: string
  mf_Title :: string
  mf_Model :: string
  mf_Agent :: string
  mf_CreatedAt :: gotime
  mf_UpdatedAt :: gotime
  mf_MessageCount :: int
  mf_LastMessageID :: string
  mf_WorkspaceRoot :: string
  mf_WorkspaceName :: string
  mf_Status :: string
  mf_Version :: int
  mf_Source :: string
  mf_RoutineID :: string
  mf_RunID :: string
  mf_SpaceID :: string

record session =
  se_ID :: string
  se_Manifest :: manifest
  se_seq :: int

datatype session_error =
  EmptyID
| LongID nat
| TraversalID
| BadCharID
| ContentTooLong nat
| MarshalFailed
| LoadManifestFailed string
| ParseManifestFailed string
| ScanFailed string
| DelegateNoSession string
| DelegateEmptyID

type_synonym files = "(path, string) gomap"

definition empty_manifest :: manifest where
  "empty_manifest = \<lparr>mf_SessionID = [], mf_ID = [], mf_Title = [], mf_Model = [], mf_Agent = [], mf_CreatedAt = t_zero,
     mf_UpdatedAt = t_zero, mf_MessageCount = 0, mf_LastMessageID = [], mf_WorkspaceRoot = [], mf_WorkspaceName = [],
     mf_Status = [], mf_Version = 0, mf_Source = [], mf_RoutineID = [], mf_RunID = [], mf_SpaceID = []\<rparr>"

section \<open>Identifiers and paths\<close>

definition id_char :: "char \<Rightarrow> bool" where
  "id_char c = (let n = (of_char c :: nat)
     in (97 \<le> n \<and> n \<le> 122) \<or> (65 \<le> n \<and> n \<le> 90) \<or> (48 \<le> n \<and> n \<le> 57) \<or>
        c = CHR ''_'' \<or> c = CHR ''-'' \<or> c = CHR ''.'')"

definition validateID :: "string \<Rightarrow> session_error option" where
  "validateID i =
     (if i = [] then Some EmptyID
      else if length i > 128 then Some (LongID (length i))
      else if contains_str i ''..'' then Some TraversalID
      else if \<not> list_all id_char i then Some BadCharID
      else None)"

definition sessionDir :: "path \<Rightarrow> string \<Rightarrow> path" where
  "sessionDir base i = path_join base i"

definition jsonlPath :: "path \<Rightarrow> string \<Rightarrow> path" where
  "jsonlPath base i = path_join (sessionDir base i) ''messages.jsonl''"

definition manifestPath :: "path \<Rightarrow> string \<Rightarrow> path" where
  "manifestPath base i = path_join (sessionDir base i) ''manifest.json''"

definition threadJSONLPath :: "path \<Rightarrow> string \<Rightarrow> string \<Rightarrow> path" where
  "threadJSONLPath base i t = path_join (sessionDir base i) (''thread-'' @ t @ ''.jsonl'')"

definition DefaultMaxMessagesPerSession :: int where
  "DefaultMaxMessagesPerSession = 10000"

definition maxMessageContentBytes :: nat where
  "maxMessageContentBytes = 64 * 1024"

definition maxMessages :: "int \<Rightarrow> int" where
  "maxMessages m = (if m > 0 then m else DefaultMaxMessagesPerSession)"

section \<open>Messages\<close>

text \<open>A new session; \<open>base_name\<close> is the last element of the workspace root.\<close>

definition session_New :: "string \<Rightarrow> gotime \<Rightarrow> string \<Rightarrow> string \<Rightarrow> string \<Rightarrow> string \<Rightarrow> session" where
  "session_New newID now base_name title workspaceRoot model =
     (let wname = (if base_name = ''.'' \<or> base_name = [] then workspaceRoot else base_name)
      in \<lparr>se_ID = newID,
          se_Manifest = empty_manifest\<lparr>mf_SessionID := newID, mf_ID := newID, mf_Title := title, mf_Model := model,
            mf_WorkspaceRoot := workspaceRoot, mf_WorkspaceName := wname, mf_CreatedAt := now, mf_UpdatedAt := now,
            mf_Status := ''active'', mf_Version := 1\<rparr>,
          se_seq = 0\<rparr>)"

text \<open>A write at the end of a file, which is created when it is missing.\<close>

definition append_file :: "path \<Rightarrow> string \<Rightarrow> files \<Rightarrow> files" where
  "append_file p s fs = gm_put p ((case gm_get fs p of None \<Rightarrow> [] | Some d \<Rightarrow> d) @ s) fs"

definition stamp :: "string \<Rightarrow> int \<Rightarrow> gotime \<Rightarrow> 'e session_message \<Rightarrow> 'e session_message" where
  "stamp newID sq now msg = msg\<lparr>sm_ID := newID, sm_Seq := sq, sm_Ts := (if sm_Ts msg = t_zero then now else sm_Ts msg)\<rparr>"

text \<open>The result is the error, the session, the files and whether a trim is started.\<close>

definition session_Append ::
  "('e session_message \<Rightarrow> string option) \<Rightarrow> path \<Rightarrow> int \<Rightarrow> string \<Rightarrow> gotime \<Rightarrow> session \<Rightarrow> 'e session_message \<Rightarrow> files \<Rightarrow>
     session_error option \<times> session \<times> files \<times> bool" where
  "session_Append marshal base cap newID now sess msg fs =
     (if length (sm_Content msg) > maxMessageContentBytes
      then (Some (ContentTooLong (length (sm_Content msg))), sess, fs, False)
      else
        let msg = stamp newID (se_seq sess + 1) now msg; sess = sess\<lparr>se_seq := se_seq sess + 1\<rparr>
        in case marshal msg of
             None \<Rightarrow> (Some MarshalFailed, sess, fs, False)
           | Some line \<Rightarrow>
               let fs = append_file (jsonlPath base (se_ID sess)) (line @ [LF]) fs;
                   m = se_Manifest sess;
                   count = mf_MessageCount m + 1;
                   sess = sess\<lparr>se_Manifest := m\<lparr>mf_MessageCount := count, mf_LastMessageID := newID\<rparr>\<rparr>
               in (None, sess, fs, count > 0 \<and> count mod 100 = 0 \<and> count > maxMessages cap))"

definition put_back :: "path \<Rightarrow> string option \<Rightarrow> files \<Rightarrow> files" where
  "put_back p f fs = (case f of None \<Rightarrow> fs | Some d \<Rightarrow> gm_put p d fs)"

definition tail_where ::
  "(string \<Rightarrow> 'e session_message option) \<Rightarrow> path \<Rightarrow> ('e session_message \<Rightarrow> bool) \<Rightarrow> string \<Rightarrow> int \<Rightarrow> files \<Rightarrow>
     (session_error + 'e session_message list) \<times> files" where
  "tail_where dec base want i n fs =
     (case validateID i of
        Some e \<Rightarrow> (Inl e, fs)
      | None \<Rightarrow>
          let p = jsonlPath base i; (r, f) = tail_log dec want n (gm_get fs p)
          in (case r of None \<Rightarrow> Inl (ScanFailed i) | Some ms \<Rightarrow> Inr ms, put_back p f fs))"

definition TailMessages ::
  "(string \<Rightarrow> 'e session_message option) \<Rightarrow> path \<Rightarrow> string \<Rightarrow> int \<Rightarrow> files \<Rightarrow>
     (session_error + 'e session_message list) \<times> files" where
  "TailMessages dec base i n fs = tail_where dec base (\<lambda>_. True) i n fs"

definition TailMessagesBefore ::
  "(string \<Rightarrow> 'e session_message option) \<Rightarrow> path \<Rightarrow> string \<Rightarrow> int \<Rightarrow> int \<Rightarrow> files \<Rightarrow>
     (session_error + 'e session_message list) \<times> files" where
  "TailMessagesBefore dec base i n beforeSeq fs = tail_where dec base (\<lambda>m. sm_Seq m < beforeSeq) i n fs"

text \<open>
  The trim in the background: what it keeps is read first, and the file is replaced by a rename.
  The appends are not locked out in between.\<close>

definition trim_read ::
  "(string \<Rightarrow> 'e session_message option) \<Rightarrow> path \<Rightarrow> int \<Rightarrow> string \<Rightarrow> files \<Rightarrow> 'e session_message list option \<times> files" where
  "trim_read dec base cap i fs =
     (let limit = maxMessages cap
      in case TailMessages dec base i (limit + 1) fs of
           (Inl e, fs) \<Rightarrow> (None, fs)
         | (Inr all, fs) \<Rightarrow> (if int (length all) \<le> limit then None else Some (last_n (nat limit) all), fs))"

definition trim_write :: "('e session_message \<Rightarrow> string option) \<Rightarrow> path \<Rightarrow> string \<Rightarrow> 'e session_message list \<Rightarrow> files \<Rightarrow> files" where
  "trim_write marshal base i keep fs =
     (if list_all (\<lambda>m. marshal m \<noteq> None) keep
      then gm_put (jsonlPath base i) (log_of (map (\<lambda>m. the (marshal m)) keep)) fs else fs)"

definition trimMessagesIfNeeded ::
  "('e session_message \<Rightarrow> string option) \<Rightarrow> (string \<Rightarrow> 'e session_message option) \<Rightarrow> path \<Rightarrow> int \<Rightarrow> string \<Rightarrow> files \<Rightarrow> files" where
  "trimMessagesIfNeeded marshal dec base cap i fs =
     (case trim_read dec base cap i fs of (None, fs) \<Rightarrow> fs | (Some keep, fs) \<Rightarrow> trim_write marshal base i keep fs)"

section \<open>Threads\<close>

definition AppendToThread ::
  "('e session_message \<Rightarrow> string option) \<Rightarrow> path \<Rightarrow> string \<Rightarrow> gotime \<Rightarrow> string \<Rightarrow> string \<Rightarrow> 'e session_message \<Rightarrow> files \<Rightarrow>
     session_error option \<times> files" where
  "AppendToThread marshal base newID now sessionID threadID msg fs =
     (case validateID sessionID of
        Some e \<Rightarrow> (Some e, fs)
      | None \<Rightarrow>
        (case validateID threadID of
           Some e \<Rightarrow> (Some e, fs)
         | None \<Rightarrow>
             (case marshal (stamp newID (sm_Seq msg) now msg) of
                None \<Rightarrow> (Some MarshalFailed, fs)
              | Some line \<Rightarrow> (None, append_file (threadJSONLPath base sessionID threadID) (line @ [LF]) fs))))"

text \<open>The logs of threads are not repaired, and a failed scan is not reported.\<close>

definition TailThreadMessages ::
  "(string \<Rightarrow> 'e session_message option) \<Rightarrow> path \<Rightarrow> string \<Rightarrow> string \<Rightarrow> int \<Rightarrow> files \<Rightarrow> session_error + 'e session_message list" where
  "TailThreadMessages dec base sessionID threadID n fs =
     (case validateID sessionID of
        Some e \<Rightarrow> Inl e
      | None \<Rightarrow>
        (case validateID threadID of
           Some e \<Rightarrow> Inl e
         | None \<Rightarrow>
             (case gm_get fs (threadJSONLPath base sessionID threadID) of
                None \<Rightarrow> Inr []
              | Some d \<Rightarrow>
                  let all = List.map_filter (decode_line dec) (fst (scan_lines d))
                  in Inr (if n \<le> 0 then [] else last_n (nat n) all))))"

section \<open>Manifests\<close>

definition SaveManifest ::
  "(manifest \<Rightarrow> string) \<Rightarrow> path \<Rightarrow> gotime \<Rightarrow> session \<Rightarrow> files \<Rightarrow> session \<times> files" where
  "SaveManifest menc base now sess fs =
     (let sess = sess\<lparr>se_Manifest := (se_Manifest sess)\<lparr>mf_UpdatedAt := now\<rparr>\<rparr>
      in (sess, gm_put (manifestPath base (se_ID sess)) (menc (se_Manifest sess)) fs))"

text \<open>The paths under a directory; it exists when there is one.\<close>

definition under :: "path \<Rightarrow> files \<Rightarrow> path list" where
  "under p fs = filter (\<lambda>q. prefix p q) (gm_keys fs)"

definition Exists :: "path \<Rightarrow> string \<Rightarrow> files \<Rightarrow> bool" where
  "Exists base i fs = (validateID i = None \<and> under (sessionDir base i) fs \<noteq> [])"

definition manifest_defaults :: "string \<Rightarrow> manifest \<Rightarrow> manifest" where
  "manifest_defaults i m =
     (let m = (if mf_SessionID m = [] then m\<lparr>mf_SessionID := i\<rparr> else m);
          m = (if mf_ID m = [] then m\<lparr>mf_ID := i\<rparr> else m);
          m = (if mf_Status m = [] then m\<lparr>mf_Status := ''active''\<rparr> else m)
      in if mf_Version m = 0 then m\<lparr>mf_Version := 1\<rparr> else m)"

definition session_Load :: "(string \<Rightarrow> manifest option) \<Rightarrow> path \<Rightarrow> string \<Rightarrow> files \<Rightarrow> session_error + session" where
  "session_Load mdec base i fs =
     (case validateID i of
        Some e \<Rightarrow> Inl e
      | None \<Rightarrow>
        (case gm_get fs (manifestPath base i) of
           None \<Rightarrow> Inl (LoadManifestFailed i)
         | Some data \<Rightarrow>
             (case mdec data of
                None \<Rightarrow> Inl (ParseManifestFailed i)
              | Some m \<Rightarrow> Inr \<lparr>se_ID = i, se_Manifest = manifest_defaults i m, se_seq = 0\<rparr>)))"

definition LoadOrReconstruct ::
  "(string \<Rightarrow> manifest option) \<Rightarrow> (string \<Rightarrow> 'e session_message option) \<Rightarrow> path \<Rightarrow> string \<Rightarrow> files \<Rightarrow>
     (session_error + session) \<times> files" where
  "LoadOrReconstruct mdec dec base i fs =
     (case session_Load mdec base i fs of
        Inr sess \<Rightarrow> (Inr sess, fs)
      | Inl e \<Rightarrow>
          (case TailMessages dec base i (2 ^ 30) fs of
             (Inl _, fs) \<Rightarrow> (Inl e, fs)
           | (Inr msgs, fs) \<Rightarrow>
               (Inr \<lparr>se_ID = i,
                  se_Manifest = empty_manifest\<lparr>mf_SessionID := i, mf_ID := i, mf_Title := ''(recovered) '' @ i,
                    mf_MessageCount := int (length msgs),
                    mf_LastMessageID := (if msgs = [] then [] else sm_ID (last msgs)),
                    mf_Status := ''active'', mf_Version := 1\<rparr>,
                  se_seq = 0\<rparr>, fs)))"

definition ArchiveSession ::
  "(manifest \<Rightarrow> string) \<Rightarrow> (string \<Rightarrow> manifest option) \<Rightarrow> path \<Rightarrow> gotime \<Rightarrow> string \<Rightarrow> files \<Rightarrow> session_error option \<times> files" where
  "ArchiveSession menc mdec base now i fs =
     (case validateID i of
        Some e \<Rightarrow> (Some e, fs)
      | None \<Rightarrow>
        (case session_Load mdec base i fs of
           Inl e \<Rightarrow> (Some e, fs)
         | Inr sess \<Rightarrow>
             (None, snd (SaveManifest menc base now (sess\<lparr>se_Manifest := (se_Manifest sess)\<lparr>mf_Status := ''archived''\<rparr>\<rparr>) fs))))"

text \<open>\<^verbatim>\<open>os.RemoveAll\<close>.\<close>

definition RemoveAll :: "path \<Rightarrow> files \<Rightarrow> files" where
  "RemoveAll p fs = filter (\<lambda>(q, d). \<not> prefix p q) fs"

definition session_Delete :: "path \<Rightarrow> string \<Rightarrow> files \<Rightarrow> session_error option \<times> files" where
  "session_Delete base i fs =
     (case validateID i of Some e \<Rightarrow> (Some e, fs) | None \<Rightarrow> (None, RemoveAll (sessionDir base i) fs))"

section \<open>Lists\<close>

text \<open>The names in a directory, and those of its directories, in order.\<close>

definition entry_names :: "path \<Rightarrow> (path \<Rightarrow> bool) \<Rightarrow> files \<Rightarrow> string list" where
  "entry_names p want fs = sort (remdups (map (\<lambda>q. q ! length p) (filter (\<lambda>q. length q > length p \<and> want q) (under p fs))))"

definition has_suffix :: "string \<Rightarrow> string \<Rightarrow> bool" where
  "has_suffix s p = has_prefix (rev s) (rev p)"

definition ListThreadIDs :: "path \<Rightarrow> string \<Rightarrow> files \<Rightarrow> string list" where
  "ListThreadIDs base sessionID fs =
     map (\<lambda>n. let i = drop 7 n in if has_suffix i ''.jsonl'' then take (length i - 6) i else i)
       (filter (\<lambda>n. has_prefix n ''thread-'' \<and> has_suffix n ''.jsonl'') (entry_names (sessionDir base sessionID) (\<lambda>_. True) fs))"

definition session_List :: "(string \<Rightarrow> manifest option) \<Rightarrow> path \<Rightarrow> files \<Rightarrow> manifest list" where
  "session_List mdec base fs =
     sort_key (\<lambda>m. - mf_UpdatedAt m)
       (List.map_filter (\<lambda>n. case gm_get fs (base @ [n, ''manifest.json'']) of None \<Rightarrow> None | Some data \<Rightarrow> mdec data)
          (entry_names base (\<lambda>q. length q > length base + 1) fs))"

definition ListFiltered :: "(string \<Rightarrow> manifest option) \<Rightarrow> bool \<Rightarrow> path \<Rightarrow> files \<Rightarrow> manifest list" where
  "ListFiltered mdec includeArchived base fs =
     (if includeArchived then session_List mdec base fs
      else filter (\<lambda>m. mf_Status m \<noteq> ''archived'') (session_List mdec base fs))"

section \<open>Sessions for a delegation\<close>

text \<open>The store is missing when the flag is off.\<close>

definition LoadForDelegate ::
  "(manifest \<Rightarrow> string) \<Rightarrow> (string \<Rightarrow> manifest option) \<Rightarrow> path \<Rightarrow> gotime \<Rightarrow> bool \<Rightarrow> string \<Rightarrow> string \<Rightarrow> files \<Rightarrow>
     (session_error + session) \<times> files" where
  "LoadForDelegate menc mdec base now has_store sessionID spaceID fs =
     (let i = trim_space sessionID; sp = trim_space spaceID;
          fresh = empty_manifest\<lparr>mf_ID := i, mf_SessionID := i, mf_SpaceID := sp, mf_Status := ''active'', mf_Version := 1\<rparr>
      in if i = [] then (Inl DelegateEmptyID, fs)
         else if has_store then
           (case session_Load mdec base i fs of
              Inr sess \<Rightarrow>
                if sp \<noteq> [] \<and> mf_SpaceID (se_Manifest sess) = []
                then let (sess, fs) = SaveManifest menc base now
                           (sess\<lparr>se_Manifest := (se_Manifest sess)\<lparr>mf_SpaceID := sp\<rparr>\<rparr>) fs
                     in (Inr sess, fs)
                else (Inr sess, fs)
            | Inl _ \<Rightarrow>
                let (sess, fs) = SaveManifest menc base now
                      \<lparr>se_ID = i, se_Manifest = fresh\<lparr>mf_CreatedAt := now, mf_UpdatedAt := now\<rparr>, se_seq = 0\<rparr> fs
                in (Inr sess, fs))
         else if sp = [] then (Inl (DelegateNoSession i), fs)
         else (Inr \<lparr>se_ID = i, se_Manifest = fresh, se_seq = 0\<rparr>, fs))"

section \<open>Messages that survived a repair\<close>

definition validateRepaired :: "'e session_message list \<Rightarrow> 'e session_message list" where
  "validateRepaired msgs =
     filter (\<lambda>m. sm_Role m \<noteq> [] \<and>
       (sm_Type m = ''cost'' \<or> sm_Role m = ''cost'' \<or>
        \<not> (sm_Content m = [] \<and> sm_ToolName m = [] \<and> sm_ToolCallID m = []))) msgs"

section \<open>Paths of a session\<close>

lemma id_char_slash: "id_char c \<Longrightarrow> c \<noteq> CHR ''/''"
  by (auto simp: id_char_def)

lemma validateID_None:
  assumes "validateID i = None"
  shows "i \<noteq> []" "CHR ''/'' \<notin> set i" "i \<noteq> ''..''" "list_all id_char i"
  using assms by (auto simp: validateID_def list_all_iff contains_str_iff dest: id_char_slash split: if_splits)

lemma sessionDir_id: "validateID i = None \<Longrightarrow> sessionDir base i = (if i = ''.'' then base else base @ [i])"
  using validateID_None[of i] by (auto simp: sessionDir_def path_join_def split_on_free)

lemma session_paths:
  assumes "validateID i = None" "i \<noteq> ''.''"
  shows "sessionDir base i = base @ [i]" "jsonlPath base i = base @ [i, ''messages.jsonl'']"
    "manifestPath base i = base @ [i, ''manifest.json'']"
    "validateID t = None \<Longrightarrow> threadJSONLPath base i t = base @ [i, ''thread-'' @ t @ ''.jsonl'']"
proof -
  show d: "sessionDir base i = base @ [i]" using assms by (simp add: sessionDir_id)
  show "jsonlPath base i = base @ [i, ''messages.jsonl'']" by (simp add: jsonlPath_def d path_join_def)
  show "manifestPath base i = base @ [i, ''manifest.json'']" by (simp add: manifestPath_def d path_join_def)
  assume "validateID t = None"
  then have "CHR ''/'' \<notin> set (''thread-'' @ t @ ''.jsonl'')" using validateID_None(2) by simp
  then have "split_on (CHR ''/'') (''thread-'' @ t @ ''.jsonl'') = [''thread-'' @ t @ ''.jsonl'']" by (rule split_on_free)
  then show "threadJSONLPath base i t = base @ [i, ''thread-'' @ t @ ''.jsonl'']"
    by (simp add: threadJSONLPath_def d path_join_def)
qed

lemma last_n_nested: "k \<le> m \<Longrightarrow> last_n k (last_n m xs) = last_n k xs"
  by (cases "length xs \<le> m") (simp_all add: last_n_def)

lemma put_back_frame: "\<not> prefix d q \<Longrightarrow> prefix d p \<Longrightarrow> gm_get (put_back p f fs) q = gm_get fs q"
  by (auto simp: put_back_def split: option.splits)

lemma gm_get_RemoveAll: "gm_get (RemoveAll p fs) q = (if prefix p q then None else gm_get fs q)"
  by (induction fs) (auto simp: RemoveAll_def)

text \<open>
  The operations on a session stay in its directory: for an identifier that is accepted and is
  not a single dot, appending, reading, trimming, saving, archiving, writing to a thread and
  deleting leave every file outside the directory of that name as it is.\<close>

lemma session_files_confined:
  assumes "validateID i = None" "i \<noteq> ''.''" "se_ID sess = i" "\<not> prefix (base @ [i]) q"
  shows "gm_get (fst (snd (snd (session_Append marshal base cap newID now sess msg fs)))) q = gm_get fs q \<and>
    gm_get (snd (TailMessages dec base i n fs)) q = gm_get fs q \<and>
    gm_get (trim_write marshal base i keep fs) q = gm_get fs q \<and>
    gm_get (snd (SaveManifest menc base now sess fs)) q = gm_get fs q \<and>
    gm_get (snd (ArchiveSession menc mdec base now i fs)) q = gm_get fs q \<and>
    gm_get (snd (AppendToThread marshal base newID now i t msg fs)) q = gm_get fs q \<and>
    gm_get (snd (session_Delete base i fs)) q = gm_get fs q"
proof -
  note paths = session_paths[OF assms(1,2), where base = base]
  have under: "prefix (base @ [i]) (base @ i # x)" for x by simp
  have other: "q \<noteq> base @ i # x" for x using assms(4) by auto
  note frame = other put_back_frame[OF assms(4)]
  have save: "gm_get (snd (SaveManifest menc base now sess' fs)) q = gm_get fs q" if "se_ID sess' = i" for sess'
    using frame under that by (simp add: SaveManifest_def paths Let_def)
  have "gm_get (fst (snd (snd (session_Append marshal base cap newID now sess msg fs)))) q = gm_get fs q"
    using frame under assms(3) by (simp add: session_Append_def append_file_def paths Let_def split: option.split)
  moreover have "gm_get (snd (TailMessages dec base i n fs)) q = gm_get fs q"
    using frame under assms(1) by (simp add: TailMessages_def tail_where_def paths Let_def case_prod_beta)
  moreover have "gm_get (trim_write marshal base i keep fs) q = gm_get fs q"
    using frame under by (simp add: trim_write_def paths)
  moreover have "gm_get (snd (ArchiveSession menc mdec base now i fs)) q = gm_get fs q"
    using save assms(1) by (auto simp: ArchiveSession_def session_Load_def split: option.split sum.split)
  moreover have "gm_get (snd (AppendToThread marshal base newID now i t msg fs)) q = gm_get fs q"
    using frame under assms(1) by (auto simp: AppendToThread_def append_file_def paths split: option.split)
  moreover have "gm_get (snd (session_Delete base i fs)) q = gm_get fs q"
    using assms(1,4) by (simp add: session_Delete_def paths gm_get_RemoveAll)
  ultimately show ?thesis using save assms(3) by simp
qed

text \<open>
  A single dot is an accepted identifier, and its directory is that of all sessions: deleting
  it deletes every file of the store.\<close>

lemma delete_dot_deletes_all: "fst (session_Delete base ''.'' fs) = None \<and> under base (snd (session_Delete base ''.'' fs)) = []"
proof -
  have v: "validateID ''.'' = None" by code_simp
  have "under base (RemoveAll base fs) = []"
    by (auto simp: under_def RemoveAll_def gm_keys_def filter_empty_conv)
  then show ?thesis using v by (simp add: session_Delete_def sessionDir_id)
qed

text \<open>
  Loading for a delegation writes before it validates: an identifier with a parent step fails to
  load, and then a manifest is saved outside the base directory.\<close>

lemma delegate_writes_outside:
  "fst (LoadForDelegate menc mdec [''home'', ''sessions''] now True ''../evil'' [] fs) \<noteq> Inl e \<and>
    gm_get (snd (LoadForDelegate menc mdec [''home'', ''sessions''] now True ''../evil'' [] fs)) [''home'', ''evil'', ''manifest.json''] \<noteq> None"
proof -
  have "validateID ''../evil'' = Some TraversalID" "trim_space ''../evil'' = ''../evil''" "trim_space [] = []"
    "manifestPath [''home'', ''sessions''] ''../evil'' = [''home'', ''evil'', ''manifest.json'']" by code_simp+
  then show ?thesis by (simp add: LoadForDelegate_def session_Load_def SaveManifest_def Let_def)
qed

section \<open>Logs of sessions\<close>

text \<open>The log of a session holds exactly these messages.\<close>

definition holds ::
  "('e session_message \<Rightarrow> string option) \<Rightarrow> path \<Rightarrow> string \<Rightarrow> 'e session_message list \<Rightarrow> files \<Rightarrow> bool" where
  "holds marshal base i ms fs \<longleftrightarrow> list_all (\<lambda>m. marshal m \<noteq> None) ms \<and>
     (case gm_get fs (jsonlPath base i) of None \<Rightarrow> [] | Some d \<Rightarrow> d) = log_of (map (\<lambda>m. the (marshal m)) ms)"

abbreviation store_codec where
  "store_codec marshal dec ms \<equiv> codec_on (\<lambda>m. the (marshal m)) dec ms"

lemma holds_append:
  "holds marshal base i ms fs \<Longrightarrow> marshal m = Some l \<Longrightarrow> holds marshal base i (ms @ [m]) (append_file (jsonlPath base i) (l @ [LF]) fs)"
  by (auto simp: holds_def append_file_def split: option.splits)

lemma Append_ok:
  assumes "length (sm_Content msg) \<le> maxMessageContentBytes" "marshal (stamp newID (se_seq sess + 1) now msg) = Some l"
  shows "session_Append marshal base cap newID now sess msg fs =
    (None, sess\<lparr>se_seq := se_seq sess + 1,
       se_Manifest := (se_Manifest sess)\<lparr>mf_MessageCount := mf_MessageCount (se_Manifest sess) + 1, mf_LastMessageID := newID\<rparr>\<rparr>,
     append_file (jsonlPath base (se_ID sess)) (l @ [LF]) fs,
     mf_MessageCount (se_Manifest sess) + 1 > 0 \<and> (mf_MessageCount (se_Manifest sess) + 1) mod 100 = 0 \<and>
       mf_MessageCount (se_Manifest sess) + 1 > maxMessages cap)"
  using assms by (simp add: session_Append_def Let_def)

lemma holds_tail:
  assumes "validateID i = None" "holds marshal base i ms fs" "store_codec marshal dec ms" "n > 0"
  shows "fst (TailMessages dec base i n fs) = Inr (last_n (nat n) ms) \<and>
    holds marshal base i ms (snd (TailMessages dec base i n fs))"
proof (cases "gm_get fs (jsonlPath base i)")
  case None
  then have "ms = []" using assms(2) by (cases ms) (auto simp: holds_def)
  then show ?thesis using None assms
    by (simp add: TailMessages_def tail_where_def tail_log_def repairJSONL_def put_back_def holds_def last_n_id)
next
  case (Some d)
  then have d: "d = log_of (map (\<lambda>m. the (marshal m)) ms)" using assms(2) by (simp add: holds_def)
  then show ?thesis using Some tail_log_of[OF assms(3,4)] assms(1,2)
    by (simp add: TailMessages_def tail_where_def put_back_def holds_def)
qed

text \<open>
  A message that is appended is read back last, with the next sequence number of the session:
  when a log holds some messages, a successful append makes it hold one more, and any read returns
  the newest messages in the order they were written.\<close>

lemma append_then_tail:
  assumes "holds marshal base (se_ID sess) ms fs" "validateID (se_ID sess) = None" "n > 0"
    "session_Append marshal base cap newID now sess msg fs = (None, sess', fs', trim)"
    "store_codec marshal dec (ms @ [stamp newID (se_seq sess + 1) now msg])"
  shows "fst (TailMessages dec base (se_ID sess) n fs') = Inr (last_n (nat n) (ms @ [stamp newID (se_seq sess + 1) now msg])) \<and>
    holds marshal base (se_ID sess) (ms @ [stamp newID (se_seq sess + 1) now msg]) fs' \<and>
    se_seq sess' = se_seq sess + 1 \<and> se_ID sess' = se_ID sess"
proof -
  obtain l where l: "marshal (stamp newID (se_seq sess + 1) now msg) = Some l"
    using assms(4) by (auto simp: session_Append_def Let_def split: if_splits option.splits)
  moreover have "length (sm_Content msg) \<le> maxMessageContentBytes"
    using assms(4) by (auto simp: session_Append_def split: if_splits)
  ultimately have step: "fs' = append_file (jsonlPath base (se_ID sess)) (l @ [LF]) fs" "se_seq sess' = se_seq sess + 1"
      "se_ID sess' = se_ID sess"
    using Append_ok[of msg marshal newID sess now l base cap fs] assms(4) by auto
  have "holds marshal base (se_ID sess) (ms @ [stamp newID (se_seq sess + 1) now msg]) fs'"
    unfolding step by (rule holds_append[OF assms(1) l])
  then show ?thesis using holds_tail[OF assms(2) _ assms(5,3)] step by simp
qed

text \<open>
  Sequence numbers repeat after a reload: a loaded session counts from zero whatever its log
  holds, so the next message gets the number one again, beside the first message of the log.\<close>

lemma reload_repeats_seq:
  assumes "session_Load mdec base i fs = Inr sess" "holds marshal base i ms fs" "ms \<noteq> []" "sm_Seq (hd ms) = 1"
    "session_Append marshal base cap newID now sess msg fs = (None, sess', fs', trim)"
    "store_codec marshal dec (ms @ [stamp newID 1 now msg])"
  shows "\<exists>ms'. fst (TailMessages dec base i (int (length ms) + 1) fs') = Inr ms' \<and> \<not> distinct (map sm_Seq ms')"
proof -
  have i: "validateID i = None" "se_ID sess = i" "se_seq sess = 0"
    using assms(1) by (auto simp: session_Load_def split: option.splits)
  have "fst (TailMessages dec base i (int (length ms) + 1) fs') = Inr (ms @ [stamp newID 1 now msg])"
    using append_then_tail[of marshal base sess ms fs "int (length ms) + 1"] assms i
    by (simp add: last_n_id nat_add_distrib)
  moreover have "sm_Seq (stamp newID 1 now msg) \<in> sm_Seq ` set ms"
    using assms(3,4) by (cases ms) (auto simp: stamp_def)
  ultimately show ?thesis by (intro exI conjI) auto
qed

section \<open>Trimming\<close>

text \<open>
  A trim keeps the newest messages: it leaves a log of at most the cap alone and cuts a longer
  one to exactly the cap.\<close>

lemma trim_keeps_newest:
  assumes "validateID i = None" "holds marshal base i ms fs" "store_codec marshal dec ms" "maxMessages cap = limit"
  shows "holds marshal base i (last_n (nat limit) ms) (trimMessagesIfNeeded marshal dec base cap i fs)"
proof -
  have limit: "limit > 0" using assms(4) by (auto simp: maxMessages_def DefaultMaxMessagesPerSession_def split: if_splits)
  then have n: "limit + 1 > 0" "nat (limit + 1) = Suc (nat limit)" by simp_all
  obtain r fs' where tail: "TailMessages dec base i (limit + 1) fs = (r, fs')" by (cases "TailMessages dec base i (limit + 1) fs")
  have r: "r = Inr (last_n (Suc (nat limit)) ms)" and fs': "holds marshal base i ms fs'"
    using holds_tail[OF assms(1-3) n(1)] n(2) tail by simp_all
  show ?thesis
  proof (cases "int (length ms) \<le> limit")
    case True
    then show ?thesis using tail r fs' assms(4)
      by (simp add: trimMessagesIfNeeded_def trim_read_def last_n_id Let_def)
  next
    case False
    have "last_n (nat limit) (last_n (Suc (nat limit)) ms) = last_n (nat limit) ms"
      by (simp add: last_n_nested)
    moreover have "list_all (\<lambda>m. marshal m \<noteq> None) (last_n (nat limit) ms)"
      using fs' set_last_n[of "nat limit" ms] by (auto simp: holds_def list_all_iff)
    ultimately show ?thesis using False tail r assms(4) limit
      by (auto simp: trimMessagesIfNeeded_def trim_read_def trim_write_def holds_def Let_def)
  qed
qed

text \<open>
  A message appended during a trim is lost: between the read and the rename of a trim the log
  can grow, and the rename puts the old messages in its place.\<close>

lemma trim_loses_append:
  assumes "trim_read dec base cap i fs = (Some keep, fs1)" "validateID i = None" "holds marshal base i ms fs"
    "store_codec marshal dec ms"
    "session_Append marshal base cap newID now sess msg fs1 = (None, sess', fs2, trim)" "se_ID sess = i"
  shows "gm_get fs2 (jsonlPath base i) = Some (log_of (map (\<lambda>m. the (marshal m)) (ms @ [stamp newID (se_seq sess + 1) now msg]))) \<and>
    holds marshal base i (last_n (nat (maxMessages cap)) ms) (trim_write marshal base i keep fs2)"
proof -
  let ?limit = "maxMessages cap"
  have limit: "?limit > 0" by (auto simp: maxMessages_def DefaultMaxMessagesPerSession_def)
  then have n: "?limit + 1 > 0" "nat (?limit + 1) = Suc (nat ?limit)" by simp_all
  obtain r fs' where tail: "TailMessages dec base i (?limit + 1) fs = (r, fs')" by (cases "TailMessages dec base i (?limit + 1) fs")
  have r: "r = Inr (last_n (Suc (nat ?limit)) ms)" and fs': "holds marshal base i ms fs'"
    using holds_tail[OF assms(2-4) n(1)] n(2) tail by simp_all
  then have keep: "keep = last_n (nat ?limit) ms" and fs1: "fs1 = fs'"
    using assms(1) tail by (auto simp: trim_read_def last_n_nested Let_def split: if_splits)
  have "list_all (\<lambda>m. marshal m \<noteq> None) keep"
    using fs' set_last_n[of "nat ?limit" ms] by (auto simp: keep holds_def list_all_iff)
  then have "holds marshal base i keep (trim_write marshal base i keep fs2)"
    by (simp add: trim_write_def holds_def)
  moreover have "gm_get fs2 (jsonlPath base i) =
      Some (log_of (map (\<lambda>m. the (marshal m)) (ms @ [stamp newID (se_seq sess + 1) now msg])))"
    using assms(5,6) fs' fs1
    by (auto simp: session_Append_def append_file_def holds_def Let_def split: if_splits option.splits)
  ultimately show ?thesis using keep by simp
qed

section \<open>Instances\<close>

definition demo_msg :: "string \<Rightarrow> int \<Rightarrow> unit session_message" where
  "demo_msg i sq = \<lparr>sm_ID = i, sm_Ts = 7, sm_Seq = sq, sm_Role = ''user'', sm_Content = ''hi'', sm_ToolName = [],
     sm_ToolCallID = [], sm_Type = [], sm_Rest = ()\<rparr>"

definition demo_line :: "unit session_message \<Rightarrow> string" where
  "demo_line m = (if sm_ID m = ''a'' then ''{}'' else if sm_ID m = ''b'' then ''{ }'' else ''{  }'')"

definition demo_dec :: "int \<Rightarrow> string \<Rightarrow> unit session_message option" where
  "demo_dec sq l = (if l = ''{}'' then Some (demo_msg ''a'' 1) else if l = ''{ }'' then Some (demo_msg ''b'' 2)
     else if l = ''{  }'' then Some (demo_msg ''c'' sq) else None)"

definition demo_path :: path where
  "demo_path = [''s'', ''01H'', ''messages.jsonl'']"

definition demo_files :: files where
  "demo_files = [(demo_path, log_of [''{}'', ''{ }'']), ([''s'', ''01H'', ''manifest.json''], ''m'')]"

definition demo_session :: "int \<Rightarrow> session" where
  "demo_session sq = \<lparr>se_ID = ''01H'', se_Manifest = empty_manifest, se_seq = sq\<rparr>"

abbreviation demo_marshal :: "unit session_message \<Rightarrow> string option" where
  "demo_marshal m \<equiv> Some (demo_line m)"

lemma demo_id: "validateID ''01H'' = None" "jsonlPath [''s''] ''01H'' = demo_path" "manifestPath [''s''] ''01H'' = [''s'', ''01H'', ''manifest.json'']"
  by code_simp+

lemma demo_seq [simp]: "sm_Seq (demo_msg i sq) = sq"
  by (simp add: demo_msg_def)

lemma demo_stamp [simp]: "stamp ''c'' sq now (demo_msg i sq') = demo_msg ''c'' sq"
  by (simp add: stamp_def demo_msg_def)

lemma demo_store_codec:
  "codec_on demo_line (demo_dec sq) [demo_msg ''a'' 1, demo_msg ''b'' 2]"
  "codec_on demo_line (demo_dec sq) ([demo_msg ''a'' 1, demo_msg ''b'' 2] @ [demo_msg ''c'' sq])"
  using demo_lines by (simp_all add: demo_line_def demo_dec_def demo_msg_def)

lemma demo_holds: "holds demo_marshal [''s''] ''01H'' [demo_msg ''a'' 1, demo_msg ''b'' 2] demo_files"
  by (simp add: holds_def demo_id demo_files_def) (simp add: demo_line_def demo_msg_def)

lemma demo_append:
  "session_Append demo_marshal [''s''] cap ''c'' now (demo_session sq) (demo_msg ''x'' 0) demo_files =
     (None, (demo_session sq)\<lparr>se_seq := sq + 1,
         se_Manifest := empty_manifest\<lparr>mf_MessageCount := 1, mf_LastMessageID := ''c''\<rparr>\<rparr>,
       append_file demo_path (''{  }'' @ [LF]) demo_files, False)"
  using Append_ok[of "demo_msg ''x'' 0" demo_marshal "''c''" "demo_session sq" now "''{  }''" "[''s'']" cap demo_files]
  by (simp add: demo_session_def demo_id)
    (simp add: demo_msg_def demo_line_def maxMessageContentBytes_def empty_manifest_def)

lemma demo_trim_read: "trim_read (demo_dec 3) [''s''] 1 ''01H'' demo_files = (Some [demo_msg ''b'' 2], demo_files)"
proof -
  have "gm_get demo_files demo_path = Some (log_of (map demo_line [demo_msg ''a'' 1, demo_msg ''b'' 2]))"
    by (simp add: demo_files_def demo_line_def demo_msg_def)
  moreover have "gm_put demo_path (log_of (map demo_line [demo_msg ''a'' 1, demo_msg ''b'' 2])) demo_files = demo_files"
    by (simp add: demo_files_def demo_line_def demo_msg_def)
  ultimately show ?thesis using tail_log_of[OF demo_store_codec(1)[of 3], of 2]
    by (simp add: trim_read_def TailMessages_def tail_where_def demo_id maxMessages_def put_back_def last_n_def)
qed

end
