(* ===== verification/GlobMatch.thy ===== *)
theory GlobMatch
  imports Prelude
begin

text \<open>
  Shell patterns (\<^verbatim>\<open>filepath.Match\<close> of the standard library, on bytes), as the drift check of the radar
  and the search tools use them: a pattern is cut at its stars into chunks, and a chunk is placed at
  the first position where it fits. The callers take a malformed pattern as one that does not
  match, so the result is a truth value.
\<close>

datatype chunk_result = ChunkBad | ChunkFail | ChunkRest string

text \<open>The end of a chunk: a star that is not in brackets.\<close>

fun chunk_split :: "bool \<Rightarrow> string \<Rightarrow> string \<times> string" where
  "chunk_split inrange [] = ([], [])"
| "chunk_split inrange [c] = (if c = CHR ''*'' \<and> \<not> inrange then ([], [c]) else ([c], []))"
| "chunk_split inrange (c # d # p) =
     (if c = CHR 0x5C then let (a, b) = chunk_split inrange p in (c # d # a, b)
      else if c = CHR ''*'' \<and> \<not> inrange then ([], c # d # p)
      else let (a, b) = chunk_split (if c = CHR ''['' then True else if c = CHR '']'' then False else inrange) (d # p)
           in (c # a, b))"

definition scanChunk :: "string \<Rightarrow> bool \<times> string \<times> string" where
  "scanChunk p = (hd p = CHR ''*'', chunk_split False (dropWhile (\<lambda>c. c = CHR ''*'') p))"

text \<open>A character of a class, perhaps escaped; something must follow it.\<close>

fun getEsc :: "string \<Rightarrow> (char \<times> string) option" where
  "getEsc [] = None"
| "getEsc (c # s) =
     (if c = CHR ''-'' \<or> c = CHR '']'' then None
      else if c = CHR 0x5C then (case s of [] \<Rightarrow> None | d # s' \<Rightarrow> if s' = [] then None else Some (d, s'))
      else if s = [] then None else Some (c, s))"

lemma getEsc_length: "getEsc s = Some (c, s') \<Longrightarrow> length s' < length s"
  by (cases s) (auto split: if_splits list.splits)

function class_ranges :: "bool \<Rightarrow> string \<Rightarrow> ((char \<times> char) list \<times> string) option" where
  "class_ranges started s =
     (if started \<and> s \<noteq> [] \<and> hd s = CHR '']'' then Some ([], tl s)
      else case getEsc s of
             None \<Rightarrow> None
           | Some (lo, s1) \<Rightarrow>
               (case (if hd s1 = CHR ''-'' then getEsc (tl s1) else Some (lo, s1)) of
                  None \<Rightarrow> None
                | Some (hi, s2) \<Rightarrow> map_option (\<lambda>(rs, r). ((lo, hi) # rs, r)) (class_ranges True s2)))"
  by pat_completeness auto
termination
proof (relation "measure (\<lambda>(b, s). length s)", goal_cases)
  case (2 started s x lo s1 y hi s2)
  then have 1: "length s1 < length s" using getEsc_length[of s lo s1] by simp
  have "length s2 \<le> length s1" using 2(4,5) getEsc_length[of "tl s1" hi s2] by (auto split: if_splits)
  then show ?case using 1 by simp
qed simp

declare class_ranges.simps [simp del]

definition in_class :: "(char \<times> char) list \<Rightarrow> char \<Rightarrow> bool" where
  "in_class rs c = list_ex (\<lambda>(lo, hi). (of_char lo :: nat) \<le> of_char c \<and> (of_char c :: nat) \<le> of_char hi) rs"

lemma class_ranges_length: "class_ranges b s = Some (rs, r) \<Longrightarrow> length r \<le> length s"
proof (induction b s arbitrary: rs r rule: class_ranges.induct)
  case (1 started s)
  show ?case
  proof (cases "started \<and> s \<noteq> [] \<and> hd s = CHR '']''")
    case True
    then show ?thesis using 1(2) by (auto simp: class_ranges.simps[of True s])
  next
    case False
    then obtain lo s1 where lo: "getEsc s = Some (lo, s1)"
      using 1(2) by (auto simp: class_ranges.simps[of started s] split: option.splits)
    moreover obtain hi s2 where hi: "(if hd s1 = CHR ''-'' then getEsc (tl s1) else Some (lo, s1)) = Some (hi, s2)"
      using 1(2) False lo
      by (auto simp: class_ranges.simps[of started s] simp del: if_split_eq1 split del: if_split split: option.splits)
    moreover obtain rs' where "class_ranges True s2 = Some (rs', r)"
      using 1(2) False lo hi by (auto simp: class_ranges.simps[of started s] simp del: if_split_eq1 split del: if_split)
    ultimately have "length r \<le> length s2" using 1(1)[OF False lo _ hi] by simp
    moreover have "length s2 \<le> length s1" using hi getEsc_length[of "tl s1" hi s2] by (auto split: if_splits)
    ultimately show ?thesis using getEsc_length[OF lo] by simp
  qed
qed

function matchChunk :: "string \<Rightarrow> bool \<Rightarrow> string \<Rightarrow> chunk_result" where
  "matchChunk [] failed s = (if failed then ChunkFail else ChunkRest s)"
| "matchChunk (c # p) failed s =
     (let failed = (failed \<or> s = []); s' = (if failed then s else tl s)
      in if c = CHR ''['' then
           (let neg = (p \<noteq> [] \<and> hd p = CHR ''^'')
            in case class_ranges False (if neg then tl p else p) of
                 None \<Rightarrow> ChunkBad
               | Some (rs, rest) \<Rightarrow> matchChunk rest (failed \<or> in_class rs (hd s) = neg) s')
         else if c = CHR ''?'' then matchChunk p (failed \<or> hd s = CHR ''/'') s'
         else if c = CHR 0x5C then
           (case p of [] \<Rightarrow> ChunkBad | d # p' \<Rightarrow> matchChunk p' (failed \<or> hd s \<noteq> d) s')
         else matchChunk p (failed \<or> hd s \<noteq> c) s')"
  by pat_completeness auto
termination
  by (relation "measure (\<lambda>(p, f, s). length p)")
    (auto dest!: class_ranges_length split: if_splits)

text \<open>The first place after some characters that are not separators.\<close>

fun star_place :: "string \<Rightarrow> bool \<Rightarrow> string \<Rightarrow> string option" where
  "star_place chunk final [] = None"
| "star_place chunk final (c # s) =
     (if c = CHR ''/'' then None
      else case matchChunk chunk False s of
             ChunkRest t \<Rightarrow> if final \<and> t \<noteq> [] then star_place chunk final s else Some t
           | ChunkBad \<Rightarrow> None
           | ChunkFail \<Rightarrow> star_place chunk final s)"

lemma chunk_split_length: "chunk_split b p = (a, r) \<Longrightarrow> length p = length a + length r"
  by (induction b p arbitrary: a r rule: chunk_split.induct) (auto split: if_splits prod.splits)

lemma scanChunk_length: "p \<noteq> [] \<Longrightarrow> scanChunk p = (star, chunk, r) \<Longrightarrow> length r < length p"
proof -
  assume "p \<noteq> []" "scanChunk p = (star, chunk, r)"
  then obtain c q where p: "p = c # q" by (cases p) auto
  show ?thesis
  proof (cases "c = CHR ''*''")
    case True
    then show ?thesis using \<open>scanChunk p = _\<close> p chunk_split_length[of False "dropWhile (\<lambda>c. c = CHR ''*'') q"]
        length_dropWhile_le[of "\<lambda>c. c = CHR ''*''" q]
      by (auto simp: scanChunk_def)
  next
    case False
    then have "chunk_split False p = (chunk, r)" using \<open>scanChunk p = _\<close> p by (simp add: scanChunk_def)
    moreover have "chunk \<noteq> []" using calculation False p by (cases q) (auto split: if_splits prod.splits)
    ultimately show ?thesis using chunk_split_length[of False p chunk r] by (cases chunk) auto
  qed
qed

function glob_match :: "string \<Rightarrow> string \<Rightarrow> bool" where
  "glob_match p s =
     (if p = [] then s = []
      else case scanChunk p of
             (star, chunk, p') \<Rightarrow>
               if star \<and> chunk = [] then CHR ''/'' \<notin> set s
               else (case matchChunk chunk False s of
                       ChunkBad \<Rightarrow> False
                     | ChunkRest t \<Rightarrow>
                         if t = [] \<or> p' \<noteq> [] then glob_match p' t
                         else if star then (case star_place chunk (p' = []) s of None \<Rightarrow> False | Some t \<Rightarrow> glob_match p' t)
                         else False
                     | ChunkFail \<Rightarrow>
                         if star then (case star_place chunk (p' = []) s of None \<Rightarrow> False | Some t \<Rightarrow> glob_match p' t)
                         else False))"
  by pat_completeness auto
termination
  by (relation "measure (\<lambda>(p, s). length p)") (auto dest: scanChunk_length[OF _ sym])

declare glob_match.simps [simp del]

end
