(* ===== verification/RadarImpact.thy ===== *)
theory RadarImpact
  imports Prelude "HOL-Library.List_Lexorder" "HOL-Library.Char_ord" "HOL-Library.Product_Lexorder"
begin

text \<open>
  Which files a change reaches (\<^verbatim>\<open>internal/radar/bfs.go\<close>): a breadth-first search over the reverse
  import graph with a limit on the depth and on the number of files. The database is an argument
  that answers with a record, with nothing, with a record that cannot be decoded or with an error.
\<close>

section \<open>The search\<close>

record import_record =
  imp_Imports :: "string list"
  imp_ImportedBy :: "string list"

datatype import_lookup = ImpRecord import_record | ImpNotFound | ImpCorrupt | ImpIOError

type_synonym import_db = "string \<Rightarrow> import_lookup"

record impact_node =
  in_Path :: string
  in_Distance :: nat
  in_FanIn :: nat

record impact_result =
  ir_Impacted :: "impact_node list"
  ir_Truncated :: bool
  ir_NodesVisited :: nat
  ir_LimitExceeded :: bool

definition BFSDefaultMaxDepth :: nat where
  "BFSDefaultMaxDepth = 4"

definition BFSMaxVisited :: nat where
  "BFSMaxVisited = 2000"

text \<open>The seeds in order, each once.\<close>

definition bfs_seed :: "string list \<Rightarrow> (string \<times> nat) list \<times> (string, nat) gomap" where
  "bfs_seed seeds =
     fold (\<lambda>p (q, v). if gm_get v p \<noteq> None then (q, v) else (q @ [(p, 0)], gm_put p 0 v)) (sort seeds) ([], [])"

text \<open>The importers of a file: the new visited files, the queue entries, and whether the limit was
  reached.\<close>

fun add_importers :: "nat \<Rightarrow> nat \<Rightarrow> string list \<Rightarrow> (string, nat) gomap \<Rightarrow> (string, nat) gomap \<times> (string \<times> nat) list \<times> bool" where
  "add_importers maxVisited d [] v = (v, [], False)"
| "add_importers maxVisited d (i # imps) v =
     (if gm_get v i \<noteq> None then add_importers maxVisited d imps v
      else if length v \<ge> maxVisited then (v, [], True)
      else let (v', q, lim) = add_importers maxVisited d imps (gm_put i d v) in (v', (i, d) # q, lim))"

lemma add_importers_length:
  "add_importers mx d imps v = (v', q, lim) \<Longrightarrow> length v' = length v + length q \<and> (q \<noteq> [] \<longrightarrow> length v < mx) \<and> (length v \<le> mx \<longrightarrow> length v' \<le> mx)"
proof (induction imps arbitrary: v v' q lim)
  case (Cons i imps)
  show ?case
  proof (cases "gm_get v i = None \<and> length v < mx")
    case True
    obtain v1 q1 l1 where r: "add_importers mx d imps (gm_put i d v) = (v1, q1, l1)" by (metis prod_cases3)
    then have "v' = v1" "q = (i, d) # q1" using Cons.prems True by simp_all
    then show ?thesis using Cons.IH[OF r] True by (simp add: gm_put_fresh)
  next
    case False
    then show ?thesis using Cons.IH[of v v' q lim] Cons.prems by (auto split: if_splits)
  qed
qed simp

lemma add_importers_measure:
  "add_importers mx d imps v = (v', q, lim) \<Longrightarrow> q = [] \<and> length v' = length v \<or> mx - length v' < mx - length v"
  using add_importers_length[of mx d imps v v' q lim] by (cases q) auto

function bfs_loop ::
  "import_db \<Rightarrow> nat \<Rightarrow> nat \<Rightarrow> (string \<times> nat) list \<Rightarrow> (string, nat) gomap \<Rightarrow> bool \<Rightarrow> bool \<Rightarrow>
     ((string, nat) gomap \<times> bool \<times> bool) option" where
  "bfs_loop db maxDepth maxVisited [] v trunc err = Some (v, trunc, err)"
| "bfs_loop db maxDepth maxVisited ((p, d) # q) v trunc err =
     (if length v \<ge> maxVisited then Some (v, True, True)
      else if d \<ge> maxDepth then bfs_loop db maxDepth maxVisited q v trunc err
      else case db p of
             ImpNotFound \<Rightarrow> bfs_loop db maxDepth maxVisited q v trunc err
           | ImpCorrupt \<Rightarrow> bfs_loop db maxDepth maxVisited q v True err
           | ImpIOError \<Rightarrow> None
           | ImpRecord r \<Rightarrow>
               (case add_importers maxVisited (d + 1) (sort (imp_ImportedBy r)) v of
                  (v', q', lim) \<Rightarrow> bfs_loop db maxDepth maxVisited (q @ q') v' (trunc \<or> lim) (err \<or> lim)))"
  by pat_completeness auto
termination
  by (relation "measures [\<lambda>(db, md, mx, q, v, t, e). mx - length v, \<lambda>(db, md, mx, q, v, t, e). length q]")
    (auto dest!: add_importers_measure[OF sym])

definition impact_nodes :: "import_db \<Rightarrow> (string, nat) gomap \<Rightarrow> impact_node list" where
  "impact_nodes db v =
     sort_key (\<lambda>n. (in_Distance n, in_Path n))
       (map (\<lambda>(p, d). \<lparr>in_Path = p, in_Distance = d,
               in_FanIn = (case db p of ImpRecord r \<Rightarrow> length (imp_ImportedBy r) | _ \<Rightarrow> 0)\<rparr>) v)"

text \<open>A configured limit that is not positive means the default; \<open>None\<close> is an error of the database.\<close>

definition ComputeImpactWithConfig :: "import_db \<Rightarrow> string list \<Rightarrow> int \<Rightarrow> int \<Rightarrow> impact_result option" where
  "ComputeImpactWithConfig db changedFiles cfgDepth cfgVisited =
     (let maxDepth = (if cfgDepth \<le> 0 then BFSDefaultMaxDepth else nat cfgDepth);
          maxVisited = (if cfgVisited \<le> 0 then BFSMaxVisited else nat cfgVisited);
          (q, v) = bfs_seed changedFiles
      in case bfs_loop db maxDepth maxVisited q v False False of
           None \<Rightarrow> None
         | Some (v, trunc, err) \<Rightarrow>
             Some \<lparr>ir_Impacted = impact_nodes db v, ir_Truncated = trunc, ir_NodesVisited = length v, ir_LimitExceeded = err\<rparr>)"

definition ComputeImpact :: "import_db \<Rightarrow> string list \<Rightarrow> impact_result option" where
  "ComputeImpact db changedFiles =
     (let (q, v) = bfs_seed changedFiles
      in case bfs_loop db BFSDefaultMaxDepth BFSMaxVisited q v False False of
           None \<Rightarrow> None
         | Some (v, trunc, err) \<Rightarrow>
             Some \<lparr>ir_Impacted = impact_nodes db v, ir_Truncated = trunc, ir_NodesVisited = length v, ir_LimitExceeded = err\<rparr>)"

section \<open>Distances\<close>

definition importers :: "import_db \<Rightarrow> string \<Rightarrow> string list" where
  "importers db p = (case db p of ImpRecord r \<Rightarrow> imp_ImportedBy r | _ \<Rightarrow> [])"

inductive reach_in :: "import_db \<Rightarrow> string list \<Rightarrow> nat \<Rightarrow> string \<Rightarrow> bool" for db seeds where
  seed: "p \<in> set seeds \<Longrightarrow> reach_in db seeds 0 p"
| hop: "reach_in db seeds d p \<Longrightarrow> q \<in> set (importers db p) \<Longrightarrow> reach_in db seeds (Suc d) q"

inductive_cases reach_in_SucE: "reach_in db seeds (Suc d) q"
inductive_cases reach_in_0E: "reach_in db seeds 0 q"

text \<open>What is visited is reached at its distance.\<close>

definition bfs_sound :: "import_db \<Rightarrow> string list \<Rightarrow> nat \<Rightarrow> (string \<times> nat) list \<Rightarrow> (string, nat) gomap \<Rightarrow> bool" where
  "bfs_sound db seeds md q v \<longleftrightarrow> gm_wf v \<and>
     (\<forall>p d. gm_get v p = Some d \<longrightarrow> reach_in db seeds d p \<and> d \<le> md) \<and>
     (\<forall>(p, d)\<in>set q. gm_get v p = Some d)"

text \<open>The queue is sorted, no visited file is more than one step behind it, and the importers of a
  file that has left the queue are visited at most one step on.\<close>

definition bfs_closed :: "import_db \<Rightarrow> string list \<Rightarrow> nat \<Rightarrow> (string \<times> nat) list \<Rightarrow> (string, nat) gomap \<Rightarrow> bool" where
  "bfs_closed db seeds md q v \<longleftrightarrow> sorted (map snd q) \<and> (\<forall>s\<in>set seeds. gm_get v s = Some 0) \<and>
     (\<forall>p d x. gm_get v p = Some d \<longrightarrow> x \<in> snd ` set q \<longrightarrow> d \<le> Suc x) \<and>
     (\<forall>p d i. gm_get v p = Some d \<longrightarrow> d < md \<longrightarrow> p \<notin> fst ` set q \<longrightarrow> i \<in> set (importers db p) \<longrightarrow>
        (\<exists>x. gm_get v i = Some x \<and> x \<le> Suc d))"

lemma add_importers_get:
  "add_importers mx d imps v = (v', q, lim) \<Longrightarrow>
     (gm_wf v \<longrightarrow> gm_wf v') \<and>
     (\<forall>p. gm_get v' p = (if gm_get v p \<noteq> None then gm_get v p else if p \<in> fst ` set q then Some d else None)) \<and>
     (\<forall>(p, x)\<in>set q. x = d \<and> p \<in> set imps \<and> gm_get v p = None) \<and>
     (\<not> lim \<longrightarrow> (\<forall>i\<in>set imps. gm_get v' i \<noteq> None))"
proof (induction imps arbitrary: v v' q lim)
  case (Cons i imps)
  show ?case
  proof (cases "gm_get v i = None \<and> length v < mx")
    case True
    obtain v1 q1 l1 where r: "add_importers mx d imps (gm_put i d v) = (v1, q1, l1)" by (metis prod_cases3)
    then have eq: "v' = v1" "q = (i, d) # q1" "lim = l1" using Cons.prems True by simp_all
    have get: "gm_get v1 x = (if x = i \<or> x \<in> fst ` set q1 \<and> gm_get v x = None then Some d else gm_get v x)" for x
      using Cons.IH[OF r] by auto
    have new: "(x, y) \<in> set q1 \<Longrightarrow> y = d \<and> x \<in> set imps \<and> x \<noteq> i \<and> gm_get v x = None" for x y
      using Cons.IH[OF r] by (auto split: if_splits)
    have wf: "gm_wf v \<longrightarrow> gm_wf v1" using Cons.IH[OF r] by auto
    have all: "\<not> l1 \<Longrightarrow> x \<in> set imps \<Longrightarrow> gm_get v1 x \<noteq> None" for x using Cons.IH[OF r] by blast
    show ?thesis unfolding eq using wf True all[unfolded get] by (auto simp: get dest: new)
  next
    case other: False
    show ?thesis
    proof (cases "gm_get v i = None")
      case True
      then show ?thesis using other Cons.prems by simp
    next
      case False
      then have r: "add_importers mx d imps v = (v', q, lim)" using Cons.prems by simp
      note IH = Cons.IH[OF r]
      have "\<not> lim \<longrightarrow> (\<forall>x\<in>set (i # imps). gm_get v' x \<noteq> None)" using IH False by (metis set_ConsD)
      moreover have "\<forall>(p, x)\<in>set q. x = d \<and> p \<in> set (i # imps) \<and> gm_get v p = None" using IH by auto
      ultimately show ?thesis using IH by blast
    qed
  qed
qed simp

lemma bfs_sound_step:
  assumes inv: "bfs_sound db seeds md ((p, d) # q) v" and d: "d < md" and r: "db p = ImpRecord r"
    and add: "add_importers mx (Suc d) (sort (imp_ImportedBy r)) v = (v', q', lim)"
  shows "bfs_sound db seeds md (q @ q') v'"
proof -
  note new = add_importers_get[OF add]
  have reach: "reach_in db seeds d p" using inv by (simp add: bfs_sound_def)
  have "reach_in db seeds x i \<and> x \<le> md" if "gm_get v' i = Some x" for i x
  proof (cases "gm_get v i")
    case None
    then have "x = Suc d" "i \<in> set (imp_ImportedBy r)" using that new by (auto split: if_splits)
    then show ?thesis using reach_in.hop[OF reach, of i] r d by (simp add: importers_def)
  next
    case (Some y)
    then show ?thesis using that new inv by (auto simp: bfs_sound_def)
  qed
  moreover have "\<forall>(i, x)\<in>set (q @ q'). gm_get v' i = Some x"
  proof (intro ballI, clarify)
    fix i x assume "(i, x) \<in> set (q @ q')"
    then consider "gm_get v i = Some x" | "(i, x) \<in> set q'" using inv by (auto simp: bfs_sound_def)
    then show "gm_get v' i = Some x"
    proof cases
      case 1
      then show ?thesis using new by simp
    next
      case 2
      then have "x = Suc d" "gm_get v i = None" "i \<in> fst ` set q'" using new by force+
      then show ?thesis using new by simp
    qed
  qed
  ultimately show ?thesis using inv new by (simp add: bfs_sound_def)
qed

lemma bfs_closed_pop:
  assumes "bfs_closed db seeds md ((p, d) # q) v" "bfs_sound db seeds md ((p, d) # q) v"
    and stop: "d < md \<Longrightarrow> importers db p = []"
  shows "bfs_closed db seeds md q v"
proof -
  have "\<exists>x. gm_get v i = Some x \<and> x \<le> Suc y"
    if "gm_get v a = Some y" "y < md" "a \<notin> fst ` set q" "i \<in> set (importers db a)" for a y i
  proof (cases "a = p")
    case True
    then have "y = d" using that assms(2) by (simp add: bfs_sound_def)
    then show ?thesis using that True stop by auto
  next
    case False
    then show ?thesis using that assms(1) by (auto simp: bfs_closed_def)
  qed
  then show ?thesis using assms(1) by (auto simp: bfs_closed_def)
qed

lemma bfs_closed_step:
  assumes closed: "bfs_closed db seeds md ((p, d) # q) v" and sound: "bfs_sound db seeds md ((p, d) # q) v"
    and r: "db p = ImpRecord r"
    and add: "add_importers mx (Suc d) (sort (imp_ImportedBy r)) v = (v', q', False)"
  shows "bfs_closed db seeds md (q @ q') v'"
proof -
  note new = add_importers_get[OF add]
  have keep: "gm_get v' i = Some x" if "gm_get v i = Some x" for i x using that new by simp
  have fresh: "x = Suc d \<and> i \<in> fst ` set q'" if "gm_get v' i = Some x" "gm_get v i = None" for i x
    using that new by (auto split: if_splits)
  have q': "y \<in> snd ` set q' \<Longrightarrow> y = Suc d" for y using new by auto
  have old: "x \<le> Suc d" if "gm_get v i = Some x" for i x using that closed by (auto simp: bfs_closed_def)
  have queue: "\<forall>y\<in>snd ` set q. d \<le> y \<and> y \<le> Suc d"
  proof
    fix y assume y: "y \<in> snd ` set q"
    then obtain i where "(i, y) \<in> set q" by auto
    then have "gm_get v i = Some y" using sound by (auto simp: bfs_sound_def)
    then show "d \<le> y \<and> y \<le> Suc d" using old closed y by (auto simp: bfs_closed_def)
  qed
  have "map snd q' = replicate (length q') (Suc d)"
    using q' by (intro replicate_eqI) auto
  then have sorted: "sorted (map snd (q @ q'))"
    using closed queue q' by (auto simp: bfs_closed_def sorted_append)
  have bound: "x \<le> Suc d" if "gm_get v' i = Some x" for i x
    using that fresh[OF that] old[of i x] new by (cases "gm_get v i") auto
  have next_step: "\<exists>x. gm_get v' i = Some x \<and> x \<le> Suc y"
    if a: "gm_get v' a = Some y" "y < md" "a \<notin> fst ` set (q @ q')" "i \<in> set (importers db a)" for a y i
  proof (cases "a = p")
    case True
    then have "gm_get v a = Some d" using sound by (simp add: bfs_sound_def)
    then have "y = d" using keep a by simp
    have "i \<in> set (sort (imp_ImportedBy r))" using True a r by (simp add: importers_def)
    then obtain x where "gm_get v' i = Some x" using new by blast
    then show ?thesis using bound \<open>y = d\<close> by blast
  next
    case False
    have "gm_get v a = Some y" using a fresh[of a y] keep[of a] by (cases "gm_get v a") auto
    moreover have "a \<notin> fst ` set ((p, d) # q)" using a False by auto
    ultimately obtain x where "gm_get v i = Some x" "x \<le> Suc y"
      using closed a(2,4) unfolding bfs_closed_def by blast
    then show ?thesis using keep by blast
  qed
  have behind: "y \<le> Suc x" if "gm_get v' i = Some y" "x \<in> snd ` set (q @ q')" for i x y
    using bound[OF that(1)] that(2) queue q' by fastforce
  have "\<forall>s\<in>set seeds. gm_get v' s = Some 0" using closed keep by (auto simp: bfs_closed_def)
  then show ?thesis using sorted next_step behind unfolding bfs_closed_def by blast
qed

lemma bfs_loop_inv:
  "bfs_loop db md mx q v t e = Some (v', t', e') \<Longrightarrow> bfs_sound db seeds md q v \<Longrightarrow> (\<not> t \<Longrightarrow> bfs_closed db seeds md q v) \<Longrightarrow>
     bfs_sound db seeds md [] v' \<and> (\<not> t' \<longrightarrow> bfs_closed db seeds md [] v') \<and> length v' \<le> max mx (length v)"
proof (induction db md mx q v t e rule: bfs_loop.induct)
  case (2 db md mx p d q v t e)
  have sound: "bfs_sound db seeds md q v" using "2.prems"(2) by (simp add: bfs_sound_def)
  have pop: "bfs_closed db seeds md q v" if "\<not> t" "d < md \<Longrightarrow> importers db p = []"
    by (rule bfs_closed_pop[OF "2.prems"(3)[OF that(1)] "2.prems"(2) that(2)])
  consider (limit) "length v \<ge> mx" | (deep) "length v < mx" "d \<ge> md" | (look) "length v < mx" "d < md" by linarith
  then show ?case
  proof cases
    case limit
    then show ?thesis using "2.prems" sound by (auto simp: bfs_sound_def)
  next
    case deep
    then show ?thesis using "2.IH"(1) "2.prems"(1) sound pop by simp
  next
    case look
    show ?thesis
    proof (cases "db p")
      case (ImpRecord r)
      obtain v1 q1 lim where add: "add_importers mx (Suc d) (sort (imp_ImportedBy r)) v = (v1, q1, lim)"
        by (metis prod_cases3)
      have "bfs_sound db seeds md (q @ q1) v1" by (rule bfs_sound_step[OF "2.prems"(2) look(2) ImpRecord add])
      moreover have "bfs_closed db seeds md (q @ q1) v1" if "\<not> (t \<or> lim)"
        using bfs_closed_step[OF _ "2.prems"(2) ImpRecord] add "2.prems"(3) that by auto
      moreover have "bfs_loop db md mx (q @ q1) v1 (t \<or> lim) (e \<or> lim) = Some (v', t', e')"
        using "2.prems"(1) look ImpRecord add by simp
      moreover have "length v1 \<le> mx" using add_importers_length[OF add] look by simp
      ultimately show ?thesis using "2.IH"(2)[OF _ _ ImpRecord] look add by (simp add: max_def)
    next
      case ImpNotFound
      then show ?thesis using "2.IH"(3) "2.prems"(1) look sound pop by (simp add: importers_def)
    next
      case ImpCorrupt
      then show ?thesis using "2.IH"(4) "2.prems"(1) look sound by simp
    next
      case ImpIOError
      then show ?thesis using "2.prems"(1) look by simp
    qed
  qed
qed (auto simp: bfs_sound_def)

lemma bfs_seed_inv:
  "bfs_seed seeds = (q, v) \<Longrightarrow> q = v \<and> gm_wf v \<and> (\<forall>p. gm_get v p = (if p \<in> set seeds then Some 0 else None))"
proof -
  have "fold (\<lambda>p (q, v). if gm_get v p \<noteq> None then (q, v) else (q @ [(p, 0)], gm_put p 0 v)) xs (v0, v0) = (q, v) \<Longrightarrow>
      gm_wf v0 \<Longrightarrow> \<forall>p. gm_get v0 p = (if p \<in> A then Some 0 else None) \<Longrightarrow>
      q = v \<and> gm_wf v \<and> (\<forall>p. gm_get v p = (if p \<in> A \<union> set xs then Some 0 else None))" for xs v0 A
  proof (induction xs arbitrary: v0 A)
    case (Cons x xs)
    show ?case
    proof (cases "gm_get v0 x")
      case None
      have "\<forall>p. gm_get (gm_put x 0 v0) p = (if p \<in> insert x A then Some 0 else None)" using Cons.prems(3) by auto
      moreover have "fold (\<lambda>p (q, v). if gm_get v p \<noteq> None then (q, v) else (q @ [(p, 0)], gm_put p 0 v)) xs
          (gm_put x 0 v0, gm_put x 0 v0) = (q, v)"
        using Cons.prems(1) None by (simp add: gm_put_fresh)
      ultimately show ?thesis using Cons.IH[of "gm_put x 0 v0" "insert x A"] Cons.prems(2) by simp
    next
      case (Some y)
      then have "x \<in> A" using Cons.prems(3) by (metis option.distinct(1))
      then have "A \<union> set (x # xs) = A \<union> set xs" by auto
      then show ?thesis using Cons.IH[of v0 A] Cons.prems Some by simp
    qed
  qed auto
  from this[of "sort seeds" "[]" "{}"] show "bfs_seed seeds = (q, v) \<Longrightarrow> ?thesis"
    by (simp add: bfs_seed_def)
qed

lemma bfs_seed_start:
  assumes "bfs_seed seeds = (q, v)"
  shows "bfs_sound db seeds md q v" "bfs_closed db seeds md q v" "length v = card (set seeds)"
proof -
  note inv = bfs_seed_inv[OF assms]
  have zero: "gm_get v p = Some d \<longleftrightarrow> d = 0 \<and> p \<in> set seeds" for p d using inv by auto
  have mem: "(p, d) \<in> set v \<longleftrightarrow> d = 0 \<and> p \<in> set seeds" for p d
    using gm_get_Some_iff[of v p d] inv zero by simp
  have q: "q = v" "gm_wf v" using inv by simp_all
  show "bfs_sound db seeds md q v" using q
    by (auto simp: bfs_sound_def zero mem intro: reach_in.seed)
  have "map snd v = replicate (length v) 0" by (rule replicate_eqI) (auto simp: mem)
  then have "sorted (map snd v)" by (simp only: sorted_replicate)
  moreover have fst: "fst ` set v = set seeds"
  proof
    show "fst ` set v \<subseteq> set seeds" using mem by auto
    show "set seeds \<subseteq> fst ` set v"
    proof
      fix s assume "s \<in> set seeds"
      then have "(s, 0) \<in> set v" using mem by simp
      then show "s \<in> fst ` set v" by (metis fst_conv imageI)
    qed
  qed
  ultimately show "bfs_closed db seeds md q v" unfolding bfs_closed_def q(1) by (simp add: zero)
  have "set (map fst v) = set seeds" using fst by simp
  then show "length v = card (set seeds)" using q(2) distinct_card[of "map fst v"] by (simp add: gm_wf_def)
qed

lemma bfs_complete:
  assumes "bfs_closed db seeds md [] v" "reach_in db seeds d p" "d \<le> md"
  shows "\<exists>x. gm_get v p = Some x \<and> x \<le> d"
  using assms(2,3)
proof (induction rule: reach_in.induct)
  case (seed p)
  then show ?case using assms(1) by (auto simp: bfs_closed_def)
next
  case (hop d p q)
  then obtain x where x: "gm_get v p = Some x" "x \<le> d" by auto
  then have less: "x < md" using hop.prems by simp
  obtain y where "gm_get v q = Some y" "y \<le> Suc x"
    using assms(1) hop(2) x(1) less unfolding bfs_closed_def by fastforce
  then show ?case using x by auto
qed

lemma distinct_map_sort_key: "distinct (map f xs) \<Longrightarrow> distinct (map f (sort_key k xs))"
  unfolding distinct_map by (simp add: distinct_sort)

definition depth_limit :: "int \<Rightarrow> nat" where
  "depth_limit cfgDepth = (if cfgDepth \<le> 0 then BFSDefaultMaxDepth else nat cfgDepth)"

definition visit_limit :: "int \<Rightarrow> nat" where
  "visit_limit cfgVisited = (if cfgVisited \<le> 0 then BFSMaxVisited else nat cfgVisited)"

lemma impact_run:
  assumes "ComputeImpactWithConfig db files cd cv = Some r"
  obtains v where "bfs_sound db files (depth_limit cd) [] v" "\<not> ir_Truncated r \<Longrightarrow> bfs_closed db files (depth_limit cd) [] v"
    "length v \<le> max (visit_limit cv) (card (set files))" "ir_Impacted r = impact_nodes db v" "ir_NodesVisited r = length v"
proof -
  obtain q v0 where seed: "bfs_seed files = (q, v0)" by (cases "bfs_seed files")
  obtain v t e where loop: "bfs_loop db (depth_limit cd) (visit_limit cv) q v0 False False = Some (v, t, e)"
    and r: "r = \<lparr>ir_Impacted = impact_nodes db v, ir_Truncated = t, ir_NodesVisited = length v, ir_LimitExceeded = e\<rparr>"
    using assms seed
    by (auto simp: ComputeImpactWithConfig_def depth_limit_def visit_limit_def Let_def split: option.splits)
  note start = bfs_seed_start[OF seed]
  have "bfs_sound db files (depth_limit cd) [] v \<and> (\<not> t \<longrightarrow> bfs_closed db files (depth_limit cd) [] v) \<and>
      length v \<le> max (visit_limit cv) (length v0)"
    by (rule bfs_loop_inv[OF loop start(1)]) (rule start(2))
  then show ?thesis using that[of v] start(3) r by simp
qed

lemma impact_nodes_mem:
  "gm_wf v \<Longrightarrow> (\<exists>n\<in>set (impact_nodes db v). in_Path n = p \<and> in_Distance n = d) \<longleftrightarrow> gm_get v p = Some d"
  by (force simp: impact_nodes_def gm_get_Some_iff)

text \<open>
  C20. The impact of a change is exact when it is not cut short: a file is listed with a distance
  exactly if that is the least number of import steps from a changed file and within the depth
  limit.\<close>

theorem impact_exact:
  assumes "ComputeImpactWithConfig db files cfgDepth cfgVisited = Some r" "\<not> ir_Truncated r"
  shows "(\<exists>n\<in>set (ir_Impacted r). in_Path n = p \<and> in_Distance n = d) \<longleftrightarrow>
    d \<le> depth_limit cfgDepth \<and> reach_in db files d p \<and> (\<forall>k<d. \<not> reach_in db files k p)"
proof -
  obtain v where v: "bfs_sound db files (depth_limit cfgDepth) [] v" "bfs_closed db files (depth_limit cfgDepth) [] v"
      "ir_Impacted r = impact_nodes db v"
    using impact_run[OF assms(1)] assms(2) by metis
  have "gm_get v p = Some d \<longleftrightarrow> d \<le> depth_limit cfgDepth \<and> reach_in db files d p \<and> (\<forall>k<d. \<not> reach_in db files k p)"
  proof
    assume g: "gm_get v p = Some d"
    then have "d \<le> depth_limit cfgDepth" "reach_in db files d p" using v(1) by (auto simp: bfs_sound_def)
    moreover have "\<not> reach_in db files k p" if "k < d" for k
      using bfs_complete[OF v(2), of k p] that g calculation(1) by auto
    ultimately show "d \<le> depth_limit cfgDepth \<and> reach_in db files d p \<and> (\<forall>k<d. \<not> reach_in db files k p)" by blast
  next
    assume r: "d \<le> depth_limit cfgDepth \<and> reach_in db files d p \<and> (\<forall>k<d. \<not> reach_in db files k p)"
    then obtain x where "gm_get v p = Some x" "x \<le> d" using bfs_complete[OF v(2), of d p] by blast
    moreover from this(1) have "reach_in db files x p" using v(1) by (auto simp: bfs_sound_def)
    ultimately show "gm_get v p = Some d" using r by (metis le_neq_implies_less)
  qed
  then show ?thesis using impact_nodes_mem[of v db p d] v(1,3) by (simp add: bfs_sound_def)
qed

text \<open>
  The search is bounded and sound whatever the database holds: it ends, lists at most as many
  files as the limit allows (or as were changed), each once, in the order of distance and path, and
  each of them is reached by that many import steps.\<close>

lemma impact_bounded:
  assumes "ComputeImpactWithConfig db files cfgDepth cfgVisited = Some r"
  shows "ir_NodesVisited r = length (ir_Impacted r) \<and>
    ir_NodesVisited r \<le> max (visit_limit cfgVisited) (card (set files)) \<and>
    distinct (map in_Path (ir_Impacted r)) \<and>
    sorted (map (\<lambda>n. (in_Distance n, in_Path n)) (ir_Impacted r)) \<and>
    (\<forall>n\<in>set (ir_Impacted r). in_Distance n \<le> depth_limit cfgDepth \<and> reach_in db files (in_Distance n) (in_Path n))"
proof -
  obtain v where v: "bfs_sound db files (depth_limit cfgDepth) [] v"
      "length v \<le> max (visit_limit cfgVisited) (card (set files))" "ir_Impacted r = impact_nodes db v" "ir_NodesVisited r = length v"
    using impact_run[OF assms] by metis
  have "length (impact_nodes db v) = length v" by (simp add: impact_nodes_def)
  moreover have "distinct (map in_Path (impact_nodes db v))"
  proof -
    let ?ns = "map (\<lambda>(p, d). \<lparr>in_Path = p, in_Distance = d,
        in_FanIn = (case db p of ImpRecord r \<Rightarrow> length (imp_ImportedBy r) | _ \<Rightarrow> 0)\<rparr>) v"
    have "map in_Path ?ns = map fst v" by (simp add: comp_def case_prod_beta)
    then have "distinct (map in_Path ?ns)" using v(1) by (simp only: bfs_sound_def gm_wf_def)
    then show ?thesis unfolding impact_nodes_def by (rule distinct_map_sort_key)
  qed
  moreover have "sorted (map (\<lambda>n. (in_Distance n, in_Path n)) (impact_nodes db v))"
    unfolding impact_nodes_def by (rule sorted_sort_key)
  moreover have "\<forall>n\<in>set (impact_nodes db v). in_Distance n \<le> depth_limit cfgDepth \<and> reach_in db files (in_Distance n) (in_Path n)"
    using impact_nodes_mem[of v db] v(1) unfolding bfs_sound_def by blast
  ultimately show ?thesis using v by simp
qed

lemma ComputeImpact_default: "ComputeImpact db files = ComputeImpactWithConfig db files 0 0"
  by (simp add: ComputeImpact_def ComputeImpactWithConfig_def)

definition radar_demo :: import_db where
  "radar_demo p = (if p = ''a'' then ImpRecord \<lparr>imp_Imports = [], imp_ImportedBy = [''c'', ''b'']\<rparr>
     else if p = ''b'' then ImpRecord \<lparr>imp_Imports = [''a''], imp_ImportedBy = [''c'']\<rparr> else ImpNotFound)"

lemma radar_demo_run:
  "ComputeImpactWithConfig radar_demo [''a''] 2 9 =
     Some \<lparr>ir_Impacted = [\<lparr>in_Path = ''a'', in_Distance = 0, in_FanIn = 2\<rparr>, \<lparr>in_Path = ''b'', in_Distance = 1, in_FanIn = 1\<rparr>,
        \<lparr>in_Path = ''c'', in_Distance = 1, in_FanIn = 0\<rparr>], ir_Truncated = False, ir_NodesVisited = 3, ir_LimitExceeded = False\<rparr>"
  by code_simp

theorem impact_exact_witness:
  "\<not> reach_in radar_demo [''a''] 0 ''c'' \<and> reach_in radar_demo [''a''] 1 ''c''"
  using impact_exact[OF radar_demo_run, of "''c''" 1] by simp

end
