(* ===== verification/RadarDrift.thy ===== *)
theory RadarDrift
  imports GlobMatch Interfaces RadarImpact
begin

text \<open>
  Drift of the import graph against a baseline (\<^verbatim>\<open>internal/radar/drift.go\<close>): new edges, forbidden
  edges, layer violations, and import cycles near the changed files. The stored baseline, the policy
  and the keys of the edges are arguments.
\<close>

section \<open>Edges and rules\<close>

record drift_violation =
  dv_From :: string
  dv_To :: string
  dv_Rule :: string

record layer =
  ly_Name :: string
  ly_Rank :: int

record drift_result =
  dr_ForbiddenEdges :: "drift_violation list"
  dr_NewCycles :: "string list list"
  dr_CrossLayerViolations :: "drift_violation list"
  dr_NewEdges :: "(string \<times> string) list"

definition defaultLayers :: "(string, layer) gomap" where
  "defaultLayers = map (\<lambda>(p, n, r). (p, \<lparr>ly_Name = n, ly_Rank = r\<rparr>))
     [(''cmd'', ''cmd'', 40), (''internal/api'', ''api'', 30), (''internal/handler'', ''api'', 30),
      (''internal/http'', ''api'', 30), (''internal/grpc'', ''api'', 30), (''internal/service'', ''application'', 20),
      (''internal/app'', ''application'', 20), (''internal/usecase'', ''application'', 20),
      (''internal/domain'', ''domain'', 10), (''internal/model'', ''domain'', 10), (''internal/entity'', ''domain'', 10),
      (''internal/infra'', ''infra'', 5), (''internal/platform'', ''infra'', 5), (''internal/repo'', ''infra'', 5),
      (''pkg'', ''pkg'', 15), (''src/api'', ''api'', 30), (''src/routes'', ''api'', 30), (''src/controllers'', ''api'', 30),
      (''src/services'', ''application'', 20), (''src/domain'', ''domain'', 10), (''src/models'', ''domain'', 10),
      (''src/infra'', ''infra'', 5), (''src/lib'', ''infra'', 5), (''src/utils'', ''infra'', 5), (''app/api'', ''api'', 30),
      (''app/routers'', ''api'', 30), (''app/services'', ''application'', 20), (''app/domain'', ''domain'', 10),
      (''app/models'', ''domain'', 10), (''app/infra'', ''infra'', 5)]"

text \<open>\<^verbatim>\<open>strings.SplitN\<close> with three parts keeps the first two segments apart.\<close>

definition inferLayer :: "string \<Rightarrow> layer option" where
  "inferLayer p =
     (let parts = split_on (CHR ''/'') p
      in case (if length parts \<ge> 2 then gm_get defaultLayers (parts ! 0 @ ''/'' @ parts ! 1) else None) of
           Some l \<Rightarrow> Some l
         | None \<Rightarrow> gm_get defaultLayers (parts ! 0))"

definition isLayerViolation :: "string \<Rightarrow> string \<Rightarrow> drift_violation option" where
  "isLayerViolation fromPath toPath =
     (case (inferLayer fromPath, inferLayer toPath) of
        (Some f, Some t) \<Rightarrow>
          if ly_Rank t = 5 then None
          else if ly_Rank f < ly_Rank t
            then Some \<lparr>dv_From = fromPath, dv_To = toPath,
                   dv_Rule = ''layer violation: '' @ ly_Name f @ '' (rank '' @ show_int (ly_Rank f) @ '') imports '' @
                     ly_Name t @ '' (rank '' @ show_int (ly_Rank t) @ '')''\<rparr>
          else None
      | _ \<Rightarrow> None)"

definition matchGlobOrPrefix :: "string \<Rightarrow> string \<Rightarrow> bool" where
  "matchGlobOrPrefix p pattern =
     (if glob_match pattern p then True
      else if pattern \<noteq> [] \<and> last pattern = CHR ''*'' then has_prefix p (butlast pattern)
      else p = pattern \<or> has_prefix p (pattern @ ''/''))"

definition checkForbidden :: "string \<Rightarrow> string \<Rightarrow> (string \<times> string) list \<Rightarrow> drift_violation option" where
  "checkForbidden from to rules =
     (case find (\<lambda>(f, t). matchGlobOrPrefix from f \<and> matchGlobOrPrefix to t) rules of
        None \<Rightarrow> None
      | Some (f, t) \<Rightarrow> Some \<lparr>dv_From = from, dv_To = to, dv_Rule = ''forbidden: '' @ f @ '' -> '' @ t\<rparr>)"

text \<open>The arrow of the keys, in its three bytes.\<close>

definition edge_key :: "string \<Rightarrow> string \<Rightarrow> string" where
  "edge_key from to = from @ [CHR 0xE2, CHR 0x86, CHR 0x92] @ to"

definition buildEdgeSet :: "(string, string list) gomap \<Rightarrow> string list" where
  "buildEdgeSet edges = concat (map (\<lambda>(from, tos). map (edge_key from) tos) edges)"

definition scanCurrentEdges :: "string list \<Rightarrow> (string \<times> string) list" where
  "scanCurrentEdges keys = List.map_filter (split_first (CHR 0x00)) keys"

definition add_edge :: "string \<times> string \<Rightarrow> (string, string list) gomap \<Rightarrow> (string, string list) gomap" where
  "add_edge e adj = gm_put (fst e) ((case gm_get adj (fst e) of None \<Rightarrow> [] | Some ts \<Rightarrow> ts) @ [snd e]) adj"

definition buildAdjacencyFromEdges :: "(string \<times> string) list \<Rightarrow> (string, string list) gomap" where
  "buildAdjacencyFromEdges es = fold add_edge es []"

definition adj_of :: "(string, string list) gomap \<Rightarrow> string \<Rightarrow> string list" where
  "adj_of adj n = (case gm_get adj n of None \<Rightarrow> [] | Some ts \<Rightarrow> ts)"

interpretation import_graph: digraph "gm_keys adj" "adj_of adj" for adj
proof
  fix x y assume "y \<in> set (adj_of adj x)"
  then have "gm_get adj x \<noteq> None" by (cases "gm_get adj x") (simp_all add: adj_of_def)
  then show "x \<in> set (gm_keys adj)" by (metis gm_get_None_iff)
qed

section \<open>What is near the changed files\<close>

fun add_neighbors :: "nat \<Rightarrow> string list \<Rightarrow> string list \<Rightarrow> string list \<times> (string \<times> nat) list" where
  "add_neighbors d [] visited = (visited, [])"
| "add_neighbors d (n # ns) visited =
     (if n \<in> set visited then add_neighbors d ns visited
      else let (v, q) = add_neighbors d ns (n # visited) in (v, (n, d) # q))"

lemma add_neighbors_visited:
  "add_neighbors d ns visited = (v, q) \<Longrightarrow> set v = set visited \<union> set ns \<and> (q = [] \<longrightarrow> v = visited) \<and>
     (q \<noteq> [] \<longrightarrow> (\<exists>n\<in>set ns. n \<notin> set visited))"
proof (induction ns arbitrary: visited v q)
  case (Cons n ns)
  then show ?case by (fastforce split: if_splits prod.splits)
qed simp

lemma add_neighbors_measure:
  assumes "add_neighbors d (adj_of adj n) visited = (v, q)"
  shows "q = [] \<and> v = visited \<or>
    card (set (concat (map snd adj)) - set v) < card (set (concat (map snd adj)) - set visited)"
proof (cases "q = []")
  case False
  note v = add_neighbors_visited[OF assms]
  then obtain m where m: "m \<in> set (adj_of adj n)" "m \<notin> set visited" using False by blast
  then obtain ts where "gm_get adj n = Some ts" "m \<in> set ts" by (cases "gm_get adj n") (auto simp: adj_of_def)
  then have "m \<in> set (concat (map snd adj))" by (auto dest!: gm_get_SomeD) (metis snd_conv)
  then have "set (concat (map snd adj)) - set v \<subset> set (concat (map snd adj)) - set visited" using v m by auto
  then show ?thesis by (intro disjI2 psubset_card_mono) auto
qed (use add_neighbors_visited[OF assms] in simp)

text \<open>A file enters the queue when it is first visited, so the search ends.\<close>

function sub_loop :: "(string, string list) gomap \<Rightarrow> nat \<Rightarrow> (string \<times> nat) list \<Rightarrow> string list \<Rightarrow> string list" where
  "sub_loop adj maxDepth [] visited = visited"
| "sub_loop adj maxDepth ((n, d) # q) visited =
     (if d \<ge> maxDepth then sub_loop adj maxDepth q visited
      else let (v, q') = add_neighbors (d + 1) (adj_of adj n) visited in sub_loop adj maxDepth (q @ q') v)"
  by pat_completeness auto
termination
  by (relation "measures [\<lambda>(adj, md, q, v). card (set (concat (map snd adj)) - set v), \<lambda>(adj, md, q, v). length q]")
    (auto simp del: set_concat dest!: add_neighbors_measure[OF sym])

definition sub_seeds :: "string list \<Rightarrow> string list \<times> (string \<times> nat) list" where
  "sub_seeds seeds = (let (v, q) = add_neighbors 0 seeds [] in (v, q))"

definition reachableSubgraph :: "(string, string list) gomap \<Rightarrow> string list \<Rightarrow> nat \<Rightarrow> (string, string list) gomap" where
  "reachableSubgraph adj seeds maxDepth =
     (let (v, q) = sub_seeds seeds; visited = sub_loop adj maxDepth q v
      in List.map_filter (\<lambda>n. let ts = filter (\<lambda>t. t \<in> set visited) (adj_of adj n) in if ts = [] then None else Some (n, ts)) visited)"

section \<open>Cycles\<close>

datatype color = Gray | Black

definition maxCycleLen :: nat where
  "maxCycleLen = 8"

text \<open>The part of the stack from the last occurrence of the target.\<close>

definition extractCycle :: "string list \<Rightarrow> string \<Rightarrow> string list" where
  "extractCycle stack target = (if target \<in> set stack then target # rev (takeWhile (\<lambda>n. n \<noteq> target) (rev stack)) else [])"

text \<open>
  The depth-first search. A missing colour is white; one function on a list of nodes stands for
  the recursive function and its loop over the successors.\<close>

function (domintros) cycle_dfs ::
  "(string, string list) gomap \<Rightarrow> nat \<Rightarrow> string list \<Rightarrow> string list \<Rightarrow> (string, color) gomap \<Rightarrow> string list list \<Rightarrow>
     (string, color) gomap \<times> string list list" where
  "cycle_dfs adj maxLen stack [] colors cycles = (colors, cycles)"
| "cycle_dfs adj maxLen stack (n # ns) colors cycles =
     (case gm_get colors n of
        None \<Rightarrow>
          (case cycle_dfs adj maxLen (stack @ [n]) (sort (adj_of adj n)) (gm_put n Gray colors) cycles of
             (colors', cycles') \<Rightarrow> cycle_dfs adj maxLen stack ns (gm_put n Black colors') cycles')
      | Some Gray \<Rightarrow>
          (let c = extractCycle stack n
           in cycle_dfs adj maxLen stack ns colors (if c \<noteq> [] \<and> length c \<le> maxLen then cycles @ [c] else cycles))
      | Some Black \<Rightarrow> cycle_dfs adj maxLen stack ns colors cycles)"
  by pat_completeness auto

lemma cycle_dfs_grows:
  "cycle_dfs_dom (adj, maxLen, stack, ns, colors, cycles) \<Longrightarrow> cycle_dfs adj maxLen stack ns colors cycles = (colors', cycles') \<Longrightarrow>
     set (gm_keys colors) \<subseteq> set (gm_keys colors')"
proof (induction arbitrary: colors' cycles' rule: cycle_dfs.pinduct)
  case (1 adj maxLen stack colors cycles)
  then show ?case by (simp add: cycle_dfs.psimps)
next
  case (2 adj maxLen stack n ns colors cycles)
  note psimp = cycle_dfs.psimps(2)[OF "2.hyps"]
  show ?case
  proof (cases "gm_get colors n")
    case None
    obtain c1 y1 where rec: "cycle_dfs adj maxLen (stack @ [n]) (sort (adj_of adj n)) (gm_put n Gray colors) cycles = (c1, y1)"
      by fastforce
    have "set (gm_keys (gm_put n Gray colors)) \<subseteq> set (gm_keys c1)" using "2.IH"(1)[OF None rec] .
    moreover have "set (gm_keys (gm_put n Black c1)) \<subseteq> set (gm_keys colors')"
      using "2.IH"(2)[OF None rec[symmetric], of colors' cycles'] "2.prems" psimp None rec by simp
    ultimately show ?thesis by (auto simp: gm_keys_def dom_update)
  next
    case (Some c)
    then show ?thesis using "2.IH"(3,4) "2.prems" psimp by (cases c) (auto simp: Let_def)
  qed
qed

lemma gm_keys_put: "set (gm_keys (gm_put k v m)) = insert k (set (gm_keys m))"
  by (simp add: gm_keys_def dom_update)

lemma cycle_dfs_total: "All cycle_dfs_dom"
proof (relation "(\<lambda>(adj, maxLen, stack, ns, colors, cycles). card (set (gm_keys adj) - set (gm_keys colors)))
    <*mlex*> measure (\<lambda>(adj, maxLen, stack, ns, colors, cycles). length ns)", goal_cases)
  case 1
  then show ?case by (simp add: wf_mlex)
next
  case (2 adj maxLen stack n ns colors cycles)
  show ?case
  proof (cases "n \<in> set (gm_keys adj)")
    case True
    moreover have "n \<notin> set (gm_keys colors)" using 2 by (simp add: gm_get_None_iff[symmetric])
    ultimately show ?thesis
      by (intro mlex_less) (simp only: prod.case, rule import_graph.unvisited_less, auto simp: gm_keys_put)
  next
    case False
    then have "adj_of adj n = []" by (rule import_graph.succs_leaf)
    moreover have "card (set (gm_keys adj) - set (gm_keys (gm_put n Gray colors))) \<le> card (set (gm_keys adj) - set (gm_keys colors))"
      by (rule import_graph.unvisited_le) (auto simp: gm_keys_put)
    ultimately show ?thesis by (simp add: mlex_leq)
  qed
next
  case (3 adj maxLen stack n ns colors cycles colors' cycles')
  from 3(3) have "set (gm_keys (gm_put n Gray colors)) \<subseteq> set (gm_keys colors')"
    by (rule cycle_dfs_grows) (rule 3(2)[symmetric])
  then have "card (set (gm_keys adj) - set (gm_keys (gm_put n Black colors'))) \<le> card (set (gm_keys adj) - set (gm_keys colors))"
    by (intro import_graph.unvisited_le) (auto simp: gm_keys_put)
  then show ?case by (simp add: mlex_leq)
qed (simp_all add: mlex_leq)

termination cycle_dfs
  by (rule cycle_dfs_total)

definition canonical_rotation :: "string list \<Rightarrow> string list" where
  "canonical_rotation nodes = (if nodes = [] then [] else rotate (length (takeWhile (\<lambda>n. n \<noteq> Min (set nodes)) nodes)) nodes)"

definition canonicalCycleKey :: "string list \<Rightarrow> string" where
  "canonicalCycleKey nodes = join_with [CHR 0xE2, CHR 0x86, CHR 0x92] (canonical_rotation nodes)"

fun deduplicateCycles :: "string list \<Rightarrow> string list list \<Rightarrow> string list list" where
  "deduplicateCycles seen [] = []"
| "deduplicateCycles seen (c # cs) =
     (if canonicalCycleKey c \<in> set seen then deduplicateCycles seen cs
      else c # deduplicateCycles (canonicalCycleKey c # seen) cs)"

definition detectImportCycles :: "(string, string list) gomap \<Rightarrow> nat \<Rightarrow> string list list" where
  "detectImportCycles adj maxLen = deduplicateCycles [] (snd (cycle_dfs adj maxLen [] (sort (gm_keys adj)) [] []))"

text \<open>The stored graph and policy may be missing; without the edges there is no result.\<close>

definition DetectDrift ::
  "(string, string list) gomap option \<Rightarrow> (string \<times> string) list option \<Rightarrow> string list option \<Rightarrow> string list \<Rightarrow> drift_result option" where
  "DetectDrift stored policy keys changedFiles =
     (let baseline = buildEdgeSet (case stored of None \<Rightarrow> [] | Some g \<Rightarrow> g);
          rules = (case policy of None \<Rightarrow> [] | Some r \<Rightarrow> r)
      in case keys of
           None \<Rightarrow> None
         | Some ks \<Rightarrow>
             let es = scanCurrentEdges ks; adj = buildAdjacencyFromEdges es
             in Some \<lparr>dr_ForbiddenEdges = List.map_filter (\<lambda>(f, t). checkForbidden f t rules) es,
                  dr_NewCycles = detectImportCycles (reachableSubgraph adj changedFiles BFSDefaultMaxDepth) maxCycleLen,
                  dr_CrossLayerViolations = List.map_filter (\<lambda>(f, t). isLayerViolation f t) es,
                  dr_NewEdges = filter (\<lambda>(f, t). edge_key f t \<notin> set baseline) es\<rparr>)"

section \<open>What the search reports\<close>

definition import_cycle :: "(string, string list) gomap \<Rightarrow> string list \<Rightarrow> bool" where
  "import_cycle adj c \<longleftrightarrow> c \<noteq> [] \<and> distinct c \<and> successively (\<lambda>a b. b \<in> set (adj_of adj a)) c \<and>
     hd c \<in> set (adj_of adj (last c))"

definition colored :: "color \<Rightarrow> (string, color) gomap \<Rightarrow> string set" where
  "colored k colors = {n. gm_get colors n = Some k}"

lemma colored_put: "colored k (gm_put n c colors) = (if c = k then insert n (colored k colors) else colored k colors - {n})"
  by (auto simp: colored_def)

lemma colored_disjoint: "n \<in> colored Gray colors \<Longrightarrow> n \<notin> colored Black colors"
  by (simp add: colored_def)

text \<open>The stack is a path and holds the gray nodes.\<close>

definition dfs_stack :: "(string, string list) gomap \<Rightarrow> string list \<Rightarrow> (string, color) gomap \<Rightarrow> bool" where
  "dfs_stack adj stack colors \<longleftrightarrow> colored Gray colors = set stack \<and> distinct stack \<and>
     successively (\<lambda>a b. b \<in> set (adj_of adj a)) stack"

lemma extractCycle_split: "distinct stack \<Longrightarrow> stack = a @ n # b \<Longrightarrow> extractCycle stack n = n # b"
proof -
  assume d: "distinct stack" and s: "stack = a @ n # b"
  have "takeWhile (\<lambda>x. x \<noteq> n) (rev b @ n # rev a) = rev b"
    using d s by (subst takeWhile_append2) auto
  then show ?thesis by (simp add: extractCycle_def s)
qed

lemma extractCycle_cycle:
  assumes "dfs_stack adj stack colors" "n \<in> set stack" "n \<in> set (adj_of adj (last stack))"
  shows "import_cycle adj (extractCycle stack n)"
proof -
  obtain a b where s: "stack = a @ n # b" using assms(2) by (meson split_list)
  then have "extractCycle stack n = n # b" using assms(1) by (intro extractCycle_split) (simp_all add: dfs_stack_def)
  then show ?thesis using assms(1,3) s by (simp add: import_cycle_def dfs_stack_def successively_append_iff)
qed

text \<open>The black nodes are closed and reach no cycle.\<close>

definition black_ok :: "(string, string list) gomap \<Rightarrow> (string, color) gomap \<Rightarrow> bool" where
  "black_ok adj colors \<longleftrightarrow> (\<forall>u\<in>colored Black colors. set (adj_of adj u) \<subseteq> colored Black colors \<and>
     \<not> reaches_cycle (edge_rel (adj_of adj)) u)"

lemma black_ok_insert:
  assumes "black_ok adj colors" "set (adj_of adj n) \<subseteq> colored Black colors"
  shows "black_ok adj (gm_put n Black colors)"
proof -
  have "\<not> reaches_cycle (edge_rel (adj_of adj)) n"
    by (rule import_graph.closed_insert_no_reaches_cycle[of "colored Black colors"])
      (use assms in \<open>auto simp: black_ok_def\<close>)
  then show ?thesis using assms by (auto simp: black_ok_def colored_put)
qed

lemma import_cycle_succ: "import_cycle adj c \<Longrightarrow> x \<in> set c \<Longrightarrow> adj_of adj x \<noteq> []"
proof -
  assume c: "import_cycle adj c" "x \<in> set c"
  then obtain a b where s: "c = a @ x # b" by (meson split_list)
  show ?thesis
  proof (cases b)
    case Nil
    then show ?thesis using c s by (auto simp: import_cycle_def)
  next
    case (Cons y b')
    then show ?thesis using c s by (auto simp: import_cycle_def successively_append_iff)
  qed
qed

lemma cycle_dfs_main:
  "cycle_dfs adj maxLen stack ns colors cycles = (colors', cycles') \<Longrightarrow> dfs_stack adj stack colors \<Longrightarrow>
     (stack \<noteq> [] \<Longrightarrow> set ns \<subseteq> set (adj_of adj (last stack))) \<Longrightarrow>
     dfs_stack adj stack colors' \<and> colored Black colors \<subseteq> colored Black colors' \<and>
     (\<exists>new. cycles' = cycles @ new \<and> (\<forall>c\<in>set new. import_cycle adj c \<and> length c \<le> maxLen) \<and>
        (new = [] \<longrightarrow> length (gm_keys adj) \<le> maxLen \<longrightarrow> black_ok adj colors \<longrightarrow>
           black_ok adj colors' \<and> set ns \<subseteq> colored Black colors'))"
proof (induction adj maxLen stack ns colors cycles arbitrary: colors' cycles' rule: cycle_dfs.induct)
  case (2 adj maxLen stack n ns colors cycles)
  note stack = "2.prems"(2)
  show ?case
  proof (cases "gm_get colors n")
    case None
    then have n: "n \<notin> colored Gray colors" "n \<notin> colored Black colors" by (simp_all add: colored_def)
    obtain c1 y1 where rec: "cycle_dfs adj maxLen (stack @ [n]) (sort (adj_of adj n)) (gm_put n Gray colors) cycles = (c1, y1)"
      by fastforce
    have "dfs_stack adj (stack @ [n]) (gm_put n Gray colors)"
      using stack n "2.prems"(3) by (auto simp: dfs_stack_def colored_put successively_append_iff)
    from "2.IH"(1)[OF None rec this] obtain new1 where new1: "y1 = cycles @ new1"
        "\<forall>c\<in>set new1. import_cycle adj c \<and> length c \<le> maxLen" and c1: "dfs_stack adj (stack @ [n]) c1" "colored Black colors \<subseteq> colored Black c1"
      and black1: "new1 = [] \<Longrightarrow> length (gm_keys adj) \<le> maxLen \<Longrightarrow> black_ok adj (gm_put n Gray colors) \<Longrightarrow>
          black_ok adj c1 \<and> set (adj_of adj n) \<subseteq> colored Black c1"
      using n by (auto simp: colored_put)
    have "dfs_stack adj stack (gm_put n Black c1)"
      using c1(1) by (auto simp: dfs_stack_def colored_put successively_append_iff)
    from "2.IH"(2)[OF None rec[symmetric] _ this] "2.prems"(1,3) None rec
    obtain new2 where new2: "cycles' = y1 @ new2" "\<forall>c\<in>set new2. import_cycle adj c \<and> length c \<le> maxLen"
      and c2: "dfs_stack adj stack colors'" "colored Black (gm_put n Black c1) \<subseteq> colored Black colors'"
      and black2: "new2 = [] \<Longrightarrow> length (gm_keys adj) \<le> maxLen \<Longrightarrow> black_ok adj (gm_put n Black c1) \<Longrightarrow>
          black_ok adj colors' \<and> set ns \<subseteq> colored Black colors'"
      by fastforce
    have "black_ok adj colors' \<and> set (n # ns) \<subseteq> colored Black colors'"
      if none: "new1 @ new2 = []" and len: "length (gm_keys adj) \<le> maxLen" and ok: "black_ok adj colors"
    proof -
      have "black_ok adj (gm_put n Gray colors)" using ok n by (simp add: black_ok_def colored_put)
      then have "black_ok adj (gm_put n Black c1)" using black1 none len black_ok_insert by simp
      then show ?thesis using black2 none len c2(2) by (auto simp: colored_put)
    qed
    moreover have "colored Black colors \<subseteq> colored Black colors'" using c1(2) c2(2) n by (auto simp: colored_put)
    moreover have "cycles' = cycles @ (new1 @ new2)" using new1(1) new2(1) by simp
    moreover have "\<forall>c\<in>set (new1 @ new2). import_cycle adj c \<and> length c \<le> maxLen" using new1(2) new2(2) by auto
    ultimately show ?thesis using c2(1) by blast
  next
    case (Some k)
    show ?thesis
    proof (cases k)
      case Gray
      define c where "c = extractCycle stack n"
      define found where "found = (if c \<noteq> [] \<and> length c \<le> maxLen then [c] else [])"
      have n: "n \<in> set stack" using Some Gray stack by (auto simp: dfs_stack_def colored_def)
      then have cyc: "import_cycle adj c" unfolding c_def
        using extractCycle_cycle[OF stack] "2.prems"(3) by (cases stack) auto
      have "cycle_dfs adj maxLen stack ns colors (cycles @ found) = (colors', cycles')"
        using "2.prems"(1) Some Gray
        by (cases "c \<noteq> [] \<and> length c \<le> maxLen") (auto simp: found_def c_def[symmetric] Let_def)
      then obtain new where new: "cycles' = (cycles @ found) @ new" "\<forall>c\<in>set new. import_cycle adj c \<and> length c \<le> maxLen"
        and c2: "dfs_stack adj stack colors'" "colored Black colors \<subseteq> colored Black colors'"
        using "2.IH"(3)[OF Some Gray _ _ stack, of c colors' cycles'] "2.prems"(3) by (auto simp: found_def c_def split: if_splits)
      have "found \<noteq> []" if "length (gm_keys adj) \<le> maxLen"
      proof -
        have "x \<in> set (gm_keys adj)" if "x \<in> set c" for x
        proof -
          have "adj_of adj x \<noteq> []" by (rule import_cycle_succ[OF cyc that])
          then show ?thesis using import_graph.succs_leaf by blast
        qed
        then have "length c \<le> length (gm_keys adj)"
          using cyc by (metis card_length card_mono distinct_card import_cycle_def le_trans List.finite_set subsetI)
        then show ?thesis using that cyc by (simp add: found_def import_cycle_def)
      qed
      moreover have "\<forall>c\<in>set (found @ new). import_cycle adj c \<and> length c \<le> maxLen" using new(2) cyc by (auto simp: found_def)
      moreover have "cycles' = cycles @ (found @ new)" using new(1) by simp
      ultimately show ?thesis using c2 by (metis append_is_Nil_conv)
    next
      case Black
      then have "n \<in> colored Black colors" using Some by (simp add: colored_def)
      then show ?thesis using "2.IH"(4)[OF Some Black _ stack] "2.prems"(1,3) Some Black by fastforce
    qed
  qed
qed auto

lemma deduplicateCycles_sub: "set (deduplicateCycles seen cs) \<subseteq> set cs"
  by (induction seen cs rule: deduplicateCycles.induct) auto

lemma deduplicateCycles_distinct:
  "distinct (map canonicalCycleKey (deduplicateCycles seen cs)) \<and>
     canonicalCycleKey ` set (deduplicateCycles seen cs) \<inter> set seen = {}"
  by (induction seen cs rule: deduplicateCycles.induct) auto

lemma deduplicateCycles_Nil: "deduplicateCycles [] cs = [] \<longleftrightarrow> cs = []"
  by (cases cs) simp_all

lemma detect_run:
  assumes "cycle_dfs adj maxLen [] (sort (gm_keys adj)) [] [] = (colors, cycles)"
  shows "(\<forall>c\<in>set cycles. import_cycle adj c \<and> length c \<le> maxLen) \<and>
    (cycles = [] \<longrightarrow> length (gm_keys adj) \<le> maxLen \<longrightarrow> acyclic (edge_rel (adj_of adj)))"
proof -
  have "dfs_stack adj [] []" by (simp add: dfs_stack_def colored_def)
  from cycle_dfs_main[OF assms this] have main: "\<forall>c\<in>set cycles. import_cycle adj c \<and> length c \<le> maxLen"
      "cycles = [] \<longrightarrow> length (gm_keys adj) \<le> maxLen \<longrightarrow> black_ok adj [] \<longrightarrow>
        black_ok adj colors \<and> set (gm_keys adj) \<subseteq> colored Black colors"
    by auto
  have "acyclic (edge_rel (adj_of adj))" if "cycles = []" "length (gm_keys adj) \<le> maxLen"
  proof -
    have "black_ok adj []" by (simp add: black_ok_def colored_def)
    then have ok: "black_ok adj colors" "set (gm_keys adj) \<subseteq> colored Black colors" using main(2) that by auto
    have "\<not> reaches_cycle (edge_rel (adj_of adj)) x" for x
    proof (cases "x \<in> set (gm_keys adj)")
      case True
      then show ?thesis using ok by (auto simp: black_ok_def)
    next
      case False
      then have "adj_of adj x = []" by (rule import_graph.succs_leaf)
      then show ?thesis by (subst reaches_cycle_unfold) (auto simp: edge_rel_def dest: tranclD)
    qed
    then show ?thesis by (simp add: acyclic_iff_no_reaches_cycle)
  qed
  then show ?thesis using main(1) by blast
qed

lemma import_cycle_not_acyclic: "import_cycle adj c \<Longrightarrow> \<not> acyclic (edge_rel (adj_of adj))"
proof -
  assume c: "import_cycle adj c"
  then obtain x xs where x: "c = x # xs" by (cases c) (auto simp: import_cycle_def)
  have "successively (\<lambda>a b. b \<in> set (adj_of adj a)) (x # xs) \<Longrightarrow> (x, last (x # xs)) \<in> (edge_rel (adj_of adj))\<^sup>*" for x xs
  proof (induction xs arbitrary: x)
    case (Cons y ys)
    then have "(x, y) \<in> edge_rel (adj_of adj)" "(y, last (y # ys)) \<in> (edge_rel (adj_of adj))\<^sup>*"
      by (simp_all add: edge_rel_def)
    then show ?case by (simp add: converse_rtrancl_into_rtrancl)
  qed simp
  then have "(x, last c) \<in> (edge_rel (adj_of adj))\<^sup>*" using c x by (simp add: import_cycle_def)
  moreover have "(last c, x) \<in> edge_rel (adj_of adj)" using c x by (simp add: import_cycle_def edge_rel_def)
  ultimately have "(x, x) \<in> (edge_rel (adj_of adj))\<^sup>+" by (rule rtrancl_into_trancl1)
  then show ?thesis by (auto simp: acyclic_def)
qed

text \<open>
  C21. The cycle search is sound and, up to the length it reports, complete: every reported list is a
  cycle of distinct files along imports, no longer than the limit and reported in one rotation only,
  and when the limit covers the importing files, nothing is reported exactly if the graph has no
  cycle.\<close>

theorem detectImportCycles_exact:
  "(\<forall>c\<in>set (detectImportCycles adj maxLen). import_cycle adj c \<and> length c \<le> maxLen) \<and>
   distinct (map canonicalCycleKey (detectImportCycles adj maxLen)) \<and>
   (length (gm_keys adj) \<le> maxLen \<longrightarrow> (detectImportCycles adj maxLen = [] \<longleftrightarrow> acyclic (edge_rel (adj_of adj))))"
proof -
  obtain colors cycles where run: "cycle_dfs adj maxLen [] (sort (gm_keys adj)) [] [] = (colors, cycles)" by fastforce
  note main = detect_run[OF run]
  have d: "detectImportCycles adj maxLen = deduplicateCycles [] cycles" by (simp add: detectImportCycles_def run)
  have "\<forall>c\<in>set (detectImportCycles adj maxLen). import_cycle adj c \<and> length c \<le> maxLen"
    using main deduplicateCycles_sub[of "[]" cycles] unfolding d by blast
  moreover have "detectImportCycles adj maxLen = [] \<longleftrightarrow> acyclic (edge_rel (adj_of adj))" if "length (gm_keys adj) \<le> maxLen"
    using main that import_cycle_not_acyclic[of adj] unfolding d deduplicateCycles_Nil by (cases cycles) auto
  ultimately show ?thesis using deduplicateCycles_distinct[of "[]" cycles] d by simp
qed

theorem detectImportCycles_exact_witness:
  "detectImportCycles [(''a'', [''b'']), (''b'', [''c''])] 8 = [] \<and> acyclic (edge_rel (adj_of [(''a'', [''b'']), (''b'', [''c''])])) \<and>
   detectImportCycles [(''a'', [''b'']), (''b'', [''c'', ''a''])] 8 = [[''a'', ''b'']]"
proof -
  have 1: "detectImportCycles [(''a'', [''b'']), (''b'', [''c''])] 8 = []" by code_simp
  have "length (gm_keys [(''a'', [''b'']), (''b'', [''c''])]) \<le> 8" by (simp add: gm_keys_def)
  then have "acyclic (edge_rel (adj_of [(''a'', [''b'']), (''b'', [''c''])]))"
    using detectImportCycles_exact[of "[(''a'', [''b'']), (''b'', [''c''])]" 8] 1 by blast
  moreover have "detectImportCycles [(''a'', [''b'']), (''b'', [''c'', ''a''])] 8 = [[''a'', ''b'']]" by code_simp
  ultimately show ?thesis using 1 by blast
qed

text \<open>
  A short cycle can be missed: when the search first reaches the second file of a two-file cycle
  along a longer path, it finds only the long cycle, which is not reported, and the file is black
  when the short edge is looked at.\<close>

lemma short_cycle_missed:
  "let adj = [(''a'', [''b'', ''j'']), (''b'', [''c'']), (''c'', [''d'']), (''d'', [''e'']), (''e'', [''f'']), (''f'', [''g'']),
     (''g'', [''h'']), (''h'', [''i'']), (''i'', [''j'']), (''j'', [''a''])]
   in import_cycle adj [''a'', ''j''] \<and> length [''a'', ''j''] \<le> maxCycleLen \<and> detectImportCycles adj maxCycleLen = []"
  unfolding Let_def by (intro conjI; code_simp)

end
