(* ===== verification/UserHooks.thy ===== *)
theory UserHooks
  imports Interfaces GlobMatch "HOL-Library.List_Lexorder" "HOL-Library.Char_ord"
begin

text \<open>
  The hooks a user configures around tool calls (\<^verbatim>\<open>internal/agent/hooks_config.go\<close>): loading and
  merging of the files, reloading when they change, matching of tools, the veto before a call and
  the audit log. The disk and the commands are arguments: what a file holds when it is read, when it
  was changed, and how the process of a hook ends.
\<close>

section \<open>Hooks\<close>

record user_hook =
  uh_ID :: string
  uh_Event :: string
  uh_Tools :: "string list"
  uh_Type :: string
  uh_Command :: string
  uh_TimeoutSecs :: int
  uh_Enabled :: bool

definition UserHookPreToolUse :: string where
  "UserHookPreToolUse = ''PreToolUse''"

definition UserHookPostToolUse :: string where
  "UserHookPostToolUse = ''PostToolUse''"

definition defaultHookTimeoutSecs :: int where
  "defaultHookTimeoutSecs = 30"

definition maxHookTimeoutSecs :: int where
  "maxHookTimeoutSecs = 300"

definition hookOutputCapBytes :: nat where
  "hookOutputCapBytes = 64 * 1024"

datatype hook_load_error =
  HookUnreadable string
| HookMalformed string
| HookNoID string nat
| HookDuplicateID string string
| HookBadEvent string string
| HookNoTools string string
| HookBadAction string string
| HookNoCommand string string
| HookNegativeTimeout string string

datatype hook_file = FileMissing | FileUnreadable | FileMalformed | FileHooks "user_hook list"

record hook_disk =
  hd_read :: "string \<Rightarrow> hook_file"
  hd_mtime :: "string \<Rightarrow> gotime option"

section \<open>Loading\<close>

text \<open>The checks of one hook; \<open>seen\<close> are the identifiers before it.\<close>

definition check_hook :: "string \<Rightarrow> nat \<Rightarrow> string list \<Rightarrow> user_hook \<Rightarrow> hook_load_error option" where
  "check_hook p i seen h =
     (if trim_space (uh_ID h) = [] then Some (HookNoID p i)
      else if uh_ID h \<in> set seen then Some (HookDuplicateID p (uh_ID h))
      else if uh_Event h \<noteq> UserHookPreToolUse \<and> uh_Event h \<noteq> UserHookPostToolUse then Some (HookBadEvent p (uh_ID h))
      else if uh_Tools h = [] then Some (HookNoTools p (uh_ID h))
      else if uh_Type h \<noteq> ''command'' then Some (HookBadAction p (uh_ID h))
      else if trim_space (uh_Command h) = [] then Some (HookNoCommand p (uh_ID h))
      else if uh_TimeoutSecs h < 0 then Some (HookNegativeTimeout p (uh_ID h))
      else None)"

fun check_hooks :: "string \<Rightarrow> nat \<Rightarrow> string list \<Rightarrow> user_hook list \<Rightarrow> hook_load_error option" where
  "check_hooks p i seen [] = None"
| "check_hooks p i seen (h # hs) =
     (case check_hook p i seen h of Some e \<Rightarrow> Some e | None \<Rightarrow> check_hooks p (i + 1) (uh_ID h # seen) hs)"

definition LoadUserHooksFile :: "hook_disk \<Rightarrow> string \<Rightarrow> hook_load_error + user_hook list option" where
  "LoadUserHooksFile disk p =
     (if trim_space p = [] then Inr None
      else case hd_read disk p of
             FileMissing \<Rightarrow> Inr None
           | FileUnreadable \<Rightarrow> Inl (HookUnreadable p)
           | FileMalformed \<Rightarrow> Inl (HookMalformed p)
           | FileHooks hs \<Rightarrow> (case check_hooks p 0 [] hs of Some e \<Rightarrow> Inl e | None \<Rightarrow> Inr (Some hs)))"

text \<open>A hook replaces one with the same identifier in its place.\<close>

definition mergeUserHooks :: "user_hook list option list \<Rightarrow> user_hook list" where
  "mergeUserHooks files =
     map snd (fold (\<lambda>h. gm_put (uh_ID h) h) (concat (map (\<lambda>f. case f of None \<Rightarrow> [] | Some hs \<Rightarrow> hs) files)) [])"

definition matchesTool :: "string list \<Rightarrow> string \<Rightarrow> bool" where
  "matchesTool patterns tool =
     list_ex (\<lambda>p. let p = trim_space p in p = ''*'' \<or> p = tool \<or> glob_match p tool) patterns"

record hook_audit_entry =
  ha_Time :: gotime
  ha_HookID :: string
  ha_Event :: string
  ha_Tool :: string
  ha_Vetoed :: bool
  ha_ExitCode :: int
  ha_Output :: string
  ha_Err :: string
  ha_TestRun :: bool

record hook_audit_log =
  hl_entries :: "hook_audit_entry list"
  hl_cap :: nat

definition NewHookAuditLog :: "int \<Rightarrow> hook_audit_log" where
  "NewHookAuditLog n = \<lparr>hl_entries = [], hl_cap = (if n \<le> 0 then 500 else nat n)\<rparr>"

definition audit_append :: "hook_audit_entry \<Rightarrow> hook_audit_log \<Rightarrow> hook_audit_log" where
  "audit_append e l =
     (let es = hl_entries l @ [e] in l\<lparr>hl_entries := (if length es > hl_cap l then drop (length es - hl_cap l) es else es)\<rparr>)"

definition audit_Recent :: "int \<Rightarrow> hook_audit_log \<Rightarrow> hook_audit_entry list" where
  "audit_Recent n l =
     (let total = int (length (hl_entries l)); n = (if n \<le> 0 \<or> n > total then total else n)
      in rev (last_n (nat n) (hl_entries l)))"

record hook_runner =
  hr_audit :: hook_audit_log
  hr_defs :: "user_hook list"
  hr_paths :: "string list"
  hr_mtimes :: "(string, gotime) gomap"
  hr_lastErr :: "hook_load_error option"

definition NewUserHookRunner :: "hook_audit_log option \<Rightarrow> hook_runner" where
  "NewUserHookRunner l =
     \<lparr>hr_audit = (case l of None \<Rightarrow> NewHookAuditLog 0 | Some l \<Rightarrow> l), hr_defs = [], hr_paths = [], hr_mtimes = [], hr_lastErr = None\<rparr>"

definition stat_paths :: "hook_disk \<Rightarrow> string list \<Rightarrow> (string, gotime) gomap" where
  "stat_paths disk ps =
     fold (\<lambda>p m. if trim_space p = [] then m else case hd_mtime disk p of None \<Rightarrow> m | Some t \<Rightarrow> gm_put p t m) ps []"

text \<open>The files of the paths that are not blank, up to the first error.\<close>

fun load_files :: "hook_disk \<Rightarrow> string list \<Rightarrow> hook_load_error + user_hook list option list" where
  "load_files disk [] = Inr []"
| "load_files disk (p # ps) =
     (if trim_space p = [] then load_files disk ps
      else case LoadUserHooksFile disk p of
             Inl e \<Rightarrow> Inl e
           | Inr f \<Rightarrow> (case load_files disk ps of Inl e \<Rightarrow> Inl e | Inr fs \<Rightarrow> Inr (f # fs)))"

definition hooks_Load :: "hook_disk \<Rightarrow> string list \<Rightarrow> hook_runner \<Rightarrow> hook_load_error option \<times> hook_runner" where
  "hooks_Load disk paths r =
     (let mtimes = stat_paths disk paths
      in case load_files disk paths of
           Inl e \<Rightarrow> (Some e, r\<lparr>hr_lastErr := Some e, hr_mtimes := mtimes\<rparr>)
         | Inr files \<Rightarrow>
             (None, r\<lparr>hr_defs := sort_key uh_ID (filter uh_Enabled (mergeUserHooks files)), hr_paths := paths,
                      hr_lastErr := None, hr_mtimes := mtimes\<rparr>))"

definition hooks_Reload :: "hook_disk \<Rightarrow> hook_runner \<Rightarrow> hook_load_error option \<times> hook_runner" where
  "hooks_Reload disk r = (if hr_paths r = [] then (None, r) else hooks_Load disk (hr_paths r) r)"

definition maybeAutoReload :: "hook_disk \<Rightarrow> hook_runner \<Rightarrow> hook_runner" where
  "maybeAutoReload disk r =
     (if hr_paths r = [] then r
      else
        let current = stat_paths disk (hr_paths r);
            changed = list_ex (\<lambda>(p, t). gm_get (hr_mtimes r) p \<noteq> Some t) current \<or> length current \<noteq> length (hr_mtimes r)
        in if changed then snd (hooks_Load disk (hr_paths r) r) else r)"

section \<open>Running\<close>

text \<open>What a command wrote, chunk by chunk, and how it ended.\<close>

datatype hook_end = HookTimedOut | HookExited int | HookFailed string

record hook_process =
  hp_chunks :: "string list"
  hp_end :: hook_end

text \<open>The capped output: the bytes kept and whether some were dropped.\<close>

definition output_Write :: "string \<Rightarrow> string \<times> bool \<Rightarrow> string \<times> bool" where
  "output_Write p w =
     (let (buf, truncated) = w; remaining = int hookOutputCapBytes - int (length buf)
      in if truncated then w
         else if remaining \<le> 0 then (buf, True)
         else if int (length p) > remaining then (buf @ take (nat remaining) p, True)
         else (buf @ p, False))"

definition output_String :: "string \<times> bool \<Rightarrow> string" where
  "output_String w =
     (if snd w then fst w @ CHR 0x0A # ''...[output truncated at '' @ show_nat hookOutputCapBytes @ '' bytes]'' else fst w)"

definition hook_timeout :: "user_hook \<Rightarrow> int" where
  "hook_timeout h =
     (let t = (if uh_TimeoutSecs h \<le> 0 then defaultHookTimeoutSecs else uh_TimeoutSecs h)
      in if t > maxHookTimeoutSecs then maxHookTimeoutSecs else t)"

definition quoted :: "string \<Rightarrow> string" where
  "quoted s = CHR 0x22 # s @ [CHR 0x22]"

definition runHookCommand :: "hook_process \<Rightarrow> user_hook \<Rightarrow> int \<times> string \<times> string option" where
  "runHookCommand pr h =
     (let out = output_String (fold output_Write (hp_chunks pr) ([], False))
      in case hp_end pr of
           HookTimedOut \<Rightarrow> (-1, out, Some (''hook '' @ quoted (uh_ID h) @ '' timed out after '' @ show_int (hook_timeout h) @ ''s''))
         | HookExited c \<Rightarrow> (c, trim_space out, None)
         | HookFailed e \<Rightarrow> (-1, trim_space out, Some e))"

definition errString :: "string option \<Rightarrow> string" where
  "errString e = (case e of None \<Rightarrow> [] | Some m \<Rightarrow> m)"

type_synonym hook_exec = "user_hook \<Rightarrow> hook_process"

definition applicable :: "string \<Rightarrow> string \<Rightarrow> user_hook \<Rightarrow> bool" where
  "applicable event tool h \<longleftrightarrow> uh_Event h = event \<and> matchesTool (uh_Tools h) tool"

definition audit_of :: "gotime \<Rightarrow> string \<Rightarrow> bool \<Rightarrow> bool \<Rightarrow> user_hook \<Rightarrow> int \<times> string \<times> string option \<Rightarrow> hook_audit_entry" where
  "audit_of now tool vetoed testRun h run =
     \<lparr>ha_Time = now, ha_HookID = uh_ID h, ha_Event = uh_Event h, ha_Tool = tool, ha_Vetoed = vetoed, ha_ExitCode = fst run,
      ha_Output = fst (snd run), ha_Err = errString (snd (snd run)), ha_TestRun = testRun\<rparr>"

definition run_vetoes :: "int \<times> string \<times> string option \<Rightarrow> bool" where
  "run_vetoes run \<longleftrightarrow> fst run \<noteq> 0 \<or> snd (snd run) \<noteq> None"

definition veto_reason :: "user_hook \<Rightarrow> int \<times> string \<times> string option \<Rightarrow> string" where
  "veto_reason h run =
     (let reason = trim_space (fst (snd run)); reason = (if reason = [] then errString (snd (snd run)) else reason)
      in if reason = [] then ''hook '' @ quoted (uh_ID h) @ '' exited '' @ show_int (fst run) else reason)"

fun pre_hooks :: "hook_exec \<Rightarrow> gotime \<Rightarrow> string \<Rightarrow> user_hook list \<Rightarrow> hook_audit_log \<Rightarrow> (bool \<times> string) \<times> hook_audit_log" where
  "pre_hooks exec now tool [] l = ((True, []), l)"
| "pre_hooks exec now tool (h # hs) l =
     (if \<not> applicable UserHookPreToolUse tool h then pre_hooks exec now tool hs l
      else
        let run = runHookCommand (exec h) h; l = audit_append (audit_of now tool (run_vetoes run) False h run) l
        in if run_vetoes run then ((False, veto_reason h run), l) else pre_hooks exec now tool hs l)"

definition hooks_Pre :: "hook_disk \<Rightarrow> hook_exec \<Rightarrow> gotime \<Rightarrow> string \<Rightarrow> hook_runner \<Rightarrow> (bool \<times> string) \<times> hook_runner" where
  "hooks_Pre disk exec now tool r =
     (let r = maybeAutoReload disk r; (res, l) = pre_hooks exec now tool (hr_defs r) (hr_audit r) in (res, r\<lparr>hr_audit := l\<rparr>))"

definition hooks_Post :: "hook_disk \<Rightarrow> hook_exec \<Rightarrow> gotime \<Rightarrow> string \<Rightarrow> hook_runner \<Rightarrow> hook_runner" where
  "hooks_Post disk exec now tool r =
     (let r = maybeAutoReload disk r
      in r\<lparr>hr_audit := fold (\<lambda>h. audit_append (audit_of now tool False False h (runHookCommand (exec h) h)))
             (filter (applicable UserHookPostToolUse tool) (hr_defs r)) (hr_audit r)\<rparr>)"

record hook_test_result =
  ht_Allowed :: bool
  ht_ExitCode :: int
  ht_Output :: string
  ht_Error :: string

definition RunHookForTest :: "hook_exec \<Rightarrow> gotime \<Rightarrow> user_hook \<Rightarrow> string \<Rightarrow> hook_audit_log option \<Rightarrow> hook_test_result \<times> hook_audit_log option" where
  "RunHookForTest exec now h tool audit =
     (let run = runHookCommand (exec h) h; pre = (uh_Event h = UserHookPreToolUse); allowed = (\<not> pre \<or> \<not> run_vetoes run)
      in (\<lparr>ht_Allowed = allowed, ht_ExitCode = fst run, ht_Output = fst (snd run), ht_Error = errString (snd (snd run))\<rparr>,
          map_option (audit_append (audit_of now tool (pre \<and> \<not> allowed) True h run)) audit))"

section \<open>What is loaded\<close>

definition valid_hook :: "user_hook \<Rightarrow> bool" where
  "valid_hook h \<longleftrightarrow> trim_space (uh_ID h) \<noteq> [] \<and> uh_Event h \<in> {UserHookPreToolUse, UserHookPostToolUse} \<and> uh_Tools h \<noteq> []
     \<and> uh_Type h = ''command'' \<and> trim_space (uh_Command h) \<noteq> [] \<and> 0 \<le> uh_TimeoutSecs h"

lemma check_hook_None:
  "check_hook p i seen h = None \<longleftrightarrow> valid_hook h \<and> uh_ID h \<notin> set seen"
  by (auto simp: check_hook_def valid_hook_def split: if_splits)

lemma check_hooks_None:
  "check_hooks p i seen hs = None \<longleftrightarrow> list_all valid_hook hs \<and> distinct (map uh_ID hs) \<and> set (map uh_ID hs) \<inter> set seen = {}"
proof (induction hs arbitrary: i seen)
  case Nil
  then show ?case by simp
next
  case (Cons h hs)
  show ?case
  proof (cases "check_hook p i seen h")
    case None
    then have "valid_hook h" "uh_ID h \<notin> set seen" using check_hook_None by blast+
    then show ?thesis using Cons.IH[of "i + 1" "uh_ID h # seen"] None by auto
  next
    case (Some e)
    then have "\<not> (valid_hook h \<and> uh_ID h \<notin> set seen)" using check_hook_None[of p i seen h] by simp
    then show ?thesis using Some by auto
  qed
qed

lemma LoadUserHooksFile_valid: "LoadUserHooksFile disk p = Inr (Some hs) \<Longrightarrow> list_all valid_hook hs"
  using check_hooks_None[of p 0 "[]" hs]
  by (auto simp: LoadUserHooksFile_def split: if_splits hook_file.splits option.splits)

definition files_valid :: "user_hook list option list \<Rightarrow> bool" where
  "files_valid fs \<longleftrightarrow> (\<forall>hs. Some hs \<in> set fs \<longrightarrow> list_all valid_hook hs)"

lemma load_files_valid: "load_files disk ps = Inr fs \<Longrightarrow> files_valid fs"
proof (induction ps arbitrary: fs)
  case Nil
  then show ?case by (simp add: files_valid_def)
next
  case (Cons p ps)
  show ?case
  proof (cases "trim_space p = []")
    case True
    then show ?thesis using Cons by simp
  next
    case False
    then obtain f fs' where f: "LoadUserHooksFile disk p = Inr f" "load_files disk ps = Inr fs'" "fs = f # fs'"
      using Cons.prems by (auto split: sum.splits)
    have "files_valid fs'" by (rule Cons.IH[OF f(2)])
    then show ?thesis using f LoadUserHooksFile_valid[of disk p] by (auto simp: files_valid_def)
  qed
qed

definition table_ok :: "(string, user_hook) gomap \<Rightarrow> bool" where
  "table_ok m \<longleftrightarrow> gm_wf m \<and> (\<forall>(k, h) \<in> set m. uh_ID h = k \<and> valid_hook h)"

lemma table_ok_put: "table_ok m \<Longrightarrow> valid_hook h \<Longrightarrow> table_ok (gm_put (uh_ID h) h m)"
proof -
  assume m: "table_ok m" and h: "valid_hook h"
  have 1: "gm_wf (gm_put (uh_ID h) h m)" using m by (simp add: table_ok_def)
  have "uh_ID g = k \<and> valid_hook g" if "(k, g) \<in> set (gm_put (uh_ID h) h m)" for k g
  proof -
    have "gm_get (gm_put (uh_ID h) h m) k = Some g" using gm_get_Some_iff[OF 1, of k g] that by blast
    then show ?thesis using m h by (auto simp: table_ok_def dest!: gm_get_SomeD split: if_splits)
  qed
  then show ?thesis using 1 by (auto simp: table_ok_def)
qed

lemma table_ok_fold: "table_ok m \<Longrightarrow> list_all valid_hook hs \<Longrightarrow> table_ok (fold (\<lambda>h. gm_put (uh_ID h) h) hs m)"
  by (induction hs arbitrary: m) (simp_all add: table_ok_put)

lemma table_ok_ids: "table_ok m \<Longrightarrow> map uh_ID (map snd m) = map fst m"
  by (auto simp: table_ok_def)

lemma mergeUserHooks_ok:
  assumes "files_valid fs"
  shows "list_all valid_hook (mergeUserHooks fs)" and "distinct (map uh_ID (mergeUserHooks fs))"
proof -
  let ?hs = "concat (map (\<lambda>f. case f of None \<Rightarrow> [] | Some hs \<Rightarrow> hs) fs)"
  let ?m = "fold (\<lambda>h. gm_put (uh_ID h) h) ?hs []"
  have "list_all valid_hook ?hs"
    using assms by (auto simp: files_valid_def list_all_iff split: option.splits)
  moreover have "table_ok []" by (simp add: table_ok_def)
  ultimately have m: "table_ok ?m" by (intro table_ok_fold)
  then show "list_all valid_hook (mergeUserHooks fs)" by (auto simp: mergeUserHooks_def table_ok_def list_all_iff)
  show "distinct (map uh_ID (mergeUserHooks fs))"
    using m table_ok_ids[OF m] by (simp only: mergeUserHooks_def) (simp add: table_ok_def gm_wf_def)
qed

definition defs_ok :: "user_hook list \<Rightarrow> bool" where
  "defs_ok ds \<longleftrightarrow> list_all (\<lambda>h. valid_hook h \<and> uh_Enabled h) ds \<and> sorted (map uh_ID ds) \<and> distinct (map uh_ID ds)"

lemma hooks_Load_ok: "defs_ok (hr_defs r) \<Longrightarrow> defs_ok (hr_defs (snd (hooks_Load disk ps r)))"
proof (cases "load_files disk ps")
  case (Inr fs)
  let ?ds = "filter uh_Enabled (mergeUserHooks fs)"
  have m: "list_all valid_hook (mergeUserHooks fs)" "distinct (map uh_ID (mergeUserHooks fs))"
    using mergeUserHooks_ok[OF load_files_valid[OF Inr]] by blast+
  have d: "distinct (map uh_ID ?ds)" by (rule distinct_map_filter[OF m(2)])
  have "distinct (map uh_ID (sort_key uh_ID ?ds))" using d by (simp add: distinct_map)
  then have "defs_ok (sort_key uh_ID ?ds)" using m by (auto simp: defs_ok_def list_all_iff)
  then show ?thesis using Inr by (simp add: hooks_Load_def Let_def)
qed (simp add: hooks_Load_def Let_def)

lemma maybeAutoReload_cases: "maybeAutoReload disk r = r \<or> maybeAutoReload disk r = snd (hooks_Load disk (hr_paths r) r)"
  by (simp add: maybeAutoReload_def Let_def)

lemma maybeAutoReload_ok: "defs_ok (hr_defs r) \<Longrightarrow> defs_ok (hr_defs (maybeAutoReload disk r))"
  using maybeAutoReload_cases[of disk r] hooks_Load_ok[of r disk "hr_paths r"] by metis

section \<open>The audit log\<close>

definition log_ok :: "hook_audit_log \<Rightarrow> bool" where
  "log_ok l \<longleftrightarrow> 0 < hl_cap l \<and> length (hl_entries l) \<le> hl_cap l"

lemma audit_append_newest: "hl_entries (audit_append e l) = last_n (hl_cap l) (hl_entries l @ [e])"
  by (simp add: audit_append_def Let_def last_n_def)

lemma audit_append_cap [simp]: "hl_cap (audit_append e l) = hl_cap l"
  by (simp add: audit_append_def Let_def)

interpretation hook_log: bounded_log hl_cap audit_append hl_entries log_ok
  by unfold_locales (simp_all add: log_ok_def audit_append_newest)

lemma pre_hooks_log: "log_ok l \<Longrightarrow> log_ok (snd (pre_hooks exec now tool hs l))"
  by (induction hs arbitrary: l) (simp_all add: Let_def hook_log.ok_push)

lemma pre_hooks_cap: "hl_cap (snd (pre_hooks exec now tool hs l)) = hl_cap l"
  by (induction hs arbitrary: l) (simp_all add: Let_def)

section \<open>The runner under its operations\<close>

datatype hook_call =
  CallLoad "string list"
| CallReload
| CallPre hook_exec gotime string
| CallPost hook_exec gotime string

text \<open>A call finds the disk in any state.\<close>

definition hook_step :: "hook_disk \<times> hook_call \<Rightarrow> hook_runner \<Rightarrow> hook_runner" where
  "hook_step c r =
     (case snd c of
        CallLoad ps \<Rightarrow> snd (hooks_Load (fst c) ps r)
      | CallReload \<Rightarrow> snd (hooks_Reload (fst c) r)
      | CallPre exec now tool \<Rightarrow> snd (hooks_Pre (fst c) exec now tool r)
      | CallPost exec now tool \<Rightarrow> hooks_Post (fst c) exec now tool r)"

definition runner_ok :: "hook_runner \<Rightarrow> bool" where
  "runner_ok r \<longleftrightarrow> defs_ok (hr_defs r) \<and> log_ok (hr_audit r)"

lemma hooks_Load_audit [simp]: "hr_audit (snd (hooks_Load disk ps r)) = hr_audit r"
  by (simp add: hooks_Load_def Let_def split: sum.split)

lemma maybeAutoReload_audit [simp]: "hr_audit (maybeAutoReload disk r) = hr_audit r"
  using maybeAutoReload_cases[of disk r] hooks_Load_audit[of disk "hr_paths r" r] by metis

lemma hooks_Pre_eq:
  "hooks_Pre disk exec now tool r =
     (fst (pre_hooks exec now tool (hr_defs (maybeAutoReload disk r)) (hr_audit r)),
      (maybeAutoReload disk r)\<lparr>hr_audit := snd (pre_hooks exec now tool (hr_defs (maybeAutoReload disk r)) (hr_audit r))\<rparr>)"
  by (simp add: hooks_Pre_def Let_def split_beta)

lemma hook_step_ok: "runner_ok r \<Longrightarrow> runner_ok (hook_step c r)"
proof -
  assume r: "runner_ok r"
  show ?thesis
  proof (cases "snd c")
    case (CallLoad ps)
    then show ?thesis using r hooks_Load_ok by (simp add: hook_step_def runner_ok_def)
  next
    case CallReload
    then show ?thesis using r hooks_Load_ok by (simp add: hook_step_def hooks_Reload_def runner_ok_def)
  next
    case (CallPre exec now tool)
    then show ?thesis using r maybeAutoReload_ok pre_hooks_log by (simp add: hook_step_def hooks_Pre_eq runner_ok_def)
  next
    case (CallPost exec now tool)
    let ?f = "\<lambda>h. audit_of now tool False False h (runHookCommand (exec h) h)"
    have "log_ok (fold (\<lambda>h. audit_append (?f h)) hs l)" if "log_ok l" for hs l
      using that by (induction hs arbitrary: l) (simp_all add: hook_log.ok_push)
    then show ?thesis using r maybeAutoReload_ok CallPost by (simp add: hook_step_def hooks_Post_def Let_def runner_ok_def)
  qed
qed

text \<open>
  C22. Whatever the files hold and however they change, after any sequence of loads, reloads and
  tool calls the active hooks of a runner are enabled, each passes the checks of the loader (a name,
  a known event, some tools, a command, no negative timeout), they are sorted by identifier
  and no identifier occurs twice; and the audit log holds at most as many entries as its capacity.
\<close>

theorem runner_well_formed:
  assumes "\<And>l. log = Some l \<Longrightarrow> log_ok l"
  shows "runner_ok (fold hook_step calls (NewUserHookRunner log))"
proof -
  have "log_ok (NewHookAuditLog 0)" by (simp add: NewHookAuditLog_def log_ok_def)
  then have "runner_ok (NewUserHookRunner log)"
    using assms by (cases log) (simp_all add: runner_ok_def NewUserHookRunner_def defs_ok_def)
  then show ?thesis by (induction calls arbitrary: log rule: rev_induct) (simp_all add: hook_step_ok)
qed

definition sample_hook :: user_hook where
  "sample_hook = \<lparr>uh_ID = ''lint'', uh_Event = UserHookPreToolUse, uh_Tools = [''write_*''], uh_Type = ''command'', uh_Command = ''lint'',
     uh_TimeoutSecs = 0, uh_Enabled = True\<rparr>"

definition sample_disk :: hook_disk where
  "sample_disk = \<lparr>hd_read = (\<lambda>p. FileHooks [sample_hook]), hd_mtime = (\<lambda>p. Some 1)\<rparr>"

theorem runner_well_formed_witness:
  "runner_ok (fold hook_step [(sample_disk, CallLoad [''a'', ''b''])] (NewUserHookRunner (Some (NewHookAuditLog 3))))"
  by (rule runner_well_formed) (auto simp: NewHookAuditLog_def log_ok_def)

section \<open>The veto\<close>

text \<open>The entries of the hooks that ran before a decision.\<close>

definition ran_before :: "hook_exec \<Rightarrow> gotime \<Rightarrow> string \<Rightarrow> user_hook list \<Rightarrow> hook_audit_entry list" where
  "ran_before exec now tool hs = map (\<lambda>h. audit_of now tool False False h (runHookCommand (exec h) h)) (filter (applicable UserHookPreToolUse tool) hs)"

definition passes :: "hook_exec \<Rightarrow> user_hook \<Rightarrow> bool" where
  "passes exec h \<longleftrightarrow> fst (runHookCommand (exec h) h) = 0 \<and> snd (snd (runHookCommand (exec h) h)) = None"

lemma passes_vetoes: "run_vetoes (runHookCommand (exec h) h) \<longleftrightarrow> \<not> passes exec h"
  by (auto simp: run_vetoes_def passes_def)

lemma pre_hooks_allow:
  "list_all (passes exec) (filter (applicable UserHookPreToolUse tool) hs) \<Longrightarrow>
     pre_hooks exec now tool hs l = ((True, []), fold audit_append (ran_before exec now tool hs) l)"
proof (induction hs arbitrary: l)
  case Nil
  show ?case by (simp add: ran_before_def)
next
  case (Cons g hs)
  then show ?case by (cases "applicable UserHookPreToolUse tool g") (simp_all add: ran_before_def passes_vetoes Let_def)
qed

lemma pre_hooks_deny:
  assumes "list_all (passes exec) (filter (applicable UserHookPreToolUse tool) hs)"
    and "applicable UserHookPreToolUse tool h" and "\<not> passes exec h"
  shows "pre_hooks exec now tool (hs @ h # hs') l =
     ((False, veto_reason h (runHookCommand (exec h) h)),
      audit_append (audit_of now tool True False h (runHookCommand (exec h) h)) (fold audit_append (ran_before exec now tool hs) l))"
  using assms(1)
proof (induction hs arbitrary: l)
  case Nil
  show ?case using assms(2,3) by (simp add: ran_before_def passes_vetoes Let_def)
next
  case (Cons g hs)
  then show ?case by (cases "applicable UserHookPreToolUse tool g") (simp_all add: ran_before_def passes_vetoes Let_def)
qed

lemma first_failing:
  "\<not> list_all P (filter Q hs) \<Longrightarrow> \<exists>xs h ys. hs = xs @ h # ys \<and> list_all P (filter Q xs) \<and> Q h \<and> \<not> P h"
proof (induction hs)
  case Nil
  then show ?case by simp
next
  case (Cons g hs)
  show ?case
  proof (cases "Q g \<and> \<not> P g")
    case True
    then show ?thesis by (intro exI[of _ "[]"] exI[of _ g] exI[of _ hs]) simp
  next
    case False
    then have "\<not> list_all P (filter Q hs)" using Cons.prems by (auto split: if_splits)
    then obtain xs h ys where "hs = xs @ h # ys" "list_all P (filter Q xs)" "Q h" "\<not> P h" using Cons.IH by blast
    then show ?thesis using False by (intro exI[of _ "g # xs"] exI[of _ h] exI[of _ ys]) auto
  qed
qed

text \<open>
  A call is allowed exactly when every active hook of the reloaded files that listens before
  calls and matches the tool ran to exit code zero without an error, and each of them is then in the
  audit log. Otherwise the first of them in the order of identifiers that did not decides: the hooks
  before it ran and are in the log, its entry follows with the veto, no later hook runs, and the reason is
  its own.
\<close>

lemma Pre_decides:
  "(\<exists>r'. r' = maybeAutoReload disk r \<and>
     (if list_all (passes exec) (filter (applicable UserHookPreToolUse tool) (hr_defs r'))
      then hooks_Pre disk exec now tool r = ((True, []), r'\<lparr>hr_audit := fold audit_append (ran_before exec now tool (hr_defs r')) (hr_audit r)\<rparr>)
      else \<exists>hs h hs'. hr_defs r' = hs @ h # hs' \<and> list_all (passes exec) (filter (applicable UserHookPreToolUse tool) hs)
        \<and> applicable UserHookPreToolUse tool h \<and> \<not> passes exec h
        \<and> hooks_Pre disk exec now tool r =
            ((False, veto_reason h (runHookCommand (exec h) h)),
             r'\<lparr>hr_audit := audit_append (audit_of now tool True False h (runHookCommand (exec h) h))
                 (fold audit_append (ran_before exec now tool hs) (hr_audit r))\<rparr>)))"
proof -
  define r' where "r' = maybeAutoReload disk r"
  let ?all = "list_all (passes exec) (filter (applicable UserHookPreToolUse tool) (hr_defs r'))"
  have pre: "hooks_Pre disk exec now tool r =
      (fst (pre_hooks exec now tool (hr_defs r') (hr_audit r)), r'\<lparr>hr_audit := snd (pre_hooks exec now tool (hr_defs r') (hr_audit r))\<rparr>)"
    by (simp add: hooks_Pre_eq r'_def)
  show ?thesis
  proof (cases ?all)
    case True
    then show ?thesis using pre pre_hooks_allow[OF True, of now "hr_audit r"] by (simp flip: r'_def)
  next
    case False
    then obtain hs h hs' where d: "hr_defs r' = hs @ h # hs'" "list_all (passes exec) (filter (applicable UserHookPreToolUse tool) hs)"
      "applicable UserHookPreToolUse tool h" "\<not> passes exec h"
      using first_failing[OF False] by blast
    have "hooks_Pre disk exec now tool r = ((False, veto_reason h (runHookCommand (exec h) h)),
             r'\<lparr>hr_audit := audit_append (audit_of now tool True False h (runHookCommand (exec h) h))
                 (fold audit_append (ran_before exec now tool hs) (hr_audit r))\<rparr>)"
      using pre pre_hooks_deny[OF d(2-4), of now hs' "hr_audit r"] d(1) by simp
    then show ?thesis using False d by (intro exI[of _ r'] conjI r'_def) auto
  qed
qed

section \<open>Reloading\<close>

lemma gm_wf_stat_paths: "gm_wf (stat_paths disk ps)"
proof -
  have "gm_wf m \<Longrightarrow> gm_wf (fold (\<lambda>p m. if trim_space p = [] then m else case hd_mtime disk p of None \<Rightarrow> m | Some t \<Rightarrow> gm_put p t m) ps m)" for m
    by (induction ps arbitrary: m) (simp_all split: option.split)
  then show ?thesis by (simp add: stat_paths_def)
qed

lemma unchanged_no_reload: "hr_mtimes r = stat_paths disk (hr_paths r) \<Longrightarrow> maybeAutoReload disk r = r"
proof -
  let ?m = "stat_paths disk (hr_paths r)"
  assume m: "hr_mtimes r = ?m"
  have "\<not> list_ex (\<lambda>(p, t). gm_get ?m p \<noteq> Some t) ?m"
    using gm_wf_stat_paths[of disk "hr_paths r"] by (auto simp: list_ex_iff gm_get_Some_iff)
  then show ?thesis using m by (simp add: maybeAutoReload_def Let_def)
qed

text \<open>
  A reload that fails leaves the active hooks and the paths as they were and records its error;
  and the broken files are not read again while their times stay the same.
\<close>

lemma bad_edit_keeps_hooks:
  assumes "hooks_Reload disk r = (Some e, r')"
  shows "hr_defs r' = hr_defs r \<and> hr_paths r' = hr_paths r \<and> hr_lastErr r' = Some e
    \<and> (hd_mtime disk' = hd_mtime disk \<longrightarrow> maybeAutoReload disk' r' = r')"
proof -
  have "load_files disk (hr_paths r) = Inl e" and r': "r' = r\<lparr>hr_lastErr := Some e, hr_mtimes := stat_paths disk (hr_paths r)\<rparr>"
    using assms by (auto simp: hooks_Reload_def hooks_Load_def Let_def split: if_splits sum.splits)
  have "maybeAutoReload disk' r' = r'" if "hd_mtime disk' = hd_mtime disk"
  proof (rule unchanged_no_reload)
    have "stat_paths disk' ps = stat_paths disk ps" for ps by (simp only: stat_paths_def that)
    then show "hr_mtimes r' = stat_paths disk' (hr_paths r')" using r' by simp
  qed
  then show ?thesis using r' by simp
qed

definition broken_disk :: hook_disk where
  "broken_disk = \<lparr>hd_read = (\<lambda>p. FileMalformed), hd_mtime = (\<lambda>p. Some 2)\<rparr>"

definition loaded_runner :: hook_runner where
  "loaded_runner = snd (hooks_Load sample_disk [''a''] (NewUserHookRunner None))"

lemma sample_path: "trim_space ''a'' = ''a''"
  by code_simp

lemma loaded_runner_paths: "hr_paths loaded_runner = [''a'']"
  by code_simp

text \<open>Calls of a running program that do not name paths.\<close>

definition names_no_paths :: "hook_call \<Rightarrow> bool" where
  "names_no_paths c = (case c of CallLoad ps \<Rightarrow> False | _ \<Rightarrow> True)"

definition idle :: "hook_runner \<Rightarrow> bool" where
  "idle r \<longleftrightarrow> hr_paths r = [] \<and> hr_defs r = []"

lemma idle_step: "idle r \<Longrightarrow> names_no_paths (snd c) \<Longrightarrow> hook_step c r = r"
  by (cases "snd c")
    (simp_all add: names_no_paths_def idle_def hook_step_def hooks_Reload_def hooks_Pre_def hooks_Post_def maybeAutoReload_def)

text \<open>
  When the first load of a runner fails, its paths are not remembered: whatever reloads and tool
  calls follow, and although the files may be repaired meanwhile, no hook is ever active, every call
  is allowed, and the call changes nothing.
\<close>

lemma failed_first_load_disables_hooks:
  assumes "hooks_Load disk ps (NewUserHookRunner log) = (Some e, r)"
    and "list_all (\<lambda>c. names_no_paths (snd c)) calls"
  shows "hooks_Pre disk' exec now tool (fold hook_step calls r) = ((True, []), fold hook_step calls r)"
proof -
  have "idle r" using assms(1) by (auto simp: hooks_Load_def NewUserHookRunner_def idle_def Let_def split: sum.splits)
  with assms(2) have "fold hook_step calls r = r" by (induction calls) (simp_all add: idle_step)
  with \<open>idle r\<close> show ?thesis by (simp add: hooks_Pre_def maybeAutoReload_def idle_def)
qed

section \<open>The output of a hook\<close>

lemma output_Write_bound:
  "length (fst w) \<le> hookOutputCapBytes \<Longrightarrow> length (fst (output_Write p w)) \<le> hookOutputCapBytes"
  by (cases w) (auto simp: output_Write_def Let_def)

lemma output_bound: "length (fst (fold output_Write ps ([], False))) \<le> hookOutputCapBytes"
proof -
  have "length (fst w) \<le> hookOutputCapBytes \<Longrightarrow> length (fst (fold output_Write ps w)) \<le> hookOutputCapBytes" for w
    by (induction ps arbitrary: w) (simp_all add: output_Write_bound)
  then show ?thesis by simp
qed

end
