(* ===== verification/Checkpoints.thy ===== *)
theory Checkpoints
  imports FileTools "HOL-Library.Product_Lexorder"
begin

text \<open>
  Run checkpoints (\<^verbatim>\<open>internal/checkpoint\<close>): snapshots of the work tree before and after the
  run of a thread in a shadow repository, the ledger of runs, and the undoing of a run. The git binary is
  an argument: what it stages, which names it reports as changed and what it ignores. The ledger
  is the table of its rows, and its statements succeed.
\<close>

section \<open>The shadow repository\<close>

text \<open>An entry of a tree: a file with its executable bit, or a symbolic link.\<close>

datatype tree_entry = Blob bool string | SymLink string

type_synonym tree = "(path, tree_entry) gomap"

type_synonym commit = nat

record git =
  git_add :: "fs \<Rightarrow> string + tree"
  git_diff_names :: "tree \<Rightarrow> tree \<Rightarrow> string + path list"
  git_diff_text :: "tree \<Rightarrow> tree \<Rightarrow> string + string"
  git_ignored :: "fs \<Rightarrow> string list option"
  git_show_tree :: "tree \<Rightarrow> path \<Rightarrow> string"

record shadow =
  sh_commits :: "(commit, tree) gomap"
  sh_refs :: "(string, commit) gomap"
  sh_next :: commit

text \<open>A snapshot is a commit without a parent, under a reference if one is given.\<close>

definition store_Snapshot :: "git \<Rightarrow> string \<Rightarrow> fs \<Rightarrow> shadow \<Rightarrow> (string + commit) \<times> shadow" where
  "store_Snapshot g ref fs sh =
     (case git_add g fs of
        Inl e \<Rightarrow> (Inl e, sh)
      | Inr t \<Rightarrow>
          let c = sh_next sh
          in (Inr c,
              sh\<lparr>sh_commits := gm_put c t (sh_commits sh), sh_next := c + 1,
                 sh_refs := (if ref = [] then sh_refs sh else gm_put ref c (sh_refs sh))\<rparr>))"

definition ChangedPaths :: "git \<Rightarrow> commit \<Rightarrow> commit \<Rightarrow> shadow \<Rightarrow> string + path list" where
  "ChangedPaths g a b sh =
     (case (gm_get (sh_commits sh) a, gm_get (sh_commits sh) b) of
        (Some t, Some t') \<Rightarrow> git_diff_names g t t'
      | _ \<Rightarrow> Inl ''bad revision'')"

definition store_Diff :: "git \<Rightarrow> commit \<Rightarrow> commit \<Rightarrow> shadow \<Rightarrow> string + string" where
  "store_Diff g a b sh =
     (case (gm_get (sh_commits sh) a, gm_get (sh_commits sh) b) of
        (Some t, Some t') \<Rightarrow> git_diff_text g t t'
      | _ \<Rightarrow> Inl ''bad revision'')"

text \<open>The entry under a path; a path above entries is a tree, and its content is what git shows for it.\<close>

datatype mode = Regular | Executable | SymbolicLink | Subtree

definition fileAtCommit :: "git \<Rightarrow> tree \<Rightarrow> path \<Rightarrow> (string \<times> mode) option" where
  "fileAtCommit g t p =
     (case gm_get t p of
        Some (Blob x s) \<Rightarrow> Some (s, if x then Executable else Regular)
      | Some (SymLink s) \<Rightarrow> Some (s, SymbolicLink)
      | None \<Rightarrow> if list_ex (\<lambda>(q, e). strict_prefix p q) t then Some (git_show_tree g t p, Subtree) else None)"

datatype restored = Restored | Deleted

definition removed_first :: "fs \<Rightarrow> path \<Rightarrow> mode \<Rightarrow> os_error + fs" where
  "removed_first fs dest m =
     (case os_Lstat fs dest of
        None \<Rightarrow> Inr fs
      | Some n \<Rightarrow>
          if is_link (Some n) \<or> m = SymbolicLink
          then (case Remove fs dest of Inl ENOENT \<Rightarrow> Inr fs | r \<Rightarrow> r) else Inr fs)"

definition RestoreEntry :: "path \<Rightarrow> (string \<times> mode) option \<Rightarrow> fs \<Rightarrow> fs \<times> (os_error + restored)" where
  "RestoreEntry dest entry fs =
     (case entry of
        None \<Rightarrow>
          (case Remove fs dest of
             Inl e \<Rightarrow> (fs, if e = ENOENT then Inr Deleted else Inl e)
           | Inr fs' \<Rightarrow> (fs', Inr Deleted))
      | Some (content, m) \<Rightarrow>
          (case MkdirAll fs (butlast dest) of
             Inl e \<Rightarrow> (fs, Inl e)
           | Inr fs1 \<Rightarrow>
               (case removed_first fs1 dest m of
                  Inl e \<Rightarrow> (fs1, Inl e)
                | Inr fs2 \<Rightarrow>
                    (case (if m = SymbolicLink then Symlink fs2 content dest
                           else WriteFile fs2 dest content (if m = Executable then 493 else 420)) of
                       Inl e \<Rightarrow> (fs2, Inl e)
                     | Inr fs3 \<Rightarrow> (fs3, Inr Restored)))))"

datatype restore_error = BadRevision | OsError os_error

definition RestorePath :: "git \<Rightarrow> path \<Rightarrow> tree option \<Rightarrow> path \<Rightarrow> fs \<Rightarrow> fs \<times> (restore_error + restored)" where
  "RestorePath g root commit p fs =
     (case commit of
        None \<Rightarrow> (fs, Inl BadRevision)
      | Some t \<Rightarrow>
          (case RestoreEntry (root @ p) (fileAtCommit g t p) fs of
             (fs, Inl e) \<Rightarrow> (fs, Inl (OsError e))
           | (fs, Inr r) \<Rightarrow> (fs, Inr r)))"

text \<open>References that are not kept are deleted, and with them the commits no reference names.\<close>

definition store_GC :: "string set \<Rightarrow> shadow \<Rightarrow> shadow" where
  "store_GC keep sh =
     (let refs = filter (\<lambda>(r, c). r \<in> keep) (sh_refs sh)
      in sh\<lparr>sh_refs := refs, sh_commits := filter (\<lambda>(c, t). c \<in> snd ` set refs) (sh_commits sh)\<rparr>)"

section \<open>The ledger\<close>

datatype run_status = RunActive | RunCompleted | RunCaptureFailed | RunReverted

record run_record =
  rr_ThreadID :: string
  rr_AgentID :: string
  rr_TaskSummary :: string
  rr_Status :: run_status
  rr_PreSnapshot :: "commit option"
  rr_PostSnapshot :: "commit option"
  rr_TouchedPaths :: "path list"
  rr_Pushed :: bool
  rr_PRURL :: string
  rr_CreatedAt :: gotime
  rr_CompletedAt :: gotime
  rr_CaptureError :: string
  rr_IgnoredAtBegin :: "string list"
  rr_IgnoredTouched :: "string list"

type_synonym ledger = "(string, run_record) gomap"

text \<open>Inserting a thread that has a row updates the columns of the beginning only.\<close>

definition ledger_Insert :: "run_record \<Rightarrow> ledger \<Rightarrow> ledger" where
  "ledger_Insert r l =
     (case gm_get l (rr_ThreadID r) of
        None \<Rightarrow> gm_put (rr_ThreadID r) r l
      | Some old \<Rightarrow>
          gm_put (rr_ThreadID r)
            (old\<lparr>rr_AgentID := rr_AgentID r, rr_TaskSummary := rr_TaskSummary r, rr_Status := rr_Status r,
                 rr_PreSnapshot := rr_PreSnapshot r, rr_IgnoredAtBegin := rr_IgnoredAtBegin r, rr_CreatedAt := rr_CreatedAt r\<rparr>) l)"

definition ledger_Update :: "run_record \<Rightarrow> ledger \<Rightarrow> ledger" where
  "ledger_Update r l =
     (case gm_get l (rr_ThreadID r) of
        None \<Rightarrow> l
      | Some old \<Rightarrow>
          gm_put (rr_ThreadID r)
            (old\<lparr>rr_Status := rr_Status r, rr_PostSnapshot := rr_PostSnapshot r, rr_TouchedPaths := rr_TouchedPaths r,
                 rr_Pushed := rr_Pushed r, rr_PRURL := rr_PRURL r, rr_CaptureError := rr_CaptureError r,
                 rr_IgnoredTouched := rr_IgnoredTouched r, rr_CompletedAt := rr_CompletedAt r\<rparr>) l)"

text \<open>
  Rows are ordered by the text of their creation time. Up to the second it has a fixed width, so the texts compare
  like the pair of the seconds and the rest: the fraction without trailing zeros, and the letter at the end.
\<close>

definition nano_text :: "int \<Rightarrow> string" where
  "nano_text n =
     (if n = 0 then ''Z''
      else let ds = show_nat (nat n)
           in CHR ''.'' # rev (dropWhile (\<lambda>c. c = CHR ''0'') (rev (replicate (9 - length ds) (CHR ''0'') @ ds))) @ ''Z'')"

definition created_key :: "gotime \<Rightarrow> int \<times> string" where
  "created_key t = (t div 1000000000, nano_text (t mod 1000000000))"

definition ledger_List :: "int \<Rightarrow> ledger \<Rightarrow> run_record list" where
  "ledger_List limit l =
     take (nat (if limit \<le> 0 then 100 else limit)) (rev (sort_key (\<lambda>r. created_key (rr_CreatedAt r)) (map snd l)))"

definition ledger_DeleteExcept :: "string list \<Rightarrow> ledger \<Rightarrow> nat \<times> ledger" where
  "ledger_DeleteExcept keep l =
     (length (filter (\<lambda>(k, r). k \<notin> set keep) l), filter (\<lambda>(k, r). k \<in> set keep) l)"

section \<open>Runs\<close>

datatype ck_error =
  CkRunNotFound
| CkAlreadyPushed
| CkCaptureFailed string
| CkNoPreSnapshot
| CkGit string
| CkRestoreFailed nat nat

record ck =
  ck_shadow :: shadow
  ck_ledger :: ledger

definition preRef :: "string \<Rightarrow> string" where
  "preRef tid = ''refs/huginn/run/'' @ tid @ ''/pre''"

definition postRef :: "string \<Rightarrow> string" where
  "postRef tid = ''refs/huginn/run/'' @ tid @ ''/post''"

definition maxTaskSummaryLen :: nat where
  "maxTaskSummaryLen = 500"

definition truncateSummary :: "string \<Rightarrow> string" where
  "truncateSummary s =
     (if length s \<le> maxTaskSummaryLen then s
      else take maxTaskSummaryLen s @ [CHR 0xE2, CHR 0x80, CHR 0xA6])"

definition new_run :: "string \<Rightarrow> string \<Rightarrow> string \<Rightarrow> gotime \<Rightarrow> run_record" where
  "new_run tid agent task now =
     \<lparr>rr_ThreadID = tid, rr_AgentID = agent, rr_TaskSummary = truncateSummary task, rr_Status = RunActive,
      rr_PreSnapshot = None, rr_PostSnapshot = None, rr_TouchedPaths = [], rr_Pushed = False, rr_PRURL = [],
      rr_CreatedAt = now, rr_CompletedAt = t_zero, rr_CaptureError = [], rr_IgnoredAtBegin = [], rr_IgnoredTouched = []\<rparr>"

definition BeginRun :: "git \<Rightarrow> gotime \<Rightarrow> fs \<Rightarrow> string \<Rightarrow> string \<Rightarrow> string \<Rightarrow> ck \<Rightarrow> (ck_error + run_record) \<times> ck" where
  "BeginRun g now fs tid agent task m =
     (let (snap, sh) = store_Snapshot g (preRef tid) fs (ck_shadow m); r = new_run tid agent task now
      in case snap of
           Inl e \<Rightarrow>
             (Inl (CkGit e),
              m\<lparr>ck_shadow := sh,
                ck_ledger := ledger_Insert (r\<lparr>rr_Status := RunCaptureFailed, rr_CaptureError := e\<rparr>) (ck_ledger m)\<rparr>)
         | Inr c \<Rightarrow>
             (let r = r\<lparr>rr_PreSnapshot := Some c,
                        rr_IgnoredAtBegin := (case git_ignored g fs of None \<Rightarrow> [] | Some ps \<Rightarrow> ps)\<rparr>
              in (Inr r, m\<lparr>ck_shadow := sh, ck_ledger := ledger_Insert r (ck_ledger m)\<rparr>)))"

text \<open>What ends a run: the names that changed, and the ignored paths that are ignored no longer.\<close>

definition finished_run :: "git \<Rightarrow> gotime \<Rightarrow> fs \<Rightarrow> commit \<Rightarrow> shadow \<Rightarrow> run_record \<Rightarrow> run_record" where
  "finished_run g now fs c sh r =
     (let names = (case rr_PreSnapshot r of None \<Rightarrow> Inl ''bad revision'' | Some a \<Rightarrow> ChangedPaths g a c sh);
          r = (case names of
                 Inl e \<Rightarrow> r\<lparr>rr_CaptureError := ''post-snapshot ok, but touched-paths diff failed: '' @ e, rr_TouchedPaths := []\<rparr>
               | Inr ps \<Rightarrow> r\<lparr>rr_TouchedPaths := ps\<rparr>);
          r = r\<lparr>rr_Status := RunCompleted, rr_PostSnapshot := Some c, rr_CompletedAt := now\<rparr>
      in if rr_IgnoredAtBegin r = [] then r
         else case git_ignored g fs of
                None \<Rightarrow> r
              | Some still \<Rightarrow>
                  r\<lparr>rr_IgnoredTouched := rr_IgnoredTouched r @ filter (\<lambda>p. p \<notin> set still) (rr_IgnoredAtBegin r)\<rparr>)"

definition EndRun :: "git \<Rightarrow> gotime \<Rightarrow> fs \<Rightarrow> string \<Rightarrow> ck \<Rightarrow> (ck_error + run_record) \<times> ck" where
  "EndRun g now fs tid m =
     (case gm_get (ck_ledger m) tid of
        None \<Rightarrow> (Inl CkRunNotFound, m)
      | Some r \<Rightarrow>
          if rr_Status r = RunCaptureFailed then (Inl (CkCaptureFailed (rr_CaptureError r)), m)
          else if rr_Status r \<noteq> RunActive then (Inr r, m)
          else
            let (snap, sh) = store_Snapshot g (postRef tid) fs (ck_shadow m)
            in case snap of
                 Inl e \<Rightarrow>
                   (Inl (CkGit e),
                    m\<lparr>ck_shadow := sh,
                      ck_ledger := ledger_Update (r\<lparr>rr_Status := RunCaptureFailed, rr_CaptureError := e, rr_CompletedAt := now\<rparr>) (ck_ledger m)\<rparr>)
               | Inr c \<Rightarrow>
                   (let r = finished_run g now fs c sh r
                    in (Inr r, m\<lparr>ck_shadow := sh, ck_ledger := ledger_Update r (ck_ledger m)\<rparr>)))"

definition MarkPushed :: "string \<Rightarrow> string \<Rightarrow> ck \<Rightarrow> ck_error option \<times> ck" where
  "MarkPushed tid url m =
     (case gm_get (ck_ledger m) tid of
        None \<Rightarrow> (Some CkRunNotFound, m)
      | Some r \<Rightarrow> (None, m\<lparr>ck_ledger := ledger_Update (r\<lparr>rr_Pushed := True, rr_PRURL := url\<rparr>) (ck_ledger m)\<rparr>))"

definition unsynced :: "run_record \<Rightarrow> bool" where
  "unsynced r \<longleftrightarrow> rr_Status r = RunCompleted \<and> \<not> rr_Pushed r"

definition MarkAllUnsyncedPushed :: "string \<Rightarrow> ck \<Rightarrow> nat \<times> ck" where
  "MarkAllUnsyncedPushed url m =
     (let rs = filter unsynced (ledger_List (2 ^ 30) (ck_ledger m))
      in (length rs, m\<lparr>ck_ledger := fold (\<lambda>r. ledger_Update (r\<lparr>rr_Pushed := True, rr_PRURL := url\<rparr>)) rs (ck_ledger m)\<rparr>))"

definition DiffRun :: "git \<Rightarrow> fs \<Rightarrow> string \<Rightarrow> ck \<Rightarrow> (ck_error + string) \<times> ck" where
  "DiffRun g fs tid m =
     (case gm_get (ck_ledger m) tid of
        None \<Rightarrow> (Inl CkRunNotFound, m)
      | Some r \<Rightarrow>
          let (dest, sh) = (case rr_PostSnapshot r of
                              None \<Rightarrow> store_Snapshot g [] fs (ck_shadow m)
                            | Some c \<Rightarrow> (Inr c, ck_shadow m))
          in case dest of
               Inl e \<Rightarrow> (Inl (CkGit e), m\<lparr>ck_shadow := sh\<rparr>)
             | Inr c \<Rightarrow>
                 (case (case rr_PreSnapshot r of None \<Rightarrow> Inl ''bad revision'' | Some a \<Rightarrow> store_Diff g a c sh) of
                    Inl e \<Rightarrow> (Inl (CkGit e), m\<lparr>ck_shadow := sh\<rparr>)
                  | Inr d \<Rightarrow> (Inr d, m\<lparr>ck_shadow := sh\<rparr>)))"

section \<open>Undoing a run\<close>

record revert_options =
  ro_All :: bool
  ro_OnlyPaths :: "string list"
  ro_AllowAfterPush :: bool

record revert_result =
  rv_Restored :: "path list"
  rv_Deleted :: "path list"
  rv_SkippedEdited :: "path list"
  rv_Failed :: "(path, restore_error) gomap"
  rv_IgnoredTouched :: "string list"
  rv_WarnPushed :: bool
  rv_NothingCaptured :: bool

definition no_result :: revert_result where
  "no_result = \<lparr>rv_Restored = [], rv_Deleted = [], rv_SkippedEdited = [], rv_Failed = [], rv_IgnoredTouched = [],
     rv_WarnPushed = False, rv_NothingCaptured = False\<rparr>"

datatype outcome = Skipped | Done restored | Failed restore_error

definition revertOnePath :: "git \<Rightarrow> path \<Rightarrow> tree option \<Rightarrow> bool \<Rightarrow> path \<Rightarrow> fs \<Rightarrow> fs \<times> outcome" where
  "revertOnePath g root t handEdited p fs =
     (if handEdited then (fs, Skipped)
      else case RestorePath g root t p fs of
             (fs, Inl e) \<Rightarrow> (fs, Failed e)
           | (fs, Inr r) \<Rightarrow> (fs, Done r))"

text \<open>All paths are tried, also after one has failed.\<close>

fun revert_paths :: "git \<Rightarrow> path \<Rightarrow> tree option \<Rightarrow> path list \<Rightarrow> path list \<Rightarrow> fs \<Rightarrow> fs \<times> (path \<times> outcome) list" where
  "revert_paths g root t edited [] fs = (fs, [])"
| "revert_paths g root t edited (p # ps) fs =
     (let (fs, res) = revertOnePath g root t (p \<in> set edited) p fs; (fs, rs) = revert_paths g root t edited ps fs
      in (fs, (p, res) # rs))"

definition failed :: "path \<times> outcome \<Rightarrow> bool" where
  "failed x = (case snd x of Failed e \<Rightarrow> True | _ \<Rightarrow> False)"

definition rel_string :: "path \<Rightarrow> string" where
  "rel_string p = tl (path_string p)"

definition collect :: "run_record \<Rightarrow> (path \<times> outcome) list \<Rightarrow> revert_result" where
  "collect r rs =
     \<lparr>rv_Restored = sort_key rel_string (map fst (filter (\<lambda>(p, res). res = Done Restored) rs)),
      rv_Deleted = sort_key rel_string (map fst (filter (\<lambda>(p, res). res = Done Deleted) rs)),
      rv_SkippedEdited = sort_key rel_string (map fst (filter (\<lambda>(p, res). res = Skipped) rs)),
      rv_Failed = fold (\<lambda>(p, res) m. case res of Failed e \<Rightarrow> gm_put p e m | _ \<Rightarrow> m) rs [],
      rv_IgnoredTouched = rr_IgnoredTouched r, rv_WarnPushed = rr_Pushed r, rv_NothingCaptured = False\<rparr>"

definition selected_paths :: "revert_options \<Rightarrow> run_record \<Rightarrow> path list" where
  "selected_paths opts r =
     (if ro_OnlyPaths opts = [] then rr_TouchedPaths r
      else filter (\<lambda>p. rel_string p \<in> set (ro_OnlyPaths opts)) (rr_TouchedPaths r))"

text \<open>The paths edited since the run: a snapshot of the live tree is compared with the one after the run.\<close>

definition edited_since :: "git \<Rightarrow> revert_options \<Rightarrow> run_record \<Rightarrow> fs \<Rightarrow> shadow \<Rightarrow> (string + path list) \<times> shadow" where
  "edited_since g opts r fs sh =
     (case rr_PostSnapshot r of
        None \<Rightarrow> (Inr [], sh)
      | Some c \<Rightarrow>
          if ro_All opts then (Inr [], sh)
          else
            let (snap, sh) = store_Snapshot g [] fs sh
            in case snap of
                 Inl e \<Rightarrow> (Inl e, sh)
               | Inr live \<Rightarrow> (ChangedPaths g c live sh, sh))"

definition RevertRun :: "git \<Rightarrow> path \<Rightarrow> revert_options \<Rightarrow> string \<Rightarrow> fs \<times> ck \<Rightarrow> (ck_error option \<times> revert_result) \<times> fs \<times> ck" where
  "RevertRun g root opts tid st =
     (let (fs, m) = st
      in case gm_get (ck_ledger m) tid of
           None \<Rightarrow> ((Some CkRunNotFound, no_result), fs, m)
         | Some r \<Rightarrow>
             if rr_Status r = RunCaptureFailed then ((Some (CkCaptureFailed (rr_CaptureError r)), no_result), fs, m)
             else case rr_PreSnapshot r of
                    None \<Rightarrow> ((Some CkNoPreSnapshot, no_result), fs, m)
                  | Some pre \<Rightarrow>
                      if rr_Pushed r \<and> \<not> ro_AllowAfterPush opts then ((Some CkAlreadyPushed, no_result), fs, m)
                      else
                        let ps = selected_paths opts r
                        in if ps = [] then ((None, no_result\<lparr>rv_NothingCaptured := True\<rparr>), fs, m)
                           else
                             let (edited, sh) = edited_since g opts r fs (ck_shadow m); m = m\<lparr>ck_shadow := sh\<rparr>
                             in case edited of
                                  Inl e \<Rightarrow> ((Some (CkGit e), no_result), fs, m)
                                | Inr es \<Rightarrow>
                                    (let (fs, rs) = revert_paths g root (gm_get (sh_commits sh) pre) es ps fs; res = collect r rs;
                                         m = (if rv_Restored res \<noteq> [] \<or> rv_Deleted res \<noteq> []
                                              then m\<lparr>ck_ledger := ledger_Update (r\<lparr>rr_Status := RunReverted\<rparr>) (ck_ledger m)\<rparr> else m);
                                         n = length (filter failed rs)
                                     in ((if n = 0 then None else Some (CkRestoreFailed n (length ps)), res), fs, m)))"

section \<open>Retention\<close>

definition DefaultKeepRuns :: nat where
  "DefaultKeepRuns = 50"

fun gc_keep :: "gotime \<Rightarrow> int \<Rightarrow> nat \<Rightarrow> run_record list \<Rightarrow> string list" where
  "gc_keep now maxAge left [] = []"
| "gc_keep now maxAge left (r # rs) =
     (if 0 < left \<and> (maxAge \<le> 0 \<or> now - rr_CreatedAt r \<le> maxAge)
      then rr_ThreadID r # gc_keep now maxAge (left - 1) rs else gc_keep now maxAge left rs)"

definition ck_GC :: "gotime \<Rightarrow> int \<Rightarrow> int \<Rightarrow> ck \<Rightarrow> (nat \<times> nat) \<times> ck" where
  "ck_GC now keepRuns maxAge m =
     (let keepRuns = (if keepRuns \<le> 0 then int DefaultKeepRuns else keepRuns);
          keep = gc_keep now maxAge (nat keepRuns) (ledger_List (2 ^ 30) (ck_ledger m));
          (pruned, l) = ledger_DeleteExcept keep (ck_ledger m)
      in ((pruned, length keep),
          m\<lparr>ck_ledger := l, ck_shadow := store_GC (preRef ` set keep \<union> postRef ` set keep) (ck_shadow m)\<rparr>))"

text \<open>The key a restore locks (\<^verbatim>\<open>canonicalLockPath\<close>).\<close>

definition canonicalLockPath :: "fs \<Rightarrow> path \<Rightarrow> path \<Rightarrow> path" where
  "canonicalLockPath fs root p =
     (let joined = root @ p
      in case EvalSymlinks fs joined of
           Inr r \<Rightarrow> r
         | Inl _ \<Rightarrow> (case EvalSymlinks fs (butlast joined) of Inr d \<Rightarrow> path_join d (last joined) | Inl _ \<Rightarrow> joined))"

section \<open>The snapshots of the ledger\<close>

text \<open>
  The snapshots a row names exist, and the references of its thread keep them. Commits and references
  are fresh and consistent.
\<close>

definition shadow_ok :: "shadow \<Rightarrow> bool" where
  "shadow_ok sh \<longleftrightarrow> gm_wf (sh_refs sh) \<and> gm_wf (sh_commits sh)
     \<and> (\<forall>c. gm_get (sh_commits sh) c \<noteq> None \<longrightarrow> c < sh_next sh)
     \<and> (\<forall>r c. gm_get (sh_refs sh) r = Some c \<longrightarrow> gm_get (sh_commits sh) c \<noteq> None)"

definition kept_by :: "shadow \<Rightarrow> string \<Rightarrow> commit option \<Rightarrow> bool" where
  "kept_by sh ref co \<longleftrightarrow> (case co of None \<Rightarrow> True | Some c \<Rightarrow> gm_get (sh_refs sh) ref = Some c)"

lemma ref_inj [simp]: "preRef a = preRef b \<longleftrightarrow> a = b" "postRef a = postRef b \<longleftrightarrow> a = b"
  by (simp_all add: preRef_def postRef_def)

lemma ref_distinct [simp]: "preRef a \<noteq> postRef b" "postRef b \<noteq> preRef a" "preRef a \<noteq> []" "postRef a \<noteq> []"
proof -
  have "last (preRef a) = CHR ''e''" "last (postRef b) = CHR ''t''" by (simp_all add: preRef_def postRef_def)
  then show "preRef a \<noteq> postRef b" "postRef b \<noteq> preRef a" by auto
qed (simp_all add: preRef_def postRef_def)

definition after_snapshot :: "string \<Rightarrow> tree \<Rightarrow> shadow \<Rightarrow> shadow" where
  "after_snapshot ref t sh =
     sh\<lparr>sh_commits := gm_put (sh_next sh) t (sh_commits sh), sh_next := sh_next sh + 1,
        sh_refs := (if ref = [] then sh_refs sh else gm_put ref (sh_next sh) (sh_refs sh))\<rparr>"

lemma Snapshot_eq:
  "store_Snapshot g ref fs sh =
     (case git_add g fs of Inl e \<Rightarrow> (Inl e, sh) | Inr t \<Rightarrow> (Inr (sh_next sh), after_snapshot ref t sh))"
  by (simp add: store_Snapshot_def after_snapshot_def Let_def split: sum.split)

lemma shadow_ok_after: "shadow_ok sh \<Longrightarrow> shadow_ok (after_snapshot ref t sh)"
  by (auto simp: shadow_ok_def after_snapshot_def less_Suc_eq)

lemma shadow_ok_Snapshot: "shadow_ok sh \<Longrightarrow> shadow_ok (snd (store_Snapshot g ref fs sh))"
  by (simp add: Snapshot_eq shadow_ok_after split: sum.split)

lemma kept_by_after:
  "kept_by sh ref co \<Longrightarrow> ref' \<noteq> ref \<Longrightarrow> kept_by (after_snapshot ref' t sh) ref co"
  by (simp add: kept_by_def after_snapshot_def split: option.splits)

lemma kept_by_new: "ref \<noteq> [] \<Longrightarrow> kept_by (after_snapshot ref t sh) ref (Some (sh_next sh))"
  by (simp add: kept_by_def after_snapshot_def)

text \<open>The rows of a ledger after an insertion and an update.\<close>

lemma get_Insert:
  "gm_get (ledger_Insert r l) tid =
     (if tid \<noteq> rr_ThreadID r then gm_get l tid
      else Some (case gm_get l tid of
                   None \<Rightarrow> r
                 | Some old \<Rightarrow> old\<lparr>rr_AgentID := rr_AgentID r, rr_TaskSummary := rr_TaskSummary r, rr_Status := rr_Status r,
                     rr_PreSnapshot := rr_PreSnapshot r, rr_IgnoredAtBegin := rr_IgnoredAtBegin r, rr_CreatedAt := rr_CreatedAt r\<rparr>))"
  by (simp add: ledger_Insert_def split: option.split)

lemma get_Update:
  "gm_get (ledger_Update r l) tid =
     (if tid \<noteq> rr_ThreadID r then gm_get l tid
      else map_option (\<lambda>old. old\<lparr>rr_Status := rr_Status r, rr_PostSnapshot := rr_PostSnapshot r, rr_TouchedPaths := rr_TouchedPaths r,
                 rr_Pushed := rr_Pushed r, rr_PRURL := rr_PRURL r, rr_CaptureError := rr_CaptureError r,
                 rr_IgnoredTouched := rr_IgnoredTouched r, rr_CompletedAt := rr_CompletedAt r\<rparr>) (gm_get l tid))"
  by (simp add: ledger_Update_def split: option.split)

lemma gm_wf_Insert [simp]: "gm_wf l \<Longrightarrow> gm_wf (ledger_Insert r l)"
  by (simp add: ledger_Insert_def split: option.split)

lemma gm_wf_Update [simp]: "gm_wf l \<Longrightarrow> gm_wf (ledger_Update r l)"
  by (simp add: ledger_Update_def split: option.split)

definition rows_ok :: "shadow \<Rightarrow> ledger \<Rightarrow> bool" where
  "rows_ok sh l \<longleftrightarrow> gm_wf l \<and> (\<forall>tid r. gm_get l tid = Some r \<longrightarrow> rr_ThreadID r = tid \<and>
        kept_by sh (preRef tid) (rr_PreSnapshot r) \<and> kept_by sh (postRef tid) (rr_PostSnapshot r))"

lemma rows_okD:
  "rows_ok sh l \<Longrightarrow> gm_get l tid = Some r \<Longrightarrow>
     rr_ThreadID r = tid \<and> kept_by sh (preRef tid) (rr_PreSnapshot r) \<and> kept_by sh (postRef tid) (rr_PostSnapshot r)"
  by (auto simp: rows_ok_def)

lemma rows_ok_Insert:
  assumes "rows_ok sh l" "kept_by sh (preRef (rr_ThreadID r)) (rr_PreSnapshot r)" "rr_PostSnapshot r = None"
  shows "rows_ok sh (ledger_Insert r l)"
  using assms rows_okD[OF assms(1), of "rr_ThreadID r"]
  by (auto simp: rows_ok_def get_Insert kept_by_def[of _ _ None] split: option.splits if_splits)

lemma rows_ok_Update:
  assumes "rows_ok sh l" "kept_by sh (postRef (rr_ThreadID r)) (rr_PostSnapshot r)"
  shows "rows_ok sh (ledger_Update r l)"
  using assms by (auto simp: rows_ok_def get_Update split: if_splits)

lemma kept_by_None [simp]: "kept_by sh ref None"
  by (simp add: kept_by_def)

lemma rows_ok_begin:
  assumes "rows_ok sh l" "rr_ThreadID r = tid" "rr_PreSnapshot r = Some (sh_next sh)" "rr_PostSnapshot r = None"
  shows "rows_ok (after_snapshot (preRef tid) t sh) (ledger_Insert r l)"
proof -
  let ?sh = "after_snapshot (preRef tid) t sh"
  have new: "kept_by ?sh (preRef tid) (Some (sh_next sh))" by (rule kept_by_new) simp
  have "rr_ThreadID q = k \<and> kept_by ?sh (preRef k) (rr_PreSnapshot q) \<and> kept_by ?sh (postRef k) (rr_PostSnapshot q)"
    if q: "gm_get (ledger_Insert r l) k = Some q" for k q
  proof (cases "k = tid")
    case False
    then show ?thesis using rows_okD[OF assms(1), of k q] q assms(2) by (simp add: get_Insert kept_by_after)
  next
    case True
    then have pre: "rr_PreSnapshot q = Some (sh_next sh)" and q': "rr_ThreadID q = tid"
      using q assms(2,3) rows_okD[OF assms(1), of tid] by (cases "gm_get l tid"; auto simp: get_Insert)+
    have "kept_by ?sh (postRef tid) (rr_PostSnapshot q)"
    proof (cases "gm_get l tid")
      case None
      then show ?thesis using q True assms(2,4) by (simp add: get_Insert)
    next
      case (Some old)
      then have "rr_PostSnapshot q = rr_PostSnapshot old" using q True assms(2) by (auto simp: get_Insert)
      then show ?thesis using kept_by_after[of sh "postRef tid" "rr_PostSnapshot old" "preRef tid"] rows_okD[OF assms(1) Some] by simp
    qed
    then show ?thesis using pre q' True new by simp
  qed
  then show ?thesis using assms(1) by (auto simp: rows_ok_def)
qed

lemma rows_ok_end:
  assumes "rows_ok sh l" "rr_ThreadID r = tid" "rr_PostSnapshot r = Some (sh_next sh)"
  shows "rows_ok (after_snapshot (postRef tid) t sh) (ledger_Update r l)"
proof -
  let ?sh = "after_snapshot (postRef tid) t sh"
  have new: "kept_by ?sh (postRef tid) (Some (sh_next sh))" by (rule kept_by_new) simp
  have "rr_ThreadID q = k \<and> kept_by ?sh (preRef k) (rr_PreSnapshot q) \<and> kept_by ?sh (postRef k) (rr_PostSnapshot q)"
    if q: "gm_get (ledger_Update r l) k = Some q" for k q
  proof (cases "k = tid")
    case False
    then show ?thesis using rows_okD[OF assms(1), of k q] q assms(2) by (simp add: get_Update kept_by_after)
  next
    case True
    then obtain old where old: "gm_get l tid = Some old" "rr_ThreadID q = rr_ThreadID old"
      "rr_PreSnapshot q = rr_PreSnapshot old" "rr_PostSnapshot q = Some (sh_next sh)"
      using q assms(2,3) by (cases "gm_get l tid") (auto simp: get_Update)
    have "kept_by ?sh (preRef tid) (rr_PreSnapshot old)"
      by (rule kept_by_after) (use rows_okD[OF assms(1) old(1)] in simp_all)
    then show ?thesis using old new True rows_okD[OF assms(1) old(1)] by simp
  qed
  then show ?thesis using assms(1) by (auto simp: rows_ok_def)
qed

lemma kept_by_plain [simp]: "kept_by (after_snapshot [] t sh) = kept_by sh"
  by (intro ext) (simp add: kept_by_def after_snapshot_def split: option.split)

lemma rows_ok_plain: "rows_ok sh l \<Longrightarrow> rows_ok (after_snapshot [] t sh) l"
  by (simp add: rows_ok_def)

definition ck_ok :: "ck \<Rightarrow> bool" where
  "ck_ok m \<longleftrightarrow> shadow_ok (ck_shadow m) \<and> rows_ok (ck_shadow m) (ck_ledger m)"

lemma BeginRun_ok: "ck_ok m \<Longrightarrow> ck_ok (snd (BeginRun g now fs tid agent task m))"
  using rows_ok_Insert[of "ck_shadow m" "ck_ledger m"] rows_ok_begin[of "ck_shadow m" "ck_ledger m"]
  by (cases "git_add g fs")
    (simp_all add: BeginRun_def Let_def Snapshot_eq ck_ok_def shadow_ok_after new_run_def)

lemma finished_run_keeps [simp]:
  "rr_ThreadID (finished_run g now fs c sh r) = rr_ThreadID r" "rr_PreSnapshot (finished_run g now fs c sh r) = rr_PreSnapshot r"
  "rr_PostSnapshot (finished_run g now fs c sh r) = Some c" "rr_Status (finished_run g now fs c sh r) = RunCompleted"
  "rr_Pushed (finished_run g now fs c sh r) = rr_Pushed r"
  by (simp_all add: finished_run_def Let_def split: sum.split option.split)

lemma EndRun_ok: "ck_ok m \<Longrightarrow> ck_ok (snd (EndRun g now fs tid m))"
proof (cases "gm_get (ck_ledger m) tid")
  case (Some r)
  assume m: "ck_ok m"
  then have r: "rr_ThreadID r = tid" "kept_by (ck_shadow m) (postRef tid) (rr_PostSnapshot r)"
    using rows_okD[OF _ Some] by (auto simp: ck_ok_def)
  show ?thesis
    using m r Some rows_ok_Update[of "ck_shadow m" "ck_ledger m"] rows_ok_end[of "ck_shadow m" "ck_ledger m"]
    by (cases "git_add g fs") (simp_all add: EndRun_def Let_def Snapshot_eq ck_ok_def shadow_ok_after)
qed (simp add: EndRun_def)

lemma MarkPushed_ok: "ck_ok m \<Longrightarrow> ck_ok (snd (MarkPushed tid url m))"
  using rows_okD[of "ck_shadow m" "ck_ledger m" tid]
  by (auto simp: MarkPushed_def ck_ok_def intro!: rows_ok_Update split: option.split)

lemma ledger_List_rows: "r \<in> set (ledger_List n l) \<Longrightarrow> gm_wf l \<Longrightarrow> \<exists>tid. gm_get l tid = Some r"
proof -
  assume r: "r \<in> set (ledger_List n l)" and wf: "gm_wf l"
  have "r \<in> set (rev (sort_key (\<lambda>r. created_key (rr_CreatedAt r)) (map snd l)))"
    using r unfolding ledger_List_def by (rule in_set_takeD)
  then obtain tid where "(tid, r) \<in> set l" by auto
  then show ?thesis using gm_get_Some_iff[OF wf] by blast
qed

lemma MarkAllUnsyncedPushed_ok:
  assumes "ck_ok m"
  shows "ck_ok (snd (MarkAllUnsyncedPushed url m))"
proof -
  let ?sh = "ck_shadow m"
  have fold: "rows_ok ?sh (fold (\<lambda>r. ledger_Update (r\<lparr>rr_Pushed := True, rr_PRURL := url\<rparr>)) rs l)"
    if "rows_ok ?sh l" "list_all (\<lambda>r. kept_by ?sh (postRef (rr_ThreadID r)) (rr_PostSnapshot r)) rs" for rs l
    using that by (induction rs arbitrary: l) (simp_all add: rows_ok_Update)
  have rows: "rows_ok ?sh (ck_ledger m)" "gm_wf (ck_ledger m)" using assms by (simp_all add: ck_ok_def rows_ok_def)
  have "kept_by ?sh (postRef (rr_ThreadID r)) (rr_PostSnapshot r)" if listed: "r \<in> set (ledger_List n (ck_ledger m))" for r n
  proof -
    obtain tid where "gm_get (ck_ledger m) tid = Some r" using ledger_List_rows[OF listed rows(2)] by blast
    then show ?thesis using rows_okD[OF rows(1)] by blast
  qed
  then have "list_all (\<lambda>r. kept_by ?sh (postRef (rr_ThreadID r)) (rr_PostSnapshot r)) (filter unsynced (ledger_List (2 ^ 30) (ck_ledger m)))"
    by (auto simp: list_all_iff)
  from fold[OF rows(1) this] have "rows_ok ?sh (ck_ledger (snd (MarkAllUnsyncedPushed url m)))"
    by (simp add: MarkAllUnsyncedPushed_def Let_def)
  then show ?thesis using assms by (simp add: ck_ok_def MarkAllUnsyncedPushed_def Let_def)
qed

lemma DiffRun_ok: "ck_ok m \<Longrightarrow> ck_ok (snd (DiffRun g fs tid m))"
  by (auto simp: DiffRun_def Let_def Snapshot_eq ck_ok_def shadow_ok_after rows_ok_plain split: option.split sum.split)

lemma edited_since_ok: "ck_ok m \<Longrightarrow> edited_since g opts r fs (ck_shadow m) = (x, sh) \<Longrightarrow> ck_ok (m\<lparr>ck_shadow := sh\<rparr>)"
  by (auto simp: edited_since_def Let_def Snapshot_eq ck_ok_def shadow_ok_after rows_ok_plain
      split: option.splits sum.splits if_splits)

lemma RevertRun_ok: "ck_ok m \<Longrightarrow> ck_ok (snd (snd (RevertRun g root opts tid (fs, m))))"
proof (cases "gm_get (ck_ledger m) tid")
  case (Some r)
  assume m: "ck_ok m"
  then have r: "rr_ThreadID r = tid" "kept_by (ck_shadow m) (postRef tid) (rr_PostSnapshot r)"
    using rows_okD[OF _ Some] by (auto simp: ck_ok_def)
  obtain x sh where e: "edited_since g opts r fs (ck_shadow m) = (x, sh)" by fastforce
  have sh: "ck_ok (m\<lparr>ck_shadow := sh\<rparr>)" by (rule edited_since_ok[OF m e])
  have "kept_by sh (postRef tid) (rr_PostSnapshot r)" using rows_okD[of sh "ck_ledger m" tid r] sh Some by (simp add: ck_ok_def)
  then have "rows_ok sh (ledger_Update (r\<lparr>rr_Status := RunReverted\<rparr>) (ck_ledger m))"
    using sh r by (intro rows_ok_Update) (simp_all add: ck_ok_def)
  then show ?thesis using m sh Some e
    by (simp add: RevertRun_def ck_ok_def Let_def split: option.split sum.split prod.split)
qed (simp add: RevertRun_def)

lemma gm_get_kept: "gm_wf m \<Longrightarrow> gm_get (filter (\<lambda>(k, v). P k) m) k = (if P k then gm_get m k else None)"
  by (simp add: gm_get_filter split: option.split)

lemma shadow_ok_GC: "shadow_ok sh \<Longrightarrow> shadow_ok (store_GC keep sh)"
proof -
  assume sh: "shadow_ok sh"
  let ?refs = "filter (\<lambda>(r, c). r \<in> keep) (sh_refs sh)"
  have "gm_get (filter (\<lambda>(c, t). c \<in> snd ` set ?refs) (sh_commits sh)) c \<noteq> None"
    if "gm_get ?refs r = Some c" for r c
  proof -
    have "c \<in> snd ` set ?refs" using gm_get_SomeD[OF that] by force
    moreover have "gm_get (sh_commits sh) c \<noteq> None"
      using that sh by (auto simp: shadow_ok_def gm_get_kept split: if_splits)
    ultimately show ?thesis using sh by (simp add: shadow_ok_def gm_get_kept)
  qed
  then show ?thesis using sh by (auto simp: shadow_ok_def store_GC_def Let_def gm_get_kept split: if_splits)
qed

lemma kept_by_GC: "shadow_ok sh \<Longrightarrow> ref \<in> keep \<Longrightarrow> kept_by sh ref co \<Longrightarrow> kept_by (store_GC keep sh) ref co"
  by (auto simp: kept_by_def store_GC_def Let_def shadow_ok_def gm_get_kept split: option.splits)

lemma GC_ok: "ck_ok m \<Longrightarrow> ck_ok (snd (ck_GC now keepRuns maxAge m))"
proof -
  assume m: "ck_ok m"
  then have rows: "rows_ok (ck_shadow m) (ck_ledger m)" "gm_wf (ck_ledger m)" and sh: "shadow_ok (ck_shadow m)"
    by (simp_all add: ck_ok_def rows_ok_def)
  have kept: "rows_ok (store_GC (preRef ` set keep \<union> postRef ` set keep) (ck_shadow m)) (filter (\<lambda>(k, r). k \<in> set keep) (ck_ledger m))" for keep
    using rows rows_okD[OF rows(1)] kept_by_GC[OF sh]
    by (auto simp: rows_ok_def[of "store_GC _ _"] gm_get_kept split: if_splits)
  show ?thesis
    by (simp add: ck_GC_def Let_def ledger_DeleteExcept_def ck_ok_def shadow_ok_GC[OF sh] kept)
qed

datatype ck_call =
  CkBegin git gotime string string string
| CkEnd git gotime string
| CkPushed string string
| CkPushedAll string
| CkDiff git string
| CkRevert git path revert_options string
| CkGC gotime int int

text \<open>Each call finds the files in any state; what a restore does to them is not followed here.\<close>

definition ck_step :: "fs \<times> ck_call \<Rightarrow> ck \<Rightarrow> ck" where
  "ck_step c m =
     (case snd c of
        CkBegin g now tid agent task \<Rightarrow> snd (BeginRun g now (fst c) tid agent task m)
      | CkEnd g now tid \<Rightarrow> snd (EndRun g now (fst c) tid m)
      | CkPushed tid url \<Rightarrow> snd (MarkPushed tid url m)
      | CkPushedAll url \<Rightarrow> snd (MarkAllUnsyncedPushed url m)
      | CkDiff g tid \<Rightarrow> snd (DiffRun g (fst c) tid m)
      | CkRevert g root opts tid \<Rightarrow> snd (snd (RevertRun g root opts tid (fst c, m)))
      | CkGC now k a \<Rightarrow> snd (ck_GC now k a m))"

definition NewManager :: ck where
  "NewManager = \<lparr>ck_shadow = \<lparr>sh_commits = [], sh_refs = [], sh_next = 0\<rparr>, ck_ledger = []\<rparr>"

lemma ck_step_ok: "ck_ok m \<Longrightarrow> ck_ok (ck_step c m)"
  by (cases "snd c")
    (simp_all add: ck_step_def BeginRun_ok EndRun_ok MarkPushed_ok MarkAllUnsyncedPushed_ok DiffRun_ok RevertRun_ok GC_ok)

lemma ck_run_ok: "ck_ok (fold ck_step calls NewManager)"
proof -
  have "ck_ok NewManager" by (simp add: ck_ok_def NewManager_def shadow_ok_def rows_ok_def)
  then show ?thesis by (induction calls rule: rev_induct) (simp_all add: ck_step_ok)
qed

text \<open>
  C25. Whatever runs begin, end, are diffed, undone, marked as pushed and collected, in any order and
  with any failure of a snapshot, each row of the ledger names only snapshots that are in the shadow
  repository, under the references of its thread: a collection never takes a snapshot from a run that it keeps.
\<close>

theorem ledger_snapshots_exist:
  "case gm_get (ck_ledger (fold ck_step calls NewManager)) tid of
     None \<Rightarrow> True
   | Some r \<Rightarrow> rr_ThreadID r = tid \<and>
       set_option (rr_PreSnapshot r) \<union> set_option (rr_PostSnapshot r)
         \<subseteq> set (gm_keys (sh_commits (ck_shadow (fold ck_step calls NewManager))))"
proof (cases "gm_get (ck_ledger (fold ck_step calls NewManager)) tid")
  case (Some r)
  let ?m = "fold ck_step calls NewManager"
  have m: "shadow_ok (ck_shadow ?m)" "rows_ok (ck_shadow ?m) (ck_ledger ?m)" using ck_run_ok by (simp_all add: ck_ok_def)
  note r = rows_okD[OF m(2) Some]
  have "gm_get (sh_commits (ck_shadow ?m)) c \<noteq> None" if "kept_by (ck_shadow ?m) ref (Some c)" for ref c
    using that m(1) by (simp add: kept_by_def shadow_ok_def)
  then have "c \<in> set (gm_keys (sh_commits (ck_shadow ?m)))" if "kept_by (ck_shadow ?m) ref (Some c)" for ref c
    using that gm_get_None_iff[of "sh_commits (ck_shadow ?m)" c] by blast
  then show ?thesis using r Some by (cases "rr_PreSnapshot r"; cases "rr_PostSnapshot r") auto
qed simp

end
