(* ===== verification/CheckpointRevert.thy ===== *)
theory CheckpointRevert
  imports Checkpoints
begin

text \<open>
  What undoing a run does to the files: which paths it can change, and that it brings back the
  tree from before the run.
\<close>

section \<open>Operations along real directories\<close>

lemma real_parent:
  assumes "dirs_path fs (butlast p)" "list_all name_ok p" "p \<noteq> []"
  shows "walk fs False kernel_links [] (butlast p) = Inr (butlast p)" "Lstat fs (butlast p) = Some Dir"
proof -
  show dir: "Lstat fs (butlast p) = Some Dir" by (rule dirs_path_at[OF assms(1)])
  have "list_all name_ok (butlast p)" by (rule names_butlast[OF assms(2)])
  then show "walk fs False kernel_links [] (butlast p) = Inr (butlast p)"
    using walk_real[of fs "[]" "butlast p" False kernel_links] assms(1) dir by (simp add: dirs_path_butlast)
qed

lemma os_Lstat_real: "dirs_path fs (butlast p) \<Longrightarrow> list_all name_ok p \<Longrightarrow> os_Lstat fs p = Lstat fs p"
  using real_parent[of fs p] by (cases "p = []") (simp_all add: os_Lstat_def)

lemma Remove_real:
  "dirs_path fs (butlast p) \<Longrightarrow> list_all name_ok p \<Longrightarrow> p \<noteq> [] \<Longrightarrow> Lstat fs p = Some n \<Longrightarrow> n \<noteq> Dir \<Longrightarrow>
     Remove fs p = Inr (gm_del p fs)"
  using real_parent[of fs p] by (simp add: Remove_def)

lemma Symlink_real:
  "dirs_path fs (butlast p) \<Longrightarrow> list_all name_ok p \<Longrightarrow> p \<noteq> [] \<Longrightarrow> Lstat fs p = None \<Longrightarrow>
     Symlink fs t p = Inr (gm_put p (Link t) fs)"
  using real_parent[of fs p] by (simp add: Symlink_def)

lemma WriteFile_real:
  assumes "dirs_path fs (butlast p)" "list_all name_ok p" "p \<noteq> []" "Lstat fs p = None \<or> Lstat fs p = Some (File m s)"
  shows "WriteFile fs p content mode = Inr (gm_put p (File (if Lstat fs p = None then mode else m) content) fs)"
proof -
  have "walk fs True kernel_links [] p = Inr p"
    using walk_real[of fs "[]" p True kernel_links] assms by auto
  then show ?thesis using assms(4) by (auto simp: WriteFile_def)
qed

lemma Lstat_del: "p \<noteq> [] \<Longrightarrow> Lstat (gm_del p fs) q = (if q = p then None else Lstat fs q)"
  by (simp add: Lstat_def)

lemma fs_wf_del: "fs_wf fs \<Longrightarrow> p \<noteq> [] \<Longrightarrow> Lstat fs p \<noteq> Some Dir \<Longrightarrow> fs_wf (gm_del p fs)"
proof -
  assume fs: "fs_wf fs" "p \<noteq> []" "Lstat fs p \<noteq> Some Dir"
  have "(q, n) \<in> set fs" if "(q, n) \<in> set (gm_del p fs)" for q n
    using that by (auto simp: AList.delete_eq)
  then show ?thesis using fs by (fastforce simp: fs_wf_def list_all_iff Lstat_del)
qed

text \<open>A directory is made where every part is missing or a directory.\<close>

definition open_dirs :: "fs \<Rightarrow> path \<Rightarrow> bool" where
  "open_dirs fs p \<longleftrightarrow> (\<forall>q. prefix q p \<longrightarrow> Lstat fs q = None \<or> Lstat fs q = Some Dir)"

lemma MkdirAll_open:
  "fs_wf fs \<Longrightarrow> list_all name_ok p \<Longrightarrow> open_dirs fs p \<Longrightarrow>
     \<exists>fs'. MkdirAll fs p = Inr fs' \<and> (\<forall>q. Lstat fs' q = (if prefix q p then Some Dir else Lstat fs q))"
proof (induction p rule: rev_induct)
  case Nil
  have "MkdirAll fs [] = Inr fs" by (simp add: MkdirAll.simps[of fs] Stat_def)
  then show ?case by simp
next
  case (snoc c p)
  have free: "link_free fs (p @ [c])" using snoc.prems(3) by (auto simp: open_dirs_def link_free_def list_all_iff)
  show ?case
  proof (cases "Lstat fs (p @ [c])")
    case (Some n)
    then have dir: "Lstat fs (p @ [c]) = Some Dir" using snoc.prems(3) by (auto simp: open_dirs_def)
    then have dirs: "dirs_path fs (p @ [c])" using fs_wf_at(1)[OF snoc.prems(1), of "p @ [c]"] by simp
    have "walk fs False kernel_links [] (p @ [c]) = Inr (p @ [c])"
      using walk_real[of fs "[]" "p @ [c]" False kernel_links] dirs dir snoc.prems(2) by simp
    then have "MkdirAll fs (p @ [c]) = Inr fs" using dir by (simp add: MkdirAll.simps[of fs "p @ [c]"] Stat_def)
    moreover have "Lstat fs q = Some Dir" if "prefix q (p @ [c])" for q
      by (rule dirs_path_at[OF dirs_path_prefix[OF dirs that]])
    ultimately show ?thesis by auto
  next
    case None
    have stat: "\<exists>e. Stat fs (p @ [c]) = Inl e"
    proof (cases "walk fs False kernel_links [] (p @ [c])")
      case (Inr d)
      then have "d = p @ [c]" using walk_link_free[OF Inr] snoc.prems(2) free by simp
      then show ?thesis using Inr None by (simp add: Stat_def)
    qed (simp add: Stat_def)
    have "open_dirs fs p" using snoc.prems(3) by (auto simp: open_dirs_def)
    then obtain fs1 where fs1: "MkdirAll fs p = Inr fs1" "\<And>q. Lstat fs1 q = (if prefix q p then Some Dir else Lstat fs q)"
      using snoc.IH snoc.prems by auto
    have dirs: "dirs_path fs1 p" using fs1(2) by (simp add: dirs_path_def list_all_iff)
    have "Mkdir fs1 (p @ [c]) = Inr (gm_put (p @ [c]) Dir fs1)"
      using real_parent[of fs1 "p @ [c]"] dirs snoc.prems(2) None fs1(2)[of "p @ [c]"] by (simp add: Mkdir_def)
    then have "MkdirAll fs (p @ [c]) = Inr (gm_put (p @ [c]) Dir fs1)"
      using stat fs1(1) by (auto simp: MkdirAll.simps[of fs "p @ [c]"])
    then show ?thesis using fs1(2) by (auto simp: Lstat_put)
  qed
qed

section \<open>Restoring one path\<close>

text \<open>What one step changes: the path itself, and missing directories above it.\<close>

definition changes_only :: "fs \<Rightarrow> fs \<Rightarrow> path \<Rightarrow> bool" where
  "changes_only fs fs' p \<longleftrightarrow>
     (\<forall>q. q = p \<or> Lstat fs' q = Lstat fs q \<or> (strict_prefix q p \<and> Lstat fs q = None \<and> Lstat fs' q = Some Dir))"

text \<open>A path where an entry can be put: no file or link above it, and no directory there.\<close>

definition room :: "fs \<Rightarrow> path \<Rightarrow> bool" where
  "room fs p \<longleftrightarrow> p \<noteq> [] \<and> open_dirs fs (butlast p) \<and> Lstat fs p \<noteq> Some Dir"

fun restored_node :: "node option \<Rightarrow> string \<times> mode \<Rightarrow> node" where
  "restored_node old (s, SymbolicLink) = Link s"
| "restored_node old (s, m) =
     File (case old of Some (File k t) \<Rightarrow> k | _ \<Rightarrow> if m = Executable then 493 else 420) s"

lemma strict_prefix_butlast: "p \<noteq> [] \<Longrightarrow> strict_prefix q p \<longleftrightarrow> prefix q (butlast p)"
proof -
  assume "p \<noteq> []"
  then obtain r c where "p = r @ [c]" by (cases p rule: rev_cases) auto
  then show ?thesis by (auto simp: strict_prefix_def)
qed

lemma removed_first_real:
  assumes "fs_wf fs" "dirs_path fs (butlast p)" "list_all name_ok p" "p \<noteq> []" "Lstat fs p \<noteq> Some Dir"
  shows "\<exists>fs'. removed_first fs p m = Inr fs' \<and> fs_wf fs' \<and> dirs_path fs' (butlast p) \<and>
    (\<forall>q. Lstat fs' q = (if q = p \<and> (is_link (Lstat fs p) \<or> m = SymbolicLink) then None else Lstat fs q))"
proof -
  let ?fs' = "if is_link (Lstat fs p) \<or> Lstat fs p \<noteq> None \<and> m = SymbolicLink then gm_del p fs else fs"
  have "removed_first fs p m = Inr ?fs'"
    using os_Lstat_real[OF assms(2,3)] Remove_real[OF assms(2-4)] assms(5)
    by (cases "Lstat fs p") (simp_all add: removed_first_def)
  moreover have "fs_wf ?fs'" using fs_wf_del[OF assms(1,4,5)] assms(1) by simp
  moreover have "Lstat ?fs' q = (if q = p \<and> (is_link (Lstat fs p) \<or> m = SymbolicLink) then None else Lstat fs q)" for q
    using assms(4) by (auto simp: Lstat_del)
  moreover have "dirs_path ?fs' (butlast p)"
  proof -
    have "q \<noteq> p" if "prefix q (butlast p)" for q
      using that strict_prefix_butlast[OF assms(4), of q] by auto
    then show ?thesis using assms(2,4) by (simp add: dirs_path_def list_all_iff Lstat_del)
  qed
  ultimately show ?thesis by blast
qed

lemma write_node_real:
  assumes "fs_wf fs" "dirs_path fs (butlast p)" "list_all name_ok p" "p \<noteq> []"
    and "Lstat fs p = None \<or> m \<noteq> SymbolicLink \<and> (\<exists>k t. Lstat fs p = Some (File k t))"
  shows "(if m = SymbolicLink then Symlink fs s p else WriteFile fs p s (if m = Executable then 493 else 420)) =
      Inr (gm_put p (restored_node (Lstat fs p) (s, m)) fs)"
    and "fs_wf (gm_put p (restored_node (Lstat fs p) (s, m)) fs)"
proof -
  have n: "restored_node (Lstat fs p) (s, m) =
      File (case Lstat fs p of Some (File k t) \<Rightarrow> k | _ \<Rightarrow> if m = Executable then 493 else 420) s" if "m \<noteq> SymbolicLink"
    using that by (cases m) simp_all
  show "(if m = SymbolicLink then Symlink fs s p else WriteFile fs p s (if m = Executable then 493 else 420)) =
      Inr (gm_put p (restored_node (Lstat fs p) (s, m)) fs)"
    using assms(5) n Symlink_real[OF assms(2-4)] WriteFile_real[OF assms(2-4)] by auto
  show "fs_wf (gm_put p (restored_node (Lstat fs p) (s, m)) fs)"
    by (rule fs_wf_put[OF assms(1,4,3)]) (use dirs_path_at[OF assms(2)] assms(5) in auto)
qed

lemma restored_node_link: "is_link n \<or> m = SymbolicLink \<Longrightarrow> restored_node None (s, m) = restored_node n (s, m)"
  by (cases m; cases n; cases "the n") auto

lemma strict_prefix_app [simp]: "strict_prefix (r @ p) (r @ q) \<longleftrightarrow> strict_prefix p q"
  by (auto simp: strict_prefix_def)

lemma RestoreEntry_puts:
  assumes "fs_wf fs" "list_all name_ok p" "room fs p"
  shows "\<exists>fs'. RestoreEntry p (Some e) fs = (fs', Inr Restored) \<and> fs_wf fs'
    \<and> Lstat fs' p = Some (restored_node (Lstat fs p) e) \<and> changes_only fs fs' p"
proof -
  obtain s m where e: "e = (s, m)" by (cases e)
  have p: "p \<noteq> []" "Lstat fs p \<noteq> Some Dir" "open_dirs fs (butlast p)" using assms(3) by (simp_all add: room_def)
  have nb: "list_all name_ok (butlast p)" by (rule names_butlast[OF assms(2)])
  obtain fs1 where fs1: "MkdirAll fs (butlast p) = Inr fs1" "\<And>q. Lstat fs1 q = (if strict_prefix q p then Some Dir else Lstat fs q)"
    using MkdirAll_open[OF assms(1) nb p(3)] strict_prefix_butlast[OF p(1)] by auto
  have wf1: "fs_wf fs1" by (rule fs_wf_MkdirAll[OF fs1(1) assms(1) nb])
  have dirs: "dirs_path fs1 (butlast p)" using fs1(2) strict_prefix_butlast[OF p(1)] by (simp add: dirs_path_def list_all_iff)
  have at: "Lstat fs1 p = Lstat fs p" using fs1(2)[of p] by simp
  then have nodir: "Lstat fs1 p \<noteq> Some Dir" using p(2) by simp
  obtain fs2 where fs2: "removed_first fs1 p m = Inr fs2" "fs_wf fs2" "dirs_path fs2 (butlast p)"
    "\<And>q. Lstat fs2 q = (if q = p \<and> (is_link (Lstat fs1 p) \<or> m = SymbolicLink) then None else Lstat fs1 q)"
    using removed_first_real[OF wf1 dirs assms(2) p(1) nodir, of m] by blast
  have ready: "Lstat fs2 p = None \<or> m \<noteq> SymbolicLink \<and> (\<exists>k t. Lstat fs2 p = Some (File k t))"
    using fs2(4)[of p] nodir by (cases "Lstat fs1 p"; cases "the (Lstat fs1 p)") auto
  note put = write_node_real[OF fs2(2,3) assms(2) p(1) ready, of s]
  let ?fs3 = "gm_put p (restored_node (Lstat fs2 p) (s, m)) fs2"
  have node: "restored_node (Lstat fs2 p) (s, m) = restored_node (Lstat fs p) (s, m)"
    using fs2(4)[of p] at restored_node_link[of "Lstat fs p" m s] by auto
  have at3: "Lstat ?fs3 q = (if strict_prefix q p then Some Dir else Lstat fs q)" if "q \<noteq> p" for q
    using that fs1(2)[of q] fs2(4)[of q] p(1) by (simp add: Lstat_put)
  have above: "Lstat fs q = None \<or> Lstat fs q = Some Dir" if "strict_prefix q p" for q
    using that p(1,3) by (simp add: open_dirs_def strict_prefix_butlast)
  have "changes_only fs ?fs3 p"
    unfolding changes_only_def
  proof
    fix q
    show "q = p \<or> Lstat ?fs3 q = Lstat fs q \<or> strict_prefix q p \<and> Lstat fs q = None \<and> Lstat ?fs3 q = Some Dir"
      using at3[of q] above[of q] by (cases "q = p"; cases "strict_prefix q p") auto
  qed
  moreover have "Lstat ?fs3 p = Some (restored_node (Lstat fs p) e)" using node p(1) by (simp add: Lstat_put e)
  moreover have "RestoreEntry p (Some e) fs = (?fs3, Inr Restored)"
    using put(1) fs1(1) fs2(1) by (simp add: RestoreEntry_def e)
  ultimately show ?thesis using put(2) by blast
qed

lemma RestoreEntry_deletes:
  assumes "fs_wf fs" "Lstat fs p \<noteq> None" "Lstat fs p \<noteq> Some Dir"
  shows "RestoreEntry p None fs = (gm_del p fs, Inr Deleted) \<and> fs_wf (gm_del p fs)
    \<and> Lstat (gm_del p fs) p = None \<and> changes_only fs (gm_del p fs) p"
proof -
  have p: "p \<noteq> []" using assms(3) by auto
  obtain n where n: "Lstat fs p = Some n" "n \<noteq> Dir" using assms by auto
  note at = fs_wf_at[OF assms(1,2)]
  show ?thesis using Remove_real[OF at p n] fs_wf_del[OF assms(1) p assms(3)] p
    by (simp add: RestoreEntry_def changes_only_def Lstat_del)
qed

section \<open>Undoing a run brings its files back\<close>

text \<open>The entry of a node, and what of it a restore brings back: the content, and whether it is a link.\<close>

definition entry_of :: "node \<Rightarrow> tree_entry option" where
  "entry_of n = (case n of Dir \<Rightarrow> None | File k s \<Rightarrow> Some (Blob (k div 64 mod 2 = 1) s) | Link t \<Rightarrow> Some (SymLink t))"

definition content_at :: "fs \<Rightarrow> path \<Rightarrow> (bool \<times> string) option" where
  "content_at fs p = (case Lstat fs p of Some (File k s) \<Rightarrow> Some (False, s) | Some (Link t) \<Rightarrow> Some (True, t) | _ \<Rightarrow> None)"

definition entry_content :: "tree_entry option \<Rightarrow> (bool \<times> string) option" where
  "entry_content e = (case e of Some (Blob x s) \<Rightarrow> Some (False, s) | Some (SymLink t) \<Rightarrow> Some (True, t) | None \<Rightarrow> None)"

text \<open>
  What \<^verbatim>\<open>git add -A\<close> and \<^verbatim>\<open>git write-tree\<close> are documented to record: the files and links of the work tree
  that are not ignored. And the names of \<^verbatim>\<open>git diff --name-only\<close> when no rename is detected: each path that
  differs, once.
\<close>

definition snapshot_of :: "(path \<Rightarrow> bool) \<Rightarrow> path \<Rightarrow> fs \<Rightarrow> tree \<Rightarrow> bool" where
  "snapshot_of ign root fs t \<longleftrightarrow>
     (\<forall>p. gm_get t p = (if p = [] \<or> ign p then None else case Lstat fs (root @ p) of None \<Rightarrow> None | Some n \<Rightarrow> entry_of n))"

definition names_differing :: "tree \<Rightarrow> tree \<Rightarrow> path list \<Rightarrow> bool" where
  "names_differing t t' ps \<longleftrightarrow> distinct ps \<and> (\<forall>p. p \<in> set ps \<longleftrightarrow> gm_get t p \<noteq> gm_get t' p)"

lemma snapshot_content: "snapshot_of ign root fs t \<Longrightarrow> p \<noteq> [] \<Longrightarrow> \<not> ign p \<Longrightarrow> entry_content (gm_get t p) = content_at fs (root @ p)"
  by (simp add: snapshot_of_def entry_content_def content_at_def entry_of_def split: option.split node.split)

lemma snapshot_file: "snapshot_of ign root fs t \<Longrightarrow> gm_get t p = Some e \<Longrightarrow> p \<noteq> [] \<and> Lstat fs (root @ p) \<noteq> None \<and> Lstat fs (root @ p) \<noteq> Some Dir"
  by (auto simp: snapshot_of_def entry_of_def split: if_splits option.splits)

text \<open>No file of a tree is above another.\<close>

lemma snapshot_antichain:
  assumes "fs_wf fs" "snapshot_of ign root fs t" "gm_get t p = Some e" "gm_get t q = Some e'"
  shows "\<not> strict_prefix p q"
proof
  assume pq: "strict_prefix p q"
  have q: "Lstat fs (root @ q) \<noteq> None" "q \<noteq> []" using snapshot_file[OF assms(2,4)] by simp_all
  have "prefix (root @ p) (butlast (root @ q))" using pq q(2) strict_prefix_butlast[of q p] by (simp add: butlast_append)
  then have "Lstat fs (root @ p) = Some Dir"
    using dirs_path_at[OF dirs_path_prefix[OF fs_wf_at(1)[OF assms(1) q(1)]]] by simp
  then show False using snapshot_file[OF assms(2,3)] by simp
qed

text \<open>What a path of the run needs so that it can be restored.\<close>

definition ready :: "path \<Rightarrow> tree \<Rightarrow> fs \<Rightarrow> path \<Rightarrow> bool" where
  "ready root t fs p \<longleftrightarrow> p \<noteq> [] \<and> list_all name_ok (root @ p) \<and>
     (if gm_get t p \<noteq> None then room fs (root @ p)
      else Lstat fs (root @ p) \<noteq> None \<and> Lstat fs (root @ p) \<noteq> Some Dir \<and> \<not> list_ex (\<lambda>(q, e). strict_prefix p q) t)"

lemma fileAtCommit_ready:
  assumes "ready root t fs p"
  shows "gm_get t p = None \<and> fileAtCommit g t p = None
    \<or> (\<exists>e. fileAtCommit g t p = Some e \<and> gm_get t p \<noteq> None \<and>
         (\<forall>old. entry_content (gm_get t p) = (case restored_node old e of File k s \<Rightarrow> Some (False, s) | Link s \<Rightarrow> Some (True, s) | Dir \<Rightarrow> None)))"
  using assms by (cases "gm_get t p"; cases "the (gm_get t p)") (auto simp: fileAtCommit_def ready_def entry_content_def)

text \<open>A step keeps the other paths ready.\<close>

lemma ready_kept:
  assumes "ready root t fs q" "changes_only fs fs' (root @ p)" "p \<noteq> q"
    and "Lstat fs' (root @ p) \<noteq> Some Dir" "Lstat fs' (root @ p) = None \<or> \<not> strict_prefix p q \<or> gm_get t q = None"
    and "gm_get t q \<noteq> None \<Longrightarrow> \<not> strict_prefix q p"
  shows "ready root t fs' q"
proof -
  have c: "Lstat fs' u = Lstat fs u \<or> (strict_prefix u (root @ p) \<and> Lstat fs u = None \<and> Lstat fs' u = Some Dir)" if "u \<noteq> root @ p" for u
    using assms(2) that by (auto simp: changes_only_def)
  have neq: "root @ q \<noteq> root @ p" using assms(3) by simp
  show ?thesis
  proof (cases "gm_get t q")
    case None
    then show ?thesis using assms(1) c[OF neq] by (auto simp: ready_def)
  next
    case (Some e)
    then have r: "room fs (root @ q)" using assms(1) by (simp add: ready_def)
    have "Lstat fs' (root @ q) \<noteq> Some Dir" using c[OF neq] r assms(6) Some by (auto simp: room_def)
    moreover have "Lstat fs' u = None \<or> Lstat fs' u = Some Dir" if "strict_prefix u (root @ q)" for u
    proof (cases "u = root @ p")
      case True
      then show ?thesis using that assms(5) Some by simp
    next
      case False
      then show ?thesis using c[OF False] r that by (auto simp: room_def open_dirs_def strict_prefix_butlast)
    qed
    ultimately show ?thesis using assms(1) Some r by (auto simp: ready_def room_def open_dirs_def strict_prefix_butlast)
  qed
qed

lemma RestorePath_ready:
  assumes "fs_wf fs" "ready root t fs p"
  shows "\<exists>fs' r. RestorePath g root (Some t) p fs = (fs', Inr r) \<and> fs_wf fs' \<and> changes_only fs fs' (root @ p)
    \<and> content_at fs' (root @ p) = entry_content (gm_get t p) \<and> Lstat fs' (root @ p) \<noteq> Some Dir
    \<and> (gm_get t p = None \<longrightarrow> Lstat fs' (root @ p) = None)"
  using fileAtCommit_ready[OF assms(2), of g]
proof (elim disjE exE conjE)
  assume none: "gm_get t p = None" "fileAtCommit g t p = None"
  then have "Lstat fs (root @ p) \<noteq> None" "Lstat fs (root @ p) \<noteq> Some Dir" using assms(2) by (simp_all add: ready_def)
  from RestoreEntry_deletes[OF assms(1) this] show ?thesis
    using none by (auto simp: RestorePath_def content_at_def entry_content_def)
next
  fix e assume e: "fileAtCommit g t p = Some e" "gm_get t p \<noteq> None"
    "\<forall>old. entry_content (gm_get t p) = (case restored_node old e of File k s \<Rightarrow> Some (False, s) | Link s \<Rightarrow> Some (True, s) | Dir \<Rightarrow> None)"
  then have "list_all name_ok (root @ p)" "room fs (root @ p)" using assms(2) by (simp_all add: ready_def)
  from RestoreEntry_puts[OF assms(1) this, of e] obtain fs' where fs': "RestoreEntry (root @ p) (Some e) fs = (fs', Inr Restored)"
    "fs_wf fs'" "Lstat fs' (root @ p) = Some (restored_node (Lstat fs (root @ p)) e)" "changes_only fs fs' (root @ p)"
    by blast
  have "restored_node old e \<noteq> Dir" for old by (cases "(old, e)" rule: restored_node.cases) simp_all
  moreover have "content_at fs' (root @ p) = entry_content (gm_get t p)"
    using e(3) fs'(3) by (simp add: content_at_def split: node.split)
  ultimately show ?thesis using e(1,2) fs' by (simp add: RestorePath_def)
qed

definition files_apart :: "tree \<Rightarrow> bool" where
  "files_apart t \<longleftrightarrow> (\<forall>p q. gm_get t p \<noteq> None \<longrightarrow> gm_get t q \<noteq> None \<longrightarrow> \<not> strict_prefix p q)"

lemma ready_above:
  assumes "fs_wf fs" "ready root t fs p" "ready root t fs q" "files_apart t" "gm_get t q \<noteq> None"
  shows "\<not> strict_prefix q p"
proof (cases "gm_get t p = None")
  case True
  show ?thesis
  proof
    assume qp: "strict_prefix q p"
    have p: "Lstat fs (root @ p) \<noteq> None" "p \<noteq> []" using assms(2) True by (simp_all add: ready_def)
    have "prefix (root @ q) (butlast (root @ p))" using qp p(2) strict_prefix_butlast[of p q] by (simp add: butlast_append)
    then have "Lstat fs (root @ q) = Some Dir"
      using dirs_path_at[OF dirs_path_prefix[OF fs_wf_at(1)[OF assms(1) p(1)]]] by simp
    then show False using assms(3,5) by (simp add: ready_def room_def)
  qed
qed (use assms(4,5) in \<open>simp add: files_apart_def\<close>)

lemma content_at_dirs:
  "Lstat fs' q = Lstat fs q \<or> Lstat fs q = None \<and> Lstat fs' q = Some Dir \<Longrightarrow> content_at fs' q = content_at fs q"
  by (auto simp: content_at_def)

text \<open>The paths are restored one after the other, and nothing else changes but missing directories.\<close>

lemma revert_paths_ready:
  "fs_wf fs \<Longrightarrow> distinct ps \<Longrightarrow> \<forall>p\<in>set ps. ready root t fs p \<Longrightarrow> files_apart t \<Longrightarrow>
     \<exists>fs' rs. revert_paths g root (Some t) [] ps fs = (fs', rs) \<and> filter failed rs = []
       \<and> (\<forall>p\<in>set ps. content_at fs' (root @ p) = entry_content (gm_get t p))
       \<and> (\<forall>q. q \<notin> (@) root ` set ps \<longrightarrow> Lstat fs' q = Lstat fs q \<or> Lstat fs q = None \<and> Lstat fs' q = Some Dir)"
proof (induction ps arbitrary: fs)
  case Nil
  then show ?case by simp
next
  case (Cons p ps)
  have rp: "ready root t fs p" using Cons.prems(3) by simp
  obtain fs1 r where fs1: "RestorePath g root (Some t) p fs = (fs1, Inr r)" "fs_wf fs1" "changes_only fs fs1 (root @ p)"
    "content_at fs1 (root @ p) = entry_content (gm_get t p)" "Lstat fs1 (root @ p) \<noteq> Some Dir"
    "gm_get t p = None \<longrightarrow> Lstat fs1 (root @ p) = None"
    using RestorePath_ready[OF Cons.prems(1) rp] by metis
  have "ready root t fs1 q" if q: "q \<in> set ps" for q
  proof (rule ready_kept[OF _ fs1(3) _ fs1(5)])
    show rq: "ready root t fs q" using q Cons.prems(3) by simp
    show "p \<noteq> q" using q Cons.prems(2) by auto
    show "Lstat fs1 (root @ p) = None \<or> \<not> strict_prefix p q \<or> gm_get t q = None"
      using fs1(6) Cons.prems(4) by (auto simp: files_apart_def)
    show "gm_get t q \<noteq> None \<Longrightarrow> \<not> strict_prefix q p" by (rule ready_above[OF Cons.prems(1) rp rq Cons.prems(4)])
  qed
  then obtain fs' rs where fs': "revert_paths g root (Some t) [] ps fs1 = (fs', rs)" "filter failed rs = []"
    "\<forall>p\<in>set ps. content_at fs' (root @ p) = entry_content (gm_get t p)"
    "\<forall>q. q \<notin> (@) root ` set ps \<longrightarrow> Lstat fs' q = Lstat fs1 q \<or> Lstat fs1 q = None \<and> Lstat fs' q = Some Dir"
    using Cons.IH[OF fs1(2)] Cons.prems(2,4) by auto
  have "root @ p \<notin> (@) root ` set ps" using Cons.prems(2) by auto
  then have "content_at fs' (root @ p) = content_at fs1 (root @ p)"
    using fs'(4) by (intro content_at_dirs) simp
  moreover have "Lstat fs' q = Lstat fs q \<or> Lstat fs q = None \<and> Lstat fs' q = Some Dir" if "q \<notin> (@) root ` set (p # ps)" for q
  proof -
    have "Lstat fs' q = Lstat fs1 q \<or> Lstat fs1 q = None \<and> Lstat fs' q = Some Dir" using that fs'(4) by simp
    moreover have "Lstat fs1 q = Lstat fs q \<or> Lstat fs q = None \<and> Lstat fs1 q = Some Dir"
      using that fs1(3)[unfolded changes_only_def, rule_format, of q] by auto
    ultimately show ?thesis by auto
  qed
  moreover have "revert_paths g root (Some t) [] (p # ps) fs = (fs', (p, Done r) # rs)"
    using fs1(1) fs'(1) by (simp add: revertOnePath_def)
  moreover have "\<not> failed (p, Done r)" by (simp add: failed_def)
  ultimately show ?case using fs'(2,3) fs1(4) by simp
qed

text \<open>The row of a thread after its run, and the snapshots it names.\<close>

lemma run_row:
  assumes "git_add g fs0 = Inr t0" "git_add g fs1 = Inr t1" "git_diff_names g t0 t1 = Inr ps"
    and "gm_get (ck_ledger m) tid = None"
    and "m1 = snd (BeginRun g now fs0 tid agent task m)" "m2 = snd (EndRun g now' fs1 tid m1)"
  shows "\<exists>r c0 c1. gm_get (ck_ledger m2) tid = Some r \<and> rr_Status r = RunCompleted \<and> \<not> rr_Pushed r
    \<and> rr_PreSnapshot r = Some c0 \<and> rr_PostSnapshot r = Some c1 \<and> rr_TouchedPaths r = ps
    \<and> gm_get (sh_commits (ck_shadow m2)) c0 = Some t0 \<and> gm_get (sh_commits (ck_shadow m2)) c1 = Some t1
    \<and> c0 < sh_next (ck_shadow m2) \<and> c1 < sh_next (ck_shadow m2)"
proof -
  let ?c = "sh_next (ck_shadow m)"
  obtain r where r: "gm_get (ck_ledger m1) tid = Some r" "rr_ThreadID r = tid" "rr_Status r = RunActive" "\<not> rr_Pushed r"
    "rr_PreSnapshot r = Some ?c" and m1: "ck_shadow m1 = after_snapshot (preRef tid) t0 (ck_shadow m)"
    using assms(1,4,5) by (simp add: BeginRun_def Let_def Snapshot_eq new_run_def get_Insert)
  let ?sh = "after_snapshot (postRef tid) t1 (ck_shadow m1)"
  have next1: "sh_next (ck_shadow m1) = Suc ?c" by (simp add: m1 after_snapshot_def)
  have commits: "gm_get (sh_commits ?sh) ?c = Some t0" "gm_get (sh_commits ?sh) (Suc ?c) = Some t1" "sh_next ?sh = Suc (Suc ?c)"
    using next1 by (simp_all add: after_snapshot_def m1)
  let ?f = "finished_run g now' fs1 (Suc ?c) ?sh r"
  have m2: "m2 = m1\<lparr>ck_shadow := ?sh, ck_ledger := ledger_Update ?f (ck_ledger m1)\<rparr>"
    using assms(2,6) r next1 by (simp add: EndRun_def Let_def Snapshot_eq)
  have "rr_TouchedPaths ?f = ps"
    using r(5) commits assms(3) by (simp add: finished_run_def ChangedPaths_def Let_def split: option.split)
  then show ?thesis using r commits by (simp add: m2 get_Update)
qed

definition revert_default :: revert_options where
  "revert_default = \<lparr>ro_All = False, ro_OnlyPaths = [], ro_AllowAfterPush = False\<rparr>"

text \<open>The paths that differ are ready, when nothing stands where the old files were.\<close>

lemma differing_ready:
  assumes "fs_wf fs0" "fs_wf fs1" "snapshot_of ign root fs0 t0" "snapshot_of ign root fs1 t1" "names_differing t0 t1 ps"
    and "\<forall>p\<in>set ps. gm_get t0 p \<noteq> None \<longrightarrow> room fs1 (root @ p)" and "p \<in> set ps"
  shows "ready root t0 fs1 p"
proof (cases "gm_get t0 p")
  case (Some e)
  then show ?thesis using snapshot_file[OF assms(3) Some] fs_wf_at(2)[OF assms(1), of "root @ p"] assms(6,7) by (simp add: ready_def)
next
  case None
  then have "gm_get t1 p \<noteq> None" using assms(5,7) by (simp add: names_differing_def)
  then obtain e where e: "gm_get t1 p = Some e" by auto
  note there = snapshot_file[OF assms(4) e]
  have "\<not> strict_prefix p q" if entry: "(q, e') \<in> set t0" for q e'
  proof
    assume pq: "strict_prefix p q"
    obtain e0 where q: "gm_get t0 q = Some e0" using entry by (cases "gm_get t0 q") (auto simp: map_of_eq_None_iff image_iff)
    have "prefix (root @ p) (butlast (root @ q))"
      using pq snapshot_file[OF assms(3) q] strict_prefix_butlast[of q p] by (simp add: butlast_append)
    then have "Lstat fs1 (root @ q) = None"
      using dirs_path_at[OF dirs_path_prefix[OF fs_wf_at(1)[OF assms(2)]]] there by metis
    then have "gm_get t1 q = None" using assms(4) by (simp add: snapshot_of_def)
    then have "q \<in> set ps" using q assms(5) by (simp add: names_differing_def)
    then have "room fs1 (root @ q)" using q assms(6) by simp
    then show False using \<open>prefix (root @ p) _\<close> there by (auto simp: room_def open_dirs_def)
  qed
  then show ?thesis using None there fs_wf_at(2)[OF assms(2), of "root @ p"] by (auto simp: ready_def list_ex_iff)
qed

lemma undo_ready:
  assumes "fs_wf fs1" "git_add g fs0 = Inr t0" "git_add g fs1 = Inr t1"
    and "git_diff_names g t0 t1 = Inr ps" "git_diff_names g t1 t1 = Inr []" "gm_get (ck_ledger m) tid = None"
    and "distinct ps" "\<forall>p\<in>set ps. ready root t0 fs1 p" "files_apart t0"
  shows "\<exists>res fs2 m3. RevertRun g root revert_default tid
        (fs1, snd (EndRun g now' fs1 tid (snd (BeginRun g now fs0 tid agent task m)))) = ((None, res), fs2, m3)
    \<and> (\<forall>p\<in>set ps. content_at fs2 (root @ p) = entry_content (gm_get t0 p))
    \<and> (\<forall>q. q \<notin> (@) root ` set ps \<longrightarrow> Lstat fs2 q = Lstat fs1 q \<or> Lstat fs1 q = None \<and> Lstat fs2 q = Some Dir)"
proof -
  define m2 where "m2 = snd (EndRun g now' fs1 tid (snd (BeginRun g now fs0 tid agent task m)))"
  obtain r c0 c1 where r: "gm_get (ck_ledger m2) tid = Some r" "rr_Status r = RunCompleted" "\<not> rr_Pushed r"
    "rr_PreSnapshot r = Some c0" "rr_PostSnapshot r = Some c1" "rr_TouchedPaths r = ps"
    and c: "gm_get (sh_commits (ck_shadow m2)) c0 = Some t0" "gm_get (sh_commits (ck_shadow m2)) c1 = Some t1"
      "c0 < sh_next (ck_shadow m2)" "c1 < sh_next (ck_shadow m2)"
    using run_row[OF assms(2,3,4,6) refl m2_def] by blast
  obtain fs2 rs where fs2: "revert_paths g root (Some t0) [] ps fs1 = (fs2, rs)" "filter failed rs = []"
    "\<forall>p\<in>set ps. content_at fs2 (root @ p) = entry_content (gm_get t0 p)"
    "\<forall>q. q \<notin> (@) root ` set ps \<longrightarrow> Lstat fs2 q = Lstat fs1 q \<or> Lstat fs1 q = None \<and> Lstat fs2 q = Some Dir"
    using revert_paths_ready[OF assms(1,7,8,9), of g] by blast
  let ?sh = "after_snapshot [] t1 (ck_shadow m2)"
  have "edited_since g revert_default r fs1 (ck_shadow m2) = (Inr [], ?sh)"
    using r(5) c assms(3,5) by (simp add: edited_since_def Snapshot_eq revert_default_def ChangedPaths_def after_snapshot_def)
  moreover have "gm_get (sh_commits ?sh) c0 = Some t0" using c by (simp add: after_snapshot_def)
  ultimately have "\<exists>res m3. RevertRun g root revert_default tid (fs1, m2) = ((None, res), fs2, m3)"
    using r fs2(1,2) by (cases "ps = []") (simp_all add: RevertRun_def selected_paths_def revert_default_def Let_def)
  then show ?thesis using fs2(3,4) unfolding m2_def by blast
qed


section \<open>What undoing a run can change\<close>

lemma changes_only_refl [simp]: "changes_only fs fs p"
  by (simp add: changes_only_def)

lemma parent_here:
  "walk fs create kernel_links [] (butlast p) = Inr d \<Longrightarrow> link_free fs (butlast p) \<Longrightarrow> list_all name_ok p \<Longrightarrow> p \<noteq> [] \<Longrightarrow>
     d @ [last p] = p"
  using walk_link_free[of fs create kernel_links "[]" "butlast p" d] names_butlast[of p] by simp

lemma Remove_here: "Remove fs p = Inr fs' \<Longrightarrow> link_free fs (butlast p) \<Longrightarrow> list_all name_ok p \<Longrightarrow> p \<noteq> [] \<and> fs' = gm_del p fs"
  using parent_here[of fs False p] by (auto simp: Remove_def split: if_splits sum.splits option.splits)

lemma Symlink_here: "Symlink fs t p = Inr fs' \<Longrightarrow> link_free fs (butlast p) \<Longrightarrow> list_all name_ok p \<Longrightarrow> p \<noteq> [] \<and> fs' = gm_put p (Link t) fs"
  using parent_here[of fs False p] by (auto simp: Symlink_def split: if_splits sum.splits)

lemma os_Lstat_here: "os_Lstat fs p = Some n \<Longrightarrow> link_free fs (butlast p) \<Longrightarrow> list_all name_ok p \<Longrightarrow> Lstat fs p = Some n"
  using parent_here[of fs False p] by (auto simp: os_Lstat_def split: if_splits sum.splits)

lemma link_free_last: "link_free fs p \<longleftrightarrow> p = [] \<or> link_free fs (butlast p) \<and> \<not> is_link (Lstat fs p)"
  by (cases p rule: rev_cases) (auto simp: link_free_def)

text \<open>A file is not written through a link: a link that is seen is removed first, and one that is not seen has no parent.\<close>

lemma removed_first_here:
  assumes "removed_first fs p m = Inr fs'" "link_free fs (butlast p)" "list_all name_ok p" "p \<noteq> []" "Lstat fs (butlast p) = Some Dir" "fs_wf fs"
  shows "(fs' = fs \<or> fs' = gm_del p fs) \<and> \<not> is_link (Lstat fs' p)"
proof -
  have "dirs_path fs (butlast p)" using fs_wf_at(1)[OF assms(6), of "butlast p"] assms(5)
    by (cases "butlast p" rule: rev_cases) simp_all
  then have os: "os_Lstat fs p = Lstat fs p" by (rule os_Lstat_real[OF _ assms(3)])
  show ?thesis
  proof (cases "Lstat fs p")
    case None
    then show ?thesis using assms(1) os by (simp add: removed_first_def)
  next
    case (Some n)
    show ?thesis
    proof (cases "is_link (Some n) \<or> m = SymbolicLink")
      case False
      then show ?thesis using assms(1) os Some by (simp add: removed_first_def)
    next
      case True
      have "Remove fs p \<noteq> Inl ENOENT"
        using real_parent[OF \<open>dirs_path fs (butlast p)\<close> assms(3,4)] assms(4) Some by (simp add: Remove_def)
      then have "Remove fs p = Inr fs'"
        using assms(1) os Some True by (simp add: removed_first_def split: sum.splits os_error.splits)
      then show ?thesis using Remove_here[OF _ assms(2,3)] by (simp add: Lstat_del)
    qed
  qed
qed

lemma fs_wf_Remove: "Remove fs p = Inr fs' \<Longrightarrow> fs_wf fs \<Longrightarrow> fs_wf fs'"
proof -
  assume rm: "Remove fs p = Inr fs'" and wf: "fs_wf fs"
  then obtain d n where d: "fs' = gm_del d fs" "d \<noteq> []" "Lstat fs d = Some n"
    "n = Dir \<Longrightarrow> \<not> list_ex (\<lambda>(q, m). q \<noteq> [] \<and> butlast q = d) fs"
    by (auto simp: Remove_def split: if_splits sum.splits option.splits)
  have "butlast q \<noteq> d" if "(q, m) \<in> set fs" for q m
  proof (cases "n = Dir")
    case False
    then show ?thesis using that wf d(3) by (force simp: fs_wf_def list_all_iff)
  next
    case True
    then show ?thesis using that wf d(4) by (force simp: fs_wf_def list_all_iff list_ex_iff)
  qed
  moreover have "(q, m) \<in> set fs" if "(q, m) \<in> set fs'" for q m
    using that by (auto simp: d(1) AList.delete_eq)
  ultimately show ?thesis using wf d(2) by (fastforce simp: fs_wf_def list_all_iff Lstat_del d(1))
qed

lemma fs_wf_Symlink: "Symlink fs t p = Inr fs' \<Longrightarrow> fs_wf fs \<Longrightarrow> list_all name_ok p \<Longrightarrow> fs_wf fs'"
proof -
  assume sl: "Symlink fs t p = Inr fs'" and wf: "fs_wf fs" "list_all name_ok p"
  from sl obtain d where d: "walk fs False kernel_links [] (butlast p) = Inr d" "Lstat fs d = Some Dir"
    "fs' = gm_put (d @ [last p]) (Link t) fs" "p \<noteq> []" "Lstat fs (d @ [last p]) = None"
    by (auto simp: Symlink_def split: if_splits sum.splits)
  have "list_all name_ok d" using walk_names[OF d(1)] wf(2) by (simp add: names_no_sep names_butlast)
  moreover have "name_ok (last p)" using wf(2) d(4) by (simp add: list_all_iff)
  ultimately show ?thesis unfolding d(3) by (intro fs_wf_put wf) (simp_all add: d)
qed

lemma MkdirAll_there:
  assumes "MkdirAll fs p = Inr fs'" "link_free fs p" "list_all name_ok p"
  shows "Lstat fs' p = Some Dir"
proof (cases "Stat fs p")
  case (Inr n)
  then have "n = Dir" "fs' = fs" using assms(1) by (auto simp: MkdirAll.simps[of fs p] split: if_splits)
  then show ?thesis using Inr walk_link_free[of fs False kernel_links "[]" p] assms(2,3)
    by (auto simp: Stat_def split: sum.splits option.splits)
next
  case (Inl e)
  then have p: "p \<noteq> []" by (auto simp: Stat_def)
  obtain fs1 where fs1: "MkdirAll fs (butlast p) = Inr fs1" "Mkdir fs1 p = Inr fs' \<or> fs' = fs1 \<and> os_Lstat fs1 p = Some Dir"
    using assms(1) Inl p by (auto simp: MkdirAll.simps[of fs p] split: sum.splits if_splits)
  have lf: "link_free fs (butlast p)" using assms(2) link_free_last[of fs p] p by simp
  have "link_free fs1 (butlast p)" by (rule MkdirAll_link_free[OF fs1(1) lf names_butlast[OF assms(3)] lf])
  note lf1 = this
  show ?thesis using fs1(2)
  proof (elim disjE conjE)
    assume "Mkdir fs1 p = Inr fs'"
    then obtain d where d: "walk fs1 False kernel_links [] (butlast p) = Inr d" "fs' = gm_put (d @ [last p]) Dir fs1"
      by (auto simp: Mkdir_def split: if_splits sum.splits)
    then show ?thesis using parent_here[OF d(1) lf1 assms(3) p] p by (simp add: Lstat_put)
  next
    assume "fs' = fs1" "os_Lstat fs1 p = Some Dir"
    then show ?thesis using os_Lstat_here[OF _ lf1 assms(3)] by simp
  qed
qed

lemma RestoreEntry_changes:
  assumes "RestoreEntry p e fs = (fs', x)" "fs_wf fs" "link_free fs (butlast p)" "list_all name_ok p" "p \<noteq> []"
  shows "changes_only fs fs' p \<and> fs_wf fs' \<and> (is_link (Lstat fs' p) \<longrightarrow> is_link (Lstat fs p) \<or> (\<exists>s. e = Some (s, SymbolicLink)))"
proof (cases e)
  case None
  then show ?thesis using assms Remove_here[OF _ assms(3,4)] fs_wf_Remove[OF _ assms(2)]
    by (auto simp: RestoreEntry_def changes_only_def Lstat_del split: sum.splits)
next
  case (Some c)
  obtain s m where c: "c = (s, m)" by (cases c)
  note nb = names_butlast[OF assms(4)]
  show ?thesis
  proof (cases "MkdirAll fs (butlast p)")
    case (Inl er)
    then show ?thesis using assms(1,2) Some by (simp add: RestoreEntry_def c)
  next
    case (Inr fs1)
    have wf1: "fs_wf fs1" by (rule fs_wf_MkdirAll[OF Inr assms(2) nb])
    have ch: "changes_only fs fs1 p" "Lstat fs1 p = Lstat fs p"
      using MkdirAll_changes[OF Inr assms(3) nb] strict_prefix_butlast[OF assms(5)] by (auto simp: changes_only_def)
    have lf1: "link_free fs1 (butlast p)" by (rule MkdirAll_link_free[OF Inr assms(3) nb assms(3)])
    note there = MkdirAll_there[OF Inr assms(3) nb]
    show ?thesis
    proof (cases "removed_first fs1 p m")
      case (Inl er)
      then show ?thesis using assms(1) Some Inr wf1 ch by (simp add: RestoreEntry_def c)
    next
      case rm: (Inr fs2)
      note r = removed_first_here[OF rm lf1 assms(4,5) there wf1]
      have at2: "q \<noteq> p \<Longrightarrow> Lstat fs2 q = Lstat fs1 q" for q using r assms(5) by (auto simp: Lstat_del)
      have wf2: "fs_wf fs2"
        using rm wf1 fs_wf_Remove[OF _ wf1] by (auto simp: removed_first_def split: option.splits if_splits sum.splits os_error.splits)
      have "prefix q (butlast p) \<Longrightarrow> q \<noteq> p" for q using strict_prefix_butlast[OF assms(5)] by auto
      then have lf2: "link_free fs2 (butlast p)" using lf1 at2 by (auto simp: link_free_def list_all_iff)
      then have lf2p: "link_free fs2 p" using r link_free_last[of fs2 p] by simp
      have put: "changes_only fs fs3 p \<and> fs_wf fs3 \<and> (is_link (Lstat fs3 p) \<longrightarrow> m = SymbolicLink)"
        if w: "(if m = SymbolicLink then Symlink fs2 s p else WriteFile fs2 p s (if m = Executable then 493 else 420)) = Inr fs3" for fs3
      proof -
        obtain n where n: "fs3 = gm_put p n fs2" "fs_wf fs3" "is_link (Some n) \<longrightarrow> m = SymbolicLink"
        proof (cases "m = SymbolicLink")
          case True
          then have sl: "Symlink fs2 s p = Inr fs3" using w by simp
          show ?thesis using that[of "Link s"] Symlink_here[OF sl lf2 assms(4)] fs_wf_Symlink[OF sl wf2 assms(4)] True by simp
        next
          case False
          then obtain k where wr: "WriteFile fs2 p s k = Inr fs3" using w by auto
          obtain h where "fs3 = gm_put p (File h s) fs2" using WriteFile_changes[OF wr lf2p assms(4)] by blast
          then show ?thesis using that fs_wf_WriteFile[OF wr wf2 assms(4)] by simp
        qed
        have "Lstat fs3 q = Lstat fs1 q" if "q \<noteq> p" for q using that n(1) at2 assms(5) by (simp add: Lstat_put)
        then have "changes_only fs fs3 p" using ch(1) by (auto simp: changes_only_def)
        moreover have "Lstat fs3 p = Some n" using n(1) assms(5) by (simp add: Lstat_put)
        ultimately show ?thesis using n by simp
      qed
      have "changes_only fs fs2 p" using ch(1) at2 by (auto simp: changes_only_def)
      show ?thesis
      proof (cases "if m = SymbolicLink then Symlink fs2 s p else WriteFile fs2 p s (if m = Executable then 493 else 420)")
        case (Inl er)
        then have "fs' = fs2" using assms(1) Some \<open>MkdirAll fs _ = _\<close> rm by (simp add: RestoreEntry_def c)
        then show ?thesis using \<open>changes_only fs fs2 p\<close> wf2 r by simp
      next
        case (Inr fs3)
        then have "fs' = fs3" using assms(1) Some \<open>MkdirAll fs _ = _\<close> rm by (simp add: RestoreEntry_def c)
        then show ?thesis using put[OF Inr] Some c by auto
      qed
    qed
  qed
qed

text \<open>No link is above a path: neither in the files nor in the snapshot it is restored from.\<close>

definition off_links :: "path \<Rightarrow> tree \<Rightarrow> fs \<Rightarrow> path \<Rightarrow> bool" where
  "off_links root t fs p \<longleftrightarrow> p \<noteq> [] \<and> list_all name_ok (root @ p) \<and> link_free fs (butlast (root @ p))
     \<and> (\<forall>q s. strict_prefix q p \<longrightarrow> gm_get t q \<noteq> Some (SymLink s))"

lemma fileAtCommit_link: "fileAtCommit g t p = Some (s, SymbolicLink) \<Longrightarrow> gm_get t p = Some (SymLink s)"
  by (auto simp: fileAtCommit_def split: option.splits tree_entry.splits if_splits)

lemma RestorePath_changes:
  assumes "RestorePath g root (Some t) p fs = (fs', x)" "fs_wf fs" "off_links root t fs p"
  shows "changes_only fs fs' (root @ p) \<and> fs_wf fs' \<and> (off_links root t fs q \<longrightarrow> off_links root t fs' q)"
proof -
  obtain y where y: "RestoreEntry (root @ p) (fileAtCommit g t p) fs = (fs', y)"
    using assms(1) by (auto simp: RestorePath_def split: prod.splits sum.splits)
  have ch: "changes_only fs fs' (root @ p)" "fs_wf fs'"
    "is_link (Lstat fs' (root @ p)) \<longrightarrow> is_link (Lstat fs (root @ p)) \<or> (\<exists>s. fileAtCommit g t p = Some (s, SymbolicLink))"
    using RestoreEntry_changes[OF y assms(2)] assms(3) by (simp_all add: off_links_def)
  have "off_links root t fs' q" if q: "off_links root t fs q"
  proof -
    have free: "\<not> is_link (Lstat fs' u)" if u: "prefix u (butlast (root @ q))" for u
    proof (cases "u = root @ p")
      case True
      have pq: "strict_prefix p q" using u True q strict_prefix_butlast[of "root @ q" u] by (simp add: off_links_def)
      have "\<not> is_link (Lstat fs u)" using u q by (simp add: off_links_def link_free_def list_all_iff)
      moreover have "fileAtCommit g t p \<noteq> Some (s, SymbolicLink)" for s
        using pq q fileAtCommit_link[of g t p s] by (auto simp: off_links_def)
      ultimately show ?thesis using ch(3) True by blast
    next
      case False
      moreover have "\<not> is_link (Lstat fs u)" using u q by (simp add: off_links_def link_free_def list_all_iff)
      ultimately show ?thesis using ch(1)[unfolded changes_only_def, rule_format, of u] by auto
    qed
    then show ?thesis using q by (simp add: off_links_def link_free_def list_all_iff)
  qed
  then show ?thesis using ch by blast
qed

definition changed_by :: "path \<Rightarrow> path list \<Rightarrow> fs \<Rightarrow> fs \<Rightarrow> path \<Rightarrow> bool" where
  "changed_by root ps fs fs' q \<longleftrightarrow>
     (\<exists>p\<in>set ps. q = root @ p \<or> (strict_prefix q (root @ p) \<and> Lstat fs q = None \<and> Lstat fs' q = Some Dir))"

lemma revert_paths_changes:
  "revert_paths g root (Some t) es ps fs = (fs', rs) \<Longrightarrow> fs_wf fs \<Longrightarrow> \<forall>p\<in>set ps. off_links root t fs p \<Longrightarrow>
     Lstat fs' q = Lstat fs q \<or> changed_by root (filter (\<lambda>p. p \<notin> set es) ps) fs fs' q"
proof (induction ps arbitrary: fs rs)
  case Nil
  then show ?case by simp
next
  case (Cons p ps)
  obtain fs1 x rs' where step: "revertOnePath g root (Some t) (p \<in> set es) p fs = (fs1, x)"
    "revert_paths g root (Some t) es ps fs1 = (fs', rs')"
    using Cons.prems(1) by (auto split: prod.splits)
  show ?case
  proof (cases "p \<in> set es")
    case True
    then have "fs1 = fs" using step(1) by (simp add: revertOnePath_def)
    then show ?thesis using Cons.IH[of fs rs'] step(2) Cons.prems(2,3) True by simp
  next
    case False
    then obtain y where y: "RestorePath g root (Some t) p fs = (fs1, y)"
      using step(1) by (auto simp: revertOnePath_def split: prod.splits sum.splits)
    have p: "off_links root t fs p" using Cons.prems(3) by simp
    note ch = RestorePath_changes[OF y Cons.prems(2) p]
    have "Lstat fs' q = Lstat fs1 q \<or> changed_by root (filter (\<lambda>p. p \<notin> set es) ps) fs1 fs' q"
      using Cons.IH[OF step(2)] ch Cons.prems(3) by simp
    moreover have "q = root @ p \<or> Lstat fs1 q = Lstat fs q \<or> (strict_prefix q (root @ p) \<and> Lstat fs q = None \<and> Lstat fs1 q = Some Dir)"
      using ch by (simp add: changes_only_def)
    ultimately show ?thesis using False by (auto simp: changed_by_def)
  qed
qed


lemma fold_pushed:
  "gm_get l tid = Some r \<Longrightarrow> rr_Status r = RunCompleted \<Longrightarrow> rr_Pushed r \<or> tid \<in> rr_ThreadID ` set rs \<Longrightarrow>
     \<forall>q\<in>set rs. rr_Status q = RunCompleted \<Longrightarrow>
     \<exists>r'. gm_get (fold (\<lambda>r. ledger_Update (r\<lparr>rr_Pushed := True, rr_PRURL := url\<rparr>)) rs l) tid = Some r'
       \<and> rr_Status r' = RunCompleted \<and> rr_Pushed r' \<and> rr_PreSnapshot r' = rr_PreSnapshot r"
proof (induction rs arbitrary: l r)
  case Nil
  then show ?case by simp
next
  case (Cons q rs)
  let ?l = "ledger_Update (q\<lparr>rr_Pushed := True, rr_PRURL := url\<rparr>) l"
  obtain r1 where r1: "gm_get ?l tid = Some r1" "rr_Status r1 = RunCompleted" "rr_PreSnapshot r1 = rr_PreSnapshot r"
    "rr_Pushed r1 \<or> tid \<in> rr_ThreadID ` set rs"
    using Cons.prems by (cases "rr_ThreadID q = tid") (auto simp: get_Update)
  show ?case using Cons.IH[OF r1(1,2,4)] Cons.prems(4) r1(3) by simp
qed

lemma ledger_List_all: "int (length l) \<le> n \<Longrightarrow> 0 < n \<Longrightarrow> set (ledger_List n l) = snd ` set l"
  by (simp add: ledger_List_def)

text \<open>
  A push protects what it contains: once every finished run is marked as pushed, undoing any run that
  was finished is refused unless it is asked for explicitly, and then neither the files nor the ledger nor the
  repository change.
\<close>

lemma pushed_run_refused:
  assumes "ck_ok m" "length (ck_ledger m) \<le> 2 ^ 30" "gm_get (ck_ledger m) tid = Some r" "rr_Status r = RunCompleted" "\<not> ro_AllowAfterPush opts"
  shows "\<exists>err. RevertRun g root opts tid (fs, snd (MarkAllUnsyncedPushed url m)) =
    ((Some err, no_result), fs, snd (MarkAllUnsyncedPushed url m))"
proof -
  let ?rs = "filter unsynced (ledger_List (2 ^ 30) (ck_ledger m))"
  have "rr_ThreadID r = tid" using rows_okD[of "ck_shadow m" "ck_ledger m" tid r] assms(1,3) by (simp add: ck_ok_def)
  moreover have "r \<in> set (ledger_List (2 ^ 30) (ck_ledger m))"
    using gm_get_SomeD[OF assms(3)] ledger_List_all[of "ck_ledger m" "2 ^ 30"] assms(2) by force
  ultimately have "rr_Pushed r \<or> tid \<in> rr_ThreadID ` set ?rs" using assms(4) by (auto simp: unsynced_def)
  from fold_pushed[OF assms(3,4) this, of url] obtain r' where
    "gm_get (ck_ledger (snd (MarkAllUnsyncedPushed url m))) tid = Some r'" "rr_Status r' = RunCompleted" "rr_Pushed r'"
    by (auto simp: MarkAllUnsyncedPushed_def Let_def unsynced_def)
  then show ?thesis using assms(5) by (simp add: RevertRun_def split: option.split)
qed

section \<open>Renamed files\<close>

text \<open>
  A file that a run renames is lost when the run is undone. The names of changed paths are asked from git without
  switching off the detection of renames, so that of a renamed file only the new name is reported: the
  undo deletes it, reports no error, and does not bring back the old one; the content is in neither place.
\<close>

lemma renamed_file_lost:
  assumes "fs_wf fs0" "fs_wf fs1"
    and "git_add g fs0 = Inr t0" "snapshot_of ign root fs0 t0" "git_add g fs1 = Inr t1" "snapshot_of ign root fs1 t1"
    and "gm_get t0 old = Some e" "gm_get t0 new = None" "Lstat fs1 (root @ old) = None" "gm_get t1 new = Some e"
    and "\<forall>p. p \<noteq> old \<and> p \<noteq> new \<longrightarrow> gm_get t1 p = gm_get t0 p" "\<not> strict_prefix new old"
    and "git_diff_names g t0 t1 = Inr [new]" "git_diff_names g t1 t1 = Inr []"
    and "gm_get (ck_ledger m) tid = None"
  shows "\<exists>res fs2 m3. RevertRun g root revert_default tid
        (fs1, snd (EndRun g now' fs1 tid (snd (BeginRun g now fs0 tid agent task m)))) = ((None, res), fs2, m3)
    \<and> content_at fs0 (root @ old) \<noteq> None \<and> content_at fs2 (root @ old) = None \<and> content_at fs2 (root @ new) = None"
proof -
  have apart: "files_apart t0" using snapshot_antichain[OF assms(1,4)] by (auto simp: files_apart_def)
  note there = snapshot_file[OF assms(6,10)] and before = snapshot_file[OF assms(4,7)]
  have "\<not> strict_prefix new q" if entry: "(q, e') \<in> set t0" for q e'
  proof
    assume nq: "strict_prefix new q"
    obtain e0 where q: "gm_get t0 q = Some e0" using entry by (cases "gm_get t0 q") (auto simp: map_of_eq_None_iff image_iff)
    then have "gm_get t1 q = Some e0" using assms(8,11,12) nq by auto
    then show False using snapshot_antichain[OF assms(2,6,10)] nq by blast
  qed
  then have rdy: "\<forall>p\<in>set [new]. ready root t0 fs1 p"
    using assms(8) there fs_wf_at(2)[OF assms(2), of "root @ new"] by (auto simp: ready_def list_ex_iff)
  have one: "distinct [new]" by simp
  obtain res fs2 m3 where run: "RevertRun g root revert_default tid
        (fs1, snd (EndRun g now' fs1 tid (snd (BeginRun g now fs0 tid agent task m)))) = ((None, res), fs2, m3)"
    and fs2: "\<forall>p\<in>set [new]. content_at fs2 (root @ p) = entry_content (gm_get t0 p)"
      "\<forall>q. q \<notin> (@) root ` set [new] \<longrightarrow> Lstat fs2 q = Lstat fs1 q \<or> Lstat fs1 q = None \<and> Lstat fs2 q = Some Dir"
    using undo_ready[OF assms(2,3,5,13,14,15) one rdy apart] by blast
  have "old \<noteq> new" using assms(7,8) by auto
  then have "content_at fs2 (root @ old) = content_at fs1 (root @ old)" using fs2(2) by (intro content_at_dirs) simp
  then have "content_at fs2 (root @ old) = None" using assms(9) by (simp add: content_at_def)
  moreover have "content_at fs2 (root @ new) = None" using fs2(1) assms(8) by (simp add: entry_content_def)
  moreover have "content_at fs0 (root @ old) \<noteq> None" using before by (auto simp: content_at_def split: node.split)
  ultimately show ?thesis using run by blast
qed

section \<open>Lock keys\<close>

text \<open>
  A restore and the file tools lock the same key for a file: for a path that exists, or whose directory exists, the key
  of a restore is the path that the sandbox resolves for the same name, so a restore and a write exclude each other.
\<close>

lemma lock_keys_agree:
  assumes "ResolveSandboxed fs root (rel_string p) = Inr r" "p \<noteq> []" "list_all name_ok p"
    and "is_ok (EvalSymlinks fs (root @ p)) \<or> is_ok (EvalSymlinks fs (butlast (root @ p)))"
  shows "canonicalLockPath fs root p = r"
proof -
  have split: "split_on (CHR ''/'') (rel_string p) = p"
  proof -
    have "path_string p = CHR ''/'' # rel_string p" using assms(2) by (cases p) (simp_all add: rel_string_def path_string_def)
    then show ?thesis using split_path_string[OF assms(3,2)] by simp
  qed
  have "path_join root (rel_string p) = root @ p" by (simp add: path_join_def split clean_onto_names assms(3))
  then have r: "r = resolve_joined fs (root @ p)" using assms(1) by (auto simp: ResolveSandboxed_def Let_def split: if_splits)
  show ?thesis using assms(4) unfolding r
    by (auto simp: resolve_joined_def canonicalLockPath_def is_ok_def Let_def split: sum.splits)
qed

section \<open>Two entries that are not restored\<close>

text \<open>A file that is still there keeps the mode it has now, so an executable bit that the run took is not given back.\<close>

lemma executable_bit_not_restored:
  "RestoreEntry [''w'', ''a''] (Some (''x'', Executable)) [([''w''], Dir), ([''w'', ''a''], File 420 ''y'')] =
     ([([''w''], Dir), ([''w'', ''a''], File 420 ''x'')], Inr Restored)"
  by code_simp

text \<open>A file that the run put where a directory was is overwritten with the listing git shows for the directory.\<close>

lemma directory_becomes_listing:
  "git_show_tree g [([''d'', ''x''], Blob False ''1'')] [''d''] = ''tree d'' \<Longrightarrow>
     RestorePath g [''w''] (Some [([''d'', ''x''], Blob False ''1'')]) [''d''] [([''w''], Dir), ([''w'', ''d''], File 420 ''y'')] =
       ([([''w''], Dir), ([''w'', ''d''], File 420 ''tree d'')], Inr Restored)"
proof -
  assume g: "git_show_tree g [([''d'', ''x''], Blob False ''1'')] [''d''] = ''tree d''"
  have "RestoreEntry [''w'', ''d''] (Some (''tree d'', Subtree)) [([''w''], Dir), ([''w'', ''d''], File 420 ''y'')] =
      ([([''w''], Dir), ([''w'', ''d''], File 420 ''tree d'')], Inr Restored)" by code_simp
  then show ?thesis using g by (simp add: RestorePath_def fileAtCommit_def strict_prefix_def)
qed

section \<open>A small run\<close>

text \<open>A work tree before a run, after one that edits a file and adds another, and after one that renames the file.\<close>

definition demo_before :: fs where
  "demo_before = [([''w''], Dir), ([''w'', ''a''], File 420 ''x'')]"

definition demo_after :: fs where
  "demo_after = [([''w''], Dir), ([''w'', ''a''], File 420 ''y''), ([''w'', ''n''], File 493 ''z'')]"

definition demo_renamed :: fs where
  "demo_renamed = [([''w''], Dir), ([''w'', ''n''], File 420 ''x'')]"

definition demo_tree :: "fs \<Rightarrow> tree" where
  "demo_tree fs =
     (if fs = demo_before then [([''a''], Blob False ''x'')]
      else if fs = demo_after then [([''a''], Blob False ''y''), ([''n''], Blob True ''z'')] else [([''n''], Blob False ''x'')])"

definition demo_git :: git where
  "demo_git =
     \<lparr>git_add = (\<lambda>fs. Inr (demo_tree fs)),
      git_diff_names = (\<lambda>t t'. Inr (if t = t' then [] else if t' = demo_tree demo_after then [[''a''], [''n'']] else [[''n'']])),
      git_diff_text = (\<lambda>t t'. Inr []), git_ignored = (\<lambda>fs. None), git_show_tree = (\<lambda>t p. [])\<rparr>"

lemma demo_trees:
  "demo_tree demo_before = [([''a''], Blob False ''x'')]"
  "demo_tree demo_after = [([''a''], Blob False ''y''), ([''n''], Blob True ''z'')]"
  "demo_tree demo_renamed = [([''n''], Blob False ''x'')]"
  by (simp_all add: demo_tree_def demo_before_def demo_after_def demo_renamed_def)

lemma demo_wf: "fs_wf demo_before" "fs_wf demo_after" "fs_wf demo_renamed"
  by (simp_all add: fs_wf_def gm_wf_def demo_before_def demo_after_def demo_renamed_def Lstat_def name_ok_def)

lemma demo_snapshots:
  "snapshot_of (\<lambda>p. False) [''w''] demo_before (demo_tree demo_before)"
  "snapshot_of (\<lambda>p. False) [''w''] demo_after (demo_tree demo_after)"
  "snapshot_of (\<lambda>p. False) [''w''] demo_renamed (demo_tree demo_renamed)"
  unfolding demo_trees
  by (simp_all add: snapshot_of_def demo_before_def demo_after_def demo_renamed_def Lstat_def entry_of_def)

lemma demo_room: "room demo_after [''w'', ''a'']"
  by (auto simp: room_def open_dirs_def demo_after_def Lstat_def prefix_Cons)


definition demo_ck :: ck where
  "demo_ck = fold ck_step [(demo_before, CkBegin demo_git 1 ''t'' ''Ann'' ''fix''), (demo_after, CkEnd demo_git 2 ''t'')] NewManager"

lemma demo_row:
  "\<exists>r c0 c1. gm_get (ck_ledger demo_ck) ''t'' = Some r \<and> rr_Status r = RunCompleted \<and> \<not> rr_Pushed r
    \<and> rr_PreSnapshot r = Some c0 \<and> rr_PostSnapshot r = Some c1 \<and> rr_TouchedPaths r = [[''a''], [''n'']]
    \<and> gm_get (sh_commits (ck_shadow demo_ck)) c0 = Some (demo_tree demo_before)
    \<and> gm_get (sh_commits (ck_shadow demo_ck)) c1 = Some (demo_tree demo_after)
    \<and> c0 < sh_next (ck_shadow demo_ck) \<and> c1 < sh_next (ck_shadow demo_ck)"
proof (rule run_row[of demo_git demo_before _ demo_after _ _ NewManager "''t''"])
  show "demo_ck = snd (EndRun demo_git 2 demo_after ''t'' (snd (BeginRun demo_git 1 demo_before ''t'' ''Ann'' ''fix'' NewManager)))"
    by (simp add: demo_ck_def ck_step_def)
qed (simp_all add: demo_git_def demo_trees NewManager_def)

lemma demo_edited:
  "rr_PostSnapshot r = Some c1 \<Longrightarrow> gm_get (sh_commits (ck_shadow demo_ck)) c1 = Some (demo_tree demo_after) \<Longrightarrow>
     c1 < sh_next (ck_shadow demo_ck) \<Longrightarrow>
     edited_since demo_git revert_default r demo_after (ck_shadow demo_ck) = (Inr [], after_snapshot [] (demo_tree demo_after) (ck_shadow demo_ck))"
  by (simp add: edited_since_def revert_default_def Snapshot_eq demo_git_def ChangedPaths_def after_snapshot_def)


end
