(* ===== verification/McpManager.thy ===== *)
theory McpManager
  imports Interfaces ToolRegistry
begin

text \<open>
  The servers of the model context protocol (\<^verbatim>\<open>internal/mcp/manager.go\<close>): starting, the watch loop with its
  probes and restarts, the registration of their tools in the shared registry, and the circuit breaker in
  front of every call. What a server answers is an argument: the factory gives a client and the names
  of its tools, or fails. The watch goroutines, calls and the end of the program interleave as events.
\<close>

section \<open>Servers\<close>

record mcp_config =
  mc_Name :: string
  mc_Command :: string
  mc_Transport :: string

datatype mcp_circuit = McpClosed | McpOpen | McpHalfOpen

text \<open>Where the watch loop of a server stands: before a probe, in the pause before a restart, or at its end.\<close>

datatype watch_pc = WatchProbe | WatchPause | WatchEnded

record mcp_server =
  ms_cfg :: mcp_config
  ms_client :: nat
  ms_cancelled :: bool
  ms_cbState :: mcp_circuit
  ms_cbFailures :: nat
  ms_cbOpenAt :: gotime
  ms_probedWithListTools :: bool
  ms_registeredToolNames :: "string list"
  ms_pc :: watch_pc
  ms_backoff :: int

record mcp_manager =
  mm_configs :: "mcp_config list"
  mm_initBackoff :: int
  mm_maxBackoff :: int
  mm_servers :: "mcp_server list"
  mm_stopped :: bool

definition cbFailureThreshold :: nat where
  "cbFailureThreshold = 3"

definition cbOpenDuration :: int where
  "cbOpenDuration = 10000000000"

definition NewServerManager :: "mcp_config list \<Rightarrow> mcp_manager" where
  "NewServerManager cfgs =
     \<lparr>mm_configs = cfgs, mm_initBackoff = 1000000000, mm_maxBackoff = 30000000000, mm_servers = [], mm_stopped = False\<rparr>"

section \<open>The circuit breaker\<close>

definition mcp_ShouldAllow :: "gotime \<Rightarrow> mcp_server \<Rightarrow> bool \<times> mcp_server" where
  "mcp_ShouldAllow now ms =
     (case ms_cbState ms of
        McpClosed \<Rightarrow> (True, ms)
      | McpOpen \<Rightarrow> if now - ms_cbOpenAt ms \<ge> cbOpenDuration then (True, ms\<lparr>ms_cbState := McpHalfOpen\<rparr>) else (False, ms)
      | McpHalfOpen \<Rightarrow> (True, ms))"

definition mcp_RecordSuccess :: "mcp_server \<Rightarrow> mcp_server" where
  "mcp_RecordSuccess ms = ms\<lparr>ms_cbState := McpClosed, ms_cbFailures := 0\<rparr>"

definition mcp_RecordFailure :: "gotime \<Rightarrow> mcp_server \<Rightarrow> mcp_server" where
  "mcp_RecordFailure now ms =
     (if ms_cbState ms = McpHalfOpen then ms\<lparr>ms_cbState := McpOpen, ms_cbOpenAt := now\<rparr>
      else
        let ms = ms\<lparr>ms_cbFailures := ms_cbFailures ms + 1\<rparr>
        in if ms_cbFailures ms \<ge> cbFailureThreshold then ms\<lparr>ms_cbState := McpOpen, ms_cbOpenAt := now\<rparr> else ms)"

definition mcp_CircuitState :: "string \<Rightarrow> mcp_manager \<Rightarrow> string" where
  "mcp_CircuitState name m =
     (case find (\<lambda>ms. mc_Name (ms_cfg ms) = name) (if mm_stopped m then [] else mm_servers m) of
        None \<Rightarrow> ''closed''
      | Some ms \<Rightarrow> (case ms_cbState ms of McpOpen \<Rightarrow> ''open'' | McpHalfOpen \<Rightarrow> ''half-open'' | McpClosed \<Rightarrow> ''closed''))"

section \<open>Tools of a server\<close>

definition mcp_adapter :: "string \<Rightarrow> tool" where
  "mcp_adapter name = \<lparr>t_Name = name, t_Permission = PermWrite, t_SchemaName = name\<rparr>"

text \<open>A tool whose name is taken, or that has no valid schema, is skipped.\<close>

fun register_tools :: "string list \<Rightarrow> registry \<Rightarrow> string list \<times> registry" where
  "register_tools [] reg = ([], reg)"
| "register_tools (n # ns) reg =
     (case RegisterStrict (mcp_adapter n) reg of
        Inl e \<Rightarrow> register_tools ns reg
      | Inr reg \<Rightarrow> (let (names, reg) = register_tools ns reg in (n # names, reg)))"

definition serve_tools :: "string \<Rightarrow> string list \<Rightarrow> registry \<Rightarrow> string list \<times> registry" where
  "serve_tools provider ns reg = (let (names, reg) = register_tools ns reg in (names, TagTools names provider reg))"

definition reservedProviderTags :: "string list" where
  "reservedProviderTags = [''builtin'', ''muninndb'', ''github_cli'', ''gitlab_cli'', ''bitbucket'']"

section \<open>Starting\<close>

type_synonym mcp_factory = "mcp_config \<Rightarrow> (nat \<times> string list) option"

definition start_server :: "mcp_factory \<Rightarrow> mcp_config \<Rightarrow> mcp_manager \<times> registry \<Rightarrow> mcp_manager \<times> registry" where
  "start_server factory cfg st =
     (let (m, reg) = st
      in if trim_space (mc_Name cfg) = [] \<or> mc_Name cfg \<in> set reservedProviderTags then st
         else case factory cfg of
                None \<Rightarrow> st
              | Some (client, ns) \<Rightarrow>
                  (let (names, reg) = serve_tools (mc_Name cfg) ns reg;
                       ms = \<lparr>ms_cfg = cfg, ms_client = client, ms_cancelled = False, ms_cbState = McpClosed, ms_cbFailures = 0,
                             ms_cbOpenAt = t_zero, ms_probedWithListTools = False, ms_registeredToolNames = names,
                             ms_pc = WatchProbe, ms_backoff = mm_initBackoff m\<rparr>
                   in (m\<lparr>mm_servers := mm_servers m @ [ms]\<rparr>, reg)))"

definition StartAll :: "mcp_factory \<Rightarrow> mcp_manager \<times> registry \<Rightarrow> mcp_manager \<times> registry" where
  "StartAll factory st = fold (start_server factory) (mm_configs (fst st)) st"

section \<open>Watching\<close>

datatype ping_result = PingOk | PingNotSupported | PingFailed

text \<open>A probe pings the server, or lists its tools once it is known not to answer pings.\<close>

definition probeHealth :: "ping_result \<Rightarrow> bool \<Rightarrow> mcp_server \<Rightarrow> bool \<times> mcp_server" where
  "probeHealth ping listed ms =
     (if ms_probedWithListTools ms then (listed, ms)
      else case ping of
             PingOk \<Rightarrow> (True, ms)
           | PingNotSupported \<Rightarrow> (listed, if listed then ms\<lparr>ms_probedWithListTools := True\<rparr> else ms)
           | PingFailed \<Rightarrow> (False, ms))"

definition next_backoff :: "int \<Rightarrow> int \<Rightarrow> int" where
  "next_backoff maxBackoff b = (let b = (if b < maxBackoff then b * 2 else b) in if b > maxBackoff then maxBackoff else b)"

text \<open>An unhealthy server loses its tools before it is restarted.\<close>

definition watch_probe :: "gotime \<Rightarrow> ping_result \<Rightarrow> bool \<Rightarrow> mcp_server \<times> registry \<Rightarrow> mcp_server \<times> registry" where
  "watch_probe now ping listed st =
     (let (ms, reg) = st
      in if ms_cancelled ms then (ms\<lparr>ms_pc := WatchEnded\<rparr>, reg)
         else
           let (healthy, ms) = probeHealth ping listed ms
           in if healthy then (ms, reg)
              else (mcp_RecordFailure now ms\<lparr>ms_registeredToolNames := [], ms_pc := WatchPause\<rparr>,
                    fold Unregister (ms_registeredToolNames ms) reg))"

definition watch_restart :: "mcp_factory \<Rightarrow> int \<Rightarrow> int \<Rightarrow> mcp_server \<times> registry \<Rightarrow> mcp_server \<times> registry" where
  "watch_restart factory initBackoff maxBackoff st =
     (let (ms, reg) = st
      in case factory (ms_cfg ms) of
           None \<Rightarrow> (ms\<lparr>ms_backoff := next_backoff maxBackoff (ms_backoff ms), ms_pc := WatchProbe\<rparr>, reg)
         | Some (client, ns) \<Rightarrow>
             (let (names, reg) = serve_tools (mc_Name (ms_cfg ms)) ns reg
              in (mcp_RecordSuccess ms\<lparr>ms_client := client, ms_registeredToolNames := names, ms_pc := WatchProbe,
                    ms_backoff := initBackoff\<rparr>, reg)))"

text \<open>The first half of a call: whether it is let through, and to which client.\<close>

definition CallToolGated_start :: "gotime \<Rightarrow> mcp_server \<Rightarrow> nat option \<times> mcp_server" where
  "CallToolGated_start now ms = (let (allow, ms') = mcp_ShouldAllow now ms in (if allow then Some (ms_client ms) else None, ms'))"

definition CallToolGated_end :: "gotime \<Rightarrow> bool \<Rightarrow> mcp_server \<Rightarrow> mcp_server" where
  "CallToolGated_end now ok ms = (if ok then mcp_RecordSuccess ms else mcp_RecordFailure now ms)"

definition StopAll :: "mcp_manager \<Rightarrow> mcp_manager" where
  "StopAll m = m\<lparr>mm_servers := map (\<lambda>ms. ms\<lparr>ms_cancelled := True\<rparr>) (mm_servers m), mm_stopped := True\<rparr>"

section \<open>Events\<close>

datatype mcp_event =
  McpStart mcp_factory
| McpProbe nat gotime ping_result bool
| McpRestart nat mcp_factory
| McpGiveUp nat
| McpCall nat gotime
| McpReturn nat gotime bool
| McpStop

text \<open>\<open>McpGiveUp\<close> is a watch loop that sees its cancellation while it waits.\<close>

definition at_server :: "nat \<Rightarrow> (mcp_server \<times> registry \<Rightarrow> mcp_server \<times> registry) \<Rightarrow> mcp_manager \<times> registry \<Rightarrow> mcp_manager \<times> registry" where
  "at_server i f st =
     (let (m, reg) = st
      in if i < length (mm_servers m)
         then (let (ms, reg) = f (mm_servers m ! i, reg) in (m\<lparr>mm_servers := (mm_servers m)[i := ms]\<rparr>, reg))
         else st)"

definition mcp_step :: "mcp_event \<Rightarrow> mcp_manager \<times> registry \<Rightarrow> mcp_manager \<times> registry" where
  "mcp_step e st =
     (case e of
        McpStart factory \<Rightarrow> StartAll factory st
      | McpProbe i now ping listed \<Rightarrow>
          at_server i (\<lambda>(ms, reg). if ms_pc ms = WatchProbe then watch_probe now ping listed (ms, reg) else (ms, reg)) st
      | McpRestart i factory \<Rightarrow>
          at_server i (\<lambda>(ms, reg). if ms_pc ms = WatchPause
             then watch_restart factory (mm_initBackoff (fst st)) (mm_maxBackoff (fst st)) (ms, reg) else (ms, reg)) st
      | McpGiveUp i \<Rightarrow>
          at_server i (\<lambda>(ms, reg). (if ms_cancelled ms then ms\<lparr>ms_pc := WatchEnded\<rparr> else ms, reg)) st
      | McpCall i now \<Rightarrow> at_server i (\<lambda>(ms, reg). (snd (CallToolGated_start now ms), reg)) st
      | McpReturn i now ok \<Rightarrow> at_server i (\<lambda>(ms, reg). (CallToolGated_end now ok ms, reg)) st
      | McpStop \<Rightarrow> (StopAll (fst st), snd st))"

section \<open>Who owns a tool\<close>

lemma register_tools_props:
  "register_tools ns reg = (names, reg') \<Longrightarrow>
     distinct names \<and> (\<forall>n\<in>set names. gm_get (rg_tools reg) n = None) \<and> rg_provider reg' = rg_provider reg \<and>
     (\<forall>n. gm_get (rg_tools reg') n = (if n \<in> set names then Some (mcp_adapter n) else gm_get (rg_tools reg) n))"
proof (induction ns arbitrary: reg names reg')
  case Nil
  then show ?case by simp
next
  case (Cons k ns)
  show ?case
  proof (cases "RegisterStrict (mcp_adapter k) reg")
    case (Inl e)
    then show ?thesis using Cons by simp
  next
    case (Inr reg1)
    then have k: "gm_get (rg_tools reg) k = None" "reg1 = reg\<lparr>rg_tools := gm_put k (mcp_adapter k) (rg_tools reg)\<rparr>"
      by (auto simp: RegisterStrict_def mcp_adapter_def split: option.splits if_splits)
    obtain names1 where r: "register_tools ns reg1 = (names1, reg')" "names = k # names1"
      using Cons.prems Inr by (auto split: prod.splits)
    note ih = Cons.IH[OF r(1)]
    have "k \<notin> set names1" using ih k(2) by force
    moreover have "gm_get (rg_tools reg) n = None" if "n \<in> set names1" for n
      using ih k(2) that by (cases "n = k") auto
    ultimately show ?thesis using ih k r(2) by auto
  qed
qed

lemma provider_TagTools:
  "gm_get (rg_provider (TagTools names p reg)) n = (if n \<in> set names then Some p else gm_get (rg_provider reg) n)"
proof -
  have "gm_get (fold (\<lambda>n. gm_put n p) names m) n = (if n \<in> set names then Some p else gm_get m n)" for m
    by (induction names arbitrary: m) auto
  then show ?thesis by (simp add: TagTools_def)
qed

lemma serve_tools_props:
  assumes "serve_tools p ns reg = (names, reg')"
  shows "distinct names" "\<And>n. n \<in> set names \<Longrightarrow> gm_get (rg_tools reg) n = None"
    and "gm_get (rg_tools reg') n = (if n \<in> set names then Some (mcp_adapter n) else gm_get (rg_tools reg) n)"
    and "gm_get (rg_provider reg') n = (if n \<in> set names then Some p else gm_get (rg_provider reg) n)"
proof -
  obtain reg1 where r: "register_tools ns reg = (names, reg1)" "reg' = TagTools names p reg1"
    using assms by (auto simp: serve_tools_def split: prod.splits)
  note props = register_tools_props[OF r(1)]
  show "distinct names" "\<And>n. n \<in> set names \<Longrightarrow> gm_get (rg_tools reg) n = None" using props by blast+
  show "gm_get (rg_tools reg') n = (if n \<in> set names then Some (mcp_adapter n) else gm_get (rg_tools reg) n)"
    using props by (simp add: r(2) TagTools_def)
  show "gm_get (rg_provider reg') n = (if n \<in> set names then Some p else gm_get (rg_provider reg) n)"
    using props by (simp add: r(2) provider_TagTools)
qed

lemma Unregister_all:
  "gm_get (rg_tools (fold Unregister names reg)) n = (if n \<in> set names then None else gm_get (rg_tools reg) n)"
  "rg_provider (fold Unregister names reg) = rg_provider reg"
  by (induction names arbitrary: reg) (auto simp: Unregister_def)

definition owned :: "mcp_server list \<Rightarrow> string list" where
  "owned mss = concat (map ms_registeredToolNames mss)"

definition name_gated :: "string \<Rightarrow> bool" where
  "name_gated n \<longleftrightarrow> trim_space n \<noteq> [] \<and> n \<notin> set reservedProviderTags"

definition server_ok :: "registry \<Rightarrow> mcp_server \<Rightarrow> bool" where
  "server_ok reg ms \<longleftrightarrow> name_gated (mc_Name (ms_cfg ms)) \<and> (ms_pc ms = WatchPause \<longrightarrow> ms_registeredToolNames ms = [])
     \<and> (\<forall>n\<in>set (ms_registeredToolNames ms). gm_get (rg_provider reg) n = Some (mc_Name (ms_cfg ms)))"

definition tools_shared :: "registry \<Rightarrow> string list \<Rightarrow> registry \<Rightarrow> bool" where
  "tools_shared r0 ns reg \<longleftrightarrow> distinct ns \<and> (\<forall>n\<in>set ns. gm_get (rg_tools r0) n = None)
     \<and> (\<forall>n. gm_get (rg_tools reg) n = (if n \<in> set ns then Some (mcp_adapter n) else gm_get (rg_tools r0) n))"

definition mcp_inv :: "registry \<Rightarrow> mcp_server list \<times> registry \<Rightarrow> bool" where
  "mcp_inv r0 st \<longleftrightarrow> tools_shared r0 (owned (fst st)) (snd st) \<and> list_all (server_ok (snd st)) (fst st)"

text \<open>A server that has no tools yet takes some that are free.\<close>

lemma mcp_inv_serve:
  assumes "mcp_inv r0 (pre @ ms # post, reg)" "ms_registeredToolNames ms = []"
    and "serve_tools (mc_Name (ms_cfg ms)) ns reg = (names, reg')"
    and "ms_cfg ms' = ms_cfg ms" "ms_registeredToolNames ms' = names" "ms_pc ms' \<noteq> WatchPause"
  shows "mcp_inv r0 (pre @ ms' # post, reg')"
proof -
  note sv = serve_tools_props[OF assms(3)]
  have sh: "tools_shared r0 (owned pre @ owned post) reg" and ok: "list_all (server_ok reg) (pre @ ms # post)"
    using assms(1,2) by (simp_all add: mcp_inv_def owned_def)
  have free: "n \<notin> set (owned pre) \<union> set (owned post) \<and> gm_get (rg_tools r0) n = None" if "n \<in> set names" for n
    using sv(2)[OF that] sh by (auto simp: tools_shared_def split: if_splits)
  have "distinct (owned pre @ names @ owned post)" using sh sv(1) free by (auto simp: tools_shared_def)
  moreover have "gm_get (rg_tools reg') n = (if n \<in> set (owned pre @ names @ owned post) then Some (mcp_adapter n) else gm_get (rg_tools r0) n)" for n
    using sv(3)[of n] sh by (auto simp: tools_shared_def)
  moreover have "\<forall>n\<in>set (owned pre @ names @ owned post). gm_get (rg_tools r0) n = None"
    using sh free by (auto simp: tools_shared_def)
  ultimately have "tools_shared r0 (owned pre @ names @ owned post) reg'" unfolding tools_shared_def by blast
  moreover have "owned (pre @ ms' # post) = owned pre @ names @ owned post" using assms(5) by (simp add: owned_def)
  ultimately have "tools_shared r0 (owned (pre @ ms' # post)) reg'" by simp
  moreover have "server_ok reg' x" if "x \<in> set pre \<union> set post" for x
  proof -
    have "n \<notin> set names" if "n \<in> set (ms_registeredToolNames x)" for n
      using free that \<open>x \<in> set pre \<union> set post\<close> by (force simp: owned_def)
    then show ?thesis using ok that sv(4) by (auto simp: server_ok_def list_all_iff)
  qed
  moreover have "server_ok reg' ms'" using ok assms(4-6) sv(4) by (simp add: server_ok_def)
  ultimately show ?thesis by (simp add: mcp_inv_def list_all_iff)
qed

text \<open>A server gives up its tools.\<close>

lemma mcp_inv_drop:
  assumes "mcp_inv r0 (pre @ ms # post, reg)" "ms_cfg ms' = ms_cfg ms" "ms_registeredToolNames ms' = []"
  shows "mcp_inv r0 (pre @ ms' # post, fold Unregister (ms_registeredToolNames ms) reg)"
proof -
  have sh: "tools_shared r0 (owned pre @ ms_registeredToolNames ms @ owned post) reg" and ok: "list_all (server_ok reg) (pre @ ms # post)"
    using assms(1) by (simp_all add: mcp_inv_def owned_def)
  have "tools_shared r0 (owned (pre @ ms' # post)) (fold Unregister (ms_registeredToolNames ms) reg)"
    using sh assms(3) by (auto simp: tools_shared_def owned_def Unregister_all)
  moreover have "list_all (server_ok (fold Unregister (ms_registeredToolNames ms) reg)) (pre @ ms' # post)"
    using ok assms(2,3) by (auto simp: server_ok_def Unregister_all list_all_iff)
  ultimately show ?thesis by (simp add: mcp_inv_def)
qed

text \<open>Nothing that the registry sees.\<close>

lemma mcp_inv_same:
  assumes "mcp_inv r0 (pre @ ms # post, reg)" "ms_cfg ms' = ms_cfg ms" "ms_registeredToolNames ms' = ms_registeredToolNames ms"
    and "ms_pc ms' = WatchPause \<longrightarrow> ms_pc ms = WatchPause"
  shows "mcp_inv r0 (pre @ ms' # post, reg)"
  using assms by (auto simp: mcp_inv_def owned_def server_ok_def)

lemma breaker_fields [simp]:
  "ms_cfg (mcp_RecordFailure now ms) = ms_cfg ms" "ms_registeredToolNames (mcp_RecordFailure now ms) = ms_registeredToolNames ms"
  "ms_pc (mcp_RecordFailure now ms) = ms_pc ms" "ms_cfg (mcp_RecordSuccess ms) = ms_cfg ms"
  "ms_registeredToolNames (mcp_RecordSuccess ms) = ms_registeredToolNames ms" "ms_pc (mcp_RecordSuccess ms) = ms_pc ms"
  by (simp_all add: mcp_RecordFailure_def mcp_RecordSuccess_def Let_def)

lemma at_server_split:
  assumes "i < length (mm_servers m)"
  obtains pre post where "mm_servers m = pre @ (mm_servers m ! i) # post"
    "\<And>f. at_server i f (m, reg) = (case f (mm_servers m ! i, reg) of (ms, reg) \<Rightarrow> (m\<lparr>mm_servers := pre @ ms # post\<rparr>, reg))"
proof (rule that)
  show "mm_servers m = take i (mm_servers m) @ (mm_servers m ! i) # drop (Suc i) (mm_servers m)"
    by (rule id_take_nth_drop[OF assms])
  show "at_server i f (m, reg) = (case f (mm_servers m ! i, reg) of (ms, reg) \<Rightarrow>
      (m\<lparr>mm_servers := take i (mm_servers m) @ ms # drop (Suc i) (mm_servers m)\<rparr>, reg))" for f
    using assms by (simp add: at_server_def Let_def upd_conv_take_nth_drop split: prod.split)
qed

lemma mcp_inv_probe:
  "mcp_inv r0 (pre @ ms # post, reg) \<Longrightarrow> watch_probe now ping listed (ms, reg) = (ms', reg') \<Longrightarrow>
     mcp_inv r0 (pre @ ms' # post, reg')"
proof -
  assume inv: "mcp_inv r0 (pre @ ms # post, reg)" and st: "watch_probe now ping listed (ms, reg) = (ms', reg')"
  obtain healthy ms1 where p: "probeHealth ping listed ms = (healthy, ms1)" by fastforce
  then have ms1: "ms_cfg ms1 = ms_cfg ms" "ms_registeredToolNames ms1 = ms_registeredToolNames ms" "ms_pc ms1 = ms_pc ms"
    by (auto simp: probeHealth_def split: if_splits ping_result.splits)
  consider "ms_cancelled ms" | "\<not> ms_cancelled ms" "healthy" | "\<not> ms_cancelled ms" "\<not> healthy" by blast
  then show ?thesis
  proof cases
    case 1
    then have eq: "ms' = ms\<lparr>ms_pc := WatchEnded\<rparr>" "reg' = reg" using st by (simp_all add: watch_probe_def)
    show ?thesis unfolding eq by (rule mcp_inv_same[OF inv]) simp_all
  next
    case 2
    then show ?thesis using st p ms1 mcp_inv_same[OF inv, of ms1] by (simp add: watch_probe_def)
  next
    case 3
    then show ?thesis using st p ms1 mcp_inv_drop[OF inv, of ms'] by (auto simp: watch_probe_def)
  qed
qed

lemma mcp_inv_restart:
  assumes "mcp_inv r0 (pre @ ms # post, reg)" "ms_pc ms = WatchPause" "watch_restart factory a b (ms, reg) = (ms', reg')"
  shows "mcp_inv r0 (pre @ ms' # post, reg')"
proof (cases "factory (ms_cfg ms)")
  case None
  then show ?thesis using assms(3) mcp_inv_same[OF assms(1), of ms'] by (auto simp: watch_restart_def)
next
  case (Some x)
  obtain client ns where x: "x = (client, ns)" by (cases x)
  obtain names where sv: "serve_tools (mc_Name (ms_cfg ms)) ns reg = (names, reg')" "ms_registeredToolNames ms' = names"
    "ms_cfg ms' = ms_cfg ms" "ms_pc ms' = WatchProbe"
    using assms(3) Some x by (auto simp: watch_restart_def split: prod.splits)
  have "ms_registeredToolNames ms = []" using assms(1,2) by (simp add: mcp_inv_def server_ok_def)
  from mcp_inv_serve[OF assms(1) this sv(1,3,2)] sv(4) show ?thesis by simp
qed

lemma mcp_inv_start:
  assumes "mcp_inv r0 (mm_servers m, reg)" "start_server factory cfg (m, reg) = (m', reg')"
  shows "mcp_inv r0 (mm_servers m', reg')"
proof (cases "name_gated (mc_Name cfg) \<and> factory cfg \<noteq> None")
  case False
  then have "start_server factory cfg (m, reg) = (m, reg)"
    by (cases "factory cfg") (auto simp: start_server_def name_gated_def)
  then show ?thesis using assms by simp
next
  case True
  then obtain client ns where f: "factory cfg = Some (client, ns)" by auto
  obtain names reg1 where sv: "serve_tools (mc_Name cfg) ns reg = (names, reg1)" by fastforce
  define ms where "ms = \<lparr>ms_cfg = cfg, ms_client = client, ms_cancelled = False, ms_cbState = McpClosed, ms_cbFailures = 0,
      ms_cbOpenAt = t_zero, ms_probedWithListTools = False, ms_registeredToolNames = names, ms_pc = WatchProbe, ms_backoff = mm_initBackoff m\<rparr>"
  have m': "m' = m\<lparr>mm_servers := mm_servers m @ [ms]\<rparr>" "reg' = reg1"
    using assms(2) True f sv by (auto simp: start_server_def name_gated_def ms_def)
  have "mcp_inv r0 (mm_servers m @ [ms\<lparr>ms_registeredToolNames := []\<rparr>], reg)"
    using assms(1) True by (simp add: mcp_inv_def owned_def server_ok_def ms_def)
  from mcp_inv_serve[OF this, of ns names reg1 ms] sv show ?thesis by (simp add: m' ms_def)
qed

lemma mcp_inv_StartAll: "mcp_inv r0 (mm_servers m, reg) \<Longrightarrow> StartAll factory (m, reg) = (m', reg') \<Longrightarrow> mcp_inv r0 (mm_servers m', reg')"
proof -
  have "mcp_inv r0 (mm_servers (fst st), snd st) \<Longrightarrow>
      mcp_inv r0 (mm_servers (fst (fold (start_server factory) cfgs st)), snd (fold (start_server factory) cfgs st))" for cfgs st
  proof (induction cfgs arbitrary: st)
    case (Cons c cfgs)
    have "mcp_inv r0 (mm_servers (fst (start_server factory c st)), snd (start_server factory c st))"
      using mcp_inv_start[of r0 "fst st" "snd st" factory c] Cons.prems by (cases "start_server factory c st") simp
    then show ?case using Cons.IH by simp
  qed simp
  from this[of "(m, reg)" "mm_configs m"]
  show "mcp_inv r0 (mm_servers m, reg) \<Longrightarrow> StartAll factory (m, reg) = (m', reg') \<Longrightarrow> ?thesis" by (simp add: StartAll_def)
qed

lemma mcp_inv_at:
  assumes "mcp_inv r0 (mm_servers m, reg)"
    and "\<And>pre ms post ms' reg'. mcp_inv r0 (pre @ ms # post, reg) \<Longrightarrow> f (ms, reg) = (ms', reg') \<Longrightarrow> mcp_inv r0 (pre @ ms' # post, reg')"
  shows "mcp_inv r0 (mm_servers (fst (at_server i f (m, reg))), snd (at_server i f (m, reg)))"
proof (cases "i < length (mm_servers m)")
  case True
  obtain pre post where sp: "mm_servers m = pre @ (mm_servers m ! i) # post"
    "\<And>f. at_server i f (m, reg) = (case f (mm_servers m ! i, reg) of (ms, reg) \<Rightarrow> (m\<lparr>mm_servers := pre @ ms # post\<rparr>, reg))"
    using at_server_split[OF True, of reg] by metis
  obtain ms' reg' where f: "f (mm_servers m ! i, reg) = (ms', reg')" by fastforce
  have "mcp_inv r0 (pre @ (mm_servers m ! i) # post, reg)" using assms(1) sp(1) by simp
  from assms(2)[OF this f] show ?thesis by (simp add: sp(2) f)
next
  case False
  then show ?thesis using assms(1) by (simp add: at_server_def)
qed

lemma mcp_inv_step:
  assumes "mcp_inv r0 (mm_servers m, reg)"
  shows "mcp_inv r0 (mm_servers (fst (mcp_step e (m, reg))), snd (mcp_step e (m, reg)))"
proof (cases e)
  case (McpStart factory)
  then show ?thesis using mcp_inv_StartAll[OF assms, of factory] by (cases "StartAll factory (m, reg)") (simp add: mcp_step_def)
next
  case (McpProbe i now ping listed)
  show ?thesis unfolding McpProbe mcp_step_def mcp_event.case
    by (rule mcp_inv_at[OF assms]) (auto intro: mcp_inv_probe split: if_splits)
next
  case (McpRestart i factory)
  show ?thesis unfolding McpRestart mcp_step_def mcp_event.case
    by (rule mcp_inv_at[OF assms]) (auto intro: mcp_inv_restart split: if_splits)
next
  case (McpGiveUp i)
  show ?thesis unfolding McpGiveUp mcp_step_def mcp_event.case
    by (rule mcp_inv_at[OF assms]) (auto intro: mcp_inv_same split: if_splits)
next
  case (McpCall i now)
  show ?thesis unfolding McpCall mcp_step_def mcp_event.case
  proof (rule mcp_inv_at[OF assms])
    fix pre ms post ms' reg'
    assume inv: "mcp_inv r0 (pre @ ms # post, reg)"
      and "(case (ms, reg) of (ms, reg) \<Rightarrow> (snd (CallToolGated_start now ms), reg)) = (ms', reg')"
    then have eq: "ms' = snd (CallToolGated_start now ms)" "reg' = reg" by simp_all
    have "ms' = ms \<or> ms' = ms\<lparr>ms_cbState := McpHalfOpen\<rparr>"
      by (cases "ms_cbState ms") (simp_all add: eq CallToolGated_start_def mcp_ShouldAllow_def)
    then show "mcp_inv r0 (pre @ ms' # post, reg')" unfolding eq(2) by (elim disjE) (auto intro: mcp_inv_same[OF inv])
  qed
next
  case (McpReturn i now ok)
  show ?thesis unfolding McpReturn mcp_step_def mcp_event.case
  proof (rule mcp_inv_at[OF assms])
    fix pre ms post ms' reg'
    assume inv: "mcp_inv r0 (pre @ ms # post, reg)"
      and "(case (ms, reg) of (ms, reg) \<Rightarrow> (CallToolGated_end now ok ms, reg)) = (ms', reg')"
    then have eq: "ms' = CallToolGated_end now ok ms" "reg' = reg" by simp_all
    show "mcp_inv r0 (pre @ ms' # post, reg')" unfolding eq(2) by (rule mcp_inv_same[OF inv]) (simp_all add: eq CallToolGated_end_def)
  qed
next
  case McpStop
  have "map (ms_registeredToolNames \<circ> (\<lambda>ms. ms\<lparr>ms_cancelled := True\<rparr>)) (mm_servers m) = map ms_registeredToolNames (mm_servers m)" by simp
  then show ?thesis using assms McpStop
    by (simp add: mcp_step_def StopAll_def mcp_inv_def owned_def list_all_iff server_ok_def comp_def)
qed

lemma mcp_run_inv:
  assumes "fold mcp_step events (NewServerManager cfgs, r0) = (m, reg)"
  shows "mcp_inv r0 (mm_servers m, reg)"
  using assms
proof (induction events arbitrary: m reg rule: rev_induct)
  case Nil
  then show ?case by (auto simp: NewServerManager_def mcp_inv_def owned_def tools_shared_def)
next
  case (snoc e es)
  obtain m1 reg1 where "fold mcp_step es (NewServerManager cfgs, r0) = (m1, reg1)" by fastforce
  then show ?case using snoc mcp_inv_step[of r0 m1 reg1 e] by simp
qed

lemma mcp_inv_provider:
  assumes "mcp_inv r0 (mm_servers m, reg)" "ms \<in> set (mm_servers m)" "n \<in> set (ms_registeredToolNames ms)"
  shows "ProviderFor reg n = mc_Name (ms_cfg ms) \<and> name_gated (mc_Name (ms_cfg ms))"
  using assms by (auto simp: mcp_inv_def list_all_iff server_ok_def ProviderFor_def)

lemma mcp_inv_adapter:
  assumes "mcp_inv r0 (mm_servers m, reg)" "ms \<in> set (mm_servers m)" "n \<in> set (ms_registeredToolNames ms)"
  shows "gm_get (rg_tools reg) n = Some (mcp_adapter n)"
proof -
  have "n \<in> set (owned (mm_servers m))" using assms(2,3) by (auto simp: owned_def)
  then show ?thesis using assms(1) by (simp add: mcp_inv_def tools_shared_def)
qed

text \<open>
  C26. Servers never get at each other's tools or at the built-in ones. Whatever servers start, fail, are restarted
  with other tools, are called and stopped, in any interleaving: a tool name belongs to at most one server;
  the registry holds the adapter of a server exactly for the names that servers own, and none of them was registered
  before; for every other name it is as it was at the start; and a name is tagged with the name of its server, which
  is neither blank nor reserved, so that the permission gate can watch it.
\<close>

theorem mcp_tools_owned:
  "\<exists>m reg. fold mcp_step events (NewServerManager cfgs, r0) = (m, reg) \<and> distinct (owned (mm_servers m))
    \<and> (\<forall>n. if n \<in> set (owned (mm_servers m)) then gm_get (rg_tools r0) n = None \<and> gm_get (rg_tools reg) n = Some (mcp_adapter n)
           else gm_get (rg_tools reg) n = gm_get (rg_tools r0) n)
    \<and> (\<forall>ms\<in>set (mm_servers m). \<forall>n\<in>set (ms_registeredToolNames ms).
           ProviderFor reg n = mc_Name (ms_cfg ms) \<and> name_gated (mc_Name (ms_cfg ms)))"
proof -
  obtain m reg where run: "fold mcp_step events (NewServerManager cfgs, r0) = (m, reg)" by fastforce
  note inv = mcp_run_inv[OF run]
  then have sh: "tools_shared r0 (owned (mm_servers m)) reg" by (simp add: mcp_inv_def)
  show ?thesis using run sh mcp_inv_provider[OF inv] by (auto simp: tools_shared_def)
qed

theorem mcp_tools_owned_witness:
  "let cfgs = [\<lparr>mc_Name = ''s'', mc_Command = [], mc_Transport = []\<rparr>, \<lparr>mc_Name = ''u'', mc_Command = [], mc_Transport = []\<rparr>];
       final = fold mcp_step [McpStart (\<lambda>c. Some (1, [''t'']))] (NewServerManager cfgs, NewRegistry)
   in owned (mm_servers (fst final)) = [''t''] \<and> gm_get (rg_tools (snd final)) ''t'' = Some (mcp_adapter ''t'')"
proof -
  let ?cfgs = "[\<lparr>mc_Name = ''s'', mc_Command = [], mc_Transport = []\<rparr>, \<lparr>mc_Name = ''u'', mc_Command = [], mc_Transport = []\<rparr>]"
  let ?final = "fold mcp_step [McpStart (\<lambda>c. Some (1, [''t'']))] (NewServerManager ?cfgs, NewRegistry)"
  have owned: "owned (mm_servers (fst ?final)) = [''t'']" by code_simp
  moreover have "gm_get (rg_tools (snd ?final)) ''t'' = Some (mcp_adapter ''t'')"
    using mcp_tools_owned[of "[McpStart (\<lambda>c. Some (1, [''t'']))]" ?cfgs NewRegistry] owned
    by (metis (no_types, lifting) fst_conv snd_conv list.set_intros(1))
  ultimately show ?thesis unfolding Let_def by (rule conjI)
qed

section \<open>Calls and restarts\<close>

interpretation mcp_breaker: breaker "\<lambda>ms. ms_cbState ms \<noteq> McpClosed" ms_cbFailures mcp_RecordFailure mcp_RecordSuccess cbFailureThreshold
  by unfold_locales (auto simp: mcp_RecordFailure_def mcp_RecordSuccess_def cbFailureThreshold_def Let_def)

text \<open>
  A failing server is left alone. After a success two failures change nothing for the calls; the third in a row opens
  the circuit, and until ten seconds after it every call is refused at once, without reaching the server and without a change
  of state; the first call after that is let through.
\<close>

lemma mcp_circuit_opens:
  "fst (CallToolGated_start now (fold mcp_RecordFailure [t1, t2] (mcp_RecordSuccess ms))) = Some (ms_client ms)
   \<and> (let b = mcp_RecordFailure t3 (fold mcp_RecordFailure [t1, t2] (mcp_RecordSuccess ms))
      in if now - t3 < cbOpenDuration then CallToolGated_start now b = (None, b) else fst (CallToolGated_start now b) = Some (ms_client ms))"
proof -
  let ?b = "fold mcp_RecordFailure [t1, t2] (mcp_RecordSuccess ms)"
  have lt: "length [t1, t2] < cbFailureThreshold" by (simp add: cbFailureThreshold_def)
  have closed: "ms_cbState ?b = McpClosed" using mcp_breaker.trips_exactly_at_threshold(1)[OF lt, of ms] by simp
  have client: "ms_client ?b = ms_client ms" by (simp add: mcp_RecordFailure_def mcp_RecordSuccess_def Let_def)
  have opened: "ms_cbState (mcp_RecordFailure t3 ?b) \<noteq> McpClosed"
    using mcp_breaker.trips_exactly_at_threshold(2)[OF lt, of t3 ms] by (simp add: cbFailureThreshold_def)
  then have "ms_cbState (mcp_RecordFailure t3 ?b) = McpOpen" "ms_cbOpenAt (mcp_RecordFailure t3 ?b) = t3"
    "ms_client (mcp_RecordFailure t3 ?b) = ms_client ?b"
    using closed by (auto simp: mcp_RecordFailure_def[of t3] Let_def split: if_splits)
  then show ?thesis using closed client by (simp add: CallToolGated_start_def mcp_ShouldAllow_def Let_def)
qed

text \<open>Half open, the circuit lets every call through, not only one probe.\<close>

lemma half_open_admits_all: "ms_cbState ms = McpHalfOpen \<Longrightarrow> CallToolGated_start now ms = (Some (ms_client ms), ms)"
  by (simp add: CallToolGated_start_def mcp_ShouldAllow_def)

text \<open>The pause between restarts doubles up to its maximum.\<close>

lemma backoff_schedule: "0 < b \<Longrightarrow> b \<le> maxB \<Longrightarrow> (next_backoff maxB ^^ k) b = min maxB (b * 2 ^ k)"
  by (induction k) (auto simp: next_backoff_def Let_def min_def)

text \<open>A restart that was under way when the manager was stopped registers tools whose client nobody closes.\<close>

lemma restart_after_stop:
  "gm_get (rg_tools (snd (fold mcp_step
      [McpStart (\<lambda>c. Some (1, [''t''])), McpProbe 0 5 PingFailed False, McpStop, McpRestart 0 (\<lambda>c. Some (2, [''t'']))]
      (NewServerManager [\<lparr>mc_Name = ''s'', mc_Command = [], mc_Transport = []\<rparr>], NewRegistry)))) ''t'' = Some (mcp_adapter ''t'')"
  by code_simp

end
