(* ===== verification/Toolbelt.thy ===== *)
theory Toolbelt
  imports AgentLoop McpManager
begin

text \<open>
  What an agent may use (\<^verbatim>\<open>internal/agents/toolbelt.go\<close>,
  \<^verbatim>\<open>internal/agents/capabilities.go\<close>, \<^verbatim>\<open>internal/modelconfig/registry.go\<close> and
  \<open>applyToolbelt\<close> of \<^verbatim>\<open>internal/agent/agent_dispatcher.go\<close>): the schemas offered
  to the model of a run and the fork of the permission gate for it, computed from the agent's local tools,
  its toolbelt, its model and its memory mode. A schema is its name; the identifier of the model is the one
  the provider catalog resolves.
\<close>

section \<open>Agents and their toolbelts\<close>

record toolbelt_entry =
  tb_ConnectionID :: string
  tb_Provider :: string
  tb_Profile :: string
  tb_ApprovalGate :: bool

record agent_grants =
  ag_ModelID :: string
  ag_MemoryMode :: string
  ag_Toolbelt :: "toolbelt_entry list"
  ag_LocalTools :: "string list"
  ag_ApprovedTools :: "string list"

definition ToolbeltProviders :: "toolbelt_entry list \<Rightarrow> string list" where
  "ToolbeltProviders tb = rev (fold (\<lambda>e out. if tb_Provider e \<in> set out then out else tb_Provider e # out) tb [])"

definition isAllowAllEntry :: "toolbelt_entry \<Rightarrow> bool" where
  "isAllowAllEntry e \<longleftrightarrow> tb_Provider e = ''*'' \<or> tb_ConnectionID e = ''*''"

fun allowed_loop :: "toolbelt_entry list \<Rightarrow> boolset \<Rightarrow> boolset" where
  "allowed_loop [] out = out"
| "allowed_loop (e # tb) out =
     (if isAllowAllEntry e then [(''*'', True)]
      else allowed_loop tb (if tb_Provider e \<noteq> [] then gm_put (tb_Provider e) True out else out))"

definition AllowedProviders :: "toolbelt_entry list \<Rightarrow> boolset" where
  "AllowedProviders tb = (if tb = [] then [] else allowed_loop tb [])"

definition WatchedProviders :: "toolbelt_entry list \<Rightarrow> boolset" where
  "WatchedProviders tb = fold (\<lambda>e out. if tb_ApprovalGate e then gm_put (tb_Provider e) True out else out) tb []"

section \<open>What a model can do\<close>

datatype capability_tier = TierNone | TierHigh | TierMedium | TierLow

record model_info =
  mi_Name :: string
  mi_ContextWindow :: int
  mi_SupportsTools :: bool
  mi_Tier :: capability_tier
  mi_SupportsDelegation :: bool
  mi_ReliableFinish :: bool
  mi_PromptBudget :: int

definition highTierPatterns :: "string list" where
  "highTierPatterns = [''opus'', ''sonnet'', ''gpt-4'', ''gpt4'']"

definition mediumTierPatterns :: "string list" where
  "mediumTierPatterns = [''haiku'', ''gpt-4o-mini'', ''14b'', ''13b'']"

definition InferCapabilities :: "model_info \<Rightarrow> model_info" where
  "InferCapabilities mi =
     (let name = to_lower (mi_Name mi)
      in if list_ex (contains_str name) mediumTierPatterns then
           mi\<lparr>mi_Tier := TierMedium, mi_SupportsDelegation := mi_SupportsTools mi, mi_ReliableFinish := mi_SupportsTools mi,
              mi_PromptBudget := 4096\<rparr>
         else if list_ex (contains_str name) highTierPatterns then
           mi\<lparr>mi_Tier := TierHigh, mi_SupportsDelegation := True, mi_ReliableFinish := True, mi_PromptBudget := 8192\<rparr>
         else mi\<lparr>mi_Tier := TierLow, mi_SupportsDelegation := False, mi_ReliableFinish := False, mi_PromptBudget := 1024\<rparr>)"

definition InferModelInfo :: "string \<Rightarrow> model_info option" where
  "InferModelInfo modelID =
     (if trim_space modelID = [] then None
      else Some (InferCapabilities \<lparr>mi_Name = modelID, mi_ContextWindow = 0, mi_SupportsTools = True, mi_Tier = TierNone,
        mi_SupportsDelegation = False, mi_ReliableFinish = False, mi_PromptBudget = 0\<rparr>))"

text \<open>The leftmost match of \<^verbatim>\<open>(\d+)\s*b\b\<close>: digits, blanks, and a \<open>b\<close> at the end of a word.\<close>

definition is_digit :: "char \<Rightarrow> bool" where
  "is_digit c \<longleftrightarrow> CHR ''0'' \<le> c \<and> c \<le> CHR ''9''"

definition size_at :: "string \<Rightarrow> bool" where
  "size_at s =
     (takeWhile is_digit s \<noteq> [] \<and>
      (case dropWhile re_space (dropWhile is_digit s) of
         [] \<Rightarrow> False
       | c # r \<Rightarrow> c = CHR ''b'' \<and> (r = [] \<or> \<not> word_char (hd r))))"

fun modelSize :: "string \<Rightarrow> string option" where
  "modelSize [] = None"
| "modelSize (c # s) = (if size_at (c # s) then Some (takeWhile is_digit (c # s)) else modelSize s)"

definition digits_value :: "string \<Rightarrow> int" where
  "digits_value ds = fold (\<lambda>c n. 10 * n + (of_char c - 48)) ds 0"

text \<open>\<^verbatim>\<open>strconv.Atoi\<close> fails beyond 64 bits.\<close>

definition AgentSupportsDelegation :: "agent_grants \<Rightarrow> bool" where
  "AgentSupportsDelegation ag =
     (let mid = ag_ModelID ag
      in if trim_space mid = [] then True
         else case InferModelInfo mid of
           None \<Rightarrow> True
         | Some info \<Rightarrow>
             if mi_SupportsDelegation info then True
             else case modelSize (to_lower mid) of
               Some ds \<Rightarrow> if digits_value ds < 2 ^ 63 then digits_value ds \<ge> 13 else False
             | None \<Rightarrow> True)"

definition AgentIsCoS :: "agent_grants \<Rightarrow> bool" where
  "AgentIsCoS ag \<longleftrightarrow> list_ex (\<lambda>n. n = ''create_agent'' \<or> n = ''spawn_specialist'') (ag_LocalTools ag)"

section \<open>The tools of a run\<close>

definition delegationNames :: "string list" where
  "delegationNames = [''delegate_to_agent'', ''list_team_status'', ''recall_thread_result'', ''wait_for_threads'']"

definition add_delegation :: "registry \<Rightarrow> string list \<Rightarrow> string list" where
  "add_delegation reg schemas =
     schemas @ concat (map (\<lambda>d. if d \<in> set schemas then [] else case Get reg d of None \<Rightarrow> [] | Some t \<Rightarrow> [t_SchemaName t]) delegationNames)"

definition filterMuninnSchemas :: "string list \<Rightarrow> string \<Rightarrow> string list" where
  "filterMuninnSchemas schemas mode =
     (let passive = equal_fold (trim_space mode) ''passive''
      in filter (\<lambda>n. n \<noteq> ''muninn_create_workflow_vault'' \<and> \<not> (passive \<and> isMuninnWriteTool n)) schemas)"

definition local_schemas :: "agent_grants \<Rightarrow> registry \<Rightarrow> string list" where
  "local_schemas ag reg =
     (if ag_LocalTools ag = [''*''] then AllBuiltinSchemas reg else SchemasByNames (ag_LocalTools ag) reg)"

definition belt_schemas :: "agent_grants \<Rightarrow> registry \<Rightarrow> string list" where
  "belt_schemas ag reg = (if ag_Toolbelt ag \<noteq> [] then AllSchemasForProviders (ToolbeltProviders (ag_Toolbelt ag)) reg else [])"

definition with_vault :: "registry \<Rightarrow> string list \<Rightarrow> string list" where
  "with_vault reg schemas = schemas @ filter (\<lambda>s. s \<notin> set schemas) (AllSchemasForProviders [''muninndb''] reg)"

definition with_delegation :: "agent_grants \<Rightarrow> registry \<Rightarrow> string list \<Rightarrow> string list" where
  "with_delegation ag reg schemas =
     (if AgentSupportsDelegation ag then add_delegation reg schemas
      else filter (\<lambda>s. s \<notin> set delegationNames) schemas)"

definition without_hiring :: "agent_grants \<Rightarrow> string list \<Rightarrow> string list" where
  "without_hiring ag schemas =
     filter (\<lambda>s. (s = ''create_agent'' \<longrightarrow> ''create_agent'' \<in> set (ag_LocalTools ag)) \<and>
                 (s = ''spawn_specialist'' \<longrightarrow> ''spawn_specialist'' \<in> set (ag_LocalTools ag))) schemas"

definition toolbelt_schemas :: "agent_grants \<Rightarrow> registry \<Rightarrow> string list" where
  "toolbelt_schemas ag reg =
     filterMuninnSchemas
       (without_hiring ag (with_delegation ag reg (with_vault reg (local_schemas ag reg @ belt_schemas ag reg))))
       (ag_MemoryMode ag)"

text \<open>The providers of the forked gate: those of the toolbelt, the vault, the built-in tools and the configured servers.\<close>

definition run_providers :: "agent_grants \<Rightarrow> string list \<Rightarrow> boolset" where
  "run_providers ag mcp =
     (let allowed = AllowedProviders (ag_Toolbelt ag)
      in if \<not> flag allowed ''*''
         then fold (\<lambda>n m. gm_put n True m) mcp (gm_put ''builtin'' True (gm_put ''muninndb'' True allowed))
         else allowed)"

definition run_gate :: "agent_grants \<Rightarrow> string list \<Rightarrow> gate \<Rightarrow> gate" where
  "run_gate ag mcp g =
     SeedSessionAllowed (ag_ApprovedTools ag) (gate_Fork (Some (WatchedProviders (ag_Toolbelt ag))) (Some (run_providers ag mcp)) g)"

definition applyToolbelt :: "agent_grants \<Rightarrow> registry \<Rightarrow> gate option \<Rightarrow> string list \<Rightarrow> string list \<times> gate option" where
  "applyToolbelt ag reg g mcp = (toolbelt_schemas ag reg, map_option (run_gate ag mcp) g)"

definition injectDelegationTools :: "string \<Rightarrow> string list \<Rightarrow> registry \<Rightarrow> agent_grants \<Rightarrow> string list" where
  "injectDelegationTools space schemas reg ag =
     (if \<not> AgentSupportsDelegation ag \<or> space = [] then schemas else add_delegation reg schemas)"

definition stripHireDelegationTools :: "string list \<Rightarrow> string list" where
  "stripHireDelegationTools schemas = filter (\<lambda>s. s \<notin> {''wait_for_threads'', ''delegate_to_agent'', ''consult_agent''}) schemas"

text \<open>The schemas \<open>runAgentTurn\<close> gives to the loop.\<close>

definition run_schemas :: "string \<Rightarrow> bool \<Rightarrow> agent_grants \<Rightarrow> registry \<Rightarrow> string list" where
  "run_schemas space hire ag reg =
     (let schemas = injectDelegationTools space (toolbelt_schemas ag reg) reg ag
      in if hire then stripHireDelegationTools schemas else schemas)"


section \<open>What is offered\<close>

text \<open>The rule: what a tool's name and provider must be for the agent to have it, and what is withheld all the same.\<close>

definition may_use :: "agent_grants \<Rightarrow> registry \<Rightarrow> string \<Rightarrow> bool" where
  "may_use ag reg n \<longleftrightarrow>
     (if ag_LocalTools ag = [''*''] then ProviderFor reg n = ''builtin'' else n \<in> set (ag_LocalTools ag))
     \<or> (ProviderFor reg n \<notin> {''builtin'', []} \<and> (\<exists>e\<in>set (ag_Toolbelt ag). tb_Provider e = ''*'' \<or> tb_Provider e = ProviderFor reg n))
     \<or> ProviderFor reg n = ''muninndb''
     \<or> (AgentSupportsDelegation ag \<and> n \<in> set delegationNames)"

definition withheld :: "agent_grants \<Rightarrow> string \<Rightarrow> bool" where
  "withheld ag n \<longleftrightarrow>
     (n \<in> {''create_agent'', ''spawn_specialist''} \<and> n \<notin> set (ag_LocalTools ag))
     \<or> (n \<in> set delegationNames \<and> \<not> AgentSupportsDelegation ag)
     \<or> n = ''muninn_create_workflow_vault''
     \<or> (isMuninnWriteTool n \<and> equal_fold (trim_space (ag_MemoryMode ag)) ''passive'')"

text \<open>Every tool is filed under the name of its schema.\<close>

definition schema_named :: "registry \<Rightarrow> bool" where
  "schema_named reg \<longleftrightarrow> list_all (\<lambda>(n, t). t_SchemaName t = n) (rg_tools reg)"

lemma set_ToolbeltProviders: "set (ToolbeltProviders tb) = tb_Provider ` set tb"
proof -
  have "set (fold (\<lambda>e out. if tb_Provider e \<in> set out then out else tb_Provider e # out) tb out) = set out \<union> tb_Provider ` set tb" for out
    by (induction tb arbitrary: out) auto
  then show ?thesis by (simp add: ToolbeltProviders_def)
qed

lemma Get_named: "schema_named reg \<Longrightarrow> Get reg n = Some t \<Longrightarrow> t_SchemaName t = n"
  by (auto simp: Get_def schema_named_def list_all_iff dest: map_of_SomeD split: option.splits if_splits)

text \<open>Any selection of the enabled tools, by name.\<close>

lemma schemas_of_enabled:
  assumes "registry_inv reg" "schema_named reg"
  shows "n \<in> t_SchemaName ` {t \<in> set (enabled_tools reg). P (t_Name t)} \<longleftrightarrow> Get reg n \<noteq> None \<and> P n"
proof
  assume "n \<in> t_SchemaName ` {t \<in> set (enabled_tools reg). P (t_Name t)}"
  then obtain t where t: "t \<in> set (enabled_tools reg)" "n = t_SchemaName t" "P (t_Name t)" by blast
  then have g: "Get reg (t_Name t) = Some t" using enabled_Get[OF assms(1)] by simp
  with Get_named[OF assms(2)] t show "Get reg n \<noteq> None \<and> P n" by simp
next
  assume r: "Get reg n \<noteq> None \<and> P n"
  then obtain t where t: "Get reg n = Some t" by auto
  then have nm: "t_Name t = n" by (rule Get_SomeD(1)[OF assms(1)])
  then have "t \<in> set (enabled_tools reg)" using t enabled_Get[OF assms(1)] by simp
  moreover have "t_SchemaName t = n" by (rule Get_named[OF assms(2) t])
  ultimately show "n \<in> t_SchemaName ` {t \<in> set (enabled_tools reg). P (t_Name t)}" using nm r by (auto intro!: image_eqI[of _ _ t])
qed

lemma in_AllSchemasForProviders:
  assumes "registry_inv reg" "schema_named reg"
  shows "n \<in> set (AllSchemasForProviders ps reg) \<longleftrightarrow>
     Get reg n \<noteq> None \<and> ProviderFor reg n \<notin> {''builtin'', []} \<and> (''*'' \<in> set ps \<or> ProviderFor reg n \<in> set ps)"
  using schemas_of_enabled[OF assms, of n "\<lambda>m. ProviderFor reg m \<notin> {''builtin'', []} \<and> (''*'' \<in> set ps \<or> ProviderFor reg m \<in> set ps)"]
  by (cases "ps = []") (auto simp: AllSchemasForProviders_def Let_def)

lemma in_local_schemas:
  assumes "registry_inv reg" "schema_named reg"
  shows "n \<in> set (local_schemas ag reg) \<longleftrightarrow> Get reg n \<noteq> None \<and>
     (if ag_LocalTools ag = [''*''] then ProviderFor reg n = ''builtin'' else n \<in> set (ag_LocalTools ag))"
  using schemas_of_enabled[OF assms, of n "\<lambda>m. ProviderFor reg m = ''builtin''"]
    schemas_of_enabled[OF assms, of n "\<lambda>m. m \<in> set (ag_LocalTools ag)"]
  by (cases "ag_LocalTools ag = []") (auto simp: local_schemas_def AllBuiltinSchemas_def SchemasByNames_def)

lemma in_add_delegation:
  assumes "schema_named reg"
  shows "n \<in> set (add_delegation reg ss) \<longleftrightarrow> n \<in> set ss \<or> (n \<in> set delegationNames \<and> Get reg n \<noteq> None)"
proof -
  have "n \<in> set (if d \<in> set ss then [] else case Get reg d of None \<Rightarrow> [] | Some t \<Rightarrow> [t_SchemaName t]) \<longleftrightarrow>
      n = d \<and> d \<notin> set ss \<and> Get reg d \<noteq> None" for d
    using Get_named[OF assms, of d] by (cases "Get reg d") auto
  then have "n \<in> set (add_delegation reg ss) \<longleftrightarrow> n \<in> set ss \<or> (\<exists>d\<in>set delegationNames. n = d \<and> d \<notin> set ss \<and> Get reg d \<noteq> None)"
    unfolding add_delegation_def set_append set_concat set_map by blast
  then show ?thesis by blast
qed

lemma toolbelt_schemas_rule:
  assumes "registry_inv reg" "schema_named reg"
  shows "n \<in> set (toolbelt_schemas ag reg) \<longleftrightarrow> Get reg n \<noteq> None \<and> may_use ag reg n \<and> \<not> withheld ag n"
proof -
  have belt: "n \<in> set (belt_schemas ag reg) \<longleftrightarrow> Get reg n \<noteq> None \<and> ProviderFor reg n \<notin> {''builtin'', []} \<and>
      (\<exists>e\<in>set (ag_Toolbelt ag). tb_Provider e = ''*'' \<or> tb_Provider e = ProviderFor reg n)"
  proof -
    have "(\<exists>e\<in>set (ag_Toolbelt ag). tb_Provider e = ''*'' \<or> tb_Provider e = p) \<longleftrightarrow>
        ''*'' \<in> set (ToolbeltProviders (ag_Toolbelt ag)) \<or> p \<in> set (ToolbeltProviders (ag_Toolbelt ag))" for p
      unfolding set_ToolbeltProviders by force
    then show ?thesis using in_AllSchemasForProviders[OF assms, of n]
      by (cases "ag_Toolbelt ag = []") (auto simp: belt_schemas_def)
  qed
  let ?base = "local_schemas ag reg @ belt_schemas ag reg"
  have vault: "n \<in> set (with_vault reg ?base) \<longleftrightarrow> n \<in> set (local_schemas ag reg) \<or> n \<in> set (belt_schemas ag reg)
      \<or> (Get reg n \<noteq> None \<and> ProviderFor reg n = ''muninndb'')"
    using in_AllSchemasForProviders[OF assms, of n "[''muninndb'']"] by (auto simp: with_vault_def)
  have "n \<in> set (with_delegation ag reg (with_vault reg ?base)) \<longleftrightarrow>
      (n \<in> set (with_vault reg ?base) \<or> (AgentSupportsDelegation ag \<and> n \<in> set delegationNames \<and> Get reg n \<noteq> None))
      \<and> \<not> (n \<in> set delegationNames \<and> \<not> AgentSupportsDelegation ag)"
    using in_add_delegation[OF assms(2), of n] by (auto simp: with_delegation_def)
  then have "n \<in> set (with_delegation ag reg (with_vault reg ?base)) \<longleftrightarrow>
      Get reg n \<noteq> None \<and> may_use ag reg n \<and> \<not> (n \<in> set delegationNames \<and> \<not> AgentSupportsDelegation ag)"
    unfolding vault belt in_local_schemas[OF assms, of n ag] may_use_def by blast
  then show ?thesis
    by (auto simp: toolbelt_schemas_def filterMuninnSchemas_def without_hiring_def withheld_def Let_def)
qed


text \<open>The space of a channel adds nothing that the toolbelt has not, and a turn that asks to hire only loses.\<close>

lemma run_schemas_rule:
  assumes "registry_inv reg" "schema_named reg"
  shows "n \<in> set (run_schemas space hire ag reg) \<longleftrightarrow>
     Get reg n \<noteq> None \<and> may_use ag reg n \<and> \<not> withheld ag n \<and>
     \<not> (hire \<and> n \<in> {''wait_for_threads'', ''delegate_to_agent'', ''consult_agent''})"
proof -
  have deleg: "\<not> withheld ag n" if "n \<in> set delegationNames" "AgentSupportsDelegation ag"
    using that by (auto simp: delegationNames_def withheld_def isMuninnWriteTool_def trim_space_def trim_left_def trim_right_def is_space_def)
  have "n \<in> set (injectDelegationTools space (toolbelt_schemas ag reg) reg ag) \<longleftrightarrow> n \<in> set (toolbelt_schemas ag reg)"
    using in_add_delegation[OF assms(2), of n "toolbelt_schemas ag reg"] deleg
    by (auto simp: injectDelegationTools_def toolbelt_schemas_rule[OF assms] may_use_def)
  then show ?thesis by (auto simp: run_schemas_def stripHireDelegationTools_def toolbelt_schemas_rule[OF assms] Let_def)
qed

text \<open>
  C27. An agent that is offered some tools uses no others. Whatever the model, the users, the tools and the memory vault
  answer during a run, every tool it executes is one that the registry had at its start and that the agent's
  configuration grants: a local tool by name or all built-in ones, a tool of a provider of its toolbelt, of the vault,
  or delegation when its model supports it; hiring only where it is granted by name, and no memory writes in passive mode.
\<close>

theorem agent_uses_its_grant:
  assumes "registry_inv reg" "schema_named reg" "lc_Schemas cfg = run_schemas space hire ag reg" "lc_Schemas cfg \<noteq> []"
    and "tw_trace w = []" "EvExecute n args \<in> set (tw_trace (ls_world (fst (RunLoop cfg sf tns msgs w))))"
  shows "Get reg n \<noteq> None \<and> may_use ag reg n \<and> \<not> withheld ag n"
proof -
  obtain es where "tw_trace (ls_world (fst (RunLoop cfg sf tns msgs w))) = es" "list_all (admissible cfg) es"
    using RunLoop_ok(1)[of cfg w sf tns msgs] assms(5) by (auto simp: adds_def good_effects_def)
  then have "admissible cfg (EvExecute n args)" using assms(6) by (auto simp: list_all_iff)
  then have "n \<in> set (lc_Schemas cfg)" using assms(4) by (simp add: admissible_def toolSchemaAllows_def)
  then show ?thesis unfolding assms(3) run_schemas_rule[OF assms(1,2)] by blast
qed

text \<open>An agent without any grant, on a small model, in a registry without a vault.\<close>

definition no_grants :: "agent_grants \<Rightarrow> registry \<Rightarrow> bool" where
  "no_grants ag reg \<longleftrightarrow> ag_LocalTools ag = [] \<and> ag_Toolbelt ag = [] \<and> \<not> AgentSupportsDelegation ag
     \<and> ''muninndb'' \<notin> snd ` set (rg_provider reg)"

lemma no_grants_nothing:
  assumes "registry_inv reg" "schema_named reg" "no_grants ag reg"
  shows "\<not> may_use ag reg n" and "run_schemas space hire ag reg = []"
proof -
  have "ProviderFor reg n \<noteq> ''muninndb''" for n
  proof (cases "gm_get (rg_provider reg) n")
    case (Some p)
    then have "p \<in> snd ` set (rg_provider reg)" by (force dest: map_of_SomeD)
    then have "p \<noteq> ''muninndb''" using assms(3) unfolding no_grants_def by metis
    then show ?thesis using Some by (simp add: ProviderFor_def)
  qed (simp add: ProviderFor_def)
  then show no: "\<not> may_use ag reg n" for n using assms(3) by (simp add: may_use_def no_grants_def)
  have "hd (run_schemas space hire ag reg) \<notin> set (run_schemas space hire ag reg)"
    unfolding run_schemas_rule[OF assms(1,2)] using no by simp
  then show "run_schemas space hire ag reg = []" by (cases "run_schemas space hire ag reg") auto
qed

section \<open>The gate of a run\<close>

lemma allowed_loop_flag:
  "flag (allowed_loop tb out) p \<longleftrightarrow>
     (if list_ex isAllowAllEntry tb then p = ''*'' else flag out p \<or> (p \<noteq> [] \<and> p \<in> tb_Provider ` set tb))"
proof (induction tb arbitrary: out)
  case (Cons e tb)
  show ?case
  proof (cases "isAllowAllEntry e \<or> tb_Provider e = []")
    case True
    then show ?thesis using Cons.IH[of out] by (cases "isAllowAllEntry e") auto
  next
    case False
    then show ?thesis using Cons.IH[of "gm_put (tb_Provider e) True out"] by auto
  qed
qed simp

lemma AllowedProviders_flag:
  "flag (AllowedProviders tb) p \<longleftrightarrow>
     (if list_ex isAllowAllEntry tb then p = ''*'' else p \<noteq> [] \<and> p \<in> tb_Provider ` set tb)"
  by (simp add: AllowedProviders_def allowed_loop_flag)

lemma flag_fold_put: "flag (fold (\<lambda>n m. gm_put n True m) ns m) p \<longleftrightarrow> p \<in> set ns \<or> flag m p"
  by (induction ns arbitrary: m) auto

lemma run_providers_flag:
  "flag (run_providers ag mcp) p \<longleftrightarrow>
     (if list_ex isAllowAllEntry (ag_Toolbelt ag) then p = ''*''
      else p \<in> set mcp \<or> p \<in> {''builtin'', ''muninndb''} \<or> (p \<noteq> [] \<and> p \<in> tb_Provider ` set (ag_Toolbelt ag)))"
proof -
  have "''*'' \<in> tb_Provider ` set (ag_Toolbelt ag) \<Longrightarrow> list_ex isAllowAllEntry (ag_Toolbelt ag)"
    by (auto simp: list_ex_iff isAllowAllEntry_def)
  then have star: "flag (AllowedProviders (ag_Toolbelt ag)) ''*'' \<longleftrightarrow> list_ex isAllowAllEntry (ag_Toolbelt ag)"
    by (auto simp: AllowedProviders_flag)
  show ?thesis
  proof (cases "list_ex isAllowAllEntry (ag_Toolbelt ag)")
    case True
    then show ?thesis using star by (simp add: run_providers_def AllowedProviders_flag)
  next
    case False
    then have "flag (AllowedProviders (ag_Toolbelt ag)) p \<longleftrightarrow> p \<noteq> [] \<and> p \<in> tb_Provider ` set (ag_Toolbelt ag)"
      by (simp add: AllowedProviders_flag)
    moreover have "\<not> flag (AllowedProviders (ag_Toolbelt ag)) ''*''" using False star by simp
    ultimately show ?thesis using False by (auto simp: run_providers_def Let_def flag_fold_put)
  qed
qed

lemma WatchedProviders_flag: "flag (WatchedProviders tb) p \<longleftrightarrow> (\<exists>e\<in>set tb. tb_ApprovalGate e \<and> tb_Provider e = p)"
proof -
  have "flag (fold (\<lambda>e out. if tb_ApprovalGate e then gm_put (tb_Provider e) True out else out) tb m) p \<longleftrightarrow>
      flag m p \<or> (\<exists>e\<in>set tb. tb_ApprovalGate e \<and> tb_Provider e = p)" for m
    by (induction tb arbitrary: m) auto
  then show ?thesis by (simp add: WatchedProviders_def)
qed

lemma run_gate_simps [simp]:
  "g_skipAll (run_gate ag mcp g) = g_skipAll g" "g_prompt (run_gate ag mcp g) = g_prompt g"
  "g_promptCtx (run_gate ag mcp g) = g_promptCtx g" "g_allowed (run_gate ag mcp g) = Some (run_providers ag mcp)"
  "g_watched (run_gate ag mcp g) = WatchedProviders (ag_Toolbelt ag)"
  "g_baseWatched (run_gate ag mcp g) = g_baseWatched g"
  "g_execRequiresPrompt (run_gate ag mcp g) = g_execRequiresPrompt g"
  "g_execPromptExempt (run_gate ag mcp g) = g_execPromptExempt g"
proof -
  have keep: "g_skipAll (SeedSessionAllowed ns h) = g_skipAll h" "g_prompt (SeedSessionAllowed ns h) = g_prompt h"
    "g_promptCtx (SeedSessionAllowed ns h) = g_promptCtx h" "g_allowed (SeedSessionAllowed ns h) = g_allowed h"
    "g_watched (SeedSessionAllowed ns h) = g_watched h" for ns h
    unfolding SeedSessionAllowed_def by (induction ns arbitrary: h) (simp_all add: lruTouch_def)
  show "g_skipAll (run_gate ag mcp g) = g_skipAll g" "g_prompt (run_gate ag mcp g) = g_prompt g"
    "g_promptCtx (run_gate ag mcp g) = g_promptCtx g" "g_allowed (run_gate ag mcp g) = Some (run_providers ag mcp)"
    "g_watched (run_gate ag mcp g) = WatchedProviders (ag_Toolbelt ag)"
    "g_baseWatched (run_gate ag mcp g) = g_baseWatched g"
    "g_execRequiresPrompt (run_gate ag mcp g) = g_execRequiresPrompt g"
    "g_execPromptExempt (run_gate ag mcp g) = g_execPromptExempt g"
    by (simp_all add: run_gate_def gate_Fork_def keep)
qed

lemma run_gate_session:
  "sessionAllowedFor (run_gate ag mcp g) n \<Longrightarrow> sessionAllowedFor g n \<or> n \<in> set (ag_ApprovedTools ag) \<or> ''*'' \<in> set (ag_ApprovedTools ag)"
  by (auto simp: run_gate_def sessionAllowedFor_def gate_Fork_def dest: flag_Seed)

text \<open>
  A call of a tool of a configured server always comes to the user. Servers start, fail, restart and serve tools in any
  interleaving; an agent with any toolbelt forks its gate of a base gate that watches the servers; then a call
  to a tool of a server, not allowed earlier by the session or the agent's saved approvals, is neither refused for
  its provider nor approved without asking, even where the base gate approves everything: it is asked, or refused for want of a prompt.
\<close>

lemma mcp_calls_are_asked:
  assumes "fold mcp_step events (NewServerManager cfgs, r0) = (m, reg)"
    and "ms \<in> set (mm_servers m)" "n \<in> set (ms_registeredToolNames ms)" "mc_Name (ms_cfg ms) \<in> set mcp"
    and "flag_opt (g_baseWatched g) (mc_Name (ms_cfg ms))"
    and "tw_reg w = reg" "Get reg n = Some t"
    and "\<not> sessionAllowedFor g n" "n \<notin> set (ag_ApprovedTools ag)" "''*'' \<notin> set (ag_ApprovedTools ag)"
  shows "check_begin (run_gate ag mcp g) (call_request cfg w t n args) =
     (if g_prompt g \<or> g_promptCtx g then None else Some (denied_result ReasonPromptUnavailable))"
proof -
  let ?p = "mc_Name (ms_cfg ms)"
  note inv = mcp_run_inv[OF assms(1)]
  have prov: "ProviderFor reg n = ?p" using mcp_inv_provider[OF inv assms(2,3)] by simp
  have "t = mcp_adapter n" using mcp_inv_adapter[OF inv assms(2,3)] assms(7) by (simp add: Get_def split: if_splits)
  then have lvl: "t_Permission t = PermWrite" by (simp add: mcp_adapter_def)
  have "flag (run_providers ag mcp) ?p \<or> flag (run_providers ag mcp) ''*''" using assms(4) by (simp add: run_providers_flag)
  then show ?thesis using run_gate_session[of ag mcp g n] assms(5,6,8-10) lvl
    by (auto simp: check_begin_def provider_refused_def auto_approved_def call_request_def prov)
qed

text \<open>The witnesses: a server that serves one tool, and an agent with a narrow toolbelt.\<close>

definition browser_config :: mcp_config where
  "browser_config = \<lparr>mc_Name = ''playwright'', mc_Command = ''playwright-mcp'', mc_Transport = []\<rparr>"

definition browser_start :: "mcp_event list" where
  "browser_start = [McpStart (\<lambda>c. Some (1, [''browser_navigate'']))]"

definition browser_registry :: registry where
  "browser_registry = snd (fold mcp_step browser_start (NewServerManager [browser_config], NewRegistry))"

definition coder :: agent_grants where
  "coder = \<lparr>ag_ModelID = ''qwen2.5-coder:7b'', ag_MemoryMode = [], ag_Toolbelt = [], ag_LocalTools = [''bash''], ag_ApprovedTools = []\<rparr>"

definition base_gate :: gate where
  "base_gate = SetBaseWatchedProviders (Some [(''playwright'', True)]) (NewGate True True)"

definition belt_world :: "registry \<Rightarrow> gate \<Rightarrow> tool_world" where
  "belt_world reg g = \<lparr>tw_reg = reg, tw_gate = g, tw_vaultTools = [], tw_warned = False, tw_warnedOnce = False, tw_trace = []\<rparr>"

definition belt_config :: "string list \<Rightarrow> loop_config" where
  "belt_config schemas = \<lparr>lc_MaxTurns = 1, lc_Schemas = schemas, lc_hasGate = True, lc_hasBeforeWrite = False, lc_hasEvents = False,
     lc_hasWarnOnce = False, lc_hasReconnector = False, lc_MemoryUserMsg = [], lc_AgentName = ''Coder'', lc_SessionID = ''s1'',
     lc_pre = [], lc_post = []\<rparr>"

section \<open>No grant at all\<close>

lemma tryExecuteTool_executes: "EvExecute n a \<in> set (tw_trace (fst (tryExecuteTool cfg env n t a w)))"
proof -
  have "tw_trace w2 = tw_trace w1" if "TryReconnect (ce_reconnect env) w1 = (w2, ok)" for w1 w2 ok
    using trace_reconnect[of "ce_reconnect env" w1] that by simp
  then show ?thesis
    by (auto simp: tryExecuteTool_def execute_tool_def split: sum.splits prod.splits option.splits)
qed

lemma run_admitted_executes: "EvExecute n a \<in> set (tw_trace (fst (run_admitted cfg env cid t n a w)))"
proof -
  obtain w1 out where te: "tryExecuteTool cfg env n t a (emit [EvToolCall cid n a] w) = (w1, out)" by fastforce
  then have ex: "EvExecute n a \<in> set (tw_trace w1)" using tryExecuteTool_executes[of n a cfg env t "emit [EvToolCall cid n a] w"] by simp
  show ?thesis
  proof (cases out)
    case (Inl p)
    then show ?thesis using te ex by (simp add: run_admitted_def Let_def)
  next
    case (Inr r)
    obtain w2 r2 where d: "degrade cfg n (w1, r) = (w2, r2)" by fastforce
    then have "EvExecute n a \<in> set (tw_trace w2)" using trace_degrade[of cfg n w1 r] ex by auto
    then show ?thesis using te Inr d by (simp add: run_admitted_def)
  qed
qed

definition bash_registry :: registry where
  "bash_registry = TagTools [''bash''] ''builtin'' (Register bash_tool NewRegistry)"

text \<open>
  An agent without any grant may use every tool. An agent with no local tools and no toolbelt, on a model
  too small to delegate, without a vault, is offered nothing; but the loop reads an empty offer as no restriction: a call
  of any built-in tool of the registry is executed when the gate approves
  tools on its own, although no rule of the agent's configuration grants it.
\<close>

lemma no_grants_runs_everything:
  assumes "registry_inv reg" "schema_named reg" "no_grants ag reg"
    and "lc_Schemas cfg = run_schemas space hire ag reg" "lc_hasGate cfg" "lc_pre cfg = []" "\<not> lc_hasBeforeWrite cfg"
    and "tw_reg w = reg" "tw_gate w = run_gate ag mcp g" "Get reg (tc_Name tc) = Some t" "tc_Name tc \<noteq> []"
    and "ProviderFor reg (tc_Name tc) = ''builtin''" "\<not> isMuninnWriteTool (tc_Name tc)"
    and "g_skipAll g" "\<not> flag_opt (g_baseWatched g) ''builtin''" "\<not> g_execRequiresPrompt g"
  shows "\<not> may_use ag reg (tc_Name tc) \<and> EvExecute (tc_Name tc) (tc_Args tc) \<in> set (tw_trace (fst (executeSingle cfg env idx tc w)))"
proof -
  let ?n = "tc_Name tc" and ?a = "tc_Args tc"
  let ?req = "call_request cfg w t ?n ?a"
  have no: "\<not> may_use ag reg ?n" by (rule no_grants_nothing(1)[OF assms(1-3)])
  have all: "toolSchemaAllows cfg ?n" using no_grants_nothing(2)[OF assms(1-3)] assms(4) by (simp add: toolSchemaAllows_def)
  have belt: "ag_Toolbelt ag = []" using assms(3) by (simp add: no_grants_def)
  have prov: "pr_Provider ?req = ''builtin''" using assms(8,12) by (simp add: call_request_def)
  have "flag (run_providers ag mcp) ''builtin''" by (simp add: run_providers_flag belt)
  moreover have "\<not> flag (WatchedProviders (ag_Toolbelt ag)) ''builtin''" by (simp add: WatchedProviders_flag belt)
  ultimately have "check_begin (run_gate ag mcp g) ?req = Some allowed_result"
    using assms(14-16) by (simp add: check_begin_def provider_refused_def auto_approved_def prov)
  then have gc: "gate_call cfg env t ?n ?a w = (emit [EvGate ?req True] (w\<lparr>tw_gate := run_gate ag mcp g\<rparr>), None)"
    using assms(5,9) by (simp add: gate_call_def CheckDetailedCtx_def allowed_result_def Let_def)
  have "executeSingle cfg env idx tc w =
      run_admitted cfg env (call_id env idx tc) t ?n ?a (emit [EvGate ?req True] (w\<lparr>tw_gate := run_gate ag mcp g\<rparr>))"
    using assms(6-8,10,11,13) all gc by (simp add: executeSingle_def Let_def)
  moreover have "EvExecute ?n ?a \<in> set (tw_trace (fst (run_admitted cfg env cid t ?n ?a w1)))" for cid w1
    by (rule run_admitted_executes)
  ultimately show ?thesis using no by simp
qed

text \<open>The agent \<open>coder\<close> without its local tool runs \<^verbatim>\<open>bash\<close> all the same.\<close>

definition belt_env :: call_env where
  "belt_env = \<lparr>ce_nano = 0, ce_ask = (\<lambda>_ _. Answered Deny), ce_during = (\<lambda>g. g), ce_before = (\<lambda>_ _ _. Inr True), ce_read = (\<lambda>_. None),
     ce_exec = (\<lambda>_ _ _. Inr \<lparr>tr_Output = ''ok'', tr_Error = [], tr_IsError = False\<rparr>), ce_reconnect = ConnectFails\<rparr>"

definition list_call :: tool_call where
  "list_call = \<lparr>tc_ID = ''c1'', tc_Name = ''bash'', tc_Args = [(''command'', JStr ''ls'')]\<rparr>"

definition bare_coder :: agent_grants where
  "bare_coder = coder\<lparr>ag_LocalTools := []\<rparr>"

lemma bash_registry_ok: "registry_inv bash_registry" "schema_named bash_registry" "Get bash_registry ''bash'' = Some bash_tool"
  "ProviderFor bash_registry ''bash'' = ''builtin''"
  by code_simp+

text \<open>The agent \<open>coder\<close> runs the tool it has; here the tool panics.\<close>

definition panic_turns :: "nat \<Rightarrow> turn_env" where
  "panic_turns turn = (bash_turns turn)\<lparr>tn_calls := (\<lambda>_. belt_env\<lparr>ce_exec := (\<lambda>_ _ _. Inl ''boom'')\<rparr>)\<rparr>"

theorem agent_uses_its_grant_witness:
  "Get bash_registry ''bash'' \<noteq> None \<and> may_use coder bash_registry ''bash'' \<and> \<not> withheld coder ''bash''"
proof (rule agent_uses_its_grant[where cfg = "belt_config [''bash'']" and space = "[]" and hire = False
      and w = "belt_world bash_registry (run_gate coder [] (NewGate True True))"])
  show "registry_inv bash_registry" "schema_named bash_registry" by (fact bash_registry_ok)+
  show "lc_Schemas (belt_config [''bash'']) = run_schemas [] False coder bash_registry" by code_simp
  show "lc_Schemas (belt_config [''bash'']) \<noteq> []" by (simp add: belt_config_def)
  show "tw_trace (belt_world bash_registry (run_gate coder [] (NewGate True True))) = []" by (simp add: belt_world_def)
  show "EvExecute ''bash'' [] \<in> set (tw_trace (ls_world (fst (RunLoop (belt_config [''bash'']) plain_speech panic_turns bash_ask
      (belt_world bash_registry (run_gate coder [] (NewGate True True)))))))" by code_simp
qed

text \<open>
  An approval gate on the wildcard entry watches no provider: the gate compares providers by name.
\<close>

lemma wildcard_gate_never_watches:
  assumes "ag_Toolbelt ag = [\<lparr>tb_ConnectionID = c, tb_Provider = ''*'', tb_Profile = p, tb_ApprovalGate = True\<rparr>]"
    and "pr_Provider req \<noteq> ''*''" "g_skipAll g" "\<not> flag_opt (g_baseWatched g) (pr_Provider req)" "\<not> g_execRequiresPrompt g"
  shows "check_begin (run_gate ag mcp g) req = Some allowed_result"
  using assms by (simp add: check_begin_def provider_refused_def auto_approved_def run_providers_flag WatchedProviders_flag isAllowAllEntry_def)

text \<open>A configured server named with the wildcard opens the providers to every agent.\<close>

lemma star_server_opens_gate:
  "''*'' \<in> set mcp \<Longrightarrow> \<not> provider_refused (run_gate ag mcp g) req"
  by (simp add: provider_refused_def run_providers_flag)

end
