(* ===== verification/AgentStore.thy ===== *)
theory AgentStore
  imports Toolbelt
begin

text \<open>
  The definitions of agents on disk (\<^verbatim>\<open>internal/agents/config.go\<close>,
  \<^verbatim>\<open>internal/agents/personality.go\<close>) and the one way they are changed
  (\<^verbatim>\<open>internal/server/persist_agent.go\<close>, \<open>grantApprovedTool\<close> of
  \<^verbatim>\<open>internal/server/permission_prompts.go\<close>): loading and saving of files, validation, vault names, merging of
  an incoming form with what is stored, optimistic versions, renames. A file holds the definition it was
  written from, or cannot be read; its YAML text is not modelled. A file is known by its name without extension;
  the fields of a definition that nothing here reads are left out.
\<close>

section \<open>Definitions of agents\<close>

record agent_def =
  ad_Name :: string
  ad_Model :: string
  ad_SystemPrompt :: string
  ad_Color :: string
  ad_IsDefault :: bool
  ad_Provider :: string
  ad_Endpoint :: string
  ad_APIKey :: string
  ad_VaultName :: string
  ad_Plasticity :: string
  ad_MemoryEnabled :: "bool option"
  ad_ContextNotesEnabled :: bool
  ad_MemoryMode :: string
  ad_VaultDescription :: string
  ad_MemoryType :: string
  ad_Toolbelt :: "toolbelt_entry list"
  ad_Skills :: "string list"
  ad_LocalTools :: "string list"
  ad_ApprovedTools :: "string list option"
  ad_LoadedApprovedTools :: "string list option"
  ad_Description :: string
  ad_Personality :: string
  ad_VetWork :: "bool option"
  ad_Version :: int

definition ascii_alnum :: "char \<Rightarrow> bool" where
  "ascii_alnum c \<longleftrightarrow> (CHR ''a'' \<le> c \<and> c \<le> CHR ''z'') \<or> (CHR ''A'' \<le> c \<and> c \<le> CHR ''Z'') \<or> (CHR ''0'' \<le> c \<and> c \<le> CHR ''9'')"

definition slug_char_ascii :: "char \<Rightarrow> bool" where
  "slug_char_ascii c \<longleftrightarrow> (CHR ''a'' \<le> c \<and> c \<le> CHR ''z'') \<or> (CHR ''0'' \<le> c \<and> c \<le> CHR ''9'')"

text \<open>The name part of a default vault: other characters are dropped.\<close>

definition vault_segment :: "string \<Rightarrow> string" where
  "vault_segment name =
     concat (map (\<lambda>c. if slug_char_ascii c then [c] else if c = CHR '' '' then ''-'' else []) (to_lower name))"

definition ResolvedVaultName :: "string \<Rightarrow> agent_def \<Rightarrow> string" where
  "ResolvedVaultName username a =
     (if ad_VaultName a \<noteq> [] then ad_VaultName a else ''huginn:agent:'' @ username @ '':'' @ vault_segment (ad_Name a))"

definition CheckVaultNameCollision :: "agent_def \<Rightarrow> string \<Rightarrow> string \<Rightarrow> agent_def list \<Rightarrow> string option" where
  "CheckVaultNameCollision incoming excludeName username allAgents =
     map_option ad_Name (find (\<lambda>a. \<not> (excludeName \<noteq> [] \<and> equal_fold (ad_Name a) excludeName)
        \<and> ResolvedVaultName username a = ResolvedVaultName username incoming) allAgents)"

definition ApplyMemoryType :: "agent_def \<Rightarrow> agent_def option" where
  "ApplyMemoryType d =
     (if ad_MemoryType d = [] then Some d
      else if ad_MemoryType d = ''none'' then Some (d\<lparr>ad_MemoryEnabled := Some False, ad_ContextNotesEnabled := False, ad_MemoryType := []\<rparr>)
      else if ad_MemoryType d = ''context'' then Some (d\<lparr>ad_MemoryEnabled := Some False, ad_ContextNotesEnabled := True, ad_MemoryType := []\<rparr>)
      else if ad_MemoryType d = ''muninndb'' then Some (d\<lparr>ad_MemoryEnabled := Some True, ad_ContextNotesEnabled := False, ad_MemoryType := []\<rparr>)
      else None)"

definition DeriveMemoryType :: "agent_def \<Rightarrow> agent_def" where
  "DeriveMemoryType d =
     d\<lparr>ad_MemoryType := (if ad_ContextNotesEnabled d then ''context''
        else if ad_MemoryEnabled d = Some True then ''muninndb'' else ''none'')\<rparr>"

section \<open>Validation\<close>

definition validPlasticity :: "string list" where
  "validPlasticity = [[], ''default'', ''knowledge-graph'', ''reference'']"

definition validMemoryMode :: "string list" where
  "validMemoryMode = [[], ''passive'', ''conversational'', ''immersive'']"

definition validPersonalityValues :: "string list" where
  "validPersonalityValues = [[], ''default'', ''strict-reviewer'', ''fast-builder'', ''skeptical-architect'', ''terse-operator'']"

definition ValidPersonality :: "string \<Rightarrow> bool" where
  "ValidPersonality p \<longleftrightarrow> p \<in> set validPersonalityValues"

definition ResolveVetWork :: "string \<Rightarrow> bool option \<Rightarrow> bool" where
  "ResolveVetWork personality override = (case override of Some b \<Rightarrow> b | None \<Rightarrow> personality = ''strict-reviewer'')"

definition isValidAgentNameChar :: "char \<Rightarrow> bool" where
  "isValidAgentNameChar c \<longleftrightarrow> ascii_alnum c \<or> c \<in> {CHR '' '', CHR ''-'', CHR ''_'', CHR ''.''}"

definition hex_digit :: "char \<Rightarrow> bool" where
  "hex_digit c \<longleftrightarrow> (CHR ''0'' \<le> c \<and> c \<le> CHR ''9'') \<or> (CHR ''a'' \<le> c \<and> c \<le> CHR ''f'') \<or> (CHR ''A'' \<le> c \<and> c \<le> CHR ''F'')"

definition agentColor :: "string \<Rightarrow> bool" where
  "agentColor s \<longleftrightarrow> length s = 7 \<and> hd s = CHR ''#'' \<and> list_all hex_digit (tl s)"

datatype agent_invalid =
  InvNameRequired | InvNameLong | InvNameChar | InvNameStart | InvModel | InvColor | InvDescription
| InvPlasticity | InvMemoryMode | InvPersonality

definition ad_Validate :: "agent_def \<Rightarrow> agent_invalid option" where
  "ad_Validate d =
     (if trim_space (ad_Name d) = [] then Some InvNameRequired
      else if length (ad_Name d) > 128 then Some InvNameLong
      else if \<not> list_all isValidAgentNameChar (ad_Name d) then Some InvNameChar
      else if \<not> ascii_alnum (hd (ad_Name d)) then Some InvNameStart
      else if trim_space (ad_Model d) = [] then Some InvModel
      else if ad_Color d \<noteq> [] \<and> \<not> agentColor (ad_Color d) then Some InvColor
      else if length (ad_Description d) > 500 then Some InvDescription
      else if ad_Plasticity d \<notin> set validPlasticity then Some InvPlasticity
      else if ad_MemoryMode d \<notin> set validMemoryMode then Some InvMemoryMode
      else if \<not> ValidPersonality (ad_Personality d) then Some InvPersonality
      else None)"

definition InferProvider :: "string \<Rightarrow> string" where
  "InferProvider model =
     (let lower = to_lower model
      in if has_prefix lower ''claude'' then ''anthropic''
         else if has_prefix lower ''gpt-'' \<or> has_prefix lower ''o1'' \<or> has_prefix lower ''o3'' then ''openai''
         else if has_prefix lower ''gemini'' then []
         else if has_prefix lower ''llama'' \<or> has_prefix lower ''mistral'' then ''ollama''
         else [])"

text \<open>The index of the first occurrence; the first sentence of a prompt, at most 200 bytes.\<close>

fun index_of :: "string \<Rightarrow> string \<Rightarrow> nat option" where
  "index_of [] p = (if p = [] then Some 0 else None)"
| "index_of (c # s) p = (if has_prefix (c # s) p then Some 0 else map_option Suc (index_of s p))"

definition ExtractRoleBlurb :: "string \<Rightarrow> string \<Rightarrow> string" where
  "ExtractRoleBlurb systemPrompt override =
     (if override \<noteq> [] then override
      else
        let prompt = trim_space systemPrompt
        in if prompt = [] then []
           else
             let prompt = (case index_of prompt '', '' of
                   Some i \<Rightarrow> if 0 < i \<and> i < 20 then trim_space (drop (i + 2) prompt) else prompt | None \<Rightarrow> prompt);
                 first = takeWhile (\<lambda>c. c \<notin> set ''.!?'') prompt;
                 prompt = (if first \<noteq> [] then first else prompt)
             in if length prompt > 200 then take 197 prompt @ ''...'' else prompt)"

section \<open>Files\<close>

text \<open>The bytes that continue a rune are skipped: each rune becomes one byte.\<close>

definition sanitizeAgentName :: "string \<Rightarrow> string" where
  "sanitizeAgentName name =
     concat (map (\<lambda>c. if 128 \<le> (of_char c :: nat) \<and> (of_char c :: nat) < 192 then []
        else if slug_char_ascii c \<or> c = CHR ''-'' \<or> c = CHR ''_'' then [c] else ''_'') (to_lower name))"

datatype agent_file = AgentFile agent_def | BadAgentFile

datatype legacy_file = NoLegacy | EmptyLegacy | BadLegacy | LegacyAgents "agent_def list"

record agent_dir =
  af_yaml :: "(string, agent_file) gomap"
  af_json :: "(string, agent_file) gomap"
  af_legacy :: legacy_file

definition LoadAgentsFrom :: "legacy_file \<Rightarrow> agent_def list option" where
  "LoadAgentsFrom f = (case f of NoLegacy \<Rightarrow> Some [] | EmptyLegacy \<Rightarrow> Some [] | BadLegacy \<Rightarrow> None | LegacyAgents ds \<Rightarrow> Some ds)"

definition LoadAgentsFromBase :: "agent_dir \<Rightarrow> agent_def list option" where
  "LoadAgentsFromBase fs =
     (let entries = filter (\<lambda>(b, f). b \<noteq> ''.draft'')
            (af_yaml fs @ filter (\<lambda>(b, f). gm_get (af_yaml fs) b = None) (af_json fs));
          agentsList = List.map_filter (\<lambda>(b, f). case f of AgentFile d \<Rightarrow> Some d | BadAgentFile \<Rightarrow> None) entries
      in if agentsList \<noteq> [] then Some agentsList else LoadAgentsFrom (af_legacy fs))"

text \<open>What a file keeps: the fields of the form are transient, and an empty list is omitted.\<close>

definition persisted :: "agent_def \<Rightarrow> agent_def" where
  "persisted d = d\<lparr>ad_MemoryType := [], ad_LoadedApprovedTools := None,
     ad_ApprovedTools := (if ad_ApprovedTools d = Some [] then None else ad_ApprovedTools d)\<rparr>"

definition SaveAgent :: "agent_def \<Rightarrow> agent_dir \<Rightarrow> agent_dir" where
  "SaveAgent agent fs =
     (let agent = agent\<lparr>ad_Version := ad_Version agent + 1\<rparr>;
          name = (if ad_Name agent = [] then ''unnamed'' else ad_Name agent)
      in fs\<lparr>af_yaml := gm_put (sanitizeAgentName name) (AgentFile (persisted agent)) (af_yaml fs)\<rparr>)"

definition DeleteAgent :: "string \<Rightarrow> agent_dir \<Rightarrow> agent_dir option" where
  "DeleteAgent name fs =
     (let safe = sanitizeAgentName name
      in if gm_get (af_yaml fs) safe \<noteq> None then Some (fs\<lparr>af_yaml := gm_del safe (af_yaml fs)\<rparr>)
         else if gm_get (af_json fs) safe \<noteq> None then Some (fs\<lparr>af_json := gm_del safe (af_json fs)\<rparr>)
         else None)"

definition MigrateAgents :: "agent_dir \<Rightarrow> agent_dir" where
  "MigrateAgents fs =
     (case af_legacy fs of LegacyAgents ds \<Rightarrow> (fold SaveAgent ds fs)\<lparr>af_legacy := NoLegacy\<rparr> | _ \<Rightarrow> fs)"

section \<open>Writing a definition\<close>

definition stringSetEqual :: "string list \<Rightarrow> string list \<Rightarrow> bool" where
  "stringSetEqual a b \<longleftrightarrow> set a = set b"

definition approvedToolsExplicitlyEdited :: "string list option \<Rightarrow> string list option \<Rightarrow> bool" where
  "approvedToolsExplicitlyEdited current loaded =
     (case current of None \<Rightarrow> False
      | Some c \<Rightarrow> \<not> stringSetEqual c (case loaded of None \<Rightarrow> [] | Some l \<Rightarrow> l))"

datatype toolbelt_verdict = ToolbeltFails string | ToolbeltInvalid string | ToolbeltValid

datatype persist_error =
  PersistNameRequired | PersistVersionConflict int int | PersistNameTaken string | PersistEphemeral string
| PersistVaultTaken string | PersistBadMemoryType | PersistInvalid agent_invalid | PersistToolbeltFails string
| PersistToolbeltInvalid string | PersistSaveFails

fun persist_status :: "persist_error \<Rightarrow> nat" where
  "persist_status PersistNameRequired = 400"
| "persist_status (PersistVersionConflict s v) = 409"
| "persist_status (PersistNameTaken n) = 409"
| "persist_status (PersistEphemeral n) = 409"
| "persist_status (PersistVaultTaken n) = 422"
| "persist_status PersistBadMemoryType = 400"
| "persist_status (PersistInvalid i) = 422"
| "persist_status (PersistToolbeltFails s) = 500"
| "persist_status (PersistToolbeltInvalid s) = 422"
| "persist_status PersistSaveFails = 500"

record persist_env =
  pe_ephemeral :: "string \<Rightarrow> bool"
  pe_toolbelt :: "toolbelt_entry list \<Rightarrow> toolbelt_verdict"
  pe_saves :: bool

definition existing_agents :: "agent_dir \<Rightarrow> agent_def list" where
  "existing_agents fs = (case LoadAgentsFromBase fs of None \<Rightarrow> [] | Some ds \<Rightarrow> ds)"

definition find_agent :: "string \<Rightarrow> agent_dir \<Rightarrow> agent_def option" where
  "find_agent pathName fs = find (\<lambda>a. equal_fold (ad_Name a) pathName) (existing_agents fs)"

text \<open>What the stored definition lends to the incoming one.\<close>

definition merge_stored :: "agent_def option \<Rightarrow> agent_def \<Rightarrow> agent_def" where
  "merge_stored existing d =
     (case existing of
        None \<Rightarrow> d\<lparr>ad_LoadedApprovedTools := None\<rparr>
      | Some e \<Rightarrow>
          d\<lparr>ad_APIKey := (if ad_APIKey d = ''[REDACTED]'' then ad_APIKey e else ad_APIKey d),
            ad_ApprovedTools := (if approvedToolsExplicitlyEdited (ad_ApprovedTools d) (ad_LoadedApprovedTools d)
                                 then ad_ApprovedTools d else ad_ApprovedTools e),
            ad_LoadedApprovedTools := None,
            ad_Personality := (if ad_Personality d = [] then ad_Personality e else ad_Personality d),
            ad_VetWork := (if ad_VetWork d = None then ad_VetWork e else ad_VetWork d)\<rparr>)"

text \<open>The fields that are filled in before validation.\<close>

definition fill_in :: "agent_def \<Rightarrow> agent_def" where
  "fill_in d = (if ad_Provider d = [] \<and> ad_Model d \<noteq> [] then d\<lparr>ad_Provider := InferProvider (ad_Model d)\<rparr> else d)"

definition describe :: "agent_def \<Rightarrow> agent_def" where
  "describe d = (if ad_Description d = [] then d\<lparr>ad_Description := ExtractRoleBlurb (ad_SystemPrompt d) []\<rparr> else d)"

definition persistAgent :: "persist_env \<Rightarrow> agent_def \<Rightarrow> string \<Rightarrow> agent_dir \<Rightarrow> persist_error + (bool \<times> agent_dir)" where
  "persistAgent env incoming pathName fs =
     (if trim_space pathName = [] then Inl PersistNameRequired
      else
        let existing = find_agent pathName fs;
            incoming = merge_stored existing incoming;
            isRename = \<not> equal_fold (ad_Name incoming) pathName
        in if ad_Version incoming > 0 \<and> (case existing of None \<Rightarrow> False | Some e \<Rightarrow> ad_Version incoming \<noteq> ad_Version e)
           then Inl (PersistVersionConflict (case existing of None \<Rightarrow> 0 | Some e \<Rightarrow> ad_Version e) (ad_Version incoming))
           else if (isRename \<or> existing = None) \<and> list_ex (\<lambda>a. equal_fold (ad_Name a) (ad_Name incoming)
                     \<and> \<not> (isRename \<and> equal_fold (ad_Name a) pathName)) (existing_agents fs)
           then Inl (PersistNameTaken (ad_Name incoming))
           else if (isRename \<or> existing = None) \<and> pe_ephemeral env (ad_Name incoming) then Inl (PersistEphemeral (ad_Name incoming))
           else case CheckVaultNameCollision incoming pathName [] (existing_agents fs) of
             Some owner \<Rightarrow> Inl (PersistVaultTaken owner)
           | None \<Rightarrow>
               (case ApplyMemoryType (fill_in incoming) of
                  None \<Rightarrow> Inl PersistBadMemoryType
                | Some d \<Rightarrow>
                    let d = describe d
                    in case ad_Validate d of
                         Some e \<Rightarrow> Inl (PersistInvalid e)
                       | None \<Rightarrow>
                           (case pe_toolbelt env (ad_Toolbelt d) of
                              ToolbeltFails s \<Rightarrow> Inl (PersistToolbeltFails s)
                            | ToolbeltInvalid s \<Rightarrow> Inl (PersistToolbeltInvalid s)
                            | ToolbeltValid \<Rightarrow>
                                if \<not> pe_saves env then Inl PersistSaveFails
                                else let fs1 = SaveAgent d fs;
                                         fs2 = (if isRename then case DeleteAgent pathName fs1 of Some f \<Rightarrow> f | None \<Rightarrow> fs1 else fs1)
                                     in Inr (existing = None, fs2))))"

definition PersistAgent :: "persist_env \<Rightarrow> agent_def \<Rightarrow> agent_dir \<Rightarrow> persist_error + (bool \<times> agent_dir)" where
  "PersistAgent env incoming fs =
     (if trim_space (ad_Name incoming) = [] then Inl PersistNameRequired else persistAgent env incoming (ad_Name incoming) fs)"

section \<open>Grants of tools\<close>

datatype grant_error = GrantLoad | GrantNoAgent | GrantPersist persist_error

definition grantApprovedTool :: "persist_env \<Rightarrow> string \<Rightarrow> string \<Rightarrow> agent_dir \<Rightarrow> grant_error + agent_dir" where
  "grantApprovedTool env agentName toolName fs =
     (case LoadAgentsFromBase fs of
        None \<Rightarrow> Inl GrantLoad
      | Some ds \<Rightarrow>
          (case find (\<lambda>d. ad_Name d = agentName) ds of
             None \<Rightarrow> Inl GrantNoAgent
           | Some d \<Rightarrow>
               let tools = (case ad_ApprovedTools d of None \<Rightarrow> [] | Some ts \<Rightarrow> ts)
               in if toolName \<in> set tools then Inr fs
                  else case persistAgent env (d\<lparr>ad_ApprovedTools := Some (tools @ [toolName])\<rparr>) (ad_Name d) fs of
                         Inl e \<Rightarrow> Inl (GrantPersist e)
                       | Inr (created, fs') \<Rightarrow> Inr fs'))"

text \<open>The agent of a run is made from its definition.\<close>

definition def_grants :: "agent_def \<Rightarrow> agent_grants" where
  "def_grants d = \<lparr>ag_ModelID = ad_Model d, ag_MemoryMode = ad_MemoryMode d, ag_Toolbelt = ad_Toolbelt d,
     ag_LocalTools = ad_LocalTools d, ag_ApprovedTools = (case ad_ApprovedTools d of None \<Rightarrow> [] | Some ts \<Rightarrow> ts)\<rparr>"

section \<open>A sound store\<close>

text \<open>The files that this code writes: each under the name of its agent, which is valid, with a vault of its own.\<close>

definition store_ok :: "agent_dir \<Rightarrow> bool" where
  "store_ok fs \<longleftrightarrow> gm_wf (af_yaml fs) \<and> af_json fs = [] \<and> af_legacy fs = NoLegacy
     \<and> (\<forall>b f. gm_get (af_yaml fs) b = Some f \<longrightarrow>
          (\<exists>d. f = AgentFile d \<and> b = sanitizeAgentName (ad_Name d) \<and> ad_Validate d = None \<and> persisted d = d))"

definition vaults_apart :: "agent_dir \<Rightarrow> bool" where
  "vaults_apart fs \<longleftrightarrow> (\<forall>b1 d1 b2 d2. gm_get (af_yaml fs) b1 = Some (AgentFile d1) \<and> gm_get (af_yaml fs) b2 = Some (AgentFile d2)
     \<and> b1 \<noteq> b2 \<longrightarrow> ResolvedVaultName [] d1 \<noteq> ResolvedVaultName [] d2)"

lemma sanitize_cong: "equal_fold a b \<Longrightarrow> sanitizeAgentName a = sanitizeAgentName b"
  by (simp add: sanitizeAgentName_def equal_fold_def)

lemma sanitize_no_dot: "sanitizeAgentName n \<noteq> ''.draft''"
proof
  assume "sanitizeAgentName n = ''.draft''"
  then have "CHR ''.'' \<in> set (sanitizeAgentName n)" by simp
  then show False by (auto simp: sanitizeAgentName_def slug_char_ascii_def split: if_splits)
qed

lemma set_map_filter_iff: "y \<in> set (List.map_filter f xs) \<longleftrightarrow> (\<exists>x\<in>set xs. f x = Some y)"
  by (induction xs) (auto simp: List.map_filter_simps split: option.splits)

definition file_def :: "agent_file \<Rightarrow> agent_def option" where
  "file_def f = (case f of AgentFile d \<Rightarrow> Some d | BadAgentFile \<Rightarrow> None)"

lemma existing_ok:
  assumes "store_ok fs"
  shows "existing_agents fs = List.map_filter (\<lambda>(b, f). file_def f) (af_yaml fs)"
proof -
  have "filter (\<lambda>(b, f). b \<noteq> ''.draft'') (af_yaml fs) = af_yaml fs"
  proof (rule filter_True, rule ballI)
    fix bf
    assume "bf \<in> set (af_yaml fs)"
    then have "gm_get (af_yaml fs) (fst bf) = Some (snd bf)" using assms by (simp add: store_ok_def gm_get_Some_iff)
    then have "fst bf = sanitizeAgentName (ad_Name d)" if "snd bf = AgentFile d" for d using assms that by (auto simp: store_ok_def)
    moreover obtain d where "snd bf = AgentFile d" using assms \<open>gm_get (af_yaml fs) (fst bf) = Some (snd bf)\<close> by (auto simp: store_ok_def)
    ultimately show "case bf of (b, f) \<Rightarrow> b \<noteq> ''.draft''" using sanitize_no_dot by (cases bf) auto
  qed
  then show ?thesis using assms
    by (auto simp: existing_agents_def LoadAgentsFromBase_def LoadAgentsFrom_def store_ok_def Let_def file_def_def split: option.splits)
qed

lemma in_existing:
  assumes "store_ok fs"
  shows "a \<in> set (existing_agents fs) \<longleftrightarrow> gm_get (af_yaml fs) (sanitizeAgentName (ad_Name a)) = Some (AgentFile a)"
proof
  assume "a \<in> set (existing_agents fs)"
  then obtain b where "(b, AgentFile a) \<in> set (af_yaml fs)"
    by (auto simp: existing_ok[OF assms] set_map_filter_iff file_def_def split: agent_file.splits)
  then have "gm_get (af_yaml fs) b = Some (AgentFile a)" using assms by (simp add: store_ok_def gm_get_Some_iff)
  then show "gm_get (af_yaml fs) (sanitizeAgentName (ad_Name a)) = Some (AgentFile a)" using assms by (auto simp: store_ok_def)
next
  assume "gm_get (af_yaml fs) (sanitizeAgentName (ad_Name a)) = Some (AgentFile a)"
  then have "(sanitizeAgentName (ad_Name a), AgentFile a) \<in> set (af_yaml fs)" by (rule gm_get_SomeD)
  then show "a \<in> set (existing_agents fs)" unfolding existing_ok[OF assms] set_map_filter_iff by (force simp: file_def_def)
qed

lemma find_agent_file:
  assumes "store_ok fs"
  shows "find_agent n fs = Some e \<Longrightarrow> equal_fold (ad_Name e) n \<and> gm_get (af_yaml fs) (sanitizeAgentName n) = Some (AgentFile e)"
proof -
  assume "find_agent n fs = Some e"
  then have "e \<in> set (existing_agents fs)" "equal_fold (ad_Name e) n"
    by (auto simp: find_agent_def find_Some_iff)
  then show ?thesis using in_existing[OF assms, of e] sanitize_cong[of "ad_Name e" n] by simp
qed

text \<open>What is saved, and what a successful write has checked.\<close>

definition saved_def :: "agent_def option \<Rightarrow> agent_def \<Rightarrow> agent_def option" where
  "saved_def existing incoming =
     map_option (\<lambda>d. persisted ((describe d)\<lparr>ad_Version := ad_Version (describe d) + 1\<rparr>)) (ApplyMemoryType (fill_in (merge_stored existing incoming)))"

lemma merge_same [simp]:
  "ad_Name (merge_stored e d) = ad_Name d" "ad_VaultName (merge_stored e d) = ad_VaultName d"
  "ad_Version (merge_stored e d) = ad_Version d"
  by (simp_all add: merge_stored_def split: option.splits)

lemma fill_same [simp]:
  "ad_Name (fill_in d) = ad_Name d" "ad_VaultName (fill_in d) = ad_VaultName d" "ad_Version (fill_in d) = ad_Version d"
  "ad_ApprovedTools (fill_in d) = ad_ApprovedTools d"
  "ad_Name (describe d) = ad_Name d" "ad_VaultName (describe d) = ad_VaultName d" "ad_Version (describe d) = ad_Version d"
  "ad_ApprovedTools (describe d) = ad_ApprovedTools d"
  by (simp_all add: fill_in_def describe_def)

lemma apply_same:
  "ApplyMemoryType d = Some d' \<Longrightarrow> ad_Name d' = ad_Name d \<and> ad_VaultName d' = ad_VaultName d \<and> ad_Version d' = ad_Version d
     \<and> ad_ApprovedTools d' = ad_ApprovedTools d"
  by (auto simp: ApplyMemoryType_def split: if_splits)

lemma persisted_idem [simp]: "persisted (persisted x) = persisted x"
  by (cases "ad_ApprovedTools x = Some []") (auto simp: persisted_def)

lemma saved_same:
  assumes "saved_def e incoming = Some d"
  shows "ad_Name d = ad_Name incoming" "ad_VaultName d = ad_VaultName incoming" "ad_Version d = ad_Version incoming + 1"
    "ad_ApprovedTools d = (let a = ad_ApprovedTools (merge_stored e incoming) in if a = Some [] then None else a)"
    and "persisted d = d"
proof -
  obtain z where z: "ApplyMemoryType (fill_in (merge_stored e incoming)) = Some z"
    and d: "d = persisted ((describe z)\<lparr>ad_Version := ad_Version (describe z) + 1\<rparr>)"
    using assms by (auto simp: saved_def_def)
  note same = apply_same[OF z]
  show "ad_Name d = ad_Name incoming" "ad_VaultName d = ad_VaultName incoming" "ad_Version d = ad_Version incoming + 1"
    "ad_ApprovedTools d = (let a = ad_ApprovedTools (merge_stored e incoming) in if a = Some [] then None else a)"
    using same by (auto simp: d persisted_def Let_def)
  show "persisted d = d" unfolding d by (rule persisted_idem)
qed

lemma vault_cong: "ad_Name a = ad_Name b \<Longrightarrow> ad_VaultName a = ad_VaultName b \<Longrightarrow> ResolvedVaultName u a = ResolvedVaultName u b"
  by (simp add: ResolvedVaultName_def)

lemma Validate_persisted [simp]: "ad_Validate (persisted d) = ad_Validate d" "ad_Validate (d\<lparr>ad_Version := v\<rparr>) = ad_Validate d"
  by (simp_all add: ad_Validate_def persisted_def)

lemma valid_name: "ad_Validate d = None \<Longrightarrow> ad_Name d \<noteq> []"
  by (auto simp: ad_Validate_def split: if_splits)

lemma persistAgent_Inr:
  assumes "persistAgent env incoming pathName fs = Inr (created, fs')"
  shows "\<exists>d. saved_def (find_agent pathName fs) incoming = Some d \<and> ad_Validate d = None
     \<and> CheckVaultNameCollision (merge_stored (find_agent pathName fs) incoming) pathName [] (existing_agents fs) = None
     \<and> af_json fs' = (if equal_fold (ad_Name incoming) pathName then af_json fs else af_json fs')
     \<and> fs' = (let fs1 = fs\<lparr>af_yaml := gm_put (sanitizeAgentName (ad_Name incoming)) (AgentFile d) (af_yaml fs)\<rparr>
              in if equal_fold (ad_Name incoming) pathName then fs1
                 else case DeleteAgent pathName fs1 of Some f \<Rightarrow> f | None \<Rightarrow> fs1)
     \<and> \<not> (ad_Version incoming > 0 \<and> (case find_agent pathName fs of None \<Rightarrow> False | Some e \<Rightarrow> ad_Version incoming \<noteq> ad_Version e))
     \<and> created = (find_agent pathName fs = None)"
proof -
  let ?inc = "merge_stored (find_agent pathName fs) incoming"
  obtain d0 where d0: "ApplyMemoryType (fill_in ?inc) = Some d0" and valid: "ad_Validate (describe d0) = None"
    and coll: "CheckVaultNameCollision ?inc pathName [] (existing_agents fs) = None"
    and ver: "\<not> (ad_Version incoming > 0 \<and> (case find_agent pathName fs of None \<Rightarrow> False | Some e \<Rightarrow> ad_Version incoming \<noteq> ad_Version e))"
    and res: "(created, fs') = (find_agent pathName fs = None, let fs1 = SaveAgent (describe d0) fs
        in if \<not> equal_fold (ad_Name incoming) pathName then case DeleteAgent pathName fs1 of Some f \<Rightarrow> f | None \<Rightarrow> fs1 else fs1)"
    using assms by (auto simp: persistAgent_def Let_def split: if_splits option.splits toolbelt_verdict.splits)
  let ?d = "persisted ((describe d0)\<lparr>ad_Version := ad_Version (describe d0) + 1\<rparr>)"
  have "ad_Name (describe d0) = ad_Name incoming" using apply_same[OF d0] by simp
  moreover have "ad_Name (describe d0) \<noteq> []" by (rule valid_name[OF valid])
  ultimately have save: "SaveAgent (describe d0) fs = fs\<lparr>af_yaml := gm_put (sanitizeAgentName (ad_Name incoming)) (AgentFile ?d) (af_yaml fs)\<rparr>"
    by (simp add: SaveAgent_def Let_def)
  have "saved_def (find_agent pathName fs) incoming = Some ?d" by (simp add: saved_def_def d0)
  moreover have "ad_Validate ?d = None" using valid by simp
  ultimately show ?thesis using coll ver res save by (intro exI[of _ ?d]) (auto simp: Let_def)
qed

lemma collision_free:
  assumes "CheckVaultNameCollision d pathName u ds = None" "a \<in> set ds" "\<not> equal_fold (ad_Name a) pathName"
  shows "ResolvedVaultName u a \<noteq> ResolvedVaultName u d"
  using assms by (auto simp: CheckVaultNameCollision_def find_None_iff)

text \<open>The files after a successful write.\<close>

lemma persist_files:
  assumes "store_ok fs" "persistAgent env incoming pathName fs = Inr (created, fs')"
  obtains d where "saved_def (find_agent pathName fs) incoming = Some d" "ad_Validate d = None"
    "af_json fs' = []" "af_legacy fs' = NoLegacy" "gm_wf (af_yaml fs')"
    "\<And>b. gm_get (af_yaml fs') b =
       (if \<not> equal_fold (ad_Name incoming) pathName \<and> b = sanitizeAgentName pathName then None
        else if b = sanitizeAgentName (ad_Name incoming) then Some (AgentFile d) else gm_get (af_yaml fs) b)"
proof -
  obtain d where d: "saved_def (find_agent pathName fs) incoming = Some d" "ad_Validate d = None"
    and fs': "fs' = (let fs1 = fs\<lparr>af_yaml := gm_put (sanitizeAgentName (ad_Name incoming)) (AgentFile d) (af_yaml fs)\<rparr>
              in if equal_fold (ad_Name incoming) pathName then fs1
                 else case DeleteAgent pathName fs1 of Some f \<Rightarrow> f | None \<Rightarrow> fs1)"
    using persistAgent_Inr[OF assms(2)] by blast
  let ?fs1 = "fs\<lparr>af_yaml := gm_put (sanitizeAgentName (ad_Name incoming)) (AgentFile d) (af_yaml fs)\<rparr>"
  have ok: "gm_wf (af_yaml fs)" "af_json fs = []" "af_legacy fs = NoLegacy" using assms(1) by (simp_all add: store_ok_def)
  show thesis
  proof (cases "equal_fold (ad_Name incoming) pathName")
    case True
    then show ?thesis using that[OF d] fs' ok by simp
  next
    case False
    show ?thesis
    proof (cases "gm_get (af_yaml ?fs1) (sanitizeAgentName pathName) = None")
      case True
      then have "fs' = ?fs1" using fs' False ok by (simp add: DeleteAgent_def Let_def)
      moreover have "gm_get (af_yaml ?fs1) b = (if b = sanitizeAgentName pathName then None
          else if b = sanitizeAgentName (ad_Name incoming) then Some (AgentFile d) else gm_get (af_yaml fs) b)" for b
        using True by (cases "b = sanitizeAgentName pathName") auto
      ultimately show ?thesis using that[OF d] ok False by simp
    next
      case there: False
      then have "fs' = ?fs1\<lparr>af_yaml := gm_del (sanitizeAgentName pathName) (af_yaml ?fs1)\<rparr>" using fs' False by (simp add: DeleteAgent_def Let_def)
      then show ?thesis using that[OF d] ok False by simp
    qed
  qed
qed

lemma store_ok_persist:
  assumes "store_ok fs" "vaults_apart fs" "persistAgent env incoming pathName fs = Inr (created, fs')"
  shows "store_ok fs' \<and> vaults_apart fs'"
proof -
  obtain d where d: "saved_def (find_agent pathName fs) incoming = Some d" "ad_Validate d = None"
    and rest: "af_json fs' = []" "af_legacy fs' = NoLegacy" "gm_wf (af_yaml fs')"
    and get: "\<And>b. gm_get (af_yaml fs') b =
       (if \<not> equal_fold (ad_Name incoming) pathName \<and> b = sanitizeAgentName pathName then None
        else if b = sanitizeAgentName (ad_Name incoming) then Some (AgentFile d) else gm_get (af_yaml fs) b)"
    using persist_files[OF assms(1,3)] by blast
  have name: "ad_Name d = ad_Name incoming" "ad_VaultName d = ad_VaultName incoming" "persisted d = d" by (rule saved_same[OF d(1)])+
  have "store_ok fs'" using assms(1) rest d(2) name by (auto simp: store_ok_def get split: if_splits)
  moreover have apart: "ResolvedVaultName [] a \<noteq> ResolvedVaultName [] d"
    if "gm_get (af_yaml fs) b = Some (AgentFile a)" "b \<noteq> sanitizeAgentName (ad_Name incoming)"
       "equal_fold (ad_Name incoming) pathName \<or> b \<noteq> sanitizeAgentName pathName" for a b
  proof -
    have b: "b = sanitizeAgentName (ad_Name a)" using assms(1) that(1) by (auto simp: store_ok_def)
    have "\<not> equal_fold (ad_Name a) pathName"
      using that(2,3) b sanitize_cong[of "ad_Name a" pathName] sanitize_cong[of "ad_Name incoming" pathName] by auto
    moreover have "a \<in> set (existing_agents fs)" using in_existing[OF assms(1)] that(1) b by simp
    ultimately show ?thesis
      using collision_free[of "merge_stored (find_agent pathName fs) incoming"] persistAgent_Inr[OF assms(3)]
        vault_cong[of "merge_stored (find_agent pathName fs) incoming" d] name by auto
  qed
  have "vaults_apart fs'" unfolding vaults_apart_def
  proof (intro allI impI, elim conjE)
    fix b1 d1 b2 d2
    assume g: "gm_get (af_yaml fs') b1 = Some (AgentFile d1)" "gm_get (af_yaml fs') b2 = Some (AgentFile d2)" "b1 \<noteq> b2"
    consider "b1 = sanitizeAgentName (ad_Name incoming)" | "b2 = sanitizeAgentName (ad_Name incoming)"
      | "b1 \<noteq> sanitizeAgentName (ad_Name incoming)" "b2 \<noteq> sanitizeAgentName (ad_Name incoming)" by blast
    then show "ResolvedVaultName [] d1 \<noteq> ResolvedVaultName [] d2"
    proof cases
      case 1
      then show ?thesis using g apart[of b2 d2] by (auto simp: get split: if_splits)
    next
      case 2
      then show ?thesis using g apart[of b1 d1] by (auto simp: get split: if_splits)
    next
      case 3
      then have "gm_get (af_yaml fs) b1 = Some (AgentFile d1)" "gm_get (af_yaml fs) b2 = Some (AgentFile d2)"
        using g by (auto simp: get split: if_splits)
      then show ?thesis using assms(2) g(3) by (auto simp: vaults_apart_def)
    qed
  qed
  ultimately show ?thesis by blast
qed

text \<open>All of what changes the store.\<close>

datatype store_op = StPersist persist_env agent_def string | StGrant persist_env string string | StDelete string

definition store_step :: "store_op \<Rightarrow> agent_dir \<Rightarrow> agent_dir" where
  "store_step x fs =
     (case x of
        StPersist env d pathName \<Rightarrow> (case persistAgent env d pathName fs of Inl e \<Rightarrow> fs | Inr (created, fs') \<Rightarrow> fs')
      | StGrant env a t \<Rightarrow> (case grantApprovedTool env a t fs of Inl e \<Rightarrow> fs | Inr fs' \<Rightarrow> fs')
      | StDelete n \<Rightarrow> (case DeleteAgent n fs of None \<Rightarrow> fs | Some fs' \<Rightarrow> fs'))"

definition no_agents :: agent_dir where
  "no_agents = \<lparr>af_yaml = [], af_json = [], af_legacy = NoLegacy\<rparr>"

lemma store_ok_delete:
  assumes "store_ok fs" "vaults_apart fs" "DeleteAgent n fs = Some fs'"
  shows "store_ok fs' \<and> vaults_apart fs'"
proof -
  have "fs' = fs\<lparr>af_yaml := gm_del (sanitizeAgentName n) (af_yaml fs)\<rparr>"
    using assms(1,3) by (auto simp: DeleteAgent_def store_ok_def Let_def split: if_splits)
  then show ?thesis using assms(1,2) by (auto simp: store_ok_def vaults_apart_def split: if_splits)
qed

lemma store_ok_step: "store_ok fs \<Longrightarrow> vaults_apart fs \<Longrightarrow> store_ok (store_step x fs) \<and> vaults_apart (store_step x fs)"
proof -
  assume ok: "store_ok fs" "vaults_apart fs"
  note persist = store_ok_persist[OF ok]
  show ?thesis
  proof (cases x)
    case (StPersist env d n)
    then show ?thesis using ok persist[of env d n] by (simp add: store_step_def split: sum.splits prod.splits)
  next
    case (StGrant env a t)
    have "store_ok fs' \<and> vaults_apart fs'" if g: "grantApprovedTool env a t fs = Inr fs'" for fs'
    proof -
      obtain ds d where ds: "LoadAgentsFromBase fs = Some ds" "find (\<lambda>d. ad_Name d = a) ds = Some d"
        using g by (auto simp: grantApprovedTool_def split: option.splits)
      let ?ts = "case ad_ApprovedTools d of None \<Rightarrow> [] | Some ts \<Rightarrow> ts"
      show ?thesis
      proof (cases "t \<in> set ?ts")
        case True
        then show ?thesis using ok g by (simp add: grantApprovedTool_def ds)
      next
        case False
        then show ?thesis
          using persist[of env "d\<lparr>ad_ApprovedTools := Some (?ts @ [t])\<rparr>" "ad_Name d"] g
          by (auto simp: grantApprovedTool_def ds split: sum.splits prod.splits if_splits)
      qed
    qed
    then show ?thesis using ok by (simp add: StGrant store_step_def split: sum.splits)
  next
    case (StDelete n)
    then show ?thesis using ok store_ok_delete[OF ok, of n] by (simp add: store_step_def split: option.splits)
  qed
qed

lemma store_ok_run: "store_ok (fold store_step xs no_agents) \<and> vaults_apart (fold store_step xs no_agents)"
proof -
  have "store_ok fs \<Longrightarrow> vaults_apart fs \<Longrightarrow> store_ok (fold store_step xs fs) \<and> vaults_apart (fold store_step xs fs)" for fs
    by (induction xs arbitrary: fs) (simp_all add: store_ok_step)
  moreover have "store_ok no_agents" "vaults_apart no_agents" by (simp_all add: store_ok_def vaults_apart_def no_agents_def)
  ultimately show ?thesis by blast
qed

lemma existing_map:
  assumes "store_ok fs"
  shows "existing_agents fs = map (the \<circ> file_def \<circ> snd) (af_yaml fs)"
proof -
  have isf: "\<forall>bf\<in>set (af_yaml fs). \<exists>d. snd bf = AgentFile d"
  proof
    fix bf
    assume "bf \<in> set (af_yaml fs)"
    then have "gm_get (af_yaml fs) (fst bf) = Some (snd bf)" using assms by (simp add: store_ok_def gm_get_Some_iff)
    then show "\<exists>d. snd bf = AgentFile d" using assms by (auto simp: store_ok_def)
  qed
  have "\<forall>bf\<in>set xs. \<exists>d. snd bf = AgentFile d \<Longrightarrow> List.map_filter (\<lambda>(b, f). file_def f) xs = map (the \<circ> file_def \<circ> snd) xs" for xs
  proof (induction xs)
    case Nil
    then show ?case by (simp add: List.map_filter_simps)
  next
    case (Cons bf xs)
    obtain b d where bf: "bf = (b, AgentFile d)" using Cons.prems by (cases bf) auto
    show ?case using Cons.IH Cons.prems by (simp add: bf List.map_filter_simps file_def_def)
  qed
  from this[OF isf] show ?thesis using existing_ok[OF assms] by simp
qed

lemma distinct_existing:
  assumes "store_ok fs"
    and "\<And>b1 d1 b2 d2. gm_get (af_yaml fs) b1 = Some (AgentFile d1) \<Longrightarrow> gm_get (af_yaml fs) b2 = Some (AgentFile d2) \<Longrightarrow> b1 \<noteq> b2 \<Longrightarrow> g d1 \<noteq> g d2"
  shows "distinct (map g (existing_agents fs))"
proof -
  have wf_dist: "distinct (af_yaml fs)" using assms(1) by (auto simp: store_ok_def gm_wf_def distinct_map)
  have inj: "x = y" if "x \<in> set (af_yaml fs)" "y \<in> set (af_yaml fs)" "g (the (file_def (snd x))) = g (the (file_def (snd y)))" for x y
  proof -
    have gx: "gm_get (af_yaml fs) (fst x) = Some (snd x)" "gm_get (af_yaml fs) (fst y) = Some (snd y)"
      using assms(1) that by (simp_all add: store_ok_def gm_get_Some_iff)
    have isf: "\<exists>d. f = AgentFile d" if "gm_get (af_yaml fs) b = Some f" for b f using assms(1) that by (auto simp: store_ok_def)
    obtain d1 where d1: "snd x = AgentFile d1" using isf[OF gx(1)] by blast
    obtain d2 where d2: "snd y = AgentFile d2" using isf[OF gx(2)] by blast
    then have "fst x = fst y" using assms(2)[of "fst x" d1 "fst y" d2] gx that(3) d1 d2 by (auto simp: file_def_def)
    then show ?thesis using gx by (metis option.inject prod.expand)
  qed
  have "distinct (map (\<lambda>x. g (the (file_def (snd x)))) (af_yaml fs))"
    unfolding distinct_map using inj wf_dist by (blast intro: inj_onI)
  then show ?thesis by (simp add: existing_map[OF assms(1)] comp_def)
qed


section \<open>What a write does to the others\<close>

text \<open>
  A write changes one agent. In a sound store a write that succeeds stores the merged definition with the next version, unless it renames the agent to
  a name with the same file; it removes the agent of the path when it renames; and every other agent
  whose file is another stays as it is.
\<close>

lemma persist_writes_one:
  assumes "store_ok fs" "persistAgent env incoming pathName fs = Inr (created, fs')"
    and "equal_fold (ad_Name incoming) pathName \<or> sanitizeAgentName (ad_Name incoming) \<noteq> sanitizeAgentName pathName"
  shows "\<exists>d. saved_def (find_agent pathName fs) incoming = Some d \<and> ad_Version d = ad_Version incoming + 1 \<and>
     set (existing_agents fs') = insert d {a \<in> set (existing_agents fs).
        sanitizeAgentName (ad_Name a) \<notin> {sanitizeAgentName (ad_Name incoming), sanitizeAgentName pathName}}"
proof -
  obtain d where d: "saved_def (find_agent pathName fs) incoming = Some d" "ad_Validate d = None"
    and rest: "af_json fs' = []" "af_legacy fs' = NoLegacy" "gm_wf (af_yaml fs')"
    and get: "\<And>b. gm_get (af_yaml fs') b =
       (if \<not> equal_fold (ad_Name incoming) pathName \<and> b = sanitizeAgentName pathName then None
        else if b = sanitizeAgentName (ad_Name incoming) then Some (AgentFile d) else gm_get (af_yaml fs) b)"
    using persist_files[OF assms(1,2)] by blast
  note same = saved_same[OF d(1)]
  have ok': "store_ok fs'" using assms(1) rest d(2) same(1,5) by (auto simp: store_ok_def get split: if_splits)
  have "a \<in> set (existing_agents fs') \<longleftrightarrow> a = d \<or> (a \<in> set (existing_agents fs) \<and>
      sanitizeAgentName (ad_Name a) \<notin> {sanitizeAgentName (ad_Name incoming), sanitizeAgentName pathName})" for a
    using assms(3) sanitize_cong[of "ad_Name incoming" pathName] same(1)
    by (auto simp: in_existing[OF ok'] in_existing[OF assms(1)] get split: if_splits)
  then show ?thesis using d(1) same(3) by blast
qed

definition saving_env :: persist_env where
  "saving_env = \<lparr>pe_ephemeral = (\<lambda>_. False), pe_toolbelt = (\<lambda>_. ToolbeltValid), pe_saves = True\<rparr>"

definition plain_def :: "string \<Rightarrow> agent_def" where
  "plain_def name = \<lparr>ad_Name = name, ad_Model = ''claude-haiku'', ad_SystemPrompt = [], ad_Color = [], ad_IsDefault = False, ad_Provider = [],
     ad_Endpoint = [], ad_APIKey = [], ad_VaultName = [], ad_Plasticity = [], ad_MemoryEnabled = None, ad_ContextNotesEnabled = False,
     ad_MemoryMode = [], ad_VaultDescription = [], ad_MemoryType = [], ad_Toolbelt = [], ad_Skills = [], ad_LocalTools = [''bash''],
     ad_ApprovedTools = None, ad_LoadedApprovedTools = None, ad_Description = [], ad_Personality = [], ad_VetWork = None, ad_Version = 0\<rparr>"

definition ops_store :: agent_dir where
  "ops_store = store_step (StPersist saving_env (plain_def ''Dev Ops'') ''Dev Ops'') no_agents"

lemma ops_store_ok: "store_ok ops_store"
  using store_ok_run[of "[StPersist saving_env (plain_def ''Dev Ops'') ''Dev Ops'']"] by (simp add: ops_store_def)

text \<open>
  C30. A rename can delete the agent it renames. Where the new name is another one but has the same file - other punctuation
  between the same letters - a rename that reports success leaves neither the old agent nor the new one.
\<close>

theorem rename_deletes_agent:
  assumes "store_ok fs" "persistAgent env incoming pathName fs = Inr (created, fs')"
    and "\<not> equal_fold (ad_Name incoming) pathName" "sanitizeAgentName (ad_Name incoming) = sanitizeAgentName pathName"
  shows "set (existing_agents fs') = {a \<in> set (existing_agents fs). sanitizeAgentName (ad_Name a) \<noteq> sanitizeAgentName pathName}"
proof -
  obtain d where d: "saved_def (find_agent pathName fs) incoming = Some d" "ad_Validate d = None"
    and rest: "af_json fs' = []" "af_legacy fs' = NoLegacy" "gm_wf (af_yaml fs')"
    and get: "\<And>b. gm_get (af_yaml fs') b =
       (if \<not> equal_fold (ad_Name incoming) pathName \<and> b = sanitizeAgentName pathName then None
        else if b = sanitizeAgentName (ad_Name incoming) then Some (AgentFile d) else gm_get (af_yaml fs) b)"
    using persist_files[OF assms(1,2)] by blast
  have ok': "store_ok fs'" using assms(1,3,4) rest by (auto simp: store_ok_def get split: if_splits)
  show ?thesis using assms(3,4) by (auto simp: in_existing[OF ok'] in_existing[OF assms(1)] get split: if_splits)
qed

theorem rename_deletes_agent_witness:
  "\<exists>created fs'. persistAgent saving_env (plain_def ''Dev.Ops'') ''Dev Ops'' ops_store = Inr (created, fs') \<and> existing_agents fs' = []"
proof -
  have "(case persistAgent saving_env (plain_def ''Dev.Ops'') ''Dev Ops'' ops_store of Inr _ \<Rightarrow> True | Inl _ \<Rightarrow> False)" by code_simp
  then obtain created fs' where r: "persistAgent saving_env (plain_def ''Dev.Ops'') ''Dev Ops'' ops_store = Inr (created, fs')"
    by (auto split: sum.splits)
  have "\<not> equal_fold (ad_Name (plain_def ''Dev.Ops'')) ''Dev Ops''" "sanitizeAgentName (ad_Name (plain_def ''Dev.Ops'')) = sanitizeAgentName ''Dev Ops''"
    by code_simp+
  note del = rename_deletes_agent[OF ops_store_ok r this]
  have "map ad_Name (existing_agents ops_store) = [''Dev Ops'']" by code_simp
  then have "set (existing_agents fs') = {}" using del by auto
  then show ?thesis using r by simp
qed

text \<open>Creating an agent replaces another one whose name has the same file.\<close>

lemma create_overwrites:
  "case persistAgent saving_env (plain_def ''Dev.Ops'') ''Dev.Ops'' ops_store of
     Inr (created, fs') \<Rightarrow> created \<and> map ad_Name (existing_agents fs') = [''Dev.Ops'']
   | Inl e \<Rightarrow> False"
  by code_simp

text \<open>A form without a version takes the counter back, so that a form loaded much earlier passes the check.\<close>

lemma version_goes_back:
  "let fs = fold store_step (replicate 3 (StPersist saving_env (plain_def ''Ann'') ''Ann'')) no_agents
   in map ad_Version (existing_agents fs) = [1]"
  by code_simp

text \<open>Deleting an agent that has a file of both formats brings back the older one.\<close>

lemma delete_resurrects:
  "let fs = no_agents\<lparr>af_yaml := [(''ann'', AgentFile (plain_def ''Ann''))], af_json := [(''ann'', AgentFile (plain_def ''Ann''))]\<rparr>
   in map_option (\<lambda>fs. map ad_Name (existing_agents fs)) (DeleteAgent ''Ann'' fs) = Some [''Ann'']"
  by code_simp

text \<open>Two agents may share a vault at run time: the check uses an empty user name.\<close>

lemma vault_collision_missed:
  "let a = plain_def ''Ann''; b = (plain_def ''Bob'')\<lparr>ad_VaultName := ''huginn:agent:mj:ann''\<rparr>
   in CheckVaultNameCollision b ''Bob'' [] [a] = None \<and> ResolvedVaultName ''mj'' a = ResolvedVaultName ''mj'' b"
  by code_simp

section \<open>Grants\<close>

definition approved_of :: "agent_def \<Rightarrow> string list" where
  "approved_of d = (case ad_ApprovedTools d of None \<Rightarrow> [] | Some ts \<Rightarrow> ts)"

definition granted_store :: agent_dir where
  "granted_store = store_step (StGrant saving_env ''Dev Ops'' ''git_push'') ops_store"

lemma granted_store_ok: "store_ok granted_store"
  using store_ok_run[of "[StPersist saving_env (plain_def ''Dev Ops'') ''Dev Ops'', StGrant saving_env ''Dev Ops'' ''git_push'']"]
  by (simp add: granted_store_def ops_store_def)

text \<open>
  C31. A grant survives an older form. When a form whose list of approved tools was not touched is saved over an agent, the
  approved tools stay those that are stored, also those granted after the form was loaded; the same holds for the personality
  and the vetting that the form leaves out.
\<close>

theorem grants_survive_stale_form:
  assumes "store_ok fs" "persistAgent env incoming pathName fs = Inr (created, fs')" "find_agent pathName fs = Some e"
    and "equal_fold (ad_Name incoming) pathName"
    and "\<not> approvedToolsExplicitlyEdited (ad_ApprovedTools incoming) (ad_LoadedApprovedTools incoming)"
  shows "\<exists>d\<in>set (existing_agents fs'). ad_Name d = ad_Name incoming \<and> approved_of d = approved_of e"
proof -
  obtain d where d: "saved_def (find_agent pathName fs) incoming = Some d" "ad_Validate d = None"
    and rest: "af_json fs' = []" "af_legacy fs' = NoLegacy" "gm_wf (af_yaml fs')"
    and get: "\<And>b. gm_get (af_yaml fs') b =
       (if \<not> equal_fold (ad_Name incoming) pathName \<and> b = sanitizeAgentName pathName then None
        else if b = sanitizeAgentName (ad_Name incoming) then Some (AgentFile d) else gm_get (af_yaml fs) b)"
    using persist_files[OF assms(1,2)] by blast
  note same = saved_same[OF d(1)]
  have ok': "store_ok fs'" using assms(1) rest d(2) same(1,5) by (auto simp: store_ok_def get split: if_splits)
  have "d \<in> set (existing_agents fs')" using in_existing[OF ok', of d] assms(4) same(1) by (simp add: get)
  moreover have "ad_ApprovedTools (merge_stored (Some e) incoming) = ad_ApprovedTools e" using assms(5) by (simp add: merge_stored_def)
  then have "approved_of d = approved_of e" using same(4) by (simp add: assms(3) approved_of_def Let_def)
  ultimately show ?thesis using same(1) by blast
qed

theorem grants_survive_stale_form_witness:
  "\<exists>created fs'. persistAgent saving_env (plain_def ''Dev Ops'') ''Dev Ops'' granted_store = Inr (created, fs')
     \<and> (\<exists>d\<in>set (existing_agents fs'). ad_Name d = ''Dev Ops'' \<and> approved_of d = [''git_push''])"
proof -
  have "(case persistAgent saving_env (plain_def ''Dev Ops'') ''Dev Ops'' granted_store of Inr _ \<Rightarrow> True | Inl _ \<Rightarrow> False)" by code_simp
  then obtain created fs' where r: "persistAgent saving_env (plain_def ''Dev Ops'') ''Dev Ops'' granted_store = Inr (created, fs')"
    by (auto split: sum.splits)
  have "(case find_agent ''Dev Ops'' granted_store of Some e \<Rightarrow> approved_of e = [''git_push''] | None \<Rightarrow> False)" by code_simp
  then obtain e where e: "find_agent ''Dev Ops'' granted_store = Some e" "approved_of e = [''git_push'']" by (auto split: option.splits)
  have same: "equal_fold (ad_Name (plain_def ''Dev Ops'')) ''Dev Ops''" by code_simp
  have nm: "ad_Name (plain_def ''Dev Ops'') = ''Dev Ops''" by (simp add: plain_def_def)
  have untouched: "\<not> approvedToolsExplicitlyEdited (ad_ApprovedTools (plain_def ''Dev Ops'')) (ad_LoadedApprovedTools (plain_def ''Dev Ops''))"
    by code_simp
  show ?thesis using grants_survive_stale_form[OF granted_store_ok r e(1) same untouched] r unfolding nm e(2) by blast
qed

lemma find_agent_exact:
  assumes "store_ok fs" "d \<in> set (existing_agents fs)"
  shows "find_agent (ad_Name d) fs = Some d"
proof (cases "find_agent (ad_Name d) fs")
  case None
  then show ?thesis using assms(2) by (auto simp: find_agent_def find_None_iff)
next
  case (Some e)
  then show ?thesis using find_agent_file[OF assms(1) Some] assms(2) by (simp add: in_existing[OF assms(1)])
qed

text \<open>A grant that reports success is stored.\<close>

lemma grant_stored:
  assumes "store_ok fs" "grantApprovedTool env a t fs = Inr fs'"
  shows "\<exists>d\<in>set (existing_agents fs'). ad_Name d = a \<and> t \<in> set (ag_ApprovedTools (def_grants d))"
proof -
  obtain ds d where ds: "LoadAgentsFromBase fs = Some ds" "find (\<lambda>d. ad_Name d = a) ds = Some d"
    using assms(2) by (auto simp: grantApprovedTool_def split: option.splits)
  then have d: "d \<in> set (existing_agents fs)" "ad_Name d = a" by (auto simp: existing_agents_def find_Some_iff)
  show ?thesis
  proof (cases "t \<in> set (approved_of d)")
    case True
    then have "fs' = fs" using assms(2) ds by (simp add: grantApprovedTool_def approved_of_def)
    then show ?thesis using d True by (auto simp: def_grants_def approved_of_def)
  next
    case False
    let ?inc = "d\<lparr>ad_ApprovedTools := Some (approved_of d @ [t])\<rparr>"
    obtain created where p: "persistAgent env ?inc (ad_Name d) fs = Inr (created, fs')"
      using assms(2) ds False by (auto simp: grantApprovedTool_def approved_of_def Let_def split: sum.splits option.splits)
    have loaded: "ad_LoadedApprovedTools d = None"
    proof -
      have "persisted d = d" using d(1) assms(1) in_existing[OF assms(1), of d] by (auto simp: store_ok_def)
      moreover have "ad_LoadedApprovedTools (persisted d) = None" by (simp add: persisted_def)
      ultimately show ?thesis by simp
    qed
    have "approvedToolsExplicitlyEdited (ad_ApprovedTools ?inc) (ad_LoadedApprovedTools ?inc)"
      by (simp add: approvedToolsExplicitlyEdited_def stringSetEqual_def loaded)
    then have kept: "ad_ApprovedTools (merge_stored (find_agent (ad_Name d) fs) ?inc) = Some (approved_of d @ [t])"
      by (simp add: find_agent_exact[OF assms(1) d(1)] merge_stored_def)
    obtain s where s: "saved_def (find_agent (ad_Name d) fs) ?inc = Some s" "s \<in> set (existing_agents fs')"
      using persist_writes_one[OF assms(1) p] by auto
    then show ?thesis using saved_same[OF s(1)] kept d(2) by (intro bexI[of _ s]) (simp_all add: def_grants_def Let_def)
  qed
qed

end
