(* ===== verification/WsHub.thy ===== *)
theory WsHub
  imports Interfaces
begin

text \<open>
  The hub of the web socket connections (\<^verbatim>\<open>internal/server/ws.go\<close>): the numbering of the messages of a
  session and the ring that keeps the newest of them, the \<open>resume\<close> of a client that was away,
  broadcasts that run beside each other and beside registrations, the eviction of slow clients,
  the stop of the hub, and the rate limit of a connection.

  The state \<open>ws_hub\<close> holds the hub and the objects of the connections, known by a number. An event is what
  one goroutine does without another of the hub coming between: a broadcast is numbered under \<open>seqMu\<close>, then takes the
  read lock and the set of clients, and offers the message to one client after the other, in any order; registering and
  unregistering wait while a broadcast holds the read lock. An event that cannot happen leaves the
  state. The bytes on the wire are not modelled: \<open>wc_out\<close> is what the write pump took.
  Counters of 64 bits are natural numbers.
\<close>

section \<open>Messages and the replay ring\<close>

definition wsRateLimitMsgs :: nat where
  "wsRateLimitMsgs = 30"

definition wsRateLimitWindow :: duration where
  "wsRateLimitWindow = 10 * second"

definition wsSendBufSize :: nat where
  "wsSendBufSize = 256"

definition wsMaxDrops :: nat where
  "wsMaxDrops = 5"

definition wsReplayBufferSize :: nat where
  "wsReplayBufferSize = 512"

definition broadcastBufSize :: nat where
  "broadcastBufSize = 256"

record ws_message =
  wm_Type :: string
  wm_Payload :: json_args
  wm_SessionID :: string
  wm_Content :: string
  wm_Epoch :: nat
  wm_Seq :: nat
  wm_RunID :: string
  wm_Agent :: string

definition no_message :: ws_message where
  "no_message = \<lparr>wm_Type = [], wm_Payload = [], wm_SessionID = [], wm_Content = [], wm_Epoch = 0, wm_Seq = 0, wm_RunID = [], wm_Agent = []\<rparr>"

record replay_ring =
  wr_buf :: "ws_message list"
  wr_next :: nat
  wr_full :: bool

definition newReplayRing :: "nat \<Rightarrow> replay_ring" where
  "newReplayRing capacity = \<lparr>wr_buf = replicate capacity no_message, wr_next = 0, wr_full = False\<rparr>"

definition ring_add :: "ws_message \<Rightarrow> replay_ring \<Rightarrow> replay_ring" where
  "ring_add msg r =
     (let next' = (wr_next r + 1) mod length (wr_buf r)
      in r\<lparr>wr_buf := (wr_buf r)[wr_next r := msg], wr_next := next', wr_full := (if next' = 0 then True else wr_full r)\<rparr>)"

definition ring_since :: "nat \<Rightarrow> replay_ring \<Rightarrow> ws_message list" where
  "ring_since seq r =
     (let start = (if wr_full r then wr_next r else 0);
          n = (if wr_full r then length (wr_buf r) else wr_next r)
      in filter (\<lambda>m. wm_Seq m > seq) (map (\<lambda>i. wr_buf r ! ((start + i) mod length (wr_buf r))) [0..<n]))"

definition oldestSeq :: "replay_ring \<Rightarrow> nat" where
  "oldestSeq r =
     (if wr_full r then wm_Seq (wr_buf r ! wr_next r)
      else if wr_next r = 0 then 0 else wm_Seq (wr_buf r ! 0))"

text \<open>The messages of a ring, oldest first.\<close>

definition ring_view :: "replay_ring \<Rightarrow> ws_message list" where
  "ring_view r = (if wr_full r then drop (wr_next r) (wr_buf r) @ take (wr_next r) (wr_buf r) else take (wr_next r) (wr_buf r))"

definition ring_wf :: "replay_ring \<Rightarrow> bool" where
  "ring_wf r \<longleftrightarrow> wr_next r < length (wr_buf r)"

lemma ring_view_new: "0 < n \<Longrightarrow> ring_wf (newReplayRing n) \<and> ring_view (newReplayRing n) = [] \<and> length (wr_buf (newReplayRing n)) = n"
  by (simp add: ring_wf_def ring_view_def newReplayRing_def)

lemma ring_add_length [simp]: "length (wr_buf (ring_add m r)) = length (wr_buf r)"
  by (simp add: ring_add_def Let_def)

lemma ring_add_wf: "ring_wf r \<Longrightarrow> ring_wf (ring_add m r)"
  by (auto simp: ring_wf_def ring_add_def Let_def mod_Suc)

lemma ring_view_add:
  assumes "ring_wf r"
  shows "ring_view (ring_add m r) = last_n (length (wr_buf r)) (ring_view r @ [m])"
proof -
  obtain d h f where r: "r = \<lparr>wr_buf = d, wr_next = h, wr_full = f\<rparr>" by (cases r)
  have h: "h < length d" using assms by (simp add: ring_wf_def r)
  have upd: "take (Suc h) (d[h := m]) = take h d @ [m]" using h by (simp add: take_Suc_conv_app_nth)
  show ?thesis
  proof (cases f)
    case False
    have "length (take h d @ [m]) \<le> length d" using h by simp
    then have rhs: "last_n (length d) (ring_view r @ [m]) = take h d @ [m]" by (simp add: ring_view_def r False last_n_id)
    show ?thesis
    proof (cases "Suc h = length d")
      case True
      have "d[h := m] = take h d @ [m]" using upd True by simp
      then show ?thesis using True h rhs by (simp add: ring_view_def ring_add_def r False)
    next
      case False
      then have "Suc h < length d" using h by simp
      then show ?thesis using upd rhs by (simp add: ring_view_def ring_add_def r \<open>\<not> f\<close>)
    qed
  next
    case True
    have split: "d = take h d @ d ! h # drop (Suc h) d" using h by (simp add: id_take_nth_drop)
    have len: "length (drop h d @ take h d @ [m]) - length d = Suc 0" using h by simp
    have "drop h d @ take h d @ [m] = d ! h # drop (Suc h) d @ take h d @ [m]" using h by (simp add: Cons_nth_drop_Suc[symmetric])
    then have rhs: "last_n (length d) (ring_view r @ [m]) = drop (Suc h) d @ take h d @ [m]"
      using len by (simp add: last_n_def ring_view_def r True del: length_append length_drop length_take)
    show ?thesis
    proof (cases "Suc h = length d")
      case True
      have "d[h := m] = take h d @ [m]" using upd True by simp
      then show ?thesis using True h rhs by (simp add: ring_view_def ring_add_def r \<open>f\<close>)
    next
      case False
      then have "Suc h < length d" using h by simp
      then show ?thesis using upd rhs by (simp add: ring_view_def ring_add_def r \<open>f\<close>)
    qed
  qed
qed

interpretation replay: bounded_log "\<lambda>r. length (wr_buf r)" ring_add ring_view ring_wf
proof unfold_locales
  fix r :: replay_ring and m
  assume ok: "ring_wf r"
  then show "0 < length (wr_buf r)" by (auto simp: ring_wf_def)
  show "length (wr_buf (ring_add m r)) = length (wr_buf r)" by simp
  show "ring_wf (ring_add m r)" using ok by (rule ring_add_wf)
  show "ring_view (ring_add m r) = last_n (length (wr_buf r)) (ring_view r @ [m])" using ok by (rule ring_view_add)
qed

lemma ring_since_view:
  assumes "ring_wf r"
  shows "ring_since k r = filter (\<lambda>m. wm_Seq m > k) (ring_view r)"
proof -
  obtain d h f where r: "r = \<lparr>wr_buf = d, wr_next = h, wr_full = f\<rparr>" by (cases r)
  have h: "h < length d" using assms by (simp add: ring_wf_def r)
  have "map (\<lambda>i. d ! ((h + i) mod length d)) [0..<length d] = drop h d @ take h d"
  proof (rule nth_equalityI)
    fix i
    assume "i < length (map (\<lambda>i. d ! ((h + i) mod length d)) [0..<length d])"
    then have i: "i < length d" by simp
    show "map (\<lambda>i. d ! ((h + i) mod length d)) [0..<length d] ! i = (drop h d @ take h d) ! i"
    proof (cases "h + i < length d")
      case True
      then show ?thesis using i by (simp add: nth_append)
    next
      case False
      then have "(h + i) mod length d = h + i - length d" using i h by (simp add: mod_if)
      then show ?thesis using i h False by (simp add: nth_append add.commute)
    qed
  qed (use h in simp)
  moreover have "map (\<lambda>i. d ! (i mod length d)) [0..<h] = take h d"
    using h by (intro nth_equalityI) simp_all
  ultimately show ?thesis by (simp add: ring_since_def ring_view_def r)
qed

lemma ring_oldest_view:
  assumes "ring_wf r"
  shows "oldestSeq r = (if ring_view r = [] then 0 else wm_Seq (hd (ring_view r)))"
proof -
  obtain d h f where r: "r = \<lparr>wr_buf = d, wr_next = h, wr_full = f\<rparr>" by (cases r)
  have h: "h < length d" using assms by (simp add: ring_wf_def r)
  then have "hd (drop h d @ take h d) = d ! h" by (simp add: hd_append hd_drop_conv_nth)
  moreover have "h \<noteq> 0 \<Longrightarrow> hd (take h d) = d ! 0" using h by (cases d) simp_all
  ultimately show ?thesis using h by (auto simp: oldestSeq_def ring_view_def r)
qed


section \<open>The hub\<close>

datatype client_phase = ClFresh | ClChecked | ClRegistered | ClGone

record ws_client =
  wc_sessionID :: string
  wc_send :: "ws_message list"
  wc_ctxDone :: bool
  wc_drops :: nat
  wc_msgCount :: nat
  wc_msgWindowStart :: gotime
  wc_phase :: client_phase
  wc_out :: "ws_message list"
  wc_todo :: "ws_message list"

text \<open>A broadcast under way: numbered, offering to the clients that are left while it holds the read lock, or about
  to send to its origin. The run loop broadcasts to every client (no session).\<close>

datatype flight_phase = FlStamped | FlSending "nat list" | FlOrigin

record flight =
  bf_msg :: ws_message
  bf_session :: "string option"
  bf_origin :: "nat option"
  bf_originSeen :: bool
  bf_phase :: flight_phase

record ws_hub =
  wh_epoch :: nat
  wh_clients :: "(nat, ws_client) gomap"
  wh_broadcastC :: "ws_message list"
  wh_stopped :: bool
  wh_stopC :: bool
  wh_running :: bool
  wh_sessionSeq :: "(string, nat) gomap"
  wh_sessionReplay :: "(string, replay_ring) gomap"
  wh_dropped :: nat
  wh_flights :: "(nat, flight) gomap"
  wh_evicting :: "nat list"

definition newWSHub :: "nat \<Rightarrow> ws_hub" where
  "newWSHub epoch = \<lparr>wh_epoch = epoch, wh_clients = [], wh_broadcastC = [], wh_stopped = False, wh_stopC = False, wh_running = True,
     wh_sessionSeq = [], wh_sessionReplay = [], wh_dropped = 0, wh_flights = [], wh_evicting = []\<rparr>"

definition seq_of :: "ws_hub \<Rightarrow> string \<Rightarrow> nat" where
  "seq_of h sid = (case gm_get (wh_sessionSeq h) sid of None \<Rightarrow> 0 | Some n \<Rightarrow> n)"

definition recordForReplayLocked :: "string \<Rightarrow> ws_message \<Rightarrow> ws_hub \<Rightarrow> ws_hub" where
  "recordForReplayLocked sid msg h =
     (let ring = (case gm_get (wh_sessionReplay h) sid of None \<Rightarrow> newReplayRing wsReplayBufferSize | Some r \<Rightarrow> r)
      in h\<lparr>wh_sessionReplay := gm_put sid (ring_add msg ring) (wh_sessionReplay h)\<rparr>)"

definition stampAndRecord :: "string \<Rightarrow> ws_message \<Rightarrow> ws_hub \<Rightarrow> ws_message \<times> ws_hub" where
  "stampAndRecord sid msg h =
     (let n = seq_of h sid + 1;
          msg = msg\<lparr>wm_SessionID := sid, wm_Epoch := wh_epoch h, wm_Seq := n\<rparr>
      in (msg, recordForReplayLocked sid msg (h\<lparr>wh_sessionSeq := gm_put sid n (wh_sessionSeq h)\<rparr>)))"

definition replaySince :: "string \<Rightarrow> nat \<Rightarrow> ws_hub \<Rightarrow> ws_message list \<times> nat \<times> bool" where
  "replaySince sid lastSeq h =
     (let currentSeq = seq_of h sid
      in if lastSeq \<ge> currentSeq then ([], currentSeq, lastSeq > currentSeq)
         else case gm_get (wh_sessionReplay h) sid of
           None \<Rightarrow> ([], currentSeq, True)
         | Some ring \<Rightarrow> (ring_since lastSeq ring, currentSeq, oldestSeq ring = 0 \<or> oldestSeq ring > lastSeq + 1))"

definition DeleteSessionSeq :: "string \<Rightarrow> ws_hub \<Rightarrow> ws_hub" where
  "DeleteSessionSeq sid h = h\<lparr>wh_sessionSeq := gm_del sid (wh_sessionSeq h), wh_sessionReplay := gm_del sid (wh_sessionReplay h)\<rparr>"

section \<open>Clients\<close>

definition mod_client :: "nat \<Rightarrow> (ws_client \<Rightarrow> ws_client) \<Rightarrow> ws_hub \<Rightarrow> ws_hub" where
  "mod_client c f h = h\<lparr>wh_clients := gm_mod c f (wh_clients h)\<rparr>"

definition registered_in :: "ws_hub \<Rightarrow> nat \<Rightarrow> bool" where
  "registered_in h c = (case gm_get (wh_clients h) c of Some cl \<Rightarrow> wc_phase cl = ClRegistered | None \<Rightarrow> False)"

definition wants :: "string option \<Rightarrow> ws_client \<Rightarrow> bool" where
  "wants sid cl = (case sid of None \<Rightarrow> True | Some s \<Rightarrow> wc_sessionID cl = [] \<or> wc_sessionID cl = s)"

definition hasSessionSubscribers :: "string \<Rightarrow> ws_hub \<Rightarrow> bool" where
  "hasSessionSubscribers sid h = list_ex (\<lambda>(c, cl). wc_phase cl = ClRegistered \<and> wants (Some sid) cl) (wh_clients h)"

text \<open>The readers of the lock.\<close>

definition read_locked :: "ws_hub \<Rightarrow> bool" where
  "read_locked h = list_ex (\<lambda>(b, f). case bf_phase f of FlSending todo \<Rightarrow> True | _ \<Rightarrow> False) (wh_flights h)"

text \<open>The two branches of the nonblocking send.\<close>

definition send_kept :: "ws_message \<Rightarrow> ws_client \<Rightarrow> ws_client" where
  "send_kept msg cl = cl\<lparr>wc_send := wc_send cl @ [msg], wc_drops := 0\<rparr>"

definition send_dropped :: "ws_client \<Rightarrow> ws_client" where
  "send_dropped cl = cl\<lparr>wc_drops := wc_drops cl + 1\<rparr>"

definition trySendOrEvict :: "nat \<Rightarrow> ws_message \<Rightarrow> ws_hub \<Rightarrow> ws_hub" where
  "trySendOrEvict c msg h =
     (case gm_get (wh_clients h) c of
        None \<Rightarrow> h
      | Some cl \<Rightarrow>
          if length (wc_send cl) < wsSendBufSize then mod_client c (send_kept msg) h
          else let h = mod_client c send_dropped (h\<lparr>wh_dropped := wh_dropped h + 1\<rparr>)
               in if wc_drops cl + 1 = wsMaxDrops then h\<lparr>wh_evicting := wh_evicting h @ [c]\<rparr> else h)"

definition unregisterClient :: "nat \<Rightarrow> ws_hub \<Rightarrow> ws_hub" where
  "unregisterClient c h = mod_client c (\<lambda>cl. cl\<lparr>wc_phase := ClGone, wc_ctxDone := True\<rparr>) h"

definition wsRateAllow :: "gotime \<Rightarrow> ws_client \<Rightarrow> ws_client \<times> bool" where
  "wsRateAllow now c =
     (if now - wc_msgWindowStart c \<ge> wsRateLimitWindow then (c\<lparr>wc_msgWindowStart := now, wc_msgCount := 1\<rparr>, True)
      else (c\<lparr>wc_msgCount := wc_msgCount c + 1\<rparr>, wc_msgCount c + 1 \<le> wsRateLimitMsgs))"

text \<open>What the handler of \<open>resume\<close> sends.\<close>

definition payload_number :: "json_args \<Rightarrow> string \<Rightarrow> nat" where
  "payload_number p k = (case gm_get p k of Some (JNum n) \<Rightarrow> if n > 0 then nat n else 0 | _ \<Rightarrow> 0)"

definition resume_reply :: "ws_message \<Rightarrow> ws_hub \<Rightarrow> ws_message list" where
  "resume_reply msg h =
     (let sid = (if wm_SessionID msg = [] then arg_string (wm_Payload msg) ''session_id'' else wm_SessionID msg)
      in if sid = [] then []
         else
           let lastSeq = payload_number (wm_Payload msg) ''last_seq'';
               clientEpoch = payload_number (wm_Payload msg) ''epoch'';
               (replayed, currentSeq, gap) = replaySince sid lastSeq h;
               (replayed, gap) = (if clientEpoch \<noteq> 0 \<and> clientEpoch \<noteq> wh_epoch h then ([], True) else (replayed, gap))
           in replayed @ [no_message\<lparr>wm_Type := ''resume_ok'', wm_SessionID := sid, wm_Epoch := wh_epoch h,
                wm_Payload := [(''seq'', JNum (int currentSeq)), (''gap'', JBool gap), (''replayed'', JNum (int (length replayed)))]\<rparr>])"

definition rate_error :: ws_message where
  "rate_error = no_message\<lparr>wm_Type := ''error'', wm_Content := ''rate limit exceeded: too many messages, slow down''\<rparr>"

section \<open>Events\<close>

datatype hub_event =
  EvConnect nat gotime
| EvRegCheck nat string
| EvRegAdd nat
| EvStamp nat string ws_message "nat option"
| EvLock nat
| EvOffer nat nat
| EvUnlock nat
| EvOrigin nat bool
| EvBroadcast ws_message
| EvRunTake nat
| EvRunExit
| EvEvict nat
| EvUnregister nat
| EvPump nat
| EvStopFlag
| EvStopRest
| EvDelete string
| EvInbound nat gotime ws_message
| EvReply nat bool

definition new_client :: "gotime \<Rightarrow> ws_client" where
  "new_client now = \<lparr>wc_sessionID = [], wc_send = [], wc_ctxDone = False, wc_drops = 0, wc_msgCount = 0, wc_msgWindowStart = now,
     wc_phase = ClFresh, wc_out = [], wc_todo = []\<rparr>"

text \<open>\<open>registerWithSession\<close>: the check of \<open>stopped\<close>, and the insertion under the lock.\<close>

definition register_check :: "nat \<Rightarrow> string \<Rightarrow> ws_hub \<Rightarrow> ws_hub" where
  "register_check c sid h =
     mod_client c (\<lambda>cl. if wc_phase cl \<noteq> ClFresh then cl
        else if wh_stopped h then cl\<lparr>wc_sessionID := sid, wc_phase := ClGone, wc_ctxDone := True\<rparr>
        else cl\<lparr>wc_sessionID := sid, wc_phase := ClChecked\<rparr>) h"

definition register_add :: "nat \<Rightarrow> ws_hub \<Rightarrow> ws_hub" where
  "register_add c h = mod_client c (\<lambda>cl. if wc_phase cl = ClChecked then cl\<lparr>wc_phase := ClRegistered\<rparr> else cl) h"

text \<open>\<open>broadcastToSessionFrom\<close> and a turn of \<open>run\<close>.\<close>

definition flight_start :: "nat \<Rightarrow> string \<Rightarrow> ws_message \<Rightarrow> nat option \<Rightarrow> ws_hub \<Rightarrow> ws_hub" where
  "flight_start b sid msg origin h =
     (case stampAndRecord sid msg h of (m, h) \<Rightarrow>
        h\<lparr>wh_flights := gm_put b \<lparr>bf_msg = m, bf_session = Some sid, bf_origin = origin, bf_originSeen = False, bf_phase = FlStamped\<rparr> (wh_flights h)\<rparr>)"

definition flight_lock :: "nat \<Rightarrow> flight \<Rightarrow> ws_hub \<Rightarrow> ws_hub" where
  "flight_lock b f h =
     h\<lparr>wh_flights := gm_put b (f\<lparr>bf_phase := FlSending
         (map fst (filter (\<lambda>(c, cl). wc_phase cl = ClRegistered \<and> wants (bf_session f) cl) (wh_clients h)))\<rparr>) (wh_flights h)\<rparr>"

definition flight_offer :: "nat \<Rightarrow> flight \<Rightarrow> nat list \<Rightarrow> nat \<Rightarrow> ws_hub \<Rightarrow> ws_hub" where
  "flight_offer b f todo c h =
     trySendOrEvict c (bf_msg f)
       (h\<lparr>wh_flights := gm_put b (f\<lparr>bf_phase := FlSending (removeAll c todo),
            bf_originSeen := (bf_originSeen f \<or> bf_origin f = Some c)\<rparr>) (wh_flights h)\<rparr>)"

definition flight_unlock :: "nat \<Rightarrow> flight \<Rightarrow> ws_hub \<Rightarrow> ws_hub" where
  "flight_unlock b f h =
     (if bf_origin f \<noteq> None \<and> \<not> bf_originSeen f then h\<lparr>wh_flights := gm_put b (f\<lparr>bf_phase := FlOrigin\<rparr>) (wh_flights h)\<rparr>
      else h\<lparr>wh_flights := gm_del b (wh_flights h)\<rparr>)"

text \<open>\<open>safeSend\<close>: the message is queued when there is room, or given up when the client's context has ended.\<close>

definition safe_send :: "bool \<Rightarrow> ws_message \<Rightarrow> ws_client \<Rightarrow> ws_client option" where
  "safe_send sent msg cl =
     (if sent then if length (wc_send cl) < wsSendBufSize then Some (cl\<lparr>wc_send := wc_send cl @ [msg]\<rparr>) else None
      else if wc_ctxDone cl then Some cl else None)"

definition flight_origin :: "nat \<Rightarrow> bool \<Rightarrow> flight \<Rightarrow> nat \<Rightarrow> ws_hub \<Rightarrow> ws_hub" where
  "flight_origin b sent f c h =
     (case gm_get (wh_clients h) c of
        None \<Rightarrow> h
      | Some cl \<Rightarrow>
          (case safe_send sent (bf_msg f) cl of
             None \<Rightarrow> h
           | Some cl' \<Rightarrow> mod_client c (\<lambda>_. cl') (h\<lparr>wh_flights := gm_del b (wh_flights h)\<rparr>)))"

text \<open>\<open>broadcast\<close>.\<close>

definition hub_broadcast :: "ws_message \<Rightarrow> ws_hub \<Rightarrow> ws_hub" where
  "hub_broadcast msg h =
     (if length (wh_broadcastC h) < broadcastBufSize then h\<lparr>wh_broadcastC := wh_broadcastC h @ [msg]\<rparr>
      else if wm_SessionID msg \<noteq> [] then snd (stampAndRecord (wm_SessionID msg) msg h) else h)"

definition run_take :: "nat \<Rightarrow> ws_hub \<Rightarrow> ws_hub" where
  "run_take b h =
     (case wh_broadcastC h of
        [] \<Rightarrow> h
      | m # ms \<Rightarrow> h\<lparr>wh_broadcastC := ms, wh_flights :=
          gm_put b \<lparr>bf_msg = m, bf_session = None, bf_origin = None, bf_originSeen = False, bf_phase = FlStamped\<rparr> (wh_flights h)\<rparr>)"

text \<open>\<open>stop\<close>: what is queued goes to the clients that have room, then every client is cancelled.\<close>

definition send_nonblocking :: "ws_message \<Rightarrow> ws_client \<Rightarrow> ws_client" where
  "send_nonblocking m cl = (if length (wc_send cl) < wsSendBufSize then cl\<lparr>wc_send := wc_send cl @ [m]\<rparr> else cl)"

definition stop_rest :: "ws_hub \<Rightarrow> ws_hub" where
  "stop_rest h =
     h\<lparr>wh_clients := map (\<lambda>(c, cl). (c, if wc_phase cl = ClRegistered
          then (fold send_nonblocking (wh_broadcastC h) cl)\<lparr>wc_ctxDone := True\<rparr> else cl)) (wh_clients h),
       wh_broadcastC := [], wh_stopC := True\<rparr>"

text \<open>One inbound message: the rate limit, and what the handler has to send.\<close>

definition read_inbound :: "gotime \<Rightarrow> ws_message \<Rightarrow> ws_hub \<Rightarrow> ws_client \<Rightarrow> ws_client" where
  "read_inbound now msg h cl =
     (case wsRateAllow now cl of (cl, ok) \<Rightarrow>
        if \<not> ok then send_nonblocking rate_error cl
        else if wm_Type msg = ''resume'' then cl\<lparr>wc_todo := resume_reply msg h\<rparr>
        else cl)"

definition reply_next :: "bool \<Rightarrow> ws_client \<Rightarrow> ws_client" where
  "reply_next sent cl =
     (case wc_todo cl of
        [] \<Rightarrow> cl
      | m # ms \<Rightarrow> (case safe_send sent m cl of None \<Rightarrow> cl | Some cl' \<Rightarrow> cl'\<lparr>wc_todo := (if sent then ms else [])\<rparr>))"

definition pump :: "ws_client \<Rightarrow> ws_client" where
  "pump cl = (case wc_send cl of [] \<Rightarrow> cl | m # ms \<Rightarrow> cl\<lparr>wc_send := ms, wc_out := wc_out cl @ [m]\<rparr>)"

definition with_flight :: "nat \<Rightarrow> (flight \<Rightarrow> ws_hub \<Rightarrow> ws_hub) \<Rightarrow> ws_hub \<Rightarrow> ws_hub" where
  "with_flight b k h = (case gm_get (wh_flights h) b of None \<Rightarrow> h | Some f \<Rightarrow> k f h)"

fun hub_step :: "hub_event \<Rightarrow> ws_hub \<Rightarrow> ws_hub" where
  "hub_step (EvConnect c now) h = (if gm_get (wh_clients h) c = None then h\<lparr>wh_clients := gm_put c (new_client now) (wh_clients h)\<rparr> else h)"
| "hub_step (EvRegCheck c sid) h = register_check c sid h"
| "hub_step (EvRegAdd c) h = (if read_locked h then h else register_add c h)"
| "hub_step (EvStamp b sid msg origin) h = (if gm_get (wh_flights h) b = None then flight_start b sid msg origin h else h)"
| "hub_step (EvLock b) h = with_flight b (\<lambda>f h. if bf_phase f = FlStamped then flight_lock b f h else h) h"
| "hub_step (EvOffer b c) h = with_flight b (\<lambda>f h. case bf_phase f of
      FlSending todo \<Rightarrow> if c \<in> set todo then flight_offer b f todo c h else h | _ \<Rightarrow> h) h"
| "hub_step (EvUnlock b) h = with_flight b (\<lambda>f h. if bf_phase f = FlSending [] then flight_unlock b f h else h) h"
| "hub_step (EvOrigin b sent) h = with_flight b (\<lambda>f h. case bf_origin f of
      Some c \<Rightarrow> if bf_phase f = FlOrigin then flight_origin b sent f c h else h | None \<Rightarrow> h) h"
| "hub_step (EvBroadcast msg) h = hub_broadcast msg h"
| "hub_step (EvRunTake b) h =
     (if wh_running h \<and> gm_get (wh_flights h) b = None \<and> list_all (\<lambda>(_, f). bf_session f \<noteq> None) (wh_flights h) then run_take b h else h)"
| "hub_step EvRunExit h = (if wh_stopC h then h\<lparr>wh_running := False\<rparr> else h)"
| "hub_step (EvEvict c) h =
     (if c \<in> set (wh_evicting h) \<and> \<not> read_locked h then unregisterClient c (h\<lparr>wh_evicting := remove1 c (wh_evicting h)\<rparr>) else h)"
| "hub_step (EvUnregister c) h = (if read_locked h then h else unregisterClient c h)"
| "hub_step (EvPump c) h = mod_client c pump h"
| "hub_step EvStopFlag h = h\<lparr>wh_stopped := True\<rparr>"
| "hub_step EvStopRest h = (if wh_stopped h \<and> \<not> wh_stopC h then stop_rest h else h)"
| "hub_step (EvDelete sid) h = DeleteSessionSeq sid h"
| "hub_step (EvInbound c now msg) h =
     mod_client c (\<lambda>cl. if wc_phase cl \<in> {ClRegistered, ClGone} \<and> wc_todo cl = [] then read_inbound now msg h cl else cl) h"
| "hub_step (EvReply c sent) h = mod_client c (reply_next sent) h"


section \<open>Resume\<close>

text \<open>The messages of each session in the order they were numbered, since its counter was last deleted.\<close>

definition stamped :: "hub_event \<Rightarrow> ws_hub \<Rightarrow> (string \<times> ws_message) option" where
  "stamped e h =
     (case e of
        EvStamp b sid msg origin \<Rightarrow> if gm_get (wh_flights h) b = None then Some (sid, fst (stampAndRecord sid msg h)) else None
      | EvBroadcast msg \<Rightarrow>
          if length (wh_broadcastC h) < broadcastBufSize \<or> wm_SessionID msg = [] then None
          else Some (wm_SessionID msg, fst (stampAndRecord (wm_SessionID msg) msg h))
      | _ \<Rightarrow> None)"

definition stream_step :: "hub_event \<Rightarrow> ws_hub \<Rightarrow> (string \<Rightarrow> ws_message list) \<Rightarrow> string \<Rightarrow> ws_message list" where
  "stream_step e h st =
     (case e of EvDelete sid \<Rightarrow> st(sid := [])
      | _ \<Rightarrow> (case stamped e h of None \<Rightarrow> st | Some (sid, m) \<Rightarrow> st(sid := st sid @ [m])))"

fun streams :: "hub_event list \<Rightarrow> ws_hub \<Rightarrow> (string \<Rightarrow> ws_message list) \<Rightarrow> string \<Rightarrow> ws_message list" where
  "streams [] h st = st"
| "streams (e # es) h st = streams es (hub_step e h) (stream_step e h st)"

definition ring_holds :: "replay_ring option \<Rightarrow> ws_message list \<Rightarrow> bool" where
  "ring_holds ring ms \<longleftrightarrow> (case ring of None \<Rightarrow> ms = []
     | Some r \<Rightarrow> ring_wf r \<and> length (wr_buf r) = wsReplayBufferSize \<and> ring_view r = last_n wsReplayBufferSize ms)"

definition replay_inv :: "(string \<Rightarrow> ws_message list) \<Rightarrow> ws_hub \<Rightarrow> bool" where
  "replay_inv st h \<longleftrightarrow> (\<forall>sid. seq_of h sid = length (st sid) \<and> map wm_Seq (st sid) = [1..<Suc (length (st sid))] \<and>
     ring_holds (gm_get (wh_sessionReplay h) sid) (st sid))"

lemma replay_inv_cong:
  "wh_sessionSeq h' = wh_sessionSeq h \<Longrightarrow> wh_sessionReplay h' = wh_sessionReplay h \<Longrightarrow> replay_inv st h' = replay_inv st h"
  by (simp add: replay_inv_def seq_of_def)

lemma replay_inv_stamp:
  assumes "replay_inv st h" "stampAndRecord sid msg h = (m, h')"
  shows "replay_inv (st(sid := st sid @ [m])) h'"
proof -
  let ?n = "length (st sid)"
  let ?ring = "case gm_get (wh_sessionReplay h) sid of None \<Rightarrow> newReplayRing wsReplayBufferSize | Some r \<Rightarrow> r"
  have seq: "seq_of h sid = ?n" and old: "map wm_Seq (st sid) = [1..<Suc ?n]" using assms(1) by (simp_all add: replay_inv_def)
  have m: "wm_Seq m = ?n + 1" using assms(2) seq by (auto simp: stampAndRecord_def Let_def)
  have "ring_wf ?ring \<and> length (wr_buf ?ring) = wsReplayBufferSize \<and> ring_view ?ring = last_n wsReplayBufferSize (st sid)"
    using assms(1)[unfolded replay_inv_def, rule_format, of sid] ring_view_new[of wsReplayBufferSize]
    by (auto simp: ring_holds_def wsReplayBufferSize_def last_n_def split: option.splits)
  then have ring: "ring_wf (ring_add m ?ring) \<and> length (wr_buf (ring_add m ?ring)) = wsReplayBufferSize
      \<and> ring_view (ring_add m ?ring) = last_n wsReplayBufferSize (st sid @ [m])"
    by (simp add: ring_add_wf replay.view_push last_n_append_last_n)
  have get: "gm_get (wh_sessionReplay h') s = (if s = sid then Some (ring_add m ?ring) else gm_get (wh_sessionReplay h) s)"
    and seq': "seq_of h' s = (if s = sid then ?n + 1 else seq_of h s)" for s
    using assms(2) seq by (auto simp: stampAndRecord_def recordForReplayLocked_def Let_def seq_of_def)
  show ?thesis unfolding replay_inv_def
  proof
    fix s
    show "seq_of h' s = length ((st(sid := st sid @ [m])) s) \<and>
        map wm_Seq ((st(sid := st sid @ [m])) s) = [1..<Suc (length ((st(sid := st sid @ [m])) s))] \<and>
        ring_holds (gm_get (wh_sessionReplay h') s) ((st(sid := st sid @ [m])) s)"
    proof (cases "s = sid")
      case True
      then show ?thesis using ring m old by (simp add: get seq' ring_holds_def)
    next
      case False
      then show ?thesis using assms(1)[unfolded replay_inv_def, rule_format, of s] by (simp add: get seq' del: upt_Suc)
    qed
  qed
qed

text \<open>What an event leaves of the numbering.\<close>

lemmas hub_defs = mod_client_def register_check_def register_add_def flight_lock_def flight_unlock_def unregisterClient_def
  stop_rest_def run_take_def with_flight_def

lemma trySend_replay [simp]:
  "wh_sessionSeq (trySendOrEvict c m h) = wh_sessionSeq h" "wh_sessionReplay (trySendOrEvict c m h) = wh_sessionReplay h"
  by (simp_all add: trySendOrEvict_def mod_client_def Let_def split: option.splits)

lemma origin_replay [simp]:
  "wh_sessionSeq (flight_origin b s f c h) = wh_sessionSeq h" "wh_sessionReplay (flight_origin b s f c h) = wh_sessionReplay h"
  by (simp_all add: flight_origin_def mod_client_def split: option.splits)

lemma hub_step_replay:
  assumes "stamped e h = None" "\<And>sid. e \<noteq> EvDelete sid"
  shows "wh_sessionSeq (hub_step e h) = wh_sessionSeq h \<and> wh_sessionReplay (hub_step e h) = wh_sessionReplay h"
  using assms
  by (cases e) (auto simp: stamped_def hub_broadcast_def flight_offer_def hub_defs split: option.splits flight_phase.splits list.splits if_splits)

lemma stream_step_None: "stamped e h = None \<Longrightarrow> \<nexists>sid. e = EvDelete sid \<Longrightarrow> stream_step e h st = st"
  by (cases e) (simp_all add: stream_step_def)

lemma stream_step_Some: "stamped e h = Some (sid, m) \<Longrightarrow> stream_step e h st = st(sid := st sid @ [m])"
  by (cases e) (simp_all add: stream_step_def, simp add: stamped_def)

lemma replay_inv_step: "replay_inv st h \<Longrightarrow> replay_inv (stream_step e h st) (hub_step e h)"
proof (cases "\<exists>sid. e = EvDelete sid")
  case True
  then obtain sid where e: "e = EvDelete sid" by blast
  assume "replay_inv st h"
  note old = this[unfolded replay_inv_def, rule_format]
  show ?thesis unfolding replay_inv_def
  proof
    fix s
    show "seq_of (hub_step e h) s = length (stream_step e h st s) \<and>
        map wm_Seq (stream_step e h st s) = [1..<Suc (length (stream_step e h st s))] \<and>
        ring_holds (gm_get (wh_sessionReplay (hub_step e h)) s) (stream_step e h st s)"
      using old[of s] by (cases "s = sid") (simp_all add: e stream_step_def DeleteSessionSeq_def seq_of_def ring_holds_def del: upt_Suc)
  qed
next
  case False
  assume inv: "replay_inv st h"
  show ?thesis
  proof (cases "stamped e h")
    case None
    then have "stream_step e h st = st" using False by (simp add: stream_step_None)
    then show ?thesis using hub_step_replay[OF None] False inv replay_inv_cong[of "hub_step e h" h st] by simp
  next
    case (Some sm)
    then obtain sid msg h0 where st: "sm = (sid, fst (stampAndRecord sid msg h))"
      and h0: "h0 = snd (stampAndRecord sid msg h)"
      and same: "wh_sessionSeq (hub_step e h) = wh_sessionSeq h0" "wh_sessionReplay (hub_step e h) = wh_sessionReplay h0"
      by (cases e) (auto simp: stamped_def flight_start_def hub_broadcast_def split: if_splits prod.splits)
    have "stream_step e h st = st(sid := st sid @ [fst (stampAndRecord sid msg h)])" using Some st by (simp add: stream_step_Some)
    then have "replay_inv (stream_step e h st) h0"
      using replay_inv_stamp[OF inv, of sid msg "fst (stampAndRecord sid msg h)" h0] by (simp add: h0)
    then show ?thesis using replay_inv_cong[OF same] by blast
  qed
qed

lemma replay_inv_run: "replay_inv st h \<Longrightarrow> replay_inv (streams es h st) (fold hub_step es h)"
  by (induction es arbitrary: h st) (simp_all add: replay_inv_step)

lemma replay_inv_new: "replay_inv (\<lambda>_. []) (newWSHub epoch)"
  by (simp add: replay_inv_def newWSHub_def seq_of_def ring_holds_def)

lemma filter_seq:
  assumes "map wm_Seq xs = [1..<Suc (length xs)]"
  shows "filter (\<lambda>m. k < wm_Seq m) (drop j xs) = drop (max j k) xs"
proof -
  have nth: "wm_Seq (xs ! i) = Suc i" if "i < length xs" for i
    using arg_cong[OF assms, of "\<lambda>l. l ! i"] that by (simp del: upt_Suc)
  have "filter (\<lambda>m. k < wm_Seq m) (take (k - j) (drop j xs)) = []"
    by (auto simp: filter_empty_conv in_set_conv_nth nth)
  moreover have "filter (\<lambda>m. k < wm_Seq m) (drop (k - j) (drop j xs)) = drop (k - j) (drop j xs)"
    by (auto simp: filter_id_conv in_set_conv_nth nth)
  moreover have "drop j xs = take (k - j) (drop j xs) @ drop (k - j) (drop j xs)" by (rule append_take_drop_id[symmetric])
  ultimately have "filter (\<lambda>m. k < wm_Seq m) (drop j xs) = drop (k - j) (drop j xs)" by (metis append_Nil filter_append)
  moreover have "k - j + j = max j k" by (simp add: max_def)
  ultimately show ?thesis by (simp add: add.commute)
qed

text \<open>
  C32. A resume misses nothing that it does not announce. Whatever the broadcasts, drops, connections and deletions before it, a client
  that resumes a session at a number gets exactly the messages after that number, in order and without a gap, when they are at most
  512; when there are more it gets the newest 512 and the announcement of a gap, and a
  number that the session never reached is announced as a gap too.
\<close>

theorem resume_exact:
  "let st = streams evs (newWSHub epoch) (\<lambda>_. []) sid; n = length st
   in replaySince sid k (fold hub_step evs (newWSHub epoch)) =
     (if n \<le> k then ([], n, n < k) else if n - k \<le> 512 then (drop k st, n, False) else (drop (n - 512) st, n, True))"
proof -
  let ?h = "fold hub_step evs (newWSHub epoch)"
  define st where "st = streams evs (newWSHub epoch) (\<lambda>_. []) sid"
  have inv: "seq_of ?h sid = length st" "map wm_Seq st = [1..<Suc (length st)]"
    "ring_holds (gm_get (wh_sessionReplay ?h) sid) st"
    using replay_inv_run[OF replay_inv_new[of epoch], of evs, unfolded replay_inv_def, rule_format, of sid]
    unfolding st_def[symmetric] by blast+
  show ?thesis
  proof (cases "length st \<le> k")
    case True
    then show ?thesis by (simp add: replaySince_def inv(1) st_def[symmetric])
  next
    case False
    then have ne: "st \<noteq> []" by auto
    then obtain r where r: "gm_get (wh_sessionReplay ?h) sid = Some r" "ring_wf r"
      and view: "ring_view r = drop (length st - 512) st"
      using inv(3) by (auto simp: ring_holds_def last_n_def wsReplayBufferSize_def split: option.splits)
    have since: "ring_since k r = drop (max (length st - 512) k) st"
      by (simp add: ring_since_view[OF r(2)] view filter_seq[OF inv(2)])
    have lt: "length st - 512 < length st" using ne by (cases st) auto
    have "wm_Seq (st ! (length st - 512)) = Suc (length st - 512)"
      using arg_cong[OF inv(2), of "\<lambda>l. l ! (length st - 512)"] lt by (simp del: upt_Suc)
    then have "oldestSeq r = Suc (length st - 512)"
      using lt by (simp add: ring_oldest_view[OF r(2)] view hd_drop_conv_nth)
    then show ?thesis using False since by (auto simp: replaySince_def inv(1) r(1) st_def[symmetric] max_def Let_def)
  qed
qed


section \<open>What a connected client gets\<close>

lemma trySend_clients:
  assumes "gm_get (wh_clients h) c = Some cl"
  shows "\<exists>cl'. gm_get (wh_clients (trySendOrEvict c' m h)) c = Some cl' \<and> wc_phase cl' = wc_phase cl \<and> wc_sessionID cl' = wc_sessionID cl
    \<and> wc_out cl' = wc_out cl \<and> set (wc_send cl) \<subseteq> set (wc_send cl')"
  using assms by (auto simp: trySendOrEvict_def mod_client_def send_kept_def send_dropped_def Let_def split: option.splits)

lemma send_nonblocking_same [simp]:
  "wc_phase (send_nonblocking m cl) = wc_phase cl" "wc_sessionID (send_nonblocking m cl) = wc_sessionID cl"
  "wc_out (send_nonblocking m cl) = wc_out cl" "wc_drops (send_nonblocking m cl) = wc_drops cl"
  by (simp_all add: send_nonblocking_def)

lemma send_nonblocking_set: "set (wc_send cl) \<subseteq> set (wc_send (send_nonblocking m cl))"
  by (auto simp: send_nonblocking_def)

lemma sends_same [simp]:
  "wc_phase (fold send_nonblocking ms cl) = wc_phase cl" "wc_sessionID (fold send_nonblocking ms cl) = wc_sessionID cl"
  "wc_out (fold send_nonblocking ms cl) = wc_out cl" "wc_drops (fold send_nonblocking ms cl) = wc_drops cl"
  by (induction ms arbitrary: cl) simp_all

lemma sends_set: "set (wc_send cl) \<subseteq> set (wc_send (fold send_nonblocking ms cl))"
proof (induction ms arbitrary: cl)
  case (Cons m ms)
  then show ?case using send_nonblocking_set[of cl m] by fastforce
qed simp

lemma rate_same [simp]:
  "wc_phase (fst (wsRateAllow now cl)) = wc_phase cl" "wc_sessionID (fst (wsRateAllow now cl)) = wc_sessionID cl"
  "wc_out (fst (wsRateAllow now cl)) = wc_out cl" "wc_send (fst (wsRateAllow now cl)) = wc_send cl"
  "wc_drops (fst (wsRateAllow now cl)) = wc_drops cl"
  by (simp_all add: wsRateAllow_def)

text \<open>What every event keeps of a client: its session, what it got, and that it is gone.\<close>

definition got :: "ws_client \<Rightarrow> ws_message set" where
  "got cl = set (wc_out cl @ wc_send cl)"

definition client_keeps :: "ws_client \<Rightarrow> ws_client \<Rightarrow> bool" where
  "client_keeps cl cl' \<longleftrightarrow>
     (wc_phase cl \<in> {ClRegistered, ClGone} \<longrightarrow> wc_sessionID cl' = wc_sessionID cl \<and> wc_phase cl' \<in> {ClRegistered, ClGone})
     \<and> (wc_phase cl = ClGone \<longrightarrow> wc_phase cl' = ClGone)
     \<and> got cl \<subseteq> got cl'"

lemma client_keeps_trans: "client_keeps a b \<Longrightarrow> client_keeps b c \<Longrightarrow> client_keeps a c"
  by (auto simp: client_keeps_def)

lemma client_keeps_refl [simp]: "client_keeps cl cl"
  by (simp add: client_keeps_def)

lemma keeps_read_inbound: "client_keeps cl (read_inbound now msg h cl)"
proof -
  obtain cl1 ok where r: "wsRateAllow now cl = (cl1, ok)" by (cases "wsRateAllow now cl")
  have "wc_phase cl1 = wc_phase cl" "wc_sessionID cl1 = wc_sessionID cl" "wc_out cl1 = wc_out cl" "wc_send cl1 = wc_send cl"
    using rate_same[of now cl] by (simp_all add: r)
  then show ?thesis using send_nonblocking_set[of cl1 rate_error] by (auto simp: read_inbound_def r client_keeps_def got_def)
qed

lemma keeps_reply: "client_keeps cl (reply_next sent cl)"
  by (auto simp: reply_next_def safe_send_def client_keeps_def got_def split: list.splits if_splits)

lemma keeps_pump: "client_keeps cl (pump cl)"
  by (auto simp: pump_def client_keeps_def got_def split: list.splits)

lemma keeps_mod:
  assumes "gm_get (wh_clients h) c = Some cl" "client_keeps cl (f cl)"
  shows "\<exists>cl'. gm_get (wh_clients (mod_client k f h)) c = Some cl' \<and> client_keeps cl cl'"
  using assms by (auto simp: mod_client_def)

lemma keeps_trySend:
  assumes "gm_get (wh_clients h) c = Some cl"
  shows "\<exists>cl'. gm_get (wh_clients (trySendOrEvict k m h)) c = Some cl' \<and> client_keeps cl cl'"
  using trySend_clients[OF assms, of k m] by (auto simp: client_keeps_def got_def)

lemma keeps_origin:
  assumes "gm_get (wh_clients h) c = Some cl"
  shows "\<exists>cl'. gm_get (wh_clients (flight_origin b sent f k h)) c = Some cl' \<and> client_keeps cl cl'"
  using assms by (auto simp: flight_origin_def mod_client_def safe_send_def client_keeps_def got_def split: option.splits if_splits)

lemma keeps_stop:
  assumes "gm_get (wh_clients h) c = Some cl"
  shows "\<exists>cl'. gm_get (wh_clients (stop_rest h)) c = Some cl' \<and> client_keeps cl cl'"
proof -
  have "gm_get (wh_clients (stop_rest h)) c = Some (if wc_phase cl = ClRegistered
      then (fold send_nonblocking (wh_broadcastC h) cl)\<lparr>wc_ctxDone := True\<rparr> else cl)"
    using assms by (simp add: stop_rest_def gm_get_map_snd)
  then show ?thesis using sends_set[of cl "wh_broadcastC h"] by (auto simp: client_keeps_def got_def)
qed

lemma stamp_clients [simp]:
  "wh_clients (snd (stampAndRecord sid msg h)) = wh_clients h" "wh_dropped (snd (stampAndRecord sid msg h)) = wh_dropped h"
  "wh_flights (snd (stampAndRecord sid msg h)) = wh_flights h" "wh_evicting (snd (stampAndRecord sid msg h)) = wh_evicting h"
  "wh_broadcastC (snd (stampAndRecord sid msg h)) = wh_broadcastC h"
  by (simp_all add: stampAndRecord_def recordForReplayLocked_def Let_def)

lemma client_step:
  assumes "gm_get (wh_clients h) c = Some cl"
  shows "\<exists>cl'. gm_get (wh_clients (hub_step e h)) c = Some cl' \<and> client_keeps cl cl'"
proof (cases e)
  case (EvConnect k now)
  then show ?thesis using assms by auto
next
  case (EvRegCheck k sid)
  then show ?thesis using keeps_mod[OF assms] by (simp add: register_check_def client_keeps_def got_def)
next
  case (EvRegAdd k)
  then show ?thesis using keeps_mod[OF assms] assms by (simp add: register_add_def client_keeps_def got_def)
next
  case (EvStamp b sid msg origin)
  then show ?thesis using assms by (simp add: flight_start_def case_prod_beta)
next
  case (EvLock b)
  then show ?thesis using assms by (simp add: with_flight_def flight_lock_def split: option.splits)
next
  case (EvOffer b k)
  show ?thesis
  proof (cases "hub_step e h = h")
    case True
    then show ?thesis using assms by simp
  next
    case False
    then obtain f todo where "hub_step e h = flight_offer b f todo k h"
      by (auto simp: EvOffer with_flight_def split: option.splits flight_phase.splits if_splits)
    then show ?thesis using assms by (simp add: flight_offer_def keeps_trySend)
  qed
next
  case (EvUnlock b)
  then show ?thesis using assms by (simp add: with_flight_def flight_unlock_def split: option.splits)
next
  case (EvOrigin b sent)
  then show ?thesis using assms keeps_origin[OF assms] by (simp add: with_flight_def split: option.splits)
next
  case (EvBroadcast msg)
  then show ?thesis using assms by (simp add: hub_broadcast_def)
next
  case (EvRunTake b)
  then show ?thesis using assms by (simp add: run_take_def split: list.splits)
next
  case (EvEvict k)
  then show ?thesis using assms keeps_mod[of "h\<lparr>wh_evicting := remove1 k (wh_evicting h)\<rparr>" c cl]
    by (simp add: unregisterClient_def client_keeps_def got_def)
next
  case (EvUnregister k)
  then show ?thesis using assms keeps_mod[OF assms] by (simp add: unregisterClient_def client_keeps_def got_def)
next
  case (EvPump k)
  then show ?thesis using keeps_mod[OF assms] keeps_pump by simp
next
  case EvStopRest
  then show ?thesis using assms keeps_stop[OF assms] by simp
next
  case (EvDelete sid)
  then show ?thesis using assms by (simp add: DeleteSessionSeq_def)
next
  case (EvInbound k now msg)
  then show ?thesis using keeps_mod[OF assms] keeps_read_inbound by simp
next
  case (EvReply k sent)
  then show ?thesis using keeps_mod[OF assms] keeps_reply by simp
qed (use assms in simp_all)


lemma client_run:
  "gm_get (wh_clients h) c = Some cl \<Longrightarrow> \<exists>cl'. gm_get (wh_clients (fold hub_step es h)) c = Some cl' \<and> client_keeps cl cl'"
proof (induction es arbitrary: h cl)
  case Nil
  then show ?case by simp
next
  case (Cons e es)
  obtain cl1 where one: "gm_get (wh_clients (hub_step e h)) c = Some cl1" "client_keeps cl cl1" using client_step[OF Cons.prems] by blast
  obtain cl' where "gm_get (wh_clients (fold hub_step es (hub_step e h))) c = Some cl'" "client_keeps cl1 cl'"
    using Cons.IH[OF one(1)] by blast
  then show ?case using one(2) client_keeps_trans by auto
qed

lemma trySend_other [simp]:
  "wh_flights (trySendOrEvict c m h) = wh_flights h" "wh_dropped h \<le> wh_dropped (trySendOrEvict c m h)"
  by (auto simp: trySendOrEvict_def mod_client_def Let_def split: option.splits)

lemma origin_dropped [simp]: "wh_dropped (flight_origin b s f c h) = wh_dropped h"
  by (simp add: flight_origin_def mod_client_def split: option.splits)

lemma offer_dropped [simp]: "wh_dropped h \<le> wh_dropped (flight_offer b f todo c h)"
proof -
  have "wh_dropped h = wh_dropped (h\<lparr>wh_flights := gm_put b (f\<lparr>bf_phase := FlSending (removeAll c todo),
      bf_originSeen := (bf_originSeen f \<or> bf_origin f = Some c)\<rparr>) (wh_flights h)\<rparr>)" by simp
  then show ?thesis unfolding flight_offer_def by (metis trySend_other(2))
qed

lemma dropped_step: "wh_dropped h \<le> wh_dropped (hub_step e h)"
  by (cases e) (auto simp: with_flight_def flight_start_def case_prod_beta hub_broadcast_def DeleteSessionSeq_def hub_defs
      split: option.splits list.splits flight_phase.splits)

lemma dropped_run: "wh_dropped h \<le> wh_dropped (fold hub_step es h)"
  by (induction es arbitrary: h) (auto intro: le_trans dropped_step)

text \<open>A client has, or is still to be offered, a message of its session.\<close>

definition on_list :: "nat \<Rightarrow> ws_client \<Rightarrow> flight \<Rightarrow> bool" where
  "on_list c cl f \<longleftrightarrow> bf_session f \<noteq> None \<and> (case bf_phase f of FlStamped \<Rightarrow> wants (bf_session f) cl | FlSending todo \<Rightarrow> c \<in> set todo | FlOrigin \<Rightarrow> False)"

definition has_message :: "ws_message \<Rightarrow> ws_client \<Rightarrow> bool" where
  "has_message m cl \<longleftrightarrow> m \<in> set (wc_out cl @ wc_send cl)"

definition owed :: "ws_hub \<Rightarrow> nat \<Rightarrow> ws_message \<Rightarrow> bool" where
  "owed h c m \<longleftrightarrow> (\<exists>cl. gm_get (wh_clients h) c = Some cl \<and>
     (has_message m cl \<or> (\<exists>b f. gm_get (wh_flights h) b = Some f \<and> bf_msg f = m \<and> on_list c cl f)))"

lemma wants_keeps: "client_keeps cl cl' \<Longrightarrow> wc_phase cl = ClRegistered \<Longrightarrow> wants s cl' = wants s cl"
  by (auto simp: client_keeps_def wants_def split: option.splits)

lemma trySend_delivers:
  assumes "gm_get (wh_clients h) c = Some cl" "wh_dropped (trySendOrEvict c m h) = wh_dropped h"
  shows "\<exists>cl'. gm_get (wh_clients (trySendOrEvict c m h)) c = Some cl' \<and> has_message m cl'"
proof (cases "length (wc_send cl) < wsSendBufSize")
  case True
  then show ?thesis using assms(1) by (simp add: trySendOrEvict_def mod_client_def send_kept_def has_message_def)
next
  case False
  then have "wh_dropped (trySendOrEvict c m h) = Suc (wh_dropped h)"
    using assms(1) by (simp add: trySendOrEvict_def mod_client_def Let_def)
  then show ?thesis using assms(2) by simp
qed

lemma flight_step:
  assumes "gm_get (wh_flights h) b = Some f" "gm_get (wh_clients h) c = Some cl" "wc_phase cl = ClRegistered" "on_list c cl f"
    and "wh_dropped (hub_step e h) = wh_dropped h"
    and "gm_get (wh_clients (hub_step e h)) c = Some cl'" "client_keeps cl cl'"
  shows "has_message (bf_msg f) cl' \<or> (\<exists>f'. gm_get (wh_flights (hub_step e h)) b = Some f' \<and> bf_msg f' = bf_msg f \<and> on_list c cl' f')"
proof -
  have same: "on_list c cl' f" using assms(3,4,7) by (simp add: on_list_def wants_keeps split: flight_phase.splits)
  have stays: ?thesis if "gm_get (wh_flights (hub_step e h)) b = Some f" using that same by blast
  show ?thesis
  proof (cases e)
    case (EvLock k)
    show ?thesis
    proof (cases "k = b \<and> bf_phase f = FlStamped")
      case True
      have "(c, cl) \<in> set (wh_clients h)" using assms(2) by (rule map_of_SomeD)
      then have "c \<in> set (map fst (filter (\<lambda>(c, cl). wc_phase cl = ClRegistered \<and> wants (bf_session f) cl) (wh_clients h)))"
        using True assms(3,4) by (force simp: on_list_def)
      then show ?thesis using True assms(1) same by (simp add: EvLock with_flight_def flight_lock_def on_list_def)
    next
      case False
      then show ?thesis using assms(1) by (intro stays) (auto simp: EvLock with_flight_def flight_lock_def split: option.splits)
    qed
  next
    case (EvOffer k c')
    show ?thesis
    proof (cases "k = b")
      case False
      then show ?thesis using assms(1)
        by (intro stays) (auto simp: EvOffer with_flight_def flight_offer_def split: option.splits flight_phase.splits)
    next
      case True
      show ?thesis
      proof (cases "\<exists>todo. bf_phase f = FlSending todo \<and> c' \<in> set todo")
        case False
        then show ?thesis using assms(1) \<open>k = b\<close>
          by (intro stays) (auto simp: EvOffer with_flight_def split: flight_phase.splits)
      next
        case True
        then obtain todo where todo: "bf_phase f = FlSending todo" "c' \<in> set todo" by blast
        then have st: "hub_step e h = flight_offer b f todo c' h" using assms(1) \<open>k = b\<close> by (simp add: EvOffer with_flight_def)
        show ?thesis
        proof (cases "c' = c")
          case True
          let ?h = "h\<lparr>wh_flights := gm_put b (f\<lparr>bf_phase := FlSending (removeAll c' todo),
            bf_originSeen := (bf_originSeen f \<or> bf_origin f = Some c')\<rparr>) (wh_flights h)\<rparr>"
          have off: "hub_step e h = trySendOrEvict c (bf_msg f) ?h" by (simp add: st flight_offer_def True)
          have "wh_dropped (trySendOrEvict c (bf_msg f) ?h) = wh_dropped ?h" using assms(5) off by simp
          then show ?thesis using trySend_delivers[of ?h c cl "bf_msg f"] assms(2,6) unfolding off by auto
        next
          case False
          then have "on_list c cl' (f\<lparr>bf_phase := FlSending (removeAll c' todo), bf_originSeen := (bf_originSeen f \<or> bf_origin f = Some c')\<rparr>)"
            using same todo by (simp add: on_list_def)
          then show ?thesis by (simp add: st flight_offer_def)
        qed
      qed
    qed
  next
    case (EvUnlock k)
    have "\<not> (k = b \<and> bf_phase f = FlSending [])" using assms(4) by (auto simp: on_list_def)
    then show ?thesis using assms(1)
      by (intro stays) (auto simp: EvUnlock with_flight_def flight_unlock_def split: option.splits)
  next
    case (EvOrigin k sent)
    have "\<not> (k = b \<and> bf_phase f = FlOrigin)" using assms(4) by (auto simp: on_list_def)
    then show ?thesis using assms(1)
      by (intro stays) (auto simp: EvOrigin with_flight_def flight_origin_def mod_client_def split: option.splits)
  next
    case (EvStamp k sid msg origin)
    then show ?thesis using assms(1) by (intro stays) (auto simp: flight_start_def case_prod_beta)
  next
    case (EvRunTake k)
    then show ?thesis using assms(1) by (intro stays) (auto simp: run_take_def split: list.splits)
  next
    case (EvBroadcast msg)
    then show ?thesis using assms(1) by (intro stays) (simp add: hub_broadcast_def)
  next
    case (EvDelete sid)
    then show ?thesis using assms(1) by (intro stays) (simp add: DeleteSessionSeq_def)
  qed (use assms(1) in \<open>intro stays; simp add: hub_defs\<close>)+
qed

lemma owed_step:
  assumes "owed h c m" "registered_in h c" "wh_dropped (hub_step e h) = wh_dropped h"
  shows "owed (hub_step e h) c m"
proof -
  obtain cl where cl: "gm_get (wh_clients h) c = Some cl" "wc_phase cl = ClRegistered"
    using assms(2) by (auto simp: registered_in_def split: option.splits)
  obtain cl' where cl': "gm_get (wh_clients (hub_step e h)) c = Some cl'" "client_keeps cl cl'" using client_step[OF cl(1)] by blast
  consider "has_message m cl" | b f where "gm_get (wh_flights h) b = Some f" "bf_msg f = m" "on_list c cl f"
    using assms(1) cl(1) by (auto simp: owed_def)
  then show ?thesis
  proof cases
    case 1
    then have "has_message m cl'" using cl'(2) by (auto simp: has_message_def got_def[symmetric] client_keeps_def simp del: set_append)
    then show ?thesis using cl'(1) by (auto simp: owed_def)
  next
    case 2
    then show ?thesis using flight_step[OF 2(1) cl 2(3) assms(3) cl'] cl'(1) unfolding owed_def by blast
  qed
qed

text \<open>The messages that are broadcast to a session.\<close>

fun broadcasts :: "string \<Rightarrow> hub_event list \<Rightarrow> ws_hub \<Rightarrow> ws_message list" where
  "broadcasts sid [] h = []"
| "broadcasts sid (e # es) h =
     (case e of EvStamp b s msg origin \<Rightarrow> if s = sid \<and> gm_get (wh_flights h) b = None then [fst (stampAndRecord sid msg h)] else []
      | _ \<Rightarrow> []) @ broadcasts sid es (hub_step e h)"

definition subscribed :: "ws_hub \<Rightarrow> nat \<Rightarrow> string \<Rightarrow> bool" where
  "subscribed h c sid = (case gm_get (wh_clients h) c of Some cl \<Rightarrow> wc_phase cl = ClRegistered \<and> wants (Some sid) cl | None \<Rightarrow> False)"

lemma subscribed_step: "subscribed h c sid \<Longrightarrow> registered_in (fold hub_step es (hub_step e h)) c \<Longrightarrow> subscribed (hub_step e h) c sid"
proof -
  assume "subscribed h c sid" and reg: "registered_in (fold hub_step es (hub_step e h)) c"
  then obtain cl where cl: "gm_get (wh_clients h) c = Some cl" "wc_phase cl = ClRegistered" "wants (Some sid) cl"
    by (auto simp: subscribed_def split: option.splits)
  obtain cl' where cl': "gm_get (wh_clients (hub_step e h)) c = Some cl'" "client_keeps cl cl'" using client_step[OF cl(1)] by blast
  obtain cl2 where "gm_get (wh_clients (fold hub_step es (hub_step e h))) c = Some cl2" "client_keeps cl' cl2"
    using client_run[OF cl'(1)] by blast
  then have "wc_phase cl' \<noteq> ClGone" using reg by (auto simp: registered_in_def client_keeps_def)
  then have "wc_phase cl' = ClRegistered" using cl'(2) cl(2) by (auto simp: client_keeps_def)
  then show ?thesis using cl' cl by (simp add: subscribed_def wants_keeps)
qed

lemma subscribed_owed:
  assumes "subscribed h c sid" "registered_in (fold hub_step es h) c" "wh_dropped (fold hub_step es h) = wh_dropped h"
  shows "(\<forall>m. owed h c m \<longrightarrow> owed (fold hub_step es h) c m) \<and> (\<forall>m\<in>set (broadcasts sid es h). owed (fold hub_step es h) c m)"
  using assms
proof (induction es arbitrary: h)
  case Nil
  then show ?case by simp
next
  case (Cons e es)
  let ?h = "hub_step e h"
  have reg: "registered_in h c" using Cons.prems(1) by (auto simp: subscribed_def registered_in_def split: option.splits)
  have sub: "subscribed ?h c sid" using Cons.prems(1,2) subscribed_step by simp
  have dr: "wh_dropped ?h = wh_dropped h" "wh_dropped (fold hub_step es ?h) = wh_dropped ?h"
    using Cons.prems(3) dropped_step[of h e] dropped_run[of ?h es] by simp_all
  have IH: "\<forall>m. owed ?h c m \<longrightarrow> owed (fold hub_step es ?h) c m" "\<forall>m\<in>set (broadcasts sid es ?h). owed (fold hub_step es ?h) c m"
    using Cons.IH[OF sub] Cons.prems(2) dr(2) by simp_all
  have new: "owed ?h c m" if m: "m \<in> set (broadcasts sid (e # es) h)" "m \<notin> set (broadcasts sid es ?h)" for m
  proof -
    obtain b msg origin where e: "e = EvStamp b sid msg origin" "gm_get (wh_flights h) b = None" "m = fst (stampAndRecord sid msg h)"
      using m by (cases e) (auto split: if_splits)
    obtain cl where cl: "gm_get (wh_clients h) c = Some cl" "wants (Some sid) cl"
      using Cons.prems(1) by (auto simp: subscribed_def split: option.splits)
    show ?thesis using e cl by (auto simp: owed_def flight_start_def case_prod_beta on_list_def)
  qed
  then show ?case using IH owed_step[OF _ reg dr(1)] by auto
qed

text \<open>
  C33. A connected client gets every message. While a client stays registered for a session (or for all) and the hub drops nothing,
  every message that is broadcast to the session is in what the client was sent or in its queue once no broadcast is
  under way, however broadcasts, registrations, evictions and replies come between each other.
\<close>

theorem connected_client_gets_all:
  assumes "subscribed (fold hub_step es1 (newWSHub epoch)) c sid"
    and "h2 = fold hub_step es2 (fold hub_step es1 (newWSHub epoch))" "registered_in h2 c" "wh_flights h2 = []"
    and "wh_dropped h2 = wh_dropped (fold hub_step es1 (newWSHub epoch))"
  shows "\<exists>cl. gm_get (wh_clients h2) c = Some cl
    \<and> set (broadcasts sid es2 (fold hub_step es1 (newWSHub epoch))) \<subseteq> set (wc_out cl @ wc_send cl)"
proof -
  obtain cl where cl: "gm_get (wh_clients h2) c = Some cl" using assms(3) by (auto simp: registered_in_def split: option.splits)
  have "\<forall>m\<in>set (broadcasts sid es2 (fold hub_step es1 (newWSHub epoch))). owed h2 c m"
    using subscribed_owed[OF assms(1)] assms(2,3,5) by blast
  then have "set (broadcasts sid es2 (fold hub_step es1 (newWSHub epoch))) \<subseteq> set (wc_out cl @ wc_send cl)"
    using cl assms(4) by (auto simp: owed_def has_message_def)
  then show ?thesis using cl by blast
qed


definition chat_message :: ws_message where
  "chat_message = no_message\<lparr>wm_Type := ''token''\<rparr>"

definition two_clients :: "hub_event list" where
  "two_clients = [EvConnect 1 0, EvRegCheck 1 ''s'', EvRegAdd 1, EvConnect 2 0, EvRegCheck 2 [], EvRegAdd 2]"

definition two_broadcasts :: "hub_event list" where
  "two_broadcasts = [EvStamp 1 ''s'' chat_message None, EvStamp 2 ''s'' chat_message None, EvLock 2, EvLock 1,
     EvOffer 2 1, EvOffer 1 2, EvOffer 1 1, EvUnlock 1, EvOffer 2 2, EvUnlock 2]"

definition demo_hub :: ws_hub where
  "demo_hub = fold hub_step two_clients (newWSHub 7)"

theorem connected_client_gets_all_witness:
  "\<exists>cl m1 m2. gm_get (wh_clients (fold hub_step two_broadcasts demo_hub)) 1 = Some cl
     \<and> wm_Seq m1 = 1 \<and> wm_Seq m2 = 2 \<and> {m1, m2} \<subseteq> set (wc_out cl @ wc_send cl)"
proof -
  have hyps: "subscribed demo_hub 1 ''s''" "registered_in (fold hub_step two_broadcasts demo_hub) 1"
    "wh_flights (fold hub_step two_broadcasts demo_hub) = []" "wh_dropped (fold hub_step two_broadcasts demo_hub) = wh_dropped demo_hub"
    subgoal by code_simp
    subgoal by code_simp
    subgoal by code_simp
    subgoal by code_simp
    done
  have "map wm_Seq (broadcasts ''s'' two_broadcasts demo_hub) = [1, 2]" by code_simp
  then obtain m1 m2 where ms: "broadcasts ''s'' two_broadcasts demo_hub = [m1, m2]" "wm_Seq m1 = 1" "wm_Seq m2 = 2"
    by (auto simp: map_eq_Cons_conv)
  obtain cl where "gm_get (wh_clients (fold hub_step two_broadcasts demo_hub)) 1 = Some cl"
      "set (broadcasts ''s'' two_broadcasts demo_hub) \<subseteq> set (wc_out cl @ wc_send cl)"
    using connected_client_gets_all[OF _ _ _ hyps(3), of two_clients 7 1 "''s''" two_broadcasts] hyps unfolding demo_hub_def by blast
  then show ?thesis using ms by auto
qed

text \<open>The order is not kept: two broadcasts that run beside each other reach a client in either order.\<close>

lemma broadcasts_overtake:
  "let h = fold hub_step [EvStamp 1 ''s'' chat_message None, EvStamp 2 ''s'' chat_message None, EvLock 2, EvLock 1,
        EvOffer 2 1, EvOffer 1 1] demo_hub
   in map_option (map wm_Seq \<circ> wc_send) (gm_get (wh_clients h) 1) = Some [2, 1]"
  by code_simp

text \<open>A client whose registration checked the flag before the hub stopped stays registered and is never cancelled.\<close>

lemma registration_survives_stop:
  "let h = fold hub_step [EvConnect 1 0, EvRegCheck 1 ''s'', EvStopFlag, EvStopRest, EvRegAdd 1] (newWSHub 7)
   in wh_stopC h \<and> map_option (\<lambda>cl. (wc_phase cl, wc_ctxDone cl)) (gm_get (wh_clients h) 1) = Some (ClRegistered, False)"
  by code_simp

text \<open>A message of a session that goes through the global channel reaches the clients of every session, and is not in the replay.\<close>

lemma global_broadcast_reaches_all:
  "let h = fold hub_step [EvBroadcast (chat_message\<lparr>wm_SessionID := ''other''\<rparr>), EvRunTake 9, EvLock 9, EvOffer 9 1, EvOffer 9 2, EvUnlock 9] demo_hub
   in map_option (map wm_SessionID \<circ> wc_send) (gm_get (wh_clients h) 1) = Some [''other''] \<and> replaySince ''other'' 0 h = ([], 0, False)"
  by code_simp

section \<open>Slow clients\<close>

interpretation slow: breaker "\<lambda>cl. wsMaxDrops \<le> wc_drops cl" wc_drops "\<lambda>m. send_dropped" "send_kept m" wsMaxDrops for m
  by unfold_locales (auto simp: send_kept_def send_dropped_def wsMaxDrops_def)

definition slow_ok :: "ws_hub \<Rightarrow> nat \<Rightarrow> ws_client \<Rightarrow> bool" where
  "slow_ok h c cl \<longleftrightarrow> length (wc_send cl) \<le> wsSendBufSize \<and> (wsMaxDrops \<le> wc_drops cl \<longrightarrow> c \<in> set (wh_evicting h) \<or> wc_phase cl = ClGone)"

definition slow_inv :: "ws_hub \<Rightarrow> bool" where
  "slow_inv h \<longleftrightarrow> gm_wf (wh_clients h) \<and> length (wh_broadcastC h) \<le> broadcastBufSize \<and> (\<forall>c cl. gm_get (wh_clients h) c = Some cl \<longrightarrow> slow_ok h c cl)"

lemma slow_ok_cong: "wh_evicting h' = wh_evicting h \<Longrightarrow> slow_ok h' c cl = slow_ok h c cl"
  by (simp add: slow_ok_def)

lemma slow_inv_mod:
  assumes "slow_inv h" "\<And>cl. slow_ok h c cl \<Longrightarrow> slow_ok h c (f cl)"
  shows "slow_inv (mod_client c f h)"
  using assms by (auto simp: slow_inv_def mod_client_def slow_ok_cong[of "h\<lparr>wh_clients := x\<rparr>" h for x])

lemma slow_inv_cong:
  "wh_clients h' = wh_clients h \<Longrightarrow> wh_evicting h' = wh_evicting h \<Longrightarrow> length (wh_broadcastC h') \<le> broadcastBufSize
   \<Longrightarrow> slow_inv h \<Longrightarrow> slow_inv h'"
  by (auto simp: slow_inv_def slow_ok_def)

lemma slow_inv_broadcastC: "slow_inv h \<Longrightarrow> length (wh_broadcastC h) \<le> broadcastBufSize"
  by (simp add: slow_inv_def)

lemma slow_inv_trySend:
  assumes "slow_inv h"
  shows "slow_inv (trySendOrEvict c m h)"
proof (cases "gm_get (wh_clients h) c")
  case None
  then show ?thesis using assms by (simp add: trySendOrEvict_def)
next
  case (Some cl)
  then have cl: "slow_ok h c cl" using assms by (simp add: slow_inv_def)
  show ?thesis
  proof (cases "length (wc_send cl) < wsSendBufSize")
    case True
    have "slow_ok h c (send_kept m cl)" using True by (simp add: slow_ok_def send_kept_def wsMaxDrops_def)
    then show ?thesis using assms True
      by (auto simp: trySendOrEvict_def Some slow_inv_def mod_client_def slow_ok_cong[of "h\<lparr>wh_clients := x\<rparr>" h for x])
  next
    case False
    let ?h = "trySendOrEvict c m h"
    have ev: "wh_evicting ?h = wh_evicting h @ (if wc_drops cl + 1 = wsMaxDrops then [c] else [])"
      and bc: "wh_broadcastC ?h = wh_broadcastC h" and clients: "wh_clients ?h = gm_mod c send_dropped (wh_clients h)"
      using False by (simp_all add: trySendOrEvict_def Some mod_client_def Let_def)
    have "slow_ok ?h c (send_dropped cl)" using cl by (auto simp: slow_ok_def send_dropped_def ev wsMaxDrops_def)
    moreover have "slow_ok ?h k v" if "slow_ok h k v" for k v using that by (auto simp: slow_ok_def ev)
    ultimately show ?thesis using assms Some by (auto simp: slow_inv_def bc clients)
  qed
qed

lemma slow_ok_nonblocking: "slow_ok h c cl \<Longrightarrow> slow_ok h c (send_nonblocking m cl)"
  by (auto simp: slow_ok_def send_nonblocking_def)

lemma slow_ok_sends: "slow_ok h c cl \<Longrightarrow> slow_ok h c (fold send_nonblocking ms cl)"
  by (induction ms arbitrary: cl) (simp_all add: slow_ok_nonblocking)

lemma slow_ok_inbound: "slow_ok h c cl \<Longrightarrow> slow_ok h c (read_inbound now msg h' cl)"
proof -
  assume ok: "slow_ok h c cl"
  obtain cl1 b where r: "wsRateAllow now cl = (cl1, b)" by (cases "wsRateAllow now cl")
  then have "slow_ok h c cl1" using ok rate_same[of now cl] by (simp add: slow_ok_def)
  then show ?thesis using slow_ok_nonblocking[of h c cl1 rate_error] by (auto simp: read_inbound_def r slow_ok_def)
qed

lemma slow_inv_step:
  assumes "slow_inv h"
  shows "slow_inv (hub_step e h)"
proof (cases e)
  case (EvConnect c now)
  then show ?thesis using assms
    by (auto simp: slow_inv_def slow_ok_def new_client_def wsMaxDrops_def)
next
  case (EvRegCheck c sid)
  then show ?thesis using assms by (auto simp: register_check_def slow_ok_def intro!: slow_inv_mod)
next
  case (EvRegAdd c)
  then show ?thesis using assms by (auto simp: register_add_def slow_ok_def intro!: slow_inv_mod)
next
  case (EvStamp b sid msg origin)
  then show ?thesis using assms
    by (auto simp: flight_start_def case_prod_beta slow_inv_broadcastC intro: slow_inv_cong[of _ h])
next
  case (EvLock b)
  then show ?thesis using assms
    by (auto simp: with_flight_def flight_lock_def slow_inv_broadcastC intro: slow_inv_cong[of _ h] split: option.splits)
next
  case (EvOffer b c)
  have "slow_inv (flight_offer b f todo c h)" for f todo
  proof -
    have "slow_inv (h\<lparr>wh_flights := F\<rparr>)" for F
      by (rule slow_inv_cong[of _ h]) (use assms slow_inv_broadcastC[OF assms] in simp_all)
    then show ?thesis unfolding flight_offer_def by (rule slow_inv_trySend)
  qed
  then show ?thesis using assms by (auto simp: EvOffer with_flight_def split: option.splits flight_phase.splits)
next
  case (EvUnlock b)
  then show ?thesis using assms
    by (auto simp: with_flight_def flight_unlock_def slow_inv_broadcastC intro: slow_inv_cong[of _ h] split: option.splits)
next
  case (EvOrigin b sent)
  have "slow_inv (flight_origin b sent f c h)" for f c
  proof -
    let ?h = "h\<lparr>wh_flights := gm_del b (wh_flights h)\<rparr>"
    have inv: "slow_inv ?h" using assms by (auto simp: slow_inv_broadcastC intro: slow_inv_cong[of _ h])
    have "slow_inv (mod_client c (\<lambda>_. cl') ?h)"
      if "gm_get (wh_clients h) c = Some cl" "safe_send sent (bf_msg f) cl = Some cl'" for cl cl'
    proof -
      have "slow_ok h c cl" using that(1) assms by (simp add: slow_inv_def)
      then have "slow_ok ?h c cl'" using that(2) by (auto simp: slow_ok_def safe_send_def split: if_splits)
      then show ?thesis using inv by (intro slow_inv_mod)
    qed
    then show ?thesis using assms by (auto simp: flight_origin_def split: option.splits)
  qed
  then show ?thesis using assms by (auto simp: EvOrigin with_flight_def split: option.splits)
next
  case (EvBroadcast msg)
  then show ?thesis using assms
    by (auto simp: hub_broadcast_def slow_inv_broadcastC intro: slow_inv_cong[of _ h])
next
  case (EvRunTake b)
  then show ?thesis using assms slow_inv_broadcastC[OF assms]
    by (auto simp: run_take_def intro: slow_inv_cong[of _ h] split: list.splits)
next
  case (EvEvict c)
  have "slow_inv (unregisterClient c (h\<lparr>wh_evicting := remove1 c (wh_evicting h)\<rparr>))"
    using assms by (auto simp: slow_inv_def unregisterClient_def mod_client_def slow_ok_def)
  then show ?thesis using assms by (simp add: EvEvict)
next
  case (EvUnregister c)
  then show ?thesis using assms by (auto simp: unregisterClient_def slow_ok_def intro!: slow_inv_mod)
next
  case (EvPump c)
  then show ?thesis using assms by (auto simp: pump_def slow_ok_def split: list.splits intro!: slow_inv_mod)
next
  case EvStopRest
  have "slow_inv (stop_rest h)"
  proof -
    have ev: "wh_evicting (stop_rest h) = wh_evicting h" by (simp add: stop_rest_def)
    have "slow_ok h c ((fold send_nonblocking (wh_broadcastC h) cl)\<lparr>wc_ctxDone := True\<rparr>)" if "slow_ok h c cl" for c cl
      using slow_ok_sends[OF that, of "wh_broadcastC h"] by (simp add: slow_ok_def)
    then have "slow_ok (stop_rest h) c cl" if "gm_get (wh_clients (stop_rest h)) c = Some cl" for c cl
      using that assms unfolding slow_ok_cong[OF ev] by (auto simp: stop_rest_def gm_get_map_snd slow_inv_def)
    moreover have "gm_wf (wh_clients (stop_rest h))" using assms by (simp add: slow_inv_def stop_rest_def case_prod_beta)
    ultimately show ?thesis by (simp add: slow_inv_def stop_rest_def[of h] broadcastBufSize_def)
  qed
  then show ?thesis using assms by (simp add: EvStopRest)
next
  case (EvInbound c now msg)
  then show ?thesis using assms by (auto intro!: slow_inv_mod slow_ok_inbound)
next
  case (EvReply c sent)
  then show ?thesis using assms
    by (auto simp: reply_next_def safe_send_def slow_ok_def split: list.splits option.splits if_splits intro!: slow_inv_mod)
qed (use assms in \<open>simp_all add: DeleteSessionSeq_def slow_inv_def slow_ok_def\<close>)

text \<open>
  The queues of the hub are bounded. At every moment at most 256 messages wait for a client and at most 256 global
  messages wait for the hub, and a client that lost five messages in a row is unregistered or its eviction is under
  way.
\<close>

lemma hub_queues_bounded:
  "let h = fold hub_step evs (newWSHub epoch)
   in length (wh_broadcastC h) \<le> 256 \<and>
      list_all (\<lambda>(c, cl). length (wc_send cl) \<le> 256 \<and> (wc_drops cl < 5 \<or> c \<in> set (wh_evicting h) \<or> wc_phase cl = ClGone)) (wh_clients h)"
proof -
  have "slow_inv (fold hub_step evs h)" if "slow_inv h" for h
    using that by (induction evs arbitrary: h) (simp_all add: slow_inv_step)
  moreover have "slow_inv (newWSHub epoch)" by (simp add: slow_inv_def newWSHub_def)
  ultimately have "slow_inv (fold hub_step evs (newWSHub epoch))" by blast
  note inv = this
  have "slow_ok (fold hub_step evs (newWSHub epoch)) c cl" if "(c, cl) \<in> set (wh_clients (fold hub_step evs (newWSHub epoch)))" for c cl
    using that inv by (simp add: slow_inv_def gm_get_Some_iff)
  moreover have "length (wh_broadcastC (fold hub_step evs (newWSHub epoch))) \<le> broadcastBufSize" using inv by (rule slow_inv_broadcastC)
  ultimately show ?thesis
    by (force simp: slow_ok_def list_all_iff Let_def broadcastBufSize_def wsSendBufSize_def wsMaxDrops_def not_less)
qed


section \<open>The rate limit of a connection\<close>

text \<open>The times of the messages that pass, given the times at which messages are read.\<close>

fun rate_accepted :: "gotime list \<Rightarrow> ws_client \<Rightarrow> gotime list" where
  "rate_accepted [] cl = []"
| "rate_accepted (now # ts) cl = (case wsRateAllow now cl of (cl', ok) \<Rightarrow> (if ok then [now] else []) @ rate_accepted ts cl')"

definition within :: "gotime \<Rightarrow> gotime list \<Rightarrow> nat" where
  "within t ts = length (filter (\<lambda>x. t \<le> x \<and> x < t + wsRateLimitWindow) ts)"

lemma within_simps [simp]:
  "within t [] = 0" "within t (xs @ ys) = within t xs + within t ys"
  "within t (x # xs) = (if t \<le> x \<and> x < t + wsRateLimitWindow then 1 else 0) + within t xs"
  by (simp_all add: within_def)

lemma rate_accepted_set: "set (rate_accepted ts cl) \<subseteq> set ts"
  by (induction ts arbitrary: cl) (force simp: case_prod_beta)+

lemma rate_late: "sorted (now # ts) \<Longrightarrow> t + wsRateLimitWindow \<le> now \<Longrightarrow> within t (rate_accepted (now # ts) cl) = 0"
  using rate_accepted_set[of "now # ts" cl] by (fastforce simp: within_def filter_empty_conv simp del: rate_accepted.simps)

lemma rate_rest_of_window: "sorted ts \<Longrightarrow> t \<le> wc_msgWindowStart cl \<Longrightarrow> within t (rate_accepted ts cl) \<le> wsRateLimitMsgs - wc_msgCount cl"
proof (induction ts arbitrary: cl)
  case Nil
  then show ?case by simp
next
  case (Cons now ts)
  show ?case
  proof (cases "t + wsRateLimitWindow \<le> now")
    case True
    then show ?thesis using rate_late[OF Cons.prems(1)] by simp
  next
    case False
    then have "wsRateAllow now cl = (cl\<lparr>wc_msgCount := wc_msgCount cl + 1\<rparr>, wc_msgCount cl + 1 \<le> wsRateLimitMsgs)"
      using Cons.prems by (simp add: wsRateAllow_def)
    then show ?thesis using Cons.IH[of "cl\<lparr>wc_msgCount := wc_msgCount cl + 1\<rparr>"] Cons.prems by auto
  qed
qed

lemma rate_two_windows:
  "sorted ts \<Longrightarrow> \<forall>x\<in>set ts. t \<le> x \<Longrightarrow> within t (rate_accepted ts cl) \<le> wsRateLimitMsgs - wc_msgCount cl + wsRateLimitMsgs"
proof (induction ts arbitrary: cl)
  case Nil
  then show ?case by simp
next
  case (Cons now ts)
  show ?case
  proof (cases "now - wc_msgWindowStart cl \<ge> wsRateLimitWindow")
    case True
    let ?cl = "cl\<lparr>wc_msgWindowStart := now, wc_msgCount := 1\<rparr>"
    have "within t (rate_accepted ts ?cl) \<le> wsRateLimitMsgs - 1"
      using rate_rest_of_window[of ts t ?cl] Cons.prems by simp
    then show ?thesis using True by (simp add: wsRateAllow_def wsRateLimitMsgs_def)
  next
    case False
    let ?cl = "cl\<lparr>wc_msgCount := wc_msgCount cl + 1\<rparr>"
    have "within t (rate_accepted ts ?cl) \<le> wsRateLimitMsgs - (wc_msgCount cl + 1) + wsRateLimitMsgs"
      using Cons.IH[of ?cl] Cons.prems by simp
    then show ?thesis using False by (auto simp: wsRateAllow_def wsRateLimitMsgs_def)
  qed
qed

text \<open>In any stretch of ten seconds at most sixty messages of a connection pass, twice the limit.\<close>

lemma rate_limit_bound: "sorted ts \<Longrightarrow> within t (rate_accepted ts cl) \<le> 60"
proof (induction ts arbitrary: cl)
  case Nil
  then show ?case by simp
next
  case (Cons now ts)
  show ?case
  proof (cases "t \<le> now")
    case True
    then have "\<forall>x\<in>set (now # ts). t \<le> x" using Cons.prems by auto
    then show ?thesis using rate_two_windows[OF Cons.prems, of t cl] by (simp add: wsRateLimitMsgs_def del: rate_accepted.simps)
  next
    case False
    then show ?thesis using Cons.IH[of "fst (wsRateAllow now cl)"] Cons.prems by (simp add: case_prod_beta)
  qed
qed

text \<open>The bound is reached: the window is fixed, not sliding.\<close>

lemma rate_limit_burst:
  "within (9 * second) (rate_accepted (replicate 30 (9 * second) @ replicate 30 (10 * second)) (new_client 0)) = 60"
  by code_simp

end
