(* ===== verification/PermissionPrompts.thy ===== *)
theory PermissionPrompts
  imports AgentStore WsHub
begin

text \<open>
  The prompts that bring a permission request to the browser and back
  (\<^verbatim>\<open>internal/server/permission_prompts.go\<close>): the table of pending requests, its timeout, the
  wait of the gate's callback for the answer or the end of its context, and the handler of an answer, which
  releases the wait and then stores a grant for the agent. Each of these is an event of its own, so that answers,
  timeouts and cancellations come in any order. A channel of capacity one is a number with at most one value. The identifiers are
  random; the texts of the banner are not modelled.
\<close>

section \<open>The table\<close>

definition permissionPromptTimeout :: duration where
  "permissionPromptTimeout = 40 * second"

record pending_entry =
  pn_ch :: nat
  pn_req :: permission_request

text \<open>What the browser is told.\<close>

datatype banner = BannerShow string permission_request | BannerDown string string permission_request

record prompt_server =
  ps_pending :: "(string, pending_entry) gomap"
  ps_chans :: "(nat, decision) gomap"
  ps_next :: nat
  ps_timers :: "(string \<times> gotime) list"
  ps_waiting :: "(string, pending_entry) gomap"
  ps_results :: "(string \<times> decision) list"
  ps_denied :: "permission_request list"
  ps_banners :: "banner list"
  ps_agents :: agent_dir
  ps_audit :: "(string \<times> permission_request) list"

definition newPermissionPrompts :: "agent_dir \<Rightarrow> prompt_server" where
  "newPermissionPrompts fs = \<lparr>ps_pending = [], ps_chans = [], ps_next = 0, ps_timers = [], ps_waiting = [], ps_results = [],
     ps_denied = [], ps_banners = [], ps_agents = fs, ps_audit = []\<rparr>"

text \<open>A send that does not wait.\<close>

definition chan_offer :: "nat \<Rightarrow> decision \<Rightarrow> prompt_server \<Rightarrow> prompt_server" where
  "chan_offer ch d s = (if gm_get (ps_chans s) ch = None then s\<lparr>ps_chans := gm_put ch d (ps_chans s)\<rparr> else s)"

definition register :: "gotime \<Rightarrow> string \<Rightarrow> permission_request \<Rightarrow> prompt_server \<Rightarrow> prompt_server \<times> nat" where
  "register now i req s =
     (s\<lparr>ps_pending := gm_put i \<lparr>pn_ch = ps_next s, pn_req = req\<rparr> (ps_pending s), ps_next := ps_next s + 1,
        ps_timers := ps_timers s @ [(i, now + permissionPromptTimeout)]\<rparr>, ps_next s)"

definition broadcastPermissionCancelledReason :: "string \<Rightarrow> permission_request \<Rightarrow> string \<Rightarrow> prompt_server \<Rightarrow> prompt_server" where
  "broadcastPermissionCancelledReason i req reason s = s\<lparr>ps_banners := ps_banners s @ [BannerDown i reason req]\<rparr>"

definition prompt_timeout :: "string \<Rightarrow> prompt_server \<Rightarrow> prompt_server" where
  "prompt_timeout i s =
     (case gm_get (ps_pending s) i of
        None \<Rightarrow> s
      | Some e \<Rightarrow> broadcastPermissionCancelledReason i (pn_req e) ''timeout''
          (chan_offer (pn_ch e) Deny (s\<lparr>ps_pending := gm_del i (ps_pending s)\<rparr>)))"

definition resolve :: "string \<Rightarrow> decision \<Rightarrow> prompt_server \<Rightarrow> prompt_server \<times> permission_request option" where
  "resolve i d s =
     (case gm_get (ps_pending s) i of
        None \<Rightarrow> (s, None)
      | Some e \<Rightarrow> (chan_offer (pn_ch e) d (s\<lparr>ps_pending := gm_del i (ps_pending s)\<rparr>), Some (pn_req e)))"

section \<open>The callback of the gate\<close>

text \<open>Up to the wait. \<open>newid\<close> is the identifier (\<open>None\<close> when the random source fails), \<open>listening\<close> whether a client is
  subscribed to the session.\<close>

definition prompt_begin :: "gotime \<Rightarrow> string option \<Rightarrow> bool \<Rightarrow> permission_request \<Rightarrow> prompt_server \<Rightarrow> prompt_server" where
  "prompt_begin now newid listening req s =
     (if pr_SessionID req = [] then s\<lparr>ps_denied := ps_denied s @ [req]\<rparr>
      else case newid of
        None \<Rightarrow> s\<lparr>ps_denied := ps_denied s @ [req]\<rparr>
      | Some i \<Rightarrow>
          if \<not> listening then s\<lparr>ps_denied := ps_denied s @ [req]\<rparr>
          else case register now i req s of (s, ch) \<Rightarrow>
            s\<lparr>ps_waiting := gm_put i \<lparr>pn_ch = ch, pn_req = req\<rparr> (ps_waiting s), ps_banners := ps_banners s @ [BannerShow i req]\<rparr>)"

text \<open>The two ways the wait ends.\<close>

definition prompt_receive :: "string \<Rightarrow> prompt_server \<Rightarrow> prompt_server" where
  "prompt_receive i s =
     (case gm_get (ps_waiting s) i of
        None \<Rightarrow> s
      | Some e \<Rightarrow>
          (case gm_get (ps_chans s) (pn_ch e) of
             None \<Rightarrow> s
           | Some d \<Rightarrow> s\<lparr>ps_waiting := gm_del i (ps_waiting s), ps_chans := gm_del (pn_ch e) (ps_chans s), ps_results := ps_results s @ [(i, d)]\<rparr>))"

definition prompt_cancelled :: "string \<Rightarrow> prompt_server \<Rightarrow> prompt_server" where
  "prompt_cancelled i s =
     (case gm_get (ps_waiting s) i of
        None \<Rightarrow> s
      | Some e \<Rightarrow>
          (case resolve i Deny s of (s, r) \<Rightarrow>
             let s = (if r = None then s else broadcastPermissionCancelledReason i (pn_req e) ''cancelled'' s)
             in s\<lparr>ps_waiting := gm_del i (ps_waiting s), ps_results := ps_results s @ [(i, Deny)]\<rparr>))"

section \<open>Answers\<close>

definition parseBoolPayload :: "json option \<Rightarrow> bool" where
  "parseBoolPayload v = (case v of Some (JBool b) \<Rightarrow> b | Some (JNum n) \<Rightarrow> n \<noteq> 0 | Some (JStr s) \<Rightarrow> s = ''true'' \<or> s = ''1'' | _ \<Rightarrow> False)"

definition payloadString :: "json_args \<Rightarrow> string \<Rightarrow> string" where
  "payloadString m k = (case gm_get m k of None \<Rightarrow> [] | Some JNull \<Rightarrow> [] | Some v \<Rightarrow> go_v v)"

definition response_id :: "json_args \<Rightarrow> string" where
  "response_id p = (let i = payloadString p ''id'' in if i = [] then payloadString p ''request_id'' else i)"

definition response_scope :: "json_args \<Rightarrow> string" where
  "response_scope p =
     (let scope = payloadString p ''scope''
      in if scope = [] then if parseBoolPayload (gm_get p ''approved'') then ''once'' else ''deny'' else scope)"

definition scope_decision :: "string \<Rightarrow> decision" where
  "scope_decision scope =
     (if scope = ''always_agent'' \<or> scope = ''always_agent_all'' then AllowAll else if scope = ''once'' then Allow else Deny)"

definition store_grant :: "persist_env \<Rightarrow> string \<Rightarrow> permission_request \<Rightarrow> agent_dir \<Rightarrow> agent_dir" where
  "store_grant env scope req fs =
     (if scope = ''always_agent_all'' \<and> pr_AgentName req \<noteq> [] then
        (case grantApprovedTool env (pr_AgentName req) ''*'' fs of Inl e \<Rightarrow> fs | Inr fs' \<Rightarrow> fs')
      else if scope = ''always_agent'' \<and> pr_AgentName req \<noteq> [] \<and> pr_ToolName req \<noteq> [] then
        (case grantApprovedTool env (pr_AgentName req) (pr_ToolName req) fs of Inl e \<Rightarrow> fs | Inr fs' \<Rightarrow> fs')
      else fs)"

definition handlePermissionResponse :: "persist_env \<Rightarrow> json_args \<Rightarrow> prompt_server \<Rightarrow> prompt_server" where
  "handlePermissionResponse env p s =
     (if response_id p = [] then s
      else case resolve (response_id p) (scope_decision (response_scope p)) s of
        (s, None) \<Rightarrow> s
      | (s, Some req) \<Rightarrow> s\<lparr>ps_agents := store_grant env (response_scope p) req (ps_agents s),
            ps_audit := ps_audit s @ [(response_scope p, req)]\<rparr>)"

section \<open>Events\<close>

datatype prompt_event =
  PrAsk gotime "string option" bool permission_request
| PrFire string gotime
| PrResponse persist_env json_args
| PrReceive string
| PrCancel string

fun prompt_step :: "prompt_event \<Rightarrow> prompt_server \<Rightarrow> prompt_server" where
  "prompt_step (PrAsk now newid listening req) s = prompt_begin now newid listening req s"
| "prompt_step (PrFire i now) s =
     (case find (\<lambda>(j, due). j = i \<and> due \<le> now) (ps_timers s) of
        None \<Rightarrow> s
      | Some t \<Rightarrow> prompt_timeout i (s\<lparr>ps_timers := remove1 t (ps_timers s)\<rparr>))"
| "prompt_step (PrResponse env p) s = handlePermissionResponse env p s"
| "prompt_step (PrReceive i) s = prompt_receive i s"
| "prompt_step (PrCancel i) s = prompt_cancelled i s"

text \<open>The identifiers that are asked for, and the answers that found a pending request.\<close>

fun asked_id :: "prompt_event \<Rightarrow> string list" where
  "asked_id (PrAsk now (Some i) listening req) = [i]"
| "asked_id e = []"

definition accepted_answer :: "prompt_event \<Rightarrow> prompt_server \<Rightarrow> (string \<times> decision) list" where
  "accepted_answer e s =
     (case e of
        PrResponse env p \<Rightarrow> if response_id p \<noteq> [] \<and> gm_get (ps_pending s) (response_id p) \<noteq> None
                             then [(response_id p, scope_decision (response_scope p))] else []
      | _ \<Rightarrow> [])"

fun accepted_answers :: "prompt_event list \<Rightarrow> prompt_server \<Rightarrow> (string \<times> decision) list" where
  "accepted_answers [] s = []"
| "accepted_answers (e # es) s = accepted_answer e s @ accepted_answers es (prompt_step e s)"

section \<open>What a prompt gives\<close>

definition banners_down :: "string \<Rightarrow> prompt_server \<Rightarrow> nat" where
  "banners_down i s = length (filter (\<lambda>b. case b of BannerDown j _ _ \<Rightarrow> j = i | BannerShow _ _ \<Rightarrow> False) (ps_banners s))"

text \<open>Each identifier with its channel is pending and unanswered, or answered and not yet received, or finished.\<close>

definition waits :: "(string \<times> decision) list \<Rightarrow> prompt_server \<Rightarrow> string \<Rightarrow> pending_entry \<Rightarrow> bool" where
  "waits A s i e \<longleftrightarrow> pn_ch e < ps_next s \<and> i \<notin> fst ` set (ps_results s) \<and>
     (gm_get (ps_chans s) (pn_ch e) = None \<longrightarrow> gm_get (ps_pending s) i = Some e \<and> i \<in> fst ` set (ps_timers s)) \<and>
     (\<forall>d. gm_get (ps_chans s) (pn_ch e) = Some d \<longrightarrow> gm_get (ps_pending s) i = None \<and> (d = Deny \<or> (i, d) \<in> set A))"

definition chans_apart :: "(string, pending_entry) gomap \<Rightarrow> bool" where
  "chans_apart w \<longleftrightarrow> (\<forall>i e j e'. gm_get w i = Some e \<longrightarrow> gm_get w j = Some e' \<longrightarrow> pn_ch e = pn_ch e' \<longrightarrow> i = j)"

lemma chans_apartD: "chans_apart w \<Longrightarrow> gm_get w i = Some e \<Longrightarrow> gm_get w j = Some e' \<Longrightarrow> i \<noteq> j \<Longrightarrow> pn_ch e \<noteq> pn_ch e'"
  unfolding chans_apart_def by blast

lemma chans_apart_del: "chans_apart w \<Longrightarrow> chans_apart (gm_del i w)"
  unfolding chans_apart_def by (metis gm_get_del option.distinct(1))

lemma chans_apart_put:
  assumes "chans_apart w" "\<And>j e'. gm_get w j = Some e' \<Longrightarrow> pn_ch e' \<noteq> pn_ch e"
  shows "chans_apart (gm_put i e w)"
  unfolding chans_apart_def
proof (intro allI impI)
  fix a ea b eb
  assume g: "gm_get (gm_put i e w) a = Some ea" "gm_get (gm_put i e w) b = Some eb" "pn_ch ea = pn_ch eb"
  show "a = b"
  proof (rule ccontr)
    assume ab: "a \<noteq> b"
    consider "a = i" | "b = i" | "a \<noteq> i" "b \<noteq> i" by blast
    then show False
    proof cases
      case 1
      then show False using g ab assms(2)[of b eb] by simp
    next
      case 2
      then show False using g ab assms(2)[of a ea] by simp
    next
      case 3
      then show False using g ab chans_apartD[OF assms(1), of a ea b eb] by simp
    qed
  qed
qed

definition waiting_ok :: "string set \<Rightarrow> (string \<times> decision) list \<Rightarrow> prompt_server \<Rightarrow> bool" where
  "waiting_ok used A s \<longleftrightarrow>
     (\<forall>i e. gm_get (ps_waiting s) i = Some e \<longrightarrow> i \<in> used \<and> waits A s i e)
     \<and> chans_apart (ps_waiting s)
     \<and> (\<forall>i e. gm_get (ps_pending s) i = Some e \<longrightarrow> gm_get (ps_waiting s) i = Some e)
     \<and> (\<forall>ch d. gm_get (ps_chans s) ch = Some d \<longrightarrow> ch < ps_next s)"

definition results_ok :: "string set \<Rightarrow> (string \<times> decision) list \<Rightarrow> prompt_server \<Rightarrow> bool" where
  "results_ok used A s \<longleftrightarrow>
     (\<forall>i d. (i, d) \<in> set (ps_results s) \<longrightarrow> i \<in> used \<and> (d = Deny \<or> (i, d) \<in> set A)) \<and> distinct (map fst (ps_results s))
     \<and> (\<forall>i\<in>fst ` set A. i \<in> used \<and> gm_get (ps_pending s) i = None) \<and> distinct (map fst A)"

definition banners_ok :: "string set \<Rightarrow> prompt_server \<Rightarrow> bool" where
  "banners_ok used s \<longleftrightarrow> (\<forall>i. banners_down i s \<le> 1 \<and> (banners_down i s \<noteq> 0 \<longrightarrow> i \<in> used \<and> gm_get (ps_pending s) i = None))"

definition prompt_inv :: "string set \<Rightarrow> (string \<times> decision) list \<Rightarrow> prompt_server \<Rightarrow> bool" where
  "prompt_inv used A s \<longleftrightarrow> waiting_ok used A s \<and> results_ok used A s \<and> banners_ok used s"

text \<open>A pending request that is taken from the table, with its decision put in the channel.\<close>

definition settle :: "string \<Rightarrow> pending_entry \<Rightarrow> decision \<Rightarrow> prompt_server \<Rightarrow> prompt_server" where
  "settle i e d s = chan_offer (pn_ch e) d (s\<lparr>ps_pending := gm_del i (ps_pending s)\<rparr>)"

lemma settle_simps:
  assumes "gm_get (ps_chans s) (pn_ch e) = None"
  shows "settle i e d s = s\<lparr>ps_pending := gm_del i (ps_pending s), ps_chans := gm_put (pn_ch e) d (ps_chans s)\<rparr>"
  using assms by (simp add: settle_def chan_offer_def)

lemma pending_free: "prompt_inv used A s \<Longrightarrow> gm_get (ps_pending s) i = Some e \<Longrightarrow> gm_get (ps_chans s) (pn_ch e) = None
   \<and> gm_get (ps_waiting s) i = Some e \<and> i \<in> used \<and> pn_ch e < ps_next s \<and> i \<notin> fst ` set A \<and> banners_down i s = 0 \<and> i \<notin> fst ` set (ps_results s)"
proof -
  assume inv: "prompt_inv used A s" and p: "gm_get (ps_pending s) i = Some e"
  have w: "gm_get (ps_waiting s) i = Some e" using inv p by (simp add: prompt_inv_def waiting_ok_def)
  then have "i \<in> used \<and> waits A s i e" using inv by (simp add: prompt_inv_def waiting_ok_def)
  moreover have "i \<notin> fst ` set A" using inv p by (force simp: prompt_inv_def results_ok_def)
  moreover have "banners_down i s = 0" using inv p by (force simp: prompt_inv_def banners_ok_def)
  ultimately show ?thesis using w p by (auto simp: waits_def)
qed

lemma banners_cong: "ps_banners s' = ps_banners s \<Longrightarrow> banners_down i s' = banners_down i s"
  by (simp add: banners_down_def)

lemma prompt_inv_settle:
  assumes inv: "prompt_inv used A s" and p: "gm_get (ps_pending s) i = Some e"
    and A': "A' = A \<and> d = Deny \<or> A' = A @ [(i, d)]" and ts: "fst ` set (ps_timers s) - {i} \<subseteq> fst ` set ts"
  shows "prompt_inv used A' (settle i e d (s\<lparr>ps_timers := ts\<rparr>)) \<and> banners_down i (settle i e d (s\<lparr>ps_timers := ts\<rparr>)) = 0"
proof -
  note free = pending_free[OF inv p]
  let ?s = "s\<lparr>ps_timers := ts, ps_pending := gm_del i (ps_pending s), ps_chans := gm_put (pn_ch e) d (ps_chans s)\<rparr>"
  have st: "settle i e d (s\<lparr>ps_timers := ts\<rparr>) = ?s" using free by (simp add: settle_simps)
  have wait: "waiting_ok used A s" and res: "results_ok used A s" and ban: "banners_ok used s" using inv by (simp_all add: prompt_inv_def)
  have sub: "set A \<subseteq> set A'" and this_answer: "d = Deny \<or> (i, d) \<in> set A'" using A' by auto
  have w: "waits A' ?s j e'" if "gm_get (ps_waiting s) j = Some e'" for j e'
  proof -
    have old: "waits A s j e'" using wait that by (simp add: waiting_ok_def)
    show ?thesis
    proof (cases "j = i")
      case True
      then have "e' = e" using that free by simp
      then show ?thesis using True old this_answer by (auto simp: waits_def)
    next
      case False
      then have "pn_ch e' \<noteq> pn_ch e" using wait that free chans_apartD[of "ps_waiting s" j e' i e] by (simp add: waiting_ok_def)
      then show ?thesis using old False sub ts by (auto simp: waits_def)
    qed
  qed
  have "waiting_ok used A' ?s" using wait w free by (simp add: waiting_ok_def)
  moreover have "results_ok used A' ?s" using res A' free sub by (auto simp: results_ok_def)
  moreover have same: "banners_down j ?s = banners_down j s" for j by (rule banners_cong) simp
  then have "banners_ok used ?s" using ban by (simp add: banners_ok_def)
  ultimately show ?thesis using free same st by (simp add: prompt_inv_def)
qed

lemma waiting_ok_cong:
  assumes "ps_pending s' = ps_pending s" "ps_chans s' = ps_chans s" "ps_next s' = ps_next s"
    "ps_timers s' = ps_timers s" "ps_waiting s' = ps_waiting s" "ps_results s' = ps_results s"
  shows "waiting_ok used A s' = waiting_ok used A s"
  by (simp add: waiting_ok_def waits_def assms)

lemma results_ok_cong:
  "ps_pending s' = ps_pending s \<Longrightarrow> ps_results s' = ps_results s \<Longrightarrow> results_ok used A s' = results_ok used A s"
  by (simp add: results_ok_def)

lemma prompt_inv_down:
  assumes "prompt_inv used A s" "i \<in> used" "gm_get (ps_pending s) i = None" "banners_down i s = 0"
  shows "prompt_inv used A (broadcastPermissionCancelledReason i req reason s)"
proof -
  let ?s = "broadcastPermissionCancelledReason i req reason s"
  have b: "banners_down j ?s = (if j = i then 1 else banners_down j s)" for j
    using assms(4) by (simp add: broadcastPermissionCancelledReason_def banners_down_def)
  have "banners_ok used ?s" using assms by (simp add: prompt_inv_def banners_ok_def b, simp add: broadcastPermissionCancelledReason_def)
  moreover have "waiting_ok used A ?s = waiting_ok used A s" "results_ok used A ?s = results_ok used A s"
    by (rule waiting_ok_cong results_ok_cong; simp add: broadcastPermissionCancelledReason_def)+
  ultimately show ?thesis using assms(1) by (simp add: prompt_inv_def)
qed

lemma prompt_inv_cong:
  assumes "prompt_inv used A s" "ps_pending s' = ps_pending s" "ps_chans s' = ps_chans s" "ps_next s' = ps_next s"
    "ps_timers s' = ps_timers s" "ps_waiting s' = ps_waiting s" "ps_results s' = ps_results s" "ps_banners s' = ps_banners s"
  shows "prompt_inv used A s'"
proof -
  have "waiting_ok used A s' = waiting_ok used A s" "results_ok used A s' = results_ok used A s" "banners_ok used s' = banners_ok used s"
    using assms(2-) waiting_ok_cong[of s' s] results_ok_cong[of s' s] by (simp_all add: banners_ok_def banners_down_def)
  then show ?thesis using assms(1) by (simp add: prompt_inv_def)
qed

lemma prompt_inv_ask:
  assumes inv: "prompt_inv used A s" and fresh: "i \<notin> used"
    and s': "s' = s\<lparr>ps_pending := gm_put i \<lparr>pn_ch = ps_next s, pn_req = req\<rparr> (ps_pending s), ps_next := ps_next s + 1,
      ps_timers := ps_timers s @ [(i, due)], ps_waiting := gm_put i \<lparr>pn_ch = ps_next s, pn_req = req\<rparr> (ps_waiting s),
      ps_banners := ps_banners s @ [BannerShow i req]\<rparr>"
  shows "prompt_inv (insert i used) A s'"
proof -
  have wait: "waiting_ok used A s" and res: "results_ok used A s" and ban: "banners_ok used s" using inv by (simp_all add: prompt_inv_def)
  have free: "gm_get (ps_chans s) (ps_next s) = None" using wait by (fastforce simp: waiting_ok_def)
  have notres: "i \<notin> fst ` set (ps_results s)" using res fresh by (force simp: results_ok_def)
  have w: "waits A s' j e" if "gm_get (ps_waiting s') j = Some e" for j e
  proof (cases "j = i")
    case True
    then have "e = \<lparr>pn_ch = ps_next s, pn_req = req\<rparr>" using that by (simp add: s')
    then show ?thesis using True free notres by (simp add: waits_def s')
  next
    case False
    then have "waits A s j e" using that wait by (simp add: s' waiting_ok_def)
    then show ?thesis using False by (auto simp: waits_def s')
  qed
  have "pn_ch e < ps_next s" if "gm_get (ps_waiting s) j = Some e" for j e
  proof -
    have "waits A s j e" using that wait by (simp add: waiting_ok_def)
    then show ?thesis by (simp add: waits_def)
  qed
  then have apart: "chans_apart (ps_waiting s')"
    using wait chans_apart_put[of "ps_waiting s" "\<lparr>pn_ch = ps_next s, pn_req = req\<rparr>" i] by (fastforce simp: waiting_ok_def s')
  have "j \<in> insert i used" if "gm_get (ps_waiting s') j = Some e" for j e
    using that wait by (auto simp: waiting_ok_def s' split: if_splits)
  moreover have "gm_get (ps_waiting s') j = Some e" if "gm_get (ps_pending s') j = Some e" for j e
    using that wait by (auto simp: waiting_ok_def s' split: if_splits)
  moreover have "ch < ps_next s'" if "gm_get (ps_chans s') ch = Some d" for ch d
    using that wait by (fastforce simp: waiting_ok_def s')
  ultimately have "waiting_ok (insert i used) A s'" using w apart unfolding waiting_ok_def by blast
  moreover have "results_ok (insert i used) A s'" using res fresh by (auto simp: results_ok_def s')
  moreover have "banners_down j s' = banners_down j s" for j by (simp add: banners_down_def s')
  then have "banners_ok (insert i used) s'" using ban fresh by (auto simp: banners_ok_def s')
  ultimately show ?thesis by (simp add: prompt_inv_def)
qed

lemma prompt_inv_receive:
  assumes "prompt_inv used A s"
  shows "prompt_inv used A (prompt_receive i s)"
proof (cases "\<exists>e d. gm_get (ps_waiting s) i = Some e \<and> gm_get (ps_chans s) (pn_ch e) = Some d")
  case False
  then have "prompt_receive i s = s" by (auto simp: prompt_receive_def split: option.splits)
  then show ?thesis using assms by simp
next
  case True
  then obtain e d where e: "gm_get (ps_waiting s) i = Some e" "gm_get (ps_chans s) (pn_ch e) = Some d" by blast
  let ?s = "s\<lparr>ps_waiting := gm_del i (ps_waiting s), ps_chans := gm_del (pn_ch e) (ps_chans s), ps_results := ps_results s @ [(i, d)]\<rparr>"
  have st: "prompt_receive i s = ?s" by (simp add: prompt_receive_def e)
  have wait: "waiting_ok used A s" and res: "results_ok used A s" and ban: "banners_ok used s" using assms by (simp_all add: prompt_inv_def)
  have wi: "i \<in> used" "waits A s i e" using wait e(1) by (simp_all add: waiting_ok_def)
  have "waits A ?s j e'" if "gm_get (ps_waiting s) j = Some e'" "j \<noteq> i" for j e'
  proof -
    have "waits A s j e'" "pn_ch e' \<noteq> pn_ch e"
      using wait that e(1) chans_apartD[of "ps_waiting s" j e' i e] by (simp_all add: waiting_ok_def)
    then show ?thesis using that(2) by (auto simp: waits_def)
  qed
  moreover have "gm_get (ps_pending s) i = None" using wi(2) e(2) by (simp add: waits_def)
  ultimately have "waiting_ok used A ?s" using wait by (auto simp: waiting_ok_def chans_apart_del split: if_splits)
  moreover have "results_ok used A ?s" using res wi e(2) by (auto simp: results_ok_def waits_def)
  moreover have "banners_ok used ?s" using ban by (simp add: banners_ok_def banners_down_def)
  ultimately show ?thesis by (simp add: st prompt_inv_def)
qed

text \<open>A wait that ends with the context; the request is out of the table by then.\<close>

lemma prompt_inv_leave:
  assumes "prompt_inv used A s" "gm_get (ps_waiting s) i = Some e" "gm_get (ps_pending s) i = None"
  shows "prompt_inv used A (s\<lparr>ps_waiting := gm_del i (ps_waiting s), ps_results := ps_results s @ [(i, Deny)]\<rparr>)"
proof -
  let ?s = "s\<lparr>ps_waiting := gm_del i (ps_waiting s), ps_results := ps_results s @ [(i, Deny)]\<rparr>"
  have wait: "waiting_ok used A s" and res: "results_ok used A s" and ban: "banners_ok used s" using assms(1) by (simp_all add: prompt_inv_def)
  have wi: "i \<in> used" "waits A s i e" using wait assms(2) by (simp_all add: waiting_ok_def)
  have "waits A ?s j e'" if "gm_get (ps_waiting s) j = Some e'" "j \<noteq> i" for j e'
  proof -
    have "waits A s j e'" using wait that by (simp add: waiting_ok_def)
    then show ?thesis using that(2) by (auto simp: waits_def)
  qed
  then have "waiting_ok used A ?s" using wait assms(3) by (auto simp: waiting_ok_def chans_apart_del split: if_splits)
  moreover have "results_ok used A ?s" using res wi by (auto simp: results_ok_def waits_def)
  moreover have "banners_ok used ?s" using ban by (simp add: banners_ok_def banners_down_def)
  ultimately show ?thesis by (simp add: prompt_inv_def)
qed


text \<open>The timer of a request that is no longer pending.\<close>

lemma prompt_inv_timer:
  assumes "prompt_inv used A s" "gm_get (ps_pending s) i = None" "fst ` set (ps_timers s) - {i} \<subseteq> fst ` set ts"
  shows "prompt_inv used A (s\<lparr>ps_timers := ts\<rparr>)"
proof -
  let ?s = "s\<lparr>ps_timers := ts\<rparr>"
  have wait: "waiting_ok used A s" using assms(1) by (simp add: prompt_inv_def)
  have "waits A ?s j e" if "gm_get (ps_waiting s) j = Some e" for j e
  proof -
    have old: "waits A s j e" using wait that by (simp add: waiting_ok_def)
    show ?thesis
    proof (cases "j = i")
      case True
      then show ?thesis using old assms(2) by (auto simp: waits_def)
    next
      case False
      then show ?thesis using old assms(3) by (auto simp: waits_def)
    qed
  qed
  then have "waiting_ok used A ?s" using wait by (simp add: waiting_ok_def)
  moreover have "results_ok used A ?s = results_ok used A s" by (rule results_ok_cong) simp_all
  moreover have "banners_ok used ?s = banners_ok used s" by (simp add: banners_ok_def banners_down_def)
  ultimately show ?thesis using assms(1) by (simp add: prompt_inv_def)
qed

lemma settle_pending [simp]: "gm_get (ps_pending (settle i e d s)) j = (if j = i then None else gm_get (ps_pending s) j)"
  by (simp add: settle_def chan_offer_def)

lemma settle_waiting [simp]: "ps_waiting (settle i e d s) = ps_waiting s"
  by (simp add: settle_def chan_offer_def)

lemma settle_timers: "chan_offer ch d (s\<lparr>ps_timers := ts, ps_pending := p\<rparr>) = (chan_offer ch d (s\<lparr>ps_pending := p\<rparr>))\<lparr>ps_timers := ts\<rparr>"
  by (simp add: chan_offer_def)

lemma prompt_inv_fire:
  assumes inv: "prompt_inv used A s"
  shows "prompt_inv used A (prompt_step (PrFire i now) s)"
proof (cases "find (\<lambda>(j, due). j = i \<and> due \<le> now) (ps_timers s)")
  case None
  then show ?thesis using inv by simp
next
  case (Some t)
  let ?ts = "remove1 t (ps_timers s)"
  have "fst t = i" using Some by (auto simp: find_Some_iff)
  have ts: "fst ` set (ps_timers s) - {i} \<subseteq> fst ` set ?ts"
  proof
    fix j
    assume "j \<in> fst ` set (ps_timers s) - {i}"
    then obtain due where "(j, due) \<in> set (ps_timers s)" "j \<noteq> i" by auto
    then have "(j, due) \<in> set ?ts" using \<open>fst t = i\<close> by (cases t) simp
    then show "j \<in> fst ` set ?ts" by force
  qed
  show ?thesis
  proof (cases "gm_get (ps_pending s) i")
    case None
    then show ?thesis using prompt_inv_timer[OF inv None ts] by (simp add: Some prompt_timeout_def)
  next
    case pend: (Some e)
    let ?s = "settle i e Deny (s\<lparr>ps_timers := ?ts\<rparr>)"
    have "prompt_inv used A ?s \<and> banners_down i ?s = 0" by (rule prompt_inv_settle[OF inv pend _ ts]) simp
    then have "prompt_inv used A (broadcastPermissionCancelledReason i (pn_req e) ''timeout'' ?s)"
      using pending_free[OF inv pend] by (intro prompt_inv_down) simp_all
    then show ?thesis by (simp add: Some prompt_timeout_def pend settle_def)
  qed
qed

lemma resolve_settle: "gm_get (ps_pending s) i = Some e \<Longrightarrow> resolve i d s = (settle i e d (s\<lparr>ps_timers := ps_timers s\<rparr>), Some (pn_req e))"
  by (simp add: resolve_def settle_def)

lemma prompt_inv_response:
  assumes inv: "prompt_inv used A s"
  shows "prompt_inv used (A @ accepted_answer (PrResponse env p) s) (prompt_step (PrResponse env p) s)"
proof (cases "gm_get (ps_pending s) (response_id p)")
  case None
  then show ?thesis using inv by (simp add: accepted_answer_def handlePermissionResponse_def resolve_def)
next
  case (Some e)
  let ?i = "response_id p" and ?d = "scope_decision (response_scope p)"
  show ?thesis
  proof (cases "?i = []")
    case True
    then show ?thesis using inv by (simp add: accepted_answer_def handlePermissionResponse_def)
  next
    case False
    let ?s = "settle ?i e ?d (s\<lparr>ps_timers := ps_timers s\<rparr>)"
    have "prompt_inv used (A @ [(?i, ?d)]) ?s \<and> banners_down ?i ?s = 0" by (rule prompt_inv_settle[OF inv Some]) auto
    then show ?thesis using False Some
      by (simp add: accepted_answer_def handlePermissionResponse_def resolve_settle[OF Some] del: settle_pending settle_waiting)
         (rule prompt_inv_cong, simp_all)
  qed
qed

lemma prompt_inv_cancel:
  assumes inv: "prompt_inv used A s"
  shows "prompt_inv used A (prompt_cancelled i s)"
proof (cases "gm_get (ps_waiting s) i")
  case None
  then show ?thesis using inv by (simp add: prompt_cancelled_def)
next
  case wt: (Some e)
  show ?thesis
  proof (cases "gm_get (ps_pending s) i")
    case None
    then show ?thesis using prompt_inv_leave[OF inv wt None] by (simp add: prompt_cancelled_def wt resolve_def)
  next
    case (Some e')
    then have e': "e' = e" using pending_free[OF inv Some] wt by simp
    let ?s = "settle i e Deny (s\<lparr>ps_timers := ps_timers s\<rparr>)"
    have "prompt_inv used A ?s \<and> banners_down i ?s = 0" using e' by (intro prompt_inv_settle[OF inv Some[unfolded e']]) auto
    then have down: "prompt_inv used A (broadcastPermissionCancelledReason i (pn_req e) ''cancelled'' ?s)"
      using pending_free[OF inv Some] by (intro prompt_inv_down) simp_all
    have "gm_get (ps_waiting (broadcastPermissionCancelledReason i (pn_req e) ''cancelled'' ?s)) i = Some e"
      "gm_get (ps_pending (broadcastPermissionCancelledReason i (pn_req e) ''cancelled'' ?s)) i = None"
      by (simp_all add: broadcastPermissionCancelledReason_def wt)
    from prompt_inv_leave[OF down this] show ?thesis
      by (simp add: prompt_cancelled_def wt resolve_settle[OF Some] e' Let_def)
  qed
qed

lemma prompt_inv_begin:
  assumes inv: "prompt_inv used A s" and fresh: "set (asked_id (PrAsk now newid listening req)) \<inter> used = {}"
  shows "prompt_inv (used \<union> set (asked_id (PrAsk now newid listening req))) A (prompt_begin now newid listening req s)"
proof -
  have more: "prompt_inv (used \<union> U) A s" for U
    using inv by (auto simp: prompt_inv_def waiting_ok_def results_ok_def banners_ok_def)
  have denied: "prompt_inv (used \<union> U) A (s\<lparr>ps_denied := x\<rparr>)" for U x by (rule prompt_inv_cong[OF more]) simp_all
  show ?thesis
  proof (cases "pr_SessionID req = [] \<or> \<not> listening \<or> newid = None")
    case True
    then have "prompt_begin now newid listening req s = s\<lparr>ps_denied := ps_denied s @ [req]\<rparr>"
      by (auto simp: prompt_begin_def split: option.splits)
    then show ?thesis using denied by simp
  next
    case False
    then obtain i where i: "newid = Some i" by blast
    have "i \<notin> used" using fresh by (simp add: i)
    then have "prompt_inv (insert i used) A (prompt_begin now newid listening req s)"
      by (rule prompt_inv_ask[OF inv]) (use False in \<open>simp add: prompt_begin_def register_def i\<close>)
    then show ?thesis by (simp add: i)
  qed
qed

lemma prompt_inv_step:
  assumes "prompt_inv used A s" "set (asked_id e) \<inter> used = {}"
  shows "prompt_inv (used \<union> set (asked_id e)) (A @ accepted_answer e s) (prompt_step e s)"
proof (cases e)
  case (PrAsk now newid listening req)
  then show ?thesis using prompt_inv_begin[OF assms[unfolded PrAsk]] by (simp add: accepted_answer_def)
next
  case (PrFire i now)
  then show ?thesis using prompt_inv_fire[OF assms(1), of i now] by (simp add: accepted_answer_def)
next
  case (PrResponse env p)
  then show ?thesis using prompt_inv_response[OF assms(1)] by simp
next
  case (PrReceive i)
  then show ?thesis using prompt_inv_receive[OF assms(1)] by (simp add: accepted_answer_def)
next
  case (PrCancel i)
  then show ?thesis using prompt_inv_cancel[OF assms(1)] by (simp add: accepted_answer_def)
qed

lemma prompt_inv_run:
  "prompt_inv used A s \<Longrightarrow> distinct (concat (map asked_id es)) \<Longrightarrow> set (concat (map asked_id es)) \<inter> used = {} \<Longrightarrow>
   prompt_inv (used \<union> set (concat (map asked_id es))) (A @ accepted_answers es s) (fold prompt_step es s)"
proof (induction es arbitrary: used A s)
  case Nil
  then show ?case by simp
next
  case (Cons e es)
  have "prompt_inv (used \<union> set (asked_id e)) (A @ accepted_answer e s) (prompt_step e s)"
    using Cons.prems by (intro prompt_inv_step) auto
  then have "prompt_inv (used \<union> set (asked_id e) \<union> set (concat (map asked_id es)))
      ((A @ accepted_answer e s) @ accepted_answers es (prompt_step e s)) (fold prompt_step es (prompt_step e s))"
    using Cons.prems by (intro Cons.IH) auto
  then show ?case by (simp add: Un_assoc)
qed

lemma prompt_inv_new: "prompt_inv {} [] (newPermissionPrompts fs)"
  by (simp add: prompt_inv_def waiting_ok_def results_ok_def banners_ok_def banners_down_def chans_apart_def newPermissionPrompts_def)

text \<open>
  C34. Only an answer allows. When identifiers do not repeat, every wait ends at most once; it ends with anything but a denial only
  when an answer with that identifier, and that decision, came while the request was pending; at most one answer is accepted for a
  request; and its banner is taken down at most once.
\<close>

theorem prompts_answered_by_user:
  assumes "distinct (concat (map asked_id evs))" "s = fold prompt_step evs (newPermissionPrompts fs)"
  shows "distinct (map fst (ps_results s)) \<and> distinct (map fst (accepted_answers evs (newPermissionPrompts fs)))
    \<and> (\<forall>(i, d)\<in>set (ps_results s). d = Deny \<or> (i, d) \<in> set (accepted_answers evs (newPermissionPrompts fs)))
    \<and> (\<forall>i. banners_down i s \<le> 1)"
proof -
  have "prompt_inv (set (concat (map asked_id evs))) (accepted_answers evs (newPermissionPrompts fs)) s"
    using prompt_inv_run[OF prompt_inv_new assms(1), of fs] assms(2) by simp
  then show ?thesis by (auto simp: prompt_inv_def results_ok_def banners_ok_def)
qed

text \<open>
  C35. No prompt waits for ever. At every moment, every wait that is under way ends when the timer of its request fires
  and its channel is read: with the answer when one came, else with a denial.
\<close>

theorem every_prompt_ends:
  assumes "distinct (concat (map asked_id evs))" "s = fold prompt_step evs (newPermissionPrompts fs)" "gm_get (ps_waiting s) i = Some e"
  shows "\<exists>now d. let s' = fold prompt_step [PrFire i now, PrReceive i] s
     in (i, d) \<in> set (ps_results s') \<and> gm_get (ps_waiting s') i = None
        \<and> d = (case gm_get (ps_chans s) (pn_ch e) of Some d \<Rightarrow> d | None \<Rightarrow> Deny)"
proof -
  have "prompt_inv (set (concat (map asked_id evs))) (accepted_answers evs (newPermissionPrompts fs)) s"
    using prompt_inv_run[OF prompt_inv_new assms(1), of fs] assms(2) by simp
  then have w: "waits (accepted_answers evs (newPermissionPrompts fs)) s i e"
    using assms(3) by (simp add: prompt_inv_def waiting_ok_def)
  show ?thesis
  proof (cases "gm_get (ps_chans s) (pn_ch e)")
    case None
    then have p: "gm_get (ps_pending s) i = Some e" and t: "i \<in> fst ` set (ps_timers s)" using w by (simp_all add: waits_def)
    obtain due where "(i, due) \<in> set (ps_timers s)" using t by force
    then have "\<exists>x. x \<in> set (ps_timers s) \<and> (case x of (j, d) \<Rightarrow> j = i \<and> d \<le> due)" by (intro exI[of _ "(i, due)"]) simp
    then have "find (\<lambda>(j, d). j = i \<and> d \<le> due) (ps_timers s) \<noteq> None" by (simp only: find_None_iff not_not simp_thms)
    then obtain t where "find (\<lambda>(j, d). j = i \<and> d \<le> due) (ps_timers s) = Some t" by blast
    then have "gm_get (ps_waiting (fold prompt_step [PrFire i due, PrReceive i] s)) i = None
      \<and> (i, Deny) \<in> set (ps_results (fold prompt_step [PrFire i due, PrReceive i] s))"
      using None p assms(3)
      by (simp add: prompt_timeout_def prompt_receive_def chan_offer_def broadcastPermissionCancelledReason_def)
    then show ?thesis unfolding None Let_def by auto
  next
    case (Some d)
    then have p: "gm_get (ps_pending s) i = None" using w by (simp add: waits_def)
    have "gm_get (ps_waiting (fold prompt_step [PrFire i t, PrReceive i] s)) i = None
      \<and> (i, d) \<in> set (ps_results (fold prompt_step [PrFire i t, PrReceive i] s))" for t
      using Some p assms(3) by (simp add: prompt_timeout_def prompt_receive_def split: option.splits)
    then show ?thesis unfolding Some Let_def by auto
  qed
qed


section \<open>Grants that outlive the run\<close>

lemma Seed_keeps: "flag (g_session g) n \<Longrightarrow> flag (g_session (SeedSessionAllowed ns g)) n"
  unfolding SeedSessionAllowed_def by (induction ns arbitrary: g) (simp_all add: lruTouch_def)

lemma Seed_allows: "n \<in> set ns \<Longrightarrow> n \<noteq> [] \<Longrightarrow> flag (g_session (SeedSessionAllowed ns g)) n"
proof (induction ns arbitrary: g)
  case (Cons m ns)
  let ?g = "if m = [] \<or> flag (g_session g) m then g else lruTouch m (g\<lparr>g_session := gm_put m True (g_session g)\<rparr>)"
  have st: "SeedSessionAllowed (m # ns) g = SeedSessionAllowed ns ?g" by (simp add: SeedSessionAllowed_def)
  show ?case
  proof (cases "n = m")
    case True
    then have "flag (g_session ?g) n" using Cons.prems(2) by (simp add: lruTouch_def)
    then show ?thesis unfolding st by (rule Seed_keeps)
  next
    case False
    then show ?thesis using Cons st by simp
  qed
qed simp

lemma run_gate_allows: "n \<in> set (ag_ApprovedTools ag) \<Longrightarrow> n \<noteq> [] \<Longrightarrow> sessionAllowedFor (run_gate ag mcp g) n"
  by (simp add: run_gate_def sessionAllowedFor_def Seed_allows)

text \<open>
  Always means the next run too. When the user answers a pending request with "always for this agent" and the agent can be
  stored, then the agent as it is loaded afterwards has a gate, whatever its base gate and servers, that passes the tool without a prompt
  unless the toolbelt refuses the provider; and the wait that is under way gets the decision to allow the tool.
\<close>

lemma always_grant_reaches_next_run:
  assumes "store_ok (ps_agents s)" "gm_get (ps_pending s) (response_id p) = Some e" "response_id p \<noteq> []"
    and "response_scope p = ''always_agent''" "pr_AgentName (pn_req e) \<noteq> []" "pr_ToolName (pn_req e) \<noteq> []"
    and "grantApprovedTool env (pr_AgentName (pn_req e)) (pr_ToolName (pn_req e)) (ps_agents s) = Inr fs'"
    and "gm_get (ps_chans s) (pn_ch e) = None" "pr_ToolName req = pr_ToolName (pn_req e)"
  shows "gm_get (ps_chans (handlePermissionResponse env p s)) (pn_ch e) = Some AllowAll
    \<and> (\<exists>d\<in>set (existing_agents (ps_agents (handlePermissionResponse env p s))). ad_Name d = pr_AgentName (pn_req e)
       \<and> (\<forall>mcp g. check_begin (run_gate (def_grants d) mcp g) req =
            (if provider_refused (run_gate (def_grants d) mcp g) req then Some (denied_result ReasonProviderNotAllowed) else Some allowed_result)))"
proof -
  have st: "handlePermissionResponse env p s = (settle (response_id p) e AllowAll s)
      \<lparr>ps_agents := fs', ps_audit := ps_audit s @ [(''always_agent'', pn_req e)]\<rparr>"
    using assms(2-7) by (simp add: handlePermissionResponse_def resolve_def settle_def scope_decision_def store_grant_def chan_offer_def)
  obtain d where d: "d \<in> set (existing_agents fs')" "ad_Name d = pr_AgentName (pn_req e)"
    "pr_ToolName (pn_req e) \<in> set (ag_ApprovedTools (def_grants d))"
    using grant_stored[OF assms(1,7)] by blast
  have "sessionAllowedFor (run_gate (def_grants d) mcp g) (pr_ToolName req)" for mcp g
    using run_gate_allows[OF d(3) assms(6)] assms(9) by simp
  then have "check_begin (run_gate (def_grants d) mcp g) req =
      (if provider_refused (run_gate (def_grants d) mcp g) req then Some (denied_result ReasonProviderNotAllowed) else Some allowed_result)" for mcp g
    by (simp add: check_begin_def)
  moreover have "gm_get (ps_chans (handlePermissionResponse env p s)) (pn_ch e) = Some AllowAll"
    using assms(8) by (simp add: st settle_simps)
  ultimately show ?thesis using d by (auto simp: st)
qed

section \<open>Witnesses and examples\<close>

definition ops_bash :: permission_request where
  "ops_bash = bash_request\<lparr>pr_AgentName := ''Dev Ops'', pr_SessionID := ''s''\<rparr>"

definition answer :: "string \<Rightarrow> string \<Rightarrow> json_args" where
  "answer i scope = [(''id'', JStr i), (''scope'', JStr scope)]"

definition asked :: "prompt_event list" where
  "asked = [PrAsk 0 (Some ''r1'') True ops_bash]"

definition asked_server :: prompt_server where
  "asked_server = fold prompt_step asked (newPermissionPrompts ops_store)"

theorem prompts_answered_by_user_witness:
  "let s = fold prompt_step (asked @ [PrResponse saving_env (answer ''r1'' ''once''), PrReceive ''r1'']) (newPermissionPrompts ops_store)
   in ps_results s = [(''r1'', Allow)] \<and>
      (''r1'', Allow) \<in> set (accepted_answers (asked @ [PrResponse saving_env (answer ''r1'' ''once''), PrReceive ''r1'']) (newPermissionPrompts ops_store))"
proof -
  let ?es = "asked @ [PrResponse saving_env (answer ''r1'' ''once''), PrReceive ''r1'']"
  have "distinct (concat (map asked_id ?es))" by code_simp
  note props = prompts_answered_by_user[OF this refl, of ops_store]
  have "ps_results (fold prompt_step ?es (newPermissionPrompts ops_store)) = [(''r1'', Allow)]" by code_simp
  then show ?thesis using props by (simp add: Let_def)
qed

theorem every_prompt_ends_witness:
  "\<exists>now. (''r1'', Deny) \<in> set (ps_results (fold prompt_step [PrFire ''r1'' now, PrReceive ''r1''] asked_server))"
proof -
  have "distinct (concat (map asked_id asked))" by code_simp
  moreover have "(case gm_get (ps_waiting asked_server) ''r1'' of Some e \<Rightarrow> gm_get (ps_chans asked_server) (pn_ch e) = None | None \<Rightarrow> False)"
    by code_simp
  then obtain e where e: "gm_get (ps_waiting asked_server) ''r1'' = Some e" "gm_get (ps_chans asked_server) (pn_ch e) = None"
    by (auto split: option.splits)
  ultimately show ?thesis using every_prompt_ends[of asked asked_server ops_store "''r1''" e] unfolding asked_server_def by (auto simp: Let_def)
qed

text \<open>Between thirty and forty seconds the gate has given up but the request is still pending: an answer is accepted, and an
  "always" is stored, although the call was denied.\<close>

lemma late_answer_is_stored:
  "let s = prompt_step (PrResponse saving_env (answer ''r1'' ''always_agent'')) (prompt_step (PrFire ''r1'' (35 * second)) asked_server)
   in map approved_of (existing_agents (ps_agents s)) = [[''bash'']] \<and> promptFuncTimeout < 35 * second \<and> ps_banners s = [BannerShow ''r1'' ops_bash]"
  by code_simp

text \<open>The answer "always, all tools" covers in the current run only the tool that was asked for.\<close>

lemma always_all_covers_one_tool:
  "let g = fst (check_end ops_bash (Answered (scope_decision ''always_agent_all'')) (SetPromptFunc True server_gate))
   in check_begin g ops_bash = Some allowed_result \<and> check_begin g (ops_bash\<lparr>pr_ToolName := ''run_tests''\<rparr>) = None"
  by code_simp

end
