(* ===== verification/AgentRegistry.thy ===== *)
theory AgentRegistry
  imports AgentStore LlmTypes
begin

text \<open>
  The agents of a running server (\<^verbatim>\<open>internal/agents/agent.go\<close>, the registry in \<^verbatim>\<open>internal/agents/config.go\<close>):
  what is made from a stored definition, the registry with its overlay of one-off specialists, its reload after a change of the store,
  the copies of an agent for one request, and its bounded history. Further what writes the store past
  \<open>persistAgent\<close>: the clone handler (\<^verbatim>\<open>internal/server/handlers.go\<close>) and the rename of the terminal
  client (\<^verbatim>\<open>internal/tui/slash_commands.go\<close>); and the tool that brings in a specialist
  (\<^verbatim>\<open>internal/tools/spawn_specialist.go\<close>) as \<^verbatim>\<open>main.go\<close> wires it. An agent is owned by the
  entry of the registry that holds its pointer.
\<close>

section \<open>Agents\<close>

record rt_agent =
  ra_Name :: string
  ra_SystemPrompt :: string
  ra_Color :: string
  ra_IsDefault :: bool
  ra_ModelID :: string
  ra_Provider :: string
  ra_Endpoint :: string
  ra_APIKey :: string
  ra_History :: "message list"
  ra_VaultName :: string
  ra_Plasticity :: string
  ra_MemoryEnabled :: bool
  ra_ContextNotesEnabled :: bool
  ra_MemoryMode :: string
  ra_VaultDescription :: string
  ra_Toolbelt :: "toolbelt_entry list"
  ra_Skills :: "string list"
  ra_LocalTools :: "string list"
  ra_ApprovedTools :: "string list"
  ra_Personality :: string
  ra_VetWork :: bool

definition FromDef :: "agent_def \<Rightarrow> rt_agent" where
  "FromDef d =
     (let personality = (if ValidPersonality (ad_Personality d) then ad_Personality d else [])
      in \<lparr>ra_Name = ad_Name d, ra_SystemPrompt = ad_SystemPrompt d, ra_Color = ad_Color d, ra_IsDefault = ad_IsDefault d,
          ra_ModelID = ad_Model d, ra_Provider = ad_Provider d, ra_Endpoint = ad_Endpoint d, ra_APIKey = ad_APIKey d, ra_History = [],
          ra_VaultName = ad_VaultName d, ra_Plasticity = ad_Plasticity d,
          ra_MemoryEnabled = (case ad_MemoryEnabled d of None \<Rightarrow> True | Some b \<Rightarrow> b),
          ra_ContextNotesEnabled = ad_ContextNotesEnabled d, ra_MemoryMode = ad_MemoryMode d, ra_VaultDescription = ad_VaultDescription d,
          ra_Toolbelt = ad_Toolbelt d, ra_Skills = ad_Skills d, ra_LocalTools = ad_LocalTools d,
          ra_ApprovedTools = (case ad_ApprovedTools d of None \<Rightarrow> [] | Some ts \<Rightarrow> ts),
          ra_Personality = personality, ra_VetWork = ResolveVetWork personality (ad_VetWork d)\<rparr>)"

definition agentFromDefWithUsername :: "agent_def \<Rightarrow> string \<Rightarrow> rt_agent" where
  "agentFromDefWithUsername d username =
     (FromDef d)\<lparr>ra_VaultName := ResolvedVaultName username d,
        ra_Plasticity := (if ad_Plasticity d \<noteq> [] then ad_Plasticity d
          else if ra_Plasticity (FromDef d) = [] then ''default'' else ra_Plasticity (FromDef d))\<rparr>"

text \<open>What a run reads of an agent.\<close>

definition agent_grants_of :: "rt_agent \<Rightarrow> agent_grants" where
  "agent_grants_of a = \<lparr>ag_ModelID = ra_ModelID a, ag_MemoryMode = ra_MemoryMode a, ag_Toolbelt = ra_Toolbelt a,
     ag_LocalTools = ra_LocalTools a, ag_ApprovedTools = ra_ApprovedTools a\<rparr>"

lemma grants_of_FromDef [simp]:
  "agent_grants_of (FromDef d) = def_grants d" "agent_grants_of (agentFromDefWithUsername d u) = def_grants d"
  by (simp_all add: agent_grants_of_def FromDef_def agentFromDefWithUsername_def def_grants_def Let_def)

lemma FromDef_Name [simp]: "ra_Name (FromDef d) = ad_Name d" "ra_Name (agentFromDefWithUsername d u) = ad_Name d"
  "ra_VaultName (agentFromDefWithUsername d u) = ResolvedVaultName u d"
  by (simp_all add: FromDef_def agentFromDefWithUsername_def Let_def)

text \<open>Copies for one request: the history is left behind.\<close>

definition cloneUnlocked :: "rt_agent \<Rightarrow> rt_agent" where
  "cloneUnlocked a = a\<lparr>ra_History := []\<rparr>"

definition WithExtraSystem :: "string \<Rightarrow> rt_agent \<Rightarrow> rt_agent" where
  "WithExtraSystem extra a = (if extra = [] then a else (cloneUnlocked a)\<lparr>ra_SystemPrompt := ra_SystemPrompt a @ extra\<rparr>)"

definition WithModelOverride :: "string \<Rightarrow> rt_agent \<Rightarrow> rt_agent" where
  "WithModelOverride modelID a = (if trim_space modelID = [] then a else (cloneUnlocked a)\<lparr>ra_ModelID := modelID\<rparr>)"

definition SwapModel :: "string \<Rightarrow> rt_agent \<Rightarrow> rt_agent" where
  "SwapModel modelID a = a\<lparr>ra_ModelID := modelID\<rparr>"

definition MaxDelegationHistory :: nat where
  "MaxDelegationHistory = 6"

definition MaxAgentHistory :: nat where
  "MaxAgentHistory = 20"

definition AppendHistory :: "message list \<Rightarrow> rt_agent \<Rightarrow> rt_agent" where
  "AppendHistory msgs a =
     (let h = ra_History a @ msgs
      in a\<lparr>ra_History := (if length h > MaxAgentHistory then drop (length h - MaxAgentHistory) h else h)\<rparr>)"

definition DelegationContext :: "rt_agent \<Rightarrow> message list" where
  "DelegationContext a =
     (let h = ra_History a
      in if length h \<le> MaxDelegationHistory then h else drop (length h - MaxDelegationHistory) h)"

definition SnapshotHistory :: "int \<Rightarrow> rt_agent \<Rightarrow> message list" where
  "SnapshotHistory n a =
     (let h = ra_History a
      in if n > 0 \<and> int (length h) > n then drop (length h - nat n) h else h)"

interpretation agent_history: bounded_log "\<lambda>_. MaxAgentHistory" "\<lambda>m. AppendHistory [m]" ra_History "\<lambda>a. length (ra_History a) \<le> MaxAgentHistory"
  by unfold_locales (auto simp: AppendHistory_def last_n_def MaxAgentHistory_def Let_def)

lemma DelegationContext_last: "DelegationContext a = last_n MaxDelegationHistory (ra_History a)"
  by (simp add: DelegationContext_def last_n_def Let_def)

section \<open>The registry\<close>

record agent_registry =
  ar_agents :: "(string, rt_agent) gomap"
  ar_vaultNames :: "(string, string) gomap"
  ar_ephemeral :: "(string, rt_agent) gomap"
  ar_collisions :: nat

definition NewAgentRegistry :: agent_registry where
  "NewAgentRegistry = \<lparr>ar_agents = [], ar_vaultNames = [], ar_ephemeral = [], ar_collisions = 0\<rparr>"

definition claim_vault :: "rt_agent \<Rightarrow> agent_registry \<Rightarrow> agent_registry" where
  "claim_vault a r =
     (if ra_VaultName a = [] then r
      else case gm_get (ar_vaultNames r) (ra_VaultName a) of
        Some owner \<Rightarrow> if owner \<noteq> ra_Name a then r\<lparr>ar_collisions := ar_collisions r + 1\<rparr>
                      else r\<lparr>ar_vaultNames := gm_put (ra_VaultName a) (ra_Name a) (ar_vaultNames r)\<rparr>
      | None \<Rightarrow> r\<lparr>ar_vaultNames := gm_put (ra_VaultName a) (ra_Name a) (ar_vaultNames r)\<rparr>)"

definition reg_Register :: "rt_agent \<Rightarrow> agent_registry \<Rightarrow> agent_registry" where
  "reg_Register a r = claim_vault a (r\<lparr>ar_agents := gm_put (to_lower (ra_Name a)) a (ar_agents r)\<rparr>)"

datatype register_error = RegNilAgent | RegEmptyName | RegDuplicate string

definition TryRegister :: "rt_agent option \<Rightarrow> agent_registry \<Rightarrow> register_error + agent_registry" where
  "TryRegister oa r =
     (case oa of
        None \<Rightarrow> Inl RegNilAgent
      | Some a \<Rightarrow>
          let key = to_lower (ra_Name a)
          in if trim_space (ra_Name a) = [] then Inl RegEmptyName
             else if gm_get (ar_agents r) key \<noteq> None \<or> gm_get (ar_ephemeral r) key \<noteq> None then Inl (RegDuplicate (ra_Name a))
             else Inr (claim_vault a (r\<lparr>ar_agents := gm_put key a (ar_agents r)\<rparr>)))"

definition Unregister :: "string \<Rightarrow> agent_registry \<Rightarrow> agent_registry" where
  "Unregister name r = (if gm_get (ar_agents r) (to_lower name) = None then r else r\<lparr>ar_agents := gm_del (to_lower name) (ar_agents r)\<rparr>)"

definition ByName :: "string \<Rightarrow> agent_registry \<Rightarrow> rt_agent option" where
  "ByName name r = (case gm_get (ar_agents r) (to_lower name) of Some a \<Rightarrow> Some a | None \<Rightarrow> gm_get (ar_ephemeral r) (to_lower name))"

definition RegisterEphemeral :: "rt_agent option \<Rightarrow> agent_registry \<Rightarrow> register_error + agent_registry" where
  "RegisterEphemeral oa r =
     (case oa of
        None \<Rightarrow> Inl RegNilAgent
      | Some a \<Rightarrow>
          let key = to_lower (ra_Name a)
          in if trim_space (ra_Name a) = [] then Inl RegEmptyName
             else if gm_get (ar_agents r) key \<noteq> None \<or> gm_get (ar_ephemeral r) key \<noteq> None then Inl (RegDuplicate (ra_Name a))
             else Inr (r\<lparr>ar_ephemeral := gm_put key a (ar_ephemeral r)\<rparr>))"

definition UnregisterEphemeral :: "string \<Rightarrow> agent_registry \<Rightarrow> agent_registry" where
  "UnregisterEphemeral name r = r\<lparr>ar_ephemeral := gm_del (to_lower name) (ar_ephemeral r)\<rparr>"

definition IsEphemeral :: "string \<Rightarrow> agent_registry \<Rightarrow> bool" where
  "IsEphemeral name r \<longleftrightarrow> gm_get (ar_agents r) (to_lower name) = None \<and> gm_get (ar_ephemeral r) (to_lower name) \<noteq> None"

definition EphemeralAgents :: "agent_registry \<Rightarrow> rt_agent list" where
  "EphemeralAgents r = map snd (ar_ephemeral r)"

definition AllAgents :: "agent_registry \<Rightarrow> rt_agent list" where
  "AllAgents r = sort_key (\<lambda>a. to_lower (ra_Name a)) (map snd (ar_agents r))"

definition AgentNames :: "agent_registry \<Rightarrow> string list" where
  "AgentNames r = gm_keys (ar_agents r)"

definition DefaultAgent :: "agent_registry \<Rightarrow> rt_agent option" where
  "DefaultAgent r =
     (let sorted_agents = map snd (sort_key fst (ar_agents r))
      in case find ra_IsDefault sorted_agents of
           Some a \<Rightarrow> Some a
         | None \<Rightarrow> (case sorted_agents of [] \<Rightarrow> None | a # _ \<Rightarrow> Some a))"

definition DefaultAgentName :: "agent_registry \<Rightarrow> string" where
  "DefaultAgentName r = (case DefaultAgent r of None \<Rightarrow> [] | Some a \<Rightarrow> ra_Name a)"

definition SetDefault :: "string \<Rightarrow> agent_registry \<Rightarrow> agent_registry" where
  "SetDefault name r =
     (if gm_get (ar_agents r) (to_lower name) = None then r
      else r\<lparr>ar_agents := map (\<lambda>(k, a). (k, a\<lparr>ra_IsDefault := (k = to_lower name)\<rparr>)) (ar_agents r)\<rparr>)"

definition agent_Rename :: "rt_agent \<Rightarrow> string \<Rightarrow> agent_registry \<Rightarrow> agent_registry" where
  "agent_Rename a newName r =
     r\<lparr>ar_agents := gm_put (to_lower newName) (a\<lparr>ra_Name := newName\<rparr>) (gm_del (to_lower (ra_Name a)) (ar_agents r))\<rparr>"

definition BuildRegistryWithUsername :: "agent_def list \<Rightarrow> string \<Rightarrow> agent_registry" where
  "BuildRegistryWithUsername ds username = fold (\<lambda>d. reg_Register (agentFromDefWithUsername d username)) ds NewAgentRegistry"

definition ReloadFromConfig :: "agent_def list \<Rightarrow> string \<Rightarrow> agent_registry \<Rightarrow> agent_registry" where
  "ReloadFromConfig ds username r =
     r\<lparr>ar_agents := fold (\<lambda>d. let a = agentFromDefWithUsername d username in gm_put (to_lower (ra_Name a)) a) ds [],
       ar_vaultNames := fold (\<lambda>d m. let a = agentFromDefWithUsername d username
          in if ra_VaultName a \<noteq> [] \<and> gm_get m (ra_VaultName a) = None then gm_put (ra_VaultName a) (ra_Name a) m else m) ds []\<rparr>"

text \<open>The hook that \<^verbatim>\<open>main.go\<close> registers for every change of the store.\<close>

definition agents_changed :: "agent_dir \<Rightarrow> string \<Rightarrow> agent_registry \<Rightarrow> agent_registry" where
  "agents_changed fs username r = (case LoadAgentsFromBase fs of None \<Rightarrow> r | Some ds \<Rightarrow> ReloadFromConfig ds username r)"


section \<open>Writers that do not go through the check\<close>

datatype clone_error =
  CloneNoSource | CloneNoName | CloneSameName | CloneNotFound | CloneExists | CloneInvalid agent_invalid | CloneSaveFails

fun clone_status :: "clone_error \<Rightarrow> nat" where
  "clone_status CloneNotFound = 404"
| "clone_status CloneExists = 409"
| "clone_status (CloneInvalid i) = 422"
| "clone_status CloneSaveFails = 500"
| "clone_status _ = 400"

record clone_body =
  cb_NewName :: string
  cb_Model :: string
  cb_Provider :: string
  cb_Endpoint :: string

definition clone_of :: "clone_body \<Rightarrow> agent_def \<Rightarrow> agent_def" where
  "clone_of body src =
     (let c = src\<lparr>ad_Name := cb_NewName body, ad_IsDefault := False, ad_Version := 0\<rparr>;
          c = (if trim_space (cb_Model body) \<noteq> [] then c\<lparr>ad_Model := cb_Model body\<rparr> else c);
          c = (if trim_space (cb_Provider body) \<noteq> [] then c\<lparr>ad_Provider := cb_Provider body\<rparr>
               else if cb_Model body \<noteq> [] \<and> cb_Provider body = [] then c\<lparr>ad_Provider := InferProvider (ad_Model c)\<rparr> else c)
      in if trim_space (cb_Endpoint body) \<noteq> [] then c\<lparr>ad_Endpoint := cb_Endpoint body\<rparr> else c)"

definition handleCloneAgent :: "bool \<Rightarrow> string \<Rightarrow> clone_body \<Rightarrow> agent_dir \<Rightarrow> clone_error + (agent_def \<times> agent_dir)" where
  "handleCloneAgent saves source body fs =
     (if source = [] then Inl CloneNoSource
      else if trim_space (cb_NewName body) = [] then Inl CloneNoName
      else if equal_fold (cb_NewName body) source then Inl CloneSameName
      else case find_agent source fs of
        None \<Rightarrow> Inl CloneNotFound
      | Some src \<Rightarrow>
          if list_ex (\<lambda>a. equal_fold (ad_Name a) (cb_NewName body)) (existing_agents fs) then Inl CloneExists
          else let c = clone_of body src
               in case ad_Validate c of
                    Some e \<Rightarrow> Inl (CloneInvalid e)
                  | None \<Rightarrow> if saves then Inr (c, SaveAgent c fs) else Inl CloneSaveFails)"

text \<open>The sub-commands of the terminal client that rewrite a file: from the running agent, with the fields they name.
  \<open>resolve\<close> is the catalog of models.\<close>

definition blank_def :: agent_def where
  "blank_def = \<lparr>ad_Name = [], ad_Model = [], ad_SystemPrompt = [], ad_Color = [], ad_IsDefault = False, ad_Provider = [],
     ad_Endpoint = [], ad_APIKey = [], ad_VaultName = [], ad_Plasticity = [], ad_MemoryEnabled = None, ad_ContextNotesEnabled = False,
     ad_MemoryMode = [], ad_VaultDescription = [], ad_MemoryType = [], ad_Toolbelt = [], ad_Skills = [], ad_LocalTools = [],
     ad_ApprovedTools = None, ad_LoadedApprovedTools = None, ad_Description = [], ad_Personality = [], ad_VetWork = None, ad_Version = 0\<rparr>"

definition tui_swap_def :: "string \<Rightarrow> rt_agent \<Rightarrow> agent_def" where
  "tui_swap_def newModel ag =
     blank_def\<lparr>ad_Name := ra_Name ag, ad_Model := newModel, ad_Provider := ra_Provider ag, ad_Endpoint := ra_Endpoint ag,
       ad_APIKey := ra_APIKey ag, ad_SystemPrompt := ra_SystemPrompt ag, ad_Color := ra_Color ag\<rparr>"

definition tui_swap :: "string \<Rightarrow> string \<Rightarrow> agent_dir \<times> agent_registry \<Rightarrow> (agent_dir \<times> agent_registry) option" where
  "tui_swap agName newModel st =
     (case ByName agName (snd st) of
        None \<Rightarrow> None
      | Some ag \<Rightarrow> Some (SaveAgent (tui_swap_def newModel ag) (fst st),
          (snd st)\<lparr>ar_agents := gm_mod (to_lower agName) (SwapModel newModel) (ar_agents (snd st)),
             ar_ephemeral := (if gm_get (ar_agents (snd st)) (to_lower agName) = None
               then gm_mod (to_lower agName) (SwapModel newModel) (ar_ephemeral (snd st)) else ar_ephemeral (snd st))\<rparr>))"

definition tui_rename_def :: "(string \<Rightarrow> string \<Rightarrow> string) \<Rightarrow> string \<Rightarrow> rt_agent \<Rightarrow> agent_def" where
  "tui_rename_def resolve newName ag =
     blank_def\<lparr>ad_Name := newName, ad_Model := resolve (ra_Provider ag) (ra_ModelID ag), ad_Provider := ra_Provider ag, ad_Endpoint := ra_Endpoint ag,
       ad_APIKey := ra_APIKey ag, ad_SystemPrompt := ra_SystemPrompt ag, ad_Color := ra_Color ag, ad_IsDefault := ra_IsDefault ag,
       ad_VaultName := ra_VaultName ag, ad_Plasticity := ra_Plasticity ag, ad_MemoryEnabled := Some (ra_MemoryEnabled ag),
       ad_ContextNotesEnabled := ra_ContextNotesEnabled ag, ad_MemoryMode := ra_MemoryMode ag, ad_VaultDescription := ra_VaultDescription ag,
       ad_Toolbelt := ra_Toolbelt ag, ad_Skills := ra_Skills ag\<rparr>"

definition tui_rename :: "(string \<Rightarrow> string \<Rightarrow> string) \<Rightarrow> string \<Rightarrow> string \<Rightarrow> agent_dir \<times> agent_registry \<Rightarrow> (agent_dir \<times> agent_registry) option" where
  "tui_rename resolve oldName newName st =
     (case ByName oldName (snd st) of
        None \<Rightarrow> None
      | Some ag \<Rightarrow>
          if ByName newName (snd st) \<noteq> None \<and> to_lower newName \<noteq> to_lower oldName then None
          else let fs1 = SaveAgent (tui_rename_def resolve newName ag) (fst st);
                   fs2 = (case DeleteAgent oldName fs1 of Some f \<Rightarrow> f | None \<Rightarrow> fs1)
               in Some (fs2, agent_Rename ag newName (snd st)))"

section \<open>The tool that brings in a specialist\<close>

definition specialist_char :: "char \<Rightarrow> bool" where
  "specialist_char c \<longleftrightarrow> ascii_alnum c \<or> c \<in> {CHR '' '', CHR ''-'', CHR ''_'', CHR ''.''}"

definition collapse_fields :: "string \<Rightarrow> string" where
  "collapse_fields s = join_with '' '' (filter (\<lambda>w. w \<noteq> []) (split_on (CHR '' '') s))"

function strip_start :: "string \<Rightarrow> string" where
  "strip_start [] = []"
| "strip_start (c # s) = (if ascii_alnum c then c # s else strip_start (trim_space s))"
  by pat_completeness auto
termination
proof (relation "measure length")
  fix s :: string and c
  have "length (dropWhile P xs) \<le> length xs" for P and xs :: string by (rule length_dropWhile_le)
  from this[of is_space "rev (dropWhile is_space s)"] this[of is_space s]
  have "length (trim_space s) \<le> length s" by (simp add: trim_space_def trim_left_def trim_right_def)
  then show "(trim_space s, c # s) \<in> measure length" by simp
qed simp

definition sanitizeSpecialistName :: "string \<Rightarrow> string" where
  "sanitizeSpecialistName name =
     (let out = collapse_fields (concat (map (\<lambda>c. if specialist_char c then [c] else if c \<in> set '':/,'' \<or> c = CHR 0x5C then '' '' else []) name));
          out = strip_start out
      in if out = [] then ''Domain Specialist'' else out)"

datatype specialist_error =
  SpNoName | SpNoTask | SpNoModel | SpNoRationale | SpBadName string | SpTaken string | SpUnknownModel | SpNotWired | SpSpawnFailed string

record spawn_request =
  sq_Name :: string
  sq_Task :: string
  sq_Model :: string
  sq_Rationale :: string

record 'w specialist_deps =
  sd_ValidateName :: "(string \<Rightarrow> bool) option"
  sd_NameTaken :: "(string \<Rightarrow> bool) option"
  sd_ResolveModel :: "(string \<Rightarrow> bool) option"
  sd_Spawn :: "(spawn_request \<Rightarrow> 'w \<Rightarrow> string option \<times> 'w) option"

text \<open>\<open>asToolString\<close> of a decoded argument.\<close>

definition tool_string :: "json_args \<Rightarrow> string \<Rightarrow> string" where
  "tool_string args k = (case gm_get args k of None \<Rightarrow> [] | Some JNull \<Rightarrow> [] | Some v \<Rightarrow> go_v v)"

definition specialist_Execute :: "'w specialist_deps \<Rightarrow> json_args \<Rightarrow> 'w \<Rightarrow> (specialist_error + spawn_request) \<times> 'w" where
  "specialist_Execute deps args w =
     (let name = trim_space (tool_string args ''name''); task = trim_space (tool_string args ''task'');
          model = trim_space (tool_string args ''model''); rationale = trim_space (tool_string args ''rationale'')
      in if name = [] then (Inl SpNoName, w)
         else if task = [] then (Inl SpNoTask, w)
         else if model = [] then (Inl SpNoModel, w)
         else if rationale = [] then (Inl SpNoRationale, w)
         else
           let name = sanitizeSpecialistName name
           in if (case sd_ValidateName deps of None \<Rightarrow> False | Some valid \<Rightarrow> \<not> valid name) then (Inl (SpBadName name), w)
              else if (case sd_NameTaken deps of None \<Rightarrow> False | Some taken \<Rightarrow> taken name) then (Inl (SpTaken name), w)
              else if (case sd_ResolveModel deps of None \<Rightarrow> False | Some known \<Rightarrow> \<not> known model) then (Inl SpUnknownModel, w)
              else case sd_Spawn deps of
                None \<Rightarrow> (Inl SpNotWired, w)
              | Some spawn \<Rightarrow>
                  let req = \<lparr>sq_Name = name, sq_Task = task, sq_Model = model, sq_Rationale = rationale\<rparr>
                  in case spawn req w of
                       (Some e, w) \<Rightarrow> (Inl (SpSpawnFailed e), w)
                     | (None, w) \<Rightarrow> (Inr req, w))"

text \<open>The dependencies as \<^verbatim>\<open>main.go\<close> wires them; the catalog and what a spawn does are arguments.\<close>

definition main_validate_name :: "string \<Rightarrow> bool" where
  "main_validate_name name \<longleftrightarrow> ad_Validate (blank_def\<lparr>ad_Name := name\<rparr>) = None"

definition main_specialist_deps :: "(string \<Rightarrow> bool) \<Rightarrow> (spawn_request \<Rightarrow> 'w \<Rightarrow> string option \<times> 'w) \<Rightarrow> agent_registry \<Rightarrow> 'w specialist_deps" where
  "main_specialist_deps catalog spawn reg =
     \<lparr>sd_ValidateName = Some main_validate_name, sd_NameTaken = Some (\<lambda>n. ByName n reg \<noteq> None), sd_ResolveModel = Some catalog, sd_Spawn = Some spawn\<rparr>"

text \<open>
  On the server no specialist is ever brought in. The tool checks the proposed name as if it were the definition of an agent, and a
  definition without a model is invalid: whatever the arguments, the roster, the catalog and the spawn behind
  it, a call fails without reaching the spawn and changes nothing.
\<close>

lemma specialist_never_spawns:
  "\<exists>e. specialist_Execute (main_specialist_deps catalog spawn reg) args w = (Inl e, w)
     \<and> e \<in> {SpNoName, SpNoTask, SpNoModel, SpNoRationale} \<union> range SpBadName"
proof -
  have "\<not> main_validate_name n" for n by (simp add: main_validate_name_def ad_Validate_def blank_def_def)
  then show ?thesis by (auto simp: specialist_Execute_def main_specialist_deps_def Let_def)
qed

text \<open>The sanitized name itself passes every check of a name, so only the missing model is in the way.\<close>

lemma specialist_name_example:
  "let n = sanitizeSpecialistName ''Specialist: COBOL/Security'' in
   n = ''Specialist COBOL Security'' \<and> \<not> main_validate_name n \<and> ad_Validate (blank_def\<lparr>ad_Name := n, ad_Model := ''m''\<rparr>) = None"
  by code_simp


section \<open>Reload\<close>

lemma reload_get:
  assumes "distinct (map (to_lower \<circ> ad_Name) ds)"
  shows "gm_get (fold (\<lambda>d. let a = agentFromDefWithUsername d u in gm_put (to_lower (ra_Name a)) a) ds m) k =
    (case find (\<lambda>d. to_lower (ad_Name d) = k) ds of Some d \<Rightarrow> Some (agentFromDefWithUsername d u) | None \<Rightarrow> gm_get m k)"
  using assms
proof (induction ds arbitrary: m)
  case Nil
  then show ?case by simp
next
  case (Cons d ds)
  let ?m = "gm_put (to_lower (ad_Name d)) (agentFromDefWithUsername d u) m"
  have "to_lower (ad_Name d) \<notin> set (map (to_lower \<circ> ad_Name) ds)" using Cons.prems by simp
  then have none: "find (\<lambda>d'. to_lower (ad_Name d') = to_lower (ad_Name d)) ds = None" by (induction ds) auto
  have "gm_get (fold (\<lambda>d. let a = agentFromDefWithUsername d u in gm_put (to_lower (ra_Name a)) a) ds ?m) k =
      (case find (\<lambda>d. to_lower (ad_Name d) = k) ds of Some d \<Rightarrow> Some (agentFromDefWithUsername d u) | None \<Rightarrow> gm_get ?m k)"
    using Cons.prems by (intro Cons.IH) simp
  then show ?case using none by (auto simp: Let_def split: option.splits)
qed

lemma reload_keys:
  "set (gm_keys (fold (\<lambda>d. let a = agentFromDefWithUsername d u in gm_put (to_lower (ra_Name a)) a) ds m))
   = set (gm_keys m) \<union> (to_lower \<circ> ad_Name) ` set ds"
  by (induction ds arbitrary: m) (auto simp: Let_def gm_keys_def dom_update)

lemma reload_length:
  "distinct (map (to_lower \<circ> ad_Name) ds) \<Longrightarrow> set (gm_keys m) \<inter> (to_lower \<circ> ad_Name) ` set ds = {} \<Longrightarrow>
   length (fold (\<lambda>d. let a = agentFromDefWithUsername d u in gm_put (to_lower (ra_Name a)) a) ds m) = length m + length ds"
proof (induction ds arbitrary: m)
  case Nil
  then show ?case by simp
next
  case (Cons d ds)
  have "gm_get m (to_lower (ad_Name d)) = None" using Cons.prems(2) by (auto simp: gm_get_None_iff)
  then have put: "gm_put (to_lower (ad_Name d)) (agentFromDefWithUsername d u) m = m @ [(to_lower (ad_Name d), agentFromDefWithUsername d u)]"
    by (rule gm_put_fresh)
  have "set (gm_keys (m @ [(to_lower (ad_Name d), agentFromDefWithUsername d u)])) \<inter> (to_lower \<circ> ad_Name) ` set ds = {}"
    using Cons.prems by (auto simp: gm_keys_def)
  then show ?case using Cons.IH[of "m @ [(to_lower (ad_Name d), agentFromDefWithUsername d u)]"] Cons.prems(1) by (simp add: put Let_def)
qed

lemma store_ok_names: "store_ok fs \<Longrightarrow> distinct (map (to_lower \<circ> ad_Name) (existing_agents fs))"
proof -
  assume ok: "store_ok fs"
  have "distinct (map (\<lambda>d. to_lower (ad_Name d)) (existing_agents fs))"
  proof (rule distinct_existing[OF ok])
    fix b1 d1 b2 d2
    assume "gm_get (af_yaml fs) b1 = Some (AgentFile d1)" "gm_get (af_yaml fs) b2 = Some (AgentFile d2)" "b1 \<noteq> b2"
    then have "sanitizeAgentName (ad_Name d1) \<noteq> sanitizeAgentName (ad_Name d2)" using ok by (auto simp: store_ok_def)
    then show "to_lower (ad_Name d1) \<noteq> to_lower (ad_Name d2)"
      using sanitize_cong[of "ad_Name d1" "ad_Name d2"] by (auto simp: equal_fold_def)
  qed
  then show ?thesis by (simp add: comp_def)
qed

lemma store_ok_loads: "store_ok fs \<Longrightarrow> LoadAgentsFromBase fs = Some (existing_agents fs)"
  by (auto simp: existing_agents_def LoadAgentsFromBase_def store_ok_def LoadAgentsFrom_def Let_def split: option.splits)

lemma reload_store:
  assumes "store_ok fs"
  shows "agents_changed fs u r = ReloadFromConfig (existing_agents fs) u r"
  by (simp add: agents_changed_def store_ok_loads[OF assms])

lemma reload_ByName:
  assumes "store_ok fs"
  shows "gm_get (ar_agents (agents_changed fs u r)) (to_lower n) = map_option (\<lambda>d. agentFromDefWithUsername d u) (find_agent n fs)"
    "ar_ephemeral (agents_changed fs u r) = ar_ephemeral r"
  using reload_get[OF store_ok_names[OF assms], of u "[]" "to_lower n"]
  by (simp_all add: reload_store[OF assms] ReloadFromConfig_def find_agent_def equal_fold_def option.case_eq_if map_option_case)

text \<open>
  C36. The running registry serves what is stored. After any sequence of writes, grants and deletions and the reload that follows, a
  lookup by any spelling of a name gives exactly the agent made from the stored definition of that name, else
  the specialist of that name; and the roster has as many agents as the store.
\<close>

theorem reload_serves_store:
  "let fs = fold store_step xs no_agents; r' = agents_changed fs u r
   in ByName n r' = (case find_agent n fs of Some d \<Rightarrow> Some (agentFromDefWithUsername d u) | None \<Rightarrow> gm_get (ar_ephemeral r) (to_lower n))
      \<and> length (AllAgents r') = length (existing_agents fs)"
proof -
  let ?fs = "fold store_step xs no_agents"
  have ok: "store_ok ?fs" using store_ok_run by blast
  have "length (ar_agents (agents_changed ?fs u r)) = length (existing_agents ?fs)"
    using reload_length[OF store_ok_names[OF ok], where m = "[]" and u = u] by (simp add: reload_store[OF ok] ReloadFromConfig_def gm_keys_def)
  then show ?thesis using reload_ByName(1)[OF ok, of u r n] reload_ByName(2)[OF ok, of u r]
    by (simp add: ByName_def AllAgents_def Let_def split: option.splits)
qed

section \<open>Specialists beside the roster\<close>

text \<open>The store and the registry of a server. A write through \<open>persistAgent\<close> asks the registry for specialists and reloads it.\<close>

datatype server_op =
  SoPersist "toolbelt_entry list \<Rightarrow> toolbelt_verdict" bool agent_def string
| SoGrant "toolbelt_entry list \<Rightarrow> toolbelt_verdict" bool string string
| SoDelete string
| SoSpecialist rt_agent
| SoSpecialistEnds string

definition live_env :: "(toolbelt_entry list \<Rightarrow> toolbelt_verdict) \<Rightarrow> bool \<Rightarrow> agent_registry \<Rightarrow> persist_env" where
  "live_env belt saves r = \<lparr>pe_ephemeral = (\<lambda>n. IsEphemeral n r), pe_toolbelt = belt, pe_saves = saves\<rparr>"

definition server_step :: "string \<Rightarrow> server_op \<Rightarrow> agent_dir \<times> agent_registry \<Rightarrow> agent_dir \<times> agent_registry" where
  "server_step u x st =
     (case x of
        SoPersist belt saves d pathName \<Rightarrow>
          (case persistAgent (live_env belt saves (snd st)) d pathName (fst st) of
             Inl e \<Rightarrow> st | Inr (created, fs') \<Rightarrow> (fs', agents_changed fs' u (snd st)))
      | SoGrant belt saves a t \<Rightarrow>
          (case grantApprovedTool (live_env belt saves (snd st)) a t (fst st) of
             Inl e \<Rightarrow> st | Inr fs' \<Rightarrow> (fs', agents_changed fs' u (snd st)))
      | SoDelete n \<Rightarrow> (case DeleteAgent n (fst st) of None \<Rightarrow> st | Some fs' \<Rightarrow> (fs', agents_changed fs' u (snd st)))
      | SoSpecialist a \<Rightarrow> (case RegisterEphemeral (Some a) (snd st) of Inl e \<Rightarrow> st | Inr r \<Rightarrow> (fst st, r))
      | SoSpecialistEnds n \<Rightarrow> (fst st, UnregisterEphemeral n (snd st)))"

definition server_inv :: "agent_dir \<times> agent_registry \<Rightarrow> bool" where
  "server_inv st \<longleftrightarrow> store_ok (fst st) \<and> vaults_apart (fst st)
     \<and> (\<forall>n. gm_get (ar_agents (snd st)) (to_lower n) = None \<longleftrightarrow> find_agent n (fst st) = None)
     \<and> (\<forall>k a. gm_get (ar_ephemeral (snd st)) k = Some a \<longrightarrow> k = to_lower (ra_Name a) \<and> find_agent (ra_Name a) (fst st) = None)"

lemma find_agent_None: "find_agent n fs = None \<longleftrightarrow> (\<forall>d\<in>set (existing_agents fs). \<not> equal_fold (ad_Name d) n)"
  by (auto simp: find_agent_def find_None_iff)

lemma equal_fold_trans: "equal_fold a b \<Longrightarrow> equal_fold b c \<Longrightarrow> equal_fold a c"
  by (simp add: equal_fold_def)

lemma server_inv_reload:
  assumes "server_inv st" "store_ok fs'" "vaults_apart fs'"
    and "\<And>d a k. d \<in> set (existing_agents fs') \<Longrightarrow> gm_get (ar_ephemeral (snd st)) k = Some a \<Longrightarrow> \<not> equal_fold (ad_Name d) (ra_Name a)"
  shows "server_inv (fs', agents_changed fs' u (snd st))"
  using assms(1) reload_ByName[OF assms(2), of u "snd st"]
  by (auto simp: server_inv_def assms(2,3) find_agent_None assms(4))

text \<open>What a write adds: the incoming agent, which is no specialist.\<close>

lemma persist_existing:
  assumes "store_ok fs" "persistAgent env incoming pathName fs = Inr (created, fs')" "d \<in> set (existing_agents fs')" "store_ok fs'"
  shows "d \<in> set (existing_agents fs) \<or> ad_Name d = ad_Name incoming"
proof -
  obtain d0 where d0: "saved_def (find_agent pathName fs) incoming = Some d0" "ad_Validate d0 = None"
    and rest: "af_json fs' = []" "af_legacy fs' = NoLegacy" "gm_wf (af_yaml fs')"
    and get: "\<And>b. gm_get (af_yaml fs') b =
       (if \<not> equal_fold (ad_Name incoming) pathName \<and> b = sanitizeAgentName pathName then None
        else if b = sanitizeAgentName (ad_Name incoming) then Some (AgentFile d0) else gm_get (af_yaml fs) b)"
    using persist_files[OF assms(1,2)] by blast
  have "gm_get (af_yaml fs') (sanitizeAgentName (ad_Name d)) = Some (AgentFile d)" using in_existing[OF assms(4)] assms(3) by blast
  then show ?thesis using saved_same(1)[OF d0(1)] in_existing[OF assms(1), of d] by (auto simp: get split: if_splits)
qed

lemma persist_not_ephemeral:
  assumes "persistAgent env incoming pathName fs = Inr (created, fs')" "pe_ephemeral env (ad_Name incoming)"
  shows "equal_fold (ad_Name incoming) pathName \<and> find_agent pathName fs \<noteq> None"
  using assms by (auto simp: persistAgent_def Let_def split: if_splits)

lemma server_inv_persist:
  assumes "server_inv st" "persistAgent (live_env belt saves (snd st)) d pathName (fst st) = Inr (created, fs')"
  shows "server_inv (fs', agents_changed fs' u (snd st))"
proof (rule server_inv_reload[OF assms(1)])
  have ok: "store_ok (fst st)" "vaults_apart (fst st)" using assms(1) by (simp_all add: server_inv_def)
  show ok': "store_ok fs'" and "vaults_apart fs'" using store_ok_persist[OF ok assms(2)] by simp_all
  fix e a k
  assume e: "e \<in> set (existing_agents fs')" and a: "gm_get (ar_ephemeral (snd st)) k = Some a"
  have ka: "k = to_lower (ra_Name a)" "find_agent (ra_Name a) (fst st) = None" using assms(1) a by (simp_all add: server_inv_def)
  show "\<not> equal_fold (ad_Name e) (ra_Name a)"
  proof
    assume same: "equal_fold (ad_Name e) (ra_Name a)"
    then have "e \<notin> set (existing_agents (fst st))" using ka(2) by (auto simp: find_agent_None)
    then have name: "ad_Name e = ad_Name d" using persist_existing[OF ok(1) assms(2) e ok'] by blast
    then have low: "to_lower (ad_Name d) = to_lower (ra_Name a)" using same by (simp add: equal_fold_def)
    have "gm_get (ar_agents (snd st)) (to_lower (ra_Name a)) = None" using assms(1) ka(2) by (simp add: server_inv_def)
    then have "IsEphemeral (ad_Name d) (snd st)" using a ka(1) by (simp add: IsEphemeral_def low)
    then have "equal_fold (ad_Name d) pathName \<and> find_agent pathName (fst st) \<noteq> None"
      using persist_not_ephemeral[OF assms(2)] by (simp add: live_env_def)
    then show False using ka(2) low by (auto simp: find_agent_None equal_fold_def)
  qed
qed

lemma server_inv_step:
  assumes "server_inv st"
  shows "server_inv (server_step u x st)"
proof (cases x)
  case (SoPersist belt saves d pathName)
  then show ?thesis using assms server_inv_persist[OF assms] by (simp add: server_step_def split: sum.splits prod.splits)
next
  case (SoGrant belt saves a t)
  have "server_inv (fs', agents_changed fs' u (snd st))"
    if g: "grantApprovedTool (live_env belt saves (snd st)) a t (fst st) = Inr fs'" for fs'
  proof -
    obtain ds d where ds: "LoadAgentsFromBase (fst st) = Some ds" "find (\<lambda>d. ad_Name d = a) ds = Some d"
      using g by (auto simp: grantApprovedTool_def split: option.splits)
    let ?ts = "case ad_ApprovedTools d of None \<Rightarrow> [] | Some ts \<Rightarrow> ts"
    show ?thesis
    proof (cases "t \<in> set ?ts")
      case True
      then have "fs' = fst st" using g by (simp add: grantApprovedTool_def ds)
      then show ?thesis using assms by (intro server_inv_reload) (auto simp: server_inv_def find_agent_None)
    next
      case False
      then show ?thesis using server_inv_persist[OF assms, of belt saves "d\<lparr>ad_ApprovedTools := Some (?ts @ [t])\<rparr>" "ad_Name d"] g
        by (auto simp: grantApprovedTool_def ds split: sum.splits prod.splits if_splits)
    qed
  qed
  then show ?thesis using assms by (simp add: SoGrant server_step_def split: sum.splits)
next
  case (SoDelete n)
  have "server_inv (fs', agents_changed fs' u (snd st))" if del: "DeleteAgent n (fst st) = Some fs'" for fs'
  proof (rule server_inv_reload[OF assms])
    have ok: "store_ok (fst st)" "vaults_apart (fst st)" using assms by (simp_all add: server_inv_def)
    show ok': "store_ok fs'" and "vaults_apart fs'" using store_ok_delete[OF ok del] by simp_all
    have "fs' = (fst st)\<lparr>af_yaml := gm_del (sanitizeAgentName n) (af_yaml (fst st))\<rparr>"
      using ok(1) del by (auto simp: DeleteAgent_def store_ok_def Let_def split: if_splits)
    then have sub: "set (existing_agents fs') \<subseteq> set (existing_agents (fst st))"
      using in_existing[OF ok'] in_existing[OF ok(1)] by (auto split: if_splits)
    fix e a k
    assume "e \<in> set (existing_agents fs')" "gm_get (ar_ephemeral (snd st)) k = Some a"
    then show "\<not> equal_fold (ad_Name e) (ra_Name a)" using sub assms by (auto simp: server_inv_def find_agent_None)
  qed
  then show ?thesis using assms by (simp add: SoDelete server_step_def split: option.splits)
next
  case (SoSpecialist a)
  show ?thesis
  proof (cases "RegisterEphemeral (Some a) (snd st)")
    case (Inl e)
    then show ?thesis using assms by (simp add: SoSpecialist server_step_def)
  next
    case (Inr r)
    then have r: "r = (snd st)\<lparr>ar_ephemeral := gm_put (to_lower (ra_Name a)) a (ar_ephemeral (snd st))\<rparr>"
      and none: "gm_get (ar_agents (snd st)) (to_lower (ra_Name a)) = None"
      by (auto simp: RegisterEphemeral_def Let_def split: if_splits)
    have "find_agent (ra_Name a) (fst st) = None" using assms none by (simp add: server_inv_def)
    then show ?thesis using assms Inr by (simp add: SoSpecialist server_step_def server_inv_def r)
  qed
next
  case (SoSpecialistEnds n)
  then show ?thesis using assms by (simp add: server_step_def server_inv_def UnregisterEphemeral_def)
qed



definition cobol :: rt_agent where
  "cobol = (FromDef (plain_def ''COBOL Specialist''))\<lparr>ra_MemoryEnabled := False\<rparr>"

definition hiring :: "server_op list" where
  "hiring = [SoPersist (\<lambda>_. ToolbeltValid) True (plain_def ''Ann'') ''Ann'', SoSpecialist cobol,
     SoPersist (\<lambda>_. ToolbeltValid) True (plain_def ''cobol specialist'') ''cobol specialist'', SoDelete ''Ann'']"


section \<open>The default agent\<close>

lemma find_default: "(\<And>x. x \<in> set xs \<Longrightarrow> ra_IsDefault x = (x = a)) \<Longrightarrow> a \<in> set xs \<Longrightarrow> find ra_IsDefault xs = Some a"
  by (induction xs) auto

text \<open>After a name is made the default, its agent is the default and no other has the flag.\<close>

lemma SetDefault_DefaultAgent:
  assumes "gm_wf (ar_agents r)" "gm_get (ar_agents r) (to_lower n) = Some a"
  shows "DefaultAgent (SetDefault n r) = Some (a\<lparr>ra_IsDefault := True\<rparr>)
    \<and> filter (\<lambda>(k, a). ra_IsDefault a) (ar_agents (SetDefault n r)) = [(to_lower n, a\<lparr>ra_IsDefault := True\<rparr>)]"
proof -
  let ?f = "\<lambda>(k, a). (k, a\<lparr>ra_IsDefault := (k = to_lower n)\<rparr>)"
  have new: "ar_agents (SetDefault n r) = map ?f (ar_agents r)" using assms(2) by (simp add: SetDefault_def)
  have one: "filter (\<lambda>(k, a). ra_IsDefault a) (map ?f m) = [(to_lower n, a\<lparr>ra_IsDefault := True\<rparr>)]"
    if "distinct (map fst m)" "map_of m (to_lower n) = Some a" for m
    using that
  proof (induction m)
    case (Cons p m)
    obtain k b where p: "p = (k, b)" by (cases p)
    show ?case
    proof (cases "k = to_lower n")
      case True
      then have "\<forall>x\<in>set m. fst x \<noteq> to_lower n" using Cons.prems by (force simp: p)
      then have "filter (\<lambda>(k, a). ra_IsDefault a) (map ?f m) = []" by (auto simp: filter_empty_conv)
      then show ?thesis using True Cons.prems by (simp add: p)
    next
      case False
      then show ?thesis using Cons by (simp add: p)
    qed
  qed simp
  have flt: "filter (\<lambda>(k, a). ra_IsDefault a) (ar_agents (SetDefault n r)) = [(to_lower n, a\<lparr>ra_IsDefault := True\<rparr>)]"
    unfolding new using assms by (intro one) (simp_all add: gm_wf_def)
  let ?s = "map snd (sort_key fst (ar_agents (SetDefault n r)))"
  have "set (filter (\<lambda>(k, a). ra_IsDefault a) (ar_agents (SetDefault n r))) = {(to_lower n, a\<lparr>ra_IsDefault := True\<rparr>)}" by (simp add: flt)
  then have mem: "(k, x) \<in> set (ar_agents (SetDefault n r)) \<and> ra_IsDefault x \<longleftrightarrow> k = to_lower n \<and> x = a\<lparr>ra_IsDefault := True\<rparr>" for k x
    by (auto simp: set_eq_iff)
  then have "ra_IsDefault x = (x = a\<lparr>ra_IsDefault := True\<rparr>)" if "x \<in> set ?s" for x using that by fastforce
  moreover have "a\<lparr>ra_IsDefault := True\<rparr> \<in> set ?s" using mem[of "to_lower n" "a\<lparr>ra_IsDefault := True\<rparr>"] by force
  ultimately have "find ra_IsDefault ?s = Some (a\<lparr>ra_IsDefault := True\<rparr>)" by (rule find_default)
  then show ?thesis using flt by (simp add: DefaultAgent_def)
qed

section \<open>What the other writers break\<close>

definition ann_clone :: clone_body where
  "ann_clone = \<lparr>cb_NewName = ''Bob'', cb_Model = [], cb_Provider = [], cb_Endpoint = []\<rparr>"

definition vault_store :: agent_dir where
  "vault_store = store_step (StPersist saving_env ((plain_def ''Ann'')\<lparr>ad_VaultName := ''team''\<rparr>) ''Ann'') no_agents"

text \<open>A clone shares the vault of its source, which the checked path refuses.\<close>

lemma clone_shares_vault:
  "(case handleCloneAgent True ''Ann'' ann_clone vault_store of
      Inr (c, fs) \<Rightarrow> map (ResolvedVaultName ''mj'') (existing_agents fs) = [''team'', ''team''] | Inl e \<Rightarrow> False)
   \<and> (case persistAgent saving_env ((plain_def ''Bob'')\<lparr>ad_VaultName := ''team''\<rparr>) ''Bob'' vault_store of Inl (PersistVaultTaken owner) \<Rightarrow> True | _ \<Rightarrow> False)"
  by code_simp

text \<open>A clone overwrites an agent whose name has the same file, and it takes the name of a specialist at work.\<close>

lemma clone_overwrites:
  "case handleCloneAgent True ''Ann'' (ann_clone\<lparr>cb_NewName := ''Dev.Ops''\<rparr>)
      (fold store_step [StPersist saving_env (plain_def ''Dev Ops'') ''Dev Ops''] vault_store) of
     Inr (c, fs) \<Rightarrow> map ad_Name (existing_agents fs) = [''Ann'', ''Dev.Ops''] | Inl e \<Rightarrow> False"
  by code_simp

lemma clone_shadows_specialist:
  "case handleCloneAgent True ''Ann'' (ann_clone\<lparr>cb_NewName := ''COBOL Specialist''\<rparr>) vault_store of
     Inr (c, fs) \<Rightarrow> (case RegisterEphemeral (Some cobol) (agents_changed vault_store ''mj'' NewAgentRegistry) of
         Inr r \<Rightarrow> map_option ra_VaultName (ByName ''COBOL Specialist'' (agents_changed fs ''mj'' r)) = Some ''team'' | Inl e \<Rightarrow> False)
   | Inl e \<Rightarrow> False"
  by code_simp

text \<open>The commands of the terminal client drop what they do not name: a new model or a new name costs an agent its local tools and
  approvals, and a new model its toolbelt and memory too; with nothing granted the offer to a small model is empty.\<close>

lemma tui_swap_drops:
  "def_grants (tui_swap_def m (FromDef d)) =
     \<lparr>ag_ModelID = m, ag_MemoryMode = [], ag_Toolbelt = [], ag_LocalTools = [], ag_ApprovedTools = []\<rparr>
   \<and> ad_VaultName (tui_swap_def m (FromDef d)) = [] \<and> ad_MemoryEnabled (tui_swap_def m (FromDef d)) = None
   \<and> ad_Skills (tui_swap_def m (FromDef d)) = []"
  by (simp add: tui_swap_def_def def_grants_def blank_def_def)

lemma tui_rename_drops:
  "ad_LocalTools (tui_rename_def f n ag) = [] \<and> ad_ApprovedTools (tui_rename_def f n ag) = None
   \<and> ad_Personality (tui_rename_def f n ag) = [] \<and> ad_VetWork (tui_rename_def f n ag) = None"
  by (simp add: tui_rename_def_def blank_def_def)

lemma tui_rename_opens:
  "let d = (plain_def ''Ann'')\<lparr>ad_Model := ''qwen2.5-coder:7b'', ad_LocalTools := [''bash'']\<rparr>
   in toolbelt_schemas (def_grants d) bash_registry = [''bash'']
      \<and> toolbelt_schemas (def_grants (tui_rename_def (\<lambda>_ m. m) ''Eve'' (FromDef d))) bash_registry = []"
  by code_simp

text \<open>An agent that is unregistered keeps its claim on its vault, so its successor is counted as a collision.\<close>

lemma unregister_keeps_claim:
  "let r = reg_Register (agentFromDefWithUsername ((plain_def ''Ann'')\<lparr>ad_VaultName := ''team''\<rparr>) ''mj'') NewAgentRegistry;
       r = reg_Register (agentFromDefWithUsername ((plain_def ''Bob'')\<lparr>ad_VaultName := ''team''\<rparr>) ''mj'') (Unregister ''Ann'' r)
   in ar_collisions r = 1 \<and> AgentNames r = [''bob'']"
  by code_simp

text \<open>A specialist that is registered between the check of a write and its reload is shadowed.\<close>

lemma specialist_race:
  "case persistAgent (live_env (\<lambda>_. ToolbeltValid) True NewAgentRegistry) (plain_def ''COBOL Specialist'') ''COBOL Specialist'' no_agents of
     Inr (created, fs) \<Rightarrow> (case RegisterEphemeral (Some cobol) NewAgentRegistry of
         Inr r \<Rightarrow> \<not> IsEphemeral ''COBOL Specialist'' (agents_changed fs ''mj'' r) | Inl e \<Rightarrow> False)
   | Inl e \<Rightarrow> False"
  by code_simp

end
