(* ===== verification/MemoryReplication.thy ===== *)
theory MemoryReplication
  imports AgentTools
begin

text \<open>
  The replication of memories between the agents of a channel (\<^verbatim>\<open>internal/agent/memory_replicator.go\<close>):
  which tool calls are replicated, the durable queue with its upsert, retries and purge, the concurrent deliveries
  to the vaults and the loop that drains the queue. What the vault server answers is an argument of every contact, and the
  statements of the queue succeed or fail. Deliveries and the drain loop interleave; each contact is one step, and so are the statements that enqueue one memory.
  A payload is stored as it is, its JSON text is not modelled.
\<close>

section \<open>What is replicated\<close>

record replication_member =
  rm_AgentName :: string
  rm_VaultName :: string

record replication_context =
  rc_SpaceID :: string
  rc_SpaceName :: string
  rc_Members :: "replication_member list"

definition replicable_types :: "string list" where
  "replicable_types = [''decision'', ''constraint'', ''fact'', ''procedure'', ''preference'', ''issue'']"

definition json_array :: "json option \<Rightarrow> json list" where
  "json_array v = (case v of Some (JArr vs) \<Rightarrow> vs | _ \<Rightarrow> [])"

definition json_object :: "json \<Rightarrow> json_args" where
  "json_object v = (case v of JObj kvs \<Rightarrow> kvs | _ \<Rightarrow> [])"

definition ShouldReplicate :: "string \<Rightarrow> json_args \<Rightarrow> bool" where
  "ShouldReplicate toolName args =
     (if JStr ''replicated:true'' \<in> set (json_array (gm_get args ''tags'')) then False
      else if toolName = ''muninn_decide'' then True
      else if toolName = ''muninn_remember'' then arg_string args ''type'' \<in> set replicable_types
      else if toolName = ''muninn_remember_batch'' then
        list_ex (\<lambda>v. arg_string (json_object v) ''type'' \<in> set replicable_types) (json_array (gm_get args ''memories''))
      else if toolName = ''muninn_remember_tree'' then True
      else toolName = ''muninn_evolve'')"

definition isMemoryToolName :: "string \<Rightarrow> bool" where
  "isMemoryToolName name \<longleftrightarrow> name \<in> {''muninn_remember'', ''muninn_remember_batch'', ''muninn_remember_tree'',
     ''muninn_decide'', ''muninn_evolve''}"

text \<open>The field of the first memory of a batch, when there is one.\<close>

definition first_memory :: "json_args \<Rightarrow> string \<Rightarrow> string option" where
  "first_memory args k =
     (case json_array (gm_get args ''memories'') of
        v # _ \<Rightarrow> as_string (gm_get (json_object v) k)
      | [] \<Rightarrow> None)"

definition extractConcept :: "string \<Rightarrow> json_args \<Rightarrow> string" where
  "extractConcept toolName args =
     (if toolName = ''muninn_remember'' \<or> toolName = ''muninn_remember_tree'' \<or> toolName = ''muninn_evolve''
      then arg_string args ''concept''
      else if toolName = ''muninn_remember_batch'' then
        (case first_memory args ''concept'' of Some c \<Rightarrow> c | None \<Rightarrow> arg_string args ''concept'')
      else if toolName = ''muninn_decide'' then
        (case as_string (gm_get args ''question'') of Some q \<Rightarrow> ''decision: '' @ q | None \<Rightarrow> arg_string args ''concept'')
      else [])"

definition extractContent :: "string \<Rightarrow> json_args \<Rightarrow> string" where
  "extractContent toolName args =
     (if toolName = ''muninn_remember'' \<or> toolName = ''muninn_remember_tree'' \<or> toolName = ''muninn_evolve''
      then arg_string args ''content''
      else if toolName = ''muninn_remember_batch'' then
        (case first_memory args ''content'' of Some c \<Rightarrow> c | None \<Rightarrow> arg_string args ''content'')
      else if toolName = ''muninn_decide'' then
        (case as_string (gm_get args ''decision'') of Some d \<Rightarrow> d | None \<Rightarrow> arg_string args ''rationale'')
      else [])"

definition extractMemType :: "string \<Rightarrow> json_args \<Rightarrow> string" where
  "extractMemType toolName args =
     (if toolName = ''muninn_decide'' then ''decision''
      else if toolName \<in> {''muninn_remember'', ''muninn_remember_batch'', ''muninn_remember_tree'', ''muninn_evolve''} then
        (case as_string (gm_get args ''type'') of Some t \<Rightarrow> t | None \<Rightarrow> ''fact'')
      else ''fact'')"

definition extractTags :: "json_args \<Rightarrow> string list" where
  "extractTags args = List.map_filter (\<lambda>v. case v of JStr s \<Rightarrow> Some s | _ \<Rightarrow> None) (json_array (gm_get args ''tags''))"

section \<open>Keys and tags\<close>

definition slug_char :: "char \<Rightarrow> bool" where
  "slug_char c \<longleftrightarrow> (CHR ''a'' \<le> c \<and> c \<le> CHR ''z'') \<or> (CHR ''0'' \<le> c \<and> c \<le> CHR ''9'')"

text \<open>Each run of other characters becomes one dash.\<close>

function slugify :: "string \<Rightarrow> string" where
  "slugify [] = []"
| "slugify (c # s) = (if slug_char c then c # slugify s else CHR ''-'' # slugify (dropWhile (\<lambda>c. \<not> slug_char c) s))"
  by pat_completeness auto
termination by (relation "measure length") (auto simp: le_imp_less_Suc length_dropWhile_le)

definition trim_dashes :: "string \<Rightarrow> string" where
  "trim_dashes s = rev (dropWhile ((=) (CHR ''-'')) (rev (dropWhile ((=) (CHR ''-'')) s)))"

definition normalizeConcept :: "string \<Rightarrow> string" where
  "normalizeConcept concept = take 64 (trim_dashes (slugify (to_lower concept)))"

definition buildReplicaTags :: "string list \<Rightarrow> string \<Rightarrow> string \<Rightarrow> string \<Rightarrow> string list" where
  "buildReplicaTags origTags producerName spaceName conceptKey =
     [''replicated:true'', ''source:'' @ producerName, ''channel:'' @ spaceName, ''replicated_concept:'' @ conceptKey] @
     filter (\<lambda>t. t \<noteq> ''replicated:true'' \<and> \<not> has_prefix t ''source:'' \<and> \<not> has_prefix t ''replicated_concept:'') origTags"

section \<open>The queue\<close>

record mem_payload =
  pl_Concept :: string
  pl_Content :: string
  pl_MemType :: string
  pl_Tags :: "string list"
  pl_SpaceName :: string
  pl_ProducerName :: string

datatype repl_status = RqPending | RqDead

record repl_row =
  rq_id :: nat
  rq_targetVault :: string
  rq_sourceAgent :: string
  rq_spaceID :: string
  rq_conceptKey :: string
  rq_payload :: mem_payload
  rq_status :: repl_status
  rq_attempts :: nat
  rq_max_attempts :: nat
  rq_next_retry_at :: int
  rq_created_at :: int

definition replicationRetryMaxAttempts :: nat where
  "replicationRetryMaxAttempts = 5"

definition replicationDrainBatchSize :: nat where
  "replicationDrainBatchSize = 8"

definition repl_backoff :: "nat \<Rightarrow> duration" where
  "repl_backoff attempt =
     (if attempt = 0 \<or> attempt = 1 then 5 * second
      else if attempt = 2 then 30 * second
      else if attempt = 3 then 2 * minute
      else if attempt = 4 then 10 * minute
      else hour)"

definition unix :: "gotime \<Rightarrow> int" where
  "unix now = now div second"

text \<open>The unique key of a row: its vault, its concept and its space.\<close>

definition row_key :: "repl_row \<Rightarrow> string \<times> string \<times> string" where
  "row_key r = (rq_targetVault r, rq_conceptKey r, rq_spaceID r)"

definition next_rowid :: "repl_row list \<Rightarrow> nat" where
  "next_rowid rows = fold max (map rq_id rows) 0 + 1"

definition upsert_row :: "gotime \<Rightarrow> mem_payload \<Rightarrow> repl_row \<Rightarrow> repl_row" where
  "upsert_row now p r =
     (if rq_status r = RqDead
      then r\<lparr>rq_payload := p, rq_max_attempts := replicationRetryMaxAttempts, rq_status := RqPending, rq_attempts := 0,
             rq_next_retry_at := unix now + repl_backoff 0 div second\<rparr>
      else r\<lparr>rq_payload := p, rq_max_attempts := replicationRetryMaxAttempts\<rparr>)"

definition enqueue_row :: "gotime \<Rightarrow> string \<Rightarrow> string \<Rightarrow> mem_payload \<Rightarrow> repl_row list \<Rightarrow> repl_row list" where
  "enqueue_row now vault space p rows =
     (let key = (vault, normalizeConcept (pl_Concept p), space)
      in if key \<in> row_key ` set rows then map (\<lambda>r. if row_key r = key then upsert_row now p r else r) rows
         else rows @ [\<lparr>rq_id = next_rowid rows, rq_targetVault = vault, rq_sourceAgent = pl_ProducerName p, rq_spaceID = space,
                rq_conceptKey = normalizeConcept (pl_Concept p), rq_payload = p, rq_status = RqPending, rq_attempts = 0,
                rq_max_attempts = replicationRetryMaxAttempts,
                rq_next_retry_at = unix now + repl_backoff 0 div second, rq_created_at = unix now\<rparr>])"

definition delete_row :: "string \<Rightarrow> string \<Rightarrow> string \<Rightarrow> repl_row list \<Rightarrow> repl_row list" where
  "delete_row vault key space rows = filter (\<lambda>r. row_key r \<noteq> (vault, key, space)) rows"

definition eligible :: "gotime \<Rightarrow> repl_row \<Rightarrow> bool" where
  "eligible now r \<longleftrightarrow> rq_status r = RqPending \<and> rq_next_retry_at r \<le> unix now"

definition select_batch :: "gotime \<Rightarrow> nat \<Rightarrow> repl_row list \<Rightarrow> repl_row list" where
  "select_batch now n rows = take n (sort_key rq_next_retry_at (filter (eligible now) rows))"

text \<open>The row with the identifier of the one that was read, which may be another one by now.\<close>

definition fail_row :: "gotime \<Rightarrow> repl_row \<Rightarrow> repl_row list \<Rightarrow> repl_row list" where
  "fail_row now e rows =
     (let n = rq_attempts e + 1
      in map (\<lambda>r. if rq_id r = rq_id e
                  then r\<lparr>rq_attempts := n, rq_status := (if n \<ge> replicationRetryMaxAttempts then RqDead else RqPending),
                         rq_next_retry_at := unix (now + repl_backoff n)\<rparr> else r) rows)"

definition purge_cutoff :: "gotime \<Rightarrow> int" where
  "purge_cutoff now = unix (now - 7 * 24 * hour)"

definition purgeable :: "gotime \<Rightarrow> repl_row \<Rightarrow> bool" where
  "purgeable now r \<longleftrightarrow> rq_status r = RqDead \<and> rq_created_at r < purge_cutoff now"

section \<open>The vaults\<close>

text \<open>A search answers with some content blocks, or marks its answer as an error; so does a write.\<close>

datatype find_reply = FindFailed | FindResult nat bool
datatype remember_reply = RememberFailed | RememberResult bool

record vault_reply =
  vr_client :: bool
  vr_find :: find_reply
  vr_remember :: remember_reply

datatype repl_effect =
  EfEnqueued string string string
| EfFound string string
| EfRemembered string string string "string list" bool
| EfPurged string string string

text \<open>The contact of \<open>replicateTo\<close>: whether it counts as delivered, and what happened.\<close>

definition contact_vault :: "vault_reply \<Rightarrow> string \<Rightarrow> mem_payload \<Rightarrow> bool \<times> repl_effect list" where
  "contact_vault rp vault p =
     (let key = normalizeConcept (pl_Concept p)
      in if \<not> vr_client rp then (False, [])
         else if (case vr_find rp of FindFailed \<Rightarrow> False | FindResult n isErr \<Rightarrow> n > 0) then (True, [EfFound vault key])
         else case vr_remember rp of
           RememberFailed \<Rightarrow> (False, [])
         | RememberResult isErr \<Rightarrow>
             (True, [EfRemembered vault key (pl_Content p)
                (buildReplicaTags (pl_Tags p) (pl_ProducerName p) (pl_SpaceName p) key) isErr]))"

section \<open>The replicator\<close>

datatype job_state = JobWaiting | JobSent bool | JobOver

record repl_job =
  jb_vault :: string
  jb_space :: string
  jb_payload :: mem_payload
  jb_state :: job_state

record replicator =
  mr_hasDB :: bool
  mr_rows :: "repl_row list"
  mr_jobs :: "repl_job list"
  mr_batch :: "repl_row list"
  mr_sent :: "bool option"
  mr_stopped :: bool
  mr_trace :: "repl_effect list"

definition NewMemoryReplicator :: "bool \<Rightarrow> replicator" where
  "NewMemoryReplicator db = \<lparr>mr_hasDB = db, mr_rows = [], mr_jobs = [], mr_batch = [], mr_sent = None, mr_stopped = False, mr_trace = []\<rparr>"

text \<open>The statement of a write may fail; without a database nothing is stored.\<close>

definition enqueueRetry :: "bool \<Rightarrow> gotime \<Rightarrow> string \<Rightarrow> string \<Rightarrow> mem_payload \<Rightarrow> replicator \<Rightarrow> replicator" where
  "enqueueRetry ok now vault space p m =
     (if \<not> mr_hasDB m \<or> \<not> ok then m
      else m\<lparr>mr_rows := enqueue_row now vault space p (mr_rows m),
             mr_trace := mr_trace m @ [EfEnqueued vault (normalizeConcept (pl_Concept p)) space]\<rparr>)"

definition repl_dequeue :: "bool \<Rightarrow> string \<Rightarrow> string \<Rightarrow> string \<Rightarrow> replicator \<Rightarrow> replicator" where
  "repl_dequeue ok vault key space m =
     (if \<not> mr_hasDB m \<or> \<not> ok then m else m\<lparr>mr_rows := delete_row vault key space (mr_rows m)\<rparr>)"

text \<open>All other members are enqueued first, then one delivery for each of them is started.\<close>

definition fan_out :: "(nat \<Rightarrow> bool) \<Rightarrow> gotime \<Rightarrow> string \<Rightarrow> replication_context \<Rightarrow> mem_payload \<Rightarrow> replicator \<Rightarrow> replicator" where
  "fan_out oks now producer ctx p m =
     (let targets = filter (\<lambda>x. rm_AgentName x \<noteq> producer) (rc_Members ctx);
          m = fold (\<lambda>(i, x). enqueueRetry (oks i) now (rm_VaultName x) (rc_SpaceID ctx) p) (enumerate 0 targets) m
      in m\<lparr>mr_jobs := mr_jobs m @ map (\<lambda>x. \<lparr>jb_vault = rm_VaultName x, jb_space = rc_SpaceID ctx, jb_payload = p,
             jb_state = JobWaiting\<rparr>) targets\<rparr>)"

definition Intercept :: "(nat \<Rightarrow> bool) \<Rightarrow> gotime \<Rightarrow> string \<Rightarrow> json_args \<Rightarrow> tool_result \<Rightarrow> string \<Rightarrow> replication_context option \<Rightarrow>
    replicator \<Rightarrow> replicator" where
  "Intercept oks now toolName args result producer ctx m =
     (if tr_IsError result then m
      else case ctx of
        None \<Rightarrow> m
      | Some c \<Rightarrow>
          if rc_Members c = [] \<or> \<not> ShouldReplicate toolName args \<or> extractConcept toolName args = [] then m
          else fan_out oks now producer c
                 \<lparr>pl_Concept = extractConcept toolName args, pl_Content = extractContent toolName args,
                  pl_MemType = extractMemType toolName args, pl_Tags = extractTags args, pl_SpaceName = rc_SpaceName c,
                  pl_ProducerName = producer\<rparr> m)"

text \<open>The end of a tool call in a channel: memory writes that did not fail are intercepted.\<close>

definition chatOnToolDone :: "(nat \<Rightarrow> bool) \<Rightarrow> gotime \<Rightarrow> string \<Rightarrow> json_args \<Rightarrow> tool_result \<Rightarrow> string \<Rightarrow> replication_context option \<Rightarrow>
    replicator \<Rightarrow> replicator" where
  "chatOnToolDone oks now name capturedArgs result producer ctx m =
     (if isMemoryToolName name \<and> \<not> tr_IsError result \<and> ctx \<noteq> None then Intercept oks now name capturedArgs result producer ctx m else m)"

definition ReplicateFinishSummary :: "(nat \<Rightarrow> bool) \<Rightarrow> gotime \<Rightarrow> string \<Rightarrow> string \<Rightarrow> replication_context \<Rightarrow> replicator \<Rightarrow> replicator" where
  "ReplicateFinishSummary oks now summary producer c m =
     (if summary = [] then m
      else fan_out oks now producer c
             \<lparr>pl_Concept = ''thread completion: '' @ producer, pl_Content = summary, pl_MemType = ''event'',
              pl_Tags = [''thread:completion''], pl_SpaceName = rc_SpaceName c, pl_ProducerName = producer\<rparr> m)"

text \<open>A delivery: the contact, then the statement that follows it. A delivery whose context ends first is enqueued.\<close>

definition job_contact :: "nat \<Rightarrow> vault_reply option \<Rightarrow> replicator \<Rightarrow> replicator" where
  "job_contact i rp m =
     (if i < length (mr_jobs m) \<and> jb_state (mr_jobs m ! i) = JobWaiting then
        (let j = mr_jobs m ! i;
             (ok, es) = (case rp of None \<Rightarrow> (False, []) | Some rp \<Rightarrow> contact_vault rp (jb_vault j) (jb_payload j))
         in m\<lparr>mr_jobs := (mr_jobs m)[i := j\<lparr>jb_state := JobSent ok\<rparr>], mr_trace := mr_trace m @ es\<rparr>)
      else m)"

definition job_end :: "nat \<Rightarrow> bool \<Rightarrow> gotime \<Rightarrow> replicator \<Rightarrow> replicator" where
  "job_end i ok now m =
     (if i < length (mr_jobs m) then
        (let j = mr_jobs m ! i; over = m\<lparr>mr_jobs := (mr_jobs m)[i := j\<lparr>jb_state := JobOver\<rparr>]\<rparr>
         in case jb_state j of
              JobSent True \<Rightarrow> repl_dequeue ok (jb_vault j) (normalizeConcept (pl_Concept (jb_payload j))) (jb_space j) over
            | JobSent False \<Rightarrow> enqueueRetry ok now (jb_vault j) (jb_space j) (jb_payload j) over
            | _ \<Rightarrow> m)
      else m)"

section \<open>Draining\<close>

definition drain_select :: "gotime \<Rightarrow> replicator \<Rightarrow> replicator" where
  "drain_select now m =
     (if mr_stopped m \<or> \<not> mr_hasDB m \<or> mr_batch m \<noteq> [] then m
      else m\<lparr>mr_batch := select_batch now replicationDrainBatchSize (mr_rows m), mr_sent := None\<rparr>)"

definition drain_contact :: "vault_reply \<Rightarrow> replicator \<Rightarrow> replicator" where
  "drain_contact rp m =
     (case (mr_batch m, mr_sent m) of
        (e # es, None) \<Rightarrow>
          (let (ok, fx) = contact_vault rp (rq_targetVault e) (rq_payload e)
           in m\<lparr>mr_sent := Some ok, mr_trace := mr_trace m @ fx\<rparr>)
      | _ \<Rightarrow> m)"

definition drain_end :: "bool \<Rightarrow> gotime \<Rightarrow> replicator \<Rightarrow> replicator" where
  "drain_end ok now m =
     (case (mr_batch m, mr_sent m) of
        (e # es, Some True) \<Rightarrow>
          repl_dequeue ok (rq_targetVault e) (normalizeConcept (pl_Concept (rq_payload e))) (rq_spaceID e)
            (m\<lparr>mr_batch := es, mr_sent := None\<rparr>)
      | (e # es, Some False) \<Rightarrow>
          m\<lparr>mr_batch := es, mr_sent := None, mr_rows := (if ok then fail_row now e (mr_rows m) else mr_rows m)\<rparr>
      | _ \<Rightarrow> m)"

definition drain_remaining :: "gotime \<Rightarrow> replicator \<Rightarrow> nat" where
  "drain_remaining now m = length (filter (eligible now) (mr_rows m))"

definition drain_pause :: "nat \<Rightarrow> duration" where
  "drain_pause remaining = (if remaining > 0 then 2 * second else 30 * second)"

definition purgeDeadEntries :: "bool \<Rightarrow> gotime \<Rightarrow> replicator \<Rightarrow> replicator" where
  "purgeDeadEntries ok now m =
     (if \<not> mr_hasDB m \<or> \<not> ok then m
      else m\<lparr>mr_rows := filter (\<lambda>r. \<not> purgeable now r) (mr_rows m),
             mr_trace := mr_trace m @ map (\<lambda>r. EfPurged (rq_targetVault r) (rq_conceptKey r) (rq_spaceID r)) (filter (purgeable now) (mr_rows m))\<rparr>)"

datatype repl_event =
  RpIntercept "nat \<Rightarrow> bool" gotime string json_args tool_result string "replication_context option"
| RpFinish "nat \<Rightarrow> bool" gotime string string replication_context
| RpContact nat "vault_reply option"
| RpEnd nat bool gotime
| RpSelect gotime
| RpDrain vault_reply
| RpDrained bool gotime
| RpPurge bool gotime
| RpStop

fun repl_step :: "repl_event \<Rightarrow> replicator \<Rightarrow> replicator" where
  "repl_step (RpIntercept oks now n args res producer ctx) m = Intercept oks now n args res producer ctx m"
| "repl_step (RpFinish oks now summary producer c) m = ReplicateFinishSummary oks now summary producer c m"
| "repl_step (RpContact i rp) m = job_contact i rp m"
| "repl_step (RpEnd i ok now) m = job_end i ok now m"
| "repl_step (RpSelect now) m = drain_select now m"
| "repl_step (RpDrain rp) m = drain_contact rp m"
| "repl_step (RpDrained ok now) m = drain_end ok now m"
| "repl_step (RpPurge ok now) m = purgeDeadEntries ok now m"
| "repl_step RpStop m = m\<lparr>mr_stopped := True\<rparr>"

section \<open>What the queue keeps\<close>

definition answered_keys :: "repl_effect list \<Rightarrow> (string \<times> string) set" where
  "answered_keys tr = {(v, k). EfFound v k \<in> set tr \<or> (\<exists>c t b. EfRemembered v k c t b \<in> set tr)}"

definition enqueued_keys :: "repl_effect list \<Rightarrow> (string \<times> string \<times> string) set" where
  "enqueued_keys tr = {(v, k, s). EfEnqueued v k s \<in> set tr}"

definition purged_keys :: "repl_effect list \<Rightarrow> (string \<times> string \<times> string) set" where
  "purged_keys tr = {(v, k, s). EfPurged v k s \<in> set tr}"

definition payload_key :: "repl_row \<Rightarrow> bool" where
  "payload_key r \<longleftrightarrow> rq_conceptKey r = normalizeConcept (pl_Concept (rq_payload r))"

definition row_ok :: "repl_row \<Rightarrow> bool" where
  "row_ok r \<longleftrightarrow> payload_key r \<and> rq_attempts r \<le> replicationRetryMaxAttempts
     \<and> (rq_status r = RqDead \<longleftrightarrow> rq_attempts r = replicationRetryMaxAttempts)"

definition rows_inv :: "repl_row list \<Rightarrow> bool" where
  "rows_inv rows \<longleftrightarrow> distinct (map row_key rows) \<and> distinct (map rq_id rows) \<and> list_all row_ok rows"

lemma fold_max_le: "a \<le> fold max xs (a::nat) \<and> (\<forall>x\<in>set xs. x \<le> fold max xs a)"
proof (induction xs arbitrary: a)
  case (Cons y ys)
  have "max y a \<le> fold max ys (max y a)" "\<forall>x\<in>set ys. x \<le> fold max ys (max y a)" using Cons.IH by blast+
  then show ?case by simp
qed simp

lemma next_rowid_fresh: "r \<in> set rows \<Longrightarrow> rq_id r < next_rowid rows"
  using fold_max_le[of 0 "map rq_id rows"] by (simp add: next_rowid_def less_Suc_eq_le)

lemma upsert_same [simp]: "row_key (upsert_row now p r) = row_key r" "rq_id (upsert_row now p r) = rq_id r"
  by (simp_all add: upsert_row_def row_key_def)

lemma row_key_make [simp]:
  "row_key \<lparr>rq_id = i, rq_targetVault = v, rq_sourceAgent = a, rq_spaceID = s, rq_conceptKey = k, rq_payload = p, rq_status = st,
     rq_attempts = n, rq_max_attempts = mx, rq_next_retry_at = t, rq_created_at = c\<rparr> = (v, k, s)"
  by (simp add: row_key_def)

lemma enqueue_row_cases:
  fixes rows v s p now
  defines "key \<equiv> (v, normalizeConcept (pl_Concept p), s)"
  shows "key \<in> row_key ` set rows \<Longrightarrow>
      enqueue_row now v s p rows = map (\<lambda>r. if row_key r = key then upsert_row now p r else r) rows"
    and "key \<notin> row_key ` set rows \<Longrightarrow> map row_key (enqueue_row now v s p rows) = map row_key rows @ [key]"
  by (simp_all add: enqueue_row_def key_def)

lemma map_row_key_upsert: "map row_key (map (\<lambda>r. if row_key r = k then upsert_row now p r else r) rows) = map row_key rows"
  by simp

lemma keys_enqueue: "row_key ` set (enqueue_row now v s p rows) = insert (v, normalizeConcept (pl_Concept p), s) (row_key ` set rows)"
proof (cases "(v, normalizeConcept (pl_Concept p), s) \<in> row_key ` set rows")
  case True
  then have "row_key ` set (enqueue_row now v s p rows) = row_key ` set rows"
    unfolding enqueue_row_cases(1)[OF True] by (simp only: list.set_map[symmetric] map_row_key_upsert)
  then show ?thesis using True by blast
next
  case False
  have "row_key ` set (enqueue_row now v s p rows) = set (map row_key (enqueue_row now v s p rows))" by simp
  then show ?thesis unfolding enqueue_row_cases(2)[OF False] by simp
qed

lemma rows_inv_enqueue:
  assumes "rows_inv rows"
  shows "rows_inv (enqueue_row now v s p rows)"
proof -
  let ?key = "(v, normalizeConcept (pl_Concept p), s)"
  show ?thesis
  proof (cases "?key \<in> row_key ` set rows")
    case True
    have "map row_key (enqueue_row now v s p rows) = map row_key rows" "map rq_id (enqueue_row now v s p rows) = map rq_id rows"
      using True by (simp_all add: enqueue_row_def comp_def)
    moreover have "row_ok (upsert_row now p r)" if "row_ok r" "row_key r = ?key" for r
      using that by (auto simp: row_ok_def upsert_row_def payload_key_def row_key_def replicationRetryMaxAttempts_def)
    then have "list_all row_ok (enqueue_row now v s p rows)"
      using assms True by (auto simp: enqueue_row_def rows_inv_def list_all_iff)
    ultimately show ?thesis using assms by (simp add: rows_inv_def)
  next
    case False
    then have "?key \<notin> set (map row_key rows)" by simp
    moreover have "next_rowid rows \<notin> set (map rq_id rows)" using next_rowid_fresh by fastforce
    ultimately show ?thesis using assms False
      by (auto simp: enqueue_row_def rows_inv_def row_ok_def payload_key_def row_key_def replicationRetryMaxAttempts_def)
  qed
qed

lemma rows_inv_filter: "rows_inv rows \<Longrightarrow> rows_inv (filter P rows)"
  by (auto simp: rows_inv_def list_all_iff distinct_map_filter)

lemma fail_row_map: "map row_key (fail_row now e rows) = map row_key rows" "map rq_id (fail_row now e rows) = map rq_id rows"
  by (simp_all add: fail_row_def Let_def comp_def row_key_def)

lemma rows_inv_fail: "rows_inv rows \<Longrightarrow> rq_attempts e < replicationRetryMaxAttempts \<Longrightarrow> rows_inv (fail_row now e rows)"
  unfolding rows_inv_def fail_row_map by (auto simp: list_all_iff row_ok_def fail_row_def Let_def payload_key_def)

text \<open>An entry of the batch was pending when it was read.\<close>

definition batch_ok :: "repl_row \<Rightarrow> bool" where
  "batch_ok e \<longleftrightarrow> payload_key e \<and> rq_attempts e < replicationRetryMaxAttempts"

lemma select_batch_ok: "rows_inv rows \<Longrightarrow> list_all batch_ok (select_batch now n rows)"
proof -
  have "batch_ok r" if "row_ok r" "eligible now r" for r
    using that by (cases "rq_attempts r = replicationRetryMaxAttempts") (auto simp: row_ok_def batch_ok_def eligible_def)
  then show "rows_inv rows \<Longrightarrow> ?thesis" by (auto simp: list_all_iff select_batch_def rows_inv_def dest!: in_set_takeD)
qed

definition job_answered :: "repl_effect list \<Rightarrow> repl_job \<Rightarrow> bool" where
  "job_answered tr j \<longleftrightarrow> jb_state j = JobSent True \<longrightarrow> (jb_vault j, normalizeConcept (pl_Concept (jb_payload j))) \<in> answered_keys tr"

definition sent_answered :: "repl_effect list \<Rightarrow> repl_row list \<Rightarrow> bool option \<Rightarrow> bool" where
  "sent_answered tr batch sent \<longleftrightarrow> (case (batch, sent) of
     (e # es, Some True) \<Rightarrow> (rq_targetVault e, normalizeConcept (pl_Concept (rq_payload e))) \<in> answered_keys tr | _ \<Rightarrow> True)"

definition accounted :: "repl_effect list \<Rightarrow> repl_row list \<Rightarrow> bool" where
  "accounted tr rows \<longleftrightarrow>
     enqueued_keys tr \<subseteq> row_key ` set rows \<union> {(v, k, s). (v, k) \<in> answered_keys tr} \<union> purged_keys tr"

definition repl_inv :: "replicator \<Rightarrow> bool" where
  "repl_inv m \<longleftrightarrow> rows_inv (mr_rows m) \<and> list_all batch_ok (mr_batch m) \<and> list_all (job_answered (mr_trace m)) (mr_jobs m)
     \<and> sent_answered (mr_trace m) (mr_batch m) (mr_sent m) \<and> accounted (mr_trace m) (mr_rows m)"

lemma keys_append [simp]:
  "answered_keys (a @ b) = answered_keys a \<union> answered_keys b" "enqueued_keys (a @ b) = enqueued_keys a \<union> enqueued_keys b"
  "purged_keys (a @ b) = purged_keys a \<union> purged_keys b"
  by (auto simp: answered_keys_def enqueued_keys_def purged_keys_def)

lemma keys_simple [simp]:
  "answered_keys [] = {}" "enqueued_keys [] = {}" "purged_keys [] = {}"
  "answered_keys [EfEnqueued v k s] = {}" "enqueued_keys [EfEnqueued v k s] = {(v, k, s)}" "purged_keys [EfEnqueued v k s] = {}"
  by (auto simp: answered_keys_def enqueued_keys_def purged_keys_def)

lemma grow_trace:
  "job_answered tr j \<Longrightarrow> job_answered (tr @ es) j" "sent_answered tr b st \<Longrightarrow> sent_answered (tr @ es) b st"
  by (auto simp: job_answered_def sent_answered_def split: list.splits option.splits bool.splits)

lemma repl_inv_enqueue: "repl_inv m \<Longrightarrow> repl_inv (enqueueRetry ok now v s p m)"
  by (auto simp: repl_inv_def enqueueRetry_def rows_inv_enqueue list_all_iff grow_trace accounted_def keys_enqueue)

lemma repl_inv_dequeue:
  assumes "repl_inv m" "(v, k) \<in> answered_keys (mr_trace m)"
  shows "repl_inv (repl_dequeue ok v k s m)"
proof -
  have "row_key ` set (mr_rows m) \<subseteq> row_key ` set (delete_row v k s (mr_rows m)) \<union> {(v, k, s)}"
    by (auto simp: delete_row_def)
  then have "accounted (mr_trace m) (delete_row v k s (mr_rows m))"
    using assms unfolding repl_inv_def accounted_def by blast
  then show ?thesis using assms(1) by (simp add: repl_inv_def repl_dequeue_def delete_row_def rows_inv_filter)
qed

lemma contact_answered:
  "contact_vault rp v p = (True, es) \<Longrightarrow> (v, normalizeConcept (pl_Concept p)) \<in> answered_keys es"
  by (auto simp: contact_vault_def Let_def answered_keys_def split: if_splits find_reply.splits remember_reply.splits)

lemma contact_keys: "contact_vault rp v p = (ok, es) \<Longrightarrow> enqueued_keys es = {} \<and> purged_keys es = {}"
  by (auto simp: contact_vault_def Let_def enqueued_keys_def purged_keys_def split: if_splits find_reply.splits remember_reply.splits)

lemma repl_inv_fan_out: "repl_inv m \<Longrightarrow> repl_inv (fan_out oks now producer c p m)"
proof -
  have enq: "repl_inv m \<Longrightarrow> repl_inv (fold (\<lambda>(i, x). enqueueRetry (oks i) now (rm_VaultName x) (rc_SpaceID c) p) xs m)" for xs m
    by (induction xs arbitrary: m) (auto simp: repl_inv_enqueue)
  have start: "repl_inv (m'\<lparr>mr_jobs := mr_jobs m' @ map (\<lambda>x. \<lparr>jb_vault = rm_VaultName x, jb_space = s, jb_payload = p,
      jb_state = JobWaiting\<rparr>) xs\<rparr>)" if "repl_inv m'" for m' s xs
    using that by (auto simp: repl_inv_def list_all_iff job_answered_def)
  show "repl_inv m \<Longrightarrow> ?thesis" unfolding fan_out_def Let_def by (rule start, rule enq)
qed

lemma repl_inv_job_contact:
  assumes "repl_inv m"
  shows "repl_inv (job_contact i rp m)"
proof (cases "i < length (mr_jobs m) \<and> jb_state (mr_jobs m ! i) = JobWaiting")
  case True
  let ?j = "mr_jobs m ! i"
  obtain ok es where c: "(case rp of None \<Rightarrow> (False, []) | Some rp \<Rightarrow> contact_vault rp (jb_vault ?j) (jb_payload ?j)) = (ok, es)" by fastforce
  then have ans: "ok \<Longrightarrow> (jb_vault ?j, normalizeConcept (pl_Concept (jb_payload ?j))) \<in> answered_keys es"
    and none: "enqueued_keys es = {}" "purged_keys es = {}"
    using contact_answered contact_keys by (fastforce split: option.splits)+
  have m': "job_contact i rp m = m\<lparr>mr_jobs := (mr_jobs m)[i := ?j\<lparr>jb_state := JobSent ok\<rparr>], mr_trace := mr_trace m @ es\<rparr>"
    using True c by (simp add: job_contact_def Let_def)
  have "list_all (job_answered (mr_trace m @ es)) ((mr_jobs m)[i := ?j\<lparr>jb_state := JobSent ok\<rparr>])"
    using assms ans by (auto simp: repl_inv_def list_all_iff job_answered_def dest!: set_update_subset_insert[THEN subsetD])
  then show ?thesis using assms none unfolding m' by (auto simp: repl_inv_def grow_trace accounted_def)
next
  case False
  then have "job_contact i rp m = m" by (auto simp: job_contact_def)
  then show ?thesis using assms by simp
qed

lemma repl_inv_job_end:
  assumes "repl_inv m"
  shows "repl_inv (job_end i ok now m)"
proof (cases "i < length (mr_jobs m)")
  case True
  let ?j = "mr_jobs m ! i"
  let ?over = "m\<lparr>mr_jobs := (mr_jobs m)[i := ?j\<lparr>jb_state := JobOver\<rparr>]\<rparr>"
  have over: "repl_inv ?over"
    using assms by (auto simp: repl_inv_def list_all_iff job_answered_def dest!: set_update_subset_insert[THEN subsetD])
  have ja: "job_answered (mr_trace m) ?j" using assms True by (simp add: repl_inv_def list_all_length)
  show ?thesis
  proof (cases "jb_state ?j")
    case (JobSent b)
    then show ?thesis using True ja repl_inv_dequeue[OF over] repl_inv_enqueue[OF over]
      by (cases b) (simp_all add: job_end_def Let_def job_answered_def)
  qed (use True assms in \<open>simp_all add: job_end_def Let_def\<close>)
qed (use assms in \<open>simp add: job_end_def\<close>)

lemma repl_inv_drain_contact:
  assumes "repl_inv m"
  shows "repl_inv (drain_contact rp m)"
proof (cases "mr_batch m")
  case (Cons e es)
  show ?thesis
  proof (cases "mr_sent m")
    case None
    obtain ok fx where c: "contact_vault rp (rq_targetVault e) (rq_payload e) = (ok, fx)" by fastforce
    have "sent_answered (mr_trace m @ fx) (mr_batch m) (Some ok)"
      using contact_answered[of rp "rq_targetVault e" "rq_payload e" fx] c Cons by (cases ok) (auto simp: sent_answered_def)
    then show ?thesis using assms contact_keys[OF c]
      by (auto simp: repl_inv_def drain_contact_def Cons None c list_all_iff grow_trace accounted_def)
  qed (use assms Cons in \<open>simp add: drain_contact_def\<close>)
qed (use assms in \<open>simp add: drain_contact_def\<close>)

lemma repl_inv_drain_end:
  assumes "repl_inv m"
  shows "repl_inv (drain_end ok now m)"
proof (cases "mr_batch m")
  case (Cons e es)
  have next_inv: "repl_inv (m\<lparr>mr_batch := es, mr_sent := None\<rparr>)"
    using assms Cons by (simp add: repl_inv_def sent_answered_def split: list.splits)
  show ?thesis
  proof (cases "mr_sent m")
    case (Some b)
    show ?thesis
    proof (cases b)
      case True
      then have "(rq_targetVault e, normalizeConcept (pl_Concept (rq_payload e))) \<in> answered_keys (mr_trace m)"
        using assms Cons Some by (simp add: repl_inv_def sent_answered_def)
      then show ?thesis using repl_inv_dequeue[OF next_inv] Cons Some True by (simp add: drain_end_def)
    next
      case False
      have "batch_ok e" using assms Cons by (simp add: repl_inv_def)
      then have "rows_inv (fail_row now e (mr_rows m))" using assms rows_inv_fail by (simp add: repl_inv_def batch_ok_def)
      moreover have "row_key ` set (fail_row now e (mr_rows m)) = row_key ` set (mr_rows m)"
        by (metis fail_row_map(1) list.set_map)
      ultimately show ?thesis using next_inv Cons Some False by (simp add: drain_end_def repl_inv_def accounted_def)
    qed
  qed (use assms Cons in \<open>simp add: drain_end_def\<close>)
qed (use assms in \<open>simp add: drain_end_def\<close>)

lemma repl_inv_purge:
  assumes "repl_inv m"
  shows "repl_inv (purgeDeadEntries ok now m)"
proof -
  let ?es = "map (\<lambda>r. EfPurged (rq_targetVault r) (rq_conceptKey r) (rq_spaceID r)) (filter (purgeable now) (mr_rows m))"
  have keys: "purged_keys ?es = row_key ` set (filter (purgeable now) (mr_rows m))" "enqueued_keys ?es = {}" "answered_keys ?es = {}"
    by (auto simp: purged_keys_def enqueued_keys_def answered_keys_def row_key_def)
  have "row_key ` set (mr_rows m) = row_key ` set (filter (\<lambda>r. \<not> purgeable now r) (mr_rows m)) \<union> row_key ` set (filter (purgeable now) (mr_rows m))"
    by auto
  then have "accounted (mr_trace m @ ?es) (filter (\<lambda>r. \<not> purgeable now r) (mr_rows m))"
    using assms unfolding repl_inv_def accounted_def keys_append keys by auto
  then show ?thesis using assms
    by (auto simp: repl_inv_def purgeDeadEntries_def rows_inv_filter list_all_iff grow_trace)
qed

lemma repl_inv_step: "repl_inv m \<Longrightarrow> repl_inv (repl_step e m)"
proof (cases e)
  case (RpSelect now)
  then show "repl_inv m \<Longrightarrow> ?thesis"
    by (simp add: drain_select_def repl_inv_def select_batch_ok sent_answered_def split: list.splits)
qed (simp_all add: Intercept_def ReplicateFinishSummary_def repl_inv_fan_out repl_inv_job_contact repl_inv_job_end
       repl_inv_drain_contact repl_inv_drain_end repl_inv_purge split: option.splits,
     simp add: repl_inv_def)

lemma repl_inv_run: "repl_inv (fold repl_step events (NewMemoryReplicator db))"
proof -
  have "repl_inv m \<Longrightarrow> repl_inv (fold repl_step events m)" for m
    by (induction events arbitrary: m) (simp_all add: repl_inv_step)
  moreover have "repl_inv (NewMemoryReplicator db)"
    by (simp add: repl_inv_def NewMemoryReplicator_def rows_inv_def sent_answered_def accounted_def)
  ultimately show ?thesis by blast
qed


section \<open>One memory for each concept\<close>

text \<open>A vault that answers truthfully: it finds the entity of a concept exactly when it accepted a memory with that tag.\<close>

definition accepts :: "string \<Rightarrow> string \<Rightarrow> repl_effect \<Rightarrow> bool" where
  "accepts v k e = (case e of EfRemembered v' k' c t refused \<Rightarrow> v' = v \<and> k' = k \<and> \<not> refused | _ \<Rightarrow> False)"

definition truthful :: "repl_effect list \<Rightarrow> string \<Rightarrow> mem_payload \<Rightarrow> vault_reply \<Rightarrow> bool" where
  "truthful tr v p rp =
     (case vr_find rp of
        FindFailed \<Rightarrow> False
      | FindResult n isErr \<Rightarrow> (n > 0) = list_ex (accepts v (normalizeConcept (pl_Concept p))) tr)"

fun truthful_event :: "repl_event \<Rightarrow> replicator \<Rightarrow> bool" where
  "truthful_event (RpContact i (Some rp)) m =
     (if i < length (mr_jobs m) then truthful (mr_trace m) (jb_vault (mr_jobs m ! i)) (jb_payload (mr_jobs m ! i)) rp else True)"
| "truthful_event (RpDrain rp) m =
     (case mr_batch m of e # _ \<Rightarrow> truthful (mr_trace m) (rq_targetVault e) (rq_payload e) rp | [] \<Rightarrow> True)"
| "truthful_event e m = True"

fun truthful_run :: "repl_event list \<Rightarrow> replicator \<Rightarrow> bool" where
  "truthful_run [] m = True"
| "truthful_run (e # es) m = (truthful_event e m \<and> truthful_run es (repl_step e m))"

definition accepted_once :: "repl_effect list \<Rightarrow> bool" where
  "accepted_once tr \<longleftrightarrow> (\<forall>v k. length (filter (accepts v k) tr) \<le> 1)"

lemma accepted_once_contact:
  assumes "accepted_once tr" "truthful tr v p rp" "contact_vault rp v p = (ok, es)"
  shows "accepted_once (tr @ es)"
proof -
  let ?k = "normalizeConcept (pl_Concept p)"
  consider "es = [] \<or> es = [EfFound v ?k]"
    | c t b where "es = [EfRemembered v ?k c t b]" "\<not> list_ex (accepts v ?k) tr"
    using assms(2,3) by (auto simp: contact_vault_def Let_def truthful_def split: if_splits find_reply.splits remember_reply.splits)
  then show ?thesis
  proof cases
    case 1
    then show ?thesis using assms(1) by (auto simp: accepted_once_def accepts_def)
  next
    case (2 c t b)
    then have "filter (accepts v ?k) tr = []" by (auto simp: list_ex_iff filter_empty_conv)
    then have "length (filter (accepts v' k') tr) + length (filter (accepts v' k') es) \<le> 1" for v' k'
      using assms(1) 2(1) by (cases "v' = v \<and> k' = ?k") (auto simp: accepted_once_def accepts_def)
    then show ?thesis by (simp add: accepted_once_def)
  qed
qed

lemma accepted_once_quiet: "accepted_once tr \<Longrightarrow> list_all (\<lambda>e. case e of EfRemembered _ _ _ _ _ \<Rightarrow> False | _ \<Rightarrow> True) es \<Longrightarrow> accepted_once (tr @ es)"
proof -
  assume a: "accepted_once tr" "list_all (\<lambda>e. case e of EfRemembered _ _ _ _ _ \<Rightarrow> False | _ \<Rightarrow> True) es"
  have "filter (accepts v k) es = []" for v k
    using a(2) by (induction es) (auto simp: accepts_def split: repl_effect.splits)
  then show ?thesis using a(1) by (simp add: accepted_once_def)
qed

lemma accepted_once_enqueue: "accepted_once (mr_trace m) \<Longrightarrow> accepted_once (mr_trace (enqueueRetry ok now v s p m))"
  using accepted_once_quiet[of "mr_trace m" "[EfEnqueued v (normalizeConcept (pl_Concept p)) s]"] by (simp add: enqueueRetry_def)

lemma trace_dequeue [simp]: "mr_trace (repl_dequeue ok v k s m) = mr_trace m"
  by (simp add: repl_dequeue_def)

lemma accepted_once_fan_out: "accepted_once (mr_trace m) \<Longrightarrow> accepted_once (mr_trace (fan_out oks now producer c p m))"
proof -
  have "accepted_once (mr_trace m) \<Longrightarrow>
      accepted_once (mr_trace (fold (\<lambda>(i, x). enqueueRetry (oks i) now (rm_VaultName x) (rc_SpaceID c) p) xs m))" for xs m
    by (induction xs arbitrary: m) (auto simp: accepted_once_enqueue)
  then show "accepted_once (mr_trace m) \<Longrightarrow> ?thesis" by (simp add: fan_out_def Let_def)
qed

lemma accepted_once_step:
  assumes "accepted_once (mr_trace m)" "truthful_event e m"
  shows "accepted_once (mr_trace (repl_step e m))"
proof (cases e)
  case (RpContact i rp)
  show ?thesis
  proof (cases rp)
    case None
    then show ?thesis using assms(1) RpContact by (simp add: job_contact_def Let_def)
  next
    case (Some r)
    obtain ok es where c: "contact_vault r (jb_vault (mr_jobs m ! i)) (jb_payload (mr_jobs m ! i)) = (ok, es)" by fastforce
    have "accepted_once (mr_trace m @ es)" if "i < length (mr_jobs m)"
      using accepted_once_contact[OF assms(1) _ c] assms(2) RpContact Some that by simp
    then show ?thesis using assms(1) RpContact Some c by (simp add: job_contact_def Let_def)
  qed
next
  case (RpEnd i ok now)
  show ?thesis
  proof (cases "i < length (mr_jobs m)")
    case True
    let ?over = "m\<lparr>mr_jobs := (mr_jobs m)[i := (mr_jobs m ! i)\<lparr>jb_state := JobOver\<rparr>]\<rparr>"
    have "accepted_once (mr_trace ?over)" using assms(1) by simp
    then show ?thesis using assms(1) RpEnd True accepted_once_enqueue[of ?over]
      by (simp add: job_end_def Let_def split: job_state.splits bool.splits)
  qed (use assms RpEnd in \<open>simp add: job_end_def\<close>)
next
  case (RpDrain rp)
  show ?thesis
  proof (cases "mr_batch m")
    case (Cons x xs)
    obtain ok es where "contact_vault rp (rq_targetVault x) (rq_payload x) = (ok, es)" by fastforce
    then show ?thesis using accepted_once_contact[OF assms(1)] assms RpDrain Cons
      by (cases "mr_sent m") (simp_all add: drain_contact_def)
  qed (use assms RpDrain in \<open>simp add: drain_contact_def\<close>)
next
  case (RpDrained ok now)
  then show ?thesis using assms(1) by (simp add: drain_end_def split: list.splits option.splits bool.splits)
next
  case (RpPurge ok now)
  then show ?thesis using assms(1) by (simp add: purgeDeadEntries_def accepted_once_quiet list_all_iff)
qed (use assms(1) in \<open>simp_all add: Intercept_def ReplicateFinishSummary_def accepted_once_fan_out drain_select_def split: option.splits\<close>)

lemma accepted_once_run: "accepted_once (mr_trace m) \<Longrightarrow> truthful_run es m \<Longrightarrow> accepted_once (mr_trace (fold repl_step es m))"
  by (induction es arbitrary: m) (simp_all add: accepted_once_step)

text \<open>
  The first memory of a concept is the only one. While the vaults answer truthfully and at once, a vault accepts at most one
  replicated memory for each concept, however often it is intercepted, retried and drained - and so it
  never gets a later memory of the same concept: not the new content of an evolved memory, not the second
  completion summary of an agent.
\<close>

lemma replicated_once:
  assumes "truthful_run events (NewMemoryReplicator db)"
  shows "length (filter (accepts v k) (mr_trace (fold repl_step events (NewMemoryReplicator db)))) \<le> 1"
  using accepted_once_run[OF _ assms] by (simp add: accepted_once_def NewMemoryReplicator_def)

definition two_members :: replication_context where
  "two_members = \<lparr>rc_SpaceID = ''sp1'', rc_SpaceName = ''dev'', rc_Members = [\<lparr>rm_AgentName = ''Ann'', rm_VaultName = ''va''\<rparr>,
     \<lparr>rm_AgentName = ''Bob'', rm_VaultName = ''vb''\<rparr>]\<rparr>"

text \<open>Two completions of Bob: Ann's vault keeps the first summary, and the second is taken from the queue as delivered.\<close>

definition two_summaries :: "repl_event list" where
  "two_summaries =
     [RpFinish (\<lambda>_. True) 0 ''first'' ''Bob'' two_members,
      RpContact 0 (Some \<lparr>vr_client = True, vr_find = FindResult 0 False, vr_remember = RememberResult False\<rparr>), RpEnd 0 True 1,
      RpFinish (\<lambda>_. True) 2 ''second'' ''Bob'' two_members,
      RpContact 1 (Some \<lparr>vr_client = True, vr_find = FindResult 1 False, vr_remember = RememberResult False\<rparr>), RpEnd 1 True 3]"

lemma second_summary_lost:
  "let m = fold repl_step two_summaries (NewMemoryReplicator True)
   in mr_rows m = [] \<and> list_ex (\<lambda>e. case e of EfRemembered v k c t b \<Rightarrow> c = ''first'' | _ \<Rightarrow> False) (mr_trace m) \<and>
      \<not> list_ex (\<lambda>e. case e of EfRemembered v k c t b \<Rightarrow> c = ''second'' | _ \<Rightarrow> False) (mr_trace m)"
  by code_simp

text \<open>A vault that refuses a memory in its answer counts as one that took it.\<close>

lemma refused_memory_dropped:
  "let m = fold repl_step
        [RpFinish (\<lambda>_. True) 0 ''first'' ''Bob'' two_members,
         RpContact 0 (Some \<lparr>vr_client = True, vr_find = FindResult 0 False, vr_remember = RememberResult True\<rparr>), RpEnd 0 True 1]
        (NewMemoryReplicator True)
   in mr_rows m = [] \<and> list_all (\<lambda>e. \<not> accepts ''va'' ''thread-completion-bob'' e) (mr_trace m)"
  by code_simp

text \<open>A replica is never replicated again.\<close>

lemma replicas_do_not_echo:
  "\<not> ShouldReplicate toolName ((''tags'', JArr (map JStr (buildReplicaTags tags producer space key))) # args)"
  by (simp add: ShouldReplicate_def json_array_def buildReplicaTags_def)

section \<open>A blocked write is replicated\<close>

lemma ShouldReplicate_tool: "ShouldReplicate name args \<Longrightarrow> isMemoryToolName name"
  by (auto simp: ShouldReplicate_def isMemoryToolName_def split: if_splits)

text \<open>
  A memory that was refused is spread all the same. In a turn that asks a question the write of a memory is blocked before
  it reaches the vault; the callback then sees an ordinary result, so the replicator enqueues the memory, as
  the model invented it, for the vault of every other agent of the channel.
\<close>

lemma blocked_memory_spreads:
  assumes "Get (tw_reg w) (tc_Name tc) = Some t" "toolSchemaAllows cfg (tc_Name tc)" "tc_Name tc \<noteq> []"
    and "isMuninnWriteTool (tc_Name tc)" "isQuestionShaped (lc_MemoryUserMsg cfg)"
    and "ShouldReplicate (tc_Name tc) (tc_Args tc)" "extractConcept (tc_Name tc) (tc_Args tc) \<noteq> []"
    and "mr_hasDB m" "x \<in> set (rc_Members c)" "rm_AgentName x \<noteq> lc_AgentName cfg"
  shows "\<exists>res. tw_trace (fst (executeSingle cfg env idx tc w)) = tw_trace w @
        [EvToolCall (call_id env idx tc) (tc_Name tc) (tc_Args tc), EvToolDone (call_id env idx tc) (tc_Name tc) res]
     \<and> (rm_VaultName x, normalizeConcept (extractConcept (tc_Name tc) (tc_Args tc)), rc_SpaceID c)
         \<in> row_key ` set (mr_rows (chatOnToolDone (\<lambda>_. True) now (tc_Name tc) (tc_Args tc) res (lc_AgentName cfg) (Some c) m))"
proof -
  let ?res = "\<lparr>tr_Output = blocked_write_output, tr_Error = [], tr_IsError = False\<rparr>"
  have tr: "tw_trace (fst (executeSingle cfg env idx tc w)) = tw_trace w @
      [EvToolCall (call_id env idx tc) (tc_Name tc) (tc_Args tc), EvToolDone (call_id env idx tc) (tc_Name tc) ?res]"
    using assms(1-5) by (simp add: executeSingle_def Let_def)
  define p where "p = \<lparr>pl_Concept = extractConcept (tc_Name tc) (tc_Args tc), pl_Content = extractContent (tc_Name tc) (tc_Args tc),
      pl_MemType = extractMemType (tc_Name tc) (tc_Args tc), pl_Tags = extractTags (tc_Args tc), pl_SpaceName = rc_SpaceName c,
      pl_ProducerName = lc_AgentName cfg\<rparr>"
  let ?key = "\<lambda>x. (rm_VaultName x, normalizeConcept (pl_Concept p), rc_SpaceID c)"
  have enq: "row_key ` set (mr_rows (fold (\<lambda>(i, x). enqueueRetry True now (rm_VaultName x) (rc_SpaceID c) p) xs m))
      = ?key ` snd ` set xs \<union> row_key ` set (mr_rows m)" if "mr_hasDB m" for xs :: "(nat \<times> replication_member) list" and m
    using that
  proof (induction xs arbitrary: m)
    case (Cons ix xs)
    obtain i x where ix: "ix = (i, x)" by (cases ix)
    have "mr_hasDB (enqueueRetry True now (rm_VaultName x) (rc_SpaceID c) p m)" using Cons.prems by (simp add: enqueueRetry_def)
    from Cons.IH[OF this] Cons.prems show ?case by (simp add: ix enqueueRetry_def keys_enqueue)
  qed simp
  let ?targets = "filter (\<lambda>x. rm_AgentName x \<noteq> lc_AgentName cfg) (rc_Members c)"
  have "x \<in> set ?targets" using assms(9,10) by simp
  then have "x \<in> snd ` set (enumerate 0 ?targets)" by (metis list.set_map map_snd_enumerate)
  then have "?key x \<in> row_key ` set (mr_rows (fan_out (\<lambda>_. True) now (lc_AgentName cfg) c p m))"
    using enq[OF assms(8), of "enumerate 0 ?targets"] by (auto simp: fan_out_def Let_def)
  moreover have "rc_Members c \<noteq> []" using assms(9) by auto
  ultimately have "(rm_VaultName x, normalizeConcept (extractConcept (tc_Name tc) (tc_Args tc)), rc_SpaceID c)
         \<in> row_key ` set (mr_rows (chatOnToolDone (\<lambda>_. True) now (tc_Name tc) (tc_Args tc) ?res (lc_AgentName cfg) (Some c) m))"
    using assms(6,7) ShouldReplicate_tool[OF assms(6)] by (simp add: chatOnToolDone_def Intercept_def p_def)
  with tr show ?thesis by blast
qed

text \<open>A model that invents an answer to a question: its memory goes to Ann's vault.\<close>

definition muninn_remember :: tool where
  "muninn_remember = \<lparr>t_Name = ''muninn_remember'', t_Permission = PermWrite, t_SchemaName = ''muninn_remember''\<rparr>"

definition invented :: tool_call where
  "invented = \<lparr>tc_ID = ''c1'', tc_Name = ''muninn_remember'',
     tc_Args = [(''concept'', JStr ''Database''), (''content'', JStr ''PostgreSQL''), (''type'', JStr ''fact'')]\<rparr>"

definition question_config :: loop_config where
  "question_config = \<lparr>lc_MaxTurns = 1, lc_Schemas = [], lc_hasGate = False, lc_hasBeforeWrite = False, lc_hasEvents = False,
     lc_hasWarnOnce = False, lc_hasReconnector = False, lc_MemoryUserMsg = ''What is our database called?'', lc_AgentName = ''Bob'',
     lc_SessionID = ''s1'', lc_pre = [], lc_post = []\<rparr>"

definition question_world :: tool_world where
  "question_world = \<lparr>tw_reg = Register muninn_remember NewRegistry, tw_gate = NewGate True False, tw_vaultTools = [], tw_warned = False,
     tw_warnedOnce = False, tw_trace = []\<rparr>"

end
