(* ===== verification/Mentions.thy ===== *)
theory Mentions
  imports SpaceWakes
begin

text \<open>
  Names after an at sign in the text of a message: the pattern \<open>MentionRe\<close> with its scan and its
  replacement (\<^verbatim>\<open>internal/threadmgr/mentions.go\<close>, \<^verbatim>\<open>dedup.go\<close>), the requests made
  of it, and the server's own reading of names (\<^verbatim>\<open>internal/server/ws.go\<close>), which picks
  the addressee of a message and the further agents it names.

  A string is a list of bytes. The pattern has only ASCII characters, so it matches on bytes as on runes.
\<close>

section \<open>The pattern\<close>

text \<open>The class around a mention: white space, punctuation and the marks of markdown.\<close>

definition mention_boundary :: "char \<Rightarrow> bool" where
  "mention_boundary c \<longleftrightarrow> (of_char c :: nat) \<in> {9, 10, 12, 13, 32} \<or> c \<in> set '',;:!?.*_`~()[]{}\"<>'' \<or> c = CHR 0x27"

text \<open>\<^verbatim>\<open>[\w-]\<close>\<close>

definition mention_char :: "char \<Rightarrow> bool" where
  "mention_char c \<longleftrightarrow> isAtNameChar c"

text \<open>
  \<^verbatim>\<open>([\w-]+?)\<close> up to the class or the end: the shortest name that one of them follows, and what
  is left from there on.
\<close>

fun lazy_name :: "string \<Rightarrow> (string \<times> string) option" where
  "lazy_name [] = None"
| "lazy_name (c # s) =
     (if \<not> mention_char c then None
      else if s = [] \<or> mention_boundary (hd s) then Some ([c], s)
      else map_option (\<lambda>(n, r). (c # n, r)) (lazy_name s))"

record mention =
  mn_lead :: string
  mn_name :: string
  mn_trail :: string

definition match_text :: "mention \<Rightarrow> string" where
  "match_text m = mn_lead m @ CHR ''@'' # mn_name m @ mn_trail m"

text \<open>A match at the head of a text; \<open>start\<close> tells that the text begins here, where \<^verbatim>\<open>^\<close> matches.\<close>

definition name_after :: "string \<Rightarrow> string \<Rightarrow> (mention \<times> string) option" where
  "name_after lead s =
     map_option (\<lambda>(n, r). (\<lparr>mn_lead = lead, mn_name = n, mn_trail = take 1 r\<rparr>, drop 1 r)) (lazy_name s)"

fun match_here :: "bool \<Rightarrow> string \<Rightarrow> (mention \<times> string) option" where
  "match_here start [] = None"
| "match_here start (c # s) =
     (if start \<and> c = CHR ''@'' then name_after [] s
      else if mention_boundary c \<and> s \<noteq> [] \<and> hd s = CHR ''@'' then name_after [c] (tl s)
      else None)"

lemma lazy_name_app: "lazy_name s = Some (n, r) \<Longrightarrow> s = n @ r \<and> n \<noteq> []"
  by (induction s arbitrary: n) (auto split: if_splits)

lemma name_after_app: "name_after lead s = Some (m, r) \<Longrightarrow> lead @ CHR ''@'' # s = match_text m @ r"
  by (auto simp: name_after_def match_text_def dest!: lazy_name_app)

lemma match_here_app: "match_here start s = Some (m, r) \<Longrightarrow> s = match_text m @ r"
  by (cases s; cases "tl s") (auto split: if_splits dest!: name_after_app)

lemma match_here_shorter: "match_here start s = Some (m, r) \<Longrightarrow> length r < length s"
  by (drule match_here_app) (simp add: match_text_def)

section \<open>Finding and replacing all matches\<close>

text \<open>
  \<^verbatim>\<open>FindAll\<close>: the leftmost match, then on after it. A match that took the character behind a name leaves
  it no longer for the next one. The position of a match is the one of its at sign.
\<close>

function mention_scan :: "nat \<Rightarrow> bool \<Rightarrow> string \<Rightarrow> (nat \<times> string) list" where
  "mention_scan pos start s =
     (case match_here start s of
        Some (m, r) \<Rightarrow> (pos + length (mn_lead m), mn_name m) # mention_scan (pos + length (match_text m)) False r
      | None \<Rightarrow> (case s of [] \<Rightarrow> [] | c # t \<Rightarrow> mention_scan (Suc pos) False t))"
  by pat_completeness auto
termination
  by (relation "measure (\<lambda>(pos, start, s). length s)") (auto dest: match_here_shorter)

declare mention_scan.simps [simp del]

definition FindAllMentions :: "string \<Rightarrow> (nat \<times> string) list" where
  "FindAllMentions s = mention_scan 0 True s"

text \<open>\<^verbatim>\<open>ReplaceAllStringFunc\<close>\<close>

function mention_replace :: "(string \<Rightarrow> string) \<Rightarrow> bool \<Rightarrow> string \<Rightarrow> string" where
  "mention_replace f start s =
     (case match_here start s of
        Some (m, r) \<Rightarrow> f (match_text m) @ mention_replace f False r
      | None \<Rightarrow> (case s of [] \<Rightarrow> [] | c # t \<Rightarrow> c # mention_replace f False t))"
  by pat_completeness auto
termination
  by (relation "measure (\<lambda>(f, start, s). length s)") (auto dest: match_here_shorter)

declare mention_replace.simps [simp del]

text \<open>The excluded names are the lower-cased keys of the map.\<close>

definition strip_mention :: "string list \<Rightarrow> string \<Rightarrow> string" where
  "strip_mention excluded match =
     (case match_here True match of
        Some (m, _) \<Rightarrow>
          if to_lower (mn_name m) \<in> set excluded then replace_first (CHR ''@'' # mn_name m) (mn_name m) match else match
      | None \<Rightarrow> match)"

definition DedupMentions :: "string \<Rightarrow> string \<Rightarrow> string" where
  "DedupMentions userMsg reply =
     (if reply = [] then reply
      else let excluded = map (\<lambda>(_, n). to_lower n) (FindAllMentions userMsg)
           in if excluded = [] then reply else mention_replace (strip_mention excluded) True reply)"

section \<open>Requests\<close>

record delegation_request =
  rq_AgentName :: string
  rq_Task :: string

definition maxMentionsPerMessage :: nat where
  "maxMentionsPerMessage = 10"

text \<open>The loop over the matches; the state is the names seen, the unknown keys seen, the requests and the unknown names.\<close>

definition parse_mention ::
  "(string, string) gomap \<Rightarrow> string \<Rightarrow> nat \<times> string
     \<Rightarrow> string list \<times> string list \<times> delegation_request list \<times> string list
     \<Rightarrow> string list \<times> string list \<times> delegation_request list \<times> string list" where
  "parse_mention canonical msg m st =
     (case st of (seen, seenUnknown, requests, unknown) \<Rightarrow>
        let rawName = snd m; lower = to_lower rawName
        in case gm_get canonical lower of
             None \<Rightarrow> if lower \<in> set seenUnknown then st else (seen, lower # seenUnknown, requests, unknown @ [rawName])
           | Some canon \<Rightarrow>
               if canon \<in> set seen then st
               else (canon # seen, seenUnknown, requests @ [\<lparr>rq_AgentName = canon, rq_Task = msg\<rparr>], unknown))"

definition canonical_names :: "string list \<Rightarrow> (string, string) gomap" where
  "canonical_names agentNames = fold (\<lambda>name. gm_put (to_lower name) name) agentNames []"

definition parseMentionsInternal :: "string \<Rightarrow> string list \<Rightarrow> delegation_request list \<times> string list" where
  "parseMentionsInternal msg agentNames =
     (if msg = [] then ([], [])
      else case fold (parse_mention (canonical_names agentNames) msg) (FindAllMentions msg) ([], [], [], []) of
             (seen, seenUnknown, requests, unknown) \<Rightarrow> (take maxMentionsPerMessage requests, unknown))"

definition restrictMentionNames :: "string list \<Rightarrow> string list \<Rightarrow> string list" where
  "restrictMentionNames registryNames spaceMemberNames =
     (let allowed = map to_lower (filter (\<lambda>n. n \<noteq> []) spaceMemberNames)
      in if spaceMemberNames = [] \<or> allowed = [] then registryNames
         else filter (\<lambda>n. to_lower n \<in> set allowed) registryNames)"

section \<open>The server's reading of names\<close>

text \<open>
  \<open>extractMentionNames\<close> has the loop of \<open>extractAtNames\<close> once more. An agent of the configuration is
  known by its name.
\<close>

definition extractMentionNames :: "string \<Rightarrow> string list" where
  "extractMentionNames content = at_names None [] (trim_space content)"

definition agentFromConfig :: "string list \<Rightarrow> string \<Rightarrow> string option" where
  "agentFromConfig cfg name = (if name = [] then None else find (\<lambda>d. equal_fold d name) cfg)"

definition in_roster :: "string list \<Rightarrow> string \<Rightarrow> bool" where
  "in_roster memberNames name \<longleftrightarrow> memberNames = [] \<or> to_lower name \<in> set (map to_lower memberNames)"

fun first_addressee :: "string list \<Rightarrow> string list \<Rightarrow> string list \<Rightarrow> string option" where
  "first_addressee cfg memberNames [] = None"
| "first_addressee cfg memberNames (name # names) =
     (if \<not> in_roster memberNames name then first_addressee cfg memberNames names
      else (case agentFromConfig cfg name of Some ag \<Rightarrow> Some ag | None \<Rightarrow> first_addressee cfg memberNames names))"

definition resolveMentionAddressee :: "string \<Rightarrow> string list \<Rightarrow> string list \<Rightarrow> string option" where
  "resolveMentionAddressee content cfg memberNames = first_addressee cfg memberNames (extractMentionNames content)"

text \<open>One name of either loop; the state is the keys seen and the extra names.\<close>

definition take_extra :: "string list \<Rightarrow> string \<Rightarrow> string list \<times> string list \<Rightarrow> string list \<times> string list" where
  "take_extra cfg name st =
     (case st of (seen, extra) \<Rightarrow>
        if to_lower name \<in> set seen then st
        else (case agentFromConfig cfg name of Some ag \<Rightarrow> (to_lower name # seen, extra @ [ag]) | None \<Rightarrow> st))"

definition additionalMentionNames :: "string \<Rightarrow> string \<Rightarrow> string list \<Rightarrow> string list \<Rightarrow> string list" where
  "additionalMentionNames content addressee cfg memberNames =
     (let mentions = extractMentionNames content
      in if mentions = [] then []
         else
           let addrName = (case resolveMentionAddressee content cfg memberNames of Some a \<Rightarrow> a | None \<Rightarrow> addressee);
               seen0 = (if addrName = [] then [] else [to_lower addrName]);
               st = fold (take_extra cfg) (filter (in_roster memberNames) mentions) (seen0, [])
           in snd (if memberNames = [] then st
                   else fold (take_extra cfg) (filter (NameAppears content) memberNames) st))"

text \<open>The text that \<open>spawnAdditionalUserMentions\<close> hands to the mention delegate.\<close>

definition leftover_message :: "string list \<Rightarrow> string \<Rightarrow> string" where
  "leftover_message extras userMsg =
     join_with '' '' (map (\<lambda>n. CHR ''@'' # n) extras) @ '' '' @ userMsg"

definition spawnAdditionalUserMentions :: "string list \<Rightarrow> string list \<Rightarrow> string \<Rightarrow> string \<Rightarrow> string option" where
  "spawnAdditionalUserMentions cfg memberNames addressee userMsg =
     (if userMsg = [] then None
      else let extras = additionalMentionNames userMsg addressee cfg memberNames
           in if extras = [] then None else Some (leftover_message extras userMsg))"


section \<open>What the scan finds\<close>

text \<open>A name and what follows it: the name ends at the first boundary behind its first character.\<close>

definition name_ends :: "string \<Rightarrow> string \<Rightarrow> bool" where
  "name_ends n v \<longleftrightarrow> n \<noteq> [] \<and> list_all mention_char n \<and> \<not> list_ex mention_boundary (tl n) \<and>
     (v = [] \<or> mention_boundary (hd v))"

text \<open>
  A mention stands at a position: an at sign behind a boundary, or at the start of the text if it may begin there,
  and a name behind it.
\<close>

definition mention_at :: "bool \<Rightarrow> string \<Rightarrow> nat \<Rightarrow> string \<Rightarrow> bool" where
  "mention_at start s p n \<longleftrightarrow>
     (\<exists>u v. s = u @ CHR ''@'' # n @ v \<and> length u = p \<and> (if u = [] then start else mention_boundary (last u)) \<and> name_ends n v)"

lemma at_not_char [simp]: "\<not> mention_boundary CHR ''@''" "\<not> mention_char CHR ''@''"
  by (simp_all add: mention_boundary_def mention_char_def isAtNameChar_def isAtNameStart_def)

lemma name_ends_Cons:
  "name_ends (c # n) v \<longleftrightarrow> mention_char c \<and>
     (if n = [] then v = [] \<or> mention_boundary (hd v) else \<not> mention_boundary (hd n) \<and> name_ends n v)"
  by (cases n) (auto simp: name_ends_def)

lemma lazy_name_iff: "lazy_name s = Some (n, v) \<longleftrightarrow> s = n @ v \<and> name_ends n v"
proof (induction s arbitrary: n)
  case Nil
  then show ?case by (auto simp: name_ends_def)
next
  case (Cons c s)
  show ?case
  proof (cases n)
    case Nil
    then show ?thesis by (auto simp: name_ends_def split: if_splits)
  next
    case (Cons d m)
    then show ?thesis using Cons.IH[of m]
      by (cases "mention_char c"; cases "s = [] \<or> mention_boundary (hd s)"; cases m)
         (auto simp: name_ends_Cons name_ends_def hd_append)
  qed
qed


lemma mention_at_0: "mention_at start s 0 n \<longleftrightarrow> start \<and> (\<exists>v. s = CHR ''@'' # n @ v \<and> name_ends n v)"
  by (auto simp: mention_at_def)

lemma mention_at_Suc: "mention_at start (c # t) (Suc p) n \<longleftrightarrow> mention_at (mention_boundary c) t p n"
proof
  assume "mention_at start (c # t) (Suc p) n"
  then obtain u v where u: "c # t = u @ CHR ''@'' # n @ v" "length u = Suc p" "mention_boundary (last u)" "name_ends n v"
    by (auto simp: mention_at_def split: if_splits)
  then obtain w where "u = c # w" by (cases u) auto
  with u show "mention_at (mention_boundary c) t p n"
    unfolding mention_at_def by (intro exI[of _ w] exI[of _ v]) (auto split: if_splits)
next
  assume "mention_at (mention_boundary c) t p n"
  then obtain w v where "t = w @ CHR ''@'' # n @ v" "length w = p"
    "if w = [] then mention_boundary c else mention_boundary (last w)" "name_ends n v"
    by (auto simp: mention_at_def)
  then show "mention_at start (c # t) (Suc p) n"
    unfolding mention_at_def by (intro exI[of _ "c # w"] exI[of _ v]) (auto split: if_splits)
qed

lemma mention_at_Nil [simp]: "\<not> mention_at start [] p n"
  by (simp add: mention_at_def)

text \<open>Behind a stretch without at signs.\<close>

lemma mention_at_skip:
  "CHR ''@'' \<notin> set w \<Longrightarrow> w \<noteq> [] \<Longrightarrow>
     mention_at start (w @ t) p n \<longleftrightarrow> length w \<le> p \<and> mention_at (mention_boundary (last w)) t (p - length w) n"
proof (induction w arbitrary: start p)
  case (Cons c w)
  show ?case
  proof (cases p)
    case 0
    then show ?thesis using Cons.prems by (auto simp: mention_at_0)
  next
    case (Suc k)
    then show ?thesis using Cons.prems Cons.IH[of "mention_boundary c" k]
      by (cases "w = []") (auto simp: mention_at_Suc)
  qed
qed simp

lemma name_ends_no_at: "name_ends n v \<Longrightarrow> CHR ''@'' \<notin> set n"
  by (auto simp: name_ends_def list_all_iff)

lemma name_ends_unique: "n @ v = n' @ v' \<Longrightarrow> name_ends n v \<Longrightarrow> name_ends n' v' \<Longrightarrow> n = n'"
  by (metis lazy_name_iff option.inject prod.inject)

lemma name_after_iff:
  "name_after lead s = Some (m, r) \<longleftrightarrow> s = mn_name m @ mn_trail m @ r \<and> mn_lead m = lead \<and> name_ends (mn_name m) (mn_trail m @ r) \<and>
     length (mn_trail m) \<le> 1 \<and> (mn_trail m = [] \<longrightarrow> r = [])"
proof
  assume "name_after lead s = Some (m, r)"
  then obtain n v where v: "lazy_name s = Some (n, v)" "m = \<lparr>mn_lead = lead, mn_name = n, mn_trail = take 1 v\<rparr>" "r = drop 1 v"
    by (auto simp: name_after_def)
  then show "s = mn_name m @ mn_trail m @ r \<and> mn_lead m = lead \<and> name_ends (mn_name m) (mn_trail m @ r) \<and>
     length (mn_trail m) \<le> 1 \<and> (mn_trail m = [] \<longrightarrow> r = [])"
    by (cases v) (auto simp: lazy_name_iff)
next
  assume a: "s = mn_name m @ mn_trail m @ r \<and> mn_lead m = lead \<and> name_ends (mn_name m) (mn_trail m @ r) \<and>
     length (mn_trail m) \<le> 1 \<and> (mn_trail m = [] \<longrightarrow> r = [])"
  then have "lazy_name s = Some (mn_name m, mn_trail m @ r)" by (simp add: lazy_name_iff)
  moreover have "take 1 (mn_trail m @ r) = mn_trail m" "drop 1 (mn_trail m @ r) = r"
    using a by (cases "mn_trail m"; simp)+
  ultimately show "name_after lead s = Some (m, r)" using a by (simp add: name_after_def)
qed


text \<open>What a match at the head says about the mentions of the text, and what its absence says.\<close>

lemma match_here_SomeD:
  assumes "match_here start s = Some (m, r)"
  shows "s = match_text m @ r" "name_ends (mn_name m) (mn_trail m @ r)" "length (mn_trail m) \<le> 1" "mn_trail m = [] \<longrightarrow> r = []"
    "(mn_lead m = [] \<and> start) \<or> (\<exists>c. mn_lead m = [c] \<and> mention_boundary c)"
proof -
  obtain lead t where l: "lead = [] \<and> start \<or> (\<exists>c. lead = [c] \<and> mention_boundary c)" "name_after lead t = Some (m, r)"
    using assms by (cases s) (auto split: if_splits)
  then show "name_ends (mn_name m) (mn_trail m @ r)" "length (mn_trail m) \<le> 1" "mn_trail m = [] \<longrightarrow> r = []"
    "(mn_lead m = [] \<and> start) \<or> (\<exists>c. mn_lead m = [c] \<and> mention_boundary c)"
    unfolding name_after_iff by blast+
  show "s = match_text m @ r" using assms by (rule match_here_app)
qed

lemma match_here_None:
  assumes "match_here start s = None"
  shows "\<not> mention_at start s 0 n" "s = c # t \<Longrightarrow> mention_at (mention_boundary c) t p n \<longleftrightarrow> mention_at False t p n"
proof -
  show "\<not> mention_at start s 0 n" using assms
    by (auto simp: mention_at_0 name_after_def split: if_splits) (metis lazy_name_iff option.distinct(1))
  assume s: "s = c # t"
  show "mention_at (mention_boundary c) t p n \<longleftrightarrow> mention_at False t p n"
  proof (cases p)
    case 0
    have "\<not> (mention_boundary c \<and> (\<exists>v. t = CHR ''@'' # n @ v \<and> name_ends n v))"
      using assms s by (auto simp: name_after_def split: if_splits) (metis lazy_name_iff option.distinct(1))+
    then show ?thesis by (simp add: 0 mention_at_0)
  next
    case (Suc k)
    then show ?thesis by (cases t) (simp_all add: mention_at_Suc)
  qed
qed

lemma mention_at_match:
  assumes "match_here start s = Some (m, r)"
  shows "mention_at start s p n \<longleftrightarrow> p = length (mn_lead m) \<and> n = mn_name m \<or>
     length (match_text m) \<le> p \<and> mention_at (mn_trail m \<noteq> []) r (p - length (match_text m)) n"
proof -
  note m = match_here_SomeD[OF assms]
  let ?w = "mn_name m @ mn_trail m" and ?l = "length (mn_lead m)"
  have s: "s = mn_lead m @ CHR ''@'' # ?w @ r" using m(1) by (simp add: match_text_def)
  have trail: "mn_trail m \<noteq> [] \<Longrightarrow> mention_boundary (last (mn_trail m))" "CHR ''@'' \<notin> set (mn_trail m)"
    using m(2,3) by (cases "mn_trail m"; auto simp: name_ends_def; fail)+
  have w: "?w \<noteq> []" "CHR ''@'' \<notin> set ?w" using m(2) trail(2) by (auto simp: name_ends_def list_all_iff)
  have tail: "mention_at b r k n \<longleftrightarrow> mention_at (mn_trail m \<noteq> []) r k n" if "b = mention_boundary (last ?w)" for b k
    using that trail(1) m(4) by (cases "mn_trail m = []") auto
  have at: "mention_at True (CHR ''@'' # ?w @ r) k n \<longleftrightarrow> k = 0 \<and> n = mn_name m \<or>
      Suc (length ?w) \<le> k \<and> mention_at (mn_trail m \<noteq> []) r (k - Suc (length ?w)) n" for k
  proof (cases k)
    case 0
    then show ?thesis using m(2) name_ends_unique[of "mn_name m" "mn_trail m @ r" n] by (auto simp: mention_at_0)
  next
    case (Suc j)
    then show ?thesis using mention_at_skip[OF w(2,1), of False r j n] tail[OF refl] by (auto simp: mention_at_Suc)
  qed
  from m(5) show ?thesis
  proof (elim disjE exE conjE)
    assume "mn_lead m = []" "start"
    then show ?thesis using at[of p] s by (simp add: match_text_def)
  next
    fix c assume c: "mn_lead m = [c]" "mention_boundary c"
    then have "c \<noteq> CHR ''@''" by auto
    then show ?thesis using at[of "p - 1"] s c by (cases p) (auto simp: match_text_def mention_at_0 mention_at_Suc)
  qed
qed


lemma mention_scan_Nil [simp]: "mention_scan pos start [] = []"
  by (simp add: mention_scan.simps[of pos start "[]"])

lemma mention_scan_skip: "match_here start (c # t) = None \<Longrightarrow> mention_scan pos start (c # t) = mention_scan (Suc pos) False t"
  by (simp add: mention_scan.simps[of pos start "c # t"])

lemma mention_scan_match:
  "match_here start s = Some (m, r) \<Longrightarrow>
     mention_scan pos start s = (pos + length (mn_lead m), mn_name m) # mention_scan (pos + length (match_text m)) False r"
  by (simp add: mention_scan.simps[of pos start s])

lemma scan_induct [case_names Nil skip match]:
  assumes "\<And>pos start. P pos start []"
    and "\<And>pos start c t. match_here start (c # t) = None \<Longrightarrow> P (Suc pos) False t \<Longrightarrow> P pos start (c # t)"
    and "\<And>pos start s m r. match_here start s = Some (m, r) \<Longrightarrow> P (pos + length (match_text m)) False r \<Longrightarrow> P pos start s"
  shows "P pos start s"
proof (induction pos start s rule: mention_scan.induct)
  case (1 pos start s)
  show ?case
  proof (cases "match_here start s")
    case None
    then show ?thesis using "1.IH"(1)[OF None] assms(1,2) by (cases s) auto
  next
    case (Some mr)
    then show ?thesis using "1.IH"(2)[OF Some] assms(3)[of start s "fst mr" "snd mr" pos] by (cases mr) auto
  qed
qed

lemma mention_scan_ge: "(q, n) \<in> set (mention_scan pos start s) \<Longrightarrow> pos \<le> q"
  by (induction pos start s rule: scan_induct) (auto simp del: match_here.simps simp: mention_scan_skip mention_scan_match)

lemma mention_scan_sorted: "sorted_wrt (<) (map fst (mention_scan pos start s))"
proof (induction pos start s rule: scan_induct)
  case (match pos start s m r)
  have "pos + length (mn_lead m) < q" if "(q, n) \<in> set (mention_scan (pos + length (match_text m)) False r)" for q n
    using mention_scan_ge[OF that] by (simp add: match_text_def)
  then show ?case using match by (auto simp: mention_scan_match)
qed (simp_all add: mention_scan_skip del: match_here.simps)

text \<open>A position whose boundary is the last character of a found match.\<close>

definition taken_boundary :: "(nat \<times> string) list \<Rightarrow> nat \<Rightarrow> bool" where
  "taken_boundary ms q \<longleftrightarrow> (\<exists>(q', m) \<in> set ms. q = q' + length m + 2)"

lemma mention_at_pos: "0 < p \<Longrightarrow> mention_at b r p n \<longleftrightarrow> mention_at False r p n"
  by (cases p; cases r) (simp_all add: mention_at_Suc)

lemma mention_scan_spec:
  "(q, n) \<in> set (mention_scan pos start s) \<longleftrightarrow>
     pos \<le> q \<and> mention_at start s (q - pos) n \<and> \<not> taken_boundary (mention_scan pos start s) q"
proof (induction pos start s arbitrary: q n rule: scan_induct)
  case (Nil pos start)
  then show ?case by simp
next
  case (skip pos start c t)
  have "mention_at start (c # t) (q - pos) n \<longleftrightarrow> Suc pos \<le> q \<and> mention_at False t (q - Suc pos) n" if "pos \<le> q"
    using match_here_None[OF skip.hyps] that by (cases "q - pos") (auto simp: mention_at_Suc Suc_le_eq diff_Suc split: nat.splits)
  then show ?case using skip.IH[of q n] by (auto simp: mention_scan_skip[OF skip.hyps])
next
  case (match pos start s m r)
  let ?at = "pos + length (mn_lead m)" and ?next = "pos + length (match_text m)"
  let ?rest = "mention_scan ?next False r"
  note d = match_here_SomeD[OF match.hyps]
  note scan = mention_scan_match[OF match.hyps, of pos]
  have next_at: "?next = ?at + length (mn_name m) + 1 + length (mn_trail m)" by (simp add: match_text_def)
  have late: "?at < q'" if "(q', n') \<in> set ?rest" for q' n' using mention_scan_ge[OF that] next_at by simp
  have m_at: "mention_at start s (q - pos) n \<longleftrightarrow> q = ?at \<and> n = mn_name m \<or> ?next \<le> q \<and> mention_at (mn_trail m \<noteq> []) r (q - ?next) n"
    if "pos \<le> q" unfolding mention_at_match[OF match.hyps] diff_diff_left using that by auto
  have taken: "taken_boundary ((?at, mn_name m) # ?rest) q \<longleftrightarrow> q = ?at + length (mn_name m) + 2 \<or> taken_boundary ?rest q"
    by (simp add: taken_boundary_def)
  have not_taken: "\<not> taken_boundary ((?at, mn_name m) # ?rest) ?at"
    using late by (fastforce simp: taken_boundary_def)
  have "mention_at (mn_trail m \<noteq> []) r (q - ?next) n \<longleftrightarrow> mention_at False r (q - ?next) n"
    if "?next \<le> q" "q \<noteq> ?at + length (mn_name m) + 2"
  proof (cases "q = ?next")
    case True
    then show ?thesis using that d(3,4) next_at by (cases "mn_trail m") auto
  next
    case False
    then show ?thesis using that mention_at_pos[of "q - ?next"] by simp
  qed
  moreover have "q \<noteq> ?at + length (mn_name m) + 2" if "mention_at False r (q - ?next) n" "?next \<le> q"
    using that next_at d(3,4) by (cases "mn_trail m"; cases "q - ?next") (auto simp: mention_at_0)
  ultimately have rest: "?next \<le> q \<and> mention_at (mn_trail m \<noteq> []) r (q - ?next) n \<and> q \<noteq> ?at + length (mn_name m) + 2 \<and> \<not> taken_boundary ?rest q
      \<longleftrightarrow> (q, n) \<in> set ?rest"
    unfolding match.IH by blast
  show ?case
  proof (cases "q = ?at")
    case True
    then have "\<not> ?next \<le> q" "(q, n) \<notin> set ?rest" using next_at late[of q n] by auto
    then show ?thesis using m_at not_taken True by (auto simp: scan)
  next
    case False
    have "pos \<le> q \<and> mention_at start s (q - pos) n \<longleftrightarrow> ?next \<le> q \<and> mention_at (mn_trail m \<noteq> []) r (q - ?next) n"
      using m_at False by (cases "pos \<le> q") auto
    then show ?thesis using False unfolding scan taken by (simp only: list.set insert_iff prod.inject rest[symmetric]) blast
  qed
qed

text \<open>
  C38. The scan of a message finds every mention in it (an at sign behind white space, punctuation or a markdown mark,
  with a name that ends at the first of these), at growing positions, and nothing else, with one
  exception: a mention is missed exactly if the one character between it and a found mention ended that one's name.
\<close>

theorem mention_scan_exact:
  "sorted_wrt (<) (map fst (FindAllMentions msg)) \<and>
   ((p, n) \<in> set (FindAllMentions msg) \<longleftrightarrow> mention_at True msg p n \<and> \<not> taken_boundary (FindAllMentions msg) p)"
  unfolding FindAllMentions_def using mention_scan_sorted mention_scan_spec[of p n 0 True msg] by simp

section \<open>The requests of a message\<close>

lemma canonical_names_get: "gm_get (canonical_names names) k = Some c \<Longrightarrow> c \<in> set names \<and> to_lower c = k"
proof -
  have "gm_get (fold (\<lambda>name. gm_put (to_lower name) name) ns m) k = Some c \<Longrightarrow>
      gm_get m k = Some c \<or> c \<in> set ns \<and> to_lower c = k" for ns m
  proof (induction ns arbitrary: m)
    case (Cons a ns)
    then show ?case using Cons.IH[of "gm_put (to_lower a) a m"] by (auto split: if_splits)
  qed simp
  then show "gm_get (canonical_names names) k = Some c \<Longrightarrow> c \<in> set names \<and> to_lower c = k"
    by (fastforce simp: canonical_names_def)
qed

lemma parse_requests:
  assumes "fold (parse_mention (canonical_names names) msg) ms ([], [], [], []) = (seen, seenU, reqs, unk)"
  shows "distinct (map rq_AgentName reqs) \<and>
     list_all (\<lambda>r. rq_AgentName r \<in> set names \<and> rq_Task r = msg \<and> list_ex (\<lambda>m. equal_fold (snd m) (rq_AgentName r)) ms) reqs"
proof -
  let ?good = "\<lambda>ms r. rq_AgentName r \<in> set names \<and> rq_Task r = msg \<and> list_ex (\<lambda>m. equal_fold (snd m) (rq_AgentName r)) ms"
  have "set seen = rq_AgentName ` set reqs \<and> distinct (map rq_AgentName reqs) \<and> list_all (?good ms) reqs"
    if "fold (parse_mention (canonical_names names) msg) ms ([], [], [], []) = (seen, seenU, reqs, unk)" for ms
    using that
  proof (induction ms arbitrary: seen seenU reqs unk rule: rev_induct)
    case (snoc m ms)
    obtain seen0 seenU0 reqs0 unk0 where st:
      "fold (parse_mention (canonical_names names) msg) ms ([], [], [], []) = (seen0, seenU0, reqs0, unk0)"
      by (metis prod_cases4)
    note IH = snoc.IH[OF st]
    have "parse_mention (canonical_names names) msg m (seen0, seenU0, reqs0, unk0) = (seen, seenU, reqs, unk)"
      using snoc.prems st by simp
    moreover have "list_all (?good (ms @ [m])) reqs0" using IH by (auto elim: list.pred_mono_strong)
    moreover have "?good (ms @ [m]) \<lparr>rq_AgentName = c, rq_Task = msg\<rparr>" if "gm_get (canonical_names names) (to_lower (snd m)) = Some c" for c
      using canonical_names_get[OF that] by (simp add: equal_fold_def)
    ultimately show ?case using IH by (auto simp: parse_mention_def Let_def split: option.splits if_splits)
  qed simp
  then show ?thesis using assms by blast
qed

lemma parseMentions_sound:
  assumes "parseMentionsInternal msg names = (reqs, unk)"
  shows "distinct (map rq_AgentName reqs)" "length reqs \<le> maxMentionsPerMessage"
    "r \<in> set reqs \<Longrightarrow> rq_AgentName r \<in> set names \<and> rq_Task r = msg \<and>
       (\<exists>(p, n) \<in> set (FindAllMentions msg). equal_fold n (rq_AgentName r))"
proof -
  obtain seen seenU all unk' where st:
    "fold (parse_mention (canonical_names names) msg) (FindAllMentions msg) ([], [], [], []) = (seen, seenU, all, unk')"
    by (metis prod_cases4)
  note sound = parse_requests[OF st]
  have reqs: "reqs = [] \<or> reqs = take maxMentionsPerMessage all"
    using assms st by (auto simp: parseMentionsInternal_def split: if_splits)
  then show "distinct (map rq_AgentName reqs)" "length reqs \<le> maxMentionsPerMessage"
    using sound by (auto simp flip: take_map)
  assume "r \<in> set reqs"
  then have "r \<in> set all" using reqs by (auto dest: in_set_takeD)
  then show "rq_AgentName r \<in> set names \<and> rq_Task r = msg \<and> (\<exists>(p, n) \<in> set (FindAllMentions msg). equal_fold n (rq_AgentName r))"
    using sound by (fastforce simp: list_all_iff list_ex_iff)
qed

section \<open>Neighbouring mentions\<close>

text \<open>A name that can be mentioned: the pattern ends a name at an underscore.\<close>

definition mentionable :: "string \<Rightarrow> bool" where
  "mentionable n \<longleftrightarrow> n \<noteq> [] \<and> list_all mention_char n \<and> \<not> list_ex mention_boundary (tl n)"

fun every_second :: "'a list \<Rightarrow> 'a list" where
  "every_second [] = []"
| "every_second [x] = [x]"
| "every_second (x # y # xs) = x # every_second xs"

abbreviation scan_names :: "bool \<Rightarrow> string \<Rightarrow> string list" where
  "scan_names start s \<equiv> map snd (mention_scan 0 start s)"

lemma scan_names_pos: "map snd (mention_scan pos start s) = map snd (mention_scan pos' start s)"
  by (induction pos start s arbitrary: pos' rule: scan_induct)
     (simp_all add: mention_scan_skip mention_scan_match del: match_here.simps)

lemma scan_names_skip: "match_here start (c # t) = None \<Longrightarrow> scan_names start (c # t) = scan_names False t"
  unfolding mention_scan_skip by (rule scan_names_pos)

lemma scan_names_match: "match_here start s = Some (m, r) \<Longrightarrow> scan_names start s = mn_name m # scan_names False r"
proof -
  assume a: "match_here start s = Some (m, r)"
  show ?thesis unfolding mention_scan_match[OF a] list.map snd_conv by (intro arg_cong[of _ _ "(#) (mn_name m)"] scan_names_pos)
qed

lemma scan_names_plain: "CHR ''@'' \<notin> set w \<Longrightarrow> v = [] \<or> hd v \<noteq> CHR ''@'' \<Longrightarrow> scan_names False (w @ v) = scan_names False v"
proof (induction w)
  case (Cons c w)
  then have "w @ v = [] \<or> hd (w @ v) \<noteq> CHR ''@''" by (cases w) auto
  then have "match_here False (c # w @ v) = None" by auto
  then show ?case using Cons by (simp add: scan_names_skip del: match_here.simps)
qed simp

lemma mentionable_lazy: "mentionable n \<Longrightarrow> mention_boundary c \<Longrightarrow> lazy_name (n @ c # r) = Some (n, c # r)"
  by (simp add: lazy_name_iff name_ends_def mentionable_def)

lemma space_boundary [simp]: "mention_boundary CHR '' ''"
  by (simp add: mention_boundary_def)

lemma leftover_Nil [simp]: "leftover_message [] msg = CHR '' '' # msg"
  by (simp add: leftover_message_def)

lemma leftover_Cons [simp]: "leftover_message (n # ns) msg = CHR ''@'' # n @ CHR '' '' # (if ns = [] then msg else leftover_message ns msg)"
  by (cases ns) (simp_all add: leftover_message_def)

lemma leftover_head: "ns \<noteq> [] \<Longrightarrow> mentionable (hd ns) \<Longrightarrow>
    scan_names True (leftover_message ns msg) = scan_names False (CHR '' '' # leftover_message ns msg)"
  by (cases ns) (simp_all add: scan_names_match name_after_def mentionable_lazy)

lemma leftover_scan:
  "list_all mentionable ns \<Longrightarrow>
     scan_names False (CHR '' '' # leftover_message ns msg) =
       every_second ns @ scan_names False (if even (length ns) then CHR '' '' # msg else msg)"
proof (induction ns rule: every_second.induct)
  case 1
  show ?case using scan_names_skip[of False "CHR '' ''" "CHR '' '' # msg"] by simp
next
  case (2 n)
  then show ?case by (simp add: scan_names_match name_after_def mentionable_lazy)
next
  case (3 n m ns)
  have "CHR ''@'' \<notin> set m" using "3.prems" by (auto simp: mentionable_def list_all_iff)
  then have "scan_names False (CHR ''@'' # m @ CHR '' '' # r) = scan_names False (CHR '' '' # r)" for r
    using scan_names_plain[of m "CHR '' '' # r"] scan_names_skip[of False "CHR ''@''" "m @ CHR '' '' # r"] by simp
  moreover have "scan_names False (CHR '' '' # (if ns = [] then msg else leftover_message ns msg)) =
      scan_names False (CHR '' '' # leftover_message ns msg)"
    using scan_names_skip[of False "CHR '' ''" "CHR '' '' # msg"] by simp
  ultimately show ?case using 3 by (simp add: scan_names_match name_after_def mentionable_lazy)
qed

text \<open>
  The server hands the further agents of a message to the mention delegate with single spaces between them, and each space
  ends one name. So of the agents it means to start only every second is found at the front; the others are
  found only if the text of the user happens to name them where their boundary is free.
\<close>

lemma extra_mentions_alternate:
  assumes "spawnAdditionalUserMentions cfg memberNames addressee userMsg = Some msg"
    and "extras = additionalMentionNames userMsg addressee cfg memberNames" and "list_all mentionable extras"
  shows "map snd (FindAllMentions msg) = every_second extras @ scan_names False (if even (length extras) then CHR '' '' # userMsg else userMsg)"
proof -
  have "extras \<noteq> []" "msg = leftover_message extras userMsg" using assms(1,2) by (auto simp: spawnAdditionalUserMentions_def Let_def split: if_splits)
  then show ?thesis using leftover_scan[OF assms(3)] leftover_head[of extras userMsg] assms(3)
    by (cases extras) (simp_all add: FindAllMentions_def)
qed

text \<open>A user who names four agents starts the addressee and two others; the third is lost.\<close>

lemma third_agent_lost:
  "resolveMentionAddressee ''@Ann @Bob @Cid @Dan go'' [''Ann'', ''Bob'', ''Cid'', ''Dan''] [] = Some ''Ann''"
  "additionalMentionNames ''@Ann @Bob @Cid @Dan go'' ''Ann'' [''Ann'', ''Bob'', ''Cid'', ''Dan''] [] = [''Bob'', ''Cid'', ''Dan'']"
  "map snd (FindAllMentions (leftover_message [''Bob'', ''Cid'', ''Dan''] ''@Ann @Bob @Cid @Dan go'')) = [''Bob'', ''Dan'', ''Bob'', ''Dan'']"
  by code_simp+

text \<open>An agent whose name has an underscore cannot be mentioned: the pattern takes it for a mark of markdown.\<close>

lemma underscore_not_mentioned: "parseMentionsInternal ''@code_reviewer please look'' [''code_reviewer''] = ([], [''code''])"
  by code_simp

section \<open>Removing mentions\<close>

lemma match_here_again: "match_here start s = Some (m, r) \<Longrightarrow> \<exists>r'. match_here True (match_text m) = Some (m, r')"
proof -
  assume a: "match_here start s = Some (m, r)"
  note m = match_here_SomeD[OF a]
  have "name_ends (mn_name m) (mn_trail m)" using m(2,3,4) by (cases "mn_trail m") (auto simp: name_ends_def)
  then have "name_after lead (mn_name m @ mn_trail m) = Some (m, [])" if "lead = mn_lead m" for lead
    using that m(3) unfolding name_after_iff by auto
  then show ?thesis using m(5) by (auto simp: match_text_def)
qed

lemma strip_mention_text:
  assumes "match_here start s = Some (m, r)"
  shows "strip_mention excluded (match_text m) =
     (if to_lower (mn_name m) \<in> set excluded then mn_lead m @ mn_name m @ mn_trail m else match_text m)"
proof -
  obtain r' where "match_here True (match_text m) = Some (m, r')" using match_here_again[OF assms] by blast
  moreover have "replace_first (CHR ''@'' # mn_name m) (mn_name m) (match_text m) = mn_lead m @ mn_name m @ mn_trail m"
    using match_here_SomeD(5)[OF assms] by (auto simp: match_text_def has_prefix_iff)
  ultimately show ?thesis by (simp add: strip_mention_def)
qed

text \<open>\<open>DedupMentions\<close> takes at signs out and changes nothing else.\<close>

lemma DedupMentions_text: "filter (\<lambda>c. c \<noteq> CHR ''@'') (DedupMentions userMsg reply) = filter (\<lambda>c. c \<noteq> CHR ''@'') reply"
proof -
  have "filter (\<lambda>c. c \<noteq> CHR ''@'') (mention_replace (strip_mention ex) start s) = filter (\<lambda>c. c \<noteq> CHR ''@'') s" for ex start s and pos :: nat
  proof (induction pos start s rule: scan_induct)
    case (match pos start s m r)
    have "mention_replace (strip_mention ex) start s = strip_mention ex (match_text m) @ mention_replace (strip_mention ex) False r"
      using match.hyps by (simp add: mention_replace.simps[of _ start s])
    moreover have "filter (\<lambda>c. c \<noteq> CHR ''@'') (strip_mention ex (match_text m)) = filter (\<lambda>c. c \<noteq> CHR ''@'') (match_text m)"
      unfolding strip_mention_text[OF match.hyps(1)] by (simp add: match_text_def)
    ultimately show ?case using match.IH arg_cong[OF match_here_SomeD(1)[OF match.hyps(1)], of "filter (\<lambda>c. c \<noteq> CHR ''@'')"] by simp
  qed (simp_all add: mention_replace.simps del: match_here.simps(2))
  then show ?thesis by (simp add: DedupMentions_def Let_def)
qed

text \<open>A second mention right behind the first one stays, and starts the agent the user already started.\<close>

lemma repeated_mention_kept: "DedupMentions ''@Sam go'' ''@Sam @Sam, on it'' = ''Sam @Sam, on it''"
  by code_simp

end
