(* ===== verification/Delegation.thy ===== *)
theory Delegation
  imports ThreadSchedule Mentions
begin

text \<open>
  How agents hand work to each other: the chain of hops (\<^verbatim>\<open>internal/workforce/types.go\<close>,
  \<^verbatim>\<open>internal/threadmgr/context.go\<close>), the tool \<open>delegate_to_agent\<close>
  (\<^verbatim>\<open>delegate.go\<close>, with its function in \<^verbatim>\<open>main.go\<close>), the preview a user
  may approve (\<^verbatim>\<open>preview.go\<close>), and the threads made of mentions (\<^verbatim>\<open>mentions.go\<close>).

  The desk holds the thread manager and the delegations under way. A delegation takes several steps, each one
  section under a lock; the steps of other delegations, answers of the user and the scheduler of
  other threads come between them. The registry of agents, the loading of the session and the membership of spaces are
  arguments. The insertion of a delegation record succeeds.
\<close>

section \<open>Chains of hops\<close>

datatype hop_error = ErrDelegationCycle | ErrDelegationDepthExceeded

record delegation_context =
  dc_RequestID :: string
  dc_Stack :: "string list"
  dc_MaxDepth :: int
  dc_Originator :: string

definition WithDelegate :: "string \<Rightarrow> delegation_context \<Rightarrow> hop_error + delegation_context" where
  "WithDelegate toAgent dc =
     (if toAgent \<in> set (dc_Stack dc) then Inl ErrDelegationCycle
      else if int (length (dc_Stack dc)) \<ge> dc_MaxDepth dc then Inl ErrDelegationDepthExceeded
      else Inr (dc\<lparr>dc_Stack := dc_Stack dc @ [toAgent]\<rparr>))"

definition NewDelegationContext :: "string \<Rightarrow> string \<Rightarrow> int \<Rightarrow> delegation_context" where
  "NewDelegationContext requestID originator maxDepth =
     \<lparr>dc_RequestID = requestID, dc_Stack = [originator], dc_MaxDepth = (if maxDepth \<le> 0 then 5 else maxDepth),
      dc_Originator = originator\<rparr>"

text \<open>The chain a context carries, if any.\<close>

type_synonym chain = "delegation_context option"

definition PushDelegateHop :: "string \<Rightarrow> chain \<Rightarrow> string \<Rightarrow> hop_error + chain" where
  "PushDelegateHop caller ctx toAgent0 =
     (let toAgent = trim_space toAgent0
      in if toAgent = [] then Inr ctx
         else
           let c = trim_space caller;
               dc = (case ctx of Some dc \<Rightarrow> dc | None \<Rightarrow> NewDelegationContext [] (if c = [] then ''unknown'' else c) 0)
           in case WithDelegate toAgent dc of Inl e \<Rightarrow> Inl e | Inr next' \<Rightarrow> Inr (Some next'))"

definition CarryDelegationContext :: "chain \<Rightarrow> chain \<Rightarrow> chain" where
  "CarryDelegationContext dst src = (case src of None \<Rightarrow> dst | Some dc \<Rightarrow> Some dc)"

section \<open>Previews\<close>

datatype preview_mode = PreviewModeOff | PreviewModeManual | PreviewModeConditional | PreviewModeAuto

definition normalizePreviewMode :: "string \<Rightarrow> preview_mode" where
  "normalizePreviewMode mode =
     (let m = to_lower (trim_space mode)
      in if m = [] \<or> m = ''manual'' then PreviewModeManual
         else if m = ''conditional'' then PreviewModeConditional
         else if m = ''auto'' then PreviewModeAuto
         else if m = ''disabled'' \<or> m = ''off'' then PreviewModeOff
         else PreviewModeManual)"

definition riskyHints :: "string list" where
  "riskyHints = [''delete'', ''remove'', ''drop'', ''destroy'', ''truncate'', ''prod'', ''production'', ''live'', ''customer data'',
     ''secret'', ''credential'', ''token'', ''key'', ''permission'', ''billing'', ''invoice'', ''payment'']"

definition requiresManualApproval :: "string \<Rightarrow> bool" where
  "requiresManualApproval task = list_ex (contains_str (to_lower task)) riskyHints"

text \<open>The modes in which \<open>Approve\<close> says yes without asking.\<close>

definition preview_skipped :: "preview_mode \<Rightarrow> string \<Rightarrow> bool" where
  "preview_skipped mode task =
     (case mode of
        PreviewModeOff \<Rightarrow> True
      | PreviewModeAuto \<Rightarrow> True
      | PreviewModeConditional \<Rightarrow> \<not> requiresManualApproval task
      | PreviewModeManual \<Rightarrow> False)"

section \<open>The desk\<close>

datatype delegate_error =
    DeNoAgent | DeNoTask | DeHop hop_error | DeNoSession | DeUnknownAgent string | DeSelf string
  | DeSession string | DeCreate create_error | DeLease lease_error | DeConflicts "string list" | DeNotApproved string

datatype delegate_phase = DpResolve | DpLease | DpPreview | DpAwait | DpReject delegate_error | DpSpawn

record delegate_call =
  dl_session :: string
  dl_agent :: string
  dl_task :: string
  dl_intents :: "string list"
  dl_chain :: chain
  dl_phase :: delegate_phase

datatype delegate_result = DrSpawned string | DrQueued string | DrError delegate_error

record delegation_record =
  dr_SessionID :: string
  dr_ThreadID :: string
  dr_FromAgent :: string
  dr_ToAgent :: string
  dr_Task :: string

datatype desk_note =
    NoteDelegationError string string string
  | NoteDelegationWarning string "string list"
  | NotePreview string string
  | NotePreviewTimeout string string

text \<open>
  A started thread carries a chain, and its \<open>dagFn\<close> a session and the chain of the context it closes over.
  An entry of \<open>dk_acks\<close> is a channel of capacity one.
\<close>

record desk =
  dk_tm :: thread_manager
  dk_calls :: "(string, delegate_call) gomap"
  dk_acks :: "(string \<times> string, bool option) gomap"
  dk_chains :: "(string, chain) gomap"
  dk_dag :: "(string, string \<times> chain) gomap"
  dk_records :: "delegation_record list"
  dk_results :: "delegate_result list"
  dk_notes :: "desk_note list"

definition new_desk :: "thread_manager \<Rightarrow> desk" where
  "new_desk tm = \<lparr>dk_tm = tm, dk_calls = [], dk_acks = [], dk_chains = [], dk_dag = [], dk_records = [],
     dk_results = [], dk_notes = []\<rparr>"

definition desk_note_add :: "desk_note \<Rightarrow> desk \<Rightarrow> desk" where
  "desk_note_add n d = d\<lparr>dk_notes := dk_notes d @ [n]\<rparr>"

definition desk_result :: "delegate_result \<Rightarrow> desk \<Rightarrow> desk" where
  "desk_result r d = d\<lparr>dk_results := dk_results d @ [r]\<rparr>"

definition finish_call :: "string \<Rightarrow> delegate_result \<Rightarrow> desk \<Rightarrow> desk" where
  "finish_call tid r d = desk_result r (d\<lparr>dk_calls := gm_del tid (dk_calls d)\<rparr>)"

definition to_phase :: "string \<Rightarrow> delegate_phase \<Rightarrow> desk \<Rightarrow> desk" where
  "to_phase tid ph d = d\<lparr>dk_calls := gm_mod tid (\<lambda>c. c\<lparr>dl_phase := ph\<rparr>) (dk_calls d)\<rparr>"

text \<open>The threads a step of the manager started, with what their contexts carry.\<close>

definition started_threads :: "thread_manager \<Rightarrow> thread_manager \<Rightarrow> string list" where
  "started_threads s s' =
     filter (\<lambda>i. tm_status s i = Some StatusQueued \<and> tm_status s' i = Some StatusThinking) (gm_keys (tm_threads s))"

definition with_started :: "string \<Rightarrow> chain \<Rightarrow> chain \<Rightarrow> thread_manager \<Rightarrow> desk \<Rightarrow> desk" where
  "with_started sessionID ctx dagCtx tm d =
     (let ids = started_threads (dk_tm d) tm
      in d\<lparr>dk_tm := tm, dk_chains := fold (\<lambda>i. gm_put i ctx) ids (dk_chains d),
           dk_dag := fold (\<lambda>i. gm_put i (sessionID, dagCtx)) ids (dk_dag d)\<rparr>)"

section \<open>The tool\<close>

text \<open>What the context of a call carries. A call comes from a started thread, whose chain it has, or from a lead agent.\<close>

record call_ctx =
  cc_session :: string
  cc_caller :: string
  cc_thread :: "string option"
  cc_parent :: string

definition call_chain :: "call_ctx \<Rightarrow> desk \<Rightarrow> chain" where
  "call_chain cx d = (case cc_thread cx of None \<Rightarrow> None | Some i \<Rightarrow> (case gm_get (dk_chains d) i of None \<Rightarrow> None | Some c \<Rightarrow> c))"

definition create_params_of :: "string \<Rightarrow> string \<Rightarrow> string \<Rightarrow> string \<Rightarrow> string list \<Rightarrow> string \<Rightarrow> string \<Rightarrow> create_params" where
  "create_params_of sessionID agent task rationale hints spaceID parent =
     \<lparr>cp_SessionID = sessionID, cp_AgentID = agent, cp_Task = task, cp_Rationale = rationale, cp_ParentMessageID = parent,
      cp_DependsOnHints = hints, cp_DependsOn = [], cp_TokenBudget = 0, cp_Timeout = 0, cp_SpaceID = spaceID,
      cp_CreatedByUser = [], cp_CreatedReason = [], cp_Specialist = False, cp_SpecialistModel = []\<rparr>"

definition create_reason :: "create_error \<Rightarrow> string" where
  "create_reason e =
     (case e of
        ErrAgentNotSpaceMember a r \<Rightarrow> ''not_in_roster''
      | ErrAgentNotInCompany a \<Rightarrow> ''not_in_company''
      | _ \<Rightarrow> ''create_failed'')"

record delegate_params =
  dp_AgentName :: string
  dp_Task :: string
  dp_Rationale :: string
  dp_DependsOn :: "string list"
  dp_FileIntents :: "string list"

definition delegate_fail :: "delegate_error \<Rightarrow> desk \<Rightarrow> desk" where
  "delegate_fail e d = desk_result (DrError e) d"

text \<open>
  The function behind the tool up to the creation of the thread: \<open>known\<close> is the registry's \<open>ByName\<close>, \<open>loaded\<close> the space of
  the session or the error of its loading, \<open>ctx\<close> the chain with the hop to the agent.
\<close>

definition delegate_Fn ::
  "gotime \<Rightarrow> string \<Rightarrow> membership \<Rightarrow> (string \<Rightarrow> bool) \<Rightarrow> call_ctx \<Rightarrow> string + string \<Rightarrow> chain \<Rightarrow> delegate_params \<Rightarrow> desk \<Rightarrow> desk" where
  "delegate_Fn now nid env known cx loaded ctx p d =
     (let agent = dp_AgentName p
      in if cc_session cx = [] then delegate_fail DeNoSession d
         else if \<not> known agent then delegate_fail (DeUnknownAgent agent) d
         else if cc_caller cx \<noteq> [] \<and> equal_fold (cc_caller cx) agent then delegate_fail (DeSelf (cc_caller cx)) d
         else case loaded of
           Inl e \<Rightarrow> delegate_fail (DeSession e) d
         | Inr spaceID \<Rightarrow>
             (case Create now nid env
                 (create_params_of (cc_session cx) agent (dp_Task p) (dp_Rationale p) (dp_DependsOn p) spaceID (cc_parent cx)) (dk_tm d) of
                (Inl e, tm) \<Rightarrow>
                  delegate_fail (DeCreate e) (desk_note_add (NoteDelegationError (cc_session cx) agent (create_reason e)) (d\<lparr>dk_tm := tm\<rparr>))
              | (Inr t, tm) \<Rightarrow>
                  d\<lparr>dk_tm := tm,
                    dk_records := dk_records d @
                      (if cc_caller cx = [] then []
                       else [\<lparr>dr_SessionID = cc_session cx, dr_ThreadID = th_ID t, dr_FromAgent = cc_caller cx, dr_ToAgent = agent, dr_Task = dp_Task p\<rparr>]),
                    dk_calls := gm_put (th_ID t)
                      \<lparr>dl_session = cc_session cx, dl_agent = agent, dl_task = dp_Task p, dl_intents = dp_FileIntents p, dl_chain = ctx, dl_phase = DpResolve\<rparr>
                      (dk_calls d)\<rparr>))"

definition delegate_Execute ::
  "gotime \<Rightarrow> string \<Rightarrow> membership \<Rightarrow> (string \<Rightarrow> bool) \<Rightarrow> call_ctx \<Rightarrow> string + string \<Rightarrow> json_args \<Rightarrow> desk \<Rightarrow> desk" where
  "delegate_Execute now nid env known cx loaded args d =
     (let agent = arg_string args ''agent''; task = arg_string args ''task''
      in if agent = [] then delegate_fail DeNoAgent d
         else if task = [] then delegate_fail DeNoTask d
         else case PushDelegateHop (cc_caller cx) (call_chain cx d) agent of
           Inl e \<Rightarrow> delegate_fail (DeHop e) d
         | Inr ctx \<Rightarrow>
             delegate_Fn now nid env known cx loaded ctx
               \<lparr>dp_AgentName = agent, dp_Task = task, dp_Rationale = arg_string args ''rationale'',
                dp_DependsOn = filter (\<lambda>h. h \<noteq> []) (arg_strings args ''depends_on''),
                dp_FileIntents = filter (\<lambda>f. f \<noteq> []) (arg_strings args ''file_intents'')\<rparr> d)"

text \<open>
  The further sections of the call. The server's own context carries no chain, so the spawned
  thread gets that of the call.
\<close>

definition delegate_step :: "preview_mode \<Rightarrow> gotime \<Rightarrow> string \<Rightarrow> desk \<Rightarrow> desk" where
  "delegate_step mode now tid d =
     (case gm_get (dk_calls d) tid of
        None \<Rightarrow> d
      | Some c \<Rightarrow>
          (case dl_phase c of
             DpResolve \<Rightarrow>
               to_phase tid (if dl_intents c = [] then DpPreview else DpLease) (d\<lparr>dk_tm := snd (ResolveDependencies tid (dk_tm d))\<rparr>)
           | DpLease \<Rightarrow>
               (case AcquireLeases tid (dl_intents c) (tm_fileLocks (dk_tm d)) of
                  (Inl e, locks) \<Rightarrow> finish_call tid (DrError (DeLease e)) d
                | (Inr conflicts, locks) \<Rightarrow>
                    to_phase tid (if conflicts = [] then DpPreview else DpReject (DeConflicts conflicts))
                      (d\<lparr>dk_tm := (dk_tm d)\<lparr>tm_fileLocks := locks\<rparr>\<rparr>))
           | DpPreview \<Rightarrow>
               if preview_skipped mode (dl_task c) then to_phase tid DpSpawn d
               else if gm_get (dk_acks d) (dl_session c, tid) \<noteq> None then to_phase tid (DpReject (DeNotApproved (dl_agent c))) d
               else to_phase tid DpAwait (desk_note_add (NotePreview (dl_session c) tid)
                      (d\<lparr>dk_acks := gm_put (dl_session c, tid) None (dk_acks d)\<rparr>))
           | DpAwait \<Rightarrow> d
           | DpReject e \<Rightarrow> finish_call tid (DrError e) (d\<lparr>dk_tm := Cancel now tid (dk_tm d)\<rparr>)
           | DpSpawn \<Rightarrow>
               if IsReady tid (dk_tm d)
               then let ctx = CarryDelegationContext None (dl_chain c)
                    in finish_call tid (DrSpawned tid)
                         (with_started (dl_session c) ctx ctx (spawn_start (dl_session c) tid (dk_tm d)) d)
               else finish_call tid (DrQueued tid) d))"

text \<open>How the wait of \<open>approveCore\<close> ends; several may be ready at once, then any is taken.\<close>

datatype wait_end = WaitAnswered | WaitCtxDone | WaitTimeout

definition preview_decide :: "string \<Rightarrow> delegate_call \<Rightarrow> bool \<Rightarrow> desk \<Rightarrow> desk" where
  "preview_decide tid c approved d =
     to_phase tid (if approved then DpSpawn else DpReject (DeNotApproved (dl_agent c)))
       (d\<lparr>dk_acks := gm_del (dl_session c, tid) (dk_acks d)\<rparr>)"

definition preview_wake :: "string \<Rightarrow> wait_end \<Rightarrow> desk \<Rightarrow> desk" where
  "preview_wake tid cause d =
     (case gm_get (dk_calls d) tid of
        None \<Rightarrow> d
      | Some c \<Rightarrow>
          if dl_phase c \<noteq> DpAwait then d
          else (case cause of
             WaitAnswered \<Rightarrow> (case gm_get (dk_acks d) (dl_session c, tid) of Some (Some b) \<Rightarrow> preview_decide tid c b d | _ \<Rightarrow> d)
           | WaitCtxDone \<Rightarrow> preview_decide tid c False d
           | WaitTimeout \<Rightarrow> preview_decide tid c True (desk_note_add (NotePreviewTimeout (dl_session c) tid) d)))"

definition preview_Ack :: "string \<Rightarrow> string \<Rightarrow> bool \<Rightarrow> desk \<Rightarrow> bool \<times> desk" where
  "preview_Ack sessionID threadID approved d =
     (case gm_get (dk_acks d) (sessionID, threadID) of
        Some None \<Rightarrow> (True, d\<lparr>dk_acks := gm_put (sessionID, threadID) (Some approved) (dk_acks d)\<rparr>)
      | _ \<Rightarrow> (False, d))"

section \<open>Mentions\<close>

text \<open>One request; \<open>newID\<close> never returns an identifier in use, one that is stands for no call.\<close>

definition create_mention ::
  "gotime \<Rightarrow> membership \<Rightarrow> call_ctx \<Rightarrow> string \<Rightarrow> string \<Rightarrow> string \<times> delegation_request \<Rightarrow> desk \<Rightarrow> desk" where
  "create_mention now env cx spaceID callerAgent idreq d =
     (case idreq of (nid, req) \<Rightarrow>
        if tm_get (dk_tm d) nid \<noteq> None then d
        else if callerAgent \<noteq> [] \<and> equal_fold (rq_AgentName req) callerAgent then d
        else case PushDelegateHop (cc_caller cx) (call_chain cx d) (rq_AgentName req) of
          Inl e \<Rightarrow> desk_note_add (NoteDelegationError (cc_session cx) (rq_AgentName req) ''hop_cap'') d
        | Inr ctx \<Rightarrow>
            (case Create now nid env
                (create_params_of (cc_session cx) (rq_AgentName req) (rq_Task req) [] [] spaceID (cc_parent cx)) (dk_tm d) of
               (Inl e, tm) \<Rightarrow>
                 desk_note_add (NoteDelegationError (cc_session cx) (rq_AgentName req) ''create_failed'') (d\<lparr>dk_tm := tm\<rparr>)
             | (Inr t, tm) \<Rightarrow>
                 let d' = d\<lparr>dk_tm := tm\<rparr>
                 in if IsReady nid tm
                    then with_started (cc_session cx) ctx (call_chain cx d) (spawn_start (cc_session cx) nid tm) d'
                    else d'))"

definition CreateFromMentions ::
  "gotime \<Rightarrow> (nat \<Rightarrow> string) \<Rightarrow> membership \<Rightarrow> call_ctx \<Rightarrow> string \<Rightarrow> string \<Rightarrow> string list \<Rightarrow> string list \<Rightarrow> string \<Rightarrow> desk \<Rightarrow> desk" where
  "CreateFromMentions now fresh env cx spaceID callerAgent registryNames spaceMemberNames userMsg d =
     (case parseMentionsInternal userMsg (restrictMentionNames registryNames spaceMemberNames) of
        (requests, unknown) \<Rightarrow>
          fold (create_mention now env cx spaceID callerAgent) (zip (map fresh [0..<length requests]) requests)
            (if unknown = [] then d else desk_note_add (NoteDelegationWarning (cc_session cx) unknown) d))"

text \<open>The mention delegate of the server; its context carries no chain and no calling agent.\<close>

definition mentionDelegate ::
  "gotime \<Rightarrow> (nat \<Rightarrow> string) \<Rightarrow> membership \<Rightarrow> string \<Rightarrow> string \<Rightarrow> string \<Rightarrow> string list \<Rightarrow> string list \<Rightarrow> string \<Rightarrow> string \<Rightarrow> string \<Rightarrow> desk \<Rightarrow> desk" where
  "mentionDelegate now fresh env sessionID spaceID callerAgent registryNames spaceMemberNames parent assistantMsg originalUserMsg d =
     CreateFromMentions now fresh env
       \<lparr>cc_session = sessionID, cc_caller = [], cc_thread = None, cc_parent = parent\<rparr>
       spaceID callerAgent registryNames spaceMemberNames (DedupMentions originalUserMsg assistantMsg) d"

section \<open>Interleaving\<close>

text \<open>The \<open>dagFn\<close> of a thread, which its end runs.\<close>

definition run_dagFn :: "gotime \<Rightarrow> string \<Rightarrow> desk \<Rightarrow> desk" where
  "run_dagFn now tid d =
     (case gm_get (dk_dag d) tid of
        None \<Rightarrow> d
      | Some (sessionID, ctx) \<Rightarrow> with_started sessionID ctx ctx (EvaluateDAG now sessionID sessionID (dk_tm d)) d)"

datatype desk_event =
    EvDelegate gotime string membership "string \<Rightarrow> bool" call_ctx "string + string" json_args
  | EvStep gotime string
  | EvWake string wait_end
  | EvAck string string bool
  | EvMention gotime "nat \<Rightarrow> string" membership string string string "string list" "string list" string string string
  | EvDag gotime string
  | EvThread thread_op

fun desk_step :: "preview_mode \<Rightarrow> desk_event \<Rightarrow> desk \<Rightarrow> desk" where
  "desk_step mode (EvDelegate now nid env known cx loaded args) d =
     (if tm_get (dk_tm d) nid = None then delegate_Execute now nid env known cx loaded args d else d)"
| "desk_step mode (EvStep now tid) d = delegate_step mode now tid d"
| "desk_step mode (EvWake tid cause) d = preview_wake tid cause d"
| "desk_step mode (EvAck sid tid b) d = snd (preview_Ack sid tid b d)"
| "desk_step mode (EvMention now fresh env sid sp caller names roster parent reply original) d =
     mentionDelegate now fresh env sid sp caller names roster parent reply original d"
| "desk_step mode (EvDag now tid) d = run_dagFn now tid d"
| "desk_step mode (EvThread a) d = d\<lparr>dk_tm := run_op a (dk_tm d)\<rparr>"

section \<open>Chains stay short\<close>

text \<open>The default depth of a root chain is five, and nothing changes it.\<close>

fun chain_ok :: "chain \<Rightarrow> bool" where
  "chain_ok None = True"
| "chain_ok (Some dc) = (distinct (dc_Stack dc) \<and> length (dc_Stack dc) \<le> 5 \<and> dc_MaxDepth dc = 5)"

lemma PushDelegateHop_ok: "chain_ok ctx \<Longrightarrow> PushDelegateHop caller ctx agent = Inr ctx' \<Longrightarrow> chain_ok ctx'"
  by (cases ctx) (auto simp: PushDelegateHop_def WithDelegate_def NewDelegationContext_def Let_def split: if_splits)

definition vals_ok :: "('v \<Rightarrow> bool) \<Rightarrow> ('k, 'v) gomap \<Rightarrow> bool" where
  "vals_ok P m \<longleftrightarrow> list_all (\<lambda>(k, v). P v) m"

lemma vals_ok_simps [simp]:
  "vals_ok P []" "vals_ok P m \<Longrightarrow> P v \<Longrightarrow> vals_ok P (gm_put k v m)" "vals_ok P m \<Longrightarrow> vals_ok P (gm_del k m)"
  "vals_ok P m \<Longrightarrow> (\<And>v. P v \<Longrightarrow> P (f v)) \<Longrightarrow> vals_ok P (gm_mod k f m)"
proof -
  show "vals_ok P []" by (simp add: vals_ok_def)
  assume m: "vals_ok P m"
  show "P v \<Longrightarrow> vals_ok P (gm_put k v m)" using m by (induction m) (auto simp: vals_ok_def)
  show "vals_ok P (gm_del k m)" using m by (induction m) (auto simp: vals_ok_def)
  show "(\<And>v. P v \<Longrightarrow> P (f v)) \<Longrightarrow> vals_ok P (gm_mod k f m)" using m by (induction m) (auto simp: vals_ok_def gm_mod_def)
qed

lemma vals_ok_get: "vals_ok P m \<Longrightarrow> gm_get m k = Some v \<Longrightarrow> P v"
  by (auto simp: vals_ok_def list_all_iff dest!: gm_get_SomeD)

lemma vals_ok_fold: "vals_ok P m \<Longrightarrow> P v \<Longrightarrow> vals_ok P (fold (\<lambda>i. gm_put i v) is' m)"
  by (induction is' arbitrary: m) simp_all

definition chains_ok :: "desk \<Rightarrow> bool" where
  "chains_ok d \<longleftrightarrow> vals_ok chain_ok (dk_chains d) \<and> vals_ok (\<lambda>(s, c). chain_ok c) (dk_dag d) \<and> vals_ok (\<lambda>c. chain_ok (dl_chain c)) (dk_calls d)"

lemma chains_ok_irrelevant [simp]:
  "chains_ok (d\<lparr>dk_tm := tm\<rparr>) = chains_ok d" "chains_ok (d\<lparr>dk_acks := a\<rparr>) = chains_ok d"
  "chains_ok (d\<lparr>dk_tm := tm, dk_acks := a\<rparr>) = chains_ok d"
  "chains_ok (desk_note_add n d) = chains_ok d" "chains_ok (desk_result r d) = chains_ok d"
  by (simp_all add: chains_ok_def desk_note_add_def desk_result_def)

lemma chains_ok_phase [simp]: "chains_ok d \<Longrightarrow> chains_ok (to_phase tid ph d)" "chains_ok d \<Longrightarrow> chains_ok (finish_call tid r d)"
  by (simp_all add: chains_ok_def to_phase_def finish_call_def desk_result_def)

lemma chains_ok_started [simp]: "chains_ok d \<Longrightarrow> chain_ok a \<Longrightarrow> chain_ok b \<Longrightarrow> chains_ok (with_started sid a b tm d)"
  by (simp add: chains_ok_def with_started_def Let_def vals_ok_fold)

lemma call_chain_ok: "chains_ok d \<Longrightarrow> chain_ok (call_chain cx d)"
  by (auto simp: call_chain_def chains_ok_def dest: vals_ok_get split: option.splits)

lemma chains_ok_Execute: "chains_ok d \<Longrightarrow> chains_ok (delegate_Execute now nid env known cx loaded args d)"
  using call_chain_ok[of d cx]
  by (auto simp: delegate_Execute_def delegate_Fn_def delegate_fail_def Let_def chains_ok_def desk_result_def desk_note_add_def split: sum.splits prod.splits
      dest: PushDelegateHop_ok)

lemma chains_ok_mention: "chains_ok d \<Longrightarrow> chains_ok (create_mention now env cx sp caller ir d)"
  using call_chain_ok[of d cx]
  by (auto simp: create_mention_def Let_def split: sum.splits prod.splits intro!: chains_ok_started intro: PushDelegateHop_ok)

lemma chains_ok_mentions: "chains_ok d \<Longrightarrow> chains_ok (CreateFromMentions now fresh env cx sp caller names roster msg d)"
proof -
  have "chains_ok d \<Longrightarrow> chains_ok (fold (create_mention now env cx sp caller) rs d)" for rs d
    by (induction rs arbitrary: d) (simp_all add: chains_ok_mention)
  then show "chains_ok d \<Longrightarrow> ?thesis" by (simp add: CreateFromMentions_def split: prod.splits)
qed

lemma chains_ok_delegate_step: "chains_ok d \<Longrightarrow> chains_ok (delegate_step mode now tid d)"
proof (cases "gm_get (dk_calls d) tid")
  case (Some c)
  assume d: "chains_ok d"
  then have "chain_ok (CarryDelegationContext None (dl_chain c))"
    using Some by (cases "dl_chain c") (auto simp: chains_ok_def CarryDelegationContext_def dest: vals_ok_get)
  then show ?thesis using d by (cases "dl_phase c") (simp_all add: delegate_step_def Some Let_def split: sum.split prod.split)
qed (simp add: delegate_step_def)

lemma chains_ok_step: "chains_ok d \<Longrightarrow> chains_ok (desk_step mode ev d)"
proof (cases ev)
  case (EvDag now tid)
  assume d: "chains_ok d"
  then have "chain_ok c" if "gm_get (dk_dag d) tid = Some (s, c)" for s c
    using vals_ok_get[of _ "dk_dag d" tid "(s, c)"] that unfolding chains_ok_def by fastforce
  then show ?thesis using d by (auto simp: EvDag run_dagFn_def split: option.split)
qed (simp_all add: chains_ok_Execute chains_ok_delegate_step chains_ok_mentions mentionDelegate_def preview_wake_def
      preview_decide_def preview_Ack_def split: option.split wait_end.split)

text \<open>In every run of the desk a started thread has a chain of at most five agents, no agent twice.\<close>

lemma hop_chains_bounded:
  "gm_get (dk_chains (fold (desk_step mode) events (new_desk tm))) tid = Some (Some dc) \<Longrightarrow> distinct (dc_Stack dc) \<and> length (dc_Stack dc) \<le> 5"
proof -
  have "chains_ok d \<Longrightarrow> chains_ok (fold (desk_step mode) events d)" for d
    by (induction events arbitrary: d) (simp_all add: chains_ok_step)
  moreover have "chains_ok (new_desk tm)" by (simp add: chains_ok_def new_desk_def)
  ultimately show "?thesis" if "gm_get (dk_chains (fold (desk_step mode) events (new_desk tm))) tid = Some (Some dc)"
    using that vals_ok_get[of chain_ok _ tid "Some dc"] unfolding chains_ok_def by fastforce
qed

section \<open>What a mention can start\<close>

lemma specialist_unchanged [simp]:
  "specialistCompanyLocked a (snd (Create now nid env p s)) = specialistCompanyLocked a s"
  "specialistCompanyLocked a (spawn_start sid i s) = specialistCompanyLocked a s"
proof -
  have "specialistCompanyLocked a (emit e s) = specialistCompanyLocked a s" "specialistCompanyLocked a (s\<lparr>tm_threads := ts\<rparr>) = specialistCompanyLocked a s"
    "specialistCompanyLocked a (push_audit x s) = specialistCompanyLocked a s" "specialistCompanyLocked a (tm_mod i f s) = specialistCompanyLocked a s"
    "specialistCompanyLocked a (handleSpecialistThreadStatusChange i StatusThinking s) = specialistCompanyLocked a s" for e s ts x i f
    by (simp_all add: specialistCompanyLocked_def emit_def push_audit_def tm_mod_def handleSpecialistThreadStatusChange_def)
  note same = this
  show "specialistCompanyLocked a (snd (Create now nid env p s)) = specialistCompanyLocked a s"
    by (simp add: Create_def Let_def appendAudit_def trySnapshot_def same split: option.split)
  show "specialistCompanyLocked a (spawn_start sid i s) = specialistCompanyLocked a s"
    by (simp add: spawn_start_def Start_def fireStatusChange_def same split: option.split prod.split bool.split)
qed

lemma membership_check_cong: "(\<And>a. specialistCompanyLocked a s = specialistCompanyLocked a s') \<Longrightarrow> membership_check env p s = membership_check env p s'"
  by (simp add: membership_check_def)

definition mention_params :: "call_ctx \<Rightarrow> string \<Rightarrow> delegation_request \<Rightarrow> create_params" where
  "mention_params cx spaceID req = create_params_of (cc_session cx) (rq_AgentName req) (rq_Task req) [] [] spaceID (cc_parent cx)"

text \<open>A thread that was made for a request.\<close>

definition made_for :: "membership \<Rightarrow> call_ctx \<Rightarrow> string \<Rightarrow> string \<Rightarrow> thread_manager \<Rightarrow> delegation_request \<Rightarrow> thread \<Rightarrow> bool" where
  "made_for env cx spaceID caller s req t \<longleftrightarrow>
     th_AgentID t = rq_AgentName req \<and> th_SessionID t = cc_session cx \<and> \<not> (caller \<noteq> [] \<and> equal_fold (rq_AgentName req) caller) \<and>
     membership_check env (mention_params cx spaceID req) s = None"

lemma mention_params_sel [simp]:
  "cp_AgentID (mention_params cx sp req) = rq_AgentName req" "cp_SessionID (mention_params cx sp req) = cc_session cx"
  by (simp_all add: mention_params_def create_params_of_def)

lemma create_mention_cases:
  obtains (unchanged) "dk_tm (create_mention now env cx spaceID caller (nid, req) d) = dk_tm d"
  | (created) t tm where "tm_get (dk_tm d) nid = None" "\<not> (caller \<noteq> [] \<and> equal_fold (rq_AgentName req) caller)"
      "Create now nid env (mention_params cx spaceID req) (dk_tm d) = (Inr t, tm)"
      "dk_tm (create_mention now env cx spaceID caller (nid, req) d) \<in> {tm, spawn_start (cc_session cx) nid tm}"
proof -
  let ?C = "Create now nid env (mention_params cx spaceID req) (dk_tm d)"
  have "dk_tm (create_mention now env cx spaceID caller (nid, req) d) = dk_tm d \<or>
      tm_get (dk_tm d) nid = None \<and> \<not> (caller \<noteq> [] \<and> equal_fold (rq_AgentName req) caller) \<and>
      (\<exists>t tm. ?C = (Inr t, tm) \<and> dk_tm (create_mention now env cx spaceID caller (nid, req) d) \<in> {tm, spawn_start (cc_session cx) nid tm})"
  proof (cases "tm_get (dk_tm d) nid = None \<and> \<not> (caller \<noteq> [] \<and> equal_fold (rq_AgentName req) caller)")
    case True
    then show ?thesis using Create_error_unchanged[of "dk_tm d" nid now env "mention_params cx spaceID req"]
      by (cases "PushDelegateHop (cc_caller cx) (call_chain cx d) (rq_AgentName req)"; cases ?C; cases "fst ?C")
         (auto simp: create_mention_def Let_def desk_note_add_def with_started_def simp flip: mention_params_def)
  qed (auto simp: create_mention_def)
  then show thesis using unchanged created by blast
qed

lemma create_mention_effect:
  "specialistCompanyLocked a (dk_tm (create_mention now env cx spaceID caller (nid, req) d)) = specialistCompanyLocked a (dk_tm d)"
  "tm_get (dk_tm d) i = Some t \<Longrightarrow> tm_get (dk_tm (create_mention now env cx spaceID caller (nid, req) d)) i = Some t"
  "tm_get (dk_tm (create_mention now env cx spaceID caller (nid, req) d)) i = Some t \<Longrightarrow> tm_get (dk_tm d) i = None \<Longrightarrow>
     i = nid \<and> made_for env cx spaceID caller (dk_tm d) req t"
proof (atomize (full), cases rule: create_mention_cases[of now env cx spaceID caller nid req d])
  case unchanged
  then show "specialistCompanyLocked a (dk_tm (create_mention now env cx spaceID caller (nid, req) d)) = specialistCompanyLocked a (dk_tm d) \<and>
     (tm_get (dk_tm d) i = Some t \<longrightarrow> tm_get (dk_tm (create_mention now env cx spaceID caller (nid, req) d)) i = Some t) \<and>
     (tm_get (dk_tm (create_mention now env cx spaceID caller (nid, req) d)) i = Some t \<longrightarrow> tm_get (dk_tm d) i = None \<longrightarrow>
     i = nid \<and> made_for env cx spaceID caller (dk_tm d) req t)" by simp
next
  case (created u tm)
  let ?p = "mention_params cx spaceID req"
  have tm: "tm = snd (Create now nid env ?p (dk_tm d))" and ok: "fst (Create now nid env ?p (dk_tm d)) = Inr u" using created(3) by simp_all
  have threads: "tm_threads tm = gm_put nid (thread_of_params now nid ?p) (tm_threads (dk_tm d))"
    using Create_threads[OF created(1), of now env ?p] ok tm by simp
  have got: "tm_get x i = Some t \<longrightarrow> (if i = nid then th_AgentID t = rq_AgentName req \<and> th_SessionID t = cc_session cx else tm_get (dk_tm d) i = Some t)"
    "i \<noteq> nid \<Longrightarrow> tm_get x i = tm_get (dk_tm d) i" "specialistCompanyLocked a x = specialistCompanyLocked a (dk_tm d)"
    if "x \<in> {tm, spawn_start (cc_session cx) nid tm}" for x
    using that threads tm by (auto simp: spawn_start_threads Start_get split: if_splits)
  show "specialistCompanyLocked a (dk_tm (create_mention now env cx spaceID caller (nid, req) d)) = specialistCompanyLocked a (dk_tm d) \<and>
     (tm_get (dk_tm d) i = Some t \<longrightarrow> tm_get (dk_tm (create_mention now env cx spaceID caller (nid, req) d)) i = Some t) \<and>
     (tm_get (dk_tm (create_mention now env cx spaceID caller (nid, req) d)) i = Some t \<longrightarrow> tm_get (dk_tm d) i = None \<longrightarrow>
     i = nid \<and> made_for env cx spaceID caller (dk_tm d) req t)"
    using got[OF created(4)] created(1,2) Create_ok_checks(2)[OF ok] by (auto simp: made_for_def split: if_splits)
qed

definition new_thread :: "desk \<Rightarrow> desk \<Rightarrow> string \<Rightarrow> thread \<Rightarrow> bool" where
  "new_thread d d' i t \<longleftrightarrow> tm_get (dk_tm d') i = Some t \<and> tm_get (dk_tm d) i = None"

lemma made_for_cong:
  "(\<And>a. specialistCompanyLocked a s = specialistCompanyLocked a s') \<Longrightarrow> made_for env cx spaceID caller s req t = made_for env cx spaceID caller s' req t"
  by (simp add: made_for_def membership_check_cong[of s s'])

lemma create_mentions_effect:
  "(\<forall>i t. tm_get (dk_tm d) i = Some t \<longrightarrow> tm_get (dk_tm (fold (create_mention now env cx spaceID caller) rs d)) i = Some t) \<and>
     (\<forall>i t. new_thread d (fold (create_mention now env cx spaceID caller) rs d) i t \<longrightarrow> (\<exists>req \<in> snd ` set rs. made_for env cx spaceID caller (dk_tm d) req t)) \<and>
     (distinct (map (rq_AgentName \<circ> snd) rs) \<longrightarrow>
        (\<forall>i j t u. new_thread d (fold (create_mention now env cx spaceID caller) rs d) i t \<and> new_thread d (fold (create_mention now env cx spaceID caller) rs d) j u \<and> th_AgentID t = th_AgentID u \<longrightarrow> i = j))"
proof (induction rs arbitrary: d)
  case Nil
  then show ?case by (auto simp: new_thread_def)
next
  case (Cons r rs)
  obtain nid req where r: "r = (nid, req)" by (cases r)
  let ?d1 = "create_mention now env cx spaceID caller (nid, req) d"
  let ?d2 = "fold (create_mention now env cx spaceID caller) rs ?d1"
  note one = create_mention_effect[where now = now and env = env and cx = cx and spaceID = spaceID and caller = caller and nid = nid and req = req and d = d]
  have IH: "tm_get (dk_tm ?d1) i = Some t \<Longrightarrow> tm_get (dk_tm ?d2) i = Some t"
    "new_thread ?d1 ?d2 i t \<Longrightarrow> \<exists>q \<in> snd ` set rs. made_for env cx spaceID caller (dk_tm ?d1) q t"
    "distinct (map (rq_AgentName \<circ> snd) rs) \<Longrightarrow> new_thread ?d1 ?d2 i t \<Longrightarrow> new_thread ?d1 ?d2 j u \<Longrightarrow> th_AgentID t = th_AgentID u \<Longrightarrow> i = j"
    for i j t u using Cons.IH[of ?d1] by blast+
  have keep: "tm_get (dk_tm d) i = Some t \<Longrightarrow> tm_get (dk_tm ?d2) i = Some t" for i t using IH(1) one(2) by blast
  have mf: "made_for env cx spaceID caller (dk_tm ?d1) q t = made_for env cx spaceID caller (dk_tm d) q t" for q t
    by (rule made_for_cong) (rule one(1))
  have new_or: "i = nid \<and> made_for env cx spaceID caller (dk_tm d) req t \<or>
      new_thread ?d1 ?d2 i t \<and> (\<exists>q \<in> snd ` set rs. made_for env cx spaceID caller (dk_tm d) q t)" if n: "new_thread d ?d2 i t" for i t
  proof (cases "tm_get (dk_tm ?d1) i")
    case None
    then have n1: "new_thread ?d1 ?d2 i t" using n by (simp add: new_thread_def)
    then show ?thesis using IH(2)[OF n1] unfolding mf by blast
  next
    case (Some t')
    have "t' = t" using IH(1)[OF Some] n by (simp add: new_thread_def)
    then show ?thesis using one(3)[OF Some] n by (simp add: new_thread_def)
  qed
  have agents: "made_for env cx spaceID caller (dk_tm d) q v \<Longrightarrow> th_AgentID v = rq_AgentName q" for q v by (simp add: made_for_def)
  have uniq: "i = j" if dist: "distinct (map (rq_AgentName \<circ> snd) (r # rs))"
    and ij: "new_thread d ?d2 i t" "new_thread d ?d2 j u" "th_AgentID t = th_AgentID u" for i j t u
  proof -
    have other: "rq_AgentName q \<noteq> rq_AgentName req" if "q \<in> snd ` set rs" for q using dist r that by force
    have rest: "distinct (map (rq_AgentName \<circ> snd) rs)" using dist by simp
    from new_or[OF ij(1)] new_or[OF ij(2)] show ?thesis
    proof (elim disjE conjE bexE)
      assume "new_thread ?d1 ?d2 i t" "new_thread ?d1 ?d2 j u"
      then show ?thesis by (rule IH(3)[OF rest _ _ ij(3)])
    qed (use agents other ij(3) in \<open>metis+\<close>)
  qed
  have fold: "fold (create_mention now env cx spaceID caller) (r # rs) d = ?d2" by (simp add: r)
  have "\<exists>q \<in> snd ` set (r # rs). made_for env cx spaceID caller (dk_tm d) q t" if "new_thread d ?d2 i t" for i t
    using new_or[OF that] by (auto simp: r)
  then show ?case unfolding fold using keep uniq by blast
qed

lemma restrictMentionNames_mem:
  "a \<in> set (restrictMentionNames names roster) \<Longrightarrow>
     a \<in> set names \<and> (list_ex (\<lambda>m. m \<noteq> []) roster \<longrightarrow> list_ex (\<lambda>m. equal_fold m a) roster)"
  by (cases "filter (\<lambda>n. n \<noteq> []) roster = []")
     (auto simp: restrictMentionNames_def Let_def equal_fold_def list_ex_iff filter_empty_conv split: if_splits)

text \<open>
  C39. Mentions in a reply start a thread only for an agent of the registry that the reply mentions, that
  is named by the roster of the space where there is one, that did not write the reply itself and that
  passes the walls of the space and its company; at most ten, no agent twice, and no other thread changes.
\<close>

theorem mentions_start_only_members:
  assumes "d' = mentionDelegate now fresh env sid spaceID caller names roster parent reply original d"
  shows "(\<forall>i t. tm_get (dk_tm d) i = Some t \<longrightarrow> tm_get (dk_tm d') i = Some t) \<and>
    (\<forall>i t. new_thread d d' i t \<longrightarrow>
       th_AgentID t \<in> set names \<and> (list_ex (\<lambda>m. m \<noteq> []) roster \<longrightarrow> list_ex (\<lambda>m. equal_fold m (th_AgentID t)) roster) \<and>
       (\<exists>(p, n) \<in> set (FindAllMentions (DedupMentions original reply)). equal_fold n (th_AgentID t)) \<and>
       \<not> (caller \<noteq> [] \<and> equal_fold (th_AgentID t) caller) \<and>
       membership_check env (create_params_of sid (th_AgentID t) (DedupMentions original reply) [] [] spaceID parent) (dk_tm d) = None) \<and>
    card {i. \<exists>t. new_thread d d' i t} \<le> 10 \<and>
    (\<forall>i j t u. new_thread d d' i t \<and> new_thread d d' j u \<and> th_AgentID t = th_AgentID u \<longrightarrow> i = j)"
proof -
  let ?msg = "DedupMentions original reply" and ?cx = "\<lparr>cc_session = sid, cc_caller = [], cc_thread = None, cc_parent = parent\<rparr>"
  obtain reqs unk where parse: "parseMentionsInternal ?msg (restrictMentionNames names roster) = (reqs, unk)" by fastforce
  note sound = parseMentions_sound[OF parse]
  define d0 where "d0 = (if unk = [] then d else desk_note_add (NoteDelegationWarning sid unk) d)"
  have d0: "dk_tm d0 = dk_tm d" by (simp add: d0_def desk_note_add_def)
  let ?rs = "zip (map fresh [0..<length reqs]) reqs"
  have d': "d' = fold (create_mention now env ?cx spaceID caller) ?rs d0"
    using assms parse by (simp add: mentionDelegate_def CreateFromMentions_def d0_def)
  have snds: "map snd ?rs = reqs" by simp
  then have dist: "distinct (map (rq_AgentName \<circ> snd) ?rs)" using sound(1) by (simp flip: map_map)
  have new: "new_thread d0 d' = new_thread d d'" by (intro ext) (simp add: new_thread_def d0)
  note eff = create_mentions_effect[of d0 now env ?cx spaceID caller ?rs, folded d', unfolded new d0]
  have keep: "\<forall>i t. tm_get (dk_tm d) i = Some t \<longrightarrow> tm_get (dk_tm d') i = Some t" using eff by blast
  have uniq: "\<forall>i j t u. new_thread d d' i t \<and> new_thread d d' j u \<and> th_AgentID t = th_AgentID u \<longrightarrow> i = j" using eff dist by blast
  have made: "\<exists>req \<in> set reqs. made_for env ?cx spaceID caller (dk_tm d) req t" if "new_thread d d' i t" for i t
    using eff that set_map[of snd ?rs] unfolding snds by metis
  have each: "th_AgentID t \<in> set names \<and> (list_ex (\<lambda>m. m \<noteq> []) roster \<longrightarrow> list_ex (\<lambda>m. equal_fold m (th_AgentID t)) roster) \<and>
       (\<exists>(p, n) \<in> set (FindAllMentions ?msg). equal_fold n (th_AgentID t)) \<and> \<not> (caller \<noteq> [] \<and> equal_fold (th_AgentID t) caller) \<and>
       membership_check env (create_params_of sid (th_AgentID t) ?msg [] [] spaceID parent) (dk_tm d) = None" if n: "new_thread d d' i t" for i t
  proof -
    obtain req where "req \<in> set reqs" "made_for env ?cx spaceID caller (dk_tm d) req t" using made[OF n] by blast
    then show ?thesis using sound(3)[of req] restrictMentionNames_mem[of "rq_AgentName req" names roster]
      by (simp add: made_for_def mention_params_def)
  qed
  let ?agent = "\<lambda>i. th_AgentID (the (tm_get (dk_tm d') i))"
  have got: "new_thread d d' i t \<Longrightarrow> the (tm_get (dk_tm d') i) = t" for i t by (simp add: new_thread_def)
  have inj: "inj_on ?agent {i. \<exists>t. new_thread d d' i t}"
  proof (rule inj_onI)
    fix i j assume "i \<in> {i. \<exists>t. new_thread d d' i t}" "j \<in> {i. \<exists>t. new_thread d d' i t}" and agents: "?agent i = ?agent j"
    then obtain t u where tu: "new_thread d d' i t" "new_thread d d' j u" by blast
    then have "th_AgentID t = th_AgentID u" using agents by (simp add: got)
    then show "i = j" using uniq tu by blast
  qed
  have img: "?agent ` {i. \<exists>t. new_thread d d' i t} \<subseteq> set (map rq_AgentName reqs)"
    using made got by (fastforce simp: made_for_def)
  have "card {i. \<exists>t. new_thread d d' i t} \<le> card (set (map rq_AgentName reqs))"
    by (rule card_inj_on_le[OF inj img]) simp
  also have "\<dots> \<le> 10" using sound(2) card_length[of "map rq_AgentName reqs"] by (simp add: maxMentionsPerMessage_def)
  finally show ?thesis using keep each uniq by blast
qed

definition demo_desk :: desk where
  "demo_desk = new_desk (New\<lparr>tm_threads := [(''a'', (thread_literal ''a'' ''s'' ''Ann'' ''x'' StatusDone))]\<rparr>)"

definition open_space :: membership where
  "open_space = \<lparr>mb_SpaceMembers = None, mb_SpaceIsDeskDM = None, mb_DeskPeerNames = Inr [], mb_SpaceCompanyID = None,
     mb_AgentInCompany = (\<lambda>_ _. Inr True)\<rparr>"

text \<open>Ann's reply mentions herself, Bob of the roster and Cid, who is not in the space: one thread, for Bob.\<close>

theorem mentions_start_only_members_witness:
  "\<exists>d'. d' = mentionDelegate 5 show_nat open_space ''s'' [] ''Ann'' [''Ann'', ''Bob'', ''Cid''] [''ann'', ''bob''] [] ''@Ann asks @Cid and @bob, please'' [] demo_desk
     \<and> map (\<lambda>(i, t). (i, th_AgentID t, th_Status t)) (tm_threads (dk_tm d')) = [(''a'', ''Ann'', StatusDone), (''1'', ''Bob'', StatusThinking)]
     \<and> card {i. \<exists>t. new_thread demo_desk d' i t} \<le> 10"
proof -
  let ?d = "mentionDelegate 5 show_nat open_space ''s'' [] ''Ann'' [''Ann'', ''Bob'', ''Cid''] [''ann'', ''bob''] [] ''@Ann asks @Cid and @bob, please'' [] demo_desk"
  have "map (\<lambda>(i, t). (i, th_AgentID t, th_Status t)) (tm_threads (dk_tm ?d)) = [(''a'', ''Ann'', StatusDone), (''1'', ''Bob'', StatusThinking)]"
    by code_simp
  moreover have "card {i. \<exists>t. new_thread demo_desk ?d i t} \<le> 10"
    by (rule mentions_start_only_members[OF refl, THEN conjunct2, THEN conjunct2, THEN conjunct1])
  ultimately show ?thesis by (intro exI[of _ ?d] conjI refl)
qed

section \<open>Waiting for a preview\<close>

lemma ResolveDependencies_status: "tm_status (snd (ResolveDependencies j s)) i = tm_status s i"
  by (auto simp: ResolveDependencies_def tm_status_def Let_def split: option.split)

lemma tm_status_cong: "tm_get s i = tm_get s' i \<Longrightarrow> tm_status s i = tm_status s' i"
  by (simp add: tm_status_def)

lemma desk_tm_unchanged [simp]:
  "dk_tm (to_phase tid ph d) = dk_tm d" "dk_tm (finish_call tid r d) = dk_tm d" "dk_tm (desk_note_add n d) = dk_tm d"
  "dk_tm (desk_result r d) = dk_tm d" "dk_tm (with_started sid a b tm d) = tm" "dk_tm (preview_decide tid c ok d) = dk_tm d"
  by (simp_all add: to_phase_def finish_call_def desk_note_add_def desk_result_def with_started_def preview_decide_def Let_def)

lemma other_step_keeps:
  assumes "j \<noteq> i \<or> (\<exists>c. gm_get (dk_calls d) i = Some c \<and> dl_phase c = DpAwait)"
  shows "tm_status (dk_tm (delegate_step mode now j d)) i = tm_status (dk_tm d) i"
proof (cases "gm_get (dk_calls d) j")
  case (Some c)
  show ?thesis
  proof (cases "dl_phase c = DpAwait")
    case False
    then have "i \<noteq> j" using assms Some by auto
    then have "tm_status (Cancel now j (dk_tm d)) i = tm_status (dk_tm d) i"
      "tm_status (spawn_start (dl_session c) j (dk_tm d)) i = tm_status (dk_tm d) i"
      by (simp_all add: tm_status_def Cancel_get spawn_start_threads Start_get)
    moreover have "tm_status ((dk_tm d)\<lparr>tm_fileLocks := l\<rparr>) i = tm_status (dk_tm d) i" for l by (simp add: tm_status_def)
    ultimately show ?thesis using False
      by (cases "dl_phase c") (auto simp: delegate_step_def Some ResolveDependencies_status Let_def split: sum.split prod.split)
  qed (simp add: delegate_step_def Some)
qed (simp add: delegate_step_def)

lemma delegate_Execute_keeps:
  assumes "tm_get (dk_tm d) nid = None" "i \<noteq> nid"
  shows "tm_status (dk_tm (delegate_Execute now nid env known cx loaded args d)) i = tm_status (dk_tm d) i"
proof -
  have "tm_status (snd (Create now nid env p (dk_tm d))) i = tm_status (dk_tm d) i" for p
    using Create_threads[OF assms(1), of now env p] assms(2) by (simp add: tm_status_def)
  then have "Create now nid env p (dk_tm d) = (r, tm) \<Longrightarrow> tm_status tm i = tm_status (dk_tm d) i" for p r tm by (metis snd_conv)
  then show ?thesis by (auto simp: delegate_Execute_def delegate_Fn_def delegate_fail_def Let_def split: sum.split prod.split)
qed

text \<open>The events that run the scheduler or act on the manager directly.\<close>

fun manager_event :: "desk_event \<Rightarrow> bool" where
  "manager_event (EvDag now i) = True"
| "manager_event (EvThread a) = True"
| "manager_event _ = False"

lemma wait_keeps_queued:
  assumes "gm_get (dk_calls d) tid = Some c" "dl_phase c = DpAwait" "tm_get (dk_tm d) tid = Some t" "\<not> manager_event ev"
  shows "tm_status (dk_tm (desk_step mode ev d)) tid = Some (th_Status t)"
proof -
  have old: "tm_status (dk_tm d) tid = Some (th_Status t)" using assms(3) by (simp add: tm_status_def)
  show ?thesis
  proof (cases ev)
    case (EvDelegate now nid env known cx loaded args)
    then show ?thesis using delegate_Execute_keeps[of d nid tid] assms(3) old by (cases "tid = nid") auto
  next
    case (EvStep now j)
    then show ?thesis using other_step_keeps[of j tid d mode now] assms(1,2) old by auto
  next
    case (EvMention now fresh env sid sp caller names roster parent reply original)
    have keep: "tm_get (dk_tm (fold (create_mention now env cx sp caller) rs d0)) tid = Some t" if "tm_get (dk_tm d0) tid = Some t" for cx rs d0
      using create_mentions_effect[of d0 now env cx sp caller rs] that by blast
    show ?thesis unfolding EvMention desk_step.simps mentionDelegate_def CreateFromMentions_def
      by (auto simp: tm_status_def keep assms(3) split: prod.split)
  next
    case (EvWake j cause)
    then show ?thesis using old by (auto simp: preview_wake_def split: option.split wait_end.split bool.split)
  next
    case (EvAck sid j b)
    then show ?thesis using old by (auto simp: preview_Ack_def split: option.split)
  qed (use assms(4) in auto)
qed


text \<open>Ann was approved and runs; the delegation to Bob waits.\<close>

definition lead_ctx :: call_ctx where
  "lead_ctx = \<lparr>cc_session = ''s'', cc_caller = ''Lead'', cc_thread = None, cc_parent = []\<rparr>"

definition delegate_to :: "string \<Rightarrow> string \<Rightarrow> desk_event" where
  "delegate_to tid agent = EvDelegate 5 tid open_space (\<lambda>a. True) lead_ctx (Inr []) [(''agent'', JStr agent), (''task'', JStr ''go'')]"

definition demo_waiting :: desk where
  "demo_waiting = fold (desk_step PreviewModeManual)
     [delegate_to ''a'' ''Ann'', EvStep 6 ''a'', EvStep 6 ''a'', EvAck ''s'' ''a'' True, EvWake ''a'' WaitAnswered, EvStep 7 ''a'',
      delegate_to ''b'' ''Bob'', EvStep 8 ''b'', EvStep 8 ''b''] (new_desk New)"


end
