(* ===== verification/Spec2Isabelle.thy ===== *)
theory Spec2Isabelle
  imports ThreadRun CircuitBreaker Outbox WorkflowNesting DeliveryQueue AgentLoop FileTools FileLock SwarmRun SchedulerRuns SpaceWakes SessionStore RadarDrift UserHooks CheckpointRevert PermissionPrompts AgentRegistry MemoryReplication Delegation
begin

text \<open>
  A verification development for huginn (\<^verbatim>\<open>github.com/scrypster/huginn\<close>), a Go
  server and terminal client that runs teams of language-model agents. Of its many packages the
  development models the ones that carry the program's own logic.

  \<^bold>\<open>Delegated threads\<close> (\<^verbatim>\<open>internal/threadmgr\<close>). A lead agent delegates tasks to
  other agents, each as a thread of a session.
  \<^item> \<open>ThreadBus\<close>: the bounded per-session message bus and the summary cache.
  \<^item> \<open>ThreadApproval\<close>: proposals, approval tokens, the control tools of a thread, the risk
    classification of tool names.
  \<^item> \<open>ThreadState\<close>: the records of threads and of the manager, audit log, specialists, leases.
  \<^item> \<open>ThreadGraph\<close>: cycle detection and reachability over the dependencies, readiness, hints.
  \<^item> \<open>ThreadManager\<close>: creation with its gates and every transition of a thread.
  \<^item> \<open>ThreadSession\<close>: input, guidance, waiting, cleanup, pruning, watchdog, scheduler,
    persistence; the lifecycle of threads under all of the manager's operations.
  \<^item> \<open>ThreadProps\<close>, \<open>ThreadSchedule\<close>: the properties of these.
  \<^item> \<open>ThreadRun\<close>: the loop of a thread (\<open>runOnce\<close>, \<^verbatim>\<open>spawn.go\<close>), turn by turn.
  \<^item> \<open>Mentions\<close>, \<open>Delegation\<close>: names after an at sign, the tool \<open>delegate_to_agent\<close>, chains of
    hops, previews, and the scheduler that runs between their steps (\<^verbatim>\<open>mentions.go\<close>,
    \<^verbatim>\<open>delegate.go\<close>, \<^verbatim>\<open>preview.go\<close>, \<^verbatim>\<open>main.go\<close>).

  \<^bold>\<open>Agents at work\<close> (\<^verbatim>\<open>internal/agent\<close>, \<^verbatim>\<open>internal/tools\<close>,
  \<^verbatim>\<open>internal/permissions\<close>, \<^verbatim>\<open>internal/agents\<close>, \<^verbatim>\<open>internal/mcp\<close>).
  \<^item> \<open>LlmTypes\<close>, \<open>ToolRegistry\<close>, \<open>PermissionGate\<close>: messages, the registry of tools, and the gate with its
    forks, allow-list, prompts and relay channels.
  \<^item> \<open>AgentTools\<close>, \<open>AgentLoop\<close>: one tool call, a batch of calls, and the turns of \<open>RunLoop\<close>; the
    first property says when a tool runs.
  \<^item> \<open>McpManager\<close>, \<open>Toolbelt\<close>: the servers that provide tools, and what one run may use of all tools.
  \<^item> \<open>FileDiff\<close>, \<open>FileSystem\<close>, \<open>FileTools\<close>, \<open>FileLock\<close>: diffs, the file tools in their sandbox, locks.
  \<^item> \<open>UserHooks\<close>, \<open>GlobMatch\<close>: the commands a user hangs before and after tool calls.
  \<^item> \<open>MemoryReplication\<close>: copies of memories for the other agents of a channel.
  \<^item> \<open>AgentStore\<close>, \<open>AgentRegistry\<close>: the definitions on disk with the checked way to change them, and the
    agents of a running server with specialists, reloads and the writers that go past the checks.
  \<^item> \<open>Checkpoints\<close>, \<open>CheckpointRevert\<close>: snapshots around a run and their undoing.

  \<^bold>\<open>Workflows\<close> (\<^verbatim>\<open>internal/scheduler\<close>). \<open>WorkflowTypes\<close>, \<open>WorkflowGraph\<close>,
  \<open>WorkflowTemplate\<close>, \<open>WorkflowDelivery\<close>, \<open>WorkflowRunner\<close>, \<open>WorkflowProps\<close> and \<open>WorkflowNesting\<close> hold a run from
  its templates to its deliveries, and runs inside runs; \<open>DeliveryQueue\<close> the durable retries;
  \<open>SchedulerRuns\<close> what the cron scheduler starts, skips and cancels.

  \<^bold>\<open>Server, relay, storage.\<close>
  \<^item> \<open>CircuitBreaker\<close>, \<open>Outbox\<close>: reconnects and the durable outbox (\<^verbatim>\<open>internal/relay\<close>).
  \<^item> \<open>WsHub\<close>, \<open>PermissionPrompts\<close>: the web socket hub with its replay, and prompts in the browser
    (\<^verbatim>\<open>internal/server\<close>).
  \<^item> \<open>JsonText\<close>, \<open>SessionLog\<close>, \<open>SessionStore\<close>: the append-only log of messages with its repair, and the
    session files (\<^verbatim>\<open>internal/session\<close>).
  \<^item> \<open>SpaceWakes\<close>: who a reply wakes (\<^verbatim>\<open>internal/spaces\<close>). \<open>SwarmOutput\<close>, \<open>SwarmRun\<close>:
    parallel runs of tasks (\<^verbatim>\<open>internal/swarm\<close>). \<open>RadarImpact\<close>, \<open>RadarDrift\<close>: what a change
    touches, and cycles of imports (\<^verbatim>\<open>internal/radar\<close>).

  \<^bold>\<open>How they interact.\<close> A message of a user reaches the loop of an agent (\<open>AgentLoop\<close>), whose tools are those
  of \<open>Toolbelt\<close> behind \<open>PermissionGate\<close>; a prompt of the gate is answered through \<open>PermissionPrompts\<close>, which may
  write \<open>AgentStore\<close>. A call of \<open>delegate_to_agent\<close> or a mention in the reply makes a thread (\<open>Delegation\<close>), which
  \<open>ThreadSession\<close> schedules and \<open>ThreadRun\<close> runs. Events go to the browser through \<open>WsHub\<close> and to remote
  clients through \<open>Outbox\<close>. A workflow calls agents through \<open>WorkflowRunner\<close>.

  \<^bold>\<open>Shared parts.\<close> \<open>Prelude\<close> has the vocabulary (Go maps, strings, times, results), \<open>Interfaces\<close> five
  contracts as locales (bounded history, lifecycle, breaker, dependency graph, capability), each
  interpreted on the definitions of the components that provide it.

  \<^bold>\<open>Conventions.\<close> A Go map is an association list with distinct keys (\<open>gm_wf\<close>), and a
  theorem about all such lists covers every iteration order. An operation under a lock is one atomic
  step; concurrency is the interleaving of steps, as a list of events where the order matters. The clock, fresh
  identifiers, stores, the file system outside \<open>FileSystem\<close>, models and every callback are arguments or a trace of effects
  (\<open>tm_effects\<close>). Errors are values of a sum type. Strings are byte lists; case is folded on ASCII.

  \<^bold>\<open>Properties.\<close> The numbered claims are theorems: lifecycles and caps of threads, approval before high-risk
  tools, histories that stay answered, refinement of a workflow run by its log, exactness of the searches for
  cycles, round trips of diffs, logs and checkpoints, confinement of file tools, invariants of every queue
  and table under all interleavings, and the ways in which some promises of the comments fail. Lemmas beside them state the behaviour
  of the single operations.

  \<^bold>\<open>Bounds and fuel.\<close> The constants are those of the code: 50 turns of a thread, 20 threads of a session, 1000 rows of
  the outbox, 8 failures of the relay breaker, 5 of an endpoint, 3 of a tool server, 5 attempts of a delivery and of a
  replication, 1000 entries of an allow-list, 10 step retries, 10 concurrent workflows, 4000 lines and 200 shown lines of a diff, 512
  replayed messages, 10 mentions, 5 hops. Fuel occurs where the code recurses or follows links without a visible measure: nested runs get one
  more than there are workflows, which \<open>WorkflowNesting\<close> shows to be enough, and the resolution of
  symbolic links the 255 steps of the library, which end in its error.

  \<^bold>\<open>Not modelled.\<close> Rendering and keys of the terminal client, prompt texts and the HTTP clients of models,
  repair of streamed text, SQL statements and migrations (a table is the list of its rows), OAuth and third-party services, git and
  shell processes, search with floating-point scores, the operating system's keychain and services, logging and
  metrics, the TypeScript front end. They are the code of other systems behind an interface, or
  have no decision of their own that the model could state; what the modelled parts rely on of them is an argument.
\<close>

end
